(* ===== verification/Prelude.thy ===== *)
theory Prelude
  imports Main "HOL-Library.Word" "HOL-Library.Monad_Syntax" "HOL-Library.Multiset"
begin

unbundle bit_operations_syntax

text \<open>
  Shared vocabulary of the development of racccoon's C library (\<^verbatim>\<open>src/lib/racccoon-libc\<close>).

  \<^item> Bytes are \<open>char\<close> (256 values, literals \<^verbatim>\<open>CHR ''a''\<close>); C strings and byte buffers are
    \<open>string\<close> (lists of bytes). \<open>NUL\<close> is the terminator. \<open>ord c\<close> reads a byte as the
    \<^verbatim>\<open>unsigned char\<close> value the code casts it to.
  \<^item> C's \<^verbatim>\<open>int\<close> and \<^verbatim>\<open>long\<close> are \<open>int\<close>; the conversions that can lose bits are written out with
    \<open>to_int32\<close>, \<open>to_int64\<close>, \<open>to_u32\<close>. Where arithmetic wraps and it matters the value is a
    \<open>64 word\<close> or \<open>32 word\<close>.
  \<^item> Little-endian integers in buffers (the fsd wire format, word-wise copies) are \<open>le_bytes\<close> and
    \<open>le_nat\<close>.
\<close>

type_synonym byte = char
type_synonym u64 = "64 word"
type_synonym u32 = "32 word"

abbreviation NUL :: byte where "NUL \<equiv> CHR 0x00"

definition ord :: "byte \<Rightarrow> int" where
  "ord c = of_char c"

definition chr :: "int \<Rightarrow> byte" where
  "chr n = char_of (n mod 256)"

text \<open>The lossy C conversions.\<close>

definition to_int32 :: "int \<Rightarrow> int" where
  "to_int32 x = signed_take_bit 31 x"

definition to_int64 :: "int \<Rightarrow> int" where
  "to_int64 x = signed_take_bit 63 x"

definition to_u32 :: "int \<Rightarrow> int" where
  "to_u32 x = x mod 2 ^ 32"

definition to_u64 :: "int \<Rightarrow> int" where
  "to_u64 x = x mod 2 ^ 64"

text \<open>Little-endian byte strings.\<close>

fun le_nat :: "byte list \<Rightarrow> nat" where
  "le_nat [] = 0"
| "le_nat (c # cs) = of_char c + 256 * le_nat cs"

fun le_bytes :: "nat \<Rightarrow> nat \<Rightarrow> byte list" where
  "le_bytes 0 v = []"
| "le_bytes (Suc k) v = char_of v # le_bytes k (v div 256)"

text \<open>Collections the component theories fill.\<close>

named_theorems abspath_simps \<open>evaluation of the path layer\<close>
named_theorems mem_intros \<open>mapped regions and memory updates\<close>
named_theorems inv_intros \<open>an operation keeps its component's invariant\<close>

subsection \<open>Bytes\<close>

lemma ord_ge0 [simp]: "0 \<le> ord c"
proof -
  have "ord c = int (of_char c)" by (simp add: ord_def of_nat_of_char)
  then show ?thesis by simp
qed

lemma ord_less [simp]: "ord c < 256"
proof -
  have "ord c = int (of_char c)" by (simp add: ord_def of_nat_of_char)
  then show ?thesis using nat_of_char_less_256 [of c] by linarith
qed

lemma ord_mod [simp]: "ord c mod 256 = ord c"
  by (simp add: mod_pos_pos_trivial)

lemma ord_eq_iff [simp]: "ord c = ord d \<longleftrightarrow> c = d"
  by (simp add: ord_def)

lemma ord_chr [simp]: "ord (chr n) = n mod 256"
  by (simp add: ord_def chr_def)

lemma chr_ord [simp]: "chr (ord c) = c"
  using ord_ge0 [of c] ord_less [of c] by (simp add: chr_def) (simp add: ord_def)

lemma ord_NUL [simp]: "ord NUL = 0"
  by (simp add: ord_def)

lemma ord_eq_0 [simp]: "ord c = 0 \<longleftrightarrow> c = NUL"
  by (metis ord_NUL ord_eq_iff)

subsection \<open>C conversions\<close>

lemma to_int32_id [simp]: "- (2 ^ 31) \<le> x \<Longrightarrow> x < 2 ^ 31 \<Longrightarrow> to_int32 x = x"
  by (simp add: to_int32_def signed_take_bit_int_eq_self)

lemma to_int32_range: "- (2 ^ 31) \<le> to_int32 x" "to_int32 x < 2 ^ 31"
  unfolding to_int32_def using signed_take_bit_int_greater_eq_minus_exp [of 31 x] signed_take_bit_int_less_exp [of 31 x]
  by simp_all

lemma to_int64_id [simp]: "- (2 ^ 63) \<le> x \<Longrightarrow> x < 2 ^ 63 \<Longrightarrow> to_int64 x = x"
  by (simp add: to_int64_def signed_take_bit_int_eq_self)

lemma to_u32_id [simp]: "0 \<le> x \<Longrightarrow> x < 2 ^ 32 \<Longrightarrow> to_u32 x = x"
  by (simp add: to_u32_def)

subsection \<open>Little-endian integers\<close>

lemma length_le_bytes [simp]: "length (le_bytes k v) = k"
  by (induction k arbitrary: v) auto

lemma le_nat_bound: "le_nat bs < 256 ^ length bs"
proof (induction bs)
  case Nil
  then show ?case by simp
next
  case (Cons c bs)
  have "(of_char c :: nat) < 256" by (rule nat_of_char_less_256)
  moreover have "256 * le_nat bs + 256 \<le> 256 * 256 ^ length bs" using Cons.IH by simp
  ultimately show ?case by (simp del: nat_of_char_less_256)
qed

lemma le_nat_le_bytes: "v < 256 ^ k \<Longrightarrow> le_nat (le_bytes k v) = v"
proof (induction k arbitrary: v)
  case 0
  then show ?case by simp
next
  case (Suc k)
  then have "v div 256 < 256 ^ k"
    by (simp add: less_mult_imp_div_less mult.commute)
  with Suc.IH show ?case by simp
qed

lemma le_bytes_le_nat: "le_bytes (length bs) (le_nat bs) = bs"
proof (induction bs)
  case Nil
  then show ?case by simp
next
  case (Cons c bs)
  have c: "(of_char c :: nat) < 256" by simp
  have "(of_char c + 256 * le_nat bs) div 256 = le_nat bs" using c by simp
  moreover have "char_of (of_char c + 256 * le_nat bs) = c"
    by (metis char_of_char char_of_mod_256 mod_mult_self2)
  ultimately show ?case using Cons.IH by simp
qed

subsection \<open>Lists\<close>

lemma takeWhile_append_stop: "\<forall>x \<in> set xs. P x \<Longrightarrow> \<not> P y \<Longrightarrow> takeWhile P (xs @ y # ys) = xs"
  by (induction xs) auto

lemma dropWhile_append_stop: "\<forall>x \<in> set xs. P x \<Longrightarrow> \<not> P y \<Longrightarrow> dropWhile P (xs @ y # ys) = y # ys"
  by (induction xs) auto

subsection \<open>A fixed-size character array read as a C string\<close>

definition cstr_of :: "byte list \<Rightarrow> byte list" where
  "cstr_of x = takeWhile (\<lambda>c. c \<noteq> NUL) x"

lemma cstr_of_NUL: "NUL \<notin> set (cstr_of x)"
  by (induction x) (auto simp: cstr_of_def)

lemma cstr_of_append: "NUL \<notin> set x \<Longrightarrow> cstr_of (x @ NUL # y) = x"
  by (induction x) (auto simp: cstr_of_def)

lemma cstr_of_id: "NUL \<notin> set x \<Longrightarrow> cstr_of x = x"
  by (induction x) (auto simp: cstr_of_def)

end
