(* ===== verification/CString.thy ===== *)
theory CString
  imports Prelude
begin

unbundle bit_operations_syntax

text \<open>
  \<^verbatim>\<open>src/string.c\<close>: the \<^verbatim>\<open>mem*\<close> and \<^verbatim>\<open>str*\<close> functions over an explicit memory.

  The memory is a partial map from addresses to bytes; an address outside its domain is not mapped,
  and reading or writing it makes the whole call \<open>None\<close>. A pointer is an address (\<open>nat\<close>; C objects
  never wrap around the address space), \<open>NULL\<close> is 0. A scan that has no bound of its own
  (\<open>strlen\<close> and the like) is a \<^theory_text>\<open>partial_function (option)\<close>, so that running off the mapped
  memory or for ever is \<open>None\<close> too; the lemmas then show that on a terminated string every function
  returns. \<open>cstr m p xs\<close> says that the C string \<open>xs\<close> is stored at \<open>p\<close>.

  Each function comes with a reference definition on lists (\<open>strcmp_list\<close>, \<open>span_in\<close>, ...), which
  the components that only handle string contents use.
\<close>

type_synonym mem = "nat \<rightharpoonup> byte"

definition NULL :: nat where
  "NULL = 0"

subsection \<open>Memory accesses\<close>

definition store :: "mem \<Rightarrow> nat \<Rightarrow> byte \<Rightarrow> mem option" where
  "store m p c = (case m p of None \<Rightarrow> None | Some _ \<Rightarrow> Some (m(p \<mapsto> c)))"

fun load_bytes :: "mem \<Rightarrow> nat \<Rightarrow> nat \<Rightarrow> byte list option" where
  "load_bytes m p 0 = Some []"
| "load_bytes m p (Suc n) = do { c \<leftarrow> m p; cs \<leftarrow> load_bytes m (p + 1) n; Some (c # cs) }"

fun store_bytes :: "mem \<Rightarrow> nat \<Rightarrow> byte list \<Rightarrow> mem option" where
  "store_bytes m p [] = Some m"
| "store_bytes m p (c # cs) = do { m' \<leftarrow> store m p c; store_bytes m' (p + 1) cs }"

text \<open>\<^verbatim>\<open>*(unsigned long *)p\<close>: eight bytes, little-endian.\<close>

definition load64 :: "mem \<Rightarrow> nat \<Rightarrow> u64 option" where
  "load64 m p = do { bs \<leftarrow> load_bytes m p 8; Some (of_nat (le_nat bs)) }"

definition store64 :: "mem \<Rightarrow> nat \<Rightarrow> u64 \<Rightarrow> mem option" where
  "store64 m p w = store_bytes m p (le_bytes 8 (unat w))"

subsection \<open>memcpy, memmove, memset\<close>

text \<open>\<^verbatim>\<open>while (n && ((unsigned long)d & 7)) { *d++ = *s++; n--; }\<close>\<close>

fun memcpy_head :: "mem \<Rightarrow> nat \<Rightarrow> nat \<Rightarrow> nat \<Rightarrow> (mem \<times> nat \<times> nat \<times> nat) option" where
  "memcpy_head m d s 0 = Some (m, d, s, 0)"
| "memcpy_head m d s (Suc n) =
     (if d AND 7 \<noteq> 0
      then do { c \<leftarrow> m s; m' \<leftarrow> store m d c; memcpy_head m' (d + 1) (s + 1) n }
      else Some (m, d, s, Suc n))"

text \<open>\<^verbatim>\<open>while (n >= 8) { *(unsigned long *)d = *(const unsigned long *)s; d += 8; s += 8; n -= 8; }\<close>\<close>

function memcpy_words :: "mem \<Rightarrow> nat \<Rightarrow> nat \<Rightarrow> nat \<Rightarrow> (mem \<times> nat \<times> nat \<times> nat) option" where
  "memcpy_words m d s n =
     (if 8 \<le> n
      then do { w \<leftarrow> load64 m s; m' \<leftarrow> store64 m d w; memcpy_words m' (d + 8) (s + 8) (n - 8) }
      else Some (m, d, s, n))"
  by pat_completeness auto
termination
  by (relation "measure (\<lambda>(m, d, s, n). n)") auto

declare memcpy_words.simps [simp del]

text \<open>\<^verbatim>\<open>while (n--) *d++ = *s++;\<close>\<close>

fun memcpy_tail :: "mem \<Rightarrow> nat \<Rightarrow> nat \<Rightarrow> nat \<Rightarrow> mem option" where
  "memcpy_tail m d s 0 = Some m"
| "memcpy_tail m d s (Suc n) =
     do { c \<leftarrow> m s; m' \<leftarrow> store m d c; memcpy_tail m' (d + 1) (s + 1) n }"

definition memcpy :: "mem \<Rightarrow> nat \<Rightarrow> nat \<Rightarrow> nat \<Rightarrow> mem option" where
  "memcpy m dst src n =
     do { (m1, d1, s1, n1) \<leftarrow> memcpy_head m dst src n;
          (m2, d2, s2, n2) \<leftarrow> (if s1 AND 7 = 0 then memcpy_words m1 d1 s1 n1 else Some (m1, d1, s1, n1));
          memcpy_tail m2 d2 s2 n2 }"

text \<open>\<^verbatim>\<open>while (n--) *--d = *--s;\<close> with \<open>d\<close> and \<open>s\<close> already past the end.\<close>

fun memmove_down :: "mem \<Rightarrow> nat \<Rightarrow> nat \<Rightarrow> nat \<Rightarrow> mem option" where
  "memmove_down m d s 0 = Some m"
| "memmove_down m d s (Suc n) =
     do { c \<leftarrow> m (s - 1); m' \<leftarrow> store m (d - 1) c; memmove_down m' (d - 1) (s - 1) n }"

definition memmove :: "mem \<Rightarrow> nat \<Rightarrow> nat \<Rightarrow> nat \<Rightarrow> mem option" where
  "memmove m dst src n =
     (if dst = src \<or> n = 0 then Some m
      else if dst < src then memcpy m dst src n
      else memmove_down m (dst + n) (src + n) n)"

fun memset_head :: "mem \<Rightarrow> nat \<Rightarrow> byte \<Rightarrow> nat \<Rightarrow> (mem \<times> nat \<times> nat) option" where
  "memset_head m p b 0 = Some (m, p, 0)"
| "memset_head m p b (Suc n) =
     (if p AND 7 \<noteq> 0
      then do { m' \<leftarrow> store m p b; memset_head m' (p + 1) b n }
      else Some (m, p, Suc n))"

function memset_words :: "mem \<Rightarrow> nat \<Rightarrow> u64 \<Rightarrow> nat \<Rightarrow> (mem \<times> nat \<times> nat) option" where
  "memset_words m p w n =
     (if 8 \<le> n
      then do { m' \<leftarrow> store64 m p w; memset_words m' (p + 8) w (n - 8) }
      else Some (m, p, n))"
  by pat_completeness auto
termination
  by (relation "measure (\<lambda>(m, p, w, n). n)") auto

declare memset_words.simps [simp del]

fun memset_tail :: "mem \<Rightarrow> nat \<Rightarrow> byte \<Rightarrow> nat \<Rightarrow> mem option" where
  "memset_tail m p b 0 = Some m"
| "memset_tail m p b (Suc n) = do { m' \<leftarrow> store m p b; memset_tail m' (p + 1) b n }"

definition memset :: "mem \<Rightarrow> nat \<Rightarrow> int \<Rightarrow> nat \<Rightarrow> mem option" where
  "memset m s c n =
     (let b = chr c; w = (0x0101010101010101 :: u64) * of_char b
      in do { (m1, p1, n1) \<leftarrow> memset_head m s b n;
              (m2, p2, n2) \<leftarrow> memset_words m1 p1 w n1;
              memset_tail m2 p2 b n2 })"

definition bzero :: "mem \<Rightarrow> nat \<Rightarrow> nat \<Rightarrow> mem option" where
  "bzero m s n = memset m s 0 n"

definition bcopy :: "mem \<Rightarrow> nat \<Rightarrow> nat \<Rightarrow> nat \<Rightarrow> mem option" where
  "bcopy m src dst n = memmove m dst src n"

subsection \<open>Comparing and searching\<close>

fun memcmp :: "mem \<Rightarrow> nat \<Rightarrow> nat \<Rightarrow> nat \<Rightarrow> int option" where
  "memcmp m a b 0 = Some 0"
| "memcmp m a b (Suc n) =
     do { x \<leftarrow> m a; y \<leftarrow> m b;
          if x \<noteq> y then Some (ord x - ord y) else memcmp m (a + 1) (b + 1) n }"

fun memchr_loop :: "mem \<Rightarrow> nat \<Rightarrow> byte \<Rightarrow> nat \<Rightarrow> nat option" where
  "memchr_loop m p b 0 = Some NULL"
| "memchr_loop m p b (Suc n) =
     do { c \<leftarrow> m p; if c = b then Some p else memchr_loop m (p + 1) b n }"

definition memchr :: "mem \<Rightarrow> nat \<Rightarrow> int \<Rightarrow> nat \<Rightarrow> nat option" where
  "memchr m s c n = memchr_loop m s (chr c) n"

fun memrchr_loop :: "mem \<Rightarrow> nat \<Rightarrow> byte \<Rightarrow> nat \<Rightarrow> nat option" where
  "memrchr_loop m p b 0 = Some NULL"
| "memrchr_loop m p b (Suc n) =
     do { c \<leftarrow> m (p - 1); if c = b then Some (p - 1) else memrchr_loop m (p - 1) b n }"

definition memrchr :: "mem \<Rightarrow> nat \<Rightarrow> int \<Rightarrow> nat \<Rightarrow> nat option" where
  "memrchr m s c n = memrchr_loop m (s + n) (chr c) n"

partial_function (option) strlen_loop :: "mem \<Rightarrow> nat \<Rightarrow> nat option" where
  [code]: "strlen_loop m p = do { c \<leftarrow> m p; if c = NUL then Some p else strlen_loop m (p + 1) }"

definition strlen :: "mem \<Rightarrow> nat \<Rightarrow> nat option" where
  "strlen m s = do { p \<leftarrow> strlen_loop m s; Some (p - s) }"

fun strnlen_loop :: "mem \<Rightarrow> nat \<Rightarrow> nat \<Rightarrow> nat \<Rightarrow> nat option" where
  "strnlen_loop m s n 0 = Some n"
| "strnlen_loop m s n (Suc left) =
     do { c \<leftarrow> m (s + n); if c = NUL then Some n else strnlen_loop m s (n + 1) left }"

definition strnlen :: "mem \<Rightarrow> nat \<Rightarrow> nat \<Rightarrow> nat option" where
  "strnlen m s maxlen = strnlen_loop m s 0 maxlen"

partial_function (option) strcmp :: "mem \<Rightarrow> nat \<Rightarrow> nat \<Rightarrow> int option" where
  [code]: "strcmp m a b =
     do { x \<leftarrow> m a; y \<leftarrow> m b;
          if x \<noteq> NUL \<and> x = y then strcmp m (a + 1) (b + 1) else Some (ord x - ord y) }"

fun strncmp :: "mem \<Rightarrow> nat \<Rightarrow> nat \<Rightarrow> nat \<Rightarrow> int option" where
  "strncmp m a b 0 = Some 0"
| "strncmp m a b (Suc n) =
     do { ca \<leftarrow> m a; cb \<leftarrow> m b;
          if ca \<noteq> cb then Some (ord ca - ord cb)
          else if ca = NUL then Some 0
          else strncmp m (a + 1) (b + 1) n }"

definition lc :: "int \<Rightarrow> int" where
  "lc c = (if ord CHR ''A'' \<le> c \<and> c \<le> ord CHR ''Z'' then c + 32 else c)"

partial_function (option) strcasecmp :: "mem \<Rightarrow> nat \<Rightarrow> nat \<Rightarrow> int option" where
  [code]: "strcasecmp m a b =
     do { x \<leftarrow> m a; y \<leftarrow> m b;
          if x \<noteq> NUL \<and> lc (ord x) = lc (ord y) then strcasecmp m (a + 1) (b + 1)
          else Some (lc (ord x) - lc (ord y)) }"

fun strncasecmp :: "mem \<Rightarrow> nat \<Rightarrow> nat \<Rightarrow> nat \<Rightarrow> int option" where
  "strncasecmp m a b 0 = Some 0"
| "strncasecmp m a b (Suc n) =
     do { x \<leftarrow> m a; y \<leftarrow> m b;
          if x \<noteq> NUL \<and> lc (ord x) = lc (ord y) then strncasecmp m (a + 1) (b + 1) n
          else Some (lc (ord x) - lc (ord y)) }"

partial_function (option) strchr_loop :: "mem \<Rightarrow> nat \<Rightarrow> byte \<Rightarrow> nat option" where
  [code]: "strchr_loop m s ch =
     do { c \<leftarrow> m s; if c = ch then Some s else if c = NUL then Some NULL else strchr_loop m (s + 1) ch }"

definition strchr :: "mem \<Rightarrow> nat \<Rightarrow> int \<Rightarrow> nat option" where
  "strchr m s c = strchr_loop m s (chr c)"

partial_function (option) strrchr_loop :: "mem \<Rightarrow> nat \<Rightarrow> byte \<Rightarrow> nat \<Rightarrow> nat option" where
  [code]: "strrchr_loop m s ch lastp =
     do { c \<leftarrow> m s;
          let last' = (if c = ch then s else lastp);
          if c = NUL then Some last' else strrchr_loop m (s + 1) ch last' }"

definition strrchr :: "mem \<Rightarrow> nat \<Rightarrow> int \<Rightarrow> nat option" where
  "strrchr m s c = strrchr_loop m s (chr c) NULL"

partial_function (option) strstr_loop :: "mem \<Rightarrow> nat \<Rightarrow> nat \<Rightarrow> nat \<Rightarrow> nat option" where
  [code]: "strstr_loop m hay needle nl =
     do { h \<leftarrow> m hay;
          if h = NUL then Some NULL
          else do { n0 \<leftarrow> m needle;
                    hit \<leftarrow> (if h = n0 then do { r \<leftarrow> strncmp m hay needle nl; Some (r = 0) } else Some False);
                    if hit then Some hay else strstr_loop m (hay + 1) needle nl } }"

definition strstr :: "mem \<Rightarrow> nat \<Rightarrow> nat \<Rightarrow> nat option" where
  "strstr m hay needle =
     do { n0 \<leftarrow> m needle;
          if n0 = NUL then Some hay
          else do { nl \<leftarrow> strlen m needle; strstr_loop m hay needle nl } }"

text \<open>\<^verbatim>\<open>i + nn <= hn\<close> is the loop guard; \<open>tries\<close> counts the remaining values of \<open>i\<close>.\<close>

fun memmem_loop :: "mem \<Rightarrow> nat \<Rightarrow> nat \<Rightarrow> nat \<Rightarrow> nat \<Rightarrow> nat option" where
  "memmem_loop m h needle nn 0 = Some NULL"
| "memmem_loop m h needle nn (Suc tries) =
     do { c \<leftarrow> m h; n0 \<leftarrow> m needle;
          hit \<leftarrow> (if c = n0 then do { r \<leftarrow> memcmp m h needle nn; Some (r = 0) } else Some False);
          if hit then Some h else memmem_loop m (h + 1) needle nn tries }"

definition memmem :: "mem \<Rightarrow> nat \<Rightarrow> nat \<Rightarrow> nat \<Rightarrow> nat \<Rightarrow> nat option" where
  "memmem m hay hn needle nn =
     (if nn = 0 then Some hay
      else if nn > hn then Some NULL
      else memmem_loop m hay needle nn (hn - nn + 1))"

partial_function (option) strspn_loop :: "mem \<Rightarrow> nat \<Rightarrow> nat \<Rightarrow> nat \<Rightarrow> nat option" where
  [code]: "strspn_loop m s accept n =
     do { c \<leftarrow> m (s + n);
          if c = NUL then Some n
          else do { q \<leftarrow> strchr m accept (ord c);
                    if q = NULL then Some n else strspn_loop m s accept (n + 1) } }"

definition strspn :: "mem \<Rightarrow> nat \<Rightarrow> nat \<Rightarrow> nat option" where
  "strspn m s accept = strspn_loop m s accept 0"

partial_function (option) strcspn_loop :: "mem \<Rightarrow> nat \<Rightarrow> nat \<Rightarrow> nat \<Rightarrow> nat option" where
  [code]: "strcspn_loop m s accept n =
     do { c \<leftarrow> m (s + n);
          if c = NUL then Some n
          else do { q \<leftarrow> strchr m accept (ord c);
                    if q \<noteq> NULL then Some n else strcspn_loop m s accept (n + 1) } }"

definition strcspn :: "mem \<Rightarrow> nat \<Rightarrow> nat \<Rightarrow> nat option" where
  "strcspn m s accept = strcspn_loop m s accept 0"

partial_function (option) strpbrk :: "mem \<Rightarrow> nat \<Rightarrow> nat \<Rightarrow> nat option" where
  [code]: "strpbrk m s accept =
     do { c \<leftarrow> m s;
          if c = NUL then Some NULL
          else do { q \<leftarrow> strchr m accept (ord c);
                    if q \<noteq> NULL then Some s else strpbrk m (s + 1) accept } }"

partial_function (option) ffs_loop :: "int \<Rightarrow> nat \<Rightarrow> nat option" where
  [code]: "ffs_loop v i = (if v AND 1 \<noteq> 0 then Some i else ffs_loop (drop_bit 1 v) (i + 1))"

definition ffs :: "int \<Rightarrow> nat option" where
  "ffs v = (if v = 0 then Some 0 else ffs_loop v 1)"

definition strcoll :: "mem \<Rightarrow> nat \<Rightarrow> nat \<Rightarrow> int option" where
  "strcoll m a b = strcmp m a b"

definition strcoll_l :: "mem \<Rightarrow> nat \<Rightarrow> nat \<Rightarrow> 'locale \<Rightarrow> int option" where
  "strcoll_l m a b l = strcoll m a b"

subsection \<open>Copying strings\<close>

partial_function (option) strcpy_loop :: "mem \<Rightarrow> nat \<Rightarrow> nat \<Rightarrow> mem option" where
  [code]: "strcpy_loop m d s =
     do { c \<leftarrow> m s; m' \<leftarrow> store m d c;
          if c = NUL then Some m' else strcpy_loop m' (d + 1) (s + 1) }"

definition strcpy :: "mem \<Rightarrow> nat \<Rightarrow> nat \<Rightarrow> mem option" where
  "strcpy m dst src = strcpy_loop m dst src"

text \<open>\<^verbatim>\<open>for (; i < n && src[i]; i++) dst[i] = src[i];\<close>, shared by \<open>strncpy\<close> and \<open>strncat\<close>.\<close>

function copy_upto :: "mem \<Rightarrow> nat \<Rightarrow> nat \<Rightarrow> nat \<Rightarrow> nat \<Rightarrow> (mem \<times> nat) option" where
  "copy_upto m d s n i =
     (if i < n
      then do { c \<leftarrow> m (s + i);
                if c = NUL then Some (m, i)
                else do { m' \<leftarrow> store m (d + i) c; copy_upto m' d s n (i + 1) } }
      else Some (m, i))"
  by pat_completeness auto
termination
  by (relation "measure (\<lambda>(m, d, s, n, i). n - i)") auto

declare copy_upto.simps [simp del]

text \<open>\<^verbatim>\<open>for (; i < n; i++) dst[i] = 0;\<close> is the byte fill \<open>memset_tail\<close> of the last \<open>n - i\<close> bytes.\<close>

definition strncpy :: "mem \<Rightarrow> nat \<Rightarrow> nat \<Rightarrow> nat \<Rightarrow> mem option" where
  "strncpy m dst src n =
     do { (m1, i) \<leftarrow> copy_upto m dst src n 0; memset_tail m1 (dst + i) NUL (n - i) }"

definition strcat :: "mem \<Rightarrow> nat \<Rightarrow> nat \<Rightarrow> mem option" where
  "strcat m dst src = do { l \<leftarrow> strlen m dst; strcpy m (dst + l) src }"

definition strncat :: "mem \<Rightarrow> nat \<Rightarrow> nat \<Rightarrow> nat \<Rightarrow> mem option" where
  "strncat m dst src n =
     do { l \<leftarrow> strlen m dst;
          (m1, i) \<leftarrow> copy_upto m (dst + l) src n 0;
          store m1 (dst + l + i) NUL }"

definition strxfrm :: "mem \<Rightarrow> nat \<Rightarrow> nat \<Rightarrow> nat \<Rightarrow> (nat \<times> mem) option" where
  "strxfrm m dst src n =
     do { len \<leftarrow> strlen m src;
          if n \<noteq> 0
          then do { m' \<leftarrow> memcpy m dst src (if len < n then len + 1 else n); Some (len, m') }
          else Some (len, m) }"

definition strxfrm_l :: "mem \<Rightarrow> nat \<Rightarrow> nat \<Rightarrow> nat \<Rightarrow> 'locale \<Rightarrow> (nat \<times> mem) option" where
  "strxfrm_l m dst src n l = strxfrm m dst src n"

text \<open>\<open>malloc\<close> (dlmalloc, vendored) is the parameter \<open>alloc\<close>: block address (\<open>NULL\<close> on failure) and
  the memory with the block mapped.\<close>

definition strdup :: "(mem \<Rightarrow> nat \<Rightarrow> nat \<times> mem) \<Rightarrow> mem \<Rightarrow> nat \<Rightarrow> (nat \<times> mem) option" where
  "strdup alloc m s =
     do { l \<leftarrow> strlen m s;
          let n = l + 1;
          let (p, m1) = alloc m n;
          if p \<noteq> NULL then do { m2 \<leftarrow> memcpy m1 p s n; Some (p, m2) } else Some (p, m1) }"

definition strndup :: "(mem \<Rightarrow> nat \<Rightarrow> nat \<times> mem) \<Rightarrow> mem \<Rightarrow> nat \<Rightarrow> nat \<Rightarrow> (nat \<times> mem) option" where
  "strndup alloc m s maxlen =
     do { n \<leftarrow> strnlen_loop m s 0 maxlen;
          let (p, m1) = alloc m (n + 1);
          if p \<noteq> NULL
          then do { m2 \<leftarrow> memcpy m1 p s n; m3 \<leftarrow> store m2 (p + n) NUL; Some (p, m3) }
          else Some (p, m1) }"

subsection \<open>Tokenising\<close>

text \<open>Results are (token or \<open>NULL\<close>, new \<open>*save\<close>, memory).\<close>

definition strtok_r :: "mem \<Rightarrow> nat \<Rightarrow> nat \<Rightarrow> nat \<Rightarrow> (nat \<times> nat \<times> mem) option" where
  "strtok_r m s0 sep save =
     (let s1 = (if s0 = NULL then save else s0)
      in if s1 = NULL then Some (NULL, save, m)
         else do { k \<leftarrow> strspn m s1 sep;
                   let s = s1 + k;
                   c \<leftarrow> m s;
                   if c = NUL then Some (NULL, NULL, m)
                   else do { l \<leftarrow> strcspn m s sep;
                             let stop = s + l;
                             e \<leftarrow> m stop;
                             if e \<noteq> NUL
                             then do { m' \<leftarrow> store m stop NUL; Some (s, stop + 1, m') }
                             else Some (s, NULL, m) } })"

text \<open>\<open>strtok\<close> keeps \<open>save\<close> in a static variable: the state is passed explicitly.\<close>

definition strtok :: "mem \<Rightarrow> nat \<Rightarrow> nat \<Rightarrow> nat \<Rightarrow> (nat \<times> nat \<times> mem) option" where
  "strtok m s sep static_save = strtok_r m s sep static_save"

definition strsep :: "mem \<Rightarrow> nat \<Rightarrow> nat \<Rightarrow> (nat \<times> nat \<times> mem) option" where
  "strsep m s sep =
     (if s = NULL then Some (NULL, s, m)
      else do { l \<leftarrow> strcspn m s sep;
                let stop = s + l;
                e \<leftarrow> m stop;
                if e \<noteq> NUL
                then do { m' \<leftarrow> store m stop NUL; Some (s, stop + 1, m') }
                else Some (s, NULL, m) })"

subsection \<open>Regions\<close>

definition mapped :: "mem \<Rightarrow> nat \<Rightarrow> nat \<Rightarrow> bool" where
  "mapped m p n \<longleftrightarrow> (\<forall>i < n. m (p + i) \<noteq> None)"

definition blk_copy :: "mem \<Rightarrow> nat \<Rightarrow> nat \<Rightarrow> nat \<Rightarrow> mem" where
  "blk_copy m d s n = (\<lambda>a. if d \<le> a \<and> a < d + n then m (s + (a - d)) else m a)"

definition blk_fill :: "mem \<Rightarrow> nat \<Rightarrow> byte \<Rightarrow> nat \<Rightarrow> mem" where
  "blk_fill m p b n = (\<lambda>a. if p \<le> a \<and> a < p + n then Some b else m a)"

text \<open>A forward copy does not destroy what it still has to read.\<close>

definition fwd_ok :: "nat \<Rightarrow> nat \<Rightarrow> nat \<Rightarrow> bool" where
  "fwd_ok d s n \<longleftrightarrow> d \<le> s \<or> s + n \<le> d"

lemma and_7_mod_8: "(x :: nat) AND 7 = x mod 8"
proof -
  have "(7 :: nat) = mask 3" by (simp add: mask_eq_exp_minus_1)
  then have "x AND 7 = take_bit 3 x" by (simp only: take_bit_eq_mask)
  then show ?thesis by (simp add: take_bit_eq_mod)
qed

lemma mapped_0 [simp, mem_intros]: "mapped m p 0"
  by (simp add: mapped_def)

lemma mapped_Suc: "mapped m p (Suc n) \<longleftrightarrow> m p \<noteq> None \<and> mapped m (p + 1) n"
proof
  assume a: "mapped m p (Suc n)"
  have "m (p + 1 + i) \<noteq> None" if "i < n" for i
    using a that by (auto simp: mapped_def dest: spec [of _ "Suc i"])
  moreover have "m p \<noteq> None" using a by (auto simp: mapped_def dest: spec [of _ 0])
  ultimately show "m p \<noteq> None \<and> mapped m (p + 1) n" by (simp add: mapped_def)
next
  assume a: "m p \<noteq> None \<and> mapped m (p + 1) n"
  show "mapped m p (Suc n)"
    unfolding mapped_def
  proof (intro allI impI)
    fix i assume "i < Suc n"
    with a show "m (p + i) \<noteq> None" by (cases i) (auto simp: mapped_def)
  qed
qed

lemma mapped_upd [mem_intros]: "mapped m p n \<Longrightarrow> mapped (m(a \<mapsto> c)) p n"
  by (simp add: mapped_def)

lemma mapped_sub: "mapped m p n \<Longrightarrow> i + k \<le> n \<Longrightarrow> mapped m (p + i) k"
  by (simp add: mapped_def add.assoc)

lemma mapped_blk_copy [mem_intros]:
  "mapped m p n \<Longrightarrow> mapped m s k \<Longrightarrow> mapped (blk_copy m d s k) p n"
  unfolding mapped_def blk_copy_def
proof (intro allI impI)
  fix i
  assume p: "\<forall>i < n. m (p + i) \<noteq> None" and s: "\<forall>i < k. m (s + i) \<noteq> None" and i: "i < n"
  show "(if d \<le> p + i \<and> p + i < d + k then m (s + (p + i - d)) else m (p + i)) \<noteq> None"
  proof (cases "d \<le> p + i \<and> p + i < d + k")
    case True
    then have "p + i - d < k" by linarith
    with s True show ?thesis by auto
  next
    case False
    then have "(if d \<le> p + i \<and> p + i < d + k then m (s + (p + i - d)) else m (p + i)) = m (p + i)"
      by (simp only: if_False)
    with p i show ?thesis by (simp only:) blast
  qed
qed

lemma mapped_blk_fill [mem_intros]: "mapped m p n \<Longrightarrow> mapped (blk_fill m q b k) p n"
  by (auto simp: mapped_def blk_fill_def)

lemma store_mapped: "m p \<noteq> None \<Longrightarrow> store m p c = Some (m(p \<mapsto> c))"
  by (auto simp: store_def)

lemma blk_copy_0 [simp]: "blk_copy m d s 0 = m"
  by (rule ext) (auto simp: blk_copy_def)

lemma blk_copy_step:
  assumes "fwd_ok d s (k + j)"
  shows "blk_copy (blk_copy m d s k) (d + k) (s + k) j = blk_copy m d s (k + j)"
  using assms by (auto simp: blk_copy_def fwd_ok_def fun_eq_iff)

lemma fwd_ok_step: "fwd_ok d s (k + j) \<Longrightarrow> fwd_ok (d + k) (s + k) j"
  by (auto simp: fwd_ok_def)

lemma blk_copy_1: "m s = Some c \<Longrightarrow> blk_copy m d s (Suc 0) = m(d \<mapsto> c)"
  by (auto simp: blk_copy_def fun_eq_iff)

lemma blk_copy_Suc:
  "m s = Some c \<Longrightarrow> fwd_ok d s (Suc n) \<Longrightarrow>
   blk_copy (m(d \<mapsto> c)) (d + 1) (s + 1) n = blk_copy m d s (Suc n)"
  using blk_copy_step [of d s "Suc 0" n m] by (simp add: blk_copy_1)

lemma load_bytes_mapped:
  "mapped m p n \<Longrightarrow> \<exists>bs. load_bytes m p n = Some bs \<and> length bs = n \<and> (\<forall>i < n. m (p + i) = Some (bs ! i))"
proof (induction n arbitrary: p)
  case 0
  then show ?case by simp
next
  case (Suc n)
  then obtain c where c: "m p = Some c" and mp: "mapped m (p + 1) n" by (auto simp: mapped_Suc)
  from Suc.IH [OF mp] obtain bs where bs: "load_bytes m (p + 1) n = Some bs" "length bs = n"
    "\<forall>i < n. m (p + 1 + i) = Some (bs ! i)" by blast
  have "m (p + i) = Some ((c # bs) ! i)" if "i < Suc n" for i
    using that c bs(3) by (cases i) auto
  with c bs show ?case by auto
qed

lemma store_bytes_mapped:
  "mapped m p (length bs) \<Longrightarrow>
   store_bytes m p bs = Some (\<lambda>a. if p \<le> a \<and> a < p + length bs then Some (bs ! (a - p)) else m a)"
proof (induction bs arbitrary: m p)
  case Nil
  then show ?case by (auto simp: fun_eq_iff)
next
  case (Cons c bs)
  then have mp: "m p \<noteq> None" "mapped m (p + 1) (length bs)" by (auto simp: mapped_Suc)
  have "mapped (m(p \<mapsto> c)) (p + 1) (length bs)" using mp(2) by (rule mapped_upd)
  note IH = Cons.IH [OF this]
  have "(\<lambda>a. if p + 1 \<le> a \<and> a < p + 1 + length bs then Some (bs ! (a - (p + 1))) else (m(p \<mapsto> c)) a)
      = (\<lambda>a. if p \<le> a \<and> a < p + length (c # bs) then Some ((c # bs) ! (a - p)) else m a)"
    by (rule ext) (auto simp: nth_Cons' Suc_le_eq)
  with IH show ?case by (simp only: store_bytes.simps store_mapped [of m p c, OF mp(1)] bind.bind_lunit)
qed

lemma word_copy:
  assumes "mapped m s 8" "mapped m d 8"
  shows "load64 m s \<bind> store64 m d = Some (blk_copy m d s 8)"
proof -
  from load_bytes_mapped [OF assms(1)] obtain bs where bs: "load_bytes m s 8 = Some bs" "length bs = 8"
    "\<forall>i < 8. m (s + i) = Some (bs ! i)" by blast
  have "le_nat bs < 2 ^ 64" using le_nat_bound [of bs] bs(2) by simp
  then have "unat (of_nat (le_nat bs) :: u64) = le_nat bs"
    by (simp add: unat_of_nat take_bit_nat_eq_self)
  then have "le_bytes 8 (unat (of_nat (le_nat bs) :: u64)) = bs"
    using le_bytes_le_nat [of bs] bs(2) by simp
  moreover have "(\<lambda>a. if d \<le> a \<and> a < d + 8 then Some (bs ! (a - d)) else m a) = blk_copy m d s 8"
  proof
    fix a
    show "(if d \<le> a \<and> a < d + 8 then Some (bs ! (a - d)) else m a) = blk_copy m d s 8 a"
      using bs(3) [rule_format, of "a - d"] by (auto simp: blk_copy_def)
  qed
  ultimately show ?thesis
    using bs store_bytes_mapped [of m d bs] assms(2) by (simp add: load64_def store64_def)
qed

subsection \<open>Correctness of memcpy, memmove and memset\<close>

lemma memcpy_tail_correct:
  "mapped m d n \<Longrightarrow> mapped m s n \<Longrightarrow> fwd_ok d s n \<Longrightarrow> memcpy_tail m d s n = Some (blk_copy m d s n)"
proof (induction n arbitrary: m d s)
  case 0
  then show ?case by simp
next
  case (Suc n)
  then obtain c where c: "m s = Some c" and mp: "m d \<noteq> None" "mapped m (d + 1) n" "mapped m (s + 1) n"
    by (auto simp: mapped_Suc)
  have f: "fwd_ok (d + 1) (s + 1) n" using fwd_ok_step [of d s 1 n] Suc.prems(3) by simp
  have "memcpy_tail (m(d \<mapsto> c)) (d + 1) (s + 1) n = Some (blk_copy (m(d \<mapsto> c)) (d + 1) (s + 1) n)"
    by (rule Suc.IH [OF mapped_upd [OF mp(2)] mapped_upd [OF mp(3)] f])
  with blk_copy_Suc [of m s c d n] c Suc.prems(3) mp(1) show ?case by (simp add: store_mapped)
qed

lemma memcpy_head_correct:
  "mapped m d n \<Longrightarrow> mapped m s n \<Longrightarrow> fwd_ok d s n \<Longrightarrow>
   \<exists>k \<le> n. memcpy_head m d s n = Some (blk_copy m d s k, d + k, s + k, n - k)
       \<and> (k < n \<longrightarrow> (d + k) mod 8 = 0)"
proof (induction n arbitrary: m d s)
  case 0
  then show ?case by simp
next
  case (Suc n)
  show ?case
  proof (cases "d mod 8 = 0")
    case True
    then show ?thesis by (intro exI [of _ 0]) (simp add: and_7_mod_8)
  next
    case False
    obtain c where c: "m s = Some c" and mp: "m d \<noteq> None" "mapped m (d + 1) n" "mapped m (s + 1) n"
      using Suc.prems by (auto simp: mapped_Suc)
    have f: "fwd_ok (d + 1) (s + 1) n" using fwd_ok_step [of d s 1 n] Suc.prems(3) by simp
    obtain k where k: "k \<le> n" "memcpy_head (m(d \<mapsto> c)) (d + 1) (s + 1) n =
        Some (blk_copy (m(d \<mapsto> c)) (d + 1) (s + 1) k, d + 1 + k, s + 1 + k, n - k)"
        "k < n \<longrightarrow> (d + 1 + k) mod 8 = 0"
      using Suc.IH [OF mapped_upd [OF mp(2), of d c] mapped_upd [OF mp(3), of d c] f] by (elim exE conjE) (rule that)
    have fk: "fwd_ok d s (1 + k)" using Suc.prems(3) k(1) by (auto simp: fwd_ok_def)
    have e: "blk_copy (m(d \<mapsto> c)) (d + 1) (s + 1) k = blk_copy m d s (Suc k)"
      using blk_copy_Suc [of m s c d k] c fk by simp
    have "memcpy_head m d s (Suc n) = memcpy_head (m(d \<mapsto> c)) (d + 1) (s + 1) n"
      using c False by (simp add: store_mapped [of m d c, OF mp(1)] and_7_mod_8)
    with k(2) have a: "memcpy_head m d s (Suc n) = Some (blk_copy m d s (Suc k), d + Suc k, s + Suc k, Suc n - Suc k)"
      by (simp only: e) simp
    have b: "Suc k < Suc n \<longrightarrow> (d + Suc k) mod 8 = 0" using k(3) by simp
    from k(1) have "Suc k \<le> Suc n" by simp
    with a b show ?thesis by (intro exI [of _ "Suc k"] conjI)
  qed
qed

text \<open>Word copies need the two pointers to agree modulo 8, so overlapping words never meet.\<close>

lemma memcpy_words_correct:
  assumes "mapped m d n" "mapped m s n" "fwd_ok d s n" "d mod 8 = 0" "s mod 8 = 0"
  shows "\<exists>k \<le> n. memcpy_words m d s n = Some (blk_copy m d s k, d + k, s + k, n - k)"
  using assms
proof (induction m d s n rule: memcpy_words.induct)
  case (1 m d s n)
  show ?case
  proof (cases "8 \<le> n")
    case False
    then show ?thesis by (intro exI [of _ 0]) (simp add: memcpy_words.simps [of m d s n])
  next
    case True
    have mp: "mapped m s 8" "mapped m d 8"
      using "1.prems"(1,2) True by (auto simp: mapped_def)
    from word_copy [OF mp] obtain w where w: "load64 m s = Some w" "store64 m d w = Some (blk_copy m d s 8)"
      by (auto simp: bind_eq_Some_conv)
    let ?m = "blk_copy m d s 8"
    have mp': "mapped m (d + 8) (n - 8)" "mapped m (s + 8) (n - 8)"
      using mapped_sub [of m d n 8 "n - 8"] mapped_sub [of m s n 8 "n - 8"] "1.prems"(1,2) True by auto
    have fs: "fwd_ok (d + 8) (s + 8) (n - 8)"
      using fwd_ok_step [of d s 8 "n - 8"] "1.prems"(3) True by simp
    obtain k where k: "k \<le> n - 8" "memcpy_words ?m (d + 8) (s + 8) (n - 8) =
        Some (blk_copy ?m (d + 8) (s + 8) k, d + 8 + k, s + 8 + k, n - 8 - k)"
      using "1.IH" [OF True w mapped_blk_copy [OF mp'(1) mp(1)] mapped_blk_copy [OF mp'(2) mp(1)] fs]
        "1.prems"(4,5) by auto
    have "blk_copy ?m (d + 8) (s + 8) k = blk_copy m d s (8 + k)"
      by (rule blk_copy_step) (use "1.prems"(3) k(1) True in \<open>auto simp: fwd_ok_def\<close>)
    then have "memcpy_words m d s n = Some (blk_copy m d s (8 + k), d + (8 + k), s + (8 + k), n - (8 + k))"
      using k w True by (subst memcpy_words.simps) (simp add: add.assoc)
    then show ?thesis using k(1) True by (intro exI [of _ "8 + k"]) simp
  qed
qed

lemma memcpy_correct:
  assumes "mapped m d n" "mapped m s n" "fwd_ok d s n"
  shows "memcpy m d s n = Some (blk_copy m d s n)"
proof -
  obtain k where k: "k \<le> n" "memcpy_head m d s n = Some (blk_copy m d s k, d + k, s + k, n - k)"
      "k < n \<longrightarrow> (d + k) mod 8 = 0"
    using memcpy_head_correct [OF assms] by (elim exE conjE) (rule that)
  let ?m = "blk_copy m d s k"
  have f: "fwd_ok (d + k) (s + k) (n - k)" using fwd_ok_step [of d s k "n - k"] assms(3) k(1) by simp
  have ms: "mapped m s k" using assms(2) k(1) by (auto simp: mapped_def)
  have mp: "mapped ?m (d + k) (n - k)" "mapped ?m (s + k) (n - k)"
    using mapped_blk_copy [OF mapped_sub [OF assms(1), of k "n - k"] ms]
      mapped_blk_copy [OF mapped_sub [OF assms(2), of k "n - k"] ms] k(1) by simp_all
  have all: "blk_copy ?m (d + k) (s + k) (n - k) = blk_copy m d s n"
    using blk_copy_step [of d s k "n - k" m] assms(3) k(1) by simp
  show ?thesis
  proof (cases "(s + k) mod 8 = 0 \<and> k < n")
    case True
    obtain j where j: "j \<le> n - k" "memcpy_words ?m (d + k) (s + k) (n - k) =
        Some (blk_copy ?m (d + k) (s + k) j, d + k + j, s + k + j, n - k - j)"
      using memcpy_words_correct [OF mp f] True k(3) by auto
    let ?m2 = "blk_copy ?m (d + k) (s + k) j"
    have f2: "fwd_ok (d + k + j) (s + k + j) (n - k - j)"
      using f j(1) by (auto simp: fwd_ok_def)
    have "mapped ?m (s + k) j" using mp(2) j(1) by (auto simp: mapped_def)
    then have "mapped ?m2 (d + k + j) (n - k - j)" "mapped ?m2 (s + k + j) (n - k - j)"
      using mapped_blk_copy [OF mapped_sub [OF mp(1), of j "n - k - j"]]
        mapped_blk_copy [OF mapped_sub [OF mp(2), of j "n - k - j"]] j(1) by simp_all
    then have "memcpy_tail ?m2 (d + k + j) (s + k + j) (n - k - j) =
        Some (blk_copy ?m2 (d + k + j) (s + k + j) (n - k - j))"
      using f2 by (rule memcpy_tail_correct)
    moreover have "blk_copy ?m2 (d + k + j) (s + k + j) (n - k - j) = blk_copy m d s n"
      using blk_copy_step [of "d + k" "s + k" j "n - k - j" ?m] f j(1) all by (simp del: diff_diff_left)
    ultimately show ?thesis using k(2) j(2) True by (simp add: memcpy_def and_7_mod_8)
  next
    case False
    have "memcpy_words ?m (d + k) (s + k) 0 = Some (?m, d + k, s + k, 0)"
      by (subst memcpy_words.simps) simp
    moreover have "memcpy_tail ?m (d + k) (s + k) (n - k) = Some (blk_copy m d s n)"
      using memcpy_tail_correct [OF mp f] all by simp
    ultimately show ?thesis using k False by (auto simp: memcpy_def and_7_mod_8)
  qed
qed

lemma memmove_down_correct:
  "mapped m d n \<Longrightarrow> mapped m s n \<Longrightarrow> s \<le> d \<Longrightarrow>
   memmove_down m (d + n) (s + n) n = Some (blk_copy m d s n)"
proof (induction n arbitrary: m)
  case 0
  then show ?case by simp
next
  case (Suc n)
  obtain c where c: "m (s + n) = Some c" using Suc.prems(2) by (auto simp: mapped_def)
  have d: "m (d + n) \<noteq> None" using Suc.prems(1) by (auto simp: mapped_def)
  let ?m = "m(d + n \<mapsto> c)"
  have mp: "mapped m d n" "mapped m s n" using Suc.prems by (auto simp: mapped_def)
  have "memmove_down ?m (d + n) (s + n) n = Some (blk_copy ?m d s n)"
    by (rule Suc.IH [OF mapped_upd [OF mp(1)] mapped_upd [OF mp(2)] Suc.prems(3)])
  moreover have "blk_copy ?m d s n = blk_copy m d s (Suc n)"
  proof
    fix a
    show "blk_copy ?m d s n a = blk_copy m d s (Suc n) a"
      using c Suc.prems(3) by (cases "a = d + n") (auto simp: blk_copy_def)
  qed
  ultimately show ?case using c d by (simp add: store_mapped)
qed

lemma memmove_correct:
  assumes "mapped m d n" "mapped m s n"
  shows "memmove m d s n = Some (blk_copy m d s n)"
proof (cases "d = s \<or> n = 0")
  case True
  moreover have "blk_copy m s s n = m" by (auto simp: blk_copy_def fun_eq_iff)
  ultimately show ?thesis by (auto simp: memmove_def)
next
  case False
  show ?thesis
  proof (cases "d < s")
    case True
    then have "fwd_ok d s n" by (simp add: fwd_ok_def)
    with True False memcpy_correct [OF assms] show ?thesis by (simp add: memmove_def)
  next
    case nlt: False
    then have "memmove_down m (d + n) (s + n) n = Some (blk_copy m d s n)"
      using memmove_down_correct [OF assms] by simp
    with nlt False show ?thesis by (simp add: memmove_def)
  qed
qed

subsubsection \<open>memset\<close>

lemma blk_fill_step: "blk_fill (blk_fill m p b k) (p + k) b j = blk_fill m p b (k + j)"
  by (auto simp: blk_fill_def fun_eq_iff)

lemma blk_fill_0 [simp]: "blk_fill m p b 0 = m"
  by (rule ext) (auto simp: blk_fill_def)

lemma blk_fill_Suc: "blk_fill (m(p \<mapsto> b)) (p + 1) b n = blk_fill m p b (Suc n)"
  by (auto simp: blk_fill_def fun_eq_iff)

lemma memset_tail_correct: "mapped m p n \<Longrightarrow> memset_tail m p b n = Some (blk_fill m p b n)"
proof (induction n arbitrary: m p)
  case 0
  then show ?case by simp
next
  case (Suc n)
  then have mp: "m p \<noteq> None" "mapped m (p + 1) n" by (auto simp: mapped_Suc)
  from Suc.IH [OF mapped_upd [OF mp(2), of p b]] show ?case
    by (simp only: memset_tail.simps store_mapped [of m p b, OF mp(1)] bind.bind_lunit blk_fill_Suc)
qed

lemma memset_head_correct:
  "mapped m p n \<Longrightarrow> \<exists>k \<le> n. memset_head m p b n = Some (blk_fill m p b k, p + k, n - k)"
proof (induction n arbitrary: m p)
  case 0
  then show ?case by simp
next
  case (Suc n)
  then have mp: "m p \<noteq> None" "mapped m (p + 1) n" by (auto simp: mapped_Suc)
  show ?case
  proof (cases "p mod 8 = 0")
    case True
    then show ?thesis by (intro exI [of _ 0]) (simp add: and_7_mod_8)
  next
    case False
    obtain k where k: "k \<le> n"
        "memset_head (m(p \<mapsto> b)) (p + 1) b n = Some (blk_fill (m(p \<mapsto> b)) (p + 1) b k, p + 1 + k, n - k)"
      using Suc.IH [OF mapped_upd [OF mp(2), of p b]] by (elim exE conjE) (rule that)
    have "memset_head m p b (Suc n) = memset_head (m(p \<mapsto> b)) (p + 1) b n"
      using False by (simp add: store_mapped [of m p b, OF mp(1)] and_7_mod_8)
    with k(2) have "memset_head m p b (Suc n) = Some (blk_fill m p b (Suc k), p + Suc k, Suc n - Suc k)"
      by (simp only: blk_fill_Suc) simp
    then show ?thesis using k(1) by blast
  qed
qed

text \<open>\<^verbatim>\<open>0x0101010101010101UL * b\<close> is the byte \<open>b\<close> in each of the eight positions.\<close>

lemma broadcast_bytes: "le_bytes 8 (unat ((0x0101010101010101 :: u64) * of_char b)) = replicate 8 b"
proof -
  define x :: nat where "x = of_char b"
  have x: "x < 256" and b: "b = char_of x" by (simp_all add: x_def)
  have "(of_char b :: u64) = of_nat x" by (simp add: x_def of_nat_of_char)
  then have "(0x0101010101010101 :: u64) * of_char b = of_nat (0x0101010101010101 * x)" by simp
  moreover have "0x0101010101010101 * x < 2 ^ 64" using x by simp
  ultimately have u: "unat ((0x0101010101010101 :: u64) * of_char b) = 0x0101010101010101 * x"
    by (simp only: unat_of_nat) (simp add: take_bit_nat_eq_self)
  have "replicate 8 b = [b, b, b, b, b, b, b, b]" by code_simp
  then have "le_nat (replicate 8 b) = 0x0101010101010101 * x" by (simp add: x_def)
  then show ?thesis using le_bytes_le_nat [of "replicate 8 b"] u by simp
qed

lemma memset_words_correct:
  assumes "mapped m p n" "w = (0x0101010101010101 :: u64) * of_char b"
  shows "\<exists>k \<le> n. memset_words m p w n = Some (blk_fill m p b k, p + k, n - k)"
  using assms
proof (induction m p w n rule: memset_words.induct)
  case (1 m p w n)
  show ?case
  proof (cases "8 \<le> n")
    case False
    then show ?thesis by (intro exI [of _ 0]) (simp add: memset_words.simps [of m p w n])
  next
    case True
    have mp: "mapped m p 8" using "1.prems"(1) True by (auto simp: mapped_def)
    have st: "store64 m p w = Some (blk_fill m p b 8)"
      unfolding store64_def "1.prems"(2) broadcast_bytes using store_bytes_mapped [of m p "replicate 8 b"] mp
      by (auto simp: blk_fill_def fun_eq_iff)
    have "mapped (blk_fill m p b 8) (p + 8) (n - 8)"
      using mapped_blk_fill [OF mapped_sub [OF "1.prems"(1), of 8 "n - 8"], of p b 8] True by simp
    then obtain k where k: "k \<le> n - 8" "memset_words (blk_fill m p b 8) (p + 8) w (n - 8) =
        Some (blk_fill (blk_fill m p b 8) (p + 8) b k, p + 8 + k, n - 8 - k)"
      using "1.IH" [OF True st] "1.prems"(2) by blast
    then have "memset_words m p w n = Some (blk_fill m p b (8 + k), p + (8 + k), n - (8 + k))"
      using st True blk_fill_step [of m p b 8 k] by (subst memset_words.simps) (simp add: add.assoc)
    then show ?thesis using k(1) True by (intro exI [of _ "8 + k"]) simp
  qed
qed

lemma memset_correct:
  assumes "mapped m p n"
  shows "memset m p c n = Some (blk_fill m p (chr c) n)"
proof -
  let ?b = "chr c"
  obtain k where k: "k \<le> n" "memset_head m p ?b n = Some (blk_fill m p ?b k, p + k, n - k)"
    using memset_head_correct [OF assms, of ?b] by (elim exE conjE) (rule that)
  have "mapped (blk_fill m p ?b k) (p + k) (n - k)"
    using mapped_blk_fill [OF mapped_sub [OF assms, of k "n - k"], of p ?b k] k(1) by simp
  then obtain j where j: "j \<le> n - k"
      "memset_words (blk_fill m p ?b k) (p + k) (0x0101010101010101 * of_char ?b) (n - k) =
       Some (blk_fill (blk_fill m p ?b k) (p + k) ?b j, p + k + j, n - k - j)"
    using memset_words_correct [of _ _ _ _ ?b] by blast
  have "mapped (blk_fill m p ?b (k + j)) (p + (k + j)) (n - (k + j))"
    using mapped_blk_fill [OF mapped_sub [OF assms, of "k + j" "n - (k + j)"], of p ?b "k + j"] k(1) j(1) by simp
  then have "memset_tail (blk_fill m p ?b (k + j)) (p + (k + j)) ?b (n - (k + j)) = Some (blk_fill m p ?b n)"
    using memset_tail_correct blk_fill_step [of m p ?b "k + j" "n - (k + j)"] k(1) j(1) by simp
  with k(2) j(2) show ?thesis
    by (simp add: memset_def blk_fill_step add.assoc Let_def)
qed

subsection \<open>C strings in memory\<close>

fun cstr :: "mem \<Rightarrow> nat \<Rightarrow> byte list \<Rightarrow> bool" where
  "cstr m p [] \<longleftrightarrow> m p = Some NUL"
| "cstr m p (x # xs) \<longleftrightarrow> x \<noteq> NUL \<and> m p = Some x \<and> cstr m (p + 1) xs"

text \<open>The list references.\<close>

fun strcmp_list :: "byte list \<Rightarrow> byte list \<Rightarrow> int" where
  "strcmp_list [] [] = 0"
| "strcmp_list [] (y # ys) = - ord y"
| "strcmp_list (x # xs) [] = ord x"
| "strcmp_list (x # xs) (y # ys) = (if x = y then strcmp_list xs ys else ord x - ord y)"

lemma cstr_no_NUL: "cstr m p xs \<Longrightarrow> NUL \<notin> set xs"
  by (induction m p xs rule: cstr.induct) auto

lemma cstr_nth: "cstr m p xs \<Longrightarrow> i < length xs \<Longrightarrow> m (p + i) = Some (xs ! i)"
proof (induction m p xs arbitrary: i rule: cstr.induct)
  case (2 m p x xs)
  then show ?case by (cases i) auto
qed simp

lemma cstr_end: "cstr m p xs \<Longrightarrow> m (p + length xs) = Some NUL"
  by (induction m p xs rule: cstr.induct) auto

lemma cstr_drop: "cstr m p xs \<Longrightarrow> i \<le> length xs \<Longrightarrow> cstr m (p + i) (drop i xs)"
proof (induction m p xs arbitrary: i rule: cstr.induct)
  case (2 m p x xs)
  then show ?case by (cases i) auto
qed simp

lemma cstr_unique: "cstr m p xs \<Longrightarrow> cstr m p ys \<Longrightarrow> xs = ys"
proof (induction m p xs arbitrary: ys rule: cstr.induct)
  case (1 m p)
  then show ?case by (cases ys) auto
next
  case (2 m p x xs)
  then show ?case by (cases ys) auto
qed

lemma cstr_mapped: "cstr m p xs \<Longrightarrow> mapped m p (length xs + 1)"
  by (induction m p xs rule: cstr.induct) (simp_all add: mapped_Suc)

lemma cstrI:
  assumes "NUL \<notin> set xs" "\<And>i. i < length xs \<Longrightarrow> m (p + i) = Some (xs ! i)" "m (p + length xs) = Some NUL"
  shows "cstr m p xs"
  using assms
proof (induction xs arbitrary: p)
  case Nil
  then show ?case by simp
next
  case (Cons x xs)
  have "m p = Some x" using Cons.prems(2) [of 0] by simp
  moreover have "cstr m (p + 1) xs"
  proof (rule Cons.IH)
    show "m (p + 1 + i) = Some (xs ! i)" if "i < length xs" for i
      using Cons.prems(2) [of "Suc i"] that by simp
  qed (use Cons.prems in auto)
  ultimately show ?case using Cons.prems(1) by auto
qed

text \<open>Changing memory outside a string leaves the string in place.\<close>

lemma cstr_frame:
  assumes "cstr m p xs" "\<And>a. p \<le> a \<Longrightarrow> a \<le> p + length xs \<Longrightarrow> m' a = m a"
  shows "cstr m' p xs"
  using assms
proof (induction m p xs rule: cstr.induct)
  case (2 m p x xs)
  then show ?case by simp
qed simp

lemma strlen_loop_correct: "cstr m p xs \<Longrightarrow> strlen_loop m p = Some (p + length xs)"
proof (induction m p xs rule: cstr.induct)
  case (1 m p)
  then show ?case by (simp add: strlen_loop.simps)
next
  case (2 m p x xs)
  then show ?case by (subst strlen_loop.simps) simp
qed

lemma strlen_correct: "cstr m p xs \<Longrightarrow> strlen m p = Some (length xs)"
  by (simp add: strlen_def strlen_loop_correct)

lemma strlen_loop_sound: "strlen_loop m p = Some q \<Longrightarrow> p \<le> q \<and> (\<exists>xs. cstr m p xs \<and> q = p + length xs)"
proof (rule strlen_loop.raw_induct [where P = "\<lambda>m p q. p \<le> q \<and> (\<exists>xs. cstr m p xs \<and> q = p + length xs)"])
  fix f m p q
  assume IH: "\<And>m p q. f m p = Some q \<Longrightarrow> p \<le> q \<and> (\<exists>xs. cstr m p xs \<and> q = p + length xs)"
    and eq: "m p \<bind> (\<lambda>c. if c = NUL then Some p else f m (p + 1)) = Some q"
  then obtain c where c: "m p = Some c" "(if c = NUL then Some p else f m (p + 1)) = Some q"
    by (auto simp: bind_eq_Some_conv)
  show "p \<le> q \<and> (\<exists>xs. cstr m p xs \<and> q = p + length xs)"
  proof (cases "c = NUL")
    case True
    with c show ?thesis by (auto intro: exI [of _ "[]"])
  next
    case False
    with c have "f m (p + 1) = Some q" by simp
    with IH obtain xs where "cstr m (p + 1) xs" "q = p + 1 + length xs" by blast
    with c(1) False show ?thesis by (auto intro!: exI [of _ "c # xs"])
  qed
qed

text \<open>\<open>strlen\<close> returns exactly when a terminated string is there, and returns its length.\<close>

lemma strlen_iff: "strlen m p = Some n \<longleftrightarrow> (\<exists>xs. cstr m p xs \<and> length xs = n)"
proof
  assume "strlen m p = Some n"
  then obtain q where q: "strlen_loop m p = Some q" "n = q - p"
    by (auto simp: strlen_def bind_eq_Some_conv)
  from strlen_loop_sound [OF q(1)] q(2) show "\<exists>xs. cstr m p xs \<and> length xs = n" by auto
next
  assume "\<exists>xs. cstr m p xs \<and> length xs = n"
  then show "strlen m p = Some n" using strlen_correct by blast
qed

lemma strcmp_correct: "cstr m a xs \<Longrightarrow> cstr m b ys \<Longrightarrow> strcmp m a b = Some (strcmp_list xs ys)"
proof (induction xs ys arbitrary: a b rule: strcmp_list.induct)
  case (4 x xs y ys)
  then show ?case by (subst strcmp.simps) auto
qed (simp_all add: strcmp.simps)

lemma strncmp_correct:
  "cstr m a xs \<Longrightarrow> cstr m b ys \<Longrightarrow> strncmp m a b n = Some (strcmp_list (take n xs) (take n ys))"
proof (induction n arbitrary: a b xs ys)
  case 0
  then show ?case by simp
next
  case (Suc n)
  show ?case
  proof (cases xs)
    case Nil
    with Suc.prems show ?thesis by (cases ys) auto
  next
    case (Cons x xs')
    with Suc show ?thesis by (cases ys) auto
  qed
qed

lemma strcmp_list_eq0: "NUL \<notin> set xs \<Longrightarrow> NUL \<notin> set ys \<Longrightarrow> strcmp_list xs ys = 0 \<longleftrightarrow> xs = ys"
  by (induction xs ys rule: strcmp_list.induct) auto

lemma strcmp_list_antisym: "strcmp_list ys xs = - strcmp_list xs ys"
  by (induction xs ys rule: strcmp_list.induct) auto

lemma strcmp_list_trans: "strcmp_list xs ys \<le> 0 \<Longrightarrow> strcmp_list ys zs \<le> 0 \<Longrightarrow> NUL \<notin> set ys \<Longrightarrow> NUL \<notin> set zs \<Longrightarrow> strcmp_list xs zs \<le> 0"
proof (induction xs ys arbitrary: zs rule: strcmp_list.induct)
  case (2 y ys)
  then show ?case by (cases zs) auto
next
  case (3 x xs)
  then have "ord x = 0" using ord_ge0 [of x] by simp
  with 3 show ?case by (cases zs) auto
next
  case (4 x xs y ys)
  then show ?case by (cases zs) (auto split: if_splits)
qed (auto)

lemma strcoll_correct: "cstr m a xs \<Longrightarrow> cstr m b ys \<Longrightarrow> strcoll_l m a b l = Some (strcmp_list xs ys)"
  by (simp add: strcoll_l_def strcoll_def strcmp_correct)

lemma strnlen_correct: "cstr m s xs \<Longrightarrow> strnlen m s k = Some (min k (length xs))"
proof -
  assume a: "cstr m s xs"
  have "n \<le> length xs \<Longrightarrow> strnlen_loop m s n k = Some (min (n + k) (length xs))" for n
  proof (induction k arbitrary: n)
    case 0
    then show ?case by simp
  next
    case (Suc k)
    show ?case
    proof (cases "n = length xs")
      case True
      with cstr_end [OF a] show ?thesis by simp
    next
      case False
      with Suc.prems have l: "n < length xs" by simp
      from cstr_nth [OF a l] cstr_no_NUL [OF a] l have "m (s + n) = Some (xs ! n)" "xs ! n \<noteq> NUL"
        by (auto simp: in_set_conv_nth)
      with Suc.IH [of "n + 1"] l show ?thesis by simp
    qed
  qed
  from this [of 0] show ?thesis by (simp add: strnlen_def)
qed

subsection \<open>Searching\<close>

lemma strchr_loop_correct:
  "cstr m s xs \<Longrightarrow> strchr_loop m s ch =
     Some (if ch \<in> set xs then s + length (takeWhile (\<lambda>c. c \<noteq> ch) xs)
           else if ch = NUL then s + length xs else NULL)"
proof (induction m s xs rule: cstr.induct)
  case (1 m p)
  then show ?case by (simp add: strchr_loop.simps)
next
  case (2 m p x xs)
  show ?case
  proof (cases "x = ch")
    case True
    with 2 show ?thesis by (simp add: strchr_loop.simps [of m p])
  next
    case False
    with 2 show ?thesis by (simp add: strchr_loop.simps [of m p])
  qed
qed

lemma strchr_correct:
  "cstr m s xs \<Longrightarrow> strchr m s c =
     Some (if chr c \<in> set xs then s + length (takeWhile (\<lambda>x. x \<noteq> chr c) xs)
           else if chr c = NUL then s + length xs else NULL)"
  by (simp add: strchr_def strchr_loop_correct)

text \<open>The membership test that \<open>strspn\<close>, \<open>strcspn\<close> and \<open>strpbrk\<close> make of \<open>strchr\<close>; it needs
  the set string not to lie at address 0.\<close>

lemma strchr_member:
  assumes "cstr m a ys" "a \<noteq> NULL" "c \<noteq> NUL"
  shows "\<exists>q. strchr m a (ord c) = Some q \<and> (q = NULL \<longleftrightarrow> c \<notin> set ys)"
  using strchr_correct [OF assms(1), of "ord c"] assms(2,3) by (auto simp: NULL_def)

lemma strspn_loop_correct:
  assumes "cstr m (s + n) xs" "cstr m a ys" "a \<noteq> NULL"
  shows "strspn_loop m s a n = Some (n + length (takeWhile (\<lambda>c. c \<in> set ys) xs))"
  using assms(1)
proof (induction xs arbitrary: n)
  case Nil
  then show ?case by (simp add: strspn_loop.simps)
next
  case (Cons x xs)
  then have x: "m (s + n) = Some x" "x \<noteq> NUL" by auto
  obtain q where q: "strchr m a (ord x) = Some q" "q = NULL \<longleftrightarrow> x \<notin> set ys"
    using strchr_member [OF assms(2,3) x(2)] by blast
  have "strspn_loop m s a (n + 1) = Some (n + 1 + length (takeWhile (\<lambda>c. c \<in> set ys) xs))"
    by (rule Cons.IH) (use Cons.prems in \<open>simp add: add.assoc\<close>)
  with x q show ?case by (subst strspn_loop.simps) simp
qed

lemma strspn_correct:
  "cstr m s xs \<Longrightarrow> cstr m a ys \<Longrightarrow> a \<noteq> NULL \<Longrightarrow>
   strspn m s a = Some (length (takeWhile (\<lambda>c. c \<in> set ys) xs))"
  using strspn_loop_correct [of m s 0 xs a ys] by (simp add: strspn_def)

lemma strcspn_loop_correct:
  assumes "cstr m (s + n) xs" "cstr m a ys" "a \<noteq> NULL"
  shows "strcspn_loop m s a n = Some (n + length (takeWhile (\<lambda>c. c \<notin> set ys) xs))"
  using assms(1)
proof (induction xs arbitrary: n)
  case Nil
  then show ?case by (simp add: strcspn_loop.simps)
next
  case (Cons x xs)
  then have x: "m (s + n) = Some x" "x \<noteq> NUL" by auto
  obtain q where q: "strchr m a (ord x) = Some q" "q = NULL \<longleftrightarrow> x \<notin> set ys"
    using strchr_member [OF assms(2,3) x(2)] by blast
  have "strcspn_loop m s a (n + 1) = Some (n + 1 + length (takeWhile (\<lambda>c. c \<notin> set ys) xs))"
    by (rule Cons.IH) (use Cons.prems in \<open>simp add: add.assoc\<close>)
  with x q show ?case by (subst strcspn_loop.simps) simp
qed

lemma strcspn_correct:
  "cstr m s xs \<Longrightarrow> cstr m a ys \<Longrightarrow> a \<noteq> NULL \<Longrightarrow>
   strcspn m s a = Some (length (takeWhile (\<lambda>c. c \<notin> set ys) xs))"
  using strcspn_loop_correct [of m s 0 xs a ys] by (simp add: strcspn_def)

lemma strpbrk_correct:
  assumes "cstr m s xs" "cstr m a ys" "a \<noteq> NULL"
  shows "strpbrk m s a = Some (if set xs \<inter> set ys = {} then NULL
                               else s + length (takeWhile (\<lambda>c. c \<notin> set ys) xs))"
  using assms(1)
proof (induction xs arbitrary: s)
  case Nil
  then show ?case by (simp add: strpbrk.simps)
next
  case (Cons x xs)
  then have x: "m s = Some x" "x \<noteq> NUL" by auto
  obtain q where q: "strchr m a (ord x) = Some q" "q = NULL \<longleftrightarrow> x \<notin> set ys"
    using strchr_member [OF assms(2,3) x(2)] by blast
  from x q Cons show ?case by (subst strpbrk.simps) auto
qed

lemma memcmp_correct:
  assumes "length xs = length ys"
    "\<And>i. i < length xs \<Longrightarrow> m (a + i) = Some (xs ! i)" "\<And>i. i < length ys \<Longrightarrow> m (b + i) = Some (ys ! i)"
  shows "memcmp m a b (length xs) = Some (strcmp_list xs ys)"
  using assms
proof (induction xs ys arbitrary: a b rule: list_induct2)
  case (Cons x xs y ys)
  have h: "m a = Some x" "m b = Some y" using Cons.prems(1) [of 0] Cons.prems(2) [of 0] by auto
  have "memcmp m (a + 1) (b + 1) (length xs) = Some (strcmp_list xs ys)"
  proof (rule Cons.IH)
    show "m (a + 1 + i) = Some (xs ! i)" if "i < length xs" for i
      using Cons.prems(1) [of "Suc i"] that by simp
    show "m (b + 1 + i) = Some (ys ! i)" if "i < length ys" for i
      using Cons.prems(2) [of "Suc i"] that by simp
  qed
  with h show ?case by simp
qed simp

subsubsection \<open>strstr\<close>

definition occurs_at :: "byte list \<Rightarrow> byte list \<Rightarrow> nat \<Rightarrow> bool" where
  "occurs_at ys xs i \<longleftrightarrow> take (length ys) (drop i xs) = ys"

fun first_occ :: "byte list \<Rightarrow> byte list \<Rightarrow> nat option" where
  "first_occ ys [] = None"
| "first_occ ys (x # xs) =
     (if occurs_at ys (x # xs) 0 then Some 0 else map_option Suc (first_occ ys xs))"

lemma first_occ_Some:
  "ys \<noteq> [] \<Longrightarrow> first_occ ys xs = Some i \<longleftrightarrow> occurs_at ys xs i \<and> (\<forall>j < i. \<not> occurs_at ys xs j)"
proof (induction xs arbitrary: i)
  case Nil
  then show ?case by (auto simp: occurs_at_def)
next
  case (Cons x xs)
  have shift: "occurs_at ys (x # xs) (Suc j) \<longleftrightarrow> occurs_at ys xs j" for j by (simp add: occurs_at_def)
  show ?case
  proof (cases "occurs_at ys (x # xs) 0")
    case True
    then show ?thesis by (cases i) auto
  next
    case False
    with Cons shift show ?thesis by (cases i) (auto simp: less_Suc_eq_0_disj)
  qed
qed

lemma first_occ_None: "ys \<noteq> [] \<Longrightarrow> first_occ ys xs = None \<longleftrightarrow> (\<forall>i. \<not> occurs_at ys xs i)"
proof (induction xs)
  case Nil
  then show ?case by (auto simp: occurs_at_def)
next
  case (Cons x xs)
  have shift: "occurs_at ys (x # xs) (Suc j) \<longleftrightarrow> occurs_at ys xs j" for j by (simp add: occurs_at_def)
  have "(\<forall>i. \<not> occurs_at ys (x # xs) i) \<longleftrightarrow> \<not> occurs_at ys (x # xs) 0 \<and> (\<forall>j. \<not> occurs_at ys xs j)"
    using shift by (metis not0_implies_Suc)
  with Cons show ?case by auto
qed

lemma strstr_loop_correct:
  assumes "cstr m h xs" "cstr m n ys" "ys \<noteq> []"
  shows "strstr_loop m h n (length ys) =
     Some (case first_occ ys xs of None \<Rightarrow> NULL | Some i \<Rightarrow> h + i)"
  using assms(1)
proof (induction xs arbitrary: h)
  case Nil
  then show ?case by (simp add: strstr_loop.simps)
next
  case (Cons x xs)
  from assms(2,3) obtain y ys' where y: "ys = y # ys'" "m n = Some y" "y \<noteq> NUL" by (cases ys) auto
  from Cons.prems have x: "m h = Some x" "x \<noteq> NUL" "cstr m (h + 1) xs" by auto
  have nc: "strncmp m h n (length ys) = Some (strcmp_list (take (length ys) (x # xs)) ys)"
    using strncmp_correct [OF Cons.prems assms(2), of "length ys"] by simp
  have "NUL \<notin> set (take (length ys) (x # xs))" "NUL \<notin> set ys"
    using cstr_no_NUL [OF Cons.prems] cstr_no_NUL [OF assms(2)] by (auto dest: in_set_takeD)
  then have hit: "strcmp_list (take (length ys) (x # xs)) ys = 0 \<longleftrightarrow> occurs_at ys (x # xs) 0"
    by (simp add: strcmp_list_eq0 occurs_at_def)
  have "occurs_at ys (x # xs) 0 \<Longrightarrow> x = y" using y(1) by (simp add: occurs_at_def)
  with x y(2) nc hit Cons.IH [OF x(3)] show ?case
    by (subst strstr_loop.simps) (auto split: option.split)
qed

lemma strstr_correct:
  assumes "cstr m h xs" "cstr m n ys"
  shows "strstr m h n =
     Some (if ys = [] then h else (case first_occ ys xs of None \<Rightarrow> NULL | Some i \<Rightarrow> h + i))"
proof (cases ys)
  case Nil
  with assms(2) show ?thesis by (simp add: strstr_def)
next
  case (Cons y ys')
  with assms show ?thesis
    using strstr_loop_correct [OF assms] strlen_correct [OF assms(2)] by (simp add: strstr_def)
qed

subsection \<open>Copying\<close>

lemma strcpy_correct:
  "cstr m s xs \<Longrightarrow> mapped m d (length xs + 1) \<Longrightarrow> fwd_ok d s (length xs + 1) \<Longrightarrow>
   strcpy m d s = Some (blk_copy m d s (length xs + 1))"
  unfolding strcpy_def
proof (induction xs arbitrary: m d s)
  case Nil
  then have "m d \<noteq> None" by (simp add: mapped_Suc)
  with Nil show ?case using blk_copy_1 [of m s NUL d] by (simp add: strcpy_loop.simps store_mapped del: fun_upd_apply)
next
  case (Cons x xs)
  then have x: "m s = Some x" "x \<noteq> NUL" "cstr m (s + 1) xs" by auto
  have md: "m d \<noteq> None" "mapped m (d + 1) (length xs + 1)" using Cons.prems(2) by (simp_all add: mapped_Suc)
  have f: "fwd_ok (d + 1) (s + 1) (length xs + 1)" using Cons.prems(3) by (auto simp: fwd_ok_def)
  let ?m = "m(d \<mapsto> x)"
  have "cstr ?m (s + 1) xs"
    by (rule cstr_frame [OF x(3)]) (use Cons.prems(3) in \<open>auto simp: fwd_ok_def\<close>)
  note IH = Cons.IH [OF this mapped_upd [OF md(2), of d x] f]
  have "blk_copy ?m (d + 1) (s + 1) (length xs + 1) = blk_copy m d s (length (x # xs) + 1)"
    using blk_copy_Suc [of m s x d "length xs + 1"] x(1) Cons.prems(3) by simp
  with IH have "strcpy_loop ?m (d + 1) (s + 1) = Some (blk_copy m d s (length (x # xs) + 1))"
    by (simp only:)
  with x(1,2) show ?case by (subst strcpy_loop.simps) (simp add: store_mapped [of m d x, OF md(1)] del: fun_upd_apply)
qed

text \<open>The copied bytes are the string.\<close>

lemma blk_copy_cstr:
  assumes "cstr m s xs" "d \<le> s \<or> s + length xs + 1 \<le> d"
  shows "cstr (blk_copy m d s (length xs + 1)) d xs"
proof (rule cstrI)
  show "NUL \<notin> set xs" by (rule cstr_no_NUL [OF assms(1)])
  show "blk_copy m d s (length xs + 1) (d + i) = Some (xs ! i)" if "i < length xs" for i
    using that cstr_nth [OF assms(1) that] by (simp add: blk_copy_def)
  show "blk_copy m d s (length xs + 1) (d + length xs) = Some NUL"
    using cstr_end [OF assms(1)] by (simp add: blk_copy_def)
qed

definition disjoint_rgn :: "nat \<Rightarrow> nat \<Rightarrow> nat \<Rightarrow> nat \<Rightarrow> bool" where
  "disjoint_rgn a n b k \<longleftrightarrow> a + n \<le> b \<or> b + k \<le> a"

text \<open>Appending: the two strings may not overlap, and the room behind the first must be mapped.\<close>

lemma strcat_correct:
  assumes "cstr m d xs" "cstr m s ys" "mapped m d (length xs + length ys + 1)"
    "disjoint_rgn d (length xs + length ys + 1) s (length ys + 1)"
  shows "\<exists>m'. strcat m d s = Some m' \<and> cstr m' d (xs @ ys)
     \<and> (\<forall>a. \<not> (d + length xs \<le> a \<and> a \<le> d + length xs + length ys) \<longrightarrow> m' a = m a)"
proof -
  let ?e = "d + length xs" and ?n = "length ys + 1"
  let ?m = "blk_copy m ?e s ?n"
  have mp: "mapped m ?e ?n" using mapped_sub [OF assms(3), of "length xs" ?n] by simp
  have "fwd_ok ?e s ?n" using assms(4) by (auto simp: fwd_ok_def disjoint_rgn_def)
  with mp assms(2) have "strcpy m ?e s = Some ?m" by (intro strcpy_correct)
  then have sc: "strcat m d s = Some ?m" by (simp add: strcat_def strlen_correct [OF assms(1)])
  have "cstr ?m d (xs @ ys)"
  proof (rule cstrI)
    show "NUL \<notin> set (xs @ ys)" using cstr_no_NUL [OF assms(1)] cstr_no_NUL [OF assms(2)] by simp
    show "?m (d + i) = Some ((xs @ ys) ! i)" if "i < length (xs @ ys)" for i
    proof (cases "i < length xs")
      case True
      with cstr_nth [OF assms(1) True] show ?thesis by (simp add: blk_copy_def nth_append)
    next
      case False
      with that have "i - length xs < length ys" by simp
      from cstr_nth [OF assms(2) this] False that show ?thesis by (simp add: blk_copy_def nth_append)
    qed
    show "?m (d + length (xs @ ys)) = Some NUL" using cstr_end [OF assms(2)] by (simp add: blk_copy_def)
  qed
  moreover have "\<forall>a. \<not> (?e \<le> a \<and> a \<le> ?e + length ys) \<longrightarrow> ?m a = m a" by (auto simp: blk_copy_def)
  ultimately show ?thesis using sc by blast
qed

lemma copy_upto_correct:
  assumes "i \<le> length xs" "i \<le> n"
    "\<And>j. i \<le> j \<Longrightarrow> j < n \<Longrightarrow> j \<le> length xs \<Longrightarrow> m (s + j) = Some ((xs @ [NUL]) ! j)" "NUL \<notin> set xs"
    "mapped m d n" "disjoint_rgn d n s n"
  shows "copy_upto m d s n i =
    Some (\<lambda>a. if d + i \<le> a \<and> a < d + min n (length xs) then Some (xs ! (a - d)) else m a, min n (length xs))"
  using assms
proof (induction m d s n i rule: copy_upto.induct)
  case (1 m d s n i)
  show ?case
  proof (cases "i < n \<and> i < length xs")
    case True
    let ?m = "m(d + i \<mapsto> xs ! i)"
    have c: "m (s + i) = Some (xs ! i)" "xs ! i \<noteq> NUL"
      using "1.prems"(3) [of i] "1.prems"(4) True by (auto simp: nth_append in_set_conv_nth)
    have md: "m (d + i) \<noteq> None" using "1.prems"(5) True by (auto simp: mapped_def)
    have fr: "?m (s + j) = Some ((xs @ [NUL]) ! j)" if "i + 1 \<le> j" "j < n" "j \<le> length xs" for j
      using "1.prems"(3) [of j] "1.prems"(6) that True by (auto simp: disjoint_rgn_def)
    have "copy_upto ?m d s n (i + 1) =
      Some (\<lambda>a. if d + (i + 1) \<le> a \<and> a < d + min n (length xs) then Some (xs ! (a - d)) else ?m a, min n (length xs))"
      by (rule "1.IH" [OF _ c(1) c(2) store_mapped [of m "d + i" "xs ! i", OF md]])
        (use "1.prems"(4,6) True fr mapped_upd [OF "1.prems"(5)] in \<open>auto simp del: fun_upd_apply\<close>)
    moreover have "(\<lambda>a. if d + (i + 1) \<le> a \<and> a < d + min n (length xs) then Some (xs ! (a - d)) else ?m a) =
        (\<lambda>a. if d + i \<le> a \<and> a < d + min n (length xs) then Some (xs ! (a - d)) else m a)"
      using True by (auto simp: fun_eq_iff)
    ultimately show ?thesis
      using True c by (subst copy_upto.simps) (simp add: store_mapped [of m "d + i" "xs ! i", OF md])
  next
    case False
    show ?thesis
    proof (cases "i < n")
      case True
      with False "1.prems"(1) have l: "i = length xs" by simp
      with "1.prems"(3) [of i] True have "m (s + i) = Some NUL" by (simp add: nth_append)
      with True l show ?thesis by (subst copy_upto.simps) (auto simp: fun_eq_iff)
    next
      case nlt: False
      with "1.prems"(1,2) show ?thesis by (subst copy_upto.simps) (auto simp: fun_eq_iff)
    qed
  qed
qed

lemma strncpy_correct:
  assumes "cstr m s xs" "mapped m d n" "disjoint_rgn d n s n"
  shows "strncpy m d s n =
    Some (\<lambda>a. if d \<le> a \<and> a < d + n then Some (if a - d < length xs then xs ! (a - d) else NUL) else m a)"
proof -
  let ?k = "min n (length xs)"
  let ?m = "\<lambda>a. if d + 0 \<le> a \<and> a < d + ?k then Some (xs ! (a - d)) else m a"
  have "m (s + j) = Some ((xs @ [NUL]) ! j)" if "j \<le> length xs" for j
    using that cstr_nth [OF assms(1), of j] cstr_end [OF assms(1)] by (cases "j < length xs") (auto simp: nth_append)
  then have c: "copy_upto m d s n 0 = Some (?m, ?k)"
    using copy_upto_correct [of 0 xs n m s d] assms(2,3) cstr_no_NUL [OF assms(1)] by simp
  have "mapped ?m (d + ?k) (n - ?k)"
    using mapped_sub [OF assms(2), of ?k "n - ?k"] by (simp add: mapped_def)
  note fill = memset_tail_correct [OF this, of NUL]
  have "blk_fill ?m (d + ?k) NUL (n - ?k) =
    (\<lambda>a. if d \<le> a \<and> a < d + n then Some (if a - d < length xs then xs ! (a - d) else NUL) else m a)"
    by (rule ext) (auto simp: blk_fill_def)
  with c fill show ?thesis by (simp add: strncpy_def)
qed

subsection \<open>ffs\<close>

lemma ffs_loop_correct:
  "v \<noteq> 0 \<Longrightarrow> \<exists>k. ffs_loop v i = Some (i + k) \<and> bit v k \<and> (\<forall>j < k. \<not> bit v j)"
proof (induction "nat \<bar>v\<bar>" arbitrary: v i rule: less_induct)
  case less
  show ?case
  proof (cases "odd v")
    case True
    then have "bit v 0" by (simp add: bit_0)
    moreover have "v AND 1 \<noteq> 0" using True by (simp add: and_one_eq odd_iff_mod_2_eq_one)
    ultimately show ?thesis by (intro exI [of _ 0]) (simp add: ffs_loop.simps)
  next
    case False
    let ?h = "drop_bit 1 v"
    have h: "?h = v div 2" by (simp add: drop_bit_eq_div)
    have "?h \<noteq> 0" unfolding h using False less.prems by presburger
    moreover have "nat \<bar>?h\<bar> < nat \<bar>v\<bar>" unfolding h using less.prems False by (auto elim!: evenE simp: abs_mult)
    ultimately obtain k where k: "ffs_loop ?h (i + 1) = Some (i + 1 + k)" "bit ?h k" "\<forall>j < k. \<not> bit ?h j"
      using less.hyps by blast
    have b: "bit ?h j = bit v (Suc j)" for j by (simp add: bit_drop_bit_eq)
    have "\<not> bit v 0" using False by (simp add: bit_0)
    then have "\<forall>j < Suc k. \<not> bit v j" using k(3) b by (metis less_Suc_eq_0_disj)
    moreover have "v AND 1 = 0" using False by (simp add: and_one_eq even_iff_mod_2_eq_zero)
    ultimately show ?thesis using k(1,2) b
      by (intro exI [of _ "Suc k"]) (simp add: ffs_loop.simps [of v i])
  qed
qed

subsection \<open>Tokenising\<close>

lemma cstr_split_at:
  assumes "cstr m p (xs @ c # ys)"
  shows "cstr (m(p + length xs \<mapsto> NUL)) p xs" "cstr (m(p + length xs \<mapsto> NUL)) (p + length xs + 1) ys"
proof -
  show "cstr (m(p + length xs \<mapsto> NUL)) p xs"
  proof (rule cstrI)
    show "NUL \<notin> set xs" using cstr_no_NUL [OF assms] by simp
    show "(m(p + length xs \<mapsto> NUL)) (p + i) = Some (xs ! i)" if "i < length xs" for i
      using that cstr_nth [OF assms, of i] by (simp add: nth_append)
  qed simp
  have "cstr m (p + length xs + 1) ys"
    using cstr_drop [OF assms, of "length xs + 1"] by (simp add: add.assoc)
  then show "cstr (m(p + length xs \<mapsto> NUL)) (p + length xs + 1) ys"
    by (rule cstr_frame) simp
qed

text \<open>What one call of \<open>strtok_r\<close> on the text \<open>xs\<close> with separators \<open>ys\<close> delivers: the token and,
  if a separator ended it, the text after that separator.\<close>

definition next_token :: "byte set \<Rightarrow> byte list \<Rightarrow> (byte list \<times> byte list option) option" where
  "next_token seps xs =
     (let rest = dropWhile (\<lambda>c. c \<in> seps) xs; tok = takeWhile (\<lambda>c. c \<notin> seps) rest
      in if rest = [] then None
         else Some (tok, if length tok < length rest then Some (drop (length tok + 1) rest) else None))"

lemma strtok_r_correct:
  assumes s: "cstr m s xs" "s \<noteq> NULL" and a: "cstr m a ys" "a \<noteq> NULL"
    and dis: "disjoint_rgn s (length xs + 1) a (length ys + 1)"
  shows "case next_token (set ys) xs of
      None \<Rightarrow> strtok_r m s a save = Some (NULL, NULL, m)
    | Some (tok, rest) \<Rightarrow> (\<exists>p save' m'. strtok_r m s a save = Some (p, save', m')
        \<and> p = s + length (takeWhile (\<lambda>c. c \<in> set ys) xs) \<and> cstr m' p tok \<and> cstr m' a ys
        \<and> (case rest of None \<Rightarrow> save' = NULL \<and> m' = m
           | Some r \<Rightarrow> save' = p + length tok + 1 \<and> cstr m' save' r))"
proof -
  let ?in = "\<lambda>c. c \<in> set ys" and ?out = "\<lambda>c. c \<notin> set ys"
  let ?lead = "takeWhile ?in xs" and ?rest = "dropWhile ?in xs"
  let ?p = "s + length ?lead" and ?tok = "takeWhile ?out ?rest"
  have sp: "strspn m s a = Some (length ?lead)" by (rule strspn_correct [OF s(1) a])
  have dr: "drop (length ?lead) xs = ?rest"
    by (metis append_eq_conv_conj takeWhile_dropWhile_id)
  have cr: "cstr m ?p ?rest" using cstr_drop [OF s(1), of "length ?lead"] dr length_takeWhile_le by metis
  have cs: "strcspn m ?p a = Some (length ?tok)" by (rule strcspn_correct [OF cr a])
  show ?thesis
  proof (cases ?rest)
    case Nil
    with cr have "m ?p = Some NUL" by simp
    with sp s(2) Nil show ?thesis by (simp add: strtok_r_def next_token_def Let_def)
  next
    case (Cons x xs')
    with cr have x: "m ?p = Some x" "x \<noteq> NUL" by auto
    show ?thesis
    proof (cases "length ?tok < length ?rest")
      case False
      then have all: "?tok = ?rest"
        by (metis length_takeWhile_le linorder_not_less nat_less_le takeWhile_eq_take take_all)
      with cr have "m (?p + length ?tok) = Some NUL" by (metis cstr_end)
      with sp cs s(2) x Cons False cr a(1) all show ?thesis
        by (simp add: strtok_r_def next_token_def Let_def)
    next
      case True
      have nt: "next_token (set ys) xs = Some (?tok, Some (drop (length ?tok + 1) ?rest))"
        using True Cons by (simp add: next_token_def Let_def)
      obtain e r where er: "?rest = ?tok @ e # r"
        using True by (metis append_take_drop_id Cons_nth_drop_Suc takeWhile_eq_take)
      have d: "drop (length ?tok + 1) ?rest = r" by (subst er) simp
      from cr er have ce: "cstr m ?p (?tok @ e # r)" by metis
      have e: "m (?p + length ?tok) = Some e" "e \<noteq> NUL"
        using cstr_nth [OF ce, of "length ?tok"] cstr_no_NUL [OF ce] by auto
      let ?m = "m(?p + length ?tok \<mapsto> NUL)"
      have st: "store m (?p + length ?tok) NUL = Some ?m" using e(1) by (simp add: store_def)
      have len: "length ?lead + length ?tok \<le> length xs"
        using True by (metis takeWhile_dropWhile_id length_append add_le_cancel_left less_imp_le)
      have "cstr ?m a ys"
        by (rule cstr_frame [OF a(1)]) (use dis len in \<open>auto simp: disjoint_rgn_def\<close>)
      moreover have "strtok_r m s a save = Some (?p, ?p + length ?tok + 1, ?m)"
        using sp cs s(2) x e st by (simp add: strtok_r_def Let_def del: fun_upd_apply)
      ultimately show ?thesis using cstr_split_at [OF ce] unfolding nt d by simp
    qed
  qed
qed

lemma strdup_correct:
  assumes "cstr m s xs" "alloc m (length xs + 1) = (p, m1)" "p \<noteq> NULL"
    "mapped m1 p (length xs + 1)" "disjoint_rgn p (length xs + 1) s (length xs + 1)"
    "\<And>a. m a \<noteq> None \<Longrightarrow> m1 a = m a"
  shows "\<exists>m2. strdup alloc m s = Some (p, m2) \<and> cstr m2 p xs \<and> cstr m2 s xs"
proof -
  let ?n = "length xs + 1"
  have s1: "cstr m1 s xs"
    by (rule cstr_frame [OF assms(1)])
      (use cstr_mapped [OF assms(1)] assms(6) in \<open>metis mapped_def add_diff_inverse_nat leD le_add_diff_inverse less_Suc_eq_le Suc_eq_plus1 nat_add_left_cancel_le\<close>)
  have f: "fwd_ok p s ?n" using assms(5) by (auto simp: fwd_ok_def disjoint_rgn_def)
  have "memcpy m1 p s ?n = Some (blk_copy m1 p s ?n)"
    by (rule memcpy_correct [OF assms(4) cstr_mapped [OF s1] f])
  then have "strdup alloc m s = Some (p, blk_copy m1 p s ?n)"
    using assms(2,3) by (simp add: strdup_def strlen_correct [OF assms(1)] Let_def)
  moreover have "cstr (blk_copy m1 p s ?n) p xs"
    by (rule blk_copy_cstr [OF s1]) (use f in \<open>auto simp: fwd_ok_def\<close>)
  moreover have "cstr (blk_copy m1 p s ?n) s xs"
    by (rule cstr_frame [OF s1]) (use assms(5) in \<open>auto simp: blk_copy_def disjoint_rgn_def\<close>)
  ultimately show ?thesis by blast
qed

subsection \<open>Properties\<close>

text \<open>Memory that holds given bytes from an address on, for the witnesses.\<close>

definition mem_of :: "nat \<Rightarrow> byte list \<Rightarrow> mem" where
  "mem_of p xs = (\<lambda>a. if p \<le> a \<and> a < p + length xs then Some (xs ! (a - p)) else None)"

lemma mem_of_mapped: "mapped (mem_of p xs) q n \<longleftrightarrow> n = 0 \<or> (p \<le> q \<and> q + n \<le> p + length xs)"
proof
  assume m: "mapped (mem_of p xs) q n"
  show "n = 0 \<or> (p \<le> q \<and> q + n \<le> p + length xs)"
  proof (cases n)
    case (Suc k)
    then have "mem_of p xs (q + 0) \<noteq> None" "mem_of p xs (q + k) \<noteq> None" using m by (auto simp: mapped_def)
    then show ?thesis using Suc by (auto simp: mem_of_def split: if_splits)
  qed simp
qed (auto simp: mapped_def mem_of_def)

text \<open>C2: \<open>memmove\<close> copies the block as it was before the call, whatever the overlap and the alignment
  of the two regions, and changes nothing else.\<close>

theorem memmove_copies:
  assumes "mapped m d n" "mapped m s n"
  shows "\<exists>m'. memmove m d s n = Some m' \<and> (\<forall>i < n. m' (d + i) = m (s + i))
     \<and> (\<forall>a. a < d \<or> d + n \<le> a \<longrightarrow> m' a = m a)"
  using memmove_correct [OF assms] by (auto simp: blk_copy_def)

theorem memmove_copies_witness:
  "\<exists>m'. memmove (mem_of 1000 (replicate 40 CHR ''x'')) 1003 1001 30 = Some m'
     \<and> (\<forall>i < 30. m' (1003 + i) = mem_of 1000 (replicate 40 CHR ''x'') (1001 + i))
     \<and> (\<forall>a. a < 1003 \<or> 1003 + 30 \<le> a \<longrightarrow> m' a = mem_of 1000 (replicate 40 CHR ''x'') a)"
  by (rule memmove_copies) (simp_all add: mem_of_mapped)

text \<open>\<open>strcmp\<close> on two terminated strings returns, 0 exactly when they are equal and otherwise the
  difference of the first bytes that differ, read as unsigned; swapping the arguments negates it.\<close>

theorem strcmp_order:
  assumes "cstr m a xs" "cstr m b ys"
  shows "\<exists>r. strcmp m a b = Some r \<and> strcmp m b a = Some (- r) \<and> (r = 0 \<longleftrightarrow> xs = ys)
     \<and> (\<forall>zs x y xs' ys'. xs = zs @ x # xs' \<and> ys = zs @ y # ys' \<and> x \<noteq> y \<longrightarrow> r = ord x - ord y)"
proof -
  have "strcmp_list (zs @ x # xs') (zs @ y # ys') = ord x - ord y" if "x \<noteq> y" for zs x xs' y ys'
    using that by (induction zs) auto
  then show ?thesis
    using strcmp_correct [OF assms] strcmp_correct [OF assms(2,1)] strcmp_list_antisym [of ys xs]
      strcmp_list_eq0 [OF cstr_no_NUL [OF assms(1)] cstr_no_NUL [OF assms(2)]] by auto
qed

theorem strcmp_order_witness:
  "\<exists>r. strcmp (mem_of 100 (''cat'' @ [NUL] @ ''car'' @ [NUL])) 100 104 = Some r \<and> 0 < r"
proof -
  let ?m = "mem_of 100 (''cat'' @ [NUL] @ ''car'' @ [NUL])"
  have "cstr ?m 100 ''cat''" "cstr ?m 104 ''car''" by (simp_all add: mem_of_def)
  from strcmp_order [OF this] obtain r where r: "strcmp ?m 100 104 = Some r"
    "\<forall>zs x y xs' ys'. ''cat'' = zs @ x # xs' \<and> ''car'' = zs @ y # ys' \<and> x \<noteq> y \<longrightarrow> r = ord x - ord y" by blast
  have "r = ord CHR ''t'' - ord CHR ''r''" using r(2) [rule_format, of "''ca''" "CHR ''t''" "[]" "CHR ''r''" "[]"] by simp
  then show ?thesis using r(1) by (simp add: ord_def)
qed

text \<open>\<open>strncpy\<close> writes exactly the \<open>n\<close> bytes of the destination: the string cut at \<open>n\<close> bytes,
  padded with zeros; a longer string leaves the destination unterminated.\<close>

theorem strncpy_pads:
  assumes "cstr m s xs" "mapped m d n" "disjoint_rgn d n s n"
  shows "\<exists>m'. strncpy m d s n = Some m' \<and> (\<forall>i < n. m' (d + i) = Some (if i < length xs then xs ! i else NUL))
     \<and> (\<forall>a. a < d \<or> d + n \<le> a \<longrightarrow> m' a = m a)"
  using strncpy_correct [OF assms] by auto

theorem strncpy_pads_witness:
  "\<exists>m'. strncpy (mem_of 8 (''abc'' @ [NUL] @ replicate 60 CHR ''-'')) 20 8 5 = Some m' \<and> m' 22 = Some CHR ''c'' \<and> m' 24 = Some NUL"
proof -
  let ?m = "mem_of 8 (''abc'' @ [NUL] @ replicate 60 CHR ''-'')"
  have "cstr ?m 8 ''abc''" "mapped ?m 20 5" "disjoint_rgn 20 5 8 5"
    by (simp add: mem_of_def, simp_all add: mem_of_mapped disjoint_rgn_def)
  from strncpy_pads [OF this] obtain m' where m': "strncpy ?m 20 8 5 = Some m'"
    "\<forall>i < 5. m' (20 + i) = Some (if i < length ''abc'' then ''abc'' ! i else NUL)" by blast
  have "m' 22 = Some CHR ''c''" "m' 24 = Some NUL" using m'(2) [rule_format, of 2] m'(2) [rule_format, of 4] by simp_all
  with m'(1) show ?thesis by blast
qed

text \<open>\<open>strstr\<close> returns the first occurrence of a non-empty needle, and \<^verbatim>\<open>NULL\<close> exactly when there
  is none.\<close>

theorem strstr_first:
  assumes "cstr m h xs" "cstr m n ys" "ys \<noteq> []" "0 < h"
  shows "\<exists>r. strstr m h n = Some r \<and> (r = NULL \<longleftrightarrow> (\<forall>j. \<not> occurs_at ys xs j))
     \<and> (r \<noteq> NULL \<longrightarrow> h \<le> r \<and> occurs_at ys xs (r - h) \<and> (\<forall>j < r - h. \<not> occurs_at ys xs j))"
proof (cases "first_occ ys xs")
  case None
  then have "\<forall>j. \<not> occurs_at ys xs j" using first_occ_None [OF assms(3), of xs] by simp
  then show ?thesis using strstr_correct [OF assms(1,2)] assms(3) None by simp
next
  case (Some i)
  then show ?thesis
    using strstr_correct [OF assms(1,2)] assms(3,4) first_occ_Some [OF assms(3), of xs i] by (auto simp: NULL_def)
qed

theorem strstr_first_witness:
  "\<exists>r. strstr (mem_of 50 (''banana'' @ [NUL] @ ''nan'' @ [NUL])) 50 57 = Some r \<and> r \<noteq> NULL"
proof -
  let ?m = "mem_of 50 (''banana'' @ [NUL] @ ''nan'' @ [NUL])"
  have "cstr ?m 50 ''banana''" "cstr ?m 57 ''nan''" by (simp_all add: mem_of_def)
  from strstr_first [OF this] obtain r where r: "strstr ?m 50 57 = Some r"
    "r = NULL \<longleftrightarrow> (\<forall>j. \<not> occurs_at ''nan'' ''banana'' j)" by auto
  have "occurs_at ''nan'' ''banana'' 2" by (simp add: occurs_at_def)
  with r show ?thesis by blast
qed

text \<open>C4: one call of \<open>strtok_r\<close> returns the next maximal run of bytes that are not separators, terminated
  in place, and leaves the saved pointer at the rest of the string, or \<^verbatim>\<open>NULL\<close> when nothing is left.\<close>

theorem strtok_r_token:
  assumes "cstr m s xs" "s \<noteq> NULL" "cstr m a ys" "a \<noteq> NULL" "disjoint_rgn s (length xs + 1) a (length ys + 1)"
  shows "case next_token (set ys) xs of
      None \<Rightarrow> strtok_r m s a save = Some (NULL, NULL, m)
    | Some (tok, rest) \<Rightarrow> (\<exists>p save' m'. strtok_r m s a save = Some (p, save', m')
        \<and> p = s + length (takeWhile (\<lambda>c. c \<in> set ys) xs) \<and> cstr m' p tok \<and> cstr m' a ys
        \<and> (case rest of None \<Rightarrow> save' = NULL \<and> m' = m
           | Some r \<Rightarrow> save' = p + length tok + 1 \<and> cstr m' save' r))"
  using assms by (rule strtok_r_correct)

theorem strtok_r_token_witness:
  "\<exists>p save' m'. strtok_r (mem_of 10 ('',a,b'' @ [NUL] @ '','' @ [NUL])) 10 15 0 = Some (p, save', m')
     \<and> cstr m' p ''a'' \<and> cstr m' save' ''b''"
proof -
  let ?m = "mem_of 10 ('',a,b'' @ [NUL] @ '','' @ [NUL])"
  have "cstr ?m 10 '',a,b''" "(10 :: nat) \<noteq> NULL" "cstr ?m 15 '',''" "(15 :: nat) \<noteq> NULL"
    "disjoint_rgn 10 (length '',a,b'' + 1) 15 (length '','' + 1)"
    by (simp_all add: mem_of_def NULL_def disjoint_rgn_def)
  from strtok_r_token [OF this, of 0] obtain m' where
    "strtok_r ?m 10 15 0 = Some (11, 13, m')" "cstr m' 11 ''a''" "cstr m' 13 ''b''"
    by (auto simp: next_token_def)
  then show ?thesis by blast
qed

end
