(* ===== verification/Ctype.thy ===== *)
theory Ctype
  imports Prelude
begin

text \<open>
  \<^verbatim>\<open>src/ctype.c\<close>: the character classes of the C locale and their \<^verbatim>\<open>_l\<close> variants, which ignore the
  locale. A class test returns C's 0 or 1, here a truth value; the argument is any \<^verbatim>\<open>int\<close>.
\<close>

definition isdigit :: "int \<Rightarrow> bool" where
  "isdigit c \<longleftrightarrow> ord CHR ''0'' \<le> c \<and> c \<le> ord CHR ''9''"

definition isupper :: "int \<Rightarrow> bool" where
  "isupper c \<longleftrightarrow> ord CHR ''A'' \<le> c \<and> c \<le> ord CHR ''Z''"

definition islower :: "int \<Rightarrow> bool" where
  "islower c \<longleftrightarrow> ord CHR ''a'' \<le> c \<and> c \<le> ord CHR ''z''"

definition isalpha :: "int \<Rightarrow> bool" where
  "isalpha c \<longleftrightarrow> isupper c \<or> islower c"

definition isalnum :: "int \<Rightarrow> bool" where
  "isalnum c \<longleftrightarrow> isalpha c \<or> isdigit c"

text \<open>\<^verbatim>\<open>'\t'\<close> is 9 and \<^verbatim>\<open>'\r'\<close> is 13.\<close>

definition isspace :: "int \<Rightarrow> bool" where
  "isspace c \<longleftrightarrow> c = ord CHR '' '' \<or> (9 \<le> c \<and> c \<le> 13)"

definition isblank :: "int \<Rightarrow> bool" where
  "isblank c \<longleftrightarrow> c = ord CHR '' '' \<or> c = 9"

definition iscntrl :: "int \<Rightarrow> bool" where
  "iscntrl c \<longleftrightarrow> (0 \<le> c \<and> c < 32) \<or> c = 127"

definition isprint :: "int \<Rightarrow> bool" where
  "isprint c \<longleftrightarrow> 32 \<le> c \<and> c < 127"

definition isgraph :: "int \<Rightarrow> bool" where
  "isgraph c \<longleftrightarrow> 32 < c \<and> c < 127"

definition ispunct :: "int \<Rightarrow> bool" where
  "ispunct c \<longleftrightarrow> isgraph c \<and> \<not> isalnum c"

definition isxdigit :: "int \<Rightarrow> bool" where
  "isxdigit c \<longleftrightarrow> isdigit c \<or> (ord CHR ''a'' \<le> c \<and> c \<le> ord CHR ''f'') \<or> (ord CHR ''A'' \<le> c \<and> c \<le> ord CHR ''F'')"

definition tolower :: "int \<Rightarrow> int" where
  "tolower c = (if isupper c then c + 32 else c)"

definition toupper :: "int \<Rightarrow> int" where
  "toupper c = (if islower c then c - 32 else c)"

definition isalnum_l :: "int \<Rightarrow> 'locale \<Rightarrow> bool" where "isalnum_l c l = isalnum c"
definition isalpha_l :: "int \<Rightarrow> 'locale \<Rightarrow> bool" where "isalpha_l c l = isalpha c"
definition isblank_l :: "int \<Rightarrow> 'locale \<Rightarrow> bool" where "isblank_l c l = isblank c"
definition iscntrl_l :: "int \<Rightarrow> 'locale \<Rightarrow> bool" where "iscntrl_l c l = iscntrl c"
definition isdigit_l :: "int \<Rightarrow> 'locale \<Rightarrow> bool" where "isdigit_l c l = isdigit c"
definition isgraph_l :: "int \<Rightarrow> 'locale \<Rightarrow> bool" where "isgraph_l c l = isgraph c"
definition islower_l :: "int \<Rightarrow> 'locale \<Rightarrow> bool" where "islower_l c l = islower c"
definition isprint_l :: "int \<Rightarrow> 'locale \<Rightarrow> bool" where "isprint_l c l = isprint c"
definition ispunct_l :: "int \<Rightarrow> 'locale \<Rightarrow> bool" where "ispunct_l c l = ispunct c"
definition isspace_l :: "int \<Rightarrow> 'locale \<Rightarrow> bool" where "isspace_l c l = isspace c"
definition isupper_l :: "int \<Rightarrow> 'locale \<Rightarrow> bool" where "isupper_l c l = isupper c"
definition isxdigit_l :: "int \<Rightarrow> 'locale \<Rightarrow> bool" where "isxdigit_l c l = isxdigit c"
definition tolower_l :: "int \<Rightarrow> 'locale \<Rightarrow> int" where "tolower_l c l = tolower c"
definition toupper_l :: "int \<Rightarrow> 'locale \<Rightarrow> int" where "toupper_l c l = toupper c"

lemmas ctype_basic = isdigit_def isupper_def islower_def isspace_def isblank_def iscntrl_def
  isprint_def isgraph_def
lemmas ctype_defs = ctype_basic isalpha_def isalnum_def ispunct_def isxdigit_def tolower_def toupper_def

lemma ord_literals [simp]:
  "ord CHR ''0'' = 48" "ord CHR ''9'' = 57" "ord CHR ''A'' = 65" "ord CHR ''Z'' = 90"
  "ord CHR ''a'' = 97" "ord CHR ''z'' = 122" "ord CHR ''f'' = 102" "ord CHR ''F'' = 70" "ord CHR '' '' = 32"
  by (simp_all add: ord_def)

text \<open>
  The classes fit together as \<^verbatim>\<open><ctype.h>\<close> requires: every ASCII code is a control character, the
  space, a letter, a digit or punctuation, and exactly one of these; \<open>toupper\<close> and \<open>tolower\<close> are
  inverse on letters and leave everything else alone.
\<close>

lemma ctype_partition_aux:
  assumes "0 \<le> c" "c < 128"
  shows "length (filter (\<lambda>b. b) [iscntrl c, c = 32, isupper c, islower c, isdigit c, ispunct c]) = 1"
  using assms by (auto simp: ctype_defs)

lemma ctype_case_aux:
  "toupper (tolower c) = (if isalpha c then toupper c else c)" "isupper c \<Longrightarrow> toupper (tolower c) = c"
  "islower c \<Longrightarrow> tolower (toupper c) = c"
  by (auto simp: ctype_defs)

text \<open>For every ASCII code exactly one of control, space, upper case, lower case, digit and
  punctuation holds; the derived classes are the unions the standard names; case mapping is inverse
  on letters.\<close>

theorem ctype_partition:
  assumes "0 \<le> c" "c < 128"
  shows "length (filter (\<lambda>b. b) [iscntrl c, c = 32, isupper c, islower c, isdigit c, ispunct c]) = 1
    \<and> (isprint c \<longleftrightarrow> isgraph c \<or> c = 32) \<and> (isgraph c \<longleftrightarrow> isalnum c \<or> ispunct c)
    \<and> (isprint c \<longleftrightarrow> \<not> iscntrl c) \<and> (isxdigit c \<longrightarrow> isalnum c) \<and> (isblank c \<longrightarrow> isspace c)
    \<and> (isupper c \<longrightarrow> islower (tolower c) \<and> toupper (tolower c) = c)
    \<and> (islower c \<longrightarrow> isupper (toupper c) \<and> tolower (toupper c) = c)"
proof -
  have "isprint c \<longleftrightarrow> isgraph c \<or> c = 32" by (auto simp: ctype_basic)
  moreover have "isgraph c \<longleftrightarrow> isalnum c \<or> ispunct c" by (auto simp: ctype_defs)
  moreover have "isprint c \<longleftrightarrow> \<not> iscntrl c" using assms by (auto simp: ctype_basic)
  moreover have "isxdigit c \<longrightarrow> isalnum c" "isblank c \<longrightarrow> isspace c" by (auto simp: ctype_defs)
  moreover have "isupper c \<longrightarrow> islower (tolower c)" "islower c \<longrightarrow> isupper (toupper c)"
    by (auto simp: ctype_defs)
  ultimately show ?thesis using ctype_partition_aux [OF assms] ctype_case_aux by blast
qed

theorem ctype_partition_witness:
  "isupper 65 \<and> islower (tolower 65) \<and> toupper (tolower 65) = (65 :: int)
    \<and> length (filter (\<lambda>b. b) [iscntrl 65, 65 = (32::int), isupper 65, islower 65, isdigit 65, ispunct 65]) = 1"
proof -
  have "isupper 65" by (simp add: isupper_def)
  with ctype_partition [of 65] show ?thesis by simp
qed

end
