(* ===== verification/StdlibNum.thy ===== *)
theory StdlibNum
  imports Ctype "HOL-Library.Signed_Division"
begin

unbundle bit_operations_syntax

text \<open>
  The numeric half of \<^verbatim>\<open>src/stdlib.c\<close>: \<open>strtoull\<close> and the functions built on it, \<open>abs\<close>, \<open>div\<close>,
  \<open>rand\<close>.

  A cursor \<^verbatim>\<open>p\<close> into a C string is the suffix it points at, without the terminator; \<open>at p i\<close> is
  \<^verbatim>\<open>p[i]\<close>, with the terminator at the end (the code never reads past it, except through a base
  above 99, where the model's result is \<open>None\<close>). \<^verbatim>\<open>*end\<close> is returned as the suffix it would
  point at. \<^verbatim>\<open>unsigned long long\<close> is \<open>64 word\<close>: there is no overflow check in the code, so the
  accumulator wraps.
\<close>

definition at :: "byte list \<Rightarrow> nat \<Rightarrow> byte" where
  "at p i = (if i < length p then p ! i else NUL)"

definition digit_val :: "int \<Rightarrow> int" where
  "digit_val c =
     (if ord CHR ''0'' \<le> c \<and> c \<le> ord CHR ''9'' then c - ord CHR ''0''
      else if ord CHR ''a'' \<le> c \<and> c \<le> ord CHR ''z'' then c - ord CHR ''a'' + 10
      else if ord CHR ''A'' \<le> c \<and> c \<le> ord CHR ''Z'' then c - ord CHR ''A'' + 10
      else 99)"

text \<open>\<^verbatim>\<open>while (isspace((unsigned char)*p)) p++;\<close>\<close>

fun skip_space :: "byte list \<Rightarrow> byte list" where
  "skip_space [] = []"
| "skip_space (c # cs) = (if isspace (ord c) then skip_space cs else c # cs)"

text \<open>The digit loop; \<open>None\<close> is running over the terminator (only with a base above 99).\<close>

fun scan_digits :: "int \<Rightarrow> u64 \<Rightarrow> bool \<Rightarrow> byte list \<Rightarrow> (u64 \<times> bool \<times> byte list) option" where
  "scan_digits base acc any [] =
     (if digit_val (ord NUL) \<ge> base then Some (acc, any, []) else None)"
| "scan_digits base acc any (c # cs) =
     (let d = digit_val (ord c)
      in if d \<ge> base then Some (acc, any, c # cs)
         else scan_digits base (acc * of_int base + of_int d) True cs)"

definition strtoull :: "byte list \<Rightarrow> int \<Rightarrow> (u64 \<times> byte list) option" where
  "strtoull s base0 =
     (let p1 = skip_space s;
          signed = (at p1 0 = CHR ''+'' \<or> at p1 0 = CHR ''-'');
          neg = (at p1 0 = CHR ''-'');
          p2 = (if signed then drop 1 p1 else p1);
          (p3, base) =
            (if (base0 = 0 \<or> base0 = 16) \<and> at p2 0 = CHR ''0'' \<and> (at p2 1 = CHR ''x'' \<or> at p2 1 = CHR ''X'')
                \<and> digit_val (ord (at p2 2)) < 16
             then (drop 2 p2, 16)
             else if base0 = 0 \<and> at p2 0 = CHR ''0'' then (p2, 8)
             else if base0 = 0 then (p2, 10)
             else (p2, base0))
      in do { (acc, any, p) \<leftarrow> scan_digits base 0 False p3;
              Some (if neg then - acc else acc, if any then p else s) })"

definition strtoll :: "byte list \<Rightarrow> int \<Rightarrow> (int \<times> byte list) option" where
  "strtoll s base = do { (v, e) \<leftarrow> strtoull s base; Some (sint v, e) }"

definition strtoul :: "byte list \<Rightarrow> int \<Rightarrow> (u64 \<times> byte list) option" where
  "strtoul s base = strtoull s base"

definition strtol :: "byte list \<Rightarrow> int \<Rightarrow> (int \<times> byte list) option" where
  "strtol s base = do { (v, e) \<leftarrow> strtoull s base; Some (sint v, e) }"

definition atoi :: "byte list \<Rightarrow> int option" where
  "atoi s = do { (v, e) \<leftarrow> strtol s 10; Some (to_int32 v) }"

definition atol :: "byte list \<Rightarrow> int option" where
  "atol s = do { (v, e) \<leftarrow> strtol s 10; Some v }"

definition atoll :: "byte list \<Rightarrow> int option" where
  "atoll s = do { (v, e) \<leftarrow> strtoll s 10; Some v }"

definition strtoimax :: "byte list \<Rightarrow> int \<Rightarrow> (int \<times> byte list) option" where
  "strtoimax s base = do { (v, e) \<leftarrow> strtoull s base; Some (sint v, e) }"

definition strtoumax :: "byte list \<Rightarrow> int \<Rightarrow> (u64 \<times> byte list) option" where
  "strtoumax s base = strtoull s base"

text \<open>\<^verbatim>\<open>-x\<close> at the least value wraps back to it.\<close>

definition abs_c :: "int \<Rightarrow> int" where
  "abs_c x = (if x < 0 then to_int32 (- x) else x)"

definition labs :: "int \<Rightarrow> int" where
  "labs x = (if x < 0 then to_int64 (- x) else x)"

definition llabs :: "int \<Rightarrow> int" where
  "llabs x = (if x < 0 then to_int64 (- x) else x)"

definition imaxabs :: "int \<Rightarrow> int" where
  "imaxabs j = (if j < 0 then to_int64 (- j) else j)"

text \<open>\<^verbatim>\<open>div_t\<close>: quotient and remainder, C's truncating division; division by zero is \<open>None\<close>.\<close>

definition div_c :: "int \<Rightarrow> int \<Rightarrow> (int \<times> int) option" where
  "div_c n d = (if d = 0 then None else Some (to_int32 (n sdiv d), n smod d))"

definition ldiv :: "int \<Rightarrow> int \<Rightarrow> (int \<times> int) option" where
  "ldiv n d = (if d = 0 then None else Some (to_int64 (n sdiv d), n smod d))"

definition lldiv :: "int \<Rightarrow> int \<Rightarrow> (int \<times> int) option" where
  "lldiv n d = (if d = 0 then None else Some (to_int64 (n sdiv d), n smod d))"

text \<open>\<open>rand\<close>: the state is the static \<^verbatim>\<open>__rand_state\<close>.\<close>

definition srand :: "u32 \<Rightarrow> u64" where
  "srand seed = ucast seed"

definition rand :: "u64 \<Rightarrow> int \<times> u64" where
  "rand st = (let st' = st * 1103515245 + 12345 in (uint (drop_bit 16 st' AND 0x7fffffff), st'))"

subsection \<open>What the digit loop computes\<close>

fun digits_value :: "nat \<Rightarrow> nat \<Rightarrow> byte list \<Rightarrow> nat" where
  "digits_value base acc [] = acc"
| "digits_value base acc (c # cs) = digits_value base (acc * base + nat (digit_val (ord c))) cs"

definition is_digit :: "nat \<Rightarrow> byte \<Rightarrow> bool" where
  "is_digit base c \<longleftrightarrow> digit_val (ord c) < int base"

lemma digit_val_ge0: "0 \<le> digit_val c"
  by (simp add: digit_val_def)

lemma digit_val_NUL [simp]: "digit_val 0 = 99"
  by (simp add: digit_val_def)

lemma digits_value_append: "digits_value b acc (xs @ ys) = digits_value b (digits_value b acc xs) ys"
  by (induction xs arbitrary: acc) auto

lemma scan_digits_correct:
  assumes "\<forall>c \<in> set ds. is_digit base c" "rest = [] \<or> \<not> is_digit base (hd rest)" "base \<le> 99"
  shows "scan_digits (int base) acc any (ds @ rest) =
    Some (of_nat (digits_value base 0 ds) + acc * of_nat (base ^ length ds), any \<or> ds \<noteq> [], rest)"
  using assms(1)
proof (induction ds arbitrary: acc any)
  case Nil
  with assms(2,3) show ?case by (cases rest) (auto simp: is_digit_def)
next
  case (Cons d ds)
  have shift: "digits_value base k xs = digits_value base 0 xs + k * base ^ length xs" for k xs
  proof (induction xs arbitrary: k)
    case (Cons x xs)
    from Cons [of "k * base + nat (digit_val (ord x))"] Cons [of "nat (digit_val (ord x))"]
    show ?case by (simp add: algebra_simps)
  qed simp
  have lt: "digit_val (ord d) < int base" using Cons.prems by (simp add: is_digit_def)
  have d: "(of_int (digit_val (ord d)) :: u64) = of_nat (nat (digit_val (ord d)))"
    using digit_val_ge0 [of "ord d"] by (metis of_int_of_nat_eq nat_0_le)
  have "scan_digits (int base) acc any ((d # ds) @ rest) =
      scan_digits (int base) (acc * of_nat base + of_nat (nat (digit_val (ord d)))) True (ds @ rest)"
    using lt d by simp
  also have "\<dots> = Some (of_nat (digits_value base 0 ds)
      + (acc * of_nat base + of_nat (nat (digit_val (ord d)))) * of_nat (base ^ length ds), True, rest)"
    using Cons by simp
  also have "of_nat (digits_value base 0 ds)
      + (acc * of_nat base + of_nat (nat (digit_val (ord d)))) * of_nat (base ^ length ds)
      = of_nat (digits_value base 0 (d # ds)) + acc * of_nat (base ^ length (d # ds))"
    using shift [of "nat (digit_val (ord d))" ds] by (simp add: algebra_simps)
  finally show ?case by simp
qed

lemma skip_space_append: "\<forall>c \<in> set ws. isspace (ord c) \<Longrightarrow> skip_space (ws @ p) = skip_space p"
  by (induction ws) auto

lemma skip_space_stop: "p = [] \<or> \<not> isspace (ord (hd p)) \<Longrightarrow> skip_space p = p"
  by (cases p) auto

lemma at_0 [simp]: "at (c # cs) 0 = c" "at [] i = NUL"
  by (simp_all add: at_def)

lemma at_append_0: "ds \<noteq> [] \<Longrightarrow> at (ds @ rest) 0 = hd ds"
  by (cases ds) auto

lemma digit_not_special:
  assumes "is_digit base c" "base \<le> 36"
  shows "\<not> isspace (ord c)" "c \<noteq> CHR ''+''" "c \<noteq> CHR ''-''"
proof -
  have "digit_val (ord c) \<noteq> 99" using assms by (auto simp: is_digit_def)
  then show "\<not> isspace (ord c)" by (auto simp: digit_val_def isspace_def)
  have "ord CHR ''+'' = 43" "ord CHR ''-'' = 45" by (simp_all add: ord_def)
  then have "digit_val (ord CHR ''+'') = 99" "digit_val (ord CHR ''-'') = 99" by (simp_all add: digit_val_def)
  with \<open>digit_val (ord c) \<noteq> 99\<close> show "c \<noteq> CHR ''+''" "c \<noteq> CHR ''-''" by auto
qed

subsection \<open>strtoull on well-formed input\<close>

definition sign_text :: "byte list \<Rightarrow> bool" where
  "sign_text sg \<longleftrightarrow> sg = [] \<or> sg = ''+'' \<or> sg = ''-''"

lemma strtoull_skips:
  assumes "\<forall>c \<in> set ws. isspace (ord c)" "sign_text sg" "body \<noteq> []" "\<not> isspace (ord (hd body))"
    "hd body \<noteq> CHR ''+''" "hd body \<noteq> CHR ''-''"
  shows "skip_space (ws @ sg @ body) = sg @ body"
    "at (sg @ body) 0 = CHR ''-'' \<longleftrightarrow> sg = ''-''"
    "(if at (sg @ body) 0 = CHR ''+'' \<or> at (sg @ body) 0 = CHR ''-'' then drop 1 (sg @ body) else sg @ body) = body"
proof -
  have "ord CHR ''+'' = 43" "ord CHR ''-'' = 45" by (simp_all add: ord_def)
  then have "\<not> isspace (ord (hd (sg @ body)))"
    using assms(2,3,4) by (auto simp: sign_text_def isspace_def)
  then show "skip_space (ws @ sg @ body) = sg @ body"
    using skip_space_append [OF assms(1)] skip_space_stop by simp
  obtain b bs where "body = b # bs" using assms(3) by (cases body) auto
  with assms(2,5,6) show "at (sg @ body) 0 = CHR ''-'' \<longleftrightarrow> sg = ''-''"
    "(if at (sg @ body) 0 = CHR ''+'' \<or> at (sg @ body) 0 = CHR ''-'' then drop 1 (sg @ body) else sg @ body) = body"
    by (auto simp: sign_text_def)
qed

text \<open>
  A numeral as the argument \<open>base\<close> makes \<^verbatim>\<open>strtoull\<close> read it: the digits \<open>ds\<close> are in base \<open>b\<close>, behind
  \<^verbatim>\<open>0x\<close> when that is followed by a hexadecimal digit and the base is 0 or 16; without it base 0 is
  octal behind a zero and decimal otherwise, and "0x" with no digit behind it is the digit 0.
\<close>

definition hex_prefix :: "byte list \<Rightarrow> bool" where
  "hex_prefix body \<longleftrightarrow> at body 0 = CHR ''0'' \<and> (at body 1 = CHR ''x'' \<or> at body 1 = CHR ''X'') \<and> digit_val (ord (at body 2)) < 16"

definition numeral_form :: "int \<Rightarrow> byte list \<Rightarrow> nat \<Rightarrow> byte list \<Rightarrow> byte list \<Rightarrow> bool" where
  "numeral_form base pre b ds rest \<longleftrightarrow>
     ds \<noteq> [] \<and> (\<forall>c \<in> set ds. is_digit b c) \<and> (rest = [] \<or> \<not> is_digit b (hd rest))
     \<and> (if base = 0 \<or> base = 16
        then if pre = [] then \<not> hex_prefix (ds @ rest) \<and> b = (if base = 16 then 16 else if hd ds = CHR ''0'' then 8 else 10)
             else (pre = ''0x'' \<or> pre = ''0X'') \<and> b = 16
        else pre = [] \<and> base = int b \<and> 2 \<le> b \<and> b \<le> 36)"

lemma strtoull_plain_value:
  assumes "\<forall>c \<in> set ws. isspace (ord c)" "sign_text sg" "numeral_form base [] b ds rest"
  shows "strtoull (ws @ sg @ ds @ rest) base =
    Some (if sg = ''-'' then - of_nat (digits_value b 0 ds) else of_nat (digits_value b 0 ds), rest)"
proof -
  have ds: "ds \<noteq> []" "\<forall>c \<in> set ds. is_digit b c" "rest = [] \<or> \<not> is_digit b (hd rest)"
    using assms(3) by (simp_all add: numeral_form_def)
  have b: "b \<le> 36" using assms(3) by (auto simp: numeral_form_def split: if_splits)
  have "hd (ds @ rest) \<in> set ds" using ds(1) by (cases ds) auto
  then have hd_dig: "is_digit b (hd (ds @ rest))" using ds(2) by blast
  have ne: "ds @ rest \<noteq> []" using ds(1) by simp
  note k = strtoull_skips [OF assms(1,2) ne digit_not_special [OF hd_dig b]]
  have sc: "scan_digits (int b) 0 False (ds @ rest) = Some (of_nat (digits_value b 0 ds), True, rest)"
    using scan_digits_correct [OF ds(2,3), of 0 False] ds(1) b by simp
  have a0: "at (ds @ rest) 0 = hd ds" by (rule at_append_0 [OF ds(1)])
  have nx: "\<not> ((base = 0 \<or> base = 16) \<and> at (ds @ rest) 0 = CHR ''0''
      \<and> (at (ds @ rest) 1 = CHR ''x'' \<or> at (ds @ rest) 1 = CHR ''X'') \<and> digit_val (ord (at (ds @ rest) 2)) < 16)"
    using assms(3) by (auto simp: numeral_form_def hex_prefix_def)
  have bb: "base = 0 \<Longrightarrow> b = (if hd ds = CHR ''0'' then 8 else 10)" "base \<noteq> 0 \<Longrightarrow> base = int b"
    using assms(3) by (auto simp: numeral_form_def split: if_splits)
  show ?thesis
    unfolding strtoull_def Let_def k(1) unfolding k(3) unfolding k(2) if_not_P [OF nx]
    using sc bb by (cases "base = 0") (auto simp: a0 split: if_splits)
qed

lemma strtoull_value:
  assumes "\<forall>c \<in> set ws. isspace (ord c)" "sign_text sg" "ds \<noteq> []" "\<forall>c \<in> set ds. is_digit base c"
    "rest = [] \<or> \<not> is_digit base (hd rest)" "2 \<le> base" "base \<le> 36" "base \<noteq> 16"
  shows "strtoull (ws @ sg @ ds @ rest) (int base) =
    Some (if sg = ''-'' then - of_nat (digits_value base 0 ds) else of_nat (digits_value base 0 ds), rest)"
  by (rule strtoull_plain_value [OF assms(1,2)]) (use assms(3-8) in \<open>auto simp: numeral_form_def\<close>)

lemma strtoull_hex_value:
  assumes "\<forall>c \<in> set ws. isspace (ord c)" "sign_text sg" "ds \<noteq> []" "\<forall>c \<in> set ds. is_digit 16 c"
    "rest = [] \<or> \<not> is_digit 16 (hd rest)" "x = CHR ''x'' \<or> x = CHR ''X''" "base = 0 \<or> base = 16"
  shows "strtoull (ws @ sg @ (CHR ''0'' # x # ds) @ rest) base =
    Some (if sg = ''-'' then - of_nat (digits_value 16 0 ds) else of_nat (digits_value 16 0 ds), rest)"
proof -
  let ?body = "(CHR ''0'' # x # ds) @ rest"
  obtain d ds' where d: "ds = d # ds'" using assms(3) by (cases ds) auto
  have dd: "digit_val (ord d) < 16" using assms(4) d by (simp add: is_digit_def)
  have ne: "?body \<noteq> []" "\<not> isspace (ord (hd ?body))" "hd ?body \<noteq> CHR ''+''" "hd ?body \<noteq> CHR ''-''"
    by (simp_all add: isspace_def)
  note k = strtoull_skips [OF assms(1,2) ne]
  have sc: "scan_digits 16 0 False (ds @ rest) = Some (of_nat (digits_value 16 0 ds), True, rest)"
    using scan_digits_correct [OF assms(4,5), of 0 False] assms(3) by simp
  have pre: "at ?body 0 = CHR ''0''" "at ?body 1 = x" "at ?body 2 = d" "drop 2 ?body = ds @ rest"
    using d by (simp_all add: at_def)
  show ?thesis
    unfolding strtoull_def Let_def k(1) unfolding k(3) unfolding k(2) pre
    using assms(6,7) dd sc by auto
qed

text \<open>No digits: nothing is consumed and the value is 0.\<close>

lemma strtoull_no_digits:
  assumes "\<not> is_digit base (at (skip_space s) 0)" "at (skip_space s) 0 \<noteq> CHR ''+''"
    "at (skip_space s) 0 \<noteq> CHR ''-''" "2 \<le> base" "base \<le> 36"
  shows "strtoull s (int base) = Some (0, s)"
proof -
  let ?p = "skip_space s"
  have "digit_val 48 = 0" by (simp add: digit_val_def)
  then have z: "at ?p 0 \<noteq> CHR ''0''" using assms(1,4) by (auto simp: is_digit_def)
  have sc: "scan_digits (int base) 0 False ?p = Some (0, False, ?p)"
    using scan_digits_correct [of "[]" base ?p 0 False] assms(1,5) by (cases ?p) auto
  show ?thesis
    unfolding strtoull_def Let_def using z assms(2,3,4) sc by simp
qed

lemma scan_digits_total: "b \<le> 99 \<Longrightarrow> \<exists>v a e. scan_digits b acc any p = Some (v, a, e)"
  by (induction b acc any p rule: scan_digits.induct) (auto simp: Let_def)

text \<open>The effective base after the prefix test is 8, 10, 16 or the argument, so the loop ends.\<close>

lemma strtoull_total:
  assumes "base \<le> 99"
  shows "\<exists>v e. strtoull s base = Some (v, e)"
proof -
  have run: "\<exists>v e. (do { (acc, any, p) \<leftarrow> scan_digits b 0 False q;
      Some (if neg then - acc else acc, if any then p else s) }) = Some (v, e)" if "b \<le> 99" for b q neg
    using scan_digits_total [OF that, of 0 False q] by auto
  have base_ok: "b \<le> 99"
    if "(if c1 then (q1, 16) else if c2 then (q2, 8) else if c3 then (q3, 10) else (q4, base)) = (q :: string, b)"
    for c1 c2 c3 q1 q2 q3 q4 q b
    using that assms by (auto split: if_splits)
  show ?thesis
    unfolding strtoull_def Let_def
    by (split prod.split, intro allI impI, rule run, erule base_ok)
qed

lemma div_c_law:
  assumes "d \<noteq> 0" "div_c n d = Some (q, r)" "- (2 ^ 31) \<le> n sdiv d" "n sdiv d < 2 ^ 31"
  shows "n = q * d + r \<and> \<bar>r\<bar> < \<bar>d\<bar> \<and> (r = 0 \<or> sgn r = sgn n)"
proof -
  have q: "q = n sdiv d" and r: "r = n smod d" using assms by (auto simp: div_c_def)
  have e: "n = q * d + r" unfolding q r by (rule sdiv_mult_smod_eq [symmetric])
  have rv: "r = sgn n * (\<bar>n\<bar> mod \<bar>d\<bar>)" unfolding r by (simp add: signed_modulo_int_def)
  have m: "0 \<le> \<bar>n\<bar> mod \<bar>d\<bar>" "\<bar>n\<bar> mod \<bar>d\<bar> < \<bar>d\<bar>" using assms(1) by simp_all
  then have "\<bar>r\<bar> < \<bar>d\<bar>" unfolding rv by (auto simp: abs_mult sgn_if)
  moreover have "r = 0 \<or> sgn r = sgn n" unfolding rv using m by (auto simp: sgn_mult sgn_if)
  ultimately show ?thesis using e by blast
qed

text \<open>C3: on a numeral in any base that \<open>strtoull\<close> takes, with optional white space and sign, it returns
  the numeral's value modulo \<open>2 ^ 64\<close>, negated for a minus sign, and leaves the end pointer at the first
  character that is not a digit. The base is explicit (2 to 36), with or without \<^verbatim>\<open>0x\<close> for 16, or 0:
  then \<^verbatim>\<open>0x\<close> means 16, a leading zero 8, anything else 10.\<close>

theorem strtoull_parses:
  assumes "\<forall>c \<in> set ws. isspace (ord c)" "sign_text sg" "numeral_form base pre b ds rest"
  shows "strtoull (ws @ sg @ pre @ ds @ rest) base =
    Some (if sg = ''-'' then - of_nat (digits_value b 0 ds) else of_nat (digits_value b 0 ds), rest)"
proof (cases "pre = []")
  case True
  then show ?thesis using strtoull_plain_value [OF assms(1,2)] assms(3) by simp
next
  case False
  then obtain x where x: "pre = [CHR ''0'', x]" "x = CHR ''x'' \<or> x = CHR ''X''" "base = 0 \<or> base = 16" "b = 16"
    using assms(3) by (auto simp: numeral_form_def split: if_splits)
  have "ds \<noteq> []" "\<forall>c \<in> set ds. is_digit 16 c" "rest = [] \<or> \<not> is_digit 16 (hd rest)"
    using assms(3) x(4) by (simp_all add: numeral_form_def)
  from strtoull_hex_value [OF assms(1,2) this x(2,3)] show ?thesis by (simp add: x(1,4))
qed

theorem strtoull_parses_witness:
  "strtoull '' -1234x'' 10 = Some (- 1234, ''x'') \<and> strtoull ''0x1fz'' 0 = Some (31, ''z'') \<and> strtoull ''017'' 0 = Some (15, [])"
proof (intro conjI)
  have "strtoull ('' '' @ ''-'' @ [] @ ''1234'' @ ''x'') 10 =
      Some (if ''-'' = ''-'' then - of_nat (digits_value 10 0 ''1234'') else of_nat (digits_value 10 0 ''1234''), ''x'')"
    by (rule strtoull_parses) (simp_all add: sign_text_def isspace_def is_digit_def digit_val_def ord_def numeral_form_def)
  moreover have "digits_value 10 0 ''1234'' = 1234" by (simp add: digit_val_def ord_def)
  ultimately show "strtoull '' -1234x'' 10 = Some (- 1234, ''x'')" by (simp del: digits_value.simps)
  have "strtoull ([] @ [] @ ''0x'' @ ''1f'' @ ''z'') 0 =
      Some (if ([] :: string) = ''-'' then - of_nat (digits_value 16 0 ''1f'') else of_nat (digits_value 16 0 ''1f''), ''z'')"
    by (rule strtoull_parses) (simp_all add: sign_text_def is_digit_def digit_val_def ord_def numeral_form_def)
  moreover have "digits_value 16 0 ''1f'' = 31" by (simp add: digit_val_def ord_def)
  ultimately show "strtoull ''0x1fz'' 0 = Some (31, ''z'')" by (simp del: digits_value.simps)
  have "strtoull ([] @ [] @ [] @ ''017'' @ []) 0 =
      Some (if ([] :: string) = ''-'' then - of_nat (digits_value 8 0 ''017'') else of_nat (digits_value 8 0 ''017''), [])"
    by (rule strtoull_parses) (simp_all add: sign_text_def is_digit_def digit_val_def ord_def numeral_form_def hex_prefix_def at_def)
  moreover have "digits_value 8 0 ''017'' = 15" by (simp add: digit_val_def ord_def)
  ultimately show "strtoull ''017'' 0 = Some (15, [])" by (simp del: digits_value.simps)
qed

text \<open>\<^verbatim>\<open>div\<close> satisfies C's division law whenever the quotient fits in an \<^verbatim>\<open>int\<close>.\<close>

theorem div_law:
  assumes "d \<noteq> 0" "div_c n d = Some (q, r)" "- (2 ^ 31) \<le> n sdiv d" "n sdiv d < 2 ^ 31"
  shows "n = q * d + r \<and> \<bar>r\<bar> < \<bar>d\<bar> \<and> (r = 0 \<or> sgn r = sgn n)"
  using assms by (rule div_c_law)

theorem div_law_witness: "div_c (-7) 2 = Some (-3, -1) \<and> (-7 :: int) = -3 * 2 + -1"
proof
  have q: "(-7 :: int) sdiv 2 = -3" and r: "(-7 :: int) smod 2 = -1" by simp_all
  have i: "to_int32 (-3) = -3" by (rule to_int32_id) simp_all
  show e: "div_c (-7) 2 = Some (-3, -1)" unfolding div_c_def q r i by simp
  have "(2 :: int) \<noteq> 0" "- (2 ^ 31) \<le> (-7 :: int) sdiv 2" "(-7 :: int) sdiv 2 < 2 ^ 31"
    unfolding q by simp_all
  from div_law [OF this(1) e this(2,3)] show "(-7 :: int) = -3 * 2 + -1" by (rule conjunct1)
qed

end
