(* ===== verification/StdlibSort.thy ===== *)
theory StdlibSort
  imports CString
begin

text \<open>
  \<^verbatim>\<open>qsort\<close> and \<^verbatim>\<open>bsearch\<close> of \<^verbatim>\<open>src/stdlib.c\<close>.

  An array of \<^verbatim>\<open>n\<close> elements of \<^verbatim>\<open>size\<close> bytes is the list of its elements, each a byte list; the
  pointer \<^verbatim>\<open>b + k * size\<close> is the index \<open>k\<close>. An access outside the array makes the result \<open>None\<close>,
  so does the division of a byte offset by a \<^verbatim>\<open>size\<close> of 0, and so does a scan that never stops (the scans
  and the recursion are \<^theory_text>\<open>partial_function (option)\<close>): the theorem is that with a consistent comparison \<open>qsort\<close>
  returns, with the slice sorted and everything else in place. (With \<^verbatim>\<open>size\<close> 0 all the pointers are
  equal: a scan then either stops at once or never, and the division follows; the model's indices lead
  to \<open>None\<close> as well.) The comparison is the caller's: it is
  a parameter, and what \<open>qsort\<close> needs of it is the locale \<open>comparator\<close>.
\<close>

type_synonym arr = "byte list list"
type_synonym cmpfn = "byte list \<Rightarrow> byte list \<Rightarrow> int"

fun swp :: "byte list \<Rightarrow> byte list \<Rightarrow> nat \<Rightarrow> (byte list \<times> byte list) option" where
  "swp a b 0 = Some (a, b)"
| "swp (x # a) (y # b) (Suc n) = do { (a', b') \<leftarrow> swp a b n; Some (y # a', x # b') }"
| "swp a b (Suc n) = None"

definition elem :: "arr \<Rightarrow> nat \<Rightarrow> byte list option" where
  "elem xs i = (if i < length xs then Some (xs ! i) else None)"

definition swp_at :: "nat \<Rightarrow> arr \<Rightarrow> nat \<Rightarrow> nat \<Rightarrow> arr option" where
  "swp_at sz xs i j =
     do { x \<leftarrow> elem xs i; y \<leftarrow> elem xs j; (x', y') \<leftarrow> swp x y sz; Some (xs[i := x', j := y']) }"

text \<open>\<^verbatim>\<open>if (cmp(p, q) < 0) swp(p, q, size);\<close>\<close>

definition swp_if_less :: "cmpfn \<Rightarrow> nat \<Rightarrow> arr \<Rightarrow> nat \<Rightarrow> nat \<Rightarrow> arr option" where
  "swp_if_less cmp sz xs p q =
     do { x \<leftarrow> elem xs p; y \<leftarrow> elem xs q; if cmp x y < 0 then swp_at sz xs p q else Some xs }"

text \<open>The insertion sort: the inner loop moves element \<open>b + j\<close> down, the outer loop has \<open>k\<close> rounds
  left.\<close>

fun ins_down :: "cmpfn \<Rightarrow> nat \<Rightarrow> arr \<Rightarrow> nat \<Rightarrow> nat \<Rightarrow> arr option" where
  "ins_down cmp sz xs b 0 = Some xs"
| "ins_down cmp sz xs b (Suc j) =
     do { x \<leftarrow> elem xs (b + Suc j); y \<leftarrow> elem xs (b + j);
          if cmp x y < 0
          then do { xs' \<leftarrow> swp_at sz xs (b + Suc j) (b + j); ins_down cmp sz xs' b j }
          else Some xs }"

fun ins_sort :: "cmpfn \<Rightarrow> nat \<Rightarrow> arr \<Rightarrow> nat \<Rightarrow> nat \<Rightarrow> nat \<Rightarrow> arr option" where
  "ins_sort cmp sz xs b i 0 = Some xs"
| "ins_sort cmp sz xs b i (Suc k) =
     do { xs' \<leftarrow> ins_down cmp sz xs b i; ins_sort cmp sz xs' b (i + 1) k }"

text \<open>Median of three, then the pivot is parked at \<^verbatim>\<open>hi - 1\<close>.\<close>

definition median3 :: "cmpfn \<Rightarrow> nat \<Rightarrow> arr \<Rightarrow> nat \<Rightarrow> nat \<Rightarrow> nat \<Rightarrow> arr option" where
  "median3 cmp sz xs lo mid hi =
     do { xs1 \<leftarrow> swp_if_less cmp sz xs mid lo;
          h \<leftarrow> elem xs1 hi; m \<leftarrow> elem xs1 mid;
          xs2 \<leftarrow> (if cmp h m < 0
                 then do { ys \<leftarrow> swp_at sz xs1 hi mid; swp_if_less cmp sz ys mid lo }
                 else Some xs1);
          swp_at sz xs2 mid (hi - 1) }"

partial_function (option) scan_up :: "cmpfn \<Rightarrow> arr \<Rightarrow> nat \<Rightarrow> nat \<Rightarrow> nat option" where
  [code]: "scan_up cmp xs pivot i =
     do { x \<leftarrow> elem xs (i + 1); p \<leftarrow> elem xs pivot;
          if cmp x p < 0 then scan_up cmp xs pivot (i + 1) else Some (i + 1) }"

partial_function (option) scan_down :: "cmpfn \<Rightarrow> arr \<Rightarrow> nat \<Rightarrow> nat \<Rightarrow> nat option" where
  [code]: "scan_down cmp xs pivot j =
     (if j = 0 then None
      else do { x \<leftarrow> elem xs (j - 1); p \<leftarrow> elem xs pivot;
                if cmp p x < 0 then scan_down cmp xs pivot (j - 1) else Some (j - 1) })"

partial_function (option) part_loop :: "cmpfn \<Rightarrow> nat \<Rightarrow> arr \<Rightarrow> nat \<Rightarrow> nat \<Rightarrow> nat \<Rightarrow> (arr \<times> nat) option" where
  [code]: "part_loop cmp sz xs pivot i j =
     do { i' \<leftarrow> scan_up cmp xs pivot i; j' \<leftarrow> scan_down cmp xs pivot j;
          if i' \<ge> j' then Some (xs, i')
          else do { xs' \<leftarrow> swp_at sz xs i' j'; part_loop cmp sz xs' pivot i' j' } }"

partial_function (option) qsort :: "cmpfn \<Rightarrow> nat \<Rightarrow> arr \<Rightarrow> nat \<Rightarrow> nat \<Rightarrow> arr option" where
  [code]: "qsort cmp sz xs b n =
     (if n < 2 then Some xs
      else if n \<le> 12 then ins_sort cmp sz xs b 1 (n - 1)
      else do { let lo = b; let hi = b + (n - 1); let mid = b + n div 2;
                xs1 \<leftarrow> median3 cmp sz xs lo mid hi;
                (xs2, i) \<leftarrow> part_loop cmp sz xs1 (hi - 1) lo (hi - 1);
                xs3 \<leftarrow> swp_at sz xs2 i (hi - 1);
                left \<leftarrow> (if sz = 0 then None else Some (i - lo));
                xs4 \<leftarrow> qsort cmp sz xs3 lo left;
                qsort cmp sz xs4 (i + 1) (n - left - 1) })"

text \<open>\<open>bsearch\<close>: \<open>None\<close> inside is \<^verbatim>\<open>NULL\<close>, otherwise the index of the element found.\<close>

function bsearch_loop :: "cmpfn \<Rightarrow> byte list \<Rightarrow> arr \<Rightarrow> nat \<Rightarrow> nat \<Rightarrow> nat option option" where
  "bsearch_loop cmp key xs lo hi =
     (if lo < hi
      then let m = lo + (hi - lo) div 2 in
           case elem xs m of None \<Rightarrow> None
           | Some y \<Rightarrow>
             (let r = cmp key y in
              if r = 0 then Some (Some m)
              else if r < 0 then bsearch_loop cmp key xs lo m
              else bsearch_loop cmp key xs (m + 1) hi)
      else Some None)"
  by pat_completeness auto
termination by (relation "measure (\<lambda>(_, _, _, lo, hi). hi - lo)") auto

declare bsearch_loop.simps [simp del]

definition bsearch :: "cmpfn \<Rightarrow> byte list \<Rightarrow> arr \<Rightarrow> nat \<Rightarrow> nat option option" where
  "bsearch cmp key xs n = bsearch_loop cmp key xs 0 n"

subsection \<open>Swaps and frames\<close>

lemma swp_correct: "length a = n \<Longrightarrow> length b = n \<Longrightarrow> swp a b n = Some (b, a)"
  by (induction a b n rule: swp.induct) auto

definition frame :: "nat \<Rightarrow> nat \<Rightarrow> 'a list \<Rightarrow> 'a list \<Rightarrow> bool" where
  "frame b e xs ys \<longleftrightarrow> length ys = length xs \<and> mset ys = mset xs
     \<and> (\<forall>k. k < length xs \<longrightarrow> k < b \<or> e \<le> k \<longrightarrow> ys ! k = xs ! k)"

definition sized :: "nat \<Rightarrow> arr \<Rightarrow> bool" where
  "sized sz xs \<longleftrightarrow> (\<forall>x \<in> set xs. length x = sz)"

lemma frame_refl [simp]: "frame b e xs xs"
  by (simp add: frame_def)

lemma frame_trans: "frame b e xs ys \<Longrightarrow> frame b e ys zs \<Longrightarrow> frame b e xs zs"
  by (simp add: frame_def)

lemma frame_mono: "frame b e xs ys \<Longrightarrow> b' \<le> b \<Longrightarrow> e \<le> e' \<Longrightarrow> frame b' e' xs ys"
  by (simp add: frame_def)

lemma frame_set: "frame b e xs ys \<Longrightarrow> set ys = set xs"
  unfolding frame_def by (metis set_mset_mset)

lemma frame_sized: "frame b e xs ys \<Longrightarrow> sized sz xs \<Longrightarrow> sized sz ys"
  by (simp add: sized_def frame_set)

lemma frame_length: "frame b e xs ys \<Longrightarrow> length ys = length xs"
  by (simp add: frame_def)

lemma frame_nth: "frame b e xs ys \<Longrightarrow> k < length xs \<Longrightarrow> k < b \<or> e \<le> k \<Longrightarrow> ys ! k = xs ! k"
  unfolding frame_def by blast

text \<open>A frame permutes the slice: what holds of all its elements keeps holding.\<close>

lemma frame_slice_mset:
  assumes "frame b e xs ys" "b \<le> e" "e \<le> length xs"
  shows "mset (take (e - b) (drop b ys)) = mset (take (e - b) (drop b xs))"
proof -
  have len: "length ys = length xs" and ms: "mset ys = mset xs" using assms(1) by (simp_all add: frame_def)
  have t: "take b ys = take b xs"
    using assms len by (intro nth_equalityI) (auto simp: frame_nth)
  have d: "drop e ys = drop e xs"
    using assms len by (intro nth_equalityI) (auto simp: frame_nth)
  have split: "zs = take b zs @ take (e - b) (drop b zs) @ drop e zs" for zs :: "'a list"
    using assms(2) by (metis append_take_drop_id drop_drop le_add_diff_inverse2)
  have "mset (take b xs) + (mset (take (e - b) (drop b ys)) + mset (drop e xs))
      = mset (take b xs) + (mset (take (e - b) (drop b xs)) + mset (drop e xs))"
    using ms split [of xs] split [of ys] unfolding t d by (metis mset_append)
  then show ?thesis by simp
qed

lemma frame_all:
  assumes "frame b e xs ys" "e \<le> length xs" "\<forall>k. b \<le> k \<and> k < e \<longrightarrow> P (xs ! k)" "b \<le> k" "k < e"
  shows "P (ys ! k)"
proof -
  have "mset (take (e - b) (drop b ys)) = mset (take (e - b) (drop b xs))"
    using frame_slice_mset [OF assms(1)] assms(2,4,5) by simp
  then have st: "set (take (e - b) (drop b ys)) = set (take (e - b) (drop b xs))" by (rule mset_eq_setD)
  have len: "length ys = length xs" using assms(1) by (rule frame_length)
  have "k - b < length (take (e - b) (drop b ys))" "take (e - b) (drop b ys) ! (k - b) = ys ! k"
    using assms(2,4,5) len by auto
  then have "ys ! k \<in> set (take (e - b) (drop b ys))" by (metis nth_mem)
  then obtain i where "i < e - b" "b + i < length xs" "ys ! k = xs ! (b + i)"
    unfolding st in_set_conv_nth by auto
  then show ?thesis using assms(3) by auto
qed

lemma swp_at_correct:
  assumes "i < length xs" "j < length xs" "sized sz xs"
  shows "swp_at sz xs i j = Some (xs[i := xs ! j, j := xs ! i])"
  using assms by (simp add: swp_at_def elem_def swp_correct sized_def)

lemma mset_swap_nth: "i < length xs \<Longrightarrow> j < length xs \<Longrightarrow> mset (xs[i := xs ! j, j := xs ! i]) = mset xs"
  by (rule mset_swap)

lemma frame_swap:
  assumes "b \<le> i" "i < e" "b \<le> j" "j < e" "e \<le> length xs"
  shows "frame b e xs (xs[i := xs ! j, j := xs ! i])"
  unfolding frame_def using assms by (auto simp: mset_swap nth_list_update)

subsection \<open>What a comparison function has to satisfy\<close>

locale comparator =
  fixes cmp :: "'a \<Rightarrow> 'a \<Rightarrow> int" and A :: "'a set"
  assumes cmp_flip: "x \<in> A \<Longrightarrow> y \<in> A \<Longrightarrow> cmp x y < 0 \<longleftrightarrow> 0 < cmp y x"
    and cmp_trans: "x \<in> A \<Longrightarrow> y \<in> A \<Longrightarrow> z \<in> A \<Longrightarrow> cmp x y \<le> 0 \<Longrightarrow> cmp y z \<le> 0 \<Longrightarrow> cmp x z \<le> 0"
begin

lemma cmp_refl: "x \<in> A \<Longrightarrow> cmp x x = 0"
  using cmp_flip [of x x] by linarith

lemma not_less: "x \<in> A \<Longrightarrow> y \<in> A \<Longrightarrow> \<not> cmp x y < 0 \<Longrightarrow> cmp y x \<le> 0"
  using cmp_flip [of x y] by linarith

end

text \<open>\<open>strcmp\<close> on fixed-size records that hold a terminated string, as the code's callers use it.\<close>

definition strcmp_rec :: "byte list \<Rightarrow> byte list \<Rightarrow> int" where
  "strcmp_rec x y = strcmp_list (cstr_of x) (cstr_of y)"

interpretation strs: comparator strcmp_rec UNIV
proof
  fix x y z :: "byte list"
  show "strcmp_rec x y < 0 \<longleftrightarrow> 0 < strcmp_rec y x"
    using strcmp_list_antisym [of "cstr_of x" "cstr_of y"] by (simp add: strcmp_rec_def)
  show "strcmp_rec x y \<le> 0 \<Longrightarrow> strcmp_rec y z \<le> 0 \<Longrightarrow> strcmp_rec x z \<le> 0"
    using strcmp_list_trans by (simp add: strcmp_rec_def cstr_of_NUL)
qed

definition sorted_in :: "('a \<Rightarrow> 'a \<Rightarrow> int) \<Rightarrow> 'a list \<Rightarrow> nat \<Rightarrow> nat \<Rightarrow> bool" where
  "sorted_in cmp xs b e \<longleftrightarrow> (\<forall>p q. b \<le> p \<and> p < q \<and> q < e \<longrightarrow> cmp (xs ! p) (xs ! q) \<le> 0)"

subsection \<open>Insertion sort\<close>

text \<open>While element \<open>b + j\<close> moves down, only pairs that have it on the right may be out of order.\<close>

definition almost_sorted :: "('a \<Rightarrow> 'a \<Rightarrow> int) \<Rightarrow> 'a list \<Rightarrow> nat \<Rightarrow> nat \<Rightarrow> nat \<Rightarrow> bool" where
  "almost_sorted cmp xs b e j \<longleftrightarrow>
     (\<forall>p q. b \<le> p \<and> p < q \<and> q < e \<and> q \<noteq> b + j \<longrightarrow> cmp (xs ! p) (xs ! q) \<le> 0)"

context comparator
begin

lemma almost_sorted_swap:
  assumes "almost_sorted cmp xs b e (Suc j)" "b + Suc j < e" "e \<le> length xs"
    "cmp (xs ! (b + Suc j)) (xs ! (b + j)) \<le> 0"
  shows "almost_sorted cmp (xs[b + Suc j := xs ! (b + j), b + j := xs ! (b + Suc j)]) b e j"
  unfolding almost_sorted_def
proof (intro allI impI, elim conjE)
  fix p q assume h: "b \<le> p" "p < q" "q < e" "q \<noteq> b + j"
  have s: "cmp (xs ! p) (xs ! q) \<le> 0" if "b \<le> p" "p < q" "q < e" "q \<noteq> b + Suc j" for p q
    using assms(1) that unfolding almost_sorted_def by blast
  let ?u = "b + j" and ?v = "b + Suc j"
  consider "p = ?u" "q = ?v" | "p = ?u" "q > ?v" | "p = ?v" "q > ?v" | "p \<noteq> ?u" "p \<noteq> ?v" "q = ?v"
    | "p \<noteq> ?u" "p \<noteq> ?v" "q \<noteq> ?v" using h by linarith
  then show "cmp (xs[?v := xs ! ?u, ?u := xs ! ?v] ! p) (xs[?v := xs ! ?u, ?u := xs ! ?v] ! q) \<le> 0"
    using h assms(2,3,4) s [of p ?u] s [of ?u q] s [of ?v q] s [of p q]
    by cases (auto simp: nth_list_update)
qed

lemma almost_sorted_done:
  assumes "almost_sorted cmp xs b e j" "b + j < e" "e \<le> length xs" "set xs \<subseteq> A"
    "j = 0 \<or> cmp (xs ! (b + j - 1)) (xs ! (b + j)) \<le> 0"
  shows "sorted_in cmp xs b e"
  unfolding sorted_in_def
proof (intro allI impI, elim conjE)
  fix p q assume h: "b \<le> p" "p < q" "q < e"
  have s: "cmp (xs ! p) (xs ! q) \<le> 0" if "b \<le> p" "p < q" "q < e" "q \<noteq> b + j" for p q
    using assms(1) that unfolding almost_sorted_def by blast
  have inA: "k < e \<Longrightarrow> xs ! k \<in> A" for k using assms(3,4) by (meson less_le_trans nth_mem subsetD)
  show "cmp (xs ! p) (xs ! q) \<le> 0"
  proof (cases "q = b + j")
    case True
    then have j: "0 < j" "cmp (xs ! (q - 1)) (xs ! q) \<le> 0" using assms(5) h by auto
    show ?thesis
    proof (cases "p = q - 1")
      case False
      then have "cmp (xs ! p) (xs ! (q - 1)) \<le> 0" using s [of p "q - 1"] h True j by auto
      then show ?thesis using cmp_trans [of "xs ! p" "xs ! (q - 1)" "xs ! q"] inA h j by auto
    qed (use j in simp)
  qed (use s h in blast)
qed

end

text \<open>The array as \<open>qsort\<close> gets it: a slice inside the array, elements of the given size in the
  comparison's domain.\<close>

definition sort_input :: "nat \<Rightarrow> byte list set \<Rightarrow> arr \<Rightarrow> nat \<Rightarrow> bool" where
  "sort_input sz A xs e \<longleftrightarrow> e \<le> length xs \<and> sized sz xs \<and> set xs \<subseteq> A"

lemma sort_input_frame: "sort_input sz A xs e \<Longrightarrow> frame b c xs ys \<Longrightarrow> sort_input sz A ys e"
  by (auto simp: sort_input_def frame_length frame_set frame_sized)

lemma sort_input_mono: "sort_input sz A xs e \<Longrightarrow> e' \<le> e \<Longrightarrow> sort_input sz A xs e'"
  by (auto simp: sort_input_def)

lemma sort_input_nth: "sort_input sz A xs e \<Longrightarrow> k < e \<Longrightarrow> xs ! k \<in> A"
  unfolding sort_input_def by (meson less_le_trans nth_mem subsetD)

lemma elem_in: "sort_input sz A xs e \<Longrightarrow> k < e \<Longrightarrow> elem xs k = Some (xs ! k)"
  by (simp add: elem_def sort_input_def)

lemma swp_at_in:
  "sort_input sz A xs e \<Longrightarrow> i < e \<Longrightarrow> j < e \<Longrightarrow> swp_at sz xs i j = Some (xs[i := xs ! j, j := xs ! i])"
  by (simp add: sort_input_def swp_at_correct)

lemma frame_swap_in:
  "sort_input sz A xs e \<Longrightarrow> b \<le> i \<Longrightarrow> i < e \<Longrightarrow> b \<le> j \<Longrightarrow> j < e \<Longrightarrow> frame b e xs (xs[i := xs ! j, j := xs ! i])"
  by (simp add: sort_input_def frame_swap)

locale byte_comparator = comparator cmp A
  for cmp :: "byte list \<Rightarrow> byte list \<Rightarrow> int" and A :: "byte list set"
begin

lemma ins_down_correct:
  assumes "sort_input sz A xs e" "b + j < e" "almost_sorted cmp xs b e j"
  shows "\<exists>ys. ins_down cmp sz xs b j = Some ys \<and> frame b e xs ys \<and> sorted_in cmp ys b e"
  using assms
proof (induction j arbitrary: xs)
  case 0
  then show ?case using almost_sorted_done [of xs b e 0] by (auto simp: sort_input_def)
next
  case (Suc j)
  let ?ys = "xs[b + Suc j := xs ! (b + j), b + j := xs ! (b + Suc j)]"
  have e: "elem xs (b + Suc j) = Some (xs ! (b + Suc j))" "elem xs (b + j) = Some (xs ! (b + j))"
    using Suc.prems elem_in by auto
  show ?case
  proof (cases "cmp (xs ! (b + Suc j)) (xs ! (b + j)) < 0")
    case True
    have f: "frame b e xs ?ys" using frame_swap_in [OF Suc.prems(1)] Suc.prems(2) by simp
    have "almost_sorted cmp ?ys b e j"
      using almost_sorted_swap [OF Suc.prems(3,2)] Suc.prems(1) True by (simp add: sort_input_def)
    then obtain zs where "ins_down cmp sz ?ys b j = Some zs" "frame b e ?ys zs" "sorted_in cmp zs b e"
      using Suc.IH [OF sort_input_frame [OF Suc.prems(1) f]] Suc.prems(2) by auto
    then show ?thesis
      using e True swp_at_in [OF Suc.prems(1), of "b + Suc j" "b + j"] Suc.prems(2) frame_trans [OF f] by auto
  next
    case False
    then have "cmp (xs ! (b + j)) (xs ! (b + Suc j)) \<le> 0"
      using not_less sort_input_nth [OF Suc.prems(1)] Suc.prems(2) by simp
    then have "sorted_in cmp xs b e"
      using almost_sorted_done [OF Suc.prems(3,2)] Suc.prems(1) by (simp add: sort_input_def)
    then show ?thesis using e False by auto
  qed
qed

lemma ins_sort_correct:
  assumes "sort_input sz A xs (b + i + k)" "sorted_in cmp xs b (b + i)"
  shows "\<exists>ys. ins_sort cmp sz xs b i k = Some ys \<and> frame b (b + i + k) xs ys \<and> sorted_in cmp ys b (b + i + k)"
  using assms
proof (induction k arbitrary: xs i)
  case (Suc k)
  have "almost_sorted cmp xs b (b + i + 1) i"
    using Suc.prems(2) by (auto simp: almost_sorted_def sorted_in_def)
  moreover have "sort_input sz A xs (b + i + 1)" using Suc.prems(1) by (rule sort_input_mono) simp
  ultimately obtain ys where y: "ins_down cmp sz xs b i = Some ys" "frame b (b + i + 1) xs ys"
      "sorted_in cmp ys b (b + i + 1)"
    using ins_down_correct [of sz xs "b + i + 1" b i] by auto
  have f: "frame b (b + i + Suc k) xs ys" using y(2) by (rule frame_mono) simp_all
  have i: "sort_input sz A ys (b + (i + 1) + k)"
    using sort_input_frame [OF Suc.prems(1) y(2)] by simp
  obtain zs where "ins_sort cmp sz ys b (i + 1) k = Some zs" "frame b (b + (i + 1) + k) ys zs"
      "sorted_in cmp zs b (b + (i + 1) + k)"
    using Suc.IH [OF i] y(3) by (auto simp: add.assoc)
  then show ?case using y(1) frame_trans [OF f] by auto
qed simp

text \<open>The scans stop at an element that is not on their side of the pivot.\<close>

lemma scan_up_correct:
  assumes "sort_input sz A xs e" "i < j" "j < e" "pv < e" "\<not> cmp (xs ! j) (xs ! pv) < 0"
  shows "\<exists>i'. scan_up cmp xs pv i = Some i' \<and> i < i' \<and> i' \<le> j \<and> \<not> cmp (xs ! i') (xs ! pv) < 0
    \<and> (\<forall>k. i < k \<and> k < i' \<longrightarrow> cmp (xs ! k) (xs ! pv) < 0)"
  using assms(2)
proof (induction "j - i" arbitrary: i)
  case (Suc d)
  have e: "elem xs (i + 1) = Some (xs ! (i + 1))" "elem xs pv = Some (xs ! pv)"
    using elem_in [OF assms(1)] Suc.prems assms(3,4) by auto
  show ?case
  proof (cases "cmp (xs ! (i + 1)) (xs ! pv) < 0")
    case True
    then have "i + 1 \<noteq> j" using assms(5) by auto
    then have "i + 1 < j" "d = j - (i + 1)" using Suc.prems Suc.hyps(2) by auto
    then obtain i' where "scan_up cmp xs pv (i + 1) = Some i'" "i + 1 < i'" "i' \<le> j" "\<not> cmp (xs ! i') (xs ! pv) < 0"
      "\<forall>k. i + 1 < k \<and> k < i' \<longrightarrow> cmp (xs ! k) (xs ! pv) < 0"
      using Suc.hyps(1) [of "i + 1"] by blast
    then show ?thesis
      using True e by (subst scan_up.simps) (auto, metis Suc_lessI)
  next
    case False
    then show ?thesis using e Suc.prems by (subst scan_up.simps) auto
  qed
qed simp

lemma scan_down_correct:
  assumes "sort_input sz A xs e" "i < j" "j < e" "pv < e" "\<not> cmp (xs ! pv) (xs ! i) < 0"
  shows "\<exists>j'. scan_down cmp xs pv j = Some j' \<and> i \<le> j' \<and> j' < j \<and> \<not> cmp (xs ! pv) (xs ! j') < 0
    \<and> (\<forall>k. j' < k \<and> k < j \<longrightarrow> cmp (xs ! pv) (xs ! k) < 0)"
  using assms(2,3)
proof (induction "j - i" arbitrary: j)
  case (Suc d)
  have e: "elem xs (j - 1) = Some (xs ! (j - 1))" "elem xs pv = Some (xs ! pv)"
    using elem_in [OF assms(1)] Suc.prems assms(4) by auto
  show ?case
  proof (cases "cmp (xs ! pv) (xs ! (j - 1)) < 0")
    case True
    then have "j - 1 \<noteq> i" using assms(5) by auto
    then have "i < j - 1" "d = j - 1 - i" "j - 1 < e" using Suc.prems Suc.hyps(2) by auto
    then obtain j' where j': "scan_down cmp xs pv (j - 1) = Some j'" "i \<le> j'" "j' < j - 1" "\<not> cmp (xs ! pv) (xs ! j') < 0"
      "\<forall>k. j' < k \<and> k < j - 1 \<longrightarrow> cmp (xs ! pv) (xs ! k) < 0"
      using Suc.hyps(1) [of "j - 1"] by blast
    have "cmp (xs ! pv) (xs ! k) < 0" if "j' < k" "k < j" for k
      using j'(5) True that by (cases "k = j - 1") auto
    then show ?thesis
      using True e j'(1-4) Suc.prems by (subst scan_down.simps) auto
  next
    case False
    then show ?thesis using e Suc.prems by (subst scan_down.simps) auto
  qed
qed simp

text \<open>The partition invariant: up to \<open>i\<close> nothing is above the pivot, from \<open>j\<close> on nothing below.\<close>

definition parted :: "arr \<Rightarrow> nat \<Rightarrow> nat \<Rightarrow> nat \<Rightarrow> nat \<Rightarrow> byte list \<Rightarrow> bool" where
  "parted xs lo hi i j p \<longleftrightarrow>
     (\<forall>k. lo \<le> k \<and> k \<le> i \<longrightarrow> cmp (xs ! k) p \<le> 0) \<and> (\<forall>k. j \<le> k \<and> k \<le> hi \<longrightarrow> cmp p (xs ! k) \<le> 0)"

lemma part_loop_correct:
  assumes "sort_input sz A xs (hi + 1)" "lo \<le> i" "i < j" "j \<le> hi - 1" "parted xs lo hi i j (xs ! (hi - 1))" "0 < hi"
  shows "\<exists>ys i'. part_loop cmp sz xs (hi - 1) i j = Some (ys, i') \<and> i < i' \<and> i' \<le> hi - 1
    \<and> frame lo (hi - 1) xs ys \<and> parted ys lo hi (i' - 1) i' (ys ! (hi - 1))"
  using assms
proof (induction "j - i" arbitrary: i j xs rule: less_induct)
  case less
  let ?p = "xs ! (hi - 1)"
  note si = less.prems(1)
  have inA: "k \<le> hi \<Longrightarrow> xs ! k \<in> A" for k using sort_input_nth [OF si] by simp
  have b: "j < hi + 1" "hi - 1 < hi + 1" using less.prems by auto
  have L: "cmp (xs ! k) ?p \<le> 0" if "lo \<le> k" "k \<le> i" for k
    using less.prems(5) that unfolding parted_def by blast
  have R: "cmp ?p (xs ! k) \<le> 0" if "j \<le> k" "k \<le> hi" for k
    using less.prems(5) that unfolding parted_def by blast
  have "\<not> cmp (xs ! j) ?p < 0"
    using R [of j] cmp_flip [of "xs ! j" ?p] inA b by auto
  from scan_up_correct [OF si less.prems(3) b this] obtain i' where
    i': "scan_up cmp xs (hi - 1) i = Some i'" "i < i'" "i' \<le> j" "\<not> cmp (xs ! i') ?p < 0"
      "\<forall>k. i < k \<and> k < i' \<longrightarrow> cmp (xs ! k) ?p < 0" by blast
  have "\<not> cmp ?p (xs ! i) < 0"
    using L [of i] less.prems(2,3) cmp_flip [of ?p "xs ! i"] inA b by auto
  from scan_down_correct [OF si less.prems(3) b this] obtain j' where
    j': "scan_down cmp xs (hi - 1) j = Some j'" "i \<le> j'" "j' < j" "\<not> cmp ?p (xs ! j') < 0"
      "\<forall>k. j' < k \<and> k < j \<longrightarrow> cmp ?p (xs ! k) < 0" by blast
  have hi: "i' \<le> hi" "j' \<le> hi" "hi - 1 \<le> hi" using i'(3) j'(3) b by auto
  have I: "cmp ?p (xs ! i') \<le> 0" and J: "cmp (xs ! j') ?p \<le> 0"
    using not_less [OF inA inA] i'(4) j'(4) hi by auto
  have L': "cmp (xs ! k) ?p \<le> 0" if "lo \<le> k" "k < i'" for k
    using L [of k] i'(5) that by (cases "k \<le> i") (auto intro: less_imp_le)
  have R': "cmp ?p (xs ! k) \<le> 0" if "j' < k" "k \<le> hi" for k
    using R [of k] j'(5) that by (cases "j \<le> k") (auto intro: less_imp_le)
  show ?case
  proof (cases "i' \<ge> j'")
    case True
    have "parted xs lo hi (i' - 1) i' ?p"
      unfolding parted_def
    proof (intro conjI allI impI)
      show "cmp ?p (xs ! k) \<le> 0" if "i' \<le> k \<and> k \<le> hi" for k
        using that True I R' [of k] by (cases "k = i'") auto
    qed (use L' i'(2) in auto)
    then show ?thesis using i' j' True less.prems(4) by (subst part_loop.simps) auto
  next
    case False
    let ?ys = "xs[i' := xs ! j', j' := xs ! i']"
    have sw: "swp_at sz xs i' j' = Some ?ys" using swp_at_in [OF si] hi by simp
    have f: "frame lo (hi - 1) xs ?ys"
      using frame_swap_in [OF sort_input_mono [OF si, of "hi - 1"], of lo i' j'] False i' j' less.prems(2,4) by simp
    have len: "hi < length xs" using si by (simp add: sort_input_def)
    have pv: "?ys ! (hi - 1) = ?p" using i' j' False less.prems(4) by (simp add: nth_list_update)
    have pt: "parted ?ys lo hi i' j' (?ys ! (hi - 1))"
      unfolding parted_def pv using False L' R' I J len hi by (auto simp: nth_list_update)
    have "j' - i' < j - i" "lo \<le> i'" "i' < j'" "j' \<le> hi - 1" using False i' j' less.prems by auto
    note ih = less.hyps [OF this(1) sort_input_frame [OF si f] this(2-4) pt less.prems(6)]
    then obtain zs i'' where "part_loop cmp sz ?ys (hi - 1) i' j' = Some (zs, i'')" "i' < i''" "i'' \<le> hi - 1"
      "frame lo (hi - 1) ?ys zs" "parted zs lo hi (i'' - 1) i'' (zs ! (hi - 1))"
      by blast
    then show ?thesis
      using i' j' False sw frame_trans [OF f] by (subst part_loop.simps) auto
  qed
qed

lemma swp_if_less_correct:
  assumes "sort_input sz A xs e" "p < e" "q < e"
  shows "swp_if_less cmp sz xs p q =
    Some (if cmp (xs ! p) (xs ! q) < 0 then xs[p := xs ! q, q := xs ! p] else xs)"
  using assms by (simp add: swp_if_less_def elem_in swp_at_in)

text \<open>The three-element network orders \<open>lo\<close>, \<open>mid\<close> and \<open>hi\<close>.\<close>

lemma median3_network:
  assumes "sort_input sz A xs (hi + 1)" "lo < mid" "mid < hi"
  defines "xs1 \<equiv> (if cmp (xs ! mid) (xs ! lo) < 0 then xs[mid := xs ! lo, lo := xs ! mid] else xs)"
  defines "ys \<equiv> xs1[hi := xs1 ! mid, mid := xs1 ! hi]"
  defines "xs2 \<equiv> (if cmp (xs1 ! hi) (xs1 ! mid) < 0
    then (if cmp (ys ! mid) (ys ! lo) < 0 then ys[mid := ys ! lo, lo := ys ! mid] else ys) else xs1)"
  shows "frame lo (hi + 1) xs xs2" "cmp (xs2 ! lo) (xs2 ! mid) \<le> 0" "cmp (xs2 ! mid) (xs2 ! hi) \<le> 0"
    "frame lo (hi + 1) xs xs1" "frame lo (hi + 1) xs ys"
proof -
  have len: "hi < length xs" using assms(1) by (simp add: sort_input_def)
  have inA: "k \<le> hi \<Longrightarrow> xs ! k \<in> A" for k using sort_input_nth [OF assms(1)] by simp
  show f1: "frame lo (hi + 1) xs xs1"
    unfolding xs1_def using frame_swap_in [OF assms(1), of lo mid lo] assms(2,3) by simp
  have f2: "frame lo (hi + 1) xs1 ys"
    unfolding ys_def using frame_swap_in [OF sort_input_frame [OF assms(1) f1], of lo hi mid] assms(2,3) by simp
  then show f12: "frame lo (hi + 1) xs ys" using frame_trans [OF f1] by blast
  have f3: "frame lo (hi + 1) ys (ys[mid := ys ! lo, lo := ys ! mid])"
    using frame_swap_in [OF sort_input_frame [OF assms(1) f12], of lo mid lo] assms(2,3) by simp
  show "frame lo (hi + 1) xs xs2"
    unfolding xs2_def using f1 f12 frame_trans [OF f12 f3] by simp
  have len1: "length xs1 = length xs" by (simp add: xs1_def)
  have A1: "xs1 ! lo \<in> A" "xs1 ! mid \<in> A" "xs1 ! hi \<in> A"
    using frame_set [OF f1] len len1 assms(1-3) by (auto simp: sort_input_def intro: subsetD [OF _ nth_mem])
  have o1: "cmp (xs1 ! lo) (xs1 ! mid) \<le> 0"
    using assms(2,3) len inA not_less [of "xs ! mid" "xs ! lo"] by (auto simp: xs1_def nth_list_update)
  have y: "ys ! lo = xs1 ! lo" "ys ! mid = xs1 ! hi" "ys ! hi = xs1 ! mid" "length ys = length xs"
    using assms(2,3) len len1 by (auto simp: ys_def nth_list_update)
  show "cmp (xs2 ! lo) (xs2 ! mid) \<le> 0"
    unfolding xs2_def using o1 y assms(2,3) len A1 not_less [of "xs1 ! hi" "xs1 ! lo"] by (auto simp: nth_list_update)
  show "cmp (xs2 ! mid) (xs2 ! hi) \<le> 0"
    unfolding xs2_def using o1 y assms(2,3) len A1 not_less [of "xs1 ! hi" "xs1 ! mid"] by (auto simp: nth_list_update)
qed

lemma median3_correct:
  assumes "sort_input sz A xs (hi + 1)" "lo < mid" "mid < hi - 1"
  shows "\<exists>ys. median3 cmp sz xs lo mid hi = Some ys \<and> frame lo (hi + 1) xs ys
    \<and> cmp (ys ! lo) (ys ! (hi - 1)) \<le> 0 \<and> cmp (ys ! (hi - 1)) (ys ! hi) \<le> 0"
proof -
  have mh: "mid < hi" using assms(3) by simp
  let ?xs1 = "if cmp (xs ! mid) (xs ! lo) < 0 then xs[mid := xs ! lo, lo := xs ! mid] else xs"
  let ?ys = "?xs1[hi := ?xs1 ! mid, mid := ?xs1 ! hi]"
  let ?xs2 = "if cmp (?xs1 ! hi) (?xs1 ! mid) < 0
    then (if cmp (?ys ! mid) (?ys ! lo) < 0 then ?ys[mid := ?ys ! lo, lo := ?ys ! mid] else ?ys) else ?xs1"
  let ?zs = "?xs2[mid := ?xs2 ! (hi - 1), hi - 1 := ?xs2 ! mid]"
  note net = median3_network [OF assms(1,2) mh]
  have s1: "sort_input sz A ?xs1 (hi + 1)" using sort_input_frame [OF assms(1) net(4)] .
  have s2: "sort_input sz A ?ys (hi + 1)" using sort_input_frame [OF assms(1) net(5)] .
  have s3: "sort_input sz A ?xs2 (hi + 1)" using sort_input_frame [OF assms(1) net(1)] .
  have b: "lo < hi + 1" "mid < hi + 1" "hi < hi + 1" "hi - 1 < hi + 1" using assms by auto
  have r1: "swp_if_less cmp sz xs mid lo = Some ?xs1" by (rule swp_if_less_correct [OF assms(1) b(2,1)])
  have r2: "(if cmp (?xs1 ! hi) (?xs1 ! mid) < 0
      then do { ys \<leftarrow> swp_at sz ?xs1 hi mid; swp_if_less cmp sz ys mid lo } else Some ?xs1) = Some ?xs2"
    by (simp only: swp_at_in [OF s1 b(3,2)] bind.bind_lunit swp_if_less_correct [OF s2 b(2,1)] split: if_split) simp
  have r3: "swp_at sz ?xs2 mid (hi - 1) = Some ?zs" by (rule swp_at_in [OF s3 b(2,4)])
  have "median3 cmp sz xs lo mid hi = Some ?zs"
    unfolding median3_def r1 bind.bind_lunit elem_in [OF s1 b(3)] elem_in [OF s1 b(2)] r2 by (rule r3)
  moreover have f: "frame lo (hi + 1) ?xs2 ?zs"
    using assms(2,3) by (intro frame_swap_in [OF s3]) auto
  moreover have "?zs ! lo = ?xs2 ! lo" "?zs ! (hi - 1) = ?xs2 ! mid" "?zs ! hi = ?xs2 ! hi"
    using assms(2,3) s3 by (auto simp: sort_input_def nth_list_update simp del: if_split_asm split del: if_split)
  ultimately show ?thesis using net(2,3) frame_trans [OF net(1) f] by (metis (no_types, lifting))
qed

text \<open>Partitioning around the median: everything before \<open>i\<close> is at most the pivot at \<open>i\<close>, everything
  after it at least.\<close>

lemma partition_correct:
  assumes "sort_input sz A xs (b + n)" "12 < n"
  shows "\<exists>xs1 xs2 xs3 i. median3 cmp sz xs b (b + n div 2) (b + (n - 1)) = Some xs1
    \<and> part_loop cmp sz xs1 (b + (n - 1) - 1) b (b + (n - 1) - 1) = Some (xs2, i)
    \<and> swp_at sz xs2 i (b + (n - 1) - 1) = Some xs3 \<and> frame b (b + n) xs xs3 \<and> b < i \<and> i < b + n - 1
    \<and> (\<forall>k. b \<le> k \<and> k < i \<longrightarrow> cmp (xs3 ! k) (xs3 ! i) \<le> 0)
    \<and> (\<forall>k. i < k \<and> k < b + n \<longrightarrow> cmp (xs3 ! i) (xs3 ! k) \<le> 0)"
proof -
  let ?hi = "b + (n - 1)"
  have hi: "?hi + 1 = b + n" using assms(2) by simp
  have si: "sort_input sz A xs (?hi + 1)" using assms(1) unfolding hi .
  have "b < b + n div 2" "b + n div 2 < ?hi - 1" using assms(2) by auto
  from median3_correct [OF si this] obtain xs1 where m: "median3 cmp sz xs b (b + n div 2) ?hi = Some xs1"
    "frame b (?hi + 1) xs xs1" "cmp (xs1 ! b) (xs1 ! (?hi - 1)) \<le> 0" "cmp (xs1 ! (?hi - 1)) (xs1 ! ?hi) \<le> 0"
    by blast
  have s1: "sort_input sz A xs1 (?hi + 1)" using sort_input_frame [OF si m(2)] .
  have "cmp (xs1 ! (?hi - 1)) (xs1 ! (?hi - 1)) \<le> 0"
    using cmp_refl [of "xs1 ! (?hi - 1)"] sort_input_nth [OF s1, of "?hi - 1"] by simp
  moreover have "k = ?hi - 1 \<or> k = ?hi" if "?hi - 1 \<le> k" "k \<le> ?hi" for k
    using that by linarith
  ultimately have p1: "parted xs1 b ?hi b (?hi - 1) (xs1 ! (?hi - 1))"
    using m(3,4) unfolding parted_def by (metis le_antisym)
  have "b < ?hi - 1" "0 < ?hi" using assms(2) by auto
  from part_loop_correct [OF s1 le_refl this(1) le_refl p1 this(2)]
  obtain xs2 i where l: "part_loop cmp sz xs1 (?hi - 1) b (?hi - 1) = Some (xs2, i)" "b < i" "i \<le> ?hi - 1"
    "frame b (?hi - 1) xs1 xs2" "parted xs2 b ?hi (i - 1) i (xs2 ! (?hi - 1))" by blast
  let ?xs3 = "xs2[i := xs2 ! (?hi - 1), ?hi - 1 := xs2 ! i]"
  have s2: "sort_input sz A xs2 (?hi + 1)" using sort_input_frame [OF s1 l(4)] .
  have sw: "swp_at sz xs2 i (?hi - 1) = Some ?xs3" using l(3) by (intro swp_at_in [OF s2]) auto
  have f3: "frame b (?hi + 1) xs2 ?xs3"
    using l(2,3) assms(2) by (intro frame_swap_in [OF s2]) auto
  have f: "frame b (b + n) xs ?xs3"
    using frame_trans [OF m(2) frame_trans [OF frame_mono [OF l(4)] f3]] unfolding hi by simp
  have len: "?hi < length xs2" using s2 by (simp add: sort_input_def)
  have n3: "?xs3 ! i = xs2 ! (?hi - 1)" "?xs3 ! (?hi - 1) = xs2 ! i"
    "\<And>k. k \<noteq> i \<Longrightarrow> k \<noteq> ?hi - 1 \<Longrightarrow> ?xs3 ! k = xs2 ! k"
    using l(3) len by (auto simp: nth_list_update)
  have Lo: "cmp (xs2 ! k) (xs2 ! (?hi - 1)) \<le> 0" if "b \<le> k" "k < i" for k
    using l(5) that unfolding parted_def by simp
  have Hi: "cmp (xs2 ! (?hi - 1)) (xs2 ! k) \<le> 0" if "i \<le> k" "k < b + n" for k
    using l(5) that assms(2) unfolding parted_def by simp
  have "cmp (?xs3 ! k) (?xs3 ! i) \<le> 0" if "b \<le> k" "k < i" for k
    using Lo [OF that] n3(1,3) that l(3) by simp
  moreover have "cmp (?xs3 ! i) (?xs3 ! k) \<le> 0" if "i < k" "k < b + n" for k
  proof (cases "k = ?hi - 1")
    case True
    then show ?thesis using n3(1,2) Hi [of i] that by simp
  next
    case False
    then show ?thesis using n3(1,3) Hi [of k] that by simp
  qed
  ultimately show ?thesis using m(1) l(1,2,3) sw f assms(2) by fastforce
qed

text \<open>Sorting both sides of a partition sorts the whole.\<close>

lemma sorted_halves:
  assumes f1: "frame b i xs ys" and f2: "frame (i + 1) e ys zs" and len: "e \<le> length xs" "b \<le> i" "i < e"
    and A: "set xs \<subseteq> A" and so: "sorted_in cmp ys b i" "sorted_in cmp zs (i + 1) e"
    and lo: "\<forall>k. b \<le> k \<and> k < i \<longrightarrow> cmp (xs ! k) (xs ! i) \<le> 0"
    and hi: "\<forall>k. i < k \<and> k < e \<longrightarrow> cmp (xs ! i) (xs ! k) \<le> 0"
  shows "sorted_in cmp zs b e"
  unfolding sorted_in_def
proof (intro allI impI, elim conjE)
  fix p q assume h: "b \<le> p" "p < q" "q < e"
  let ?v = "xs ! i"
  have ly: "length ys = length xs" "length zs = length xs" using f1 f2 by (simp_all add: frame_length)
  have zi: "zs ! i = ?v" using frame_nth [OF f2, of i] frame_nth [OF f1, of i] ly len by simp
  have zl: "zs ! k = ys ! k" if "k < i" for k using frame_nth [OF f2, of k] that ly len by simp
  have yh: "ys ! k = xs ! k" if "i < k" "k < e" for k using frame_nth [OF f1, of k] that ly len by simp
  have lo': "cmp (zs ! k) ?v \<le> 0" if "b \<le> k" "k < i" for k
    using frame_all [OF f1 _ lo, of k] that zl [of k] len by simp
  have hi': "cmp ?v (zs ! k) \<le> 0" if "i < k" "k < e" for k
    using frame_all [OF f2, of "\<lambda>x. cmp ?v x \<le> 0" k] hi yh that ly len by auto
  have inA: "zs ! k \<in> A" if "k < e" for k
    using A frame_set [OF f1] frame_set [OF f2] that ly len by (metis nth_mem less_le_trans subsetD)
  consider "q < i" | "q = i" | "p = i" "i < q" | "p < i" "i < q" | "i < p" using h by linarith
  then show "cmp (zs ! p) (zs ! q) \<le> 0"
  proof cases
    case 1
    then show ?thesis using so(1) h zl unfolding sorted_in_def by simp
  next
    case 4
    then show ?thesis using cmp_trans [of "zs ! p" ?v "zs ! q"] lo' hi' h inA zi len by (metis order.strict_trans)
  next
    case 5
    then show ?thesis using so(2) h unfolding sorted_in_def by simp
  qed (use lo' hi' h zi in auto)
qed

lemma qsort_slice:
  assumes "sort_input sz A xs (b + n)" "0 < sz \<or> n \<le> 12"
  shows "\<exists>ys. qsort cmp sz xs b n = Some ys \<and> frame b (b + n) xs ys \<and> sorted_in cmp ys b (b + n)"
  using assms
proof (induction n arbitrary: xs b rule: less_induct)
  case (less n)
  consider "n < 2" | "2 \<le> n" "n \<le> 12" | "12 < n" by linarith
  then show ?case
  proof cases
    case 1
    then show ?thesis by (subst qsort.simps) (auto simp: sorted_in_def)
  next
    case 2
    then have "b + 1 + (n - 1) = b + n" by simp
    moreover have "sorted_in cmp xs b (b + 1)" by (auto simp: sorted_in_def)
    ultimately show ?thesis
      using ins_sort_correct [of sz xs b 1 "n - 1"] less.prems(1) 2 by (subst qsort.simps) auto
  next
    case 3
    from partition_correct [OF less.prems(1) 3] obtain xs1 xs2 xs3 i where
      p: "median3 cmp sz xs b (b + n div 2) (b + (n - 1)) = Some xs1"
        "part_loop cmp sz xs1 (b + (n - 1) - 1) b (b + (n - 1) - 1) = Some (xs2, i)"
        "swp_at sz xs2 i (b + (n - 1) - 1) = Some xs3" "frame b (b + n) xs xs3" "b < i" "i < b + n - 1"
        "\<forall>k. b \<le> k \<and> k < i \<longrightarrow> cmp (xs3 ! k) (xs3 ! i) \<le> 0"
        "\<forall>k. i < k \<and> k < b + n \<longrightarrow> cmp (xs3 ! i) (xs3 ! k) \<le> 0"
      by blast
    let ?left = "i - b"
    have s3: "sort_input sz A xs3 (b + n)" using sort_input_frame [OF less.prems(1) p(4)] .
    have e: "b + ?left = i" "i + 1 + (n - ?left - 1) = b + n" "?left < n" "n - ?left - 1 < n" using p(5,6) by auto
    have sz: "0 < sz" using less.prems(2) 3 by simp
    then have sz': "0 < sz \<or> ?left \<le> 12" "0 < sz \<or> n - ?left - 1 \<le> 12" by simp_all
    have "sort_input sz A xs3 (b + ?left)" using sort_input_mono [OF s3] p(6) e(1) by simp
    from less.IH [OF e(3) this sz'(1)] obtain ys where
      y: "qsort cmp sz xs3 b ?left = Some ys" "frame b i xs3 ys" "sorted_in cmp ys b i" unfolding e(1) by blast
    have "sort_input sz A ys (i + 1 + (n - ?left - 1))" using sort_input_frame [OF s3 y(2)] unfolding e(2) .
    from less.IH [OF e(4) this sz'(2)] obtain zs where
      z: "qsort cmp sz ys (i + 1) (n - ?left - 1) = Some zs" "frame (i + 1) (b + n) ys zs"
        "sorted_in cmp zs (i + 1) (b + n)" unfolding e(2) by blast
    have "sorted_in cmp zs b (b + n)"
      using s3 p(5,6) by (intro sorted_halves [OF y(2) z(2) _ _ _ _ y(3) z(3) p(7,8)]) (auto simp: sort_input_def)
    moreover have "frame b (b + n) xs zs"
      using frame_trans [OF p(4) frame_trans [OF frame_mono [OF y(2)] frame_mono [OF z(2)]]] p(5,6) by simp
    moreover have "qsort cmp sz xs b n = Some zs"
      using 3 p(1,2,3) y(1) z(1) sz by (subst qsort.simps) (simp add: Let_def)
    ultimately show ?thesis by blast
  qed
qed

lemma bsearch_loop_correct:
  assumes "hi \<le> length xs" "set xs \<subseteq> A" "key \<in> A" "sorted_in cmp xs 0 (length xs)"
  shows "\<exists>r. bsearch_loop cmp key xs lo hi = Some r
    \<and> (case r of Some m \<Rightarrow> lo \<le> m \<and> m < hi \<and> cmp key (xs ! m) = 0
        | None \<Rightarrow> \<forall>k. lo \<le> k \<and> k < hi \<longrightarrow> cmp key (xs ! k) \<noteq> 0)"
  using assms(1)
proof (induction "hi - lo" arbitrary: lo hi rule: less_induct)
  case less
  let ?m = "lo + (hi - lo) div 2"
  show ?case
  proof (cases "lo < hi")
    case True
    then have m: "lo \<le> ?m" "?m < hi" "elem xs ?m = Some (xs ! ?m)" using less.prems by (auto simp: elem_def)
    have inA: "xs ! k \<in> A" if "k < hi" for k using assms(2) that less.prems by (meson less_le_trans nth_mem subsetD)
    consider "cmp key (xs ! ?m) = 0" | "cmp key (xs ! ?m) < 0" | "0 < cmp key (xs ! ?m)" by linarith
    then show ?thesis
    proof cases
      case 1
      then show ?thesis using m True by (subst bsearch_loop.simps) (auto simp: Let_def)
    next
      case 2
      have above: "cmp key (xs ! k) \<noteq> 0" if "?m \<le> k" "k < hi" for k
      proof
        assume z: "cmp key (xs ! k) = 0"
        then have km: "?m < k" using that 2 by (cases "k = ?m") auto
        have "cmp (xs ! ?m) (xs ! k) \<le> 0" using assms(4) km that less.prems unfolding sorted_in_def by simp
        moreover have "cmp (xs ! k) key \<le> 0" using z not_less [of key "xs ! k"] inA that assms(3) by simp
        ultimately have "cmp (xs ! ?m) key \<le> 0" using cmp_trans [of "xs ! ?m" "xs ! k" key] inA m that assms(3) by simp
        then show False using 2 cmp_flip [of key "xs ! ?m"] inA [OF m(2)] assms(3) by simp
      qed
      have "?m - lo < hi - lo" "?m \<le> length xs" using m less.prems by auto
      from less.hyps [OF this] obtain r where "bsearch_loop cmp key xs lo ?m = Some r"
        "case r of Some m \<Rightarrow> lo \<le> m \<and> m < ?m \<and> cmp key (xs ! m) = 0
         | None \<Rightarrow> \<forall>k. lo \<le> k \<and> k < ?m \<longrightarrow> cmp key (xs ! k) \<noteq> 0" by blast
      moreover have "bsearch_loop cmp key xs lo hi = bsearch_loop cmp key xs lo ?m"
        using 2 m(3) True by (subst bsearch_loop.simps) (simp add: Let_def)
      moreover have "cmp key (xs ! k) \<noteq> 0" if "\<forall>k. lo \<le> k \<and> k < ?m \<longrightarrow> cmp key (xs ! k) \<noteq> 0" "lo \<le> k" "k < hi" for k
        using that above [of k] by (cases "k < ?m") auto
      ultimately show ?thesis using m(2) by (intro exI [of _ r]) (cases r; simp)
    next
      case 3
      have below: "cmp key (xs ! k) \<noteq> 0" if "lo \<le> k" "k \<le> ?m" for k
      proof
        assume z: "cmp key (xs ! k) = 0"
        then have km: "k < ?m" using that 3 by (cases "k = ?m") auto
        then have "cmp (xs ! k) (xs ! ?m) \<le> 0" using assms(4) m less.prems unfolding sorted_in_def by simp
        then have "cmp key (xs ! ?m) \<le> 0" using z cmp_trans [of key "xs ! k" "xs ! ?m"] inA km m assms(3) by simp
        then show False using 3 by simp
      qed
      have "hi - (?m + 1) < hi - lo" using m by auto
      from less.hyps [OF this less.prems] obtain r where "bsearch_loop cmp key xs (?m + 1) hi = Some r"
        "case r of Some m \<Rightarrow> ?m + 1 \<le> m \<and> m < hi \<and> cmp key (xs ! m) = 0
         | None \<Rightarrow> \<forall>k. ?m + 1 \<le> k \<and> k < hi \<longrightarrow> cmp key (xs ! k) \<noteq> 0" by blast
      moreover have "bsearch_loop cmp key xs lo hi = bsearch_loop cmp key xs (?m + 1) hi"
        using 3 m(3) True by (subst bsearch_loop.simps) (simp add: Let_def)
      moreover have "cmp key (xs ! k) \<noteq> 0" if "\<forall>k. ?m + 1 \<le> k \<and> k < hi \<longrightarrow> cmp key (xs ! k) \<noteq> 0" "lo \<le> k" "k < hi" for k
        using that below [of k] by (cases "k \<le> ?m") auto
      ultimately show ?thesis using m(1) by (intro exI [of _ r]) (cases r; simp)
    qed
  qed (subst bsearch_loop.simps, simp)
qed

end

interpretation str_sort: byte_comparator strcmp_rec UNIV
  by unfold_locales

lemma frame_split:
  assumes "frame b (b + n) xs ys" "b + n \<le> length xs"
  shows "ys = take b xs @ take n (drop b ys) @ drop (b + n) xs"
proof -
  have "take b ys = take b xs" "drop (b + n) ys = drop (b + n) xs"
    using assms by (auto intro!: nth_equalityI simp: frame_length frame_nth)
  then show ?thesis by (metis add.commute append_take_drop_id drop_drop)
qed

lemma sorted_in_slice:
  "sorted_in cmp ys b (b + n) \<Longrightarrow> b + n \<le> length ys \<Longrightarrow> sorted_wrt (\<lambda>x y. cmp x y \<le> 0) (take n (drop b ys))"
  by (auto simp: sorted_in_def sorted_wrt_iff_nth_less)

lemma qsort_size_0: "12 < n \<Longrightarrow> qsort cmp 0 xs b n = None"
  by (subst qsort.simps) (auto simp: Let_def split: bind_splits)

text \<open>C1: with a consistent comparison \<open>qsort\<close> of a slice returns; the slice is sorted and a
  permutation of what it was, and the rest of the array is untouched. Only with elements of size 0 and
  more than 12 of them it does not: it divides by the size.\<close>

theorem qsort_sorts:
  assumes "byte_comparator cmp A" "sized sz xs" "set xs \<subseteq> A" "b + n \<le> length xs"
  shows "if sz = 0 \<and> 12 < n then qsort cmp sz xs b n = None
    else \<exists>zs. qsort cmp sz xs b n = Some (take b xs @ zs @ drop (b + n) xs)
      \<and> mset zs = mset (take n (drop b xs)) \<and> sorted_wrt (\<lambda>x y. cmp x y \<le> 0) zs"
proof (cases "sz = 0 \<and> 12 < n")
  case True
  then show ?thesis using qsort_size_0 by simp
next
  case False
  then have sz: "0 < sz \<or> n \<le> 12" by auto
  have "sort_input sz A xs (b + n)" using assms(2-4) by (simp add: sort_input_def)
  from byte_comparator.qsort_slice [OF assms(1) this sz] obtain ys where
    y: "qsort cmp sz xs b n = Some ys" "frame b (b + n) xs ys" "sorted_in cmp ys b (b + n)" by blast
  have "mset (take n (drop b ys)) = mset (take n (drop b xs))"
    using frame_slice_mset [OF y(2) _ assms(4)] by simp
  moreover have "sorted_wrt (\<lambda>x y. cmp x y \<le> 0) (take n (drop b ys))"
    using sorted_in_slice [OF y(3)] assms(4) frame_length [OF y(2)] by simp
  ultimately show ?thesis using y(1) frame_split [OF y(2) assms(4)] unfolding if_not_P [OF False] by metis
qed

theorem qsort_sorts_witness:
  "\<exists>zs. qsort strcmp_rec 1 (map (\<lambda>c. [c]) ''racccoon sorts words'') 2 16 = Some (take 2 (map (\<lambda>c. [c]) ''racccoon sorts words'') @ zs @ drop (2 + 16) (map (\<lambda>c. [c]) ''racccoon sorts words''))
    \<and> mset zs = mset (take 16 (drop 2 (map (\<lambda>c. [c]) ''racccoon sorts words''))) \<and> sorted_wrt (\<lambda>x y. strcmp_rec x y \<le> 0) zs"
proof -
  let ?xs = "map (\<lambda>c. [c]) ''racccoon sorts words''"
  have ne: "\<not> ((1 :: nat) = 0 \<and> (12 :: nat) < 16)" and h: "sized 1 ?xs" "set ?xs \<subseteq> UNIV" "2 + 16 \<le> length ?xs"
    by (simp_all add: sized_def)
  from qsort_sorts [OF str_sort.byte_comparator_axioms h] show ?thesis unfolding if_not_P [OF ne] .
qed

text \<open>C5: on a sorted array \<open>bsearch\<close> returns the index of an element equal to the key, or \<^verbatim>\<open>NULL\<close>
  when there is none.\<close>

theorem bsearch_finds:
  assumes "byte_comparator cmp A" "set xs \<subseteq> A" "key \<in> A" "sorted_wrt (\<lambda>x y. cmp x y \<le> 0) xs"
  shows "\<exists>r. bsearch cmp key xs (length xs) = Some r
    \<and> (case r of Some m \<Rightarrow> m < length xs \<and> cmp key (xs ! m) = 0 | None \<Rightarrow> \<forall>x \<in> set xs. cmp key x \<noteq> 0)"
proof -
  have "sorted_in cmp xs 0 (length xs)" using assms(4) by (auto simp: sorted_in_def sorted_wrt_iff_nth_less)
  from byte_comparator.bsearch_loop_correct [OF assms(1) le_refl assms(2,3) this, of 0] obtain r where
    "bsearch cmp key xs (length xs) = Some r" "case r of Some m \<Rightarrow> 0 \<le> m \<and> m < length xs \<and> cmp key (xs ! m) = 0
        | None \<Rightarrow> \<forall>k. 0 \<le> k \<and> k < length xs \<longrightarrow> cmp key (xs ! k) \<noteq> 0" unfolding bsearch_def by blast
  then show ?thesis by (cases r) (auto simp: in_set_conv_nth)
qed

theorem bsearch_finds_witness:
  "\<exists>r. bsearch strcmp_rec ''ls'' [''cat'', ''echo'', ''ls'', ''rm''] 4 = Some r
    \<and> (case r of Some m \<Rightarrow> m < 4 \<and> strcmp_rec ''ls'' ([''cat'', ''echo'', ''ls'', ''rm''] ! m) = 0
        | None \<Rightarrow> \<forall>x \<in> set [''cat'', ''echo'', ''ls'', ''rm'']. strcmp_rec ''ls'' x \<noteq> 0)"
proof -
  let ?xs = "[''cat'', ''echo'', ''ls'', ''rm'']"
  have len: "length ?xs = 4" by simp
  have "sorted_wrt (\<lambda>x y. strcmp_rec x y \<le> 0) ?xs"
    by (simp add: strcmp_rec_def cstr_of_def ord_def)
  from bsearch_finds [OF str_sort.byte_comparator_axioms subset_UNIV UNIV_I this]
  show ?thesis unfolding len .
qed

end
