(* ===== verification/Kernel.thy ===== *)
theory Kernel
  imports Prelude
begin

text \<open>
  What the C library uses of the racccoon kernel. The kernel is not part of the library: the system
  calls are a record of functions over a world \<open>'w\<close>, passed to every definition that makes one
  (\<^verbatim>\<open>__rc_syscall3\<close> and its siblings in \<^verbatim>\<open>src/ecall.c\<close>, with the number and the casts of the call
  site). A call that fills a buffer returns the contents of the whole buffer after the call, so
  bytes the kernel does not write are whatever the parameter says. \<open>os_uninit\<close> is what an
  uninitialised local array holds.
\<close>

record 'w os =
  sys_getcwd :: "'w \<Rightarrow> nat \<Rightarrow> int \<times> byte list"
  sys_chdir :: "'w \<Rightarrow> string \<Rightarrow> int \<times> 'w"
  sys_ns_translate :: "'w \<Rightarrow> string \<Rightarrow> int \<Rightarrow> nat \<Rightarrow> int \<times> byte list"
  sys_ipc_call :: "'w \<Rightarrow> int \<Rightarrow> int \<Rightarrow> byte list \<Rightarrow> int \<Rightarrow> (int \<times> byte list \<times> int) \<times> 'w"
  sys_getpid :: "'w \<Rightarrow> int"
  sys_parent_info :: "'w \<Rightarrow> int \<Rightarrow> int"
  sys_getuid :: "'w \<Rightarrow> int"
  sys_write :: "'w \<Rightarrow> byte list \<Rightarrow> int \<times> 'w"
  sys_getchar :: "'w \<Rightarrow> int \<times> 'w"
  sys_stdin_isatty :: "'w \<Rightarrow> int"
  sys_timebase :: "'w \<Rightarrow> nat"
  sys_await :: "'w \<Rightarrow> int \<Rightarrow> int \<Rightarrow> int \<times> 'w"
  sys_rdtime :: "'w \<Rightarrow> nat \<times> 'w"
  os_uninit :: "'w \<Rightarrow> nat \<Rightarrow> byte list"

text \<open>The error numbers of \<^verbatim>\<open>include/errno.h\<close> that the modelled functions set.\<close>

abbreviation (input) EPERM :: int where "EPERM \<equiv> 1"
abbreviation (input) ENOENT :: int where "ENOENT \<equiv> 2"
abbreviation (input) ESRCH :: int where "ESRCH \<equiv> 3"
abbreviation (input) EINTR :: int where "EINTR \<equiv> 4"
abbreviation (input) EIO :: int where "EIO \<equiv> 5"
abbreviation (input) E2BIG :: int where "E2BIG \<equiv> 7"
abbreviation (input) EBADF :: int where "EBADF \<equiv> 9"
abbreviation (input) ECHILD :: int where "ECHILD \<equiv> 10"
abbreviation (input) EAGAIN :: int where "EAGAIN \<equiv> 11"
abbreviation (input) ENOMEM :: int where "ENOMEM \<equiv> 12"
abbreviation (input) EACCES :: int where "EACCES \<equiv> 13"
abbreviation (input) EBUSY :: int where "EBUSY \<equiv> 16"
abbreviation (input) EEXIST :: int where "EEXIST \<equiv> 17"
abbreviation (input) ENOTDIR :: int where "ENOTDIR \<equiv> 20"
abbreviation (input) EINVAL :: int where "EINVAL \<equiv> 22"
abbreviation (input) EMFILE :: int where "EMFILE \<equiv> 24"
abbreviation (input) ESPIPE :: int where "ESPIPE \<equiv> 29"
abbreviation (input) ERANGE :: int where "ERANGE \<equiv> 34"
abbreviation (input) EDEADLK :: int where "EDEADLK \<equiv> 35"
abbreviation (input) ENAMETOOLONG :: int where "ENAMETOOLONG \<equiv> 36"
abbreviation (input) ENOSYS :: int where "ENOSYS \<equiv> 38"
abbreviation (input) ENOTEMPTY :: int where "ENOTEMPTY \<equiv> 39"
abbreviation (input) EILSEQ :: int where "EILSEQ \<equiv> 84"
abbreviation (input) ENOTSUP :: int where "ENOTSUP \<equiv> 95"

text \<open>A kernel on which every call fails, to be completed by the witnesses.\<close>

definition no_os :: "'w os" where
  "no_os = \<lparr> sys_getcwd = (\<lambda>w n. (-1, replicate n NUL)), sys_chdir = (\<lambda>w p. (-1, w)),
     sys_ns_translate = (\<lambda>w p k n. (-1, replicate n NUL)), sys_ipc_call = (\<lambda>w p v b k. ((-1, b, 0), w)),
     sys_getpid = (\<lambda>w. 1), sys_parent_info = (\<lambda>w p. -1), sys_getuid = (\<lambda>w. 0), sys_write = (\<lambda>w b. (-1, w)),
     sys_getchar = (\<lambda>w. (-1, w)), sys_stdin_isatty = (\<lambda>w. 0), sys_timebase = (\<lambda>w. 0),
     sys_await = (\<lambda>w e t. (-1, w)), sys_rdtime = (\<lambda>w. (0, w)), os_uninit = (\<lambda>w n. replicate n NUL) \<rparr>"

end
