(* ===== verification/RcPath.thy ===== *)
theory RcPath
  imports Kernel
begin

text \<open>
  The path half of \<^verbatim>\<open>src/rc_fs.c\<close>: \<open>rc_normalize\<close> and \<open>__rc_abspath\<close> (here \<open>rc_abspath\<close>).

  The arrays \<^verbatim>\<open>char tmp[128]\<close> and \<^verbatim>\<open>char out[128]\<close> are the list of their first \<^verbatim>\<open>o\<close> bytes; every store
  goes through \<open>push128\<close>, which makes the result \<open>None\<close> at index 128 or above, and every load from
  \<^verbatim>\<open>char cw[128]\<close> goes through \<open>load\<close>, which does the same outside the array. The specification splits a path into components
  (\<open>components\<close>), resolves "." and ".." on the list (\<open>resolve\<close>) and prints it (\<open>render\<close>).
\<close>

abbreviation (input) SLASH :: byte where "SLASH \<equiv> CHR ''/''"

text \<open>\<^verbatim>\<open>buf[o++] = c\<close> on an array of 128 bytes.\<close>

definition push128 :: "byte list \<Rightarrow> byte \<Rightarrow> byte list option" where
  "push128 buf c = (if length buf < 128 then Some (buf @ [c]) else None)"

definition load :: "byte list \<Rightarrow> nat \<Rightarrow> byte option" where
  "load a i = (if i < length a then Some (a ! i) else None)"

text \<open>\<^verbatim>\<open>while (src[i] && o < lim) buf[o++] = src[i++]\<close>: the string \<open>src\<close> ends at its terminator.\<close>

fun append_upto :: "nat \<Rightarrow> byte list \<Rightarrow> byte list \<Rightarrow> byte list option" where
  "append_upto lim buf [] = Some buf"
| "append_upto lim buf (c # src) =
     (if length buf < lim then do { buf' \<leftarrow> push128 buf c; append_upto lim buf' src } else Some buf)"

text \<open>\<^verbatim>\<open>for (; i < n && o < lim; i++) buf[o++] = a[i];\<close>\<close>

function copy_chars :: "nat \<Rightarrow> byte list \<Rightarrow> nat \<Rightarrow> nat \<Rightarrow> byte list \<Rightarrow> byte list option" where
  "copy_chars lim a n i buf =
     (if i < n \<and> length buf < lim
      then do { c \<leftarrow> load a i; buf' \<leftarrow> push128 buf c; copy_chars lim a n (i + 1) buf' }
      else Some buf)"
  by pat_completeness auto
termination by (relation "measure (\<lambda>(_, _, n, i, _). n - i)") auto

declare copy_chars.simps [simp del]

text \<open>\<^verbatim>\<open>while (o > 1 && tmp[o - 1] != '/') o--;\<close>\<close>

fun strip_comp :: "byte list \<Rightarrow> byte list" where
  "strip_comp tmp = (if 1 < length tmp \<and> last tmp \<noteq> SLASH then strip_comp (butlast tmp) else tmp)"

declare strip_comp.simps [simp del]

text \<open>What the loop body does with the component \<open>c\<close>.\<close>

definition norm_step :: "byte list \<Rightarrow> byte list \<Rightarrow> byte list option" where
  "norm_step tmp c =
     (if length c = 1 \<and> c ! 0 = CHR ''.'' then Some tmp
      else if length c = 2 \<and> c ! 0 = CHR ''.'' \<and> c ! 1 = CHR ''.''
      then Some (if 1 < length tmp then strip_comp (butlast tmp) else tmp)
      else do { tmp' \<leftarrow> (if 1 < length tmp \<and> last tmp \<noteq> SLASH
                        then push128 tmp SLASH else Some tmp);
                append_upto 127 tmp' c })"

function norm_loop :: "byte list \<Rightarrow> byte list \<Rightarrow> byte list option" where
  "norm_loop p tmp =
     (let q = dropWhile (\<lambda>c. c = SLASH) p in
      if q = [] then Some tmp
      else do { tmp' \<leftarrow> norm_step tmp (takeWhile (\<lambda>c. c \<noteq> SLASH) q);
                norm_loop (dropWhile (\<lambda>c. c \<noteq> SLASH) q) tmp' })"
  by pat_completeness auto
termination
proof (relation "measure (\<lambda>(p, _). length p)", goal_cases)
  case (2 p tmp q t)
  then have "q \<noteq> []" "hd q \<noteq> SLASH" using hd_dropWhile [of "\<lambda>c. c = SLASH" p] by auto
  then have "length (dropWhile (\<lambda>c. c \<noteq> SLASH) q) < length q"
    by (cases q) (auto intro: le_imp_less_Suc length_dropWhile_le)
  moreover have "length q \<le> length p" using 2 by (simp add: length_dropWhile_le)
  ultimately show ?case by simp
qed simp

declare norm_loop.simps [simp del]

definition rc_normalize :: "byte list \<Rightarrow> byte list option" where
  "rc_normalize p =
     do { tmp \<leftarrow> norm_loop p [SLASH];
          let tmp' = (if 1 < length tmp \<and> last tmp = SLASH then butlast tmp else tmp);
          if length tmp' < 128 then Some tmp' else None }"

text \<open>\<^verbatim>\<open>char cw[128]\<close> holds 128 bytes whatever the kernel answers: its reply is cut or padded to the array.\<close>

definition rc_getcwd :: "'w os \<Rightarrow> 'w \<Rightarrow> int \<times> byte list" where
  "rc_getcwd os w = (let (n, cw) = sys_getcwd os w 128 in (to_int32 n, take 128 (cw @ replicate 128 NUL)))"

text \<open>\<^verbatim>\<open>out[o] = 0; rc_normalize(out);\<close>\<close>

definition finish_path :: "byte list \<Rightarrow> byte list option" where
  "finish_path out = do { out' \<leftarrow> push128 out NUL; rc_normalize (cstr_of out') }"

definition rc_abspath :: "'w os \<Rightarrow> 'w \<Rightarrow> string \<Rightarrow> byte list option" where
  "rc_abspath os w rel =
     (if rel \<noteq> [] \<and> hd rel = SLASH then do { out \<leftarrow> append_upto 127 [] rel; finish_path out }
      else let (n0, cw0) = rc_getcwd os w;
               (n, cw) = (if n0 \<le> 0 \<or> cw0 ! 0 = NUL then (1, cw0[0 := SLASH, 1 := NUL]) else (n0, cw0))
           in if rel = [] then do { out \<leftarrow> copy_chars 127 cw (nat n) 0 []; finish_path out }
              else do { o1 \<leftarrow> copy_chars 127 cw (nat n) 0 [];
                        o2 \<leftarrow> (if length o1 < 127 \<and> (o1 = [] \<or> last o1 \<noteq> SLASH) then push128 o1 SLASH else Some o1);
                        o3 \<leftarrow> append_upto 127 o2 rel;
                        finish_path o3 })"

text \<open>The copying loops with the code's limit of 127 stay inside the array.\<close>

lemma append_upto_eq: "append_upto 127 buf src = Some (buf @ take (127 - length buf) src)"
proof (induction src arbitrary: buf)
  case (Cons c src)
  show ?case
  proof (cases "length buf < 127")
    case True
    then have "127 - length buf = Suc (127 - length (buf @ [c]))" by simp
    then show ?thesis using True Cons by (simp add: push128_def)
  qed simp
qed simp

lemma copy_chars_eq: "length a = 128 \<Longrightarrow> length buf = i \<Longrightarrow> copy_chars 127 a n i buf = Some (buf @ take (min n 127 - i) (drop i a))"
proof (induction "n - i" arbitrary: i buf)
  case 0
  then show ?case by (subst copy_chars.simps) simp
next
  case (Suc k)
  show ?case
  proof (cases "i < 127")
    case True
    then have "copy_chars 127 a n i buf = copy_chars 127 a n (i + 1) (buf @ [a ! i])"
      using Suc.hyps(2) Suc.prems by (subst copy_chars.simps) (auto simp add: load_def push128_def)
    also have "\<dots> = Some (buf @ [a ! i] @ take (min n 127 - (i + 1)) (drop (i + 1) a))"
      using Suc.hyps Suc.prems by simp
    also have "[a ! i] @ take (min n 127 - (i + 1)) (drop (i + 1) a) = take (min n 127 - i) (drop i a)"
    proof -
      have "min n 127 - i = Suc (min n 127 - (i + 1))" using True Suc.hyps(2) by simp
      then show ?thesis using True Suc.prems(1) Cons_nth_drop_Suc [of i a, symmetric] by simp
    qed
    finally show ?thesis .
  next
    case False
    then show ?thesis using Suc.prems by (subst copy_chars.simps) simp
  qed
qed

lemma norm_step_eq:
  "norm_step tmp c =
     (if length c = 1 \<and> c ! 0 = CHR ''.'' then Some tmp
      else if length c = 2 \<and> c ! 0 = CHR ''.'' \<and> c ! 1 = CHR ''.''
      then Some (if 1 < length tmp then strip_comp (butlast tmp) else tmp)
      else do { tmp' \<leftarrow> (if 1 < length tmp \<and> last tmp \<noteq> SLASH
                        then (if length tmp < 128 then Some (tmp @ [SLASH]) else None)
                        else Some tmp);
                Some (tmp' @ take (127 - length tmp') c) })"
  unfolding norm_step_def append_upto_eq push128_def ..

lemma finish_path_eq: "length out \<le> 127 \<Longrightarrow> finish_path out = rc_normalize (cstr_of out)"
proof -
  assume "length out \<le> 127"
  moreover have "cstr_of (out @ [NUL]) = cstr_of out"
    by (induction out) (auto simp: cstr_of_def)
  ultimately show ?thesis by (simp add: finish_path_def push128_def)
qed

lemma length_rc_getcwd: "length (snd (rc_getcwd os w)) = 128"
  by (simp add: rc_getcwd_def min_def split: prod.split)

text \<open>What \<open>rc_abspath\<close> hands to \<open>rc_normalize\<close>.\<close>

lemma rc_abspath_eq:
  "rc_abspath os w rel =
     (if rel \<noteq> [] \<and> hd rel = SLASH then rc_normalize (cstr_of (take 127 rel))
      else let (n0, cw0) = rc_getcwd os w;
               (n, cw) = (if n0 \<le> 0 \<or> cw0 ! 0 = NUL then (1, cw0[0 := SLASH, 1 := NUL]) else (n0, cw0));
               o1 = take (min (nat n) 127) cw;
               o2 = (if length o1 < 127 \<and> (o1 = [] \<or> last o1 \<noteq> SLASH) then o1 @ [SLASH] else o1)
           in rc_normalize (cstr_of (if rel = [] then o1 else o2 @ take (127 - length o2) rel)))"
proof -
  obtain n0 cw0 where g: "rc_getcwd os w = (n0, cw0)" by force
  define n cw where "n = (if n0 \<le> 0 \<or> cw0 ! 0 = NUL then 1 else n0)"
    and "cw = (if n0 \<le> 0 \<or> cw0 ! 0 = NUL then cw0[0 := SLASH, 1 := NUL] else cw0)"
  have nc: "(if n0 \<le> 0 \<or> cw0 ! 0 = NUL then (1, cw0[0 := SLASH, 1 := NUL]) else (n0, cw0)) = (n, cw)"
    by (simp add: n_def cw_def)
  have l: "length cw = 128" using length_rc_getcwd [of os w] by (simp add: g cw_def)
  have c: "copy_chars 127 cw (nat n) 0 [] = Some (take (min (nat n) 127) cw)"
    using copy_chars_eq [OF l, of "[]" 0 "nat n"] by simp
  have f: "finish_path (take (min (nat n) 127) cw) = rc_normalize (cstr_of (take (min (nat n) 127) cw))"
    "finish_path (take 127 rel) = rc_normalize (cstr_of (take 127 rel))"
    "length x \<le> 127 \<Longrightarrow> finish_path (x @ take (127 - length x) rel) = rc_normalize (cstr_of (x @ take (127 - length x) rel))" for x
    by (rule finish_path_eq, simp)+
  define o1 where "o1 = take (min (nat n) 127) cw"
  define o2 where "o2 = (if length o1 < 127 \<and> (o1 = [] \<or> last o1 \<noteq> SLASH) then o1 @ [SLASH] else o1)"
  have l: "length o1 \<le> 127" "length o2 \<le> 127" by (auto simp: o1_def o2_def)
  have p: "(if length o1 < 127 \<and> (o1 = [] \<or> last o1 \<noteq> SLASH) then push128 o1 SLASH else Some o1) = Some o2"
    by (simp add: push128_def o2_def)
  show ?thesis
    unfolding rc_abspath_def g Let_def split nc c append_upto_eq
    unfolding o1_def [symmetric] using f p l finish_path_eq [OF l(1)] unfolding o2_def [symmetric] by simp
qed

subsection \<open>The specification on components\<close>

function components :: "byte list \<Rightarrow> byte list list" where
  "components p =
     (let q = dropWhile (\<lambda>c. c = SLASH) p in
      if q = [] then []
      else takeWhile (\<lambda>c. c \<noteq> SLASH) q # components (dropWhile (\<lambda>c. c \<noteq> SLASH) q))"
  by pat_completeness auto
termination
proof (relation "measure length", goal_cases)
  case (2 p q)
  then have "q \<noteq> []" "hd q \<noteq> SLASH" using hd_dropWhile [of "\<lambda>c. c = SLASH" p] by auto
  then have "length (dropWhile (\<lambda>c. c \<noteq> SLASH) q) < length q"
    by (cases q) (auto intro: le_imp_less_Suc length_dropWhile_le)
  moreover have "length q \<le> length p" using 2 by (simp add: length_dropWhile_le)
  ultimately show ?case by simp
qed simp

declare components.simps [simp del]

fun resolve_comp :: "byte list list \<Rightarrow> byte list \<Rightarrow> byte list list" where
  "resolve_comp st c = (if c = ''.'' then st else if c = ''..'' then butlast st else st @ [c])"

definition resolve :: "byte list list \<Rightarrow> byte list list" where
  "resolve cs = foldl resolve_comp [] cs"

definition render :: "byte list list \<Rightarrow> byte list" where
  "render st = (if st = [] then [SLASH] else concat (map (\<lambda>c. SLASH # c) st))"

text \<open>A name: what can stand between two slashes.\<close>

definition name_ok :: "byte list \<Rightarrow> bool" where
  "name_ok c \<longleftrightarrow> c \<noteq> [] \<and> SLASH \<notin> set c"

lemma components_Nil: "\<forall>c \<in> set p. c = SLASH \<Longrightarrow> components p = []"
  by (subst components.simps) (simp add: Let_def)

lemma components_step:
  "dropWhile (\<lambda>c. c = SLASH) p = q \<Longrightarrow> q \<noteq> [] \<Longrightarrow>
   components p = takeWhile (\<lambda>c. c \<noteq> SLASH) q # components (dropWhile (\<lambda>c. c \<noteq> SLASH) q)"
  by (subst components.simps) (simp add: Let_def)

lemma components_ok: "c \<in> set (components p) \<Longrightarrow> name_ok c"
proof (induction p rule: components.induct)
  case (1 p)
  let ?q = "dropWhile (\<lambda>c. c = SLASH) p"
  show ?case
  proof (cases "?q = []")
    case True
    then have "components p = []" by (intro components_Nil) (simp add: dropWhile_eq_Nil_conv)
    then show ?thesis using 1(2) by simp
  next
    case False
    then have "hd ?q \<noteq> SLASH" using hd_dropWhile [of "\<lambda>c. c = SLASH" p] by auto
    then have "name_ok (takeWhile (\<lambda>c. c \<noteq> SLASH) ?q)"
      using False by (cases ?q) (auto simp: name_ok_def dest: set_takeWhileD)
    moreover have "c = takeWhile (\<lambda>c. c \<noteq> SLASH) ?q \<or> c \<in> set (components (dropWhile (\<lambda>c. c \<noteq> SLASH) ?q))"
      using 1(2) components_step [OF refl False] by auto
    ultimately show ?thesis using 1(1) [OF refl False] by blast
  qed
qed

lemma render_snoc: "name_ok c \<Longrightarrow> render (st @ [c]) = (if st = [] then [] else render st) @ SLASH # c"
  by (simp add: render_def)

lemma render_ne: "render st \<noteq> []"
  by (cases st) (auto simp: render_def)

lemma last_render: "st \<noteq> [] \<Longrightarrow> \<forall>c \<in> set st. name_ok c \<Longrightarrow> last (render st) \<noteq> SLASH"
  by (cases st rule: rev_cases) (auto simp: render_def name_ok_def dest: last_in_set)

text \<open>What \<open>tmp\<close> holds: the resolved components, possibly with a slash that the next one will need.\<close>

definition holds :: "byte list \<Rightarrow> byte list list \<Rightarrow> bool" where
  "holds tmp st \<longleftrightarrow> (\<forall>c \<in> set st. name_ok c) \<and> (tmp = render st \<or> (st \<noteq> [] \<and> tmp = render st @ [SLASH]))"

lemma strip_comp_name: "SLASH \<notin> set c \<Longrightarrow> strip_comp (t @ SLASH # c) = t @ [SLASH]"
proof (induction c rule: rev_induct)
  case Nil
  then show ?case by (subst strip_comp.simps) simp
next
  case (snoc x xs)
  have "butlast (t @ SLASH # xs @ [x]) = t @ SLASH # xs"
    by (metis append_Cons append_assoc butlast_snoc)
  then show ?case using snoc by (subst strip_comp.simps) auto
qed

lemma norm_step_pop:
  assumes "holds tmp st" "c = ''..''"
  shows "\<exists>tmp'. norm_step tmp c = Some tmp' \<and> holds tmp' (butlast st) \<and> length tmp' \<le> length tmp"
proof (cases st rule: rev_cases)
  case Nil
  then show ?thesis using assms by (auto simp: norm_step_eq holds_def render_def)
next
  case (snoc s d)
  have d: "d \<noteq> []" "SLASH \<notin> set d" using assms(1) snoc by (auto simp: holds_def name_ok_def)
  let ?t = "if s = [] then [] else render s"
  have r: "render st = ?t @ SLASH # d" using snoc d by (simp add: render_snoc name_ok_def)
  have "strip_comp (butlast tmp) = ?t @ [SLASH]"
  proof (cases "tmp = render st")
    case True
    then have "butlast tmp = ?t @ SLASH # butlast d" using r d by (simp add: butlast_append)
    moreover have "SLASH \<notin> set (butlast d)" using d by (meson in_set_butlastD)
    ultimately show ?thesis by (metis strip_comp_name)
  next
    case False
    then have "tmp = render st @ [SLASH]" using assms(1) by (auto simp: holds_def)
    then have "butlast tmp = ?t @ SLASH # d" using r by (metis butlast_snoc)
    then show ?thesis using strip_comp_name [OF d(2)] by metis
  qed
  moreover have "length (?t @ [SLASH]) \<le> length tmp" "1 < length tmp"
    using assms(1) r d by (auto simp: holds_def)
  moreover have "holds (?t @ [SLASH]) (butlast st)"
    using assms(1) snoc by (auto simp: holds_def render_def)
  ultimately show ?thesis using assms(2) by (auto simp: norm_step_eq)
qed

lemma norm_step_push:
  assumes "holds tmp st" "name_ok c" "c \<noteq> ''.''" "c \<noteq> ''..''"
    "length tmp + length c + (if st = [] then 0 else 1) \<le> 127"
  shows "\<exists>tmp'. norm_step tmp c = Some tmp' \<and> holds tmp' (st @ [c])
    \<and> length tmp' \<le> length tmp + length c + (if st = [] then 0 else 1)"
proof -
  have nd: "\<not> (length c = 1 \<and> c ! 0 = CHR ''.'')" "\<not> (length c = 2 \<and> c ! 0 = CHR ''.'' \<and> c ! 1 = CHR ''.'')"
    using assms(3,4) by (auto simp: length_Suc_conv numeral_2_eq_2)
  show ?thesis
  proof (cases "1 < length tmp \<and> last tmp \<noteq> SLASH")
    case True
    then have st: "tmp = render st" "st \<noteq> []" using assms(1) by (auto simp: holds_def render_def)
    moreover have "norm_step tmp c = Some (tmp @ SLASH # c)"
      using True nd assms(5) st(2) unfolding norm_step_eq by auto
    ultimately show ?thesis using assms(1,2) by (auto simp: holds_def render_snoc)
  next
    case False
    have t: "tmp = (if st = [] then [SLASH] else render st @ [SLASH])"
    proof (cases "st = []")
      case True
      then show ?thesis using assms(1) by (simp add: holds_def render_def)
    next
      case ne: False
      have "1 < length (render st)" using ne assms(1) by (cases st) (auto simp: render_def holds_def name_ok_def)
      then show ?thesis using False ne assms(1) last_render [OF ne] by (auto simp: holds_def)
    qed
    have "norm_step tmp c = Some (tmp @ c)"
      using False nd assms(5) unfolding norm_step_eq by auto
    then show ?thesis using t assms(1,2) by (auto simp: holds_def render_snoc render_def)
  qed
qed

text \<open>Room left: what is still to be read fits behind what has been written.\<close>

definition room :: "byte list \<Rightarrow> byte list list \<Rightarrow> byte list \<Rightarrow> bool" where
  "room tmp st p \<longleftrightarrow> length p \<le> 127 \<and> (st \<noteq> [] \<longrightarrow> length tmp + length p \<le> 127)"

lemma norm_step_correct:
  assumes "holds tmp st" "name_ok c" "room tmp st (SLASH # c @ p')"
  shows "\<exists>tmp'. norm_step tmp c = Some tmp' \<and> holds tmp' (resolve_comp st c) \<and> room tmp' (resolve_comp st c) p'"
proof -
  have len: "length tmp + length c + (if st = [] then 0 else 1) \<le> 127"
    "length tmp + length c + (if st = [] then 0 else 1) + length p' \<le> 127"
    using assms(1,3) by (auto simp: room_def holds_def render_def split: if_splits)
  consider "c = ''.''" | "c = ''..''" | "c \<noteq> ''.''" "c \<noteq> ''..''" by blast
  then show ?thesis
  proof cases
    case 1
    then show ?thesis using assms by (auto simp: norm_step_eq room_def)
  next
    case 2
    obtain tmp' where t: "norm_step tmp c = Some tmp'" "holds tmp' (butlast st)" "length tmp' \<le> length tmp"
      using norm_step_pop [OF assms(1) 2] by blast
    then show ?thesis using 2 assms(3) by (auto simp: room_def)
  next
    case 3
    obtain tmp' where t: "norm_step tmp c = Some tmp'" "holds tmp' (st @ [c])"
        "length tmp' \<le> length tmp + length c + (if st = [] then 0 else 1)"
      using norm_step_push [OF assms(1,2) 3 len(1)] by blast
    then show ?thesis using 3 assms(3) len by (auto simp: room_def)
  qed
qed

lemma norm_loop_step:
  assumes "dropWhile (\<lambda>c. c = SLASH) p = q" "q \<noteq> []" "norm_step tmp (takeWhile (\<lambda>c. c \<noteq> SLASH) q) = Some t"
  shows "norm_loop p tmp = norm_loop (dropWhile (\<lambda>c. c \<noteq> SLASH) q) t"
  using assms by (subst norm_loop.simps) (simp add: Let_def)

lemma norm_loop_correct:
  assumes "holds tmp st" "room tmp st p" "p = [] \<or> hd p = SLASH"
  shows "\<exists>tmp'. norm_loop p tmp = Some tmp' \<and> holds tmp' (foldl resolve_comp st (components p))
    \<and> room tmp' (foldl resolve_comp st (components p)) []"
  using assms
proof (induction p arbitrary: tmp st rule: components.induct)
  case (1 p)
  let ?q = "dropWhile (\<lambda>c. c = SLASH) p"
  let ?c = "takeWhile (\<lambda>c. c \<noteq> SLASH) ?q" and ?r = "dropWhile (\<lambda>c. c \<noteq> SLASH) ?q"
  show ?case
  proof (cases "?q = []")
    case True
    then have "components p = []" by (subst components.simps) (simp only: Let_def if_True True)
    moreover have "norm_loop p tmp = Some tmp" using True by (subst norm_loop.simps) (simp only: Let_def if_True True)
    ultimately show ?thesis using 1(2,3) by (auto simp: room_def)
  next
    case False
    note step = components_step [OF refl False]
    have "name_ok ?c" using components_ok [of ?c p] step by simp
    have p: "p = takeWhile (\<lambda>c. c = SLASH) p @ ?c @ ?r" by simp
    have "takeWhile (\<lambda>c. c = SLASH) p \<noteq> []" using 1(4) False by (cases p) auto
    then have "0 < length (takeWhile (\<lambda>c. c = SLASH) p)" by simp
    moreover have "length p = length (takeWhile (\<lambda>c. c = SLASH) p) + length ?q"
      by (metis length_append takeWhile_dropWhile_id)
    ultimately have "length (SLASH # ?c @ ?r) \<le> length p" by (simp add: Suc_le_eq)
    then have "room tmp st (SLASH # ?c @ ?r)" using 1(3) by (auto simp: room_def)
    from norm_step_correct [OF 1(2) \<open>name_ok ?c\<close> this] obtain tmp' where
      t: "norm_step tmp ?c = Some tmp'" "holds tmp' (resolve_comp st ?c)" "room tmp' (resolve_comp st ?c) ?r" by blast
    have "?r = [] \<or> hd ?r = SLASH" using hd_dropWhile [of "\<lambda>c. c \<noteq> SLASH" ?q] by blast
    from 1(1) [OF refl False t(2,3) this] show ?thesis
      unfolding step norm_loop_step [OF refl False t(1)] foldl_Cons .
  qed
qed

lemma rc_normalize_correct:
  assumes "p \<noteq> []" "hd p = SLASH" "length p \<le> 127"
  shows "rc_normalize p = Some (render (resolve (components p)))" "length (render (resolve (components p))) \<le> 127"
proof -
  have "holds [SLASH] []" "room [SLASH] [] p" using assms by (auto simp: holds_def render_def room_def)
  from norm_loop_correct [OF this] assms obtain tmp where
    t: "norm_loop p [SLASH] = Some tmp" "holds tmp (resolve (components p))" "room tmp (resolve (components p)) []"
    unfolding resolve_def by blast
  let ?st = "resolve (components p)"
  have "?st \<noteq> [] \<Longrightarrow> last (render ?st) \<noteq> SLASH" using last_render t(2) by (auto simp: holds_def)
  then have "(if 1 < length tmp \<and> last tmp = SLASH then butlast tmp else tmp) = render ?st"
    using t(2) render_ne [of ?st] by (cases "?st = []") (auto simp: holds_def render_def)
  moreover show "length (render ?st) \<le> 127"
    using t(2,3) by (cases "?st = []") (auto simp: holds_def room_def render_def)
  ultimately show "rc_normalize p = Some (render ?st)" using t(1) by (simp add: rc_normalize_def Let_def)
qed

text \<open>Whatever the input, no store leaves \<^verbatim>\<open>tmp\<close>.\<close>

definition tmp_ok :: "byte list \<Rightarrow> bool" where
  "tmp_ok tmp \<longleftrightarrow> tmp \<noteq> [] \<and> length tmp \<le> 128 \<and> (length tmp = 128 \<longrightarrow> last tmp = SLASH)"

lemma strip_comp_shorter: "t \<noteq> [] \<Longrightarrow> length (strip_comp t) \<le> length t \<and> strip_comp t \<noteq> []"
proof (induction t rule: strip_comp.induct)
  case (1 tmp)
  show ?case
  proof (cases "1 < length tmp \<and> last tmp \<noteq> SLASH")
    case True
    then have "butlast tmp \<noteq> []" by (cases tmp) auto
    then show ?thesis using 1 True by (subst (1 2) strip_comp.simps) auto
  qed (use 1 in \<open>subst (1 2) strip_comp.simps, auto\<close>)
qed

lemma norm_step_safe: "tmp_ok tmp \<Longrightarrow> \<exists>tmp'. norm_step tmp c = Some tmp' \<and> tmp_ok tmp'"
proof -
  assume ok: "tmp_ok tmp"
  have pop: "tmp_ok (if 1 < length tmp then strip_comp (butlast tmp) else tmp)"
  proof (cases "1 < length tmp")
    case True
    then have "butlast tmp \<noteq> []" by (cases tmp) auto
    then show ?thesis using strip_comp_shorter [of "butlast tmp"] ok True by (auto simp: tmp_ok_def)
  qed (use ok in auto)
  have push: "tmp_ok (t @ take (127 - length t) c)" if "tmp_ok t" for t
    using that by (auto simp: tmp_ok_def last_append)
  have "\<not> (1 < length tmp \<and> last tmp \<noteq> SLASH) \<or> tmp_ok (tmp @ [SLASH]) \<and> length tmp < 128"
    using ok by (auto simp: tmp_ok_def)
  then show ?thesis
    unfolding norm_step_eq using ok pop push [of tmp] push [of "tmp @ [SLASH]"] by auto
qed

lemma norm_loop_safe: "tmp_ok tmp \<Longrightarrow> \<exists>tmp'. norm_loop p tmp = Some tmp' \<and> tmp_ok tmp'"
proof (induction p arbitrary: tmp rule: components.induct)
  case (1 p)
  let ?q = "dropWhile (\<lambda>c. c = SLASH) p"
  obtain t where t: "norm_step tmp (takeWhile (\<lambda>c. c \<noteq> SLASH) ?q) = Some t" "tmp_ok t"
    using norm_step_safe [OF 1(2)] by blast
  show ?case
  proof (cases "?q = []")
    case True
    then show ?thesis using 1(2) by (subst norm_loop.simps) (simp only: Let_def if_True True, blast)
  next
    case False
    show ?thesis using 1(1) [OF refl False t(2)] unfolding norm_loop_step [OF refl False t(1)] .
  qed
qed

lemma rc_normalize_safe: "\<exists>q. rc_normalize p = Some q \<and> length q \<le> 127"
proof -
  have "tmp_ok [SLASH]" by (simp add: tmp_ok_def)
  from norm_loop_safe [OF this, of p] obtain t where "norm_loop p [SLASH] = Some t" "tmp_ok t" by blast
  then show ?thesis by (auto simp: rc_normalize_def tmp_ok_def Let_def)
qed

subsection \<open>Splitting and printing are inverse\<close>

lemma dropWhile_SLASH: "dropWhile (\<lambda>c. c = SLASH) p = [] \<Longrightarrow> dropWhile (\<lambda>c. c = SLASH) (p @ q) = dropWhile (\<lambda>c. c = SLASH) q"
  by (induction p) (auto split: if_splits)

lemma components_drop: "components (dropWhile (\<lambda>c. c = SLASH) p) = components p"
proof -
  have "dropWhile (\<lambda>c. c = SLASH) (dropWhile (\<lambda>c. c = SLASH) p) = dropWhile (\<lambda>c. c = SLASH) p"
    by (induction p) auto
  then show ?thesis by (subst (1 2) components.simps) simp
qed

lemma components_append: "components (p @ SLASH # q) = components p @ components q"
proof (induction p rule: components.induct)
  case (1 p)
  let ?d = "dropWhile (\<lambda>c. c = SLASH)"
  show ?case
  proof (cases "?d p = []")
    case True
    then have "?d (p @ SLASH # q) = ?d q" using dropWhile_SLASH [OF True, of "SLASH # q"] by simp
    then have "components (p @ SLASH # q) = components q"
      using components_drop [of "p @ SLASH # q"] components_drop [of q] by simp
    moreover have "components p = []" by (subst components.simps) (simp only: Let_def True, simp)
    ultimately show ?thesis by simp
  next
    case False
    have d: "?d (p @ SLASH # q) = ?d p @ SLASH # q"
      using False by (induction p) (auto split: if_splits)
    have tw: "takeWhile (\<lambda>c. c \<noteq> SLASH) (x @ SLASH # q) = takeWhile (\<lambda>c. c \<noteq> SLASH) x" for x
      by (induction x) auto
    have dw: "dropWhile (\<lambda>c. c \<noteq> SLASH) (x @ SLASH # q) = dropWhile (\<lambda>c. c \<noteq> SLASH) x @ SLASH # q" for x
      by (induction x) auto
    show ?thesis
      using components_step [OF d] components_step [OF refl False] 1 [OF refl False] unfolding tw dw by simp
  qed
qed

lemma components_name: "name_ok c \<Longrightarrow> components c = [c]"
proof -
  assume c: "name_ok c"
  have "dropWhile (\<lambda>x. x = SLASH) c = c" using c by (cases c) (auto simp: name_ok_def)
  moreover have "takeWhile (\<lambda>x. x \<noteq> SLASH) c = c" "dropWhile (\<lambda>x. x \<noteq> SLASH) c = []"
    using c by (auto simp: name_ok_def takeWhile_eq_all_conv dropWhile_eq_Nil_conv)
  moreover have "components [] = []" by (simp add: components_Nil)
  ultimately show ?thesis using components_step [of c c] c by (simp only: name_ok_def) simp
qed

lemma components_concat: "\<forall>c \<in> set st. name_ok c \<Longrightarrow> components (concat (map (\<lambda>c. SLASH # c) st)) = st"
proof (induction st rule: rev_induct)
  case Nil
  then show ?case by (simp add: components_Nil)
next
  case (snoc c st)
  then show ?case using components_append [of "concat (map (\<lambda>c. SLASH # c) st)" c] by (simp add: components_name)
qed

lemma components_render: "\<forall>c \<in> set st. name_ok c \<Longrightarrow> components (render st) = st"
  using components_concat [of st] by (simp add: render_def components_Nil)

definition plain :: "byte list list \<Rightarrow> bool" where
  "plain st \<longleftrightarrow> (\<forall>c \<in> set st. name_ok c \<and> c \<noteq> ''.'' \<and> c \<noteq> ''..'')"

lemma resolve_comp_plain: "plain st \<Longrightarrow> name_ok c \<Longrightarrow> plain (resolve_comp st c)"
  using in_set_butlastD [of _ st] by (simp add: plain_def)

lemma foldl_plain: "plain st \<Longrightarrow> (\<And>c. c \<in> set cs \<Longrightarrow> name_ok c) \<Longrightarrow> plain (foldl resolve_comp st cs)"
  by (induction cs arbitrary: st) (auto simp del: resolve_comp.simps intro: resolve_comp_plain)

lemma resolve_plain: "(\<And>c. c \<in> set cs \<Longrightarrow> name_ok c) \<Longrightarrow> plain (resolve cs)"
  unfolding resolve_def by (rule foldl_plain) (simp_all add: plain_def)

lemma resolve_id: "plain st \<Longrightarrow> resolve st = st"
proof -
  have "plain (s @ st) \<Longrightarrow> foldl resolve_comp s st = s @ st" for s
    by (induction st arbitrary: s) (auto simp: plain_def)
  then show "plain st \<Longrightarrow> resolve st = st" by (simp add: resolve_def)
qed

lemma render_hd: "render st \<noteq> [] \<and> hd (render st) = SLASH"
  by (cases st) (auto simp: render_def)

subsection \<open>Properties\<close>

text \<open>C8: \<open>rc_normalize\<close> of an absolute path that fits the buffer is its canonical form: the
  components with "." dropped and ".." resolved (staying at the root), printed with single slashes;
  it fits the buffer again and normalising it once more changes nothing.\<close>

theorem rc_normalize_canonical:
  assumes "p \<noteq> []" "hd p = SLASH" "length p \<le> 127"
  shows "\<exists>q. rc_normalize p = Some q \<and> q = render (resolve (components p)) \<and> length q \<le> 127
    \<and> components q = resolve (components p) \<and> plain (components q) \<and> rc_normalize q = Some q"
proof -
  let ?st = "resolve (components p)"
  have pl: "plain ?st" by (rule resolve_plain) (rule components_ok)
  then have c: "components (render ?st) = ?st" by (intro components_render) (auto simp: plain_def)
  note n = rc_normalize_correct [OF assms]
  have "rc_normalize (render ?st) = Some (render (resolve (components (render ?st))))"
    using rc_normalize_correct(1) [of "render ?st"] render_hd n(2) by blast
  then show ?thesis using n c pl resolve_id [OF pl] by simp
qed

theorem rc_normalize_canonical_witness: "rc_normalize ''/usr//lib/./../bin/'' = Some ''/usr/bin''"
proof -
  have c: "components ''/usr//lib/./../bin/'' = [''usr'', ''lib'', ''.'', ''..'', ''bin'']"
    by (simp add: components.simps)
  obtain q where "rc_normalize ''/usr//lib/./../bin/'' = Some q"
    "q = render (resolve (components ''/usr//lib/./../bin/''))"
    using rc_normalize_canonical [of "''/usr//lib/./../bin/''"] by auto
  then show ?thesis unfolding c by (simp add: resolve_def render_def)
qed

lemma rc_abspath_bound: "\<exists>q. rc_abspath os w rel = Some q \<and> length q \<le> 127"
  unfolding rc_abspath_eq by (simp add: rc_normalize_safe Let_def split: prod.split)

text \<open>C10: \<open>__rc_abspath\<close> never stores outside \<^verbatim>\<open>out[128]\<close> and \<^verbatim>\<open>tmp[128]\<close> nor loads outside \<^verbatim>\<open>cw[128]\<close>,
  whatever the path and whatever the kernel answers for the working directory, and it returns a path of
  at most 127 bytes: every access of the model is checked and would otherwise end in \<open>None\<close>.\<close>

theorem rc_abspath_safe: "\<exists>q. rc_abspath os w rel = Some q \<and> length q \<le> 127"
  by (rule rc_abspath_bound)

text \<open>A relative path is resolved against the working directory: the components of the directory
  followed by those of the path, when both fit in the buffer.\<close>

theorem rc_abspath_relative:
  assumes "sys_getcwd os w 128 = (int (length cwd), cwd @ NUL # rest)" "cwd \<noteq> []" "hd cwd = SLASH"
    "NUL \<notin> set cwd" "rel \<noteq> []" "hd rel \<noteq> SLASH" "NUL \<notin> set rel" "length cwd + length rel \<le> 126"
  shows "rc_abspath os w rel = Some (render (resolve (components cwd @ components rel)))"
proof -
  define cw where "cw = take 128 ((cwd @ NUL # rest) @ replicate 128 NUL)"
  have g: "rc_getcwd os w = (int (length cwd), cw)" unfolding cw_def
    unfolding rc_getcwd_def assms(1) Let_def split using assms(8) by (subst to_int32_id) simp_all
  have cw: "int (length cwd) > 0" "cw ! 0 \<noteq> NUL"
    using assms(2-4) by (cases cwd; auto simp: cw_def)+
  have tk: "take (length cwd) cw = cwd" "length cw = 128" "min (length cwd) 127 = length cwd" "length cwd < 128" "cw \<noteq> []"
    using assms(2,8) by (simp_all add: cw_def min_def)
  let ?o2 = "if length cwd < 127 \<and> (cwd = [] \<or> last cwd \<noteq> SLASH) then cwd @ [SLASH] else cwd"
  have o2: "length ?o2 + length rel \<le> 127" "?o2 \<noteq> []" "hd ?o2 = SLASH" "NUL \<notin> set ?o2"
    using assms(2,3,4,8) by auto
  have "rc_abspath os w rel = rc_normalize (cstr_of (?o2 @ take (127 - length ?o2) rel))"
    unfolding rc_abspath_eq g Let_def split using assms(5,6) cw by (simp add: tk)
  also have "\<dots> = rc_normalize (?o2 @ rel)"
    using o2(1,4) assms(7) by (subst cstr_of_id) auto
  also have "\<dots> = Some (render (resolve (components (?o2 @ rel))))"
    using o2 by (intro rc_normalize_correct(1)) (auto simp: hd_append)
  also have "components (?o2 @ rel) = components cwd @ components rel"
  proof (cases "last cwd = SLASH")
    case True
    then obtain c' where c': "cwd = c' @ [SLASH]" using assms(2) by (metis append_butlast_last_id)
    then show ?thesis using components_append [of c' rel] components_append [of c' "[]"] components_Nil [of "[]"] by simp
  next
    case False
    then show ?thesis using components_append [of cwd rel] assms(8) by simp
  qed
  finally show ?thesis .
qed

theorem rc_abspath_relative_witness:
  "rc_abspath (no_os \<lparr> sys_getcwd := \<lambda>w n. (8, ''/usr/lib'' @ NUL # replicate (n - 9) NUL) \<rparr>) () ''../bin/ls''
    = Some ''/usr/bin/ls''"
proof -
  let ?os = "(no_os :: unit os) \<lparr> sys_getcwd := \<lambda>w n. (8, ''/usr/lib'' @ NUL # replicate (n - 9) NUL) \<rparr>"
  have "rc_abspath ?os () ''../bin/ls'' = Some (render (resolve (components ''/usr/lib'' @ components ''../bin/ls'')))"
    by (rule rc_abspath_relative [where rest = "replicate (128 - 9) NUL"]) simp_all
  moreover have "components ''/usr/lib'' = [''usr'', ''lib'']" "components ''../bin/ls'' = [''..'', ''bin'', ''ls'']"
    by (simp_all add: components.simps)
  ultimately show ?thesis by (simp add: resolve_def render_def)
qed

end
