(* ===== verification/RcFs.thy ===== *)
theory RcFs
  imports RcPath
begin

unbundle bit_operations_syntax

text \<open>
  The wire half of \<^verbatim>\<open>src/rc_fs.c\<close>: the path-based file operations, each one IPC exchange with the
  file server (\<^verbatim>\<open>user/fs/fsd.c3\<close>). Request and reply share one buffer of \<open>RC_FS_MSG_MAX\<close> bytes: the
  server-relative path at 0, a 32-bit length at 100, a 32-bit offset at 104, data to write from 108
  (from 104 for the whole-file verb); the reply has a 32-bit result at 0 and data from 4.

  An operation takes the kernel \<open>os\<close> and the world and returns its result and the new world; a read
  also returns the bytes it copies out. The data length is non-negative at every call site.
\<close>

abbreviation (input) RC_FS_READ :: int where "RC_FS_READ \<equiv> 20"
abbreviation (input) RC_FS_WRITE :: int where "RC_FS_WRITE \<equiv> 21"
abbreviation (input) RC_FS_DELETE :: int where "RC_FS_DELETE \<equiv> 22"
abbreviation (input) RC_FS_LIST :: int where "RC_FS_LIST \<equiv> 23"
abbreviation (input) RC_FS_MKDIR :: int where "RC_FS_MKDIR \<equiv> 24"
abbreviation (input) RC_FS_RENAME :: int where "RC_FS_RENAME \<equiv> 25"
abbreviation (input) RC_FS_READ_AT :: int where "RC_FS_READ_AT \<equiv> 26"
abbreviation (input) RC_FS_WRITE_AT :: int where "RC_FS_WRITE_AT \<equiv> 27"
abbreviation (input) RC_FS_STAT :: int where "RC_FS_STAT \<equiv> 28"
abbreviation (input) RC_FS_MSG_MAX :: nat where "RC_FS_MSG_MAX \<equiv> 8192"
abbreviation (input) RC_FS_WRITE_AT_MAXCHUNK :: int where "RC_FS_WRITE_AT_MAXCHUNK \<equiv> 8084"
abbreviation (input) RC_FS_LIST_ENTRY_SIZE :: nat where "RC_FS_LIST_ENTRY_SIZE \<equiv> 36"
abbreviation (input) RC_FS_LIST_NAME_MAX :: nat where "RC_FS_LIST_NAME_MAX \<equiv> 32"
abbreviation (input) RC_FS_LIST_PAGE_MAX :: int where "RC_FS_LIST_PAGE_MAX \<equiv> 227"

text \<open>Stores into and loads from the message buffer.\<close>

definition put_bytes :: "byte list \<Rightarrow> nat \<Rightarrow> byte list \<Rightarrow> byte list" where
  "put_bytes buf off bs = take off buf @ bs @ drop (off + length bs) buf"

definition put_u32 :: "byte list \<Rightarrow> nat \<Rightarrow> int \<Rightarrow> byte list" where
  "put_u32 buf off v = put_bytes buf off (le_bytes 4 (nat (to_u32 v)))"

definition get_u32 :: "byte list \<Rightarrow> nat \<Rightarrow> int" where
  "get_u32 buf off = int (le_nat (take 4 (drop off buf)))"

definition get_i32 :: "byte list \<Rightarrow> nat \<Rightarrow> int" where
  "get_i32 buf off = to_int32 (get_u32 buf off)"

definition rc_ns_translate :: "'w os \<Rightarrow> 'w \<Rightarrow> string \<Rightarrow> int \<Rightarrow> nat \<Rightarrow> int \<times> byte list" where
  "rc_ns_translate os w path mem cap = (let (r, out) = sys_ns_translate os w path mem cap in (to_int32 r, out))"

definition rc_fsd_call :: "'w os \<Rightarrow> 'w \<Rightarrow> int \<Rightarrow> int \<Rightarrow> byte list \<Rightarrow> int \<Rightarrow> (int \<times> byte list \<times> int) \<times> 'w" where
  "rc_fsd_call os w pid verb buf req_len =
     (let packed = push_bit 16 (req_len AND 0xFFFF) OR (int RC_FS_MSG_MAX AND 0xFFFF);
          ((r, buf', rv), w') = sys_ipc_call os w pid verb buf packed
      in ((to_int32 r, buf', rv), w'))"

lemma packed_word: "push_bit 16 ((8192 :: int) AND 0xFFFF) OR (int RC_FS_MSG_MAX AND 0xFFFF) = 536879104"
proof -
  have "(8192 :: int) AND 65535 = 8192" by simp
  moreover have "push_bit 16 (8192 :: int) = 536870912" by simp
  moreover have "(536870912 :: int) OR 8192 = 536879104" by simp
  ultimately show ?thesis by (simp only: of_nat_numeral)
qed

text \<open>The buffer \<open>__rc_abspath\<close> fills; \<open>rc_abspath_bound\<close> shows that it always does.\<close>

definition abspath :: "'w os \<Rightarrow> 'w \<Rightarrow> string \<Rightarrow> string" where
  "abspath os w path = (case rc_abspath os w path of Some q \<Rightarrow> q | None \<Rightarrow> [])"

definition resolve_stripped :: "'w os \<Rightarrow> 'w \<Rightarrow> string \<Rightarrow> int \<times> byte list" where
  "resolve_stripped os w ap =
     (let (pid, out) = rc_ns_translate os w ap 0 100 in if pid < 0 then (-1, out[0 := NUL]) else (pid, out))"

definition resolve_stripped_c :: "'w os \<Rightarrow> 'w \<Rightarrow> string \<Rightarrow> int \<times> byte list" where
  "resolve_stripped_c os w ap =
     (let (pid, out) = rc_ns_translate os w ap (-1) 100 in if pid < 0 then (-1, out[0 := NUL]) else (pid, out))"

text \<open>\<^verbatim>\<open>char req[RC_FS_MSG_MAX]\<close> after its first 100 bytes were filled.\<close>

definition req_buf :: "'w os \<Rightarrow> 'w \<Rightarrow> byte list \<Rightarrow> byte list" where
  "req_buf os w out = out @ drop (length out) (os_uninit os w RC_FS_MSG_MAX)"

definition rc_fs_read_at :: "'w os \<Rightarrow> 'w \<Rightarrow> string \<Rightarrow> int \<Rightarrow> int \<Rightarrow> (int \<times> byte list) \<times> 'w" where
  "rc_fs_read_at os w path len off =
     (let ap = abspath os w path; (pid, out) = resolve_stripped os w ap in
      if pid < 0 then ((-1, []), w)
      else let req = put_u32 (put_u32 (req_buf os w out) 100 len) 104 off;
               ((from, rep, rv), w') = rc_fsd_call os w pid RC_FS_READ_AT req (int RC_FS_MSG_MAX)
           in if from \<le> 0 \<or> rv \<noteq> RC_FS_READ_AT then ((-1, []), w')
              else let result = get_i32 rep 0 in
                   if result < 0 then ((result, []), w')
                   else let n = (if result > len then to_int32 len else result)
                        in ((n, take (nat n) (drop 4 rep)), w'))"

definition rc_fs_write_at :: "'w os \<Rightarrow> 'w \<Rightarrow> string \<Rightarrow> byte list \<Rightarrow> int \<Rightarrow> int \<Rightarrow> int \<times> 'w" where
  "rc_fs_write_at os w path buf len0 off =
     (let ap = abspath os w path; (pid, out) = resolve_stripped_c os w ap in
      if pid < 0 then (-1, w)
      else let len1 = (if len0 < 0 then 0 else len0);
               len = (if len1 > RC_FS_WRITE_AT_MAXCHUNK then RC_FS_WRITE_AT_MAXCHUNK else len1);
               req = put_bytes (put_u32 (put_u32 (req_buf os w out) 100 len) 104 off) 108 (take (nat len) buf);
               ((from, rep, rv), w') = rc_fsd_call os w pid RC_FS_WRITE_AT req (int RC_FS_MSG_MAX)
           in if from \<le> 0 \<or> rv \<noteq> RC_FS_WRITE_AT then (-1, w') else (get_i32 rep 0, w'))"

definition rc_fs_read :: "'w os \<Rightarrow> 'w \<Rightarrow> string \<Rightarrow> int \<Rightarrow> (int \<times> byte list) \<times> 'w" where
  "rc_fs_read os w path len0 =
     (let ap = abspath os w path; (pid, out) = resolve_stripped os w ap in
      if pid < 0 then ((-1, []), w)
      else let len1 = (if len0 < 0 then 0 else len0);
               len = (if len1 > int RC_FS_MSG_MAX - 4 then int RC_FS_MSG_MAX - 4 else len1);
               req = put_u32 (req_buf os w out) 100 len;
               ((from, rep, rv), w') = rc_fsd_call os w pid RC_FS_READ req (int RC_FS_MSG_MAX)
           in if from \<le> 0 \<or> rv \<noteq> RC_FS_READ then ((-1, []), w')
              else let result = get_i32 rep 0 in
                   if result < 0 then ((result, []), w')
                   else let n = (if result > len then to_int32 len else result)
                        in ((n, take (nat n) (drop 4 rep)), w'))"

definition rc_fs_write :: "'w os \<Rightarrow> 'w \<Rightarrow> string \<Rightarrow> byte list \<Rightarrow> int \<Rightarrow> int \<times> 'w" where
  "rc_fs_write os w path buf len0 =
     (let ap = abspath os w path; (pid, out) = resolve_stripped_c os w ap in
      if pid < 0 then (-1, w)
      else let len1 = (if len0 < 0 then 0 else len0);
               len = (if len1 > int RC_FS_MSG_MAX - 104 then int RC_FS_MSG_MAX - 104 else len1);
               req = put_bytes (put_u32 (req_buf os w out) 100 len) 104 (take (nat len) buf);
               ((from, rep, rv), w') = rc_fsd_call os w pid RC_FS_WRITE req (int RC_FS_MSG_MAX)
           in if from \<le> 0 \<or> rv \<noteq> RC_FS_WRITE then (-1, w') else (get_i32 rep 0, w'))"

text \<open>\<open>None\<close> is the result -1; otherwise the result is 0 with the size and the type.\<close>

definition rc_fs_stat :: "'w os \<Rightarrow> 'w \<Rightarrow> string \<Rightarrow> (int \<times> int) option \<times> 'w" where
  "rc_fs_stat os w path =
     (let ap = abspath os w path; (pid, out) = resolve_stripped os w ap in
      if pid < 0 then (None, w)
      else let ((from, rep, rv), w') = rc_fsd_call os w pid RC_FS_STAT (req_buf os w out) (int RC_FS_MSG_MAX)
           in if from \<le> 0 \<or> rv \<noteq> RC_FS_STAT then (None, w')
              else if get_i32 rep 0 < 0 then (None, w')
              else (Some (get_u32 rep 4, ord (rep ! 8)), w'))"

text \<open>The paging loop of \<^verbatim>\<open>__rc_fs_list\<close>: \<open>tot\<close> entries have been copied to \<open>dst\<close>.\<close>

function fs_list_loop :: "'w os \<Rightarrow> 'w \<Rightarrow> int \<Rightarrow> byte list \<Rightarrow> byte list \<Rightarrow> byte list \<Rightarrow> int \<Rightarrow> int \<Rightarrow> (int \<times> byte list) \<times> 'w" where
  "fs_list_loop os w pid stripped req dst tot max_entries =
     (let req1 = put_u32 (put_bytes req 0 (take 99 (cstr_of stripped) @ [NUL])) 104 tot;
          ((from, rep, rv), w') = rc_fsd_call os w pid RC_FS_LIST req1 (int RC_FS_MSG_MAX)
      in if from \<le> 0 \<or> rv \<noteq> RC_FS_LIST then ((if tot > 0 then tot else -1, dst), w')
         else let page = get_i32 rep 0 in
              if page < 0 then ((if tot > 0 then tot else page, dst), w')
              else let tk = (if page > max_entries - tot then max_entries - tot else page);
                       dst' = dst @ take (nat tk * RC_FS_LIST_ENTRY_SIZE) (drop 4 rep);
                       tot' = tot + tk
                   in if page < RC_FS_LIST_PAGE_MAX \<or> tot' \<ge> max_entries then ((tot', dst'), w')
                      else fs_list_loop os w' pid stripped rep dst' tot' max_entries)"
  by pat_completeness auto
termination by (relation "measure (\<lambda>(_, _, _, _, _, _, tot, m). nat (m - tot))") auto

declare fs_list_loop.simps [simp del]

definition rc_fs_list :: "'w os \<Rightarrow> 'w \<Rightarrow> string \<Rightarrow> int \<Rightarrow> (int \<times> byte list) \<times> 'w" where
  "rc_fs_list os w path max_entries =
     (let ap = abspath os w path; (pid, stripped) = resolve_stripped os w ap in
      if pid < 0 then ((-1, []), w)
      else fs_list_loop os w pid stripped (os_uninit os w RC_FS_MSG_MAX) [] 0 max_entries)"

definition simple_verb :: "'w os \<Rightarrow> 'w \<Rightarrow> string \<Rightarrow> int \<Rightarrow> int \<Rightarrow> bool \<Rightarrow> int \<times> 'w" where
  "simple_verb os w path verb aux_at_100 create =
     (let ap = abspath os w path;
          (pid, out) = (if create then resolve_stripped_c os w ap else resolve_stripped os w ap)
      in if pid < 0 then (-1, w)
         else let req = put_u32 (req_buf os w out) 100 aux_at_100;
                  ((from, rep, rv), w') = rc_fsd_call os w pid verb req (int RC_FS_MSG_MAX)
              in if from \<le> 0 \<or> rv \<noteq> verb then (-1, w') else (get_i32 rep 0, w'))"

definition rc_fs_mkdir :: "'w os \<Rightarrow> 'w \<Rightarrow> string \<Rightarrow> int \<times> 'w" where
  "rc_fs_mkdir os w path = simple_verb os w path RC_FS_MKDIR 0 True"

definition rc_fs_delete :: "'w os \<Rightarrow> 'w \<Rightarrow> string \<Rightarrow> int \<Rightarrow> int \<times> 'w" where
  "rc_fs_delete os w path recur = simple_verb os w path RC_FS_DELETE recur False"

definition rc_fs_rename :: "'w os \<Rightarrow> 'w \<Rightarrow> string \<Rightarrow> string \<Rightarrow> int \<times> 'w" where
  "rc_fs_rename os w oldp newp =
     (let apo = abspath os w oldp; apn = abspath os w newp;
          (pido, so) = resolve_stripped os w apo; (pidn, sn) = resolve_stripped_c os w apn
      in if pido < 0 \<or> pidn < 0 \<or> pido \<noteq> pidn then (-1, w)
         else let req = put_bytes (put_bytes (os_uninit os w RC_FS_MSG_MAX) 0 (take 99 (cstr_of so) @ [NUL]))
                          100 (take 99 (cstr_of sn) @ [NUL]);
                  ((from, rep, rv), w') = rc_fsd_call os w pido RC_FS_RENAME req (int RC_FS_MSG_MAX)
              in if from \<le> 0 \<or> rv \<noteq> RC_FS_RENAME then (-1, w') else (get_i32 rep 0, w'))"

subsection \<open>Message buffers\<close>

lemma length_put_bytes: "off + length bs \<le> length buf \<Longrightarrow> length (put_bytes buf off bs) = length buf"
  by (simp add: put_bytes_def)

lemma length_put_u32: "off + 4 \<le> length buf \<Longrightarrow> length (put_u32 buf off v) = length buf"
  by (simp add: put_u32_def length_put_bytes)

lemma take_put_bytes: "n \<le> off \<Longrightarrow> off \<le> length buf \<Longrightarrow> take n (put_bytes buf off bs) = take n buf"
  by (simp add: put_bytes_def min_def)

lemma take_put_u32: "n \<le> off \<Longrightarrow> off \<le> length buf \<Longrightarrow> take n (put_u32 buf off v) = take n buf"
  by (simp add: put_u32_def take_put_bytes)

lemma drop_put_bytes: "off \<le> length buf \<Longrightarrow> drop off (put_bytes buf off bs) = bs @ drop (off + length bs) buf"
  by (simp add: put_bytes_def)

lemma get_u32_put_u32: "off + 4 \<le> length buf \<Longrightarrow> get_u32 (put_u32 buf off v) off = to_u32 v"
proof -
  assume l: "off + 4 \<le> length buf"
  have "to_u32 v < 2 ^ 32" "0 \<le> to_u32 v" by (simp_all add: to_u32_def)
  then have "nat (to_u32 v) < 256 ^ 4" by simp
  moreover have "take 4 (drop off (put_u32 buf off v)) = le_bytes 4 (nat (to_u32 v))"
    using l by (simp add: put_u32_def drop_put_bytes)
  ultimately show ?thesis using \<open>0 \<le> to_u32 v\<close> by (simp add: get_u32_def le_nat_le_bytes)
qed

lemma get_u32_put_bytes: "off + 4 \<le> off' \<Longrightarrow> off' \<le> length buf \<Longrightarrow> get_u32 (put_bytes buf off' bs) off = get_u32 buf off"
proof -
  assume l: "off + 4 \<le> off'" "off' \<le> length buf"
  then have "take 4 (drop off (put_bytes buf off' bs)) = take 4 (drop off buf)"
    unfolding put_bytes_def by (simp add: take_drop min_def)
  then show ?thesis by (simp add: get_u32_def)
qed

lemma get_u32_put_u32_other: "off + 4 \<le> off' \<Longrightarrow> off' \<le> length buf \<Longrightarrow> get_u32 (put_u32 buf off' v) off = get_u32 buf off"
  by (simp add: put_u32_def get_u32_put_bytes)

lemmas buf_simps = length_put_bytes length_put_u32 take_put_bytes take_put_u32 drop_put_bytes
  get_u32_put_u32 get_u32_put_bytes get_u32_put_u32_other get_i32_def

subsection \<open>The contract the POSIX layer relies on\<close>

text \<open>The bytes of a file after writing \<open>bs\<close> at \<open>off\<close>; a gap is filled with zeros.\<close>

definition overlay :: "byte list \<Rightarrow> nat \<Rightarrow> byte list \<Rightarrow> byte list" where
  "overlay c off bs = take off (c @ replicate (off - length c) NUL) @ bs @ drop (off + length bs) c"

lemma length_overlay: "length (overlay c off bs) = max (length c) (off + length bs)"
  by (auto simp: overlay_def)

lemma overlay_append: "overlay c (length c) bs = c @ bs"
  by (simp add: overlay_def)

lemma overlay_overlay:
  "overlay (overlay c off xs) (off + length xs) ys = overlay c off (xs @ ys)"
  by (auto simp: overlay_def min_def ac_simps)

lemma take_drop_overlay: "take (length bs) (drop off (overlay c off bs)) = bs"
  by (simp add: overlay_def)

text \<open>The file has the bytes \<open>c\<close>; one a write of no bytes was to create has none, whether it exists or not.\<close>

definition has_bytes :: "byte list option \<Rightarrow> byte list \<Rightarrow> bool" where
  "has_bytes f c \<longleftrightarrow> f = Some c \<or> f = None \<and> c = []"

text \<open>
  What the descriptor and stream layers rely on. \<open>P\<close> is a set of paths of regular files, \<open>cont\<close> reads
  their contents from the world, \<open>cap\<close> is the size up to which the server can take a file, \<open>ok\<close> is its
  own invariant. Reads may be short, but only an exhausted file gives nothing; a write must not start
  past the end of the file (no holes) and is complete as long as the file stays within its capacity; a
  write of no bytes to a missing file succeeds, but need not create it.
\<close>

locale fs_store =
  fixes os :: "'w os" and ok :: "'w \<Rightarrow> bool" and cont :: "'w \<Rightarrow> string \<Rightarrow> byte list option"
    and cap :: "'w \<Rightarrow> string \<Rightarrow> nat" and P :: "string set"
  assumes canon: "p \<in> P \<Longrightarrow> abspath os w p = p"
    and cap_bound: "ok w \<Longrightarrow> int (cap w p) < 2 ^ 31"
    and size_law: "ok w \<Longrightarrow> p \<in> P \<Longrightarrow> cont w p = Some c \<Longrightarrow> length c \<le> cap w p"
    and stat_law: "ok w \<Longrightarrow> p \<in> P \<Longrightarrow>
      \<exists>w'. rc_fs_stat os w p = (map_option (\<lambda>c. (int (length c), 0)) (cont w p), w') \<and> cont w' = cont w
        \<and> cap w' = cap w \<and> ok w'"
    and read_law: "ok w \<Longrightarrow> p \<in> P \<Longrightarrow> cont w p = Some c \<Longrightarrow> 0 \<le> len \<Longrightarrow> len < 2 ^ 31 \<Longrightarrow> off < 2 ^ 32 \<Longrightarrow>
      \<exists>k w'. rc_fs_read_at os w p len (int off) = ((int k, take k (drop off c)), w') \<and> cont w' = cont w
        \<and> cap w' = cap w \<and> ok w'
        \<and> int k \<le> len \<and> k \<le> length c - off \<and> (k = 0 \<longrightarrow> len = 0 \<or> length c \<le> off)"
    and write_law: "ok w \<Longrightarrow> p \<in> P \<Longrightarrow> cont w p = Some c \<Longrightarrow> 0 \<le> len \<Longrightarrow> len \<le> int (length bs) \<Longrightarrow>
      len \<le> RC_FS_WRITE_AT_MAXCHUNK \<Longrightarrow> off \<le> length c \<Longrightarrow> off + nat len \<le> cap w p \<Longrightarrow>
      \<exists>w'. rc_fs_write_at os w p bs len (int off) = (len, w') \<and> ok w'
        \<and> cont w' = (cont w)(p \<mapsto> overlay c off (take (nat len) bs)) \<and> cap w p \<le> cap w' p"
    and hole_law: "ok w \<Longrightarrow> p \<in> P \<Longrightarrow> has_bytes (cont w p) c \<Longrightarrow> 0 \<le> len \<Longrightarrow> len \<le> int (length bs) \<Longrightarrow>
      len \<le> RC_FS_WRITE_AT_MAXCHUNK \<Longrightarrow> length c < off \<Longrightarrow> int off < 2 ^ 31 \<Longrightarrow>
      \<exists>r w'. rc_fs_write_at os w p bs len (int off) = (r, w') \<and> r < 0 \<and> ok w' \<and> cont w' = cont w \<and> cap w' = cap w"
    and create_law: "ok w \<Longrightarrow> p \<in> P \<Longrightarrow> cont w p = None \<Longrightarrow> 0 < len \<Longrightarrow> len \<le> int (length bs) \<Longrightarrow>
      len \<le> RC_FS_WRITE_AT_MAXCHUNK \<Longrightarrow> nat len \<le> cap w p \<Longrightarrow>
      \<exists>w'. rc_fs_write_at os w p bs len 0 = (len, w') \<and> ok w' \<and> cont w' = (cont w)(p \<mapsto> take (nat len) bs)
        \<and> cap w p \<le> cap w' p"
    and touch_law: "ok w \<Longrightarrow> p \<in> P \<Longrightarrow> cont w p = None \<Longrightarrow> 0 < cap w p \<Longrightarrow>
      \<exists>w'. rc_fs_write_at os w p bs 0 0 = (0, w') \<and> ok w' \<and> (cont w' = (cont w)(p \<mapsto> []) \<or> cont w' = cont w)
        \<and> cap w p \<le> cap w' p"
    and delete_law: "ok w \<Longrightarrow> p \<in> P \<Longrightarrow> cont w p = Some c \<Longrightarrow>
      \<exists>w'. rc_fs_delete os w p 0 = (0, w') \<and> ok w' \<and> cont w' = (cont w)(p := None) \<and> cap w p \<le> cap w' p"

context fs_store
begin

lemma write_bytes:
  assumes "ok w" "p \<in> P" "has_bytes (cont w p) c" "0 < len" "len \<le> int (length bs)" "len \<le> RC_FS_WRITE_AT_MAXCHUNK"
    "off \<le> length c" "off + nat len \<le> cap w p"
  shows "\<exists>w'. rc_fs_write_at os w p bs len (int off) = (len, w') \<and> ok w'
    \<and> cont w' = (cont w)(p \<mapsto> overlay c off (take (nat len) bs)) \<and> cap w p \<le> cap w' p"
proof (cases "cont w p")
  case None
  then have "c = []" "off = 0" using assms(3,7) by (auto simp: has_bytes_def)
  then show ?thesis using create_law [OF assms(1,2) None assms(4-6)] assms(8) by (simp add: overlay_def)
next
  case (Some c')
  then have "cont w p = Some c" using assms(3) by (simp add: has_bytes_def)
  then show ?thesis using write_law [OF assms(1,2) _ less_imp_le [OF assms(4)] assms(5-8)] by blast
qed

end

subsection \<open>The contract of a file server, on the wire\<close>

text \<open>The canonical paths whose server-relative name fits a request.\<close>

definition fsd_paths :: "string set" where
  "fsd_paths = {p. \<exists>st. p = render st \<and> st \<noteq> [] \<and> plain st \<and> NUL \<notin> set p \<and> length p \<le> 100}"

lemma fsd_paths_cases:
  assumes "p \<in> fsd_paths"
  shows "p = SLASH # tl p" "NUL \<notin> set (tl p)" "length (tl p) \<le> 99" "tl p \<noteq> []" "last (tl p) \<noteq> SLASH"
    "render (resolve (components p)) = p"
proof -
  obtain st where st: "p = render st" "st \<noteq> []" "plain st" "NUL \<notin> set p" "length p \<le> 100"
    using assms by (auto simp: fsd_paths_def)
  show h: "p = SLASH # tl p" using render_hd [of st] st(1) by (metis list.collapse)
  show "NUL \<notin> set (tl p)" using st(4) h by (metis list.set_intros(2))
  show "length (tl p) \<le> 99" using st(5) by simp
  show ne: "tl p \<noteq> []" using st(1-3) by (cases st) (auto simp: render_def plain_def name_ok_def)
  have "last p \<noteq> SLASH" using last_render [OF st(2)] st(1,3) by (auto simp: plain_def)
  then show "last (tl p) \<noteq> SLASH" using ne by (simp add: last_tl)
  have "components p = st" using components_render [of st] st(1,3) by (auto simp: plain_def)
  then show "render (resolve (components p)) = p" using resolve_id [OF st(3)] st(1) by simp
qed

lemma abspath_canon:
  assumes "p \<in> fsd_paths"
  shows "abspath os w p = p"
proof -
  note c = fsd_paths_cases [OF assms]
  obtain n where n: "p = SLASH # n" using c(1) by blast
  then have "length p \<le> 127" using c(3) by simp
  then show ?thesis
    using rc_normalize_correct(1) [of p] c(2,6) n by (simp add: abspath_def rc_abspath_eq cstr_of_id)
qed

lemma to_u32_small: "0 \<le> v \<Longrightarrow> v < 2 ^ 31 \<Longrightarrow> to_u32 v = v"
  by (simp add: to_u32_def)

text \<open>A request buffer for the file named \<open>n\<close>, and the length word of an exchange of whole buffers.\<close>

definition wire_req :: "byte list \<Rightarrow> string \<Rightarrow> bool" where
  "wire_req buf n \<longleftrightarrow> length buf = RC_FS_MSG_MAX \<and> NUL \<in> set (take 100 buf) \<and> cstr_of (take 100 buf) = n"

abbreviation (input) FS_PACKED :: int where "FS_PACKED \<equiv> 536879104"

text \<open>
  The file server as its protocol documents it (\<^verbatim>\<open>user/user.c3\<close>, the \<^verbatim>\<open>FS_READ_AT\<close>, \<^verbatim>\<open>FS_WRITE_AT\<close> and
  \<^verbatim>\<open>FS_STAT\<close> comments; \<^verbatim>\<open>user/fs/fsd.c3\<close> and its backends), in terms of request and reply buffers:
  the kernel resolves a path of \<open>P\<close> to the pid \<open>srv p\<close> and the name \<open>fname p\<close>; \<^verbatim>\<open>FS_READ_AT\<close> answers
  with some of the bytes at the offset and with 0 only at the end; \<^verbatim>\<open>FS_WRITE_AT\<close> overwrites or appends,
  but answers -1 to an offset past the current size; on a missing file it creates (offset 0), where a
  request of no bytes may leave the file missing, as \<^verbatim>\<open>exfat_write_at\<close> does; \<^verbatim>\<open>FS_STAT\<close> gives size and
  type; \<^verbatim>\<open>FS_DELETE\<close> removes the file. \<open>cap w p\<close> is how large the file can become before space runs
  out, where the backends write short.
\<close>

locale file_server =
  fixes os :: "'w os" and ok :: "'w \<Rightarrow> bool" and cont :: "'w \<Rightarrow> string \<Rightarrow> byte list option"
    and cap :: "'w \<Rightarrow> string \<Rightarrow> nat" and P :: "string set" and srv :: "string \<Rightarrow> int" and fname :: "string \<Rightarrow> string"
  assumes paths: "P \<subseteq> fsd_paths"
    and uninit: "length (os_uninit os w n) = n"
    and resolves: "p \<in> P \<Longrightarrow> m \<in> {0, -1} \<Longrightarrow> \<exists>out. sys_ns_translate os w p m 100 = (srv p, out)
      \<and> length out = 100 \<and> NUL \<in> set out \<and> cstr_of out = fname p"
    and pid: "p \<in> P \<Longrightarrow> 0 < srv p \<and> srv p < 2 ^ 31"
    and capacity: "ok w \<Longrightarrow> int (cap w p) < 2 ^ 31"
    and size: "ok w \<Longrightarrow> p \<in> P \<Longrightarrow> cont w p = Some c \<Longrightarrow> length c \<le> cap w p"
    and stat_wire: "ok w \<Longrightarrow> p \<in> P \<Longrightarrow> wire_req buf (fname p) \<Longrightarrow>
      \<exists>rep w'. sys_ipc_call os w (srv p) RC_FS_STAT buf FS_PACKED = ((srv p, rep, RC_FS_STAT), w')
        \<and> (case cont w p of None \<Rightarrow> get_i32 rep 0 < 0
            | Some c \<Rightarrow> get_i32 rep 0 = 0 \<and> get_u32 rep 4 = int (length c) \<and> rep ! 8 = NUL)
        \<and> cont w' = cont w \<and> cap w' = cap w \<and> ok w'"
    and read_wire: "ok w \<Longrightarrow> p \<in> P \<Longrightarrow> cont w p = Some c \<Longrightarrow> wire_req buf (fname p) \<Longrightarrow>
      get_u32 buf 100 = len \<Longrightarrow> len < 2 ^ 31 \<Longrightarrow> get_u32 buf 104 = int off \<Longrightarrow>
      \<exists>k rep w'. sys_ipc_call os w (srv p) RC_FS_READ_AT buf FS_PACKED = ((srv p, rep, RC_FS_READ_AT), w')
        \<and> get_i32 rep 0 = int k \<and> take k (drop 4 rep) = take k (drop off c)
        \<and> int k \<le> len \<and> k \<le> length c - off \<and> (k = 0 \<longrightarrow> len = 0 \<or> length c \<le> off)
        \<and> cont w' = cont w \<and> cap w' = cap w \<and> ok w'"
    and write_wire: "ok w \<Longrightarrow> p \<in> P \<Longrightarrow> cont w p = Some c \<Longrightarrow> wire_req buf (fname p) \<Longrightarrow>
      get_u32 buf 100 = int n \<Longrightarrow> int n \<le> RC_FS_WRITE_AT_MAXCHUNK \<Longrightarrow> get_u32 buf 104 = int off \<Longrightarrow>
      off \<le> length c \<Longrightarrow> off + n \<le> cap w p \<Longrightarrow>
      \<exists>rep w'. sys_ipc_call os w (srv p) RC_FS_WRITE_AT buf FS_PACKED = ((srv p, rep, RC_FS_WRITE_AT), w')
        \<and> get_i32 rep 0 = int n \<and> ok w' \<and> cont w' = (cont w)(p \<mapsto> overlay c off (take n (drop 108 buf)))
        \<and> cap w p \<le> cap w' p"
    and hole_wire: "ok w \<Longrightarrow> p \<in> P \<Longrightarrow> has_bytes (cont w p) c \<Longrightarrow> wire_req buf (fname p) \<Longrightarrow>
      get_u32 buf 100 = int n \<Longrightarrow> int n \<le> RC_FS_WRITE_AT_MAXCHUNK \<Longrightarrow> get_u32 buf 104 = int off \<Longrightarrow>
      length c < off \<Longrightarrow> int off < 2 ^ 31 \<Longrightarrow>
      \<exists>rep w'. sys_ipc_call os w (srv p) RC_FS_WRITE_AT buf FS_PACKED = ((srv p, rep, RC_FS_WRITE_AT), w')
        \<and> get_i32 rep 0 < 0 \<and> cont w' = cont w \<and> cap w' = cap w \<and> ok w'"
    and create_wire: "ok w \<Longrightarrow> p \<in> P \<Longrightarrow> cont w p = None \<Longrightarrow> wire_req buf (fname p) \<Longrightarrow>
      get_u32 buf 100 = int n \<Longrightarrow> 0 < n \<Longrightarrow> int n \<le> RC_FS_WRITE_AT_MAXCHUNK \<Longrightarrow> get_u32 buf 104 = 0 \<Longrightarrow> n \<le> cap w p \<Longrightarrow>
      \<exists>rep w'. sys_ipc_call os w (srv p) RC_FS_WRITE_AT buf FS_PACKED = ((srv p, rep, RC_FS_WRITE_AT), w')
        \<and> get_i32 rep 0 = int n \<and> ok w' \<and> cont w' = (cont w)(p \<mapsto> take n (drop 108 buf)) \<and> cap w p \<le> cap w' p"
    and touch_wire: "ok w \<Longrightarrow> p \<in> P \<Longrightarrow> cont w p = None \<Longrightarrow> wire_req buf (fname p) \<Longrightarrow>
      get_u32 buf 100 = 0 \<Longrightarrow> get_u32 buf 104 = 0 \<Longrightarrow> 0 < cap w p \<Longrightarrow>
      \<exists>rep w'. sys_ipc_call os w (srv p) RC_FS_WRITE_AT buf FS_PACKED = ((srv p, rep, RC_FS_WRITE_AT), w')
        \<and> get_i32 rep 0 = 0 \<and> ok w' \<and> (cont w' = (cont w)(p \<mapsto> []) \<or> cont w' = cont w) \<and> cap w p \<le> cap w' p"
    and delete_wire: "ok w \<Longrightarrow> p \<in> P \<Longrightarrow> cont w p = Some c \<Longrightarrow> wire_req buf (fname p) \<Longrightarrow> get_u32 buf 100 = 0 \<Longrightarrow>
      \<exists>rep w'. sys_ipc_call os w (srv p) RC_FS_DELETE buf FS_PACKED = ((srv p, rep, RC_FS_DELETE), w')
        \<and> get_i32 rep 0 = 0 \<and> ok w' \<and> cont w' = (cont w)(p := None) \<and> cap w p \<le> cap w' p"

context file_server
begin

text \<open>What the C side puts on the wire, and what it makes of the reply.\<close>

lemma resolve_wire:
  assumes "p \<in> P"
  shows "\<exists>out. resolve_stripped os w p = (srv p, out) \<and> length out = 100 \<and> NUL \<in> set out \<and> cstr_of out = fname p"
    "\<exists>out. resolve_stripped_c os w p = (srv p, out) \<and> length out = 100 \<and> NUL \<in> set out \<and> cstr_of out = fname p"
  using resolves [OF assms, of 0 w] resolves [OF assms, of "-1" w] pid [OF assms]
  by (auto simp: resolve_stripped_def resolve_stripped_c_def rc_ns_translate_def)

lemma call_wire:
  assumes "p \<in> P" "sys_ipc_call os w (srv p) verb buf FS_PACKED = ((srv p, rep, rv), w')"
  shows "rc_fsd_call os w (srv p) verb buf 8192 = ((srv p, rep, rv), w')"
  unfolding rc_fsd_call_def packed_word Let_def assms(2) split using pid [OF assms(1)] by simp

lemma pid_pos: "p \<in> P \<Longrightarrow> \<not> srv p < 0 \<and> \<not> srv p \<le> 0"
  using pid [of p] by simp

lemma canonical: "p \<in> P \<Longrightarrow> abspath os w p = p"
  by (rule abspath_canon) (rule subsetD [OF paths])

lemma length_req_buf: "length out = 100 \<Longrightarrow> length (req_buf os w out) = 8192"
  by (simp add: req_buf_def uninit)

lemma wire_reqI:
  assumes "length out = 100" "NUL \<in> set out" "cstr_of out = fname p" "length buf = 8192" "take 100 buf = take 100 (req_buf os w out)"
  shows "wire_req buf (fname p)"
  using assms by (simp add: wire_req_def req_buf_def)

lemma serve_stat:
  assumes "ok w" "p \<in> P"
  shows "\<exists>w'. rc_fs_stat os w p = (map_option (\<lambda>c. (int (length c), 0)) (cont w p), w') \<and> cont w' = cont w
    \<and> cap w' = cap w \<and> ok w'"
proof -
  obtain out where out: "resolve_stripped os w p = (srv p, out)" "length out = 100" "NUL \<in> set out" "cstr_of out = fname p"
    using resolve_wire(1) [OF assms(2)] by blast
  have "wire_req (req_buf os w out) (fname p)" by (rule wire_reqI [OF out(2-4)]) (simp_all add: length_req_buf out)
  from stat_wire [OF assms this] obtain rep w' where r:
      "sys_ipc_call os w (srv p) RC_FS_STAT (req_buf os w out) FS_PACKED = ((srv p, rep, RC_FS_STAT), w')"
      "case cont w p of None \<Rightarrow> get_i32 rep 0 < 0 | Some c \<Rightarrow> get_i32 rep 0 = 0 \<and> get_u32 rep 4 = int (length c) \<and> rep ! 8 = NUL"
      "cont w' = cont w" "cap w' = cap w" "ok w'" by blast
  show ?thesis
    using r pid_pos [OF assms(2)] by (intro exI [of _ w'])
      (simp add: rc_fs_stat_def canonical [OF assms(2)] out(1) Let_def call_wire [OF assms(2) r(1)] split: option.splits)
qed

lemma serve_read:
  assumes "ok w" "p \<in> P" "cont w p = Some c" "0 \<le> len" "len < 2 ^ 31" "off < 2 ^ 32"
  shows "\<exists>k w'. rc_fs_read_at os w p len (int off) = ((int k, take k (drop off c)), w') \<and> cont w' = cont w
    \<and> cap w' = cap w \<and> ok w' \<and> int k \<le> len \<and> k \<le> length c - off \<and> (k = 0 \<longrightarrow> len = 0 \<or> length c \<le> off)"
proof -
  obtain out where out: "resolve_stripped os w p = (srv p, out)" "length out = 100" "NUL \<in> set out" "cstr_of out = fname p"
    using resolve_wire(1) [OF assms(2)] by blast
  let ?b = "put_u32 (put_u32 (req_buf os w out) 100 len) 104 (int off)"
  have l: "length (req_buf os w out) = 8192" by (rule length_req_buf [OF out(2)])
  have "wire_req ?b (fname p)" by (rule wire_reqI [OF out(2-4)]) (use l in \<open>simp_all add: buf_simps\<close>)
  moreover have "get_u32 ?b 100 = len" "get_u32 ?b 104 = int off" using assms(4-6) l by (simp_all add: buf_simps to_u32_def)
  ultimately obtain k rep w' where r:
      "sys_ipc_call os w (srv p) RC_FS_READ_AT ?b FS_PACKED = ((srv p, rep, RC_FS_READ_AT), w')"
      "get_i32 rep 0 = int k" "take k (drop 4 rep) = take k (drop off c)" "int k \<le> len" "k \<le> length c - off"
      "k = 0 \<longrightarrow> len = 0 \<or> length c \<le> off" "cont w' = cont w" "cap w' = cap w" "ok w'"
    using read_wire [OF assms(1-3) _ _ assms(5)] by blast
  show ?thesis
    using r pid_pos [OF assms(2)] by (intro exI [of _ k] exI [of _ w'])
      (simp add: rc_fs_read_at_def canonical [OF assms(2)] out(1) Let_def call_wire [OF assms(2) r(1)])
qed

text \<open>The request of \<open>rc_fs_write_at\<close>.\<close>

lemma write_request:
  assumes "p \<in> P" "0 \<le> len" "len \<le> int (length bs)" "len \<le> RC_FS_WRITE_AT_MAXCHUNK" "int off < 2 ^ 31"
  shows "\<exists>buf. wire_req buf (fname p) \<and> get_u32 buf 100 = int (nat len) \<and> get_u32 buf 104 = int off
    \<and> take (nat len) (drop 108 buf) = take (nat len) bs
    \<and> (\<forall>rep w'. sys_ipc_call os w (srv p) RC_FS_WRITE_AT buf FS_PACKED = ((srv p, rep, RC_FS_WRITE_AT), w') \<longrightarrow>
      rc_fs_write_at os w p bs len (int off) = (get_i32 rep 0, w'))"
proof -
  obtain out where out: "resolve_stripped_c os w p = (srv p, out)" "length out = 100" "NUL \<in> set out" "cstr_of out = fname p"
    using resolve_wire(2) [OF assms(1)] by blast
  let ?b = "put_bytes (put_u32 (put_u32 (req_buf os w out) 100 len) 104 (int off)) 108 (take (nat len) bs)"
  have l: "length (req_buf os w out) = 8192" by (rule length_req_buf [OF out(2)])
  have lb: "length ?b = 8192" using l assms(4) by (subst length_put_bytes) (auto simp: buf_simps)
  have "wire_req ?b (fname p)" by (rule wire_reqI [OF out(2-4) lb]) (use l in \<open>simp add: buf_simps\<close>)
  moreover have "get_u32 ?b 100 = int (nat len)" "get_u32 ?b 104 = int off"
    using assms(2,4,5) l by (simp_all add: buf_simps to_u32_def)
  moreover have "take (nat len) (drop 108 ?b) = take (nat len) bs" using assms(2,3) l by (simp add: buf_simps)
  moreover have "rc_fs_write_at os w p bs len (int off) = (get_i32 rep 0, w')"
    if "sys_ipc_call os w (srv p) RC_FS_WRITE_AT ?b FS_PACKED = ((srv p, rep, RC_FS_WRITE_AT), w')" for rep w'
    using pid_pos [OF assms(1)] assms(2,4)
    by (simp add: rc_fs_write_at_def canonical [OF assms(1)] out(1) Let_def call_wire [OF assms(1) that])
  ultimately show ?thesis by blast
qed

end

context file_server
begin

lemma serve_write:
  assumes "ok w" "p \<in> P" "cont w p = Some c" "0 \<le> len" "len \<le> int (length bs)" "len \<le> RC_FS_WRITE_AT_MAXCHUNK"
    "off \<le> length c" "off + nat len \<le> cap w p"
  shows "\<exists>w'. rc_fs_write_at os w p bs len (int off) = (len, w') \<and> ok w'
    \<and> cont w' = (cont w)(p \<mapsto> overlay c off (take (nat len) bs)) \<and> cap w p \<le> cap w' p"
proof -
  have o31: "int off < 2 ^ 31" using capacity [OF assms(1), of p] assms(8) by linarith
  obtain buf where b: "wire_req buf (fname p)" "get_u32 buf 100 = int (nat len)"
    "get_u32 buf 104 = int off" "take (nat len) (drop 108 buf) = take (nat len) bs"
    "\<forall>rep w'. sys_ipc_call os w (srv p) RC_FS_WRITE_AT buf FS_PACKED = ((srv p, rep, RC_FS_WRITE_AT), w') \<longrightarrow>
      rc_fs_write_at os w p bs len (int off) = (get_i32 rep 0, w')" using write_request [OF assms(2,4,5,6) o31] by blast
  have "int (nat len) \<le> RC_FS_WRITE_AT_MAXCHUNK" using assms(4,6) by simp
  from write_wire [OF assms(1-3) b(1,2) this b(3) assms(7,8)] obtain rep w' where
    "sys_ipc_call os w (srv p) RC_FS_WRITE_AT buf FS_PACKED = ((srv p, rep, RC_FS_WRITE_AT), w')" "get_i32 rep 0 = int (nat len)"
    "ok w'" "cont w' = (cont w)(p \<mapsto> overlay c off (take (nat len) (drop 108 buf)))" "cap w p \<le> cap w' p" by blast
  with b(5) assms(4) show ?thesis unfolding b(4) by (intro exI [of _ w']) simp
qed

lemma serve_hole:
  assumes "ok w" "p \<in> P" "has_bytes (cont w p) c" "0 \<le> len" "len \<le> int (length bs)" "len \<le> RC_FS_WRITE_AT_MAXCHUNK"
    "length c < off" "int off < 2 ^ 31"
  shows "\<exists>r w'. rc_fs_write_at os w p bs len (int off) = (r, w') \<and> r < 0 \<and> ok w' \<and> cont w' = cont w \<and> cap w' = cap w"
proof -
  obtain buf where b: "wire_req buf (fname p)" "get_u32 buf 100 = int (nat len)"
    "get_u32 buf 104 = int off"
    "take (nat len) (drop 108 buf) = take (nat len) bs"
    "\<forall>rep w'. sys_ipc_call os w (srv p) RC_FS_WRITE_AT buf FS_PACKED = ((srv p, rep, RC_FS_WRITE_AT), w') \<longrightarrow>
      rc_fs_write_at os w p bs len (int off) = (get_i32 rep 0, w')" using write_request [OF assms(2,4,5,6,8)] by blast
  have "int (nat len) \<le> RC_FS_WRITE_AT_MAXCHUNK" using assms(4,6) by simp
  from hole_wire [OF assms(1-3) b(1,2) this b(3) assms(7,8)] b(5) show ?thesis by blast
qed

lemma serve_create:
  assumes "ok w" "p \<in> P" "cont w p = None" "0 < len" "len \<le> int (length bs)" "len \<le> RC_FS_WRITE_AT_MAXCHUNK"
    "nat len \<le> cap w p"
  shows "\<exists>w'. rc_fs_write_at os w p bs len 0 = (len, w') \<and> ok w' \<and> cont w' = (cont w)(p \<mapsto> take (nat len) bs)
    \<and> cap w p \<le> cap w' p"
proof -
  have o31: "int 0 < 2 ^ 31" by simp
  obtain buf where b: "wire_req buf (fname p)"
    "get_u32 buf 100 = int (nat len)" "get_u32 buf 104 = int 0" "take (nat len) (drop 108 buf) = take (nat len) bs"
    "\<forall>rep w'. sys_ipc_call os w (srv p) RC_FS_WRITE_AT buf FS_PACKED = ((srv p, rep, RC_FS_WRITE_AT), w') \<longrightarrow>
      rc_fs_write_at os w p bs len (int 0) = (get_i32 rep 0, w')" using write_request [OF assms(2) less_imp_le [OF assms(4)] assms(5,6) o31] by blast
  have "int (nat len) \<le> RC_FS_WRITE_AT_MAXCHUNK" "0 < nat len" "get_u32 buf 104 = 0" using assms(4,6) b(3) by simp_all
  from create_wire [OF assms(1-3) b(1,2) this(2,1,3) assms(7)] obtain rep w' where
    "sys_ipc_call os w (srv p) RC_FS_WRITE_AT buf FS_PACKED = ((srv p, rep, RC_FS_WRITE_AT), w')" "get_i32 rep 0 = int (nat len)"
    "ok w'" "cont w' = (cont w)(p \<mapsto> take (nat len) (drop 108 buf))" "cap w p \<le> cap w' p" by blast
  with b(5) assms(4) show ?thesis unfolding b(4) by (intro exI [of _ w']) simp
qed

lemma serve_touch:
  assumes "ok w" "p \<in> P" "cont w p = None" "0 < cap w p"
  shows "\<exists>w'. rc_fs_write_at os w p bs 0 0 = (0, w') \<and> ok w' \<and> (cont w' = (cont w)(p \<mapsto> []) \<or> cont w' = cont w)
    \<and> cap w p \<le> cap w' p"
proof -
  have z: "(0 :: int) \<le> 0" "0 \<le> int (length bs)" "0 \<le> RC_FS_WRITE_AT_MAXCHUNK" "int 0 < 2 ^ 31" by simp_all
  obtain buf where b: "wire_req buf (fname p)"
    "get_u32 buf 100 = int (nat 0)" "get_u32 buf 104 = int 0"
    "take (nat 0) (drop 108 buf) = take (nat 0) bs"
    "\<forall>rep w'. sys_ipc_call os w (srv p) RC_FS_WRITE_AT buf FS_PACKED = ((srv p, rep, RC_FS_WRITE_AT), w') \<longrightarrow>
      rc_fs_write_at os w p bs 0 (int 0) = (get_i32 rep 0, w')" using write_request [OF assms(2) z] by blast
  have "get_u32 buf 100 = 0" "get_u32 buf 104 = 0" using b(2,3) by simp_all
  from touch_wire [OF assms(1-3) b(1) this assms(4)] obtain rep w' where
    "sys_ipc_call os w (srv p) RC_FS_WRITE_AT buf FS_PACKED = ((srv p, rep, RC_FS_WRITE_AT), w')" "get_i32 rep 0 = 0"
    "ok w'" "cont w' = (cont w)(p \<mapsto> []) \<or> cont w' = cont w" "cap w p \<le> cap w' p" by blast
  with b(5) show ?thesis by (intro exI [of _ w']) simp
qed

lemma serve_delete:
  assumes "ok w" "p \<in> P" "cont w p = Some c"
  shows "\<exists>w'. rc_fs_delete os w p 0 = (0, w') \<and> ok w' \<and> cont w' = (cont w)(p := None) \<and> cap w p \<le> cap w' p"
proof -
  obtain out where out: "resolve_stripped os w p = (srv p, out)" "length out = 100" "NUL \<in> set out" "cstr_of out = fname p"
    using resolve_wire(1) [OF assms(2)] by blast
  let ?b = "put_u32 (req_buf os w out) 100 0"
  have l: "length (req_buf os w out) = 8192" by (rule length_req_buf [OF out(2)])
  have "wire_req ?b (fname p)" by (rule wire_reqI [OF out(2-4)]) (use l in \<open>simp_all add: buf_simps\<close>)
  moreover have "get_u32 ?b 100 = 0" using l by (simp add: buf_simps to_u32_def)
  ultimately obtain rep w' where r: "sys_ipc_call os w (srv p) RC_FS_DELETE ?b FS_PACKED = ((srv p, rep, RC_FS_DELETE), w')"
      "get_i32 rep 0 = 0" "ok w'" "cont w' = (cont w)(p := None)" "cap w p \<le> cap w' p"
    using delete_wire [OF assms] by blast
  show ?thesis
    using r pid_pos [OF assms(2)] by (intro exI [of _ w'])
      (simp add: rc_fs_delete_def simple_verb_def canonical [OF assms(2)] out(1) Let_def call_wire [OF assms(2) r(1)])
qed

text \<open>So the C side over a documented server gives the layers above their contract.\<close>

lemma store: "fs_store os ok cont cap P"
  by unfold_locales
    (rule canonical capacity size serve_stat serve_read serve_write serve_hole serve_create serve_touch serve_delete; assumption)+

end

sublocale file_server \<subseteq> fs_store os ok cont cap P
  by (rule store)

subsection \<open>A reference server\<close>

text \<open>
  The dispatch of \<^verbatim>\<open>user/fs/fsd.c3\<close> over a flat in-memory store of regular files: name from bytes
  0..99 with trailing slashes cut, length clamped to the message, offset \<^verbatim>\<open>FS_OFFSET_APPEND\<close> read as
  the current size; a write past the end is refused, one past \<open>fsw_max\<close> is short, and with \<open>fsw_lazy\<close> a
  write of no bytes creates nothing (\<^verbatim>\<open>exfat_write_at\<close>), otherwise an empty file (\<^verbatim>\<open>fat32_write_at\<close>,
  \<^verbatim>\<open>ext2_write_at\<close>). It shows that the contract can be met by a server that speaks the wire format.
\<close>

record fsw =
  fsw_files :: "string \<Rightarrow> byte list option"
  fsw_cwd :: string
  fsw_in :: "byte list"
  fsw_out :: "byte list"
  fsw_max :: nat
  fsw_lazy :: bool

definition fsd_name :: "byte list \<Rightarrow> string" where
  "fsd_name buf = rev (dropWhile (\<lambda>c. c = SLASH) (rev (cstr_of (take 99 buf))))"

definition fsd_len :: "byte list \<Rightarrow> nat \<Rightarrow> nat" where
  "fsd_len buf lim = (let n = get_i32 buf 100 in if n < 0 then 0 else min (nat n) lim)"

definition fsd_write_at :: "fsw \<Rightarrow> string \<Rightarrow> byte list \<Rightarrow> nat \<Rightarrow> int \<times> fsw" where
  "fsd_write_at w name d off =
     (case fsw_files w name of
        None \<Rightarrow> if off \<noteq> 0 then (-1, w)
          else if d = [] \<and> fsw_lazy w then (0, w)
          else let k = min (length d) (fsw_max w) in (int k, w \<lparr> fsw_files := (fsw_files w)(name \<mapsto> take k d) \<rparr>)
      | Some c \<Rightarrow> if length c < off then (-1, w)
          else let k = min (length d) (fsw_max w - off)
               in (int k, w \<lparr> fsw_files := (fsw_files w)(name \<mapsto> overlay c off (take k d)) \<rparr>))"

definition fsd_serve :: "fsw \<Rightarrow> int \<Rightarrow> byte list \<Rightarrow> byte list \<times> fsw" where
  "fsd_serve w verb buf =
     (let name = fsd_name buf; off = nat (get_u32 buf 104); file = fsw_files w name in
      if verb = RC_FS_READ_AT then
        (case file of None \<Rightarrow> (put_u32 buf 0 (-1), w)
         | Some c \<Rightarrow> let d = take (fsd_len buf 8188) (drop off c)
                     in (put_bytes (put_u32 buf 0 (int (length d))) 4 d, w))
      else if verb = RC_FS_WRITE_AT then
        (let off' = (if off = 2 ^ 32 - 1 then (case file of Some c \<Rightarrow> length c | None \<Rightarrow> 0) else off);
             (r, w') = fsd_write_at w name (take (fsd_len buf 8084) (drop 108 buf)) off'
         in (put_u32 buf 0 r, w'))
      else if verb = RC_FS_STAT then
        (case file of None \<Rightarrow> (put_u32 buf 0 (-1), w)
         | Some c \<Rightarrow> ((put_u32 (put_u32 buf 0 0) 4 (int (length c)))[8 := NUL], w))
      else if verb = RC_FS_DELETE then
        (case file of None \<Rightarrow> (put_u32 buf 0 (-1), w)
         | Some c \<Rightarrow> (put_u32 buf 0 0, w \<lparr> fsw_files := (fsw_files w)(name := None) \<rparr>))
      else (put_u32 buf 0 (-1), w))"

definition pad_to :: "nat \<Rightarrow> byte list \<Rightarrow> byte list" where
  "pad_to n s = take (n - 1) s @ replicate (n - length (take (n - 1) s)) NUL"

definition fsd_os :: "fsw os" where
  "fsd_os = no_os \<lparr> sys_getcwd := (\<lambda>w n. (int (length (fsw_cwd w)), pad_to n (fsw_cwd w))),
     sys_chdir := (\<lambda>w p. (0, w \<lparr> fsw_cwd := p \<rparr>)),
     sys_ns_translate := (\<lambda>w p k n. if p \<noteq> [] \<and> hd p = SLASH then (5, pad_to n (tl p)) else (-1, replicate n NUL)),
     sys_ipc_call := (\<lambda>w pid verb buf packed.
        if pid = 5 then (let (rep, w') = fsd_serve w verb buf in ((5, rep, verb), w')) else ((-1, buf, 0), w)),
     sys_write := (\<lambda>w b. (int (length b), w \<lparr> fsw_out := fsw_out w @ b \<rparr>)),
     sys_getchar := (\<lambda>w. case fsw_in w of [] \<Rightarrow> (-1, w) | c # cs \<Rightarrow> (ord c, w \<lparr> fsw_in := cs \<rparr>)) \<rparr>"

definition fsd_ok :: "fsw \<Rightarrow> bool" where
  "fsd_ok w \<longleftrightarrow> int (fsw_max w) < 2 ^ 31 \<and> (\<forall>n c. fsw_files w n = Some c \<longrightarrow> length c \<le> fsw_max w)"

definition fsd_cont :: "fsw \<Rightarrow> string \<Rightarrow> byte list option" where
  "fsd_cont w p = (if p \<in> fsd_paths then fsw_files w (tl p) else None)"

definition fsd_cap :: "fsw \<Rightarrow> string \<Rightarrow> nat" where
  "fsd_cap w p = fsw_max w"

lemma length_pad_to [simp]: "0 < n \<Longrightarrow> length (pad_to n s) = n"
  by (auto simp: pad_to_def)

lemma cstr_of_take: "cstr_of (take n s) = take n (cstr_of s)"
proof (induction s arbitrary: n)
  case (Cons c s)
  then show ?case by (cases n) (auto simp: cstr_of_def)
qed (simp add: cstr_of_def)

lemma pad_to_name:
  assumes "NUL \<notin> set n" "length n \<le> 99"
  shows "cstr_of (pad_to 100 n) = n" "NUL \<in> set (pad_to 100 n)"
proof -
  have "100 - length n = Suc (99 - length n)" using assms(2) by simp
  then have "pad_to 100 n = n @ NUL # replicate (99 - length n) NUL" using assms(2) by (simp add: pad_to_def)
  then show "cstr_of (pad_to 100 n) = n" "NUL \<in> set (pad_to 100 n)" using assms(1) by (simp_all add: cstr_of_append)
qed

lemma fsd_name_req:
  assumes "p \<in> fsd_paths" "wire_req buf (tl p)"
  shows "fsd_name buf = tl p"
proof -
  note c = fsd_paths_cases [OF assms(1)]
  have "cstr_of (take 99 buf) = take 99 (cstr_of (take 100 buf))" by (simp add: cstr_of_take)
  also have "\<dots> = tl p" using assms(2) c(3) by (simp add: wire_req_def)
  finally have "cstr_of (take 99 buf) = tl p" .
  moreover have "dropWhile (\<lambda>c. c = SLASH) (rev (tl p)) = rev (tl p)"
    using c(4,5) by (cases "tl p" rule: rev_cases) auto
  ultimately show ?thesis by (simp add: fsd_name_def)
qed

lemma fsd_cont_upd:
  assumes "p \<in> fsd_paths"
  shows "fsd_cont (w \<lparr> fsw_files := (fsw_files w)(tl p := x) \<rparr>) = (fsd_cont w)(p := x)"
proof
  fix q
  have "tl q = tl p \<Longrightarrow> q = p" if "q \<in> fsd_paths"
    using fsd_paths_cases(1) [OF that] fsd_paths_cases(1) [OF assms] by metis
  then show "fsd_cont (w \<lparr> fsw_files := (fsw_files w)(tl p := x) \<rparr>) q = ((fsd_cont w)(p := x)) q"
    using assms by (auto simp: fsd_cont_def)
qed

lemma fsd_call:
  "sys_ipc_call fsd_os w 5 verb buf packed = (let (rep, w') = fsd_serve w verb buf in ((5, rep, verb), w'))"
  by (simp add: fsd_os_def)

lemma fsd_len_exact: "get_u32 buf 100 = int n \<Longrightarrow> n \<le> lim \<Longrightarrow> int n < 2 ^ 31 \<Longrightarrow> fsd_len buf lim = n"
  by (simp add: fsd_len_def get_i32_def)

lemma fsd_stat_reply:
  assumes "fsd_ok w" "p \<in> fsd_paths" "wire_req buf (tl p)"
  shows "\<exists>rep. fsd_serve w RC_FS_STAT buf = (rep, w)
    \<and> (case fsd_cont w p of None \<Rightarrow> get_i32 rep 0 < 0
       | Some c \<Rightarrow> get_i32 rep 0 = 0 \<and> get_u32 rep 4 = int (length c) \<and> rep ! 8 = NUL)"
proof (cases "fsw_files w (tl p)")
  case None
  then show ?thesis
    using assms by (simp add: fsd_serve_def fsd_name_req fsd_cont_def wire_req_def buf_simps to_u32_def to_int32_def)
next
  case (Some c)
  have sz: "int (length c) < 2 ^ 31" using assms(1) Some by (fastforce simp: fsd_ok_def)
  have lb: "length buf = 8192" using assms(3) by (simp add: wire_req_def)
  let ?b = "put_u32 (put_u32 buf 0 0) 4 (int (length c))"
  have g: "get_u32 (?b[8 := NUL]) 0 = get_u32 ?b 0" "get_u32 (?b[8 := NUL]) 4 = get_u32 ?b 4"
    by (simp_all add: get_u32_def drop_update_swap)
  have "length ?b = 8192" "get_u32 ?b 0 = 0" "get_u32 ?b 4 = int (length c)"
    using sz lb by (simp_all add: buf_simps to_u32_def)
  then show ?thesis
    using Some assms by (simp add: fsd_serve_def fsd_name_req fsd_cont_def get_i32_def g)
qed

lemma fsd_read_reply:
  assumes "fsd_ok w" "p \<in> fsd_paths" "fsd_cont w p = Some c" "wire_req buf (tl p)" "get_u32 buf 100 = len"
    "len < 2 ^ 31" "get_u32 buf 104 = int off"
  defines "k \<equiv> min (min (nat len) 8188) (length c - off)"
  shows "\<exists>rep. fsd_serve w RC_FS_READ_AT buf = (rep, w) \<and> get_i32 rep 0 = int k \<and> take k (drop 4 rep) = take k (drop off c)"
proof -
  let ?d = "take (min (nat len) 8188) (drop off c)"
  let ?rep = "put_bytes (put_u32 buf 0 (int (length ?d))) 4 ?d"
  have c: "fsw_files w (tl p) = Some c" using assms(2,3) by (simp add: fsd_cont_def)
  have lb: "length buf = 8192" using assms(4) by (simp add: wire_req_def)
  have "0 \<le> len" unfolding assms(5) [symmetric] by (simp add: get_u32_def)
  then have ln: "fsd_len buf 8188 = min (nat len) 8188" using assms(5,6) by (simp add: fsd_len_def get_i32_def)
  have sv: "fsd_serve w RC_FS_READ_AT buf = (?rep, w)"
    unfolding fsd_serve_def fsd_name_req [OF assms(2,4)] ln Let_def c assms(7) by simp
  have lk: "length ?d = k" by (simp add: k_def)
  have "int k < 2 ^ 31" by (simp add: k_def)
  then have "get_i32 ?rep 0 = int k" unfolding lk using lb by (simp add: buf_simps to_u32_small)
  moreover have "take k (drop 4 ?rep) = ?d" using lb lk by (subst drop_put_bytes) (simp_all add: buf_simps del: take_take)
  moreover have "?d = take k (drop off c)" unfolding k_def by (metis length_drop take_take min.commute take_all_iff linear min_def)
  ultimately show ?thesis using sv by (intro exI [of _ ?rep]) simp
qed

lemma fsd_write_reply:
  assumes "p \<in> fsd_paths" "wire_req buf (tl p)" "get_u32 buf 100 = int n" "int n \<le> RC_FS_WRITE_AT_MAXCHUNK"
    "get_u32 buf 104 = int off" "int off < 2 ^ 31"
  shows "fsd_serve w RC_FS_WRITE_AT buf =
    (let (r, w') = fsd_write_at w (tl p) (take n (drop 108 buf)) off in (put_u32 buf 0 r, w'))"
proof -
  have "fsd_len buf 8084 = n" by (rule fsd_len_exact [OF assms(3)]) (use assms(4) in simp_all)
  moreover have "off \<noteq> 2 ^ 32 - 1" using assms(6) by auto
  ultimately show ?thesis
    unfolding fsd_serve_def fsd_name_req [OF assms(1,2)] assms(5) by (simp add: Let_def)
qed

lemma reply_u32:
  "wire_req buf n \<Longrightarrow> 0 \<le> v \<Longrightarrow> v < 2 ^ 31 \<Longrightarrow> get_i32 (put_u32 buf 0 v) 0 = v"
  "wire_req buf n \<Longrightarrow> get_i32 (put_u32 buf 0 (-1)) 0 = -1"
  by (simp_all add: wire_req_def buf_simps to_u32_small) (simp add: to_u32_def to_int32_def)

lemma length_payload: "wire_req buf m \<Longrightarrow> int n \<le> RC_FS_WRITE_AT_MAXCHUNK \<Longrightarrow> length (take n (drop 108 buf)) = n"
  by (simp add: wire_req_def)

lemma fsd_cap_upd [simp]: "fsd_cap (w \<lparr> fsw_files := f \<rparr>) = fsd_cap w"
  by (simp add: fsd_cap_def fun_eq_iff)

lemma fsd_ok_upd:
  "fsd_ok w \<Longrightarrow> (\<And>c. x = Some c \<Longrightarrow> length c \<le> fsw_max w) \<Longrightarrow> fsd_ok (w \<lparr> fsw_files := (fsw_files w)(n := x) \<rparr>)"
  by (auto simp: fsd_ok_def)

lemma fsd_writes:
  assumes "fsd_ok w" "p \<in> fsd_paths" "fsd_cont w p = f" "wire_req buf (tl p)" "get_u32 buf 100 = int n"
    "int n \<le> RC_FS_WRITE_AT_MAXCHUNK" "get_u32 buf 104 = int off" "int off < 2 ^ 31"
  shows "\<exists>rep w'. fsd_serve w RC_FS_WRITE_AT buf = (rep, w') \<and> fsd_ok w' \<and> fsd_cap w' = fsd_cap w
    \<and> (case f of
         Some c \<Rightarrow> if length c < off then get_i32 rep 0 < 0 \<and> w' = w
           else off + n \<le> fsd_cap w p \<longrightarrow> get_i32 rep 0 = int n
             \<and> fsd_cont w' = (fsd_cont w)(p \<mapsto> overlay c off (take n (drop 108 buf)))
       | None \<Rightarrow> if off \<noteq> 0 then get_i32 rep 0 < 0 \<and> w' = w
           else n \<le> fsd_cap w p \<longrightarrow> get_i32 rep 0 = int n
             \<and> (fsd_cont w' = (fsd_cont w)(p \<mapsto> take n (drop 108 buf)) \<or> n = 0 \<and> fsd_cont w' = fsd_cont w))"
proof -
  let ?d = "take n (drop 108 buf)"
  have ld: "length ?d = n" by (rule length_payload [OF assms(4,6)])
  have f: "fsw_files w (tl p) = f" using assms(2,3) by (simp add: fsd_cont_def)
  obtain r w' where rw: "fsd_write_at w (tl p) ?d off = (r, w')" by force
  have sv: "fsd_serve w RC_FS_WRITE_AT buf = (put_u32 buf 0 r, w')"
    using fsd_write_reply [OF assms(2,4-8)] rw by simp
  have m: "int (fsw_max w) < 2 ^ 31" using assms(1) by (simp add: fsd_ok_def)
  have n: "int n < 2 ^ 31" using assms(6) by simp
  show ?thesis
  proof (cases f)
    case None
    then show ?thesis
      using rw f sv ld assms(1) n
      by (auto simp: fsd_write_at_def fsd_cap_def fsd_cont_upd [OF assms(2)] reply_u32 [OF assms(4)] Let_def min_def
          intro!: fsd_ok_upd split: if_splits)
  next
    case (Some c)
    then have c: "length c \<le> fsw_max w" using f assms(1) by (simp add: fsd_ok_def)
    have ov: "length (overlay c off (take (min n (fsw_max w - off)) ?d)) \<le> fsw_max w" if "off \<le> length c"
      using that c ld by (auto simp: length_overlay)
    show ?thesis
    proof (cases "length c < off")
      case True
      then show ?thesis using rw f sv Some assms(1) by (auto simp: fsd_write_at_def reply_u32 [OF assms(4)])
    next
      case False
      let ?k = "min n (fsw_max w - off)"
      have w': "r = int ?k" "w' = w \<lparr> fsw_files := (fsw_files w)(tl p \<mapsto> overlay c off (take ?k ?d)) \<rparr>"
        using rw f Some False unfolding fsd_write_at_def ld by (simp_all add: Let_def)
      have "fsd_ok w'" unfolding w'(2) using ov False by (intro fsd_ok_upd [OF assms(1)]) simp
      moreover have "?k = n" if "off + n \<le> fsd_cap w p" using that by (simp add: fsd_cap_def)
      moreover have "fsd_cont w' = (fsd_cont w)(p \<mapsto> overlay c off (take ?k ?d))"
        unfolding w'(2) by (rule fsd_cont_upd [OF assms(2)])
      moreover have "fsd_cap w' = fsd_cap w" unfolding w'(2) by simp
      ultimately show ?thesis
        using sv w'(1) False n Some reply_u32(1) [OF assms(4), of r] by (intro exI [of _ "put_u32 buf 0 r"] exI [of _ w']) auto
    qed
  qed
qed

lemma fsd_delete_reply:
  assumes "fsd_ok w" "p \<in> fsd_paths" "fsd_cont w p = Some c" "wire_req buf (tl p)"
  shows "fsd_serve w RC_FS_DELETE buf = (put_u32 buf 0 0, w \<lparr> fsw_files := (fsw_files w)(tl p := None) \<rparr>)"
  using assms(2,3) by (simp add: fsd_serve_def fsd_name_req [OF assms(2,4)] fsd_cont_def)

interpretation fsd: file_server fsd_os fsd_ok fsd_cont fsd_cap fsd_paths "\<lambda>p. 5" tl
proof (unfold_locales, goal_cases)
  case (2 w n)
  then show ?case by (simp add: fsd_os_def no_os_def)
next
  case (3 p m w)
  obtain n where n: "p = SLASH # n" using fsd_paths_cases(1) [OF 3(1)] by blast
  then show ?case using pad_to_name [OF fsd_paths_cases(2,3) [OF 3(1)]] by (simp add: fsd_os_def)
next
  case (5 w p)
  then show ?case by (simp add: fsd_ok_def fsd_cap_def)
next
  case (6 w p c)
  then show ?case by (auto simp: fsd_ok_def fsd_cont_def fsd_cap_def)
next
  case (7 w p buf)
  then show ?case using fsd_stat_reply [OF 7] by (auto simp: fsd_call)
next
  case (8 w p c buf len off)
  have "int (min (min (nat len) 8188) (length c - off)) \<le> len" using 8(5) by (simp add: get_u32_def flip: 8(5))
  moreover have "min (min (nat len) 8188) (length c - off) = 0 \<longrightarrow> len = 0 \<or> length c \<le> off"
    using 8(5) by (auto simp: get_u32_def min_def split: if_splits)
  ultimately show ?case using fsd_read_reply [OF 8(1-7)] 8(1)
    by (intro exI [of _ "min (min (nat len) 8188) (length c - off)"]) (auto simp: fsd_call)
next
  case (9 w p c buf n off)
  then have "int off < 2 ^ 31" by (auto simp: fsd_ok_def fsd_cap_def)
  from fsd_writes [OF 9(1-7) this] 9(8,9) show ?case by (auto simp: fsd_call)
next
  case (10 w p c buf n off)
  from fsd_writes [OF 10(1,2) refl 10(4-7,9)] 10(3,8) show ?case
    by (auto simp: fsd_call has_bytes_def split: option.splits)
next
  case (11 w p buf n)
  have "get_u32 buf 104 = int 0" "int 0 < 2 ^ 31" using 11(8) by simp_all
  from fsd_writes [OF 11(1-5,7) this] 11(6,9) show ?case by (auto simp: fsd_call)
next
  case (12 w p buf)
  have z: "get_u32 buf 100 = int 0" "int 0 \<le> RC_FS_WRITE_AT_MAXCHUNK" "get_u32 buf 104 = int 0" "int 0 < 2 ^ 31"
    using 12(5,6) by simp_all
  from fsd_writes [OF 12(1-4) z] show ?case by (auto simp: fsd_call)
next
  case (13 w p c buf)
  have "fsd_ok (w \<lparr> fsw_files := (fsw_files w)(tl p := None) \<rparr>)" using 13(1) by (intro fsd_ok_upd) simp_all
  then show ?case
    using fsd_delete_reply [OF 13(1-4)] fsd_cont_upd [OF 13(2), of w None] reply_u32(1) [OF 13(4), of 0] by (simp add: fsd_call)
qed simp_all

subsection \<open>Properties\<close>

text \<open>C11: a chunk written at or before the end of a file and read back, each through one exchange of message
  buffers with a documented file server, returns the same bytes, and the rest of the file and all other
  files are as before: the request fields the C side encodes are the ones the server decodes. The
  server is given by its wire laws on request and reply buffers (\<open>file_server\<close>).\<close>

theorem fs_write_read_roundtrip:
  assumes "file_server os ok cont cap P srv fname" "ok w" "p \<in> P" "cont w p = Some c" "bs \<noteq> []"
    "int (length bs) \<le> RC_FS_WRITE_AT_MAXCHUNK" "off \<le> length c" "off + length bs \<le> cap w p"
  shows "\<exists>w1. rc_fs_write_at os w p bs (int (length bs)) (int off) = (int (length bs), w1)
    \<and> cont w1 p = Some (overlay c off bs) \<and> (\<forall>q. q \<noteq> p \<longrightarrow> cont w1 q = cont w q)
    \<and> (\<exists>k w2. rc_fs_read_at os w1 p (int (length bs)) (int off) = ((int k, take k bs), w2) \<and> 0 < k \<and> k \<le> length bs)"
proof -
  note st = file_server.store [OF assms(1)]
  obtain w1 where w1: "rc_fs_write_at os w p bs (int (length bs)) (int off) = (int (length bs), w1)" "ok w1"
      "cont w1 = (cont w)(p \<mapsto> overlay c off bs)"
    using fs_store.write_law [OF st assms(2-4) _ _ assms(6,7), of bs] assms(8) by auto
  let ?c = "overlay c off bs"
  have len: "off + length bs \<le> length ?c" by (simp add: length_overlay)
  have "int (off + length bs) < 2 ^ 31" using fs_store.cap_bound [OF st assms(2), of p] assms(8) by linarith
  then have "0 \<le> int (length bs)" "int (length bs) < 2 ^ 31" "off < 2 ^ 32" by auto
  moreover have "cont w1 p = Some ?c" using w1(3) by simp
  ultimately obtain k w2 where k: "rc_fs_read_at os w1 p (int (length bs)) (int off) = ((int k, take k (drop off ?c)), w2)"
      "int k \<le> int (length bs)" "k = 0 \<longrightarrow> int (length bs) = 0 \<or> length ?c \<le> off"
    using fs_store.read_law [OF st w1(2) assms(3)] by blast
  have "0 < length bs" using assms(5) by simp
  then have "0 < k" using k(3) len by (cases "k = 0") linarith+
  moreover have "take k (drop off ?c) = take k bs"
    using take_drop_overlay [of bs off c] k(2) by (metis min_def of_nat_le_iff take_take)
  ultimately show ?thesis using w1 k by (intro exI [of _ w1]) auto
qed

theorem fs_write_read_roundtrip_witness:
  "\<exists>w1. rc_fs_write_at fsd_os \<lparr> fsw_files = [''motd'' \<mapsto> ''hello'' ], fsw_cwd = ''/'', fsw_in = [], fsw_out = [],
      fsw_max = 65536, fsw_lazy = False \<rparr> ''/motd'' ''XY'' 2 1 = (2, w1)
    \<and> fsd_cont w1 ''/motd'' = Some ''hXYlo''"
proof -
  let ?w = "\<lparr> fsw_files = [''motd'' \<mapsto> ''hello'' ], fsw_cwd = ''/'', fsw_in = [], fsw_out = [], fsw_max = 65536, fsw_lazy = False \<rparr>"
  have p: "''/motd'' \<in> fsd_paths"
    unfolding fsd_paths_def by (auto intro!: exI [of _ "[''motd'']"] simp: render_def plain_def name_ok_def)
  then have "fsd_ok ?w" "fsd_cont ?w ''/motd'' = Some ''hello''" by (simp_all add: fsd_ok_def fsd_cont_def)
  moreover have "int (length ''XY'') \<le> RC_FS_WRITE_AT_MAXCHUNK" "1 \<le> length ''hello''"
    "1 + length ''XY'' \<le> fsd_cap ?w ''/motd''" "''XY'' \<noteq> []"
    by (simp_all add: fsd_cap_def)
  ultimately obtain w1 where "rc_fs_write_at fsd_os ?w ''/motd'' ''XY'' (int (length ''XY'')) (int 1) = (int (length ''XY''), w1)"
      "fsd_cont w1 ''/motd'' = Some (overlay ''hello'' 1 ''XY'')"
    using fs_write_read_roundtrip [OF fsd.file_server_axioms _ p, of ?w "''hello''" "''XY''" 1] by blast
  then show ?thesis by (simp add: overlay_def)
qed

end
