(* ===== verification/RcPosix.thy ===== *)
theory RcPosix
  imports RcFs
begin

unbundle bit_operations_syntax

text \<open>
  The file-descriptor layer of \<^verbatim>\<open>src/rc_posix.c\<close>: the table of 64 entries, \<open>open\<close>, \<open>close\<close>, \<open>read\<close>,
  \<open>write\<close>, \<open>lseek\<close>, \<open>dup\<close>, \<open>dup2\<close>, \<open>fcntl\<close>, \<open>isatty\<close>, \<open>pread\<close>, \<open>pwrite\<close>.

  The state \<open>px\<close> holds the static table, \<^verbatim>\<open>errno\<close>, the counter of the temporary names and the world
  behind the system calls. An operation returns its C result and the new state; a read also returns
  the bytes it stored in the caller's buffer. Offsets are \<^verbatim>\<open>unsigned long\<close>: naturals reduced modulo
  \<open>2 ^ 64\<close>. The operations on sockets are the hooks of \<^verbatim>\<open>rc_socket.c\<close>, a record argument.
\<close>

datatype fkind = K_FREE | K_CONSOLE | K_FILE | K_NET

record fdent =
  kind :: fkind
  fflags :: int
  foff :: nat
  fpath :: string

record 'w px =
  fdtab :: "fdent list"
  fdtab_inited :: bool
  errno :: int
  tmp_counter :: nat
  world :: 'w

record 'w netops =
  net_read :: "'w px \<Rightarrow> nat \<Rightarrow> nat \<Rightarrow> (int \<times> byte list) \<times> 'w px"
  net_write :: "'w px \<Rightarrow> nat \<Rightarrow> byte list \<Rightarrow> int \<times> 'w px"
  net_close :: "'w px \<Rightarrow> nat \<Rightarrow> 'w px"

abbreviation (input) FD_MAX :: nat where "FD_MAX \<equiv> 64"

abbreviation (input) O_WRONLY :: int where "O_WRONLY \<equiv> 1"
abbreviation (input) O_RDWR :: int where "O_RDWR \<equiv> 2"
abbreviation (input) O_CREAT :: int where "O_CREAT \<equiv> 64"
abbreviation (input) O_EXCL :: int where "O_EXCL \<equiv> 128"
abbreviation (input) O_TRUNC :: int where "O_TRUNC \<equiv> 512"
abbreviation (input) O_APPEND :: int where "O_APPEND \<equiv> 1024"
abbreviation (input) O_DIRECTORY :: int where "O_DIRECTORY \<equiv> 65536"

text \<open>\<^verbatim>\<open>flags & bits\<close> as a condition.\<close>

definition has :: "int \<Rightarrow> int \<Rightarrow> bool" where
  "has flags bits \<longleftrightarrow> flags AND bits \<noteq> 0"

definition fail :: "int \<Rightarrow> 'w px \<Rightarrow> int \<times> 'w px" where
  "fail e st = (-1, st \<lparr> errno := e \<rparr>)"

definition fd_init :: "'w px \<Rightarrow> 'w px" where
  "fd_init st = (if fdtab_inited st then st
     else st \<lparr> fdtab := (fdtab st)[0 := (fdtab st ! 0) \<lparr> kind := K_CONSOLE \<rparr>,
                                1 := (fdtab st ! 1) \<lparr> kind := K_CONSOLE \<rparr>,
                                2 := (fdtab st ! 2) \<lparr> kind := K_CONSOLE \<rparr>],
               fdtab_inited := True \<rparr>)"

text \<open>The range checks at the head of the operations.\<close>

definition fd_bad :: "'w px \<Rightarrow> int \<Rightarrow> bool" where
  "fd_bad st fd \<longleftrightarrow> fd < 0 \<or> fd \<ge> int FD_MAX \<or> kind (fdtab st ! nat fd) = K_FREE"

definition fd_not_file :: "'w px \<Rightarrow> int \<Rightarrow> bool" where
  "fd_not_file st fd \<longleftrightarrow> fd < 0 \<or> fd \<ge> int FD_MAX \<or> kind (fdtab st ! nat fd) \<noteq> K_FILE"

text \<open>\<^verbatim>\<open>for (i = 3; i < FD_MAX; i++) if (fdtab[i].kind == K_FREE) return i;\<close>\<close>

fun fd_scan :: "fdent list \<Rightarrow> nat \<Rightarrow> nat \<Rightarrow> nat option" where
  "fd_scan tab i 0 = None"
| "fd_scan tab i (Suc k) = (if kind (tab ! i) = K_FREE then Some i else fd_scan tab (i + 1) k)"

definition fd_alloc :: "'w px \<Rightarrow> int \<times> 'w px" where
  "fd_alloc st0 =
     (let st = fd_init st0 in
      case fd_scan (fdtab st) 3 (FD_MAX - 3) of
        Some i \<Rightarrow> (int i, st)
      | None \<Rightarrow> fail EMFILE st)"

definition rc_fd_new_net :: "'w px \<Rightarrow> string \<Rightarrow> int \<Rightarrow> int \<times> 'w px" where
  "rc_fd_new_net st dir flags =
     (let (fd, st1) = fd_alloc st in
      if fd < 0 then (-1, st1)
      else (fd, st1 \<lparr> fdtab := (fdtab st1)[nat fd := \<lparr> kind = K_NET, fflags = flags, foff = 0, fpath = take 127 dir \<rparr>] \<rparr>))"

text \<open>The conversation directory; the pointers to flags and port are the entry itself.\<close>

definition rc_fd_net_dir :: "'w px \<Rightarrow> int \<Rightarrow> string option \<times> 'w px" where
  "rc_fd_net_dir st0 fd =
     (let st = fd_init st0 in
      (if fd < 0 \<or> fd \<ge> int FD_MAX \<or> kind (fdtab st ! nat fd) \<noteq> K_NET then None
       else Some (fpath (fdtab st ! nat fd)), st))"

text \<open>The middle part of \<open>open\<close>: create, refuse or truncate. \<open>Inl e\<close> is an error return.\<close>

definition open_prepare :: "'w os \<Rightarrow> 'w px \<Rightarrow> string \<Rightarrow> int \<Rightarrow> bool \<Rightarrow> int \<Rightarrow> (int + int) \<times> 'w px" where
  "open_prepare os st ap flags ex sz =
     (if \<not> ex then
        (if \<not> has flags O_CREAT then (Inl ENOENT, st)
         else let (r, w) = rc_fs_write_at os (world st) ap [] 0 0; st1 = st \<lparr> world := w \<rparr>
              in if r < 0 then (Inl EIO, st1) else (Inr 0, st1))
      else if has flags O_CREAT \<and> has flags O_EXCL then (Inl EEXIST, st)
      else if has flags O_TRUNC \<and> has flags (O_WRONLY OR O_RDWR) then
        (let (r0, w0) = rc_fs_delete os (world st) ap 0;
             (r, w) = rc_fs_write_at os w0 ap [] 0 0; st1 = st \<lparr> world := w \<rparr>
         in if r < 0 then (Inl EIO, st1) else (Inr 0, st1))
      else (Inr sz, st))"

text \<open>The last part of \<open>open\<close>: a free slot is filled.\<close>

definition open_install :: "'w px \<Rightarrow> string \<Rightarrow> int \<Rightarrow> int \<Rightarrow> int \<times> 'w px" where
  "open_install st ap flags sz =
     (let (fd, st1) = fd_alloc st in
      if fd < 0 then (-1, st1)
      else (fd, st1 \<lparr> fdtab := (fdtab st1)[nat fd := \<lparr> kind = K_FILE, fflags = flags,
              foff = (if has flags O_APPEND then nat sz else 0), fpath = take 127 ap \<rparr>] \<rparr>))"

definition open_c :: "'w os \<Rightarrow> 'w px \<Rightarrow> string \<Rightarrow> int \<Rightarrow> int \<times> 'w px" where
  "open_c os st0 path flags =
     (let st1 = fd_init st0; ap = abspath os (world st1) path;
          (sr, w1) = rc_fs_stat os (world st1) ap; st2 = st1 \<lparr> world := w1 \<rparr>;
          (sz, type) = (case sr of Some x \<Rightarrow> x | None \<Rightarrow> (0, 0)); ex = (sr \<noteq> None)
      in if has flags O_DIRECTORY \<and> \<not> (ex \<and> type = 1) then fail ENOTDIR st2
         else case open_prepare os st2 ap flags ex sz of
           (Inl e, st3) \<Rightarrow> fail e st3
         | (Inr sz', st3) \<Rightarrow> open_install st3 ap flags sz')"

definition creat :: "'w os \<Rightarrow> 'w px \<Rightarrow> string \<Rightarrow> int \<Rightarrow> int \<times> 'w px" where
  "creat os st path mode = open_c os st path (O_WRONLY OR O_CREAT OR O_TRUNC)"

definition close_c :: "'w netops \<Rightarrow> 'w px \<Rightarrow> int \<Rightarrow> int \<times> 'w px" where
  "close_c net st0 fd =
     (let st = fd_init st0 in
      if fd_bad st fd then fail EBADF st
      else let st1 = (if kind (fdtab st ! nat fd) = K_NET then net_close net st (nat fd) else st);
               st2 = (if fd \<ge> 3 then st1 \<lparr> fdtab := (fdtab st1)[nat fd := (fdtab st1 ! nat fd) \<lparr> kind := K_FREE \<rparr>] \<rparr> else st1)
           in (0, st2))"

definition console_write :: "'w os \<Rightarrow> 'w px \<Rightarrow> byte list \<Rightarrow> int \<times> 'w px" where
  "console_write os st buf =
     (if buf = [] then (0, st)
      else let (r, w) = sys_write os (world st) buf in (if r < 0 then -1 else r, st \<lparr> world := w \<rparr>))"

text \<open>One character at a time, up to \<open>n\<close>, to the end of a line or of the input.\<close>

fun console_read_loop :: "'w os \<Rightarrow> 'w \<Rightarrow> nat \<Rightarrow> byte list \<Rightarrow> byte list \<times> 'w" where
  "console_read_loop os w 0 acc = (acc, w)"
| "console_read_loop os w (Suc n) acc =
     (let (c, w') = sys_getchar os w in
      if c < 0 then (acc, w')
      else if c = 10 \<or> c = 13 then (acc @ [chr c], w')
      else console_read_loop os w' n (acc @ [chr c]))"

definition console_read :: "'w os \<Rightarrow> 'w px \<Rightarrow> nat \<Rightarrow> (int \<times> byte list) \<times> 'w px" where
  "console_read os st n =
     (let (bs, w) = console_read_loop os (world st) n [] in ((int (length bs), bs), st \<lparr> world := w \<rparr>))"

definition add_off :: "'w px \<Rightarrow> nat \<Rightarrow> nat \<Rightarrow> 'w px" where
  "add_off st fd k = st \<lparr> fdtab := (fdtab st)[fd := (fdtab st ! fd) \<lparr> foff := (foff (fdtab st ! fd) + k) mod 2 ^ 64 \<rparr>] \<rparr>"

function read_loop :: "'w os \<Rightarrow> 'w px \<Rightarrow> nat \<Rightarrow> nat \<Rightarrow> nat \<Rightarrow> byte list \<Rightarrow> (int \<times> byte list) \<times> 'w px" where
  "read_loop os st fd cnt don acc =
     (if don < cnt then
        let e = fdtab st ! fd;
            ((got, bs), w) = rc_fs_read_at os (world st) (fpath e) (int (cnt - don)) (int (foff e));
            st1 = st \<lparr> world := w \<rparr>
        in if got < 0 then (if don \<noteq> 0 then ((int don, acc), st1) else ((-1, acc), st1 \<lparr> errno := EIO \<rparr>))
           else if got = 0 then ((int don, acc), st1)
           else read_loop os (add_off st1 fd (nat got)) fd cnt (don + nat got) (acc @ bs)
      else ((int don, acc), st))"
  by pat_completeness auto
termination by (relation "measure (\<lambda>(_, _, _, cnt, don, _). cnt - don)") auto

declare read_loop.simps [simp del]

definition read_c :: "'w os \<Rightarrow> 'w netops \<Rightarrow> 'w px \<Rightarrow> int \<Rightarrow> nat \<Rightarrow> (int \<times> byte list) \<times> 'w px" where
  "read_c os net st0 fd cnt =
     (let st = fd_init st0 in
      if fd_bad st fd then ((-1, []), st \<lparr> errno := EBADF \<rparr>)
      else if kind (fdtab st ! nat fd) = K_CONSOLE then console_read os st cnt
      else if kind (fdtab st ! nat fd) = K_NET then net_read net st (nat fd) cnt
      else read_loop os st (nat fd) cnt 0 [])"

text \<open>\<^verbatim>\<open>if (chunk > RC_FS_WRITE_AT_MAXCHUNK) chunk = RC_FS_WRITE_AT_MAXCHUNK;\<close>\<close>

definition chunk_len :: "int \<Rightarrow> int" where
  "chunk_len n = (if n > RC_FS_WRITE_AT_MAXCHUNK then RC_FS_WRITE_AT_MAXCHUNK else n)"

lemma chunk_len_pos: "0 < n \<Longrightarrow> 0 < chunk_len n \<and> chunk_len n \<le> n \<and> chunk_len n \<le> RC_FS_WRITE_AT_MAXCHUNK"
  by (simp add: chunk_len_def)

function write_loop :: "'w os \<Rightarrow> 'w px \<Rightarrow> nat \<Rightarrow> byte list \<Rightarrow> nat \<Rightarrow> int \<times> 'w px" where
  "write_loop os st fd buf don =
     (if don < length buf then
        let chunk = chunk_len (int (length buf - don));
            e = fdtab st ! fd;
            (k, w) = rc_fs_write_at os (world st) (fpath e) (drop don buf) chunk (int (foff e));
            st1 = st \<lparr> world := w \<rparr>
        in if k < 0 then (if don \<noteq> 0 then (int don, st1) else fail EIO st1)
           else let st2 = add_off st1 fd (nat k); don' = don + nat k
                in if k < chunk then (int don', st2) else write_loop os st2 fd buf don'
      else (int don, st))"
  by pat_completeness auto
termination
proof (relation "measure (\<lambda>(_, _, _, buf, don). length buf - don)", goal_cases)
  case (2 os st fd buf don chunk e r k w st1 st2 don')
  then have "0 < chunk" using chunk_len_pos [of "int (length buf - don)"] by simp
  then have "0 < k" using 2 by simp
  then show ?case using 2 by simp
qed simp

declare write_loop.simps [simp del]

definition write_c :: "'w os \<Rightarrow> 'w netops \<Rightarrow> 'w px \<Rightarrow> int \<Rightarrow> byte list \<Rightarrow> int \<times> 'w px" where
  "write_c os net st0 fd buf =
     (let st = fd_init st0 in
      if fd_bad st fd then fail EBADF st
      else if kind (fdtab st ! nat fd) = K_CONSOLE then console_write os st buf
      else if kind (fdtab st ! nat fd) = K_NET then net_write net st (nat fd) buf
      else write_loop os st (nat fd) buf 0)"

definition set_off :: "'w px \<Rightarrow> nat \<Rightarrow> nat \<Rightarrow> 'w px" where
  "set_off st fd v = st \<lparr> fdtab := (fdtab st)[fd := (fdtab st ! fd) \<lparr> foff := v \<rparr>] \<rparr>"

text \<open>\<^verbatim>\<open>SEEK_SET\<close>, \<^verbatim>\<open>SEEK_CUR\<close> and \<^verbatim>\<open>SEEK_END\<close> are 0, 1 and 2.\<close>

definition lseek :: "'w os \<Rightarrow> 'w px \<Rightarrow> int \<Rightarrow> int \<Rightarrow> int \<Rightarrow> int \<times> 'w px" where
  "lseek os st0 fd offset whence =
     (let st = fd_init st0 in
      if fd_not_file st fd then fail ESPIPE st
      else let (base, st1) =
                 (if whence = 0 then (Inr 0, st)
                  else if whence = 1 then (Inr (int (foff (fdtab st ! nat fd))), st)
                  else if whence = 2 then
                    (let (sr, w) = rc_fs_stat os (world st) (fpath (fdtab st ! nat fd)) in
                     (case sr of None \<Rightarrow> Inl EIO | Some (sz, _) \<Rightarrow> Inr sz, st \<lparr> world := w \<rparr>))
                  else (Inl EINVAL, st))
           in case base of Inl e \<Rightarrow> fail e st1
              | Inr b \<Rightarrow> (let np = to_int64 (to_int64 b + offset) in
                         if np < 0 then fail EINVAL st1 else (np, set_off st1 (nat fd) (nat np))))"

definition dup_c :: "'w px \<Rightarrow> int \<Rightarrow> int \<times> 'w px" where
  "dup_c st0 fd =
     (let st = fd_init st0 in
      if fd_bad st fd then fail EBADF st
      else let (nf, st1) = fd_alloc st in
           if nf < 0 then (-1, st1)
           else (nf, st1 \<lparr> fdtab := (fdtab st1)[nat nf := fdtab st1 ! nat fd] \<rparr>))"

definition dup2 :: "'w px \<Rightarrow> int \<Rightarrow> int \<Rightarrow> int \<times> 'w px" where
  "dup2 st0 oldfd newfd =
     (let st = fd_init st0 in
      if fd_bad st oldfd then fail EBADF st
      else if newfd < 0 \<or> newfd \<ge> int FD_MAX then fail EBADF st
      else if oldfd = newfd then (newfd, st)
      else (newfd, st \<lparr> fdtab := (fdtab st)[nat newfd := fdtab st ! nat oldfd] \<rparr>))"

text \<open>The third component is what \<^verbatim>\<open>F_GETLK\<close> stores in \<^verbatim>\<open>l_type\<close> (\<^verbatim>\<open>F_UNLCK\<close> = 2).\<close>

definition fcntl :: "'w px \<Rightarrow> int \<Rightarrow> int \<Rightarrow> (int \<times> int option) \<times> 'w px" where
  "fcntl st0 fd cmd =
     (let st = fd_init st0 in
      if fd_bad st fd then ((-1, None), st \<lparr> errno := EBADF \<rparr>)
      else if cmd = 3 then ((fflags (fdtab st ! nat fd), None), st)
      else if cmd = 0 then (let (r, st1) = dup_c st fd in ((r, None), st1))
      else if cmd = 5 then ((0, Some 2), st)
      else ((0, None), st))"

definition isatty :: "'w os \<Rightarrow> 'w px \<Rightarrow> int \<Rightarrow> int \<times> 'w px" where
  "isatty os st0 fd =
     (let st = fd_init st0 in
      if fd_bad st fd then (0, st \<lparr> errno := EBADF \<rparr>)
      else if kind (fdtab st ! nat fd) \<noteq> K_CONSOLE then (0, st)
      else if fd = 0 then (to_int32 (sys_stdin_isatty os (world st)), st)
      else (1, st))"

definition pread :: "'w os \<Rightarrow> 'w netops \<Rightarrow> 'w px \<Rightarrow> int \<Rightarrow> nat \<Rightarrow> int \<Rightarrow> (int \<times> byte list) \<times> 'w px" where
  "pread os net st0 fd cnt off =
     (let st = fd_init st0 in
      if fd_not_file st fd
      then ((-1, []), st \<lparr> errno := (if fd \<ge> 0 \<and> fd < int FD_MAX \<and> kind (fdtab st ! nat fd) \<noteq> K_FREE then ESPIPE else EBADF) \<rparr>)
      else if off < 0 then ((-1, []), st \<lparr> errno := EINVAL \<rparr>)
      else let save = foff (fdtab st ! nat fd);
               (r, st1) = read_c os net (set_off st (nat fd) (nat off)) fd cnt
           in (r, set_off st1 (nat fd) save))"

definition pwrite :: "'w os \<Rightarrow> 'w netops \<Rightarrow> 'w px \<Rightarrow> int \<Rightarrow> byte list \<Rightarrow> int \<Rightarrow> int \<times> 'w px" where
  "pwrite os net st0 fd buf off =
     (let st = fd_init st0 in
      if fd_not_file st fd
      then fail (if fd \<ge> 0 \<and> fd < int FD_MAX \<and> kind (fdtab st ! nat fd) \<noteq> K_FREE then ESPIPE else EBADF) st
      else if off < 0 then fail EINVAL st
      else let save = foff (fdtab st ! nat fd);
               (r, st1) = write_c os net (set_off st (nat fd) (nat off)) fd buf
           in (r, set_off st1 (nat fd) save))"

subsection \<open>The table\<close>

text \<open>The invariant: 64 entries, and the console entries are never free once initialised.\<close>

definition px_ok :: "'w px \<Rightarrow> bool" where
  "px_ok st \<longleftrightarrow> length (fdtab st) = FD_MAX \<and> (fdtab_inited st \<longrightarrow> (\<forall>i < 3. kind (fdtab st ! i) \<noteq> K_FREE))"

text \<open>What the hooks of the socket layer promise.\<close>

definition net_ok :: "'w netops \<Rightarrow> bool" where
  "net_ok net \<longleftrightarrow> (\<forall>st fd n. px_ok st \<longrightarrow> px_ok (snd (net_read net st fd n)))
     \<and> (\<forall>st fd bs. px_ok st \<longrightarrow> px_ok (snd (net_write net st fd bs)))
     \<and> (\<forall>st fd. px_ok st \<longrightarrow> px_ok (net_close net st fd))"

lemma less_3: "(i :: nat) < 3 \<longleftrightarrow> i = 0 \<or> i = 1 \<or> i = 2"
  by linarith

lemma px_ok_init [inv_intros]: "px_ok st \<Longrightarrow> px_ok (fd_init st)"
  by (auto simp: px_ok_def fd_init_def nth_list_update less_3)

lemma fd_init_inited [simp]: "fdtab_inited (fd_init st)"
  by (simp add: fd_init_def)

lemma fd_init_idem [simp]: "fdtab_inited st \<Longrightarrow> fd_init st = st"
  by (simp add: fd_init_def)

lemma fd_init_world [simp]: "world (fd_init st) = world st" "errno (fd_init st) = errno st"
  by (simp_all add: fd_init_def)

lemma px_ok_other [simp]:
  "px_ok (st \<lparr> world := w \<rparr>) = px_ok st" "px_ok (st \<lparr> errno := e \<rparr>) = px_ok st" "px_ok (st \<lparr> tmp_counter := n \<rparr>) = px_ok st"
  by (simp_all add: px_ok_def)

lemma px_ok_fail [simp]: "px_ok (snd (fail e st)) = px_ok st"
  by (simp add: fail_def)

lemma px_ok_entry [inv_intros]:
  assumes "px_ok st" "kind e \<noteq> K_FREE \<or> 3 \<le> i"
  shows "px_ok (st \<lparr> fdtab := (fdtab st)[i := e] \<rparr>)"
proof -
  have "kind ((fdtab st)[i := e] ! j) \<noteq> K_FREE" if "fdtab_inited st" "j < 3" for j
    using assms that unfolding px_ok_def by (cases "j = i") auto
  then show ?thesis using assms(1) by (simp add: px_ok_def)
qed

lemma kind_upd_off [simp]: "kind ((fdtab st)[fd := (fdtab st ! fd) \<lparr> foff := v \<rparr>] ! i) = kind (fdtab st ! i)"
proof (cases "fd < length (fdtab st)")
  case True
  then show ?thesis by (cases "i = fd") simp_all
next
  case False
  then have "(fdtab st)[fd := x] = fdtab st" for x by (intro list_update_beyond) simp
  then show ?thesis by simp
qed

lemma px_ok_off:
  assumes "px_ok st"
  shows "px_ok (set_off st fd v)" "px_ok (add_off st fd k)"
  using assms unfolding px_ok_def set_off_def add_off_def by simp_all

lemma fd_scan_None: "fd_scan tab i k = None \<longleftrightarrow> (\<forall>j. i \<le> j \<and> j < i + k \<longrightarrow> kind (tab ! j) \<noteq> K_FREE)"
proof (induction tab i k rule: fd_scan.induct)
  case (2 tab i k)
  have "i \<le> j \<and> j < i + Suc k \<longleftrightarrow> j = i \<or> i + 1 \<le> j \<and> j < i + 1 + k" for j by linarith
  then show ?case using 2 by auto
qed auto

lemma fd_scan_Some:
  "fd_scan tab i k = Some j \<Longrightarrow> i \<le> j \<and> j < i + k \<and> kind (tab ! j) = K_FREE \<and> (\<forall>l. i \<le> l \<and> l < j \<longrightarrow> kind (tab ! l) \<noteq> K_FREE)"
proof (induction tab i k rule: fd_scan.induct)
  case (2 tab i k)
  show ?case
  proof (cases "kind (tab ! i) = K_FREE")
    case False
    then have h: "i + 1 \<le> j \<and> j < i + 1 + k \<and> kind (tab ! j) = K_FREE \<and> (\<forall>l. i + 1 \<le> l \<and> l < j \<longrightarrow> kind (tab ! l) \<noteq> K_FREE)"
      using 2 by simp
    have "i \<le> l \<and> l < j \<longrightarrow> kind (tab ! l) \<noteq> K_FREE" for l using h False by (cases "l = i") auto
    then show ?thesis using h by auto
  qed (use 2 in auto)
qed simp

text \<open>\<open>fd_alloc\<close> returns the lowest free descriptor from 3 on.\<close>

lemma fd_alloc_cases:
  assumes "px_ok st"
  shows "case fd_alloc st of (fd, st') \<Rightarrow>
     (if fd < 0 then fd = -1 \<and> st' = (fd_init st) \<lparr> errno := EMFILE \<rparr> \<and> (\<forall>i. 3 \<le> i \<and> i < FD_MAX \<longrightarrow> kind (fdtab st' ! i) \<noteq> K_FREE)
      else st' = fd_init st \<and> 3 \<le> fd \<and> fd < int FD_MAX \<and> kind (fdtab st' ! nat fd) = K_FREE
         \<and> (\<forall>i. 3 \<le> i \<and> i < nat fd \<longrightarrow> kind (fdtab st' ! i) \<noteq> K_FREE))"
proof (cases "fd_scan (fdtab (fd_init st)) 3 (FD_MAX - 3)")
  case None
  then have "\<forall>j. 3 \<le> j \<and> j < FD_MAX \<longrightarrow> kind (fdtab (fd_init st) ! j) \<noteq> K_FREE" unfolding fd_scan_None by simp
  moreover have "fd_alloc st = (-1, (fd_init st) \<lparr> errno := EMFILE \<rparr>)"
    unfolding fd_alloc_def Let_def None by (simp add: fail_def)
  ultimately show ?thesis by simp
next
  case (Some i)
  then have "fd_alloc st = (int i, fd_init st)" unfolding fd_alloc_def Let_def by simp
  then show ?thesis using fd_scan_Some [OF Some] by simp
qed

lemma px_ok_alloc [inv_intros]: "px_ok st \<Longrightarrow> px_ok (snd (fd_alloc st))"
  by (auto simp: fd_alloc_def Let_def px_ok_init split: option.split)

lemma fd_alloc_ge3: "px_ok st \<Longrightarrow> \<not> fst (fd_alloc st) < 0 \<Longrightarrow> 3 \<le> fst (fd_alloc st)"
  using fd_alloc_cases [of st] by (auto split: prod.splits)

lemma px_ok_prepare: "px_ok st \<Longrightarrow> px_ok (snd (open_prepare os st ap flags ex sz))"
  by (auto simp: open_prepare_def Let_def split: prod.split)

lemma px_ok_install: "px_ok st \<Longrightarrow> px_ok (snd (open_install st ap flags sz))"
  using px_ok_alloc [of st] by (auto simp: open_install_def split: prod.splits intro!: px_ok_entry)

lemma px_ok_open [inv_intros]:
  assumes "px_ok st"
  shows "px_ok (snd (open_c os st path flags))"
proof -
  have "px_ok (snd (case open_prepare os s ap flags ex sz of (Inl e, st3) \<Rightarrow> fail e st3
      | (Inr sz', st3) \<Rightarrow> open_install st3 ap flags sz'))" if "px_ok s" for s ap ex sz
    using px_ok_prepare [OF that, of os ap flags ex sz] px_ok_install by (auto split: prod.splits sum.splits)
  moreover have i: "px_ok ((fd_init st) \<lparr> world := w \<rparr>)" for w using px_ok_init [OF assms] by simp
  moreover obtain sr w1 where r: "rc_fs_stat os (world (fd_init st)) (abspath os (world (fd_init st)) path) = (sr, w1)" by force
  moreover obtain sz ty where "(case sr of Some x \<Rightarrow> x | None \<Rightarrow> (0, 0)) = (sz, ty)" by force
  ultimately show ?thesis
    unfolding open_c_def Let_def by (simp only: split: if_split prod.split) simp
qed

lemma px_ok_close [inv_intros]: "net_ok net \<Longrightarrow> px_ok st \<Longrightarrow> px_ok (snd (close_c net st fd))"
  using px_ok_init [of st] by (auto simp: close_c_def Let_def net_ok_def intro!: px_ok_entry)

lemma read_loop_step:
  assumes "don < cnt" "rc_fs_read_at os (world st) (fpath (fdtab st ! fd)) (int (cnt - don)) (int (foff (fdtab st ! fd))) = ((got, bs), w)"
  shows "read_loop os st fd cnt don acc =
    (if got < 0 then (if don \<noteq> 0 then ((int don, acc), st \<lparr> world := w \<rparr>) else ((-1, acc), st \<lparr> world := w, errno := EIO \<rparr>))
     else if got = 0 then ((int don, acc), st \<lparr> world := w \<rparr>)
     else read_loop os (add_off (st \<lparr> world := w \<rparr>) fd (nat got)) fd cnt (don + nat got) (acc @ bs))"
  using assms by (subst read_loop.simps) (simp add: Let_def)

lemma px_ok_read_loop: "px_ok st \<Longrightarrow> px_ok (snd (read_loop os st fd cnt don acc))"
proof (induction os st fd cnt don acc rule: read_loop.induct)
  case (1 os st fd cnt don acc)
  then show ?case
    by (subst read_loop.simps) (simp add: Let_def px_ok_off split: prod.split)
qed

lemma write_loop_step:
  assumes "don < length buf"
    "rc_fs_write_at os (world st) (fpath (fdtab st ! fd)) (drop don buf) (chunk_len (int (length buf - don)))
       (int (foff (fdtab st ! fd))) = (k, w)"
  shows "write_loop os st fd buf don =
    (if k < 0 then (if don \<noteq> 0 then (int don, st \<lparr> world := w \<rparr>) else fail EIO (st \<lparr> world := w \<rparr>))
     else if k < chunk_len (int (length buf - don)) then (int (don + nat k), add_off (st \<lparr> world := w \<rparr>) fd (nat k))
     else write_loop os (add_off (st \<lparr> world := w \<rparr>) fd (nat k)) fd buf (don + nat k))"
  using assms by (subst write_loop.simps) (simp add: Let_def)

lemma write_loop_done: "length buf \<le> don \<Longrightarrow> write_loop os st fd buf don = (int don, st)"
  by (subst write_loop.simps) simp

lemma px_ok_write_loop: "px_ok st \<Longrightarrow> px_ok (snd (write_loop os st fd buf don))"
proof (induction "length buf - don" arbitrary: st don rule: less_induct)
  case less
  show ?case
  proof (cases "don < length buf")
    case True
    obtain k w where kw: "rc_fs_write_at os (world st) (fpath (fdtab st ! fd)) (drop don buf)
        (chunk_len (int (length buf - don))) (int (foff (fdtab st ! fd))) = (k, w)" by force
    have "px_ok (add_off (st \<lparr> world := w \<rparr>) fd (nat k))" using less.prems by (simp add: px_ok_off)
    moreover have "length buf - (don + nat k) < length buf - don"
      if "\<not> k < chunk_len (int (length buf - don))" using that True chunk_len_pos [of "int (length buf - don)"] by auto
    ultimately show ?thesis
      using less.hyps [of "don + nat k" "add_off (st \<lparr> world := w \<rparr>) fd (nat k)"] less.prems
      unfolding write_loop_step [OF True kw] by simp
  next
    case False
    then show ?thesis using less.prems by (subst write_loop.simps) simp
  qed
qed

lemma px_ok_console [inv_intros]:
  "px_ok st \<Longrightarrow> px_ok (snd (console_read os st n))" "px_ok st \<Longrightarrow> px_ok (snd (console_write os st buf))"
  by (auto simp: console_read_def console_write_def split: prod.split)

lemma px_ok_read [inv_intros]: "net_ok net \<Longrightarrow> px_ok st \<Longrightarrow> px_ok (snd (read_c os net st fd cnt))"
  using px_ok_init [of st] by (simp add: read_c_def Let_def px_ok_console px_ok_read_loop net_ok_def)

lemma px_ok_write [inv_intros]: "net_ok net \<Longrightarrow> px_ok st \<Longrightarrow> px_ok (snd (write_c os net st fd buf))"
  using px_ok_init [of st] by (simp add: write_c_def Let_def px_ok_console px_ok_write_loop net_ok_def)

lemma px_ok_dup2 [inv_intros]: "px_ok st \<Longrightarrow> px_ok (snd (dup2 st a b))"
  using px_ok_init [of st] by (auto simp: dup2_def Let_def fd_bad_def intro!: px_ok_entry)

lemma px_ok_dup [inv_intros]:
  assumes "px_ok st"
  shows "px_ok (snd (dup_c st fd))"
proof -
  have i: "px_ok (fd_init st)" using px_ok_init [OF assms] .
  show ?thesis
    using px_ok_alloc [OF i] fd_alloc_ge3 [OF i] i
    by (auto simp: dup_c_def Let_def split: prod.split intro!: px_ok_entry)
qed

lemma px_ok_lseek [inv_intros]:
  assumes "px_ok st"
  shows "px_ok (snd (lseek os st fd offset whence))"
proof -
  have "px_ok ((fd_init st) \<lparr> world := w \<rparr>)" "px_ok (fd_init st)" for w using px_ok_init [OF assms] by simp_all
  then show ?thesis
    by (auto simp: lseek_def Let_def px_ok_off split: prod.split option.split sum.split)
qed

lemma px_ok_pread [inv_intros]: "net_ok net \<Longrightarrow> px_ok st \<Longrightarrow> px_ok (snd (pread os net st fd cnt off))"
  using px_ok_init [of st] px_ok_read [of net "set_off (fd_init st) (nat fd) (nat off)" os fd cnt]
  by (auto simp: pread_def Let_def px_ok_off split: prod.split)

lemma px_ok_pwrite [inv_intros]: "net_ok net \<Longrightarrow> px_ok st \<Longrightarrow> px_ok (snd (pwrite os net st fd buf off))"
  using px_ok_init [of st] px_ok_write [of net "set_off (fd_init st) (nat fd) (nat off)" os fd buf]
  by (auto simp: pwrite_def Let_def px_ok_off split: prod.split)

lemma px_ok_new_net [inv_intros]: "px_ok st \<Longrightarrow> px_ok (snd (rc_fd_new_net st dir flags))"
  using px_ok_alloc [of st] by (auto simp: rc_fd_new_net_def split: prod.splits intro!: px_ok_entry)

lemma px_ok_fcntl [inv_intros]: "px_ok st \<Longrightarrow> px_ok (snd (fcntl st fd cmd))"
  using px_ok_init [of st] px_ok_dup [of "fd_init st" fd] by (auto simp: fcntl_def Let_def split: prod.split)

subsection \<open>Reading and writing files\<close>

definition file_at :: "'w px \<Rightarrow> nat \<Rightarrow> string \<Rightarrow> nat \<Rightarrow> bool" where
  "file_at st fd p off \<longleftrightarrow> fdtab_inited st \<and> length (fdtab st) = FD_MAX \<and> fd < FD_MAX
     \<and> kind (fdtab st ! fd) = K_FILE \<and> fpath (fdtab st ! fd) = p \<and> foff (fdtab st ! fd) = off"

text \<open>Moving a file's offset and changing the world, nothing else.\<close>

definition moved :: "'w px \<Rightarrow> nat \<Rightarrow> nat \<Rightarrow> 'w \<Rightarrow> 'w px" where
  "moved st fd off w = (set_off st fd off) \<lparr> world := w \<rparr>"

lemma moved_moved [simp]: "moved (moved st fd a w) fd b w' = moved st fd b w'"
  by (cases "fd < length (fdtab st)") (simp_all add: moved_def set_off_def list_update_beyond)

lemma moved_world [simp]: "world (moved st fd off w) = w"
  by (simp add: moved_def)

lemma moved_same: "foff (fdtab st ! fd) = off \<Longrightarrow> moved st fd off w = st \<lparr> world := w \<rparr>"
proof -
  assume "foff (fdtab st ! fd) = off"
  then have "(fdtab st ! fd) \<lparr> foff := off \<rparr> = fdtab st ! fd" by auto
  then show ?thesis by (simp add: moved_def set_off_def)
qed

lemma add_off_moved:
  "foff (fdtab st ! fd) + k < 2 ^ 64 \<Longrightarrow> add_off (st \<lparr> world := w \<rparr>) fd k = moved st fd (foff (fdtab st ! fd) + k) w"
  by (simp add: moved_def add_off_def set_off_def)

lemma file_at_moved: "file_at st fd p off \<Longrightarrow> file_at (moved st fd off' w) fd p off'"
  by (simp add: file_at_def moved_def set_off_def)

lemma file_at_not_bad: "file_at st fd p off \<Longrightarrow> \<not> fd_bad st (int fd) \<and> \<not> fd_not_file st (int fd)"
  by (simp add: file_at_def fd_bad_def fd_not_file_def)

context fs_store
begin

lemma file_size: "ok w \<Longrightarrow> p \<in> P \<Longrightarrow> cont w p = Some c \<Longrightarrow> int (length c) < 2 ^ 31"
  using size_law [of w p c] cap_bound [of w p] by linarith

lemma read_loop_file:
  assumes "ok (world st)" "p \<in> P" "cont (world st) p = Some c" "file_at st fd p off" "off < 2 ^ 32" "don \<le> cnt" "int cnt < 2 ^ 31"
  shows "\<exists>w'. read_loop os st fd cnt don acc =
      ((int (don + min (cnt - don) (length c - off)), acc @ take (cnt - don) (drop off c)),
       moved st fd (off + min (cnt - don) (length c - off)) w')
    \<and> ok w' \<and> cont w' = cont (world st) \<and> cap w' = cap (world st)"
  using assms
proof (induction "cnt - don" arbitrary: st off don acc rule: less_induct)
  case less
  have fa: "fpath (fdtab st ! fd) = p" "foff (fdtab st ! fd) = off" using less.prems(4) by (simp_all add: file_at_def)
  show ?case
  proof (cases "don < cnt")
    case False
    then have "read_loop os st fd cnt don acc = ((int don, acc), moved st fd off (world st))"
      unfolding moved_same [OF fa(2)] by (subst read_loop.simps) simp
    then show ?thesis using False less.prems(1) by auto
  next
    case True
    have sz: "int (length c) < 2 ^ 31" using file_size less.prems(1-3) by blast
    have "0 \<le> int (cnt - don)" "int (cnt - don) < 2 ^ 31" using less.prems(7) by auto
    then obtain k w where k: "rc_fs_read_at os (world st) p (int (cnt - don)) (int off) = ((int k, take k (drop off c)), w)"
        "cont w = cont (world st)" "ok w" "int k \<le> int (cnt - don)" "k \<le> length c - off"
        "k = 0 \<longrightarrow> int (cnt - don) = 0 \<or> length c \<le> off" "cap w = cap (world st)"
      using read_law [OF less.prems(1-3) _ _ less.prems(5)] by blast
    show ?thesis
    proof (cases "k = 0")
      case z: True
      then have "length c \<le> off" using k(6) True by simp
      moreover have "read_loop os st fd cnt don acc = ((int don, acc), moved st fd off w)"
        unfolding moved_same [OF fa(2)] using read_loop_step [OF True, of os st fd 0] k(1) z fa by simp
      ultimately show ?thesis using k(2,3,7) by auto
    next
      case nz: False
      let ?st = "moved st fd (off + k) w"
      have "off + k < 2 ^ 64" using less.prems(5) k(4) less.prems(7) by simp
      then have step: "read_loop os st fd cnt don acc = read_loop os ?st fd cnt (don + k) (acc @ take k (drop off c))"
        using read_loop_step [OF True, of os st fd "int k"] k(1) nz add_off_moved [of st fd k w] fa by simp
      have "off + k \<le> length c" using k(5) nz by linarith
      then have o32: "off + k < 2 ^ 32" using sz by simp
      have lt: "cnt - (don + k) < cnt - don" "don + k \<le> cnt" using True nz k(4) by auto
      have wst: "ok (world ?st)" "cont (world ?st) p = Some c" using k(2,3) less.prems(3) by simp_all
      obtain w' where r: "read_loop os ?st fd cnt (don + k) (acc @ take k (drop off c)) =
          ((int (don + k + min (cnt - (don + k)) (length c - (off + k))), (acc @ take k (drop off c)) @ take (cnt - (don + k)) (drop (off + k) c)),
           moved ?st fd (off + k + min (cnt - (don + k)) (length c - (off + k))) w')" "ok w'" "cont w' = cont w" "cap w' = cap w"
        using less.hyps [OF lt(1) wst(1) less.prems(2) wst(2) file_at_moved [OF less.prems(4)] o32 lt(2) less.prems(7),
            of "acc @ take k (drop off c)"] unfolding moved_world by blast
      have m: "k + min (cnt - (don + k)) (length c - (off + k)) = min (cnt - don) (length c - off)"
        using k(4,5) by linarith
      have tk: "take k (drop off c) @ take (cnt - (don + k)) (drop (off + k) c) = take (cnt - don) (drop off c)"
      proof -
        have "k + (cnt - don - k) = cnt - don" "cnt - (don + k) = cnt - don - k" using k(4) by auto
        then show ?thesis using take_add [of k "cnt - don - k" "drop off c"] by (simp only: drop_drop add.commute [of k off])
      qed
      have e: "don + k + min (cnt - (don + k)) (length c - (off + k)) = don + min (cnt - don) (length c - off)"
        "off + k + min (cnt - (don + k)) (length c - (off + k)) = off + min (cnt - don) (length c - off)"
        using m by linarith+
      show ?thesis
        using r(2-4) k(2,7) by (intro exI [of _ w'] conjI) (simp_all only: step r(1) e moved_moved append_assoc tk)
    qed
  qed
qed

lemma read_file:
  assumes "ok (world st)" "p \<in> P" "cont (world st) p = Some c" "file_at st fd p off" "off < 2 ^ 32" "int cnt < 2 ^ 31"
  shows "\<exists>w'. read_c os net st (int fd) cnt =
      ((int (min cnt (length c - off)), take cnt (drop off c)), moved st fd (off + min cnt (length c - off)) w')
    \<and> ok w' \<and> cont w' = cont (world st) \<and> cap w' = cap (world st)"
proof -
  have "fdtab_inited st" "kind (fdtab st ! fd) = K_FILE" using assms(4) by (simp_all add: file_at_def)
  then have "read_c os net st (int fd) cnt = read_loop os st fd cnt 0 []"
    using file_at_not_bad [OF assms(4)] by (simp add: read_c_def)
  then show ?thesis using read_loop_file [OF assms(1-5) _ assms(6), of 0 "[]"] by simp
qed

lemma write_loop_file:
  assumes "ok (world st)" "p \<in> P" "has_bytes (cont (world st) p) c" "file_at st fd p off" "don < length buf"
    "off \<le> length c" "off + (length buf - don) \<le> cap (world st) p"
  shows "\<exists>w'. write_loop os st fd buf don = (int (length buf), moved st fd (off + (length buf - don)) w')
    \<and> ok w' \<and> cont w' = (cont (world st))(p \<mapsto> overlay c off (drop don buf)) \<and> cap (world st) p \<le> cap w' p"
  using assms
proof (induction "length buf - don" arbitrary: st off don c rule: less_induct)
  case less
  have fa: "fpath (fdtab st ! fd) = p" "foff (fdtab st ! fd) = off" using less.prems(4) by (simp_all add: file_at_def)
  define n where "n = chunk_len (int (length buf - don))"
  define k where "k = nat n"
  have n: "0 < n" "n \<le> int (length (drop don buf))" "n \<le> RC_FS_WRITE_AT_MAXCHUNK"
    unfolding n_def using chunk_len_pos [of "int (length buf - don)"] less.prems(5) by auto
  moreover have "off + nat n \<le> cap (world st) p" using n(2) less.prems(7) by simp
  ultimately obtain w where w: "rc_fs_write_at os (world st) p (drop don buf) n (int off) = (n, w)" "ok w"
      "cont w = (cont (world st))(p \<mapsto> overlay c off (take k (drop don buf)))" "cap (world st) p \<le> cap w p"
    using write_bytes [OF less.prems(1-3) n less.prems(6)] unfolding k_def by blast
  let ?st = "moved st fd (off + k) w"
  have "k \<le> length buf - don" using n(2) unfolding k_def by (simp only: length_drop nat_le_iff)
  then have k: "0 < k" "don + k \<le> length buf" using n(1) less.prems(5) unfolding k_def by (simp only: zero_less_nat_eq, linarith)
  have "off + k \<le> off + (length buf - don)" using k(2) by linarith
  also have "\<dots> < 2 ^ 64" using less.prems(7) cap_bound [OF less.prems(1), of p] by simp
  finally have "off + k < 2 ^ 64" .
  then have step: "write_loop os st fd buf don = write_loop os ?st fd buf (don + k)"
    using write_loop_step [OF less.prems(5), of os st fd n w] w(1) fa n(1) add_off_moved [of st fd k w]
    unfolding n_def [symmetric] k_def by simp
  show ?case
  proof (cases "don + k = length buf")
    case True
    then have "write_loop os ?st fd buf (don + k) = (int (length buf), ?st)"
      unfolding True by (intro write_loop_done) simp
    moreover have "off + k = off + (length buf - don)" "take k (drop don buf) = drop don buf" using True by auto
    ultimately show ?thesis using step w(2-4) by (intro exI [of _ w]) simp
  next
    case False
    let ?c = "overlay c off (take k (drop don buf))"
    have h: "length buf - (don + k) < length buf - don" "don + k < length buf"
      "off + k + (length buf - (don + k)) \<le> cap (world ?st) p" "off + k \<le> length ?c"
      using False k less.prems(5,7) w(4) by (auto simp: length_overlay)
    have "has_bytes (cont (world ?st) p) ?c" "ok (world ?st)" using w by (simp_all add: has_bytes_def)
    from less.hyps [OF h(1) this(2) less.prems(2) this(1) file_at_moved [OF less.prems(4)] h(2,4,3)]
    obtain w' where w': "write_loop os ?st fd buf (don + k) = (int (length buf), moved ?st fd (off + k + (length buf - (don + k))) w')"
        "ok w'" "cont w' = (cont (world ?st))(p \<mapsto> overlay ?c (off + k) (drop (don + k) buf))"
        "cap (world ?st) p \<le> cap w' p" by blast
    have lk: "length (take k (drop don buf)) = k" using k(2) by simp
    have "overlay ?c (off + k) (drop (don + k) buf) = overlay c off (take k (drop don buf) @ drop (don + k) buf)"
      using overlay_overlay [of c off "take k (drop don buf)" "drop (don + k) buf"] unfolding lk .
    also have "take k (drop don buf) @ drop (don + k) buf = drop don buf"
      by (metis append_take_drop_id drop_drop add.commute)
    finally have "overlay ?c (off + k) (drop (don + k) buf) = overlay c off (drop don buf)" .
    moreover have e: "off + k + (length buf - (don + k)) = off + (length buf - don)" using k(2) by simp
    ultimately show ?thesis
      using w'(2-4) w(3) order_trans [OF w(4)] by (intro exI [of _ w'] conjI)
        (simp_all only: step w'(1) e moved_moved moved_world fun_upd_upd)
  qed
qed

lemma write_file:
  assumes "ok (world st)" "p \<in> P" "has_bytes (cont (world st) p) c" "file_at st fd p off" "buf \<noteq> []"
    "off \<le> length c" "off + length buf \<le> cap (world st) p"
  shows "\<exists>w'. write_c os net st (int fd) buf = (int (length buf), moved st fd (off + length buf) w')
    \<and> ok w' \<and> cont w' = (cont (world st))(p \<mapsto> overlay c off buf) \<and> cap (world st) p \<le> cap w' p"
proof -
  have "fdtab_inited st" "kind (fdtab st ! fd) = K_FILE" using assms(4) by (simp_all add: file_at_def)
  then have "write_c os net st (int fd) buf = write_loop os st fd buf 0"
    using file_at_not_bad [OF assms(4)] by (simp add: write_c_def)
  then show ?thesis using write_loop_file [OF assms(1-4), of 0 buf] assms(5-7) by simp
qed

lemma write_file_hole:
  assumes "ok (world st)" "p \<in> P" "has_bytes (cont (world st) p) c" "file_at st fd p off" "buf \<noteq> []"
    "length c < off" "int off < 2 ^ 31"
  shows "\<exists>w'. write_c os net st (int fd) buf = (-1, st \<lparr> world := w', errno := EIO \<rparr>)
    \<and> ok w' \<and> cont w' = cont (world st) \<and> cap w' = cap (world st)"
proof -
  have fa: "fdtab_inited st" "kind (fdtab st ! fd) = K_FILE" "fpath (fdtab st ! fd) = p" "foff (fdtab st ! fd) = off"
    using assms(4) by (simp_all add: file_at_def)
  have l: "0 < length buf" using assms(5) by simp
  have n: "0 < chunk_len (int (length buf - 0))" "chunk_len (int (length buf - 0)) \<le> int (length (drop 0 buf))"
    "chunk_len (int (length buf - 0)) \<le> RC_FS_WRITE_AT_MAXCHUNK"
    using chunk_len_pos [of "int (length buf - 0)"] l by auto
  obtain r w where w: "rc_fs_write_at os (world st) p (drop 0 buf) (chunk_len (int (length buf - 0))) (int off) = (r, w)"
      "r < 0" "ok w" "cont w = cont (world st)" "cap w = cap (world st)"
    using hole_law [OF assms(1-3) less_imp_le [OF n(1)] n(2,3) assms(6,7)] by blast
  have "write_c os net st (int fd) buf = write_loop os st fd buf 0"
    using file_at_not_bad [OF assms(4)] fa by (simp add: write_c_def)
  also have "\<dots> = (-1, st \<lparr> world := w, errno := EIO \<rparr>)"
    using write_loop_step [OF l, of os st fd r w] w(1,2) fa by (simp add: fail_def)
  finally show ?thesis using w(3-5) by blast
qed

lemma lseek_file:
  assumes "ok (world st)" "p \<in> P" "cont (world st) p = Some c" "file_at st fd p off" "off < 2 ^ 32"
    "whence \<in> {0, 1, 2}" "- (2 ^ 62) \<le> d" "d < 2 ^ 62"
  defines "np \<equiv> (if whence = 0 then 0 else if whence = 1 then int off else int (length c)) + d"
  shows "\<exists>w'. lseek os st (int fd) d whence =
      (if np < 0 then (-1, st \<lparr> world := w', errno := EINVAL \<rparr>) else (np, moved st fd (nat np) w'))
    \<and> ok w' \<and> cont w' = cont (world st) \<and> cap w' = cap (world st)"
proof -
  have fa: "fdtab_inited st" "fpath (fdtab st ! fd) = p" "foff (fdtab st ! fd) = off" using assms(4) by (simp_all add: file_at_def)
  obtain w' where w': "rc_fs_stat os (world st) p = (Some (int (length c), 0), w')" "cont w' = cont (world st)" "ok w'"
      "cap w' = cap (world st)"
    using stat_law [OF assms(1,2)] assms(3) by auto
  have sz: "int (length c) < 2 ^ 31" using file_size assms(1-3) by blast
  have i64: "to_int64 (to_int64 b + d) = b + d" if "0 \<le> b" "b < 2 ^ 33" for b
    using that assms(7,8) by simp
  have nf: "\<not> fd_not_file st (int fd)" using file_at_not_bad [OF assms(4)] by simp
  consider "whence = 0" | "whence = 1" | "whence = 2" using assms(6) by blast
  then show ?thesis
  proof cases
    case 1
    then show ?thesis using assms(1) fa nf i64 [of 0]
      by (intro exI [of _ "world st"]) (auto simp: lseek_def Let_def np_def fail_def moved_def set_off_def)
  next
    case 2
    then show ?thesis using assms(1,5) fa nf i64 [of "int off"]
      by (intro exI [of _ "world st"]) (auto simp: lseek_def Let_def np_def fail_def moved_def set_off_def)
  next
    case 3
    then show ?thesis using w' fa nf i64 [of "int (length c)"] sz
      by (intro exI [of _ w']) (auto simp: lseek_def Let_def np_def fail_def moved_def set_off_def)
  qed
qed

end

subsection \<open>Opening files\<close>

lemma abspath_length: "length (abspath os w p) \<le> 127"
  using rc_abspath_bound [of os w p] by (auto simp: abspath_def)

text \<open>What \<open>open\<close> makes of a regular file, given its contents before the call.\<close>

definition open_outcome :: "byte list option \<Rightarrow> int \<Rightarrow> (int + byte list)" where
  "open_outcome f flags = (case f of
       None \<Rightarrow> if has flags O_CREAT then Inr [] else Inl ENOENT
     | Some c \<Rightarrow> if has flags O_CREAT \<and> has flags O_EXCL then Inl EEXIST
         else if has flags O_TRUNC \<and> has flags (O_WRONLY OR O_RDWR) then Inr [] else Inr c)"

text \<open>Whether that creates or empties the file; then a server may leave it missing until its first byte.\<close>

definition open_makes :: "byte list option \<Rightarrow> int \<Rightarrow> bool" where
  "open_makes f flags \<longleftrightarrow> f = None \<and> has flags O_CREAT \<or> has flags O_TRUNC \<and> has flags (O_WRONLY OR O_RDWR)"

definition has_free :: "'w px \<Rightarrow> bool" where
  "has_free st \<longleftrightarrow> (\<exists>i. 3 \<le> i \<and> i < FD_MAX \<and> kind (fdtab (fd_init st) ! i) = K_FREE)"

lemma open_install_file:
  assumes "px_ok st" "has_free st" "length p \<le> 127"
  shows "\<exists>fd. open_install st p flags sz = (int fd, (fd_init st) \<lparr> fdtab := (fdtab (fd_init st))[fd := \<lparr> kind = K_FILE,
        fflags = flags, foff = (if has flags O_APPEND then nat sz else 0), fpath = p \<rparr>] \<rparr>)
     \<and> 3 \<le> fd \<and> fd < FD_MAX \<and> kind (fdtab (fd_init st) ! fd) = K_FREE
     \<and> (\<forall>i. 3 \<le> i \<and> i < fd \<longrightarrow> kind (fdtab (fd_init st) ! i) \<noteq> K_FREE)"
proof -
  obtain fd st' where f: "fd_alloc st = (fd, st')" by force
  have "\<not> fd < 0" using fd_alloc_cases [OF assms(1)] assms(2) f by (auto simp: has_free_def)
  then have r: "st' = fd_init st" "3 \<le> fd" "fd < int FD_MAX" "kind (fdtab st' ! nat fd) = K_FREE"
      "\<forall>i. 3 \<le> i \<and> i < nat fd \<longrightarrow> kind (fdtab st' ! i) \<noteq> K_FREE"
    using fd_alloc_cases [OF assms(1)] f by auto
  then show ?thesis
    using f assms(3) \<open>\<not> fd < 0\<close> by (intro exI [of _ "nat fd"]) (auto simp: open_install_def)
qed

lemma has_free_other [simp]: "has_free (st \<lparr> world := w \<rparr>) = has_free st" "has_free (fd_init st) = has_free st"
  by (simp_all add: has_free_def fd_init_def)

lemma file_at_entry:
  assumes "px_ok st" "fdtab_inited st" "fd < FD_MAX"
  shows "file_at (st \<lparr> fdtab := (fdtab st)[fd := \<lparr> kind = K_FILE, fflags = flags, foff = off, fpath = p \<rparr>] \<rparr>) fd p off"
  using assms by (simp add: file_at_def px_ok_def)

context fs_store
begin

lemma touch:
  assumes "ok w" "p \<in> P" "cont w p = None" "0 < cap w p"
  obtains w' where "rc_fs_write_at os w p [] 0 0 = (0, w')" "ok w'"
    "cont w' = (cont w)(p \<mapsto> []) \<or> cont w' = (cont w)(p := None)" "cap w p \<le> cap w' p"
proof -
  have "(cont w)(p := None) = cont w" using assms(3) by (simp add: fun_upd_idem)
  then show thesis using touch_law [OF assms, of "[]"] that by fastforce
qed

lemma open_prepare_file:
  assumes "ok (world st)" "p \<in> P" "0 < cap (world st) p"
  shows "\<exists>w'. ok w' \<and> (case open_outcome (cont (world st) p) flags of
      Inl e \<Rightarrow> open_prepare os st p flags (cont (world st) p \<noteq> None) sz = (Inl e, st \<lparr> world := w' \<rparr>) \<and> cont w' = cont (world st)
    | Inr c \<Rightarrow> (\<exists>sz'. open_prepare os st p flags (cont (world st) p \<noteq> None) sz = (Inr sz', st \<lparr> world := w' \<rparr>)
        \<and> (cont w' = (cont (world st))(p \<mapsto> c) \<or> open_makes (cont (world st) p) flags \<and> cont w' = (cont (world st))(p := None))
        \<and> (sz = int (length (case cont (world st) p of Some c \<Rightarrow> c | None \<Rightarrow> [])) \<longrightarrow> sz' = int (length c))))"
proof (cases "cont (world st) p")
  case None
  obtain w' where "rc_fs_write_at os (world st) p [] 0 0 = (0, w')" "ok w'"
      "cont w' = (cont (world st))(p \<mapsto> []) \<or> cont w' = (cont (world st))(p := None)"
    using touch [OF assms(1,2) None assms(3)] by metis
  then show ?thesis
    using None assms(1) by (cases "has flags O_CREAT")
      (auto simp: open_prepare_def open_outcome_def open_makes_def intro: exI [of _ "world st"] exI [of _ w'])
next
  case (Some c)
  obtain w1 where w1: "rc_fs_delete os (world st) p 0 = (0, w1)" "ok w1" "cont w1 = (cont (world st))(p := None)"
      "cap (world st) p \<le> cap w1 p"
    using delete_law [OF assms(1,2) Some] by blast
  have "cont w1 p = None" "0 < cap w1 p" using w1(3,4) assms(3) by auto
  then obtain w2 where "rc_fs_write_at os w1 p [] 0 0 = (0, w2)" "ok w2"
      "cont w2 = (cont w1)(p \<mapsto> []) \<or> cont w2 = (cont w1)(p := None)"
    using touch [OF w1(2) assms(2)] by metis
  then have w2: "rc_fs_write_at os w1 p [] 0 0 = (0, w2)" "ok w2"
      "cont w2 = (cont (world st))(p \<mapsto> []) \<or> cont w2 = (cont (world st))(p := None)"
    using w1(3) by simp_all
  have upd: "(cont (world st))(p \<mapsto> c) = cont (world st)" using Some by (simp add: fun_upd_idem)
  consider "has flags O_CREAT \<and> has flags O_EXCL" | "\<not> (has flags O_CREAT \<and> has flags O_EXCL)" "has flags O_TRUNC \<and> has flags (O_WRONLY OR O_RDWR)"
    | "\<not> (has flags O_CREAT \<and> has flags O_EXCL)" "\<not> (has flags O_TRUNC \<and> has flags (O_WRONLY OR O_RDWR))" by blast
  then show ?thesis
  proof cases
    case 1
    then show ?thesis using Some assms(1) by (intro exI [of _ "world st"]) (auto simp: open_prepare_def open_outcome_def)
  next
    case 2
    then show ?thesis using Some w1 w2
      by (intro exI [of _ w2]) (auto simp: open_prepare_def open_outcome_def open_makes_def)
  next
    case 3
    then show ?thesis using Some assms(1) upd by (intro exI [of _ "world st"]) (auto simp: open_prepare_def open_outcome_def)
  qed
qed

lemma open_file:
  assumes "px_ok st" "ok (world st)" "abspath os (world st) path = p" "p \<in> P" "\<not> has flags O_DIRECTORY"
    "open_outcome (cont (world st) p) flags = Inr c" "has_free st" "0 < cap (world st) p"
  shows "\<exists>fd st'. open_c os st path flags = (int fd, st') \<and> px_ok st' \<and> ok (world st') \<and> 3 \<le> fd
     \<and> kind (fdtab (fd_init st) ! fd) = K_FREE \<and> (\<forall>i. 3 \<le> i \<and> i < fd \<longrightarrow> kind (fdtab (fd_init st) ! i) \<noteq> K_FREE)
     \<and> file_at st' fd p (if has flags O_APPEND then length c else 0)
     \<and> (\<forall>i. i \<noteq> fd \<longrightarrow> fdtab st' ! i = fdtab (fd_init st) ! i)
     \<and> (cont (world st') = (cont (world st))(p \<mapsto> c)
         \<or> open_makes (cont (world st) p) flags \<and> cont (world st') = (cont (world st))(p := None))"
proof -
  let ?st = "fd_init st"
  obtain w1 where w1: "rc_fs_stat os (world st) p = (map_option (\<lambda>c. (int (length c), 0)) (cont (world st) p), w1)"
      "cont w1 = cont (world st)" "ok w1" "cap w1 = cap (world st)"
    using stat_law [OF assms(2,4)] by blast
  let ?sz = "int (length (case cont (world st) p of Some c \<Rightarrow> c | None \<Rightarrow> []))"
  let ?s1 = "?st \<lparr> world := w1 \<rparr>"
  have "open_outcome (cont (world ?s1) p) flags = Inr c" using assms(6) w1(2) by (simp add: open_outcome_def)
  then obtain w2 sz' where w2: "ok w2" "open_prepare os ?s1 p flags (cont (world st) p \<noteq> None) ?sz = (Inr sz', ?s1 \<lparr> world := w2 \<rparr>)"
      "cont w2 = (cont (world st))(p \<mapsto> c) \<or> open_makes (cont (world st) p) flags \<and> cont w2 = (cont (world st))(p := None)"
      "sz' = int (length c)"
    using open_prepare_file [of ?s1 p flags ?sz] w1(2-4) assms(4,8) by auto
  let ?s2 = "?st \<lparr> world := w2 \<rparr>"
  have pl: "length p \<le> 127" using abspath_length [of os "world st" path] assms(3) by simp
  have i2: "px_ok ?s2" "has_free ?s2" "fdtab_inited ?s2" using px_ok_init [OF assms(1)] assms(7) by simp_all
  obtain fd where fd: "open_install ?s2 p flags sz' = (int fd, ?s2 \<lparr> fdtab := (fdtab ?s2)[fd := \<lparr> kind = K_FILE,
        fflags = flags, foff = (if has flags O_APPEND then nat sz' else 0), fpath = p \<rparr>] \<rparr>)"
      "3 \<le> fd" "fd < FD_MAX" "kind (fdtab ?s2 ! fd) = K_FREE" "\<forall>i. 3 \<le> i \<and> i < fd \<longrightarrow> kind (fdtab ?s2 ! i) \<noteq> K_FREE"
    using open_install_file [OF i2(1,2) pl, of flags sz'] i2(3) by auto
  have res: "open_c os st path flags = open_install ?s2 p flags sz'"
    using w1(1) w2(2) assms(3,5) by (cases "cont (world st) p") (auto simp: open_c_def Let_def)
  show ?thesis
    by (intro exI [of _ fd] exI [of _ "snd (open_install ?s2 p flags sz')"])
      (use res fd w2 px_ok_install [OF i2(1), of p flags sz'] file_at_entry [OF i2(1,3) fd(3)] in auto)
qed

lemma open_refused:
  assumes "px_ok st" "ok (world st)" "abspath os (world st) path = p" "p \<in> P" "\<not> has flags O_DIRECTORY"
    "open_outcome (cont (world st) p) flags = Inl e" "0 < cap (world st) p"
  shows "\<exists>w'. open_c os st path flags = (-1, (fd_init st) \<lparr> world := w', errno := e \<rparr>) \<and> ok w' \<and> cont w' = cont (world st)"
proof -
  let ?st = "fd_init st"
  obtain w1 where w1: "rc_fs_stat os (world st) p = (map_option (\<lambda>c. (int (length c), 0)) (cont (world st) p), w1)"
      "cont w1 = cont (world st)" "ok w1" "cap w1 = cap (world st)"
    using stat_law [OF assms(2,4)] by blast
  let ?sz = "int (length (case cont (world st) p of Some c \<Rightarrow> c | None \<Rightarrow> []))"
  let ?s1 = "?st \<lparr> world := w1 \<rparr>"
  have "open_outcome (cont (world ?s1) p) flags = Inl e" using assms(6) w1(2) by (simp add: open_outcome_def)
  then obtain w2 where w2: "ok w2" "open_prepare os ?s1 p flags (cont (world st) p \<noteq> None) ?sz = (Inl e, ?s1 \<lparr> world := w2 \<rparr>)"
      "cont w2 = cont (world st)"
    using open_prepare_file [of ?s1 p flags ?sz] w1(2-4) assms(4,7) by auto
  have "open_c os st path flags = (-1, ?st \<lparr> world := w2, errno := e \<rparr>)"
    using w1(1) w2(2) assms(3,5) by (cases "cont (world st) p") (auto simp: open_c_def Let_def fail_def)
  then show ?thesis using w2 by blast
qed

end

subsection \<open>Reachable states\<close>

definition no_net :: "'w netops" where
  "no_net = \<lparr> net_read = (\<lambda>st fd n. ((-1, []), st)), net_write = (\<lambda>st fd bs. (-1, st)), net_close = (\<lambda>st fd. st) \<rparr>"

lemma no_net_ok: "net_ok no_net"
  by (simp add: net_ok_def no_net_def)

definition free_ent :: fdent where
  "free_ent = \<lparr> kind = K_FREE, fflags = 0, foff = 0, fpath = [] \<rparr>"

text \<open>The zero-initialised static table.\<close>

definition px_start :: "'w \<Rightarrow> 'w px" where
  "px_start w = \<lparr> fdtab = replicate FD_MAX free_ent, fdtab_inited = False, errno = 0, tmp_counter = 0, world = w \<rparr>"

inductive px_reach :: "'w os \<Rightarrow> 'w netops \<Rightarrow> 'w px \<Rightarrow> bool" for os net where
  start: "px_reach os net (px_start w)"
| outside: "px_reach os net st \<Longrightarrow> px_reach os net (st \<lparr> world := w \<rparr>)"
| opens: "px_reach os net st \<Longrightarrow> px_reach os net (snd (open_c os st path flags))"
| closes: "px_reach os net st \<Longrightarrow> px_reach os net (snd (close_c net st fd))"
| reads: "px_reach os net st \<Longrightarrow> px_reach os net (snd (read_c os net st fd n))"
| writes: "px_reach os net st \<Longrightarrow> px_reach os net (snd (write_c os net st fd buf))"
| seeks: "px_reach os net st \<Longrightarrow> px_reach os net (snd (lseek os st fd d whence))"
| dups: "px_reach os net st \<Longrightarrow> px_reach os net (snd (dup_c st fd))"
| dup2s: "px_reach os net st \<Longrightarrow> px_reach os net (snd (dup2 st a b))"
| fcntls: "px_reach os net st \<Longrightarrow> px_reach os net (snd (fcntl st fd cmd))"
| preads: "px_reach os net st \<Longrightarrow> px_reach os net (snd (pread os net st fd n off))"
| pwrites: "px_reach os net st \<Longrightarrow> px_reach os net (snd (pwrite os net st fd buf off))"
| sockets: "px_reach os net st \<Longrightarrow> px_reach os net (snd (rc_fd_new_net st dir flags))"

lemma px_reach_ok: "px_reach os net st \<Longrightarrow> net_ok net \<Longrightarrow> px_ok st"
  by (induction rule: px_reach.induct) (simp_all add: px_ok_open px_ok_close px_ok_read px_ok_write px_ok_lseek
    px_ok_dup px_ok_dup2 px_ok_fcntl px_ok_pread px_ok_pwrite px_ok_new_net, simp add: px_ok_def px_start_def)

text \<open>A small world for the witnesses: one file, open as descriptor 3 at offset 1.\<close>

definition demo_w :: fsw where
  "demo_w = \<lparr> fsw_files = [''motd'' \<mapsto> ''hello''], fsw_cwd = ''/'', fsw_in = [], fsw_out = [],
     fsw_max = 1000000, fsw_lazy = False \<rparr>"

definition demo_px :: "fsw px" where
  "demo_px = (px_start demo_w) \<lparr> fdtab := [free_ent \<lparr> kind := K_CONSOLE \<rparr>, free_ent \<lparr> kind := K_CONSOLE \<rparr>,
      free_ent \<lparr> kind := K_CONSOLE \<rparr>, \<lparr> kind = K_FILE, fflags = 2, foff = 1, fpath = ''/motd'' \<rparr>] @ replicate 60 free_ent,
    fdtab_inited := True \<rparr>"

lemma demo_cap [simp]: "fsd_cap (world demo_px) p = 1000000"
  by (simp add: demo_px_def demo_w_def px_start_def fsd_cap_def)

lemma demo:
  "fsd_ok (world demo_px)" "''/motd'' \<in> fsd_paths" "fsd_cont (world demo_px) ''/motd'' = Some ''hello''"
  "file_at demo_px 3 ''/motd'' 1" "px_ok demo_px" "has_free demo_px" "''/tmp'' \<in> fsd_paths" "fsd_cont (world demo_px) ''/tmp'' = None"
proof -
  have "SLASH # n \<in> fsd_paths" if "name_ok n" "n \<noteq> ''.''" "n \<noteq> ''..''" "NUL \<notin> set n" "length n \<le> 99" for n
    using that unfolding fsd_paths_def by (auto intro!: exI [of _ "[n]"] simp: render_def plain_def)
  then show p: "''/motd'' \<in> fsd_paths" "''/tmp'' \<in> fsd_paths" by (simp_all add: name_ok_def)
  show "fsd_ok (world demo_px)" "fsd_cont (world demo_px) ''/motd'' = Some ''hello''" "fsd_cont (world demo_px) ''/tmp'' = None"
    using p by (simp_all add: demo_px_def demo_w_def px_start_def fsd_ok_def fsd_cont_def)
  show "file_at demo_px 3 ''/motd'' 1" by (simp add: demo_px_def file_at_def)
  have "kind (fdtab demo_px ! i) \<noteq> K_FREE" if "i < 3" for i
    using that by (auto simp: demo_px_def free_ent_def less_3)
  then show "px_ok demo_px" by (simp add: px_ok_def demo_px_def)
  have "kind (fdtab demo_px ! 4) = K_FREE" "fdtab_inited demo_px" by (simp_all add: demo_px_def free_ent_def)
  then show "has_free demo_px" unfolding has_free_def by (intro exI [of _ 4]) simp
qed

subsection \<open>Properties\<close>

text \<open>
  The theorems about files take the documented file server (\<open>file_server\<close>) as their hypothesis and reach
  the lemmas of \<open>fs_store\<close> through \<open>file_server.store\<close>.
\<close>







text \<open>C12: in every state reached by the descriptor operations the table has 64 entries and the three
  console descriptors are open once the table is initialised; so \<open>fd_alloc\<close> either hands out the lowest
  free descriptor above them or reports \<^verbatim>\<open>EMFILE\<close> with none left.\<close>

theorem reachable_table:
  assumes "px_reach os net st" "net_ok net"
  shows "length (fdtab st) = FD_MAX \<and> (fdtab_inited st \<longrightarrow> (\<forall>i < 3. kind (fdtab st ! i) \<noteq> K_FREE))
    \<and> (case fd_alloc st of (fd, st') \<Rightarrow>
         if fd < 0 then errno st' = EMFILE \<and> (\<forall>i < FD_MAX. kind (fdtab st' ! i) \<noteq> K_FREE)
         else 3 \<le> fd \<and> fd < int FD_MAX \<and> kind (fdtab st' ! nat fd) = K_FREE
           \<and> (\<forall>i < nat fd. kind (fdtab st' ! i) \<noteq> K_FREE))"
proof -
  have ok: "px_ok st" using px_reach_ok [OF assms] .
  have low: "kind (fdtab (fd_init st) ! i) \<noteq> K_FREE" if "i < 3" for i
    using px_ok_init [OF ok] that by (simp add: px_ok_def)
  obtain fd st' where f: "fd_alloc st = (fd, st')" by force
  show ?thesis
  proof (cases "fd < 0")
    case True
    then have "st' = (fd_init st) \<lparr> errno := EMFILE \<rparr>" "\<forall>i. 3 \<le> i \<and> i < FD_MAX \<longrightarrow> kind (fdtab st' ! i) \<noteq> K_FREE"
      using fd_alloc_cases [OF ok] f by auto
    moreover have "kind (fdtab st' ! i) \<noteq> K_FREE" if "i < FD_MAX" for i
      using calculation low [of i] that by (cases "i < 3") auto
    ultimately show ?thesis using ok f True by (simp add: px_ok_def)
  next
    case False
    then have r: "st' = fd_init st" "3 \<le> fd" "fd < int FD_MAX" "kind (fdtab st' ! nat fd) = K_FREE"
      "\<forall>i. 3 \<le> i \<and> i < nat fd \<longrightarrow> kind (fdtab st' ! i) \<noteq> K_FREE"
      using fd_alloc_cases [OF ok] f by auto
    then have "kind (fdtab st' ! i) \<noteq> K_FREE" if "i < nat fd" for i
      using low [of i] that by (cases "i < 3") auto
    then show ?thesis using r ok f False by (simp add: px_ok_def)
  qed
qed

theorem reachable_table_witness:
  "length (fdtab (snd (open_c fsd_os (px_start \<lparr> fsw_files = Map.empty, fsw_cwd = ''/'', fsw_in = [], fsw_out = [],
      fsw_max = 1000, fsw_lazy = False \<rparr>) ''/a'' 66))) = FD_MAX"
  by (rule reachable_table [OF px_reach.opens [OF px_reach.start] no_net_ok, THEN conjunct1])

end
