(* ===== verification/RcPosixMeta.thy ===== *)
theory RcPosixMeta
  imports RcPosix
begin

unbundle bit_operations_syntax

text \<open>
  The rest of \<^verbatim>\<open>src/rc_posix.c\<close>: process and directory calls, file metadata, directory streams,
  \<open>ftruncate\<close>, \<open>poll\<close>, the temporary names and the \<^verbatim>\<open>*at()\<close> family. \<open>mal n\<close> is whether
  \<^verbatim>\<open>malloc(n)\<close> succeeds.
\<close>

definition getpid :: "'w os \<Rightarrow> 'w px \<Rightarrow> int" where
  "getpid os st = to_int32 (sys_getpid os (world st))"

definition getppid :: "'w os \<Rightarrow> 'w px \<Rightarrow> int" where
  "getppid os st = (let r = sys_parent_info os (world st) (getpid os st) in if r < 0 then 0 else to_int32 r)"

definition getuid :: "'w os \<Rightarrow> 'w px \<Rightarrow> int" where
  "getuid os st = to_int32 (sys_getuid os (world st))"

definition chdir :: "'w os \<Rightarrow> 'w px \<Rightarrow> string \<Rightarrow> int \<times> 'w px" where
  "chdir os st path =
     (let ap = abspath os (world st) path; (r, w) = sys_chdir os (world st) ap; st1 = st \<lparr> world := w \<rparr>
      in if r \<noteq> 0 then fail ENOENT st1 else (0, st1))"

text \<open>The buffer after the call, \<open>None\<close> for \<^verbatim>\<open>NULL\<close>.\<close>

definition getcwd :: "'w os \<Rightarrow> 'w px \<Rightarrow> nat \<Rightarrow> byte list option \<times> 'w px" where
  "getcwd os st sz =
     (let (n0, buf) = sys_getcwd os (world st) sz; n = to_int32 n0 in
      if n < 0 then (None, st \<lparr> errno := ERANGE \<rparr>)
      else if n = 0 \<or> (buf \<noteq> [] \<and> hd buf = NUL) then (Some (if sz \<ge> 2 then buf[0 := SLASH, 1 := NUL] else buf), st)
      else (Some buf, st))"

subsection \<open>stat\<close>

text \<open>The fields that are not listed (owner, times, device number) are zero.\<close>

record cstat =
  st_dev :: int
  st_ino :: nat
  st_mode :: int
  st_nlink :: int
  st_size :: int
  st_blksize :: int
  st_blocks :: int

definition zero_stat :: cstat where
  "zero_stat = \<lparr> st_dev = 0, st_ino = 0, st_mode = 0, st_nlink = 0, st_size = 0, st_blksize = 0, st_blocks = 0 \<rparr>"

text \<open>\<^verbatim>\<open>S_IFDIR | 0755\<close>, \<^verbatim>\<open>S_IFREG | 0644\<close>, \<^verbatim>\<open>S_IFCHR | 0666\<close>.\<close>

definition fill_stat :: "int \<Rightarrow> int \<Rightarrow> cstat" where
  "fill_stat sz type = zero_stat \<lparr> st_mode := (if type = 1 then 0x4000 OR 0x1ED else 0x8000 OR 0x1A4),
     st_size := sz, st_nlink := 1, st_blksize := 4096, st_blocks := (sz + 511) div 512 \<rparr>"

definition fnv1a :: "string \<Rightarrow> u64" where
  "fnv1a s = foldl (\<lambda>h c. (h XOR of_int (ord c)) * 1099511628211) 1469598103934665603 s"

definition fill_identity :: "'w os \<Rightarrow> 'w px \<Rightarrow> cstat \<Rightarrow> string \<Rightarrow> cstat" where
  "fill_identity os st s path =
     (let h = fnv1a (abspath os (world st) path) in s \<lparr> st_dev := 1, st_ino := (if h \<noteq> 0 then unat h else 1) \<rparr>)"

definition stat_c :: "'w os \<Rightarrow> 'w px \<Rightarrow> string \<Rightarrow> cstat option \<times> 'w px" where
  "stat_c os st path =
     (let (sr, w) = rc_fs_stat os (world st) path; st1 = st \<lparr> world := w \<rparr> in
      case sr of None \<Rightarrow> (None, st1 \<lparr> errno := ENOENT \<rparr>)
      | Some (sz, type) \<Rightarrow> (Some (fill_identity os st1 (fill_stat sz type) path), st1))"

definition lstat :: "'w os \<Rightarrow> 'w px \<Rightarrow> string \<Rightarrow> cstat option \<times> 'w px" where
  "lstat os st path = stat_c os st path"

definition fstat :: "'w os \<Rightarrow> 'w px \<Rightarrow> int \<Rightarrow> cstat option \<times> 'w px" where
  "fstat os st0 fd =
     (let st = fd_init st0 in
      if fd_bad st fd then (None, st \<lparr> errno := EBADF \<rparr>)
      else if kind (fdtab st ! nat fd) = K_CONSOLE then (Some (zero_stat \<lparr> st_mode := 0x2000 OR 0x1B6 \<rparr>), st)
      else stat_c os st (fpath (fdtab st ! nat fd)))"

text \<open>\<open>stat\<close> as the C functions below use it: 0 or -1.\<close>

definition stat_rc :: "'w os \<Rightarrow> 'w px \<Rightarrow> string \<Rightarrow> int \<times> 'w px" where
  "stat_rc os st path = (let (r, st1) = stat_c os st path in (if r = None then -1 else 0, st1))"

definition mkdir :: "'w os \<Rightarrow> 'w px \<Rightarrow> string \<Rightarrow> int \<times> 'w px" where
  "mkdir os st path =
     (let (r, st1) = stat_rc os st path in
      if r = 0 then fail EEXIST st1
      else let (k, w) = rc_fs_mkdir os (world st1) path; st2 = st1 \<lparr> world := w \<rparr>
           in if k \<noteq> 0 then fail EIO st2 else (0, st2))"

definition umask :: "int \<Rightarrow> int" where
  "umask m = 18"

definition unlink :: "'w os \<Rightarrow> 'w px \<Rightarrow> string \<Rightarrow> int \<times> 'w px" where
  "unlink os st path =
     (let (k, w) = rc_fs_delete os (world st) path 0; st1 = st \<lparr> world := w \<rparr>
      in if k \<noteq> 0 then fail ENOENT st1 else (0, st1))"

definition rmdir :: "'w os \<Rightarrow> 'w px \<Rightarrow> string \<Rightarrow> int \<times> 'w px" where
  "rmdir os st path =
     (let (k, w) = rc_fs_delete os (world st) path 0; st1 = st \<lparr> world := w \<rparr>
      in if k \<noteq> 0 then fail ENOTEMPTY st1 else (0, st1))"

definition rename :: "'w os \<Rightarrow> 'w px \<Rightarrow> string \<Rightarrow> string \<Rightarrow> int \<times> 'w px" where
  "rename os st oldp newp =
     (let (k, w) = rc_fs_rename os (world st) oldp newp; st1 = st \<lparr> world := w \<rparr>
      in if k \<noteq> 0 then fail EIO st1 else (0, st1))"

definition access :: "'w os \<Rightarrow> 'w px \<Rightarrow> string \<Rightarrow> int \<Rightarrow> int \<times> 'w px" where
  "access os st path mode =
     (let (sr, w) = rc_fs_stat os (world st) path; st1 = st \<lparr> world := w \<rparr>
      in if sr = None then fail ENOENT st1 else (0, st1))"

subsection \<open>Directory streams\<close>

record dirent =
  d_ino :: int
  d_type :: int
  d_name :: string

record cdir =
  dfd :: int
  dcount :: int
  dpos :: int
  dbuf :: "byte list"

abbreviation (input) DIR_LIST_MAX :: int where "DIR_LIST_MAX \<equiv> 512"

definition opendir :: "'w os \<Rightarrow> (nat \<Rightarrow> bool) \<Rightarrow> 'w px \<Rightarrow> string \<Rightarrow> cdir option \<times> 'w px" where
  "opendir os mal st path =
     (let (sr, w) = rc_fs_stat os (world st) path; st1 = st \<lparr> world := w \<rparr> in
      case sr of None \<Rightarrow> (None, st1 \<lparr> errno := ENOENT \<rparr>)
      | Some (sz, type) \<Rightarrow>
          if type \<noteq> 1 then (None, st1 \<lparr> errno := ENOTDIR \<rparr>)
          else if \<not> mal (104 + 512 * RC_FS_LIST_ENTRY_SIZE) then (None, st1 \<lparr> errno := ENOMEM \<rparr>)
          else let ((n, bs), w2) = rc_fs_list os (world st1) path DIR_LIST_MAX; st2 = st1 \<lparr> world := w2 \<rparr>
               in if n < 0 then (None, st2 \<lparr> errno := EIO \<rparr>)
                  else (Some \<lparr> dfd = -1, dcount = n, dpos = 0, dbuf = bs \<rparr>, st2))"

definition readdir :: "cdir option \<Rightarrow> dirent option \<times> cdir option" where
  "readdir d0 = (case d0 of None \<Rightarrow> (None, None)
     | Some d \<Rightarrow>
         if dpos d \<ge> dcount d then (None, Some d)
         else let rec = drop (nat (dpos d) * RC_FS_LIST_ENTRY_SIZE) (dbuf d);
                  t = ord (rec ! RC_FS_LIST_NAME_MAX)
              in (Some \<lparr> d_ino = dpos d + 1, d_type = (if t = 1 then 4 else 8), d_name = cstr_of (take RC_FS_LIST_NAME_MAX rec) \<rparr>,
                  Some (d \<lparr> dpos := dpos d + 1 \<rparr>)))"

definition rewinddir :: "cdir option \<Rightarrow> cdir option" where
  "rewinddir d = map_option (\<lambda>d. d \<lparr> dpos := 0 \<rparr>) d"

definition closedir :: "'w netops \<Rightarrow> 'w px \<Rightarrow> cdir \<Rightarrow> int \<times> 'w px" where
  "closedir net st d = (0, if dfd d \<ge> 0 then snd (close_c net st (dfd d)) else st)"

definition fdopendir :: "'w os \<Rightarrow> (nat \<Rightarrow> bool) \<Rightarrow> 'w px \<Rightarrow> int \<Rightarrow> cdir option \<times> 'w px" where
  "fdopendir os mal st0 fd =
     (let st = fd_init st0 in
      if fd_not_file st fd then (None, st \<lparr> errno := EBADF \<rparr>)
      else let (d, st1) = opendir os mal st (fpath (fdtab st ! nat fd)) in (map_option (\<lambda>d. d \<lparr> dfd := fd \<rparr>) d, st1))"

definition dirfd_c :: "'w px \<Rightarrow> cdir \<Rightarrow> int \<times> 'w px" where
  "dirfd_c st d = (if dfd d < 0 then fail ENOTSUP st else (dfd d, st))"

definition realpath :: "'w os \<Rightarrow> (nat \<Rightarrow> bool) \<Rightarrow> 'w px \<Rightarrow> string \<Rightarrow> bool \<Rightarrow> string option \<times> 'w px" where
  "realpath os mal st path resolved =
     (let tmp = abspath os (world st) path; (sr, w) = rc_fs_stat os (world st) tmp; st1 = st \<lparr> world := w \<rparr>
      in if sr = None then (None, st1 \<lparr> errno := ENOENT \<rparr>)
         else if \<not> resolved \<and> \<not> mal 128 then (None, st1 \<lparr> errno := ENOMEM \<rparr>)
         else (Some tmp, st1))"

definition chmod :: "'w px \<Rightarrow> string \<Rightarrow> int \<Rightarrow> int \<times> 'w px" where
  "chmod st path mode = (0, st)"

definition fchmod :: "'w px \<Rightarrow> int \<Rightarrow> int \<Rightarrow> int \<times> 'w px" where
  "fchmod st0 fd mode =
     (let st = fd_init st0 in if fd_not_file st fd then fail EBADF st else chmod st (fpath (fdtab st ! nat fd)) mode)"

subsection \<open>ftruncate\<close>

function grow_loop :: "'w os \<Rightarrow> 'w px \<Rightarrow> string \<Rightarrow> nat \<Rightarrow> nat \<Rightarrow> int \<times> 'w px" where
  "grow_loop os st path sz want =
     (if sz < want then
        let n = (if want - sz > 1024 then 1024 else want - sz);
            (k, w) = rc_fs_write_at os (world st) path (replicate 1024 NUL) (int n) (int sz); st1 = st \<lparr> world := w \<rparr>
        in if k \<noteq> int n then fail EIO st1 else grow_loop os st1 path (sz + n) want
      else (0, st))"
  by pat_completeness auto
termination by (relation "measure (\<lambda>(_, _, _, sz, want). want - sz)") auto

declare grow_loop.simps [simp del]

text \<open>Reading the part to keep; \<open>None\<close> is the error return.\<close>

function keep_loop :: "'w os \<Rightarrow> 'w px \<Rightarrow> string \<Rightarrow> nat \<Rightarrow> nat \<Rightarrow> byte list \<Rightarrow> byte list option \<times> 'w px" where
  "keep_loop os st path got want keep =
     (if got < want then
        let ((n, bs), w) = rc_fs_read_at os (world st) path (int (want - got)) (int got); st1 = st \<lparr> world := w \<rparr>
        in if n \<le> 0 then (None, st1 \<lparr> errno := EIO \<rparr>) else keep_loop os st1 path (got + nat n) want (keep @ bs)
      else (Some keep, st))"
  by pat_completeness auto
termination by (relation "measure (\<lambda>(_, _, _, got, want, _). want - got)") auto

declare keep_loop.simps [simp del]

definition ftruncate :: "'w os \<Rightarrow> (nat \<Rightarrow> bool) \<Rightarrow> 'w px \<Rightarrow> int \<Rightarrow> int \<Rightarrow> int \<times> 'w px" where
  "ftruncate os mal st0 fd len =
     (let st = fd_init st0 in
      if fd_not_file st fd then fail EBADF st
      else if len < 0 then fail EINVAL st
      else let path = fpath (fdtab st ! nat fd); (sr, w) = rc_fs_stat os (world st) path; st1 = st \<lparr> world := w \<rparr> in
           case sr of None \<Rightarrow> fail EIO st1
           | Some (szi, type) \<Rightarrow>
               (let sz = nat szi; want = nat len in
                if want = sz then (0, st1)
                else if want > sz then grow_loop os st1 path sz want
                else if want \<noteq> 0 \<and> \<not> mal want then fail ENOMEM st1
                else case keep_loop os st1 path 0 want [] of
                       (None, st2) \<Rightarrow> (-1, st2)
                     | (Some keep, st2) \<Rightarrow>
                         (let (r0, w0) = rc_fs_delete os (world st2) path 0;
                              (k, w1) = rc_fs_write_at os w0 path keep (int want) 0; st3 = st2 \<lparr> world := w1 \<rparr>
                          in if k \<noteq> int want then fail EIO st3 else (0, st3))))"

definition truncate_c :: "'w os \<Rightarrow> (nat \<Rightarrow> bool) \<Rightarrow> 'w netops \<Rightarrow> 'w px \<Rightarrow> string \<Rightarrow> int \<Rightarrow> int \<times> 'w px" where
  "truncate_c os mal net st path len =
     (let (fd, st1) = open_c os st path O_WRONLY in
      if fd < 0 then (-1, st1)
      else let (r, st2) = ftruncate os mal st1 fd len; (r2, st3) = close_c net st2 fd in (r, st3))"

subsection \<open>Limits and sleeping\<close>

definition pipe_c :: "'w px \<Rightarrow> int \<times> 'w px" where
  "pipe_c st = fail ENOSYS st"

definition sysconf :: "int \<Rightarrow> int" where
  "sysconf name = (if name = 1 then 4096 else if name = 2 then 1 else if name = 3 then 1000000
     else if name = 4 then int FD_MAX else if name = 6 then 1024 else if name = 5 then 4096 else -1)"

definition getpagesize :: int where
  "getpagesize = 4096"

text \<open>The busy wait on the clock: it returns when the clock has advanced far enough.\<close>

partial_function (option) spin :: "'w os \<Rightarrow> 'w \<Rightarrow> nat \<Rightarrow> nat \<Rightarrow> 'w option" where
  [code]: "spin os w start ticks =
     (let (now, w') = sys_rdtime os w in
      if (now + 2 ^ 64 - start) mod 2 ^ 64 < ticks then spin os w' start ticks else Some w')"

definition usleep :: "'w os \<Rightarrow> 'w px \<Rightarrow> nat \<Rightarrow> (int \<times> 'w px) option" where
  "usleep os st usec =
     (let hz = sys_timebase os (world st) in
      if hz = 0 then Some (0, st)
      else let ticks = (usec * hz) mod 2 ^ 64 div 1000000; (start, w) = sys_rdtime os (world st)
           in do { w' \<leftarrow> spin os w start ticks; Some (0, st \<lparr> world := w' \<rparr>) })"

definition sleep :: "'w os \<Rightarrow> 'w px \<Rightarrow> nat \<Rightarrow> (int \<times> 'w px) option" where
  "sleep os st sec = do { (r, st1) \<leftarrow> usleep os st ((sec * 1000000) mod 2 ^ 32); Some (0, st1) }"

subsection \<open>poll\<close>

record pollfd =
  pfd :: int
  pevents :: int
  prevents :: int

abbreviation (input) POLLIN :: int where "POLLIN \<equiv> 1"
abbreviation (input) POLLOUT :: int where "POLLOUT \<equiv> 4"
abbreviation (input) POLLNVAL :: int where "POLLNVAL \<equiv> 32"

text \<open>One entry: the entry with \<^verbatim>\<open>revents\<close> set, whether it counts, whether it waits for stdin.\<close>

definition poll_entry :: "'w px \<Rightarrow> bool \<Rightarrow> pollfd \<Rightarrow> pollfd \<times> bool \<times> bool" where
  "poll_entry st stdin_ready p =
     (if pfd p < 0 then (p \<lparr> prevents := 0 \<rparr>, False, False)
      else if pfd p \<ge> int FD_MAX \<or> kind (fdtab st ! nat (pfd p)) = K_FREE then (p \<lparr> prevents := POLLNVAL \<rparr>, True, False)
      else if kind (fdtab st ! nat (pfd p)) = K_FILE \<or> kind (fdtab st ! nat (pfd p)) = K_NET
      then (let r = pevents p AND (POLLIN OR POLLOUT) in (p \<lparr> prevents := r \<rparr>, r \<noteq> 0, False))
      else let r0 = pevents p AND POLLOUT; wants = (pfd p = 0 \<and> has (pevents p) POLLIN);
               r = (if wants \<and> stdin_ready then r0 OR POLLIN else r0)
           in (p \<lparr> prevents := r \<rparr>, r \<noteq> 0, wants \<and> \<not> stdin_ready))"

fun poll_scan :: "'w px \<Rightarrow> bool \<Rightarrow> pollfd list \<Rightarrow> int \<times> bool \<times> pollfd list" where
  "poll_scan st sr [] = (0, False, [])"
| "poll_scan st sr (p # ps) =
     (let (p', counts, wants) = poll_entry st sr p; (n, want, ps') = poll_scan st sr ps
      in ((if counts then 1 else 0) + n, wants \<or> want, p' # ps'))"

definition poll :: "'w os \<Rightarrow> 'w px \<Rightarrow> pollfd list \<Rightarrow> int \<Rightarrow> (int \<times> pollfd list) \<times> 'w px" where
  "poll os st0 fds timeout_ms =
     (let st = fd_init st0; (n, want_stdin, fds1) = poll_scan st False fds in
      if n > 0 \<or> (\<not> want_stdin \<and> timeout_ms = 0) then ((n, fds1), st)
      else let ticks = (if timeout_ms = 0 then 1
                        else if timeout_ms > 0 then (int (sys_timebase os (world st)) div 1000 * timeout_ms + 1) mod 2 ^ 64
                        else 0);
               (r, w) = sys_await os (world st) (if want_stdin then 2 else 0) (to_int64 ticks); st1 = st \<lparr> world := w \<rparr>
           in if r < 0 then ((-1, fds1), st1 \<lparr> errno := EINVAL \<rparr>)
              else if has r 8 then ((-1, fds1), st1 \<lparr> errno := EINTR \<rparr>)
              else let (m, want, fds2) = poll_scan st1 (has r 2) fds1 in ((m, fds2), st1))"

subsection \<open>Calls the file systems cannot serve\<close>

definition fsync :: "'w px \<Rightarrow> int \<Rightarrow> int \<times> 'w px" where "fsync st fd = (0, st)"
definition fdatasync :: "'w px \<Rightarrow> int \<Rightarrow> int \<times> 'w px" where "fdatasync st fd = (0, st)"

definition readlink :: "'w os \<Rightarrow> 'w px \<Rightarrow> string \<Rightarrow> int \<times> 'w px" where
  "readlink os st path = (let (r, st1) = stat_rc os st path in if r \<noteq> 0 then (-1, st1) else fail EINVAL st1)"

definition symlink :: "'w px \<Rightarrow> string \<Rightarrow> string \<Rightarrow> int \<times> 'w px" where "symlink st t p = fail EPERM st"
definition link_c :: "'w px \<Rightarrow> string \<Rightarrow> string \<Rightarrow> int \<times> 'w px" where "link_c st a b = fail EPERM st"

definition chown :: "'w os \<Rightarrow> 'w px \<Rightarrow> string \<Rightarrow> nat \<Rightarrow> nat \<Rightarrow> int \<times> 'w px" where
  "chown os st path uid gid =
     (let (r, st1) = stat_rc os st path in
      if r \<noteq> 0 then (-1, st1)
      else if uid = 2 ^ 32 - 1 \<and> gid = 2 ^ 32 - 1 then (0, st1)
      else fail EPERM st1)"

definition lchown :: "'w os \<Rightarrow> 'w px \<Rightarrow> string \<Rightarrow> nat \<Rightarrow> nat \<Rightarrow> int \<times> 'w px" where
  "lchown os st path uid gid = chown os st path uid gid"

definition fchown :: "'w os \<Rightarrow> 'w px \<Rightarrow> int \<Rightarrow> nat \<Rightarrow> nat \<Rightarrow> int \<times> 'w px" where
  "fchown os st0 fd uid gid =
     (let st = fd_init st0 in if fd_not_file st fd then fail EBADF st else chown os st (fpath (fdtab st ! nat fd)) uid gid)"

definition utime :: "'w os \<Rightarrow> 'w px \<Rightarrow> string \<Rightarrow> int \<times> 'w px" where "utime os st path = stat_rc os st path"
definition utimes :: "'w os \<Rightarrow> 'w px \<Rightarrow> string \<Rightarrow> int \<times> 'w px" where "utimes os st path = stat_rc os st path"

definition futimens :: "'w px \<Rightarrow> int \<Rightarrow> int \<times> 'w px" where
  "futimens st0 fd = (let st = fd_init st0 in if fd_not_file st fd then fail EBADF st else (0, st))"

definition pathconf :: "'w os \<Rightarrow> 'w px \<Rightarrow> string \<Rightarrow> int \<Rightarrow> int \<times> 'w px" where
  "pathconf os st path name =
     (let (r, st1) = stat_rc os st path in
      if r \<noteq> 0 then (-1, st1)
      else if name = 3 then (255, st1) else if name = 4 then (4096, st1) else if name = 0 then (1, st1)
      else fail EINVAL st1)"

definition fpathconf :: "'w os \<Rightarrow> 'w px \<Rightarrow> int \<Rightarrow> int \<Rightarrow> int \<times> 'w px" where
  "fpathconf os st0 fd name =
     (let st = fd_init st0 in if fd_not_file st fd then fail EBADF st else pathconf os st (fpath (fdtab st ! nat fd)) name)"

subsection \<open>Temporary names\<close>

abbreviation (input) tmp_chars :: string where "tmp_chars \<equiv> ''abcdefghijklmnopqrstuvwxyz0123456789''"

text \<open>The six characters written from \<open>seed\<close>.\<close>

fun tmp_digits :: "nat \<Rightarrow> nat \<Rightarrow> string" where
  "tmp_digits 0 seed = []"
| "tmp_digits (Suc k) seed = tmp_chars ! (seed mod 36) # tmp_digits k (seed div 36)"

text \<open>\<open>None\<close> is the error return.\<close>

definition rc_fill_template :: "string \<Rightarrow> nat \<Rightarrow> string option" where
  "rc_fill_template tmpl seed =
     (let n = length tmpl in
      if n < 6 \<or> drop (n - 6) tmpl \<noteq> ''XXXXXX'' then None
      else Some (take (n - 6) tmpl @ tmp_digits 6 seed))"

definition rc_tmp_seed :: "'w os \<Rightarrow> 'w px \<Rightarrow> nat \<times> 'w px" where
  "rc_tmp_seed os st =
     (let (t, w) = sys_rdtime os (world st); c = (tmp_counter st + 1) mod 2 ^ 64;
          mixed = (of_nat t XOR push_bit 20 (of_int (getpid os st))) + 7919 * of_nat c :: u64
      in (unat mixed, st \<lparr> world := w, tmp_counter := c \<rparr>))"

text \<open>The remaining tries; the template is overwritten in place.\<close>

fun mkstemp_loop :: "'w os \<Rightarrow> nat \<Rightarrow> 'w px \<Rightarrow> string \<Rightarrow> (int \<times> string) \<times> 'w px" where
  "mkstemp_loop os 0 st tmpl = ((-1, tmpl), st \<lparr> errno := EEXIST \<rparr>)"
| "mkstemp_loop os (Suc k) st tmpl =
     (let (seed, st1) = rc_tmp_seed os st in
      case rc_fill_template tmpl seed of
        None \<Rightarrow> ((-1, tmpl), st1 \<lparr> errno := EINVAL \<rparr>)
      | Some t \<Rightarrow>
          (let (fd, st2) = open_c os st1 t (O_RDWR OR O_CREAT OR O_EXCL) in
           if fd \<ge> 0 \<or> errno st2 \<noteq> EEXIST then ((fd, t), st2) else mkstemp_loop os k st2 t))"

definition mkstemp :: "'w os \<Rightarrow> 'w px \<Rightarrow> string \<Rightarrow> (int \<times> string) \<times> 'w px" where
  "mkstemp os st tmpl = mkstemp_loop os 100 st tmpl"

fun mkdtemp_loop :: "'w os \<Rightarrow> nat \<Rightarrow> 'w px \<Rightarrow> string \<Rightarrow> (bool \<times> string) \<times> 'w px" where
  "mkdtemp_loop os 0 st tmpl = ((False, tmpl), st \<lparr> errno := EEXIST \<rparr>)"
| "mkdtemp_loop os (Suc k) st tmpl =
     (let (seed, st1) = rc_tmp_seed os st in
      case rc_fill_template tmpl seed of
        None \<Rightarrow> ((False, tmpl), st1 \<lparr> errno := EINVAL \<rparr>)
      | Some t \<Rightarrow>
          (let (r, st2) = mkdir os st1 t in
           if r = 0 then ((True, t), st2)
           else if errno st2 \<noteq> EEXIST then ((False, t), st2)
           else mkdtemp_loop os k st2 t))"

definition mkdtemp :: "'w os \<Rightarrow> 'w px \<Rightarrow> string \<Rightarrow> (bool \<times> string) \<times> 'w px" where
  "mkdtemp os st tmpl = mkdtemp_loop os 100 st tmpl"

subsection \<open>The \<^verbatim>\<open>*at()\<close> family\<close>

abbreviation (input) AT_FDCWD :: int where "AT_FDCWD \<equiv> -100"

text \<open>The path in the caller's buffer of \<open>cap\<close> bytes, or \<open>None\<close> for the error return.\<close>

definition rc_at_path :: "'w px \<Rightarrow> int \<Rightarrow> string \<Rightarrow> nat \<Rightarrow> string option \<times> 'w px" where
  "rc_at_path st0 dirfd path cap =
     (if (path \<noteq> [] \<and> hd path = SLASH) \<or> dirfd = AT_FDCWD
      then (if length path \<ge> cap then (None, st0 \<lparr> errno := ENAMETOOLONG \<rparr>) else (Some path, st0))
      else let st = fd_init st0 in
           if fd_not_file st dirfd then (None, st \<lparr> errno := EBADF \<rparr>)
           else let d = fpath (fdtab st ! nat dirfd) in
                if length d + 1 + length path \<ge> cap then (None, st \<lparr> errno := ENAMETOOLONG \<rparr>)
                else (Some (d @ SLASH # path), st))"

text \<open>Each member resolves the path and calls its plain counterpart.\<close>

definition with_at :: "'w px \<Rightarrow> int \<Rightarrow> string \<Rightarrow> ('w px \<Rightarrow> string \<Rightarrow> int \<times> 'w px) \<Rightarrow> int \<times> 'w px" where
  "with_at st dirfd path f = (case rc_at_path st dirfd path 256 of (None, st1) \<Rightarrow> (-1, st1) | (Some p, st1) \<Rightarrow> f st1 p)"

definition openat :: "'w os \<Rightarrow> 'w px \<Rightarrow> int \<Rightarrow> string \<Rightarrow> int \<Rightarrow> int \<times> 'w px" where
  "openat os st dirfd path flags = with_at st dirfd path (\<lambda>st p. open_c os st p flags)"

definition unlinkat :: "'w os \<Rightarrow> 'w px \<Rightarrow> int \<Rightarrow> string \<Rightarrow> int \<Rightarrow> int \<times> 'w px" where
  "unlinkat os st dirfd path flags = with_at st dirfd path (\<lambda>st p. if has flags 512 then rmdir os st p else unlink os st p)"

definition fstatat :: "'w os \<Rightarrow> 'w px \<Rightarrow> int \<Rightarrow> string \<Rightarrow> int \<Rightarrow> cstat option \<times> 'w px" where
  "fstatat os st dirfd path flags =
     (case rc_at_path st dirfd path 256 of (None, st1) \<Rightarrow> (None, st1) | (Some p, st1) \<Rightarrow> stat_c os st1 p)"

definition mkdirat :: "'w os \<Rightarrow> 'w px \<Rightarrow> int \<Rightarrow> string \<Rightarrow> int \<Rightarrow> int \<times> 'w px" where
  "mkdirat os st dirfd path mode = with_at st dirfd path (\<lambda>st p. mkdir os st p)"

definition utimensat :: "'w os \<Rightarrow> 'w px \<Rightarrow> int \<Rightarrow> string \<Rightarrow> int \<Rightarrow> int \<times> 'w px" where
  "utimensat os st dirfd path flags = with_at st dirfd path (\<lambda>st p. stat_rc os st p)"

definition fchmodat :: "'w px \<Rightarrow> int \<Rightarrow> string \<Rightarrow> int \<Rightarrow> int \<Rightarrow> int \<times> 'w px" where
  "fchmodat st dirfd path mode flags = with_at st dirfd path (\<lambda>st p. chmod st p mode)"

subsection \<open>What ftruncate does to a file\<close>

lemma overlay_zeros:
  "overlay c (length c) (take (nat (int n)) (replicate 1024 NUL)) = c @ replicate (min n 1024) NUL"
  by (simp add: overlay_append min.commute)

context fs_store
begin

lemma grow_loop_file:
  assumes "ok (world st)" "p \<in> P" "cont (world st) p = Some c" "want \<le> cap (world st) p" "length c \<le> want"
  shows "\<exists>w'. grow_loop os st p (length c) want = (0, st \<lparr> world := w' \<rparr>) \<and> ok w'
    \<and> cont w' = (cont (world st))(p \<mapsto> c @ replicate (want - length c) NUL)"
  using assms
proof (induction "want - length c" arbitrary: st c rule: less_induct)
  case less
  show ?case
  proof (cases "length c < want")
    case False
    then have "length c = want" using less.prems(5) by simp
    moreover have "(cont (world st))(p \<mapsto> c) = cont (world st)" using less.prems(3) by (simp add: fun_upd_idem)
    ultimately show ?thesis
      using less.prems(1) by (intro exI [of _ "world st"]) (subst grow_loop.simps, simp)
  next
    case True
    define n where "n = (if want - length c > 1024 then 1024 else want - length c)"
    have n: "0 < n" "n \<le> 1024" "length c + n \<le> want" using True by (auto simp: n_def)
    have b: "0 \<le> int n" "int n \<le> int (length (replicate 1024 NUL))" "int n \<le> RC_FS_WRITE_AT_MAXCHUNK"
      "length c \<le> length c" "length c + nat (int n) \<le> cap (world st) p" using n less.prems(4) by auto
    let ?c = "c @ replicate n NUL"
    obtain w where w: "rc_fs_write_at os (world st) p (replicate 1024 NUL) (int n) (int (length c)) = (int n, w)" "ok w"
        "cont w = (cont (world st))(p \<mapsto> ?c)" "cap (world st) p \<le> cap w p"
      using write_law [OF less.prems(1-3) b] n(2) unfolding overlay_zeros by (auto simp: min_def)
    let ?st = "st \<lparr> world := w \<rparr>"
    have step: "grow_loop os st p (length c) want = grow_loop os ?st p (length ?c) want"
      using True w(1) by (subst grow_loop.simps) (simp add: Let_def flip: n_def)
    have "want - length ?c < want - length c" "length ?c \<le> want" "ok (world ?st)" "cont (world ?st) p = Some ?c"
      "want \<le> cap (world ?st) p" using True n w less.prems(4) by auto
    from less.hyps [OF this(1) this(3) less.prems(2) this(4,5,2)] obtain w' where
      w': "grow_loop os ?st p (length ?c) want = (0, ?st \<lparr> world := w' \<rparr>)" "ok w'"
        "cont w' = (cont w)(p \<mapsto> ?c @ replicate (want - length ?c) NUL)" by auto
    have "?c @ replicate (want - length ?c) NUL = c @ replicate (want - length c) NUL"
      using n(3) by (simp flip: replicate_add)
    then show ?thesis using w' w(3) step by (intro exI [of _ w']) simp
  qed
qed

lemma keep_loop_file:
  assumes "ok (world st)" "p \<in> P" "cont (world st) p = Some c" "got \<le> want" "want \<le> length c"
  shows "\<exists>w'. keep_loop os st p got want (take got c) = (Some (take want c), st \<lparr> world := w' \<rparr>) \<and> ok w'
    \<and> cont w' = cont (world st) \<and> cap w' = cap (world st)"
  using assms
proof (induction "want - got" arbitrary: st got rule: less_induct)
  case less
  show ?case
  proof (cases "got < want")
    case False
    then show ?thesis
      using less.prems(1,4) by (intro exI [of _ "world st"]) (subst keep_loop.simps, simp)
  next
    case True
    have sz: "int (length c) < 2 ^ 31" using file_size less.prems(1-3) by blast
    have b: "0 \<le> int (want - got)" "int (want - got) < 2 ^ 31" "got < 2 ^ 32" using sz less.prems(4,5) by auto
    obtain k w where k: "rc_fs_read_at os (world st) p (int (want - got)) (int got) = ((int k, take k (drop got c)), w)"
        "cont w = cont (world st)" "ok w" "int k \<le> int (want - got)" "k \<le> length c - got"
        "k = 0 \<longrightarrow> int (want - got) = 0 \<or> length c \<le> got" "cap w = cap (world st)"
      using read_law [OF less.prems(1-3) b] by blast
    have k0: "0 < k" using k(6) True less.prems(5) by (cases "k = 0") auto
    let ?st = "st \<lparr> world := w \<rparr>"
    have "take got c @ take k (drop got c) = take (got + k) c" by (simp add: take_add)
    then have step: "keep_loop os st p got want (take got c) = keep_loop os ?st p (got + k) want (take (got + k) c)"
      using True k(1) k0 by (subst keep_loop.simps) simp
    have "want - (got + k) < want - got" "got + k \<le> want" "ok (world ?st)" "cont (world ?st) p = Some c"
      using True k0 k less.prems(3) by auto
    from less.hyps [OF this(1) this(3) less.prems(2) this(4) this(2) less.prems(5)] k(2,7) step show ?thesis by auto
  qed
qed

lemma overlay_Nil: "overlay [] 0 bs = bs"
  by (simp add: overlay_def)

text \<open>Shrinking: the kept bytes are written back with one request, which carries at most one chunk.\<close>

lemma shrink_file:
  assumes "ok (world st)" "p \<in> P" "cont (world st) p = Some c" "file_at st fd p off" "want < length c" "\<forall>n. mal n"
  shows "\<exists>w'. ftruncate os mal st (int fd) (int want) =
      (if int want \<le> RC_FS_WRITE_AT_MAXCHUNK then (0, st \<lparr> world := w' \<rparr>) else (-1, st \<lparr> world := w', errno := EIO \<rparr>))
    \<and> ok w' \<and> (cont w' = (cont (world st))(p \<mapsto> take (min want 8084) c) \<or> want = 0 \<and> cont w' = (cont (world st))(p := None))"
proof -
  have fa: "fdtab_inited st" "fpath (fdtab st ! fd) = p" using assms(4) by (simp_all add: file_at_def)
  obtain w1 where w1: "rc_fs_stat os (world st) p = (Some (int (length c), 0), w1)" "cont w1 = cont (world st)" "ok w1"
      "cap w1 = cap (world st)"
    using stat_law [OF assms(1,2)] assms(3) by auto
  obtain w2 where w2: "keep_loop os (st \<lparr> world := w1 \<rparr>) p 0 want [] = (Some (take want c), st \<lparr> world := w2 \<rparr>)" "ok w2"
      "cont w2 = cont (world st)" "cap w2 = cap (world st)"
    using keep_loop_file [of "st \<lparr> world := w1 \<rparr>" p c 0 want] w1 assms(2,3,5) by auto
  obtain w3 where w3: "rc_fs_delete os w2 p 0 = (0, w3)" "ok w3" "cont w3 = (cont w2)(p := None)" "cap w2 p \<le> cap w3 p"
    using delete_law [OF w2(2) assms(2)] w2(3) assms(3) by auto
  have n3: "cont w3 p = None" "length c \<le> cap w3 p"
    using w3(3,4) w2(4) size_law [OF assms(1-3)] by auto
  define m where "m = min (int want) RC_FS_WRITE_AT_MAXCHUNK"
  have wr: "rc_fs_write_at os w3 p (take want c) (int want) 0 = rc_fs_write_at os w3 p (take want c) m 0"
    by (simp add: rc_fs_write_at_def Let_def m_def min_def split: prod.split)
  have cr: "rc_fs_write_at os w3 p (take want c) m 0 = (m, w4) \<Longrightarrow> ok w4 \<Longrightarrow>
      cont w4 = (cont w3)(p \<mapsto> take (nat m) (take want c)) \<or> want = 0 \<and> cont w4 = cont w3 \<Longrightarrow> ?thesis" for w4
    unfolding ftruncate_def using fa file_at_not_bad [OF assms(4)] w1(1) w2(1) w3(1,3) w2(3) assms(5,6) wr
    by (intro exI [of _ w4]) (auto simp: fail_def m_def min_def Let_def)
  show ?thesis
  proof (cases "want = 0")
    case True
    obtain w4 where "rc_fs_write_at os w3 p (take want c) 0 0 = (0, w4)" "ok w4" "cont w4 = (cont w3)(p \<mapsto> []) \<or> cont w4 = cont w3"
      using touch_law [OF w3(2) assms(2) n3(1), of "take want c"] n3(2) assms(5) by auto
    then show ?thesis using cr [of w4] True by (simp add: m_def)
  next
    case False
    have "0 < m" "m \<le> int (length (take want c))" "m \<le> RC_FS_WRITE_AT_MAXCHUNK" "nat m \<le> cap w3 p"
      using assms(5) False n3(2) by (auto simp: m_def)
    then show ?thesis using create_law [OF w3(2) assms(2) n3(1), of m "take want c"] cr by blast
  qed
qed

lemma truncate_same_or_grow:
  assumes "ok (world st)" "p \<in> P" "cont (world st) p = Some c" "file_at st fd p off" "length c \<le> want" "want \<le> cap (world st) p"
  shows "\<exists>w'. ftruncate os mal st (int fd) (int want) = (0, st \<lparr> world := w' \<rparr>) \<and> ok w'
    \<and> cont w' = (cont (world st))(p \<mapsto> c @ replicate (want - length c) NUL)"
proof -
  have fa: "fdtab_inited st" "fpath (fdtab st ! fd) = p" using assms(4) by (simp_all add: file_at_def)
  obtain w1 where w1: "rc_fs_stat os (world st) p = (Some (int (length c), 0), w1)" "cont w1 = cont (world st)" "ok w1"
      "cap w1 = cap (world st)"
    using stat_law [OF assms(1,2)] assms(3) by auto
  let ?s = "st \<lparr> world := w1 \<rparr>"
  have cw: "cont (world ?s) p = Some c" "ok (world ?s)" "want \<le> cap (world ?s) p" using w1 assms(3,6) by simp_all
  obtain w2 where w2: "grow_loop os ?s p (length c) want = (0, ?s \<lparr> world := w2 \<rparr>)" "ok w2"
      "cont w2 = (cont w1)(p \<mapsto> c @ replicate (want - length c) NUL)"
    using grow_loop_file [OF cw(2) assms(2) cw(1,3) assms(5)] by auto
  show ?thesis
  proof (cases "length c = want")
    case True
    then have "ftruncate os mal st (int fd) (int want) = (0, ?s)"
      using fa file_at_not_bad [OF assms(4)] w1(1) by (simp add: ftruncate_def Let_def)
    moreover have "(cont (world st))(p \<mapsto> c) = cont (world st)" using assms(3) by (simp add: fun_upd_idem)
    ultimately show ?thesis using True w1 by (intro exI [of _ w1]) simp
  next
    case False
    then have "ftruncate os mal st (int fd) (int want) = grow_loop os ?s p (length c) want"
      using fa file_at_not_bad [OF assms(4)] w1(1) assms(5) by (simp add: ftruncate_def Let_def)
    then show ?thesis using w2 w1(2) by (intro exI [of _ w2]) simp
  qed
qed

end

subsection \<open>Temporary names\<close>

lemma tmp_digits_no_X: "c \<in> set (tmp_digits k seed) \<Longrightarrow> c \<noteq> CHR ''X''"
proof (induction k arbitrary: seed)
  case (Suc k)
  have "tmp_chars ! (seed mod 36) \<in> set tmp_chars" by (rule nth_mem) simp
  then have "tmp_chars ! (seed mod 36) \<noteq> CHR ''X''" by auto
  then show ?case using Suc by auto
qed simp

lemma length_tmp_digits [simp]: "length (tmp_digits k seed) = k"
  by (induction k arbitrary: seed) auto

lemma fill_template_once:
  assumes "rc_fill_template tmpl seed = Some t"
  shows "rc_fill_template t seed' = None" "length t = length tmpl" "take (length tmpl - 6) t = take (length tmpl - 6) tmpl"
proof -
  have t: "t = take (length tmpl - 6) tmpl @ tmp_digits 6 seed" "6 \<le> length tmpl"
    using assms by (auto simp: rc_fill_template_def Let_def split: if_splits)
  then show l: "length t = length tmpl" "take (length tmpl - 6) t = take (length tmpl - 6) tmpl" by simp_all
  have "drop (length t - 6) t = tmp_digits 6 seed" using t by simp
  moreover have "hd (tmp_digits 6 seed) \<noteq> CHR ''X''"
    by (rule tmp_digits_no_X [of _ 6 seed]) (metis hd_in_set length_0_conv length_tmp_digits zero_neq_numeral)
  ultimately have "drop (length t - 6) t \<noteq> ''XXXXXX''" by (metis list.sel(1))
  then show "rc_fill_template t seed' = None" by (simp add: rc_fill_template_def Let_def)
qed

subsection \<open>Properties\<close>



text \<open>Shrinking a file to more than one message's worth of data fails with \<^verbatim>\<open>EIO\<close> and destroys the
  data behind the first 8084 bytes: the old file is already deleted when the single write back turns out
  to be short.\<close>

theorem ftruncate_loses_tail:
  assumes "file_server os ok cont cap P srv fname" "ok (world st)" "p \<in> P" "cont (world st) p = Some c" "file_at st fd p off"
    "8084 < want" "want < length c" "\<forall>n. mal n"
  shows "\<exists>w'. ftruncate os mal st (int fd) (int want) = (-1, st \<lparr> world := w', errno := EIO \<rparr>)
    \<and> cont w' p = Some (take 8084 c)"
  using fs_store.shrink_file [OF file_server.store [OF assms(1)] assms(2-5,7,8)] assms(6) by (auto simp: min_def)

theorem ftruncate_loses_tail_witness:
  "\<exists>w'. ftruncate fsd_os (\<lambda>n. True) (demo_px \<lparr> world := demo_w \<lparr> fsw_files := [''motd'' \<mapsto> replicate 9000 CHR ''x''] \<rparr> \<rparr>) 3 8500
      = (-1, demo_px \<lparr> world := w', errno := EIO \<rparr>)
    \<and> fsd_cont w' ''/motd'' = Some (replicate 8084 CHR ''x'')"
proof -
  let ?st = "demo_px \<lparr> world := demo_w \<lparr> fsw_files := [''motd'' \<mapsto> replicate 9000 CHR ''x''] \<rparr> \<rparr>"
  have s: "fsd_ok (world ?st)" "fsd_cont (world ?st) ''/motd'' = Some (replicate 9000 CHR ''x'')" "file_at ?st 3 ''/motd'' 1"
    using demo(2,4) by (simp_all add: fsd_ok_def fsd_cont_def file_at_def demo_w_def)
  obtain w' where "ftruncate fsd_os (\<lambda>n. True) ?st (int 3) (int 8500) = (-1, ?st \<lparr> world := w', errno := EIO \<rparr>)"
      "fsd_cont w' ''/motd'' = Some (take 8084 (replicate 9000 CHR ''x''))"
    using ftruncate_loses_tail [OF fsd.file_server_axioms s(1) demo(2) s(2,3), of 8500 "\<lambda>n. True"] by auto
  then show ?thesis by (auto simp: min_def)
qed

lemma mkstemp_loop_gives_up:
  assumes "rc_tmp_seed os st = (seed, st1)" "rc_fill_template tmpl seed = Some t"
    "open_c os st1 t (O_RDWR OR O_CREAT OR O_EXCL) = (-1, st2)" "errno st2 = EEXIST"
  shows "\<exists>st3. mkstemp_loop os (Suc (Suc k)) st tmpl = ((-1, t), st3) \<and> errno st3 = EINVAL"
proof -
  obtain seed' s3 where s3: "rc_tmp_seed os st2 = (seed', s3)" by force
  have "rc_fill_template t seed' = None" using fill_template_once(1) [OF assms(2)] .
  then show ?thesis using assms s3 by simp
qed

text \<open>When the first temporary name is taken, \<open>mkstemp\<close> does not retry with another one: the template
  has been overwritten, the next round rejects it, and the call fails with \<^verbatim>\<open>EINVAL\<close>.\<close>

theorem mkstemp_gives_up:
  assumes "rc_tmp_seed os st = (seed, st1)" "rc_fill_template tmpl seed = Some t"
    "open_c os st1 t (O_RDWR OR O_CREAT OR O_EXCL) = (-1, st2)" "errno st2 = EEXIST"
  shows "\<exists>st3. mkstemp os st tmpl = ((-1, t), st3) \<and> errno st3 = EINVAL"
  using mkstemp_loop_gives_up [OF assms, of 98] by (simp add: mkstemp_def)

theorem mkstemp_gives_up_witness:
  "\<exists>st3. mkstemp fsd_os (demo_px \<lparr> world := demo_w \<lparr> fsw_files := (\<lambda>n. Some []) \<rparr> \<rparr>) ''/tmpXXXXXX'' = ((-1, ''/tmp'' @ tmp_digits 6 1056495), st3) \<and> errno st3 = EINVAL"
proof -
  let ?w = "demo_w \<lparr> fsw_files := (\<lambda>n. Some []) \<rparr>"
  let ?st = "demo_px \<lparr> world := ?w \<rparr>" and ?st1 = "demo_px \<lparr> world := ?w, tmp_counter := 1 \<rparr>"
  let ?t = "''/tmp'' @ tmp_digits 6 1056495"
  have seed: "rc_tmp_seed fsd_os ?st = (1056495, ?st1)"
    by (simp add: rc_tmp_seed_def fsd_os_def no_os_def getpid_def demo_px_def px_start_def)
  have f: "rc_fill_template ''/tmpXXXXXX'' 1056495 = Some ?t" by (simp add: rc_fill_template_def)
  have "6 = Suc (Suc (Suc (Suc (Suc (Suc 0)))))" by simp
  then have d: "tmp_digits 6 1056495 = ''dhxwaa''" by (simp only: tmp_digits.simps) simp
  have p: "?t \<in> fsd_paths" unfolding d fsd_paths_def
    by (intro CollectI exI [of _ "[''tmpdhxwaa'']"]) (simp add: render_def plain_def name_ok_def)
  have k: "px_ok ?st1" "fsd_ok (world ?st1)" "abspath fsd_os (world ?st1) ?t = ?t"
    using demo(5) abspath_canon [OF p] by (simp_all add: fsd_ok_def px_ok_def demo_w_def)
  have fl: "\<not> has (O_RDWR OR O_CREAT OR O_EXCL) O_DIRECTORY" by (simp add: has_def)
  have "open_outcome (fsd_cont (world ?st1) ?t) (O_RDWR OR O_CREAT OR O_EXCL) = Inl EEXIST"
    using p by (simp add: open_outcome_def fsd_cont_def has_def)
  moreover have "0 < fsd_cap (world ?st1) ?t" by (simp add: fsd_cap_def demo_w_def)
  ultimately obtain w' where
    "open_c fsd_os ?st1 ?t (O_RDWR OR O_CREAT OR O_EXCL) = (-1, (fd_init ?st1) \<lparr> world := w', errno := EEXIST \<rparr>)"
    using fs_store.open_refused [OF fsd.store k p fl] by blast
  then show ?thesis by (rule mkstemp_gives_up [OF seed f]) simp
qed

end
