(* ===== verification/Stdio.thy ===== *)
theory Stdio
  imports RcPosixMeta
begin

unbundle bit_operations_syntax

text \<open>
  \<^verbatim>\<open>src/stdio.c\<close>: buffered streams over the descriptor layer.

  A stream is the record \<open>cfile\<close> (\<^verbatim>\<open>struct __FILE\<close>); its buffer is the list of its bytes, \<open>None\<close> for
  \<^verbatim>\<open>NULL\<close>. An operation takes the stream and the descriptor state and returns its C result, the
  stream and the state. The three standard streams are fields of \<open>sio\<close>. An \<^verbatim>\<open>open_memstream\<close>
  buffer is kept in the stream itself: the bytes before its terminator and the size the caller sees.
  \<^verbatim>\<open>EOF\<close> is -1; \<open>mal n\<close> is whether an allocation of \<open>n\<close> bytes
  succeeds; a fresh stream buffer, which is never read before it is written, is shown as zeros.
\<close>

record memstream =
  ms_data :: "byte list"
  ms_size :: nat
  ms_cap :: nat

record cfile =
  ffd :: int
  rmode :: bool
  wmode :: bool
  ferr :: bool
  feofl :: bool
  bufmode :: int
  buf_owned :: bool
  fbuf :: "byte list option"
  bufcap :: nat
  rpos :: nat
  rlen :: nat
  wlen :: nat
  fpos :: int
  ungot :: int
  fms :: "memstream option"

abbreviation (input) IOFBF :: int where "IOFBF \<equiv> 0"
abbreviation (input) IOLBF :: int where "IOLBF \<equiv> 1"
abbreviation (input) IONBF :: int where "IONBF \<equiv> 2"
abbreviation (input) BUFSIZ :: nat where "BUFSIZ \<equiv> 4096"
abbreviation (input) EOF :: int where "EOF \<equiv> -1"

record 'w sio =
  sstdin :: cfile
  sstdout :: cfile
  sstderr :: cfile
  sctr :: nat
  spx :: "'w px"

definition std_file :: "int \<Rightarrow> bool \<Rightarrow> bool \<Rightarrow> int \<Rightarrow> cfile" where
  "std_file fd rd wr mode = \<lparr> ffd = fd, rmode = rd, wmode = wr, ferr = False, feofl = False, bufmode = mode, buf_owned = False,
     fbuf = None, bufcap = 0, rpos = 0, rlen = 0, wlen = 0, fpos = 0, ungot = -1, fms = None \<rparr>"

definition sio_start :: "'w px \<Rightarrow> 'w sio" where
  "sio_start px = \<lparr> sstdin = std_file 0 True False IOLBF, sstdout = std_file 1 False True IOLBF,
     sstderr = std_file 2 False True IONBF, sctr = 0, spx = px \<rparr>"

definition ensure_buf :: "(nat \<Rightarrow> bool) \<Rightarrow> 'w px \<Rightarrow> cfile \<Rightarrow> int \<times> cfile \<times> 'w px" where
  "ensure_buf mal px f =
     (if fbuf f \<noteq> None then (0, f, px)
      else if \<not> mal BUFSIZ then (-1, f \<lparr> ferr := True \<rparr>, px \<lparr> errno := ENOMEM \<rparr>)
      else (0, f \<lparr> fbuf := Some (replicate BUFSIZ NUL), bufcap := BUFSIZ, buf_owned := True \<rparr>, px))"

text \<open>\<^verbatim>\<open>while (nc < need) nc *= 2;\<close>\<close>

function double_to :: "nat \<Rightarrow> nat \<Rightarrow> nat" where
  "double_to nc need = (if 0 < nc \<and> nc < need then double_to (nc * 2) need else nc)"
  by pat_completeness auto
termination by (relation "measure (\<lambda>(nc, need). need - nc)") auto

declare double_to.simps [simp del]

definition ms_append :: "(nat \<Rightarrow> bool) \<Rightarrow> 'w px \<Rightarrow> cfile \<Rightarrow> memstream \<Rightarrow> byte list \<Rightarrow> int \<times> cfile \<times> 'w px" where
  "ms_append mal px f ms src =
     (let need = length (ms_data ms) + length src + 1;
          nc = (if need > ms_cap ms then double_to (if ms_cap ms \<noteq> 0 then ms_cap ms * 2 else 128) need else ms_cap ms)
      in if need > ms_cap ms \<and> \<not> mal nc then (EOF, f \<lparr> ferr := True \<rparr>, px \<lparr> errno := ENOMEM \<rparr>)
         else (0, f \<lparr> fms := Some \<lparr> ms_data = ms_data ms @ src, ms_size = length (ms_data ms @ src), ms_cap = nc \<rparr> \<rparr>, px))"

text \<open>The write loop of \<open>flush_write\<close>: the pending bytes not yet written.\<close>

function flush_loop :: "'w os \<Rightarrow> 'w netops \<Rightarrow> 'w px \<Rightarrow> int \<Rightarrow> byte list \<Rightarrow> bool \<times> 'w px" where
  "flush_loop os net px fd pending =
     (if pending = [] then (True, px)
      else let (w, px1) = write_c os net px fd pending in
           if w \<le> 0 then (False, px1) else flush_loop os net px1 fd (drop (nat w) pending))"
  by pat_completeness auto
termination
proof (relation "measure (\<lambda>(_, _, _, _, p). length p)", goal_cases)
  case (2 os net px fd pending r w px1)
  then have "0 < nat w" "0 < length pending" by auto
  then show ?case by simp
qed simp

declare flush_loop.simps [simp del]

definition pending :: "cfile \<Rightarrow> byte list" where
  "pending f = take (wlen f) (case fbuf f of Some b \<Rightarrow> b | None \<Rightarrow> [])"

definition flush_write :: "'w os \<Rightarrow> 'w netops \<Rightarrow> (nat \<Rightarrow> bool) \<Rightarrow> 'w px \<Rightarrow> cfile \<Rightarrow> int \<times> cfile \<times> 'w px" where
  "flush_write os net mal px f =
     (if wlen f = 0 then (0, f, px)
      else case fms f of
        Some ms \<Rightarrow>
          (let (r, f1, px1) = ms_append mal px f ms (pending f) in
           if r = EOF then (EOF, f1, px1)
           else (0, f1 \<lparr> fpos := fpos f1 + int (wlen f1), wlen := 0 \<rparr>, px1))
      | None \<Rightarrow>
          (let (done, px1) = flush_loop os net px (ffd f) (pending f) in
           if \<not> done then (EOF, f \<lparr> ferr := True \<rparr>, px1)
           else (0, f \<lparr> fpos := fpos f + int (wlen f), wlen := 0 \<rparr>, px1)))"

definition drop_read :: "'w os \<Rightarrow> 'w px \<Rightarrow> cfile \<Rightarrow> cfile \<times> 'w px" where
  "drop_read os px f =
     (let px1 = (if rlen f > rpos f then snd (lseek os px (ffd f) (fpos f + int (rpos f)) 0) else px)
      in (f \<lparr> rpos := 0, rlen := 0 \<rparr>, px1))"

text \<open>\<^verbatim>\<open>fflush(NULL)\<close> and \<open>__libc_stdio_exit_flush\<close> flush the two standard output streams.\<close>

definition exit_flush :: "'w os \<Rightarrow> 'w netops \<Rightarrow> (nat \<Rightarrow> bool) \<Rightarrow> 'w sio \<Rightarrow> 'w sio" where
  "exit_flush os net mal s =
     (let (r1, f1, px1) = flush_write os net mal (spx s) (sstdout s);
          (r2, f2, px2) = flush_write os net mal px1 (sstderr s)
      in s \<lparr> sstdout := f1, sstderr := f2, spx := px2 \<rparr>)"

definition fflush_all :: "'w os \<Rightarrow> 'w netops \<Rightarrow> (nat \<Rightarrow> bool) \<Rightarrow> 'w sio \<Rightarrow> int \<times> 'w sio" where
  "fflush_all os net mal s =
     (let (r1, f1, px1) = flush_write os net mal (spx s) (sstdout s);
          (r2, f2, px2) = flush_write os net mal px1 (sstderr s)
      in (if r1 = EOF \<or> r2 = EOF then EOF else 0, s \<lparr> sstdout := f1, sstderr := f2, spx := px2 \<rparr>))"

definition fflush :: "'w os \<Rightarrow> 'w netops \<Rightarrow> (nat \<Rightarrow> bool) \<Rightarrow> 'w px \<Rightarrow> cfile \<Rightarrow> int \<times> cfile \<times> 'w px" where
  "fflush os net mal px f = flush_write os net mal px f"

text \<open>Read, write, append, truncate; \<open>None\<close> is the error return.\<close>

definition parse_mode :: "string \<Rightarrow> (bool \<times> bool \<times> bool \<times> bool) option" where
  "parse_mode mode =
     (case mode of [] \<Rightarrow> None
      | c # cs \<Rightarrow>
          (let plus = (CHR ''+'' \<in> set cs) in
           if c = CHR ''r'' then Some (True, plus, False, False)
           else if c = CHR ''w'' then Some (plus, True, False, True)
           else if c = CHR ''a'' then Some (plus, True, True, False)
           else None))"

definition fdopen :: "'w os \<Rightarrow> (nat \<Rightarrow> bool) \<Rightarrow> 'w px \<Rightarrow> int \<Rightarrow> string \<Rightarrow> cfile option \<times> 'w px" where
  "fdopen os mal px fd mode =
     (case parse_mode mode of None \<Rightarrow> (None, px \<lparr> errno := EINVAL \<rparr>)
      | Some (rd, wr, ap, tr) \<Rightarrow>
          if \<not> mal 120 then (None, px \<lparr> errno := ENOMEM \<rparr>)
          else let (t, px1) = isatty os px fd
               in (Some (std_file fd rd wr (if t \<noteq> 0 then IOLBF else IOFBF)), px1))"

definition open_memstream :: "(nat \<Rightarrow> bool) \<Rightarrow> 'w px \<Rightarrow> cfile option \<times> 'w px" where
  "open_memstream mal px =
     (if \<not> mal 120 \<or> \<not> mal 1 then (None, px \<lparr> errno := ENOMEM \<rparr>)
      else (Some ((std_file (-1) False True IOFBF) \<lparr> fms := Some \<lparr> ms_data = [], ms_size = 0, ms_cap = 1 \<rparr> \<rparr>), px))"

definition mode_flags :: "bool \<Rightarrow> bool \<Rightarrow> bool \<Rightarrow> bool \<Rightarrow> int" where
  "mode_flags rd wr ap tr =
     (let f0 = (if rd \<and> wr then O_RDWR else if wr then O_WRONLY else 0);
          f1 = (if wr then f0 OR O_CREAT else f0); f2 = (if tr then f1 OR O_TRUNC else f1)
      in if ap then f2 OR O_APPEND else f2)"

definition fopen :: "'w os \<Rightarrow> 'w netops \<Rightarrow> (nat \<Rightarrow> bool) \<Rightarrow> 'w px \<Rightarrow> string \<Rightarrow> string \<Rightarrow> cfile option \<times> 'w px" where
  "fopen os net mal px path mode =
     (case parse_mode mode of None \<Rightarrow> (None, px \<lparr> errno := EINVAL \<rparr>)
      | Some (rd, wr, ap, tr) \<Rightarrow>
          (let (fd, px1) = open_c os px path (mode_flags rd wr ap tr) in
           if fd < 0 then (None, px1)
           else case fdopen os mal px1 fd mode of
                  (None, px2) \<Rightarrow> (None, snd (close_c net px2 fd))
                | (Some f, px2) \<Rightarrow> (Some (f \<lparr> buf_owned := False \<rparr>), px2)))"

definition freopen :: "'w os \<Rightarrow> 'w netops \<Rightarrow> (nat \<Rightarrow> bool) \<Rightarrow> 'w px \<Rightarrow> string \<Rightarrow> string \<Rightarrow> cfile \<Rightarrow> bool \<times> cfile \<times> 'w px" where
  "freopen os net mal px path mode f =
     (let (r, f1, px1) = fflush os net mal px f;
          px2 = (if ffd f1 > 2 then snd (close_c net px1 (ffd f1)) else px1)
      in case parse_mode mode of None \<Rightarrow> (False, f1, px2 \<lparr> errno := EINVAL \<rparr>)
         | Some (rd, wr, ap, tr) \<Rightarrow>
             (let (fd, px3) = open_c os px2 path (mode_flags rd wr ap tr) in
              if fd < 0 then (False, f1, px3)
              else (True, f1 \<lparr> ffd := fd, rmode := rd, wmode := wr, ferr := False, feofl := False,
                      rpos := 0, rlen := 0, wlen := 0, fpos := 0, ungot := -1 \<rparr>, px3)))"

text \<open>The result; the stream is gone.\<close>

definition fclose :: "'w os \<Rightarrow> 'w netops \<Rightarrow> (nat \<Rightarrow> bool) \<Rightarrow> 'w px \<Rightarrow> cfile \<Rightarrow> int \<times> cfile \<times> 'w px" where
  "fclose os net mal px f =
     (let (r, f1, px1) = flush_write os net mal px f in
      if ffd f1 > 2
      then let (k, px2) = close_c net px1 (ffd f1) in (if k \<noteq> 0 then EOF else r, f1, px2)
      else (r, f1, px1))"

subsection \<open>Input\<close>

definition refill :: "'w os \<Rightarrow> 'w netops \<Rightarrow> (nat \<Rightarrow> bool) \<Rightarrow> 'w px \<Rightarrow> cfile \<Rightarrow> int \<times> cfile \<times> 'w px" where
  "refill os net mal px f =
     (let (r0, f0, px0) = (if wlen f \<noteq> 0 then flush_write os net mal px f else (0, f, px));
          (e, f1, px1) = ensure_buf mal px0 f0
      in if e < 0 then (EOF, f1, px1)
         else let f2 = f1 \<lparr> fpos := fpos f1 + int (rlen f1), rpos := 0, rlen := 0 \<rparr>;
                  ((n, bs), px2) = read_c os net px1 (ffd f2) (bufcap f2);
                  f3 = f2 \<lparr> fbuf := map_option (\<lambda>b. bs @ drop (length bs) b) (fbuf f2) \<rparr>
              in if n \<le> 0 then (EOF, if n = 0 then f3 \<lparr> feofl := True \<rparr> else f3 \<lparr> ferr := True \<rparr>, px2)
                 else (0, f3 \<lparr> rlen := nat n \<rparr>, px2))"

definition fgetc :: "'w os \<Rightarrow> 'w netops \<Rightarrow> (nat \<Rightarrow> bool) \<Rightarrow> 'w px \<Rightarrow> cfile \<Rightarrow> int \<times> cfile \<times> 'w px" where
  "fgetc os net mal px f =
     (if ungot f \<ge> 0 then (ungot f, f \<lparr> ungot := -1 \<rparr>, px)
      else let (r, f1, px1) = (if rpos f \<ge> rlen f then refill os net mal px f else (0, f, px))
           in if r = EOF then (EOF, f1, px1)
              else (ord ((case fbuf f1 of Some b \<Rightarrow> b | None \<Rightarrow> []) ! rpos f1), f1 \<lparr> rpos := rpos f1 + 1 \<rparr>, px1))"

definition ungetc :: "int \<Rightarrow> cfile \<Rightarrow> int \<times> cfile" where
  "ungetc c f = (if c = EOF \<or> ungot f \<ge> 0 then (EOF, f) else (c AND 0xFF, f \<lparr> ungot := c AND 0xFF, feofl := False \<rparr>))"

text \<open>Up to \<open>k\<close> characters, to the end of the line: the characters, whether the stream ended first.\<close>

fun fgets_loop :: "'w os \<Rightarrow> 'w netops \<Rightarrow> (nat \<Rightarrow> bool) \<Rightarrow> nat \<Rightarrow> 'w px \<Rightarrow> cfile \<Rightarrow> byte list \<Rightarrow> byte list \<times> cfile \<times> 'w px" where
  "fgets_loop os net mal 0 px f acc = (acc, f, px)"
| "fgets_loop os net mal (Suc k) px f acc =
     (let (c, f1, px1) = fgetc os net mal px f in
      if c = EOF then (acc, f1, px1)
      else if c = 10 then (acc @ [chr c], f1, px1)
      else fgets_loop os net mal k px1 f1 (acc @ [chr c]))"

text \<open>The string stored, \<open>None\<close> for \<^verbatim>\<open>NULL\<close>.\<close>

definition fgets :: "'w os \<Rightarrow> 'w netops \<Rightarrow> (nat \<Rightarrow> bool) \<Rightarrow> int \<Rightarrow> 'w px \<Rightarrow> cfile \<Rightarrow> byte list option \<times> cfile \<times> 'w px" where
  "fgets os net mal n px f =
     (if n \<le> 0 then (None, f, px)
      else let (s, f1, px1) = fgets_loop os net mal (nat (n - 1)) px f []
           in (if s = [] \<and> n > 1 then None else Some s, f1, px1))"

fun fread_loop :: "'w os \<Rightarrow> 'w netops \<Rightarrow> (nat \<Rightarrow> bool) \<Rightarrow> nat \<Rightarrow> 'w px \<Rightarrow> cfile \<Rightarrow> byte list \<Rightarrow> byte list \<times> cfile \<times> 'w px" where
  "fread_loop os net mal 0 px f acc = (acc, f, px)"
| "fread_loop os net mal (Suc k) px f acc =
     (let (c, f1, px1) = fgetc os net mal px f in
      if c = EOF then (acc, f1, px1) else fread_loop os net mal k px1 f1 (acc @ [chr c]))"

definition fread :: "'w os \<Rightarrow> 'w netops \<Rightarrow> (nat \<Rightarrow> bool) \<Rightarrow> nat \<Rightarrow> nat \<Rightarrow> 'w px \<Rightarrow> cfile \<Rightarrow> (nat \<times> byte list) \<times> cfile \<times> 'w px" where
  "fread os net mal sz nmemb px f =
     (if sz = 0 \<or> nmemb = 0 then ((0, []), f, px)
      else let (bs, f1, px1) = fread_loop os net mal ((sz * nmemb) mod 2 ^ 64) px f [] in ((length bs div sz, bs), f1, px1))"

definition getc :: "'w os \<Rightarrow> 'w netops \<Rightarrow> (nat \<Rightarrow> bool) \<Rightarrow> 'w px \<Rightarrow> cfile \<Rightarrow> int \<times> cfile \<times> 'w px" where
  "getc os net mal px f = fgetc os net mal px f"

definition getchar :: "'w os \<Rightarrow> 'w netops \<Rightarrow> (nat \<Rightarrow> bool) \<Rightarrow> 'w sio \<Rightarrow> int \<times> 'w sio" where
  "getchar os net mal s = (let (c, f, px) = fgetc os net mal (spx s) (sstdin s) in (c, s \<lparr> sstdin := f, spx := px \<rparr>))"

text \<open>\<open>getdelim\<close>: the line buffer is its contents and its capacity; the stream is bounded by the fuel \<open>k\<close>
  of the caller's choice, \<open>None\<close> when it does not suffice. The result is -1 or the length.\<close>

fun getdelim_loop :: "'w os \<Rightarrow> 'w netops \<Rightarrow> (nat \<Rightarrow> bool) \<Rightarrow> int \<Rightarrow> nat \<Rightarrow> 'w px \<Rightarrow> cfile \<Rightarrow> byte list \<Rightarrow> nat \<Rightarrow> ((int \<times> byte list \<times> nat) \<times> cfile \<times> 'w px) option" where
  "getdelim_loop os net mal delim 0 px f line n = None"
| "getdelim_loop os net mal delim (Suc k) px f line n =
     (let (c, f1, px1) = fgetc os net mal px f in
      if c = EOF then Some (if line = [] then (-1, line, n) else (int (length line), line, n), f1, px1)
      else let n' = (if length line + 2 > n then n * 2 else n) in
           if length line + 2 > n \<and> \<not> mal n' then Some ((-1, line, n), f1, px1)
           else let line' = line @ [chr c] in
                if c = delim then Some ((int (length line'), line', n'), f1, px1)
                else getdelim_loop os net mal delim k px1 f1 line' n')"

definition getdelim :: "'w os \<Rightarrow> 'w netops \<Rightarrow> (nat \<Rightarrow> bool) \<Rightarrow> int \<Rightarrow> nat \<Rightarrow> 'w px \<Rightarrow> cfile \<Rightarrow> bool \<Rightarrow> nat \<Rightarrow> ((int \<times> byte list \<times> nat) \<times> cfile \<times> 'w px) option" where
  "getdelim os net mal delim fuel px f has_line n0 =
     (let fresh = (\<not> has_line \<or> n0 = 0); n = (if fresh then 128 else n0) in
      if fresh \<and> \<not> mal n then Some ((-1, [], n), f, px) else getdelim_loop os net mal delim fuel px f [] n)"

definition getline :: "'w os \<Rightarrow> 'w netops \<Rightarrow> (nat \<Rightarrow> bool) \<Rightarrow> nat \<Rightarrow> 'w px \<Rightarrow> cfile \<Rightarrow> bool \<Rightarrow> nat \<Rightarrow> ((int \<times> byte list \<times> nat) \<times> cfile \<times> 'w px) option" where
  "getline os net mal fuel px f has_line n0 = getdelim os net mal 10 fuel px f has_line n0"

subsection \<open>Output\<close>

definition fputc :: "'w os \<Rightarrow> 'w netops \<Rightarrow> (nat \<Rightarrow> bool) \<Rightarrow> int \<Rightarrow> 'w px \<Rightarrow> cfile \<Rightarrow> int \<times> cfile \<times> 'w px" where
  "fputc os net mal c px f =
     (let (f0, px0) = (if rlen f > rpos f \<or> ungot f \<ge> 0
                       then (let (g, p) = drop_read os px f in (g \<lparr> ungot := -1 \<rparr>, p)) else (f, px))
      in if bufmode f0 = IONBF then
           (let (k, px1) = write_c os net px0 (ffd f0) [chr c] in
            if k \<noteq> 1 then (EOF, f0 \<lparr> ferr := True \<rparr>, px1) else (c mod 256, f0 \<lparr> fpos := fpos f0 + 1 \<rparr>, px1))
         else let (e, f1, px1) = ensure_buf mal px0 f0 in
              if e < 0 then (EOF, f1, px1)
              else let f2 = f1 \<lparr> fbuf := map_option (\<lambda>b. b[wlen f1 := chr c]) (fbuf f1), wlen := wlen f1 + 1 \<rparr> in
                   if wlen f2 = bufcap f2 \<or> (bufmode f2 = IOLBF \<and> c = 10)
                   then (let (r, f3, px3) = flush_write os net mal px1 f2 in
                         if r = EOF then (EOF, f3, px3) else (c mod 256, f3, px3))
                   else (c mod 256, f2, px1))"

definition putc :: "'w os \<Rightarrow> 'w netops \<Rightarrow> (nat \<Rightarrow> bool) \<Rightarrow> int \<Rightarrow> 'w px \<Rightarrow> cfile \<Rightarrow> int \<times> cfile \<times> 'w px" where
  "putc os net mal c px f = fputc os net mal c px f"

definition putchar :: "'w os \<Rightarrow> 'w netops \<Rightarrow> (nat \<Rightarrow> bool) \<Rightarrow> int \<Rightarrow> 'w sio \<Rightarrow> int \<times> 'w sio" where
  "putchar os net mal c s = (let (r, f, px) = fputc os net mal c (spx s) (sstdout s) in (r, s \<lparr> sstdout := f, spx := px \<rparr>))"

text \<open>The bytes put before the first failure: the loop of \<open>fputs\<close> and \<open>fwrite\<close>.\<close>

fun put_loop :: "'w os \<Rightarrow> 'w netops \<Rightarrow> (nat \<Rightarrow> bool) \<Rightarrow> byte list \<Rightarrow> nat \<Rightarrow> 'w px \<Rightarrow> cfile \<Rightarrow> nat \<times> cfile \<times> 'w px" where
  "put_loop os net mal [] put px f = (put, f, px)"
| "put_loop os net mal (c # cs) put px f =
     (let (r, f1, px1) = fputc os net mal (ord c) px f in
      if r = EOF then (put, f1, px1) else put_loop os net mal cs (put + 1) px1 f1)"

definition fputs :: "'w os \<Rightarrow> 'w netops \<Rightarrow> (nat \<Rightarrow> bool) \<Rightarrow> string \<Rightarrow> 'w px \<Rightarrow> cfile \<Rightarrow> int \<times> cfile \<times> 'w px" where
  "fputs os net mal s px f = (let (n, f1, px1) = put_loop os net mal s 0 px f in (if n < length s then EOF else 0, f1, px1))"

definition puts :: "'w os \<Rightarrow> 'w netops \<Rightarrow> (nat \<Rightarrow> bool) \<Rightarrow> string \<Rightarrow> 'w sio \<Rightarrow> int \<times> 'w sio" where
  "puts os net mal str s =
     (let (r, f, px) = fputs os net mal str (spx s) (sstdout s) in
      if r = EOF then (EOF, s \<lparr> sstdout := f, spx := px \<rparr>)
      else let (k, f1, px1) = fputc os net mal 10 px f in (if k = EOF then EOF else 0, s \<lparr> sstdout := f1, spx := px1 \<rparr>))"

text \<open>\<open>bs\<close> are the \<^verbatim>\<open>size * nmemb\<close> bytes.\<close>

definition fwrite :: "'w os \<Rightarrow> 'w netops \<Rightarrow> (nat \<Rightarrow> bool) \<Rightarrow> byte list \<Rightarrow> nat \<Rightarrow> nat \<Rightarrow> 'w px \<Rightarrow> cfile \<Rightarrow> nat \<times> cfile \<times> 'w px" where
  "fwrite os net mal bs sz nmemb px f =
     (if sz = 0 \<or> nmemb = 0 then (0, f, px)
      else let (n, f1, px1) = put_loop os net mal (take ((sz * nmemb) mod 2 ^ 64) bs) 0 px f in (n div sz, f1, px1))"

subsection \<open>Positioning\<close>

definition fseek :: "'w os \<Rightarrow> 'w netops \<Rightarrow> (nat \<Rightarrow> bool) \<Rightarrow> 'w px \<Rightarrow> cfile \<Rightarrow> int \<Rightarrow> int \<Rightarrow> int \<times> cfile \<times> 'w px" where
  "fseek os net mal px f off whence =
     (let (r, f1, px1) = flush_write os net mal px f in
      if r = EOF then (-1, f1, px1)
      else let f2 = f1 \<lparr> ungot := -1, rpos := 0, rlen := 0 \<rparr>; (np, px2) = lseek os px1 (ffd f2) off whence
           in if np < 0 then (-1, f2, px2) else (0, f2 \<lparr> fpos := np, feofl := False \<rparr>, px2))"

definition ftell :: "cfile \<Rightarrow> int" where
  "ftell f = (if wlen f \<noteq> 0 then fpos f + int (wlen f) else fpos f + int (rpos f))"

definition rewind :: "'w os \<Rightarrow> 'w netops \<Rightarrow> (nat \<Rightarrow> bool) \<Rightarrow> 'w px \<Rightarrow> cfile \<Rightarrow> cfile \<times> 'w px" where
  "rewind os net mal px f = (let (r, f1, px1) = fseek os net mal px f 0 0 in (f1 \<lparr> ferr := False \<rparr>, px1))"

definition fgetpos :: "cfile \<Rightarrow> int option" where
  "fgetpos f = (let t = ftell f in if t < 0 then None else Some t)"

definition fsetpos :: "'w os \<Rightarrow> 'w netops \<Rightarrow> (nat \<Rightarrow> bool) \<Rightarrow> 'w px \<Rightarrow> cfile \<Rightarrow> int \<Rightarrow> int \<times> cfile \<times> 'w px" where
  "fsetpos os net mal px f pos = fseek os net mal px f pos 0"

definition fseeko :: "'w os \<Rightarrow> 'w netops \<Rightarrow> (nat \<Rightarrow> bool) \<Rightarrow> 'w px \<Rightarrow> cfile \<Rightarrow> int \<Rightarrow> int \<Rightarrow> int \<times> cfile \<times> 'w px" where
  "fseeko os net mal px f off whence = fseek os net mal px f off whence"

definition ftello :: "cfile \<Rightarrow> int" where "ftello f = ftell f"
definition feof :: "cfile \<Rightarrow> bool" where "feof f = feofl f"
definition ferror :: "cfile \<Rightarrow> bool" where "ferror f = ferr f"
definition clearerr :: "cfile \<Rightarrow> cfile" where "clearerr f = f \<lparr> ferr := False, feofl := False \<rparr>"
definition fileno :: "cfile \<Rightarrow> int" where "fileno f = ffd f"

text \<open>\<open>buf\<close> is the caller's array, \<open>None\<close> for \<^verbatim>\<open>NULL\<close>.\<close>

definition setvbuf :: "'w os \<Rightarrow> 'w netops \<Rightarrow> (nat \<Rightarrow> bool) \<Rightarrow> 'w px \<Rightarrow> cfile \<Rightarrow> byte list option \<Rightarrow> int \<Rightarrow> nat \<Rightarrow> int \<times> cfile \<times> 'w px" where
  "setvbuf os net mal px f buf mode sz =
     (let (r, f1, px1) = fflush os net mal px f
      in (0, f1 \<lparr> fbuf := buf, buf_owned := False, bufcap := (if sz \<noteq> 0 then sz else BUFSIZ), bufmode := mode \<rparr>, px1))"

definition setbuf :: "'w os \<Rightarrow> 'w netops \<Rightarrow> (nat \<Rightarrow> bool) \<Rightarrow> 'w px \<Rightarrow> cfile \<Rightarrow> byte list option \<Rightarrow> cfile \<times> 'w px" where
  "setbuf os net mal px f buf =
     (let (r, f1, px1) = setvbuf os net mal px f buf (if buf \<noteq> None then IOFBF else IONBF) BUFSIZ in (f1, px1))"

text \<open>The decimal digits \<open>perror\<close> writes; \<^verbatim>\<open>char b[16]\<close> is filled from its end.\<close>

fun perror_digits :: "nat \<Rightarrow> string \<Rightarrow> string" where
  "perror_digits e acc = (if e = 0 then acc else perror_digits (e div 10) (char_of (48 + e mod 10) # acc))"

declare perror_digits.simps [simp del]

definition perror :: "'w os \<Rightarrow> 'w netops \<Rightarrow> (nat \<Rightarrow> bool) \<Rightarrow> string \<Rightarrow> 'w sio \<Rightarrow> 'w sio" where
  "perror os net mal str s =
     (let f0 = sstderr s; px0 = spx s;
          (r1, f1, px1) = (if str \<noteq> [] then fputs os net mal str px0 f0 else (0, f0, px0));
          (r2, f2, px2) = (if str \<noteq> [] then fputs os net mal '': '' px1 f1 else (0, f1, px1));
          e1 = errno px2;
          (r3, f3, px3) = (if e1 < 0 then fputc os net mal 45 px2 f2 else (0, f2, px2));
          ds = (if e1 = 0 then ''0'' else perror_digits (nat \<bar>e1\<bar>) []);
          (n4, f4, px4) = fwrite os net mal ds 1 (length ds) px3 f3;
          (r5, f5, px5) = fputc os net mal 10 px4 f4
      in s \<lparr> sstderr := f5, spx := px5 \<rparr>)"

definition remove :: "'w os \<Rightarrow> 'w px \<Rightarrow> string \<Rightarrow> int \<times> 'w px" where
  "remove os px path = unlink os px path"

definition hex_digit :: "nat \<Rightarrow> byte" where
  "hex_digit n = ''0123456789abcdef'' ! (n mod 16)"

definition tmpnam :: "'w os \<Rightarrow> 'w sio \<Rightarrow> string \<times> 'w sio" where
  "tmpnam os s =
     (let c = (sctr s + 1) mod 2 ^ 32;
          id = push_bit 8 (of_int (getpid os (spx s))) XOR of_nat c XOR of_nat (sys_timebase os (world (spx s))) :: u32
      in (''/tmp/t'' @ map (\<lambda>i. hex_digit (unat (drop_bit i id AND 15))) [28, 24, 20, 16, 12, 8, 4, 0], s \<lparr> sctr := c \<rparr>))"

definition tmpfile :: "'w os \<Rightarrow> 'w netops \<Rightarrow> (nat \<Rightarrow> bool) \<Rightarrow> 'w sio \<Rightarrow> cfile option \<times> 'w sio" where
  "tmpfile os net mal s =
     (let (nm, s1) = tmpnam os s; (f, px) = fopen os net mal (spx s1) nm ''w+'' in (f, s1 \<lparr> spx := px \<rparr>))"

subsection \<open>Buffering is transparent\<close>

text \<open>A buffered output stream on a regular file: \<open>o\<close> is the descriptor's offset, \<open>c\<close> the contents on
  the server, and the stream's view is the contents with the pending bytes laid over them.\<close>

definition out_stream :: "'w px \<Rightarrow> cfile \<Rightarrow> string \<Rightarrow> nat \<Rightarrow> bool" where
  "out_stream px f p o' \<longleftrightarrow> 0 \<le> ffd f \<and> file_at px (nat (ffd f)) p o' \<and> fms f = None \<and> bufmode f \<noteq> IONBF
     \<and> rlen f \<le> rpos f \<and> ungot f < 0
     \<and> (case fbuf f of None \<Rightarrow> wlen f = 0 | Some b \<Rightarrow> length b = bufcap f \<and> wlen f < bufcap f)"

definition view :: "byte list \<Rightarrow> nat \<Rightarrow> byte list \<Rightarrow> byte list" where
  "view c o' pend = (if pend = [] then c else overlay c o' pend)"

lemma length_pending: "out_stream px f p o' \<Longrightarrow> length (pending f) = wlen f"
  by (auto simp: out_stream_def pending_def split: option.splits)

lemma view_snoc: "view (view c o' xs) (o' + length xs) [x] = view c o' (xs @ [x])"
  using overlay_overlay [of c o' xs "[x]"] by (simp add: view_def)

lemma view_append: "ys \<noteq> [] \<Longrightarrow> view (view c o' xs) (o' + length xs) ys = view c o' (xs @ ys)"
  using overlay_overlay [of c o' xs ys] by (simp add: view_def)

lemma file_at_nat: "0 \<le> ffd f \<Longrightarrow> int (nat (ffd f)) = ffd f"
  by simp

lemma map_upd_take: "k < length b \<Longrightarrow> take (Suc k) (b[k := x]) = take k b @ [x]"
  by (simp add: take_Suc_conv_app_nth)

context fs_store
begin

lemma flush_loop_file:
  assumes "ok (world px)" "p \<in> P" "cont (world px) p = Some c" "file_at px fd p o'" "pend \<noteq> []"
    "o' \<le> length c" "o' + length pend \<le> cap (world px) p"
  shows "\<exists>w'. flush_loop os net px (int fd) pend = (True, moved px fd (o' + length pend) w')
    \<and> ok w' \<and> cont w' = (cont (world px))(p \<mapsto> overlay c o' pend) \<and> cap (world px) p \<le> cap w' p"
proof -
  obtain w' where w': "write_c os net px (int fd) pend = (int (length pend), moved px fd (o' + length pend) w')" "ok w'"
      "cont w' = (cont (world px))(p \<mapsto> overlay c o' pend)" "cap (world px) p \<le> cap w' p"
    using write_file [OF assms(1,2) _ assms(4-7)] assms(3) by (auto simp: has_bytes_def)
  have "flush_loop os net q (int fd) [] = (True, q)" for q by (subst flush_loop.simps) simp
  then have "flush_loop os net px (int fd) pend = (True, moved px fd (o' + length pend) w')"
    using w'(1) assms(5) by (subst flush_loop.simps) simp
  then show ?thesis using w' by blast
qed

lemma flush_write_file:
  assumes "ok (world px)" "p \<in> P" "cont (world px) p = Some c" "0 \<le> ffd f" "file_at px (nat (ffd f)) p o'" "fms f = None"
    "length (pending f) = wlen f" "o' \<le> length c" "o' + wlen f \<le> cap (world px) p"
  shows "\<exists>px'. flush_write os net mal px f = (0, f \<lparr> fpos := fpos f + int (wlen f), wlen := 0 \<rparr>, px')
    \<and> ok (world px') \<and> file_at px' (nat (ffd f)) p (o' + wlen f) \<and> cont (world px') = (cont (world px))(p \<mapsto> view c o' (pending f))
    \<and> o' + wlen f \<le> length (view c o' (pending f)) \<and> cap (world px) p \<le> cap (world px') p"
proof (cases "wlen f = 0")
  case True
  moreover have "f \<lparr> fpos := fpos f, wlen := 0 \<rparr> = f" using True by auto
  moreover have "(cont (world px))(p \<mapsto> c) = cont (world px)" using assms(3) by (simp add: fun_upd_idem)
  ultimately show ?thesis using assms by (intro exI [of _ px]) (simp add: flush_write_def view_def)
next
  case False
  then have ne: "pending f \<noteq> []" using assms(7) by auto
  have sz: "o' + length (pending f) \<le> cap (world px) p" using assms(7,9) by simp
  obtain w' where w': "flush_loop os net px (ffd f) (pending f) = (True, moved px (nat (ffd f)) (o' + wlen f) w')" "ok w'"
      "cont w' = (cont (world px))(p \<mapsto> overlay c o' (pending f))" "cap (world px) p \<le> cap w' p"
    using flush_loop_file [OF assms(1-3,5) ne assms(8) sz, of net] assms(4,7) by auto
  then show ?thesis
    using False assms(5-7) ne file_at_moved [OF assms(5)]
    by (intro exI [of _ "moved px (nat (ffd f)) (o' + wlen f) w'"]) (simp add: flush_write_def view_def length_overlay)
qed

lemma fputc_stream:
  assumes "ok (world px)" "p \<in> P" "cont (world px) p = Some c" "out_stream px f p o'" "o' \<le> length c"
    "o' + wlen f + 1 \<le> cap (world px) p" "\<forall>n. mal n" "fbuf f = None \<longrightarrow> wlen f = 0"
  shows "\<exists>px' f' o2 c2. fputc os net mal (ord x) px f = (ord x, f', px') \<and> ok (world px') \<and> out_stream px' f' p o2
    \<and> ffd f' = ffd f \<and> cont (world px') = (cont (world px))(p \<mapsto> c2)
    \<and> o2 + wlen f' = o' + wlen f + 1 \<and> fpos f' + int (wlen f') = fpos f + int (wlen f) + 1
    \<and> view c2 o2 (pending f') = view (view c o' (pending f)) (o' + wlen f) [x]
    \<and> o2 \<le> length c2 \<and> cap (world px) p \<le> cap (world px') p"
proof -
  define f1 where "f1 = (if fbuf f = None then f \<lparr> fbuf := Some (replicate BUFSIZ NUL), bufcap := BUFSIZ, buf_owned := True \<rparr> else f)"
  have e: "ensure_buf mal px f = (0, f1, px)" using assms(7) by (simp add: ensure_buf_def f1_def)
  obtain b where b: "fbuf f1 = Some b" "length b = bufcap f1" "wlen f1 < bufcap f1"
    using assms(4) by (cases "fbuf f") (auto simp: f1_def out_stream_def)
  have same: "ffd f1 = ffd f" "wlen f1 = wlen f" "fpos f1 = fpos f" "fms f1 = fms f" "bufmode f1 = bufmode f"
      "rlen f1 = rlen f" "rpos f1 = rpos f" "ungot f1 = ungot f" "pending f1 = pending f"
    using assms(4) by (auto simp: f1_def pending_def out_stream_def split: option.splits)
  define f2 where "f2 = f1 \<lparr> fbuf := Some (b[wlen f1 := x]), wlen := wlen f1 + 1 \<rparr>"
  have pend2: "pending f2 = pending f @ [x]" "length (pending f2) = wlen f2"
    using b same(9) [symmetric] by (simp_all add: f2_def pending_def map_upd_take)
  have st: "0 \<le> ffd f" "file_at px (nat (ffd f)) p o'" "fms f = None" "bufmode f \<noteq> IONBF" "\<not> (rlen f > rpos f \<or> ungot f \<ge> 0)"
    using assms(4) by (auto simp: out_stream_def)
  have run: "fputc os net mal (ord x) px f =
      (if wlen f2 = bufcap f2 \<or> (bufmode f2 = IOLBF \<and> ord x = 10)
       then (let (r, f3, px3) = flush_write os net mal px f2 in if r = EOF then (EOF, f3, px3) else (ord x, f3, px3))
       else (ord x, f2, px))"
    using st(4,5) e b(1) by (simp add: fputc_def f2_def Let_def split: prod.split)
  have vw: "view c o' (pending f2) = view (view c o' (pending f)) (o' + wlen f) [x]"
    using view_snoc [of c o' "pending f" x] length_pending [OF assms(4)] pend2(1) by simp
  show ?thesis
  proof (cases "wlen f2 = bufcap f2 \<or> (bufmode f2 = IOLBF \<and> ord x = 10)")
    case True
    have "0 \<le> ffd f2" "file_at px (nat (ffd f2)) p o'" "fms f2 = None" "o' + wlen f2 \<le> cap (world px) p"
      using st same assms(6) by (simp_all add: f2_def)
    from flush_write_file [OF assms(1-3) this(1-3) pend2(2) assms(5) this(4), of net mal] obtain px' where
      w: "flush_write os net mal px f2 = (0, f2 \<lparr> fpos := fpos f2 + int (wlen f2), wlen := 0 \<rparr>, px')" "ok (world px')"
        "file_at px' (nat (ffd f2)) p (o' + wlen f2)" "cont (world px') = (cont (world px))(p \<mapsto> view c o' (pending f2))"
        "o' + wlen f2 \<le> length (view c o' (pending f2))" "cap (world px) p \<le> cap (world px') p" by blast
    let ?f = "f2 \<lparr> fpos := fpos f2 + int (wlen f2), wlen := 0 \<rparr>"
    have "out_stream px' ?f p (o' + wlen f2)"
      using w(3) st same b by (auto simp: out_stream_def f2_def)
    moreover have "view d o2 (pending ?f) = d" for d o2 by (simp add: pending_def view_def)
    ultimately show ?thesis
      using run True w vw same
      by (intro exI [of _ px'] exI [of _ ?f] exI [of _ "o' + wlen f2"] exI [of _ "view c o' (pending f2)"]) (simp add: f2_def)
  next
    case False
    have r2: "fputc os net mal (ord x) px f = (ord x, f2, px)" using run by (simp only: False if_False)
    have s2: "ffd f2 = ffd f" "wlen f2 = wlen f + 1" "fpos f2 = fpos f" using same by (simp_all add: f2_def)
    have "out_stream px f2 p o'" using False st same b by (auto simp: out_stream_def f2_def)
    moreover have "(cont (world px))(p \<mapsto> c) = cont (world px)" using assms(3) by (simp add: fun_upd_idem)
    ultimately show ?thesis
      using r2 vw s2 assms(1,5)
      by (intro exI [of _ px] exI [of _ f2] exI [of _ o'] exI [of _ c]) simp
  qed
qed

lemma put_loop_stream:
  assumes "ok (world px)" "p \<in> P" "cont (world px) p = Some c" "out_stream px f p o'"
    "o' \<le> length c" "o' + wlen f + length xs \<le> cap (world px) p" "\<forall>n. mal n"
  shows "\<exists>px' f' o2 c2. put_loop os net mal xs k px f = (k + length xs, f', px') \<and> ok (world px') \<and> out_stream px' f' p o2
    \<and> ffd f' = ffd f \<and> cont (world px') = (cont (world px))(p \<mapsto> c2)
    \<and> o2 + wlen f' = o' + wlen f + length xs \<and> fpos f' + int (wlen f') = fpos f + int (wlen f) + int (length xs)
    \<and> view c2 o2 (pending f') = view (view c o' (pending f)) (o' + wlen f) xs
    \<and> o2 \<le> length c2 \<and> cap (world px) p \<le> cap (world px') p"
  using assms
proof (induction xs arbitrary: k px f o' c)
  case Nil
  then have "(cont (world px))(p \<mapsto> c) = cont (world px)" by (simp add: fun_upd_idem)
  then show ?case
    using Nil by (intro exI [of _ px] exI [of _ f] exI [of _ o'] exI [of _ c]) (simp add: view_def)
next
  case (Cons x xs)
  have nb: "fbuf f = None \<longrightarrow> wlen f = 0" using Cons.prems(4) by (auto simp: out_stream_def)
  have "o' + wlen f + 1 \<le> cap (world px) p" using Cons.prems(6) by simp
  from fputc_stream [OF Cons.prems(1-5) this Cons.prems(7) nb, of net x] obtain px1 f1 o1 c1 where
    h: "fputc os net mal (ord x) px f = (ord x, f1, px1)" "ok (world px1)" "out_stream px1 f1 p o1" "ffd f1 = ffd f"
      "cont (world px1) = (cont (world px))(p \<mapsto> c1)" "o1 + wlen f1 = o' + wlen f + 1"
      "fpos f1 + int (wlen f1) = fpos f + int (wlen f) + 1"
      "view c1 o1 (pending f1) = view (view c o' (pending f)) (o' + wlen f) [x]"
      "o1 \<le> length c1" "cap (world px) p \<le> cap (world px1) p" by blast
  have "cont (world px1) p = Some c1" "o1 + wlen f1 + length xs \<le> cap (world px1) p"
    using h(5,6,10) Cons.prems(6) by simp_all
  from Cons.IH [OF h(2) Cons.prems(2) this(1) h(3,9) this(2) Cons.prems(7), of "k + 1"] obtain px2 f2 o2 c2 where
    r: "put_loop os net mal xs (k + 1) px1 f1 = (k + 1 + length xs, f2, px2)" "ok (world px2)" "out_stream px2 f2 p o2" "ffd f2 = ffd f1"
      "cont (world px2) = (cont (world px1))(p \<mapsto> c2)" "o2 + wlen f2 = o1 + wlen f1 + length xs"
      "fpos f2 + int (wlen f2) = fpos f1 + int (wlen f1) + int (length xs)"
      "view c2 o2 (pending f2) = view (view c1 o1 (pending f1)) (o1 + wlen f1) xs"
      "o2 \<le> length c2" "cap (world px1) p \<le> cap (world px2) p" by blast
  have "put_loop os net mal (x # xs) k px f = (k + length (x # xs), f2, px2)"
    using h(1) r(1) ord_ge0 [of x] by (simp del: ord_ge0)
  moreover have "view (view (view c o' (pending f)) (o' + wlen f) [x]) (o1 + wlen f1) xs = view (view c o' (pending f)) (o' + wlen f) (x # xs)"
    using view_append [of xs "view c o' (pending f)" "o' + wlen f" "[x]"] h(6) by (cases "xs = []") (simp_all add: view_def)
  ultimately show ?case
    using r h by (intro exI [of _ px2] exI [of _ f2] exI [of _ o2] exI [of _ c2]) simp
qed

lemma fwrite_flush:
  assumes "ok (world px)" "p \<in> P" "cont (world px) p = Some c" "out_stream px f p o'" "xs \<noteq> []"
    "o' \<le> length c" "o' + wlen f + length xs \<le> cap (world px) p" "\<forall>n. mal n"
  shows "\<exists>f1 px1 f2 px2. fwrite os net mal xs 1 (length xs) px f = (length xs, f1, px1)
    \<and> ftell f1 = fpos f + int (wlen f) + int (length xs) + int (if wlen f1 = 0 then rpos f1 else 0)
    \<and> fflush os net mal px1 f1 = (0, f2, px2) \<and> wlen f2 = 0 \<and> ok (world px2)
    \<and> file_at px2 (nat (ffd f)) p (o' + wlen f + length xs)
    \<and> cont (world px2) = (cont (world px))(p \<mapsto> overlay (view c o' (pending f)) (o' + wlen f) xs)"
proof -
  obtain px1 f1 o1 c1 where h: "put_loop os net mal xs 0 px f = (length xs, f1, px1)" "ok (world px1)" "out_stream px1 f1 p o1"
      "ffd f1 = ffd f" "cont (world px1) = (cont (world px))(p \<mapsto> c1)" "o1 + wlen f1 = o' + wlen f + length xs"
      "fpos f1 + int (wlen f1) = fpos f + int (wlen f) + int (length xs)"
      "view c1 o1 (pending f1) = view (view c o' (pending f)) (o' + wlen f) xs"
      "o1 \<le> length c1" "cap (world px) p \<le> cap (world px1) p"
    using put_loop_stream [OF assms(1-4,6-8), of net 0] by auto
  have len: "length xs < 2 ^ 64" using assms(7) cap_bound [OF assms(1), of p] by simp
  have fw: "fwrite os net mal xs 1 (length xs) px f = (length xs, f1, px1)"
    using h(1) assms(5) len by (simp add: fwrite_def)
  have st: "0 \<le> ffd f1" "file_at px1 (nat (ffd f1)) p o1" "fms f1 = None" using h(3) by (auto simp: out_stream_def)
  have c1: "cont (world px1) p = Some c1" using h(5) by simp
  have "o1 + wlen f1 \<le> cap (world px1) p" using h(6,10) assms(7) by simp
  from flush_write_file [OF h(2) assms(2) c1 st length_pending [OF h(3)] h(9) this, of net mal] obtain px2 where
    f: "flush_write os net mal px1 f1 = (0, f1 \<lparr> fpos := fpos f1 + int (wlen f1), wlen := 0 \<rparr>, px2)" "ok (world px2)"
      "file_at px2 (nat (ffd f1)) p (o1 + wlen f1)" "cont (world px2) = (cont (world px1))(p \<mapsto> view c1 o1 (pending f1))" by blast
  have v: "view (view c o' (pending f)) (o' + wlen f) xs = overlay (view c o' (pending f)) (o' + wlen f) xs"
    using assms(5) by (simp add: view_def)
  have ft: "ftell f1 = fpos f + int (wlen f) + int (length xs) + int (if wlen f1 = 0 then rpos f1 else 0)"
    using h(7) by (simp add: ftell_def)
  show ?thesis
    using fw ft f h v by (intro exI [of _ f1] exI [of _ px1] exI [of _ "f1 \<lparr> fpos := fpos f1 + int (wlen f1), wlen := 0 \<rparr>"] exI [of _ px2])
      (simp add: fflush_def)
qed

end

text \<open>An input stream at position \<open>k\<close> of a file with contents \<open>c\<close>: the buffer holds the bytes from
  \<open>k\<close> on, the descriptor stands behind them.\<close>

definition line_of :: "byte \<Rightarrow> byte list \<Rightarrow> byte list" where
  "line_of d xs = takeWhile (\<lambda>x. x \<noteq> d) xs @ take 1 (dropWhile (\<lambda>x. x \<noteq> d) xs)"

definition in_stream :: "'w px \<Rightarrow> cfile \<Rightarrow> string \<Rightarrow> byte list \<Rightarrow> nat \<Rightarrow> bool" where
  "in_stream px f p c k \<longleftrightarrow> 0 \<le> ffd f \<and> file_at px (nat (ffd f)) p (k + (rlen f - rpos f)) \<and> k < 2 ^ 32
     \<and> fpos f + int (rpos f) = int k \<and> wlen f = 0 \<and> ungot f < 0 \<and> rpos f \<le> rlen f
     \<and> (case fbuf f of None \<Rightarrow> rlen f = 0
        | Some b \<Rightarrow> length b = bufcap f \<and> 0 < bufcap f \<and> int (bufcap f) < 2 ^ 31 \<and> rlen f \<le> bufcap f
            \<and> take (rlen f - rpos f) (drop (rpos f) b) = take (rlen f - rpos f) (drop k c)
            \<and> (rpos f < rlen f \<longrightarrow> k + (rlen f - rpos f) \<le> length c))"

lemma take_eq_hd: "take n xs = take n ys \<Longrightarrow> 0 < n \<Longrightarrow> n \<le> length xs \<Longrightarrow> n \<le> length ys \<Longrightarrow> xs ! 0 = ys ! 0"
  by (metis nth_take)

lemma take_eq_tl: "take n xs = take n ys \<Longrightarrow> take (n - 1) (drop 1 xs) = take (n - 1) (drop 1 ys)"
  by (metis drop_take)

context fs_store
begin

lemma refill_stream:
  assumes "ok (world px)" "p \<in> P" "cont (world px) p = Some c" "in_stream px f p c k" "rlen f \<le> rpos f" "\<forall>n. mal n"
  shows "\<exists>f' px'. refill os net mal px f = (if k < length c then 0 else EOF, f', px') \<and> ok (world px') \<and> cont (world px') = cont (world px)
    \<and> in_stream px' f' p c k \<and> (k < length c \<longrightarrow> rpos f' < rlen f') \<and> ffd f' = ffd f"
proof -
  have st: "0 \<le> ffd f" "file_at px (nat (ffd f)) p k" "k < 2 ^ 32" "fpos f + int (rpos f) = int k" "wlen f = 0" "ungot f < 0" "rpos f = rlen f"
    using assms(4,5) by (auto simp: in_stream_def)
  define f1 where "f1 = (if fbuf f = None then f \<lparr> fbuf := Some (replicate BUFSIZ NUL), bufcap := BUFSIZ, buf_owned := True \<rparr> else f)"
  have e: "ensure_buf mal px f = (0, f1, px)" using assms(6) by (simp add: ensure_buf_def f1_def)
  obtain b where b: "fbuf f1 = Some b" "length b = bufcap f1" "0 < bufcap f1" "int (bufcap f1) < 2 ^ 31"
    using assms(4) by (cases "fbuf f") (auto simp: f1_def in_stream_def)
  have same: "ffd f1 = ffd f" "wlen f1 = 0" "fpos f1 = fpos f" "rlen f1 = rlen f" "ungot f1 = ungot f" using st by (auto simp: f1_def)
  let ?n = "min (bufcap f1) (length c - k)" and ?bs = "take (bufcap f1) (drop k c)"
  obtain w' where w': "read_c os net px (ffd f) (bufcap f1) = ((int ?n, ?bs), moved px (nat (ffd f)) (k + ?n) w')" "ok w'" "cont w' = cont (world px)"
    using read_file [OF assms(1-3) st(2,3) b(4), of net] st(1) by auto
  let ?px = "moved px (nat (ffd f)) (k + ?n) w'"
  let ?f3 = "f1 \<lparr> fpos := int k, rpos := 0, rlen := 0, fbuf := Some (?bs @ drop (length ?bs) b) \<rparr>"
  have pos: "fpos f1 + int (rlen f1) = int k" using st(4,7) same by simp
  have run: "refill os net mal px f = (if int ?n \<le> 0 then (EOF, if int ?n = 0 then ?f3 \<lparr> feofl := True \<rparr> else ?f3 \<lparr> ferr := True \<rparr>, ?px)
      else (0, ?f3 \<lparr> rlen := ?n \<rparr>, ?px))"
    using st(5) e b(1) w'(1) same pos by (simp add: refill_def Let_def) (auto simp: min_def)
  have fa: "file_at ?px (nat (ffd f)) p (k + ?n)" using file_at_moved [OF st(2)] .
  show ?thesis
  proof (cases "k < length c")
    case True
    then have n: "0 < ?n" using b(3) by simp
    have lb: "length ?bs = ?n" by (simp add: min.commute)
    have tk: "take ?n (?bs @ drop (length ?bs) b) = take ?n (drop k c)"
      unfolding lb [symmetric] by (simp add: min_def)
    have "in_stream ?px (?f3 \<lparr> rlen := ?n \<rparr>) p c k"
      using fa st same b n tk True unfolding in_stream_def by (auto simp: min_def)
    then show ?thesis using run n True w'(2,3) same by (intro exI [of _ "?f3 \<lparr> rlen := ?n \<rparr>"] exI [of _ ?px]) simp
  next
    case False
    then have n: "?n = 0" "?bs = []" by auto
    have "in_stream ?px (?f3 \<lparr> feofl := True \<rparr>) p c k"
      using fa st same b n unfolding in_stream_def by auto
    then show ?thesis using run n False w'(2,3) same by (intro exI [of _ "?f3 \<lparr> feofl := True \<rparr>"] exI [of _ ?px]) simp
  qed
qed

lemma fgetc_buffered:
  assumes "in_stream px f p c k" "rpos f < rlen f" "int (length c) < 2 ^ 31"
  shows "fgetc os net mal px f = (ord (c ! k), f \<lparr> rpos := rpos f + 1 \<rparr>, px) \<and> in_stream px (f \<lparr> rpos := rpos f + 1 \<rparr>) p c (k + 1) \<and> k < length c"
proof -
  obtain b where b: "fbuf f = Some b" "length b = bufcap f" "rlen f \<le> bufcap f" "k + (rlen f - rpos f) \<le> length c"
      "take (rlen f - rpos f) (drop (rpos f) b) = take (rlen f - rpos f) (drop k c)"
    using assms by (cases "fbuf f") (auto simp: in_stream_def)
  have st: "ungot f < 0" using assms(1) by (simp add: in_stream_def)
  have "drop (rpos f) b ! 0 = drop k c ! 0"
    using take_eq_hd [OF b(5)] assms(2) b by simp
  then have hd: "b ! rpos f = c ! k" using assms(2) b by simp
  have tl: "take (rlen f - (rpos f + 1)) (drop (rpos f + 1) b) = take (rlen f - (rpos f + 1)) (drop (k + 1) c)"
    using take_eq_tl [OF b(5)] by simp
  have kk: "k + 1 + (rlen f - (rpos f + 1)) = k + (rlen f - rpos f)" "k < length c" using assms(2) b(4) by auto
  then have "k + 1 < 2 ^ 32" using assms(3) by simp
  then have "in_stream px (f \<lparr> rpos := rpos f + 1 \<rparr>) p c (k + 1)"
    using assms(1,2) b tl kk unfolding in_stream_def by simp
  moreover have "fgetc os net mal px f = (ord (c ! k), f \<lparr> rpos := rpos f + 1 \<rparr>, px)"
    using st assms(2) b(1) hd by (simp add: fgetc_def)
  ultimately show ?thesis using kk(2) by simp
qed

lemma fgetc_stream:
  assumes "ok (world px)" "p \<in> P" "cont (world px) p = Some c" "in_stream px f p c k" "\<forall>n. mal n"
  shows "\<exists>f' px'. fgetc os net mal px f = (if k < length c then ord (c ! k) else EOF, f', px') \<and> ok (world px')
    \<and> cont (world px') = cont (world px) \<and> in_stream px' f' p c (if k < length c then k + 1 else k) \<and> ffd f' = ffd f"
proof (cases "rpos f < rlen f")
  case True
  then show ?thesis
    using fgetc_buffered [OF assms(4) True file_size [OF assms(1-3)], of net mal] assms(1)
    by (intro exI [of _ "f \<lparr> rpos := rpos f + 1 \<rparr>"] exI [of _ px]) simp
next
  case False
  then obtain f1 px1 where r: "refill os net mal px f = (if k < length c then 0 else EOF, f1, px1)" "ok (world px1)" "cont (world px1) = cont (world px)"
      "in_stream px1 f1 p c k" "k < length c \<longrightarrow> rpos f1 < rlen f1" "ffd f1 = ffd f"
    using refill_stream [OF assms(1-4) _ assms(5), of net] by auto
  have ug: "ungot f < 0" "ungot f1 < 0" using assms(4) r(4) by (auto simp: in_stream_def)
  show ?thesis
  proof (cases "k < length c")
    case True
    then have lt: "rpos f1 < rlen f1" using r(5) by simp
    have "fgetc os net mal px f = fgetc os net mal px1 f1"
      using ug False lt r(1) True by (simp add: fgetc_def)
    then show ?thesis
      using fgetc_buffered [OF r(4) lt file_size [OF assms(1-3)], of net mal] r True
      by (intro exI [of _ "f1 \<lparr> rpos := rpos f1 + 1 \<rparr>"] exI [of _ px1]) simp
  next
    case kc: False
    then have "fgetc os net mal px f = (EOF, f1, px1)" using ug False r(1) by (simp add: fgetc_def)
    then show ?thesis using r kc by (intro exI [of _ f1] exI [of _ px1]) simp
  qed
qed

lemma fread_loop_stream:
  assumes "ok (world px)" "p \<in> P" "cont (world px) p = Some c" "in_stream px f p c k" "\<forall>n. mal n"
  shows "\<exists>f' px'. fread_loop os net mal n px f acc = (acc @ take n (drop k c), f', px') \<and> ok (world px')
    \<and> cont (world px') = cont (world px) \<and> in_stream px' f' p c (if k < length c then min (k + n) (length c) else k) \<and> ffd f' = ffd f"
  using assms
proof (induction n arbitrary: px f k acc)
  case 0
  then show ?case by (auto simp: min_def)
next
  case (Suc n)
  obtain f1 px1 where r: "fgetc os net mal px f = (if k < length c then ord (c ! k) else EOF, f1, px1)" "ok (world px1)"
      "cont (world px1) = cont (world px)" "in_stream px1 f1 p c (if k < length c then k + 1 else k)" "ffd f1 = ffd f"
    using fgetc_stream [OF Suc.prems(1-5)] by blast
  show ?case
  proof (cases "k < length c")
    case True
    have cp: "cont (world px1) p = Some c" using r(3) Suc.prems(3) by simp
    have ins: "in_stream px1 f1 p c (k + 1)" using r(4) True by simp
    obtain f2 px2 where q: "fread_loop os net mal n px1 f1 (acc @ [c ! k]) = ((acc @ [c ! k]) @ take n (drop (k + 1) c), f2, px2)" "ok (world px2)"
        "cont (world px2) = cont (world px1)" "in_stream px2 f2 p c (if k + 1 < length c then min (k + 1 + n) (length c) else k + 1)" "ffd f2 = ffd f1"
      using Suc.IH [OF r(2) Suc.prems(2) cp ins Suc.prems(5)] by blast
    have tk: "[c ! k] @ take n (drop (k + 1) c) = take (Suc n) (drop k c)"
      using True by (simp add: Cons_nth_drop_Suc [symmetric])
    have "(if k + 1 < length c then min (k + 1 + n) (length c) else k + 1) = min (k + Suc n) (length c)" using True by auto
    moreover have "fread_loop os net mal (Suc n) px f acc = fread_loop os net mal n px1 f1 (acc @ [c ! k])"
      using r(1) True ord_ge0 [of "c ! k"] by (simp del: ord_ge0)
    ultimately show ?thesis
      using q r(3,5) tk True by (intro exI [of _ f2] exI [of _ px2]) simp
  next
    case False
    then show ?thesis using r by (intro exI [of _ f1] exI [of _ px1]) simp
  qed
qed

lemma getdelim_loop_stream:
  assumes "ok (world px)" "p \<in> P" "cont (world px) p = Some c" "in_stream px f p c k" "\<forall>n. mal n"
    "length c - k < fuel" "length line + 1 \<le> n"
  shows "\<exists>n' f' px'. getdelim_loop os net mal (ord d) fuel px f line n =
      Some ((if line @ line_of d (drop k c) = [] then -1 else int (length (line @ line_of d (drop k c))), line @ line_of d (drop k c), n'), f', px')
    \<and> length (line @ line_of d (drop k c)) + 1 \<le> n' \<and> cont (world px') = cont (world px)
    \<and> in_stream px' f' p c (k + length (line_of d (drop k c)))"
  using assms
proof (induction fuel arbitrary: px f k line n)
  case 0
  then show ?case by simp
next
  case (Suc m)
  obtain f1 px1 where r: "fgetc os net mal px f = (if k < length c then ord (c ! k) else EOF, f1, px1)" "ok (world px1)"
      "cont (world px1) = cont (world px)" "in_stream px1 f1 p c (if k < length c then k + 1 else k)"
    using fgetc_stream [OF Suc.prems(1-5)] by blast
  show ?case
  proof (cases "k < length c")
    case False
    then show ?thesis using r Suc.prems(7) by (intro exI [of _ n] exI [of _ f1] exI [of _ px1]) (auto simp: line_of_def)
  next
    case True
    then have dk: "drop k c = c ! k # drop (k + 1) c" by (simp add: Cons_nth_drop_Suc)
    define n' where "n' = (if length line + 2 > n then n * 2 else n)"
    have cap: "length (line @ [c ! k]) + 1 \<le> n'" using Suc.prems(7) by (auto simp: n'_def)
    have ins: "in_stream px1 f1 p c (k + 1)" using r(4) True by simp
    have ne: "ord (c ! k) \<noteq> EOF" using ord_ge0 [of "c ! k"] by linarith
    have run: "getdelim_loop os net mal (ord d) (Suc m) px f line n =
        (if c ! k = d then Some ((int (length (line @ [c ! k])), line @ [c ! k], n'), f1, px1)
         else getdelim_loop os net mal (ord d) m px1 f1 (line @ [c ! k]) n')"
      using r(1) True ne Suc.prems(5) by (simp add: n'_def)
    show ?thesis
    proof (cases "c ! k = d")
      case True
      then have "line_of d (drop k c) = [d]" by (simp add: dk line_of_def)
      then show ?thesis using run True cap ins r(3)
        by (intro exI [of _ n'] exI [of _ f1] exI [of _ px1]) simp
    next
      case False
      have l: "line_of d (drop k c) = c ! k # line_of d (drop (k + 1) c)" using False by (simp add: dk line_of_def)
      have cp: "cont (world px1) p = Some c" using r(3) Suc.prems(3) by simp
      have "length c - (k + 1) < m" using Suc.prems(6) True by linarith
      from Suc.IH [OF r(2) Suc.prems(2) cp ins Suc.prems(5) this cap] obtain n2 f2 px2 where q:
        "getdelim_loop os net mal (ord d) m px1 f1 (line @ [c ! k]) n' =
          Some ((int (length (line @ line_of d (drop k c))), line @ line_of d (drop k c), n2), f2, px2)"
        "length (line @ line_of d (drop k c)) + 1 \<le> n2" "cont (world px2) = cont (world px1)"
        "in_stream px2 f2 p c (k + 1 + length (line_of d (drop (k + 1) c)))"
        by (auto simp: l)
      then show ?thesis using run False r(3) l by (intro exI [of _ n2] exI [of _ f2] exI [of _ px2]) simp
    qed
  qed
qed

end

subsection \<open>Properties\<close>

lemma fresh_out:
  "file_at px fd p o' \<Longrightarrow> out_stream px (std_file (int fd) False True IOFBF) p o' \<and> pending (std_file (int fd) False True IOFBF) = []"
  by (simp add: out_stream_def std_file_def pending_def)

lemma fresh_in:
  "file_at px fd p 0 \<Longrightarrow> in_stream px (std_file (int fd) True False IOFBF) p c 0"
  by (simp add: in_stream_def std_file_def)

text \<open>C14: what \<open>fwrite\<close> puts into a buffered stream of a regular file, however it is cut into buffers, is
  after \<open>fflush\<close> in the file, in order, at the stream's position, laid over what was pending before. The
  pending bytes start at or before the end of the file (the server takes no holes) and all fit its
  capacity.\<close>

theorem fwrite_fflush_stores:
  assumes "file_server os ok cont cap P srv fname" "ok (world px)" "p \<in> P" "cont (world px) p = Some c"
    "out_stream px f p o'" "xs \<noteq> []" "o' \<le> length c" "o' + wlen f + length xs \<le> cap (world px) p" "\<forall>n. mal n"
  shows "\<exists>f1 px1 f2 px2. fwrite os net mal xs 1 (length xs) px f = (length xs, f1, px1)
    \<and> fflush os net mal px1 f1 = (0, f2, px2) \<and> wlen f2 = 0
    \<and> file_at px2 (nat (ffd f)) p (o' + wlen f + length xs)
    \<and> cont (world px2) = (cont (world px))(p \<mapsto> overlay (view c o' (pending f)) (o' + wlen f) xs)"
  using fs_store.fwrite_flush [OF file_server.store [OF assms(1)] assms(2-9)] by blast

theorem fwrite_fflush_stores_witness:
  "\<exists>f1 px1 f2 px2. fwrite fsd_os no_net (\<lambda>n. True) ''ipp'' 1 3 demo_px (std_file 3 False True IOFBF) = (3, f1, px1)
    \<and> fflush fsd_os no_net (\<lambda>n. True) px1 f1 = (0, f2, px2) \<and> fsd_cont (world px2) ''/motd'' = Some ''hippo''"
proof -
  let ?f = "std_file (int 3) False True IOFBF"
  have f: "out_stream demo_px ?f ''/motd'' 1" "pending ?f = []" "wlen ?f = 0" "ffd ?f = 3"
    using fresh_out [OF demo(4)] by (simp_all add: std_file_def)
  obtain f1 px1 f2 px2 where "fwrite fsd_os no_net (\<lambda>n. True) ''ipp'' 1 (length ''ipp'') demo_px ?f = (length ''ipp'', f1, px1)"
      "fflush fsd_os no_net (\<lambda>n. True) px1 f1 = (0, f2, px2)"
      "fsd_cont (world px2) = (fsd_cont (world demo_px))(''/motd'' \<mapsto> overlay (view ''hello'' 1 (pending ?f)) (1 + wlen ?f) ''ipp'')"
    using fwrite_fflush_stores [OF fsd.file_server_axioms demo(1-3) f(1), of "''ipp''" "\<lambda>n. True" no_net] f(3) by auto
  moreover have "overlay (view ''hello'' 1 (pending ?f)) (1 + wlen ?f) ''ipp'' = ''hippo''"
    unfolding f by (simp add: view_def overlay_def)
  moreover have "length ''ipp'' = 3" "?f = std_file 3 False True IOFBF" by simp_all
  ultimately have "fwrite fsd_os no_net (\<lambda>n. True) ''ipp'' 1 3 demo_px (std_file 3 False True IOFBF) = (3, f1, px1)
    \<and> fflush fsd_os no_net (\<lambda>n. True) px1 f1 = (0, f2, px2) \<and> fsd_cont (world px2) ''/motd'' = Some ''hippo''"
    by (simp only: fun_upd_same simp_thms)
  then show ?thesis by blast
qed



text \<open>A switch from reading to writing makes \<open>ftell\<close> wrong: after \<open>k\<close> bytes have been read from the
  buffer, \<open>fputc\<close> moves the descriptor back correctly but leaves the stream's own position at the start
  of the buffer, so \<open>ftell\<close> is \<open>k\<close> short.\<close>

theorem ftell_after_switch:
  assumes "bufmode f = IOFBF" "fbuf f = Some b" "wlen f = 0" "1 < bufcap f" "rpos f < rlen f" "fms f = None"
  shows "\<exists>f' px'. fputc os net mal (ord x) px f = (ord x, f', px') \<and> ftell f' = ftell f + 1 - int (rpos f)"
  using assms by (auto simp: fputc_def drop_read_def ensure_buf_def ftell_def Let_def split: prod.split)

theorem ftell_after_switch_witness:
  "\<exists>f' px'. fputc fsd_os no_net (\<lambda>n. True) (ord CHR ''x'') demo_px
      ((std_file 3 True True IOFBF) \<lparr> fbuf := Some (replicate 4096 NUL), bufcap := 4096, rpos := 3, rlen := 5 \<rparr>) = (ord CHR ''x'', f', px')
    \<and> ftell f' = 1"
proof -
  let ?f = "(std_file 3 True True IOFBF) \<lparr> fbuf := Some (replicate 4096 NUL), bufcap := 4096, rpos := 3, rlen := 5 \<rparr>"
  have "ftell ?f = 3" by (simp add: ftell_def std_file_def)
  moreover obtain f' px' where "fputc fsd_os no_net (\<lambda>n. True) (ord CHR ''x'') demo_px ?f = (ord CHR ''x'', f', px')"
      "ftell f' = ftell ?f + 1 - int (rpos ?f)"
    using ftell_after_switch [of ?f "replicate 4096 NUL" fsd_os no_net "\<lambda>n. True" "CHR ''x''" demo_px] by (auto simp: std_file_def)
  ultimately show ?thesis by (intro exI [of _ f'] exI [of _ px']) simp
qed

text \<open>C16: \<open>getdelim\<close> on a stream of a file always returns (one more step of fuel than bytes are left suffices) with the
  bytes up to and including the delimiter, or up to the end of the file, -1 exactly when there are none;
  the line buffer it leaves has room for the line and its terminator, whatever its size was, and the
  stream stands behind the line.\<close>

theorem getdelim_returns_line:
  assumes "file_server os ok cont cap P srv fname" "ok (world px)" "p \<in> P" "cont (world px) p = Some c"
    "in_stream px f p c k" "\<forall>n. mal n"
    "length c - k < fuel"
  shows "\<exists>n' f' px'. getdelim os net mal (ord d) fuel px f has_line n0 =
      Some ((if line_of d (drop k c) = [] then -1 else int (length (line_of d (drop k c))), line_of d (drop k c), n'), f', px')
    \<and> length (line_of d (drop k c)) < n' \<and> in_stream px' f' p c (k + length (line_of d (drop k c)))"
proof -
  define n where "n = (if \<not> has_line \<or> n0 = 0 then 128 else n0)"
  have "length ([] :: byte list) + 1 \<le> n" by (auto simp: n_def)
  from fs_store.getdelim_loop_stream [OF file_server.store [OF assms(1)] assms(2-7) this, of net d]
  obtain n' f' px' where r: "getdelim_loop os net mal (ord d) fuel px f [] n =
      Some ((if line_of d (drop k c) = [] then -1 else int (length (line_of d (drop k c))), line_of d (drop k c), n'), f', px')"
      "length (line_of d (drop k c)) < n'" "in_stream px' f' p c (k + length (line_of d (drop k c)))"
    by (auto simp: less_eq_Suc_le)
  moreover have "getdelim os net mal (ord d) fuel px f has_line n0 = getdelim_loop os net mal (ord d) fuel px f [] n"
    using assms(6) by (simp add: getdelim_def Let_def n_def)
  ultimately show ?thesis by (intro exI [of _ n'] exI [of _ f'] exI [of _ px']) simp
qed

theorem getdelim_returns_line_witness:
  "\<exists>n' f' px'. getdelim fsd_os no_net (\<lambda>n. True) 108 9 (set_off demo_px 3 0) (std_file 3 True False IOFBF) True 1 = Some ((3, ''hel'', n'), f', px') \<and> 3 < n'"
proof -
  have fa: "file_at (set_off demo_px 3 0) 3 ''/motd'' 0" "world (set_off demo_px 3 0) = world demo_px"
    using demo(4) by (simp_all add: file_at_def set_off_def)
  then have "in_stream (set_off demo_px 3 0) (std_file (int 3) True False IOFBF) ''/motd'' ''hello'' 0" by (intro fresh_in)
  moreover have "fsd_ok (world (set_off demo_px 3 0))" "fsd_cont (world (set_off demo_px 3 0)) ''/motd'' = Some ''hello''"
    using fa(2) demo(1,3) by simp_all
  moreover have "line_of CHR ''l'' (drop 0 ''hello'') = ''hel''" by (simp add: line_of_def)
  moreover have "ord CHR ''l'' = 108" by (simp add: ord_def)
  ultimately show ?thesis
    using getdelim_returns_line [OF fsd.file_server_axioms _ demo(2), of "set_off demo_px 3 0" "''hello''"
        "std_file (int 3) True False IOFBF" 0 "\<lambda>n. True" 9 no_net "CHR ''l''" True 1] by auto
qed

end
