(* ===== verification/Printf.thy ===== *)
theory Printf
  imports Stdio StdlibNum
begin

unbundle bit_operations_syntax

text \<open>
  \<^verbatim>\<open>src/printf.c\<close>: the printf family, one \<open>vformat\<close> over an emit callback.

  \<^verbatim>\<open>struct out\<close> is a function pointer with the data it works on. The pointer is the argument \<open>emit\<close> of
  every operation, the data the type \<open>'o\<close>: \<open>sout\<close> for \<^verbatim>\<open>emit_str\<close> (the target as memory from \<^verbatim>\<open>s\<close> on,
  so that a store past the limit is visible) and \<open>fout\<close> for \<^verbatim>\<open>emit_file\<close>. \<open>olen\<close> reads \<^verbatim>\<open>o->len\<close>.

  A cursor into the format is the suffix it points at without the terminator. A \<^verbatim>\<open>va_list\<close> is the list
  of the arguments left; a \<^verbatim>\<open>va_arg\<close> of another kind than the argument has is undefined in C and
  \<open>None\<close> here. A \<^verbatim>\<open>%n\<close> store is returned as (target, width in bits, value). \<^verbatim>\<open>int\<close> arithmetic on
  widths wraps at 32 bits. \<^verbatim>\<open>fmt_fp\<close> (musl's, an include file) is the argument \<open>fmt_fp\<close>: the pieces
  it passes to \<^verbatim>\<open>fp_out\<close>; \<open>FmtFp\<close> models it.
\<close>

datatype 'f arg = AInt int | ALong int | APtr nat | AStr "byte list option" | ADouble 'f | ALDouble 'f | ANum nat

type_synonym stores = "(nat \<times> nat \<times> int) list"
type_synonym 'f fmt_fp_fn = "'f \<Rightarrow> int \<Rightarrow> int \<Rightarrow> int \<Rightarrow> byte \<Rightarrow> byte list list"

abbreviation (input) F_MINUS :: int where "F_MINUS \<equiv> 1"
abbreviation (input) F_PLUS :: int where "F_PLUS \<equiv> 2"
abbreviation (input) F_SPACE :: int where "F_SPACE \<equiv> 4"
abbreviation (input) F_HASH :: int where "F_HASH \<equiv> 8"
abbreviation (input) F_ZERO :: int where "F_ZERO \<equiv> 16"

abbreviation (input) ALT_FORM :: int where "ALT_FORM \<equiv> 8"
abbreviation (input) ZERO_PAD :: int where "ZERO_PAD \<equiv> 65536"
abbreviation (input) LEFT_ADJ :: int where "LEFT_ADJ \<equiv> 8192"
abbreviation (input) PAD_POS :: int where "PAD_POS \<equiv> 1"
abbreviation (input) MARK_POS :: int where "MARK_POS \<equiv> 2048"

subsection \<open>The two sinks\<close>

record sout =
  o_dst :: "nat \<Rightarrow> byte"
  o_cap :: nat
  o_len :: nat

record 'w fout =
  fo_file :: cfile
  fo_px :: "'w px"
  fo_len :: nat

definition emit_file :: "'w os \<Rightarrow> 'w netops \<Rightarrow> (nat \<Rightarrow> bool) \<Rightarrow> 'w fout \<Rightarrow> byte list \<Rightarrow> 'w fout" where
  "emit_file os net mal o' s =
     (let (k, f, px) = fwrite os net mal s 1 (length s) (fo_px o') (fo_file o')
      in o' \<lparr> fo_file := f, fo_px := px, fo_len := fo_len o' + length s \<rparr>)"

fun emit_str :: "sout \<Rightarrow> byte list \<Rightarrow> sout" where
  "emit_str o' [] = o'"
| "emit_str o' (c # cs) =
     emit_str (o' \<lparr> o_dst := (if o_len o' + 1 < o_cap o' then (o_dst o')(o_len o' := c) else o_dst o'),
                    o_len := o_len o' + 1 \<rparr>) cs"

subsection \<open>Padding and digits\<close>

function pad :: "('o \<Rightarrow> byte list \<Rightarrow> 'o) \<Rightarrow> 'o \<Rightarrow> byte \<Rightarrow> int \<Rightarrow> 'o" where
  "pad emit o' c n =
     (if n > 0 then (let k = (if n > 16 then 16 else n) in pad emit (emit o' (replicate (nat k) c)) c (n - k))
      else o')"
  by pat_completeness auto
termination by (relation "measure (\<lambda>(emit, o', c, n). nat n)") (auto split: if_splits)

declare pad.simps [simp del]

text \<open>The digit loop; \<^verbatim>\<open>base\<close> is 8, 10 or 16 at every call.\<close>

definition dig :: "bool \<Rightarrow> nat \<Rightarrow> byte" where
  "dig upper k = (if upper then ''0123456789ABCDEF'' else ''0123456789abcdef'') ! k"

function utoa_loop :: "nat \<Rightarrow> bool \<Rightarrow> nat \<Rightarrow> byte list \<Rightarrow> byte list" where
  "utoa_loop base upper v p =
     (if v \<noteq> 0 \<and> 1 < base then utoa_loop base upper (v div base) (dig upper (v mod base) # p) else p)"
  by pat_completeness auto
termination by (relation "measure (\<lambda>(base, upper, v, p). v)") auto

declare utoa_loop.simps [simp del]

definition utoa :: "nat \<Rightarrow> nat \<Rightarrow> bool \<Rightarrow> byte list" where
  "utoa v base upper = utoa_loop base upper v (if v = 0 then ''0'' else [])"

definition put_number :: "('o \<Rightarrow> byte list \<Rightarrow> 'o) \<Rightarrow> 'o \<Rightarrow> byte list \<Rightarrow> bool \<Rightarrow> byte list option \<Rightarrow> int \<Rightarrow> int \<Rightarrow> int \<Rightarrow> 'o" where
  "put_number emit o0 digits neg prefix flags width prec =
     (let dlen = int (length digits);
          plen = (case prefix of None \<Rightarrow> 0 | Some p \<Rightarrow> int (length p));
          sign = (if neg then CHR ''-'' else if has flags F_PLUS then CHR ''+'' else if has flags F_SPACE then CHR '' '' else NUL);
          slen = (if sign \<noteq> NUL then 1 else 0 :: int);
          z0 = (if prec \<ge> 0 \<and> dlen < prec then prec - dlen else 0);
          room = to_int32 (width - dlen - plen - slen);
          zeros = (if has flags F_ZERO \<and> prec < 0 \<and> \<not> has flags F_MINUS \<and> room > z0 then room else z0);
          body = to_int32 (slen + plen + zeros + dlen);
          space = to_int32 (width - body);
          o1 = (if \<not> has flags F_MINUS then pad emit o0 CHR '' '' space else o0);
          o2 = (if sign \<noteq> NUL then emit o1 [sign] else o1);
          o3 = (case prefix of None \<Rightarrow> o2 | Some p \<Rightarrow> emit o2 p);
          o4 = pad emit o3 CHR ''0'' zeros;
          o5 = emit o4 digits
      in if has flags F_MINUS then pad emit o5 CHR '' '' space else o5)"

text \<open>\<^verbatim>\<open>while (s[len] && (prec < 0 || len < prec)) len++;\<close>\<close>

fun str_len :: "byte list \<Rightarrow> int \<Rightarrow> int \<Rightarrow> int" where
  "str_len [] prec len = len"
| "str_len (c # cs) prec len = (if c \<noteq> NUL \<and> (prec < 0 \<or> len < prec) then str_len cs prec (len + 1) else len)"

definition put_str :: "('o \<Rightarrow> byte list \<Rightarrow> 'o) \<Rightarrow> 'o \<Rightarrow> byte list option \<Rightarrow> int \<Rightarrow> int \<Rightarrow> int \<Rightarrow> 'o" where
  "put_str emit o0 sp flags width prec =
     (let s = (case sp of None \<Rightarrow> ''(null)'' | Some s \<Rightarrow> s);
          len = str_len s prec 0;
          space = to_int32 (width - len);
          o1 = (if \<not> has flags F_MINUS then pad emit o0 CHR '' '' space else o0);
          o2 = emit o1 (take (nat len) s)
      in if has flags F_MINUS then pad emit o2 CHR '' '' space else o2)"

subsection \<open>The floating point glue\<close>

function fp_pad_loop :: "('o \<Rightarrow> byte list \<Rightarrow> 'o) \<Rightarrow> 'o \<Rightarrow> byte \<Rightarrow> int \<Rightarrow> 'o" where
  "fp_pad_loop emit o' c l =
     (if l \<ge> 64 then fp_pad_loop emit (emit o' (replicate 64 c)) c (l - 64) else emit o' (replicate (nat l) c))"
  by pat_completeness auto
termination by (relation "measure (\<lambda>(emit, o', c, n). nat n)") auto

declare fp_pad_loop.simps [simp del]

definition fp_pad :: "('o \<Rightarrow> byte list \<Rightarrow> 'o) \<Rightarrow> 'o \<Rightarrow> byte \<Rightarrow> int \<Rightarrow> int \<Rightarrow> int \<Rightarrow> 'o" where
  "fp_pad emit o' c w l fl =
     (if has fl (LEFT_ADJ OR ZERO_PAD) \<or> l \<ge> w then o' else fp_pad_loop emit o' c (to_int32 (w - l)))"

text \<open>\<^verbatim>\<open>uintmax_t\<close> and \<^verbatim>\<open>unsigned long\<close> have the same width: the first loop of the source never runs.\<close>

function fp_fmt_u :: "nat \<Rightarrow> byte list \<Rightarrow> byte list" where
  "fp_fmt_u y s = (if y \<noteq> 0 then fp_fmt_u (y div 10) (chr (ord CHR ''0'' + int (y mod 10)) # s) else s)"
  by pat_completeness auto
termination by (relation "measure (\<lambda>(y, s). y)") auto

declare fp_fmt_u.simps [simp del]

definition put_float :: "'f fmt_fp_fn \<Rightarrow> ('o \<Rightarrow> byte list \<Rightarrow> 'o) \<Rightarrow> 'o \<Rightarrow> 'f \<Rightarrow> byte \<Rightarrow> int \<Rightarrow> int \<Rightarrow> int \<Rightarrow> 'o" where
  "put_float fmt_fp emit o' val conv flags width prec =
     (let fl = (if has flags F_MINUS then LEFT_ADJ else 0) OR (if has flags F_PLUS then MARK_POS else 0)
            OR (if has flags F_SPACE then PAD_POS else 0) OR (if has flags F_HASH then ALT_FORM else 0)
            OR (if has flags F_ZERO then ZERO_PAD else 0)
      in fold (\<lambda>s o'. emit o' s) (fmt_fp val width prec fl conv) o')"

subsection \<open>Arguments\<close>

fun va_int :: "'f arg list \<Rightarrow> (int \<times> 'f arg list) option" where
  "va_int (AInt v # ap) = Some (to_int32 v, ap)"
| "va_int _ = None"

fun va_long :: "'f arg list \<Rightarrow> (int \<times> 'f arg list) option" where
  "va_long (ALong v # ap) = Some (to_int64 v, ap)"
| "va_long _ = None"

fun va_str :: "'f arg list \<Rightarrow> (byte list option \<times> 'f arg list) option" where
  "va_str (AStr s # ap) = Some (s, ap)"
| "va_str _ = None"

fun va_ptr :: "'f arg list \<Rightarrow> (nat \<times> 'f arg list) option" where
  "va_ptr (APtr p # ap) = Some (p mod 2 ^ 64, ap)"
| "va_ptr _ = None"

fun va_num :: "'f arg list \<Rightarrow> (nat \<times> 'f arg list) option" where
  "va_num (ANum p # ap) = Some (p, ap)"
| "va_num _ = None"

fun va_float :: "bool \<Rightarrow> 'f arg list \<Rightarrow> ('f \<times> 'f arg list) option" where
  "va_float False (ADouble d # ap) = Some (d, ap)"
| "va_float True (ALDouble d # ap) = Some (d, ap)"
| "va_float _ _ = None"

subsection \<open>Parsing one conversion\<close>

fun get_flags :: "byte list \<Rightarrow> int \<Rightarrow> int \<times> byte list" where
  "get_flags [] flags = (flags, [])"
| "get_flags (c # f) flags =
     (if c = CHR ''-'' then get_flags f (flags OR F_MINUS)
      else if c = CHR ''+'' then get_flags f (flags OR F_PLUS)
      else if c = CHR '' '' then get_flags f (flags OR F_SPACE)
      else if c = CHR ''#'' then get_flags f (flags OR F_HASH)
      else if c = CHR ''0'' then get_flags f (flags OR F_ZERO)
      else (flags, c # f))"

fun get_num :: "byte list \<Rightarrow> int \<Rightarrow> int \<times> byte list" where
  "get_num [] n = (n, [])"
| "get_num (c # f) n =
     (if ord CHR ''0'' \<le> ord c \<and> ord c \<le> ord CHR ''9'' then get_num f (to_int32 (n * 10 + (ord c - ord CHR ''0'')))
      else (n, c # f))"

definition get_width :: "byte list \<Rightarrow> int \<Rightarrow> 'f arg list \<Rightarrow> (int \<times> int \<times> byte list \<times> 'f arg list) option" where
  "get_width f flags ap =
     (if at f 0 = CHR ''*''
      then do { (w, ap') \<leftarrow> va_int ap;
                Some (if w < 0 then (to_int32 (- w), flags OR F_MINUS, drop 1 f, ap') else (w, flags, drop 1 f, ap')) }
      else let (w, f') = get_num f 0 in Some (w, flags, f', ap))"

definition get_prec :: "byte list \<Rightarrow> 'f arg list \<Rightarrow> (int \<times> byte list \<times> 'f arg list) option" where
  "get_prec f ap =
     (if at f 0 = CHR ''.''
      then (if at f 1 = CHR ''*''
            then do { (p, ap') \<leftarrow> va_int ap; Some (if p < 0 then -1 else p, drop 2 f, ap') }
            else let (p, f') = get_num (drop 1 f) 0 in Some (p, f', ap))
      else Some (-1, f, ap))"

fun get_length :: "byte list \<Rightarrow> nat \<Rightarrow> bool \<Rightarrow> nat \<times> bool \<times> byte list" where
  "get_length [] lng ldbl = (lng, ldbl, [])"
| "get_length (c # f) lng ldbl =
     (if c = CHR ''l'' then get_length f (lng + 1) ldbl
      else if c = CHR ''h'' then get_length f lng ldbl
      else if c = CHR ''z'' \<or> c = CHR ''t'' \<or> c = CHR ''j'' then get_length f 1 ldbl
      else if c = CHR ''L'' then get_length f lng True
      else (lng, ldbl, c # f))"

definition get_spec :: "byte list \<Rightarrow> 'f arg list \<Rightarrow> ((int \<times> int \<times> int \<times> nat \<times> bool) \<times> byte list \<times> 'f arg list) option" where
  "get_spec f ap =
     (let (flags0, f1) = get_flags f 0 in
      do { (width, flags, f2, ap1) \<leftarrow> get_width f1 flags0 ap;
           (prec, f3, ap2) \<leftarrow> get_prec f2 ap1;
           let (lng, ldbl, f4) = get_length f3 0 False in
           Some ((flags, width, prec, lng, ldbl), f4, ap2) })"

lemma get_flags_le: "get_flags f fl = (fl', f') \<Longrightarrow> length f' \<le> length f"
  by (induction f fl rule: get_flags.induct) (auto split: if_splits)

lemma get_num_le: "get_num f n = (n', f') \<Longrightarrow> length f' \<le> length f"
  by (induction f n rule: get_num.induct) (auto split: if_splits)

lemma get_length_le: "get_length f a b = (a', b', f') \<Longrightarrow> length f' \<le> length f"
  by (induction f a b rule: get_length.induct) (auto split: if_splits)

lemma get_width_le: "get_width f fl ap = Some (w, fl', f', ap') \<Longrightarrow> length f' \<le> length f"
  by (auto simp: get_width_def split: if_splits prod.splits bind_splits dest: get_num_le)

lemma get_prec_le: "get_prec f ap = Some (p, f', ap') \<Longrightarrow> length f' \<le> length f"
  by (auto simp: get_prec_def split: if_splits prod.splits bind_splits dest!: get_num_le)

lemma get_spec_le: "get_spec f ap = Some (x, f', ap') \<Longrightarrow> length f' \<le> length f"
  by (auto simp: get_spec_def split: prod.splits bind_splits
      dest!: get_flags_le get_width_le get_prec_le get_length_le)

subsection \<open>One conversion\<close>

definition convert ::
    "'f fmt_fp_fn \<Rightarrow> ('o \<Rightarrow> byte list \<Rightarrow> 'o) \<Rightarrow> ('o \<Rightarrow> nat) \<Rightarrow> 'o \<Rightarrow> byte \<Rightarrow> int \<times> int \<times> int \<times> nat \<times> bool \<Rightarrow> 'f arg list
      \<Rightarrow> ('o \<times> 'f arg list \<times> stores) option" where
  "convert fmt_fp emit olen o' c spec ap =
     (case spec of (flags, width, prec, lng, ldbl) \<Rightarrow>
      if c = CHR ''d'' \<or> c = CHR ''i'' then
        do { (v, ap') \<leftarrow> (if lng \<ge> 1 then va_long ap else va_int ap);
             let neg = v < 0;
                 uv = nat (to_u64 (if neg then to_int64 (- v) else v));
                 d = utoa uv 10 False in
             Some (put_number emit o' d neg None flags width prec, ap', []) }
      else if c = CHR ''u'' \<or> c = CHR ''o'' \<or> c = CHR ''x'' \<or> c = CHR ''X'' then
        do { (v0, ap') \<leftarrow> (if lng \<ge> 1 then va_long ap else va_int ap);
             let v = nat (if lng \<ge> 1 then to_u64 v0 else to_u32 v0);
                 base = (if c = CHR ''o'' then 8 else if c = CHR ''u'' then 10 else 16);
                 d = utoa v base (c = CHR ''X'');
                 pre = (if has flags F_HASH \<and> v \<noteq> 0
                        then (if c = CHR ''x'' then Some ''0x'' else if c = CHR ''X'' then Some ''0X''
                              else if c = CHR ''o'' then Some ''0'' else None) else None) in
             Some (put_number emit o' d False pre flags width prec, ap', []) }
      else if c = CHR ''p'' then
        do { (v, ap') \<leftarrow> va_ptr ap;
             Some (put_number emit o' (utoa v 16 False) False (Some ''0x'') flags width prec, ap', []) }
      else if c = CHR ''c'' then
        do { (v, ap') \<leftarrow> va_int ap;
             let space = to_int32 (width - 1);
                 o1 = (if \<not> has flags F_MINUS then pad emit o' CHR '' '' space else o');
                 o2 = emit o1 [chr v] in
             Some (if has flags F_MINUS then pad emit o2 CHR '' '' space else o2, ap', []) }
      else if c = CHR ''s'' then
        do { (s, ap') \<leftarrow> va_str ap; Some (put_str emit o' s flags width prec, ap', []) }
      else if c = CHR ''f'' \<or> c = CHR ''F'' \<or> c = CHR ''e'' \<or> c = CHR ''E'' \<or> c = CHR ''g'' \<or> c = CHR ''G''
              \<or> c = CHR ''a'' \<or> c = CHR ''A'' then
        do { (d, ap') \<leftarrow> va_float ldbl ap; Some (put_float fmt_fp emit o' d c flags width prec, ap', []) }
      else if c = CHR ''n'' then
        do { (p, ap') \<leftarrow> va_num ap;
             Some (o', ap', [if lng \<ge> 1 then (p, 64, to_int64 (int (olen o'))) else (p, 32, to_int32 (int (olen o')))]) }
      else if c = CHR ''%'' then Some (emit o' ''%'', ap, [])
      else if c = NUL then Some (o', ap, [])
      else Some (emit (emit o' ''%'') [c], ap, []))"

function vformat_loop ::
    "'f fmt_fp_fn \<Rightarrow> ('o \<Rightarrow> byte list \<Rightarrow> 'o) \<Rightarrow> ('o \<Rightarrow> nat) \<Rightarrow> byte list \<Rightarrow> 'o \<Rightarrow> 'f arg list \<Rightarrow> stores \<Rightarrow> ('o \<times> stores) option" where
  "vformat_loop fmt_fp emit olen [] o' ap st = Some (o', st)"
| "vformat_loop fmt_fp emit olen (c # f) o' ap st =
     (if c \<noteq> CHR ''%'' then vformat_loop fmt_fp emit olen f (emit o' [c]) ap st
      else case get_spec f ap of None \<Rightarrow> None
        | Some (spec, f1, ap1) \<Rightarrow>
           (case convert fmt_fp emit olen o' (at f1 0) spec ap1 of None \<Rightarrow> None
            | Some (o1, ap2, st1) \<Rightarrow> vformat_loop fmt_fp emit olen (drop 1 f1) o1 ap2 (st @ st1)))"
  by pat_completeness auto
termination
  by (relation "measure (\<lambda>(fmt_fp, emit, olen, f, o', ap, st). length f)") (auto dest: get_spec_le)

definition vformat ::
    "'f fmt_fp_fn \<Rightarrow> ('o \<Rightarrow> byte list \<Rightarrow> 'o) \<Rightarrow> ('o \<Rightarrow> nat) \<Rightarrow> 'o \<Rightarrow> byte list \<Rightarrow> 'f arg list \<Rightarrow> (int \<times> 'o \<times> stores) option" where
  "vformat fmt_fp emit olen o' fmt ap =
     do { (o1, st) \<leftarrow> vformat_loop fmt_fp emit olen fmt o' ap []; Some (to_int32 (int (olen o1)), o1, st) }"

subsection \<open>The entry points\<close>

definition vfprintf ::
    "'f fmt_fp_fn \<Rightarrow> 'w os \<Rightarrow> 'w netops \<Rightarrow> (nat \<Rightarrow> bool) \<Rightarrow> 'w px \<Rightarrow> cfile \<Rightarrow> byte list \<Rightarrow> 'f arg list
      \<Rightarrow> (int \<times> stores \<times> cfile \<times> 'w px) option" where
  "vfprintf fmt_fp os net mal px f fmt ap =
     do { (r, o', st) \<leftarrow> vformat fmt_fp (emit_file os net mal) fo_len \<lparr> fo_file = f, fo_px = px, fo_len = 0 \<rparr> fmt ap;
          Some (r, st, fo_file o', fo_px o') }"

definition vsnprintf :: "'f fmt_fp_fn \<Rightarrow> (nat \<Rightarrow> byte) \<Rightarrow> nat \<Rightarrow> byte list \<Rightarrow> 'f arg list \<Rightarrow> (int \<times> stores \<times> (nat \<Rightarrow> byte)) option" where
  "vsnprintf fmt_fp s n fmt ap =
     do { (r, o', st) \<leftarrow> vformat fmt_fp emit_str o_len \<lparr> o_dst = s, o_cap = n, o_len = 0 \<rparr> fmt ap;
          Some (r, st, if n \<noteq> 0 then (o_dst o')((if o_len o' < n then o_len o' else n - 1) := NUL) else o_dst o') }"

definition vsprintf :: "'f fmt_fp_fn \<Rightarrow> (nat \<Rightarrow> byte) \<Rightarrow> byte list \<Rightarrow> 'f arg list \<Rightarrow> (int \<times> stores \<times> (nat \<Rightarrow> byte)) option" where
  "vsprintf fmt_fp s fmt ap =
     do { (r, o', st) \<leftarrow> vformat fmt_fp emit_str o_len \<lparr> o_dst = s, o_cap = 2 ^ 64 - 1, o_len = 0 \<rparr> fmt ap;
          Some (r, st, (o_dst o')(o_len o' := NUL)) }"

definition vprintf ::
    "'f fmt_fp_fn \<Rightarrow> 'w os \<Rightarrow> 'w netops \<Rightarrow> (nat \<Rightarrow> bool) \<Rightarrow> 'w sio \<Rightarrow> byte list \<Rightarrow> 'f arg list \<Rightarrow> (int \<times> stores \<times> 'w sio) option" where
  "vprintf fmt_fp os net mal s fmt ap =
     do { (r, st, f, px) \<leftarrow> vfprintf fmt_fp os net mal (spx s) (sstdout s) fmt ap;
          Some (r, st, s \<lparr> sstdout := f, spx := px \<rparr>) }"

definition fprintf ::
    "'f fmt_fp_fn \<Rightarrow> 'w os \<Rightarrow> 'w netops \<Rightarrow> (nat \<Rightarrow> bool) \<Rightarrow> 'w px \<Rightarrow> cfile \<Rightarrow> byte list \<Rightarrow> 'f arg list
      \<Rightarrow> (int \<times> stores \<times> cfile \<times> 'w px) option" where
  "fprintf fmt_fp os net mal px f fmt args = vfprintf fmt_fp os net mal px f fmt args"

definition printf ::
    "'f fmt_fp_fn \<Rightarrow> 'w os \<Rightarrow> 'w netops \<Rightarrow> (nat \<Rightarrow> bool) \<Rightarrow> 'w sio \<Rightarrow> byte list \<Rightarrow> 'f arg list \<Rightarrow> (int \<times> stores \<times> 'w sio) option" where
  "printf fmt_fp os net mal s fmt args =
     do { (r, st, f, px) \<leftarrow> vfprintf fmt_fp os net mal (spx s) (sstdout s) fmt args;
          Some (r, st, s \<lparr> sstdout := f, spx := px \<rparr>) }"

definition snprintf :: "'f fmt_fp_fn \<Rightarrow> (nat \<Rightarrow> byte) \<Rightarrow> nat \<Rightarrow> byte list \<Rightarrow> 'f arg list \<Rightarrow> (int \<times> stores \<times> (nat \<Rightarrow> byte)) option" where
  "snprintf fmt_fp s n fmt args = vsnprintf fmt_fp s n fmt args"

definition sprintf :: "'f fmt_fp_fn \<Rightarrow> (nat \<Rightarrow> byte) \<Rightarrow> byte list \<Rightarrow> 'f arg list \<Rightarrow> (int \<times> stores \<times> (nat \<Rightarrow> byte)) option" where
  "sprintf fmt_fp s fmt args = vsprintf fmt_fp s fmt args"

text \<open>\<open>fresh\<close> is what the allocated block holds; \<open>None\<close> in the result is \<^verbatim>\<open>*out = NULL\<close>.\<close>

definition vasprintf ::
    "'f fmt_fp_fn \<Rightarrow> (nat \<Rightarrow> bool) \<Rightarrow> (nat \<Rightarrow> byte) \<Rightarrow> byte list \<Rightarrow> 'f arg list \<Rightarrow> (int \<times> stores \<times> (nat \<Rightarrow> byte) option) option" where
  "vasprintf fmt_fp mal fresh fmt ap =
     do { (n, st, m) \<leftarrow> vsnprintf fmt_fp (\<lambda>i. NUL) 0 fmt ap;
          if n < 0 then Some (-1, st, None)
          else if \<not> mal (nat n + 1) then Some (-1, st, None)
          else do { (r, st', b) \<leftarrow> vsnprintf fmt_fp fresh (nat n + 1) fmt ap; Some (n, st @ st', Some b) } }"

definition asprintf ::
    "'f fmt_fp_fn \<Rightarrow> (nat \<Rightarrow> bool) \<Rightarrow> (nat \<Rightarrow> byte) \<Rightarrow> byte list \<Rightarrow> 'f arg list \<Rightarrow> (int \<times> stores \<times> (nat \<Rightarrow> byte) option) option" where
  "asprintf fmt_fp mal fresh fmt args = vasprintf fmt_fp mal fresh fmt args"

subsection \<open>Formatting does not depend on the sink\<close>

text \<open>A sink promises that \<open>emit\<close> advances the length by what it is given and keeps a relation to the
  text produced so far. Under this contract \<open>vformat\<close> into the sink and \<open>vformat\<close> into a plain
  list (\<open>emit_text\<close>) succeed together, count the same, make the same stores, and end related.\<close>

definition emit_text :: "byte list \<Rightarrow> byte list \<Rightarrow> byte list" where
  "emit_text t s = t @ s"

definition formatted :: "'f fmt_fp_fn \<Rightarrow> byte list \<Rightarrow> 'f arg list \<Rightarrow> (int \<times> byte list \<times> stores) option" where
  "formatted fmt_fp fmt ap = vformat fmt_fp emit_text length [] fmt ap"

locale sink =
  fixes emit :: "'o \<Rightarrow> byte list \<Rightarrow> 'o" and olen :: "'o \<Rightarrow> nat" and R :: "'o \<Rightarrow> byte list \<Rightarrow> bool"
  assumes emit_rel: "R o' t \<Longrightarrow> R (emit o' s) (emit_text t s)"
    and len_rel: "R o' t \<Longrightarrow> olen o' = length t"
begin

lemma pad_rel: "R o' t \<Longrightarrow> R (pad emit o' c n) (pad emit_text t c n)"
proof (induction "nat n" arbitrary: o' t n rule: less_induct)
  case less
  define k where "k = (if n > 16 then 16 else n)"
  have step: "R (emit o' (replicate (nat k) c)) (emit_text t (replicate (nat k) c))"
    using less.prems by (rule emit_rel)
  have "nat (n - k) < nat n" if "n > 0" using that by (simp add: k_def)
  with less.hyps step have "R (pad emit (emit o' (replicate (nat k) c)) c (n - k))
      (pad emit_text (emit_text t (replicate (nat k) c)) c (n - k))" if "n > 0"
    using that by blast
  then show ?case
    using less.prems unfolding pad.simps [of _ _ c n] Let_def k_def [symmetric] by simp
qed

lemma rel_if: "R a b \<Longrightarrow> R a' b' \<Longrightarrow> R (if c then a else a') (if c then b else b')"
  by simp

lemma rel_prefix: "R a b \<Longrightarrow> R (case pre of None \<Rightarrow> a | Some p \<Rightarrow> emit a p) (case pre of None \<Rightarrow> b | Some p \<Rightarrow> emit_text b p)"
  by (cases pre) (auto intro: emit_rel)

lemma put_number_rel:
  "R o' t \<Longrightarrow> R (put_number emit o' d neg pre fl w p) (put_number emit_text t d neg pre fl w p)"
  unfolding put_number_def Let_def by (intro rel_if rel_prefix pad_rel emit_rel; assumption)

lemma put_str_rel: "R o' t \<Longrightarrow> R (put_str emit o' s fl w p) (put_str emit_text t s fl w p)"
  unfolding put_str_def Let_def by (intro rel_if pad_rel emit_rel; assumption)

lemma put_float_rel: "R o' t \<Longrightarrow> R (put_float fp emit o' v c fl w p) (put_float fp emit_text t v c fl w p)"
proof -
  have "R (fold (\<lambda>s o'. emit o' s) ss o') (fold (\<lambda>s t. emit_text t s) ss t)" if "R o' t" for ss o' t
    using that by (induction ss arbitrary: o' t) (auto intro: emit_rel)
  then show "R o' t \<Longrightarrow> ?thesis" by (simp add: put_float_def Let_def)
qed

definition same :: "('o \<times> 'z) option \<Rightarrow> (byte list \<times> 'z) option \<Rightarrow> bool" where
  "same x y \<longleftrightarrow> rel_option (rel_prod R (=)) x y"

lemma same_bind: "(\<And>v ap'. R (g v) (h v)) \<Longrightarrow>
    same (do { (v, ap') \<leftarrow> m; Some (g v, ap', q v) }) (do { (v, ap') \<leftarrow> m; Some (h v, ap', q v) })"
  by (cases m) (auto simp: same_def)

lemma same_Some: "same (Some (a, z)) (Some (b, z)) \<longleftrightarrow> R a b"
  by (simp add: same_def)

lemma same_if: "same a b \<Longrightarrow> same a' b' \<Longrightarrow> same (if c then a else a') (if c then b else b')"
  by simp

lemma convert_rel: "R o' t \<Longrightarrow> same (convert fp emit olen o' c spec ap) (convert fp emit_text length t c spec ap)"
  unfolding convert_def Let_def prod.case_eq_if
  by (simp only: len_rel) (intro same_if same_bind [unfolded prod.case_eq_if] same_Some [THEN iffD2] put_number_rel put_str_rel put_float_rel
      rel_if pad_rel emit_rel; assumption)

lemma vformat_loop_rel:
  "R o' t \<Longrightarrow> same (vformat_loop fp emit olen f o' ap st) (vformat_loop fp emit_text length f t ap st)"
proof (induction "length f" arbitrary: f o' t ap st rule: less_induct)
  case less
  show ?case
  proof (cases f)
    case Nil
    with less.prems show ?thesis by (simp add: same_def)
  next
    case (Cons c f1)
    show ?thesis
    proof (cases "c = CHR ''%'' \<and> get_spec f1 ap \<noteq> None")
      case False
      then show ?thesis
        using Cons less.hyps [of f1 "emit o' [c]" "emit_text t [c]"] emit_rel [OF less.prems, of "[c]"]
        by (cases "get_spec f1 ap") (auto simp: same_def)
    next
      case True
      then obtain spec f2 ap1 where g: "get_spec f1 ap = Some (spec, f2, ap1)" by auto
      have "length (drop 1 f2) < length f" using get_spec_le [OF g] Cons by simp
      note IH = less.hyps [OF this]
      have cv: "same (convert fp emit olen o' (at f2 0) spec ap1) (convert fp emit_text length t (at f2 0) spec ap1)"
        using less.prems by (rule convert_rel)
      show ?thesis
      proof (cases "convert fp emit_text length t (at f2 0) spec ap1")
        case None
        with cv True Cons g show ?thesis by (simp add: same_def)
      next
        case (Some a)
        then obtain t1 ap2 st1 where a: "convert fp emit_text length t (at f2 0) spec ap1 = Some (t1, ap2, st1)"
          by (cases a) auto
        with cv obtain o1 where "convert fp emit olen o' (at f2 0) spec ap1 = Some (o1, ap2, st1)" "R o1 t1"
          by (auto simp: same_def option_rel_Some2)
        with a True Cons g IH [of o1 t1 ap2 "st @ st1"] show ?thesis by simp
      qed
    qed
  qed
qed

lemma vformat_refines:
  assumes "R o' []" "formatted fp fmt ap = Some (r, t, st)"
  shows "\<exists>o1. vformat fp emit olen o' fmt ap = Some (r, o1, st) \<and> R o1 t"
proof -
  have v: "vformat_loop fp emit_text length fmt [] ap [] = Some (t, st)" "r = to_int32 (int (length t))"
    using assms(2) by (auto simp: formatted_def vformat_def split: bind_splits)
  with vformat_loop_rel [OF assms(1), of fp fmt ap "[]"] obtain o1
    where "vformat_loop fp emit olen fmt o' ap [] = Some (o1, st)" "R o1 t"
    by (auto simp: same_def option_rel_Some2)
  with v len_rel show ?thesis by (auto simp: vformat_def)
qed

end

text \<open>\<open>emit_str\<close>: the bytes below the limit are the text's, memory elsewhere is untouched.\<close>

definition str_rel :: "(nat \<Rightarrow> byte) \<Rightarrow> nat \<Rightarrow> sout \<Rightarrow> byte list \<Rightarrow> bool" where
  "str_rel m cap o' t \<longleftrightarrow> o_cap o' = cap \<and> o_len o' = length t
     \<and> o_dst o' = (\<lambda>i. if i < length t \<and> i + 1 < cap then t ! i else m i)"

lemma emit_str_rel: "str_rel m cap o' t \<Longrightarrow> str_rel m cap (emit_str o' s) (t @ s)"
proof (induction s arbitrary: o' t)
  case Nil
  then show ?case by simp
next
  case (Cons c cs)
  let ?o = "o' \<lparr> o_dst := (if o_len o' + 1 < o_cap o' then (o_dst o')(o_len o' := c) else o_dst o'), o_len := o_len o' + 1 \<rparr>"
  have "str_rel m cap ?o (t @ [c])"
    using Cons.prems by (auto simp: str_rel_def fun_eq_iff nth_append)
  from Cons.IH [OF this] show ?case by simp
qed

interpretation str: sink emit_str o_len "str_rel m cap" for m cap
  by unfold_locales (auto simp: emit_text_def emit_str_rel, simp add: str_rel_def)

lemma vsnprintf_text:
  assumes "formatted fp fmt ap = Some (r, t, st)"
  shows "vsnprintf fp m n fmt ap = Some (r, st, \<lambda>i. if i < min (length t) (n - 1) then t ! i
    else if n \<noteq> 0 \<and> i = min (length t) (n - 1) then NUL else m i)"
proof -
  have "str_rel m n \<lparr> o_dst = m, o_cap = n, o_len = 0 \<rparr> []" by (simp add: str_rel_def)
  from str.vformat_refines [OF this assms] obtain o1 where
    "vformat fp emit_str o_len \<lparr> o_dst = m, o_cap = n, o_len = 0 \<rparr> fmt ap = Some (r, o1, st)" "str_rel m n o1 t" by blast
  then show ?thesis
    by (auto simp: vsnprintf_def str_rel_def fun_eq_iff min_def)
qed

text \<open>\<open>emit_file\<close>: after \<open>t\<close>, the stream's view of the file is the old view with \<open>t\<close> laid over it at
  the stream's position, while that stays within the server's capacity for the file.\<close>

definition grown ::
    "('w \<Rightarrow> bool) \<Rightarrow> ('w \<Rightarrow> string \<Rightarrow> byte list option) \<Rightarrow> ('w \<Rightarrow> string \<Rightarrow> nat) \<Rightarrow> string \<Rightarrow> byte list \<Rightarrow> nat \<Rightarrow> 'w px \<Rightarrow> cfile
      \<Rightarrow> 'w px \<Rightarrow> cfile \<Rightarrow> byte list \<Rightarrow> bool" where
  "grown ok cont cap p c o0 px0 f0 px f t \<longleftrightarrow> (\<exists>o2 c2. ok (world px) \<and> out_stream px f p o2 \<and> ffd f = ffd f0
     \<and> cont (world px) = (cont (world px0))(p \<mapsto> c2) \<and> o2 + wlen f = o0 + wlen f0 + length t
     \<and> view c2 o2 (pending f) = view (view c o0 (pending f0)) (o0 + wlen f0) t
     \<and> o2 \<le> length c2 \<and> cap (world px0) p \<le> cap (world px) p)"

definition file_rel ::
    "('w \<Rightarrow> bool) \<Rightarrow> ('w \<Rightarrow> string \<Rightarrow> byte list option) \<Rightarrow> ('w \<Rightarrow> string \<Rightarrow> nat) \<Rightarrow> string \<Rightarrow> byte list \<Rightarrow> nat \<Rightarrow> 'w px \<Rightarrow> cfile
      \<Rightarrow> bool \<Rightarrow> 'w fout \<Rightarrow> byte list \<Rightarrow> bool" where
  "file_rel ok cont cap p c o0 px0 f0 served o' t \<longleftrightarrow> fo_len o' = length t
     \<and> (served \<and> o0 + wlen f0 + length t \<le> cap (world px0) p \<longrightarrow> grown ok cont cap p c o0 px0 f0 (fo_px o') (fo_file o') t)"

lemma grown_fwrite:
  assumes "fs_store os ok cont cap P" "p \<in> P" "\<forall>n. mal n" "grown ok cont cap p c o0 px0 f0 px f t" "s \<noteq> []"
    "o0 + wlen f0 + length (t @ s) \<le> cap (world px0) p"
  shows "\<exists>f' px'. fwrite os net mal s 1 (length s) px f = (length s, f', px') \<and> grown ok cont cap p c o0 px0 f0 px' f' (t @ s)"
proof -
  obtain o2 c2 where g: "ok (world px)" "out_stream px f p o2" "ffd f = ffd f0" "cont (world px) = (cont (world px0))(p \<mapsto> c2)"
      "o2 + wlen f = o0 + wlen f0 + length t" "view c2 o2 (pending f) = view (view c o0 (pending f0)) (o0 + wlen f0) t"
      "o2 \<le> length c2" "cap (world px0) p \<le> cap (world px) p"
    using assms(4) unfolding grown_def by blast
  have c2: "cont (world px) p = Some c2" using g(4) by simp
  have "o2 + wlen f + length s \<le> cap (world px) p" using g(5,8) assms(6) by simp
  from fs_store.put_loop_stream [OF assms(1) g(1) assms(2) c2 g(2,7) this assms(3), of net 0] obtain px' f' o3 c3 where
    h: "put_loop os net mal s 0 px f = (length s, f', px')" "ok (world px')" "out_stream px' f' p o3" "ffd f' = ffd f"
      "cont (world px') = (cont (world px))(p \<mapsto> c3)" "o3 + wlen f' = o2 + wlen f + length s"
      "view c3 o3 (pending f') = view (view c2 o2 (pending f)) (o2 + wlen f) s"
      "o3 \<le> length c3" "cap (world px) p \<le> cap (world px') p" by auto
  have "length s < 2 ^ 64" using g(8) assms(6) fs_store.cap_bound [OF assms(1) g(1), of p] by simp
  then have fw: "fwrite os net mal s 1 (length s) px f = (length s, f', px')"
    using h(1) assms(5) by (simp add: fwrite_def)
  have "view c3 o3 (pending f') = view (view c o0 (pending f0)) (o0 + wlen f0) (t @ s)"
    unfolding h(7) g(5,6) by (rule view_append [OF assms(5)])
  with h g have "grown ok cont cap p c o0 px0 f0 px' f' (t @ s)"
    unfolding grown_def by (intro exI [of _ o3] exI [of _ c3]) simp
  with fw show ?thesis by blast
qed

lemma emit_file_rel:
  assumes "served \<Longrightarrow> \<exists>P. fs_store os ok cont cap P \<and> p \<in> P" "\<forall>n. mal n" "file_rel ok cont cap p c o0 px0 f0 served o' t"
  shows "file_rel ok cont cap p c o0 px0 f0 served (emit_file os net mal o' s) (t @ s)"
proof (cases "s = []")
  case True
  then show ?thesis using assms(3) by (simp add: emit_file_def fwrite_def file_rel_def)
next
  case False
  obtain k f px where fw: "fwrite os net mal s 1 (length s) (fo_px o') (fo_file o') = (k, f, px)" by (metis prod_cases3)
  have "grown ok cont cap p c o0 px0 f0 px f (t @ s)" if "served" "o0 + wlen f0 + length (t @ s) \<le> cap (world px0) p"
  proof -
    have "grown ok cont cap p c o0 px0 f0 (fo_px o') (fo_file o') t" using assms(3) that by (simp add: file_rel_def)
    with assms(1) [OF that(1)] grown_fwrite [where cap = cap and p = p and t = t and os = os and net = net, OF _ _ assms(2) _ False that(2)] fw show ?thesis by force
  qed
  then show ?thesis using assms(3) fw by (simp add: file_rel_def emit_file_def)
qed

definition files_served ::
    "'w os \<Rightarrow> ('w \<Rightarrow> bool) \<Rightarrow> ('w \<Rightarrow> string \<Rightarrow> byte list option) \<Rightarrow> ('w \<Rightarrow> string \<Rightarrow> nat) \<Rightarrow> string \<Rightarrow> bool" where
  "files_served os ok cont cap p \<longleftrightarrow> (\<exists>P. fs_store os ok cont cap P \<and> p \<in> P)"

interpretation fileout: sink "emit_file os net (\<lambda>n. True)" fo_len
    "file_rel ok cont cap p c o0 px0 f0 (files_served os ok cont cap p)"
  for os net ok cont cap p c o0 px0 f0
  by unfold_locales (auto simp: emit_text_def files_served_def intro!: emit_file_rel, simp add: file_rel_def)

lemma vfprintf_flush:
  assumes "fs_store os ok cont cap P" "ok (world px)" "p \<in> P" "cont (world px) p = Some c" "out_stream px f p o'"
    "formatted fp fmt ap = Some (r, t, st)" "o' \<le> length c" "o' + wlen f + length t \<le> cap (world px) p"
  shows "\<exists>f1 px1 f2 px2. vfprintf fp os net (\<lambda>n. True) px f fmt ap = Some (int (length t), st, f1, px1)
    \<and> fflush os net (\<lambda>n. True) px1 f1 = (0, f2, px2) \<and> wlen f2 = 0
    \<and> cont (world px2) = (cont (world px))(p \<mapsto> view (view c o' (pending f)) (o' + wlen f) t)"
proof -
  have srv: "files_served os ok cont cap p" using assms(1,3) by (auto simp: files_served_def)
  have "grown ok cont cap p c o' px f px f []"
    unfolding grown_def using assms(2,4,5,7) by (intro exI [of _ o'] exI [of _ c]) (simp add: view_def fun_upd_idem)
  then have "file_rel ok cont cap p c o' px f (files_served os ok cont cap p) \<lparr> fo_file = f, fo_px = px, fo_len = 0 \<rparr> []"
    by (simp add: file_rel_def)
  from fileout.vformat_refines [OF this assms(6), of net] obtain o1 where
    v: "vformat fp (emit_file os net (\<lambda>n. True)) fo_len \<lparr> fo_file = f, fo_px = px, fo_len = 0 \<rparr> fmt ap = Some (r, o1, st)"
      "grown ok cont cap p c o' px f (fo_px o1) (fo_file o1) t"
    using srv assms(8) by (auto simp: file_rel_def)
  obtain o2 c2 where g: "ok (world (fo_px o1))" "out_stream (fo_px o1) (fo_file o1) p o2" "ffd (fo_file o1) = ffd f"
      "cont (world (fo_px o1)) = (cont (world px))(p \<mapsto> c2)" "o2 + wlen (fo_file o1) = o' + wlen f + length t"
      "view c2 o2 (pending (fo_file o1)) = view (view c o' (pending f)) (o' + wlen f) t"
      "o2 \<le> length c2" "cap (world px) p \<le> cap (world (fo_px o1)) p"
    using v(2) unfolding grown_def by blast
  have b: "o2 + wlen (fo_file o1) \<le> cap (world (fo_px o1)) p" using g(5,8) assms(8) by simp
  have c2: "cont (world (fo_px o1)) p = Some c2" using g(4) by simp
  have o: "0 \<le> ffd (fo_file o1)" "file_at (fo_px o1) (nat (ffd (fo_file o1))) p o2" "fms (fo_file o1) = None"
    using g(2) by (simp_all add: out_stream_def)
  obtain px2 where fl: "flush_write os net (\<lambda>n. True) (fo_px o1) (fo_file o1) =
      (0, (fo_file o1) \<lparr> fpos := fpos (fo_file o1) + int (wlen (fo_file o1)), wlen := 0 \<rparr>, px2)"
      "cont (world px2) = (cont (world (fo_px o1)))(p \<mapsto> view c2 o2 (pending (fo_file o1)))"
    using fs_store.flush_write_file [OF assms(1) g(1) assms(3) c2 o length_pending [OF g(2)] g(7) b] by blast
  have "r = to_int32 (int (length t))" using assms(6) by (auto simp: formatted_def vformat_def split: bind_splits)
  then have r: "r = int (length t)" using assms(8) fs_store.cap_bound [OF assms(1,2), of p] by simp
  have vf: "vfprintf fp os net (\<lambda>n. True) px f fmt ap = Some (int (length t), st, fo_file o1, fo_px o1)"
    using v(1) r by (simp add: vfprintf_def)
  show ?thesis
    by (intro exI conjI, rule vf, unfold fflush_def, rule fl(1)) (simp_all add: fl(2) g(4,6))
qed

subsection \<open>Digits, padding and fields\<close>

lemma pad_text: "pad emit_text t c n = t @ replicate (nat n) c"
proof (induction "nat n" arbitrary: t n rule: less_induct)
  case less
  show ?case
  proof (cases "n > 0")
    case False
    then show ?thesis by (subst pad.simps) simp
  next
    case True
    define k where "k = (if n > 16 then 16 else n)"
    have k: "0 < k" "k \<le> n" using True by (simp_all add: k_def)
    have "pad emit_text t c n = pad emit_text (t @ replicate (nat k) c) c (n - k)"
      using True by (subst pad.simps) (simp add: Let_def k_def emit_text_def)
    also have "\<dots> = t @ replicate (nat k + nat (n - k)) c"
      using less [of "n - k"] k by (simp add: replicate_add)
    finally show ?thesis using k by (simp add: nat_add_distrib [symmetric])
  qed
qed

lemma digit_val_dig:
  assumes "k < 16"
  shows "digit_val (ord (dig u k)) = int k"
proof -
  from assms have "k = 0 \<or> k = 1 \<or> k = 2 \<or> k = 3 \<or> k = 4 \<or> k = 5 \<or> k = 6 \<or> k = 7
      \<or> k = 8 \<or> k = 9 \<or> k = 10 \<or> k = 11 \<or> k = 12 \<or> k = 13 \<or> k = 14 \<or> k = 15" by arith
  then show ?thesis by (elim disjE) (simp_all add: dig_def digit_val_def ord_def)
qed

lemma utoa_loop_value:
  assumes "2 \<le> b" "b \<le> 16"
  shows "digits_value b 0 (utoa_loop b u v p) = digits_value b v p"
proof (induction v arbitrary: p rule: less_induct)
  case (less v)
  show ?case
  proof (cases "v = 0")
    case True
    then show ?thesis by (subst utoa_loop.simps) simp
  next
    case False
    have m: "v mod b < 16" using assms mod_less_divisor [of b v] by linarith
    have "digits_value b 0 (utoa_loop b u v p) = digits_value b 0 (utoa_loop b u (v div b) (dig u (v mod b) # p))"
      using False assms(1) by (subst utoa_loop.simps) simp
    also have "\<dots> = digits_value b (v div b) (dig u (v mod b) # p)"
      using less.IH False assms(1) by simp
    also have "\<dots> = digits_value b v p" using digit_val_dig [OF m] by simp
    finally show ?thesis .
  qed
qed

lemma utoa_loop_digits:
  assumes "2 \<le> b" "b \<le> 16"
  shows "\<forall>c \<in> set (utoa_loop b u v p). c \<in> set p \<or> is_digit b c"
proof (induction v arbitrary: p rule: less_induct)
  case (less v)
  have m: "v mod b < 16" "v mod b < b" using assms mod_less_divisor [of b v] by linarith+
  have d: "is_digit b (dig u (v mod b))" using digit_val_dig [OF m(1)] m(2) by (simp add: is_digit_def)
  show ?case
  proof (cases "v = 0")
    case True
    then show ?thesis by (subst utoa_loop.simps) simp
  next
    case False
    have "\<forall>c \<in> set (utoa_loop b u (v div b) (dig u (v mod b) # p)). c \<in> set p \<or> is_digit b c"
      using less.IH [of "v div b" "dig u (v mod b) # p"] False assms(1) d by auto
    then show ?thesis using False assms(1) by (subst utoa_loop.simps) simp
  qed
qed

lemma utoa_loop_length: "v < b ^ n \<Longrightarrow> length (utoa_loop b u v p) \<le> n + length p"
proof (induction n arbitrary: v p)
  case 0
  then show ?case by (subst utoa_loop.simps) simp
next
  case (Suc n)
  show ?case
  proof (cases "v \<noteq> 0 \<and> 1 < b")
    case False
    then show ?thesis by (subst utoa_loop.simps) auto
  next
    case True
    have "v div b < b ^ n" using Suc.prems True by (simp add: less_mult_imp_div_less mult.commute)
    from Suc.IH [OF this, of "dig u (v mod b) # p"] show ?thesis
      using True by (subst utoa_loop.simps) simp
  qed
qed

lemma utoa_length: "v < b ^ n \<Longrightarrow> length (utoa v b u) \<le> n + 1"
  using utoa_loop_length [of v b n u "if v = 0 then ''0'' else []"] by (auto simp: utoa_def split: if_splits)

lemma utoa_loop_suffix: "\<exists>q. utoa_loop b u v p = q @ p"
proof (induction v arbitrary: p rule: less_induct)
  case (less v)
  show ?case
  proof (cases "v \<noteq> 0 \<and> 1 < b")
    case False
    then show ?thesis by (subst utoa_loop.simps) auto
  next
    case True
    then obtain q where "utoa_loop b u (v div b) (dig u (v mod b) # p) = q @ dig u (v mod b) # p"
      using less.IH [of "v div b" "dig u (v mod b) # p"] by auto
    with True show ?thesis by (subst utoa_loop.simps) auto
  qed
qed

lemma utoa_facts:
  assumes "2 \<le> b" "b \<le> 16"
  shows "utoa v b u \<noteq> []" "\<forall>c \<in> set (utoa v b u). is_digit b c" "digits_value b 0 (utoa v b u) = v"
proof -
  have z: "digit_val (ord CHR ''0'') = 0" by (simp add: digit_val_def)
  show "utoa v b u \<noteq> []"
  proof (cases "v = 0")
    case True
    then show ?thesis unfolding utoa_def by (subst utoa_loop.simps) simp
  next
    case False
    obtain q where "utoa_loop b u (v div b) [dig u (v mod b)] = q @ [dig u (v mod b)]"
      using utoa_loop_suffix by blast
    with False show ?thesis unfolding utoa_def using assms(1) by (subst utoa_loop.simps) simp
  qed
  show "\<forall>c \<in> set (utoa v b u). is_digit b c"
  proof
    fix c assume "c \<in> set (utoa v b u)"
    then have "c \<in> set (if v = 0 then ''0'' else []) \<or> is_digit b c"
      unfolding utoa_def using utoa_loop_digits [OF assms] by blast
    then show "is_digit b c" using z assms(1) by (auto simp: is_digit_def split: if_splits)
  qed
  show "digits_value b 0 (utoa v b u) = v"
    unfolding utoa_def utoa_loop_value [OF assms] using z by simp
qed

text \<open>The text of a number field without prefix, flags or precision.\<close>

lemma put_number_plain:
  assumes "0 \<le> w" "w < 2 ^ 31" "length d < 2 ^ 30"
  shows "put_number emit_text t d neg None 0 w (-1) =
    t @ replicate (nat (w - ((if neg then 1 else 0) + int (length d)))) CHR '' '' @ (if neg then ''-'' else []) @ d"
proof -
  have "int (length d) < 2 ^ 30" using assms(3) by simp
  then show ?thesis
    using assms(1,2) by (simp add: put_number_def Let_def has_def pad_text emit_text_def)
qed

lemma formatted_star_ld:
  assumes "0 \<le> w" "w < 2 ^ 31" "- (2 ^ 63) \<le> v" "v < 2 ^ 63"
  shows "\<exists>r. formatted fp ''%*ld'' [AInt w, ALong v] =
    Some (r, replicate (nat (w - int (length ((if v < 0 then ''-'' else []) @ utoa (nat \<bar>v\<bar>) 10 False)))) CHR '' ''
       @ (if v < 0 then ''-'' else []) @ utoa (nat \<bar>v\<bar>) 10 False, [])"
proof -
  have sp: "get_spec ''*ld'' [AInt w, ALong v :: 'f arg] = Some ((0, w, -1, 1, False), ''d'', [ALong v])"
    using assms(1,2) by (simp add: get_spec_def get_width_def get_prec_def at_def)
  have uv: "nat (to_u64 (if v < 0 then to_int64 (- v) else v)) = nat \<bar>v\<bar>"
  proof (cases "v = - (2 ^ 63)")
    case True
    then show ?thesis by (simp add: to_u64_def to_int64_def)
  next
    case False
    then have "to_int64 (- v) = - v" if "v < 0" using assms(3,4) that by (intro to_int64_id) auto
    then show ?thesis using assms(3,4) by (auto simp: to_u64_def)
  qed
  have "nat \<bar>v\<bar> < 10 ^ 22" using assms(3,4) by (simp add: nat_less_iff)
  then have "length (utoa (nat \<bar>v\<bar>) 10 False) \<le> 22 + 1" by (rule utoa_length)
  then have l: "length (utoa (nat \<bar>v\<bar>) 10 False) < 2 ^ 30" by simp
  have cv: "convert fp emit_text length [] CHR ''d'' (0, w, -1, Suc 0, False) [ALong v] =
      Some (put_number emit_text [] (utoa (nat \<bar>v\<bar>) 10 False) (v < 0) None 0 w (-1), [], [])"
    using assms(3,4) uv by (simp add: convert_def)
  have len: "int (length ((if v < 0 then ''-'' else []) @ d)) = (if v < 0 then 1 else 0) + int (length d)" for d by simp
  show ?thesis
    unfolding len formatted_def vformat_def using cv [unfolded put_number_plain [OF assms(1,2) l]] by (simp add: sp)
qed

lemma strtol_signed_digits:
  assumes "- (2 ^ 63) \<le> v" "v < 2 ^ 63"
  shows "strtol (replicate k CHR '' '' @ (if v < 0 then ''-'' else []) @ utoa (nat \<bar>v\<bar>) 10 False) 10 = Some (v, [])"
proof -
  let ?d = "utoa (nat \<bar>v\<bar>) 10 False"
  let ?sg = "if v < 0 then ''-'' else []"
  note u = utoa_facts [of 10 "nat \<bar>v\<bar>" False, simplified]
  have "\<forall>c \<in> set (replicate k CHR '' ''). isspace (ord c)" by (simp add: isspace_def ord_def)
  moreover have "sign_text ?sg" by (simp add: sign_text_def)
  ultimately have s: "strtoull (replicate k CHR '' '' @ ?sg @ ?d @ []) (int 10) =
      Some (if ?sg = ''-'' then - of_nat (digits_value 10 0 ?d) else of_nat (digits_value 10 0 ?d), [])"
    using strtoull_value [of "replicate k CHR '' ''" ?sg ?d 10 "[]"] u(1,2) by simp
  have "(if ?sg = ''-'' then - of_nat (digits_value 10 0 ?d) else of_nat (digits_value 10 0 ?d)) = (of_int v :: u64)"
    unfolding u(3) by (simp add: of_nat_nat)
  with s have "strtoull (replicate k CHR '' '' @ ?sg @ ?d) 10 = Some (of_int v, [])" by simp
  moreover have "sint (of_int v :: u64) = v"
    using assms by (simp add: signed_of_int signed_take_bit_int_eq_self)
  ultimately show ?thesis by (simp add: strtol_def)
qed

subsection \<open>Properties\<close>

text \<open>C17: \<open>vsnprintf\<close> into \<open>n\<close> bytes returns the length of the whole text, writes nothing from byte \<open>n\<close>
  on, and for a non-empty buffer leaves the text cut to \<open>n - 1\<close> bytes with a terminator behind it;
  \<open>%n\<close> stores do not depend on the limit.\<close>

theorem vsnprintf_truncates:
  assumes "formatted fp fmt ap = Some (r, t, st)"
  shows "\<exists>m'. vsnprintf fp m n fmt ap = Some (r, st, m') \<and> r = to_int32 (int (length t)) \<and> (\<forall>i \<ge> n. m' i = m i)
    \<and> (n \<noteq> 0 \<longrightarrow> map m' [0..<Suc (min (length t) (n - 1))] = take (n - 1) t @ [NUL])"
proof -
  define k where "k = min (length t) (n - 1)"
  define m' where "m' = (\<lambda>i. if i < k then t ! i else if n \<noteq> 0 \<and> i = k then NUL else m i)"
  have v: "vsnprintf fp m n fmt ap = Some (r, st, m')"
    using vsnprintf_text [OF assms, of m n] unfolding m'_def k_def .
  have r: "r = to_int32 (int (length t))" using assms by (auto simp: formatted_def vformat_def split: bind_splits)
  have out: "\<forall>i \<ge> n. m' i = m i" by (auto simp: m'_def k_def)
  have "map m' [0..<k] = take k t" by (rule nth_equalityI) (simp_all add: m'_def k_def)
  moreover have "take k t = take (n - 1) t" by (simp add: k_def min_def)
  ultimately have "n \<noteq> 0 \<longrightarrow> map m' [0..<Suc k] = take (n - 1) t @ [NUL]" by (simp add: m'_def)
  with v r out show ?thesis unfolding k_def by blast
qed

theorem vsnprintf_truncates_witness:
  "\<exists>m'. vsnprintf (\<lambda>x w p fl c. []) (\<lambda>i. CHR ''?'') 4 ''ab%s!'' [AStr (Some ''cd'') :: unit arg] = Some (5, [], m')
    \<and> map m' [0..<4] = ''abc'' @ [NUL] \<and> m' 4 = CHR ''?''"
proof -
  have f: "formatted (\<lambda>x w p fl c. []) ''ab%s!'' [AStr (Some ''cd'') :: unit arg] = Some (to_int32 5, ''abcd!'', [])"
    by (simp add: formatted_def vformat_def emit_text_def get_spec_def get_width_def get_prec_def at_def convert_def
        put_str_def has_def pad.simps ord_def)
  from vsnprintf_truncates [OF f, of "\<lambda>i. CHR ''?''" 4] obtain m' where
    m: "vsnprintf (\<lambda>x w p fl c. []) (\<lambda>i. CHR ''?'') 4 ''ab%s!'' [AStr (Some ''cd'') :: unit arg] = Some (to_int32 5, [], m')"
      "\<forall>i \<ge> 4. m' i = CHR ''?''" "map m' [0..<Suc (min (length ''abcd!'') 3)] = take 3 ''abcd!'' @ [NUL]" by auto
  have "Suc (min (length ''abcd!'') 3) = 4" "take 3 ''abcd!'' = ''abc''" "to_int32 5 = 5" by simp_all
  with m show ?thesis by (intro exI [of _ m']) (simp only: order_refl simp_thms)
qed

text \<open>C18: \<open>vfprintf\<close> to a buffered stream on a file of the server, then \<open>fflush\<close>: the file holds the
  formatted text at the stream's position and the call returns its length. The stream stands at or before
  the end of the file and the text fits the server's capacity for it.\<close>

theorem vfprintf_stores:
  assumes "file_server os ok cont cap P srv fname" "ok (world px)" "p \<in> P" "cont (world px) p = Some c"
    "out_stream px f p o'" "formatted fp fmt ap = Some (r, t, st)" "o' \<le> length c" "o' + wlen f + length t \<le> cap (world px) p"
  shows "\<exists>f1 px1 f2 px2. vfprintf fp os net (\<lambda>n. True) px f fmt ap = Some (int (length t), st, f1, px1)
    \<and> fflush os net (\<lambda>n. True) px1 f1 = (0, f2, px2) \<and> wlen f2 = 0
    \<and> cont (world px2) = (cont (world px))(p \<mapsto> view (view c o' (pending f)) (o' + wlen f) t)"
  by (rule vfprintf_flush [OF file_server.store [OF assms(1)] assms(2-8)])

theorem vfprintf_stores_witness:
  "\<exists>f1 px1 f2 px2. vfprintf (\<lambda>x w p fl c. []) fsd_os no_net (\<lambda>n. True) demo_px (std_file 3 False True IOFBF) ''%ch'' [AInt 79 :: unit arg]
      = Some (2, [], f1, px1)
    \<and> fflush fsd_os no_net (\<lambda>n. True) px1 f1 = (0, f2, px2) \<and> fsd_cont (world px2) ''/motd'' = Some ''hOhlo''"
proof -
  let ?f = "std_file (int 3) False True IOFBF"
  have f: "out_stream demo_px ?f ''/motd'' 1" "pending ?f = []" "wlen ?f = 0"
    using fresh_out [OF demo(4)] by (simp_all add: std_file_def)
  have fm: "formatted (\<lambda>x w p fl c. []) ''%ch'' [AInt 79 :: unit arg] = Some (to_int32 2, ''Oh'', [])"
    by (simp add: formatted_def vformat_def emit_text_def get_spec_def get_width_def get_prec_def at_def convert_def
        has_def pad.simps ord_def chr_def char_of_def)
  have sz: "1 \<le> length ''hello''" "1 + wlen ?f + length ''Oh'' \<le> fsd_cap (world demo_px) ''/motd''" unfolding f by simp_all
  obtain f1 px1 f2 px2 where
    v: "vfprintf (\<lambda>x w p fl c. []) fsd_os no_net (\<lambda>n. True) demo_px ?f ''%ch'' [AInt 79 :: unit arg] = Some (int (length ''Oh''), [], f1, px1)"
      "fflush fsd_os no_net (\<lambda>n. True) px1 f1 = (0, f2, px2)"
      "fsd_cont (world px2) = (fsd_cont (world demo_px))(''/motd'' \<mapsto> view (view ''hello'' 1 (pending ?f)) (1 + wlen ?f) ''Oh'')"
    using vfprintf_stores [OF fsd.file_server_axioms demo(1-3) f(1) fm sz, of no_net] by blast
  have "view (view ''hello'' 1 (pending ?f)) (1 + wlen ?f) ''Oh'' = ''hOhlo''" unfolding f by (simp add: view_def overlay_def)
  moreover have "int (length ''Oh'') = 2" "int 3 = 3" by simp_all
  ultimately show ?thesis
    using v by (intro exI [of _ f1] exI [of _ px1] exI [of _ f2] exI [of _ px2]) (simp only: fun_upd_same simp_thms)
qed

text \<open>\<open>strtol\<close> reads back what \<^verbatim>\<open>%*ld\<close> prints, for every \<^verbatim>\<open>long\<close> and every width, and the field is as
  wide as asked.\<close>

theorem printf_strtol_roundtrip:
  assumes "0 \<le> w" "w < 2 ^ 31" "- (2 ^ 63) \<le> v" "v < 2 ^ 63"
  shows "\<exists>r t. formatted fp ''%*ld'' [AInt w, ALong v] = Some (r, t, []) \<and> strtol t 10 = Some (v, []) \<and> nat w \<le> length t"
proof -
  let ?n = "(if v < 0 then ''-'' else []) @ utoa (nat \<bar>v\<bar>) 10 False"
  define k where "k = nat (w - int (length ?n))"
  obtain r where "formatted fp ''%*ld'' [AInt w, ALong v] = Some (r, replicate k CHR '' '' @ ?n, [])"
    using formatted_star_ld [OF assms, of fp] unfolding k_def by auto
  moreover have "strtol (replicate k CHR '' '' @ ?n) 10 = Some (v, [])"
    using strtol_signed_digits [OF assms(3,4)] .
  moreover have "nat w \<le> length (replicate k CHR '' '' @ ?n)"
    unfolding length_append length_replicate k_def by linarith
  ultimately show ?thesis by blast
qed

theorem printf_strtol_roundtrip_witness:
  "\<exists>r t. formatted (\<lambda>x w p fl c. []) ''%*ld'' [AInt 9, ALong (- 12) :: unit arg] = Some (r, t, []) \<and> strtol t 10 = Some (- 12, []) \<and> nat 9 \<le> length t"
  by (rule printf_strtol_roundtrip) simp_all

text \<open>Every digit string \<open>vformat\<close> makes fits the 32-byte \<^verbatim>\<open>nbuf\<close> with its terminator, and spells
  the number.\<close>

theorem utoa_fits_nbuf:
  assumes "v < 2 ^ 64" "base = 8 \<or> base = 10 \<or> base = 16"
  shows "length (utoa v base u) + 1 \<le> 32 \<and> digits_value base 0 (utoa v base u) = v \<and> (\<forall>c \<in> set (utoa v base u). is_digit base c)"
proof -
  have "(2 :: nat) ^ 64 \<le> base ^ 22"
    using assms(2) by (elim disjE) simp_all
  with assms(1) have "v < base ^ 22" by linarith
  then have "length (utoa v base u) \<le> 23" using utoa_length by fastforce
  moreover have "2 \<le> base" "base \<le> 16" using assms(2) by auto
  ultimately show ?thesis using utoa_facts by simp
qed

theorem utoa_fits_nbuf_witness:
  "length (utoa 18446744073709551615 8 False) + 1 \<le> 32 \<and> digits_value 8 0 (utoa 18446744073709551615 8 False) = 18446744073709551615"
  using utoa_fits_nbuf [of 18446744073709551615 8 False] by simp

end
