(* ===== verification/RcEnv.thy ===== *)
theory RcEnv
  imports RcPosixMeta StdlibNum
begin

text \<open>
  \<^verbatim>\<open>src/rc_env.c\<close>: the environment behind \<^verbatim>\<open>environ\<close>.

  \<^verbatim>\<open>environ\<close> is the list of its pointers before the null one (\<open>None\<close> for a null \<^verbatim>\<open>environ\<close>). What a
  pointer points at is in \<open>eheap\<close>, because \<^verbatim>\<open>putenv\<close> shares the caller's string and \<^verbatim>\<open>free\<close> is
  called on entries: \<open>emine\<close> are the blocks this file got from \<^verbatim>\<open>malloc\<close>. Freeing anything else, or a
  store behind the array, is undefined in C and sets \<open>env_fault\<close>. \<open>mal n\<close> is whether an allocation
  of \<open>n\<close> bytes succeeds. A string is its bytes before the terminator.
\<close>

record 'w env =
  environ :: "nat list option"
  env_owned :: bool
  env_cap :: nat
  eheap :: "nat \<Rightarrow> string option"
  emine :: "nat \<Rightarrow> bool"
  enext :: nat
  env_fault :: bool
  epx :: "'w px"

definition ptrs :: "'w env \<Rightarrow> nat list" where
  "ptrs e = (case environ e of None \<Rightarrow> [] | Some ps \<Rightarrow> ps)"

definition str_at :: "'w env \<Rightarrow> nat \<Rightarrow> string" where
  "str_at e a = (case eheap e a of None \<Rightarrow> [] | Some s \<Rightarrow> s)"

definition env_err :: "int \<Rightarrow> 'w env \<Rightarrow> int \<times> 'w env" where
  "env_err n e = (-1, e \<lparr> epx := (epx e) \<lparr> errno := n \<rparr> \<rparr>)"

text \<open>\<^verbatim>\<open>malloc\<close> of a string and \<^verbatim>\<open>free\<close>.\<close>

definition new_str :: "(nat \<Rightarrow> bool) \<Rightarrow> 'w env \<Rightarrow> string \<Rightarrow> nat option \<times> 'w env" where
  "new_str mal e s =
     (if mal (length s + 1)
      then (Some (enext e), e \<lparr> eheap := (eheap e)(enext e \<mapsto> s), emine := (emine e)(enext e := True), enext := enext e + 1 \<rparr>)
      else (None, e))"

definition free_str :: "nat \<Rightarrow> 'w env \<Rightarrow> 'w env" where
  "free_str a e =
     (if emine e a then e \<lparr> eheap := (eheap e)(a := None), emine := (emine e)(a := False) \<rparr>
      else e \<lparr> env_fault := True \<rparr>)"

definition env_count :: "'w env \<Rightarrow> nat" where
  "env_count e = length (ptrs e)"

definition name_matches :: "string \<Rightarrow> string \<Rightarrow> nat \<Rightarrow> bool" where
  "name_matches entry name nlen \<longleftrightarrow> take nlen entry = take nlen name \<and> at entry nlen = CHR ''=''"

fun find_loop :: "string list \<Rightarrow> string \<Rightarrow> nat \<Rightarrow> int \<Rightarrow> int" where
  "find_loop [] name nlen i = -1"
| "find_loop (s # ss) name nlen i = (if name_matches s name nlen then i else find_loop ss name nlen (i + 1))"

definition env_find :: "'w env \<Rightarrow> string \<Rightarrow> nat \<Rightarrow> int" where
  "env_find e name nlen = find_loop (map (str_at e) (ptrs e)) name nlen 0"

text \<open>The copy loop; on a failed \<^verbatim>\<open>strdup\<close> the copies made so far are freed.\<close>

fun take_loop :: "(nat \<Rightarrow> bool) \<Rightarrow> nat list \<Rightarrow> nat list \<Rightarrow> 'w env \<Rightarrow> nat list option \<times> 'w env" where
  "take_loop mal [] arr e = (Some arr, e)"
| "take_loop mal (a # as) arr e =
     (case new_str mal e (str_at e a) of
        (None, e1) \<Rightarrow> (None, fold free_str arr e1)
      | (Some b, e1) \<Rightarrow> take_loop mal as (arr @ [b]) e1)"

definition env_take_ownership :: "(nat \<Rightarrow> bool) \<Rightarrow> 'w env \<Rightarrow> int \<times> 'w env" where
  "env_take_ownership mal e =
     (if env_owned e then (0, e)
      else let cap = env_count e + 8 in
           if \<not> mal (cap * 8) then env_err ENOMEM e
           else case take_loop mal (ptrs e) [] e of
                  (None, e1) \<Rightarrow> env_err ENOMEM e1
                | (Some arr, e1) \<Rightarrow> (0, e1 \<lparr> environ := Some arr, env_cap := cap, env_owned := True \<rparr>))"

definition env_grow_for_one :: "(nat \<Rightarrow> bool) \<Rightarrow> 'w env \<Rightarrow> nat \<Rightarrow> int \<times> 'w env" where
  "env_grow_for_one mal e n =
     (if n + 2 \<le> env_cap e then (0, e)
      else let cap = (if env_cap e \<noteq> 0 then env_cap e * 2 else 16) in
           if \<not> mal (cap * 8) then env_err ENOMEM e else (0, e \<lparr> env_cap := cap \<rparr>))"

text \<open>\<^verbatim>\<open>environ[n] = entry; environ[n + 1] = 0;\<close> with \<open>n\<close> the index of the null pointer.\<close>

definition env_append :: "nat \<Rightarrow> 'w env \<Rightarrow> 'w env" where
  "env_append a e =
     (if length (ptrs e) + 2 \<le> env_cap e then e \<lparr> environ := Some (ptrs e @ [a]) \<rparr> else e \<lparr> env_fault := True \<rparr>)"

definition env_from_store :: "'w os \<Rightarrow> 'w env \<Rightarrow> string \<Rightarrow> string option \<times> 'w env" where
  "env_from_store os e name =
     (if name = [] \<or> CHR ''='' \<in> set name \<or> CHR ''/'' \<in> set name then (None, e)
      else let ((n, bs), w) = rc_fs_read os (world (epx e)) (take 159 (''/env/'' @ name)) 127;
               e1 = e \<lparr> epx := (epx e) \<lparr> world := w \<rparr> \<rparr>
           in (if n < 0 then None else Some (cstr_of (take (nat n) bs)), e1))"

definition getenv :: "'w os \<Rightarrow> 'w env \<Rightarrow> string option \<Rightarrow> string option \<times> 'w env" where
  "getenv os e np =
     (case np of None \<Rightarrow> (None, e)
      | Some name \<Rightarrow>
          if name = [] then (None, e)
          else let i = env_find e name (length name) in
               if i \<ge> 0 then (Some (drop (length name + 1) (str_at e (ptrs e ! nat i))), e)
               else env_from_store os e name)"

definition bad_name :: "string option \<Rightarrow> bool" where
  "bad_name np = (case np of None \<Rightarrow> True | Some name \<Rightarrow> name = [] \<or> CHR ''='' \<in> set name)"

definition setenv :: "(nat \<Rightarrow> bool) \<Rightarrow> 'w env \<Rightarrow> string option \<Rightarrow> string option \<Rightarrow> bool \<Rightarrow> int \<times> 'w env" where
  "setenv mal e np vp overwrite =
     (if bad_name np then env_err EINVAL e
      else let name = the np; value = (case vp of None \<Rightarrow> [] | Some v \<Rightarrow> v);
               (r, e1) = env_take_ownership mal e
           in if r \<noteq> 0 then (-1, e1)
              else let idx = env_find e1 name (length name) in
                   if idx \<ge> 0 \<and> \<not> overwrite then (0, e1)
                   else case new_str mal e1 (name @ CHR ''='' # value) of
                          (None, e2) \<Rightarrow> env_err ENOMEM e2
                        | (Some entry, e2) \<Rightarrow>
                            if idx \<ge> 0
                            then (0, (free_str (ptrs e2 ! nat idx) e2) \<lparr> environ := Some ((ptrs e2)[nat idx := entry]) \<rparr>)
                            else let (g, e3) = env_grow_for_one mal e2 (env_count e2) in
                                 if g \<noteq> 0 then (-1, free_str entry e3) else (0, env_append entry e3))"

definition unsetenv :: "(nat \<Rightarrow> bool) \<Rightarrow> 'w env \<Rightarrow> string option \<Rightarrow> int \<times> 'w env" where
  "unsetenv mal e np =
     (if bad_name np then env_err EINVAL e
      else let name = the np; (r, e1) = env_take_ownership mal e in
           if r \<noteq> 0 then (-1, e1)
           else let idx = env_find e1 name (length name) in
                if idx < 0 then (0, e1)
                else let e2 = free_str (ptrs e1 ! nat idx) e1
                     in (0, e2 \<lparr> environ := Some (take (nat idx) (ptrs e2) @ drop (nat idx + 1) (ptrs e2)) \<rparr>))"

text \<open>The argument is the address of the caller's string.\<close>

definition putenv :: "(nat \<Rightarrow> bool) \<Rightarrow> 'w env \<Rightarrow> nat option \<Rightarrow> int \<times> 'w env" where
  "putenv mal e sp =
     (case sp of None \<Rightarrow> env_err EINVAL e
      | Some a \<Rightarrow>
          let s = str_at e a in
          if CHR ''='' \<notin> set s then unsetenv mal e (Some s)
          else let nlen = length (takeWhile (\<lambda>c. c \<noteq> CHR ''='') s); (r, e1) = env_take_ownership mal e in
               if r \<noteq> 0 then (-1, e1)
               else let idx = env_find e1 s nlen in
                    if idx \<ge> 0 then (0, e1 \<lparr> environ := Some ((ptrs e1)[nat idx := a]) \<rparr>)
                    else let (g, e2) = env_grow_for_one mal e1 (env_count e1) in
                         if g \<noteq> 0 then (-1, e2) else (0, env_append a e2))"

subsection \<open>Looking a name up\<close>

definition valid_name :: "string \<Rightarrow> bool" where
  "valid_name m \<longleftrightarrow> m \<noteq> [] \<and> CHR ''='' \<notin> set m"

definition strings :: "'w env \<Rightarrow> string list" where
  "strings e = map (str_at e) (ptrs e)"

definition lookup :: "string list \<Rightarrow> string \<Rightarrow> string option" where
  "lookup ss m = map_option (drop (length m + 1)) (find (\<lambda>s. name_matches s m (length m)) ss)"

definition env_get :: "'w env \<Rightarrow> string \<Rightarrow> string option" where
  "env_get e m = lookup (strings e) m"

lemma name_matches_iff: "name_matches s m (length m) \<longleftrightarrow> (\<exists>v. s = m @ CHR ''='' # v)"
proof
  assume a: "name_matches s m (length m)"
  then have l: "length m < length s" by (auto simp: name_matches_def at_def split: if_splits)
  then have "s = take (length m) s @ s ! length m # drop (Suc (length m)) s" by (simp add: id_take_nth_drop)
  with a l show "\<exists>v. s = m @ CHR ''='' # v" by (auto simp: name_matches_def at_def)
qed (auto simp: name_matches_def at_def)

lemma name_matches_unique:
  assumes "valid_name m" "valid_name n" "name_matches s m (length m)" "name_matches s n (length n)"
  shows "m = n"
proof -
  obtain u where "s = m @ CHR ''='' # u" using assms(3) by (auto simp: name_matches_iff)
  moreover obtain v where "s = n @ CHR ''='' # v" using assms(4) by (auto simp: name_matches_iff)
  moreover have "takeWhile (\<lambda>c. c \<noteq> CHR ''='') (k @ CHR ''='' # w) = k" if "valid_name k" for k w
    using that by (intro takeWhile_append_stop) (auto simp: valid_name_def)
  ultimately show ?thesis using assms(1,2) by metis
qed

lemma find_loop_none: "(\<forall>s \<in> set ss. \<not> name_matches s m k) \<Longrightarrow> find_loop ss m k i = -1"
  by (induction ss arbitrary: i) auto

lemma find_loop_some:
  "(\<forall>s \<in> set xs. \<not> name_matches s m k) \<Longrightarrow> name_matches s m k \<Longrightarrow> find_loop (xs @ s # ys) m k i = i + int (length xs)"
  by (induction xs arbitrary: i) auto

lemma lookup_cons: "lookup (s # ss) m = (if name_matches s m (length m) then Some (drop (length m + 1) s) else lookup ss m)"
  by (simp add: lookup_def)

lemma lookup_Nil [simp]: "lookup [] m = None"
  by (simp add: lookup_def)

lemma lookup_append: "lookup (xs @ ys) m = (case lookup xs m of None \<Rightarrow> lookup ys m | Some v \<Rightarrow> Some v)"
  by (induction xs) (auto simp: lookup_cons)

lemma lookup_none: "lookup ss m = None \<longleftrightarrow> (\<forall>s \<in> set ss. \<not> name_matches s m (length m))"
  by (auto simp: lookup_def find_None_iff)

lemma lookup_entry:
  assumes "valid_name n" "valid_name m"
  shows "lookup ((n @ CHR ''='' # v) # ss) m = (if m = n then Some v else lookup ss m)"
proof -
  have n: "name_matches (n @ CHR ''='' # v) n (length n)" by (simp add: name_matches_iff)
  show ?thesis
  proof (cases "m = n")
    case True
    with n show ?thesis by (simp add: lookup_cons)
  next
    case False
    with name_matches_unique [OF assms(2,1) _ n] show ?thesis by (auto simp: lookup_cons)
  qed
qed

lemma lookup_skip:
  assumes "valid_name n" "valid_name m" "name_matches s n (length n)" "m \<noteq> n"
  shows "lookup (s # ss) m = lookup ss m"
  using name_matches_unique [OF assms(2,1) _ assms(3)] assms(4) by (auto simp: lookup_cons)

text \<open>Setting a name in a list of entries: overwrite the first entry of that name, or append.\<close>

lemma lookup_replace:
  assumes "valid_name n" "valid_name m" "lookup xs n = None" "name_matches s n (length n)"
  shows "lookup (xs @ (n @ CHR ''='' # v) # ys) m = (if m = n then Some v else lookup (xs @ s # ys) m)"
  using assms lookup_skip [OF assms(1,2,4)] by (simp add: lookup_append lookup_entry split: option.split)

lemma lookup_snoc:
  assumes "valid_name n" "valid_name m" "lookup xs n = None"
  shows "lookup (xs @ [n @ CHR ''='' # v]) m = (if m = n then Some v else lookup xs m)"
  using assms by (simp add: lookup_append lookup_entry split: option.split)

lemma lookup_remove:
  assumes "valid_name n" "valid_name m" "lookup xs n = None" "name_matches s n (length n)"
  shows "lookup (xs @ ys) m = (if m = n then lookup ys n else lookup (xs @ s # ys) m)"
  using assms lookup_skip [OF assms(1,2,4)] by (auto simp: lookup_append split: option.split)

lemma env_find_cases:
  assumes "valid_name n"
  obtains (absent) "env_find e n (length n) = -1" "env_get e n = None"
  | (present) xs a ys where "ptrs e = xs @ a # ys" "env_find e n (length n) = int (length xs)"
      "name_matches (str_at e a) n (length n)" "lookup (map (str_at e) xs) n = None"
proof (cases "\<exists>a \<in> set (ptrs e). name_matches (str_at e a) n (length n)")
  case True
  then obtain xs a ys where "ptrs e = xs @ a # ys" "name_matches (str_at e a) n (length n)"
      "\<forall>b \<in> set xs. \<not> name_matches (str_at e b) n (length n)" by (elim split_list_first_propE)
  then show ?thesis
    using present [of xs a ys] find_loop_some [of "map (str_at e) xs" n "length n" "str_at e a" "map (str_at e) ys" 0]
    by (simp add: env_find_def lookup_none)
next
  case False
  then show ?thesis
    using absent find_loop_none [of "map (str_at e) (ptrs e)" n "length n" 0]
    by (simp add: env_find_def env_get_def strings_def lookup_none)
qed

subsection \<open>The invariant\<close>

definition env_ok :: "'w env \<Rightarrow> bool" where
  "env_ok e \<longleftrightarrow> distinct (ptrs e) \<and> (\<forall>a \<in> set (ptrs e). eheap e a \<noteq> None \<and> a < enext e) \<and> \<not> env_fault e
     \<and> (env_owned e \<longrightarrow> length (ptrs e) + 1 \<le> env_cap e \<and> 8 \<le> env_cap e \<and> (\<forall>a \<in> set (ptrs e). emine e a))"

text \<open>What a call leaves alone: the blocks below \<open>n\<close>, the array and the flags.\<close>

definition same_below :: "nat \<Rightarrow> 'w env \<Rightarrow> 'w env \<Rightarrow> bool" where
  "same_below n e e' \<longleftrightarrow> (\<forall>a < n. eheap e' a = eheap e a \<and> emine e' a = emine e a) \<and> environ e' = environ e
     \<and> env_owned e' = env_owned e \<and> env_cap e' = env_cap e \<and> env_fault e' = env_fault e \<and> n \<le> enext e'"

lemma ptrs_same [simp]: "ptrs (e \<lparr> epx := x \<rparr>) = ptrs e" "ptrs (e \<lparr> env_cap := c \<rparr>) = ptrs e"
  "ptrs (e \<lparr> eheap := h, emine := mn, enext := k \<rparr>) = ptrs e" "ptrs (e \<lparr> eheap := h, emine := mn \<rparr>) = ptrs e"
  "ptrs (e \<lparr> environ := Some ps \<rparr>) = ps"
  "ptrs (free_str a e) = ptrs e"
  by (simp_all add: ptrs_def free_str_def)

lemma str_same [simp]: "str_at (e \<lparr> epx := x \<rparr>) = str_at e" "str_at (e \<lparr> environ := ps \<rparr>) = str_at e"
  "str_at (e \<lparr> env_cap := c \<rparr>) = str_at e"
  by (simp_all add: str_at_def fun_eq_iff)

lemma new_str_below:
  assumes "new_str mal e s = (Some b, e1)" "n \<le> enext e"
  shows "same_below n e e1" "b = enext e" "enext e1 = enext e + 1" "eheap e1 = (eheap e)(b \<mapsto> s)" "emine e1 = (emine e)(b := True)"
  using assms by (auto simp: new_str_def same_below_def split: if_splits)

lemma new_str_fails: "new_str mal e s = (None, e1) \<Longrightarrow> e1 = e"
  by (auto simp: new_str_def split: if_splits)

lemma same_below_refl: "n \<le> enext e \<Longrightarrow> same_below n e e"
  by (simp add: same_below_def)

lemma same_below_trans: "same_below n e e1 \<Longrightarrow> same_below n e1 e2 \<Longrightarrow> same_below n e e2"
  by (simp add: same_below_def)

lemma free_all_below:
  "distinct arr \<Longrightarrow> \<forall>a \<in> set arr. emine e a \<and> n \<le> a \<Longrightarrow> n \<le> enext e \<Longrightarrow> same_below n e (fold free_str arr e)"
proof (induction arr arbitrary: e)
  case Nil
  then show ?case by (simp add: same_below_refl)
next
  case (Cons a arr)
  have "same_below n e (free_str a e)" using Cons.prems by (auto simp: free_str_def same_below_def)
  moreover have "same_below n (free_str a e) (fold free_str arr (free_str a e))"
    using Cons.prems by (intro Cons.IH) (auto simp: free_str_def)
  ultimately show ?case by (auto intro: same_below_trans)
qed

lemma take_loop_copies:
  assumes "\<forall>a \<in> set as. a < n" "n \<le> enext e" "distinct arr" "\<forall>b \<in> set arr. emine e b \<and> eheap e b \<noteq> None \<and> n \<le> b \<and> b < enext e"
    "take_loop mal as arr e = (r, e')"
  shows "same_below n e e' \<and> (case r of None \<Rightarrow> True | Some arr' \<Rightarrow> distinct arr'
    \<and> (\<forall>b \<in> set arr'. emine e' b \<and> eheap e' b \<noteq> None \<and> n \<le> b \<and> b < enext e')
    \<and> map (str_at e') arr' = map (str_at e) arr @ map (str_at e) as)"
  using assms
proof (induction as arbitrary: arr e)
  case Nil
  then show ?case by (auto simp: same_below_refl)
next
  case (Cons a as)
  show ?case
  proof (cases "new_str mal e (str_at e a)")
    case (Pair bo e1)
    show ?thesis
    proof (cases bo)
      case None
      then have "e1 = e" "r = None" "e' = fold free_str arr e"
        using Pair Cons.prems(5) new_str_fails by fastforce+
      with Cons.prems free_all_below [of arr e n] show ?thesis by simp
    next
      case (Some b)
      have ns: "new_str mal e (str_at e a) = (Some b, e1)" using Pair Some by simp
      note f = new_str_below [OF ns Cons.prems(2)]
      have nb: "b \<notin> set arr" using Cons.prems(4) f(2) by auto
      have IH: "same_below n e1 e' \<and> (case r of None \<Rightarrow> True | Some arr' \<Rightarrow> distinct arr'
          \<and> (\<forall>b \<in> set arr'. emine e' b \<and> eheap e' b \<noteq> None \<and> n \<le> b \<and> b < enext e')
          \<and> map (str_at e') arr' = map (str_at e1) (arr @ [b]) @ map (str_at e1) as)"
        using Cons.prems nb f ns by (intro Cons.IH) auto
      have "str_at e1 x = str_at e x" if "x \<noteq> b" for x using f(4) that by (simp add: str_at_def)
      moreover have "str_at e1 b = str_at e a" using f(4) by (simp add: str_at_def)
      moreover have "\<forall>x \<in> set as. x \<noteq> b" using Cons.prems(1,2) f(2) by auto
      ultimately have "map (str_at e1) arr = map (str_at e) arr" "map (str_at e1) as = map (str_at e) as" "str_at e1 b = str_at e a"
        using nb by (metis (mono_tags) map_eq_conv)+
      then have "map (str_at e1) (arr @ [b]) @ map (str_at e1) as = map (str_at e) arr @ map (str_at e) (a # as)"
        by simp
      with IH f(1) show ?thesis by (auto intro: same_below_trans split: option.splits)
    qed
  qed
qed

lemma strings_below:
  "same_below n e e' \<Longrightarrow> \<forall>a \<in> set (ptrs e). a < n \<Longrightarrow> strings e' = strings e \<and> ptrs e' = ptrs e"
  by (auto simp: same_below_def strings_def ptrs_def str_at_def)

lemma env_ok_below: "env_ok e \<Longrightarrow> same_below (enext e) e e' \<Longrightarrow> env_ok e' \<and> strings e' = strings e"
  using strings_below [of "enext e" e e'] by (auto simp: env_ok_def same_below_def)

lemma env_err_ok: "env_ok e \<Longrightarrow> env_ok (snd (env_err n e)) \<and> strings (snd (env_err n e)) = strings e"
  by (simp add: env_err_def env_ok_def strings_def)

lemma take_ownership_spec:
  assumes "env_ok e" "env_take_ownership mal e = (r, e1)"
  shows "env_ok e1 \<and> strings e1 = strings e
    \<and> (r = 0 \<and> env_owned e1 \<or> r = -1 \<and> errno (epx e1) = ENOMEM \<and> (\<exists>n. \<not> mal n))"
proof (cases "env_owned e \<or> \<not> mal ((env_count e + 8) * 8)")
  case True
  then show ?thesis
    using assms env_err_ok [OF assms(1), of ENOMEM] by (auto simp: env_take_ownership_def env_err_def split: if_splits)
next
  case False
  obtain ro e2 where t: "take_loop mal (ptrs e) [] e = (ro, e2)" by (cases "take_loop mal (ptrs e) [] e")
  have "\<forall>a \<in> set (ptrs e). a < enext e" using assms(1) by (simp add: env_ok_def)
  from take_loop_copies [OF this order_refl _ _ t] have k: "same_below (enext e) e e2"
    "case ro of None \<Rightarrow> True | Some arr' \<Rightarrow> distinct arr' \<and> (\<forall>b \<in> set arr'. emine e2 b \<and> eheap e2 b \<noteq> None \<and> enext e \<le> b \<and> b < enext e2)
       \<and> map (str_at e2) arr' = strings e" by (simp_all add: strings_def split: option.splits)
  have fails: "\<exists>n. \<not> mal n" if "ro = None"
  proof (rule ccontr)
    assume "\<nexists>n. \<not> mal n"
    then have "take_loop mal as arr x \<noteq> (None, y)" for as arr x y
      by (induction as arbitrary: arr x) (auto simp: new_str_def)
    with t that show False by blast
  qed
  show ?thesis
  proof (cases ro)
    case None
    then have "(r, e1) = env_err ENOMEM e2" using t False assms(2) by (simp add: env_take_ownership_def Let_def)
    then show ?thesis
      using env_ok_below [OF assms(1) k(1)] env_err_ok [of e2 ENOMEM] fails None by (auto simp: env_err_def)
  next
    case (Some arr)
    with k(2) have arr: "distinct arr" "\<forall>b \<in> set arr. emine e2 b \<and> eheap e2 b \<noteq> None \<and> b < enext e2" "map (str_at e2) arr = strings e"
      by auto
    then have "length arr = env_count e" by (metis env_count_def length_map strings_def)
    moreover have "\<not> env_fault e2" using k(1) assms(1) by (simp add: same_below_def env_ok_def)
    moreover have "r = 0" "e1 = e2 \<lparr> environ := Some arr, env_cap := env_count e + 8, env_owned := True \<rparr>"
      using t False assms(2) Some by (auto simp: env_take_ownership_def Let_def)
    moreover have "str_at (e2 \<lparr> environ := Some arr, env_cap := env_count e + 8, env_owned := True \<rparr>) = str_at e2"
      by (simp add: str_at_def fun_eq_iff)
    ultimately show ?thesis using arr by (auto simp: env_ok_def ptrs_def strings_def)
  qed
qed

text \<open>A new block does not disturb the entries.\<close>

lemma new_str_spec:
  assumes "env_ok e" "new_str mal e s = (Some b, e1)"
  shows "env_ok e1" "strings e1 = strings e" "ptrs e1 = ptrs e" "str_at e1 b = s" "emine e1 b" "eheap e1 b = Some s"
    "b \<notin> set (ptrs e1)" "b < enext e1" "env_owned e1 = env_owned e"
proof -
  note f = new_str_below [OF assms(2) order_refl]
  have "\<forall>a \<in> set (ptrs e). a < enext e" using assms(1) by (simp add: env_ok_def)
  then show "env_ok e1" "strings e1 = strings e" "ptrs e1 = ptrs e" "b \<notin> set (ptrs e1)" "b < enext e1" "env_owned e1 = env_owned e"
    using env_ok_below [OF assms(1) f(1)] strings_below [OF f(1)] f(1-3) by (auto simp: same_below_def)
  show "str_at e1 b = s" "emine e1 b" "eheap e1 b = Some s" using f(4,5) by (simp_all add: str_at_def)
qed

lemma str_at_free: "b \<noteq> a \<Longrightarrow> str_at (free_str a e) b = str_at e b"
  by (simp add: str_at_def free_str_def)

lemma map_str_free: "a \<notin> set as \<Longrightarrow> map (str_at (free_str a e)) as = map (str_at e) as"
  by (auto intro: str_at_free)

lemma replace_entry:
  assumes "env_ok e" "env_owned e" "ptrs e = xs @ a # ys" "emine e b" "eheap e b = Some s" "b \<notin> set (ptrs e)" "b < enext e"
  defines "e' \<equiv> (free_str a e) \<lparr> environ := Some (xs @ b # ys) \<rparr>"
  shows "env_ok e' \<and> strings e' = map (str_at e) xs @ s # map (str_at e) ys"
proof -
  have d: "a \<notin> set xs" "a \<notin> set ys" "b \<noteq> a" "distinct (xs @ b # ys)" using assms(1,3,6) by (auto simp: env_ok_def)
  have m: "emine e a" using assms(1-3) by (auto simp: env_ok_def)
  have s: "str_at e b = s" using assms(5) by (simp add: str_at_def)
  have "strings e' = map (str_at e) xs @ s # map (str_at e) ys"
    using d s by (simp add: strings_def e'_def map_str_free str_at_free)
  moreover have "env_ok e'"
    using assms(1-5,7) d m unfolding env_ok_def e'_def by (auto simp: free_str_def)
  ultimately show ?thesis by simp
qed

lemma remove_entry:
  assumes "env_ok e" "env_owned e" "ptrs e = xs @ a # ys"
  defines "e' \<equiv> (free_str a e) \<lparr> environ := Some (xs @ ys) \<rparr>"
  shows "env_ok e' \<and> strings e' = map (str_at e) xs @ map (str_at e) ys"
proof -
  have d: "a \<notin> set xs" "a \<notin> set ys" "distinct (xs @ ys)" using assms(1,3) by (auto simp: env_ok_def)
  have m: "emine e a" using assms(1-3) by (auto simp: env_ok_def)
  have "strings e' = map (str_at e) xs @ map (str_at e) ys"
    using d by (simp add: strings_def e'_def map_str_free)
  moreover have "env_ok e'"
    using assms(1-3) d m unfolding env_ok_def e'_def by (auto simp: free_str_def)
  ultimately show ?thesis by simp
qed

lemma append_entry:
  assumes "env_ok e" "env_owned e" "emine e b" "eheap e b = Some s" "b \<notin> set (ptrs e)" "b < enext e" "length (ptrs e) + 2 \<le> env_cap e"
  shows "env_ok (env_append b e) \<and> strings (env_append b e) = strings e @ [s]"
  using assms by (auto simp: env_ok_def env_append_def strings_def str_at_def)

lemma grow_spec:
  assumes "env_ok e" "env_owned e" "env_grow_for_one mal e (env_count e) = (g, e1)"
  shows "env_ok e1 \<and> strings e1 = strings e \<and> ptrs e1 = ptrs e \<and> env_owned e1 \<and> emine e1 = emine e \<and> eheap e1 = eheap e \<and> enext e1 = enext e
    \<and> (g = 0 \<and> length (ptrs e1) + 2 \<le> env_cap e1 \<or> g = -1 \<and> errno (epx e1) = ENOMEM \<and> (\<exists>n. \<not> mal n))"
  using assms by (auto simp: env_grow_for_one_def env_count_def env_ok_def env_err_def strings_def Let_def split: if_splits)

lemma drop_new_str:
  assumes "env_ok e" "emine e b" "b \<notin> set (ptrs e)"
  shows "env_ok (free_str b e) \<and> strings (free_str b e) = strings e"
  using assms map_str_free [OF assms(3), of e] by (auto simp: env_ok_def strings_def free_str_def)

text \<open>Adding a fresh entry: grow if needed, append; on failure the entry is freed again.\<close>

lemma insert_new:
  assumes "env_ok e" "env_owned e" "new_str mal e s = (Some b, e2)"
    "(r, e') = (let (g, e3) = env_grow_for_one mal e2 (env_count e2) in
       if g \<noteq> 0 then (-1, free_str b e3) else (0, env_append b e3))"
  shows "env_ok e' \<and> (r = -1 \<and> errno (epx e') = ENOMEM \<and> (\<exists>k. \<not> mal k) \<and> strings e' = strings e
    \<or> r = 0 \<and> env_owned e' \<and> strings e' = strings e @ [s])"
proof -
  note f = new_str_spec [OF assms(1,3)]
  obtain g e3 where gr: "env_grow_for_one mal e2 (env_count e2) = (g, e3)" by (cases "env_grow_for_one mal e2 (env_count e2)")
  have "env_owned e2" using f(9) assms(2) by simp
  note gs = grow_spec [OF f(1) this gr]
  have res: "(r, e') = (if g \<noteq> 0 then (-1, free_str b e3) else (0, env_append b e3))"
    using assms(4) gr by simp
  show ?thesis
  proof (cases "g = 0")
    case True
    with gs have "length (ptrs e3) + 2 \<le> env_cap e3" by auto
    then have "env_ok (env_append b e3) \<and> strings (env_append b e3) = strings e3 @ [s]" "env_owned (env_append b e3)"
      using gs f by (intro append_entry, auto simp: env_append_def)
    then show ?thesis using res True gs f(2) by simp
  next
    case False
    then have "env_ok (free_str b e3) \<and> strings (free_str b e3) = strings e3" "epx (free_str b e3) = epx e3"
      using gs f by (intro drop_new_str, auto simp: free_str_def)
    then show ?thesis using res False gs f(2) by auto
  qed
qed

text \<open>The effect of \<open>setenv\<close> on the list of entries.\<close>

lemma setenv_entries:
  assumes "env_ok e" "valid_name n" "setenv mal e (Some n) vp ow = (r, e')"
  shows "env_ok e' \<and> (r = -1 \<and> errno (epx e') = ENOMEM \<and> (\<exists>k. \<not> mal k) \<and> strings e' = strings e
    \<or> r = 0 \<and> env_owned e' \<and>
      (let v = (case vp of None \<Rightarrow> [] | Some v \<Rightarrow> v); s' = n @ CHR ''='' # v in
       env_get e n \<noteq> None \<and> \<not> ow \<and> strings e' = strings e
       \<or> env_get e n = None \<and> strings e' = strings e @ [s']
       \<or> ow \<and> (\<exists>xs s ys. strings e = xs @ s # ys \<and> name_matches s n (length n) \<and> lookup xs n = None \<and> strings e' = xs @ s' # ys)))"
proof -
  have bn: "\<not> bad_name (Some n)" using assms(2) by (simp add: bad_name_def valid_name_def)
  obtain r1 e1 where t: "env_take_ownership mal e = (r1, e1)" by (cases "env_take_ownership mal e")
  note o = take_ownership_spec [OF assms(1) t]
  have g1: "env_get e1 = env_get e" using o by (simp add: env_get_def fun_eq_iff)
  define v where "v = (case vp of None \<Rightarrow> [] | Some v \<Rightarrow> v)"
  let ?s = "n @ CHR ''='' # v"
  have run: "setenv mal e (Some n) vp ow = (if env_find e1 n (length n) \<ge> 0 \<and> \<not> ow then (0, e1)
      else case new_str mal e1 ?s of (None, e2) \<Rightarrow> env_err ENOMEM e2
        | (Some entry, e2) \<Rightarrow>
            if env_find e1 n (length n) \<ge> 0
            then (0, (free_str (ptrs e2 ! nat (env_find e1 n (length n))) e2) \<lparr> environ := Some ((ptrs e2)[nat (env_find e1 n (length n)) := entry]) \<rparr>)
            else let (g, e3) = env_grow_for_one mal e2 (env_count e2) in
                 if g \<noteq> 0 then (-1, free_str entry e3) else (0, env_append entry e3))" if "r1 = 0"
    using bn t that by (simp add: setenv_def v_def Let_def)
  show ?thesis
  proof (cases "r1 = 0")
    case False
    then show ?thesis using o bn t assms(3) by (auto simp: setenv_def)
  next
    case True
    then have ok: "env_ok e1" "env_owned e1" "strings e1 = strings e" using o by auto
    note run = run [OF True, unfolded assms(3)]
    obtain bo e2 where ns: "new_str mal e1 ?s = (bo, e2)" by (cases "new_str mal e1 ?s")
    have nomem: ?thesis if "bo = None" "\<not> (env_find e1 n (length n) \<ge> 0 \<and> \<not> ow)"
    proof -
      have "r = -1 \<and> e' = snd (env_err ENOMEM e1) \<and> \<not> mal (length ?s + 1)"
        using run ns that new_str_fails [of mal e1 ?s e2] by (auto simp: env_err_def new_str_def split: if_splits)
      then show ?thesis using env_err_ok [OF ok(1), of ENOMEM] ok(3) by (auto simp: env_err_def)
    qed
    from assms(2) show ?thesis
    proof (cases rule: env_find_cases [where e = e1])
      case absent
      show ?thesis
      proof (cases bo)
        case None
        with absent show ?thesis by (intro nomem) auto
      next
        case (Some b)
        with ns have ns': "new_str mal e1 ?s = (Some b, e2)" by simp
        have "(r, e') = (let (g, e3) = env_grow_for_one mal e2 (env_count e2) in
            if g \<noteq> 0 then (-1, free_str b e3) else (0, env_append b e3))"
          using run absent(1) ns' by simp
        from insert_new [OF ok(1,2) ns' this] show ?thesis using ok(3) g1 absent(2) by (auto simp: v_def)
      qed
    next
      case (present xs a ys)
      then have "env_get e1 n \<noteq> None" by (auto simp: env_get_def strings_def lookup_none)
      with g1 have ge: "env_get e n \<noteq> None" by simp
      show ?thesis
      proof (cases "ow \<and> bo \<noteq> None")
        case False
        show ?thesis
        proof (cases ow)
          case True
          with False show ?thesis by (intro nomem) auto
        next
          case False
          then have "r = 0" "e' = e1" using run present(2) by auto
          then show ?thesis using False ok ge by simp
        qed
      next
        case True
        then obtain b where ns': "new_str mal e1 ?s = (Some b, e2)" using ns by auto
        note f = new_str_spec [OF ok(1) ns']
        have ow2: "env_owned e2" using f(9) ok(2) by simp
        have p2: "ptrs e2 = xs @ a # ys" using f(3) present(1) by simp
        have res: "r = 0" "e' = (free_str a e2) \<lparr> environ := Some (xs @ b # ys) \<rparr>"
          using run True present(2) ns' p2 by auto
        note rp = replace_entry [OF f(1) ow2 p2 f(5,6,7,8)]
        have str: "str_at e2 x = str_at e1 x" if "x \<in> set (ptrs e1)" for x
          using f(2,3) that by (simp add: strings_def)
        then have st: "map (str_at e2) xs = map (str_at e1) xs" "map (str_at e2) ys = map (str_at e1) ys" using present(1) by auto
        have "strings e = map (str_at e1) xs @ str_at e1 a # map (str_at e1) ys" using ok(3) present(1) by (simp add: strings_def)
        moreover have "env_owned e'" using res(2) ow2 by (simp add: free_str_def)
        moreover have "env_ok e'" "strings e' = map (str_at e1) xs @ ?s # map (str_at e1) ys" using rp res(2) st by simp_all
        moreover have "ow" using True by simp
        ultimately show ?thesis using present(3,4) res(1) unfolding Let_def v_def by metis
      qed
    qed
  qed
qed

lemma unsetenv_entries:
  assumes "env_ok e" "valid_name n" "unsetenv mal e (Some n) = (r, e')"
  shows "env_ok e' \<and> (r = -1 \<and> errno (epx e') = ENOMEM \<and> (\<exists>k. \<not> mal k) \<and> strings e' = strings e
    \<or> r = 0 \<and> env_owned e' \<and> (env_get e n = None \<and> strings e' = strings e
       \<or> (\<exists>xs s ys. strings e = xs @ s # ys \<and> name_matches s n (length n) \<and> lookup xs n = None \<and> strings e' = xs @ ys)))"
proof -
  have bn: "\<not> bad_name (Some n)" using assms(2) by (simp add: bad_name_def valid_name_def)
  obtain r1 e1 where t: "env_take_ownership mal e = (r1, e1)" by (cases "env_take_ownership mal e")
  note o = take_ownership_spec [OF assms(1) t]
  have g1: "env_get e1 = env_get e" using o by (simp add: env_get_def fun_eq_iff)
  show ?thesis
  proof (cases "r1 = 0")
    case False
    then show ?thesis using o bn t assms(3) by (auto simp: unsetenv_def)
  next
    case True
    then have ok: "env_ok e1" "env_owned e1" "strings e1 = strings e" using o by auto
    from assms(2) show ?thesis
    proof (cases rule: env_find_cases [where e = e1])
      case absent
      then show ?thesis using assms(3) bn t True ok g1 by (auto simp: unsetenv_def)
    next
      case (present xs a ys)
      have res: "r = 0" "e' = (free_str a e1) \<lparr> environ := Some (xs @ ys) \<rparr>"
        using assms(3) bn t True present by (auto simp: unsetenv_def)
      note rm = remove_entry [OF ok(1,2) present(1)]
      have "strings e = map (str_at e1) xs @ str_at e1 a # map (str_at e1) ys" using ok(3) present(1) by (simp add: strings_def)
      moreover have "env_owned e'" using res(2) ok(2) by (simp add: free_str_def)
      ultimately show ?thesis using rm res present(3,4) by blast
    qed
  qed
qed

subsection \<open>The environment as a finite map\<close>

text \<open>Every entry has a name, no name twice: what \<open>unsetenv\<close> needs to make the name disappear.\<close>

definition entry_name :: "string \<Rightarrow> string" where
  "entry_name s = takeWhile (\<lambda>c. c \<noteq> CHR ''='') s"

definition env_proper :: "'w env \<Rightarrow> bool" where
  "env_proper e \<longleftrightarrow> env_ok e \<and> distinct (map entry_name (strings e)) \<and> (\<forall>s \<in> set (strings e). CHR ''='' \<in> set s)"

lemma entry_name_matches: "valid_name n \<Longrightarrow> name_matches s n (length n) \<Longrightarrow> entry_name s = n"
  by (auto simp: name_matches_iff entry_name_def valid_name_def intro!: takeWhile_append_stop)

lemma entry_name_entry: "valid_name n \<Longrightarrow> entry_name (n @ CHR ''='' # v) = n"
  by (rule entry_name_matches) (simp_all add: name_matches_iff)

lemma lookup_other_names: "valid_name n \<Longrightarrow> n \<notin> entry_name ` set ss \<Longrightarrow> lookup ss n = None"
  by (auto simp: lookup_none dest: entry_name_matches)

lemma entry_name_found: "CHR ''='' \<in> set s \<Longrightarrow> name_matches s (entry_name s) (length (entry_name s))"
proof -
  assume "CHR ''='' \<in> set s"
  then obtain xs ys where s: "s = xs @ CHR ''='' # ys" "CHR ''='' \<notin> set xs" using split_list_first by fastforce
  then have "entry_name s = xs" unfolding entry_name_def s(1) by (intro takeWhile_append_stop) auto
  with s(1) show ?thesis by (simp add: name_matches_iff)
qed

text \<open>The interface: an invariant, a lookup, and two updates that act on the lookup like the updates of a
  map. Any sequence of updates then acts like the sequence of map updates.\<close>

datatype envcmd = Set string string bool | Unset string

fun cmd_name :: "envcmd \<Rightarrow> string" where
  "cmd_name (Set n v ow) = n"
| "cmd_name (Unset n) = n"

fun map_cmd :: "envcmd \<Rightarrow> (string \<Rightarrow> string option) \<Rightarrow> string \<Rightarrow> string option" where
  "map_cmd (Set n v ow) m = (if m n \<noteq> None \<and> \<not> ow then m else m(n \<mapsto> v))"
| "map_cmd (Unset n) m = m(n := None)"

locale environment =
  fixes inv :: "'s \<Rightarrow> bool" and get :: "'s \<Rightarrow> string \<Rightarrow> string option"
    and put :: "'s \<Rightarrow> string \<Rightarrow> string \<Rightarrow> bool \<Rightarrow> 's" and del :: "'s \<Rightarrow> string \<Rightarrow> 's"
  assumes put_inv: "inv e \<Longrightarrow> valid_name n \<Longrightarrow> inv (put e n v ow)"
    and del_inv: "inv e \<Longrightarrow> valid_name n \<Longrightarrow> inv (del e n)"
    and get_put: "inv e \<Longrightarrow> valid_name n \<Longrightarrow> valid_name m \<Longrightarrow> get (put e n v ow) m =
      (if m = n \<and> (ow \<or> get e n = None) then Some v else get e m)"
    and get_del: "inv e \<Longrightarrow> valid_name n \<Longrightarrow> valid_name m \<Longrightarrow> get (del e n) m = (if m = n then None else get e m)"
begin

fun run_cmd :: "envcmd \<Rightarrow> 's \<Rightarrow> 's" where
  "run_cmd (Set n v ow) e = put e n v ow"
| "run_cmd (Unset n) e = del e n"

lemma run_cmd_step:
  assumes "inv e" "valid_name (cmd_name c)"
  shows "inv (run_cmd c e)" "valid_name m \<Longrightarrow> get (run_cmd c e) m = map_cmd c (get e) m"
  using assms by (cases c; auto simp: put_inv del_inv get_put get_del)+

lemma map_cmd_cong: "(\<And>m. valid_name m \<Longrightarrow> f m = g m) \<Longrightarrow> valid_name (cmd_name c) \<Longrightarrow> valid_name m \<Longrightarrow> map_cmd c f m = map_cmd c g m"
  by (cases c) auto

lemma run_all:
  assumes "inv e" "\<forall>c \<in> set cs. valid_name (cmd_name c)" "valid_name m" "\<And>k. valid_name k \<Longrightarrow> get e k = f k"
  shows "inv (fold run_cmd cs e)" "get (fold run_cmd cs e) m = fold map_cmd cs f m"
proof -
  have "inv (fold run_cmd cs e) \<and> get (fold run_cmd cs e) m = fold map_cmd cs f m"
    using assms
  proof (induction cs arbitrary: e f)
    case (Cons c cs)
    then have v: "valid_name (cmd_name c)" by simp
    have "get (run_cmd c e) k = map_cmd c f k" if "valid_name k" for k
      using run_cmd_step(2) [OF Cons.prems(1) v that] map_cmd_cong [of "get e" f, OF Cons.prems(4) v that] by simp
    with Cons run_cmd_step(1) [OF Cons.prems(1) v] show ?case by simp
  qed simp
  then show "inv (fold run_cmd cs e)" "get (fold run_cmd cs e) m = fold map_cmd cs f m" by simp_all
qed

end

definition put_ok :: "'w env \<Rightarrow> string \<Rightarrow> string \<Rightarrow> bool \<Rightarrow> 'w env" where
  "put_ok e n v ow = snd (setenv (\<lambda>k. True) e (Some n) (Some v) ow)"

definition del_ok :: "'w env \<Rightarrow> string \<Rightarrow> 'w env" where
  "del_ok e n = snd (unsetenv (\<lambda>k. True) e (Some n))"

lemma setenv_lookup:
  assumes "env_ok e" "valid_name n" "valid_name m" "setenv mal e (Some n) vp ow = (r, e')"
  shows "env_get e' m = (if r = 0 \<and> m = n \<and> (ow \<or> env_get e n = None) then Some (case vp of None \<Rightarrow> [] | Some v \<Rightarrow> v) else env_get e m)"
  using setenv_entries [OF assms(1,2,4)] lookup_replace [OF assms(2,3)] lookup_snoc [OF assms(2,3)]
  by (auto simp: env_get_def Let_def)

lemma absent_name:
  "env_proper e \<Longrightarrow> env_get e n = None \<Longrightarrow> n \<notin> entry_name ` set (strings e)"
  using entry_name_found by (auto simp: env_proper_def env_get_def lookup_none)

lemma setenv_proper:
  assumes "env_proper e" "valid_name n" "setenv mal e (Some n) vp ow = (r, e')"
  shows "env_proper e'"
proof -
  have ok: "env_ok e" and d: "distinct (map entry_name (strings e))" "\<forall>s \<in> set (strings e). CHR ''='' \<in> set s"
    using assms(1) by (simp_all add: env_proper_def)
  note s = setenv_entries [OF ok assms(2,3)]
  have "distinct (map entry_name (strings e')) \<and> (\<forall>s \<in> set (strings e'). CHR ''='' \<in> set s)"
    using s d absent_name [OF assms(1), of n] entry_name_entry [OF assms(2)] entry_name_matches [OF assms(2)]
    by (auto simp: Let_def)
  with s show ?thesis by (auto simp: env_proper_def)
qed

lemma unsetenv_lookup:
  assumes "env_proper e" "valid_name n" "valid_name m" "unsetenv mal e (Some n) = (r, e')"
  shows "env_get e' m = (if r = 0 \<and> m = n then None else env_get e m)" "env_proper e'"
proof -
  have ok: "env_ok e" and d: "distinct (map entry_name (strings e))" "\<forall>s \<in> set (strings e). CHR ''='' \<in> set s"
    using assms(1) by (simp_all add: env_proper_def)
  note u = unsetenv_entries [OF ok assms(2,4)]
  have none: "lookup ys n = None" if "strings e = xs @ s # ys" "name_matches s n (length n)" for xs s ys
    using d(1) that entry_name_matches [OF assms(2) that(2)] by (intro lookup_other_names [OF assms(2)]) auto
  show "env_get e' m = (if r = 0 \<and> m = n then None else env_get e m)"
  proof (cases "r = 0 \<and> env_get e n \<noteq> None")
    case False
    with u show ?thesis by (auto simp: env_get_def) (auto simp: lookup_none)
  next
    case True
    with u obtain xs s ys where x: "strings e = xs @ s # ys" "name_matches s n (length n)" "lookup xs n = None" "strings e' = xs @ ys"
      by auto
    then show ?thesis using lookup_remove [OF assms(2,3) x(3,2), of ys] none [OF x(1,2)] True by (simp add: env_get_def)
  qed
  show "env_proper e'" using u d by (auto simp: env_proper_def)
qed

interpretation rcenv: environment env_proper env_get put_ok del_ok
proof
  fix e :: "'w env" and n m v :: string and ow :: bool
  assume e: "env_proper e" and n: "valid_name n"
  obtain r e1 where s: "setenv (\<lambda>k. True) e (Some n) (Some v) ow = (r, e1)" by (cases "setenv (\<lambda>k. True) e (Some n) (Some v) ow")
  obtain q e2 where u: "unsetenv (\<lambda>k. True) e (Some n) = (q, e2)" by (cases "unsetenv (\<lambda>k. True) e (Some n)")
  have ok: "env_ok e" using e by (simp add: env_proper_def)
  have z: "r = 0" "q = 0" using setenv_entries [OF ok n s] unsetenv_entries [OF ok n u] by auto
  show "env_proper (put_ok e n v ow)" using setenv_proper [OF e n s] s by (simp add: put_ok_def)
  show "env_proper (del_ok e n)" using unsetenv_lookup(2) [OF e n n u] u by (simp add: del_ok_def)
  assume m: "valid_name m"
  show "env_get (put_ok e n v ow) m = (if m = n \<and> (ow \<or> env_get e n = None) then Some v else env_get e m)"
    using setenv_lookup [OF ok n m s] s z by (auto simp: put_ok_def)
  show "env_get (del_ok e n) m = (if m = n then None else env_get e m)"
    using unsetenv_lookup(1) [OF e n m u] u z by (simp add: del_ok_def)
qed

subsection \<open>Properties\<close>

fun run_env :: "envcmd \<Rightarrow> 'w env \<Rightarrow> 'w env" where
  "run_env (Set n v ow) e = snd (setenv (\<lambda>k. True) e (Some n) (Some v) ow)"
| "run_env (Unset n) e = snd (unsetenv (\<lambda>k. True) e (Some n))"

lemma run_env_is: "run_env = rcenv.run_cmd"
proof (intro ext)
  fix c :: envcmd and e :: "'a env"
  show "run_env c e = rcenv.run_cmd c e" by (cases c) (simp_all add: put_ok_def del_ok_def)
qed

lemma getenv_get:
  assumes "valid_name m"
  shows "getenv os e (Some m) = (case env_get e m of Some v \<Rightarrow> (Some v, e) | None \<Rightarrow> env_from_store os e m)"
  using assms
proof (cases rule: env_find_cases [where e = e])
  case absent
  then show ?thesis using assms by (simp add: getenv_def valid_name_def)
next
  case (present xs a ys)
  then have "env_get e m = Some (drop (length m + 1) (str_at e a))"
    by (simp add: env_get_def strings_def lookup_append lookup_cons)
  then show ?thesis using assms present(1,2) by (simp add: getenv_def valid_name_def)
qed

lemma putenv_then_find:
  assumes "env_ok e" "env_owned e" "valid_name n" "eheap e a = Some (n @ CHR ''='' # v)" "putenv (\<lambda>k. True) e (Some a) = (r, e1)"
  shows "r = 0 \<and> env_owned e1 \<and> enext e1 = enext e \<and> emine e1 = emine e
    \<and> (\<exists>i. env_find e1 n (length n) = int i \<and> i < length (ptrs e1) \<and> ptrs e1 ! i = a)"
proof -
  let ?s = "n @ CHR ''='' # v"
  have s: "str_at e a = ?s" using assms(4) by (simp add: str_at_def)
  have len: "length (takeWhile (\<lambda>c. c \<noteq> CHR ''='') ?s) = length n"
    using entry_name_entry [OF assms(3), of v] by (simp add: entry_name_def)
  have find: "find_loop ss ?s (length n) i = find_loop ss n (length n) i" for ss i
    by (induction ss arbitrary: i) (simp_all add: name_matches_def)
  have m: "name_matches ?s n (length n)" by (simp add: name_matches_iff)
  have idx: "env_find e ?s (length n) = env_find e n (length n)" by (simp add: env_find_def find)
  have own: "env_take_ownership (\<lambda>k. True) e = (0, e)" using assms(2) by (simp add: env_take_ownership_def)
  from assms(3) show ?thesis
  proof (cases rule: env_find_cases [where e = e])
    case (present xs b ys)
    then have "r = 0" "e1 = e \<lparr> environ := Some (xs @ a # ys) \<rparr>"
      using assms(5) s own len idx by (simp_all add: putenv_def Let_def)
    moreover have "find_loop (map (str_at e) xs @ str_at e a # map (str_at e) ys) n (length n) 0 = int (length xs)"
      using find_loop_some [of "map (str_at e) xs" n "length n" "str_at e a" "map (str_at e) ys" 0] present(4) m s
      by (simp add: lookup_none)
    ultimately show ?thesis using assms(2) by (auto simp: env_find_def intro!: exI [of _ "length xs"])
  next
    case absent
    obtain g e2 where g: "env_grow_for_one (\<lambda>k. True) e (env_count e) = (g, e2)" by (cases "env_grow_for_one (\<lambda>k. True) e (env_count e)")
    note gs = grow_spec [OF assms(1,2) g]
    have "r = 0" "e1 = env_append a e2" using assms(5) s own len idx absent(1) g gs by (auto simp: putenv_def Let_def)
    moreover have "env_append a e2 = e2 \<lparr> environ := Some (ptrs e @ [a]) \<rparr>" using gs by (auto simp: env_append_def)
    moreover have "str_at e2 = str_at e" using gs by (simp add: str_at_def fun_eq_iff)
    moreover have "find_loop (map (str_at e) (ptrs e) @ [str_at e a]) n (length n) 0 = int (length (ptrs e))"
      using find_loop_some [of "map (str_at e) (ptrs e)" n "length n" "str_at e a" "[]" 0] absent(2) m s
      by (simp add: lookup_none env_get_def strings_def)
    ultimately show ?thesis using gs by (auto simp: env_find_def intro!: exI [of _ "length (ptrs e)"])
  qed
qed

text \<open>C19: starting from an environment without duplicate names, any sequence of \<open>setenv\<close> and
  \<open>unsetenv\<close> calls acts on \<open>getenv\<close> as the same sequence of updates of a map, frees only its own blocks
  and never stores behind the array; a name that is absent falls through to the \<^verbatim>\<open>/env\<close> store.\<close>

theorem env_sequence:
  assumes "env_proper e" "\<forall>c \<in> set cs. valid_name (cmd_name c)" "valid_name m"
  shows "\<not> env_fault (fold run_env cs e) \<and> getenv os (fold run_env cs e) (Some m) =
    (case fold map_cmd cs (env_get e) m of Some v \<Rightarrow> (Some v, fold run_env cs e) | None \<Rightarrow> env_from_store os (fold run_env cs e) m)"
proof -
  have r: "env_proper (fold run_env cs e)" "env_get (fold run_env cs e) m = fold map_cmd cs (env_get e) m"
    using rcenv.run_all [OF assms refl] unfolding run_env_is .
  then have "\<not> env_fault (fold run_env cs e)" by (simp add: env_proper_def env_ok_def)
  then show ?thesis unfolding getenv_get [OF assms(3), of os "fold run_env cs e"] r(2) by simp
qed

definition env_start :: "string list \<Rightarrow> 'w px \<Rightarrow> 'w env" where
  "env_start ss px = \<lparr> environ = Some [0..<length ss], env_owned = False, env_cap = 0,
     eheap = (\<lambda>a. if a < length ss then Some (ss ! a) else None), emine = (\<lambda>a. False), enext = length ss, env_fault = False, epx = px \<rparr>"

lemma strings_start: "strings (env_start ss px) = ss"
  by (rule nth_equalityI) (simp_all add: strings_def ptrs_def env_start_def str_at_def)

lemma env_start_proper:
  "distinct (map entry_name ss) \<Longrightarrow> \<forall>s \<in> set ss. CHR ''='' \<in> set s \<Longrightarrow> env_proper (env_start ss px)"
  unfolding env_proper_def strings_start by (simp add: env_ok_def env_start_def ptrs_def)

theorem env_sequence_witness:
  "getenv fsd_os (fold run_env [Set ''A'' ''2'' True, Set ''B'' ''x'' False, Unset ''B''] (env_start [''A=1'', ''C=3''] demo_px)) (Some ''A'')
    = (Some ''2'', fold run_env [Set ''A'' ''2'' True, Set ''B'' ''x'' False, Unset ''B''] (env_start [''A=1'', ''C=3''] demo_px))"
proof -
  let ?e = "env_start [''A=1'', ''C=3''] demo_px"
  have "env_proper ?e" by (rule env_start_proper) (simp_all add: entry_name_def)
  moreover define cs where "cs = [Set ''A'' ''2'' True, Set ''B'' ''x'' False, Unset ''B'']"
  moreover have "\<forall>c \<in> set [Set ''A'' ''2'' True, Set ''B'' ''x'' False, Unset ''B'']. valid_name (cmd_name c)" "valid_name ''A''"
    by (simp_all add: valid_name_def)
  moreover have "fold map_cmd [Set ''A'' ''2'' True, Set ''B'' ''x'' False, Unset ''B''] (env_get ?e) ''A'' = Some ''2''" by simp
  ultimately show ?thesis using env_sequence [of ?e cs "''A''" fsd_os] by (metis option.simps(5))
qed

text \<open>\<open>setenv\<close> with a valid name either stores the value or fails with \<^verbatim>\<open>ENOMEM\<close> because an allocation
  failed, and then no name changes its value and nothing is freed that is still in use.\<close>

theorem setenv_all_or_nothing:
  assumes "env_ok e" "valid_name n" "valid_name m" "setenv mal e (Some n) (Some v) ow = (r, e')"
  shows "env_ok e' \<and> (r = 0 \<and> env_get e' m = (if m = n \<and> (ow \<or> env_get e n = None) then Some v else env_get e m)
    \<or> r = -1 \<and> errno (epx e') = ENOMEM \<and> (\<exists>k. \<not> mal k) \<and> env_get e' m = env_get e m)"
  using setenv_entries [OF assms(1,2,4)] setenv_lookup [OF assms] by auto

theorem setenv_all_or_nothing_witness:
  "fst (setenv (\<lambda>k. k < 10) (env_start [''A=1''] demo_px) (Some ''A'') (Some ''2'') True) = -1
    \<and> env_get (snd (setenv (\<lambda>k. k < 10) (env_start [''A=1''] demo_px) (Some ''A'') (Some ''2'') True)) ''A'' = Some ''1''"
proof -
  let ?e = "env_start [''A=1''] demo_px"
  obtain r e' where s: "setenv (\<lambda>k. k < 10) ?e (Some ''A'') (Some ''2'') True = (r, e')"
    by (cases "setenv (\<lambda>k. k < 10) ?e (Some ''A'') (Some ''2'') True")
  have "env_take_ownership (\<lambda>k. k < 10) ?e = env_err ENOMEM ?e"
    by (simp add: env_take_ownership_def env_start_def env_count_def ptrs_def)
  with s have r: "r = -1" by (auto simp: setenv_def bad_name_def env_err_def)
  have p: "env_proper ?e" by (rule env_start_proper) (simp_all add: entry_name_def)
  have v: "valid_name ''A''" by (simp add: valid_name_def)
  have "env_get ?e ''A'' = Some ''1''"
    unfolding env_get_def strings_start by (simp add: lookup_def name_matches_def at_def)
  with setenv_all_or_nothing [OF _ v v s] p r s show ?thesis by (simp add: env_proper_def)
qed

text \<open>After \<open>putenv\<close> of a caller's string, overwriting the same name with \<open>setenv\<close> calls \<^verbatim>\<open>free\<close> on
  that string, which did not come from \<^verbatim>\<open>malloc\<close>.\<close>

theorem setenv_frees_putenv:
  assumes "env_ok e" "env_owned e" "valid_name n" "eheap e a = Some (n @ CHR ''='' # v)" "\<not> emine e a" "a < enext e"
  shows "\<exists>e1 e2. putenv (\<lambda>k. True) e (Some a) = (0, e1) \<and> setenv (\<lambda>k. True) e1 (Some n) (Some w) True = (0, e2) \<and> env_fault e2"
proof -
  obtain r e1 where p: "putenv (\<lambda>k. True) e (Some a) = (r, e1)" by (cases "putenv (\<lambda>k. True) e (Some a)")
  from putenv_then_find [OF assms(1-4) p] obtain i where
    i: "r = 0" "env_owned e1" "enext e1 = enext e" "emine e1 = emine e" "env_find e1 n (length n) = int i" "ptrs e1 ! i = a" by blast
  have "\<not> bad_name (Some n)" using assms(3) by (simp add: bad_name_def valid_name_def)
  then have "\<exists>e2. setenv (\<lambda>k. True) e1 (Some n) (Some w) True = (0, e2) \<and> env_fault e2"
    using i assms(5,6) by (simp add: setenv_def Let_def env_take_ownership_def new_str_def free_str_def)
  with p i(1) show ?thesis by blast
qed

definition putenv_demo :: "fsw env" where
  "putenv_demo = (env_start [''A=1''] demo_px) \<lparr> environ := Some [], env_owned := True, env_cap := 8 \<rparr>"

theorem setenv_frees_putenv_witness:
  "\<exists>e1 e2. putenv (\<lambda>k. True) putenv_demo (Some 0) = (0, e1) \<and> setenv (\<lambda>k. True) e1 (Some ''A'') (Some ''2'') True = (0, e2) \<and> env_fault e2"
  by (rule setenv_frees_putenv [where v = "''1''"])
    (simp_all add: putenv_demo_def env_start_def env_ok_def ptrs_def valid_name_def)

end
