(* ===== verification/Fp.thy ===== *)
theory Fp
  imports Complex_Main Prelude "HOL-Library.Log_Nat"
begin

text \<open>
  The floating-point arithmetic of C that the library uses: IEEE binary formats on exact rational
  magnitudes. A value is a sign with a magnitude (so that the two zeros differ), an infinity or a NaN;
  an operation computes exactly and rounds to the format, to nearest with ties to even. On riscv64
  \<^verbatim>\<open>float\<close> is \<open>single\<close>, \<^verbatim>\<open>double\<close> is \<open>double\<close> and \<^verbatim>\<open>long double\<close> is \<open>quad\<close> (113 bits, the
  constants \<^verbatim>\<open>LDBL_MANT_DIG\<close> and \<^verbatim>\<open>LDBL_MAX_EXP\<close> select).
\<close>

datatype fp = FNum bool rat | FInf bool | FNaN

text \<open>\<open>mant\<close> is the number of bits of the significand, \<open>least\<close> the exponent of the least subnormal number
  (\<^verbatim>\<open>MIN_EXP - MANT_DIG\<close>), \<open>maxexp\<close> the first exponent that overflows.\<close>

record fmt =
  mant :: int
  least :: int
  maxexp :: int

definition single :: fmt where "single = \<lparr> mant = 24, least = -149, maxexp = 128 \<rparr>"
definition double :: fmt where "double = \<lparr> mant = 53, least = -1074, maxexp = 1024 \<rparr>"
definition quad :: fmt where "quad = \<lparr> mant = 113, least = -16494, maxexp = 16384 \<rparr>"

text \<open>The binary exponent of a positive rational.\<close>

definition rexp :: "rat \<Rightarrow> int" where
  "rexp x =
     (let (a, b) = quotient_of x;
          k = int (floorlog 2 (nat a)) - int (floorlog 2 (nat b))
      in if 2 powi k \<le> x then k else k - 1)"

text \<open>To the nearest integer, ties to even.\<close>

definition rne :: "rat \<Rightarrow> int" where
  "rne x = (let q = \<lfloor>x\<rfloor>; r = x - of_int q in if r < 1 / 2 \<or> r = 1 / 2 \<and> even q then q else q + 1)"

definition fround :: "fmt \<Rightarrow> bool \<Rightarrow> rat \<Rightarrow> fp" where
  "fround F neg x =
     (if x = 0 then FNum neg 0
      else (let l = max (rexp x - mant F + 1) (least F);
                r = of_int (rne (x / 2 powi l)) * 2 powi l
            in if 2 powi maxexp F \<le> r then FInf neg else FNum neg r))"

definition sval :: "bool \<Rightarrow> rat \<Rightarrow> rat" where
  "sval neg x = (if neg then - x else x)"

definition fadd :: "fmt \<Rightarrow> fp \<Rightarrow> fp \<Rightarrow> fp" where
  "fadd F a b =
     (case (a, b) of
        (FNum s x, FNum t y) \<Rightarrow>
          (let v = sval s x + sval t y in if v = 0 then FNum (s \<and> t) 0 else fround F (v < 0) \<bar>v\<bar>)
      | (FInf s, FInf t) \<Rightarrow> if s = t then FInf s else FNaN
      | (FInf s, FNum t y) \<Rightarrow> FInf s
      | (FNum s x, FInf t) \<Rightarrow> FInf t
      | _ \<Rightarrow> FNaN)"

definition fneg :: "fp \<Rightarrow> fp" where
  "fneg a = (case a of FNum s x \<Rightarrow> FNum (\<not> s) x | FInf s \<Rightarrow> FInf (\<not> s) | FNaN \<Rightarrow> FNaN)"

definition fsub :: "fmt \<Rightarrow> fp \<Rightarrow> fp \<Rightarrow> fp" where
  "fsub F a b = fadd F a (fneg b)"

definition fmul :: "fmt \<Rightarrow> fp \<Rightarrow> fp \<Rightarrow> fp" where
  "fmul F a b =
     (case (a, b) of
        (FNum s x, FNum t y) \<Rightarrow> fround F (s \<noteq> t) (x * y)
      | (FInf s, FInf t) \<Rightarrow> FInf (s \<noteq> t)
      | (FInf s, FNum t y) \<Rightarrow> if y = 0 then FNaN else FInf (s \<noteq> t)
      | (FNum s x, FInf t) \<Rightarrow> if x = 0 then FNaN else FInf (s \<noteq> t)
      | _ \<Rightarrow> FNaN)"

definition fdiv :: "fmt \<Rightarrow> fp \<Rightarrow> fp \<Rightarrow> fp" where
  "fdiv F a b =
     (case (a, b) of
        (FNum s x, FNum t y) \<Rightarrow>
          if y = 0 then (if x = 0 then FNaN else FInf (s \<noteq> t)) else fround F (s \<noteq> t) (x / y)
      | (FInf s, FNum t y) \<Rightarrow> FInf (s \<noteq> t)
      | (FNum s x, FInf t) \<Rightarrow> FNum (s \<noteq> t) 0
      | _ \<Rightarrow> FNaN)"

text \<open>\<^verbatim>\<open>fmodl\<close>: the remainder with the sign of the first argument; it is exact.\<close>

definition frem :: "fp \<Rightarrow> fp \<Rightarrow> fp" where
  "frem a b =
     (case (a, b) of
        (FNum s x, FNum t y) \<Rightarrow> if y = 0 then FNaN else FNum s (x - of_int \<lfloor>x / y\<rfloor> * y)
      | (FNum s x, FInf t) \<Rightarrow> a
      | _ \<Rightarrow> FNaN)"

text \<open>\<^verbatim>\<open>scalbn\<close> and \<^verbatim>\<open>scalbnl\<close> multiply by a power of two.\<close>

definition fscalb :: "fmt \<Rightarrow> fp \<Rightarrow> int \<Rightarrow> fp" where
  "fscalb F a e = (case a of FNum s x \<Rightarrow> fround F s (x * 2 powi e) | _ \<Rightarrow> a)"

definition fabs :: "fp \<Rightarrow> fp" where
  "fabs a = (case a of FNum s x \<Rightarrow> FNum False x | FInf s \<Rightarrow> FInf False | FNaN \<Rightarrow> FNaN)"

definition fcopysign :: "fp \<Rightarrow> fp \<Rightarrow> fp" where
  "fcopysign a b =
     (let s = (case b of FNum t y \<Rightarrow> t | FInf t \<Rightarrow> t | FNaN \<Rightarrow> False)
      in case a of FNum t x \<Rightarrow> FNum s x | FInf t \<Rightarrow> FInf s | FNaN \<Rightarrow> FNaN)"

text \<open>Comparison: \<^verbatim>\<open>a >= b\<close>, and the test \<^verbatim>\<open>!a\<close>.\<close>

definition fge :: "fp \<Rightarrow> fp \<Rightarrow> bool" where
  "fge a b =
     (case (a, b) of
        (FNum s x, FNum t y) \<Rightarrow> sval s x \<ge> sval t y
      | (FInf s, FInf t) \<Rightarrow> s \<le> t
      | (FInf s, FNum t y) \<Rightarrow> \<not> s
      | (FNum s x, FInf t) \<Rightarrow> t
      | _ \<Rightarrow> False)"

definition fzero :: "fp \<Rightarrow> bool" where
  "fzero a = (case a of FNum s x \<Rightarrow> x = 0 | _ \<Rightarrow> False)"

text \<open>From an integer, and from one format to another.\<close>

definition of_intf :: "fmt \<Rightarrow> int \<Rightarrow> fp" where
  "of_intf F n = fround F (n < 0) \<bar>of_int n\<bar>"

definition fconv :: "fmt \<Rightarrow> fp \<Rightarrow> fp" where
  "fconv F a = (case a of FNum s x \<Rightarrow> fround F s x | _ \<Rightarrow> a)"

subsection \<open>The exponent of a rational\<close>

lemma powi_pos: "0 < (2 :: rat) powi e"
  by (rule zero_less_power_int) simp

lemma powi_nz [simp]: "(2 :: rat) powi e \<noteq> 0"
  using powi_pos [of e] by simp

lemma powi_plus: "(2 :: rat) powi (a + b) = 2 powi a * 2 powi b"
  by (rule power_int_add) simp

lemma powi_minus: "(2 :: rat) powi (a - b) = 2 powi a / 2 powi b"
  by (rule power_int_diff) simp

lemma powi_mono: "a \<le> b \<Longrightarrow> (2 :: rat) powi a \<le> 2 powi b"
  by (rule power_int_increasing) simp_all

lemma powi_smono: "a < b \<Longrightarrow> (2 :: rat) powi a < 2 powi b"
  by (rule power_int_strict_increasing) simp_all

lemma powi_less_iff: "(2 :: rat) powi a < 2 powi b \<longleftrightarrow> a < b"
  by (metis powi_mono powi_smono linorder_not_less)

lemma powi_le_iff: "(2 :: rat) powi a \<le> 2 powi b \<longleftrightarrow> a \<le> b"
  using powi_less_iff [of b a] by (simp add: linorder_not_less [symmetric])

lemma powi_nat: "(2 :: rat) powi int n = of_int (2 ^ n)"
  by simp

lemma floorlog_rat:
  assumes "0 < a"
  shows "(2 :: rat) powi (int (floorlog 2 (nat a)) - 1) \<le> of_int a" "of_int a < (2 :: rat) powi int (floorlog 2 (nat a))"
proof -
  have b: "2 ^ (floorlog 2 (nat a) - 1) \<le> nat a \<and> nat a < 2 ^ floorlog 2 (nat a)"
    using assms by (intro floorlog_bounds) simp_all
  have "floorlog 2 (nat a) \<noteq> 0" using assms by (simp add: floorlog_eq_zero_iff)
  then have e: "int (floorlog 2 (nat a)) - 1 = int (floorlog 2 (nat a) - 1)" by simp
  have "int (2 ^ (floorlog 2 (nat a) - 1)) \<le> a" "a < int (2 ^ floorlog 2 (nat a))"
    using b assms by linarith+
  then have "(of_int (2 ^ (floorlog 2 (nat a) - 1)) :: rat) \<le> of_int a" "of_int a < (of_int (2 ^ floorlog 2 (nat a)) :: rat)"
    unfolding of_int_le_iff of_int_less_iff by simp_all
  then show "(2 :: rat) powi (int (floorlog 2 (nat a)) - 1) \<le> of_int a" "of_int a < (2 :: rat) powi int (floorlog 2 (nat a))"
    unfolding e powi_nat by simp_all
qed

lemma rexp_bounds:
  assumes "0 < x"
  shows "2 powi rexp x \<le> x" "x < 2 powi (rexp x + 1)"
proof -
  obtain a b where q: "quotient_of x = (a, b)" by (cases "quotient_of x") auto
  have b: "0 < b" using quotient_of_denom_pos [OF q] .
  have x: "x = of_int a / of_int b" using quotient_of_div [OF q] .
  have a: "0 < a" using assms b unfolding x by (simp add: zero_less_divide_iff)
  let ?k = "int (floorlog 2 (nat a)) - int (floorlog 2 (nat b))"
  let ?A = "of_int a :: rat" and ?B = "of_int b :: rat"
  have B: "0 < ?B" using b by simp
  note fa = floorlog_rat [OF a] and fb = floorlog_rat [OF b]
  have "x < 2 powi (?k + 1)"
  proof -
    have "?A * 2 powi (int (floorlog 2 (nat b)) - 1) < 2 powi int (floorlog 2 (nat a)) * ?B"
      using mult_strict_mono [OF fa(2) _ powi_pos [of "int (floorlog 2 (nat a))"], of "2 powi (int (floorlog 2 (nat b)) - 1)" ?B]
        fb(1) fa(2) a B powi_pos
      by (meson less_eq_rat_def mult_le_less_imp_less mult_less_le_imp_less of_int_0_less_iff)
    then have "x < 2 powi int (floorlog 2 (nat a)) / 2 powi (int (floorlog 2 (nat b)) - 1)"
      unfolding x using B powi_pos by (simp add: field_simps)
    also have "\<dots> = 2 powi (int (floorlog 2 (nat a)) - (int (floorlog 2 (nat b)) - 1))" by (rule powi_minus [symmetric])
    finally show ?thesis by (simp add: algebra_simps)
  qed
  moreover have "2 powi (?k - 1) \<le> x"
  proof -
    have "2 powi (int (floorlog 2 (nat a)) - 1) * ?B \<le> ?A * 2 powi int (floorlog 2 (nat b))"
      using fa(1) fb(2) a B powi_pos by (intro mult_mono) (auto simp: less_imp_le)
    then have "2 powi (int (floorlog 2 (nat a)) - 1) / 2 powi int (floorlog 2 (nat b)) \<le> x"
      unfolding x using B powi_pos by (simp add: field_simps)
    then show ?thesis unfolding powi_minus [symmetric] by (simp add: algebra_simps)
  qed
  moreover have "rexp x = (if 2 powi ?k \<le> x then ?k else ?k - 1)" by (simp add: rexp_def q Let_def)
  ultimately show "2 powi rexp x \<le> x" "x < 2 powi (rexp x + 1)" by (auto simp: linorder_not_le)
qed

lemma rexp_eqI:
  assumes "2 powi e \<le> x" "x < 2 powi (e + 1)"
  shows "rexp x = e"
proof -
  have "0 < x" using assms(1) powi_pos [of e] by linarith
  note b = rexp_bounds [OF this]
  have "2 powi e < (2 :: rat) powi (rexp x + 1)" "2 powi rexp x < (2 :: rat) powi (e + 1)" using assms b by linarith+
  then show ?thesis unfolding powi_less_iff by simp
qed

lemma rexp_geI: "2 powi e \<le> x \<Longrightarrow> e \<le> rexp x"
  using rexp_bounds(2) [of x] powi_pos [of e] powi_less_iff [of e "rexp x + 1"] by linarith

lemma rexp_lessI: "0 < x \<Longrightarrow> x < 2 powi e \<Longrightarrow> rexp x < e"
  using rexp_bounds(1) [of x] powi_less_iff [of "rexp x" e] by linarith

subsection \<open>Rounding to an integer\<close>

lemma rne_of_int [simp]: "rne (of_int n) = n"
  by (simp add: rne_def Let_def)

lemma rne_near: "\<bar>of_int (rne x) - x\<bar> \<le> 1 / 2"
proof -
  have "of_int \<lfloor>x\<rfloor> \<le> x" "x < of_int \<lfloor>x\<rfloor> + 1" by linarith+
  then show ?thesis by (auto simp: rne_def Let_def)
qed

lemma rne_ge: "of_int n \<le> x \<Longrightarrow> n \<le> rne x"
  by (auto simp: rne_def Let_def le_floor_iff) (meson le_floor_iff add_increasing2 zero_le_one)+

lemma rne_le: "x \<le> of_int n \<Longrightarrow> rne x \<le> n"
proof -
  assume a: "x \<le> of_int n"
  show ?thesis
  proof (cases "x = of_int n")
    case False
    with a have "x < of_int n" by simp
    then have "\<lfloor>x\<rfloor> < n" by (simp add: floor_less_iff)
    then show ?thesis by (auto simp: rne_def Let_def)
  qed simp
qed

lemma rne_nearest: "\<bar>of_int (rne x) - x\<bar> \<le> \<bar>of_int n - x\<bar>"
proof -
  have f: "of_int \<lfloor>x\<rfloor> \<le> x" "x < of_int \<lfloor>x\<rfloor> + 1" by linarith+
  have "n \<le> \<lfloor>x\<rfloor> \<or> \<lfloor>x\<rfloor> + 1 \<le> n" by linarith
  then have "of_int n \<le> (of_int \<lfloor>x\<rfloor> :: rat) \<or> of_int \<lfloor>x\<rfloor> + 1 \<le> (of_int n :: rat)"
    by (metis of_int_le_iff of_int_add of_int_1)
  with f show ?thesis by (auto simp: rne_def Let_def)
qed


lemma rne_int_eq: "x = of_int n \<Longrightarrow> rne x = n"
  by simp

text \<open>Rounding an integer part with a remainder of which only the sign counts.\<close>

lemma rne_lower: "x < of_int n + 1 / 2 \<Longrightarrow> rne x \<le> n"
proof -
  assume a: "x < of_int n + 1 / 2"
  then have "\<lfloor>x\<rfloor> \<le> n" by (simp add: floor_le_iff)
  moreover have "x - of_int \<lfloor>x\<rfloor> < 1 / 2" if "\<lfloor>x\<rfloor> = n" using a unfolding that by simp
  ultimately show ?thesis by (cases "\<lfloor>x\<rfloor> = n") (auto simp: rne_def Let_def)
qed

subsection \<open>Rounding to a format\<close>

lemma fround_eq:
  assumes "0 < x" "max (rexp x - mant F + 1) (least F) = l"
  shows "fround F neg x =
    (if (2 :: rat) powi maxexp F \<le> of_int (rne (x / 2 powi l)) * 2 powi l then FInf neg
     else FNum neg (of_int (rne (x / 2 powi l)) * 2 powi l))"
  using assms by (simp add: fround_def Let_def)

lemma fround_0 [simp]: "fround F neg 0 = FNum neg 0"
  by (simp add: fround_def)

text \<open>A multiple of the last place that needs no more than \<open>mant\<close> bits is not changed.\<close>

lemma fround_grid:
  assumes "x = of_int n * 2 powi e" "0 \<le> n" "n \<le> 2 ^ nat (mant F)" "least F \<le> e" "0 < mant F"
  shows "fround F neg x = (if 2 powi maxexp F \<le> x then FInf neg else FNum neg x)"
proof (cases "n = 0")
  case True
  moreover have "\<not> 2 powi maxexp F \<le> (0 :: rat)" unfolding not_le by (rule powi_pos)
  ultimately show ?thesis using assms(1) by simp
next
  case False
  have x0: "0 < x" using assms(1,2) False powi_pos [of e] by simp
  define l where "l = max (rexp x - mant F + 1) (least F)"
  have "of_int n * 2 powi (e - l) = (of_int (rne (x / 2 powi l)) :: rat)"
  proof (cases "l \<le> e")
    case True
    then have "x / 2 powi l = of_int n * 2 powi int (nat (e - l))" unfolding assms(1) by (simp add: powi_minus)
    also have "\<dots> = of_int (n * 2 ^ nat (e - l))" unfolding powi_nat of_int_mult by simp
    finally have q: "x / 2 powi l = of_int (n * 2 ^ nat (e - l))" .
    have "of_int (rne (x / 2 powi l)) = x / 2 powi l" unfolding q rne_of_int ..
    then show ?thesis by (simp add: assms(1) powi_minus)
  next
    case False
    have up: "(of_int n :: rat) \<le> of_int (2 ^ nat (mant F))" using assms(3) unfolding of_int_le_iff .
    have "x \<le> 2 powi int (nat (mant F)) * 2 powi e" unfolding assms(1) powi_nat using up powi_pos [of e] by simp
    then have xl: "x \<le> 2 powi (mant F + e)" using assms(5) by (simp add: powi_plus)
    have "l \<noteq> least F" using False assms(4) by simp
    then have l: "l = rexp x - mant F + 1" by (simp add: l_def max_def split: if_splits)
    have "2 powi rexp x \<le> x" using rexp_bounds(1) [OF x0] .
    then have "rexp x \<le> mant F + e" using xl powi_le_iff [of "rexp x" "mant F + e"] by linarith
    then have "rexp x = mant F + e" using False l by linarith
    then have "2 powi (mant F + e) \<le> x" using rexp_bounds(1) [OF x0] by simp
    then have xe: "x = 2 powi (mant F + e)" using xl by simp
    have le: "l = e + 1" using l \<open>rexp x = mant F + e\<close> by simp
    have "x / 2 powi l = 2 powi int (nat (mant F - 1))" unfolding xe le powi_minus [symmetric] using assms(5) by simp
    also have "\<dots> = of_int (2 ^ nat (mant F - 1))" by (rule powi_nat)
    finally have q: "x / 2 powi l = of_int (2 ^ nat (mant F - 1))" .
    have "of_int (rne (x / 2 powi l)) = x / 2 powi l" unfolding q rne_of_int ..
    then show ?thesis by (simp add: assms(1) powi_minus)
  qed
  then have "of_int (rne (x / 2 powi l)) * 2 powi l = x" unfolding assms(1) powi_minus by (simp add: field_simps)
  then show ?thesis using fround_eq [OF x0, of F l neg] by (simp add: l_def)
qed

lemma fround_exact:
  assumes "x = of_int n * 2 powi e" "0 \<le> n" "n \<le> 2 ^ nat (mant F)" "least F \<le> e" "0 < mant F" "x < 2 powi maxexp F"
  shows "fround F neg x = FNum neg x"
  using fround_grid [OF assms(1-5)] assms(6) by simp

text \<open>The result of rounding is at least as near as any number of the format.\<close>

definition in_fmt :: "fmt \<Rightarrow> rat \<Rightarrow> bool" where
  "in_fmt F y \<longleftrightarrow> (\<exists>n e. y = of_int n * 2 powi e \<and> 0 \<le> n \<and> n < 2 ^ nat (mant F) \<and> least F \<le> e)"

lemma fround_nearest:
  assumes "0 \<le> x" "fround F neg x = FNum s r" "in_fmt F y" "0 < mant F"
  shows "\<bar>r - x\<bar> \<le> \<bar>y - x\<bar>"
proof (cases "x = 0")
  case True
  then show ?thesis using assms(2) by simp
next
  case False
  then have x0: "0 < x" using assms(1) by simp
  define l where "l = max (rexp x - mant F + 1) (least F)"
  obtain n e where y: "y = of_int n * 2 powi e" "0 \<le> n" "n < 2 ^ nat (mant F)" "least F \<le> e"
    using assms(3) by (auto simp: in_fmt_def)
  have r: "r = of_int (rne (x / 2 powi l)) * 2 powi l"
    using fround_eq [OF x0, of F l neg] assms(2) by (simp add: l_def split: if_splits)
  have dist: "\<bar>r - x\<bar> \<le> \<bar>of_int m * 2 powi l - x\<bar>" for m
  proof -
    have s: "of_int k * 2 powi l - x = (of_int k - x / 2 powi l) * 2 powi l" for k by (simp add: field_simps)
    show ?thesis
      unfolding r s abs_mult using rne_nearest [of "x / 2 powi l" m] powi_pos [of l] by (intro mult_right_mono) simp_all
  qed
  show ?thesis
  proof (cases "l \<le> e")
    case True
    have "2 powi e = (2 :: rat) powi (int (nat (e - l)) + l)" using True by simp
    also have "\<dots> = of_int (2 ^ nat (e - l)) * 2 powi l" unfolding powi_plus powi_nat ..
    finally have "y = of_int (n * 2 ^ nat (e - l)) * 2 powi l" unfolding y(1) by simp
    then show ?thesis using dist by blast
  next
    case False
    then have l: "l = rexp x - mant F + 1" using y(4) by (simp add: l_def max_def split: if_splits)
    have "(of_int n :: rat) \<le> of_int (2 ^ nat (mant F))" using y(3) unfolding of_int_le_iff by simp
    then have "y \<le> 2 powi int (nat (mant F)) * 2 powi e" unfolding y(1) powi_nat using powi_pos [of e] by simp
    then have "y \<le> 2 powi (mant F + e)" using assms(4) by (simp add: powi_plus)
    moreover have "(2 :: rat) powi (mant F + e) \<le> 2 powi rexp x" using False l by (intro powi_mono) simp
    moreover note rexp_bounds(1) [OF x0]
    ultimately have yx: "y \<le> 2 powi rexp x" "2 powi rexp x \<le> x" by simp_all
    have "rexp x = int (nat (mant F - 1)) + l" using l assms(4) by simp
    then have "2 powi rexp x = (2 :: rat) powi (int (nat (mant F - 1)) + l)" by simp
    also have "\<dots> = of_int (2 ^ nat (mant F - 1)) * 2 powi l" unfolding powi_plus powi_nat ..
    finally have "2 powi rexp x = of_int (2 ^ nat (mant F - 1)) * (2 :: rat) powi l" .
    then have "\<bar>r - x\<bar> \<le> \<bar>2 powi rexp x - x\<bar>" using dist [of "2 ^ nat (mant F - 1)"] by simp
    then show ?thesis using yx by simp
  qed
qed

end
