(* ===== verification/TimeC.thy ===== *)
theory TimeC
  imports RcPosix Fp
begin

unbundle bit_operations_syntax

text \<open>
  \<^verbatim>\<open>src/time.c\<close>. There is no real-time clock: the calendar side is the fixed moment
  \<open>RC_FIXED_TIME\<close>, the clock side reads the \<^verbatim>\<open>time\<close> register (\<open>sys_rdtime\<close>) and scales it by the rate
  \<open>sys_timebase\<close>. \<^verbatim>\<open>unsigned long\<close> products are reduced modulo \<open>2 ^ 64\<close> where they are formed.
\<close>

abbreviation (input) RC_FIXED_TIME :: int where "RC_FIXED_TIME \<equiv> 1780272000"
abbreviation (input) CLOCK_REALTIME :: int where "CLOCK_REALTIME \<equiv> 0"
abbreviation (input) CLOCK_MONOTONIC :: int where "CLOCK_MONOTONIC \<equiv> 1"
abbreviation (input) TIME_UTC :: int where "TIME_UTC \<equiv> 1"
abbreviation (input) RC_AW_NOTE :: int where "RC_AW_NOTE \<equiv> 8"

record tm =
  tm_sec :: int
  tm_min :: int
  tm_hour :: int
  tm_mday :: int
  tm_mon :: int
  tm_year :: int
  tm_wday :: int
  tm_yday :: int
  tm_isdst :: int

definition rc_fixed_tm :: tm where
  "rc_fixed_tm = \<lparr> tm_sec = 0, tm_min = 0, tm_hour = 0, tm_mday = 1, tm_mon = 5, tm_year = 126,
     tm_wday = 1, tm_yday = 151, tm_isdst = 0 \<rparr>"

record timespec =
  tv_sec :: int
  tv_nsec :: int

definition umul :: "nat \<Rightarrow> nat \<Rightarrow> nat" where
  "umul a b = (a * b) mod 2 ^ 64"

definition rc_rdtime :: "'w os \<Rightarrow> 'w px \<Rightarrow> nat \<times> 'w px" where
  "rc_rdtime os px = (let (t, w) = sys_rdtime os (world px) in (t mod 2 ^ 64, px \<lparr> world := w \<rparr>))"

definition time_c :: "int" where
  "time_c = RC_FIXED_TIME"

definition localtime :: "int \<Rightarrow> tm" where "localtime t = rc_fixed_tm"
definition gmtime :: "int \<Rightarrow> tm" where "gmtime t = rc_fixed_tm"
definition localtime_r :: "int \<Rightarrow> tm" where "localtime_r t = rc_fixed_tm"
definition gmtime_r :: "int \<Rightarrow> tm" where "gmtime_r t = rc_fixed_tm"
text \<open>A difference outside \<^verbatim>\<open>time_t\<close> is undefined.\<close>

definition difftime :: "int \<Rightarrow> int \<Rightarrow> fp option" where
  "difftime a b = (if - (2 ^ 63) \<le> a - b \<and> a - b < 2 ^ 63 then Some (of_intf double (a - b)) else None)"

definition mktime :: "tm \<Rightarrow> int" where "mktime t = RC_FIXED_TIME"

definition asctime :: "tm \<Rightarrow> string" where
  "asctime t = ''Mon Jun  1 00:00:00 2026'' @ [CHR 0x0A]"

definition ctime :: "int \<Rightarrow> string" where
  "ctime t = asctime rc_fixed_tm"

text \<open>The length returned and what is stored at the front of the buffer.\<close>

definition strftime :: "nat \<Rightarrow> string \<Rightarrow> tm \<Rightarrow> nat \<times> byte list" where
  "strftime cap fmt t = (if cap = 0 then (0, []) else (0, [NUL]))"

definition strftime_l :: "nat \<Rightarrow> string \<Rightarrow> tm \<Rightarrow> nat \<times> byte list" where
  "strftime_l cap fmt t = strftime cap fmt t"

definition clock :: "'w os \<Rightarrow> 'w px \<Rightarrow> int \<times> 'w px" where
  "clock os px =
     (let hz = sys_timebase os (world px) in
      if hz = 0 then (-1, px)
      else let (t, px1) = rc_rdtime os px
           in (to_int64 (int ((umul (t div hz) 1000000 + umul (t mod hz) 1000000 div hz) mod 2 ^ 64)), px1))"

definition gettimeofday :: "'w os \<Rightarrow> 'w px \<Rightarrow> (int \<times> int) \<times> 'w px" where
  "gettimeofday os px =
     (let hz0 = sys_timebase os (world px); (t, px1) = rc_rdtime os px; hz = (if hz0 = 0 then 1 else hz0)
      in ((int (t div hz), int (umul (t mod hz) 1000000 div hz)), px1))"

definition clock_gettime :: "'w os \<Rightarrow> 'w px \<Rightarrow> int \<Rightarrow> timespec option \<times> 'w px" where
  "clock_gettime os px clk =
     (let hz0 = sys_timebase os (world px); hz = (if hz0 = 0 then 1 else hz0) in
      if clk \<noteq> CLOCK_REALTIME \<and> clk \<noteq> CLOCK_MONOTONIC then (None, px \<lparr> errno := EINVAL \<rparr>)
      else let (t, px1) = rc_rdtime os px
           in (Some \<lparr> tv_sec = (if clk = CLOCK_REALTIME then int (t div hz) + RC_FIXED_TIME else int (t div hz)),
                      tv_nsec = int (umul (t mod hz) 1000000000 div hz) \<rparr>, px1))"

definition clock_getres :: "'w os \<Rightarrow> 'w px \<Rightarrow> int \<Rightarrow> timespec option \<times> 'w px" where
  "clock_getres os px clk =
     (if clk \<noteq> CLOCK_REALTIME \<and> clk \<noteq> CLOCK_MONOTONIC then (None, px \<lparr> errno := EINVAL \<rparr>)
      else let hz = sys_timebase os (world px)
           in (Some \<lparr> tv_sec = 0, tv_nsec = (if hz \<noteq> 0 then int (1000000000 div hz) else 1) \<rparr>, px))"

definition timespec_get :: "'w os \<Rightarrow> 'w px \<Rightarrow> int \<Rightarrow> (int \<times> timespec option) \<times> 'w px" where
  "timespec_get os px base =
     (if base = TIME_UTC
      then (let (ts, px1) = clock_gettime os px CLOCK_REALTIME in ((if ts \<noteq> None then base else 0, ts), px1))
      else ((0, None), px))"

text \<open>The remaining time is what the caller's \<^verbatim>\<open>rem\<close> would receive.\<close>

definition nanosleep :: "'w os \<Rightarrow> 'w px \<Rightarrow> timespec \<Rightarrow> (int \<times> timespec option) \<times> 'w px" where
  "nanosleep os px req =
     (if tv_sec req < 0 \<or> tv_nsec req < 0 \<or> tv_nsec req \<ge> 1000000000 then ((-1, None), px \<lparr> errno := EINVAL \<rparr>)
      else let hz = sys_timebase os (world px) in
           if hz = 0 then ((0, None), px)
           else let ticks = (umul (nat (tv_sec req)) hz + umul (nat (tv_nsec req)) hz div 1000000000) mod 2 ^ 64 in
                if ticks = 0 then ((0, None), px)
                else let (start, px1) = rc_rdtime os px;
                         (r, w) = sys_await os (world px1) 0 (to_int64 (int ticks));
                         px2 = px1 \<lparr> world := w \<rparr>
                     in if r \<ge> 0 \<and> r AND RC_AW_NOTE \<noteq> 0
                        then (let (now, px3) = rc_rdtime os px2;
                                  done = nat ((int now - int start) mod 2 ^ 64);
                                  left = (if done < ticks then ticks - done else 0)
                              in ((-1, Some \<lparr> tv_sec = int (left div hz), tv_nsec = int (umul (left mod hz) 1000000000 div hz) \<rparr>),
                                  px3 \<lparr> errno := EINTR \<rparr>))
                        else ((0, Some \<lparr> tv_sec = 0, tv_nsec = 0 \<rparr>), px2))"

subsection \<open>Scaling\<close>

lemma umul_exact: "a * b < 2 ^ 64 \<Longrightarrow> umul a b = a * b"
  by (simp add: umul_def)

text \<open>Whole units and the scaled remainder together are the scaled total.\<close>

lemma scale_split: "0 < hz \<Longrightarrow> t div hz * u + t mod hz * u div hz = t * u div (hz :: nat)"
proof -
  assume hz: "0 < hz"
  have "t * u = (t div hz * u) * hz + t mod hz * u"
    by (metis add_mult_distrib div_mult_mod_eq mult.assoc mult.commute)
  then show ?thesis using hz by simp
qed

lemma rem_scale_exact:
  assumes "0 < hz" "hz * u \<le> 2 ^ 64"
  shows "umul (t mod hz) u = t mod hz * u"
proof -
  have "t mod hz * u < 2 ^ 64"
  proof (cases "u = 0")
    case False
    then have "t mod hz * u < hz * u" using assms(1) by simp
    with assms(2) show ?thesis by linarith
  qed simp
  then show ?thesis by (rule umul_exact)
qed

text \<open>For any rate up to 18 GHz, \<open>clock_gettime\<close> on the monotonic clock is the tick count converted
  to nanoseconds and rounded down (so it never runs backwards), with \<^verbatim>\<open>tv_nsec\<close> below one second; the
  real-time clock adds the fixed start.\<close>

theorem clock_gettime_exact:
  assumes "sys_timebase os (world px) = hz" "0 < hz" "hz \<le> 18446744073" "sys_rdtime os (world px) = (t, w)" "t < 2 ^ 64"
  shows "\<exists>s n. clock_gettime os px CLOCK_MONOTONIC = (Some \<lparr> tv_sec = s, tv_nsec = n \<rparr>, px \<lparr> world := w \<rparr>)
    \<and> clock_gettime os px CLOCK_REALTIME = (Some \<lparr> tv_sec = s + RC_FIXED_TIME, tv_nsec = n \<rparr>, px \<lparr> world := w \<rparr>)
    \<and> 0 \<le> n \<and> n < 10 ^ 9 \<and> s * 10 ^ 9 + n = int (t * 10 ^ 9 div hz)"
proof -
  define n where "n = t mod hz * 1000000000 div hz"
  have e: "umul (t mod hz) 1000000000 = t mod hz * 1000000000"
    using assms(2,3) by (intro rem_scale_exact) simp_all
  have "n < 1000000000"
    unfolding n_def using assms(2) by (intro div_less_iff_less_mult [THEN iffD2]) simp_all
  moreover have "t div hz * 1000000000 + n = t * 1000000000 div hz" unfolding n_def by (rule scale_split [OF assms(2)])
  ultimately have "int n < 10 ^ 9" "int (t div hz * 1000000000 + n) = int (t * 1000000000 div hz)" by simp_all
  then show ?thesis
    using assms(1,2,4,5) e by (intro exI [of _ "int (t div hz)"] exI [of _ "int n"]) (simp add: clock_gettime_def rc_rdtime_def n_def)
qed

definition tick_os :: "fsw os" where
  "tick_os = fsd_os \<lparr> sys_timebase := \<lambda>w. 10000000, sys_rdtime := \<lambda>w. (25000001, w) \<rparr>"

theorem clock_gettime_exact_witness:
  "\<exists>s n. clock_gettime tick_os demo_px CLOCK_MONOTONIC = (Some \<lparr> tv_sec = s, tv_nsec = n \<rparr>, demo_px \<lparr> world := world demo_px \<rparr>)
    \<and> s * 10 ^ 9 + n = 2500000100"
  using clock_gettime_exact [of tick_os demo_px 10000000 25000001 "world demo_px"] by (auto simp: tick_os_def)

text \<open>\<open>gettimeofday\<close> and \<open>clock_gettime(CLOCK_REALTIME)\<close>, both specified as seconds since the Epoch,
  disagree by \<open>RC_FIXED_TIME\<close> at every tick: \<open>gettimeofday\<close> leaves out the fixed start.\<close>

theorem gettimeofday_not_realtime:
  assumes "clock_gettime os px CLOCK_REALTIME = (Some ts, px1)" "gettimeofday os px = ((s, us), px2)"
  shows "tv_sec ts = s + RC_FIXED_TIME \<and> px1 = px2"
  using assms by (auto simp: clock_gettime_def gettimeofday_def Let_def split: prod.splits)

theorem gettimeofday_not_realtime_witness:
  "tv_sec (the (fst (clock_gettime tick_os demo_px CLOCK_REALTIME))) = fst (fst (gettimeofday tick_os demo_px)) + RC_FIXED_TIME"
proof -
  obtain ts px1 where c: "clock_gettime tick_os demo_px CLOCK_REALTIME = (Some ts, px1)"
    by (simp add: clock_gettime_def rc_rdtime_def tick_os_def)
  obtain s us px2 where g: "gettimeofday tick_os demo_px = ((s, us), px2)" by (metis surj_pair)
  show ?thesis using gettimeofday_not_realtime [OF c g] c g by simp
qed

end
