(* ===== verification/RcProc.thy ===== *)
theory RcProc
  imports RcEnv TimeC
begin

unbundle bit_operations_syntax

text \<open>
  \<^verbatim>\<open>src/rc_proc.c\<close> (fork, exec, wait, system, mmap and the small process calls) and the entry code of
  \<^verbatim>\<open>src/libc_start.c\<close> that unpacks what \<open>execve\<close> packed.

  The system calls of this file are the record \<open>procos\<close>. The state \<open>pr\<close> is the environment (with the
  descriptor state inside) and the table of outstanding children. An \<open>exec\<close> call that succeeds does not
  return: its result is \<open>Replaced\<close> with what the kernel was given (image, blob, argument count);
  \<open>Failed\<close> carries the state behind the return of -1. An \<^verbatim>\<open>argv\<close> is the list of its strings before the
  null pointer. A buffer that is filled front to back is the list of the bytes stored so far.
\<close>

abbreviation (input) ENOEXEC :: int where "ENOEXEC \<equiv> 8"
abbreviation (input) ENODEV :: int where "ENODEV \<equiv> 19"
abbreviation (input) RC_EXEC_IMAGE_MAX :: int where "RC_EXEC_IMAGE_MAX \<equiv> 1048576"
abbreviation (input) RC_EXEC_BLOB_MAX :: nat where "RC_EXEC_BLOB_MAX \<equiv> 16384"
abbreviation (input) RC_READ_CHUNK :: int where "RC_READ_CHUNK \<equiv> int RC_FS_MSG_MAX - 4"
abbreviation (input) RC_CHILD_MAX :: nat where "RC_CHILD_MAX \<equiv> 32"
abbreviation (input) ARGV0_MARK :: byte where "ARGV0_MARK \<equiv> CHR 0x01"
abbreviation (input) ENV_MARK :: byte where "ENV_MARK \<equiv> CHR 0x02"
abbreviation (input) LIBC_ARGV_MAX :: nat where "LIBC_ARGV_MAX \<equiv> 64"
abbreviation (input) LIBC_ENV_MAX :: nat where "LIBC_ENV_MAX \<equiv> 62"

record 'w procos =
  sys_rfork :: "'w \<Rightarrow> (int \<times> nat) \<times> 'w"
  sys_exec :: "'w \<Rightarrow> byte list \<Rightarrow> byte list \<Rightarrow> int \<Rightarrow> bool \<times> 'w"
  sys_join :: "'w \<Rightarrow> int \<Rightarrow> nat \<Rightarrow> int \<times> 'w"
  sys_map_pages :: "'w \<Rightarrow> nat \<Rightarrow> nat option \<times> 'w"

record 'w pr =
  prenv :: "'w env"
  rc_children :: "(int \<times> nat) list"
  rc_start :: timespec

datatype 'w exec = Replaced "byte list" "byte list" int | Failed "'w pr"

definition ppx :: "'w pr \<Rightarrow> 'w px" where
  "ppx p = epx (prenv p)"

definition set_px :: "'w px \<Rightarrow> 'w pr \<Rightarrow> 'w pr" where
  "set_px px p = p \<lparr> prenv := (prenv p) \<lparr> epx := px \<rparr> \<rparr>"

definition perr :: "int \<Rightarrow> 'w pr \<Rightarrow> 'w pr" where
  "perr n p = set_px ((ppx p) \<lparr> errno := n \<rparr>) p"

definition pworld :: "'w \<Rightarrow> 'w pr \<Rightarrow> 'w pr" where
  "pworld w p = set_px ((ppx p) \<lparr> world := w \<rparr>) p"

definition penviron :: "'w pr \<Rightarrow> string list option" where
  "penviron p = (case environ (prenv p) of None \<Rightarrow> None | Some ps \<Rightarrow> Some (map (str_at (prenv p)) ps))"

subsection \<open>Children\<close>

definition child_add :: "int \<Rightarrow> nat \<Rightarrow> 'w pr \<Rightarrow> 'w pr" where
  "child_add pid gen p =
     (if length (rc_children p) < RC_CHILD_MAX then p \<lparr> rc_children := rc_children p @ [(pid, gen)] \<rparr> else p)"

definition fork :: "'w procos \<Rightarrow> 'w pr \<Rightarrow> int \<times> 'w pr" where
  "fork po p =
     (let ((r, gen), w) = sys_rfork po (world (ppx p)); p1 = pworld w p in
      if r < 0 then (-1, perr EAGAIN p1)
      else if r = 0 then (0, p1 \<lparr> rc_children := [] \<rparr>)
      else (to_int32 r, child_add (to_int32 r) gen p1))"

subsection \<open>exec\<close>

function load_loop :: "'w os \<Rightarrow> 'w \<Rightarrow> string \<Rightarrow> int \<Rightarrow> int \<Rightarrow> byte list \<Rightarrow> (int \<times> byte list) option \<times> 'w" where
  "load_loop os w path fsize tot buf =
     (if tot < fsize
      then (let want = (if fsize - tot > RC_READ_CHUNK then RC_READ_CHUNK else fsize - tot);
                ((got, bs), w1) = rc_fs_read_at os w path want tot
            in if got < 0 then (None, w1)
               else if got = 0 then (Some (tot, buf), w1)
               else load_loop os w1 path fsize (tot + got) (buf @ bs))
      else (Some (tot, buf), w))"
  by pat_completeness auto
termination by (relation "measure (\<lambda>(os, w, path, fsize, tot, buf). nat (fsize - tot))") auto

declare load_loop.simps [simp del]

definition load_image :: "'w os \<Rightarrow> (nat \<Rightarrow> bool) \<Rightarrow> 'w pr \<Rightarrow> string \<Rightarrow> byte list option \<times> 'w pr" where
  "load_image os mal p path =
     (let (st, w) = rc_fs_stat os (world (ppx p)) path; p1 = pworld w p in
      case st of None \<Rightarrow> (None, perr ENOENT p1)
      | Some (fsize, type) \<Rightarrow>
          if type = 1 then (None, perr EACCES p1)
          else if fsize = 0 \<or> fsize > RC_EXEC_IMAGE_MAX then (None, perr ENOEXEC p1)
          else if \<not> mal (nat fsize + RC_EXEC_BLOB_MAX + 16) then (None, perr ENOMEM p1)
          else (case load_loop os w path fsize 0 [] of
                  (None, w1) \<Rightarrow> (None, perr EIO (pworld w1 p1))
                | (Some (tot, buf), w1) \<Rightarrow>
                    if tot = 0 then (None, perr ENOEXEC (pworld w1 p1)) else (Some buf, pworld w1 p1)))"

fun blob_put :: "nat \<Rightarrow> byte list \<Rightarrow> string \<Rightarrow> byte list option" where
  "blob_put cap blob [] = (if length blob \<ge> cap then None else Some (blob @ [NUL]))"
| "blob_put cap blob (c # cs) = (if length blob \<ge> cap then None else blob_put cap (blob @ [c]) cs)"

fun blob_all :: "nat \<Rightarrow> byte list \<Rightarrow> string list \<Rightarrow> byte list option" where
  "blob_all cap blob [] = Some blob"
| "blob_all cap blob (s # ss) = (case blob_put cap blob s of None \<Rightarrow> None | Some b \<Rightarrow> blob_all cap b ss)"

text \<open>The blob behind the image; \<open>None\<close> is \<^verbatim>\<open>E2BIG\<close>.\<close>

definition pack_blob :: "string list \<Rightarrow> string list option \<Rightarrow> byte list option" where
  "pack_blob argv envp =
     (case blob_all RC_EXEC_BLOB_MAX [ARGV0_MARK] argv of None \<Rightarrow> None
      | Some b \<Rightarrow>
          (case envp of None \<Rightarrow> Some b | Some [] \<Rightarrow> Some b
           | Some env \<Rightarrow>
               if length b \<ge> RC_EXEC_BLOB_MAX then None
               else case blob_all RC_EXEC_BLOB_MAX (b @ [ENV_MARK]) env of None \<Rightarrow> None
                    | Some b1 \<Rightarrow> if length b1 \<ge> RC_EXEC_BLOB_MAX then None else Some (b1 @ [NUL])))"

definition execve :: "'w os \<Rightarrow> 'w procos \<Rightarrow> (nat \<Rightarrow> bool) \<Rightarrow> 'w pr \<Rightarrow> string \<Rightarrow> string list \<Rightarrow> string list option \<Rightarrow> 'w exec" where
  "execve os po mal p path argv envp =
     (case load_image os mal p path of
        (None, p1) \<Rightarrow> Failed p1
      | (Some img, p1) \<Rightarrow>
          (case pack_blob argv envp of
             None \<Rightarrow> Failed (perr E2BIG p1)
           | Some blob \<Rightarrow>
               (let (accepted, w) = sys_exec po (world (ppx p1)) img blob (int (length argv)) in
                if accepted then Replaced img blob (int (length argv)) else Failed (perr ENOEXEC (pworld w p1)))))"

definition execv :: "'w os \<Rightarrow> 'w procos \<Rightarrow> (nat \<Rightarrow> bool) \<Rightarrow> 'w pr \<Rightarrow> string \<Rightarrow> string list \<Rightarrow> 'w exec" where
  "execv os po mal p path argv = execve os po mal p path argv (penviron p)"

fun put_lim :: "nat \<Rightarrow> byte list \<Rightarrow> string \<Rightarrow> byte list option" where
  "put_lim cap o' [] = Some o'"
| "put_lim cap o' (c # cs) = (if length o' \<ge> cap - 1 then None else put_lim cap (o' @ [c]) cs)"

definition join_path :: "nat \<Rightarrow> string \<Rightarrow> string \<Rightarrow> string option" where
  "join_path cap dir name =
     (case put_lim cap [] dir of None \<Rightarrow> None
      | Some o1 \<Rightarrow>
          (case (if o1 = [] \<or> last o1 \<noteq> CHR ''/'' then put_lim cap o1 ''/'' else Some o1) of None \<Rightarrow> None
           | Some o2 \<Rightarrow> put_lim cap o2 name))"

lemma dropWhile_tl_less: "dropWhile P s \<noteq> [] \<Longrightarrow> length (tl (dropWhile P s)) < length s"
proof -
  assume "dropWhile P s \<noteq> []"
  then have "length (tl (dropWhile P s)) < length (dropWhile P s)" by simp
  also have "\<dots> \<le> length s" by (rule length_dropWhile_le)
  finally show ?thesis .
qed

text \<open>The walk over the colon-separated list; \<open>s\<close> is \<^verbatim>\<open>search + start\<close>.\<close>

function search_loop :: "'w os \<Rightarrow> 'w procos \<Rightarrow> (nat \<Rightarrow> bool) \<Rightarrow> string \<Rightarrow> string \<Rightarrow> string list \<Rightarrow> 'w pr \<Rightarrow> 'w exec" where
  "search_loop os po mal s file argv p =
     (let dir = takeWhile (\<lambda>c. c \<noteq> CHR '':'') s; rest = dropWhile (\<lambda>c. c \<noteq> CHR '':'') s;
          r = (if dir \<noteq> [] then (case join_path 256 dir file of None \<Rightarrow> Failed p
                                 | Some cand \<Rightarrow> execve os po mal p cand argv (penviron p)) else Failed p)
      in case r of Replaced i b a \<Rightarrow> Replaced i b a
         | Failed p1 \<Rightarrow> if rest = [] then Failed (perr ENOENT p1) else search_loop os po mal (tl rest) file argv p1)"
  by pat_completeness auto
termination
  by (relation "measure (\<lambda>(os, po, mal, s, file, argv, p). length s)") (simp, simp only: in_measure prod.case, rule dropWhile_tl_less)

declare search_loop.simps [simp del]

definition execvp :: "'w os \<Rightarrow> 'w procos \<Rightarrow> (nat \<Rightarrow> bool) \<Rightarrow> 'w pr \<Rightarrow> string \<Rightarrow> string list \<Rightarrow> 'w exec" where
  "execvp os po mal p file argv =
     (if CHR ''/'' \<in> set file then execve os po mal p file argv (penviron p)
      else let ((n, bs), w) = rc_fs_read os (world (ppx p)) ''/env/PATH'' 255;
               search = (if n \<le> 0 then ''/bin/:bin/'' else cstr_of (take (nat n) bs))
           in search_loop os po mal search file argv (pworld w p))"

text \<open>The variable arguments are the strings before the terminating null; at most 126 are taken.\<close>

definition exec_varargs :: "'w os \<Rightarrow> 'w procos \<Rightarrow> (nat \<Rightarrow> bool) \<Rightarrow> 'w pr \<Rightarrow> string \<Rightarrow> string option \<Rightarrow> string list \<Rightarrow> bool \<Rightarrow> 'w exec" where
  "exec_varargs os po mal p path arg0 args use_path =
     (let av = (case arg0 of None \<Rightarrow> [] | Some a \<Rightarrow> a # take 126 args)
      in if use_path then execvp os po mal p path av else execve os po mal p path av (penviron p))"

definition execl :: "'w os \<Rightarrow> 'w procos \<Rightarrow> (nat \<Rightarrow> bool) \<Rightarrow> 'w pr \<Rightarrow> string \<Rightarrow> string option \<Rightarrow> string list \<Rightarrow> 'w exec" where
  "execl os po mal p path arg args = exec_varargs os po mal p path arg args False"

definition execlp :: "'w os \<Rightarrow> 'w procos \<Rightarrow> (nat \<Rightarrow> bool) \<Rightarrow> 'w pr \<Rightarrow> string \<Rightarrow> string option \<Rightarrow> string list \<Rightarrow> 'w exec" where
  "execlp os po mal p file arg args = exec_varargs os po mal p file arg args True"

subsection \<open>wait and system\<close>

fun child_index :: "(int \<times> nat) list \<Rightarrow> int \<Rightarrow> nat \<Rightarrow> int" where
  "child_index [] pid i = -1"
| "child_index (c # cs) pid i = (if fst c = pid then int i else child_index cs pid (i + 1))"

text \<open>The second component is what is stored through \<^verbatim>\<open>status\<close>.\<close>

definition waitpid :: "'w procos \<Rightarrow> 'w pr \<Rightarrow> int \<Rightarrow> int \<Rightarrow> (int \<times> int option) \<times> 'w pr" where
  "waitpid po p pid options =
     (if rc_children p = [] then ((-1, None), perr ECHILD p)
      else let idx = (if pid > 0 then child_index (rc_children p) pid 0 else 0) in
           if idx < 0 then ((-1, None), perr ECHILD p)
           else let (cpid, cgen) = rc_children p ! nat idx;
                    (code, w) = sys_join po (world (ppx p)) cpid cgen;
                    p1 = (pworld w p) \<lparr> rc_children := take (nat idx) (rc_children p) @ drop (nat idx + 1) (rc_children p) \<rparr>
                in ((cpid, Some ((to_int32 code AND 0xff) * 256)), p1))"

definition wait_c :: "'w procos \<Rightarrow> 'w pr \<Rightarrow> (int \<times> int option) \<times> 'w pr" where
  "wait_c po p = waitpid po p (-1) 0"

definition wait4 :: "'w procos \<Rightarrow> 'w pr \<Rightarrow> int \<Rightarrow> int \<Rightarrow> (int \<times> int option) \<times> 'w pr" where
  "wait4 po p pid options = waitpid po p pid options"

text \<open>\<^verbatim>\<open>system\<close> seen from one process: it returns, or (in the child) it becomes the shell or exits.\<close>

datatype 'w sysres = SysRet int "'w pr" | SysExec "byte list" "byte list" int | SysExit int

definition system_c :: "'w os \<Rightarrow> 'w procos \<Rightarrow> (nat \<Rightarrow> bool) \<Rightarrow> 'w pr \<Rightarrow> string option \<Rightarrow> 'w sysres" where
  "system_c os po mal p command =
     (case command of None \<Rightarrow> SysRet 0 p
      | Some cmd \<Rightarrow>
          (let (pid, p1) = fork po p in
           if pid < 0 then SysRet (-1) p1
           else if pid = 0 then (case execvp os po mal p1 ''sh'' [''sh'', ''-c'', cmd] of
                                   Replaced i b a \<Rightarrow> SysExec i b a | Failed p2 \<Rightarrow> SysExit 127)
           else (let ((r, st), p2) = waitpid po p1 pid 0 in
                 if r < 0 then SysRet (-1) p2 else SysRet (case st of None \<Rightarrow> 0 | Some s \<Rightarrow> s) p2)))"

subsection \<open>Mappings\<close>

abbreviation (input) PROT_WRITE :: int where "PROT_WRITE \<equiv> 2"
abbreviation (input) MAP_SHARED :: int where "MAP_SHARED \<equiv> 1"
abbreviation (input) MAP_ANONYMOUS :: int where "MAP_ANONYMOUS \<equiv> 32"

text \<open>The copy loop of a file mapping: the bytes stored from the start of the pages; \<open>None\<close> when
  \<^verbatim>\<open>pread\<close> fails.\<close>

function mmap_loop :: "'w os \<Rightarrow> 'w netops \<Rightarrow> 'w px \<Rightarrow> int \<Rightarrow> int \<Rightarrow> nat \<Rightarrow> byte list \<Rightarrow> nat \<Rightarrow> byte list option \<times> 'w px" where
  "mmap_loop os net px fd off len bytes done =
     (if done < len
      then (let ((got, bs), px1) = pread os net px fd (len - done) (off + int done) in
            if got < 0 then (None, px1)
            else if got = 0 then (Some bytes, px1)
            else mmap_loop os net px1 fd off len (bytes @ bs) (done + nat got))
      else (Some bytes, px))"
  by pat_completeness auto
termination by (relation "measure (\<lambda>(os, net, px, fd, off, len, bytes, d). len - d)") auto

declare mmap_loop.simps [simp del]

text \<open>The result is the address with the bytes copied in (the rest of the pages is zero), or
  \<^verbatim>\<open>MAP_FAILED\<close>.\<close>

definition mmap :: "'w os \<Rightarrow> 'w netops \<Rightarrow> 'w procos \<Rightarrow> 'w pr \<Rightarrow> nat \<Rightarrow> int \<Rightarrow> int \<Rightarrow> int \<Rightarrow> int \<Rightarrow> (nat \<times> byte list) option \<times> 'w pr" where
  "mmap os net po p len prot flags fd off =
     (if len = 0 then (None, perr EINVAL p)
      else let anon = has flags MAP_ANONYMOUS in
           if \<not> anon \<and> has flags MAP_SHARED \<and> has prot PROT_WRITE then (None, perr ENODEV p)
           else if \<not> anon \<and> fd < 0 then (None, perr EBADF p)
           else let (pg, w) = sys_map_pages po (world (ppx p)) len; p1 = pworld w p in
                case pg of None \<Rightarrow> (None, perr ENOMEM p1)
                | Some a \<Rightarrow>
                    if anon then (Some (a, []), p1)
                    else let (r, px1) = mmap_loop os net (ppx p1) fd off len [] 0 in
                         (map_option (\<lambda>bs. (a, bs)) r, set_px px1 p1))"

definition munmap :: "nat \<Rightarrow> nat \<Rightarrow> int" where "munmap addr len = 0"
definition mprotect :: "nat \<Rightarrow> nat \<Rightarrow> int \<Rightarrow> int" where "mprotect addr len prot = 0"
definition msync :: "nat \<Rightarrow> nat \<Rightarrow> int \<Rightarrow> int" where "msync addr len flags = 0"
definition madvise :: "nat \<Rightarrow> nat \<Rightarrow> int \<Rightarrow> int" where "madvise addr len advice = 0"
definition posix_madvise :: "nat \<Rightarrow> nat \<Rightarrow> int \<Rightarrow> int" where "posix_madvise addr len advice = 0"

subsection \<open>Fixed answers\<close>

record utsname =
  u_sysname :: string
  u_nodename :: string
  u_release :: string
  u_version :: string
  u_machine :: string

definition uname :: "int \<times> utsname" where
  "uname = (0, \<lparr> u_sysname = ''racccoon'', u_nodename = ''racccoon'', u_release = ''0'', u_version = ''racccoon'', u_machine = ''riscv64'' \<rparr>)"

definition gethostname :: "'w pr \<Rightarrow> nat \<Rightarrow> (int \<times> string option) \<times> 'w pr" where
  "gethostname p len = (if len < length ''racccoon'' + 1 then ((-1, None), perr ENAMETOOLONG p) else ((0, Some ''racccoon''), p))"

definition getsid :: "'w os \<Rightarrow> 'w pr \<Rightarrow> int \<Rightarrow> int" where
  "getsid os p pid = sys_getpid os (world (ppx p))"

definition setsid :: "'w os \<Rightarrow> 'w pr \<Rightarrow> int" where
  "setsid os p = sys_getpid os (world (ppx p))"

definition alarm :: "nat \<Rightarrow> nat" where "alarm seconds = 0"

definition getrlimit :: "'w pr \<Rightarrow> int \<Rightarrow> (int \<times> (nat \<times> nat) option) \<times> 'w pr" where
  "getrlimit p resource =
     (if resource < 0 \<or> resource \<ge> 16 then ((-1, None), perr EINVAL p) else ((0, Some (2 ^ 64 - 1, 2 ^ 64 - 1)), p))"

definition setrlimit :: "'w pr \<Rightarrow> int \<Rightarrow> int \<times> 'w pr" where
  "setrlimit p resource = (if resource < 0 \<or> resource \<ge> 16 then (-1, perr EINVAL p) else (0, p))"

definition rc_note_start :: "'w os \<Rightarrow> 'w pr \<Rightarrow> 'w pr" where
  "rc_note_start os p =
     (let (ts, px) = clock_gettime os (ppx p) CLOCK_MONOTONIC; p1 = set_px px p in
      case ts of None \<Rightarrow> p1 | Some t \<Rightarrow> p1 \<lparr> rc_start := t \<rparr>)"

text \<open>The user time (seconds, microseconds); everything else in the structure is zero.
  \<^verbatim>\<open>RUSAGE_SELF\<close> is 0. C division and remainder truncate.\<close>

definition getrusage :: "'w os \<Rightarrow> 'w pr \<Rightarrow> int \<Rightarrow> (int \<times> int \<times> int) \<times> 'w pr" where
  "getrusage os p who =
     (if who \<noteq> 0 then ((0, 0, 0), p)
      else let (ts, px) = clock_gettime os (ppx p) CLOCK_MONOTONIC; p1 = set_px px p in
           case ts of None \<Rightarrow> ((0, 0, 0), p1)
           | Some now \<Rightarrow>
               let us = (tv_sec now - tv_sec (rc_start p)) * 1000000 + (tv_nsec now - tv_nsec (rc_start p)) sdiv 1000
               in ((0, us sdiv 1000000, us smod 1000000), p1))"

definition getpwuid :: "int \<Rightarrow> nat option" where "getpwuid uid = None"
definition getpwnam :: "string \<Rightarrow> nat option" where "getpwnam name = None"
definition getpwuid_r :: "int \<Rightarrow> int \<times> nat option" where "getpwuid_r uid = (0, None)"
definition getpwnam_r :: "string \<Rightarrow> int \<times> nat option" where "getpwnam_r name = (0, None)"

record statvfs_t =
  f_bsize :: nat
  f_frsize :: nat
  f_flag :: nat
  f_flags :: nat
  f_namemax :: nat

text \<open>\<^verbatim>\<open>ST_LOCAL\<close> is the argument.\<close>

definition rc_statvfs_fill :: "nat \<Rightarrow> statvfs_t" where
  "rc_statvfs_fill local = \<lparr> f_bsize = 4096, f_frsize = 4096, f_flag = local, f_flags = local, f_namemax = 255 \<rparr>"

definition statvfs :: "'w os \<Rightarrow> nat \<Rightarrow> 'w pr \<Rightarrow> string \<Rightarrow> (int \<times> statvfs_t option) \<times> 'w pr" where
  "statvfs os local p path =
     (let (st, px) = stat_c os (ppx p) path; p1 = set_px px p in
      case st of None \<Rightarrow> ((-1, None), p1) | Some s \<Rightarrow> ((0, Some (rc_statvfs_fill local)), p1))"

definition fstatvfs :: "'w os \<Rightarrow> nat \<Rightarrow> 'w pr \<Rightarrow> int \<Rightarrow> (int \<times> statvfs_t option) \<times> 'w pr" where
  "fstatvfs os local p fd =
     (let (st, px) = fstat os (ppx p) fd; p1 = set_px px p in
      case st of None \<Rightarrow> ((-1, None), p1) | Some s \<Rightarrow> ((0, Some (rc_statvfs_fill local)), p1))"

definition shm_open :: "'w pr \<Rightarrow> int \<times> 'w pr" where "shm_open p = (-1, perr ENOSYS p)"
definition shm_unlink :: "'w pr \<Rightarrow> int \<times> 'w pr" where "shm_unlink p = (-1, perr ENOSYS p)"

subsection \<open>The entry point\<close>

text \<open>\<^verbatim>\<open>libc_argv[i] = p; while (*p) p++; p++;\<close>: the string at \<^verbatim>\<open>p\<close> and the memory behind it; \<open>None\<close>
  when it runs off the memory given.\<close>

fun next_str :: "byte list \<Rightarrow> (string \<times> byte list) option" where
  "next_str [] = None"
| "next_str (c # m) = (if c = NUL then Some ([], m) else map_option (\<lambda>(s, r). (c # s, r)) (next_str m))"

fun get_argv :: "nat \<Rightarrow> byte list \<Rightarrow> (string list \<times> byte list) option" where
  "get_argv 0 m = Some ([], m)"
| "get_argv (Suc k) m =
     (case next_str m of None \<Rightarrow> None
      | Some (s, r) \<Rightarrow> map_option (\<lambda>(ss, r'). (s # ss, r')) (get_argv k r))"

text \<open>\<^verbatim>\<open>while (*p && e < LIBC_ENV_MAX)\<close>; the first argument is how many may still be taken.\<close>

fun get_env :: "nat \<Rightarrow> byte list \<Rightarrow> string list option" where
  "get_env k [] = None"
| "get_env k (c # m) =
     (if c = NUL \<or> k = 0 then Some []
      else case next_str (c # m) of None \<Rightarrow> None
           | Some (s, r) \<Rightarrow> map_option (\<lambda>ss. s # ss) (get_env (k - 1) r))"

text \<open>What \<^verbatim>\<open>main\<close> is called with: argument count, arguments, environment.\<close>

definition libc_start_args :: "int \<Rightarrow> byte list \<Rightarrow> (nat \<times> string list \<times> string list) option" where
  "libc_start_args argc blob =
     (let n = (if argc < 0 then 0 else if argc > int LIBC_ARGV_MAX then LIBC_ARGV_MAX else nat argc) in
      if argc > 0 \<and> blob = [] then None
      else if argc > 0 \<and> hd blob = ARGV0_MARK
      then (case get_argv n (tl blob) of None \<Rightarrow> None
            | Some (argv, m) \<Rightarrow>
                (case m of [] \<Rightarrow> None
                 | c # m' \<Rightarrow> if c = ENV_MARK then map_option (\<lambda>env. (n, argv, env)) (get_env LIBC_ENV_MAX m')
                             else Some (n, argv, [])))
      else if n = 0 then Some (1, [''racccoon-prog''], [])
      else map_option (\<lambda>(argv, m). (n, argv, [])) (get_argv n blob))"

text \<open>The whole entry: constructors in order, \<^verbatim>\<open>main\<close>, \<^verbatim>\<open>exit\<close> with its result.\<close>

definition run_init_arrays :: "('s \<Rightarrow> 's) list \<Rightarrow> ('s \<Rightarrow> 's) list \<Rightarrow> 's \<Rightarrow> 's" where
  "run_init_arrays preinit init s = fold (\<lambda>f s. f s) init (fold (\<lambda>f s. f s) preinit s)"

definition libc_start ::
    "('s \<Rightarrow> 's) list \<Rightarrow> ('s \<Rightarrow> 's) list \<Rightarrow> (nat \<Rightarrow> string list \<Rightarrow> string list \<Rightarrow> 's \<Rightarrow> int \<times> 's) \<Rightarrow> (int \<Rightarrow> 's \<Rightarrow> 'r)
      \<Rightarrow> int \<Rightarrow> byte list \<Rightarrow> 's \<Rightarrow> 'r option" where
  "libc_start preinit init main exit_c argc blob s =
     map_option (\<lambda>(n, argv, env). (let (code, s1) = main n argv env (run_init_arrays preinit init s) in exit_c code s1))
       (libc_start_args argc blob)"

subsection \<open>Packing and unpacking the arguments\<close>

definition flat :: "string list \<Rightarrow> byte list" where
  "flat ss = concat (map (\<lambda>s. s @ [NUL]) ss)"

lemma flat_simps [simp]: "flat [] = []" "flat (s # ss) = s @ NUL # flat ss"
  by (simp_all add: flat_def)

lemma flat_append: "flat (xs @ ys) = flat xs @ flat ys"
  by (simp add: flat_def)

lemma blob_put_eq: "blob_put cap b s = (if length b + length s < cap then Some (b @ s @ [NUL]) else None)"
  by (induction cap b s rule: blob_put.induct) auto

lemma blob_all_eq:
  "blob_all cap b ss = (if ss = [] \<or> length b + length (flat ss) \<le> cap then Some (b @ flat ss) else None)"
proof (induction ss arbitrary: b)
  case (Cons s ss)
  show ?case
  proof (cases "ss = []")
    case True
    then show ?thesis by (auto simp: blob_put_eq)
  next
    case False
    with Cons.IH [of "b @ s @ [NUL]"] show ?thesis by (auto simp: blob_put_eq)
  qed
qed simp

definition blob_of :: "string list \<Rightarrow> string list \<Rightarrow> byte list" where
  "blob_of argv env = ARGV0_MARK # flat argv @ (if env = [] then [] else ENV_MARK # flat env @ [NUL])"

lemma pack_blob_eq:
  "pack_blob argv (Some env) = (if length (blob_of argv env) \<le> RC_EXEC_BLOB_MAX then Some (blob_of argv env) else None)"
  by (cases env) (auto simp: pack_blob_def blob_all_eq blob_of_def split: if_splits)

lemma next_str_eq: "NUL \<notin> set s \<Longrightarrow> next_str (s @ NUL # m) = Some (s, m)"
  by (induction s) auto

lemma get_argv_flat: "\<forall>s \<in> set ss. NUL \<notin> set s \<Longrightarrow> get_argv (length ss) (flat ss @ m) = Some (ss, m)"
  by (induction ss) (auto simp: next_str_eq)

lemma get_env_flat:
  assumes "\<forall>s \<in> set ss. NUL \<notin> set s \<and> s \<noteq> []" "length ss \<le> k"
  shows "get_env k (flat ss @ NUL # m) = Some ss"
  using assms
proof (induction ss arbitrary: k)
  case (Cons s ss)
  then obtain c s' where s: "s = c # s'" "c \<noteq> NUL" "NUL \<notin> set s" by (cases s) auto
  moreover have "next_str (s @ NUL # flat ss @ NUL # m) = Some (s, flat ss @ NUL # m)" using s(3) by (rule next_str_eq)
  ultimately show ?case using Cons by simp
qed simp

lemma start_args_eq:
  assumes "argv \<noteq> []" "\<forall>s \<in> set argv. NUL \<notin> set s" "length argv \<le> LIBC_ARGV_MAX"
    "\<forall>s \<in> set env. NUL \<notin> set s \<and> s \<noteq> []" "length env \<le> LIBC_ENV_MAX" "rest \<noteq> []" "hd rest \<noteq> ENV_MARK"
  shows "libc_start_args (int (length argv)) (blob_of argv env @ rest) = Some (length argv, argv, env)"
proof -
  have n: "0 < int (length argv)" "\<not> int (length argv) > int LIBC_ARGV_MAX" using assms(1,3) by simp_all
  show ?thesis
  proof (cases "env = []")
    case True
    obtain c r where "rest = c # r" "c \<noteq> ENV_MARK" using assms(6,7) by (cases rest) auto
    with True n assms(2) show ?thesis
      by (simp add: libc_start_args_def blob_of_def get_argv_flat Let_def)
  next
    case False
    have "get_env LIBC_ENV_MAX (flat env @ NUL # rest) = Some env" using assms(4,5) by (rule get_env_flat)
    with False n assms(2) show ?thesis
      by (simp add: libc_start_args_def blob_of_def get_argv_flat Let_def)
  qed
qed

text \<open>Beyond 64 arguments the cursor stops inside the arguments and the environment is not looked for.\<close>

lemma start_args_long:
  assumes "LIBC_ARGV_MAX < length argv" "\<forall>s \<in> set argv. NUL \<notin> set s" "argv ! LIBC_ARGV_MAX = [] \<or> hd (argv ! LIBC_ARGV_MAX) \<noteq> ENV_MARK"
  shows "libc_start_args (int (length argv)) (blob_of argv env @ rest) = Some (LIBC_ARGV_MAX, take LIBC_ARGV_MAX argv, [])"
proof -
  let ?k = "LIBC_ARGV_MAX"
  have split: "argv = take ?k argv @ argv ! ?k # drop (Suc ?k) argv" using assms(1) by (rule id_take_nth_drop)
  define tail where "tail = argv ! ?k @ NUL # flat (drop (Suc ?k) argv) @ (if env = [] then [] else ENV_MARK # flat env @ [NUL]) @ rest"
  have b: "blob_of argv env @ rest = ARGV0_MARK # flat (take ?k argv) @ tail"
    unfolding blob_of_def tail_def by (subst split, simp only: flat_append flat_simps append_assoc append_Cons append_Nil)
  have "\<forall>s \<in> set (take ?k argv). NUL \<notin> set s" using assms(2) by (meson in_set_takeD)
  from get_argv_flat [OF this] have g: "get_argv ?k (flat (take ?k argv) @ tail) = Some (take ?k argv, tail)" using assms(1) by (simp add: min_def)
  obtain c t where t: "tail = c # t" "c \<noteq> ENV_MARK"
    using assms(3) unfolding tail_def by (cases "argv ! ?k") auto
  have n: "(if int (length argv) < 0 then 0 else if int (length argv) > int ?k then ?k else nat (int (length argv))) = ?k" "0 < int (length argv)"
    using assms(1) by (simp, linarith)
  show ?thesis unfolding libc_start_args_def Let_def n(1) b using n(2) g t by simp
qed

context fs_store
begin

lemma load_loop_file:
  assumes "ok w" "p \<in> P" "cont w p = Some c" "t \<le> length c"
  shows "\<exists>w'. load_loop os w p (int (length c)) (int t) (take t c) = (Some (int (length c), c), w') \<and> ok w' \<and> cont w' = cont w"
  using assms
proof (induction "length c - t" arbitrary: w t rule: less_induct)
  case less
  show ?case
  proof (cases "t < length c")
    case False
    then show ?thesis using less.prems by (subst load_loop.simps) simp
  next
    case True
    define want where "want = (if int (length c) - int t > RC_READ_CHUNK then RC_READ_CHUNK else int (length c) - int t)"
    have sz: "int (length c) < 2 ^ 31" using file_size [OF less.prems(1-3)] .
    have w: "0 < want" "want \<le> int (length c) - int t" "want < 2 ^ 31" "t < 2 ^ 32" using True sz by (auto simp: want_def)
    from read_law [OF less.prems(1-3) _ w(3,4)] w(1) obtain k w1 where
      k: "rc_fs_read_at os w p want (int t) = ((int k, take k (drop t c)), w1)" "cont w1 = cont w" "ok w1" "k \<le> length c - t" "0 < k"
      using True by force
    have "\<exists>w'. load_loop os w1 p (int (length c)) (int (t + k)) (take (t + k) c) = (Some (int (length c), c), w') \<and> ok w' \<and> cont w' = cont w1"
      using less.hyps [of "t + k" w1] k less.prems True by auto
    moreover have "take t c @ take k (drop t c) = take (t + k) c" by (simp add: take_add)
    moreover have "load_loop os w p (int (length c)) (int t) (take t c) =
        load_loop os w1 p (int (length c)) (int (t + k)) (take t c @ take k (drop t c))"
      using True k(1,5) by (subst load_loop.simps) (simp add: Let_def want_def split del: if_split)
    ultimately show ?thesis using k(2) by simp
  qed
qed

lemma load_image_file:
  assumes "ok (world (ppx p))" "path \<in> P" "cont (world (ppx p)) path = Some c" "c \<noteq> []" "int (length c) \<le> RC_EXEC_IMAGE_MAX" "\<forall>n. mal n"
  shows "\<exists>w. load_image os mal p path = (Some c, pworld w p) \<and> ok w \<and> cont w = cont (world (ppx p))"
proof -
  obtain w where w: "rc_fs_stat os (world (ppx p)) path = (Some (int (length c), 0), w)" "cont w = cont (world (ppx p))" "ok w"
    using stat_law [OF assms(1,2)] assms(3) by auto
  obtain w' where w': "load_loop os w path (int (length c)) 0 [] = (Some (int (length c), c), w')" "ok w'" "cont w' = cont w"
    using load_loop_file [OF w(3) assms(2), of c 0] w(2) assms(3) by auto
  have "pworld w' (pworld w p) = pworld w' p" by (simp add: pworld_def set_px_def ppx_def)
  with w w' assms(4-6) show ?thesis by (intro exI [of _ w']) (simp add: load_image_def Let_def)
qed

end

subsection \<open>Properties\<close>

lemma execve_file:
  assumes "fs_store os ok cont cap P" "ok (world (ppx p))" "path \<in> P" "cont (world (ppx p)) path = Some c" "c \<noteq> []"
    "int (length c) \<le> RC_EXEC_IMAGE_MAX" "\<forall>n. mal n" "\<forall>w i b k. fst (sys_exec po w i b k)"
  shows "\<exists>w. execve os po mal p path argv (Some env) =
    (if length (blob_of argv env) \<le> RC_EXEC_BLOB_MAX then Replaced c (blob_of argv env) (int (length argv))
     else Failed (perr E2BIG (pworld w p)))"
proof -
  obtain w where l: "load_image os mal p path = (Some c, pworld w p)"
    using fs_store.load_image_file [OF assms(1-7)] by blast
  obtain a w1 where e: "sys_exec po (world (ppx (pworld w p))) c (blob_of argv env) (int (length argv)) = (a, w1)"
    by (cases "sys_exec po (world (ppx (pworld w p))) c (blob_of argv env) (int (length argv))")
  then have "a" using assms(8) by (metis fst_conv)
  with l e show ?thesis by (intro exI [of _ w]) (simp add: execve_def pack_blob_eq)
qed


definition exec_demo :: "fsw pr" where
  "exec_demo = \<lparr> prenv = env_start [''A=1''] demo_px, rc_children = [], rc_start = \<lparr> tv_sec = 0, tv_nsec = 0 \<rparr> \<rparr>"

definition yes_po :: "'w procos" where
  "yes_po = \<lparr> sys_rfork = (\<lambda>w. ((7, 3), w)), sys_exec = (\<lambda>w i b k. (True, w)), sys_join = (\<lambda>w p g. (int g, w)), sys_map_pages = (\<lambda>w n. (None, w)) \<rparr>"

lemma exec_demo_px [simp]: "ppx exec_demo = demo_px"
  by (simp add: ppx_def exec_demo_def env_start_def)


text \<open>With more than 64 arguments \<open>__libc_start\<close> passes on the first 64 and an empty environment, even
  when \<open>execve\<close> packed one: the cursor stands before argument 65, not before the environment mark.\<close>

theorem start_loses_env:
  assumes "LIBC_ARGV_MAX < length argv" "\<forall>s \<in> set argv. NUL \<notin> set s" "argv ! LIBC_ARGV_MAX = [] \<or> hd (argv ! LIBC_ARGV_MAX) \<noteq> ENV_MARK"
    "pack_blob argv (Some env) = Some blob"
  shows "libc_start_args (int (length argv)) (blob @ rest) = Some (LIBC_ARGV_MAX, take LIBC_ARGV_MAX argv, [])"
proof -
  have "blob = blob_of argv env" using assms(4) by (auto simp: pack_blob_eq split: if_splits)
  then show ?thesis using start_args_long [OF assms(1-3)] by simp
qed

theorem start_loses_env_witness:
  "libc_start_args (int (length (replicate 65 ''a''))) (blob_of (replicate 65 ''a'') [''A=1''] @ [NUL]) = Some (LIBC_ARGV_MAX, take LIBC_ARGV_MAX (replicate 65 ''a''), [])"
proof (rule start_loses_env [where env = "[''A=1'']"])
  have "length (flat (replicate n ''a'')) = 2 * n" for n by (induction n) simp_all
  then show "pack_blob (replicate 65 ''a'') (Some [''A=1'']) = Some (blob_of (replicate 65 ''a'') [''A=1''])"
    unfolding pack_blob_eq by (simp add: blob_of_def)
qed simp_all

text \<open>A child that \<open>fork\<close> recorded can be waited for by its pid: \<open>waitpid\<close> joins that process (with the
  generation the kernel gave) and not another, returns its pid and exit code, and takes exactly that
  entry out of the table.\<close>

theorem fork_waitpid:
  assumes "sys_rfork po (world (ppx p)) = ((pid, gen), w)" "0 < pid" "pid < 2 ^ 31" "length (rc_children p) < RC_CHILD_MAX"
    "pid \<notin> fst ` set (rc_children p)" "sys_join po w pid gen = (code, w')"
  shows "\<exists>p1 p2. fork po p = (pid, p1) \<and> waitpid po p1 pid 0 = ((pid, Some ((to_int32 code AND 0xff) * 256)), p2)
    \<and> rc_children p2 = rc_children p \<and> world (ppx p2) = w'"
proof -
  have idx: "child_index (cs @ [(pid, gen)]) pid i = int (i + length cs)" if "pid \<notin> fst ` set cs" for cs i
    using that by (induction cs arbitrary: i) auto
  define p1 where "p1 = (pworld w p) \<lparr> rc_children := rc_children p @ [(pid, gen)] \<rparr>"
  have c: "rc_children (pworld w p) = rc_children p" by (simp add: pworld_def set_px_def)
  have f: "fork po p = (pid, p1)"
    using assms(1-4) c by (simp add: fork_def child_add_def p1_def)
  have w: "world (ppx p1) = w" by (simp add: p1_def pworld_def set_px_def ppx_def)
  have ch: "rc_children p1 = rc_children p @ [(pid, gen)]" by (simp add: p1_def)
  have "waitpid po p1 pid 0 = ((pid, Some ((to_int32 code AND 0xff) * 256)), (pworld w' p1) \<lparr> rc_children := rc_children p \<rparr>)"
    using assms(2,5,6) w ch idx [of "rc_children p" 0] by (simp add: waitpid_def)
  with f show ?thesis by (intro exI conjI) (assumption, assumption, simp_all add: pworld_def set_px_def ppx_def)
qed

theorem fork_waitpid_witness:
  "\<exists>p1 p2. fork yes_po exec_demo = (7, p1) \<and> waitpid yes_po p1 7 0 = ((7, Some ((to_int32 3 AND 0xff) * 256)), p2)
    \<and> rc_children p2 = rc_children exec_demo \<and> world (ppx p2) = demo_w"
proof (rule fork_waitpid)
  show "sys_rfork yes_po (world (ppx exec_demo)) = ((7, 3), demo_w)" by (simp add: yes_po_def demo_px_def px_start_def)
qed (simp_all add: yes_po_def exec_demo_def)

end
