(* ===== verification/Exit.thy ===== *)
theory Exit
  imports Stdio
begin

text \<open>
  Process termination: the handler table of \<^verbatim>\<open>src/stdlib.c\<close> (\<open>atexit\<close>, \<open>__cxa_atexit\<close>) and \<open>exit\<close>,
  \<open>abort\<close>, \<open>_Exit\<close> of \<^verbatim>\<open>src/exit.c\<close>.

  A handler is an identifier with its argument; \<open>call\<close> is what running it does to the program (it may
  register further handlers). The state is the table, the standard streams and the rest of the
  program \<open>'u\<close>. \<open>exit\<close> may run forever when handlers keep registering: then it is \<open>None\<close>. A
  result is the code given to \<^verbatim>\<open>_exit\<close> with the state at that point.
\<close>

abbreviation (input) ATEXIT_MAX :: nat where "ATEXIT_MAX \<equiv> 256"

record ('w, 'u) ax =
  atexit_fns :: "(nat \<times> nat) list"
  ax_sio :: "'w sio"
  ax_user :: 'u

definition cxa_atexit :: "('w, 'u) ax \<Rightarrow> nat \<Rightarrow> nat \<Rightarrow> int \<times> ('w, 'u) ax" where
  "cxa_atexit a fn arg =
     (if length (atexit_fns a) \<ge> ATEXIT_MAX then (-1, a) else (0, a \<lparr> atexit_fns := atexit_fns a @ [(fn, arg)] \<rparr>))"

definition atexit :: "('w, 'u) ax \<Rightarrow> nat \<Rightarrow> int \<times> ('w, 'u) ax" where
  "atexit a fn = cxa_atexit a fn 0"

definition cxa_thread_atexit :: "('w, 'u) ax \<Rightarrow> nat \<Rightarrow> nat \<Rightarrow> int \<times> ('w, 'u) ax" where
  "cxa_thread_atexit a fn obj = cxa_atexit a fn obj"

definition cxa_thread_atexit_impl :: "('w, 'u) ax \<Rightarrow> nat \<Rightarrow> nat \<Rightarrow> int \<times> ('w, 'u) ax" where
  "cxa_thread_atexit_impl a fn obj = cxa_atexit a fn obj"

partial_function (option) exit_loop ::
    "(nat \<Rightarrow> nat \<Rightarrow> ('w, 'u) ax \<Rightarrow> ('w, 'u) ax) \<Rightarrow> ('w, 'u) ax \<Rightarrow> ('w, 'u) ax option" where
  "exit_loop call a =
     (if atexit_fns a = [] then Some a
      else exit_loop call (call (fst (last (atexit_fns a))) (snd (last (atexit_fns a)))
             (a \<lparr> atexit_fns := butlast (atexit_fns a) \<rparr>)))"

definition exit_c ::
    "'w os \<Rightarrow> 'w netops \<Rightarrow> (nat \<Rightarrow> bool) \<Rightarrow> (nat \<Rightarrow> nat \<Rightarrow> ('w, 'u) ax \<Rightarrow> ('w, 'u) ax) \<Rightarrow> (('w, 'u) ax \<Rightarrow> ('w, 'u) ax) list
      \<Rightarrow> int \<Rightarrow> ('w, 'u) ax \<Rightarrow> (int \<times> ('w, 'u) ax) option" where
  "exit_c os net mal call fini code a =
     do { a1 \<leftarrow> exit_loop call a;
          let a2 = fold (\<lambda>f s. f s) (rev fini) a1;
          Some (code, a2 \<lparr> ax_sio := exit_flush os net mal (ax_sio a2) \<rparr>) }"

definition abort_c :: "('w, 'u) ax \<Rightarrow> int \<times> ('w, 'u) ax" where
  "abort_c a = (134, a)"

definition Exit_c :: "int \<Rightarrow> ('w, 'u) ax \<Rightarrow> int \<times> ('w, 'u) ax" where
  "Exit_c code a = (code, a)"

subsection \<open>Order of the handlers\<close>

text \<open>Handlers that act on the program only.\<close>

definition plain_call :: "(nat \<Rightarrow> nat \<Rightarrow> 'u \<Rightarrow> 'u) \<Rightarrow> nat \<Rightarrow> nat \<Rightarrow> ('w, 'u) ax \<Rightarrow> ('w, 'u) ax" where
  "plain_call g f x a = a \<lparr> ax_user := g f x (ax_user a) \<rparr>"

text \<open>The registrations of a run, each through either entry point.\<close>

fun register :: "(nat \<times> nat option) list \<Rightarrow> ('w, 'u) ax \<Rightarrow> int list \<times> ('w, 'u) ax" where
  "register [] a = ([], a)"
| "register ((f, xo) # rs) a =
     (let (r, a1) = (case xo of None \<Rightarrow> atexit a f | Some x \<Rightarrow> cxa_atexit a f x); (q, a2) = register rs a1 in (r # q, a2))"

definition entry_of :: "nat \<times> nat option \<Rightarrow> nat \<times> nat" where
  "entry_of r = (fst r, case snd r of None \<Rightarrow> 0 | Some x \<Rightarrow> x)"

lemma register_step:
  "length (atexit_fns a) < ATEXIT_MAX \<Longrightarrow>
    (case xo of None \<Rightarrow> atexit a f | Some x \<Rightarrow> cxa_atexit a f x) = (0, a \<lparr> atexit_fns := atexit_fns a @ [entry_of (f, xo)] \<rparr>)"
  "\<not> length (atexit_fns a) < ATEXIT_MAX \<Longrightarrow> (case xo of None \<Rightarrow> atexit a f | Some x \<Rightarrow> cxa_atexit a f x) = (-1, a)"
  by (simp_all add: atexit_def cxa_atexit_def entry_of_def split: option.split)

lemma register_table:
  "length (atexit_fns a) \<le> ATEXIT_MAX \<Longrightarrow>
    register rs a = (map (\<lambda>i. if length (atexit_fns a) + i < ATEXIT_MAX then 0 else -1) [0..<length rs],
      a \<lparr> atexit_fns := take ATEXIT_MAX (atexit_fns a @ map entry_of rs) \<rparr>)"
proof (induction rs arbitrary: a)
  case Nil
  then show ?case by simp
next
  case (Cons r rs)
  obtain f xo where r: "r = (f, xo)" by (cases r)
  have up: "[0..<Suc (length rs)] = 0 # map Suc [0..<length rs]" by (simp add: upt_conv_Cons map_Suc_upt del: upt_Suc)
  show ?case
  proof (cases "length (atexit_fns a) < ATEXIT_MAX")
    case True
    then show ?thesis
      using Cons.IH [of "a \<lparr> atexit_fns := atexit_fns a @ [entry_of (f, xo)] \<rparr>"] register_step(1) [OF True, where xo = xo and f = f]
      by (simp add: r up comp_def del: upt_Suc)
  next
    case False
    with Cons.prems have l: "length (atexit_fns a) = ATEXIT_MAX" by simp
    then show ?thesis
      using Cons.IH [of a] register_step(2) [OF False, where xo = xo and f = f] by (simp add: r up comp_def del: upt_Suc)
  qed
qed

lemma exit_loop_plain:
  "exit_loop (plain_call g) a = Some (a \<lparr> atexit_fns := [], ax_user := fold (\<lambda>(f, x). g f x) (rev (atexit_fns a)) (ax_user a) \<rparr>)"
proof (induction "atexit_fns a" arbitrary: a rule: rev_induct)
  case Nil
  then show ?case by (subst exit_loop.simps) simp
next
  case (snoc e es)
  obtain f x where e: "e = (f, x)" by (cases e)
  define b where "b = plain_call g f x (a \<lparr> atexit_fns := es \<rparr>)"
  have fns: "atexit_fns a = es @ [(f, x)]" using snoc.hyps(2) e by simp
  then have "exit_loop (plain_call g) a = exit_loop (plain_call g) b" by (subst exit_loop.simps) (simp add: b_def)
  also have "\<dots> = Some (b \<lparr> atexit_fns := [], ax_user := fold (\<lambda>(f, x). g f x) (rev (atexit_fns b)) (ax_user b) \<rparr>)"
    by (rule snoc.hyps(1)) (simp add: b_def plain_call_def)
  finally show ?case by (simp add: b_def plain_call_def fns)
qed

text \<open>C21: handlers registered through \<open>atexit\<close> and \<open>__cxa_atexit\<close>, in any mixture, run in reverse order of
  registration, each with its own argument, before the destructors of \<^verbatim>\<open>.fini_array\<close> (last first) and the
  flush of the standard streams; registrations beyond 256 fail with -1 and do not run.\<close>

theorem exit_runs_lifo:
  assumes "atexit_fns a = []"
  shows "\<exists>a1. register rs a = (map (\<lambda>i. if i < ATEXIT_MAX then 0 else -1) [0..<length rs], a1)
    \<and> exit_c os net mal (plain_call g) fini code a1 =
        (let a2 = fold (\<lambda>f s. f s) (rev fini)
             (a \<lparr> ax_user := fold (\<lambda>(f, x). g f x) (rev (take ATEXIT_MAX (map entry_of rs))) (ax_user a) \<rparr>)
         in Some (code, a2 \<lparr> ax_sio := exit_flush os net mal (ax_sio a2) \<rparr>))"
proof -
  have e: "a \<lparr> atexit_fns := [] \<rparr> = a" using assms by (cases a) simp
  then have u: "a \<lparr> atexit_fns := [], ax_user := u \<rparr> = a \<lparr> ax_user := u \<rparr>" for u by (cases a) simp
  show ?thesis
    using register_table [of a rs] assms by (simp add: exit_c_def exit_loop_plain Let_def u)
qed

definition exit_demo :: "(fsw, nat list) ax" where
  "exit_demo = \<lparr> atexit_fns = [], ax_sio = sio_start demo_px, ax_user = [] \<rparr>"

theorem exit_runs_lifo_witness:
  "\<exists>a1 a2. register [(1, None), (2, Some 5), (3, None)] exit_demo = ([0, 0, 0], a1)
    \<and> exit_c fsd_os no_net (\<lambda>n. True) (plain_call (\<lambda>f x l. l @ [f, x])) [] 4 a1 = Some (4, a2) \<and> ax_user a2 = [3, 0, 2, 5, 1, 0]"
proof -
  have "atexit_fns exit_demo = []" by (simp add: exit_demo_def)
  from exit_runs_lifo [OF this, of "[(1, None), (2, Some 5), (3, None)]" fsd_os no_net "\<lambda>n. True" "\<lambda>f x l. l @ [f, x]" "[]" 4]
  show ?thesis by (auto simp: entry_of_def Let_def exit_demo_def)
qed

end
