(* ===== verification/InetAddr.thy ===== *)
theory InetAddr
  imports Printf
begin

unbundle bit_operations_syntax

text \<open>
  The pure half of \<^verbatim>\<open>src/rc_socket.c\<close>: byte order (\<^verbatim>\<open>include/netinet/in.h\<close>), dotted quads, conversation
  names, and the DNS messages.

  An address in host order is a \<open>32 word\<close>, a port a \<open>16 word\<close>. A string under a cursor is the suffix it
  points at; a cursor that is advanced comes back as the rest. Reads of a received datagram go
  through \<open>rd\<close>, which is \<open>None\<close> outside the receive buffer, so a parser that reads out of bounds has
  the result \<open>None\<close>.
\<close>

type_synonym u16 = "16 word"

definition htons :: "u16 \<Rightarrow> u16" where
  "htons v = push_bit 8 v OR drop_bit 8 v"

definition ntohs :: "u16 \<Rightarrow> u16" where
  "ntohs v = htons v"

definition htonl :: "u32 \<Rightarrow> u32" where
  "htonl v = push_bit 24 (v AND 0xff) OR push_bit 8 (v AND 0xff00) OR (drop_bit 8 v AND 0xff00) OR drop_bit 24 v"

definition ntohl :: "u32 \<Rightarrow> u32" where
  "ntohl v = htonl v"

text \<open>The text \<^verbatim>\<open>sprintf\<close> leaves in its target, for formats without floating point.\<close>

definition sfmt :: "byte list \<Rightarrow> unit arg list \<Rightarrow> string" where
  "sfmt fmt args = (case formatted (\<lambda>x w p fl c. []) fmt args of Some (r, t, st) \<Rightarrow> t | None \<Rightarrow> [])"

definition netpath :: "string \<Rightarrow> string \<Rightarrow> string" where
  "netpath dir file = take 100 dir @ ''/'' @ take (126 - (length (take 100 dir) + 1)) file"

text \<open>The third word of a status line.\<close>

fun skip_words :: "nat \<Rightarrow> string \<Rightarrow> string" where
  "skip_words sp [] = []"
| "skip_words sp (c # cs) = (if sp < 2 then skip_words (if c = CHR '' '' then sp + 1 else sp) cs else c # cs)"

definition status_state :: "string \<Rightarrow> string" where
  "status_state st = skip_words 0 st"

definition ip_byte :: "u32 \<Rightarrow> nat \<Rightarrow> int" where
  "ip_byte ip k = uint (drop_bit k ip AND 255)"

definition fmt_ip :: "u32 \<Rightarrow> string" where
  "fmt_ip ip = sfmt ''%u.%u.%u.%u'' [AInt (ip_byte ip 24), AInt (ip_byte ip 16), AInt (ip_byte ip 8), AInt (ip_byte ip 0)]"

definition isdig :: "byte \<Rightarrow> bool" where
  "isdig c \<longleftrightarrow> ord CHR ''0'' \<le> ord c \<and> ord c \<le> ord CHR ''9''"

text \<open>\<^verbatim>\<open>while (*p is a digit) { b = b * 10 + ...; p++; if (b > 255) return -1; }\<close>\<close>

fun quad_digits :: "nat \<Rightarrow> string \<Rightarrow> (nat \<times> string) option" where
  "quad_digits b [] = Some (b, [])"
| "quad_digits b (c # p) =
     (if isdig c then (let b' = b * 10 + nat (ord c - ord CHR ''0'') in if b' > 255 then None else quad_digits b' p)
      else Some (b, c # p))"

fun quad_loop :: "nat \<Rightarrow> u32 \<Rightarrow> string \<Rightarrow> (u32 \<times> string) option" where
  "quad_loop 0 v p = Some (v, p)"
| "quad_loop (Suc k) v p =
     (if \<not> isdig (at p 0) then None
      else case quad_digits 0 p of None \<Rightarrow> None
           | Some (b, p1) \<Rightarrow>
               let v1 = push_bit 8 v OR of_nat b in
               if k > 0 then (if at p1 0 \<noteq> CHR ''.'' then None else quad_loop k v1 (drop 1 p1))
               else quad_loop k v1 p1)"

definition parse_quad :: "string \<Rightarrow> (u32 \<times> string) option" where
  "parse_quad s = quad_loop 4 0 s"

fun port_digits :: "nat \<Rightarrow> string \<Rightarrow> nat" where
  "port_digits p [] = p"
| "port_digits p (c # s) = (if isdig c then port_digits ((p * 10 + nat (ord c - ord CHR ''0'')) mod 2 ^ 32) s else p)"

definition parse_hostport :: "string \<Rightarrow> (u32 \<times> nat) option" where
  "parse_hostport s =
     (case parse_quad s of None \<Rightarrow> None
      | Some (ip, s1) \<Rightarrow>
          if at s1 0 \<noteq> CHR ''!'' then None
          else let s2 = drop 1 s1 in if \<not> isdig (at s2 0) then None else Some (ip, port_digits 0 s2))"

subsection \<open>Address conversion\<close>

text \<open>\<open>in_addr\<close> is in network order; \<open>None\<close> is the result 0.\<close>

definition inet_aton :: "string \<Rightarrow> u32 option" where
  "inet_aton cp = (case parse_quad cp of None \<Rightarrow> None | Some (ip, r) \<Rightarrow> if r \<noteq> [] then None else Some (htonl ip))"

definition inet_pton :: "int \<Rightarrow> string \<Rightarrow> int \<times> u32 option" where
  "inet_pton af src = (if af \<noteq> 2 then (-1, None) else case inet_aton src of None \<Rightarrow> (0, None) | Some a \<Rightarrow> (1, Some a))"

definition inet_addr :: "string \<Rightarrow> u32" where
  "inet_addr cp = (case inet_aton cp of Some a \<Rightarrow> a | None \<Rightarrow> 0xffffffff)"

text \<open>\<open>Inl\<close> is the error number.\<close>

definition inet_ntop :: "int \<Rightarrow> u32 \<Rightarrow> nat \<Rightarrow> int + string" where
  "inet_ntop af src size' =
     (if af \<noteq> 2 then Inl 97
      else let tmp = fmt_ip (ntohl src) in if length tmp + 1 > size' then Inl 28 else Inr tmp)"

definition inet_ntoa :: "u32 \<Rightarrow> string" where
  "inet_ntoa a = fmt_ip (ntohl a)"

subsection \<open>DNS messages\<close>

definition rd :: "byte list \<Rightarrow> int \<Rightarrow> int option" where
  "rd m i = (if 0 \<le> i \<and> i < int (length m) then Some (ord (m ! nat i)) else None)"

definition rd16 :: "byte list \<Rightarrow> int \<Rightarrow> int option" where
  "rd16 m i = do { a \<leftarrow> rd m i; b \<leftarrow> rd m (i + 1); Some (a * 256 + b) }"

text \<open>The result -1 is \<open>Some (-1)\<close>.\<close>

function dns_skip :: "byte list \<Rightarrow> int \<Rightarrow> int \<Rightarrow> int option" where
  "dns_skip m len i =
     (if i < len
      then (case rd m i of None \<Rightarrow> None
            | Some l \<Rightarrow> if l = 0 then Some (i + 1)
                       else if l AND 0xC0 = 0xC0 then Some (i + 2)
                       else if l > 0 then dns_skip m len (i + l + 1) else None)
      else Some (-1))"
  by pat_completeness auto
termination by (relation "measure (\<lambda>(m, len, i). nat (len - i))") auto

declare dns_skip.simps [simp del]

text \<open>The question: the labels of the name behind the 12-byte header; \<open>None\<close> is the return of -1.\<close>

function dns_labels :: "string \<Rightarrow> byte list \<Rightarrow> byte list option" where
  "dns_labels s q =
     (if s = [] then Some q
      else let label = takeWhile (\<lambda>c. c \<noteq> CHR ''.'') s; l = length label in
           if l = 0 \<or> l > 63 \<or> length q + l + 6 > 290 then None
           else dns_labels (drop 1 (drop l s)) (q @ chr (int l) # label))"
  by pat_completeness auto
termination by (relation "measure (\<lambda>(s, q). length s)") auto

declare dns_labels.simps [simp del]

definition dns_id :: "int \<Rightarrow> int" where
  "dns_id pid = ((pid * 7919) mod 2 ^ 32) XOR 0x5a5a"

definition dns_question :: "int \<Rightarrow> string \<Rightarrow> byte list option" where
  "dns_question pid name =
     (let i = dns_id pid;
          hd' = [chr (drop_bit 8 i), chr i, chr 1, chr 0, chr 0, chr 1] @ replicate 6 NUL
      in do { q \<leftarrow> dns_labels name hd'; Some (q @ [chr 0, chr 0, chr 1, chr 0, chr 1]) })"

text \<open>What one reply does: ask again, give up, or the address.\<close>

datatype dns_result = Again | GiveUp | Found u32

text \<open>The walk over the answer records; \<open>k\<close> records are left and the cursor is \<open>i\<close>.\<close>

fun dns_answers :: "byte list \<Rightarrow> int \<Rightarrow> nat \<Rightarrow> int \<Rightarrow> dns_result option" where
  "dns_answers r rn 0 i = Some Again"
| "dns_answers r rn (Suc k) i =
     (if i > 0 \<and> i + 10 \<le> rn
      then do { j \<leftarrow> dns_skip r rn i;
                if j < 0 \<or> j + 10 > rn then Some Again
                else do { type \<leftarrow> rd16 r j;
                          rdlen \<leftarrow> rd16 r (j + 8);
                          if type = 1 \<and> rdlen = 4 \<and> j + 14 \<le> rn
                          then do { a \<leftarrow> rd r (j + 10); b \<leftarrow> rd r (j + 11); c \<leftarrow> rd r (j + 12); d \<leftarrow> rd r (j + 13);
                                    Some (Found (of_int (((a * 256 + b) * 256 + c) * 256 + d))) }
                          else dns_answers r rn k (j + 10 + rdlen) } }
      else Some Again)"

definition dns_reply :: "byte list \<Rightarrow> byte list \<Rightarrow> int \<Rightarrow> dns_result option" where
  "dns_reply q r rn =
     (if rn < 12 then Some Again
      else do { r0 \<leftarrow> rd r 0; r1 \<leftarrow> rd r 1;
                if r0 \<noteq> ord (q ! 0) \<or> r1 \<noteq> ord (q ! 1) then Some Again
                else do { r3 \<leftarrow> rd r 3;
                          if r3 AND 0x0F \<noteq> 0 then Some GiveUp
                          else do { an \<leftarrow> rd16 r 6;
                                    i \<leftarrow> dns_skip r rn 12;
                                    if i < 0 then Some GiveUp else dns_answers r rn (nat an) (i + 4) } } })"

subsection \<open>Byte order and dotted quads\<close>

lemma mask_ff: "(0xff :: u32) = mask 8"
  by (simp add: mask_eq_exp_minus_1)

lemma mask_ff00: "(0xff00 :: u32) = push_bit 8 (mask 8)"
  by (simp add: mask_eq_exp_minus_1 push_bit_eq_mult)

lemma bit_htonl:
  "bit (htonl v) n \<longleftrightarrow> n < 32 \<and> bit v (if n < 8 then n + 24 else if n < 16 then n + 8 else if n < 24 then n - 8 else n - 24)"
proof -
  consider "n < 8" | "8 \<le> n" "n < 16" | "16 \<le> n" "n < 24" | "24 \<le> n" "n < 32" | "32 \<le> n" by linarith
  then show ?thesis
    by cases (auto simp: htonl_def mask_ff mask_ff00 bit_simps add.commute dest: bit_imp_le_length)
qed

lemma htonl_htonl [simp]: "htonl (htonl v) = v" "ntohl (htonl v) = v" "htonl (ntohl v) = v"
proof -
  show "htonl (htonl v) = v" by (rule bit_word_eqI) (auto simp: bit_htonl)
  then show "ntohl (htonl v) = v" "htonl (ntohl v) = v" by (simp_all add: ntohl_def)
qed

lemma htons_htons: "htons (htons v) = v"
proof (rule bit_word_eqI)
  fix n assume "n < LENGTH(16)"
  then consider "n < 8" | "8 \<le> n" "n < 16" by fastforce
  then show "bit (htons (htons v)) n = bit v n"
    by cases (auto simp: htons_def bit_simps add.commute dest: bit_imp_le_length)
qed

lemma quad_bytes:
  "push_bit 8 (push_bit 8 (push_bit 8 (drop_bit 24 ip AND 255) OR (drop_bit 16 ip AND 255)) OR (drop_bit 8 ip AND 255)) OR (ip AND 255) = (ip :: u32)"
proof (rule bit_word_eqI)
  fix n assume "n < LENGTH(32)"
  then consider "n < 8" | "8 \<le> n" "n < 16" | "16 \<le> n" "n < 24" | "24 \<le> n" "n < 32" by fastforce
  then show "bit (push_bit 8 (push_bit 8 (push_bit 8 (drop_bit 24 ip AND 255) OR (drop_bit 16 ip AND 255)) OR (drop_bit 8 ip AND 255)) OR (ip AND 255)) n = bit ip n"
    unfolding mask_ff by cases (auto simp: bit_simps)
qed

lemma ip_byte_range: "0 \<le> ip_byte ip k" "ip_byte ip k < 256"
proof -
  have "drop_bit k ip AND 255 = take_bit 8 (drop_bit k ip)" unfolding mask_ff by (simp add: take_bit_eq_mask)
  then have "uint (drop_bit k ip AND 255) = take_bit 8 (uint (drop_bit k ip))" by (simp add: unsigned_take_bit_eq)
  then show "0 \<le> ip_byte ip k" "ip_byte ip k < 256"
    using take_bit_int_less_exp [of 8 "uint (drop_bit k ip)"] by (simp_all add: ip_byte_def)
qed

lemma of_nat_ip_byte: "(of_nat (nat (ip_byte ip k)) :: u32) = drop_bit k ip AND 255"
  by (simp add: ip_byte_def)

lemma isdig_iff: "isdig c \<longleftrightarrow> is_digit 10 c"
  by (auto simp: isdig_def is_digit_def digit_val_def)

lemma isdig_value: "isdig c \<Longrightarrow> nat (ord c - ord CHR ''0'') = nat (digit_val (ord c))"
  by (auto simp: isdig_def digit_val_def)

lemma digits_value_mono: "acc \<le> digits_value 10 acc ds"
proof (induction ds arbitrary: acc)
  case (Cons d ds)
  have "acc \<le> acc * 10 + nat (digit_val (ord d))" by simp
  also have "\<dots> \<le> digits_value 10 (acc * 10 + nat (digit_val (ord d))) ds" by (rule Cons)
  finally show ?case by simp
qed simp

lemma quad_digits_eq:
  assumes "\<forall>c \<in> set ds. isdig c" "rest = [] \<or> \<not> isdig (hd rest)" "digits_value 10 acc ds \<le> 255"
  shows "quad_digits acc (ds @ rest) = Some (digits_value 10 acc ds, rest)"
  using assms
proof (induction ds arbitrary: acc)
  case Nil
  then show ?case by (cases rest) auto
next
  case (Cons d ds)
  have "acc * 10 + nat (digit_val (ord d)) \<le> digits_value 10 (acc * 10 + nat (digit_val (ord d))) ds"
    by (rule digits_value_mono)
  then have "acc * 10 + nat (digit_val (ord d)) \<le> 255" using Cons.prems(3) by simp
  with Cons isdig_value [of d] show ?case by (simp add: Let_def)
qed

definition dec :: "u32 \<Rightarrow> nat \<Rightarrow> string" where
  "dec ip k = utoa (nat (ip_byte ip k)) 10 False"

lemma dec_facts:
  "dec ip k \<noteq> []" "\<forall>c \<in> set (dec ip k). isdig c" "isdig (hd (dec ip k))"
  "rest = [] \<or> \<not> isdig (hd rest) \<Longrightarrow> quad_digits 0 (dec ip k @ rest) = Some (nat (ip_byte ip k), rest)"
  "length (dec ip k) \<le> 3"
proof -
  note u = utoa_facts [of 10 "nat (ip_byte ip k)" False, simplified]
  show ne: "dec ip k \<noteq> []" and d: "\<forall>c \<in> set (dec ip k). isdig c" using u by (simp_all add: dec_def isdig_iff)
  then show "isdig (hd (dec ip k))" by simp
  have b: "nat (ip_byte ip k) \<le> 255" using ip_byte_range [of ip k] by simp
  show "quad_digits 0 (dec ip k @ rest) = Some (nat (ip_byte ip k), rest)" if "rest = [] \<or> \<not> isdig (hd rest)"
    using quad_digits_eq [of "dec ip k" rest 0] d that b u(3) by (simp add: dec_def)
  have "length (utoa_loop 10 False (nat (ip_byte ip k)) []) \<le> 3 + length ([] :: byte list)" using b by (intro utoa_loop_length) simp
  then show "length (dec ip k) \<le> 3" using u(1) by (auto simp: dec_def utoa_def utoa_loop.simps [of 10 False 0])
qed

lemma fmt_ip_text: "fmt_ip ip = dec ip 24 @ ''.'' @ dec ip 16 @ ''.'' @ dec ip 8 @ ''.'' @ dec ip 0"
proof -
  have sp: "get_spec (CHR ''u'' # f) (ap :: unit arg list) = Some ((0, 0, -1, 0, False), CHR ''u'' # f, ap)" for f ap
    by (simp add: get_spec_def get_width_def get_prec_def at_def ord_def)
  have cv: "convert (\<lambda>x w p fl c. []) emit_text length t CHR ''u'' (0, 0, -1, 0, False) (AInt (ip_byte ip k) # ap) =
      Some (t @ dec ip k, ap, [])" for t :: "byte list" and k and ap :: "unit arg list"
  proof -
    have b: "to_u32 (to_int32 (ip_byte ip k)) = ip_byte ip k" using ip_byte_range [of ip k] by simp
    have l: "length (dec ip k) < 2 ^ 30" using dec_facts(5) [of ip k] by simp
    have "put_number emit_text t (dec ip k) False None 0 0 (-1) = t @ dec ip k"
      using put_number_plain [OF _ _ l, of 0 t False] by simp
    then show ?thesis using b by (simp add: convert_def dec_def)
  qed
  show ?thesis
    by (simp add: fmt_ip_def sfmt_def formatted_def vformat_def sp cv) (simp add: emit_text_def)
qed

lemma parse_fmt_ip:
  assumes "rest = [] \<or> \<not> isdig (hd rest)"
  shows "parse_quad (fmt_ip ip @ rest) = Some (ip, rest)"
proof -
  have at0: "isdig (at (dec ip k @ r) 0)" for k r
    using dec_facts(1,3) [of ip k] by (simp add: at_append_0)
  have q: "quad_digits 0 (dec ip k @ CHR ''.'' # r) = Some (nat (ip_byte ip k), CHR ''.'' # r)" for k r
    by (rule dec_facts(4)) (simp add: isdig_def ord_def)
  have step: "quad_loop (Suc (Suc k)) v (dec ip j @ CHR ''.'' # r) = quad_loop (Suc k) (push_bit 8 v OR (drop_bit j ip AND 255)) r" for k v j r
    using at0 [of j "CHR ''.'' # r"] q [of j r] by (simp add: of_nat_ip_byte)
  have fin: "quad_loop (Suc 0) v (dec ip 0 @ rest) = Some (push_bit 8 v OR (drop_bit 0 ip AND 255), rest)" for v
    using at0 [of 0 rest] dec_facts(4) [OF assms, of ip 0] by (simp add: of_nat_ip_byte)
  have four: "(4 :: nat) = Suc (Suc (Suc (Suc 0)))" by simp
  have "parse_quad (fmt_ip ip @ rest) = Some (push_bit 8 (push_bit 8 (push_bit 8 (push_bit 8 0 OR (drop_bit 24 ip AND 255)) OR (drop_bit 16 ip AND 255)) OR (drop_bit 8 ip AND 255)) OR (drop_bit 0 ip AND 255), rest)"
    unfolding parse_quad_def four fmt_ip_text append_assoc append_Cons append_Nil step fin ..
  then show ?thesis using quad_bytes [of ip] by simp
qed

subsection \<open>Reading a DNS reply stays inside it\<close>

lemma rd_some: "0 \<le> i \<Longrightarrow> i < int (length m) \<Longrightarrow> \<exists>v. rd m i = Some v \<and> 0 \<le> v \<and> v < 256"
  by (simp add: rd_def)

lemma rd16_some: "0 \<le> i \<Longrightarrow> i + 1 < int (length m) \<Longrightarrow> \<exists>v. rd16 m i = Some v \<and> 0 \<le> v"
  by (simp add: rd16_def rd_def)

lemma dns_skip_safe:
  assumes "0 \<le> i" "len \<le> int (length m)"
  shows "\<exists>j. dns_skip m len i = Some j \<and> (j = -1 \<or> i < j)"
  using assms
proof (induction m len i rule: dns_skip.induct)
  case (1 m len i)
  show ?case
  proof (cases "i < len")
    case False
    then show ?thesis by (subst dns_skip.simps) simp
  next
    case True
    with 1 obtain l where l: "rd m i = Some l" "0 \<le> l" using rd_some [of i m] by auto
    show ?thesis
    proof (cases "l = 0 \<or> l AND 0xC0 = 0xC0")
      case True
      with l \<open>i < len\<close> show ?thesis by (subst dns_skip.simps) auto
    next
      case False
      with l \<open>i < len\<close> 1 obtain j where "dns_skip m len (i + l + 1) = Some j" "j = -1 \<or> i + l + 1 < j"
        by (metis add_nonneg_nonneg less_le zero_le_one)
      with False l \<open>i < len\<close> show ?thesis by (subst dns_skip.simps) auto
    qed
  qed
qed

lemma dns_answers_safe:
  assumes "0 \<le> i" "rn \<le> int (length r)"
  shows "dns_answers r rn k i \<noteq> None"
  using assms(1)
proof (induction k arbitrary: i)
  case 0
  then show ?case by simp
next
  case (Suc k)
  obtain j where j: "dns_skip r rn i = Some j" "j = -1 \<or> i < j" using dns_skip_safe [OF Suc.prems assms(2)] by blast
  show ?case
  proof (cases "i > 0 \<and> i + 10 \<le> rn \<and> 0 \<le> j \<and> j + 10 \<le> rn")
    case False
    then show ?thesis using j by auto
  next
    case True
    obtain ty where ty: "rd16 r j = Some ty" using rd16_some [of j r] True assms(2) by auto
    obtain n where n: "rd16 r (j + 8) = Some n" "0 \<le> n" using rd16_some [of "j + 8" r] True assms(2) by auto
    show ?thesis
    proof (cases "ty = 1 \<and> n = 4 \<and> j + 14 \<le> rn")
      case True
      then have "\<exists>v. rd r (j + 10) = Some v" "\<exists>v. rd r (j + 11) = Some v" "\<exists>v. rd r (j + 12) = Some v" "\<exists>v. rd r (j + 13) = Some v"
        using \<open>i > 0 \<and> _\<close> assms(2) by (simp_all add: rd_def)
      with True \<open>i > 0 \<and> _\<close> j(1) ty n show ?thesis by auto
    next
      case False
      with True j(1) ty n Suc.IH [of "j + 10 + n"] show ?thesis by auto
    qed
  qed
qed

lemma dns_reply_safe:
  assumes "rn \<le> int (length r)"
  shows "dns_reply q r rn \<noteq> None"
proof (cases "rn < 12")
  case True
  then show ?thesis by (simp add: dns_reply_def)
next
  case False
  then have "12 \<le> int (length r)" using assms by simp
  then obtain r0 r1 r3 an where v: "rd r 0 = Some r0" "rd r 1 = Some r1" "rd r 3 = Some r3" "rd16 r 6 = Some an"
    using rd_some [of 0 r] rd_some [of 1 r] rd_some [of 3 r] rd16_some [of 6 r] by fastforce
  obtain j where j: "dns_skip r rn 12 = Some j" "j = -1 \<or> 12 < j" using dns_skip_safe [of 12 rn r] assms by auto
  then have "dns_answers r rn (nat an) (j + 4) \<noteq> None" if "0 \<le> j" using that by (intro dns_answers_safe [OF _ assms]) simp
  with v j show ?thesis by (auto simp: dns_reply_def)
qed

subsection \<open>Names in messages\<close>

definition enc :: "string list \<Rightarrow> byte list" where
  "enc ls = concat (map (\<lambda>l. chr (int (length l)) # l) ls)"

definition labels_ok :: "string list \<Rightarrow> bool" where
  "labels_ok ls \<longleftrightarrow> (\<forall>l \<in> set ls. 0 < length l \<and> length l \<le> 63)"

lemma dns_labels_enc:
  "dns_labels s q = Some q' \<Longrightarrow> length q \<le> 285 \<Longrightarrow> \<exists>ls. q' = q @ enc ls \<and> labels_ok ls \<and> length q' \<le> 285"
proof (induction s q rule: dns_labels.induct)
  case (1 s q)
  show ?case
  proof (cases "s = []")
    case True
    then have "dns_labels s q = Some q" by (subst dns_labels.simps) simp
    with 1(2,3) show ?thesis by (intro exI [of _ "[]"]) (simp add: enc_def labels_ok_def)
  next
    case False
    define label where "label = takeWhile (\<lambda>c. c \<noteq> CHR ''.'') s"
    let ?l = "length label"
    have ok: "\<not> (?l = 0 \<or> ?l > 63 \<or> length q + ?l + 6 > 290)"
        "dns_labels (drop 1 (drop ?l s)) (q @ chr (int ?l) # label) = Some q'"
      using 1(2) False by (auto simp: dns_labels.simps [of s q] Let_def label_def split: if_splits)
    from 1(1) [OF False label_def refl ok] ok(1) obtain ls where
      "q' = (q @ chr (int ?l) # label) @ enc ls" "labels_ok ls" "length q' \<le> 285" by auto
    then show ?thesis using ok(1) by (intro exI [of _ "label # ls"]) (simp add: enc_def labels_ok_def)
  qed
qed

lemma small_not_pointer: "0 \<le> x \<Longrightarrow> x < 64 \<Longrightarrow> x AND 0xC0 = (0 :: int)"
proof -
  assume x: "0 \<le> x" "x < 64"
  have "x AND mask 6 = x" using x by (simp add: take_bit_eq_mask [symmetric] take_bit_int_eq_self)
  then have "x AND 0xC0 = x AND (mask 6 AND 0xC0)" by (metis and.assoc)
  also have "mask 6 AND 0xC0 = (0 :: int)" by (simp add: mask_eq_exp_minus_1)
  finally show ?thesis by simp
qed

lemma dns_skip_enc:
  assumes "labels_ok ls" "int (length pre + length (enc ls)) < len"
  shows "dns_skip (pre @ enc ls @ NUL # post) len (int (length pre)) = Some (int (length pre + length (enc ls) + 1))"
  using assms
proof (induction ls arbitrary: pre)
  case Nil
  then show ?case by (subst dns_skip.simps) (simp add: enc_def rd_def)
next
  case (Cons l ls)
  have l: "0 < length l" "length l \<le> 63" using Cons.prems(1) by (simp_all add: labels_ok_def)
  let ?m = "pre @ enc (l # ls) @ NUL # post"
  have "?m ! length pre = chr (int (length l))" by (simp add: enc_def nth_append)
  then have r: "rd ?m (int (length pre)) = Some (int (length l))" using l by (simp add: rd_def)
  have "dns_skip ?m len (int (length pre)) = dns_skip ?m len (int (length pre) + int (length l) + 1)"
    using r l Cons.prems(2) small_not_pointer [of "int (length l)"] by (subst dns_skip.simps) simp
  also have "\<dots> = Some (int (length (pre @ chr (int (length l)) # l) + length (enc ls) + 1))"
    using Cons.IH [of "pre @ chr (int (length l)) # l"] Cons.prems by (simp add: enc_def labels_ok_def add.assoc add.commute)
  finally show ?case by (simp add: enc_def)
qed

lemma dns_question_shape:
  assumes "dns_question pid name = Some q"
  shows "\<exists>hd' ls. q = hd' @ enc ls @ NUL # [chr 0, chr 1, chr 0, chr 1] \<and> length hd' = 12 \<and> labels_ok ls \<and> 12 + length (enc ls) \<le> 285"
proof -
  obtain q1 hd' where q1: "dns_labels name hd' = Some q1" "length hd' = 12" "q = q1 @ [chr 0, chr 0, chr 1, chr 0, chr 1]"
    using assms by (auto simp: dns_question_def Let_def split: bind_splits)
  then obtain ls where ls: "q1 = hd' @ enc ls" "labels_ok ls" "length q1 \<le> 285" using dns_labels_enc [OF q1(1)] by auto
  have "chr 0 = NUL" using ord_eq_0 [of "chr 0"] by simp
  then show ?thesis using q1(2,3) ls by (intro exI [of _ hd'] exI [of _ ls]) simp
qed

subsection \<open>Properties\<close>

text \<open>C22: every address survives the trip through its dotted text: \<open>inet_ntoa\<close> then \<open>inet_aton\<close> gives the
  address back, and \<open>inet_ntop\<close> produces the same text whenever the buffer has room for it and its
  terminator (16 bytes always suffice).\<close>

theorem inet_roundtrip:
  shows "inet_aton (inet_ntoa a) = Some a \<and> inet_pton 2 (inet_ntoa a) = (1, Some a) \<and> inet_addr (inet_ntoa a) = a
    \<and> inet_ntop 2 a 16 = Inr (inet_ntoa a)"
proof -
  have p: "parse_quad (fmt_ip (ntohl a)) = Some (ntohl a, [])" using parse_fmt_ip [of "[]" "ntohl a"] by simp
  have "inet_aton (inet_ntoa a) = Some a" by (simp add: inet_aton_def inet_ntoa_def p)
  moreover have "length (fmt_ip (ntohl a)) \<le> 15"
    unfolding fmt_ip_text using dec_facts(5) [of "ntohl a" 24] dec_facts(5) [of "ntohl a" 16] dec_facts(5) [of "ntohl a" 8] dec_facts(5) [of "ntohl a" 0]
    by simp
  ultimately show ?thesis by (simp add: inet_pton_def inet_addr_def inet_ntop_def inet_ntoa_def Let_def)
qed

text \<open>C23: whatever a name server sends, reading the reply touches no byte outside the bytes received: with
  \<open>rn\<close> bytes in the buffer the parser always ends with a verdict.\<close>

theorem dns_reply_in_bounds:
  assumes "rn \<le> int (length r)"
  shows "\<exists>v. dns_reply q r rn = Some v"
  using dns_reply_safe [OF assms] by auto

theorem dns_reply_in_bounds_witness:
  "\<exists>v. dns_reply [chr 1, chr 2] ([chr 1, chr 2, chr 0, chr 0, chr 0, chr 1, chr 0, chr 9] @ replicate 4 NUL @ [chr 0xC0]) 13 = Some v"
  by (rule dns_reply_in_bounds) simp

text \<open>C24: the question built for a name fits the 300-byte buffer, and a reply that repeats the question and
  carries one address record with a compressed name yields exactly that address.\<close>

theorem dns_answer_found:
  assumes "dns_question pid name = Some q" "length h = 8" "ord (h ! 0) = ord (q ! 0)" "ord (h ! 1) = ord (q ! 1)"
    "ord (h ! 3) AND 0x0F = 0" "h ! 6 = chr 0" "h ! 7 = chr 1" "length h' = 4" "length ttl = 6"
    "r = h @ h' @ drop 12 q @ [chr 0xC0, chr 12, chr 0, chr 1] @ ttl @ [chr 0, chr 4, a, b, c, d]"
  shows "length q \<le> 290 \<and> dns_reply q r (int (length r)) =
    Some (Found (of_int (((ord a * 256 + ord b) * 256 + ord c) * 256 + ord d)))"
proof -
  obtain hd' ls where ls: "q = hd' @ enc ls @ NUL # [chr 0, chr 1, chr 0, chr 1]" "length hd' = 12" "labels_ok ls" "12 + length (enc ls) \<le> 285"
    using dns_question_shape [OF assms(1)] by blast
  define ans where "ans = [chr 0xC0, chr 12, chr 0, chr 1] @ ttl @ [chr 0, chr 4, a, b, c, d]"
  define p where "p = 12 + length (enc ls) + 5"
  let ?rn = "int (length r)"
  have r: "r = (h @ h') @ enc ls @ NUL # ([chr 0, chr 1, chr 0, chr 1] @ ans)" using assms(10) ls(1,2) by (simp add: ans_def)
  have hlen: "length (h @ h') = 12" using assms(2,8) by simp
  have len: "length r = p + 16" using hlen assms(9) by (simp add: r p_def ans_def)
  have "rd r (int k) = Some (ord (h ! k))" if "k < 8" for k
    using that assms(2) len by (simp add: rd_def) (simp add: r nth_append)
  note hd = this [of 0] this [of 1] this [of 3] this [of 6] this [of 7]
  have body: "rd r (int p + int k) = Some (ord (ans ! k))" if "k < 16" for k
  proof -
    have "r = ((h @ h') @ enc ls @ NUL # [chr 0, chr 1, chr 0, chr 1]) @ ans" using r by simp
    moreover have "length ((h @ h') @ enc ls @ NUL # [chr 0, chr 1, chr 0, chr 1]) = p" using hlen by (simp add: p_def)
    ultimately have "r ! (p + k) = ans ! k" by (metis nth_append_length_plus)
    then show ?thesis using that len by (simp add: rd_def nat_add_distrib)
  qed
  note at_ans = body [of 0, simplified] body [of 2, simplified] body [of 3, simplified] body [of 10, simplified] body [of 11, simplified]
    body [of 12, simplified] body [of 13, simplified] body [of 14, simplified] body [of 15, simplified]
  have ans: "ans ! 0 = chr 0xC0" "ans ! 2 = chr 0" "ans ! 3 = chr 1" "ans ! 10 = chr 0" "ans ! 11 = chr 4"
      "ans ! 12 = a" "ans ! 13 = b" "ans ! 14 = c" "ans ! 15 = d"
    using assms(9) by (simp_all add: ans_def nth_append)
  have sk: "dns_skip r ?rn 12 = Some (int (12 + length (enc ls) + 1))"
    using dns_skip_enc [OF ls(3), of "h @ h'" ?rn "[chr 0, chr 1, chr 0, chr 1] @ ans"] len
    unfolding r [symmetric] hlen by (simp add: p_def)
  have p0: "0 < p" by (simp add: p_def)
  have i: "int (12 + length (enc ls) + 1) + 4 = int p" by (simp add: p_def)
  have "dns_skip r ?rn (int p) = Some (int p + 2)"
    using at_ans(1) ans(1) len by (subst dns_skip.simps) simp
  then have "dns_answers r ?rn (Suc 0) (int p) = Some (Found (of_int (((ord a * 256 + ord b) * 256 + ord c) * 256 + ord d)))"
    using at_ans ans len p0 by (simp add: rd16_def add.assoc)
  then have "dns_reply q r ?rn = Some (Found (of_int (((ord a * 256 + ord b) * 256 + ord c) * 256 + ord d)))"
    using hd assms(3-7) sk i len by (simp add: dns_reply_def rd16_def)
  moreover have "length q \<le> 290" using ls by simp
  ultimately show ?thesis by blast
qed

theorem dns_answer_found_witness:
  "\<exists>q r. dns_question 7 ''a.io'' = Some q \<and> length q \<le> 290 \<and> dns_reply q r (int (length r)) = Some (Found 167772161)"
proof -
  define h' where "h' = replicate 4 NUL"
  define q where "q = the (dns_question 7 ''a.io'')"
  have q: "dns_question 7 ''a.io'' = Some q"
    unfolding q_def by (simp add: dns_question_def Let_def dns_labels.simps)
  define h where "h = [q ! 0, q ! 1, chr 0, chr 0, chr 0, chr 1, chr 0, chr 1]"
  define r where "r = h @ h' @ drop 12 q @ [chr 0xC0, chr 12, chr 0, chr 1] @ replicate 6 NUL @ [chr 0, chr 4, chr 10, chr 0, chr 0, chr 1]"
  have "length q \<le> 290 \<and> dns_reply q r (int (length r)) = Some (Found (of_int (((ord (chr 10) * 256 + ord (chr 0)) * 256 + ord (chr 0)) * 256 + ord (chr 1))))"
    by (rule dns_answer_found [OF q _ _ _ _ _ _ _ _ r_def]) (simp_all add: h_def h'_def)
  with q show ?thesis by (intro exI [of _ q] exI [of _ r]) simp
qed

end
