(* ===== verification/RcSocket.thy ===== *)
theory RcSocket
  imports InetAddr RcPosixMeta CString
begin

unbundle bit_operations_syntax

text \<open>
  The socket calls of \<^verbatim>\<open>src/rc_socket.c\<close> over the descriptor table and the file server of \<^verbatim>\<open>/net\<close>.

  A socket's descriptor entry holds the conversation directory (path), its flags (\<open>NETF_TCP\<close>,
  \<open>NETF_HEADERS\<close>) and the bound port (offset). A call that waits for the peer may wait forever: such an
  operation is a \<open>partial_function\<close> whose result is then \<open>None\<close>. A received message is the list of the
  bytes stored in the caller's buffer; an address handed back is what \<open>fill_addr\<close> stores.
\<close>

abbreviation (input) NETF_TCP :: int where "NETF_TCP \<equiv> 1"
abbreviation (input) NETF_HEADERS :: int where "NETF_HEADERS \<equiv> 2"
abbreviation (input) NET_RETRY :: int where "NET_RETRY \<equiv> -2"
abbreviation (input) AF_INET :: int where "AF_INET \<equiv> 2"
abbreviation (input) SOCK_STREAM :: int where "SOCK_STREAM \<equiv> 1"
abbreviation (input) SOCK_DGRAM :: int where "SOCK_DGRAM \<equiv> 2"
abbreviation (input) ENFILE :: int where "ENFILE \<equiv> 23"
abbreviation (input) ENOTSOCK :: int where "ENOTSOCK \<equiv> 88"
abbreviation (input) EPROTONOSUPPORT :: int where "EPROTONOSUPPORT \<equiv> 93"
abbreviation (input) EAFNOSUPPORT :: int where "EAFNOSUPPORT \<equiv> 97"
abbreviation (input) EADDRINUSE :: int where "EADDRINUSE \<equiv> 98"
abbreviation (input) ECONNRESET :: int where "ECONNRESET \<equiv> 104"
abbreviation (input) ENOTCONN :: int where "ENOTCONN \<equiv> 107"
abbreviation (input) ETIMEDOUT :: int where "ETIMEDOUT \<equiv> 110"
abbreviation (input) ECONNREFUSED :: int where "ECONNREFUSED \<equiv> 111"

text \<open>\<^verbatim>\<open>struct sockaddr_in\<close>; port and address are in network order.\<close>

record sockaddr =
  sa_family :: int
  sin_port :: u16
  sin_addr :: u32

abbreviation (input) SIN_SIZE :: nat where "SIN_SIZE \<equiv> 16"

definition sleep_ticks :: "'w os \<Rightarrow> 'w px \<Rightarrow> nat \<Rightarrow> 'w px" where
  "sleep_ticks os px t = px \<lparr> world := snd (sys_await os (world px) 0 (int t)) \<rparr>"

definition ctl :: "'w os \<Rightarrow> 'w px \<Rightarrow> string \<Rightarrow> string \<Rightarrow> int \<times> 'w px" where
  "ctl os px dir cmd =
     (let (r, w) = rc_fs_write os (world px) (netpath dir ''ctl'') cmd (int (length cmd))
      in (if r < 0 then -1 else 0, px \<lparr> world := w \<rparr>))"

definition read_status :: "'w os \<Rightarrow> 'w px \<Rightarrow> string \<Rightarrow> nat \<Rightarrow> string option \<times> 'w px" where
  "read_status os px dir cap =
     (let ((n, bs), w) = rc_fs_read os (world px) (netpath dir ''status'') (int cap - 1)
      in (if n < 0 then None else Some (cstr_of (take (nat n) bs)), px \<lparr> world := w \<rparr>))"

text \<open>The directory of a socket's descriptor, or \<open>ENOTSOCK\<close>.\<close>

definition sock :: "'w px \<Rightarrow> int \<Rightarrow> string option \<times> 'w px" where
  "sock px fd =
     (case rc_fd_net_dir px fd of (None, px1) \<Rightarrow> (None, px1 \<lparr> errno := ENOTSOCK \<rparr>) | (Some d, px1) \<Rightarrow> (Some d, px1))"

definition net_flags :: "'w px \<Rightarrow> int \<Rightarrow> int" where
  "net_flags px fd = fflags (fdtab px ! nat fd)"

definition net_port :: "'w px \<Rightarrow> int \<Rightarrow> nat" where
  "net_port px fd = foff (fdtab px ! nat fd)"

definition set_net_flags :: "'w px \<Rightarrow> int \<Rightarrow> int \<Rightarrow> 'w px" where
  "set_net_flags px fd fl = px \<lparr> fdtab := (fdtab px)[nat fd := (fdtab px ! nat fd) \<lparr> fflags := fl \<rparr>] \<rparr>"

definition set_net_port :: "'w px \<Rightarrow> int \<Rightarrow> nat \<Rightarrow> 'w px" where
  "set_net_port px fd p = px \<lparr> fdtab := (fdtab px)[nat fd := (fdtab px ! nat fd) \<lparr> foff := p \<rparr>] \<rparr>"

definition num_of :: "int \<Rightarrow> byte list \<Rightarrow> int" where
  "num_of n bs = (case atoi (cstr_of (take (nat n) bs)) of None \<Rightarrow> 0 | Some v \<Rightarrow> v)"

definition socket :: "'w os \<Rightarrow> 'w px \<Rightarrow> int \<Rightarrow> int \<Rightarrow> int \<Rightarrow> int \<times> 'w px" where
  "socket os px domain type0 protocol =
     (if domain \<noteq> AF_INET then fail EAFNOSUPPORT px
      else let type = type0 AND 0xF in
           if type \<noteq> SOCK_STREAM \<and> type \<noteq> SOCK_DGRAM then fail EPROTONOSUPPORT px
           else let proto = (if type = SOCK_STREAM then ''tcp'' else ''udp'');
                    clone = sfmt ''/net/%s/clone'' [AStr (Some proto)];
                    ((n, bs), w) = rc_fs_read os (world px) clone 15;
                    px1 = px \<lparr> world := w \<rparr>
                in if n \<le> 0 then fail ENFILE px1
                   else let dir = sfmt ''/net/%s/%d'' [AStr (Some proto), AInt (num_of n bs)];
                            (fd, px2) = rc_fd_new_net px1 dir (if type = SOCK_STREAM then NETF_TCP else 0)
                        in if fd < 0 then (-1, snd (ctl os px2 dir ''hangup'')) else (fd, px2))"

definition bind_c :: "'w os \<Rightarrow> 'w px \<Rightarrow> int \<Rightarrow> sockaddr \<Rightarrow> nat \<Rightarrow> int \<times> 'w px" where
  "bind_c os px fd addr len =
     (case sock px fd of (None, px1) \<Rightarrow> (-1, px1)
      | (Some dir, px1) \<Rightarrow>
          if len < SIN_SIZE \<or> sa_family addr \<noteq> AF_INET then fail EINVAL px1
          else let p = unat (ntohs (sin_port addr)); px2 = set_net_port px1 fd p in
               if p = 0 then (0, px2)
               else let (r, px3) = ctl os px2 dir (sfmt ''bind %u'' [AInt (int p)])
                    in if r < 0 then fail EADDRINUSE px3 else (0, px3))"

definition listen :: "'w os \<Rightarrow> 'w px \<Rightarrow> int \<Rightarrow> int \<Rightarrow> int \<times> 'w px" where
  "listen os px fd backlog =
     (case sock px fd of (None, px1) \<Rightarrow> (-1, px1)
      | (Some dir, px1) \<Rightarrow>
          if net_port px1 fd = 0 then fail EADDRINUSE px1
          else let (r, px2) = ctl os px1 dir (sfmt ''announce %lu'' [ALong (int (net_port px1 fd))])
               in if r < 0 then fail EADDRINUSE px2 else (0, px2))"

text \<open>What is stored for the caller: the address, how many of its bytes, and the new length. The
  argument is the length the caller passed, \<open>None\<close> for null pointers.\<close>

definition fill_addr :: "nat option \<Rightarrow> u32 \<Rightarrow> nat \<Rightarrow> (sockaddr \<times> nat \<times> nat) option" where
  "fill_addr len ip port =
     (case len of None \<Rightarrow> None
      | Some l \<Rightarrow> Some (\<lparr> sa_family = AF_INET, sin_port = htons (of_nat port), sin_addr = htonl ip \<rparr>,
                       if l < SIN_SIZE then l else SIN_SIZE, SIN_SIZE))"

definition read_addr :: "'w os \<Rightarrow> 'w px \<Rightarrow> string \<Rightarrow> string \<Rightarrow> (u32 \<times> nat) option \<times> 'w px" where
  "read_addr os px dir file =
     (let ((n, bs), w) = rc_fs_read os (world px) (netpath dir file) 47
      in (if n \<le> 0 then None else parse_hostport (cstr_of (take (nat n) bs)), px \<lparr> world := w \<rparr>))"

text \<open>\<^verbatim>\<open>do { n = __rc_fs_read(...); } while (n == NET_RETRY);\<close>\<close>

partial_function (option) wait_read :: "'w os \<Rightarrow> string \<Rightarrow> int \<Rightarrow> 'w \<Rightarrow> ((int \<times> byte list) \<times> 'w) option" where
  "wait_read os p len w =
     (if fst (fst (rc_fs_read os w p len)) = NET_RETRY then wait_read os p len (snd (rc_fs_read os w p len))
      else Some (rc_fs_read os w p len))"

definition accept :: "'w os \<Rightarrow> 'w px \<Rightarrow> int \<Rightarrow> nat option \<Rightarrow> ((int \<times> (sockaddr \<times> nat \<times> nat) option) \<times> 'w px) option" where
  "accept os px fd len =
     (case sock px fd of (None, px1) \<Rightarrow> Some ((-1, None), px1)
      | (Some dir, px1) \<Rightarrow>
          (case wait_read os (netpath dir ''listen'') 15 (world px1) of None \<Rightarrow> None
           | Some ((n, bs), w) \<Rightarrow>
               let px2 = px1 \<lparr> world := w \<rparr> in
               if n \<le> 0 then Some ((-1, None), px2 \<lparr> errno := EINVAL \<rparr>)
               else let ndir = sfmt ''/net/tcp/%d'' [AInt (num_of n bs)]; (nfd, px3) = rc_fd_new_net px2 ndir NETF_TCP in
                    if nfd < 0 then Some ((-1, None), snd (ctl os px3 ndir ''hangup''))
                    else let (a, px4) = read_addr os px3 ndir ''remote'' in
                         Some ((nfd, case a of None \<Rightarrow> None | Some (ip, rport) \<Rightarrow> fill_addr len ip rport), px4)))"

definition connect_cmd :: "sockaddr \<Rightarrow> string" where
  "connect_cmd sin = ''connect '' @ fmt_ip (ntohl (sin_addr sin)) @ sfmt ''!%u'' [AInt (int (unat (ntohs (sin_port sin))))]"

text \<open>The wait for \<^verbatim>\<open>Established\<close>; the first argument is how many rounds are left.\<close>

fun connect_loop :: "nat \<Rightarrow> 'w os \<Rightarrow> 'w px \<Rightarrow> string \<Rightarrow> nat \<Rightarrow> int \<times> 'w px" where
  "connect_loop 0 os px dir hz = fail ETIMEDOUT px"
| "connect_loop (Suc k) os px dir hz =
     (case read_status os px dir 96 of (None, px1) \<Rightarrow> fail ETIMEDOUT px1
      | (Some st, px1) \<Rightarrow>
          let s = status_state st in
          if at s 0 = CHR ''E'' then (0, px1)
          else if at s 0 = CHR ''R'' \<or> (at s 0 = CHR ''C'' \<and> at s 1 = CHR ''l'') then fail ECONNREFUSED px1
          else connect_loop k os (sleep_ticks os px1 (hz div 100)) dir hz)"

definition connect :: "'w os \<Rightarrow> 'w px \<Rightarrow> int \<Rightarrow> sockaddr \<Rightarrow> nat \<Rightarrow> int \<times> 'w px" where
  "connect os px fd addr len =
     (case sock px fd of (None, px1) \<Rightarrow> (-1, px1)
      | (Some dir, px1) \<Rightarrow>
          if len < SIN_SIZE \<or> sa_family addr \<noteq> AF_INET then fail EAFNOSUPPORT px1
          else let (r, px2) = ctl os px1 dir (connect_cmd addr) in
               if r < 0 then fail ECONNREFUSED px2
               else if \<not> has (net_flags px2 fd) NETF_TCP then (0, px2)
               else connect_loop 1000 os px2 dir (sys_timebase os (world px2)))"

text \<open>The result, the bytes for the caller and the peer header (empty when none was stored).\<close>

definition net_recv :: "'w os \<Rightarrow> 'w px \<Rightarrow> string \<Rightarrow> int \<Rightarrow> nat \<Rightarrow> ((int \<times> byte list \<times> byte list) \<times> 'w px) option" where
  "net_recv os px dir flags n =
     (let want0 = n + (if has flags NETF_HEADERS then 6 else 0);
          want = (if want0 > RC_FS_MSG_MAX - 8 then RC_FS_MSG_MAX - 8 else want0)
      in case wait_read os (netpath dir ''data'') (int want) (world px) of None \<Rightarrow> None
         | Some ((r, bs), w) \<Rightarrow>
             let px1 = px \<lparr> world := w \<rparr> in
             Some (if r < 0 then ((-1, [], []), px1 \<lparr> errno := ECONNRESET \<rparr>)
                   else if has flags NETF_HEADERS then
                     (if r < 6 then ((0, [], []), px1)
                      else ((r - 6, take (nat (r - 6)) (drop 6 bs), take 6 bs), px1))
                   else ((r, take (nat r) bs, []), px1)))"

partial_function (option) send_loop ::
    "'w os \<Rightarrow> string \<Rightarrow> int \<Rightarrow> byte list \<Rightarrow> nat \<Rightarrow> nat \<Rightarrow> 'w px \<Rightarrow> (int \<times> 'w px) option" where
  "send_loop os p flags buf hz done px =
     (if done < length buf
      then (let left = length buf - done;
                chunk = (if left > RC_FS_MSG_MAX - 120 then RC_FS_MSG_MAX - 120 else left);
                (k, w) = rc_fs_write os (world px) p (drop done buf) (int chunk);
                px1 = px \<lparr> world := w \<rparr>
            in if k < 0 then Some (if done > 0 then (int done, px1)
                                   else (-1, px1 \<lparr> errno := (if has flags NETF_TCP then ECONNRESET else EINVAL) \<rparr>))
               else if k = 0 then send_loop os p flags buf hz done (sleep_ticks os px1 (hz div 200))
               else if \<not> has flags NETF_TCP then Some (int (done + nat k), px1)
               else send_loop os p flags buf hz (done + nat k) px1)
      else Some (int done, px))"

definition net_send :: "'w os \<Rightarrow> 'w px \<Rightarrow> string \<Rightarrow> int \<Rightarrow> byte list \<Rightarrow> (int \<times> 'w px) option" where
  "net_send os px dir flags buf =
     send_loop os (netpath dir ''data'') flags buf (sys_timebase os (world px)) 0 px"

definition rc_net_read :: "'w os \<Rightarrow> 'w px \<Rightarrow> int \<Rightarrow> nat \<Rightarrow> ((int \<times> byte list) \<times> 'w px) option" where
  "rc_net_read os px fd n =
     (case sock px fd of (None, px1) \<Rightarrow> Some ((-1, []), px1)
      | (Some dir, px1) \<Rightarrow> map_option (\<lambda>((r, bs, hdr), px2). ((r, bs), px2)) (net_recv os px1 dir (net_flags px1 fd) n))"

definition rc_net_write :: "'w os \<Rightarrow> 'w px \<Rightarrow> int \<Rightarrow> byte list \<Rightarrow> (int \<times> 'w px) option" where
  "rc_net_write os px fd buf =
     (case sock px fd of (None, px1) \<Rightarrow> Some (-1, px1) | (Some dir, px1) \<Rightarrow> net_send os px1 dir (net_flags px1 fd) buf)"

definition rc_net_close :: "'w os \<Rightarrow> 'w px \<Rightarrow> int \<Rightarrow> 'w px" where
  "rc_net_close os px fd =
     (case rc_fd_net_dir px fd of (None, px1) \<Rightarrow> px1 | (Some dir, px1) \<Rightarrow> snd (ctl os px1 dir ''hangup''))"

text \<open>The hooks the descriptor layer calls. The record is total: a call that waits forever, which has no
  result, is shown as an error there.\<close>

definition rc_net :: "'w os \<Rightarrow> 'w netops" where
  "rc_net os = \<lparr> net_read = (\<lambda>px fd n. case rc_net_read os px (int fd) n of None \<Rightarrow> ((-1, []), px) | Some x \<Rightarrow> x),
     net_write = (\<lambda>px fd bs. case rc_net_write os px (int fd) bs of None \<Rightarrow> (-1, px) | Some x \<Rightarrow> x),
     net_close = (\<lambda>px fd. rc_net_close os px (int fd)) \<rparr>"

definition send_c :: "'w os \<Rightarrow> 'w px \<Rightarrow> int \<Rightarrow> byte list \<Rightarrow> int \<Rightarrow> (int \<times> 'w px) option" where
  "send_c os px fd buf flags = rc_net_write os px fd buf"

definition recv_c :: "'w os \<Rightarrow> 'w px \<Rightarrow> int \<Rightarrow> nat \<Rightarrow> int \<Rightarrow> ((int \<times> byte list) \<times> 'w px) option" where
  "recv_c os px fd n flags = rc_net_read os px fd n"

definition ensure_headers :: "'w os \<Rightarrow> 'w px \<Rightarrow> int \<Rightarrow> string \<Rightarrow> int \<times> 'w px" where
  "ensure_headers os px fd dir =
     (if has (net_flags px fd) NETF_HEADERS then (0, px)
      else let (r, px1) = ctl os px dir ''headers'' in
           if r < 0 then (-1, px1) else (0, set_net_flags px1 fd (net_flags px1 fd OR NETF_HEADERS)))"

text \<open>The bytes of address and port as they stand in memory (little-endian machine, network order values).\<close>

definition peer_header :: "sockaddr \<Rightarrow> byte list" where
  "peer_header sin = le_bytes 4 (unat (sin_addr sin)) @ le_bytes 2 (unat (sin_port sin))"

definition sendto :: "'w os \<Rightarrow> 'w px \<Rightarrow> int \<Rightarrow> byte list \<Rightarrow> sockaddr option \<Rightarrow> nat \<Rightarrow> (int \<times> 'w px) option" where
  "sendto os px fd buf to tolen =
     (case sock px fd of (None, px1) \<Rightarrow> Some (-1, px1)
      | (Some dir, px1) \<Rightarrow>
          if to = None \<or> has (net_flags px1 fd) NETF_TCP then net_send os px1 dir (net_flags px1 fd) buf
          else if tolen < SIN_SIZE then Some (fail EINVAL px1)
          else let (r, px2) = ensure_headers os px1 fd dir in
               if r < 0 then Some (fail EINVAL px2)
               else let data = take 1474 buf in
                    map_option (\<lambda>(r, px3). (if r < 0 then -1 else int (length data), px3))
                      (net_send os px2 dir (net_flags px2 fd) (peer_header (the to) @ data)))"

text \<open>The address in a peer header. With fewer than six bytes received \<^verbatim>\<open>hdr\<close> is not written and what the
  code reads is an uninitialised array.\<close>

definition header_addr :: "byte list \<Rightarrow> u32 \<times> nat" where
  "header_addr hdr =
     (push_bit 24 (of_int (ord (hdr ! 0))) OR push_bit 16 (of_int (ord (hdr ! 1))) OR push_bit 8 (of_int (ord (hdr ! 2))) OR of_int (ord (hdr ! 3)),
      nat (ord (hdr ! 4) * 256 + ord (hdr ! 5)))"

definition recvfrom :: "'w os \<Rightarrow> 'w px \<Rightarrow> int \<Rightarrow> nat \<Rightarrow> nat option \<Rightarrow> ((int \<times> byte list \<times> (sockaddr \<times> nat \<times> nat) option) \<times> 'w px) option" where
  "recvfrom os px fd n fromlen =
     (case sock px fd of (None, px1) \<Rightarrow> Some ((-1, [], None), px1)
      | (Some dir, px1) \<Rightarrow>
          if has (net_flags px1 fd) NETF_TCP
          then map_option (\<lambda>((r, bs, hdr), px2). ((r, bs, None), px2)) (net_recv os px1 dir (net_flags px1 fd) n)
          else let (e, px2) = ensure_headers os px1 fd dir in
               if e < 0 then Some ((-1, [], None), px2 \<lparr> errno := EINVAL \<rparr>)
               else map_option (\<lambda>((r, bs, hdr0), px3).
                      (let hdr = (if hdr0 = [] then os_uninit os (world px2) 6 else hdr0); (ip, port) = header_addr hdr in
                       ((r, bs, if r \<ge> 0 then fill_addr fromlen ip port else None), px3)))
                    (net_recv os px2 dir (net_flags px2 fd) n))"

definition shutdown :: "'w os \<Rightarrow> 'w px \<Rightarrow> int \<Rightarrow> int \<Rightarrow> int \<times> 'w px" where
  "shutdown os px fd how =
     (case sock px fd of (None, px1) \<Rightarrow> (-1, px1)
      | (Some dir, px1) \<Rightarrow>
          if (how = 1 \<or> how = 2) \<and> has (net_flags px1 fd) NETF_TCP then (0, snd (ctl os px1 dir ''close'')) else (0, px1))"

definition setsockopt :: "'w px \<Rightarrow> int \<Rightarrow> int \<times> 'w px" where
  "setsockopt px fd = (case sock px fd of (None, px1) \<Rightarrow> (-1, px1) | (Some d, px1) \<Rightarrow> (0, px1))"

text \<open>The second component is the \<^verbatim>\<open>int\<close> and length stored, given the caller's length (\<open>None\<close> for null
  pointers).\<close>

definition getsockopt :: "'w px \<Rightarrow> int \<Rightarrow> nat option \<Rightarrow> (int \<times> (int \<times> nat) option) \<times> 'w px" where
  "getsockopt px fd len =
     (case sock px fd of (None, px1) \<Rightarrow> ((-1, None), px1)
      | (Some d, px1) \<Rightarrow> ((0, case len of None \<Rightarrow> None | Some l \<Rightarrow> if l \<ge> 4 then Some (0, 4) else None), px1))"

definition getsockname :: "'w os \<Rightarrow> 'w px \<Rightarrow> int \<Rightarrow> nat option \<Rightarrow> (int \<times> (sockaddr \<times> nat \<times> nat) option) \<times> 'w px" where
  "getsockname os px fd len =
     (case sock px fd of (None, px1) \<Rightarrow> ((-1, None), px1)
      | (Some dir, px1) \<Rightarrow>
          (case read_addr os px1 dir ''local'' of (None, px2) \<Rightarrow> ((-1, None), px2 \<lparr> errno := EINVAL \<rparr>)
           | (Some (ip, p), px2) \<Rightarrow> ((0, fill_addr len ip p), px2)))"

definition getpeername :: "'w os \<Rightarrow> 'w px \<Rightarrow> int \<Rightarrow> nat option \<Rightarrow> (int \<times> (sockaddr \<times> nat \<times> nat) option) \<times> 'w px" where
  "getpeername os px fd len =
     (case sock px fd of (None, px1) \<Rightarrow> ((-1, None), px1)
      | (Some dir, px1) \<Rightarrow>
          (case read_addr os px1 dir ''remote'' of (None, px2) \<Rightarrow> ((-1, None), px2 \<lparr> errno := ENOTCONN \<rparr>)
           | (Some (ip, p), px2) \<Rightarrow>
               if ip = 0 then ((-1, None), px2 \<lparr> errno := ENOTCONN \<rparr>) else ((0, fill_addr len ip p), px2)))"

subsection \<open>Names\<close>

text \<open>\<open>strstr\<close> on the text itself: the rest of it from the first occurrence on.\<close>

fun find_sub :: "string \<Rightarrow> string \<Rightarrow> string option" where
  "find_sub [] needle = (if needle = [] then Some [] else None)"
| "find_sub (c # cs) needle = (if take (length needle) (c # cs) = needle then Some (c # cs) else find_sub cs needle)"

text \<open>The scan over the interfaces; \<open>k\<close> are left, \<open>i\<close> is the next.\<close>

fun dns_server_loop :: "nat \<Rightarrow> nat \<Rightarrow> 'w os \<Rightarrow> 'w px \<Rightarrow> u32 \<times> 'w px" where
  "dns_server_loop 0 i os px = (0, px)"
| "dns_server_loop (Suc k) i os px =
     (let ((n, bs), w) = rc_fs_read os (world px) (sfmt ''/net/ipifc/%d/status'' [AInt (int i)]) 255; px1 = px \<lparr> world := w \<rparr> in
      if n \<le> 0 then dns_server_loop k (i + 1) os px1
      else case find_sub (cstr_of (take (nat n) bs)) '' dns '' of
             None \<Rightarrow> dns_server_loop k (i + 1) os px1
           | Some d \<Rightarrow>
               (case parse_quad (drop 5 d) of
                  Some (ip, r) \<Rightarrow> if ip \<noteq> 0 then (ip, px1) else dns_server_loop k (i + 1) os px1
                | None \<Rightarrow> dns_server_loop k (i + 1) os px1))"

definition dns_server :: "'w os \<Rightarrow> 'w px \<Rightarrow> u32 \<times> 'w px" where
  "dns_server os px = dns_server_loop 4 0 os px"

text \<open>The two attempts. The receive buffer is an array of 1024 bytes that the read fills from the front.\<close>

fun dns_attempts :: "nat \<Rightarrow> 'w os \<Rightarrow> 'w px \<Rightarrow> string \<Rightarrow> byte list \<Rightarrow> (u32 option \<times> 'w px) option" where
  "dns_attempts 0 os px p q = Some (None, px)"
| "dns_attempts (Suc k) os px p q =
     (let (r0, w0) = rc_fs_write os (world px) p q (int (length q));
          ((rn, bs), w) = rc_fs_read os w0 p 1024;
          r = take 1024 (bs @ drop (length bs) (os_uninit os w0 1024));
          px1 = px \<lparr> world := w \<rparr>
      in case dns_reply q r rn of None \<Rightarrow> None
         | Some (Found ip) \<Rightarrow> Some (Some ip, px1)
         | Some GiveUp \<Rightarrow> Some (None, px1)
         | Some Again \<Rightarrow> dns_attempts k os px1 p q)"

definition dns_query :: "'w os \<Rightarrow> 'w px \<Rightarrow> string \<Rightarrow> (u32 option \<times> 'w px) option" where
  "dns_query os px name =
     (let (server, px1) = dns_server os px in
      if server = 0 then Some (None, px1)
      else case dns_question (sys_getpid os (world px1)) name of
             None \<Rightarrow> Some (None, px1)
           | Some q \<Rightarrow>
               (let (fd, px2) = socket os px1 AF_INET SOCK_DGRAM 0 in
                if fd < 0 then Some (None, px2)
                else let sa = \<lparr> sa_family = AF_INET, sin_port = htons 53, sin_addr = htonl server \<rparr>;
                         (c, px3) = connect os px2 fd sa SIN_SIZE
                     in if c \<noteq> 0 then Some (None, snd (close_c (rc_net os) px3 fd))
                        else let (d, px4) = rc_fd_net_dir px3 fd in
                             (case dns_attempts 2 os px4 (netpath (case d of None \<Rightarrow> [] | Some d \<Rightarrow> d) ''data'') q of None \<Rightarrow> None
                              | Some (a, px5) \<Rightarrow> Some (a, snd (close_c (rc_net os) px5 fd)))))"

record addrinfo =
  ai_family :: int
  ai_socktype :: int
  ai_protocol :: int
  ai_addr :: sockaddr

abbreviation (input) EAI_NONAME :: int where "EAI_NONAME \<equiv> -2"
abbreviation (input) EAI_FAMILY :: int where "EAI_FAMILY \<equiv> -6"
abbreviation (input) EAI_SERVICE :: int where "EAI_SERVICE \<equiv> -8"
abbreviation (input) EAI_MEMORY :: int where "EAI_MEMORY \<equiv> -10"

text \<open>The port of a service name or number; \<open>None\<close> is \<open>EAI_SERVICE\<close>.\<close>

definition service_port :: "string option \<Rightarrow> nat option" where
  "service_port service =
     (case service of None \<Rightarrow> Some 0
      | Some s \<Rightarrow>
          let (v, e) = (case strtol s 10 of None \<Rightarrow> (-1, s) | Some x \<Rightarrow> x) in
          if e \<noteq> [] \<or> v < 0 \<or> v > 65535
          then (if s = ''http'' then Some 80 else if s = ''https'' then Some 443
                else if s = ''domain'' then Some 53 else if s = ''telnet'' then Some 23 else None)
          else Some (nat v))"

text \<open>The hints are family, socket type and flags.\<close>

definition getaddrinfo ::
    "'w os \<Rightarrow> (nat \<Rightarrow> bool) \<Rightarrow> 'w px \<Rightarrow> string option \<Rightarrow> string option \<Rightarrow> (int \<times> int \<times> int) option \<Rightarrow> ((int \<times> addrinfo option) \<times> 'w px) option" where
  "getaddrinfo os mal px node service hints =
     (let (family, socktype, flags) = (case hints of None \<Rightarrow> (0, 0, 0) | Some h \<Rightarrow> h);
          finish = (\<lambda>ip px1. if \<not> mal 64 then ((EAI_MEMORY, None), px1)
             else let st = (if socktype \<noteq> 0 then socktype else SOCK_STREAM) in
                  ((0, Some \<lparr> ai_family = AF_INET, ai_socktype = st, ai_protocol = (if st = SOCK_DGRAM then 17 else 6),
                      ai_addr = \<lparr> sa_family = AF_INET, sin_port = htons (of_nat (the (service_port service))), sin_addr = htonl ip \<rparr> \<rparr>), px1))
      in if family \<noteq> 0 \<and> family \<noteq> AF_INET then Some ((EAI_FAMILY, None), px)
         else if service_port service = None then Some ((EAI_SERVICE, None), px)
         else case node of None \<Rightarrow> Some (finish (if has flags 1 then 0 else 0x7f000001) px)
              | Some name \<Rightarrow>
                  (case inet_aton name of Some a \<Rightarrow> Some (finish (ntohl a) px)
                   | None \<Rightarrow>
                       if name = ''localhost'' then Some (finish 0x7f000001 px)
                       else if has flags 4 then Some ((EAI_NONAME, None), px)
                       else (case dns_query os px name of None \<Rightarrow> None
                             | Some (None, px1) \<Rightarrow> Some ((EAI_NONAME, None), px1)
                             | Some (Some ip, px1) \<Rightarrow> Some (finish ip px1))))"

definition gai_strerror :: "int \<Rightarrow> string" where
  "gai_strerror err =
     (if err = EAI_NONAME then ''name does not resolve''
      else if err = EAI_FAMILY then ''address family not supported''
      else if err = EAI_SERVICE then ''unknown service''
      else if err = EAI_MEMORY then ''out of memory''
      else ''lookup failed'')"

text \<open>The name and the address (network order) of the one entry.\<close>

definition gethostbyname :: "'w os \<Rightarrow> (nat \<Rightarrow> bool) \<Rightarrow> 'w px \<Rightarrow> string \<Rightarrow> ((string \<times> u32) option \<times> 'w px) option" where
  "gethostbyname os mal px name =
     (case getaddrinfo os mal px (Some name) None None of None \<Rightarrow> None
      | Some ((r, ai), px1) \<Rightarrow>
          Some (if r \<noteq> 0 then None else map_option (\<lambda>a. (take 255 name, sin_addr (ai_addr a))) ai, px1))"

subsection \<open>The socket layer keeps the descriptor table\<close>

lemma px_ok_world [simp]: "px_ok (px \<lparr> world := w \<rparr>) \<longleftrightarrow> px_ok px" "px_ok (px \<lparr> errno := e \<rparr>) \<longleftrightarrow> px_ok px"
  by (simp_all add: px_ok_def)

lemma px_ok_ctl [inv_intros]: "px_ok px \<Longrightarrow> px_ok (snd (ctl os px d c))"
  by (simp add: ctl_def split: prod.split)

lemma px_ok_sleep [inv_intros]: "px_ok px \<Longrightarrow> px_ok (sleep_ticks os px t)"
  by (simp add: sleep_ticks_def)

lemma px_ok_netdir: "px_ok px \<Longrightarrow> px_ok (snd (rc_fd_net_dir px fd))"
  using px_ok_init [of px] by (simp add: rc_fd_net_dir_def Let_def)

lemma px_ok_sock: "px_ok px \<Longrightarrow> sock px fd = (d, px1) \<Longrightarrow> px_ok px1"
  using px_ok_netdir [of px fd] by (auto simp: sock_def split: prod.splits option.splits)

lemma px_ok_recv: "px_ok px \<Longrightarrow> net_recv os px d fl n = Some (x, px1) \<Longrightarrow> px_ok px1"
  by (auto simp: net_recv_def Let_def split: option.splits if_splits)

lemma px_ok_send_loop:
  assumes "send_loop os p fl buf hz done px = Some y"
  shows "px_ok px \<longrightarrow> px_ok (snd y)"
  using assms
proof (rule send_loop.raw_induct [rotated])
  fix loop os p fl buf hz dn and px :: "'a px" and y :: "int \<times> 'a px"
  assume IH: "\<And>os p fl buf hz dn px y. loop os p fl buf hz dn px = Some y \<Longrightarrow> px_ok px \<longrightarrow> px_ok (snd y)"
    and run: "(if dn < length buf
      then let left = length buf - dn; chunk = if left > RC_FS_MSG_MAX - 120 then RC_FS_MSG_MAX - 120 else left;
               (k, w) = rc_fs_write os (world px) p (drop dn buf) (int chunk); px1 = px \<lparr> world := w \<rparr>
           in if k < 0 then Some (if dn > 0 then (int dn, px1)
                 else (-1, px1 \<lparr> errno := if has fl NETF_TCP then ECONNRESET else EINVAL \<rparr>))
              else if k = 0 then loop os p fl buf hz dn (sleep_ticks os px1 (hz div 200))
              else if \<not> has fl NETF_TCP then Some (int (dn + nat k), px1)
              else loop os p fl buf hz (dn + nat k) px1
      else Some (int dn, px)) = Some y"
  show "px_ok px \<longrightarrow> px_ok (snd y)"
  proof
    assume ok: "px_ok px"
    show "px_ok (snd y)"
    proof (cases "dn < length buf")
      case False
      with run ok show ?thesis by auto
    next
      case True
      define chunk where "chunk = (if length buf - dn > RC_FS_MSG_MAX - 120 then RC_FS_MSG_MAX - 120 else length buf - dn)"
      obtain k w where w: "rc_fs_write os (world px) p (drop dn buf) (int chunk) = (k, w)" by force
      let ?px1 = "px \<lparr> world := w \<rparr>"
      have ok1: "px_ok ?px1" "px_ok (sleep_ticks os ?px1 (hz div 200))" using ok by (simp_all add: px_ok_sleep)
      note r = run [unfolded Let_def, folded chunk_def, unfolded w prod.case]
      consider "k < 0" | "k = 0" | "0 < k" "\<not> has fl NETF_TCP" | "0 < k" "has fl NETF_TCP" by fastforce
      then show ?thesis
      proof cases
        case 2
        then have "loop os p fl buf hz dn (sleep_ticks os ?px1 (hz div 200)) = Some y" using r True by simp
        with IH ok1(2) show ?thesis by blast
      next
        case 4
        then have "loop os p fl buf hz (dn + nat k) ?px1 = Some y" using r True by simp
        with IH ok1(1) show ?thesis by blast
      qed (use r True ok1(1) in auto)
    qed
  qed
qed

lemma rc_net_ok: "net_ok (rc_net os)"
proof -
  have rd: "px_ok (snd (case rc_net_read os px fd n of None \<Rightarrow> ((-1, []), px) | Some x \<Rightarrow> x))" if ok: "px_ok px" for px fd n
  proof (cases "rc_net_read os px fd n")
    case (Some x)
    then show ?thesis
      using px_ok_sock [OF ok, of fd] px_ok_recv
      by (auto simp: rc_net_read_def split: prod.splits option.splits) blast+
  qed (simp add: ok)
  have wr: "px_ok (snd (case rc_net_write os px fd bs of None \<Rightarrow> (-1, px) | Some x \<Rightarrow> x))" if ok: "px_ok px" for px fd bs
  proof (cases "rc_net_write os px fd bs")
    case (Some x)
    obtain d px1 where s: "sock px fd = (d, px1)" by (cases "sock px fd")
    have ok1: "px_ok px1" using px_ok_sock [OF ok s] .
    show ?thesis
    proof (cases d)
      case None
      with Some s ok1 show ?thesis by (auto simp: rc_net_write_def)
    next
      case (Some dir)
      with \<open>rc_net_write os px fd bs = Some x\<close> s have "send_loop os (netpath dir ''data'') (net_flags px1 fd) bs (sys_timebase os (world px1)) 0 px1 = Some x"
        by (simp add: rc_net_write_def net_send_def)
      from px_ok_send_loop [OF this] ok1 \<open>rc_net_write os px fd bs = Some x\<close> show ?thesis by simp
    qed
  qed (simp add: ok)
  have cl: "px_ok (rc_net_close os px fd)" if "px_ok px" for px fd
    using px_ok_netdir [OF that, of fd] by (auto simp: rc_net_close_def px_ok_ctl split: prod.splits option.splits)
  show ?thesis unfolding net_ok_def rc_net_def by (simp add: rd wr cl)
qed

text \<open>The interface between the descriptor layer and the sockets: the hooks keep the table.\<close>

locale net_hooks =
  fixes os :: "'w os" and net :: "'w netops"
  assumes hooks_keep: "net_ok net"
begin

lemma table_kept: "px_reach os net st \<Longrightarrow> px_ok st"
  using px_reach_ok hooks_keep by blast

lemma close_kept: "px_ok st \<Longrightarrow> px_ok (snd (close_c net st fd))"
  by (rule px_ok_close [OF hooks_keep])

end

interpretation rc_hooks: net_hooks os "rc_net os" for os
  by unfold_locales (rule rc_net_ok)

text \<open>So the descriptor table stays well formed in every state reached with the real socket layer below it, and
  closing a socket there keeps it.\<close>

lemma socket_table_kept:
  assumes "px_reach os (rc_net os) st"
  shows "px_ok st" "px_ok (snd (close_c (rc_net os) st fd))"
  using rc_hooks.table_kept [OF assms] by (auto intro: rc_hooks.close_kept)

subsection \<open>Datagram headers and the connect command\<close>

lemma le_bytes_nth: "i < k \<Longrightarrow> ord (le_bytes k v ! i) = int ((v div 256 ^ i) mod 256)"
proof (induction k arbitrary: v i)
  case (Suc k)
  show ?case
  proof (cases i)
    case 0
    have "ord (char_of v) = int (of_char (char_of v))" by (simp only: ord_def of_nat_of_char)
    with 0 show ?thesis by simp
  next
    case (Suc j)
    with Suc.IH [of j "v div 256"] Suc.prems show ?thesis by (simp add: div_mult2_eq)
  qed
qed simp

lemma word_byte: "of_nat ((unat a div 256 ^ i) mod 256) = (drop_bit (8 * i) a AND 0xff :: u32)"
proof -
  have "(256 :: nat) ^ i = 2 ^ (8 * i)" by (simp add: power_mult)
  then have "(unat a div 256 ^ i) mod 256 = take_bit 8 (drop_bit (8 * i) (unat a))"
    by (simp add: drop_bit_eq_div take_bit_eq_mod)
  moreover have "drop_bit (8 * i) a AND 0xff = take_bit 8 (drop_bit (8 * i) a)" unfolding mask_ff by (simp add: take_bit_eq_mask)
  moreover have "take_bit 32 (unat a) = unat a" using unsigned_less [of a] by (simp add: take_bit_nat_eq_self_iff)
  ultimately have "unat (drop_bit (8 * i) a AND 0xff :: u32) = (unat a div 256 ^ i) mod 256"
    by (simp add: unsigned_take_bit_eq unsigned_drop_bit_eq)
  then have "of_nat ((unat a div 256 ^ i) mod 256) = (of_nat (unat (drop_bit (8 * i) a AND 0xff :: u32)) :: u32)" by simp
  then show ?thesis by simp
qed

lemma header_word: "push_bit 24 (a AND 0xff) OR push_bit 16 (drop_bit 8 a AND 0xff) OR push_bit 8 (drop_bit 16 a AND 0xff) OR (drop_bit 24 a AND 0xff) = ntohl (a :: u32)"
proof (rule bit_word_eqI)
  fix n assume "n < LENGTH(32)"
  then consider "n < 8" | "8 \<le> n" "n < 16" | "16 \<le> n" "n < 24" | "24 \<le> n" "n < 32" by fastforce
  then show "bit (push_bit 24 (a AND 0xff) OR push_bit 16 (drop_bit 8 a AND 0xff) OR push_bit 8 (drop_bit 16 a AND 0xff) OR (drop_bit 24 a AND 0xff)) n = bit (ntohl a) n"
    unfolding mask_ff ntohl_def bit_htonl by cases (auto simp: bit_simps add.commute dest: bit_imp_le_length)
qed

lemma mask_ff16: "(0xff :: u16) = mask 8"
  by (simp add: mask_eq_exp_minus_1)

lemma port_word: "(of_nat ((unat p mod 256) * 256 + unat p div 256) :: u16) = htons p"
proof -
  have "unat p mod 256 = unat (take_bit 8 p)" unfolding unsigned_take_bit_eq by (simp add: take_bit_eq_mod)
  moreover have "unat p div 256 = unat (drop_bit 8 p)" unfolding unsigned_drop_bit_eq by (simp add: drop_bit_eq_div take_bit_nat_eq_self unsigned_less [of p, simplified])
  ultimately have "of_nat ((unat p mod 256) * 256 + unat p div 256) = push_bit 8 (take_bit 8 p) + drop_bit 8 p"
    by (simp add: push_bit_eq_mult)
  also have "\<dots> = push_bit 8 (take_bit 8 p) OR drop_bit 8 p"
    by (rule disjunctive_add_eq_or, rule bit_word_eqI) (auto simp: bit_simps dest: bit_imp_le_length)
  also have "\<dots> = htons p"
    unfolding htons_def by (rule bit_word_eqI) (auto simp: bit_simps)
  finally show ?thesis .
qed

lemma header_addr_peer: "header_addr (peer_header sin) = (ntohl (sin_addr sin), unat (ntohs (sin_port sin)))"
proof -
  have b: "ord (peer_header sin ! i) = int ((unat (sin_addr sin) div 256 ^ i) mod 256)" if "i < 4" for i
    using that le_bytes_nth [of i 4] by (simp add: peer_header_def nth_append)
  have p: "ord (peer_header sin ! (4 + i)) = int ((unat (sin_port sin) div 256 ^ i) mod 256)" if "i < 2" for i
    using that le_bytes_nth [of i 2] by (simp add: peer_header_def nth_append)
  have w: "(of_int (ord (peer_header sin ! i)) :: u32) = drop_bit (8 * i) (sin_addr sin) AND 0xff" if "i < 4" for i
    using b [OF that] word_byte [of "sin_addr sin" i] by simp
  have ip: "fst (header_addr (peer_header sin)) = ntohl (sin_addr sin)"
    using w [of 0] w [of 1] w [of 2] w [of 3] header_word [of "sin_addr sin"] by (simp add: header_addr_def or.assoc)
  have lt: "unat (sin_port sin) < 65536" using unsigned_less [of "sin_port sin"] by simp
  have "nat (ord (peer_header sin ! 4) * 256 + ord (peer_header sin ! 5))
      = (unat (sin_port sin) mod 256) * 256 + unat (sin_port sin) div 256"
    using p [of 0] p [of 1] lt by (simp add: nat_add_distrib nat_mult_distrib)
  moreover have "(unat (sin_port sin) mod 256) * 256 + unat (sin_port sin) div 256 < 2 ^ 16"
  proof -
    have "unat (sin_port sin) mod 256 \<le> 255" "unat (sin_port sin) div 256 \<le> 255" using lt by auto
    then show ?thesis by simp
  qed
  moreover have "unat (of_nat k :: u16) = k" if "k < 2 ^ 16" for k
    using that by (simp add: unsigned_of_nat take_bit_nat_eq_self)
  ultimately have "snd (header_addr (peer_header sin)) = unat (htons (sin_port sin))"
    by (simp only: header_addr_def snd_conv flip: port_word)
  with ip show ?thesis by (simp add: prod_eq_iff ntohs_def)
qed

text \<open>A descriptor table entry that is a socket in headers mode.\<close>

definition headers_sock :: "'w px \<Rightarrow> int \<Rightarrow> string \<Rightarrow> bool" where
  "headers_sock px fd dir \<longleftrightarrow> fdtab_inited px \<and> 0 \<le> fd \<and> fd < int FD_MAX \<and> kind (fdtab px ! nat fd) = K_NET
     \<and> fpath (fdtab px ! nat fd) = dir \<and> fflags (fdtab px ! nat fd) = NETF_HEADERS"

lemma headers_sock_simps:
  assumes "headers_sock px fd dir"
  shows "sock px fd = (Some dir, px)" "net_flags px fd = NETF_HEADERS" "ensure_headers os px fd dir = (0, px)"
    "headers_sock (px \<lparr> world := w \<rparr>) fd dir"
  using assms by (simp_all add: headers_sock_def sock_def rc_fd_net_dir_def fd_init_def Let_def net_flags_def ensure_headers_def has_def)

text \<open>C25: a datagram carries its peer faithfully: if the network hands back the message \<open>sendto\<close> wrote, then
  \<open>recvfrom\<close> returns the same data and exactly the address and port it was sent to.\<close>

theorem datagram_roundtrip:
  assumes "headers_sock px fd dir" "sa_family sin = AF_INET" "length data \<le> 1474" "length data \<le> n" "n \<le> RC_FS_MSG_MAX - 14"
    "rc_fs_write os (world px) (netpath dir ''data'') (peer_header sin @ data) (int (6 + length data)) = (int (6 + length data), w1)"
    "rc_fs_read os w1 (netpath dir ''data'') (int (n + 6)) = ((int (6 + length data), peer_header sin @ data), w2)"
  shows "sendto os px fd data (Some sin) SIN_SIZE = Some (int (length data), px \<lparr> world := w1 \<rparr>)
    \<and> recvfrom os (px \<lparr> world := w1 \<rparr>) fd n (Some SIN_SIZE) =
        Some ((int (length data), data, Some (sin, SIN_SIZE, SIN_SIZE)), px \<lparr> world := w2 \<rparr>)"
proof
  note hs = headers_sock_simps [OF assms(1)]
  note hs1 = headers_sock_simps [OF hs(4) [of w1]]
  have lh: "length (peer_header sin) = 6" by (simp add: peer_header_def)
  have chunk: "(if 6 + length data > RC_FS_MSG_MAX - 120 then RC_FS_MSG_MAX - 120 else 6 + length data) = 6 + length data"
    using assms(3) by simp
  have "net_send os px dir NETF_HEADERS (peer_header sin @ data) = Some (int (6 + length data), px \<lparr> world := w1 \<rparr>)"
    unfolding net_send_def by (subst send_loop.simps) (use assms(6) chunk lh in \<open>simp add: Let_def has_def\<close>)
  then show "sendto os px fd data (Some sin) SIN_SIZE = Some (int (length data), px \<lparr> world := w1 \<rparr>)"
    using assms(3) by (simp add: sendto_def hs has_def Let_def)
  have "wait_read os (netpath dir ''data'') (int (n + 6)) w1 = Some ((int (6 + length data), peer_header sin @ data), w2)"
    by (subst wait_read.simps) (use assms(7) in simp)
  then have "net_recv os (px \<lparr> world := w1 \<rparr>) dir NETF_HEADERS n =
      Some ((int (length data), data, peer_header sin), px \<lparr> world := w2 \<rparr>)"
    using assms(5) lh by (simp add: net_recv_def Let_def has_def)
  moreover have "peer_header sin \<noteq> []" using lh by auto
  moreover have "fill_addr (Some SIN_SIZE) (ntohl (sin_addr sin)) (unat (ntohs (sin_port sin))) = Some (sin, SIN_SIZE, SIN_SIZE)"
    using assms(2) by (simp add: fill_addr_def ntohs_def htons_htons)
  ultimately show "recvfrom os (px \<lparr> world := w1 \<rparr>) fd n (Some SIN_SIZE) =
        Some ((int (length data), data, Some (sin, SIN_SIZE, SIN_SIZE)), px \<lparr> world := w2 \<rparr>)"
    by (simp add: recvfrom_def hs1 has_def Let_def header_addr_peer)
qed

text \<open>A conversation that hands back the last message written to it; the world is that message.\<close>

definition echo_os :: "byte list os" where
  "echo_os = no_os \<lparr> sys_ns_translate := (\<lambda>w p k n. (5, pad_to n (tl p))),
     sys_ipc_call := (\<lambda>w pid verb buf packed.
        if verb = RC_FS_WRITE then ((5, put_u32 buf 0 (get_u32 buf 100), verb), take (nat (get_u32 buf 100)) (drop 104 buf))
        else ((5, put_bytes (put_u32 buf 0 (int (length w))) 4 w, verb), w)) \<rparr>"

lemma echo_write:
  assumes "p \<in> fsd_paths" "length bs \<le> 8000"
  shows "rc_fs_write echo_os w p bs (int (length bs)) = (int (length bs), bs)"
proof -
  let ?b = "req_buf echo_os w (pad_to 100 (tl p))"
  let ?req = "put_bytes (put_u32 ?b 100 (int (length bs))) 104 bs"
  have rs: "resolve_stripped_c echo_os w p = (5, pad_to 100 (tl p))"
    by (simp add: resolve_stripped_c_def rc_ns_translate_def echo_os_def)
  have lb: "length ?b = 8192" by (simp add: req_buf_def echo_os_def no_os_def)
  have lq: "length ?req = 8192" using lb assms(2) by (simp add: buf_simps)
  have g: "get_u32 ?req 100 = int (length bs)" using lb assms(2) by (simp add: buf_simps to_u32_small)
  have d: "take (length bs) (drop 104 ?req) = bs" using lb assms(2) by (simp add: buf_simps)
  have r: "get_i32 (put_u32 ?req 0 (int (length bs))) 0 = int (length bs)" using lq assms(2) by (simp add: buf_simps to_u32_small)
  have c: "rc_fsd_call echo_os w 5 RC_FS_WRITE ?req 8192 = ((5, put_u32 ?req 0 (int (length bs)), RC_FS_WRITE), bs)"
    using g d by (simp add: rc_fsd_call_def echo_os_def Let_def)
  show ?thesis using assms(2) by (simp add: rc_fs_write_def abspath_canon [OF assms(1)] rs Let_def c r)
qed

lemma echo_read:
  assumes "p \<in> fsd_paths" "int (length w) \<le> len" "len \<le> 8000"
  shows "rc_fs_read echo_os w p len = ((int (length w), w), w)"
proof -
  let ?b = "req_buf echo_os w (pad_to 100 (tl p))"
  let ?req = "put_u32 ?b 100 len"
  have rs: "resolve_stripped echo_os w p = (5, pad_to 100 (tl p))"
    by (simp add: resolve_stripped_def rc_ns_translate_def echo_os_def)
  have lb: "length ?b = 8192" by (simp add: req_buf_def echo_os_def no_os_def)
  have lq: "length ?req = 8192" using lb by (simp add: buf_simps)
  have r: "get_i32 (put_bytes (put_u32 ?req 0 (int (length w))) 4 w) 0 = int (length w)"
    using lq assms(2,3) by (simp add: buf_simps to_u32_small)
  have d: "take (length w) (drop 4 (put_bytes (put_u32 ?req 0 (int (length w))) 4 w)) = w"
    using lq assms(2,3) by (simp add: buf_simps)
  have c: "rc_fsd_call echo_os w 5 RC_FS_READ ?req 8192 = ((5, put_bytes (put_u32 ?req 0 (int (length w))) 4 w, RC_FS_READ), w)"
    by (simp add: rc_fsd_call_def echo_os_def Let_def)
  show ?thesis using assms(2,3) d by (simp add: rc_fs_read_def abspath_canon [OF assms(1)] rs Let_def c r)
qed

theorem datagram_roundtrip_witness:
  "\<exists>px px1 px2. sendto echo_os px 3 ''ping'' (Some \<lparr> sa_family = 2, sin_port = 0x3500, sin_addr = 0x0101A8C0 \<rparr>) 16 = Some (4, px1)
    \<and> recvfrom echo_os px1 3 512 (Some 16) = Some ((4, ''ping'', Some (\<lparr> sa_family = 2, sin_port = 0x3500, sin_addr = 0x0101A8C0 \<rparr>, 16, 16)), px2)"
proof -
  define sin where "sin = \<lparr> sa_family = 2, sin_port = 0x3500, sin_addr = 0x0101A8C0 \<rparr>"
  define px where "px = (px_start ([] :: byte list)) \<lparr> fdtab := replicate FD_MAX \<lparr> kind = K_NET, fflags = 2, foff = 0, fpath = ''/net/udp/3'' \<rparr>, fdtab_inited := True \<rparr>"
  have np: "netpath ''/net/udp/3'' ''data'' = ''/net/udp/3/data''" by (simp add: netpath_def)
  have p: "''/net/udp/3/data'' \<in> fsd_paths"
    unfolding fsd_paths_def by (intro CollectI exI [of _ "[''net'', ''udp'', ''3'', ''data'']"]) (simp add: render_def plain_def name_ok_def)
  have l: "length (peer_header sin) = 6" by (simp add: peer_header_def)
  have "sendto echo_os px 3 ''ping'' (Some sin) 16 = Some (int (length ''ping''), px \<lparr> world := peer_header sin @ ''ping'' \<rparr>)
    \<and> recvfrom echo_os (px \<lparr> world := peer_header sin @ ''ping'' \<rparr>) 3 512 (Some 16) =
        Some ((int (length ''ping''), ''ping'', Some (sin, 16, 16)), px \<lparr> world := peer_header sin @ ''ping'' \<rparr>)"
  proof (rule datagram_roundtrip [of px 3 "''/net/udp/3''"])
    show "headers_sock px 3 ''/net/udp/3''" by (simp add: headers_sock_def px_def)
    show "rc_fs_write echo_os (world px) (netpath ''/net/udp/3'' ''data'') (peer_header sin @ ''ping'') (int (6 + length ''ping'')) = (int (6 + length ''ping''), peer_header sin @ ''ping'')"
      unfolding np using echo_write [OF p, of "peer_header sin @ ''ping''" "world px"] l by simp
    show "rc_fs_read echo_os (peer_header sin @ ''ping'') (netpath ''/net/udp/3'' ''data'') (int (512 + 6)) = ((int (6 + length ''ping''), peer_header sin @ ''ping''), peer_header sin @ ''ping'')"
      unfolding np using echo_read [OF p, of "peer_header sin @ ''ping''" 518] l by simp
  qed (simp_all add: sin_def)
  then show ?thesis unfolding sin_def by auto
qed

end
