(* ===== verification/RcPthread.thy ===== *)
theory RcPthread
  imports InetAddr TimeC
begin

unbundle bit_operations_syntax

text \<open>
  \<^verbatim>\<open>src/rc_pthread.c\<close>: POSIX threads for a program with one thread. \<open>pthread_create\<close> runs the new thread
  to its end before it returns; mutexes count; keys are a table; a wait that nothing can end prints a
  message and aborts.

  A piece of code that runs as a thread may return, call \<open>pthread_exit\<close> (the \<^verbatim>\<open>longjmp\<close>), end the process,
  use a freed thread record, or never come back (\<open>None\<close>): that is \<open>run\<close>. A thread's record lives at an
  address chosen by \<^verbatim>\<open>malloc\<close> (a parameter) and holds the result, \<open>None\<close> while it is not yet written.
\<close>

abbreviation (input) PTHREAD_MUTEX_NORMAL :: int where "PTHREAD_MUTEX_NORMAL \<equiv> 0"
abbreviation (input) PTHREAD_MUTEX_RECURSIVE :: int where "PTHREAD_MUTEX_RECURSIVE \<equiv> 1"
abbreviation (input) PTHREAD_MUTEX_ERRORCHECK :: int where "PTHREAD_MUTEX_ERRORCHECK \<equiv> 2"
abbreviation (input) PTHREAD_KEYS_MAX :: nat where "PTHREAD_KEYS_MAX \<equiv> 128"
abbreviation (input) ETIMEDOUT :: int where "ETIMEDOUT \<equiv> 110"

subsection \<open>Threads\<close>

datatype ('s, 'a) run = Returned 'a 's | Exited nat 's | Ended int 's | UseAfterFree

record 'u pt =
  cur_thread :: "nat option"
  threads :: "nat \<Rightarrow> nat option option"
  pt_user :: 'u

type_synonym ('u, 'a) code = "'u pt \<Rightarrow> ('u pt, 'a) run option"

definition pthread_create ::
    "(('u pt) \<Rightarrow> nat option) \<Rightarrow> (nat \<Rightarrow> ('u, nat) code) \<Rightarrow> nat \<Rightarrow> ('u, int \<times> nat option) code" where
  "pthread_create mal fn arg st =
     (case mal st of None \<Rightarrow> Some (Returned (EAGAIN, None) st)
      | Some th \<Rightarrow>
          let outer = cur_thread st;
              st1 = st \<lparr> threads := (threads st)(th \<mapsto> None), cur_thread := Some th \<rparr>
          in case fn arg st1 of None \<Rightarrow> None
             | Some (Returned r st2) \<Rightarrow>
                 (if threads st2 th = None then Some UseAfterFree
                  else Some (Returned (0, Some th) (st2 \<lparr> threads := (threads st2)(th \<mapsto> Some r), cur_thread := outer \<rparr>)))
             | Some (Exited r st2) \<Rightarrow> Some (Returned (0, Some th) (st2 \<lparr> cur_thread := outer \<rparr>))
             | Some (Ended c st2) \<Rightarrow> Some (Ended c st2)
             | Some UseAfterFree \<Rightarrow> Some UseAfterFree)"

text \<open>The second component is what \<^verbatim>\<open>*r\<close> receives.\<close>

definition pthread_join :: "nat \<Rightarrow> ('u, int \<times> nat option) code" where
  "pthread_join t st =
     (if t = 1 then Some (Returned (EDEADLK, None) st)
      else case threads st t of None \<Rightarrow> Some UseAfterFree
           | Some ret \<Rightarrow> Some (Returned (0, ret) (st \<lparr> threads := (threads st)(t := None) \<rparr>)))"

definition pthread_detach :: "nat \<Rightarrow> ('u, int) code" where
  "pthread_detach t st =
     (if t = 1 then Some (Returned 0 st)
      else if threads st t = None then Some UseAfterFree
      else Some (Returned 0 (st \<lparr> threads := (threads st)(t := None) \<rparr>)))"

text \<open>\<^verbatim>\<open>exit(0)\<close> of the main thread is the end of the process with status 0.\<close>

definition pthread_exit :: "nat \<Rightarrow> ('u, 'a) code" where
  "pthread_exit r st =
     (case cur_thread st of None \<Rightarrow> Some (Ended 0 st)
      | Some th \<Rightarrow> if threads st th = None then Some UseAfterFree
                   else Some (Exited r (st \<lparr> threads := (threads st)(th \<mapsto> Some r) \<rparr>)))"

definition pthread_self :: "'u pt \<Rightarrow> nat" where
  "pthread_self st = (case cur_thread st of None \<Rightarrow> 1 | Some th \<Rightarrow> th)"

definition pthread_equal :: "nat \<Rightarrow> nat \<Rightarrow> bool" where
  "pthread_equal a b \<longleftrightarrow> a = b"

definition pthread_attr_init :: int where "pthread_attr_init = 0"
definition pthread_attr_destroy :: int where "pthread_attr_destroy = 0"
definition pthread_attr_setstacksize :: "nat \<Rightarrow> int" where "pthread_attr_setstacksize s = 0"

text \<open>A wait for ever: the text that goes to standard error before \<open>abort\<close>.\<close>

definition deadlock :: "string \<Rightarrow> string" where
  "deadlock what = sfmt (''racccoon: %s would wait forever (single-threaded program)'' @ [CHR 0x0A]) [AStr (Some what)]"

subsection \<open>Mutexes\<close>

record mutex =
  m_count :: int
  m_type :: int

definition pthread_mutexattr_init :: int where "pthread_mutexattr_init = PTHREAD_MUTEX_NORMAL"
definition pthread_mutexattr_destroy :: "int \<Rightarrow> int" where "pthread_mutexattr_destroy a = 0"

text \<open>The result and the attribute afterwards.\<close>

definition pthread_mutexattr_settype :: "int \<Rightarrow> int \<Rightarrow> int \<times> int" where
  "pthread_mutexattr_settype a type =
     (if type < PTHREAD_MUTEX_NORMAL \<or> type > PTHREAD_MUTEX_ERRORCHECK then (EINVAL, a) else (0, type))"

definition pthread_mutexattr_gettype :: "int \<Rightarrow> int" where "pthread_mutexattr_gettype a = a"

definition pthread_mutex_init :: "int option \<Rightarrow> mutex" where
  "pthread_mutex_init a = \<lparr> m_count = 0, m_type = (case a of Some t \<Rightarrow> t | None \<Rightarrow> PTHREAD_MUTEX_NORMAL) \<rparr>"

definition pthread_mutex_destroy :: "mutex \<Rightarrow> int" where
  "pthread_mutex_destroy m = (if m_count m \<noteq> 0 then EBUSY else 0)"

definition pthread_mutex_trylock :: "mutex \<Rightarrow> int \<times> mutex" where
  "pthread_mutex_trylock m =
     (if m_count m \<noteq> 0 \<and> m_type m \<noteq> PTHREAD_MUTEX_RECURSIVE then (EBUSY, m)
      else (0, m \<lparr> m_count := to_int32 (m_count m + 1) \<rparr>))"

text \<open>\<open>Inl\<close> is the message of an abort.\<close>

definition pthread_mutex_lock :: "mutex \<Rightarrow> string + int \<times> mutex" where
  "pthread_mutex_lock m =
     (if m_count m \<noteq> 0 \<and> m_type m \<noteq> PTHREAD_MUTEX_RECURSIVE
      then (if m_type m = PTHREAD_MUTEX_ERRORCHECK then Inr (EDEADLK, m) else Inl (deadlock ''pthread_mutex_lock (relock)''))
      else Inr (0, m \<lparr> m_count := to_int32 (m_count m + 1) \<rparr>))"

definition pthread_mutex_unlock :: "mutex \<Rightarrow> int \<times> mutex" where
  "pthread_mutex_unlock m = (if m_count m = 0 then (EPERM, m) else (0, m \<lparr> m_count := m_count m - 1 \<rparr>))"

subsection \<open>Conditions, once, yield\<close>

definition pthread_cond_init :: int where "pthread_cond_init = 0"
definition pthread_cond_destroy :: int where "pthread_cond_destroy = 0"
definition pthread_cond_signal :: int where "pthread_cond_signal = 0"
definition pthread_cond_broadcast :: int where "pthread_cond_broadcast = 0"

definition pthread_cond_wait :: "mutex \<Rightarrow> string + int \<times> mutex" where
  "pthread_cond_wait m = Inl (deadlock ''pthread_cond_wait'')"

definition pthread_cond_timedwait :: "'w os \<Rightarrow> 'w px \<Rightarrow> timespec \<Rightarrow> int \<times> 'w px" where
  "pthread_cond_timedwait os px abstime =
     (let (now, px1) = clock_gettime os px CLOCK_REALTIME;
          n = (case now of Some t \<Rightarrow> t | None \<Rightarrow> abstime);
          ns = to_int64 ((tv_sec abstime - tv_sec n) * 1000000000 + (tv_nsec abstime - tv_nsec n))
      in if ns > 0
         then (let (r, px2) = nanosleep os px1 \<lparr> tv_sec = ns div 1000000000, tv_nsec = ns mod 1000000000 \<rparr> in (ETIMEDOUT, px2))
         else (ETIMEDOUT, px1))"

text \<open>\<open>fn\<close> sees the control variable already set.\<close>

definition pthread_once :: "int \<Rightarrow> (int \<Rightarrow> 'u \<Rightarrow> int \<times> 'u) \<Rightarrow> 'u \<Rightarrow> int \<times> int \<times> 'u" where
  "pthread_once once fn u = (if once = 0 then (0, fn 1 u) else (0, (once, u)))"

definition sched_yield :: "('w \<Rightarrow> 'w) \<Rightarrow> 'w \<Rightarrow> int \<times> 'w" where
  "sched_yield yield w = (0, yield w)"

subsection \<open>Thread-specific data\<close>

record keytab =
  key_used :: "bool list"
  key_value :: "nat list"

definition keys_start :: keytab where
  "keys_start = \<lparr> key_used = replicate PTHREAD_KEYS_MAX False, key_value = replicate PTHREAD_KEYS_MAX 0 \<rparr>"

fun key_loop :: "nat \<Rightarrow> nat \<Rightarrow> keytab \<Rightarrow> (int \<times> nat option) \<times> keytab" where
  "key_loop 0 i t = ((EAGAIN, None), t)"
| "key_loop (Suc n) i t =
     (if \<not> key_used t ! i
      then ((0, Some i), t \<lparr> key_used := (key_used t)[i := True], key_value := (key_value t)[i := 0] \<rparr>)
      else key_loop n (i + 1) t)"

definition pthread_key_create :: "keytab \<Rightarrow> (int \<times> nat option) \<times> keytab" where
  "pthread_key_create t = key_loop PTHREAD_KEYS_MAX 0 t"

definition pthread_key_delete :: "keytab \<Rightarrow> nat \<Rightarrow> int \<times> keytab" where
  "pthread_key_delete t k =
     (if k \<ge> PTHREAD_KEYS_MAX \<or> \<not> key_used t ! k then (EINVAL, t) else (0, t \<lparr> key_used := (key_used t)[k := False] \<rparr>))"

definition pthread_getspecific :: "keytab \<Rightarrow> nat \<Rightarrow> nat" where
  "pthread_getspecific t k = (if k < PTHREAD_KEYS_MAX \<and> key_used t ! k then key_value t ! k else 0)"

definition pthread_setspecific :: "keytab \<Rightarrow> nat \<Rightarrow> nat \<Rightarrow> int \<times> keytab" where
  "pthread_setspecific t k v =
     (if k \<ge> PTHREAD_KEYS_MAX \<or> \<not> key_used t ! k then (EINVAL, t) else (0, t \<lparr> key_value := (key_value t)[k := v] \<rparr>))"

subsection \<open>A thread runs before its creator goes on\<close>

lemma create_join:
  assumes "mal st = Some th" "th \<noteq> 1"
    "fn arg (st \<lparr> threads := (threads st)(th \<mapsto> None), cur_thread := Some th \<rparr>) = Some (Returned r st2) \<and> threads st2 th \<noteq> None
     \<or> fn arg (st \<lparr> threads := (threads st)(th \<mapsto> None), cur_thread := Some th \<rparr>) = pthread_exit r st2
         \<and> cur_thread st2 = Some th \<and> threads st2 th \<noteq> None"
  shows "\<exists>st3. pthread_create mal fn arg st = Some (Returned (0, Some th) st3) \<and> pthread_self st3 = pthread_self st
    \<and> pthread_join th st3 = Some (Returned (0, Some r) (st3 \<lparr> threads := (threads st2)(th := None) \<rparr>))"
  using assms by (auto simp: pthread_create_def pthread_join_def pthread_exit_def pthread_self_def)

lemma once_runs_once:
  "pthread_once once fn u = (r, o1, u1) \<Longrightarrow> o1 \<noteq> 0 \<Longrightarrow> pthread_once o1 fn' u1 = (0, o1, u1)"
  by (simp add: pthread_once_def split: if_splits)

subsection \<open>Mutexes count what the program did\<close>

datatype mop = Lock | Trylock | Unlock

definition mutex_step :: "mop \<Rightarrow> mutex \<Rightarrow> string + int \<times> mutex" where
  "mutex_step op m = (case op of Lock \<Rightarrow> pthread_mutex_lock m | Trylock \<Rightarrow> Inr (pthread_mutex_trylock m) | Unlock \<Rightarrow> Inr (pthread_mutex_unlock m))"

inductive mutex_path :: "mutex \<Rightarrow> (mop \<times> int) list \<Rightarrow> mutex \<Rightarrow> bool" for m0 where
  new: "mutex_path m0 [] m0"
| step: "mutex_path m0 tr m \<Longrightarrow> mutex_step op m = Inr (r, m') \<Longrightarrow> mutex_path m0 (tr @ [(op, r)]) m'"

definition held :: "(mop \<times> int) list \<Rightarrow> int" where
  "held tr = sum_list (map (\<lambda>(op, r). if r \<noteq> 0 then 0 else if op = Unlock then -1 else 1) tr)"

lemma held_simps [simp]:
  "held [] = 0" "held (tr @ [(op, r)]) = held tr + (if r \<noteq> 0 then 0 else if op = Unlock then -1 else 1)"
  by (simp_all add: held_def)

lemma mutex_count:
  assumes "mutex_path m0 tr m" "m_count m0 = 0"
  shows "length tr < 2 ^ 31 \<longrightarrow> m_type m = m_type m0 \<and> m_count m = held tr \<and> 0 \<le> held tr \<and> held tr \<le> int (length tr)
    \<and> (m_type m0 \<noteq> PTHREAD_MUTEX_RECURSIVE \<longrightarrow> held tr \<le> 1)"
  using assms
proof (induction rule: mutex_path.induct)
  case new
  then show ?case by simp
next
  case (step tr m op r m')
  show ?case
  proof
    assume l: "length (tr @ [(op, r)]) < 2 ^ 31"
    with step have ih: "m_type m = m_type m0" "m_count m = held tr" "0 \<le> held tr" "held tr \<le> int (length tr)"
      "m_type m0 \<noteq> PTHREAD_MUTEX_RECURSIVE \<longrightarrow> held tr \<le> 1" by auto
    have b: "int (length tr) + 1 < 2 ^ 31" using l by simp
    then have w: "to_int32 (held tr + 1) = held tr + 1" using ih(3,4) by (intro to_int32_id) simp_all
    show "m_type m' = m_type m0 \<and> m_count m' = held (tr @ [(op, r)]) \<and> 0 \<le> held (tr @ [(op, r)]) \<and> held (tr @ [(op, r)]) \<le> int (length (tr @ [(op, r)]))
      \<and> (m_type m0 \<noteq> PTHREAD_MUTEX_RECURSIVE \<longrightarrow> held (tr @ [(op, r)]) \<le> 1)"
      using step.hyps(2) ih w
      by (cases op) (auto simp: mutex_step_def pthread_mutex_lock_def pthread_mutex_trylock_def pthread_mutex_unlock_def split: if_splits)
  qed
qed

subsection \<open>Keys refine a map\<close>

definition keys_abs :: "keytab \<Rightarrow> nat \<Rightarrow> nat option" where
  "keys_abs t k = (if k < PTHREAD_KEYS_MAX \<and> key_used t ! k then Some (key_value t ! k) else None)"

definition keys_ok :: "keytab \<Rightarrow> bool" where
  "keys_ok t \<longleftrightarrow> length (key_used t) = PTHREAD_KEYS_MAX \<and> length (key_value t) = PTHREAD_KEYS_MAX"

datatype kop = KCreate | KDelete nat | KSet nat nat

definition key_step :: "kop \<Rightarrow> keytab \<Rightarrow> keytab" where
  "key_step op t = (case op of KCreate \<Rightarrow> snd (pthread_key_create t) | KDelete k \<Rightarrow> snd (pthread_key_delete t k) | KSet k v \<Rightarrow> snd (pthread_setspecific t k v))"

text \<open>The specification: a map from the keys in use to their values, with the lowest free key handed out.\<close>

definition free_key :: "(nat \<Rightarrow> nat option) \<Rightarrow> nat option" where
  "free_key f = find (\<lambda>k. f k = None) [0..<PTHREAD_KEYS_MAX]"

definition key_spec :: "kop \<Rightarrow> (nat \<Rightarrow> nat option) \<Rightarrow> nat \<Rightarrow> nat option" where
  "key_spec op f =
     (case op of KCreate \<Rightarrow> (case free_key f of None \<Rightarrow> f | Some k \<Rightarrow> f(k \<mapsto> 0))
      | KDelete k \<Rightarrow> f(k := None)
      | KSet k v \<Rightarrow> if f k = None then f else f(k \<mapsto> v))"

lemma key_loop_spec:
  assumes "keys_ok t" "i + n = PTHREAD_KEYS_MAX"
  shows "key_loop n i t =
    (case find (\<lambda>k. keys_abs t k = None) [i..<PTHREAD_KEYS_MAX] of None \<Rightarrow> ((EAGAIN, None), t)
     | Some k \<Rightarrow> ((0, Some k), t \<lparr> key_used := (key_used t)[k := True], key_value := (key_value t)[k := 0] \<rparr>))"
  using assms(2)
proof (induction n arbitrary: i)
  case 0
  then show ?case by simp
next
  case (Suc n)
  then have "i < PTHREAD_KEYS_MAX" by simp
  then have "[i..<PTHREAD_KEYS_MAX] = i # [Suc i..<PTHREAD_KEYS_MAX]" by (rule upt_conv_Cons)
  then show ?case using Suc.IH [of "Suc i"] Suc.prems by (simp add: keys_abs_def)
qed

lemma keys_abs_used:
  assumes "keys_ok t" "k < PTHREAD_KEYS_MAX"
  shows "keys_abs (t \<lparr> key_used := (key_used t)[k := True], key_value := (key_value t)[k := v] \<rparr>) = (keys_abs t)(k \<mapsto> v)"
  using assms by (auto simp: keys_abs_def keys_ok_def nth_list_update fun_eq_iff)

lemma key_step_refines:
  assumes "keys_ok t"
  shows "keys_ok (key_step op t) \<and> keys_abs (key_step op t) = key_spec op (keys_abs t)"
proof (cases op)
  case KCreate
  have b: "k < PTHREAD_KEYS_MAX" if "free_key (keys_abs t) = Some k" for k
    using that by (auto simp: free_key_def find_Some_iff)
  have "pthread_key_create t = (case free_key (keys_abs t) of None \<Rightarrow> ((EAGAIN, None), t)
     | Some k \<Rightarrow> ((0, Some k), t \<lparr> key_used := (key_used t)[k := True], key_value := (key_value t)[k := 0] \<rparr>))"
    unfolding pthread_key_create_def free_key_def by (rule key_loop_spec [OF assms]) simp
  then show ?thesis
    using assms KCreate b keys_abs_used [OF assms] by (auto simp: key_step_def key_spec_def keys_ok_def split: option.split)
next
  case (KDelete k)
  then show ?thesis
    using assms by (auto simp: key_step_def key_spec_def pthread_key_delete_def keys_ok_def keys_abs_def nth_list_update fun_eq_iff)
next
  case (KSet k v)
  then show ?thesis
    using assms by (auto simp: key_step_def key_spec_def pthread_setspecific_def keys_ok_def keys_abs_def nth_list_update fun_eq_iff)
qed

lemma keys_run: "keys_ok t \<Longrightarrow> keys_ok (fold key_step ops t) \<and> keys_abs (fold key_step ops t) = fold key_spec ops (keys_abs t)"
  by (induction ops arbitrary: t) (simp_all add: key_step_refines)

subsection \<open>Properties\<close>

text \<open>C26: after any sequence of calls on a new mutex that did not abort, the count is the number of locks
  taken less the number released; a mutex that is not recursive is held at most once; and the count
  decides every call: \<open>unlock\<close> fails exactly when nothing is held, \<open>trylock\<close> exactly when the mutex is
  held and not recursive, and \<open>lock\<close> then aborts (or reports \<open>EDEADLK\<close> for an error-checking mutex).\<close>

theorem mutex_excludes:
  assumes "mutex_path (pthread_mutex_init a) tr m" "length tr < 2 ^ 31"
  defines "rec \<equiv> a = Some PTHREAD_MUTEX_RECURSIVE" and "chk \<equiv> a = Some PTHREAD_MUTEX_ERRORCHECK"
  shows "m_count m = held tr \<and> 0 \<le> held tr \<and> (rec \<or> held tr \<le> 1)
    \<and> (fst (pthread_mutex_unlock m) = EPERM \<longleftrightarrow> held tr = 0)
    \<and> (fst (pthread_mutex_trylock m) = EBUSY \<longleftrightarrow> held tr \<noteq> 0 \<and> \<not> rec)
    \<and> (pthread_mutex_lock m = Inr (EDEADLK, m) \<longleftrightarrow> held tr \<noteq> 0 \<and> chk)
    \<and> ((\<exists>msg. pthread_mutex_lock m = Inl msg) \<longleftrightarrow> held tr \<noteq> 0 \<and> \<not> rec \<and> \<not> chk)
    \<and> (pthread_mutex_destroy m = EBUSY \<longleftrightarrow> held tr \<noteq> 0)"
proof -
  have "m_count (pthread_mutex_init a) = 0" by (simp add: pthread_mutex_init_def)
  from mutex_count [OF assms(1) this] assms(2)
  have c: "m_type m = (case a of Some t \<Rightarrow> t | None \<Rightarrow> PTHREAD_MUTEX_NORMAL)" "m_count m = held tr" "0 \<le> held tr"
      "m_type m = PTHREAD_MUTEX_RECURSIVE \<or> held tr \<le> 1"
    by (auto simp: pthread_mutex_init_def)
  have t: "m_type m = PTHREAD_MUTEX_RECURSIVE \<longleftrightarrow> rec" "m_type m = PTHREAD_MUTEX_ERRORCHECK \<longleftrightarrow> chk" "\<not> (rec \<and> chk)"
    using c(1) by (auto simp: rec_def chk_def split: option.splits)
  show ?thesis
    using c(2-4) t by (auto simp: pthread_mutex_unlock_def pthread_mutex_trylock_def pthread_mutex_lock_def pthread_mutex_destroy_def)
qed

theorem mutex_excludes_witness:
  "\<exists>m. mutex_path (pthread_mutex_init (Some 1)) [(Lock, 0), (Trylock, 0), (Unlock, 0)] m \<and> m_count m = 1 \<and> pthread_mutex_destroy m = EBUSY"
proof -
  let ?m = "\<lambda>n. \<lparr> m_count = n, m_type = 1 \<rparr>"
  have i: "pthread_mutex_init (Some 1) = ?m 0" by (simp add: pthread_mutex_init_def)
  have "mutex_path (?m 0) ((([] @ [(Lock, 0)]) @ [(Trylock, 0)]) @ [(Unlock, 0)]) (?m 1)"
    by (rule mutex_path.step [where m = "?m 2"], rule mutex_path.step [where m = "?m 1"], rule mutex_path.step [where m = "?m 0"], rule mutex_path.new)
      (simp_all add: mutex_step_def pthread_mutex_lock_def pthread_mutex_trylock_def pthread_mutex_unlock_def to_int32_id)
  then have p: "mutex_path (pthread_mutex_init (Some 1)) [(Lock, 0), (Trylock, 0), (Unlock, 0)] (?m 1)" using i by simp
  from mutex_excludes [OF p] p show ?thesis by (intro exI [of _ "?m 1"]) (simp add: held_def)
qed

text \<open>C27: for any sequence of key creations, deletions and stores, the table of 128 keys behaves as a map: a new
  key is the lowest free one and starts with a null value, also after its number was used and deleted
  before; a deleted or never created key reads as null.\<close>

theorem keys_behave_as_map:
  shows "pthread_getspecific (fold key_step ops keys_start) k = (case fold key_spec ops (\<lambda>k. None) k of None \<Rightarrow> 0 | Some v \<Rightarrow> v)
    \<and> fst (pthread_key_create (fold key_step ops keys_start)) =
        (case free_key (fold key_spec ops (\<lambda>k. None)) of None \<Rightarrow> (EAGAIN, None) | Some k \<Rightarrow> (0, Some k))"
proof -
  let ?t = "fold key_step ops keys_start"
  have s: "keys_ok keys_start" "keys_abs keys_start = (\<lambda>k. None)" by (simp_all add: keys_ok_def keys_start_def keys_abs_def fun_eq_iff)
  note r = keys_run [OF s(1), of ops, unfolded s(2)]
  have "pthread_getspecific ?t k = (case keys_abs ?t k of None \<Rightarrow> 0 | Some v \<Rightarrow> v)" by (simp add: pthread_getspecific_def keys_abs_def)
  moreover have "fst (pthread_key_create ?t) = (case free_key (keys_abs ?t) of None \<Rightarrow> (EAGAIN, None) | Some k \<Rightarrow> (0, Some k))"
    unfolding pthread_key_create_def free_key_def using r by (subst key_loop_spec) (simp_all split: option.split)
  ultimately show ?thesis using r by simp
qed

end
