(* ===== verification/RcSignal.thy ===== *)
theory RcSignal
  imports StdlibNum Kernel
begin

unbundle bit_operations_syntax

text \<open>
  \<^verbatim>\<open>src/rc_signal.c\<close>: signals over racccoon's notes. A note is a string the kernel hands to the one
  handler of the process; \<open>rc_note\<close> is that handler and dispatches through the table of \<^verbatim>\<open>sigaction\<close>s.

  A handler value is a function pointer: null (\<open>SIG_DFL\<close>), 1 (\<open>SIG_IGN\<close>), -1 (\<open>SIG_ERR\<close>) or a function.
  \<open>call\<close> is what running a handler does (\<open>None\<close>: it does not return); it gets the signal number and
  whether it is called with a \<^verbatim>\<open>siginfo_t\<close>. \<open>SYS_NOTED(NDFLT)\<close> kills the process. The kernel's
  side of \<open>kill\<close> is a parameter over the rest of the program \<open>'u\<close>.
\<close>

abbreviation (input) SIGHUP :: int where "SIGHUP \<equiv> 1"
abbreviation (input) SIGINT :: int where "SIGINT \<equiv> 2"
abbreviation (input) SIGABRT :: int where "SIGABRT \<equiv> 6"
abbreviation (input) SIGKILL :: int where "SIGKILL \<equiv> 9"
abbreviation (input) SIGUSR1 :: int where "SIGUSR1 \<equiv> 10"
abbreviation (input) SIGTERM :: int where "SIGTERM \<equiv> 15"
abbreviation (input) SIGSTOP :: int where "SIGSTOP \<equiv> 19"
abbreviation (input) NSIG :: int where "NSIG \<equiv> 32"
abbreviation (input) SIG_BLOCK :: int where "SIG_BLOCK \<equiv> 0"
abbreviation (input) SIG_UNBLOCK :: int where "SIG_UNBLOCK \<equiv> 1"
abbreviation (input) SIG_SETMASK :: int where "SIG_SETMASK \<equiv> 2"
abbreviation (input) SA_SIGINFO :: u32 where "SA_SIGINFO \<equiv> 4"
abbreviation (input) SA_RESETHAND :: u32 where "SA_RESETHAND \<equiv> 0x80000000"

datatype sighandler = SIG_DFL | SIG_IGN | SIG_ERR | Fn nat

record sigact =
  sa_handler :: sighandler
  sa_mask :: u64
  sa_flags :: u32

record 'u sg =
  rc_sa :: "sigact list"
  notify_on :: bool
  rc_mask :: u64
  sg_errno :: int
  sg_user :: 'u

definition sg_start :: "'u \<Rightarrow> 'u sg" where
  "sg_start u = \<lparr> rc_sa = replicate 32 \<lparr> sa_handler = SIG_DFL, sa_mask = 0, sa_flags = 0 \<rparr>, notify_on = False,
     rc_mask = 0, sg_errno = 0, sg_user = u \<rparr>"

definition rc_note_sig :: "string \<Rightarrow> int" where
  "rc_note_sig msg =
     (if msg = ''interrupt'' then SIGINT else if msg = ''kill'' then SIGKILL else if msg = ''abort'' then SIGABRT else SIGTERM)"

definition rc_sig_note :: "int \<Rightarrow> string" where
  "rc_sig_note sig =
     (if sig = SIGINT then ''interrupt'' else if sig = SIGKILL then ''kill'' else if sig = SIGABRT then ''abort'' else ''terminate'')"

text \<open>How a note ends: the process dies, or carries on where it was interrupted.\<close>

datatype noted = NDFLT | NCONT

type_synonym 'u caller = "sighandler \<Rightarrow> int \<Rightarrow> bool \<Rightarrow> 'u sg \<Rightarrow> 'u sg option"

definition has32 :: "u32 \<Rightarrow> u32 \<Rightarrow> bool" where
  "has32 flags f \<longleftrightarrow> flags AND f \<noteq> 0"

definition note_reset :: "nat \<Rightarrow> 'u sg \<Rightarrow> 'u sg" where
  "note_reset i st =
     (let b = rc_sa st ! i in
      if has32 (sa_flags b) SA_RESETHAND
      then st \<lparr> rc_sa := (rc_sa st)[i := b \<lparr> sa_handler := SIG_DFL, sa_flags := sa_flags b AND NOT SA_SIGINFO \<rparr>] \<rparr>
      else st)"

definition rc_note :: "'u caller \<Rightarrow> string \<Rightarrow> 'u sg \<Rightarrow> (noted \<times> 'u sg) option" where
  "rc_note call msg st =
     (let sig = rc_note_sig msg; a = rc_sa st ! nat sig in
      if \<not> has32 (sa_flags a) SA_SIGINFO \<and> sa_handler a = SIG_DFL then Some (NDFLT, st)
      else do { st1 \<leftarrow> (if has32 (sa_flags a) SA_SIGINFO then call (sa_handler a) sig True st
                        else if sa_handler a \<noteq> SIG_IGN then call (sa_handler a) sig False st else Some st);
                Some (NCONT, note_reset (nat sig) st1) })"

text \<open>The registration with the kernel (\<^verbatim>\<open>SYS_NOTIFY\<close> with \<^verbatim>\<open>__rc_note\<close>), \<open>reg\<close> on the rest of the program's
  world, happens once.\<close>

definition rc_notify :: "('u \<Rightarrow> 'u) \<Rightarrow> 'u sg \<Rightarrow> 'u sg" where
  "rc_notify reg st = (if \<not> notify_on st then st \<lparr> sg_user := reg (sg_user st), notify_on := True \<rparr> else st)"

definition signal :: "('u \<Rightarrow> 'u) \<Rightarrow> int \<Rightarrow> sighandler \<Rightarrow> 'u sg \<Rightarrow> sighandler \<times> 'u sg" where
  "signal reg sig h st =
     (if sig \<le> 0 \<or> sig \<ge> NSIG \<or> sig = SIGKILL \<or> sig = SIGSTOP then (SIG_ERR, st)
      else let a = rc_sa st ! nat sig in
           (if has32 (sa_flags a) SA_SIGINFO then SIG_DFL else sa_handler a,
            rc_notify reg (st \<lparr> rc_sa := (rc_sa st)[nat sig := a \<lparr> sa_handler := h, sa_flags := 0 \<rparr>] \<rparr>)))"

text \<open>The result and what \<^verbatim>\<open>*old\<close> receives.\<close>

definition sigaction :: "('u \<Rightarrow> 'u) \<Rightarrow> int \<Rightarrow> sigact option \<Rightarrow> 'u sg \<Rightarrow> (int \<times> sigact option) \<times> 'u sg" where
  "sigaction reg sig act st =
     (if sig \<le> 0 \<or> sig \<ge> NSIG \<or> (act \<noteq> None \<and> (sig = SIGKILL \<or> sig = SIGSTOP)) then ((-1, None), st \<lparr> sg_errno := EINVAL \<rparr>)
      else ((0, Some (rc_sa st ! nat sig)),
            case act of None \<Rightarrow> st | Some a \<Rightarrow> rc_notify reg (st \<lparr> rc_sa := (rc_sa st)[nat sig := a] \<rparr>)))"

definition sigprocmask :: "int \<Rightarrow> u64 option \<Rightarrow> 'u sg \<Rightarrow> (int \<times> u64) \<times> 'u sg" where
  "sigprocmask how s st =
     (case s of None \<Rightarrow> ((0, rc_mask st), st)
      | Some x \<Rightarrow>
          if how = SIG_BLOCK then ((0, rc_mask st), st \<lparr> rc_mask := rc_mask st OR x \<rparr>)
          else if how = SIG_UNBLOCK then ((0, rc_mask st), st \<lparr> rc_mask := rc_mask st AND NOT x \<rparr>)
          else if how = SIG_SETMASK then ((0, rc_mask st), st \<lparr> rc_mask := x \<rparr>)
          else ((-1, rc_mask st), st \<lparr> sg_errno := EINVAL \<rparr>))"

definition pthread_sigmask :: "int \<Rightarrow> u64 option \<Rightarrow> 'u sg \<Rightarrow> (int \<times> u64) \<times> 'u sg" where
  "pthread_sigmask how s st =
     (let ((r, old), st1) = sigprocmask how s st in ((if r \<noteq> 0 then sg_errno st1 else 0, old), st1))"

text \<open>What is stored through \<^verbatim>\<open>old\<close>: pointer, flags, size.\<close>

definition sigaltstack :: "int \<times> (nat \<times> int \<times> nat)" where
  "sigaltstack = (0, (0, 2, 0))"

definition sigemptyset :: u64 where "sigemptyset = 0"
definition sigfillset :: u64 where "sigfillset = NOT 0"

text \<open>\<open>None\<close> is the return of -1 with \<open>EINVAL\<close>.\<close>

definition sigaddset :: "u64 \<Rightarrow> int \<Rightarrow> u64 option" where
  "sigaddset s sig = (if sig \<le> 0 \<or> sig \<ge> NSIG then None else Some (s OR push_bit (nat sig) 1))"

definition sigdelset :: "u64 \<Rightarrow> int \<Rightarrow> u64 option" where
  "sigdelset s sig = (if sig \<le> 0 \<or> sig \<ge> NSIG then None else Some (s AND NOT (push_bit (nat sig) 1)))"

definition sigismember :: "u64 \<Rightarrow> int \<Rightarrow> int option" where
  "sigismember s sig = (if sig \<le> 0 \<or> sig \<ge> NSIG then None else Some (uint (drop_bit (nat sig) s AND 1)))"

definition kill :: "(int \<Rightarrow> string \<Rightarrow> 'u \<Rightarrow> int \<times> 'u) \<Rightarrow> int \<Rightarrow> int \<Rightarrow> 'u sg \<Rightarrow> int \<times> 'u sg" where
  "kill post pid sig st =
     (if sig = 0 then (0, st)
      else let (r, u) = post pid (rc_sig_note sig) (sg_user st) in (if r < 0 then -1 else 0, st \<lparr> sg_user := u \<rparr>))"

definition raise :: "(int \<Rightarrow> string \<Rightarrow> 'u \<Rightarrow> int \<times> 'u) \<Rightarrow> int \<Rightarrow> int \<Rightarrow> 'u sg \<Rightarrow> int \<times> 'u sg" where
  "raise post self sig st = kill post self sig st"

definition signal_names :: "int \<Rightarrow> string option" where
  "signal_names sig =
     map_of [(1, ''Hangup''), (2, ''Interrupt''), (3, ''Quit''), (4, ''Illegal instruction''), (5, ''Trace/breakpoint trap''),
       (6, ''Aborted''), (7, ''Bus error''), (8, ''Floating point exception''), (9, ''Killed''), (10, ''User defined signal 1''),
       (11, ''Segmentation fault''), (12, ''User defined signal 2''), (13, ''Broken pipe''), (14, ''Alarm clock''),
       (15, ''Terminated''), (17, ''Child exited''), (18, ''Continued''), (19, ''Stopped (signal)''), (20, ''Stopped''),
       (28, ''Window changed'')] sig"

text \<open>\<^verbatim>\<open>do { d[i++] = '0' + n % 10; n /= 10; } while (n && i < 7);\<close>, last digit first; \<open>k\<close> places are left.\<close>

fun sig_digits :: "nat \<Rightarrow> int \<Rightarrow> string" where
  "sig_digits 0 n = []"
| "sig_digits (Suc k) n =
     chr (ord CHR ''0'' + n smod 10) # (if n sdiv 10 \<noteq> 0 then sig_digits k (n sdiv 10) else [])"

definition strsignal :: "int \<Rightarrow> string" where
  "strsignal sig =
     (case (if 0 < sig \<and> sig < NSIG then signal_names sig else None) of Some s \<Rightarrow> s
      | None \<Rightarrow> ''Unknown signal '' @ (if sig < 0 then ''-'' else []) @ rev (sig_digits 7 (if sig < 0 then to_int32 (- sig) else sig)))"

subsection \<open>Delivery\<close>

lemma note_sig_roundtrip:
  "rc_note_sig (rc_sig_note sig) = (if sig = SIGINT \<or> sig = SIGKILL \<or> sig = SIGABRT then sig else SIGTERM)"
  by (simp add: rc_note_sig_def rc_sig_note_def)

lemma notify_table [simp]: "rc_sa (rc_notify reg st) = rc_sa st" "rc_mask (rc_notify reg st) = rc_mask st"
  by (simp_all add: rc_notify_def)

lemma has32_0 [simp]: "\<not> has32 0 f"
  by (simp add: has32_def)

subsection \<open>Signal sets\<close>

lemma bit_sigaddset:
  "sigaddset s sig = Some s' \<Longrightarrow> k < 32 \<Longrightarrow> bit s' k \<longleftrightarrow> bit s k \<or> int k = sig"
  by (auto simp: sigaddset_def bit_simps split: if_splits)

lemma bit_sigdelset:
  "sigdelset s sig = Some s' \<Longrightarrow> k < 32 \<Longrightarrow> bit s' k \<longleftrightarrow> bit s k \<and> int k \<noteq> sig"
  by (auto simp: sigdelset_def bit_simps split: if_splits)

lemma sigismember_bit: "0 < sig \<Longrightarrow> sig < 32 \<Longrightarrow> sigismember s sig = Some (if bit s (nat sig) then 1 else 0)"
  by (simp add: sigismember_def and_one_eq bit_iff_odd_drop_bit mod_2_eq_odd)

text \<open>Any run of additions and deletions, valid or not, computes the set.\<close>

definition sigset_step :: "bool \<times> int \<Rightarrow> u64 \<Rightarrow> u64" where
  "sigset_step op s = (case (if fst op then sigaddset s (snd op) else sigdelset s (snd op)) of None \<Rightarrow> s | Some t \<Rightarrow> t)"

definition sigset_spec :: "bool \<times> int \<Rightarrow> int set \<Rightarrow> int set" where
  "sigset_spec op S = (if snd op \<le> 0 \<or> snd op \<ge> NSIG then S else if fst op then insert (snd op) S else S - {snd op})"

lemma sigset_step_bit:
  assumes "0 < sig" "sig < 32" "bit s (nat sig) \<longleftrightarrow> sig \<in> S"
  shows "bit (sigset_step op s) (nat sig) \<longleftrightarrow> sig \<in> sigset_spec op S"
proof -
  have k: "nat sig < 32" "int (nat sig) = sig" using assms(1,2) by auto
  show ?thesis
  proof (cases "snd op \<le> 0 \<or> snd op \<ge> NSIG")
    case True
    then show ?thesis using assms(3) by (auto simp: sigset_step_def sigset_spec_def sigaddset_def sigdelset_def)
  next
    case False
    then obtain t u where tu: "sigaddset s (snd op) = Some t" "sigdelset s (snd op) = Some u"
      by (simp add: sigaddset_def sigdelset_def)
    show ?thesis
      using False assms(3) bit_sigaddset [OF tu(1) k(1)] bit_sigdelset [OF tu(2) k(1)] k(2)
      by (auto simp: sigset_step_def sigset_spec_def tu)
  qed
qed

lemma sigset_run:
  assumes "0 < sig" "sig < 32"
  shows "sigismember (fold sigset_step ops sigemptyset) sig = Some (if sig \<in> fold sigset_spec ops {} then 1 else 0)"
proof -
  have "bit (fold sigset_step ops s) (nat sig) \<longleftrightarrow> sig \<in> fold sigset_spec ops S" if "bit s (nat sig) \<longleftrightarrow> sig \<in> S" for s S
    using that by (induction ops arbitrary: s S) (simp_all add: sigset_step_bit assms)
  from this [of sigemptyset "{}"] show ?thesis by (simp add: sigismember_bit assms sigemptyset_def)
qed

subsection \<open>The table over a run\<close>

datatype sop = Sig int sighandler | Act int "sigact option" | Mask int "u64 option"

definition do_op :: "('u \<Rightarrow> 'u) \<Rightarrow> sop \<Rightarrow> 'u sg \<Rightarrow> 'u sg" where
  "do_op reg op st = (case op of Sig s h \<Rightarrow> snd (signal reg s h st) | Act s a \<Rightarrow> snd (sigaction reg s a st) | Mask how x \<Rightarrow> snd (sigprocmask how x st))"

text \<open>Handlers that use the interface themselves: each is a list of calls.\<close>

definition scripted :: "('u \<Rightarrow> 'u) \<Rightarrow> (sighandler \<Rightarrow> sop list) \<Rightarrow> 'u caller" where
  "scripted reg script h sig info st = Some (fold (do_op reg) (script h) st)"

text \<open>The states of a run that starts with the kernel in the state \<open>u\<close>.\<close>

inductive sg_reach :: "('u \<Rightarrow> 'u) \<Rightarrow> (sighandler \<Rightarrow> sop list) \<Rightarrow> 'u \<Rightarrow> 'u sg \<Rightarrow> bool" for reg script u where
  start: "sg_reach reg script u (sg_start u)"
| calls: "sg_reach reg script u st \<Longrightarrow> sg_reach reg script u (do_op reg op st)"
| deliver: "sg_reach reg script u st \<Longrightarrow> rc_note (scripted reg script) msg st = Some (r, st') \<Longrightarrow> sg_reach reg script u st'"

abbreviation default_act :: sigact where "default_act \<equiv> \<lparr> sa_handler = SIG_DFL, sa_mask = 0, sa_flags = 0 \<rparr>"

definition sg_ok :: "('u \<Rightarrow> 'u) \<Rightarrow> 'u \<Rightarrow> 'u sg \<Rightarrow> bool" where
  "sg_ok reg u st \<longleftrightarrow> length (rc_sa st) = 32 \<and> rc_sa st ! 9 = default_act \<and> rc_sa st ! 19 = default_act
     \<and> (if notify_on st then sg_user st = reg u else sg_user st = u \<and> rc_sa st = replicate 32 default_act)"

lemma sg_ok_notify:
  assumes "length tab = 32" "tab ! 9 = default_act" "tab ! 19 = default_act" "sg_ok reg u st"
  shows "sg_ok reg u (rc_notify reg (st \<lparr> rc_sa := tab \<rparr>))"
  using assms by (auto simp: sg_ok_def rc_notify_def split: if_splits)

lemma sg_ok_op [inv_intros]: "sg_ok reg u st \<Longrightarrow> sg_ok reg u (do_op reg op st)"
proof (cases op)
  case (Sig s h)
  assume "sg_ok reg u st"
  moreover from this have "length (rc_sa st) = 32" "rc_sa st ! 9 = default_act" "rc_sa st ! 19 = default_act"
    by (simp_all add: sg_ok_def)
  ultimately show ?thesis unfolding Sig
    by (auto simp: do_op_def signal_def Let_def nth_list_update intro!: sg_ok_notify)
next
  case (Act s a)
  assume "sg_ok reg u st"
  moreover from this have "length (rc_sa st) = 32" "rc_sa st ! 9 = default_act" "rc_sa st ! 19 = default_act"
    by (simp_all add: sg_ok_def)
  moreover have "sg_ok reg u (st \<lparr> sg_errno := e \<rparr>)" if "sg_ok reg u st" for e using that by (simp add: sg_ok_def)
  ultimately show ?thesis unfolding Act
    by (auto simp: do_op_def sigaction_def nth_list_update intro!: sg_ok_notify split: option.split)
next
  case (Mask how x)
  assume "sg_ok reg u st"
  then show ?thesis unfolding Mask by (auto simp: do_op_def sigprocmask_def sg_ok_def split: option.split)
qed

lemma sg_ok_ops: "sg_ok reg u st \<Longrightarrow> sg_ok reg u (fold (do_op reg) ops st)"
  by (induction ops arbitrary: st) (simp_all add: sg_ok_op)

lemma sg_ok_note:
  assumes "sg_ok reg u st" "rc_note (scripted reg script) msg st = Some (r, st')"
  shows "sg_ok reg u st'"
proof -
  define sig where "sig = rc_note_sig msg"
  let ?a = "rc_sa st ! nat sig"
  show ?thesis
  proof (cases "\<not> has32 (sa_flags ?a) SA_SIGINFO \<and> sa_handler ?a = SIG_DFL")
    case True
    then show ?thesis using assms by (simp add: rc_note_def Let_def sig_def)
  next
    case False
    with assms(1) have ne: "?a \<noteq> default_act" by auto
    have rng: "nat sig < 32" "nat sig \<noteq> 9" "nat sig \<noteq> 19"
      using ne assms(1) by (auto simp: sig_def rc_note_sig_def sg_ok_def split: if_splits)
    have on: "notify_on st" using ne assms(1) rng(1) by (auto simp: sg_ok_def split: if_splits)
    obtain st1 where st1: "st1 = fold (do_op reg) (script (sa_handler ?a)) st \<or> st1 = st"
        "st' = note_reset (nat sig) st1"
      using assms(2) False that unfolding sig_def by (auto simp: rc_note_def Let_def scripted_def split: if_splits)
    have keep: "notify_on (fold (do_op reg) ops s)" if "notify_on s" for ops s
      using that by (induction ops arbitrary: s)
        (auto simp: do_op_def signal_def sigaction_def sigprocmask_def rc_notify_def Let_def split: sop.split option.split)
    have "sg_ok reg u st1" "notify_on st1" using st1(1) assms(1) on sg_ok_ops keep by metis+
    then show ?thesis using st1(2) rng by (auto simp: sg_ok_def note_reset_def Let_def)
  qed
qed

subsection \<open>Properties\<close>

text \<open>C28: over any run of \<open>signal\<close>, \<open>sigaction\<close>, mask calls and delivered notes, with handlers that make such calls
  themselves, the table keeps its 32 entries, the entries of \<open>SIGKILL\<close> and \<open>SIGSTOP\<close> stay at the default,
  and the note handler is registered with the kernel at most once: as long as the flag says it is not, the
  kernel is as it was at the start and every entry is the default, so whenever an entry is not the default
  the \<^verbatim>\<open>SYS_NOTIFY\<close> call has been made, exactly once.\<close>

theorem signal_table_invariant:
  assumes "sg_reach reg script u st"
  shows "length (rc_sa st) = 32 \<and> rc_sa st ! 9 = default_act \<and> rc_sa st ! 19 = default_act
    \<and> (if notify_on st then sg_user st = reg u else sg_user st = u \<and> rc_sa st = replicate 32 default_act)"
proof -
  have "sg_ok reg u st" using assms
  proof (induction rule: sg_reach.induct)
    case start
    show ?case by (simp add: sg_ok_def sg_start_def)
  qed (simp add: sg_ok_op, rule sg_ok_note)
  then show ?thesis by (simp add: sg_ok_def)
qed

theorem signal_table_invariant_witness:
  "\<exists>st. sg_reach (\<lambda>u :: nat. u + 1) (\<lambda>h. [Sig 2 SIG_IGN]) 0 st \<and> rc_sa st ! 2 = default_act \<lparr> sa_handler := SIG_IGN \<rparr>
    \<and> rc_sa st ! 9 = default_act \<and> sg_user st = 1"
proof -
  let ?reg = "\<lambda>u :: nat. u + 1" and ?script = "\<lambda>h. [Sig 2 SIG_IGN]"
  define st1 where "st1 = do_op ?reg (Sig 2 (Fn 7)) (sg_start 0)"
  define st2 where "st2 = do_op ?reg (Sig 2 SIG_IGN) st1"
  have "rc_note (scripted ?reg ?script) ''interrupt'' st1 = Some (NCONT, st2)"
    by (simp add: rc_note_def rc_note_sig_def scripted_def note_reset_def st1_def st2_def do_op_def signal_def rc_notify_def sg_start_def Let_def)
  then have r: "sg_reach ?reg ?script 0 st2"
    unfolding st1_def by (rule sg_reach.deliver [OF sg_reach.calls [OF sg_reach.start]])
  have "rc_sa st2 ! 2 = default_act \<lparr> sa_handler := SIG_IGN \<rparr>" "notify_on st2"
    by (simp_all add: st1_def st2_def do_op_def signal_def rc_notify_def sg_start_def Let_def)
  with signal_table_invariant [OF r] r show ?thesis by (intro exI [of _ st2]) simp
qed

text \<open>A handler installed by \<open>signal\<close> gets the signal that \<open>kill\<close> on the process posts exactly for \<open>SIGINT\<close>,
  \<open>SIGABRT\<close> and \<open>SIGTERM\<close>; every other signal arrives as \<open>SIGTERM\<close>, with the action installed for that one.\<close>

theorem signal_then_note:
  assumes "length (rc_sa st) = 32" "0 < sig" "sig < NSIG" "sig \<noteq> SIGKILL" "sig \<noteq> SIGSTOP" "signal reg sig h st = (old, st1)"
    "call h sig False st1 = Some st2" "\<not> has32 (sa_flags (rc_sa st2 ! nat sig)) SA_RESETHAND"
  shows "rc_note call (rc_sig_note sig) st1 =
      (if sig = SIGINT \<or> sig = SIGABRT \<or> sig = SIGTERM
       then Some (if h = SIG_DFL then (NDFLT, st1) else if h = SIG_IGN then (NCONT, st1) else (NCONT, st2))
       else rc_note call ''terminate'' st1)
    \<and> (sig = SIGTERM \<or> rc_sa st1 ! 15 = rc_sa st ! 15)"
proof -
  have st1: "rc_sa st1 = (rc_sa st)[nat sig := (rc_sa st ! nat sig) \<lparr> sa_handler := h, sa_flags := 0 \<rparr>]"
    using assms(2-6) by (auto simp: signal_def Let_def)
  have "nat sig \<noteq> 15" if "sig \<noteq> SIGTERM" using that assms(2) by (simp add: nat_eq_iff)
  then have keep: "sig = SIGTERM \<or> rc_sa st1 ! 15 = rc_sa st ! 15" using st1 by fastforce
  show ?thesis
  proof (cases "sig = SIGINT \<or> sig = SIGABRT \<or> sig = SIGTERM")
    case True
    then have n: "rc_note_sig (rc_sig_note sig) = sig" by (auto simp: note_sig_roundtrip)
    have a: "rc_sa st1 ! nat sig = (rc_sa st ! nat sig) \<lparr> sa_handler := h, sa_flags := 0 \<rparr>"
      using st1 assms(1,3) by (simp add: nat_less_iff)
    show ?thesis using True keep assms(7,8) by (simp add: rc_note_def n a Let_def note_reset_def)
  next
    case False
    then have "rc_sig_note sig = ''terminate''" using assms(4) by (simp add: rc_sig_note_def)
    then show ?thesis using False keep by simp
  qed
qed

theorem signal_then_note_witness:
  "\<exists>st1. signal (\<lambda>u :: nat. u) SIGUSR1 (Fn 7) (sg_start 0) = (SIG_DFL, st1) \<and> rc_note (scripted (\<lambda>u. u) (\<lambda>h. [])) (rc_sig_note SIGUSR1) st1 = Some (NDFLT, st1)"
proof -
  obtain st1 where st1: "signal (\<lambda>u :: nat. u) SIGUSR1 (Fn 7) (sg_start 0) = (SIG_DFL, st1)" "rc_sa st1 ! 15 = default_act"
      "\<not> has32 (sa_flags (rc_sa st1 ! 10)) SA_RESETHAND"
    by (simp add: signal_def sg_start_def rc_notify_def Let_def)
  have "rc_note (scripted (\<lambda>u. u) (\<lambda>h. [])) (rc_sig_note SIGUSR1) st1 = rc_note (scripted (\<lambda>u. u) (\<lambda>h. [])) ''terminate'' st1"
    using signal_then_note [OF _ _ _ _ _ st1(1), of "scripted (\<lambda>u. u) (\<lambda>h. [])" st1] st1(3)
    by (simp add: sg_start_def scripted_def)
  with st1 show ?thesis by (intro exI [of _ st1]) (simp add: rc_note_def rc_note_sig_def Let_def)
qed

end
