(* ===== verification/FloatScan.thy ===== *)
theory FloatScan
  imports Fp Ctype
begin

unbundle bit_operations_syntax

text \<open>
  \<^verbatim>\<open>src/floatscan.c\<close>: \<^verbatim>\<open>strtof\<close>, \<^verbatim>\<open>strtod\<close> and \<^verbatim>\<open>strtold\<close>. The stream \<^verbatim>\<open>struct rc_scan\<close> is the string (without
  its terminator) and the position \<^verbatim>\<open>p - s\<close>; reading behind the terminator, or moving before the first
  character, is \<open>None\<close>. Decimal numbers are converted in a ring of 2048 limbs in base \<open>10 ^ 9\<close>, a function
  from the index to the limb whose initial contents (an uninitialised local array) are a parameter \<open>u\<close>;
  the indices \<open>a\<close> and \<open>z\<close> are masked as in the code. \<^verbatim>\<open>uint32_t\<close> limbs are \<open>nat\<close>: they never exceed
  \<open>10 ^ 9\<close> (\<open>FloatRing\<close>). What is undefined in C is one of the values of \<open>ub\<close>.
\<close>

datatype ub = Read_outside | Store_before | No_return

definition of_opt :: "ub \<Rightarrow> 'a option \<Rightarrow> ub + 'a" where
  "of_opt e r = (case r of None \<Rightarrow> Inl e | Some x \<Rightarrow> Inr x)"

subsection \<open>The stream\<close>

definition shgetc :: "byte list \<Rightarrow> nat \<Rightarrow> (int \<times> nat) option" where
  "shgetc s p =
     (if p < length s then Some (ord (s ! p), p + 1) else if p = length s then Some (0, p + 1) else None)"

definition shunget :: "nat \<Rightarrow> nat option" where
  "shunget p = (if p = 0 then None else Some (p - 1))"

text \<open>\<^verbatim>\<open>c-'0'<10U\<close>, \<^verbatim>\<open>c-'A'<26U\<close>, \<^verbatim>\<open>c-'a'<26U\<close>, \<^verbatim>\<open>(c|32)-'a'<6U\<close>.\<close>

definition dig :: "int \<Rightarrow> bool" where
  "dig c \<longleftrightarrow> 48 \<le> c \<and> c < 58"

definition upper_c :: "int \<Rightarrow> bool" where
  "upper_c c \<longleftrightarrow> 65 \<le> c \<and> c < 91"

definition lower_c :: "int \<Rightarrow> bool" where
  "lower_c c \<longleftrightarrow> 97 \<le> c \<and> c < 123"

definition hex_letter :: "int \<Rightarrow> bool" where
  "hex_letter c \<longleftrightarrow> 97 \<le> c OR 32 \<and> c OR 32 < 103"

lemma shgetc_less: "shgetc s p = Some (c, p') \<Longrightarrow> Suc (length s) - p' < Suc (length s) - p"
  by (auto simp: shgetc_def split: if_splits)

text \<open>Leading zeros, counted.\<close>

function zeros :: "byte list \<Rightarrow> int \<Rightarrow> nat \<Rightarrow> nat \<Rightarrow> (int \<times> nat \<times> nat) option" where
  "zeros s c p n =
     (if c = 48 then (case shgetc s p of None \<Rightarrow> None | Some (c', p') \<Rightarrow> zeros s c' p' (n + 1))
      else Some (c, p, n))"
  by pat_completeness auto
termination
  by (relation "measure (\<lambda>(s, c, p, n). Suc (length s) - p)") (auto simp: shgetc_less)

declare zeros.simps [simp del]

text \<open>Skipping white space and skipping digits.\<close>

function spaces :: "byte list \<Rightarrow> nat \<Rightarrow> (int \<times> nat) option" where
  "spaces s p = (case shgetc s p of None \<Rightarrow> None | Some (c, p') \<Rightarrow> if isspace c then spaces s p' else Some (c, p'))"
  by pat_completeness auto
termination
  by (relation "measure (\<lambda>(s, p). Suc (length s) - p)") (auto simp: shgetc_less)

declare spaces.simps [simp del]

function skip_digits :: "byte list \<Rightarrow> int \<Rightarrow> nat \<Rightarrow> (int \<times> nat) option" where
  "skip_digits s c p =
     (if dig c then (case shgetc s p of None \<Rightarrow> None | Some (c', p') \<Rightarrow> skip_digits s c' p') else Some (c, p))"
  by pat_completeness auto
termination
  by (relation "measure (\<lambda>(s, c, p). Suc (length s) - p)") (auto simp: shgetc_less)

declare skip_digits.simps [simp del]

subsection \<open>scanexp\<close>

text \<open>\<^verbatim>\<open>for (; c-'0'<10U && v<bound; c = shgetc(f)) v = 10*v + c-'0';\<close>\<close>

function exp_digits :: "int \<Rightarrow> byte list \<Rightarrow> int \<Rightarrow> nat \<Rightarrow> int \<Rightarrow> (int \<times> nat \<times> int) option" where
  "exp_digits b s c p v =
     (if dig c \<and> v < b
      then (case shgetc s p of None \<Rightarrow> None | Some (c', p') \<Rightarrow> exp_digits b s c' p' (10 * v + c - 48))
      else Some (c, p, v))"
  by pat_completeness auto
termination
  by (relation "measure (\<lambda>(b, s, c, p, v). Suc (length s) - p)") (auto simp: shgetc_less)

declare exp_digits.simps [simp del]

definition LLONG_MIN :: int where "LLONG_MIN = - (2 ^ 63)"

definition scanexp :: "byte list \<Rightarrow> bool \<Rightarrow> nat \<Rightarrow> (int \<times> nat) option" where
  "scanexp s pok p0 = do {
     (c0, p1) \<leftarrow> shgetc s p0;
     let signed = (c0 = 43 \<or> c0 = 45);
     (c, p2) \<leftarrow> (if signed then shgetc s p1 else Some (c0, p1));
     p3 \<leftarrow> (if signed \<and> \<not> dig c \<and> pok then shunget p2 else Some p2);
     if \<not> dig c then do { p4 \<leftarrow> shunget p3; Some (LLONG_MIN, p4) }
     else do {
       (c', p4, x) \<leftarrow> exp_digits 214748364 s c p3 0;
       (c'', p5, y) \<leftarrow> exp_digits 92233720368547758 s c' p4 x;
       (c''', p6) \<leftarrow> skip_digits s c'' p5;
       p7 \<leftarrow> shunget p6;
       Some (if c0 = 45 then - y else y, p7) } }"

subsection \<open>decfloat: the digits\<close>

abbreviation (input) KMAX :: nat where "KMAX \<equiv> 2048"

record dscan =
  dx :: "nat \<Rightarrow> nat"
  dj :: nat
  dk :: nat
  lrp :: int
  dc :: int
  lnz :: int
  gotdig :: bool
  gotrad :: bool

definition digit_step :: "int \<Rightarrow> dscan \<Rightarrow> dscan" where
  "digit_step c st =
     (if c = 46 then st \<lparr> gotrad := True, lrp := dc st \<rparr>
      else if dk st < KMAX - 3 then
        (let k = dk st; n = dc st + 1;
             st1 = st \<lparr> dc := n, lnz := (if c \<noteq> 48 then n else lnz st),
                        dx := (dx st)(k := (if dj st \<noteq> 0 then dx st k * 10 + nat (c - 48) else nat (c - 48))),
                        gotdig := True \<rparr>
         in if dj st + 1 = 9 then st1 \<lparr> dk := k + 1, dj := 0 \<rparr> else st1 \<lparr> dj := dj st + 1 \<rparr>)
      else
        (let st1 = st \<lparr> dc := dc st + 1 \<rparr>
         in if c \<noteq> 48 then st1 \<lparr> lnz := int (KMAX - 4) * 9, dx := (dx st)(KMAX - 4 := dx st (KMAX - 4) OR 1) \<rparr> else st1))"

function dec_digits :: "byte list \<Rightarrow> int \<Rightarrow> nat \<Rightarrow> dscan \<Rightarrow> (int \<times> nat \<times> dscan) option" where
  "dec_digits s c p st =
     (if (dig c \<or> c = 46) \<and> \<not> (c = 46 \<and> gotrad st)
      then (case shgetc s p of None \<Rightarrow> None | Some (c', p') \<Rightarrow> dec_digits s c' p' (digit_step c st))
      else Some (c, p, st))"
  by pat_completeness auto
termination
  by (relation "measure (\<lambda>(s, c, p, st). Suc (length s) - p)") (auto simp: shgetc_less)

declare dec_digits.simps [simp del]

text \<open>
  The first half of \<^verbatim>\<open>decfloat\<close>: up to the tests that need no conversion. \<open>c\<close> is the character already
  read. The result is the position with either the value and the \<^verbatim>\<open>errno\<close> to set, or the digits.
\<close>

datatype scanned = Done fp "int option" | Digits dscan

definition dec_scan :: "(nat \<Rightarrow> nat) \<Rightarrow> byte list \<Rightarrow> nat \<Rightarrow> int \<Rightarrow> bool \<Rightarrow> (nat \<times> scanned) option" where
  "dec_scan u s p0 c0 pok = do {
     (c1, p1, n1) \<leftarrow> zeros s c0 p0 0;
     (c2, p2, n2) \<leftarrow> (if c1 = 46 then do { (c, p) \<leftarrow> shgetc s p1; zeros s c p 0 } else Some (c1, p1, 0));
     (c3, p3, st0) \<leftarrow> dec_digits s c2 p2
        \<lparr> dx = u(0 := 0), dj = 0, dk = 0, lrp = - int n2, dc = 0, lnz = 0,
          gotdig = (n1 > 0 \<or> n2 > 0), gotrad = (c1 = 46) \<rparr>;
     let st = (if gotrad st0 then st0 else st0 \<lparr> lrp := dc st0 \<rparr>);
     if gotdig st \<and> c3 OR 32 = 101 then do {
       (e10, p4) \<leftarrow> scanexp s pok p3;
       if e10 = LLONG_MIN then
         (if pok then do { p5 \<leftarrow> shunget p4; Some (p5, Digits st) } else Some (p4, Done (FNum False 0) None))
       else Some (p4, Digits (st \<lparr> lrp := lrp st + e10 \<rparr>)) }
     else do {
       p4 \<leftarrow> shunget p3;
       if \<not> gotdig st then Some (p4, Done (FNum False 0) (Some 22)) else Some (p4, Digits st) } }"


subsection \<open>decfloat: the ring of limbs\<close>

record ring =
  rx :: "nat \<Rightarrow> nat"
  ra :: nat
  rz :: nat
  rp :: int
  re2 :: int

abbreviation (input) B1B :: nat where "B1B \<equiv> 1000000000"

definition th :: "nat list" where
  "th = [10384593, 717069655, 257060992, 658440191]"

definition p10s :: "int \<Rightarrow> nat" where
  "p10s i = [10, 100, 1000, 10000, 100000, 1000000, 10000000, 100000000] ! nat i"

text \<open>\<^verbatim>\<open>for (; !x[z-1]; z--);\<close> (the first limb is not zero here).\<close>

primrec drop_zeros :: "(nat \<Rightarrow> nat) \<Rightarrow> nat \<Rightarrow> nat" where
  "drop_zeros x 0 = 0"
| "drop_zeros x (Suc z) = (if x z = 0 then drop_zeros x z else Suc z)"

text \<open>\<open>n\<close> rounds of the loop that shifts the digits to the right by \<open>9 - rpm9\<close> places.\<close>

primrec align_loop :: "nat \<Rightarrow> nat \<Rightarrow> nat \<Rightarrow> ring \<Rightarrow> nat \<Rightarrow> ring \<times> nat" where
  "align_loop p10 0 k r carry = (r, carry)"
| "align_loop p10 (Suc n) k r carry =
     (let tmp = rx r k mod p10; v = rx r k div p10 + carry;
          r1 = r \<lparr> rx := (rx r)(k := v) \<rparr>;
          r2 = (if k = ra r \<and> v = 0 then r1 \<lparr> ra := (ra r + 1) mod KMAX, rp := rp r - 9 \<rparr> else r1)
      in align_loop p10 n (k + 1) r2 (B1B div p10 * tmp))"

definition align :: "ring \<Rightarrow> ring" where
  "align r =
     (if rp r mod 9 = 0 then r
      else (let rpm9 = rp r mod 9;
                (r1, carry) = align_loop (p10s (8 - rpm9)) (rz r - ra r) (ra r) r 0;
                r2 = (if carry \<noteq> 0 then r1 \<lparr> rx := (rx r1)(rz r1 := carry), rz := rz r1 + 1 \<rparr> else r1)
            in r2 \<lparr> rp := rp r2 + 9 - rpm9 \<rparr>))"

text \<open>One multiplication by \<open>2 ^ 29\<close>: from limb \<open>z - 1\<close> down to \<open>a\<close>, \<open>n + 1\<close> limbs.\<close>

definition prev_ix :: "nat \<Rightarrow> nat" where "prev_ix k = (k + KMAX - 1) mod KMAX"
definition next_ix :: "nat \<Rightarrow> nat" where "next_ix k = (k + 1) mod KMAX"

definition up_limb :: "nat \<Rightarrow> nat \<Rightarrow> nat \<times> nat" where
  "up_limb v carry =
     (let tmp = v * 2 ^ 29 + carry in if tmp > B1B then (tmp mod B1B, tmp div B1B) else (tmp, 0))"

primrec up_loop :: "nat \<Rightarrow> nat \<Rightarrow> ring \<Rightarrow> nat \<Rightarrow> ring \<times> nat" where
  "up_loop 0 k r carry = (let (v, c) = up_limb (rx r k) carry in (r \<lparr> rx := (rx r)(k := v) \<rparr>, c))"
| "up_loop (Suc n) k r carry =
     (let (v, c) = up_limb (rx r k) carry;
          r1 = r \<lparr> rx := (rx r)(k := v) \<rparr>;
          r2 = (if k = prev_ix (rz r) \<and> v = 0 then r1 \<lparr> rz := k \<rparr> else r1)
      in up_loop n (prev_ix k) r2 c)"

definition up_step :: "ring \<Rightarrow> ring" where
  "up_step r0 =
     (let r = r0 \<lparr> re2 := re2 r0 - 29 \<rparr>;
          (r1, carry) = up_loop ((prev_ix (rz r) + KMAX - ra r) mod KMAX) (prev_ix (rz r)) r 0
      in if carry = 0 then r1
         else (let a = prev_ix (ra r1);
                   r2 = (if a = rz r1
                         then (let z = prev_ix (rz r1); q = prev_ix z
                               in r1 \<lparr> rz := z, rx := (rx r1)(q := rx r1 q OR rx r1 z) \<rparr>)
                         else r1)
               in r2 \<lparr> ra := a, rx := (rx r2)(a := carry), rp := rp r2 + 9 \<rparr>))"

definition up_more :: "ring \<Rightarrow> bool" where
  "up_more r \<longleftrightarrow> rp r < 36 \<or> rp r = 36 \<and> rx r (ra r) < th ! 0"

partial_function (option) upscale :: "ring \<Rightarrow> ring option" where
  "upscale r = (if up_more r then upscale (up_step r) else Some r)"

declare upscale.simps [code]

text \<open>
  Whether the first four limbs are at most \<open>th\<close>, that is the loop over \<open>i\<close> ends with \<open>LD_B1B_DIG\<close>; then one
  division by \<open>2 ^ sh\<close>. (\<^verbatim>\<open>i--\<close> in the loop has no effect: \<open>i\<close> is set anew.)
\<close>

fun below :: "(nat \<Rightarrow> nat) \<Rightarrow> nat \<Rightarrow> nat \<Rightarrow> nat list \<Rightarrow> bool" where
  "below x z k [] = True"
| "below x z k (t # ts) =
     (if k = z \<or> x k < t then True else if x k > t then False else below x z (next_ix k) ts)"

primrec down_loop :: "nat \<Rightarrow> nat \<Rightarrow> nat \<Rightarrow> ring \<Rightarrow> nat \<Rightarrow> ring \<times> nat" where
  "down_loop sh 0 k r carry = (r, carry)"
| "down_loop sh (Suc n) k r carry =
     (let tmp = rx r k mod 2 ^ sh; v = rx r k div 2 ^ sh + carry;
          r1 = r \<lparr> rx := (rx r)(k := v) \<rparr>;
          r2 = (if k = ra r \<and> v = 0 then r1 \<lparr> ra := next_ix (ra r), rp := rp r - 9 \<rparr> else r1)
      in down_loop sh n (next_ix k) r2 (B1B div 2 ^ sh * tmp))"

definition down_step :: "ring \<Rightarrow> ring" where
  "down_step r0 =
     (let sh = (if rp r0 > 45 then 9 else 1);
          r = r0 \<lparr> re2 := re2 r0 + int sh \<rparr>;
          (r1, carry) = down_loop sh ((rz r + KMAX - ra r) mod KMAX) (ra r) r 0
      in if carry = 0 then r1
         else if next_ix (rz r1) \<noteq> ra r1
         then r1 \<lparr> rx := (rx r1)(rz r1 := carry), rz := next_ix (rz r1) \<rparr>
         else (let q = prev_ix (rz r1) in r1 \<lparr> rx := (rx r1)(q := rx r1 q OR 1) \<rparr>))"

definition down_done :: "ring \<Rightarrow> bool" where
  "down_done r \<longleftrightarrow> below (rx r) (rz r) (ra r) th \<and> rp r = 36"

partial_function (option) downscale :: "ring \<Rightarrow> ring option" where
  "downscale r = (if down_done r then Some r else downscale (down_step r))"

declare downscale.simps [code]

subsection \<open>decfloat: assembling and rounding\<close>

abbreviation (input) ldf :: "int \<Rightarrow> fp" where "ldf n \<equiv> of_intf quad n"

text \<open>The store \<^verbatim>\<open>x[(z=(z+1 & MASK))-1] = 0\<close> hits \<^verbatim>\<open>x[-1]\<close> when \<open>z\<close> wraps to 0.\<close>

fun assemble :: "nat list \<Rightarrow> ring \<Rightarrow> fp \<Rightarrow> (ring \<times> fp) option" where
  "assemble [] r y = Some (r, y)"
| "assemble (i # is) r y =
     (let k = (ra r + i) mod KMAX; z = next_ix (rz r)
      in if k = rz r \<and> z = 0 then None
         else (let r1 = (if k = rz r then r \<lparr> rz := z, rx := (rx r)(z - 1 := 0) \<rparr> else r)
               in assemble is r1 (fadd quad (fmul quad (ldf 1000000000) y) (ldf (int (rx r1 k))))))"

text \<open>The contribution of the limbs behind the first four.\<close>

definition tail_frac :: "ring \<Rightarrow> int \<Rightarrow> fp \<Rightarrow> fp" where
  "tail_frac r sign fr =
     (let k = (ra r + 4) mod KMAX; t = rx r k; more = ((ra r + 5) mod KMAX \<noteq> rz r);
          q = (\<lambda>v. FNum (sign < 0) v)
      in if t < 500000000 \<and> (t \<noteq> 0 \<or> more) then fadd quad fr (q (1 / 4))
         else if t > 500000000 then fadd quad fr (q (3 / 4))
         else if t = 500000000 then (if \<not> more then fadd quad fr (q (1 / 2)) else fadd quad fr (q (3 / 4)))
         else fr)"

definition dec_round :: "int \<Rightarrow> int \<Rightarrow> int \<Rightarrow> ring \<Rightarrow> fp \<Rightarrow> int \<Rightarrow> fp \<times> int" where
  "dec_round bits0 emin sign r y0 en =
     (let emax = - emin - bits0 + 3;
          e2 = re2 r;
          y = fmul quad y0 (ldf sign);
          lim = (bits0 > 113 + e2 - emin);
          bits = (if lim then max 0 (113 + e2 - emin) else bits0);
          bias = (if bits < 113 then fcopysign (fscalb double (FNum False 1) (2 * 113 - bits - 1)) y else FNum False 0);
          fr = (if bits < 113 then frem y (fscalb double (FNum False 1) (113 - bits)) else FNum False 0);
          y1 = (if bits < 113 then fadd quad (fsub quad y fr) bias else y);
          fr1 =
            (if (ra r + 4) mod KMAX \<noteq> rz r
             then (let f = tail_frac r sign fr
                   in if 113 - bits \<ge> 2 \<and> fzero (frem f (ldf 1)) then fadd quad f (ldf 1) else f)
             else fr);
          y2 = fsub quad (fadd quad y1 fr1) bias
      in if (e2 + 113) AND 2147483647 > emax - 5
         then (let big = fge (fabs y2) (FNum False (2 ^ 113));
                   denormal = (lim \<and> \<not> (big \<and> bits = 113 + e2 - emin));
                   y3 = (if big then fmul quad y2 (FNum False (1 / 2)) else y2);
                   e3 = (if big then e2 + 1 else e2)
               in (fscalb quad y3 e3, if e3 + 113 > emax \<or> denormal \<and> \<not> fzero fr1 then 34 else en))
         else (fscalb quad y2 e2, en))"

text \<open>
  The second half of \<^verbatim>\<open>decfloat\<close>: zero, the small and out-of-range cases, and the conversion.
  \<^verbatim>\<open>sign * LDBL_MAX * LDBL_MAX\<close> overflows, \<^verbatim>\<open>sign * LDBL_MIN * LDBL_MIN\<close> underflows.
\<close>

definition LDBL_MAX :: fp where "LDBL_MAX = FNum False (2 ^ 16384 - 2 ^ 16271)"
definition LDBL_MIN :: fp where "LDBL_MIN = FNum False (1 / 2 ^ 16382)"

definition dec_convert :: "dscan \<Rightarrow> int \<Rightarrow> int \<Rightarrow> int \<Rightarrow> int \<Rightarrow> ub + (fp \<times> int)" where
  "dec_convert st bits emin sign en =
     (let x0 = dx st 0; sg = (\<lambda>v. fmul quad (ldf sign) v)
      in if x0 = 0 then Inr (sg (FNum False 0), en)
         else if lrp st = dc st \<and> dc st < 10 \<and> (bits > 30 \<or> x0 div 2 ^ nat bits = 0) then Inr (sg (ldf (int x0)), en)
         else if lrp st > (- emin) div 2 then Inr (fmul quad (sg LDBL_MAX) LDBL_MAX, 34)
         else if lrp st < emin - 2 * 113 then Inr (fmul quad (sg LDBL_MIN) LDBL_MIN, 34)
         else
           (let x = (if dj st \<noteq> 0 then (dx st)(dk st := dx st (dk st) * 10 ^ (9 - dj st)) else dx st);
                k = (if dj st \<noteq> 0 then dk st + 1 else dk st);
                rp0 = lrp st; bitlim = bits - 3 * (rp0 - 9);
                small = (lnz st < 9 \<and> lnz st \<le> rp0 \<and> rp0 < 18)
            in if small \<and> rp0 = 9 then Inr (sg (ldf (int (x 0))), en)
               else if small \<and> rp0 < 9 then Inr (fdiv quad (sg (ldf (int (x 0)))) (ldf (int (p10s (8 - rp0)))), en)
               else if small \<and> (bitlim > 30 \<or> x 0 div 2 ^ nat bitlim = 0)
               then Inr (fmul quad (sg (ldf (int (x 0)))) (ldf (int (p10s (rp0 - 10)))), en)
               else
                 (case upscale (align \<lparr> rx = x, ra = 0, rz = drop_zeros x k, rp = rp0, re2 = 0 \<rparr>) of
                    None \<Rightarrow> Inl No_return
                  | Some r1 \<Rightarrow>
                      (case downscale r1 of
                         None \<Rightarrow> Inl No_return
                       | Some r2 \<Rightarrow>
                           (case assemble [0, 1, 2, 3] r2 (FNum False 0) of
                              None \<Rightarrow> Inl Store_before
                            | Some (r3, y) \<Rightarrow> Inr (dec_round bits emin sign r3 y en))))))"


subsection \<open>hexfloat\<close>

record hscan =
  hx :: int
  hy :: fp
  hscale :: fp
  hrp :: int
  hdc :: int
  htail :: bool
  hdig :: bool
  hrad :: bool

definition hex_step :: "int \<Rightarrow> hscan \<Rightarrow> hscan" where
  "hex_step c st =
     (if c = 46 then st \<lparr> hrp := hdc st, hrad := True \<rparr>
      else (let d = (if c > 57 then (c OR 32) + 10 - 97 else c - 48);
                st1 = st \<lparr> hdig := True, hdc := hdc st + 1 \<rparr>
            in if hdc st < 8 then st1 \<lparr> hx := hx st * 16 + d \<rparr>
               else if hdc st < 113 div 4 + 1
               then (let sc = fdiv quad (hscale st) (ldf 16)
                     in st1 \<lparr> hscale := sc, hy := fadd quad (hy st) (fmul quad (ldf d) sc) \<rparr>)
               else if d \<noteq> 0 \<and> \<not> htail st
               then st1 \<lparr> hy := fadd quad (hy st) (fmul quad (FNum False (1 / 2)) (hscale st)), htail := True \<rparr>
               else st1))"

function hex_digits :: "byte list \<Rightarrow> int \<Rightarrow> nat \<Rightarrow> hscan \<Rightarrow> (int \<times> nat \<times> hscan) option" where
  "hex_digits s c p st =
     (if (dig c \<or> hex_letter c \<or> c = 46) \<and> \<not> (c = 46 \<and> hrad st)
      then (case shgetc s p of None \<Rightarrow> None | Some (c', p') \<Rightarrow> hex_digits s c' p' (hex_step c st))
      else Some (c, p, st))"
  by pat_completeness auto
termination
  by (relation "measure (\<lambda>(s, c, p, st). Suc (length s) - p)") (auto simp: shgetc_less)

declare hex_digits.simps [simp del]

text \<open>\<^verbatim>\<open>while (x < 0x80000000)\<close>: the fraction \<open>y\<close> feeds its leading bit into \<open>x\<close>.\<close>

partial_function (option) hex_norm :: "int \<Rightarrow> fp \<Rightarrow> int \<Rightarrow> (int \<times> fp \<times> int) option" where
  "hex_norm x y e2 =
     (if x < 2147483648
      then (if fge y (FNum False (1 / 2)) then hex_norm (x + x + 1) (fadd quad y (fsub quad y (ldf 1))) (e2 - 1)
            else hex_norm (x + x) (fadd quad y y) (e2 - 1))
      else Some (x, y, e2))"

declare hex_norm.simps [code]

definition hex_round :: "int \<Rightarrow> int \<Rightarrow> int \<Rightarrow> int \<Rightarrow> fp \<Rightarrow> int \<Rightarrow> int \<Rightarrow> fp \<times> int" where
  "hex_round bits0 emin sign x0 y0 e2 en =
     (let bits = (if bits0 > 32 + e2 - emin then max 0 (32 + e2 - emin) else bits0);
          bias = (if bits < 113 then fcopysign (fscalb double (FNum False 1) (32 + 113 - bits - 1)) (ldf sign) else FNum False 0);
          bump = (bits < 32 \<and> \<not> fzero y0 \<and> even x0);
          x = (if bump then x0 + 1 else x0);
          y = (if bump then FNum False 0 else y0);
          y1 = fadd quad (fadd quad bias (fmul quad (ldf sign) (ldf x))) (fmul quad (ldf sign) y);
          y2 = fsub quad y1 bias
      in (fscalb quad y2 e2, if fzero y2 then 34 else en))"

definition hex_convert :: "hscan \<Rightarrow> int \<Rightarrow> int \<Rightarrow> int \<Rightarrow> int \<Rightarrow> int \<Rightarrow> ub + (fp \<times> int)" where
  "hex_convert st e10 bits emin sign en =
     (let x = hx st * 16 ^ nat (8 - hdc st); e2 = e10 + 4 * hrp st - 32; sg = (\<lambda>v. fmul quad (ldf sign) v)
      in if x = 0 then Inr (sg (FNum False 0), en)
         else if e2 > - emin then Inr (fmul quad (sg LDBL_MAX) LDBL_MAX, 34)
         else if e2 < emin - 2 * 113 then Inr (fmul quad (sg LDBL_MIN) LDBL_MIN, 34)
         else (case hex_norm x (hy st) e2 of
                 None \<Rightarrow> Inl No_return
               | Some (x', y', e2') \<Rightarrow> Inr (hex_round bits emin sign x' y' e2' en)))"

datatype hscanned = HDone fp | HDigits hscan int

definition hex_scan :: "byte list \<Rightarrow> nat \<Rightarrow> int \<Rightarrow> bool \<Rightarrow> (nat \<times> hscanned) option" where
  "hex_scan s p0 sign pok = do {
     (c0, p1) \<leftarrow> shgetc s p0;
     (c1, p2, n1) \<leftarrow> zeros s c0 p1 0;
     (c2, p3, n2) \<leftarrow> (if c1 = 46 then do { (c, p) \<leftarrow> shgetc s p2; zeros s c p 0 } else Some (c1, p2, 0));
     (c3, p4, st0) \<leftarrow> hex_digits s c2 p3
        \<lparr> hx = 0, hy = FNum False 0, hscale = FNum False 1, hrp = - int n2, hdc = 0, htail = False,
          hdig = (n1 > 0 \<or> n2 > 0), hrad = (c1 = 46) \<rparr>;
     if \<not> hdig st0 then do {
       p5 \<leftarrow> shunget p4;
       p6 \<leftarrow> (if pok then do { p \<leftarrow> shunget p5; if hrad st0 then shunget p else Some p } else Some p5);
       Some (p6, HDone (fmul quad (ldf sign) (FNum False 0))) }
     else do {
       let st = (if hrad st0 then st0 else st0 \<lparr> hrp := hdc st0 \<rparr>);
       if c3 OR 32 = 112 then do {
         (e2, p5) \<leftarrow> scanexp s pok p4;
         if e2 = LLONG_MIN then
           (if pok then do { p6 \<leftarrow> shunget p5; Some (p6, HDigits st 0) } else Some (p5, HDone (FNum False 0)))
         else Some (p5, HDigits st e2) }
       else do { p5 \<leftarrow> shunget p4; Some (p5, HDigits st 0) } } }"

subsection \<open>floatscan\<close>

text \<open>
  Matching \<^verbatim>\<open>"infinity"\<close> and \<^verbatim>\<open>"nan"\<close>: \<open>i\<close> characters match, and the next is read unless the word is
  complete.
\<close>

fun match_word :: "string \<Rightarrow> byte list \<Rightarrow> int \<Rightarrow> nat \<Rightarrow> nat \<Rightarrow> (int \<times> nat \<times> nat) option" where
  "match_word [] s c p i = Some (c, p, i)"
| "match_word (w # ws) s c p i =
     (if c OR 32 = ord w
      then (if ws \<noteq> [] then (case shgetc s p of None \<Rightarrow> None | Some (c', p') \<Rightarrow> match_word ws s c' p' (i + 1))
            else Some (c, p, i + 1))
      else Some (c, p, i))"

primrec ungets :: "nat \<Rightarrow> nat \<Rightarrow> nat option" where
  "ungets 0 p = Some p"
| "ungets (Suc n) p = (case shunget p of None \<Rightarrow> None | Some p' \<Rightarrow> ungets n p')"

text \<open>The characters in the parentheses after \<^verbatim>\<open>nan\<close>; \<open>i\<close> counts what has been read. \<open>True\<close>: closed.\<close>

function nan_chars :: "byte list \<Rightarrow> nat \<Rightarrow> nat \<Rightarrow> (bool \<times> nat \<times> nat) option" where
  "nan_chars s p i =
     (case shgetc s p of
        None \<Rightarrow> None
      | Some (c, p') \<Rightarrow>
          if dig c \<or> upper_c c \<or> lower_c c \<or> c = 95 then nan_chars s p' (i + 1)
          else Some (c = 41, p', i))"
  by pat_completeness auto
termination
  by (relation "measure (\<lambda>(s, p, i). Suc (length s) - p)") (auto simp: shgetc_less)

declare nan_chars.simps [simp del]

definition nan_scan :: "byte list \<Rightarrow> nat \<Rightarrow> bool \<Rightarrow> int \<Rightarrow> (fp \<times> nat \<times> int) option" where
  "nan_scan s p pok en = do {
     (c, p1) \<leftarrow> shgetc s p;
     if c \<noteq> 40 then do { p2 \<leftarrow> shunget p1; Some (FNaN, p2, en) }
     else do {
       (closed, p2, i) \<leftarrow> nan_chars s p1 1;
       if closed then Some (FNaN, p2, en)
       else do {
         p3 \<leftarrow> shunget p2;
         if \<not> pok then Some (FNum False 0, p3, 22)
         else do { p4 \<leftarrow> ungets i p3; Some (FNaN, p4, en) } } } }"

definition inf_back :: "nat \<Rightarrow> bool \<Rightarrow> nat \<Rightarrow> nat option" where
  "inf_back i pok p =
     (if i \<noteq> 8 then do { p1 \<leftarrow> shunget p; if pok then ungets (i - 3) p1 else Some p1 } else Some p)"

text \<open>The formats: \<^verbatim>\<open>prec\<close> 0, 1, 2.\<close>

definition prec_fmt :: "int \<Rightarrow> fmt option" where
  "prec_fmt prec = (if prec = 0 then Some single else if prec = 1 then Some double else if prec = 2 then Some quad else None)"

definition number :: "(nat \<Rightarrow> nat) \<Rightarrow> byte list \<Rightarrow> int \<Rightarrow> nat \<Rightarrow> fmt \<Rightarrow> int \<Rightarrow> bool \<Rightarrow> int \<Rightarrow> ub + (fp \<times> nat \<times> int)" where
  "number u s c p F sign pok en =
     (let dec = (\<lambda>c p. case dec_scan u s p c pok of
                    None \<Rightarrow> Inl Read_outside
                  | Some (p', Done v e) \<Rightarrow> Inr (v, p', (case e of None \<Rightarrow> en | Some e' \<Rightarrow> e'))
                  | Some (p', Digits st) \<Rightarrow>
                      (case dec_convert st (mant F) (least F) sign en of
                         Inl b \<Rightarrow> Inl b | Inr (v, e) \<Rightarrow> Inr (v, p', e)));
          hex = (\<lambda>p. case hex_scan s p sign pok of
                    None \<Rightarrow> Inl Read_outside
                  | Some (p', HDone v) \<Rightarrow> Inr (v, p', en)
                  | Some (p', HDigits st e) \<Rightarrow>
                      (case hex_convert st e (mant F) (least F) sign en of
                         Inl b \<Rightarrow> Inl b | Inr (v, e') \<Rightarrow> Inr (v, p', e')))
      in if c = 48
         then (case shgetc s p of
                 None \<Rightarrow> Inl Read_outside
               | Some (c', p1) \<Rightarrow>
                   if c' OR 32 = 120 then hex p1
                   else (case shunget p1 of None \<Rightarrow> Inl Read_outside | Some p2 \<Rightarrow> dec 48 p2))
         else dec c p)"

text \<open>What precedes the number: white space, sign, the words. The result is final or the number follows.\<close>

datatype prefixed = Final fp nat int | Number int nat int

definition prefix_scan :: "byte list \<Rightarrow> bool \<Rightarrow> int \<Rightarrow> prefixed option" where
  "prefix_scan s pok en = do {
     (c0, p0) \<leftarrow> spaces s 0;
     let sign = (if c0 = 45 then -1 else 1);
     (c1, p1) \<leftarrow> (if c0 = 43 \<or> c0 = 45 then shgetc s p0 else Some (c0, p0));
     (c2, p2, i) \<leftarrow> match_word ''infinity'' s c1 p1 0;
     if i = 3 \<or> i = 8 \<or> i > 3 \<and> pok
     then do { p3 \<leftarrow> inf_back i pok p2; Some (Final (FInf (sign < 0)) p3 en) }
     else do {
       (c3, p3, i3) \<leftarrow> (if i = 0 then match_word ''nan'' s c2 p2 0 else Some (c2, p2, i));
       if i3 = 3 then do { (v, p, e) \<leftarrow> nan_scan s p3 pok en; Some (Final v p e) }
       else if i3 \<noteq> 0 then do { p4 \<leftarrow> shunget p3; Some (Final (FNum False 0) p4 22) }
       else Some (Number c3 p3 sign) } }"

definition floatscan :: "(nat \<Rightarrow> nat) \<Rightarrow> byte list \<Rightarrow> int \<Rightarrow> bool \<Rightarrow> int \<Rightarrow> ub + (fp \<times> nat \<times> int)" where
  "floatscan u s prec pok en =
     (case prec_fmt prec of
        None \<Rightarrow> Inr (FNum False 0, 0, en)
      | Some F \<Rightarrow>
          (case prefix_scan s pok en of
             None \<Rightarrow> Inl Read_outside
           | Some (Final v p e) \<Rightarrow> Inr (v, p, e)
           | Some (Number c p sign) \<Rightarrow> number u s c p F sign pok en))"

text \<open>\<^verbatim>\<open>strtox\<close>: the value, the offset of the end pointer and \<^verbatim>\<open>errno\<close>; the callers convert to their type.\<close>

definition strtox :: "(nat \<Rightarrow> nat) \<Rightarrow> byte list \<Rightarrow> int \<Rightarrow> int \<Rightarrow> ub + (fp \<times> nat \<times> int)" where
  "strtox u s prec en = floatscan u s prec True en"

definition conv_result :: "fmt \<Rightarrow> ub + (fp \<times> nat \<times> int) \<Rightarrow> ub + (fp \<times> nat \<times> int)" where
  "conv_result F r = (case r of Inl b \<Rightarrow> Inl b | Inr (v, p, e) \<Rightarrow> Inr (fconv F v, p, e))"

definition strtof :: "(nat \<Rightarrow> nat) \<Rightarrow> byte list \<Rightarrow> int \<Rightarrow> ub + (fp \<times> nat \<times> int)" where
  "strtof u s en = conv_result single (strtox u s 0 en)"

definition strtod :: "(nat \<Rightarrow> nat) \<Rightarrow> byte list \<Rightarrow> int \<Rightarrow> ub + (fp \<times> nat \<times> int)" where
  "strtod u s en = conv_result double (strtox u s 1 en)"

definition strtold :: "(nat \<Rightarrow> nat) \<Rightarrow> byte list \<Rightarrow> int \<Rightarrow> ub + (fp \<times> nat \<times> int)" where
  "strtold u s en = strtox u s 2 en"

end
