(* ===== verification/Wchar.thy ===== *)
theory Wchar
  imports CString Printf FloatScan
begin

unbundle bit_operations_syntax

text \<open>
  \<^verbatim>\<open>src/wchar.c\<close>: wide strings, the multibyte conversions of the C locale (one byte is one character),
  wide classes, \<open>swprintf\<close> and the wide stream functions.

  Wide memory is a partial map from element addresses (the address of a \<^verbatim>\<open>wchar_t\<close> divided by its size)
  to \<^verbatim>\<open>int\<close> values; an access outside its domain makes the call \<open>None\<close>. \<open>NULL\<close> is 0.
\<close>

type_synonym wmem = "nat \<rightharpoonup> int"

abbreviation (input) WEOF :: int where "WEOF \<equiv> -1"
abbreviation (input) EOVERFLOW :: int where "EOVERFLOW \<equiv> 75"

definition wstore :: "wmem \<Rightarrow> nat \<Rightarrow> int \<Rightarrow> wmem option" where
  "wstore m p c = (case m p of None \<Rightarrow> None | Some _ \<Rightarrow> Some (m(p \<mapsto> c)))"

subsection \<open>Strings\<close>

partial_function (option) wcslen_loop :: "wmem \<Rightarrow> nat \<Rightarrow> nat option" where
  "wcslen_loop m p = do { c \<leftarrow> m p; if c \<noteq> 0 then wcslen_loop m (p + 1) else Some p }"

definition wcslen :: "wmem \<Rightarrow> nat \<Rightarrow> nat option" where
  "wcslen m s = do { p \<leftarrow> wcslen_loop m s; Some (p - s) }"

partial_function (option) wcscpy_loop :: "wmem \<Rightarrow> nat \<Rightarrow> nat \<Rightarrow> wmem option" where
  "wcscpy_loop m d s = do { c \<leftarrow> m s; m' \<leftarrow> wstore m d c; if c \<noteq> 0 then wcscpy_loop m' (d + 1) (s + 1) else Some m' }"

definition wcscpy :: "wmem \<Rightarrow> nat \<Rightarrow> nat \<Rightarrow> (nat \<times> wmem) option" where
  "wcscpy m d s = do { m' \<leftarrow> wcscpy_loop m d s; Some (d, m') }"

text \<open>The two loops of \<open>wcsncpy\<close>; \<open>k\<close> elements are left.\<close>

fun wcsncpy_copy :: "nat \<Rightarrow> wmem \<Rightarrow> nat \<Rightarrow> nat \<Rightarrow> nat \<Rightarrow> (wmem \<times> nat) option" where
  "wcsncpy_copy 0 m d s i = Some (m, i)"
| "wcsncpy_copy (Suc k) m d s i =
     do { c \<leftarrow> m (s + i); if c \<noteq> 0 then do { m' \<leftarrow> wstore m (d + i) c; wcsncpy_copy k m' d s (i + 1) } else Some (m, i) }"

fun wfill :: "nat \<Rightarrow> wmem \<Rightarrow> nat \<Rightarrow> int \<Rightarrow> nat \<Rightarrow> wmem option" where
  "wfill 0 m d c i = Some m"
| "wfill (Suc k) m d c i = do { m' \<leftarrow> wstore m (d + i) c; wfill k m' d c (i + 1) }"

definition wcsncpy :: "wmem \<Rightarrow> nat \<Rightarrow> nat \<Rightarrow> nat \<Rightarrow> (nat \<times> wmem) option" where
  "wcsncpy m d s n = do { (m1, i) \<leftarrow> wcsncpy_copy n m d s 0; m2 \<leftarrow> wfill (n - i) m1 d 0 i; Some (d, m2) }"

definition wcscat :: "wmem \<Rightarrow> nat \<Rightarrow> nat \<Rightarrow> (nat \<times> wmem) option" where
  "wcscat m d s = do { l \<leftarrow> wcslen m d; (p, m') \<leftarrow> wcscpy m (d + l) s; Some (d, m') }"

fun wcsncat_loop :: "nat \<Rightarrow> wmem \<Rightarrow> nat \<Rightarrow> nat \<Rightarrow> (wmem \<times> nat) option" where
  "wcsncat_loop 0 m p s = Some (m, p)"
| "wcsncat_loop (Suc n) m p s =
     do { c \<leftarrow> m s; if c \<noteq> 0 then do { m' \<leftarrow> wstore m p c; wcsncat_loop n m' (p + 1) (s + 1) } else Some (m, p) }"

definition wcsncat :: "wmem \<Rightarrow> nat \<Rightarrow> nat \<Rightarrow> nat \<Rightarrow> (nat \<times> wmem) option" where
  "wcsncat m d s n = do { l \<leftarrow> wcslen m d; (m1, p) \<leftarrow> wcsncat_loop n m (d + l) s; m2 \<leftarrow> wstore m1 p 0; Some (d, m2) }"

partial_function (option) wcscmp :: "wmem \<Rightarrow> nat \<Rightarrow> nat \<Rightarrow> int option" where
  "wcscmp m a b =
     do { x \<leftarrow> m a; y \<leftarrow> m b;
          if x \<noteq> 0 \<and> x = y then wcscmp m (a + 1) (b + 1) else Some (if x < y then -1 else if x > y then 1 else 0) }"

fun wcsncmp :: "nat \<Rightarrow> wmem \<Rightarrow> nat \<Rightarrow> nat \<Rightarrow> int option" where
  "wcsncmp 0 m a b = Some 0"
| "wcsncmp (Suc n) m a b =
     do { x \<leftarrow> m a; y \<leftarrow> m b;
          if x \<noteq> y then Some (if x < y then -1 else 1) else if x = 0 then Some 0 else wcsncmp n m (a + 1) (b + 1) }"

definition wcscoll :: "wmem \<Rightarrow> nat \<Rightarrow> nat \<Rightarrow> int option" where
  "wcscoll m a b = wcscmp m a b"

definition wcsxfrm :: "wmem \<Rightarrow> nat \<Rightarrow> nat \<Rightarrow> nat \<Rightarrow> (nat \<times> wmem) option" where
  "wcsxfrm m d s n =
     do { len \<leftarrow> wcslen m s;
          (p, m') \<leftarrow> (if n \<noteq> 0 then wcsncpy m d s (if len < n then len + 1 else n) else Some (d, m));
          Some (len, m') }"

definition wcscoll_l :: "wmem \<Rightarrow> nat \<Rightarrow> nat \<Rightarrow> 'l \<Rightarrow> int option" where "wcscoll_l m a b l = wcscoll m a b"
definition wcsxfrm_l :: "wmem \<Rightarrow> nat \<Rightarrow> nat \<Rightarrow> nat \<Rightarrow> 'l \<Rightarrow> (nat \<times> wmem) option" where "wcsxfrm_l m d s n l = wcsxfrm m d s n"

partial_function (option) wcschr :: "wmem \<Rightarrow> nat \<Rightarrow> int \<Rightarrow> nat option" where
  "wcschr m s c = do { x \<leftarrow> m s; if x = c then Some s else if x = 0 then Some NULL else wcschr m (s + 1) c }"

partial_function (option) wcsrchr_loop :: "wmem \<Rightarrow> nat \<Rightarrow> int \<Rightarrow> nat \<Rightarrow> nat option" where
  "wcsrchr_loop m s c r =
     do { x \<leftarrow> m s; let r' = (if x = c then s else r); if x = 0 then Some r' else wcsrchr_loop m (s + 1) c r' }"

definition wcsrchr :: "wmem \<Rightarrow> nat \<Rightarrow> int \<Rightarrow> nat option" where
  "wcsrchr m s c = wcsrchr_loop m s c NULL"

partial_function (option) wspan_loop :: "bool \<Rightarrow> wmem \<Rightarrow> nat \<Rightarrow> nat \<Rightarrow> nat \<Rightarrow> nat option" where
  "wspan_loop inside m s cset n =
     do { c \<leftarrow> m (s + n);
          if c = 0 then Some n
          else do { q \<leftarrow> wcschr m cset c; if (q \<noteq> NULL) = inside then wspan_loop inside m s cset (n + 1) else Some n } }"

definition wcsspn :: "wmem \<Rightarrow> nat \<Rightarrow> nat \<Rightarrow> nat option" where
  "wcsspn m s accept = wspan_loop True m s accept 0"

definition wcscspn :: "wmem \<Rightarrow> nat \<Rightarrow> nat \<Rightarrow> nat option" where
  "wcscspn m s reject = wspan_loop False m s reject 0"

definition wcspbrk :: "wmem \<Rightarrow> nat \<Rightarrow> nat \<Rightarrow> nat option" where
  "wcspbrk m s accept = do { n \<leftarrow> wcscspn m s accept; c \<leftarrow> m (s + n); Some (if c \<noteq> 0 then s + n else NULL) }"

partial_function (option) wcsstr_loop :: "wmem \<Rightarrow> nat \<Rightarrow> nat \<Rightarrow> nat \<Rightarrow> nat option" where
  "wcsstr_loop m h n nl =
     do { x \<leftarrow> m h;
          if x = 0 then Some NULL
          else do { y \<leftarrow> m n;
                    r \<leftarrow> (if x = y then wcsncmp nl m h n else Some 1);
                    if r = 0 then Some h else wcsstr_loop m (h + 1) n nl } }"

definition wcsstr :: "wmem \<Rightarrow> nat \<Rightarrow> nat \<Rightarrow> nat option" where
  "wcsstr m h n = do { nl \<leftarrow> wcslen m n; if nl = 0 then Some h else wcsstr_loop m h n nl }"

text \<open>The token, the saved pointer and the memory.\<close>

definition wcstok :: "wmem \<Rightarrow> nat \<Rightarrow> nat \<Rightarrow> nat \<Rightarrow> (nat \<times> nat \<times> wmem) option" where
  "wcstok m s0 delim save =
     (let s1 = (if s0 = NULL then save else s0) in
      do { k \<leftarrow> wcsspn m s1 delim;
           c \<leftarrow> m (s1 + k);
           if c = 0 then Some (NULL, s1 + k, m)
           else do { j \<leftarrow> wcscspn m (s1 + k) delim;
                     e \<leftarrow> m (s1 + k + j);
                     if e \<noteq> 0 then do { m' \<leftarrow> wstore m (s1 + k + j) 0; Some (s1 + k, s1 + k + j + 1, m') }
                     else Some (s1 + k, s1 + k + j, m) } })"

fun wmemchr :: "nat \<Rightarrow> wmem \<Rightarrow> nat \<Rightarrow> int \<Rightarrow> nat option" where
  "wmemchr 0 m s c = Some NULL"
| "wmemchr (Suc n) m s c = do { x \<leftarrow> m s; if x = c then Some s else wmemchr n m (s + 1) c }"

fun wmemcmp :: "nat \<Rightarrow> wmem \<Rightarrow> nat \<Rightarrow> nat \<Rightarrow> int option" where
  "wmemcmp 0 m a b = Some 0"
| "wmemcmp (Suc n) m a b =
     do { x \<leftarrow> m a; y \<leftarrow> m b; if x \<noteq> y then Some (if x < y then -1 else 1) else wmemcmp n m (a + 1) (b + 1) }"

text \<open>\<open>memcpy\<close> and \<open>memmove\<close> of whole elements: all are read, then all are written.\<close>

fun wload :: "wmem \<Rightarrow> nat \<Rightarrow> nat \<Rightarrow> int list option" where
  "wload m p 0 = Some []"
| "wload m p (Suc n) = do { c \<leftarrow> m p; cs \<leftarrow> wload m (p + 1) n; Some (c # cs) }"

fun wstores :: "wmem \<Rightarrow> nat \<Rightarrow> int list \<Rightarrow> wmem option" where
  "wstores m p [] = Some m"
| "wstores m p (c # cs) = do { m' \<leftarrow> wstore m p c; wstores m' (p + 1) cs }"

definition wmemcpy :: "wmem \<Rightarrow> nat \<Rightarrow> nat \<Rightarrow> nat \<Rightarrow> (nat \<times> wmem) option" where
  "wmemcpy m d s n = do { cs \<leftarrow> wload m s n; m' \<leftarrow> wstores m d cs; Some (d, m') }"

definition wmemmove :: "wmem \<Rightarrow> nat \<Rightarrow> nat \<Rightarrow> nat \<Rightarrow> (nat \<times> wmem) option" where
  "wmemmove m d s n = do { cs \<leftarrow> wload m s n; m' \<leftarrow> wstores m d cs; Some (d, m') }"

definition wmemset :: "wmem \<Rightarrow> nat \<Rightarrow> int \<Rightarrow> nat \<Rightarrow> (nat \<times> wmem) option" where
  "wmemset m d c n = do { m' \<leftarrow> wfill n m d c 0; Some (d, m') }"

subsection \<open>Numbers\<close>

text \<open>\<^verbatim>\<open>NARROW\<close> into a buffer with room for \<open>k\<close> characters.\<close>

fun narrow :: "nat \<Rightarrow> wmem \<Rightarrow> nat \<Rightarrow> string option" where
  "narrow 0 m s = Some []"
| "narrow (Suc k) m s =
     do { c \<leftarrow> m s; if c > 0 \<and> c < 0x80 then do { r \<leftarrow> narrow k m (s + 1); Some (chr c # r) } else Some [] }"

text \<open>\<^verbatim>\<open>WEND\<close>: where the rest \<open>e\<close> of the buffer \<open>b\<close> lies in the wide string.\<close>

definition wend :: "nat \<Rightarrow> string \<Rightarrow> string \<Rightarrow> nat" where
  "wend s b e = s + (length b - length e)"

definition wcstol :: "wmem \<Rightarrow> nat \<Rightarrow> int \<Rightarrow> (int \<times> nat) option" where
  "wcstol m s base = do { b \<leftarrow> narrow 127 m s; (r, e) \<leftarrow> strtol b base; Some (r, wend s b e) }"

definition wcstoul :: "wmem \<Rightarrow> nat \<Rightarrow> int \<Rightarrow> (u64 \<times> nat) option" where
  "wcstoul m s base = do { b \<leftarrow> narrow 127 m s; (r, e) \<leftarrow> strtoul b base; Some (r, wend s b e) }"

definition wcstoll :: "wmem \<Rightarrow> nat \<Rightarrow> int \<Rightarrow> (int \<times> nat) option" where
  "wcstoll m s base = do { b \<leftarrow> narrow 127 m s; (r, e) \<leftarrow> strtoll b base; Some (r, wend s b e) }"

definition wcstoull :: "wmem \<Rightarrow> nat \<Rightarrow> int \<Rightarrow> (u64 \<times> nat) option" where
  "wcstoull m s base = do { b \<leftarrow> narrow 127 m s; (r, e) \<leftarrow> strtoull b base; Some (r, wend s b e) }"

text \<open>The floating-point functions narrow into a larger buffer. \<open>Inl\<close> is an access outside the buffer in \<^verbatim>\<open>strtod\<close>;
  the limbs \<open>u\<close> and the error number \<open>en\<close> are those of \<open>FloatScan\<close>.\<close>

definition wfloat :: "(string \<Rightarrow> ub + (fp \<times> nat \<times> int)) \<Rightarrow> wmem \<Rightarrow> nat \<Rightarrow> (ub + (fp \<times> nat \<times> int)) option" where
  "wfloat conv m s = do { b \<leftarrow> narrow 511 m s;
     Some (case conv b of Inl x \<Rightarrow> Inl x | Inr (r, e, en) \<Rightarrow> Inr (r, s + e, en)) }"

definition wcstod :: "(nat \<Rightarrow> nat) \<Rightarrow> wmem \<Rightarrow> nat \<Rightarrow> int \<Rightarrow> (ub + (fp \<times> nat \<times> int)) option" where
  "wcstod u m s en = wfloat (\<lambda>b. strtod u b en) m s"

definition wcstof :: "(nat \<Rightarrow> nat) \<Rightarrow> wmem \<Rightarrow> nat \<Rightarrow> int \<Rightarrow> (ub + (fp \<times> nat \<times> int)) option" where
  "wcstof u m s en = wfloat (\<lambda>b. strtof u b en) m s"

definition wcstold :: "(nat \<Rightarrow> nat) \<Rightarrow> wmem \<Rightarrow> nat \<Rightarrow> int \<Rightarrow> (ub + (fp \<times> nat \<times> int)) option" where
  "wcstold u m s en = wfloat (\<lambda>b. strtold u b en) m s"

subsection \<open>Multibyte characters\<close>

definition btowc :: "int \<Rightarrow> int" where
  "btowc c = (if c = -1 then WEOF else c mod 256)"

definition wctob :: "int \<Rightarrow> int" where
  "wctob c = (if 0 \<le> c \<and> c \<le> 0xff then c else -1)"

definition mbsinit :: "bool" where
  "mbsinit = True"

text \<open>The result (a \<^verbatim>\<open>size_t\<close>) and the wide character stored.\<close>

definition mbrtowc :: "mem \<Rightarrow> nat \<Rightarrow> nat \<Rightarrow> (nat \<times> int option) option" where
  "mbrtowc m s n =
     (if s = NULL then Some (0, None)
      else if n = 0 then Some (2 ^ 64 - 2, None)
      else do { b \<leftarrow> m s; let c = ord b in Some (if c \<noteq> 0 then 1 else 0, Some c) })"

definition mbrlen :: "mem \<Rightarrow> nat \<Rightarrow> nat \<Rightarrow> nat option" where
  "mbrlen m s n = do { (r, c) \<leftarrow> mbrtowc m s n; Some r }"

text \<open>The result, the byte stored and the error number set. The target may be null.\<close>

definition wcrtomb :: "nat \<Rightarrow> int \<Rightarrow> nat \<times> byte option \<times> int option" where
  "wcrtomb s wc =
     (if s = NULL then (1, None, None)
      else if wc < 0 \<or> wc > 0xff then (2 ^ 64 - 1, None, Some EILSEQ) else (1, Some (chr wc), None))"

text \<open>\<open>n\<close> and \<open>nms\<close> are the bounds; the result is the count, the wide memory and what \<^verbatim>\<open>*src\<close> becomes
  (unchanged without a target).\<close>

function mbsn_loop :: "mem \<Rightarrow> wmem \<Rightarrow> nat \<Rightarrow> nat \<Rightarrow> nat \<Rightarrow> nat \<Rightarrow> nat \<Rightarrow> (nat \<times> wmem \<times> nat) option" where
  "mbsn_loop m w d s nms n i =
     (if i < nms \<and> (d = NULL \<or> i < n)
      then do { b \<leftarrow> m (s + i);
                let c = ord b in
                do { w' \<leftarrow> (if d \<noteq> NULL then wstore w (d + i) c else Some w);
                     if c = 0 then Some (i, w', if d \<noteq> NULL then NULL else s) else mbsn_loop m w' d s nms n (i + 1) } }
      else Some (i, w, if d \<noteq> NULL then s + i else s))"
  by pat_completeness auto
termination by (relation "measure (\<lambda>(m, w, d, s, nms, n, i). nms - i)") auto

declare mbsn_loop.simps [simp del]

definition mbsnrtowcs :: "mem \<Rightarrow> wmem \<Rightarrow> nat \<Rightarrow> nat \<Rightarrow> nat \<Rightarrow> nat \<Rightarrow> (nat \<times> wmem \<times> nat) option" where
  "mbsnrtowcs m w d src nms n = mbsn_loop m w d src nms n 0"

definition mbsrtowcs :: "mem \<Rightarrow> wmem \<Rightarrow> nat \<Rightarrow> nat \<Rightarrow> nat \<Rightarrow> (nat \<times> wmem \<times> nat) option" where
  "mbsrtowcs m w d src n = mbsnrtowcs m w d src (2 ^ 64 - 1) n"

text \<open>A wide character without a byte ends the conversion with \<open>EILSEQ\<close>: the result is then \<open>2 ^ 64 - 1\<close>.\<close>

function wcsn_loop :: "wmem \<Rightarrow> mem \<Rightarrow> nat \<Rightarrow> nat \<Rightarrow> nat \<Rightarrow> nat \<Rightarrow> nat \<Rightarrow> (nat \<times> mem \<times> nat \<times> int option) option" where
  "wcsn_loop w m d s nwc n i =
     (if i < nwc \<and> (d = NULL \<or> i < n)
      then do { c \<leftarrow> w (s + i);
                if c < 0 \<or> c > 0xff then Some (2 ^ 64 - 1, m, if d \<noteq> NULL then s + i else s, Some EILSEQ)
                else do { m' \<leftarrow> (if d \<noteq> NULL then store m (d + i) (chr c) else Some m);
                          if c = 0 then Some (i, m', if d \<noteq> NULL then NULL else s, None) else wcsn_loop w m' d s nwc n (i + 1) } }
      else Some (i, m, if d \<noteq> NULL then s + i else s, None))"
  by pat_completeness auto
termination by (relation "measure (\<lambda>(w, m, d, s, nwc, n, i). nwc - i)") auto

declare wcsn_loop.simps [simp del]

definition wcsnrtombs :: "wmem \<Rightarrow> mem \<Rightarrow> nat \<Rightarrow> nat \<Rightarrow> nat \<Rightarrow> nat \<Rightarrow> (nat \<times> mem \<times> nat \<times> int option) option" where
  "wcsnrtombs w m d src nwc n = wcsn_loop w m d src nwc n 0"

definition wcsrtombs :: "wmem \<Rightarrow> mem \<Rightarrow> nat \<Rightarrow> nat \<Rightarrow> nat \<Rightarrow> (nat \<times> mem \<times> nat \<times> int option) option" where
  "wcsrtombs w m d src n = wcsnrtombs w m d src (2 ^ 64 - 1) n"

definition mblen :: "mem \<Rightarrow> nat \<Rightarrow> nat \<Rightarrow> int option" where
  "mblen m s n = (if s \<noteq> NULL \<and> n \<noteq> 0 then do { b \<leftarrow> m s; Some (if b \<noteq> NUL then 1 else 0) } else Some 0)"

definition mbtowc :: "mem \<Rightarrow> nat \<Rightarrow> nat \<Rightarrow> (int \<times> int option) option" where
  "mbtowc m s n =
     (if s = NULL then Some (0, None) else if n = 0 then Some (-1, None)
      else do { b \<leftarrow> m s; Some (if b \<noteq> NUL then 1 else 0, Some (ord b)) })"

definition wctomb :: "nat \<Rightarrow> int \<Rightarrow> int \<times> byte option \<times> int option" where
  "wctomb s wc =
     (if s = NULL then (0, None, None)
      else if wc < 0 \<or> wc > 0xff then (-1, None, Some EILSEQ) else (1, Some (chr wc), None))"

definition mbstowcs :: "mem \<Rightarrow> wmem \<Rightarrow> nat \<Rightarrow> nat \<Rightarrow> nat \<Rightarrow> (nat \<times> wmem) option" where
  "mbstowcs m w d s n = do { (r, w', p) \<leftarrow> mbsrtowcs m w d s n; Some (r, w') }"

definition wcstombs :: "wmem \<Rightarrow> mem \<Rightarrow> nat \<Rightarrow> nat \<Rightarrow> nat \<Rightarrow> (nat \<times> mem \<times> int option) option" where
  "wcstombs w m d s n = do { (r, m', p, e) \<leftarrow> wcsrtombs w m d s n; Some (r, m', e) }"

subsection \<open>Classes\<close>

definition ascii :: "int \<Rightarrow> bool" where
  "ascii c \<longleftrightarrow> 0 \<le> c \<and> c < 0x80"

definition iswalnum :: "int \<Rightarrow> bool" where "iswalnum c \<longleftrightarrow> ascii c \<and> isalnum c"
definition iswalpha :: "int \<Rightarrow> bool" where "iswalpha c \<longleftrightarrow> ascii c \<and> isalpha c"
definition iswblank :: "int \<Rightarrow> bool" where "iswblank c \<longleftrightarrow> ascii c \<and> isblank c"
definition iswcntrl :: "int \<Rightarrow> bool" where "iswcntrl c \<longleftrightarrow> ascii c \<and> iscntrl c"
definition iswdigit :: "int \<Rightarrow> bool" where "iswdigit c \<longleftrightarrow> ascii c \<and> isdigit c"
definition iswgraph :: "int \<Rightarrow> bool" where "iswgraph c \<longleftrightarrow> ascii c \<and> isgraph c"
definition iswlower :: "int \<Rightarrow> bool" where "iswlower c \<longleftrightarrow> ascii c \<and> islower c"
definition iswprint :: "int \<Rightarrow> bool" where "iswprint c \<longleftrightarrow> ascii c \<and> isprint c"
definition iswpunct :: "int \<Rightarrow> bool" where "iswpunct c \<longleftrightarrow> ascii c \<and> ispunct c"
definition iswspace :: "int \<Rightarrow> bool" where "iswspace c \<longleftrightarrow> ascii c \<and> isspace c"
definition iswupper :: "int \<Rightarrow> bool" where "iswupper c \<longleftrightarrow> ascii c \<and> isupper c"
definition iswxdigit :: "int \<Rightarrow> bool" where "iswxdigit c \<longleftrightarrow> ascii c \<and> isxdigit c"

definition towlower :: "int \<Rightarrow> int" where "towlower c = (if ascii c then tolower c else c)"
definition towupper :: "int \<Rightarrow> int" where "towupper c = (if ascii c then toupper c else c)"

definition class_names :: "string list" where
  "class_names = [''alnum'', ''alpha'', ''blank'', ''cntrl'', ''digit'', ''graph'', ''lower'', ''print'', ''punct'', ''space'', ''upper'', ''xdigit'']"

definition class_fns :: "(int \<Rightarrow> bool) list" where
  "class_fns = [iswalnum, iswalpha, iswblank, iswcntrl, iswdigit, iswgraph, iswlower, iswprint, iswpunct, iswspace, iswupper, iswxdigit]"

fun wctype_loop :: "string \<Rightarrow> string list \<Rightarrow> nat \<Rightarrow> nat" where
  "wctype_loop name [] i = 0"
| "wctype_loop name (c # cs) i = (if name = c then i + 1 else wctype_loop name cs (i + 1))"

definition wctype :: "string \<Rightarrow> nat" where
  "wctype name = wctype_loop name class_names 0"

definition iswctype :: "int \<Rightarrow> nat \<Rightarrow> bool" where
  "iswctype c t \<longleftrightarrow> 1 \<le> t \<and> t \<le> length class_fns \<and> (class_fns ! (t - 1)) c"

text \<open>The pointers \<^verbatim>\<open>&trans_lower\<close>, \<^verbatim>\<open>&trans_upper\<close> and null.\<close>

datatype wctrans = TransLower | TransUpper | NoTrans

definition wctrans_c :: "string \<Rightarrow> wctrans" where
  "wctrans_c name = (if name = ''tolower'' then TransLower else if name = ''toupper'' then TransUpper else NoTrans)"

definition towctrans :: "int \<Rightarrow> wctrans \<Rightarrow> int" where
  "towctrans c t = (case t of TransLower \<Rightarrow> towlower c | TransUpper \<Rightarrow> towupper c | NoTrans \<Rightarrow> c)"

definition iswalnum_l :: "int \<Rightarrow> 'l \<Rightarrow> bool" where "iswalnum_l c l = iswalnum c"
definition iswalpha_l :: "int \<Rightarrow> 'l \<Rightarrow> bool" where "iswalpha_l c l = iswalpha c"
definition iswblank_l :: "int \<Rightarrow> 'l \<Rightarrow> bool" where "iswblank_l c l = iswblank c"
definition iswcntrl_l :: "int \<Rightarrow> 'l \<Rightarrow> bool" where "iswcntrl_l c l = iswcntrl c"
definition iswdigit_l :: "int \<Rightarrow> 'l \<Rightarrow> bool" where "iswdigit_l c l = iswdigit c"
definition iswgraph_l :: "int \<Rightarrow> 'l \<Rightarrow> bool" where "iswgraph_l c l = iswgraph c"
definition iswlower_l :: "int \<Rightarrow> 'l \<Rightarrow> bool" where "iswlower_l c l = iswlower c"
definition iswprint_l :: "int \<Rightarrow> 'l \<Rightarrow> bool" where "iswprint_l c l = iswprint c"
definition iswpunct_l :: "int \<Rightarrow> 'l \<Rightarrow> bool" where "iswpunct_l c l = iswpunct c"
definition iswspace_l :: "int \<Rightarrow> 'l \<Rightarrow> bool" where "iswspace_l c l = iswspace c"
definition iswupper_l :: "int \<Rightarrow> 'l \<Rightarrow> bool" where "iswupper_l c l = iswupper c"
definition iswxdigit_l :: "int \<Rightarrow> 'l \<Rightarrow> bool" where "iswxdigit_l c l = iswxdigit c"
definition iswctype_l :: "int \<Rightarrow> nat \<Rightarrow> 'l \<Rightarrow> bool" where "iswctype_l c t l = iswctype c t"
definition towlower_l :: "int \<Rightarrow> 'l \<Rightarrow> int" where "towlower_l c l = towlower c"
definition towupper_l :: "int \<Rightarrow> 'l \<Rightarrow> int" where "towupper_l c l = towupper c"

subsection \<open>Formatted output\<close>

text \<open>The format is narrowed into a buffer of 256 bytes; \<open>Inl\<close> is the error number.\<close>

fun narrow_fmt :: "nat \<Rightarrow> int list \<Rightarrow> int + string" where
  "narrow_fmt k [] = Inr []"
| "narrow_fmt k (c # cs) =
     (if k = 0 then Inl EOVERFLOW
      else if c < 0 \<or> c > 0xff then Inl EILSEQ
      else case narrow_fmt (k - 1) cs of Inl e \<Rightarrow> Inl e | Inr r \<Rightarrow> Inr (chr c # r))"

text \<open>The result and the values stored (the terminator included) or the error number; \<open>u\<close> is the buffer
  \<^verbatim>\<open>out\<close> before the call.\<close>

definition vswprintf :: "'f fmt_fp_fn \<Rightarrow> (nat \<Rightarrow> byte) \<Rightarrow> nat \<Rightarrow> int list \<Rightarrow> 'f arg list \<Rightarrow> (int \<times> (int + int list) \<times> stores) option" where
  "vswprintf fp u n fmt ap =
     (case narrow_fmt 255 fmt of Inl e \<Rightarrow> Some (-1, Inl e, [])
      | Inr nfmt \<Rightarrow>
          do { (len, st, out) \<leftarrow> vsnprintf fp u 1024 nfmt ap;
               Some (if len < 0 \<or> len \<ge> 1024 \<or> len \<ge> int n then (-1, Inl EOVERFLOW, st)
                     else (len, Inr (map (\<lambda>k. ord (out k)) [0..<nat len + 1]), st)) })"

definition swprintf :: "'f fmt_fp_fn \<Rightarrow> (nat \<Rightarrow> byte) \<Rightarrow> nat \<Rightarrow> int list \<Rightarrow> 'f arg list \<Rightarrow> (int \<times> (int + int list) \<times> stores) option" where
  "swprintf fp u n fmt ap = vswprintf fp u n fmt ap"

subsection \<open>Streams\<close>

definition fgetwc :: "'w os \<Rightarrow> 'w netops \<Rightarrow> (nat \<Rightarrow> bool) \<Rightarrow> 'w px \<Rightarrow> cfile \<Rightarrow> int \<times> cfile \<times> 'w px" where
  "fgetwc os net mal px f = (let (c, f1, px1) = fgetc os net mal px f in (if c = EOF then WEOF else c mod 256, f1, px1))"

definition getwc :: "'w os \<Rightarrow> 'w netops \<Rightarrow> (nat \<Rightarrow> bool) \<Rightarrow> 'w px \<Rightarrow> cfile \<Rightarrow> int \<times> cfile \<times> 'w px" where
  "getwc os net mal px f = fgetwc os net mal px f"

definition getwchar :: "'w os \<Rightarrow> 'w netops \<Rightarrow> (nat \<Rightarrow> bool) \<Rightarrow> 'w sio \<Rightarrow> int \<times> 'w sio" where
  "getwchar os net mal s = (let (c, f, px) = fgetwc os net mal (spx s) (sstdin s) in (c, s \<lparr> sstdin := f, spx := px \<rparr>))"

definition ungetwc :: "int \<Rightarrow> cfile \<Rightarrow> int \<times> cfile" where
  "ungetwc c f =
     (if c = WEOF \<or> c < 0 \<or> c > 0xff then (WEOF, f)
      else let (r, f1) = ungetc c f in (if r = EOF then WEOF else c, f1))"

definition fputwc :: "'w os \<Rightarrow> 'w netops \<Rightarrow> (nat \<Rightarrow> bool) \<Rightarrow> int \<Rightarrow> 'w px \<Rightarrow> cfile \<Rightarrow> int \<times> cfile \<times> 'w px" where
  "fputwc os net mal c px f =
     (if c < 0 \<or> c > 0xff then (WEOF, f, px \<lparr> errno := EILSEQ \<rparr>)
      else let (r, f1, px1) = fputc os net mal c px f in (if r = EOF then WEOF else c, f1, px1))"

definition putwc :: "'w os \<Rightarrow> 'w netops \<Rightarrow> (nat \<Rightarrow> bool) \<Rightarrow> int \<Rightarrow> 'w px \<Rightarrow> cfile \<Rightarrow> int \<times> cfile \<times> 'w px" where
  "putwc os net mal c px f = fputwc os net mal c px f"

definition putwchar :: "'w os \<Rightarrow> 'w netops \<Rightarrow> (nat \<Rightarrow> bool) \<Rightarrow> int \<Rightarrow> 'w sio \<Rightarrow> int \<times> 'w sio" where
  "putwchar os net mal c s = (let (r, f, px) = fputwc os net mal c (spx s) (sstdout s) in (r, s \<lparr> sstdout := f, spx := px \<rparr>))"

fun fputws :: "'w os \<Rightarrow> 'w netops \<Rightarrow> (nat \<Rightarrow> bool) \<Rightarrow> int list \<Rightarrow> 'w px \<Rightarrow> cfile \<Rightarrow> int \<times> cfile \<times> 'w px" where
  "fputws os net mal [] px f = (0, f, px)"
| "fputws os net mal (c # cs) px f =
     (case fputwc os net mal c px f of (r, f1, px1) \<Rightarrow> if r = WEOF then (-1, f1, px1) else fputws os net mal cs px1 f1)"

fun fgetws_loop :: "'w os \<Rightarrow> 'w netops \<Rightarrow> (nat \<Rightarrow> bool) \<Rightarrow> nat \<Rightarrow> 'w px \<Rightarrow> cfile \<Rightarrow> int list \<Rightarrow> int list \<times> cfile \<times> 'w px" where
  "fgetws_loop os net mal 0 px f acc = (acc, f, px)"
| "fgetws_loop os net mal (Suc k) px f acc =
     (case fgetwc os net mal px f of (c, f1, px1) \<Rightarrow>
        if c = WEOF then (acc, f1, px1)
        else if c = 10 then (acc @ [c], f1, px1)
        else fgetws_loop os net mal k px1 f1 (acc @ [c]))"

text \<open>The line stored, without its terminator; \<open>None\<close> is the null result.\<close>

definition fgetws :: "'w os \<Rightarrow> 'w netops \<Rightarrow> (nat \<Rightarrow> bool) \<Rightarrow> int \<Rightarrow> 'w px \<Rightarrow> cfile \<Rightarrow> int list option \<times> cfile \<times> 'w px" where
  "fgetws os net mal n px f =
     (case fgetws_loop os net mal (nat (n - 1)) px f [] of (l, f1, px1) \<Rightarrow> (if l = [] then None else Some l, f1, px1))"

definition fwide :: "int \<Rightarrow> int" where
  "fwide mode = mode"

subsection \<open>Wide strings in memory\<close>

fun wstr :: "wmem \<Rightarrow> nat \<Rightarrow> int list \<Rightarrow> bool" where
  "wstr w p [] \<longleftrightarrow> w p = Some 0"
| "wstr w p (x # xs) \<longleftrightarrow> w p = Some x \<and> x \<noteq> 0 \<and> wstr w (p + 1) xs"

fun put_all :: "(nat \<Rightarrow> 'a option) \<Rightarrow> nat \<Rightarrow> 'a list \<Rightarrow> nat \<Rightarrow> 'a option" where
  "put_all w p [] = w"
| "put_all w p (v # vs) = put_all (w(p \<mapsto> v)) (p + 1) vs"

definition room :: "(nat \<Rightarrow> 'a option) \<Rightarrow> nat \<Rightarrow> nat \<Rightarrow> bool" where
  "room w p n \<longleftrightarrow> (\<forall>a. p \<le> a \<longrightarrow> a < p + n \<longrightarrow> w a \<noteq> None)"

lemma room_Suc: "room w p (Suc n) \<longleftrightarrow> w p \<noteq> None \<and> room w (p + 1) n"
proof
  show "room w p (Suc n) \<Longrightarrow> w p \<noteq> None \<and> room w (p + 1) n" by (simp add: room_def)
next
  assume r: "w p \<noteq> None \<and> room w (p + 1) n"
  show "room w p (Suc n)"
    unfolding room_def
  proof (intro allI impI)
    fix a assume "p \<le> a" "a < p + Suc n"
    then show "w a \<noteq> None" using r by (cases "a = p") (simp_all add: room_def)
  qed
qed

lemma room_upd: "room w p n \<Longrightarrow> room (w(a \<mapsto> v)) p n"
  by (simp add: room_def)

lemma put_all_below: "a < p \<Longrightarrow> put_all w p vs a = w a"
  by (induction w p vs rule: put_all.induct) auto

lemma put_all_nth: "i < length vs \<Longrightarrow> put_all w p vs (p + i) = Some (vs ! i)"
proof (induction w p vs arbitrary: i rule: put_all.induct)
  case (2 w p v vs)
  then show ?case by (cases i) (simp_all add: put_all_below del: fun_upd_apply, simp add: fun_upd_apply)
qed simp

lemma wstr_iff: "wstr w p xs \<longleftrightarrow> (\<forall>i < length xs. w (p + i) = Some (xs ! i)) \<and> w (p + length xs) = Some 0 \<and> 0 \<notin> set xs"
proof (induction xs arbitrary: p)
  case (Cons x xs)
  then show ?case by (auto simp: less_Suc_eq_0_disj)
qed simp

lemma wstr_put: "0 \<notin> set xs \<Longrightarrow> wstr (put_all w p (xs @ [0])) p xs"
  unfolding wstr_iff using put_all_nth [of _ "xs @ [0]" w p] by (auto simp: nth_append)

lemma cstr_put: "NUL \<notin> set xs \<Longrightarrow> cstr (put_all m p (xs @ [NUL])) p xs"
proof (induction xs arbitrary: m p)
  case Nil
  then show ?case by simp
next
  case (Cons x xs)
  then have "x \<noteq> NUL" "NUL \<notin> set xs" by auto
  then show ?case using Cons.IH [of "m(p \<mapsto> x)" "p + 1"] by (simp add: put_all_below del: fun_upd_apply) (simp add: fun_upd_apply)
qed

subsection \<open>Conversions on whole strings\<close>

lemma mbsn_loop_string:
  assumes "cstr m (s + i) ys" "room w (d + i) (length ys + 1)" "d \<noteq> NULL" "i + length ys < nms" "i + length ys < n"
  shows "mbsn_loop m w d s nms n i = Some (i + length ys, put_all w (d + i) (map ord ys @ [0]), NULL)"
  using assms
proof (induction ys arbitrary: w i)
  case Nil
  then show ?case by (subst mbsn_loop.simps) (auto simp: wstore_def room_Suc)
next
  case (Cons y ys)
  then have y: "m (s + i) = Some y" "y \<noteq> NUL" "cstr m (s + (i + 1)) ys" by simp_all
  have r: "w (d + i) \<noteq> None" "room (w(d + i \<mapsto> ord y)) (d + (i + 1)) (length ys + 1)"
    using Cons.prems(2) by (auto simp: room_Suc intro: room_upd)
  have "mbsn_loop m w d s nms n i = mbsn_loop m (w(d + i \<mapsto> ord y)) d s nms n (i + 1)"
    using y(1,2) r(1) Cons.prems(3-5) by (subst mbsn_loop.simps) (auto simp: wstore_def)
  also have "\<dots> = Some (i + 1 + length ys, put_all (w(d + i \<mapsto> ord y)) (d + (i + 1)) (map ord ys @ [0]), NULL)"
    using Cons.IH [OF y(3) r(2) Cons.prems(3)] Cons.prems(4,5) by (simp del: fun_upd_apply)
  finally show ?case by simp
qed

lemma wcsn_loop_string:
  assumes "wstr w (s + i) vs" "\<forall>v \<in> set vs. 0 \<le> v \<and> v \<le> 255" "room m (d + i) (length vs + 1)" "d \<noteq> NULL" "i + length vs < nwc" "i + length vs < n"
  shows "wcsn_loop w m d s nwc n i = Some (i + length vs, put_all m (d + i) (map chr vs @ [NUL]), NULL, None)"
  using assms
proof (induction vs arbitrary: m i)
  case Nil
  have "chr 0 = NUL" using ord_eq_0 [of "chr 0"] by simp
  with Nil show ?case by (subst wcsn_loop.simps) (auto simp: store_def room_Suc)
next
  case (Cons v vs)
  then have v: "w (s + i) = Some v" "v \<noteq> 0" "wstr w (s + (i + 1)) vs" "0 \<le> v" "v \<le> 255" by simp_all
  have r: "m (d + i) \<noteq> None" "room (m(d + i \<mapsto> chr v)) (d + (i + 1)) (length vs + 1)"
    using Cons.prems(3) by (auto simp: room_Suc intro: room_upd)
  have "wcsn_loop w m d s nwc n i = wcsn_loop w (m(d + i \<mapsto> chr v)) d s nwc n (i + 1)"
    using v(1,2,4,5) r(1) Cons.prems(4-6) by (subst wcsn_loop.simps) (auto simp: store_def)
  also have "\<dots> = Some (i + 1 + length vs, put_all (m(d + i \<mapsto> chr v)) (d + (i + 1)) (map chr vs @ [NUL]), NULL, None)"
    using Cons.IH [OF v(3) _ r(2) Cons.prems(4)] Cons.prems(2,5,6) by (simp del: fun_upd_apply)
  finally show ?case by simp
qed

lemma narrow_string:
  "wstr w s (map ord xs) \<Longrightarrow> \<forall>c \<in> set xs. ord c < 128 \<Longrightarrow> length xs \<le> k \<Longrightarrow> 0 < k \<Longrightarrow> narrow k w s = Some xs"
proof (induction k arbitrary: s xs)
  case (Suc k)
  show ?case
  proof (cases xs)
    case Nil
    with Suc.prems show ?thesis by simp
  next
    case (Cons c cs)
    have "narrow k w (s + 1) = Some cs" 
    proof (cases "k = 0")
      case True
      then show ?thesis using Suc.prems(3) Cons by simp
    next
      case False
      then show ?thesis using Suc.prems Cons by (intro Suc.IH) auto
    qed
    moreover have "ord c > 0" using Suc.prems(1) Cons ord_ge0 [of c] by (simp add: order_less_le)
    ultimately show ?thesis using Suc.prems(1,2) Cons by simp
  qed
qed simp

lemma narrow_fmt_string: "length fmt \<le> k \<Longrightarrow> narrow_fmt k (map ord fmt) = Inr fmt"
proof (induction fmt arbitrary: k)
  case (Cons c fmt)
  have "ord c \<le> 255" using ord_less [of c] by linarith
  with Cons show ?case by (cases k) (auto simp: not_less)
qed simp

subsection \<open>Properties\<close>

text \<open>C29: in the C locale every byte string survives the trip through wide characters: \<open>mbstowcs\<close> stores one
  wide character per byte with the byte's value and a terminator, and \<open>wcstombs\<close> of that gives the string
  back.\<close>

theorem multibyte_roundtrip:
  assumes "cstr m s xs" "room w d (length xs + 1)" "d \<noteq> NULL" "room m' e (length xs + 1)" "e \<noteq> NULL"
    "length xs < n" "length xs < 2 ^ 64 - 1"
  shows "\<exists>w' m''. mbstowcs m w d s n = Some (length xs, w') \<and> wstr w' d (map ord xs)
    \<and> wcstombs w' m' e d n = Some (length xs, m'', None) \<and> cstr m'' e xs"
proof -
  define w' where "w' = put_all w d (map ord xs @ [0])"
  have nul: "NUL \<notin> set xs" using assms(1) by (rule cstr_no_NUL)
  then have ws: "wstr w' d (map ord xs)" unfolding w'_def by (intro wstr_put) auto
  have a: "mbstowcs m w d s n = Some (length xs, w')"
    using mbsn_loop_string [of m s 0 xs w d "2 ^ 64 - 1" n] assms by (simp add: mbstowcs_def mbsrtowcs_def mbsnrtowcs_def w'_def)
  have "ord c \<le> 255" for c using ord_less [of c] by linarith
  then have b: "wcstombs w' m' e d n = Some (length xs, put_all m' e (xs @ [NUL]), None)"
    using wcsn_loop_string [of w' d 0 "map ord xs" m' e "2 ^ 64 - 1" n] ws assms
    by (simp add: wcstombs_def wcsrtombs_def wcsnrtombs_def comp_def)
  show ?thesis using a b ws cstr_put [OF nul] by blast
qed

theorem multibyte_roundtrip_witness:
  "\<exists>w' m''. mbstowcs (map_of [(1, CHR 0xE9), (2, NUL)]) (map_of [(8, 7), (9, 7)]) 8 1 5 = Some (1, w') \<and> wstr w' 8 [0xE9]
    \<and> wcstombs w' (map_of [(4, CHR ''?''), (5, CHR ''?'')]) 4 8 5 = Some (1, m'', None) \<and> cstr m'' 4 [CHR 0xE9]"
proof -
  have "room (map_of [(8, 7), (9, 7)] :: wmem) 8 (length [CHR 0xE9] + 1)"
      "room (map_of [(4, CHR ''?''), (5, CHR ''?'')] :: mem) 4 (length [CHR 0xE9] + 1)"
    by (auto simp: room_def)
  from multibyte_roundtrip [OF _ this(1) _ this(2), of "map_of [(1, CHR 0xE9), (2, NUL)]" 1 5]
  show ?thesis by (simp add: NULL_def) (simp add: ord_def)
qed

text \<open>C30: \<open>wcstol\<close> and its siblings, and \<open>wcstod\<close>, on an ASCII wide string of at most 127 characters agree with the byte
  functions on the same characters: the same value, and the end pointer at the same offset.\<close>

theorem wide_numbers_agree:
  assumes "wstr w s (map ord xs)" "\<forall>c \<in> set xs. ord c < 128" "length xs \<le> 127"
  shows "wcstol w s base = map_option (\<lambda>(v, e). (v, s + (length xs - length e))) (strtol xs base)
    \<and> wcstoul w s base = map_option (\<lambda>(v, e). (v, s + (length xs - length e))) (strtoul xs base)
    \<and> wcstoll w s base = map_option (\<lambda>(v, e). (v, s + (length xs - length e))) (strtoll xs base)
    \<and> wcstoull w s base = map_option (\<lambda>(v, e). (v, s + (length xs - length e))) (strtoull xs base)
    \<and> wcstod u w s en = Some (map_sum id (\<lambda>(v, e, en'). (v, s + e, en')) (strtod u xs en))"
proof -
  have "narrow 127 w s = Some xs" "narrow 511 w s = Some xs" using assms by (auto intro!: narrow_string)
  then show ?thesis
    unfolding wcstod_def wfloat_def
    by (auto simp: wcstol_def wcstoul_def wcstoll_def wcstoull_def wend_def split: bind_splits option.split sum.split)
qed

theorem wide_numbers_agree_witness:
  "wcstol (map_of [(5, 0x2d), (6, 0x34), (7, 0x32), (8, 0x21), (9, 0)]) 5 10 = Some (-42, 8)"
proof -
  have "wstr (map_of [(5, 0x2d), (6, 0x34), (7, 0x32), (8, 0x21), (9, 0)]) 5 (map ord ''-42!'')" by (simp add: ord_def)
  from wide_numbers_agree [OF this, THEN conjunct1, of 10]
  have w: "wcstol (map_of [(5, 0x2d), (6, 0x34), (7, 0x32), (8, 0x21), (9, 0)]) 5 10 =
      map_option (\<lambda>(v, e). (v, 5 + (length ''-42!'' - length e))) (strtol ''-42!'' 10)"
    by (simp add: ord_def)
  have "strtol ''-42!'' 10 = Some (-42, ''!'')"
    by (simp add: strtol_def strtoull_def Let_def at_def digit_val_def isspace_def ord_def)
  then show ?thesis using w by simp
qed

text \<open>\<open>swprintf\<close> is \<open>snprintf\<close> widened: for a format of at most 255 characters and a result that fits both the
  caller's buffer and the internal one, it stores the formatted text character by character with a
  terminator and returns its length; a longer result fails with \<open>EOVERFLOW\<close>.\<close>

theorem swprintf_widens:
  assumes "formatted fp fmt ap = Some (r, t, st)" "length fmt \<le> 255" "length t < 2 ^ 31"
  shows "swprintf fp u n (map ord fmt) ap =
    Some (if length t < 1024 \<and> length t < n then (int (length t), Inr (map ord t @ [0]), st) else (-1, Inl EOVERFLOW, st))"
proof -
  have r: "r = int (length t)" using assms(1,3) by (auto simp: formatted_def vformat_def split: bind_splits)
  define out where "out = (\<lambda>i. if i < min (length t) (1024 - 1) then t ! i else if (1024 :: nat) \<noteq> 0 \<and> i = min (length t) (1024 - 1) then NUL else u i)"
  have v: "vsnprintf fp u 1024 fmt ap = Some (r, st, out)" using vsnprintf_text [OF assms(1), of u 1024] unfolding out_def .
  have "map (\<lambda>k. ord (out k)) [0..<length t + 1] = map ord t @ [0]" if "length t < 1024"
  proof (rule nth_equalityI)
    fix i assume "i < length (map (\<lambda>k. ord (out k)) [0..<length t + 1])"
    then show "map (\<lambda>k. ord (out k)) [0..<length t + 1] ! i = (map ord t @ [0]) ! i"
      using that by (auto simp: out_def nth_append less_Suc_eq simp del: upt_Suc)
  qed simp
  then show ?thesis using r by (simp add: swprintf_def vswprintf_def narrow_fmt_string [OF assms(2)] v)
qed

theorem swprintf_widens_witness:
  "swprintf (\<lambda>x w p fl c. []) (\<lambda>i. NUL) 8 (map ord ''ab%s!'') [AStr (Some ''cd'') :: unit arg] = Some (5, Inr (map ord ''abcd!'' @ [0]), [])"
proof -
  have f: "formatted (\<lambda>x w p fl c. []) ''ab%s!'' [AStr (Some ''cd'') :: unit arg] = Some (to_int32 5, ''abcd!'', [])"
    by (simp add: formatted_def vformat_def emit_text_def get_spec_def get_width_def get_prec_def at_def convert_def
        put_str_def has_def pad.simps ord_def)
  from swprintf_widens [OF f, of "\<lambda>i. NUL" 8] show ?thesis by simp
qed

end
