(* ===== verification/Scanf.thy ===== *)
theory Scanf
  imports Printf
begin

unbundle bit_operations_syntax

text \<open>
  \<^verbatim>\<open>src/scanf.c\<close>: the string scanner and the stream entry points on top of it.

  The input and the format are suffixes, as in the number parsers. The targets taken from the argument
  list are written one after the other, so a call returns the list of what it stores, in that order; a
  \<open>Chars\<close> store has no terminator, a \<open>Str\<close> store ends with one that is not listed. \<^verbatim>\<open>strtold\<close> is a
  parameter (modelled in \<open>FloatScan\<close>). A field width is kept as the number written in the format
  (beyond \<^verbatim>\<open>INT_MAX\<close> the code overflows a signed \<^verbatim>\<open>int\<close>, which C leaves undefined).
\<close>

datatype slen = L_NONE | L_HH | L_H | L_L | L_LL | L_J | L_Z | L_T | L_BIGL

datatype 'f scstore = StInt slen int | StPtr nat | Chars "byte list" | Str "byte list" | StFloat slen 'f

type_synonym 'f strtold_fn = "byte list \<Rightarrow> 'f \<times> byte list"

text \<open>The value an object of the given length holds after the store.\<close>

definition store_int :: "slen \<Rightarrow> u64 \<Rightarrow> int" where
  "store_int len v =
     (case len of L_HH \<Rightarrow> signed_take_bit 7 (uint v) | L_H \<Rightarrow> signed_take_bit 15 (uint v)
      | L_L \<Rightarrow> sint v | L_LL \<Rightarrow> sint v | L_J \<Rightarrow> sint v | L_Z \<Rightarrow> uint v | L_T \<Rightarrow> sint v
      | _ \<Rightarrow> signed_take_bit 31 (uint v))"

text \<open>\<^verbatim>\<open>while (isdigit(*fmt)) width = width * 10 + (*fmt++ - '0');\<close>\<close>

fun scan_width :: "int \<Rightarrow> byte list \<Rightarrow> int \<times> byte list" where
  "scan_width w [] = (w, [])"
| "scan_width w (c # f) = (if isdigit (ord c) then scan_width (w * 10 + (ord c - ord CHR ''0'')) f else (w, c # f))"

definition scan_len :: "byte list \<Rightarrow> slen \<times> byte list" where
  "scan_len f =
     (if at f 0 = CHR ''h'' then (if at f 1 = CHR ''h'' then (L_HH, drop 2 f) else (L_H, drop 1 f))
      else if at f 0 = CHR ''l'' then (if at f 1 = CHR ''l'' then (L_LL, drop 2 f) else (L_L, drop 1 f))
      else if at f 0 = CHR ''j'' then (L_J, drop 1 f)
      else if at f 0 = CHR ''z'' then (L_Z, drop 1 f)
      else if at f 0 = CHR ''t'' then (L_T, drop 1 f)
      else if at f 0 = CHR ''L'' then (L_BIGL, drop 1 f)
      else (L_NONE, f))"

text \<open>Suppression, width, length and the rest of the format, at the conversion letter.\<close>

definition scan_spec :: "byte list \<Rightarrow> (bool \<times> int \<times> slen) \<times> byte list" where
  "scan_spec f0 =
     (let skip = (at f0 0 = CHR ''*''); f1 = (if skip then drop 1 f0 else f0);
          (width, f2) = scan_width 0 f1; (len, f3) = scan_len f2
      in ((skip, width, len), f3))"

text \<open>The body of a set; \<open>cset\<close> is the array as a test.\<close>

function scan_set :: "(int \<Rightarrow> bool) \<Rightarrow> byte list \<Rightarrow> (int \<Rightarrow> bool) \<times> byte list" where
  "scan_set cset f =
     (if f = [] \<or> hd f = CHR '']'' then (cset, drop 1 f)
      else if at f 1 = CHR ''-'' \<and> at f 2 \<noteq> NUL \<and> at f 2 \<noteq> CHR '']''
      then scan_set (\<lambda>x. cset x \<or> (ord (at f 0) \<le> x \<and> x \<le> ord (at f 2))) (drop 3 f)
      else scan_set (cset(ord (at f 0) := True)) (drop 1 f))"
  by pat_completeness auto
termination by (relation "measure (\<lambda>(cset, f). length f)") auto

declare scan_set.simps [simp del]

definition scan_set_spec :: "byte list \<Rightarrow> bool \<times> (int \<Rightarrow> bool) \<times> byte list" where
  "scan_set_spec f0 =
     (let neg = (at f0 0 = CHR ''^''); f1 = (if neg then drop 1 f0 else f0);
          (cset, f2) = (if at f1 0 = CHR '']'' then ((\<lambda>x. x = ord CHR '']''), drop 1 f1) else ((\<lambda>x. False), f1));
          (cset', f3) = scan_set cset f2
      in (neg, cset', f3))"

text \<open>One conversion. \<open>Inl\<close> is a return with the count and the stores; otherwise the scan goes on.\<close>

definition scan_conv ::
    "'f strtold_fn \<Rightarrow> nat \<Rightarrow> byte \<Rightarrow> bool \<times> int \<times> slen \<Rightarrow> byte list \<Rightarrow> byte list \<Rightarrow> int \<Rightarrow> 'f scstore list
      \<Rightarrow> (int \<times> 'f scstore list) + (byte list \<times> byte list \<times> int \<times> 'f scstore list)" where
  "scan_conv tod tot conv spec s0 fmt cnt st =
     (case spec of (skip, width, len) \<Rightarrow>
      let more = (if skip then cnt else cnt + 1); put = (\<lambda>x. if skip then st else st @ [x]) in
      if conv = CHR ''n'' then Inr (s0, fmt, cnt, put (StInt len (store_int len (of_nat (tot - length s0)))))
      else let s = (if conv \<noteq> CHR ''c'' \<and> conv \<noteq> CHR ''['' then skip_space s0 else s0) in
           if s = [] then Inl (if cnt \<noteq> 0 then cnt else EOF, st)
           else if conv = CHR ''c'' then
             (let n = nat (if width \<noteq> 0 then width else 1)
              in if length s < n then Inl (cnt, put (Chars s)) else Inr (drop n s, fmt, more, put (Chars (take n s))))
           else if conv = CHR ''s'' \<or> conv = CHR ''['' then
             (let (neg, cset, fmt1) = (if conv = CHR ''['' then scan_set_spec fmt else (False, (\<lambda>x. \<not> isspace x), fmt));
                  t = takeWhile (\<lambda>c. cset (ord c) \<noteq> neg) (if width = 0 then s else take (nat width) s)
              in if t = [] then Inl (cnt, st) else Inr (drop (length t) s, fmt1, more, put (Str t)))
           else
             (let buf = take (nat (if width \<noteq> 0 \<and> width < 511 then width else 511)) s in
              if conv \<in> {CHR ''f'', CHR ''e'', CHR ''g'', CHR ''a'', CHR ''E'', CHR ''G'', CHR ''A'', CHR ''F''}
              then (let (v, e) = tod buf in
                    if length e = length buf then Inl (cnt, st)
                    else Inr (drop (length buf - length e) s, fmt, more, put (StFloat len v)))
              else if conv \<notin> {CHR ''d'', CHR ''i'', CHR ''u'', CHR ''o'', CHR ''x'', CHR ''X'', CHR ''p''} then Inl (cnt, st)
              else let base = (if conv = CHR ''d'' \<or> conv = CHR ''u'' then 10 else if conv = CHR ''o'' then 8
                               else if conv = CHR ''x'' \<or> conv = CHR ''X'' \<or> conv = CHR ''p'' then 16 else 0);
                       r = (if conv = CHR ''d'' \<or> conv = CHR ''i'' then map_option (\<lambda>(v, e). (of_int v, e)) (strtoll buf base)
                            else strtoull buf base)
                   in case r of None \<Rightarrow> Inl (cnt, st)
                      | Some (v, e) \<Rightarrow>
                          if length e = length buf then Inl (cnt, st)
                          else Inr (drop (length buf - length e) s, fmt, more,
                                    put (if conv = CHR ''p'' then StPtr (unat v) else StInt len (store_int len v)))))"

lemma scan_width_le: "length (snd (scan_width w f)) \<le> length f"
  by (induction w f rule: scan_width.induct) auto

lemma scan_spec_le: "length (snd (scan_spec f)) \<le> length f"
proof -
  have w: "length (snd (scan_width w g)) \<le> length g" for w g by (rule scan_width_le)
  have l: "length (snd (scan_len g)) \<le> length g" for g by (simp add: scan_len_def)
  show ?thesis
    using w [of 0 "if at f 0 = CHR ''*'' then drop 1 f else f"] l [of "snd (scan_width 0 (if at f 0 = CHR ''*'' then drop 1 f else f))"]
    by (auto simp: scan_spec_def Let_def split: prod.splits if_splits)
qed

lemma scan_set_le: "length (snd (scan_set cset f)) \<le> length f"
proof (induction cset f rule: scan_set.induct)
  case (1 cset f)
  then show ?case by (subst scan_set.simps) (auto simp del: fun_upd_apply)
qed

lemma scan_set_spec_le: "scan_set_spec f = (neg, cset, f') \<Longrightarrow> length f' \<le> length f"
  using scan_set_le [of "\<lambda>x. x = ord CHR '']''" "drop 1 (if at f 0 = CHR ''^'' then drop 1 f else f)"]
    scan_set_le [of "\<lambda>x. False" "if at f 0 = CHR ''^'' then drop 1 f else f"]
  by (auto simp: scan_set_spec_def Let_def split: prod.splits if_splits)

lemma scan_conv_le: "scan_conv tod tot conv spec s fmt cnt st = Inr (s', fmt', cnt', st') \<Longrightarrow> length fmt' \<le> length fmt"
  using scan_set_spec_le [of fmt]
  by (cases spec) (auto simp: scan_conv_def Let_def split: if_splits prod.splits option.splits)

function scan_loop :: "'f strtold_fn \<Rightarrow> nat \<Rightarrow> byte list \<Rightarrow> byte list \<Rightarrow> int \<Rightarrow> 'f scstore list \<Rightarrow> int \<times> 'f scstore list" where
  "scan_loop tod tot s [] cnt st = (cnt, st)"
| "scan_loop tod tot s (f # fs) cnt st =
     (if isspace (ord f) then scan_loop tod tot (skip_space s) fs cnt st
      else if f \<noteq> CHR ''%'' \<or> at fs 0 = CHR ''%''
      then (let fmt = (if f = CHR ''%'' then fs else f # fs)
            in if at s 0 \<noteq> at fmt 0 then (cnt, st) else scan_loop tod tot (drop 1 s) (drop 1 fmt) cnt st)
      else case snd (scan_spec fs) of [] \<Rightarrow> (cnt, st)
           | conv # fmt \<Rightarrow>
               (case scan_conv tod tot conv (fst (scan_spec fs)) s fmt cnt st of Inl r \<Rightarrow> r
                | Inr x \<Rightarrow> (case x of (s1, fmt1, cnt1, st1) \<Rightarrow> scan_loop tod tot s1 fmt1 cnt1 st1)))"
  by pat_completeness auto
termination
proof (relation "measure (\<lambda>(tod, tot, s, fmt, cnt, st). length fmt)", goal_cases)
  case (4 tod tot s f fs cnt st conv fmt x s1 p fmt1 q cnt1 st1)
  then have "length fmt1 \<le> length fmt" "length (conv # fmt) \<le> length fs"
    using scan_conv_le scan_spec_le [of fs] by (metis, metis)
  then show ?case by simp
qed auto

definition vsscanf :: "'f strtold_fn \<Rightarrow> byte list \<Rightarrow> byte list \<Rightarrow> int \<times> 'f scstore list" where
  "vsscanf tod str fmt = scan_loop tod (length str) str fmt 0 []"

definition sscanf :: "'f strtold_fn \<Rightarrow> byte list \<Rightarrow> byte list \<Rightarrow> int \<times> 'f scstore list" where
  "sscanf tod str fmt = vsscanf tod str fmt"

definition vfscanf ::
    "'f strtold_fn \<Rightarrow> 'w os \<Rightarrow> 'w netops \<Rightarrow> (nat \<Rightarrow> bool) \<Rightarrow> 'w px \<Rightarrow> cfile \<Rightarrow> byte list \<Rightarrow> (int \<times> 'f scstore list) \<times> cfile \<times> 'w px" where
  "vfscanf tod os net mal px f fmt =
     (case fgets os net mal 4096 px f of (None, f1, px1) \<Rightarrow> ((EOF, []), f1, px1)
      | (Some line, f1, px1) \<Rightarrow> (vsscanf tod (cstr_of line) fmt, f1, px1))"

definition fscanf ::
    "'f strtold_fn \<Rightarrow> 'w os \<Rightarrow> 'w netops \<Rightarrow> (nat \<Rightarrow> bool) \<Rightarrow> 'w px \<Rightarrow> cfile \<Rightarrow> byte list \<Rightarrow> (int \<times> 'f scstore list) \<times> cfile \<times> 'w px" where
  "fscanf tod os net mal px f fmt = vfscanf tod os net mal px f fmt"

definition scanf :: "'f strtold_fn \<Rightarrow> 'w os \<Rightarrow> 'w netops \<Rightarrow> (nat \<Rightarrow> bool) \<Rightarrow> 'w sio \<Rightarrow> byte list \<Rightarrow> (int \<times> 'f scstore list) \<times> 'w sio" where
  "scanf tod os net mal s fmt =
     (let (r, f, px) = vfscanf tod os net mal (spx s) (sstdin s) fmt in (r, s \<lparr> sstdin := f, spx := px \<rparr>))"

declare scan_loop.simps [simp del]

subsection \<open>Reading back what was printed\<close>

definition num_text :: "int \<Rightarrow> string" where
  "num_text v = (if v < 0 then ''-'' else []) @ utoa (nat \<bar>v\<bar>) 10 False"

lemma strtoll_num:
  assumes "- (2 ^ 63) \<le> v" "v < 2 ^ 63" "rest = [] \<or> \<not> is_digit 10 (hd rest)"
  shows "strtoll (num_text v @ rest) 10 = Some (v, rest)"
proof -
  let ?d = "utoa (nat \<bar>v\<bar>) 10 False" and ?sg = "if v < 0 then ''-'' else []"
  note u = utoa_facts [of 10 "nat \<bar>v\<bar>" False, simplified]
  have "sign_text ?sg" by (simp add: sign_text_def)
  then have s: "strtoull ([] @ ?sg @ ?d @ rest) (int 10) =
      Some (if ?sg = ''-'' then - of_nat (digits_value 10 0 ?d) else of_nat (digits_value 10 0 ?d), rest)"
    using u(1,2) assms(3) by (intro strtoull_value) simp_all
  have "(if ?sg = ''-'' then - of_nat (digits_value 10 0 ?d) else of_nat (digits_value 10 0 ?d)) = (of_int v :: u64)"
    unfolding u(3) by (simp add: of_nat_nat)
  with s have "strtoull (num_text v @ rest) 10 = Some (of_int v, rest)" by (simp add: num_text_def)
  moreover have "sint (of_int v :: u64) = v" using assms(1,2) by (simp add: signed_of_int signed_take_bit_int_eq_self)
  ultimately show ?thesis by (simp add: strtoll_def)
qed

lemma num_text_facts:
  assumes "- (2 ^ 63) \<le> v" "v < 2 ^ 63"
  shows "num_text v \<noteq> []" "\<not> isspace (ord (hd (num_text v)))" "length (num_text v) \<le> 24"
proof -
  note u = utoa_facts [of 10 "nat \<bar>v\<bar>" False, simplified]
  have "is_digit 10 (hd (utoa (nat \<bar>v\<bar>) 10 False))" using u(1,2) by simp
  then have "\<not> isspace (ord (hd (utoa (nat \<bar>v\<bar>) 10 False)))"
    by (auto simp: is_digit_def digit_val_def isspace_def split: if_splits)
  moreover have "\<not> isspace (ord CHR ''-'')" by (simp add: isspace_def ord_def)
  ultimately show "num_text v \<noteq> []" "\<not> isspace (ord (hd (num_text v)))" using u(1) by (auto simp: num_text_def)
  have "nat \<bar>v\<bar> < 10 ^ 22" using assms by (simp add: nat_less_iff)
  then have "length (utoa (nat \<bar>v\<bar>) 10 False) \<le> 22 + 1" by (rule utoa_length)
  then show "length (num_text v) \<le> 24" by (cases "v < 0") (simp_all add: num_text_def)
qed

lemma format_ld:
  assumes "- (2 ^ 63) \<le> v" "v < 2 ^ 63"
  shows "vformat_loop fp emit_text length (''%ld '' @ f) t (ALong v # ap) [] = vformat_loop fp emit_text length f (t @ num_text v @ '' '') ap []"
proof -
  have sp: "get_spec (''ld '' @ f) (ALong v # ap) = Some ((0, 0, -1, 1, False), ''d '' @ f, ALong v # ap)"
    by (simp add: get_spec_def get_width_def get_prec_def at_def ord_def)
  have uv: "nat (to_u64 (if v < 0 then to_int64 (- v) else v)) = nat \<bar>v\<bar>"
  proof (cases "v = - (2 ^ 63)")
    case True
    then show ?thesis by (simp add: to_u64_def to_int64_def)
  next
    case False
    then have "to_int64 (- v) = - v" if "v < 0" using assms that by (intro to_int64_id) auto
    then show ?thesis using assms by (auto simp: to_u64_def)
  qed
  have "length (utoa (nat \<bar>v\<bar>) 10 False) \<le> 24" using num_text_facts(3) [OF assms] by (simp add: num_text_def)
  then have "length (utoa (nat \<bar>v\<bar>) 10 False) < 2 ^ 30" by simp
  from put_number_plain [OF _ _ this, of 0 t "v < 0"]
  have "put_number emit_text t (utoa (nat \<bar>v\<bar>) 10 False) (v < 0) None 0 0 (-1) = t @ num_text v" by (simp add: num_text_def)
  then have cv: "convert fp emit_text length t CHR ''d'' (0, 0, -1, 1, False) (ALong v # ap) = Some (t @ num_text v, ap, [])"
    using assms uv by (simp add: convert_def)
  show ?thesis using sp cv by (simp add: emit_text_def)
qed

definition ld_fmt :: "nat \<Rightarrow> string" where
  "ld_fmt n = concat (replicate n ''%ld '')"

definition ld_text :: "int list \<Rightarrow> string" where
  "ld_text vs = concat (map (\<lambda>v. num_text v @ '' '') vs)"

lemma format_lds:
  "\<forall>v \<in> set vs. - (2 ^ 63) \<le> v \<and> v < 2 ^ 63 \<Longrightarrow>
    vformat_loop fp emit_text length (ld_fmt (length vs)) t (map ALong vs) [] = Some (t @ ld_text vs, [])"
proof (induction vs arbitrary: t)
  case Nil
  then show ?case by (simp add: ld_fmt_def ld_text_def)
next
  case (Cons v vs)
  have f: "ld_fmt (length (v # vs)) = ''%ld '' @ ld_fmt (length vs)" by (simp add: ld_fmt_def)
  have "vformat_loop fp emit_text length (ld_fmt (length (v # vs))) t (map ALong (v # vs)) [] =
      vformat_loop fp emit_text length (ld_fmt (length vs)) (t @ num_text v @ '' '') (map ALong vs) []"
    unfolding f list.map using Cons.prems by (intro format_ld) simp_all
  then show ?case using Cons by (simp add: ld_text_def)
qed

lemma scan_ld:
  assumes "- (2 ^ 63) \<le> v" "v < 2 ^ 63" "rest = [] \<or> \<not> isspace (ord (hd rest))"
  shows "scan_loop tod tot (num_text v @ '' '' @ rest) (''%ld '' @ f) cnt st = scan_loop tod tot rest f (cnt + 1) (st @ [StInt L_L v])"
proof -
  note n = num_text_facts [OF assms(1,2)]
  let ?s = "num_text v @ '' '' @ rest"
  have sk: "skip_space ?s = ?s" using n(1,2) by (cases "num_text v") auto
  have sp: "scan_spec (''ld '' @ f) = ((False, 0, L_L), ''d '' @ f)"
    by (simp add: scan_spec_def scan_len_def at_def isdigit_def ord_def)
  define tl where "tl = take (511 - length (num_text v)) ('' '' @ rest)"
  have buf: "take 511 ?s = num_text v @ tl" unfolding tl_def using n(3) by simp
  have tl: "tl \<noteq> []" "hd tl = CHR '' ''" unfolding tl_def using n(3) by (auto simp: hd_append take_Cons')
  have "\<not> is_digit 10 CHR '' ''" by (simp add: is_digit_def digit_val_def ord_def)
  then have num: "strtoll (num_text v @ tl) 10 = Some (v, tl)" using tl by (intro strtoll_num assms(1,2)) simp
  have sv: "store_int L_L (of_int v) = v"
    using assms(1,2) by (simp add: store_int_def signed_of_int signed_take_bit_int_eq_self)
  have cv: "scan_conv tod tot CHR ''d'' (False, 0, L_L) ?s ('' '' @ f) cnt st = Inr ('' '' @ rest, '' '' @ f, cnt + 1, st @ [StInt L_L v])"
    using n(1) num sv by (simp add: scan_conv_def Let_def sk [simplified] buf [simplified])
  have sr: "skip_space rest = rest" using assms(3) by (cases rest) auto
  have isp: "isspace (ord CHR '' '')" "\<not> isspace (ord CHR ''%'')" by (simp_all add: isspace_def ord_def)
  have "scan_loop tod tot ?s (''%ld '' @ f) cnt st = scan_loop tod tot ('' '' @ rest) ('' '' @ f) (cnt + 1) (st @ [StInt L_L v])"
    using isp(2) sp cv by (subst append.simps, subst scan_loop.simps) (simp add: at_def)
  also have "\<dots> = scan_loop tod tot rest f (cnt + 1) (st @ [StInt L_L v])"
    using isp(1) sr by (simp add: scan_loop.simps)
  finally show ?thesis .
qed

lemma scan_lds:
  "\<forall>v \<in> set vs. - (2 ^ 63) \<le> v \<and> v < 2 ^ 63 \<Longrightarrow>
    scan_loop tod tot (ld_text vs) (ld_fmt (length vs)) cnt st = (cnt + int (length vs), st @ map (StInt L_L) vs)"
proof (induction vs arbitrary: cnt st)
  case Nil
  then show ?case by (simp add: ld_fmt_def ld_text_def scan_loop.simps)
next
  case (Cons v vs)
  have f: "ld_fmt (length (v # vs)) = ''%ld '' @ ld_fmt (length vs)" "ld_text (v # vs) = num_text v @ '' '' @ ld_text vs"
    by (simp_all add: ld_fmt_def ld_text_def)
  have "ld_text vs = [] \<or> \<not> isspace (ord (hd (ld_text vs)))"
  proof (cases vs)
    case (Cons w ws)
    then show ?thesis using num_text_facts [of w] Cons.prems by (simp add: ld_text_def hd_append)
  qed (simp add: ld_text_def)
  from scan_ld [OF _ _ this, of v tod tot "ld_fmt (length vs)" cnt st] Cons.IH [of "cnt + 1" "st @ [StInt L_L v]"] Cons.prems
  show ?case unfolding f by simp
qed

subsection \<open>Properties\<close>

text \<open>C31: \<open>sscanf\<close> reads back what \<open>sprintf\<close> printed: for any list of \<^verbatim>\<open>long\<close>s and the format that prints each with
  \<^verbatim>\<open>%ld\<close> and a space, scanning the text with the same format returns the number of values and stores
  exactly these values, in order.\<close>

theorem sscanf_reads_sprintf:
  assumes "\<forall>v \<in> set vs. - (2 ^ 63) \<le> v \<and> v < 2 ^ 63"
  shows "\<exists>r t. formatted fp (concat (replicate (length vs) ''%ld '')) (map ALong vs) = Some (r, t, [])
    \<and> sscanf tod t (concat (replicate (length vs) ''%ld '')) = (int (length vs), map (StInt L_L) vs)"
proof -
  have "formatted fp (ld_fmt (length vs)) (map ALong vs) = Some (to_int32 (int (length (ld_text vs))), ld_text vs, [])"
    unfolding formatted_def vformat_def format_lds [OF assms] by simp
  moreover have "sscanf tod (ld_text vs) (ld_fmt (length vs)) = (int (length vs), map (StInt L_L) vs)"
    unfolding sscanf_def vsscanf_def scan_lds [OF assms] by simp
  ultimately show ?thesis unfolding ld_fmt_def by blast
qed

theorem sscanf_reads_sprintf_witness:
  "\<exists>r t. formatted (\<lambda>x w p fl c. []) ''%ld %ld '' [ALong (- 7), ALong 42 :: unit arg] = Some (r, t, [])
    \<and> sscanf (\<lambda>b. ((), b)) t ''%ld %ld '' = (2, [StInt L_L (- 7), StInt L_L 42])"
  using sscanf_reads_sprintf [of "[- 7, 42]" "\<lambda>x w p fl c. []" "\<lambda>b. ((), b)"] by (simp add: numeral_2_eq_2)

end
