(* ===== verification/Runtime.thy ===== *)
theory Runtime
  imports Printf
begin

unbundle bit_operations_syntax

text \<open>
  The small files of the library: \<^verbatim>\<open>src/errno.c\<close> (messages), \<^verbatim>\<open>src/locale.c\<close> (the C locale), \<^verbatim>\<open>src/fenv.c\<close> (the
  floating-point control register), \<^verbatim>\<open>src/rc_malloc.c\<close> (where the allocator gets its memory),
  \<^verbatim>\<open>src/dlfcn.c\<close>, \<^verbatim>\<open>src/rc_glob_popen.c\<close> and \<^verbatim>\<open>src/assert.c\<close>.
\<close>

subsection \<open>errno.c\<close>

definition errno_table :: "(int \<times> string) list" where
  "errno_table = [(0, ''Success''), (1, ''Operation not permitted''), (2, ''No such file or directory''), (3, ''No such process''),
       (4, ''Interrupted system call''), (5, ''Input/output error''), (7, ''Argument list too long''), (8, ''Exec format error''),
       (9, ''Bad file descriptor''), (10, ''No child processes''), (11, ''Resource temporarily unavailable''),
       (12, ''Cannot allocate memory''), (13, ''Permission denied''), (14, ''Bad address''), (16, ''Device or resource busy''),
       (17, ''File exists''), (18, ''Invalid cross-device link''), (20, ''Not a directory''), (21, ''Is a directory''),
       (22, ''Invalid argument''), (24, ''Too many open files''), (25, ''Inappropriate ioctl for device''),
       (28, ''No space left on device''), (29, ''Illegal seek''), (30, ''Read-only file system''), (32, ''Broken pipe''),
       (34, ''Numerical result out of range''), (36, ''File name too long''), (38, ''Function not implemented''),
       (39, ''Directory not empty''), (40, ''Too many levels of symbolic links'')]"

definition errno_names :: "int \<Rightarrow> string option" where
  "errno_names e = map_of errno_table e"

text \<open>\<^verbatim>\<open>do { d[n++] = '0' + e % 10; e /= 10; } while (e); while (n) *p++ = d[--n];\<close>\<close>

function err_digits :: "int \<Rightarrow> string \<Rightarrow> string" where
  "err_digits e acc =
     (let acc' = chr (ord CHR ''0'' + e smod 10) # acc in if e sdiv 10 \<noteq> 0 then err_digits (e sdiv 10) acc' else acc')"
  by pat_completeness auto
termination
proof (relation "measure (\<lambda>(e, acc). nat \<bar>e\<bar>)", goal_cases)
  case (2 e acc acc')
  have abs: "\<bar>e sdiv 10\<bar> = \<bar>e\<bar> div 10" by (auto simp: signed_divide_int_def abs_mult sgn_if)
  then have "\<bar>e\<bar> div 10 \<noteq> 0" using 2(2) by linarith
  then have "\<bar>e\<bar> div 10 < \<bar>e\<bar>" by linarith
  then show ?case using abs by simp
qed simp

declare err_digits.simps [simp del]

definition strerror :: "int \<Rightarrow> string" where
  "strerror e =
     (case errno_names e of Some s \<Rightarrow> s
      | None \<Rightarrow> ''error '' @ (if e < 0 then ''-'' else []) @ err_digits (if e < 0 then to_int32 (- e) else e) [])"

text \<open>The bytes stored.\<close>

definition strerror_r :: "int \<Rightarrow> nat \<Rightarrow> int \<times> byte list" where
  "strerror_r e n = (0, if n = 0 then [] else take (n - 1) (strerror e) @ [NUL])"

subsection \<open>locale.c\<close>

text \<open>A \<^verbatim>\<open>locale_t\<close>: null, the global one, or the one object there is.\<close>

datatype clocale = LNull | LGlobal | LC

definition is_c :: "string option \<Rightarrow> bool" where
  "is_c name \<longleftrightarrow> (case name of None \<Rightarrow> True | Some s \<Rightarrow> s = [] \<or> s = ''C'' \<or> s = ''POSIX'' \<or> take 2 s = ''C.'')"

definition setlocale :: "int \<Rightarrow> string option \<Rightarrow> string option" where
  "setlocale category name = (if category < 0 \<or> category > 6 then None else if is_c name then Some ''C'' else None)"

text \<open>\<^verbatim>\<open>struct lconv\<close>: the ten strings and the fourteen \<^verbatim>\<open>char\<close>s.\<close>

definition localeconv :: "string list \<times> int list" where
  "localeconv = ([''.'', [], [], [], [], [], [], [], [], []], replicate 14 127)"

text \<open>\<open>Inl\<close> is the error number.\<close>

definition newlocale :: "u32 \<Rightarrow> string option \<Rightarrow> int + clocale" where
  "newlocale msk name = (if msk AND NOT 0x3f \<noteq> 0 then Inl EINVAL else if \<not> is_c name then Inl ENOENT else Inr LC)"

definition duplocale :: "clocale \<Rightarrow> clocale" where "duplocale l = LC"
definition freelocale :: "clocale \<Rightarrow> unit" where "freelocale l = ()"

text \<open>The old and the new current locale.\<close>

definition uselocale :: "clocale \<Rightarrow> clocale \<Rightarrow> clocale \<times> clocale" where
  "uselocale current l = (current, if l \<noteq> LNull then l else current)"

definition c_langinfo :: "string list" where
  "c_langinfo = [''ANSI_X3.4-1968'', ''.'', [], ''%a %b %e %H:%M:%S %Y'', ''%m/%d/%y'', ''%H:%M:%S'', ''%I:%M:%S %p'', ''AM'', ''PM'',
     ''Sunday'', ''Monday'', ''Tuesday'', ''Wednesday'', ''Thursday'', ''Friday'', ''Saturday'',
     ''Sun'', ''Mon'', ''Tue'', ''Wed'', ''Thu'', ''Fri'', ''Sat'',
     ''January'', ''February'', ''March'', ''April'', ''May'', ''June'', ''July'', ''August'', ''September'', ''October'', ''November'', ''December'',
     ''Jan'', ''Feb'', ''Mar'', ''Apr'', ''May'', ''Jun'', ''Jul'', ''Aug'', ''Sep'', ''Oct'', ''Nov'', ''Dec'',
     [], [], [], [], [], ''^[yY]'', ''^[nN]'', ''-'']"

definition nl_langinfo :: "int \<Rightarrow> string" where
  "nl_langinfo item = (if item < 0 \<or> item \<ge> int (length c_langinfo) then [] else c_langinfo ! nat item)"

definition nl_langinfo_l :: "int \<Rightarrow> clocale \<Rightarrow> string" where
  "nl_langinfo_l item l = nl_langinfo item"

subsection \<open>fenv.c\<close>

text \<open>The register \<^verbatim>\<open>fcsr\<close>: flags in bits 0 to 4, rounding mode in bits 5 to 7. \<^verbatim>\<open>csrc\<close> and \<^verbatim>\<open>csrs\<close> on
  \<^verbatim>\<open>fflags\<close> clear and set flags.\<close>

abbreviation (input) FE_ALL_EXCEPT :: u32 where "FE_ALL_EXCEPT \<equiv> 0x1f"

definition feclearexcept :: "u32 \<Rightarrow> u32 \<Rightarrow> u32" where
  "feclearexcept csr e = csr AND NOT (e AND FE_ALL_EXCEPT)"

definition feraiseexcept :: "u32 \<Rightarrow> u32 \<Rightarrow> u32" where
  "feraiseexcept csr e = csr OR (e AND FE_ALL_EXCEPT)"

definition fetestexcept :: "u32 \<Rightarrow> u32 \<Rightarrow> u32" where
  "fetestexcept csr e = csr AND FE_ALL_EXCEPT AND e AND FE_ALL_EXCEPT"

definition fegetexceptflag :: "u32 \<Rightarrow> u32 \<Rightarrow> u32" where
  "fegetexceptflag csr e = fetestexcept csr e"

definition fesetexceptflag :: "u32 \<Rightarrow> u32 \<Rightarrow> u32 \<Rightarrow> u32" where
  "fesetexceptflag csr p e = feraiseexcept (feclearexcept csr e) (p AND e)"

definition fegetround :: "u32 \<Rightarrow> int" where
  "fegetround csr = uint (drop_bit 5 csr AND 7)"

definition fesetround :: "u32 \<Rightarrow> int \<Rightarrow> int \<times> u32" where
  "fesetround csr r = (if r < 0 \<or> r > 3 then (-1, csr) else (0, (csr AND NOT 0xe0) OR push_bit 5 (of_int r)))"

definition fegetenv :: "u32 \<Rightarrow> u32" where
  "fegetenv csr = csr AND 0xff"

text \<open>\<open>None\<close> is \<^verbatim>\<open>FE_DFL_ENV\<close>.\<close>

definition fesetenv :: "u32 \<Rightarrow> u32 option \<Rightarrow> u32" where
  "fesetenv csr env = (case env of None \<Rightarrow> 0 | Some v \<Rightarrow> v AND 0xff)"

text \<open>The saved environment and the register.\<close>

definition feholdexcept :: "u32 \<Rightarrow> u32 \<times> u32" where
  "feholdexcept csr = (fegetenv csr, feclearexcept csr FE_ALL_EXCEPT)"

definition feupdateenv :: "u32 \<Rightarrow> u32 option \<Rightarrow> u32" where
  "feupdateenv csr env = (let raised = fetestexcept csr FE_ALL_EXCEPT in feraiseexcept (fesetenv csr env) raised)"

subsection \<open>rc_malloc.c\<close>

text \<open>The bytes mapped so far and the end of the last region (0: none). \<open>sysmap\<close> is \<^verbatim>\<open>SYS_MAP\<close>; \<open>None\<close> is the
  result -1 of \<open>rc_morecore\<close>.\<close>

definition rc_map_pages :: "(nat \<Rightarrow> 'w \<Rightarrow> int \<times> 'w) \<Rightarrow> nat \<Rightarrow> 'w \<Rightarrow> nat option \<times> 'w" where
  "rc_map_pages sysmap n w = (let (r, w') = sysmap n w in (if r = -1 then None else Some (nat (to_u64 r)), w'))"

record 'w heap =
  heap_mapped :: u64
  rc_top :: nat
  heap_world :: 'w

definition rc_morecore :: "(nat \<Rightarrow> 'w \<Rightarrow> int \<times> 'w) \<Rightarrow> int \<Rightarrow> 'w heap \<Rightarrow> nat option \<times> 'w heap" where
  "rc_morecore sysmap n h =
     (if n = 0 then (if rc_top h \<noteq> 0 then Some (rc_top h) else None, h)
      else if n < 0 then (None, h)
      else let want = ((of_int n :: u64) + 4095) AND NOT 4095;
               (p, w) = rc_map_pages sysmap (unat want) (heap_world h);
               h1 = h \<lparr> heap_world := w \<rparr>
           in case p of None \<Rightarrow> (None, h1)
              | Some a \<Rightarrow> if a = 0 then (None, h1)
                          else (Some a, h1 \<lparr> heap_mapped := heap_mapped h + want, rc_top := a + unat want \<rparr>))"

subsection \<open>dlfcn.c, rc_glob_popen.c, assert.c\<close>

text \<open>The state is the pending message.\<close>

definition dlopen :: "string option \<Rightarrow> string option \<Rightarrow> bool \<times> string option" where
  "dlopen dl_err file =
     (case file of None \<Rightarrow> (True, dl_err) | Some f \<Rightarrow> (False, Some ''dlopen: dynamic loading is not supported on racccoon''))"

definition dlsym :: "string option \<Rightarrow> string \<Rightarrow> string option" where
  "dlsym dl_err name = Some ''dlsym: no dynamic symbol table (statically linked)''"

definition dlclose :: int where "dlclose = 0"

definition dlerror :: "string option \<Rightarrow> string option \<times> string option" where
  "dlerror dl_err = (dl_err, None)"

definition dladdr :: int where "dladdr = 0"

text \<open>\<^verbatim>\<open>GLOB_NOMATCH\<close> with an empty result; \<open>popen\<close> returns null.\<close>

definition glob_c :: "int \<times> string list" where "glob_c = (1, [])"
definition popen :: "nat option" where "popen = None"
definition pclose :: int where "pclose = -1"

text \<open>The writes to standard error, one after the other; digits from the end of the buffer.\<close>

function wnum_digits :: "nat \<Rightarrow> string \<Rightarrow> string" where
  "wnum_digits u b = (if u \<noteq> 0 then wnum_digits (u div 10) (chr (ord CHR ''0'' + int (u mod 10)) # b) else b)"
  by pat_completeness auto
termination by (relation "measure (\<lambda>(u, b). u)") auto

declare wnum_digits.simps [simp del]

definition wnum :: "int \<Rightarrow> string list" where
  "wnum v =
     (let u = nat (to_u32 (if v < 0 then - v else v)) in
      (if v < 0 then [''-''] else []) @ (if u = 0 then [''0''] else [wnum_digits u []]))"

definition assert_fail :: "string \<Rightarrow> string \<Rightarrow> int \<Rightarrow> string \<Rightarrow> string list" where
  "assert_fail expr file line func =
     [file, '':''] @ wnum line @ ['': '', func, '': assertion failed: '', expr, [CHR 0x0A]]"

subsection \<open>Messages tell errors apart\<close>

lemma err_digits_value:
  assumes "0 \<le> e"
  shows "digits_value 10 0 (err_digits e acc) = digits_value 10 (nat e) acc
    \<and> (\<forall>c \<in> set (err_digits e acc). c \<in> set acc \<or> is_digit 10 c) \<and> err_digits e acc \<noteq> []"
  using assms
proof (induction "nat e" arbitrary: e acc rule: less_induct)
  case less
  have sd: "e sdiv 10 = e div 10" "e smod 10 = e mod 10"
    using less.prems by (simp_all add: signed_divide_int_def signed_modulo_int_def sgn_if)
  define d where "d = chr (ord CHR ''0'' + e mod 10)"
  have m: "0 \<le> e mod 10" "e mod 10 < 10" by simp_all
  have z: "ord CHR ''0'' = 48" by (simp add: ord_def)
  have "(48 + e mod 10) mod 256 = 48 + e mod 10" using m by (intro mod_pos_pos_trivial) linarith+
  then have "ord d = 48 + e mod 10" unfolding d_def z by simp
  then have dv: "digit_val (ord d) = e mod 10" using m by (simp add: digit_val_def ord_def)
  then have dg: "is_digit 10 d" using m by (simp add: is_digit_def)
  have step: "err_digits e acc = (if e div 10 \<noteq> 0 then err_digits (e div 10) (d # acc) else d # acc)"
    by (subst err_digits.simps) (simp add: sd d_def)
  have val: "nat (e div 10) * 10 + nat (e mod 10) = nat e"
    using less.prems by (simp add: nat_div_distrib nat_mod_distrib)
  show ?case
  proof (cases "e div 10 = 0")
    case True
    then show ?thesis using step dv dg val by simp
  next
    case False
    then have "nat (e div 10) < nat e" "0 \<le> e div 10" using less.prems by auto
    from less.hyps [OF this, of "d # acc"] show ?thesis using False step dv dg val by auto
  qed
qed

lemma digit_not_minus: "\<not> is_digit 10 CHR ''-''"
  by (simp add: is_digit_def digit_val_def ord_def)

lemma err_text_inj:
  assumes "(if a < 0 then ''-'' else []) @ err_digits \<bar>a\<bar> [] = (if b < 0 then ''-'' else []) @ err_digits \<bar>b\<bar> []"
  shows "a = b"
proof -
  note v = err_digits_value [of "\<bar>a\<bar>" "[]", simplified] err_digits_value [of "\<bar>b\<bar>" "[]", simplified]
  have "hd (err_digits \<bar>a\<bar> []) \<noteq> CHR ''-''" "hd (err_digits \<bar>b\<bar> []) \<noteq> CHR ''-''"
    using v digit_not_minus by (metis list.set_sel(1))+
  then have "(a < 0 \<longleftrightarrow> b < 0) \<and> err_digits \<bar>a\<bar> [] = err_digits \<bar>b\<bar> []"
    using assms v by (auto split: if_splits) (metis list.sel(1))+
  moreover from this have "nat \<bar>a\<bar> = nat \<bar>b\<bar>" using v by metis
  ultimately show ?thesis by auto
qed

lemma errno_table_facts: "distinct (map snd errno_table)" "\<forall>s \<in> snd ` set errno_table. take 6 s \<noteq> ''error ''"
  by (simp_all add: errno_table_def)

text \<open>No two error numbers have the same message (the least \<^verbatim>\<open>int\<close>, whose negation overflows, aside).\<close>

theorem strerror_injective:
  assumes "strerror a = strerror b" "- (2 ^ 31) < a" "a < 2 ^ 31" "- (2 ^ 31) < b" "b < 2 ^ 31"
  shows "a = b"
proof -
  have pos: "(if e < 0 then to_int32 (- e) else e) = \<bar>e\<bar>" if "- (2 ^ 31) < e" "e < 2 ^ 31" for e
    using that by auto
  have unnamed: "strerror e = ''error '' @ (if e < 0 then ''-'' else []) @ err_digits \<bar>e\<bar> []"
    if "errno_names e = None" "- (2 ^ 31) < e" "e < 2 ^ 31" for e
    unfolding strerror_def that(1) option.case pos [OF that(2,3)] ..
  have named: "(e, strerror e) \<in> set errno_table" if "errno_names e \<noteq> None" for e
    using that by (auto simp: errno_names_def strerror_def dest: map_of_SomeD)
  have pre: "take 6 (strerror e) \<noteq> ''error ''" if "errno_names e \<noteq> None" for e
    using named [OF that] errno_table_facts(2) by force
  have pre': "take 6 (strerror e) = ''error ''" if "errno_names e = None" "- (2 ^ 31) < e" "e < 2 ^ 31" for e
    using unnamed [OF that] by simp
  have same: "errno_names a = None \<longleftrightarrow> errno_names b = None" using pre pre' assms by metis
  show ?thesis
  proof (cases "errno_names a = None")
    case True
    then have "(if a < 0 then ''-'' else []) @ err_digits \<bar>a\<bar> [] = (if b < 0 then ''-'' else []) @ err_digits \<bar>b\<bar> []"
      using unnamed [of a] unnamed [of b] same assms by simp
    then show ?thesis by (rule err_text_inj)
  next
    case False
    then have "(a, strerror a) \<in> set errno_table" "(b, strerror a) \<in> set errno_table" using named same assms(1) by metis+
    then show ?thesis using errno_table_facts(1) by (metis (no_types, lifting) distinct_map inj_onD prod.inject snd_conv)
  qed
qed

subsection \<open>Saving and restoring the floating-point environment\<close>

text \<open>\<open>feholdexcept\<close>, a computation that raises \<open>x\<close>, \<open>feupdateenv\<close>: the flags are the old ones and \<open>x\<close>, the rounding
  mode is the old one.\<close>

lemma fe_mask: "FE_ALL_EXCEPT = mask 5" "(0xff :: u32) = mask 8" "(7 :: u32) = mask 3"
  by (simp_all add: mask_eq_exp_minus_1)

lemma hold_update:
  "feholdexcept csr = (env, csr1) \<Longrightarrow> feupdateenv (feraiseexcept csr1 x) (Some env) = feraiseexcept (csr AND 0xff) x"
  unfolding feholdexcept_def feupdateenv_def fegetenv_def fesetenv_def feraiseexcept_def fetestexcept_def feclearexcept_def Let_def fe_mask
  by (auto intro!: bit_word_eqI simp: bit_simps)

end
