(* ===== verification/FmtFp.thy ===== *)
theory FmtFp
  imports Printf Fp
begin

unbundle bit_operations_syntax

text \<open>
  \<^verbatim>\<open>src/fmt_fp.inc\<close>: the printing of a \<^verbatim>\<open>long double\<close> for \<^verbatim>\<open>%e %f %g %a\<close>. The output is the list of the
  pieces handed to \<^verbatim>\<open>fp_out\<close>, with the result of the function; \<open>None\<close> is an access outside one of the local
  arrays \<^verbatim>\<open>big\<close> (1842 limbs in base \<open>10 ^ 9\<close>) and \<^verbatim>\<open>buf\<close> (37 characters). The pointers \<^verbatim>\<open>a\<close>, \<^verbatim>\<open>z\<close>, \<^verbatim>\<open>r\<close>, \<^verbatim>\<open>d\<close> are
  indices of \<^verbatim>\<open>big\<close>, whose initial contents (an uninitialised local array) are the parameter \<open>u\<close>; limbs
  are \<open>nat\<close>, they stay below \<open>10 ^ 9\<close> (\<open>FmtDec\<close>). The pointer \<^verbatim>\<open>prefix\<close> is an offset into its string, and
  the character \<^verbatim>\<open>t\<close> its code.
\<close>

abbreviation (input) INT_MAX :: int where "INT_MAX \<equiv> 2 ^ 31 - 1"
abbreviation (input) BIG :: nat where "BIG \<equiv> 1842"

type_synonym pieces = "byte list list"

definition put :: "pieces \<Rightarrow> byte list \<Rightarrow> pieces" where
  "put ps s = ps @ [s]"

definition big_set :: "(nat \<Rightarrow> nat) \<Rightarrow> int \<Rightarrow> nat \<Rightarrow> (nat \<Rightarrow> nat) option" where
  "big_set m i v = (if 0 \<le> i \<and> i < int BIG then Some (m(nat i := v)) else None)"

definition big_get :: "(nat \<Rightarrow> nat) \<Rightarrow> int \<Rightarrow> nat option" where
  "big_get m i = (if 0 \<le> i \<and> i < int BIG then Some (m (nat i)) else None)"

subsection \<open>Floating-point helpers\<close>

definition frexp :: "fp \<Rightarrow> fp \<times> int" where
  "frexp y = (case y of FNum s x \<Rightarrow> if x = 0 then (y, 0) else (FNum s (x / 2 powi (rexp x + 1)), rexp x + 1) | _ \<Rightarrow> (y, 0))"

text \<open>Conversion to an integer type, for the values that are not negative at every call.\<close>

definition trunc :: "fp \<Rightarrow> int" where
  "trunc y = (case y of FNum s x \<Rightarrow> if s then - \<lfloor>x\<rfloor> else \<lfloor>x\<rfloor> | _ \<Rightarrow> 0)"

definition fsign :: "fp \<Rightarrow> bool" where
  "fsign y = (case y of FNum s x \<Rightarrow> s | FInf s \<Rightarrow> s | FNaN \<Rightarrow> False)"

subsection \<open>Sign and prefix\<close>

definition prefix_str :: "byte list" where
  "prefix_str = ''-0X+0X 0X-0x+0x 0x''"

definition fp_prefix :: "bool \<Rightarrow> int \<Rightarrow> nat \<times> int" where
  "fp_prefix neg fl =
     (if neg then (0, 1) else if has fl MARK_POS then (3, 1) else if has fl PAD_POS then (6, 1) else (1, 0))"

definition out_prefix :: "pieces \<Rightarrow> nat \<Rightarrow> int \<Rightarrow> pieces" where
  "out_prefix ps prefix pl = put ps (take (nat pl) (drop prefix prefix_str))"

definition fmt_special :: "fp \<Rightarrow> int \<Rightarrow> int \<Rightarrow> int \<Rightarrow> nat \<Rightarrow> int \<Rightarrow> int \<times> pieces" where
  "fmt_special y w fl t prefix pl =
     (let s = (if y = FNaN then (if has t 32 then ''nan'' else ''NAN'') else (if has t 32 then ''inf'' else ''INF''));
          o1 = fp_pad put [] CHR '' '' w (3 + pl) (fl AND NOT ZERO_PAD);
          o2 = out_prefix o1 prefix pl;
          o3 = put o2 s;
          o4 = fp_pad put o3 CHR '' '' w (3 + pl) (fl XOR LEFT_ADJ)
      in (max w (3 + pl), o4))"

subsection \<open>Hexadecimal\<close>

definition xdigits :: "byte list" where "xdigits = ''0123456789ABCDEF''"

definition hex_re :: "int \<Rightarrow> nat" where
  "hex_re p = (if p < 0 \<or> p \<ge> 113 div 4 - 1 then 0 else nat (113 div 4 - 1 - p))"

primrec round_pow :: "nat \<Rightarrow> fp \<Rightarrow> fp" where
  "round_pow 0 r = r"
| "round_pow (Suc re) r = round_pow re (fmul quad r (FNum False 16))"

definition hex_rounded :: "fp \<Rightarrow> int \<Rightarrow> bool \<Rightarrow> fp" where
  "hex_rounded y p neg =
     (let re = hex_re p in
      if re = 0 then y
      else let round = round_pow re (fmul quad (FNum False 8) (FNum False (2 ^ (113 mod 4)))) in
        if neg then fneg (fadd quad (fsub quad (fneg y) round) round)
        else fsub quad (fadd quad y round) round)"

function hex_loop :: "fp \<Rightarrow> int \<Rightarrow> int \<Rightarrow> int \<Rightarrow> byte list \<Rightarrow> byte list option" where
  "hex_loop y p fl t buf =
     (if length buf \<ge> 37 then None
      else let x = trunc y;
               b1 = buf @ [chr (ord (xdigits ! nat x) OR (t AND 32))];
               y' = fmul quad (FNum False 16) (fsub quad y (of_intf quad x));
               b2 = (if length b1 = 1 \<and> (\<not> fzero y' \<or> p > 0 \<or> has fl ALT_FORM) then b1 @ ''.'' else b1)
           in if fzero y' then Some b2 else hex_loop y' p fl t b2)"
  by pat_completeness auto
termination by (relation "measure (\<lambda>(y, p, fl, t, buf). 37 - length buf)") (auto split: if_splits)

declare hex_loop.simps [simp del]

text \<open>The exponent, from the last digit down to the letter.\<close>

definition hex_exp :: "int \<Rightarrow> int \<Rightarrow> byte list" where
  "hex_exp e2 t =
     (let s = fp_fmt_u (nat (if e2 < 0 then - e2 else e2)) [];
          s1 = (if s = [] then ''0'' else s)
      in chr (t + (112 - 97)) # (if e2 < 0 then CHR ''-'' else CHR ''+'') # s1)"

definition fmt_hex :: "fp \<Rightarrow> int \<Rightarrow> int \<Rightarrow> int \<Rightarrow> int \<Rightarrow> int \<Rightarrow> nat \<Rightarrow> int \<Rightarrow> (int \<times> pieces) option" where
  "fmt_hex y e2 w p fl t prefix0 pl0 =
     (let prefix = (if has t 32 then prefix0 + 9 else prefix0);
          pl = pl0 + 2;
          y1 = hex_rounded y p (prefix_str ! prefix = CHR ''-'');
          estr = hex_exp e2 t;
          el = int (length estr) in
      case hex_loop y1 p fl t [] of None \<Rightarrow> None
      | Some buf \<Rightarrow>
          let sl = int (length buf) in
          if p > INT_MAX - 2 - el - pl then Some (-1, [])
          else let l = (if p \<noteq> 0 \<and> sl - 2 < p then (p + 2) + el else sl + el);
                   o1 = fp_pad put [] CHR '' '' w (pl + l) fl;
                   o2 = out_prefix o1 prefix pl;
                   o3 = fp_pad put o2 CHR ''0'' w (pl + l) (fl XOR ZERO_PAD);
                   o4 = put o3 buf;
                   o5 = fp_pad put o4 CHR ''0'' (l - el - sl) 0 0;
                   o6 = put o5 estr;
                   o7 = fp_pad put o6 CHR '' '' w (pl + l) (fl XOR LEFT_ADJ)
               in Some (max w (pl + l), o7))"

subsection \<open>Decimal: the limbs\<close>

record big =
  bm :: "nat \<Rightarrow> nat"
  ba :: nat
  bz :: nat

text \<open>The digits of \<open>y\<close>, the first one the integer part.\<close>

function expand :: "fp \<Rightarrow> big \<Rightarrow> big option" where
  "expand y b =
     (if bz b < BIG then
        (let n = trunc y;
             y' = fmul quad (of_intf quad 1000000000) (fsub quad y (of_intf quad n));
             b' = b \<lparr> bm := (bm b)(bz b := nat n), bz := bz b + 1 \<rparr>
         in if fzero y' then Some b' else expand y' b')
      else None)"
  by pat_completeness auto
termination by (relation "measure (\<lambda>(y, b). BIG - bz b)") auto

declare expand.simps [simp del]

text \<open>The loops over the limbs of one step; \<open>n\<close> counts the limbs left.\<close>

primrec mul_limbs :: "nat \<Rightarrow> nat \<Rightarrow> (nat \<Rightarrow> nat) \<Rightarrow> nat \<Rightarrow> nat \<Rightarrow> (nat \<Rightarrow> nat) \<times> nat" where
  "mul_limbs a sh m carry 0 = (m, carry)"
| "mul_limbs a sh m carry (Suc n) =
     (let x = m (a + n) * 2 ^ sh + carry
      in mul_limbs a sh (m(a + n := x mod 1000000000)) (x div 1000000000) n)"

primrec div_limbs :: "nat \<Rightarrow> nat \<Rightarrow> (nat \<Rightarrow> nat) \<Rightarrow> nat \<Rightarrow> nat \<Rightarrow> (nat \<Rightarrow> nat) \<times> nat" where
  "div_limbs z sh m carry 0 = (m, carry)"
| "div_limbs z sh m carry (Suc n) =
     (let rm = m (z - Suc n) mod 2 ^ sh
      in div_limbs z sh (m(z - Suc n := m (z - Suc n) div 2 ^ sh + carry)) (1000000000 div 2 ^ sh * rm) n)"

text \<open>\<^verbatim>\<open>for (; z>a && !z[-1]; z--)\<close>\<close>

primrec trim :: "(nat \<Rightarrow> nat) \<Rightarrow> nat \<Rightarrow> nat \<Rightarrow> nat" where
  "trim m a 0 = 0"
| "trim m a (Suc z) = (if a < Suc z \<and> m z = 0 then trim m a z else Suc z)"

definition mul_step :: "nat \<Rightarrow> big \<Rightarrow> big option" where
  "mul_step sh b =
     (let (m, carry) = mul_limbs (ba b) sh (bm b) 0 (bz b - ba b) in
      case (if carry \<noteq> 0 then (case big_set m (int (ba b) - 1) carry of None \<Rightarrow> None | Some m' \<Rightarrow> Some (m', ba b - 1)) else Some (m, ba b)) of
        None \<Rightarrow> None
      | Some (m', a') \<Rightarrow> Some (b \<lparr> bm := m', ba := a', bz := trim m' a' (bz b) \<rparr>))"

function mul_loop :: "int \<Rightarrow> big \<Rightarrow> big option" where
  "mul_loop e2 b =
     (if e2 > 0 then (let sh = min 29 e2 in case mul_step (nat sh) b of None \<Rightarrow> None | Some b' \<Rightarrow> mul_loop (e2 - sh) b')
      else Some b)"
  by pat_completeness auto
termination by (relation "measure (\<lambda>(e2, b). nat e2)") auto

declare mul_loop.simps [simp del]

definition need :: "int \<Rightarrow> int" where
  "need p = 1 + (p + 113 div 3 + 8) div 9"

definition div_step :: "nat \<Rightarrow> bool \<Rightarrow> int \<Rightarrow> nat \<Rightarrow> big \<Rightarrow> big option" where
  "div_step r fixed p sh b =
     (let (m, carry) = div_limbs (bz b) sh (bm b) 0 (bz b - ba b);
          a' = (if m (ba b) = 0 then ba b + 1 else ba b) in
      case (if carry \<noteq> 0 then (case big_set m (int (bz b)) carry of None \<Rightarrow> None | Some m' \<Rightarrow> Some (m', bz b + 1)) else Some (m, bz b)) of
        None \<Rightarrow> None
      | Some (m', z') \<Rightarrow>
          let b0 = (if fixed then r else a')
          in Some (b \<lparr> bm := m', ba := a', bz := (if int z' - int b0 > need p then b0 + nat (need p) else z') \<rparr>))"

function divide_loop :: "nat \<Rightarrow> bool \<Rightarrow> int \<Rightarrow> int \<Rightarrow> big \<Rightarrow> big option" where
  "divide_loop r fixed p e2 b =
     (if e2 < 0 then (let sh = min 9 (- e2) in
        case div_step r fixed p (nat sh) b of None \<Rightarrow> None | Some b' \<Rightarrow> divide_loop r fixed p (e2 + sh) b')
      else Some b)"
  by pat_completeness auto
termination by (relation "measure (\<lambda>(r, fixed, p, e2, b). nat (- e2))") auto

declare divide_loop.simps [simp del]

text \<open>\<^verbatim>\<open>for (i=10, e=9*(r-a); *a>=i; i*=10, e++)\<close> and \<^verbatim>\<open>for (i=10, j=0; z[-1]%i==0; i*=10, j++)\<close>, the latter
  for a limb that is not zero.\<close>

function count_up :: "nat \<Rightarrow> nat \<Rightarrow> int \<Rightarrow> int" where
  "count_up v i e = (if i \<le> v \<and> 0 < i then count_up v (i * 10) (e + 1) else e)"
  by pat_completeness auto
termination by (relation "measure (\<lambda>(v, i, e). v + 1 - i)") auto

declare count_up.simps [simp del]

function count_zeros :: "nat \<Rightarrow> nat \<Rightarrow> int \<Rightarrow> int" where
  "count_zeros v i j = (if v mod i = 0 \<and> 0 < v \<and> 0 < i then count_zeros v (i * 10) (j + 1) else j)"
  by pat_completeness auto
termination by (relation "measure (\<lambda>(v, i, j). v + 1 - i)") (auto dest!: dvd_imp_le simp: mod_eq_0_iff_dvd)

declare count_zeros.simps [simp del]

definition dec_exponent :: "nat \<Rightarrow> big \<Rightarrow> int" where
  "dec_exponent r b = count_up (bm b (ba b)) 10 (9 * (int r - int (ba b)))"

subsection \<open>Decimal: rounding\<close>

text \<open>Whether to round up is decided by the addition itself: \<^verbatim>\<open>round+small != round\<close>.\<close>

definition rounds_up :: "bool \<Rightarrow> bool \<Rightarrow> nat \<Rightarrow> nat \<Rightarrow> bool \<Rightarrow> bool" where
  "rounds_up neg odd_digit x i final =
     (let round0 = FNum False (2 ^ 113);
          round1 = (if odd_digit then fadd quad round0 (FNum False 2) else round0);
          small0 = (if x < i div 2 then FNum False (1 / 2) else if x = i div 2 \<and> final then FNum False 1 else FNum False (3 / 2));
          round = (if neg then fmul quad round1 (FNum True 1) else round1);
          small = (if neg then fmul quad small0 (FNum True 1) else small0)
      in fadd quad round small \<noteq> round)"

function carry_loop :: "big \<Rightarrow> nat \<Rightarrow> (big \<times> nat) option" where
  "carry_loop b d =
     (if bm b d > 999999999
      then (if d = 0 then None
            else let m1 = (bm b)(d := 0);
                     (m2, a2) = (if d - 1 < ba b then (m1(ba b - 1 := 0), ba b - 1) else (m1, ba b))
                 in carry_loop (b \<lparr> bm := m2(d - 1 := m2 (d - 1) + 1), ba := a2 \<rparr>) (d - 1))
      else Some (b, d))"
  by pat_completeness auto
termination by (relation "measure (\<lambda>(b, d). d)") auto

declare carry_loop.simps [simp del]

text \<open>\<open>j\<close> is the number of digits behind the point that are kept. The carry moves the pointer \<^verbatim>\<open>d\<close>, behind which
  the limbs are then cut.\<close>

definition round_limbs :: "nat \<Rightarrow> bool \<Rightarrow> int \<Rightarrow> big \<Rightarrow> int \<Rightarrow> (big \<times> int) option" where
  "round_limbs r neg j b e =
     (if j < 9 * (int (bz b) - int r - 1) then
        (let d = int r + 1 + ((j + 9 * 16384) div 9 - 16384);
             i = 10 ^ nat (9 - (j + 9 * 16384) mod 9) in
         case big_get (bm b) d of None \<Rightarrow> None
         | Some v \<Rightarrow>
             let x = v mod i;
                 cut = (\<lambda>b' d'. if bz b' > d' + 1 then b' \<lparr> bz := d' + 1 \<rparr> else b') in
             if x \<noteq> 0 \<or> d + 1 \<noteq> int (bz b) then
               (let odd_digit = (odd (v div i) \<or> i = 1000000000 \<and> d > int (ba b) \<and> odd (bm b (nat (d - 1))));
                    up = rounds_up neg odd_digit x i (d + 1 = int (bz b)) in
                if up then
                  (case carry_loop (b \<lparr> bm := (bm b)(nat d := v - x + i) \<rparr>) (nat d) of None \<Rightarrow> None
                   | Some (b1, d1) \<Rightarrow> Some (cut b1 d1, dec_exponent r b1))
                else Some (cut (b \<lparr> bm := (bm b)(nat d := v - x) \<rparr>) (nat d), e))
             else Some (cut b (nat d), e))
      else Some (b, e))"

text \<open>\<^verbatim>\<open>%g\<close> becomes \<^verbatim>\<open>%f\<close> or \<^verbatim>\<open>%e\<close>, without trailing zeros.\<close>

definition g_style :: "nat \<Rightarrow> int \<Rightarrow> big \<Rightarrow> int \<Rightarrow> int \<Rightarrow> int \<Rightarrow> int \<times> int" where
  "g_style r fl b e t p0 =
     (let p1 = (if p0 = 0 then p0 + 1 else p0);
          (t2, p2) = (if p1 > e \<and> e \<ge> -4 then (t - 1, p1 - (e + 1)) else (t - 2, p1 - 1)) in
      if \<not> has fl ALT_FORM then
        (let j = (if bz b > ba b \<and> bm b (bz b - 1) \<noteq> 0 then count_zeros (bm b (bz b - 1)) 10 0 else 9)
         in if t2 OR 32 = 102 then (t2, min p2 (max 0 (9 * (int (bz b) - int r - 1) - j)))
            else (t2, min p2 (max 0 (9 * (int (bz b) - int r - 1) + e - j))))
      else (t2, p2))"

subsection \<open>Decimal: output\<close>

text \<open>The digits of a limb written into \<^verbatim>\<open>buf\<close> backwards from \<^verbatim>\<open>buf+9\<close>; filled up with zeros.\<close>

definition limb_text :: "nat \<Rightarrow> byte list option" where
  "limb_text v = (let s = fp_fmt_u v [] in if length s \<le> 9 then Some s else None)"

definition fill9 :: "byte list \<Rightarrow> byte list" where
  "fill9 s = replicate (9 - length s) CHR ''0'' @ s"

definition dec_exp :: "int \<Rightarrow> int \<Rightarrow> byte list" where
  "dec_exp e t =
     (let s = fp_fmt_u (nat (if e < 0 then - e else e)) [];
          s1 = replicate (2 - length s) CHR ''0'' @ s
      in chr t # (if e < 0 then CHR ''-'' else CHR ''+'') # s1)"

text \<open>\<^verbatim>\<open>%f\<close>: the limbs \<open>d\<close> to \<open>r\<close> before the point, then those behind it.\<close>

primrec f_whole :: "(nat \<Rightarrow> nat) \<Rightarrow> nat \<Rightarrow> nat \<Rightarrow> pieces \<Rightarrow> nat \<Rightarrow> pieces option" where
  "f_whole m a r ps 0 = Some ps"
| "f_whole m a r ps (Suc n) =
     (case big_get m (int r - int n) of None \<Rightarrow> None
      | Some v \<Rightarrow>
          (case limb_text v of None \<Rightarrow> None
           | Some s \<Rightarrow>
               let s1 = (if r - n \<noteq> a then fill9 s else if s = [] then ''0'' else s)
               in f_whole m a r (put ps s1) n))"

function f_frac :: "(nat \<Rightarrow> nat) \<Rightarrow> nat \<Rightarrow> nat \<Rightarrow> int \<Rightarrow> pieces \<Rightarrow> (int \<times> pieces) option" where
  "f_frac m d z p ps =
     (if d < z \<and> p > 0 then
        (case limb_text (m d) of None \<Rightarrow> None
         | Some s \<Rightarrow> f_frac m (d + 1) z (p - 9) (put ps (take (nat (min 9 p)) (fill9 s))))
      else Some (p, ps))"
  by pat_completeness auto
termination by (relation "measure (\<lambda>(m, d, z, p, ps). z - d)") auto

declare f_frac.simps [simp del]

definition f_digits :: "nat \<Rightarrow> int \<Rightarrow> int \<Rightarrow> big \<Rightarrow> pieces \<Rightarrow> pieces option" where
  "f_digits r fl p b o0 =
     (let a = (if ba b > r then r else ba b) in
      case f_whole (bm b) a r o0 (r + 1 - a) of None \<Rightarrow> None
      | Some o1 \<Rightarrow>
          let o2 = (if p \<noteq> 0 \<or> has fl ALT_FORM then put o1 ''.'' else o1) in
          (case f_frac (bm b) (r + 1) (bz b) p o2 of None \<Rightarrow> None
           | Some (p', o3) \<Rightarrow> Some (fp_pad put o3 CHR ''0'' (p' + 9) 9 0)))"

text \<open>\<^verbatim>\<open>%e\<close>: the first digit, then the rest of the limbs.\<close>

function e_loop :: "(nat \<Rightarrow> nat) \<Rightarrow> nat \<Rightarrow> int \<Rightarrow> nat \<Rightarrow> nat \<Rightarrow> int \<Rightarrow> pieces \<Rightarrow> (int \<times> pieces) option" where
  "e_loop m a fl d z p ps =
     (if d < z \<and> p \<ge> 0 then
        (case limb_text (m d) of None \<Rightarrow> None
         | Some s0 \<Rightarrow>
             let s1 = (if s0 = [] then ''0'' else s0);
                 (s, ps1) = (if d \<noteq> a then (fill9 s1, ps)
                             else let q = put ps (take 1 s1) in (drop 1 s1, if p > 0 \<or> has fl ALT_FORM then put q ''.'' else q));
                 n = int (length s)
             in e_loop m a fl (d + 1) z (p - n) (put ps1 (take (nat (min n p)) s)))
      else Some (p, ps))"
  by pat_completeness auto
termination by (relation "measure (\<lambda>(m, a, fl, d, z, p, ps). z - d)") auto

declare e_loop.simps [simp del]

definition e_digits :: "int \<Rightarrow> int \<Rightarrow> big \<Rightarrow> byte list \<Rightarrow> pieces \<Rightarrow> pieces option" where
  "e_digits fl p b estr o0 =
     (let z = (if bz b \<le> ba b then ba b + 1 else bz b) in
      case e_loop (bm b) (ba b) fl (ba b) z p o0 of None \<Rightarrow> None
      | Some (p', o1) \<Rightarrow> Some (put (fp_pad put o1 CHR ''0'' (p' + 18) 18 0) estr))"

definition dec_out :: "nat \<Rightarrow> int \<Rightarrow> int \<Rightarrow> int \<Rightarrow> int \<Rightarrow> nat \<Rightarrow> int \<Rightarrow> big \<Rightarrow> int \<Rightarrow> (int \<times> pieces) option" where
  "dec_out r w p fl t prefix pl b e =
     (let dot = (if p \<noteq> 0 \<or> has fl ALT_FORM then 1 else 0 :: int);
          l0 = 1 + p + dot;
          fixed = (t OR 32 = 102);
          estr = dec_exp e t;
          el = int (length estr);
          l = (if fixed then (if e > 0 then l0 + e else l0) else l0 + el) in
      if p > INT_MAX - 1 - dot \<or> (if fixed then e > INT_MAX - l0 else el > INT_MAX - l0) \<or> l > INT_MAX - pl then Some (-1, [])
      else let o1 = fp_pad put [] CHR '' '' w (pl + l) fl;
               o2 = out_prefix o1 prefix pl;
               o3 = fp_pad put o2 CHR ''0'' w (pl + l) (fl XOR ZERO_PAD)
           in case (if fixed then f_digits r fl p b o3 else e_digits fl p b estr o3) of None \<Rightarrow> None
              | Some o4 \<Rightarrow> Some (max w (pl + l), fp_pad put o4 CHR '' '' w (pl + l) (fl XOR LEFT_ADJ)))"

definition limbs_of :: "(nat \<Rightarrow> nat) \<Rightarrow> fp \<Rightarrow> int \<Rightarrow> nat \<Rightarrow> bool \<Rightarrow> int \<Rightarrow> big option" where
  "limbs_of u y e2 r fixed p =
     do { b0 \<leftarrow> expand y \<lparr> bm = u, ba = r, bz = r \<rparr>;
          b1 \<leftarrow> mul_loop e2 b0;
          divide_loop r fixed p (min e2 0) b1 }"

definition fmt_dec :: "(nat \<Rightarrow> nat) \<Rightarrow> fp \<Rightarrow> int \<Rightarrow> int \<Rightarrow> int \<Rightarrow> int \<Rightarrow> int \<Rightarrow> nat \<Rightarrow> int \<Rightarrow> (int \<times> pieces) option" where
  "fmt_dec u y0 e20 w p0 fl t prefix pl =
     (let p = (if p0 < 0 then 6 else p0);
          (y, e2) = (if fzero y0 then (y0, e20) else (fmul quad y0 (FNum False (2 ^ 28)), e20 - 28));
          r = (if e2 < 0 then 0 else BIG - 113 - 1);
          fixed = (t OR 32 = 102);
          g = (t OR 32 = 103) in
      case limbs_of u y e2 r fixed p of None \<Rightarrow> None
      | Some b2 \<Rightarrow>
          let e = (if ba b2 < bz b2 then dec_exponent r b2 else 0);
              j = p - (if fixed then 0 else e) - (if g \<and> p \<noteq> 0 then 1 else 0) in
          (case round_limbs r (pl \<noteq> 0 \<and> prefix_str ! prefix = CHR ''-'') j b2 e of None \<Rightarrow> None
           | Some (b3, e3) \<Rightarrow>
               let b4 = b3 \<lparr> bz := trim (bm b3) (ba b3) (bz b3) \<rparr>;
                   (t5, p5) = (if g then g_style r fl b4 e3 t p else (t, p))
               in dec_out r w p5 fl t5 prefix pl b4 e3))"

subsection \<open>The function\<close>

definition fmt_fp :: "(nat \<Rightarrow> nat) \<Rightarrow> fp \<Rightarrow> int \<Rightarrow> int \<Rightarrow> int \<Rightarrow> int \<Rightarrow> (int \<times> pieces) option" where
  "fmt_fp u y0 w p fl t =
     (let y = (if fsign y0 then fneg y0 else y0);
          (prefix, pl) = fp_prefix (fsign y0) fl in
      case y of
        FNum s x \<Rightarrow>
          (let (m, k) = frexp y;
               y1 = fmul quad m (FNum False 2);
               e2 = (if fzero y1 then k else k - 1)
           in if t OR 32 = 97 then fmt_hex y1 e2 w p fl t prefix pl else fmt_dec u y1 e2 w p fl t prefix pl)
      | _ \<Rightarrow> Some (fmt_special y w fl t prefix pl))"

text \<open>As \<^verbatim>\<open>put_float\<close> uses it: the result is dropped.\<close>

definition fmt_fp_pieces :: "(nat \<Rightarrow> nat) \<Rightarrow> fp fmt_fp_fn" where
  "fmt_fp_pieces u y w p fl t = (case fmt_fp u y w p fl (ord t) of None \<Rightarrow> [] | Some (n, ps) \<Rightarrow> ps)"

end
