(* ===== verification/FloatRing.thy ===== *)
theory FloatRing
  imports FloatScan
begin

text \<open>
  The ring of limbs of \<^verbatim>\<open>decfloat\<close> refined to a list. \<open>ring_is r L\<close> says that the limbs from \<open>a\<close> to \<open>z\<close>
  are the list \<open>L\<close>; \<open>vl L\<close> is the fraction it denotes, so that the number of a ring is
  \<open>vl L * 10 ^ rp\<close>. As long as the ring does not overflow, multiplying by \<open>2 ^ 29\<close> and dividing by
  \<open>2 ^ sh\<close> are exact, limbs never exceed \<open>10 ^ 9\<close> (so \<^verbatim>\<open>uint32_t\<close> never wraps), and both loops end.
\<close>

subsection \<open>Lists of limbs\<close>

fun vl :: "nat list \<Rightarrow> rat" where
  "vl [] = 0"
| "vl (v # vs) = (of_nat v + vl vs) / 10 ^ 9"

lemma vl_append: "vl (xs @ ys) = vl xs + vl ys / 10 ^ (9 * length xs)"
  by (induction xs) (simp_all add: power_add field_simps)

lemma vl_zeros [simp]: "vl (replicate n 0) = 0"
  by (induction n) simp_all

lemma vl_ge0 [simp]: "0 \<le> vl xs"
  by (induction xs) simp_all

lemma vl_pos: "\<exists>v \<in> set xs. v \<noteq> 0 \<Longrightarrow> 0 < vl xs"
proof (induction xs)
  case (Cons v vs)
  show ?case
  proof (cases "v = 0")
    case True
    then show ?thesis using Cons by simp
  next
    case False
    have "0 \<le> vl vs" by simp
    then show ?thesis using False by (simp add: add_pos_nonneg)
  qed
qed simp

lemma vl_hd_ge: "xs \<noteq> [] \<Longrightarrow> of_nat (hd xs) / 10 ^ 9 \<le> vl xs"
  by (cases xs) (simp_all add: divide_right_mono)

lemma vl_le: "\<forall>v \<in> set xs. v \<le> B1B \<Longrightarrow> vl xs * (10 ^ 9 - 1) \<le> 10 ^ 9"
proof (induction xs)
  case (Cons v vs)
  then have "vl vs * (10 ^ 9 - 1) \<le> 10 ^ 9" "(of_nat v :: rat) \<le> of_nat B1B" unfolding of_nat_le_iff by simp_all
  then show ?case by (simp add: field_simps)
qed simp

lemma vl_less_1: "\<forall>v \<in> set xs. v < B1B \<Longrightarrow> vl xs < 1"
proof (induction xs)
  case (Cons v vs)
  then have "vl vs < 1" "(of_nat v :: rat) \<le> of_nat (B1B - 1)" unfolding of_nat_le_iff by simp_all
  then show ?case by simp
qed simp

text \<open>
  A limb may be \<open>10 ^ 9\<close> after a multiplication (the code carries only above it); the limb before it is
  then a multiple of 512.
\<close>

fun okl :: "nat list \<Rightarrow> bool" where
  "okl [] = True"
| "okl (v # vs) = (v \<le> B1B \<and> (vs \<noteq> [] \<and> hd vs = B1B \<longrightarrow> 512 dvd v) \<and> okl vs)"

lemma okl_le: "okl xs \<Longrightarrow> v \<in> set xs \<Longrightarrow> v \<le> B1B"
  by (induction xs) auto

lemma okl_small: "\<forall>v \<in> set xs. v < B1B \<Longrightarrow> okl xs"
proof (induction xs)
  case (Cons v vs)
  then show ?case by (cases vs) auto
qed simp

lemma okl_nth: "okl xs \<Longrightarrow> Suc i < length xs \<Longrightarrow> xs ! Suc i = B1B \<Longrightarrow> 512 dvd xs ! i"
proof (induction xs arbitrary: i)
  case (Cons v vs)
  show ?case
  proof (cases i)
    case 0
    then show ?thesis using Cons.prems by (cases vs) auto
  next
    case (Suc j)
    then show ?thesis using Cons by simp
  qed
qed simp

text \<open>A list of limbs that stands for a positive number.\<close>

definition limbs_ok :: "nat list \<Rightarrow> bool" where
  "limbs_ok L \<longleftrightarrow> L \<noteq> [] \<and> hd L \<noteq> 0 \<and> okl L \<and> (last L \<noteq> 0 \<or> length L \<le> 2)"

lemma limbs_ok_pos: "limbs_ok L \<Longrightarrow> 0 < vl L"
  by (rule vl_pos) (auto simp: limbs_ok_def intro: bexI [OF _ hd_in_set])

subsection \<open>Multiplying a list by \<open>2 ^ 29\<close>\<close>

lemma up_limb_spec:
  assumes "up_limb v c = (v', c')"
  shows "c' * B1B + v' = v * 2 ^ 29 + c" "v' \<le> B1B" "v' = B1B \<Longrightarrow> c' = 0" "c = 0 \<Longrightarrow> 512 dvd v'"
    "v \<le> B1B \<Longrightarrow> c \<le> 2 ^ 29 \<Longrightarrow> c' \<le> 2 ^ 29" "v \<noteq> 0 \<Longrightarrow> v' = 0 \<Longrightarrow> c' \<noteq> 0"
proof -
  let ?t = "v * 2 ^ 29 + c"
  have e: "v' = (if ?t > B1B then ?t mod B1B else ?t)" "c' = (if ?t > B1B then ?t div B1B else 0)"
    using assms by (auto simp: up_limb_def Let_def split: if_splits)
  show eq: "c' * B1B + v' = ?t" unfolding e by (simp add: div_mult_mod_eq)
  show "v' \<le> B1B" unfolding e(1) by (auto simp: less_imp_le)
  show "v' = B1B \<Longrightarrow> c' = 0"
  proof -
    assume a: "v' = B1B"
    have "?t mod B1B < B1B" by simp
    then show "c' = 0" using a unfolding e by (auto split: if_splits)
  qed
  show "512 dvd v'" if "c = 0"
  proof -
    have "(512 :: nat) dvd v * 2 ^ 29" by (rule dvd_mult) simp
    moreover have "(512 :: nat) dvd B1B" by simp
    ultimately show ?thesis unfolding e(1) using that by (simp add: dvd_mod)
  qed
  show "c' \<le> 2 ^ 29" if "v \<le> B1B" "c \<le> 2 ^ 29"
  proof (rule ccontr)
    assume "\<not> c' \<le> 2 ^ 29"
    then have "(2 ^ 29 + 1) * B1B \<le> c' * B1B" by simp
    also have "\<dots> \<le> B1B * 2 ^ 29 + 2 ^ 29" using eq that by simp
    finally show False by simp
  qed
  show "v \<noteq> 0 \<Longrightarrow> v' = 0 \<Longrightarrow> c' \<noteq> 0" using eq by auto
qed

fun upl :: "nat list \<Rightarrow> nat \<Rightarrow> nat list \<Rightarrow> nat \<times> nat list" where
  "upl [] c W = (c, W)"
| "upl [v] c W = (let (v', c') = up_limb v c in (c', v' # W))"
| "upl (v # w # vs) c W = (let (v', c') = up_limb v c in upl (w # vs) c' (if W = [] \<and> v' = 0 then [] else v' # W))"

lemma upl_value:
  "upl vs c W = (c', W') \<Longrightarrow>
    of_nat c' + vl W' = 2 ^ 29 * vl (rev vs) + (of_nat c + vl W) / 10 ^ (9 * length vs)"
proof (induction vs c W arbitrary: c' W' rule: upl.induct)
  case (1 c W)
  then show ?case by simp
next
  case (2 v c W)
  obtain v1 c1 where u: "up_limb v c = (v1, c1)" by (cases "up_limb v c") auto
  have "(of_nat (c1 * B1B + v1) :: rat) = of_nat (v * 2 ^ 29 + c)" using up_limb_spec(1) [OF u] by (rule arg_cong)
  moreover have "c' = c1" "W' = v1 # W" using 2 u by simp_all
  ultimately show ?case by (simp add: field_simps)
next
  case (3 v w vs c W)
  obtain v1 c1 where u: "up_limb v c = (v1, c1)" by (cases "up_limb v c") auto
  let ?W = "if W = [] \<and> v1 = 0 then [] else v1 # W"
  have "vl ?W = vl (v1 # W)" by simp
  moreover have "upl (w # vs) c1 ?W = (c', W')" using "3.prems" u by simp
  ultimately have i: "of_nat c' + vl W' = 2 ^ 29 * vl (rev (w # vs)) + (of_nat c1 + vl (v1 # W)) / 10 ^ (9 * length (w # vs))"
    using "3.IH" [OF u [symmetric] refl, of c' W'] by simp
  have e: "(of_nat (c1 * B1B + v1) :: rat) = of_nat (v * 2 ^ 29 + c)" using up_limb_spec(1) [OF u] by (rule arg_cong)
  have "of_nat c1 + vl (v1 # W) = (of_nat v * 2 ^ 29 + of_nat c + vl W) / 10 ^ 9"
    using e by (simp add: field_simps)
  moreover have "vl (rev (v # w # vs)) = vl (rev (w # vs)) + (of_nat v / 10 ^ 9) / 10 ^ (9 * length (w # vs))"
    using vl_append [of "rev (w # vs)" "[v]"] by simp
  ultimately show ?case unfolding i by (simp add: power_add field_simps)
qed

lemma upl_shape:
  "upl vs c W = (c', W') \<Longrightarrow> vs \<noteq> [] \<Longrightarrow> (\<forall>v \<in> set vs. v \<le> B1B) \<Longrightarrow> okl W \<Longrightarrow> (W \<noteq> [] \<and> hd W = B1B \<longrightarrow> c = 0) \<Longrightarrow>
    c \<le> 2 ^ 29 \<Longrightarrow> (W = [] \<or> last W \<noteq> 0) \<Longrightarrow> last vs \<noteq> 0 \<Longrightarrow>
    W' \<noteq> [] \<and> okl W' \<and> (hd W' = B1B \<longrightarrow> c' = 0) \<and> c' \<le> 2 ^ 29 \<and> (length W' = 1 \<or> last W' \<noteq> 0)
    \<and> length W' \<le> length vs + length W \<and> (hd W' = 0 \<longrightarrow> c' \<noteq> 0)"
proof (induction vs c W arbitrary: c' W' rule: upl.induct)
  case (2 v c W)
  obtain v1 c1 where u: "up_limb v c = (v1, c1)" by (cases "up_limb v c") auto
  note s = up_limb_spec [OF u]
  have "c' = c1" "W' = v1 # W" using 2 u by simp_all
  then show ?case using 2 s by auto
next
  case (3 v w vs c W)
  obtain v1 c1 where u: "up_limb v c = (v1, c1)" by (cases "up_limb v c") auto
  note s = up_limb_spec [OF u]
  let ?W = "if W = [] \<and> v1 = 0 then [] else v1 # W"
  have r: "upl (w # vs) c1 ?W = (c', W')" using "3.prems"(1) u by simp
  have "okl ?W" "?W \<noteq> [] \<and> hd ?W = B1B \<longrightarrow> c1 = 0" "c1 \<le> 2 ^ 29" "?W = [] \<or> last ?W \<noteq> 0"
    "length (w # vs) + length ?W \<le> length (v # w # vs) + length W"
    using "3.prems" s by auto
  moreover have "last (w # vs) \<noteq> 0" "\<forall>v \<in> set (w # vs). v \<le> B1B" using "3.prems" by auto
  ultimately show ?case using "3.IH" [OF u [symmetric] refl r] by simp
qed simp

lemma upl_top: "upl vs c W = (c', W') \<Longrightarrow> vs \<noteq> [] \<Longrightarrow> last vs * 2 ^ 29 \<le> c' * B1B + hd W'"
proof (induction vs c W arbitrary: c' W' rule: upl.induct)
  case (2 v c W)
  obtain v1 c1 where u: "up_limb v c = (v1, c1)" by (cases "up_limb v c") auto
  show ?case using 2 u up_limb_spec(1) [OF u] by auto
next
  case (3 v w vs c W)
  obtain v1 c1 where u: "up_limb v c = (v1, c1)" by (cases "up_limb v c") auto
  show ?case using "3.IH" [OF u [symmetric] refl] "3.prems" u by simp
qed simp

definition upstep :: "nat list \<Rightarrow> nat list" where
  "upstep L = (let (c, W) = upl (rev L) 0 [] in if c = 0 then W else c # W)"

definition up_carry :: "nat list \<Rightarrow> bool" where
  "up_carry L \<longleftrightarrow> fst (upl (rev L) 0 []) \<noteq> 0"

lemma upstep_spec:
  assumes "limbs_ok L"
  shows "limbs_ok (upstep L)"
    and "up_carry L \<Longrightarrow> length (upstep L) \<le> length L + 1 \<and> vl (upstep L) = 2 ^ 29 * vl L / 10 ^ 9"
    and "\<not> up_carry L \<Longrightarrow> length (upstep L) \<le> length L \<and> vl (upstep L) = 2 ^ 29 * vl L \<and> hd L < 2 \<and> 2 ^ 29 \<le> hd (upstep L)"
proof -
  obtain c W where r: "upl (rev L) 0 [] = (c, W)" by (cases "upl (rev L) 0 []") auto
  have top: "hd L * 2 ^ 29 \<le> c * B1B + hd W" if "L \<noteq> []" using upl_top [OF r] that by (simp add: last_rev)
  have L: "L \<noteq> []" "hd L \<noteq> 0" "okl L" using assms by (auto simp: limbs_ok_def)
  then have "W \<noteq> [] \<and> okl W \<and> (hd W = B1B \<longrightarrow> c = 0) \<and> c \<le> 2 ^ 29 \<and> (length W = 1 \<or> last W \<noteq> 0)
    \<and> length W \<le> length L \<and> (hd W = 0 \<longrightarrow> c \<noteq> 0)"
    using upl_shape [OF r] okl_le by (auto simp: last_rev)
  moreover from this have "c \<le> B1B" by simp
  moreover have "of_nat c + vl W = 2 ^ 29 * vl L" using upl_value [OF r] by simp
  ultimately show "limbs_ok (upstep L)"
    "up_carry L \<Longrightarrow> length (upstep L) \<le> length L + 1 \<and> vl (upstep L) = 2 ^ 29 * vl L / 10 ^ 9"
    "\<not> up_carry L \<Longrightarrow> length (upstep L) \<le> length L \<and> vl (upstep L) = 2 ^ 29 * vl L \<and> hd L < 2 \<and> 2 ^ 29 \<le> hd (upstep L)"
    using top L okl_le [of W "hd W"] by (auto simp: upstep_def up_carry_def r limbs_ok_def)
qed

subsection \<open>The ring as a list\<close>

lemma ix_eq_iff: "i < KMAX \<Longrightarrow> j < KMAX \<Longrightarrow> (a + i) mod KMAX = (a + j) mod KMAX \<longleftrightarrow> i = j"
proof -
  have w: "i = j" if "i \<le> j" "j < KMAX" "(a + i) mod KMAX = (a + j) mod KMAX" for i j
  proof -
    have "KMAX dvd (a + j) - (a + i)" using that mod_eq_dvd_iff_nat [of "a + i" "a + j" KMAX] by simp
    then show ?thesis using that by (auto dest: dvd_imp_le)
  qed
  assume "i < KMAX" "j < KMAX"
  then show ?thesis using w [of i j] w [of j i] by (metis nat_le_linear)
qed

lemma ix_mod_eq_iff: "a < KMAX \<Longrightarrow> j < KMAX \<Longrightarrow> (a + j) mod KMAX = a \<longleftrightarrow> j = 0"
  using ix_eq_iff [of 0 j a] by auto

lemma prev_ix_alt: "prev_ix k = (k + 2047) mod KMAX"
proof -
  have "k + KMAX - 1 = k + 2047" by simp
  then show ?thesis by (simp only: prev_ix_def)
qed

lemma prev_ix_Suc: "prev_ix (Suc y mod KMAX) = y mod KMAX"
proof -
  have "(Suc y mod KMAX + 2047) mod KMAX = (Suc y + 2047) mod KMAX" by (rule mod_add_left_eq)
  moreover have "Suc y + 2047 = y + KMAX" by simp
  ultimately show ?thesis unfolding prev_ix_alt by (simp only: mod_add_self2)
qed

lemma next_ix_mod: "next_ix (y mod KMAX) = Suc y mod KMAX"
  by (simp add: next_ix_def mod_Suc_eq)

definition ring_is :: "ring \<Rightarrow> nat list \<Rightarrow> bool" where
  "ring_is r L \<longleftrightarrow> ra r < KMAX \<and> length L < KMAX \<and> rz r = (ra r + length L) mod KMAX
     \<and> (\<forall>i < length L. rx r ((ra r + i) mod KMAX) = L ! i)"

lemma up_loop_list:
  assumes "ra r < KMAX" "length L + length W < KMAX" "rz r = (ra r + length L + length W) mod KMAX"
    "length L = Suc n" "\<forall>i < length L. rx r ((ra r + i) mod KMAX) = L ! i"
    "\<forall>i < length W. rx r ((ra r + length L + i) mod KMAX) = W ! i" "upl (rev L) c W = (c', W')"
  shows "\<exists>r'. up_loop n ((ra r + n) mod KMAX) r c = (r', c') \<and> ring_is r' W' \<and> ra r' = ra r \<and> rp r' = rp r \<and> re2 r' = re2 r"
  using assms
proof (induction n arbitrary: r L W c)
  case 0
  then obtain v where L: "L = [v]" by (cases L) auto
  obtain v1 c1 where u: "up_limb v c = (v1, c1)" by (cases "up_limb v c") auto
  have W': "c' = c1" "W' = v1 # W" using 0 L u by simp_all
  let ?r = "r\<lparr>rx := (rx r)(ra r := v1)\<rparr>"
  have x: "rx ?r ((ra r + i) mod KMAX) = W' ! i" if "i < length W'" for i
  proof (cases i)
    case (Suc j)
    have "(ra r + i) mod KMAX \<noteq> ra r"
      using ix_mod_eq_iff [of "ra r" i] that "0.prems"(1,2) L W' Suc by simp
    then show ?thesis using Suc that "0.prems"(6) L W' by (simp add: add.commute add.left_commute)
  qed (use "0.prems"(1) W' in simp)
  have "ring_is ?r W'" using "0.prems" x L W' by (simp add: ring_is_def)
  moreover have "rx r (ra r mod KMAX) = v" using "0.prems"(1,5) L by simp
  ultimately show ?case using u W' "0.prems"(1) by simp
next
  case (Suc m)
  obtain L0 v where L: "L = L0 @ [v]" using Suc.prems(4) by (cases L rule: rev_cases) auto
  have L0: "length L0 = Suc m" using L Suc.prems(4) by simp
  obtain w vs where rl: "rev L0 = w # vs" using L0 by (cases "rev L0") auto
  obtain v1 c1 where u: "up_limb v c = (v1, c1)" by (cases "up_limb v c") auto
  define k where "k = (ra r + Suc m) mod KMAX"
  define W2 where "W2 = (if W = [] \<and> v1 = 0 then [] else v1 # W)"
  define r1 where "r1 = r\<lparr>rx := (rx r)(k := v1)\<rparr>"
  define r2 where "r2 = (if k = prev_ix (rz r) \<and> v1 = 0 then r1\<lparr>rz := k\<rparr> else r1)"
  have rec: "upl (rev L0) c1 W2 = (c', W')" using Suc.prems(7) L rl u by (simp add: W2_def)
  have kz: "k = prev_ix (rz r) \<longleftrightarrow> W = []"
  proof -
    have "prev_ix (rz r) = (ra r + (Suc m + length W)) mod KMAX"
      using prev_ix_Suc [of "ra r + Suc m + length W"] Suc.prems(3,4) by (simp add: add.assoc add.commute add.left_commute)
    then show ?thesis using ix_eq_iff [of "Suc m" "Suc m + length W" "ra r"] Suc.prems(2,4) by (auto simp: k_def)
  qed
  have rk: "rx r k = v" unfolding k_def using Suc.prems(4,5) L L0 by (metis lessI nth_append_length)
  have c1: "ra r2 = ra r" "rp r2 = rp r" "re2 r2 = re2 r" by (simp_all add: r2_def r1_def)
  have c2: "length L0 + length W2 < KMAX" using Suc.prems(2) L by (auto simp: W2_def)
  have c3: "rz r2 = (ra r + length L0 + length W2) mod KMAX" using kz Suc.prems(3) L L0 by (auto simp: r2_def r1_def W2_def k_def)
  have c4: "rx r2 ((ra r + i) mod KMAX) = L0 ! i" if "i < length L0" for i
  proof -
    have "(ra r + i) mod KMAX \<noteq> k" using ix_eq_iff [of i "Suc m" "ra r"] that L0 Suc.prems(2,4) by (simp add: k_def)
    moreover have "rx r ((ra r + i) mod KMAX) = L ! i" using Suc.prems(5) that L by simp
    ultimately show ?thesis using that L by (simp add: nth_append r2_def r1_def)
  qed
  have c5: "rx r2 ((ra r + length L0 + i) mod KMAX) = W2 ! i" if "i < length W2" for i
  proof (cases i)
    case 0
    then show ?thesis using that L0 by (auto simp: W2_def r2_def r1_def k_def split: if_splits)
  next
    case (Suc j)
    have ij: "j < length W" "W2 = v1 # W" using that Suc by (auto simp: W2_def split: if_splits)
    have "(ra r + length L0 + i) mod KMAX \<noteq> k"
      using ix_eq_iff [of "Suc m + i" "Suc m" "ra r"] ij Suc L0 L Suc.prems(2,4) by (simp add: add.assoc k_def)
    moreover have "rx r ((ra r + length L + j) mod KMAX) = W ! j" using Suc.prems(6) ij by simp
    moreover have "length L + j = length L0 + i" using L Suc by simp
    ultimately show ?thesis using ij Suc by (simp add: add.assoc r2_def r1_def)
  qed
  have step: "up_loop (Suc m) k r c = up_loop m (prev_ix k) r2 c1" using u rk by (simp add: r2_def r1_def Let_def)
  have pk: "prev_ix k = (ra r + m) mod KMAX" unfolding k_def add_Suc_right by (rule prev_ix_Suc)
  have "\<exists>r'. up_loop m ((ra r2 + m) mod KMAX) r2 c1 = (r', c') \<and> ring_is r' W' \<and> ra r' = ra r2 \<and> rp r' = rp r2 \<and> re2 r' = re2 r2"
    using Suc.prems(1) c1 c2 c3 c4 c5 rec L0 by (intro Suc.IH) simp_all
  then show ?case unfolding k_def [symmetric] step pk c1 .
qed

lemma ix_diff: "a < KMAX \<Longrightarrow> m < KMAX \<Longrightarrow> ((a + m) mod KMAX + KMAX - a) mod KMAX = m"
proof -
  assume a: "a < KMAX" "m < KMAX"
  show ?thesis
  proof (cases "a + m < KMAX")
    case True
    have "(a + m) mod KMAX + KMAX - a = m + KMAX" using True by simp
    then show ?thesis using a by (simp only: mod_add_self2) simp
  next
    case False
    then have "(a + m) mod KMAX = a + m - KMAX" using a by (simp add: mod_if)
    then have "(a + m) mod KMAX + KMAX - a = m" using False by simp
    then show ?thesis using a by (simp only: mod_less)
  qed
qed

lemma prev_ix_less [simp]: "prev_ix a < KMAX"
  by (simp add: prev_ix_def)

lemma prev_ix_add: "(prev_ix a + Suc i) mod KMAX = (a + i) mod KMAX"
proof -
  have "(prev_ix a + Suc i) mod KMAX = (a + 2047 + Suc i) mod KMAX" unfolding prev_ix_alt by (rule mod_add_left_eq)
  moreover have "a + 2047 + Suc i = a + i + KMAX" by simp
  ultimately show ?thesis by (simp only: mod_add_self2)
qed

lemma ring_is_push:
  assumes "ring_is r W" "length W + 1 < KMAX"
  shows "prev_ix (ra r) \<noteq> rz r"
    and "ring_is (r\<lparr>ra := prev_ix (ra r), rx := (rx r)(prev_ix (ra r) := c), rp := q\<rparr>) (c # W)"
proof -
  note w = assms(1) [unfolded ring_is_def]
  have z: "rz r = (prev_ix (ra r) + Suc (length W)) mod KMAX" using w prev_ix_add by simp
  show ne: "prev_ix (ra r) \<noteq> rz r"
    unfolding z using ix_mod_eq_iff [OF prev_ix_less, of "Suc (length W)" "ra r"] assms(2) by auto
  have "((rx r)(prev_ix (ra r) := c)) ((prev_ix (ra r) + i) mod KMAX) = (c # W) ! i" if "i < length (c # W)" for i
  proof (cases i)
    case (Suc j)
    have "(prev_ix (ra r) + i) mod KMAX \<noteq> prev_ix (ra r)"
      using ix_mod_eq_iff [OF prev_ix_less, of i "ra r"] that Suc assms(2) by auto
    then show ?thesis using Suc that w by (simp add: prev_ix_add del: add_Suc_right)
  qed simp
  then show "ring_is (r\<lparr>ra := prev_ix (ra r), rx := (rx r)(prev_ix (ra r) := c), rp := q\<rparr>) (c # W)"
    using z assms(2) by (simp add: ring_is_def)
qed

lemma up_step_list:
  assumes "ring_is r L" "limbs_ok L" "length L + 1 < KMAX"
  shows "ring_is (up_step r) (upstep L)" "rp (up_step r) = rp r + (if up_carry L then 9 else 0)"
    "re2 (up_step r) = re2 r - 29"
    "ra (up_step r) = (if up_carry L then prev_ix (ra r) else ra r)"
proof -
  obtain c W where u: "upl (rev L) 0 [] = (c, W)" by (cases "upl (rev L) 0 []") auto
  have L: "L \<noteq> []" "okl L" "hd L \<noteq> 0" using assms(2) by (auto simp: limbs_ok_def)
  then obtain n where n: "length L = Suc n" by (cases L) auto
  note w = assms(1) [unfolded ring_is_def]
  define r0 where "r0 = r\<lparr>re2 := re2 r - 29\<rparr>"
  have r0: "ra r0 = ra r" "rz r0 = rz r" "rx r0 = rx r" "rp r0 = rp r" "re2 r0 = re2 r - 29" by (simp_all add: r0_def)
  have pz: "prev_ix (rz r0) = (ra r + n) mod KMAX" using prev_ix_Suc [of "ra r + n"] w n r0 by simp
  have cnt: "(prev_ix (rz r0) + KMAX - ra r0) mod KMAX = n" unfolding pz r0(1) by (rule ix_diff) (use w n in simp_all)
  have "\<exists>r'. up_loop n ((ra r0 + n) mod KMAX) r0 0 = (r', c) \<and> ring_is r' W \<and> ra r' = ra r0 \<and> rp r' = rp r0 \<and> re2 r' = re2 r0"
    using w n r0 u assms(3) by (intro up_loop_list [where L = L and W = "[]"]) simp_all
  then obtain r' where r': "up_loop n ((ra r + n) mod KMAX) r0 0 = (r', c)" "ring_is r' W" "ra r' = ra r" "rp r' = rp r"
    "re2 r' = re2 r - 29" using r0 by auto
  have lp: "up_loop ((prev_ix (rz r0) + KMAX - ra r0) mod KMAX) (prev_ix (rz r0)) r0 0 = (r', c)"
    by (simp only: cnt) (simp only: pz r'(1))
  have lW: "length W \<le> length L" using upl_shape [OF u] L okl_le by (auto simp: last_rev)
  have us: "up_step r = (if c = 0 then r' else r'\<lparr>ra := prev_ix (ra r'), rx := (rx r')(prev_ix (ra r') := c), rp := rp r' + 9\<rparr>)"
    unfolding up_step_def Let_def r0_def [symmetric] lp prod.case
    using ring_is_push(1) [OF r'(2)] lW assms(3) by simp
  have ul: "upstep L = (if c = 0 then W else c # W)" "up_carry L \<longleftrightarrow> c \<noteq> 0" by (simp_all add: upstep_def up_carry_def u)
  show "ring_is (up_step r) (upstep L)"
    unfolding us ul using r'(2) ring_is_push(2) [OF r'(2), where c = c and q = "rp r' + 9"] lW assms(3) by simp
  show "rp (up_step r) = rp r + (if up_carry L then 9 else 0)" "re2 (up_step r) = re2 r - 29"
    "ra (up_step r) = (if up_carry L then prev_ix (ra r) else ra r)"
    unfolding us ul using r' by simp_all
qed

subsection \<open>The first loop\<close>

text \<open>
  The invariant of both loops: the number \<open>V\<close> that the ring and the exponents stand for does not change,
  the limb of a given weight stays at its index (\<open>C\<close>), and the limbs are well formed.
\<close>

definition rinv :: "int \<Rightarrow> rat \<Rightarrow> ring \<Rightarrow> nat list \<Rightarrow> bool" where
  "rinv C V r L \<longleftrightarrow> ring_is r L \<and> limbs_ok L \<and> 9 dvd rp r \<and> vl L * 10 powi rp r * 2 powi re2 r = V
     \<and> (int (ra r) + rp r div 9) mod 2048 = C"

lemma rinv_hd: "rinv C V r L \<Longrightarrow> rx r (ra r) = hd L"
  unfolding rinv_def ring_is_def limbs_ok_def by (cases L) auto

lemma powi10_pos: "0 < (10 :: rat) powi e"
  by (rule zero_less_power_int) simp

lemma powi10_nz [simp]: "(10 :: rat) powi e \<noteq> 0"
  using powi10_pos [of e] by simp

lemma powi10_add: "(10 :: rat) powi (a + b) = 10 powi a * 10 powi b"
  by (rule power_int_add) simp

lemma powi10_9: "(10 :: rat) powi (a + 9) = 10 powi a * 10 ^ 9"
  using powi10_add [of a 9] by simp

lemma int_prev_ix: "int (prev_ix a) = (int a - 1) mod 2048"
proof -
  have "int (prev_ix a) = (int a + 2047) mod 2048" unfolding prev_ix_alt zmod_int by (simp only: of_nat_add of_nat_numeral)
  moreover have "int a + 2047 = int a - 1 + 2048" by simp
  ultimately show ?thesis by (simp only: mod_add_self2)
qed

lemma rinv_up_step:
  assumes "rinv C V r L" "length L + 1 < KMAX"
  shows "rinv C V (up_step r) (upstep L)"
proof -
  note i = assms(1) [unfolded rinv_def]
  have s: "ring_is (up_step r) (upstep L)" "rp (up_step r) = rp r + (if up_carry L then 9 else 0)"
    "re2 (up_step r) = re2 r - 29" "ra (up_step r) = (if up_carry L then prev_ix (ra r) else ra r)"
    using up_step_list [of r L] i assms(2) by simp_all
  have ok: "limbs_ok L" using i by simp
  note u = upstep_spec [OF ok]
  have p: "(2 :: rat) powi (re2 r - 29) = 2 powi re2 r / 2 ^ 29" using powi_minus [of "re2 r" 29] by simp
  have v: "vl (upstep L) * 10 powi rp (up_step r) = 2 ^ 29 * vl L * 10 powi rp r"
    unfolding s(2) by (cases "up_carry L") (simp_all add: u(2,3) powi10_9)
  have "vl (upstep L) * 10 powi rp (up_step r) * 2 powi re2 (up_step r) = V"
    unfolding v unfolding s(3) p using i by simp
  moreover have "(int (ra (up_step r)) + rp (up_step r) div 9) mod 2048 = C"
  proof (cases "up_carry L")
    case True
    have "((int (ra r) - 1) mod 2048 + (rp r div 9 + 1)) mod 2048 = (int (ra r) - 1 + (rp r div 9 + 1)) mod 2048"
      by (rule mod_add_left_eq)
    then show ?thesis using True i by (simp add: s(2,4) int_prev_ix)
  next
    case False
    then show ?thesis using i by (simp add: s(2,4))
  qed
  moreover have "9 dvd rp (up_step r)" using i unfolding s(2) by auto
  ultimately show ?thesis using s(1) u(1) by (simp add: rinv_def)
qed

definition up_measure :: "ring \<Rightarrow> nat list \<Rightarrow> nat" where
  "up_measure r L = 2 * nat ((45 - rp r) div 9) + (if hd L < 2 then 1 else 0)"

text \<open>One step of the first loop: it keeps the number, the bound on the length, and gets closer to the end.\<close>

lemma up_step_ok:
  assumes "rinv C V r L" "up_more r" "int (length L) + max 0 (45 - rp r) div 9 < 2047"
  shows "rinv C V (up_step r) (upstep L)" "int (length (upstep L)) + max 0 (45 - rp (up_step r)) div 9 < 2047"
    "up_measure (up_step r) (upstep L) < up_measure r L" "rp r \<le> rp (up_step r)" "rp (up_step r) \<le> 45"
    "\<And>s. int (length (upstep L)) + (rp s - rp (up_step r)) div 9 \<le> int (length L) + (rp s - rp r) div 9"
    "\<And>s k. int (length L) \<le> k + (rp r - rp s) div 9 \<Longrightarrow> int (length (upstep L)) \<le> k + (rp (up_step r) - rp s) div 9"
proof -
  have rp36: "rp r \<le> 36" using assms(2) by (auto simp: up_more_def)
  have d9: "9 dvd rp r" and ok: "limbs_ok L" using assms(1) by (auto simp: rinv_def)
  have len: "length L + 1 < KMAX" using assms(3) rp36 by simp
  show "rinv C V (up_step r) (upstep L)" by (rule rinv_up_step [OF assms(1) len])
  have rpu: "rp (up_step r) = rp r + (if up_carry L then 9 else 0)"
    using up_step_list(2) [of r L] assms(1) len by (simp add: rinv_def)
  note u = upstep_spec [OF ok]
  have dv: "(45 - (rp r + 9)) div 9 = (45 - rp r) div 9 - 1" using d9 by auto
  have pos: "1 \<le> (45 - rp r) div 9" using rp36 by simp
  show "up_measure (up_step r) (upstep L) < up_measure r L"
  proof (cases "up_carry L")
    case True
    have "nat ((45 - rp r) div 9 - 1) + 1 = nat ((45 - rp r) div 9)" using pos by simp
    then show ?thesis using dv True pos unfolding up_measure_def rpu by simp
  next
    case False
    then show ?thesis using u(3) unfolding up_measure_def rpu by simp
  qed
  show "int (length (upstep L)) + max 0 (45 - rp (up_step r)) div 9 < 2047"
    using assms(3) u(2,3) rp36 dv unfolding rpu by (cases "up_carry L") auto
  show "rp r \<le> rp (up_step r)" "rp (up_step r) \<le> 45" using rp36 unfolding rpu by simp_all
  show "int (length (upstep L)) + (rp s - rp (up_step r)) div 9 \<le> int (length L) + (rp s - rp r) div 9" for s
  proof (cases "up_carry L")
    case True
    have "rp s - rp r = rp s - rp (up_step r) + 1 * 9" using True unfolding rpu by simp
    then have "(rp s - rp r) div 9 = (rp s - rp (up_step r)) div 9 + 1" by simp
    then show ?thesis using u(2) [OF True] by simp
  next
    case False
    then show ?thesis using u(3) unfolding rpu by simp
  qed
  show "int (length (upstep L)) \<le> k + (rp (up_step r) - rp s) div 9" if "int (length L) \<le> k + (rp r - rp s) div 9" for s k
  proof (cases "up_carry L")
    case True
    have "rp (up_step r) - rp s = rp r - rp s + 1 * 9" using True unfolding rpu by simp
    then have "(rp (up_step r) - rp s) div 9 = (rp r - rp s) div 9 + 1" by simp
    then show ?thesis using that u(2) [OF True] by simp
  next
    case False
    then show ?thesis using that u(3) unfolding rpu by simp
  qed
qed

lemma upscale_spec:
  assumes "rinv C V r L" "int (length L) + max 0 (45 - rp r) div 9 < 2047"
  shows "\<exists>r' L'. upscale r = Some r' \<and> rinv C V r' L' \<and> \<not> up_more r' \<and> rp r \<le> rp r' \<and> (rp r' \<le> 45 \<or> rp r' = rp r)
    \<and> int (length L') \<le> int (length L) + (rp r' - rp r) div 9"
  using assms
proof (induction "up_measure r L" arbitrary: r L rule: less_induct)
  case less
  show ?case
  proof (cases "up_more r")
    case False
    then show ?thesis using less.prems by (intro exI [of _ r] exI [of _ L]) (subst upscale.simps, simp)
  next
    case True
    note s = up_step_ok [OF less.prems(1) True less.prems(2)]
    obtain r' L' where r': "upscale (up_step r) = Some r'" "rinv C V r' L'" "\<not> up_more r'" "rp (up_step r) \<le> rp r'"
        "rp r' \<le> 45 \<or> rp r' = rp (up_step r)" "int (length L') \<le> int (length (upstep L)) + (rp r' - rp (up_step r)) div 9"
      using less.hyps [OF s(3,1,2)] by blast
    have "upscale r = Some r'" using True r'(1) by (subst upscale.simps) simp
    moreover have "int (length L') \<le> int (length L) + (rp r' - rp r) div 9" using r'(6) s(6) [of r'] by linarith
    moreover have "rp r' \<le> 45" "rp r \<le> rp r'" using r'(4,5) s(4,5) by linarith+
    ultimately show ?thesis using r'(2,3) by blast
  qed
qed

subsection \<open>Dividing a list\<close>

text \<open>\<open>P\<close> are the limbs already divided, \<open>d\<close> counts the leading zeros dropped.\<close>

fun dwn :: "nat \<Rightarrow> nat list \<Rightarrow> nat list \<Rightarrow> nat \<Rightarrow> nat \<Rightarrow> nat list \<times> nat \<times> nat" where
  "dwn D P [] c d = (P, c, d)"
| "dwn D P (v # vs) c d =
     (let v' = v div D + c; c' = B1B div D * (v mod D)
      in if P = [] \<and> v' = 0 then dwn D [] vs c' (d + 1) else dwn D (P @ [v']) vs c' d)"

lemma pow2_gt_1: "0 < sh \<Longrightarrow> (1 :: nat) < 2 ^ sh"
  by (rule one_less_power) simp_all

lemma pow2_dvd: "sh \<le> 9 \<Longrightarrow> 2 ^ sh dvd (512 :: nat)" "sh \<le> 9 \<Longrightarrow> 2 ^ sh dvd B1B"
proof -
  assume "sh \<le> 9"
  then have "(2 :: nat) ^ sh dvd 2 ^ 9" by (rule le_imp_power_dvd)
  then show d: "2 ^ sh dvd (512 :: nat)" by simp
  moreover have "(512 :: nat) dvd B1B" by simp
  ultimately show "2 ^ sh dvd B1B" by (rule dvd_trans)
qed

lemma scale_cancel: "(q :: rat) * s = t \<Longrightarrow> q \<noteq> 0 \<Longrightarrow> s \<noteq> 0 \<Longrightarrow> q * m / t = m / s"
  by (auto simp: field_simps)

lemma dwn_limb:
  assumes "D dvd B1B" "0 < D"
  shows "(of_nat (v div D + c) + (of_nat (B1B div D * (v mod D)) / 10 ^ 9)) = of_nat c + (of_nat v :: rat) / of_nat D"
proof -
  have q: "(of_nat (B1B div D) :: rat) * of_nat D = 10 ^ 9"
    using arg_cong [OF dvd_div_mult_self [OF assms(1)], of "of_nat :: nat \<Rightarrow> rat"] by simp
  then have "(of_nat (B1B div D) :: rat) \<noteq> 0" using q by (intro notI) simp
  then have "(of_nat (B1B div D * (v mod D)) :: rat) / 10 ^ 9 = of_nat (v mod D) / of_nat D"
    unfolding of_nat_mult using assms(2) by (intro scale_cancel q) simp_all
  moreover have "(of_nat v :: rat) = of_nat (v div D) * of_nat D + of_nat (v mod D)"
    using arg_cong [OF div_mult_mod_eq [of v D], of "of_nat :: nat \<Rightarrow> rat"] by (simp only: of_nat_add of_nat_mult)
  then have "(of_nat v :: rat) / of_nat D = of_nat (v div D) + of_nat (v mod D) / of_nat D"
    using assms(2) by (simp only: add_divide_distrib) simp
  ultimately show ?thesis by simp
qed

lemma dwn_value:
  "dwn D P L c d = (Q, c', d') \<Longrightarrow> D dvd B1B \<Longrightarrow> 0 < D \<Longrightarrow>
    vl (Q @ [c']) / 10 ^ (9 * d') = (vl P + (of_nat c / 10 ^ 9 + vl L / of_nat D) / 10 ^ (9 * length P)) / 10 ^ (9 * d)"
proof (induction D P L c d arbitrary: Q c' d' rule: dwn.induct)
  case (1 D P c d)
  then show ?case by (simp add: vl_append)
next
  case (2 D P v vs c d)
  define v1 where "v1 = v div D + c"
  define c1 where "c1 = B1B div D * (v mod D)"
  have e: "of_nat v1 + of_nat c1 / 10 ^ 9 = of_nat c + (of_nat v :: rat) / of_nat D"
    unfolding v1_def c1_def by (rule dwn_limb) (fact "2.prems")+
  then have e2a: "of_nat v1 + (of_nat c1 / 10 ^ 9 + vl vs / of_nat D) = of_nat c + of_nat v / of_nat D + vl vs / of_nat D" by simp
  have e2: "of_nat c / 10 ^ 9 + vl (v # vs) / of_nat D = (of_nat v1 + (of_nat c1 / 10 ^ 9 + vl vs / of_nat D)) / 10 ^ 9"
  proof -
    have "vl (v # vs) / of_nat D = (of_nat v / of_nat D + vl vs / of_nat D) / 10 ^ 9" by (simp add: add_divide_distrib mult.commute)
    then show ?thesis unfolding e2a by (simp add: add_divide_distrib)
  qed
  show ?case
  proof (cases "P = [] \<and> v1 = 0")
    case True
    then have r: "dwn D [] vs c1 (d + 1) = (Q, c', d')" using "2.prems"(1) by (simp add: v1_def c1_def Let_def)
    have "vl (Q @ [c']) / 10 ^ (9 * d') = (vl [] + (of_nat c1 / 10 ^ 9 + vl vs / of_nat D) / 10 ^ (9 * length ([] :: nat list))) / 10 ^ (9 * (d + 1))"
      using "2.IH"(1) [OF v1_def c1_def True r "2.prems"(2,3)] .
    then show ?thesis unfolding e2 using True by (simp add: power_add)
  next
    case False
    then have r: "dwn D (P @ [v1]) vs c1 d = (Q, c', d')" using "2.prems"(1) unfolding v1_def c1_def by (auto simp: Let_def)
    have "vl (Q @ [c']) / 10 ^ (9 * d') = (vl (P @ [v1]) + (of_nat c1 / 10 ^ 9 + vl vs / of_nat D) / 10 ^ (9 * length (P @ [v1]))) / 10 ^ (9 * d)"
      using "2.IH"(2) [OF v1_def c1_def False r "2.prems"(2,3)] .
    moreover have "vl (P @ [v1]) + X / 10 ^ (9 * length (P @ [v1])) = vl P + (of_nat v1 + X) / 10 ^ 9 / 10 ^ (9 * length P)" for X
      by (simp add: vl_append power_add add_divide_distrib)
    ultimately show ?thesis unfolding e2 by simp
  qed
qed

lemma dwn_shape:
  "dwn D P L c d = (Q, c', d') \<Longrightarrow> 1 < D \<Longrightarrow> D dvd B1B \<Longrightarrow> D dvd 512 \<or> (\<forall>v \<in> set L. v < B1B) \<Longrightarrow> okl L \<Longrightarrow> (\<forall>v \<in> set P. v < B1B) \<Longrightarrow> (P = [] \<or> hd P \<noteq> 0) \<Longrightarrow>
    c \<le> B1B div D * (D - 1) \<Longrightarrow> (L \<noteq> [] \<and> hd L = B1B \<longrightarrow> c = 0) \<Longrightarrow>
    (\<forall>v \<in> set Q. v < B1B) \<and> (Q = [] \<or> hd Q \<noteq> 0) \<and> c' < B1B \<and> length Q \<le> length P + length L
    \<and> (L \<noteq> [] \<and> last L \<noteq> 0 \<and> c' = 0 \<longrightarrow> Q \<noteq> [] \<and> last Q \<noteq> 0)"
proof (induction D P L c d arbitrary: Q c' d' rule: dwn.induct)
  case (1 D P c d)
  have "1 < D" using "1.prems"(2) .
  moreover have "B1B div D * D = B1B" using dvd_div_mult_self [OF "1.prems"(3)] .
  moreover have "0 < B1B div D"
  proof (rule ccontr)
    assume "\<not> 0 < B1B div D"
    then show False using \<open>B1B div D * D = B1B\<close> by simp
  qed
  ultimately have "c < B1B" using "1.prems"(8) by (simp add: diff_mult_distrib2)
  then show ?case using 1 by auto
next
  case (2 D P v vs c d)
  define v1 where "v1 = v div D + c"
  define c1 where "c1 = B1B div D * (v mod D)"
  let ?q = "B1B div D"
  have q: "?q * D = B1B" using dvd_div_mult_self [OF "2.prems"(3)] .
  then have q0: "0 < ?q" by (cases ?q) simp_all
  have two: "2 \<le> D" using "2.prems"(2) by simp
  have v1: "v1 < B1B"
  proof (cases "v = B1B")
    case True
    then have "v1 = ?q" using "2.prems"(9) by (simp add: v1_def)
    also have "?q < ?q * D" using q0 two by simp
    finally show ?thesis unfolding q .
  next
    case False
    then have "v < ?q * D" using "2.prems"(5) unfolding q by simp
    then have "v div D < ?q" by (simp add: less_mult_imp_div_less)
    then have "v1 < ?q + ?q * (D - 1)" using "2.prems"(8) unfolding v1_def by simp
    also have "\<dots> = ?q * D" using two by (simp add: diff_mult_distrib2)
    finally show ?thesis unfolding q .
  qed
  have c1: "c1 \<le> ?q * (D - 1)"
  proof -
    have "v mod D < D" using two by simp
    then have "v mod D \<le> D - 1" by linarith
    then show ?thesis unfolding c1_def by (rule mult_le_mono2)
  qed
  have c1_0: "vs \<noteq> [] \<and> hd vs = B1B \<longrightarrow> c1 = 0"
  proof
    assume h: "vs \<noteq> [] \<and> hd vs = B1B"
    then have "512 dvd v" using h h "2.prems"(5) by simp
    moreover have "D dvd 512" using h "2.prems"(4) by (cases vs) auto
    ultimately have "D dvd v" by (rule dvd_trans [rotated])
    then show "c1 = 0" by (simp add: c1_def)
  qed
  have c1_nz: "v1 = 0 \<Longrightarrow> v \<noteq> 0 \<Longrightarrow> c1 \<noteq> 0"
  proof -
    assume "v1 = 0" "v \<noteq> 0"
    then have "v mod D = v" using div_mult_mod_eq [of v D] by (simp add: v1_def del: div_mult_mod_eq)
    then show "c1 \<noteq> 0" using \<open>v \<noteq> 0\<close> q0 by (simp add: c1_def)
  qed
  have vs: "D dvd 512 \<or> (\<forall>v \<in> set vs. v < B1B)" "okl vs" using "2.prems"(4,5) by auto
  show ?case
  proof (cases "P = [] \<and> v1 = 0")
    case True
    then have r: "dwn D [] vs c1 (d + 1) = (Q, c', d')" using "2.prems"(1) by (simp add: v1_def c1_def Let_def)
    have ih: "(\<forall>v \<in> set Q. v < B1B) \<and> (Q = [] \<or> hd Q \<noteq> 0) \<and> c' < B1B \<and> length Q \<le> length ([] :: nat list) + length vs
        \<and> (vs \<noteq> [] \<and> last vs \<noteq> 0 \<and> c' = 0 \<longrightarrow> Q \<noteq> [] \<and> last Q \<noteq> 0)"
      by (rule "2.IH"(1) [OF v1_def c1_def True r "2.prems"(2,3) vs _ _ c1 c1_0]) simp_all
    moreover have "vs = [] \<Longrightarrow> c' = c1" using r by simp
    ultimately show ?thesis using True c1_nz by (cases "vs = []"; cases "v = 0") simp_all
  next
    case False
    then have r: "dwn D (P @ [v1]) vs c1 d = (Q, c', d')" using "2.prems"(1) unfolding v1_def c1_def by (auto simp: Let_def)
    have p: "\<forall>v \<in> set (P @ [v1]). v < B1B" "P @ [v1] = [] \<or> hd (P @ [v1]) \<noteq> 0"
      using v1 "2.prems"(6,7) False by (auto simp: hd_append)
    have ih: "(\<forall>v \<in> set Q. v < B1B) \<and> (Q = [] \<or> hd Q \<noteq> 0) \<and> c' < B1B \<and> length Q \<le> length (P @ [v1]) + length vs
        \<and> (vs \<noteq> [] \<and> last vs \<noteq> 0 \<and> c' = 0 \<longrightarrow> Q \<noteq> [] \<and> last Q \<noteq> 0)"
      by (rule "2.IH"(2) [OF v1_def c1_def False r "2.prems"(2,3) vs p c1 c1_0])
    moreover have "vs = [] \<Longrightarrow> c' = c1 \<and> Q = P @ [v1]" using r by simp
    ultimately show ?thesis using c1_nz by (cases "vs = []"; cases "v1 = 0"; cases "v = 0") simp_all
  qed
qed

lemma dwn_prefix: "dwn D P L c d = (Q, c', d') \<Longrightarrow> P \<noteq> [] \<Longrightarrow> d' = d \<and> hd Q = hd P"
  by (induction D P L c d arbitrary: Q c' d' rule: dwn.induct) (auto simp: Let_def)

lemma dwn_nonempty: "dwn D P L c d = (Q, c', d') \<Longrightarrow> P \<noteq> [] \<Longrightarrow> Q \<noteq> []"
  by (induction D P L c d arbitrary: Q c' d' rule: dwn.induct) (auto simp: Let_def)

text \<open>Only the first limb can vanish, and what is left then starts with another.\<close>

lemma dwn_first:
  assumes "dwn D [] (v # vs) 0 0 = (Q, c', d')" "v \<noteq> 0" "D dvd B1B"
  shows "v div D \<noteq> 0 \<Longrightarrow> d' = 0 \<and> hd Q = v div D"
    and "v div D = 0 \<Longrightarrow> d' = 1"
proof -
  show "v div D \<noteq> 0 \<Longrightarrow> d' = 0 \<and> hd Q = v div D"
    using assms(1) dwn_prefix [of D "[v div D]" vs] by (auto simp: Let_def)
  assume z: "v div D = 0"
  let ?q = "B1B div D"
  have "?q * D = B1B" using dvd_div_mult_self [OF assms(3)] .
  then have "?q \<noteq> 0" by (cases ?q) simp_all
  moreover have "v mod D = v" using div_mult_mod_eq [of v D] z by simp
  ultimately have c: "?q * (v mod D) \<noteq> 0" using assms(2) by simp
  have r: "dwn D [] vs (?q * (v mod D)) 1 = (Q, c', d')" using assms(1) z by (simp add: Let_def)
  show "d' = 1"
  proof (cases vs)
    case (Cons w ws)
    then have "dwn D [w div D + ?q * (v mod D)] ws (?q * (w mod D)) 1 = (Q, c', d')"
      using r c by (simp add: Let_def)
    then show ?thesis using dwn_prefix by blast
  qed (use r in simp)
qed

text \<open>The loop of \<open>align\<close> and the one of \<open>down_step\<close> differ in the divisor only.\<close>

primrec div_loop :: "nat \<Rightarrow> nat \<Rightarrow> nat \<Rightarrow> ring \<Rightarrow> nat \<Rightarrow> ring \<times> nat" where
  "div_loop D 0 k r carry = (r, carry)"
| "div_loop D (Suc n) k r carry =
     (let v = rx r k div D + carry;
          r1 = r \<lparr> rx := (rx r)(k := v) \<rparr>;
          r2 = (if k = ra r \<and> v = 0 then r1 \<lparr> ra := next_ix (ra r), rp := rp r - 9 \<rparr> else r1)
      in div_loop D n (next_ix k) r2 (B1B div D * (rx r k mod D)))"

lemma down_loop_div: "down_loop sh n k r c = div_loop (2 ^ sh) n k r c"
  by (induction n arbitrary: k r c) (simp_all add: Let_def)

lemma align_loop_div: "k + n < KMAX \<Longrightarrow> align_loop D n k r c = div_loop D n k r c"
proof (induction n arbitrary: k r c)
  case (Suc n)
  then have "next_ix k = k + 1" by (simp add: next_ix_def)
  moreover have "next_ix (ra r) = (ra r + 1) mod KMAX" by (simp add: next_ix_def)
  ultimately show ?case using Suc by (simp only: align_loop.simps div_loop.simps Let_def)
qed simp

lemma div_loop_list:
  assumes "ra r < KMAX" "length P + length L < KMAX" "rz r = (ra r + length P + length L) mod KMAX"
    "\<forall>i < length P. rx r ((ra r + i) mod KMAX) = P ! i" "\<forall>i < length L. rx r ((ra r + length P + i) mod KMAX) = L ! i"
    "dwn D P L c d = (Q, c', d')"
  shows "\<exists>r'. div_loop D (length L) ((ra r + length P) mod KMAX) r c = (r', c') \<and> ring_is r' Q \<and> rz r' = rz r
    \<and> re2 r' = re2 r \<and> d \<le> d' \<and> rp r' = rp r - 9 * int (d' - d) \<and> ra r' = (ra r + (d' - d)) mod KMAX"
  using assms
proof (induction L arbitrary: r P c d)
  case Nil
  then show ?case by (simp add: ring_is_def)
next
  case (Cons v vs)
  define k where "k = (ra r + length P) mod KMAX"
  define v1 where "v1 = v div D + c"
  define c1 where "c1 = B1B div D * (v mod D)"
  define r1 where "r1 = r\<lparr>rx := (rx r)(k := v1)\<rparr>"
  define r2 where "r2 = (if k = ra r \<and> v1 = 0 then r1\<lparr>ra := next_ix (ra r), rp := rp r - 9\<rparr> else r1)"
  have ka: "k = ra r \<longleftrightarrow> P = []" unfolding k_def using ix_mod_eq_iff [of "ra r" "length P"] Cons.prems(1,2) by auto
  have "rx r k = v" using Cons.prems(5) unfolding k_def by force
  then have step: "div_loop D (length (v # vs)) k r c = div_loop D (length vs) (next_ix k) r2 c1"
    by (simp add: Let_def r1_def r2_def v1_def c1_def)
  have nk: "next_ix k = (ra r + length P + 1) mod KMAX" unfolding k_def next_ix_mod by simp
  have later: "rx r2 ((ra r + length P + 1 + i) mod KMAX) = vs ! i" if "i < length vs" for i
  proof -
    have "(ra r + length P + 1 + i) mod KMAX \<noteq> k"
      unfolding k_def using ix_eq_iff [of "length P + 1 + i" "length P" "ra r"] that Cons.prems(2) by (simp add: add.assoc)
    moreover have "rx r ((ra r + length P + Suc i) mod KMAX) = (v # vs) ! Suc i" using Cons.prems(5) that by (metis Suc_less_eq length_Cons)
    ultimately show ?thesis by (simp add: r2_def r1_def)
  qed
  have same: "rz r2 = rz r" "re2 r2 = re2 r" by (simp_all add: r2_def r1_def)
  show ?case
  proof (cases "P = [] \<and> v1 = 0")
    case True
    then have r2: "ra r2 = next_ix (ra r)" "rp r2 = rp r - 9" using ka by (simp_all add: r2_def)
    have n1: "next_ix (ra r) = (ra r + 1) mod KMAX" by (simp add: next_ix_def)
    have shift: "(next_ix (ra r) + i) mod KMAX = (ra r + 1 + i) mod KMAX" for i unfolding n1 by (rule mod_add_left_eq)
    have "\<exists>r'. div_loop D (length vs) ((ra r2 + length ([] :: nat list)) mod KMAX) r2 c1 = (r', c') \<and> ring_is r' Q \<and> rz r' = rz r2
        \<and> re2 r' = re2 r2 \<and> d + 1 \<le> d' \<and> rp r' = rp r2 - 9 * int (d' - (d + 1)) \<and> ra r' = (ra r2 + (d' - (d + 1))) mod KMAX"
    proof (rule Cons.IH)
      show "ra r2 < KMAX" unfolding r2 n1 by simp
      show "length ([] :: nat list) + length vs < KMAX" using Cons.prems(2) by simp
      show "rz r2 = (ra r2 + length ([] :: nat list) + length vs) mod KMAX"
        using shift [of "length vs"] Cons.prems(3) True unfolding same r2 by simp
      show "\<forall>i < length vs. rx r2 ((ra r2 + length ([] :: nat list) + i) mod KMAX) = vs ! i"
        using later True unfolding r2 by (simp add: shift)
      show "dwn D [] vs c1 (d + 1) = (Q, c', d')" using Cons.prems(6) True by (simp add: v1_def c1_def Let_def)
    qed simp
    then obtain r' where r': "div_loop D (length vs) (next_ix k) r2 c1 = (r', c')" "ring_is r' Q" "rz r' = rz r" "re2 r' = re2 r"
      "d + 1 \<le> d'" "rp r' = rp r - 9 - 9 * int (d' - (d + 1))" "ra r' = (next_ix (ra r) + (d' - (d + 1))) mod KMAX"
      using r2 same nk True n1 by auto
    have "ra r + 1 + (d' - (d + 1)) = ra r + (d' - d)" using r'(5) by simp
    then have "ra r' = (ra r + (d' - d)) mod KMAX" using r'(7) shift [of "d' - (d + 1)"] by (simp only:)
    moreover have "rp r' = rp r - 9 * int (d' - d)" using r'(5,6) by (simp add: of_nat_diff)
    ultimately show ?thesis using r' step unfolding k_def [symmetric] by auto
  next
    case False
    then have r2: "ra r2 = ra r" "rp r2 = rp r" using ka by (auto simp: r2_def r1_def)
    have r2x: "rx r2 = (rx r)(k := v1)" using False ka by (auto simp: r2_def r1_def)
    have "\<exists>r'. div_loop D (length vs) ((ra r2 + length (P @ [v1])) mod KMAX) r2 c1 = (r', c') \<and> ring_is r' Q \<and> rz r' = rz r2
        \<and> re2 r' = re2 r2 \<and> d \<le> d' \<and> rp r' = rp r2 - 9 * int (d' - d) \<and> ra r' = (ra r2 + (d' - d)) mod KMAX"
    proof (rule Cons.IH)
      show "ra r2 < KMAX" "length (P @ [v1]) + length vs < KMAX" using Cons.prems(1,2) r2 by simp_all
      show "rz r2 = (ra r2 + length (P @ [v1]) + length vs) mod KMAX" using Cons.prems(3) unfolding same r2 by simp
      show "\<forall>i < length vs. rx r2 ((ra r2 + length (P @ [v1]) + i) mod KMAX) = vs ! i" using later unfolding r2 by simp
      show "dwn D (P @ [v1]) vs c1 d = (Q, c', d')" using Cons.prems(6) False unfolding v1_def c1_def by (auto simp: Let_def)
      show "\<forall>i < length (P @ [v1]). rx r2 ((ra r2 + i) mod KMAX) = (P @ [v1]) ! i"
      proof (intro allI impI)
        fix i assume i: "i < length (P @ [v1])"
        show "rx r2 ((ra r2 + i) mod KMAX) = (P @ [v1]) ! i"
        proof (cases "i = length P")
          case True
          then show ?thesis unfolding r2 r2x k_def by simp
        next
          case False
          then have "(ra r + i) mod KMAX \<noteq> k"
            unfolding k_def using ix_eq_iff [of i "length P" "ra r"] i Cons.prems(2) by simp
          then show ?thesis using False i Cons.prems(4) unfolding r2 r2x by (simp add: nth_append)
        qed
      qed
    qed
    then show ?thesis using step nk r2 same unfolding k_def [symmetric] by simp
  qed
qed

definition downstep :: "nat \<Rightarrow> nat list \<Rightarrow> nat list" where
  "downstep sh L = (case dwn (2 ^ sh) [] L 0 0 of (Q, c, d) \<Rightarrow> if c = 0 then Q else Q @ [c])"

definition drops :: "nat \<Rightarrow> nat list \<Rightarrow> nat" where
  "drops sh L = snd (snd (dwn (2 ^ sh) [] L 0 0))"

lemma downstep_spec:
  assumes "limbs_ok L" "0 < sh" "sh \<le> 9"
  shows "limbs_ok (downstep sh L)" "\<forall>v \<in> set (downstep sh L). v < B1B" "length (downstep sh L) \<le> length L + 1"
    "vl (downstep sh L) / 10 ^ (9 * drops sh L) = vl L / 2 ^ sh"
    "hd L div 2 ^ sh \<noteq> 0 \<Longrightarrow> drops sh L = 0 \<and> hd (downstep sh L) = hd L div 2 ^ sh"
    "hd L div 2 ^ sh = 0 \<Longrightarrow> drops sh L = 1"
proof -
  obtain Q c d where r: "dwn (2 ^ sh) [] L 0 0 = (Q, c, d)" by (cases "dwn (2 ^ sh) [] L 0 0") auto
  obtain v vs where L: "L = v # vs" "v \<noteq> 0" using assms(1) by (cases L) (auto simp: limbs_ok_def)
  have s: "(\<forall>v \<in> set Q. v < B1B) \<and> (Q = [] \<or> hd Q \<noteq> 0) \<and> c < B1B \<and> length Q \<le> length L
      \<and> (last L \<noteq> 0 \<and> c = 0 \<longrightarrow> Q \<noteq> [] \<and> last Q \<noteq> 0)"
    using dwn_shape [OF r pow2_gt_1 [OF assms(2)]] pow2_dvd [OF assms(3)] assms(1,2) L by (simp add: limbs_ok_def)
  have e: "downstep sh L = (if c = 0 then Q else Q @ [c])" "drops sh L = d" by (simp_all add: downstep_def drops_def r)
  show lt: "\<forall>v \<in> set (downstep sh L). v < B1B" "length (downstep sh L) \<le> length L + 1" unfolding e using s by auto
  have val: "vl (Q @ [c]) / 10 ^ (9 * d) = vl L / 2 ^ sh" using dwn_value [OF r] pow2_dvd(2) [OF assms(3)] by simp
  have vq: "vl (downstep sh L) = vl (Q @ [c])" unfolding e by (simp add: vl_append)
  show "vl (downstep sh L) / 10 ^ (9 * drops sh L) = vl L / 2 ^ sh" unfolding vq unfolding e using val by simp
  have "0 < vl (Q @ [c]) / 10 ^ (9 * d)" unfolding val using limbs_ok_pos [OF assms(1)] by simp
  then have "downstep sh L \<noteq> []" unfolding e by (auto simp: vl_append)
  moreover have "hd (downstep sh L) \<noteq> 0" using s \<open>downstep sh L \<noteq> []\<close> unfolding e by (cases Q) auto
  moreover have "last (downstep sh L) \<noteq> 0 \<or> length (downstep sh L) \<le> 2"
    using s assms(1) unfolding e limbs_ok_def by auto
  ultimately show "limbs_ok (downstep sh L)" using okl_small [OF lt(1)] by (simp add: limbs_ok_def)
  note f = dwn_first [OF r [unfolded L(1)] L(2) pow2_dvd(2) [OF assms(3)]]
  show "hd L div 2 ^ sh = 0 \<Longrightarrow> drops sh L = 1" unfolding e using f(2) L by simp
  show "hd L div 2 ^ sh \<noteq> 0 \<Longrightarrow> drops sh L = 0 \<and> hd (downstep sh L) = hd L div 2 ^ sh"
  proof -
    assume h: "hd L div 2 ^ sh \<noteq> 0"
    then have d: "d = 0" "hd Q = hd L div 2 ^ sh" using f(1) L by simp_all
    then have "Q \<noteq> []" using r L h by (cases Q) (auto simp: Let_def dest: dwn_nonempty)
    then show "drops sh L = 0 \<and> hd (downstep sh L) = hd L div 2 ^ sh" unfolding e using d by simp
  qed
qed

subsection \<open>The second loop\<close>

definition sh_of :: "ring \<Rightarrow> nat" where "sh_of r = (if rp r > 45 then 9 else 1)"

lemma sh_of: "0 < sh_of r" "sh_of r \<le> 9"
  by (simp_all add: sh_of_def)

lemma down_step_list:
  assumes "ring_is r L" "limbs_ok L" "length L + 1 < KMAX"
  shows "ring_is (down_step r) (downstep (sh_of r) L)" "rp (down_step r) = rp r - 9 * int (drops (sh_of r) L)"
    "re2 (down_step r) = re2 r + int (sh_of r)" "ra (down_step r) = (ra r + drops (sh_of r) L) mod KMAX"
proof -
  define sh where "sh = sh_of r"
  obtain Q c d where u: "dwn (2 ^ sh) [] L 0 0 = (Q, c, d)" by (cases "dwn (2 ^ sh) [] L 0 0") auto
  note w = assms(1) [unfolded ring_is_def]
  define r0 where "r0 = r\<lparr>re2 := re2 r + int sh\<rparr>"
  have r0: "ra r0 = ra r" "rz r0 = rz r" "rx r0 = rx r" "rp r0 = rp r" "re2 r0 = re2 r + int sh" by (simp_all add: r0_def)
  have cnt: "(rz r0 + KMAX - ra r0) mod KMAX = length L"
  proof -
    have "rz r0 = (ra r + length L) mod KMAX" using w r0 by simp
    then show ?thesis unfolding r0(1) by (simp only:) (rule ix_diff, use w in simp_all)
  qed
  have "\<exists>r'. down_loop sh (length L) ((ra r0 + length ([] :: nat list)) mod KMAX) r0 0 = (r', c) \<and> ring_is r' Q \<and> rz r' = rz r0
    \<and> re2 r' = re2 r0 \<and> 0 \<le> d \<and> rp r' = rp r0 - 9 * int (d - 0) \<and> ra r' = (ra r0 + (d - 0)) mod KMAX"
    unfolding down_loop_div using w r0 u by (intro div_loop_list) simp_all
  then obtain r' where r': "down_loop sh (length L) (ra r mod KMAX) r0 0 = (r', c)" "ring_is r' Q" "rz r' = rz r"
    "re2 r' = re2 r + int sh" "rp r' = rp r - 9 * int d" "ra r' = (ra r + d) mod KMAX" using r0 by auto
  have lp: "down_loop sh ((rz r0 + KMAX - ra r0) mod KMAX) (ra r0) r0 0 = (r', c)"
    unfolding cnt using r'(1) w r0(1) by simp
  have lQ: "length Q \<le> length L"
    using dwn_shape [OF u pow2_gt_1] pow2_dvd [of sh] sh_of [of r] assms(2) by (simp add: limbs_ok_def sh_def)
  note w' = r'(2) [unfolded ring_is_def]
  have nz: "next_ix (rz r') = (ra r' + Suc (length Q)) mod KMAX" using w' next_ix_mod [of "ra r' + length Q"] by simp
  then have ne: "next_ix (rz r') \<noteq> ra r'" using ix_mod_eq_iff [of "ra r'" "Suc (length Q)"] w' lQ assms(3) by simp
  have us: "down_step r = (if c = 0 then r' else r'\<lparr>rx := (rx r')(rz r' := c), rz := next_ix (rz r')\<rparr>)"
    unfolding down_step_def Let_def sh_of_def [symmetric] sh_def [symmetric] r0_def [symmetric] lp prod.case
    using ne by simp
  have ul: "downstep sh L = (if c = 0 then Q else Q @ [c])" "drops sh L = d" by (simp_all add: downstep_def drops_def u)
  have "ring_is (r'\<lparr>rx := (rx r')(rz r' := c), rz := next_ix (rz r')\<rparr>) (Q @ [c])"
  proof -
    have "((rx r')(rz r' := c)) ((ra r' + i) mod KMAX) = (Q @ [c]) ! i" if "i < length (Q @ [c])" for i
    proof (cases "i = length Q")
      case True
      then show ?thesis using w' by simp
    next
      case False
      then have "(ra r' + i) mod KMAX \<noteq> rz r'" using ix_eq_iff [of i "length Q" "ra r'"] that w' by simp
      then show ?thesis using False that w' by (simp add: nth_append)
    qed
    then show ?thesis using w' nz lQ assms(3) by (simp add: ring_is_def)
  qed
  then show "ring_is (down_step r) (downstep (sh_of r) L)" unfolding sh_def [symmetric] us ul using r'(2) by simp
  show "rp (down_step r) = rp r - 9 * int (drops (sh_of r) L)" "re2 (down_step r) = re2 r + int (sh_of r)"
    "ra (down_step r) = (ra r + drops (sh_of r) L) mod KMAX"
    unfolding sh_def [symmetric] us ul using r' by simp_all
qed

lemma rinv_down_step:
  assumes "rinv C V r L" "length L + 1 < KMAX"
  shows "rinv C V (down_step r) (downstep (sh_of r) L)"
    "vl (downstep (sh_of r) L) * 10 powi rp (down_step r) = vl L * 10 powi rp r / 2 ^ sh_of r"
proof -
  note i = assms(1) [unfolded rinv_def]
  have s: "ring_is (down_step r) (downstep (sh_of r) L)" "rp (down_step r) = rp r - 9 * int (drops (sh_of r) L)"
    "re2 (down_step r) = re2 r + int (sh_of r)" "ra (down_step r) = (ra r + drops (sh_of r) L) mod KMAX"
    using down_step_list [of r L] i assms(2) by simp_all
  have ok: "limbs_ok L" using i by simp
  note u = downstep_spec [OF ok sh_of]
  have p: "(2 :: rat) powi (re2 r + int (sh_of r)) = 2 powi re2 r * 2 ^ sh_of r" by (simp add: powi_plus)
  have "(10 :: rat) powi (rp r - 9 * int (drops (sh_of r) L)) = 10 powi rp r / 10 powi int (9 * drops (sh_of r) L)"
    by (subst power_int_diff) simp_all
  then have t: "(10 :: rat) powi rp (down_step r) = 10 powi rp r / 10 ^ (9 * drops (sh_of r) L)" unfolding s(2) power_int_of_nat .
  show v: "vl (downstep (sh_of r) L) * 10 powi rp (down_step r) = vl L * 10 powi rp r / 2 ^ sh_of r"
    unfolding t using u(4) by (simp add: field_simps)
  have "vl (downstep (sh_of r) L) * 10 powi rp (down_step r) * 2 powi re2 (down_step r) = V"
    unfolding v unfolding s(3) p using i by simp
  moreover have "(int (ra (down_step r)) + rp (down_step r) div 9) mod 2048 = C"
  proof -
    let ?d = "int (drops (sh_of r) L)"
    have "int (ra (down_step r)) = (int (ra r) + ?d) mod 2048" unfolding s(4) zmod_int by simp
    moreover have "rp (down_step r) div 9 = rp r div 9 - ?d" using i unfolding s(2) by auto
    moreover have "((int (ra r) + ?d) mod 2048 + (rp r div 9 - ?d)) mod 2048 = (int (ra r) + ?d + (rp r div 9 - ?d)) mod 2048"
      by (rule mod_add_left_eq)
    ultimately show ?thesis using i by simp
  qed
  moreover have "9 dvd rp (down_step r)" using i unfolding s(2) by auto
  ultimately show "rinv C V (down_step r) (downstep (sh_of r) L)" using s(1) u(1) by (simp add: rinv_def)
qed

text \<open>The first \<open>n\<close> limbs as an integer (missing limbs are zero).\<close>

fun lead :: "nat \<Rightarrow> nat list \<Rightarrow> nat" where
  "lead 0 L = 0"
| "lead (Suc n) [] = 0"
| "lead (Suc n) (v # vs) = v * B1B ^ n + lead n vs"

lemma lead_Nil [simp]: "lead n [] = 0"
  by (cases n) simp_all

lemma vl_lead: "vl L * 10 ^ (9 * n) = of_nat (lead n L) + vl (drop n L)"
proof (induction n L rule: lead.induct)
  case (3 n v vs)
  have "vl (v # vs) * 10 ^ (9 * Suc n) = of_nat v * 10 ^ (9 * n) + vl vs * 10 ^ (9 * n)"
    by (simp add: power_add field_simps)
  moreover have "(10 :: rat) ^ (9 * n) = of_nat (B1B ^ n)" by (simp add: power_mult)
  ultimately show ?case using 3 by simp
qed simp_all

lemma lead4:
  "lead 4 [] = 0" "lead 4 [a] = a * 10 ^ 27" "lead 4 [a, b] = a * 10 ^ 27 + b * 10 ^ 18"
  "lead 4 [a, b, c] = a * 10 ^ 27 + b * 10 ^ 18 + c * 10 ^ 9"
  "lead 4 (a # b # c # d # L) = a * 10 ^ 27 + b * 10 ^ 18 + c * 10 ^ 9 + d"
proof -
  have f: "(4 :: nat) = Suc (Suc (Suc (Suc 0)))" by simp
  show "lead 4 [] = 0" "lead 4 [a] = a * 10 ^ 27" "lead 4 [a, b] = a * 10 ^ 27 + b * 10 ^ 18"
    "lead 4 [a, b, c] = a * 10 ^ 27 + b * 10 ^ 18 + c * 10 ^ 9"
    "lead 4 (a # b # c # d # L) = a * 10 ^ 27 + b * 10 ^ 18 + c * 10 ^ 9 + d"
    unfolding f lead.simps by simp_all
qed

fun belowl :: "nat list \<Rightarrow> nat list \<Rightarrow> bool" where
  "belowl [] ts = True"
| "belowl (v # vs) [] = True"
| "belowl (v # vs) (t # ts) = (if v < t then True else if v > t then False else belowl vs ts)"

lemma below_belowl:
  "a < KMAX \<Longrightarrow> i \<le> length L \<Longrightarrow> length L < KMAX \<Longrightarrow> \<forall>j < length L. x ((a + j) mod KMAX) = L ! j \<Longrightarrow>
    below x ((a + length L) mod KMAX) ((a + i) mod KMAX) ts = belowl (drop i L) ts"
proof (induction ts arbitrary: i)
  case Nil
  then show ?case by (cases "drop i L") simp_all
next
  case (Cons t ts)
  show ?case
  proof (cases "i = length L")
    case True
    then show ?thesis by simp
  next
    case False
    then have i: "i < length L" using Cons.prems(2) by simp
    then have d: "drop i L = L ! i # drop (Suc i) L" by (rule Cons_nth_drop_Suc [symmetric])
    have "(a + i) mod KMAX \<noteq> (a + length L) mod KMAX" using ix_eq_iff [of i "length L" a] i Cons.prems(3) by simp
    moreover have "next_ix ((a + i) mod KMAX) = (a + Suc i) mod KMAX" unfolding next_ix_mod by simp
    ultimately show ?thesis unfolding d using Cons.IH [of "Suc i"] Cons.prems i by simp
  qed
qed

lemma ring_below: "ring_is r L \<Longrightarrow> below (rx r) (rz r) (ra r) th = belowl L th"
  using below_belowl [of "ra r" 0 L "rx r" th] by (simp add: ring_is_def)

lemma belowl_th:
  assumes "okl L"
  shows "belowl L th \<Longrightarrow> lead 4 L < 2 ^ 113" "\<not> belowl L th \<Longrightarrow> 2 ^ 113 \<le> lead 4 L"
proof -
  have p: "(2 :: nat) ^ 113 = 10384593 * 10 ^ 27 + 717069655 * 10 ^ 18 + 257060992 * 10 ^ 9 + 658440192" by simp
  have four: "(a * 10 ^ 27 + b * 10 ^ 18 + c * 10 ^ 9 + d < (2 :: nat) ^ 113) \<longleftrightarrow> belowl (a # b # c # d # K) th"
    if "b \<le> B1B" "c \<le> B1B" "d \<le> B1B" for a b c d :: nat and K
  proof -
    consider "a < 10384593" | "10384593 < a" | "a = 10384593" "b < 717069655" | "a = 10384593" "717069655 < b"
      | "a = 10384593" "b = 717069655" "c < 257060992" | "a = 10384593" "b = 717069655" "257060992 < c"
      | "a = 10384593" "b = 717069655" "c = 257060992"
      by linarith
    moreover have "belowl K []" by (cases K) simp_all
    ultimately show ?thesis by cases (use that in \<open>simp_all add: th_def p\<close>)
  qed
  have le: "v \<le> B1B" if "v \<in> set L" for v using okl_le [OF assms that] .
  have iff: "lead 4 L < 2 ^ 113 \<longleftrightarrow> belowl L th"
  proof -
    consider "L = []" | a where "L = [a]" | a b where "L = [a, b]" | a b c where "L = [a, b, c]" | a b c d K where "L = a # b # c # d # K"
      by (metis neq_Nil_conv)
    then show ?thesis
    proof cases
      case 1
      then show ?thesis by simp
    next
      case (2 a)
      then show ?thesis using four [of 0 0 0 a "[]"] by (simp add: lead4 th_def)
    next
      case (3 a b)
      then show ?thesis using four [of b 0 0 a "[]"] le [of b] by (simp add: lead4 th_def)
    next
      case (4 a b c)
      then show ?thesis using four [of b c 0 a "[]"] le [of b] le [of c] by (simp add: lead4 th_def)
    next
      case (5 a b c d K)
      then show ?thesis using four [of b c d a K] le [of b] le [of c] le [of d] unfolding 5 lead4 by simp
    qed
  qed
  show "belowl L th \<Longrightarrow> lead 4 L < 2 ^ 113" unfolding iff .
  show "\<not> belowl L th \<Longrightarrow> 2 ^ 113 \<le> lead 4 L" using iff by (simp only: not_less [symmetric]) simp
qed

text \<open>What still has to be shifted out bounds the number of rounds.\<close>

definition rounds :: "int \<Rightarrow> nat \<Rightarrow> nat" where
  "rounds p h =
     (if p \<ge> 54 then 60 + 4 * nat ((p - 54) div 9) + (floorlog 2 h + 8) div 9
      else if p = 45 then 30 + floorlog 2 h else floorlog 2 h)"

lemma floorlog_shift: "floorlog 2 (v div 2 ^ n) = floorlog 2 v - n"
proof (induction n)
  case (Suc n)
  have "floorlog 2 (w div 2) = floorlog 2 w - 1" for w
    by (subst (2) compute_floorlog) (simp add: floorlog_def)
  from this [of "v div 2 ^ n"] show ?case using Suc by (simp add: div_mult2_eq [symmetric] mult.commute)
qed simp

lemma floorlog_B1B: "v \<le> B1B \<Longrightarrow> floorlog 2 v \<le> 30"
  by (rule floorlog_leI) simp_all

lemma rounds_less:
  assumes "h div 2 ^ sh \<noteq> 0 \<and> p' = p \<and> h' = h div 2 ^ sh \<or> h div 2 ^ sh = 0 \<and> p' = p - 9 \<and> h' \<le> B1B"
    "sh = (if p > 45 then 9 else 1)" "h \<noteq> 0" "h \<le> B1B" "9 dvd p" "36 \<le> p" "36 \<le> p'"
  shows "rounds p' h' < rounds p h"
proof -
  have b: "0 < floorlog 2 h" "floorlog 2 h \<le> 30" using assms(3,4) floorlog_B1B floorlog_eq_zero_iff [of 2 h] by auto
  obtain k where k: "p = 9 * k" using assms(5) by (rule dvdE)
  have "k = 4 \<or> k = 5 \<or> 6 \<le> k" using assms(6) k by linarith
  then consider "p = 36" | "p = 45" | "54 \<le> p" using k by auto
  then show ?thesis
  proof cases
    case 1
    then show ?thesis using assms b floorlog_shift [of h 1] by (auto simp: rounds_def)
  next
    case 2
    have "floorlog 2 (h div 2) < floorlog 2 h" using floorlog_shift [of h 1] b by simp
    then show ?thesis using assms b 2 floorlog_B1B [of h'] by (auto simp: rounds_def)
  next
    case 3
    then have sh: "sh = 9" using assms(2) by simp
    from assms(1) show ?thesis
    proof
      assume a: "h div 2 ^ sh \<noteq> 0 \<and> p' = p \<and> h' = h div 2 ^ sh"
      then have "floorlog 2 (h div 2 ^ 9) \<noteq> 0" using sh by (simp add: floorlog_eq_zero_iff)
      then have "10 \<le> floorlog 2 h" unfolding floorlog_shift by simp
      moreover have "floorlog 2 h' = floorlog 2 h - 9" using a sh floorlog_shift [of h 9] by simp
      ultimately show ?thesis using a 3 by (auto simp: rounds_def)
    next
      assume a: "h div 2 ^ sh = 0 \<and> p' = p - 9 \<and> h' \<le> B1B"
      have h': "floorlog 2 h' \<le> 30" using a floorlog_B1B by simp
      have "1 \<le> (floorlog 2 h + 8) div 9" using b by simp
      moreover have "(floorlog 2 h' + 8) div 9 \<le> 4" using h' by simp
      moreover have "nat ((p - 9 - 54) div 9) + 1 = nat ((p - 54) div 9)" if "63 \<le> p" using that by simp
      moreover have "p = 54 \<or> 63 \<le> p"
      proof -
        have "k = 6 \<or> 7 \<le> k" using 3 k by linarith
        then show ?thesis using k by auto
      qed
      ultimately show ?thesis using a h' by (auto simp: rounds_def)
    qed
  qed
qed

lemma powi10_mono: "a \<le> b \<Longrightarrow> (10 :: rat) powi a \<le> 10 powi b"
  by (rule power_int_increasing) simp_all

lemma rp_ge_36:
  assumes "limbs_ok L" "9 dvd p" "2 ^ 112 \<le> vl L * 10 powi p"
  shows "36 \<le> p"
proof (rule ccontr)
  assume "\<not> 36 \<le> p"
  moreover obtain k where "p = 9 * k" using assms(2) by (rule dvdE)
  ultimately have "p \<le> 27" by simp
  then have "(10 :: rat) powi p \<le> 10 powi 27" by (rule powi10_mono)
  moreover have "vl L \<le> 2"
  proof -
    have "\<forall>v \<in> set L. v \<le> B1B" using okl_le assms(1) by (auto simp: limbs_ok_def)
    then show ?thesis using vl_le [of L] by simp
  qed
  ultimately have "vl L * 10 powi p \<le> 2 * 10 powi 27" by (intro mult_mono) simp_all
  then show False using assms(3) by simp
qed

lemma rinv_pow_ge:
  assumes "limbs_ok L" "e + 9 \<le> p"
  shows "10 powi e \<le> vl L * 10 powi p"
proof -
  have L: "L \<noteq> []" "hd L \<noteq> 0" using assms(1) by (auto simp: limbs_ok_def)
  then have "1 / 10 ^ 9 \<le> of_nat (hd L) / (10 ^ 9 :: rat)" by (intro divide_right_mono) simp_all
  then have "1 / 10 ^ 9 \<le> vl L" using vl_hd_ge [OF L(1)] by linarith
  then have "1 / 10 ^ 9 * 10 powi (e + 9) \<le> vl L * 10 powi p" using powi10_mono [OF assms(2)] by (intro mult_mono) simp_all
  then show ?thesis by (simp add: powi10_9)
qed

lemma down_big:
  assumes "rinv C V r L" "\<not> down_done r" "36 \<le> rp r"
  shows "2 ^ 112 * 2 ^ sh_of r \<le> vl L * 10 powi rp r"
proof -
  have ok: "limbs_ok L" and ri: "ring_is r L" and d: "9 dvd rp r" using assms(1) by (auto simp: rinv_def)
  obtain k where k: "rp r = 9 * k" using d by (rule dvdE)
  then have "k = 4 \<or> k = 5 \<or> 6 \<le> k" using assms(3) by linarith
  then consider "rp r = 36" | "rp r = 45" | "54 \<le> rp r" using k by auto
  then show ?thesis
  proof cases
    case 1
    then have "\<not> belowl L th" using assms(2) ring_below [OF ri] by (simp add: down_done_def)
    then have "2 ^ 113 \<le> lead 4 L" using belowl_th(2) ok by (simp add: limbs_ok_def)
    then have "(of_nat (2 ^ 113) :: rat) \<le> of_nat (lead 4 L)" by (simp only: of_nat_le_iff)
    then have "(2 :: rat) ^ 113 \<le> of_nat (lead 4 L)" by (simp only: of_nat_power of_nat_numeral)
    moreover have "vl L * 10 ^ 36 = of_nat (lead 4 L) + vl (drop 4 L)" using vl_lead [of L 4] by simp
    ultimately have "2 ^ 113 \<le> vl L * 10 ^ 36" using vl_ge0 [of "drop 4 L"] by linarith
    then show ?thesis using 1 by (simp add: sh_of_def)
  next
    case 2
    then show ?thesis using rinv_pow_ge [OF ok, of 36 "rp r"] by (simp add: sh_of_def)
  next
    case 3
    then show ?thesis using rinv_pow_ge [OF ok, of 45 "rp r"] by (simp add: sh_of_def)
  qed
qed

text \<open>One step of the second loop.\<close>

lemma down_step_ok:
  assumes "rinv C V r L" "\<not> down_done r" "2 ^ 112 \<le> vl L * 10 powi rp r" "length L + rounds (rp r) (hd L) < 2047"
  shows "rinv C V (down_step r) (downstep (sh_of r) L)" "2 ^ 112 \<le> vl (downstep (sh_of r) L) * 10 powi rp (down_step r)"
    "rounds (rp (down_step r)) (hd (downstep (sh_of r) L)) < rounds (rp r) (hd L)"
    "length (downstep (sh_of r) L) + rounds (rp (down_step r)) (hd (downstep (sh_of r) L)) < 2047"
proof -
  have ok: "limbs_ok L" and ri: "ring_is r L" and d: "9 dvd rp r" using assms(1) by (auto simp: rinv_def)
  note r36 = rp_ge_36 [OF ok d assms(3)]
  have len: "length L + 1 < KMAX" using assms(4) by simp
  note i = rinv_down_step [OF assms(1) len]
  let ?r = "down_step r" and ?L = "downstep (sh_of r) L"
  note u = downstep_spec [OF ok sh_of(1) [of r] sh_of(2) [of r]]
  show "rinv C V ?r ?L" by (rule i(1))
  show big: "2 ^ 112 \<le> vl ?L * 10 powi rp ?r"
    unfolding i(2) using down_big [OF assms(1,2) r36] by (simp add: pos_le_divide_eq)
  have ok': "limbs_ok ?L" "9 dvd rp ?r" using i(1) by (auto simp: rinv_def)
  have rp': "rp ?r = rp r - 9 * int (drops (sh_of r) L)" using down_step_list(2) [OF ri ok len] .
  have h': "hd ?L \<le> B1B" using okl_le [of ?L "hd ?L"] ok' by (simp add: limbs_ok_def)
  have h: "hd L \<noteq> 0" "hd L \<le> B1B" using ok okl_le [of L "hd L"] by (auto simp: limbs_ok_def)
  show m: "rounds (rp ?r) (hd ?L) < rounds (rp r) (hd L)"
  proof (rule rounds_less [where sh = "sh_of r"])
    show "hd L div 2 ^ sh_of r \<noteq> 0 \<and> rp ?r = rp r \<and> hd ?L = hd L div 2 ^ sh_of r
        \<or> hd L div 2 ^ sh_of r = 0 \<and> rp ?r = rp r - 9 \<and> hd ?L \<le> B1B"
      using u(5,6) rp' h' by auto
  qed (use h d r36 rp_ge_36 [OF ok' big] in \<open>simp_all add: sh_of_def\<close>)
  show "length ?L + rounds (rp ?r) (hd ?L) < 2047" using m u(3) assms(4) by simp
qed

lemma downscale_spec:
  assumes "rinv C V r L" "2 ^ 112 \<le> vl L * 10 powi rp r" "length L + rounds (rp r) (hd L) < 2047"
  shows "\<exists>r' L'. downscale r = Some r' \<and> rinv C V r' L' \<and> rp r' = 36 \<and> 2 ^ 112 \<le> vl L' * 10 ^ 36 \<and> lead 4 L' < 2 ^ 113
    \<and> length L' < 2047"
  using assms
proof (induction "rounds (rp r) (hd L)" arbitrary: r L rule: less_induct)
  case less
  have ok: "limbs_ok L" and ri: "ring_is r L" using less.prems(1) by (auto simp: rinv_def)
  show ?case
  proof (cases "down_done r")
    case True
    then have "rp r = 36" "belowl L th" using ring_below [OF ri] by (simp_all add: down_done_def)
    moreover have "downscale r = Some r" using True by (subst downscale.simps) simp
    moreover have "lead 4 L < 2 ^ 113" using belowl_th(1) ok calculation(2) by (simp add: limbs_ok_def)
    ultimately show ?thesis using less.prems by (intro exI [of _ r] exI [of _ L]) simp
  next
    case False
    note s = down_step_ok [OF less.prems(1) False less.prems(2,3)]
    obtain r' L' where "downscale (down_step r) = Some r'" "rinv C V r' L'" "rp r' = 36" "2 ^ 112 \<le> vl L' * 10 ^ 36"
        "lead 4 L' < 2 ^ 113" "length L' < 2047"
      using less.hyps [OF s(3,1,2,4)] by blast
    moreover from this have "downscale r = Some r'" using False by (subst downscale.simps) simp
    ultimately show ?thesis by blast
  qed
qed

end
