(* ===== verification/FloatRound.thy ===== *)
theory FloatRound
  imports FloatRing
begin

text \<open>
  The conversion of \<^verbatim>\<open>decfloat\<close> is exact up to its one rounding: aligning the limbs, both loops and the
  assembly of the first four limbs keep the number, and the rounding in \<^verbatim>\<open>long double\<close> arithmetic is the
  rounding to nearest of the whole number.
\<close>

subsection \<open>Aligning the radix point\<close>

lemma p10s_pow: "0 < m \<Longrightarrow> m < 9 \<Longrightarrow> p10s (8 - m) = 10 ^ nat (9 - m)"
proof -
  assume "0 < m" "m < 9"
  then consider "m = 1" | "m = 2" | "m = 3" | "m = 4" | "m = 5" | "m = 6" | "m = 7" | "m = 8" by linarith
  then show ?thesis by cases (simp_all add: p10s_def)
qed

lemma pow10_dvd: "n \<le> 9 \<Longrightarrow> 10 ^ n dvd B1B"
  using le_imp_power_dvd [of n 9 "10 :: nat"] by simp

lemma align_spec:
  assumes "ra r = 0" "re2 r = 0" "rz r = length L" "length L + 1 < KMAX" "\<forall>i < length L. rx r i = L ! i"
    "limbs_ok L" "\<forall>v \<in> set L. v < B1B" "last L \<noteq> 0"
  shows "\<exists>L'. rinv ((rp r + 8) div 9 mod 2048) (vl L * 10 powi rp r) (align r) L' \<and> length L' \<le> length L + 1
    \<and> rp r - 8 \<le> rp (align r) \<and> rp (align r) \<le> rp r + 8"
proof (cases "rp r mod 9 = 0")
  case True
  then have "(rp r + 8) div 9 = rp r div 9" "9 dvd rp r" by (auto elim!: dvdE)
  then have "rinv ((rp r + 8) div 9 mod 2048) (vl L * 10 powi rp r) r L" using assms by (simp add: rinv_def ring_is_def)
  then show ?thesis using True by (intro exI [of _ L]) (simp add: align_def)
next
  case False
  define m where "m = rp r mod 9"
  have "0 \<le> rp r mod 9" "rp r mod 9 < 9" by simp_all
  then have m: "0 < m" "m < 9" using False unfolding m_def by linarith+
  define D :: nat where "D = 10 ^ nat (9 - m)"
  have D: "p10s (8 - m) = D" "D dvd B1B" "1 < D" using p10s_pow [OF m] pow10_dvd [of "nat (9 - m)"] one_less_power [of "10 :: nat" "nat (9 - m)"] m
    by (simp_all add: D_def)
  obtain Q c d where u: "dwn D [] L 0 0 = (Q, c, d)" by (cases "dwn D [] L 0 0") auto
  obtain v vs where L: "L = v # vs" "v \<noteq> 0" using assms(6) by (cases L) (auto simp: limbs_ok_def)
  have d1: "d \<le> 1" using dwn_first [OF u [unfolded L(1)] L(2) D(2)] by (cases "v div D = 0") simp_all
  have "\<exists>r'. div_loop D (length L) ((ra r + length ([] :: nat list)) mod KMAX) r 0 = (r', c) \<and> ring_is r' Q \<and> rz r' = rz r
    \<and> re2 r' = re2 r \<and> 0 \<le> d \<and> rp r' = rp r - 9 * int (d - 0) \<and> ra r' = (ra r + (d - 0)) mod KMAX"
    using assms u by (intro div_loop_list) simp_all
  then obtain r1 where r1: "div_loop D (length L) 0 r 0 = (r1, c)" "ring_is r1 Q" "rz r1 = length L" "re2 r1 = 0"
    "rp r1 = rp r - 9 * int d" "ra r1 = d" using assms(1-3) d1 by auto
  have al: "align_loop D (length L) 0 r 0 = (r1, c)" using align_loop_div [of 0 "length L" D r 0] r1(1) assms(4) by simp
  have s: "(\<forall>v \<in> set Q. v < B1B) \<and> (Q = [] \<or> hd Q \<noteq> 0) \<and> c < B1B \<and> length Q \<le> length L \<and> (c = 0 \<longrightarrow> Q \<noteq> [] \<and> last Q \<noteq> 0)"
    using dwn_shape [OF u D(3) D(2)] assms(6-8) by (simp add: limbs_ok_def)
  define L' where "L' = (if c = 0 then Q else Q @ [c])"
  have ok: "limbs_ok L'"
  proof -
    have "\<forall>v \<in> set L'. v < B1B" using s by (auto simp: L'_def)
    moreover have "L' \<noteq> []" "last L' \<noteq> 0" "hd L' \<noteq> 0" using s by (auto simp: L'_def hd_append)
    ultimately show ?thesis by (simp add: limbs_ok_def okl_small)
  qed
  have pq: "rp r1 + 9 - m = rp r - m - 9 * int d + 9" using r1(5) by simp
  have A: "align r = (if c = 0 then r1 else r1\<lparr>rx := (rx r1)(rz r1 := c), rz := rz r1 + 1\<rparr>)\<lparr>rp := rp r1 + 9 - m\<rparr>"
    unfolding align_def Let_def m_def [symmetric] D(1) using False assms(1,3) al by (simp add: m_def)
  have ring: "ring_is (align r) L'"
  proof -
    note w = r1(2) [unfolded ring_is_def]
    have "((rx r1)(rz r1 := c)) ((ra r1 + i) mod KMAX) = (Q @ [c]) ! i" if "i < length (Q @ [c])" for i
    proof (cases "i = length Q")
      case True
      then show ?thesis using w by simp
    next
      case False
      then have "(ra r1 + i) mod KMAX \<noteq> rz r1" using ix_eq_iff [of i "length Q" "ra r1"] that w by simp
      then show ?thesis using False that w by (simp add: nth_append)
    qed
    moreover have "rz r1 + 1 = (ra r1 + length (Q @ [c])) mod KMAX"
    proof -
      have "next_ix (rz r1) = (ra r1 + length (Q @ [c])) mod KMAX" using w next_ix_mod [of "ra r1 + length Q"] by simp
      then show ?thesis using r1(3) assms(4) by (simp add: next_ix_def)
    qed
    ultimately show ?thesis unfolding A L'_def using w s assms(4) by (auto simp: ring_is_def)
  qed
  have rpa: "rp (align r) = rp r - m - 9 * int d + 9" "re2 (align r) = 0" "ra (align r) = d" unfolding A using r1 by simp_all
  have nine: "9 dvd rp (align r)" unfolding rpa by (simp add: m_def minus_mod_eq_mult_div)
  have val: "vl L' * 10 powi rp (align r) = vl L * 10 powi rp r"
  proof -
    have "vl L' = vl (Q @ [c])" by (simp add: L'_def vl_append)
    also have "\<dots> = vl L / of_nat D * 10 ^ (9 * d)" using dwn_value [OF u D(2)] D(3) by (simp add: field_simps)
    finally have v: "vl L' = vl L / of_nat D * 10 powi int (9 * d)" unfolding power_int_of_nat .
    have Dp: "(of_nat D :: rat) = 10 powi (9 - m)" using m by (simp add: D_def power_int_nonneg_exp)
    have "rp r = int (9 * d) + rp (align r) - (9 - m)" unfolding rpa by simp
    then have "(10 :: rat) powi rp r = 10 powi int (9 * d) * 10 powi rp (align r) / 10 powi (9 - m)"
      by (simp only: power_int_diff power_int_add zero_neq_numeral [symmetric] not_False_eq_True simp_thms)
    then show ?thesis unfolding v Dp by simp
  qed
  have "(int (ra (align r)) + rp (align r) div 9) mod 2048 = (rp r + 8) div 9 mod 2048"
  proof -
    have "rp r = 9 * (rp r div 9) + m" by (simp add: m_def)
    then have "(rp r + 8) div 9 = rp r div 9 + 1" "(rp r - m) div 9 = rp r div 9"
      using m by (intro int_div_pos_eq [where r = "m - 1"] int_div_pos_eq [where r = 0]; simp)+
    then have "(rp r + 8) div 9 = (rp r - m) div 9 + 1" by simp
    moreover have "(rp r - m - 9 * int d + 9) div 9 = (rp r - m) div 9 - int d + 1" by simp
    ultimately show ?thesis unfolding rpa by simp
  qed
  then have "rinv ((rp r + 8) div 9 mod 2048) (vl L * 10 powi rp r) (align r) L'"
    using ring ok nine val rpa(2) by (simp add: rinv_def)
  moreover have "length L' \<le> length L + 1" using s by (simp add: L'_def)
  ultimately show ?thesis using rpa(1) m d1 by (intro exI [of _ L']) auto
qed

subsection \<open>From the digits to the scaled number\<close>

lemma not_up_more:
  assumes "rinv C V r L" "\<not> up_more r"
  shows "36 \<le> rp r" "2 ^ 112 \<le> vl L * 10 powi rp r"
proof -
  have ok: "limbs_ok L" and d: "9 dvd rp r" using assms(1) by (auto simp: rinv_def)
  have h: "rx r (ra r) = hd L" using rinv_hd [OF assms(1)] .
  show 36: "36 \<le> rp r" using assms(2) by (auto simp: up_more_def)
  show "2 ^ 112 \<le> vl L * 10 powi rp r"
  proof (cases "rp r = 36")
    case True
    then have "10384593 \<le> hd L" using assms(2) h by (simp add: up_more_def th_def)
    then have "(10384593 :: rat) / 10 ^ 9 \<le> of_nat (hd L) / 10 ^ 9" by (intro divide_right_mono) simp_all
    also have "\<dots> \<le> vl L" using vl_hd_ge ok by (simp add: limbs_ok_def)
    finally have "10384593 / 10 ^ 9 * 10 ^ 36 \<le> vl L * (10 :: rat) ^ 36" by (rule mult_right_mono) simp
    then show ?thesis using True by simp
  next
    case False
    obtain k where "rp r = 9 * k" using d by (rule dvdE)
    moreover from this have "k = 4 \<or> 5 \<le> k" using 36 by linarith
    ultimately have "36 + 9 \<le> rp r" using False by auto
    then show ?thesis using rinv_pow_ge [OF ok, of 36 "rp r"] by simp
  qed
qed

text \<open>When the first loop ends there is room for the second.\<close>

lemma turn_bound:
  assumes "rinv C V r1 L1" "int (length L1) \<le> int (length L0) + (rp r1 - q) div 9" "rp r1 \<le> 45 \<or> rp r1 = q"
    "length L0 \<le> 1501" "-1328 \<le> q" "q \<le> 568"
  shows "length L1 + rounds (rp r1) (hd L1) < 2047"
proof -
  have h: "hd L1 \<le> B1B" using assms(1) okl_le [of L1 "hd L1"] by (simp add: rinv_def limbs_ok_def)
  show ?thesis
  proof (cases "rp r1 \<le> 45")
    case True
    then have "(rp r1 - q) div 9 \<le> 1373 div 9" using assms(5) by (intro zdiv_mono1) simp_all
    moreover have "rounds (rp r1) (hd L1) \<le> 60" using True floorlog_B1B [OF h] by (simp add: rounds_def)
    ultimately show ?thesis using assms(2,4) by simp
  next
    case False
    then have e: "rp r1 = q" using assms(3) by simp
    then have "(rp r1 - 54) div 9 \<le> 514 div 9" using assms(6) by (intro zdiv_mono1) simp_all
    then have "nat ((rp r1 - 54) div 9) \<le> 57" by simp
    moreover have "(floorlog 2 (hd L1) + 8) div 9 \<le> 4" using floorlog_B1B [OF h] by simp
    ultimately have "rounds (rp r1) (hd L1) \<le> 292" using floorlog_B1B [OF h] unfolding rounds_def by simp
    then show ?thesis using assms(2,4) e by simp
  qed
qed

lemma scale_spec:
  assumes "ra r = 0" "re2 r = 0" "rz r = length L" "length L \<le> 1500" "\<forall>i < length L. rx r i = L ! i"
    "limbs_ok L" "\<forall>v \<in> set L. v < B1B" "last L \<noteq> 0" "-1320 \<le> rp r" "rp r \<le> 560"
  shows "\<exists>r1 r2 L2. upscale (align r) = Some r1 \<and> downscale r1 = Some r2
    \<and> rinv ((rp r + 8) div 9 mod 2048) (vl L * 10 powi rp r) r2 L2 \<and> rp r2 = 36 \<and> 2 ^ 112 \<le> vl L2 * 10 ^ 36
    \<and> lead 4 L2 < 2 ^ 113 \<and> length L2 < 2047"
proof -
  have len: "length L + 1 < KMAX" using assms(4) by simp
  obtain L0 where a: "rinv ((rp r + 8) div 9 mod 2048) (vl L * 10 powi rp r) (align r) L0" "length L0 \<le> length L + 1"
    "rp r - 8 \<le> rp (align r)" "rp (align r) \<le> rp r + 8"
    using align_spec [OF assms(1-3) len assms(5-8)] by blast
  have "int (length L0) + max 0 (45 - rp (align r)) div 9 < 2047"
  proof -
    have "max 0 (45 - rp (align r)) div 9 \<le> 1373 div 9" using a(3) assms(9) by (intro zdiv_mono1) simp_all
    then show ?thesis using a(2) assms(4) by simp
  qed
  then obtain r1 L1 where b: "upscale (align r) = Some r1" "rinv ((rp r + 8) div 9 mod 2048) (vl L * 10 powi rp r) r1 L1"
    "\<not> up_more r1" "rp (align r) \<le> rp r1" "rp r1 \<le> 45 \<or> rp r1 = rp (align r)"
    "int (length L1) \<le> int (length L0) + (rp r1 - rp (align r)) div 9"
    using upscale_spec [OF a(1)] by blast
  have "length L1 + rounds (rp r1) (hd L1) < 2047"
    by (rule turn_bound [OF b(2,6,5)]) (use a(2-4) assms(4,9,10) in simp_all)
  from downscale_spec [OF b(2) not_up_more(2) [OF b(2,3)] this] b(1) show ?thesis by blast
qed

subsection \<open>Assembling the first four limbs\<close>

lemma lead_snoc: "lead (Suc n) L = lead n L * B1B + (if n < length L then L ! n else 0)"
proof (induction n L rule: lead.induct)
  case (1 L)
  then show ?case by (cases L) simp_all
next
  case (3 n v vs)
  then show ?case by (simp add: algebra_simps)
qed simp

lemma lead_append_0: "lead n (L @ [0]) = lead n L"
  by (induction n L rule: lead.induct) simp_all

lemma lead_mono: "m \<le> n \<Longrightarrow> lead m L \<le> lead n L"
proof (induction rule: dec_induct)
  case (step n)
  have "lead n L \<le> lead (Suc n) L" unfolding lead_snoc by simp
  then show ?case using step by simp
qed simp

lemma quad_sel [simp]: "mant quad = 113" "least quad = -16494"
  by (simp_all add: quad_def)

lemma quad_max: "e \<le> 16383 \<Longrightarrow> (2 :: rat) powi e < 2 powi maxexp quad"
  by (rule powi_smono) (simp add: quad_def)

lemma fround_quad_int: "n \<le> 2 ^ 113 \<Longrightarrow> fround quad neg (of_nat n) = FNum neg (of_nat n)"
proof -
  assume n: "n \<le> 2 ^ 113"
  then have "of_nat n \<le> (of_nat (2 ^ 113) :: rat)" by (simp only: of_nat_le_iff)
  then have "of_nat n \<le> (2 :: rat) powi 113" by simp
  then have "of_nat n < (2 :: rat) powi maxexp quad" using quad_max [of 113] by linarith
  moreover have "int n \<le> 2 ^ nat (mant quad)"
  proof -
    have "int n \<le> int (2 ^ 113)" using n by (simp only: of_nat_le_iff)
    then show ?thesis by simp
  qed
  ultimately show ?thesis by (intro fround_exact [of _ "int n" 0]) simp_all
qed

lemma ldf_nat: "n \<le> 2 ^ 113 \<Longrightarrow> ldf (int n) = FNum False (of_nat n)"
  using fround_quad_int [of n] by (simp add: of_intf_def)

lemma assemble_step:
  assumes "a * B1B + v \<le> 2 ^ 113" "v \<le> B1B"
  shows "fadd quad (fmul quad (ldf 1000000000) (FNum False (of_nat a))) (ldf (int v)) = FNum False (of_nat (a * B1B + v))"
proof -
  have m: "ldf 1000000000 = FNum False (of_nat B1B)" using ldf_nat [of B1B] by simp
  have v: "ldf (int v) = FNum False (of_nat v)" using assms by (intro ldf_nat) simp
  have p: "fround quad False (of_nat (B1B * a)) = FNum False (of_nat (B1B * a))" using assms(1) by (intro fround_quad_int) simp
  have s: "fround quad False (of_nat (B1B * a + v)) = FNum False (of_nat (B1B * a + v))" using assms(1) by (intro fround_quad_int) simp
  have "fmul quad (ldf 1000000000) (FNum False (of_nat a)) = FNum False (of_nat (B1B * a))"
    unfolding m using p by (simp add: fmul_def)
  then show ?thesis
    unfolding v using s by (cases "B1B * a + v = 0") (simp_all add: fadd_def sval_def Let_def mult.commute)
qed

text \<open>
  The limbs that are padded with zeros must not wrap: limb \<open>j\<close> of the ring is stored at index
  \<open>(a + j) mod 2048\<close>, and the code stores the padding of index 2047 before the array.
\<close>

definition pads_ok :: "ring \<Rightarrow> nat list \<Rightarrow> bool" where
  "pads_ok r L \<longleftrightarrow> (\<forall>j. length L \<le> j \<and> j < 4 \<longrightarrow> (ra r + j) mod KMAX \<noteq> 2047)"

lemma ring_is_pad:
  assumes "ring_is r L" "length L < 2047" "(ra r + length L) mod KMAX \<noteq> 2047"
  shows "next_ix (rz r) \<noteq> 0" "ring_is (r\<lparr>rz := next_ix (rz r), rx := (rx r)(next_ix (rz r) - 1 := 0)\<rparr>) (L @ [0])"
proof -
  note w = assms(1) [unfolded ring_is_def]
  have z: "rz r < KMAX" "rz r \<noteq> 2047" using w assms(3) by simp_all
  then have n: "next_ix (rz r) = rz r + 1" by (simp add: next_ix_def)
  then show "next_ix (rz r) \<noteq> 0" by simp
  have nz: "next_ix (rz r) = (ra r + length (L @ [0])) mod KMAX" using w next_ix_mod [of "ra r + length L"] by simp
  have "((rx r)(rz r := 0)) ((ra r + i) mod KMAX) = (L @ [0]) ! i" if "i < length (L @ [0])" for i
  proof (cases "i = length L")
    case True
    then show ?thesis using w by simp
  next
    case False
    then have "(ra r + i) mod KMAX \<noteq> rz r" using ix_eq_iff [of i "length L" "ra r"] that w by simp
    then show ?thesis using False that w by (simp add: nth_append)
  qed
  then show "ring_is (r\<lparr>rz := next_ix (rz r), rx := (rx r)(next_ix (rz r) - 1 := 0)\<rparr>) (L @ [0])"
    using w nz n assms(2) by (simp add: ring_is_def)
qed

lemma assemble_from:
  assumes "ring_is r L" "length L < 2047" "i \<le> length L" "i + n = 4" "pads_ok r L" "okl L" "lead 4 L < 2 ^ 113"
  shows "\<exists>r' k. assemble [i..<4] r (FNum False (of_nat (lead i L))) = Some (r', FNum False (of_nat (lead 4 L)))
    \<and> ring_is r' (L @ replicate k 0) \<and> length L + k = max 4 (length L) \<and> re2 r' = re2 r \<and> ra r' = ra r"
  using assms
proof (induction n arbitrary: r L i)
  case 0
  then show ?case by (intro exI [of _ r] exI [of _ 0]) simp
next
  case (Suc n)
  define k where "k = (ra r + i) mod KMAX"
  define r1 where "r1 = (if k = rz r then r\<lparr>rz := next_ix (rz r), rx := (rx r)(next_ix (rz r) - 1 := 0)\<rparr> else r)"
  define M where "M = (if k = rz r then L @ [0] else L)"
  have w: "ra r < KMAX" "rz r = (ra r + length L) mod KMAX" using Suc.prems(1) by (simp_all add: ring_is_def)
  have kz: "k = rz r \<longleftrightarrow> i = length L"
    unfolding k_def w(2) using ix_eq_iff [of i "length L" "ra r"] Suc.prems(2,3) by simp
  have i4: "i < 4" using Suc.prems(4) by simp
  have pad: "k = rz r \<Longrightarrow> (ra r + length L) mod KMAX \<noteq> 2047" using Suc.prems(5) kz i4 by (auto simp: pads_ok_def)
  have nz: "\<not> (k = rz r \<and> next_ix (rz r) = 0)" using ring_is_pad(1) [OF Suc.prems(1) _ pad] Suc.prems(2) by auto
  have r1: "ring_is r1 M" using ring_is_pad(2) [OF Suc.prems(1) _ pad] Suc.prems(1,2) by (auto simp: r1_def M_def)
  have r1e: "ra r1 = ra r" "re2 r1 = re2 r" by (simp_all add: r1_def)
  have M: "length M < 2047" "Suc i \<le> length M" "okl M" "lead 4 M = lead 4 L" "lead i M = lead i L"
  proof -
    show "length M < 2047" using Suc.prems(2) kz i4 by (auto simp: M_def)
    show "Suc i \<le> length M" using Suc.prems(3) kz by (auto simp: M_def)
    show "lead 4 M = lead 4 L" "lead i M = lead i L" by (simp_all add: M_def lead_append_0)
    have "okl (K @ [0])" if "okl K" for K using that
    proof (induction K)
      case (Cons v vs)
      then show ?case by (cases vs) auto
    qed simp
    then show "okl M" using Suc.prems(6) by (simp add: M_def)
  qed
  have v: "rx r1 k = M ! i"
    using r1 M(2) unfolding ring_is_def r1e k_def by simp
  have lead: "lead (Suc i) M = lead i L * B1B + M ! i" using lead_snoc [of i M] M(2,5) by simp
  have "lead (Suc i) M \<le> lead 4 M" using i4 by (intro lead_mono) simp
  then have b: "lead i L * B1B + M ! i \<le> 2 ^ 113" unfolding lead [symmetric] using M(4) Suc.prems(7) by simp
  have "M ! i \<le> B1B" using okl_le [OF M(3)] M(2) by simp
  note y = assemble_step [OF b this]
  have up: "[i..<4] = i # [Suc i..<4]" using i4 by (rule upt_conv_Cons)
  have st: "assemble [i..<4] r (FNum False (of_nat (lead i L))) = assemble [Suc i..<4] r1 (FNum False (of_nat (lead (Suc i) M)))"
    unfolding up assemble.simps Let_def k_def [symmetric] r1_def [symmetric] lead v y by (rule if_not_P [OF nz])
  have pads: "pads_ok r1 M" using Suc.prems(5) kz unfolding pads_ok_def r1e M_def by auto
  obtain r' j where ih: "assemble [Suc i..<4] r1 (FNum False (of_nat (lead (Suc i) M))) = Some (r', FNum False (of_nat (lead 4 M)))"
    "ring_is r' (M @ replicate j 0)" "length M + j = max 4 (length M)" "re2 r' = re2 r1" "ra r' = ra r1"
    using Suc.IH [OF r1 M(1,2) _ pads M(3)] Suc.prems(4,7) M(4) by auto
  show ?case
  proof (cases "k = rz r")
    case True
    then have "M @ replicate j 0 = L @ replicate (Suc j) 0" by (simp add: M_def)
    moreover have "length L + Suc j = max 4 (length L)" using ih(3) True kz i4 by (simp add: M_def)
    ultimately show ?thesis using ih st M(4) r1e by (intro exI [of _ r'] exI [of _ "Suc j"]) simp
  next
    case False
    then show ?thesis using ih st M(4) r1e by (intro exI [of _ r'] exI [of _ j]) (simp add: M_def)
  qed
qed

lemma assemble_spec:
  assumes "ring_is r L" "length L < 2047" "pads_ok r L" "okl L" "lead 4 L < 2 ^ 113"
  shows "\<exists>r' L'. assemble [0, 1, 2, 3] r (FNum False 0) = Some (r', FNum False (of_nat (lead 4 L)))
    \<and> ring_is r' L' \<and> re2 r' = re2 r \<and> 4 \<le> length L' \<and> drop 4 L' = drop 4 L \<and> (length L' \<noteq> 4 \<longrightarrow> L' = L)"
proof -
  have f: "[0..<4] = [0, 1, 2, 3 :: nat]" by (simp add: upt_rec)
  obtain r' k where a: "assemble [0..<4] r (FNum False (of_nat (lead 0 L))) = Some (r', FNum False (of_nat (lead 4 L)))"
    "ring_is r' (L @ replicate k 0)" "length L + k = max 4 (length L)" "re2 r' = re2 r"
    using assemble_from [OF assms(1,2) _ _ assms(3-5), of 0 4] by auto
  have "length L + k \<noteq> 4 \<Longrightarrow> k = 0" using a(3) by (simp add: max_def split: if_splits)
  moreover have "length L + k = 4 \<Longrightarrow> length L \<le> 4" by simp
  ultimately show ?thesis using a unfolding f
    by (intro exI [of _ r'] exI [of _ "L @ replicate k 0"]) auto
qed

subsection \<open>The limbs behind the first four\<close>

lemma okl_vl_1: "okl xs \<Longrightarrow> xs \<noteq> [] \<Longrightarrow> hd xs < B1B \<Longrightarrow> vl xs < 1"
proof (induction xs)
  case (Cons v vs)
  have two: "vl vs \<le> 2"
  proof -
    have "\<forall>v \<in> set vs. v \<le> B1B" using Cons.prems(1) okl_le by auto
    then show ?thesis using vl_le [of vs] by simp
  qed
  show ?case
  proof (cases "vs \<noteq> [] \<and> hd vs = B1B")
    case True
    then have "512 dvd v" using Cons.prems(1) by simp
    then obtain k where "v = 512 * k" by (rule dvdE)
    then have "v + 512 \<le> B1B" using Cons.prems(3) by simp
    then have "of_nat (v + 512) \<le> (of_nat B1B :: rat)" by (simp only: of_nat_le_iff)
    then show ?thesis using two by simp
  next
    case False
    have "hd vs \<le> B1B" if "vs \<noteq> []" using okl_le [of vs "hd vs"] Cons.prems(1) that by simp
    then have "vl vs < 1" using Cons.IH Cons.prems(1) False by (cases "vs = []") auto
    moreover have "of_nat (v + 1) \<le> (of_nat B1B :: rat)" using Cons.prems(3) by (simp only: of_nat_le_iff) simp
    ultimately show ?thesis by simp
  qed
qed simp

definition tail_small :: "nat \<Rightarrow> rat \<Rightarrow> bool" where
  "tail_small Y T \<longleftrightarrow> 0 \<le> T \<and> (T < 1 \<or> T < 2 \<and> even Y)"

lemma tail_small:
  assumes "okl L" "4 \<le> length L"
  shows "tail_small (lead 4 L) (vl (drop 4 L))"
proof (cases "drop 4 L")
  case Nil
  then show ?thesis by (simp add: tail_small_def)
next
  case (Cons t K)
  then have len: "4 < length L" by (metis drop_all linorder_not_less list.distinct(1))
  have t: "t = L ! 4" using Cons len by (metis hd_drop_conv_nth list.sel(1))
  have okd: "okl (drop n M)" if "okl M" for n M using that
    by (induction M arbitrary: n) (auto simp: drop_Cons split: nat.splits)
  have ok: "okl (t # K)" using okd [OF assms(1), of 4] Cons by simp
  show ?thesis
  proof (cases "t = B1B")
    case False
    then have "hd (t # K) < B1B" using ok by simp
    then have "vl (t # K) < 1" using okl_vl_1 [OF ok] by simp
    then show ?thesis unfolding Cons tail_small_def using vl_ge0 [of "t # K"] by blast
  next
    case True
    have "512 dvd L ! 3" using okl_nth [OF assms(1), of 3] len t True by simp
    then have "even (L ! 3)" by (rule dvd_trans [rotated]) simp
    moreover have "lead 4 L = lead 3 L * B1B + L ! 3" using lead_snoc [of 3 L] len by simp
    ultimately have "even (lead 4 L)" by simp
    moreover have "vl K \<le> 2"
    proof -
      have "\<forall>v \<in> set K. v \<le> B1B" using ok okl_le by auto
      then show ?thesis using vl_le [of K] by simp
    qed
    then have "vl (t # K) < 2" using True by simp
    ultimately show ?thesis unfolding Cons tail_small_def using vl_ge0 [of "t # K"] by blast
  qed
qed

subsection \<open>One rounding\<close>

lemma rne_frac:
  assumes "0 \<le> f" "f < 3 / 2"
  shows "rne (of_int q + f) = (if f < 1 / 2 then q else if f = 1 / 2 \<and> even q then q else q + 1)"
proof (cases "1 \<le> f")
  case True
  then have "\<lfloor>of_int q + f\<rfloor> = q + 1" using assms by (simp add: floor_eq_iff)
  then show ?thesis using True assms by (auto simp: rne_def Let_def)
next
  case False
  then have "\<lfloor>of_int q + f\<rfloor> = q" using assms by (simp add: floor_eq_iff)
  then show ?thesis by (auto simp: rne_def Let_def)
qed

lemma rne_add_even: "even k \<Longrightarrow> rne (of_int k + x) = k + rne x"
  by (simp add: rne_def Let_def)

text \<open>\<open>p\<close> stands for \<open>t\<close> when it compares with one half in the same way.\<close>

definition same_half :: "rat \<Rightarrow> rat \<Rightarrow> rat \<Rightarrow> bool" where
  "same_half M t p \<longleftrightarrow> (t < M / 2 \<longrightarrow> p < M / 2) \<and> (t = M / 2 \<longrightarrow> p = M / 2) \<and> (M / 2 < t \<longrightarrow> M / 2 < p) \<and> 0 \<le> p \<and> p \<le> M + 2"

lemma rne_same_half:
  assumes "8 \<le> M" "0 \<le> t" "t \<le> M" "same_half M t p"
  shows "rne (of_int q + p / M) = rne (of_int q + t / M)"
proof -
  have "0 \<le> p / M" "p / M < 3 / 2" "0 \<le> t / M" "t / M < 3 / 2"
    using assms by (simp_all add: same_half_def pos_divide_less_eq)
  moreover have "p / M < 1 / 2 \<longleftrightarrow> p < M / 2" "p / M = 1 / 2 \<longleftrightarrow> p = M / 2" "t / M < 1 / 2 \<longleftrightarrow> t < M / 2" "t / M = 1 / 2 \<longleftrightarrow> t = M / 2"
    using assms(1) by (auto simp: field_simps)
  moreover have "p < M / 2 \<longleftrightarrow> t < M / 2" "p = M / 2 \<longleftrightarrow> t = M / 2" using assms(4) unfolding same_half_def
    by (cases t "M / 2" rule: linorder_cases; auto)+
  ultimately show ?thesis by (simp add: rne_frac)
qed

lemma tail_bound:
  assumes "tail_small Y T" "0 < m"
  shows "of_nat (Y mod 2 ^ m) + T \<le> (2 :: rat) ^ m"
proof -
  have lt: "Y mod 2 ^ m < 2 ^ m" by simp
  consider "T < 1" | "T < 2" "even Y" using assms(1) by (auto simp: tail_small_def)
  then show ?thesis
  proof cases
    case 1
    have "Y mod 2 ^ m + 1 \<le> 2 ^ m" using lt by linarith
    then have "(of_nat (Y mod 2 ^ m + 1) :: rat) \<le> of_nat (2 ^ m)" by (simp only: of_nat_le_iff)
    then show ?thesis using 1 by simp
  next
    case 2
    have "even (Y mod 2 ^ m)" "even ((2 :: nat) ^ m)" using 2(2) assms(2) by (simp_all add: dvd_mod)
    from this(1) obtain i where i: "Y mod 2 ^ m = 2 * i" by (rule evenE)
    from \<open>even ((2 :: nat) ^ m)\<close> obtain j where j: "(2 :: nat) ^ m = 2 * j" by (rule evenE)
    have "2 * i < 2 * j" using lt i j by metis
    then have "2 * i + 2 \<le> 2 * j" by simp
    then have "Y mod 2 ^ m + 2 \<le> 2 ^ m" using i j by metis
    then have "(of_nat (Y mod 2 ^ m + 2) :: rat) \<le> of_nat (2 ^ m)" by (simp only: of_nat_le_iff)
    then show ?thesis using 2 by simp
  qed
qed

lemma round_core:
  assumes "b \<le> 53" "Y < 2 ^ 113" "tail_small Y T" "same_half (2 ^ (113 - b)) (of_nat (Y mod 2 ^ (113 - b)) + T) p"
  shows "fround quad s (of_nat (Y - Y mod 2 ^ (113 - b)) + 2 ^ (225 - b) + p) =
      FNum s (2 ^ (225 - b) + of_int (rne ((of_nat Y + T) / 2 ^ (113 - b))) * 2 ^ (113 - b))"
proof -
  define m where "m = 113 - b"
  define q where "q = Y div 2 ^ m"
  have m: "60 \<le> m" "m \<le> 113" "225 - b = 112 + m" using assms(1) by (simp_all add: m_def)
  have Y: "Y - Y mod 2 ^ m = q * 2 ^ m" "Y = q * 2 ^ m + Y mod 2 ^ m"
    using div_mult_mod_eq [of Y "2 ^ m"] by (simp_all only: q_def minus_mod_eq_div_mult)
  have pb: "0 \<le> p" "p \<le> 2 ^ m + 2" using assms(4) by (simp_all add: same_half_def m_def)
  have ql: "q * 2 ^ m < 2 ^ 113" using Y assms(2) by linarith
  then have ql': "(of_nat (q * 2 ^ m) :: rat) < of_nat (2 ^ 113)" by (simp only: of_nat_less_iff)
  define x where "x = of_nat (q * 2 ^ m) + 2 ^ (112 + m) + p"
  have m113: "(2 :: rat) ^ m \<le> 2 ^ 113" by (rule power_increasing) (use m in simp_all)
  have m60: "(2 :: rat) ^ 60 \<le> 2 ^ m" by (rule power_increasing) (use m in simp_all)
  have big: "(2 :: rat) ^ 115 \<le> 2 ^ (112 + m)" by (rule power_increasing) (use m in simp_all)
  have lo: "2 powi int (112 + m) \<le> x" using pb unfolding x_def power_int_of_nat by simp
  have "x < 2 ^ 113 + 2 ^ (112 + m) + (2 ^ 113 + 2)" using ql' pb m113 unfolding x_def by simp
  also have "\<dots> \<le> 2 * 2 ^ (112 + m)" using big by simp
  also have "\<dots> = 2 powi (int (112 + m) + 1)" by (simp only: powi_plus power_int_of_nat power_int_1_right)
  finally have hi: "x < 2 powi (int (112 + m) + 1)" .
  have e: "rexp x = int (112 + m)" by (rule rexp_eqI [OF lo hi])
  have x0: "0 < x" using lo powi_pos [of "int (112 + m)"] by linarith
  have l: "max (rexp x - mant quad + 1) (least quad) = int m" unfolding e by simp
  have xm: "x / 2 powi int m = of_int (2 ^ 112) + (of_int (int q) + p / 2 ^ m)"
    unfolding x_def power_int_of_nat by (simp add: power_add add_divide_distrib)
  have "rne (x / 2 powi int m) = 2 ^ 112 + rne (of_int (int q) + p / 2 ^ m)" unfolding xm by (rule rne_add_even) simp
  also have "rne (of_int (int q) + p / 2 ^ m) = rne (of_int (int q) + (of_nat (Y mod 2 ^ m) + T) / 2 ^ m)"
    using tail_bound [OF assms(3), of m] assms(3,4) m(1) m60 by (intro rne_same_half) (simp_all add: m_def tail_small_def)
  also have "of_int (int q) + (of_nat (Y mod 2 ^ m) + T) / 2 ^ m = (of_nat Y + T) / 2 ^ m"
  proof -
    have "(of_nat Y :: rat) = of_nat (q * 2 ^ m) + of_nat (Y mod 2 ^ m)" using arg_cong [OF Y(2), of "of_nat :: nat \<Rightarrow> rat"] by (simp only: of_nat_add)
    then show ?thesis by (simp add: add_divide_distrib)
  qed
  finally have r: "rne (x / 2 powi int m) = 2 ^ 112 + rne ((of_nat Y + T) / 2 ^ m)" .
  have val: "of_int (rne (x / 2 powi int m)) * 2 powi int m = 2 ^ (112 + m) + of_int (rne ((of_nat Y + T) / 2 ^ m)) * (2 :: rat) ^ m"
    unfolding r unfolding power_int_of_nat by (simp add: power_add algebra_simps)
  have "of_int (rne (x / 2 powi int m)) * 2 powi int m < (2 :: rat) powi maxexp quad"
  proof -
    have "x / 2 powi int m \<le> of_int (2 ^ 113)"
    proof -
      have "x \<le> 2 * 2 ^ (112 + m)" using \<open>x < 2 ^ 113 + 2 ^ (112 + m) + (2 ^ 113 + 2)\<close> big by simp
      then show ?thesis unfolding power_int_of_nat by (simp add: pos_divide_le_eq power_add)
    qed
    then have "rne (x / 2 powi int m) \<le> 2 ^ 113" by (rule rne_le)
    then have "(of_int (rne (x / 2 powi int m)) :: rat) \<le> of_int (2 ^ 113)" by (simp only: of_int_le_iff)
    then have "of_int (rne (x / 2 powi int m)) * 2 powi int m \<le> 2 powi 113 * (2 :: rat) powi int m"
      by (intro mult_right_mono) (simp_all add: power_int_of_nat)
    also have "\<dots> = 2 powi (113 + int m)" by (rule powi_plus [symmetric])
    also have "\<dots> < 2 powi maxexp quad" by (rule quad_max) (use m in simp)
    finally show ?thesis .
  qed
  then have "fround quad s x = FNum s (of_int (rne (x / 2 powi int m)) * 2 powi int m)"
    unfolding fround_eq [OF x0 l] by simp
  then show ?thesis unfolding val unfolding x_def m(3) m_def [symmetric] Y(1) .
qed

lemma fadd_same: "0 \<le> a \<Longrightarrow> 0 \<le> b \<Longrightarrow> fadd F (FNum s a) (FNum s b) = fround F s (a + b)"
  by (cases "a + b = 0") (auto simp: fadd_def sval_def Let_def add.commute)

lemma fsub_same: "0 \<le> b \<Longrightarrow> b < a \<Longrightarrow> fsub F (FNum s a) (FNum s b) = fround F s (a - b)"
  by (auto simp: fsub_def fneg_def fadd_def sval_def Let_def)

lemma fsub_self: "fsub F (FNum s a) (FNum s a) = FNum False 0"
  by (auto simp: fsub_def fneg_def fadd_def sval_def Let_def)

lemma fround_quad_exact:
  "x * 4 = of_nat n \<Longrightarrow> n \<le> 2 ^ 113 \<Longrightarrow> fround quad s x = FNum s x"
proof -
  assume n: "x * 4 = of_nat n" "n \<le> 2 ^ 113"
  have "(2 :: rat) powi (-2) = 1 / 4" by (simp add: power_int_minus)
  then have x: "x = of_int (int n) * 2 powi (-2)" using n(1) by simp
  have "of_nat n \<le> (of_nat (2 ^ 113) :: rat)" using n(2) by (simp only: of_nat_le_iff)
  then have "x \<le> 2 powi 113" using n(1) by simp
  then have "x < 2 powi maxexp quad" using quad_max [of 113] by linarith
  moreover have "int n \<le> 2 ^ nat (mant quad)"
  proof -
    have "int n \<le> int (2 ^ 113)" using n(2) by (simp only: of_nat_le_iff)
    then show ?thesis by simp
  qed
  ultimately show ?thesis by (intro fround_exact [OF x]) simp_all
qed

text \<open>Rounding to 113 bits is monotone at the integers of the format.\<close>

lemma quad_round_int:
  assumes "0 < x" "x < 2 ^ 114"
  shows "\<exists>y. fround quad s x = FNum s y
    \<and> (\<forall>n. even n \<or> x < 2 ^ 113 \<longrightarrow> (of_nat n \<le> x \<longrightarrow> of_nat n \<le> y) \<and> (x \<le> of_nat n \<longrightarrow> y \<le> of_nat n))"
proof -
  define l where "l = max (rexp x - mant quad + 1) (least quad)"
  define y :: rat where "y = of_int (rne (x / 2 powi l)) * 2 powi l"
  have r114: "rexp x < 114" using assms by (intro rexp_lessI) simp_all
  then have l1: "l \<le> 1" by (simp add: l_def)
  have l0: "l \<le> 0" if "x < 2 ^ 113"
  proof -
    have "rexp x < 113" using assms(1) that by (intro rexp_lessI) simp_all
    then show ?thesis by (simp add: l_def)
  qed
  have grid: "\<exists>k. (of_nat n :: rat) = of_int k * 2 powi l" if c: "even n \<or> x < 2 ^ 113" for n
  proof (cases "l = 1")
    case True
    then have "even n" using c l0 by auto
    then obtain k where "n = 2 * k" by (rule evenE)
    then have "(of_nat n :: rat) = of_int (int k) * 2 powi l" using True by simp
    then show ?thesis by blast
  next
    case False
    then have "l \<le> 0" using l1 by simp
    then have "(2 :: rat) powi l * 2 powi int (nat (- l)) = 1" using powi_plus [of l "- l"] by simp
    then have "(2 :: rat) powi l * 2 ^ nat (- l) = 1" unfolding power_int_of_nat .
    then have "(of_nat n :: rat) = of_int (int n * 2 ^ nat (- l)) * 2 powi l" by (simp add: mult.commute mult.left_commute)
    then show ?thesis by blast
  qed
  have "y \<le> 2 ^ 114"
  proof -
    obtain k where k: "(of_nat (2 ^ 114) :: rat) = of_int k * 2 powi l" using grid [of "2 ^ 114"] by auto
    then have "x / 2 powi l \<le> of_int k" using assms(2) powi_pos [of l] by (simp add: pos_divide_le_eq)
    then have "rne (x / 2 powi l) \<le> k" by (rule rne_le)
    then have "y \<le> of_int k * 2 powi l" unfolding y_def using powi_pos [of l] by (intro mult_right_mono) simp_all
    then show ?thesis using k by simp
  qed
  then have "y < 2 powi maxexp quad" using quad_max [of 114] by simp
  then have f: "fround quad s x = FNum s y" unfolding y_def using fround_eq [OF assms(1), of quad l s] by (simp add: l_def)
  have "(of_nat n \<le> x \<longrightarrow> of_nat n \<le> y) \<and> (x \<le> of_nat n \<longrightarrow> y \<le> of_nat n)" if c: "even n \<or> x < 2 ^ 113" for n
  proof -
    obtain k where k: "(of_nat n :: rat) = of_int k * 2 powi l" using grid [OF c] by auto
    have "k \<le> rne (x / 2 powi l)" if "of_nat n \<le> x"
      using that powi_pos [of l] unfolding k by (intro rne_ge) (simp add: pos_le_divide_eq)
    moreover have "rne (x / 2 powi l) \<le> k" if "x \<le> of_nat n"
      using that powi_pos [of l] unfolding k by (intro rne_le) (simp add: pos_divide_le_eq)
    ultimately show ?thesis unfolding k y_def using powi_pos [of l] by (auto intro!: mult_right_mono)
  qed
  then show ?thesis using f by blast
qed

subsection \<open>The fraction that decides the rounding\<close>

lemma pow_le_rat: "2 ^ k \<le> n \<Longrightarrow> (2 :: rat) ^ k \<le> of_nat n" "n \<le> 2 ^ k \<Longrightarrow> of_nat n \<le> (2 :: rat) ^ k"
proof -
  have "(of_nat (2 ^ k) :: rat) = 2 ^ k" by simp
  then show "2 ^ k \<le> n \<Longrightarrow> (2 :: rat) ^ k \<le> of_nat n" "n \<le> 2 ^ k \<Longrightarrow> of_nat n \<le> (2 :: rat) ^ k"
    by (metis of_nat_le_iff)+
qed

definition frac_adjust :: "fp \<Rightarrow> fp" where
  "frac_adjust f = (if fzero (frem f (ldf 1)) then fadd quad f (ldf 1) else f)"

lemma ldf_1: "ldf 1 = FNum False 1"
  using ldf_nat [of 1] by simp

lemma fzero_frem: "fzero (frem (FNum s x) (ldf 1)) \<longleftrightarrow> x = of_int \<lfloor>x\<rfloor>"
  by (auto simp: fzero_def frem_def ldf_1)

lemma frac_half:
  assumes "tail_small Y T" "0 < T" "2 \<le> m"
  shows "Y mod 2 ^ m < 2 ^ (m - 1) \<Longrightarrow> of_nat (Y mod 2 ^ m) + T < (2 :: rat) ^ (m - 1)"
    "2 ^ (m - 1) \<le> Y mod 2 ^ m \<Longrightarrow> (2 :: rat) ^ (m - 1) < of_nat (Y mod 2 ^ m) + T"
proof -
  let ?f = "Y mod 2 ^ m"
  show "of_nat ?f + T < (2 :: rat) ^ (m - 1)" if lt: "?f < 2 ^ (m - 1)"
  proof -
    consider "T < 1" | "T < 2" "even Y" using assms(1) by (auto simp: tail_small_def)
    then show ?thesis
    proof cases
      case 1
      have "?f + 1 \<le> 2 ^ (m - 1)" using lt by linarith
      then have "(of_nat (?f + 1) :: rat) \<le> of_nat (2 ^ (m - 1))" by (simp only: of_nat_le_iff)
      then show ?thesis using 1 by simp
    next
      case 2
      have "even ?f" "even ((2 :: nat) ^ (m - 1))" using 2(2) assms(3) by (simp_all add: dvd_mod)
      from this(1) obtain i where i: "?f = 2 * i" by (rule evenE)
      from \<open>even ((2 :: nat) ^ (m - 1))\<close> obtain j where j: "(2 :: nat) ^ (m - 1) = 2 * j" by (rule evenE)
      have "2 * i < 2 * j" using lt i j by metis
      then have "2 * i + 2 \<le> 2 * j" by simp
      then have "?f + 2 \<le> 2 ^ (m - 1)" using i j by metis
      then have "(of_nat (?f + 2) :: rat) \<le> of_nat (2 ^ (m - 1))" by (simp only: of_nat_le_iff)
      then show ?thesis using 2 by simp
    qed
  qed
  show "(2 :: rat) ^ (m - 1) < of_nat ?f + T" if ge: "2 ^ (m - 1) \<le> ?f"
  proof -
    show ?thesis using pow_le_rat(1) [OF ge] assms(2) by linarith
  qed
qed

lemma half_pow: "0 < m \<Longrightarrow> (2 :: rat) ^ m / 2 = 2 ^ (m - 1)"
  by (cases m) simp_all

lemma frac_exact:
  assumes "tail_small Y T" "0 < T" "60 \<le> m" "Y mod 2 ^ m < 2 ^ 111" "t \<in> {1 / 4, 1 / 2, 3 / 4}"
  shows "frac_adjust (fadd quad (FNum s (of_nat (Y mod 2 ^ m))) (FNum s t)) = FNum s (of_nat (Y mod 2 ^ m) + t)
    \<and> same_half (2 ^ m) (of_nat (Y mod 2 ^ m) + T) (of_nat (Y mod 2 ^ m) + t)"
proof -
  define f where "f = Y mod 2 ^ m"
  have t: "0 < t" "t < 1" using assms(5) by auto
  obtain k :: nat where k: "t * 4 = of_nat k" "k \<le> 3"
  proof -
    have "t * 4 = of_nat 1 \<or> t * 4 = of_nat 2 \<or> t * 4 = of_nat 3" using assms(5) by auto
    then show ?thesis using that by fastforce
  qed
  have "fround quad s (of_nat f + t) = FNum s (of_nat f + t)"
    using k assms(4) by (intro fround_quad_exact [of _ "4 * f + k"]) (simp_all add: f_def)
  then have a: "fadd quad (FNum s (of_nat f)) (FNum s t) = FNum s (of_nat f + t)" using fadd_same [of "of_nat f" t quad s] t by simp
  have "\<lfloor>of_nat f + t\<rfloor> = int f" using t by (simp add: floor_eq_iff)
  then have b: "frac_adjust (FNum s (of_nat f + t)) = FNum s (of_nat f + t)" using t by (simp add: frac_adjust_def fzero_frem)
  have c: "same_half (2 ^ m) (of_nat f + T) (of_nat f + t)"
  proof -
    have m2: "2 \<le> m" "0 < m" using assms(3) by simp_all
    note h = frac_half [OF assms(1,2) m2(1), folded f_def]
    have ft: "of_nat f + t \<le> 2 ^ m + 2"
    proof -
      have "f \<le> 2 ^ m" unfolding f_def by (simp add: less_imp_le)
      then show ?thesis using pow_le_rat(2) [of f m] t by linarith
    qed
    show ?thesis
    proof (cases "f < 2 ^ (m - 1)")
      case True
      then have "f + 1 \<le> 2 ^ (m - 1)" by linarith
      then have "(of_nat (f + 1) :: rat) \<le> of_nat (2 ^ (m - 1))" by (simp only: of_nat_le_iff)
      then have "of_nat f + t < (2 :: rat) ^ (m - 1)" using t by simp
      then show ?thesis using h(1) [OF True] ft t unfolding same_half_def half_pow [OF m2(2)] by auto
    next
      case False
      then have "(2 :: rat) ^ (m - 1) < of_nat f + t" using pow_le_rat(1) [of "m - 1" f] t by linarith
      then show ?thesis using h(2) False ft t unfolding same_half_def half_pow [OF m2(2)] by auto
    qed
  qed
  show ?thesis unfolding f_def [symmetric] a b using c by simp
qed

lemma frac_round:
  assumes "tail_small Y T" "0 < T" "112 \<le> m" "m \<le> 113" "2 ^ (m - 1) \<le> Y mod 2 ^ m" "t \<in> {1 / 4, 1 / 2, 3 / 4}"
  shows "\<exists>p. frac_adjust (fadd quad (FNum False (of_nat (Y mod 2 ^ m))) (FNum False t)) = FNum False p
    \<and> same_half (2 ^ m) (of_nat (Y mod 2 ^ m) + T) p"
proof -
  define f where "f = Y mod 2 ^ m"
  have t: "0 < t" "t < 1" using assms(6) by auto
  have m2: "2 \<le> m" "0 < m" using assms(3) by simp_all
  have H: "(2 :: rat) ^ (m - 1) \<le> of_nat f"
    using pow_le_rat(1) [OF assms(5)] by (simp only: f_def)
  have M: "of_nat f + 1 \<le> (2 :: rat) ^ m"
  proof -
    have "f < 2 ^ m" by (simp add: f_def)
    then have "f + 1 \<le> 2 ^ m" by linarith
    then have "(of_nat (f + 1) :: rat) \<le> of_nat (2 ^ m)" by (simp only: of_nat_le_iff)
    then show ?thesis by simp
  qed
  have m113: "(2 :: rat) ^ m \<le> 2 ^ 113" by (rule power_increasing) (use assms(4) in simp_all)
  define x where "x = of_nat f + t"
  have x: "0 < x" "x < 2 ^ 113" "x < 2 ^ 114" "x \<le> of_nat (2 ^ m)" "of_nat f \<le> x" using t M m113 by (simp_all add: x_def)
  obtain y where y: "fround quad False x = FNum False y" "of_nat f \<le> y" "y \<le> of_nat (2 ^ m)"
    using quad_round_int [OF x(1,3), of False] x by blast
  have a: "fadd quad (FNum False (of_nat f)) (FNum False t) = FNum False y"
    using fadd_same [of "of_nat f" t quad False] t y(1) by (simp add: x_def)
  have t2: "(2 :: rat) ^ (m - 1) < of_nat f + T" using frac_half(2) [OF assms(1,2) m2(1) assms(5)] by (simp add: f_def)
  have y0: "0 \<le> y" using y(2) of_nat_0_le_iff [of f, where 'a = rat] by linarith
  show ?thesis
  proof (cases "y = of_int \<lfloor>y\<rfloor>")
    case False
    then have "y \<noteq> 2 ^ (m - 1)" by (metis floor_of_int of_int_numeral of_int_power)
    then have "2 ^ (m - 1) < y" using H y(2) by linarith
    moreover have "frac_adjust (FNum False y) = FNum False y" using False by (simp add: frac_adjust_def fzero_frem)
    ultimately show ?thesis
      using a y(3) y0 t2 unfolding f_def [symmetric] same_half_def half_pow [OF m2(2)] by (intro exI [of _ y]) simp
  next
    case True
    then obtain n where n: "y = of_nat n" using y0 by (metis nat_0_le of_int_of_nat_eq zero_le_floor)
    have x': "0 < y + 1" "y + 1 < 2 ^ 114" using y0 y(3) m113 by simp_all
    obtain z where z: "fround quad False (y + 1) = FNum False z"
      "\<And>n. even n \<or> y + 1 < 2 ^ 113 \<Longrightarrow> (of_nat n \<le> y + 1 \<longrightarrow> of_nat n \<le> z) \<and> (y + 1 \<le> of_nat n \<longrightarrow> z \<le> of_nat n)"
      using quad_round_int [OF x', of False] by blast
    have ev: "even ((2 :: nat) ^ m + 2)" using m2 by simp
    have "z \<le> of_nat (2 ^ m + 2)" using z(2) [OF disjI1, OF ev] y(3) by simp
    then have zM: "z \<le> 2 ^ m + 2" by simp
    have zH: "2 ^ (m - 1) < z"
    proof (cases "y + 1 < 2 ^ 113")
      case True
      have "of_nat (n + 1) \<le> z" using z(2) [OF disjI2, OF True, of "n + 1"] n by simp
      then have yz: "y + 1 \<le> z" using n by simp
      have "2 ^ (m - 1) < y + 1" using order_trans [OF H y(2)] by (rule le_less_trans) simp
      then show ?thesis using yz by (rule less_le_trans)
    next
      case False
      have "of_nat (2 ^ 113) \<le> z" using z(2) [of "2 ^ 113"] False by simp
      then have "2 ^ 113 \<le> z" by simp
      moreover have "(2 :: rat) ^ (m - 1) \<le> 2 ^ 112" by (rule power_increasing) (use assms(4) in simp_all)
      moreover have "(2 :: rat) ^ 112 < 2 ^ 113" by (rule power_strict_increasing) simp_all
      ultimately show ?thesis by (meson le_less_trans less_le_trans)
    qed
    have "fzero (frem (FNum False y) (ldf 1))" unfolding fzero_frem by (rule True)
    then have "frac_adjust (FNum False y) = FNum False z"
      using fadd_same [of y 1 quad False] y0 z(1) unfolding frac_adjust_def by (simp add: ldf_1)
    moreover have "0 \<le> z" using zH zero_le_power [of "2 :: rat" "m - 1"] by linarith
    ultimately show ?thesis
      using a zM zH t2 unfolding f_def [symmetric] same_half_def half_pow [OF m2(2)] by (intro exI [of _ z]) simp
  qed
qed

subsection \<open>Numbers below the smallest\<close>

lemma fround_tiny:
  assumes "0 \<le> w" "w \<le> 2 powi (least F - 1)" "1 \<le> mant F"
  shows "fround F neg w = FNum neg 0"
proof (cases "w = 0")
  case False
  then have w: "0 < w" using assms(1) by simp
  have "2 powi rexp w \<le> (2 :: rat) powi (least F - 1)" using rexp_bounds(1) [OF w] assms(2) by simp
  then have "rexp w \<le> least F - 1" unfolding powi_le_iff .
  then have l: "max (rexp w - mant F + 1) (least F) = least F" using assms(3) by simp
  define f where "f = w / 2 powi least F"
  have "f \<le> 1 / 2" using assms(2) powi_pos [of "least F"] by (simp add: f_def powi_minus field_simps)
  moreover have "0 \<le> f" using w powi_pos [of "least F"] by (simp add: f_def)
  ultimately have "rne (of_int 0 + f) = 0" by (subst rne_frac) auto
  then have "rne (w / 2 powi least F) = 0" by (simp add: f_def)
  then show ?thesis using fround_eq [OF w l, of neg] powi_pos [of "maxexp F"] by (simp add: not_le [symmetric])
qed simp

lemma fround_grid_eq:
  assumes "0 < V" "max (rexp V - mant F + 1) (least F) = l" "rne (V / 2 powi l) \<le> 2 ^ nat (mant F)" "0 < mant F"
  shows "fround F neg (of_int (rne (V / 2 powi l)) * 2 powi l) = fround F neg V"
proof -
  have "0 \<le> rne (V / 2 powi l)" using assms(1) powi_pos [of l] by (intro rne_ge) simp
  moreover have "least F \<le> l" using assms(2) by linarith
  ultimately show ?thesis
    using fround_grid [OF refl _ assms(3) _ assms(4), of l neg] fround_eq [OF assms(1,2), of neg] by simp
qed

subsection \<open>dec\_round rounds to nearest\<close>

definition narrow :: "fmt \<Rightarrow> bool" where
  "narrow F \<longleftrightarrow> F = single \<or> F = double"

lemma narrow: "narrow F \<Longrightarrow> 24 \<le> mant F \<and> mant F \<le> 53 \<and> -1074 \<le> least F \<and> least F \<le> -149 \<and> maxexp F \<le> 1024"
  by (auto simp: narrow_def single_def double_def)

lemma fscalb_double: "0 \<le> e \<Longrightarrow> e \<le> 225 \<Longrightarrow> fscalb double (FNum False 1) e = FNum False (2 ^ nat e)"
proof -
  assume e: "0 \<le> e" "e \<le> 225"
  have "(2 :: rat) powi e < 2 powi maxexp double" by (rule powi_smono) (use e in \<open>simp add: double_def\<close>)
  then have "fround double False (2 powi e) = FNum False (2 powi e)"
    using e by (intro fround_exact [of _ 1 e]) (simp_all add: double_def)
  moreover have "(2 :: rat) powi e = 2 ^ nat e" using e by (simp add: power_int_nonneg_exp)
  ultimately show ?thesis by (simp add: fscalb_def)
qed

lemma frem_pow: "frem (FNum s (of_nat Y)) (FNum False (2 ^ m)) = FNum s (of_nat (Y mod 2 ^ m))"
proof -
  have "\<lfloor>of_nat Y / (2 ^ m :: rat)\<rfloor> = int (Y div 2 ^ m)"
    using floor_divide_of_nat_eq [of Y "2 ^ m", where 'a = rat] by simp
  moreover have "(of_nat Y :: rat) = of_nat (Y div 2 ^ m * 2 ^ m + Y mod 2 ^ m)" by (simp only: div_mult_mod_eq)
  then have "(of_nat Y :: rat) - of_nat (Y div 2 ^ m) * 2 ^ m = of_nat (Y mod 2 ^ m)" by (simp only: of_nat_add of_nat_mult) simp
  ultimately show ?thesis by (simp add: frem_def)
qed

lemma quad_pow_exact:
  assumes "0 \<le> n" "n \<le> 2 ^ 113" "-16494 \<le> e" "e \<le> 16000"
  shows "fround quad s (of_int n * 2 powi e) = FNum s (of_int n * 2 powi e)"
proof -
  have "(of_int n :: rat) \<le> of_int (2 ^ 113)" using assms(2) by (simp only: of_int_le_iff)
  then have "(of_int n :: rat) \<le> 2 powi 113" by simp
  then have "of_int n * 2 powi e \<le> 2 powi 113 * (2 :: rat) powi e" using powi_pos [of e] by (intro mult_right_mono) simp_all
  also have "\<dots> = 2 powi (113 + e)" by (rule powi_plus [symmetric])
  also have "\<dots> < 2 powi maxexp quad" by (rule quad_max) (use assms(4) in simp)
  finally show ?thesis using assms by (intro fround_exact [OF refl]) simp_all
qed

lemma tail_frac_add:
  assumes "ring_is r L" "4 < length L" "length L < 2047" "last L \<noteq> 0"
  shows "\<exists>t \<in> {1 / 4, 1 / 2, 3 / 4}. tail_frac r sign fr = fadd quad fr (FNum (sign < 0) t)"
proof -
  have x: "rx r ((ra r + 4) mod KMAX) = L ! 4" using assms(1,2) by (simp add: ring_is_def)
  have z: "(ra r + 5) mod KMAX \<noteq> rz r \<longleftrightarrow> length L \<noteq> 5"
    using assms(1,3) ix_eq_iff [of 5 "length L" "ra r"] by (auto simp: ring_is_def)
  have nz: "L ! 4 \<noteq> 0" if "length L = 5" using assms(4) that last_conv_nth [of L] by (cases L) auto
  consider "L ! 4 < 500000000" | "500000000 < L ! 4" | "L ! 4 = 500000000" by linarith
  then show ?thesis using nz by cases (auto simp: tail_frac_def Let_def x z)
qed

lemma ring_tail: "ring_is r L \<Longrightarrow> 4 \<le> length L \<Longrightarrow> (ra r + 4) mod KMAX = rz r \<longleftrightarrow> length L = 4"
  using ix_eq_iff [of 4 "length L" "ra r"] by (auto simp: ring_is_def)

definition frac_of :: "ring \<Rightarrow> int \<Rightarrow> fp \<Rightarrow> fp" where
  "frac_of r sign fr = (if (ra r + 4) mod KMAX \<noteq> rz r then frac_adjust (tail_frac r sign fr) else fr)"

lemma frac_spec:
  assumes "ring_is r L" "4 \<le> length L" "length L < 2047" "length L = 4 \<or> last L \<noteq> 0"
    and "tail_small Y (vl (drop 4 L))" "2 ^ 112 \<le> Y" "Y < 2 ^ 113" "b \<le> 53" "sign < 0 \<Longrightarrow> 2 \<le> b"
  shows "\<exists>p. frac_of r sign (FNum (sign < 0) (of_nat (Y mod 2 ^ (113 - b)))) = FNum (sign < 0) p
    \<and> same_half (2 ^ (113 - b)) (of_nat (Y mod 2 ^ (113 - b)) + vl (drop 4 L)) p"
proof (cases "length L = 4")
  case True
  have "Y mod 2 ^ (113 - b) < 2 ^ (113 - b)" by simp
  then have "(of_nat (Y mod 2 ^ (113 - b)) :: rat) \<le> 2 ^ (113 - b)" by (intro pow_le_rat(2)) simp
  then have "(of_nat (Y mod 2 ^ (113 - b)) :: rat) \<le> 2 ^ (113 - b) + 2" by linarith
  then have "same_half (2 ^ (113 - b)) (of_nat (Y mod 2 ^ (113 - b))) (of_nat (Y mod 2 ^ (113 - b)))"
    by (simp add: same_half_def)
  then show ?thesis using True ring_tail [OF assms(1,2)] by (simp add: frac_of_def)
next
  case False
  then have len: "4 < length L" "last L \<noteq> 0" using assms(2,4) by simp_all
  have T0: "0 < vl (drop 4 L)"
    using len last_in_set [of "drop 4 L"] by (intro vl_pos bexI [of _ "last L"]) (simp_all add: last_drop)
  define f where "f = Y mod 2 ^ (113 - b)"
  obtain t where t: "t \<in> {1 / 4, 1 / 2, 3 / 4}"
      "tail_frac r sign (FNum (sign < 0) (of_nat f)) = fadd quad (FNum (sign < 0) (of_nat f)) (FNum (sign < 0) t)"
    using tail_frac_add [OF assms(1) len(1) assms(3) len(2)] by blast
  have fo: "frac_of r sign (FNum (sign < 0) (of_nat f)) = frac_adjust (fadd quad (FNum (sign < 0) (of_nat f)) (FNum (sign < 0) t))"
    using len ring_tail [OF assms(1,2)] t(2) by (simp add: frac_of_def)
  have m: "60 \<le> 113 - b" using assms(8) by simp
  show ?thesis
  proof (cases "f < 2 ^ 111")
    case True
    show ?thesis
      using frac_exact [OF assms(5) T0 m True [unfolded f_def] t(1)] unfolding fo [unfolded f_def] by blast
  next
    case big: False
    have b: "b < 2"
    proof (rule ccontr)
      assume "\<not> b < 2"
      then have "(2 :: nat) ^ (113 - b) \<le> 2 ^ 111" by (intro power_increasing) simp_all
      moreover have "f < 2 ^ (113 - b)" by (simp add: f_def)
      ultimately show False using big by linarith
    qed
    then have pos: "\<not> sign < 0" using assms(9) by force
    have b01: "b = 0 \<or> b = 1" using b by linarith
    then have "2 ^ (113 - b - 1) \<le> f" using big assms(6,7) by (auto simp: f_def)
    then show ?thesis
      using frac_round [OF assms(5) T0 _ _ _ t(1), of "113 - b"] b01 pos unfolding fo [unfolded f_def] f_def by auto
  qed
qed

lemma tail_below:
  assumes "tail_small Y T" "Y < 2 ^ n"
  shows "of_nat Y + T < 2 ^ n \<or> n = 0"
proof -
  consider "T < 1" | "T < 2" "even Y" using assms(1) by (auto simp: tail_small_def)
  then show ?thesis
  proof cases
    case 1
    have "Y + 1 \<le> 2 ^ n" using assms(2) by simp
    then have "(of_nat (Y + 1) :: rat) \<le> 2 ^ n" by (rule pow_le_rat(2))
    then show ?thesis using 1 by simp
  next
    case 2
    have "Y + 2 \<le> 2 ^ n" if "0 < n" using assms(2) 2(2) that by (cases n) (auto elim!: evenE)
    then have "(of_nat (Y + 2) :: rat) \<le> 2 ^ n" if "0 < n" using that by (intro pow_le_rat(2)) simp
    then show ?thesis using 2(1) by fastforce
  qed
qed

lemma tail_below_113: "tail_small Y T \<Longrightarrow> Y < 2 ^ 113 \<Longrightarrow> of_nat Y + T < 2 ^ 113"
  using tail_below [of Y T 113] by simp

lemma tail_top:
  assumes "tail_small Y T" "2 ^ 112 \<le> of_nat Y + T"
  shows "2 ^ 112 \<le> Y"
  using tail_below [OF assms(1), of 112] assms(2) by (cases "Y < 2 ^ 112") auto

text \<open>The value before it is scaled: the bits below the last place are rounded by way of the bias.\<close>

definition biased :: "nat \<Rightarrow> bool \<Rightarrow> nat \<Rightarrow> fp \<Rightarrow> fp" where
  "biased b neg Y fr1 =
     (let bias = FNum neg (2 ^ (225 - b)); fr = FNum neg (of_nat (Y mod 2 ^ (113 - b)))
      in fsub quad (fadd quad (fadd quad (fsub quad (FNum neg (of_nat Y)) fr) bias) fr1) bias)"

lemma biased_spec:
  assumes "tail_small Y T" "2 ^ 112 \<le> Y" "Y < 2 ^ 113" "b \<le> 53" "neg \<Longrightarrow> 1 \<le> b"
    and "same_half (2 ^ (113 - b)) (of_nat (Y mod 2 ^ (113 - b)) + T) p"
  shows "biased b neg Y (FNum neg p) = FNum neg (of_int (rne ((of_nat Y + T) / 2 ^ (113 - b))) * 2 ^ (113 - b))"
    and "0 \<le> rne ((of_nat Y + T) / 2 ^ (113 - b))" "rne ((of_nat Y + T) / 2 ^ (113 - b)) \<le> 2 ^ b"
    and "of_nat Y + T < 2 ^ 113"
proof -
  define m where "m = 113 - b"
  define f where "f = Y mod 2 ^ m"
  define q where "q = Y div 2 ^ m"
  define B :: nat where "B = 2 ^ (225 - b)"
  define R where "R = rne ((of_nat Y + T) / 2 ^ m)"
  have T: "0 \<le> T" "0 \<le> p" using assms(1,6) by (simp_all add: tail_small_def same_half_def)
  have m: "60 \<le> m" "m + b = 113" "225 - b = 112 + m" using assms(4) by (simp_all add: m_def)
  have Y: "Y - f = q * 2 ^ m" "f \<le> Y" by (simp_all add: f_def q_def minus_mod_eq_div_mult)
  have BR: "(of_nat B :: rat) = 2 ^ (225 - b)" by (simp add: B_def)
  have yl: "of_nat Y + T < 2 ^ 113" by (rule tail_below_113 [OF assms(1,3)])
  then show "of_nat Y + T < 2 ^ 113" .
  have "(of_nat Y + T) / 2 ^ m \<ge> of_int 0" using T by simp
  then have R0: "0 \<le> R" unfolding R_def by (rule rne_ge)
  have "2 ^ 113 = (2 :: rat) ^ b * 2 ^ m" using m(2) by (metis add.commute power_add)
  then have "(of_nat Y + T) / 2 ^ m \<le> of_int (2 ^ b)" using yl by (simp add: divide_le_eq)
  then have Rb: "R \<le> 2 ^ b" unfolding R_def by (rule rne_le)
  have ex: "fround quad s (of_nat k * 2 ^ m) = FNum s (of_nat k * 2 ^ m)" if "k \<le> 2 ^ 113" for k s
    using quad_pow_exact [of "int k" "int m" s] that m(2) by (simp add: power_int_of_nat)
  have fY: "f < Y" if "1 \<le> b"
  proof -
    have "f < 2 ^ m" by (simp add: f_def)
    also have "\<dots> \<le> (2 :: nat) ^ 112" by (rule power_increasing) (use m(2) that in simp_all)
    finally show ?thesis using assms(2) by linarith
  qed
  have q113: "q < 2 ^ 53"
  proof (rule ccontr)
    assume "\<not> q < 2 ^ 53"
    then have "2 ^ 53 * 2 ^ 60 \<le> q * 2 ^ m" using m(1) by (intro mult_mono power_increasing) simp_all
    then show False using Y assms(3) by simp
  qed
  have y1: "fsub quad (FNum neg (of_nat Y)) (FNum neg (of_nat f)) = (if Y = f then FNum False 0 else FNum neg (of_nat (Y - f)))"
    using Y(2) assms(3) fround_quad_int [of "Y - f" neg] by (auto simp: fsub_self fsub_same of_nat_diff)
  have Bm: "Y - f + B = (q + 2 ^ 112) * 2 ^ m" unfolding Y(1) B_def m(3) by (simp add: power_add algebra_simps)
  have "(if Y = f then FNum False 0 else FNum neg (of_nat (Y - f))) = FNum neg (of_nat (Y - f))"
    using fY assms(5) by (cases neg) auto
  moreover have "fround quad neg (of_nat (Y - f) + of_nat B) = FNum neg (of_nat (Y - f + B))"
    unfolding of_nat_add [symmetric] Bm using ex [of "q + 2 ^ 112"] q113 by simp
  ultimately have y2: "fadd quad (if Y = f then FNum False 0 else FNum neg (of_nat (Y - f))) (FNum neg (of_nat B)) = FNum neg (of_nat (Y - f + B))"
    by (simp add: fadd_same)
  have y3: "fadd quad (FNum neg (of_nat (Y - f + B))) (FNum neg p) = FNum neg (of_nat B + of_int R * 2 ^ m)"
  proof -
    have "fadd quad (FNum neg (of_nat (Y - f + B))) (FNum neg p) = fround quad neg (of_nat (Y - f + B) + p)"
      using T by (intro fadd_same) simp_all
    also have "\<dots> = fround quad neg (of_nat (Y - f) + of_nat B + p)" by (simp only: of_nat_add)
    also have "\<dots> = FNum neg (of_nat B + of_int R * 2 ^ m)"
      unfolding BR f_def m_def R_def by (rule round_core [OF assms(4,3,1,6)])
    finally show ?thesis .
  qed
  have y4: "fsub quad (FNum neg (of_nat B + of_int R * 2 ^ m)) (FNum neg (of_nat B)) = FNum neg (of_int R * 2 ^ m)"
  proof (cases "R = 0")
    case True
    have "\<not> neg"
    proof
      assume neg
      then have "m \<le> 112" using assms(5) m(2) by simp
      then have "(2 :: rat) ^ m \<le> 2 ^ 112" by (intro power_increasing) simp_all
      moreover have "(2 :: rat) ^ 112 \<le> of_nat Y" using assms(2) by (rule pow_le_rat(1))
      ultimately have "of_int 1 \<le> (of_nat Y + T) / 2 ^ m" using T by simp
      then have "1 \<le> R" unfolding R_def by (rule rne_ge)
      then show False using True by simp
    qed
    then show ?thesis using True by (simp add: fsub_self)
  next
    case False
    have "nat R \<le> 2 ^ b" using Rb by (simp add: nat_le_iff)
    also have "(2 :: nat) ^ b \<le> 2 ^ 113" by (rule power_increasing) (use assms(4) in simp_all)
    finally have "fround quad neg (of_int R * 2 ^ m) = FNum neg (of_int R * 2 ^ m)" using ex [of "nat R" neg] R0 by simp
    moreover have "of_nat B < of_nat B + of_int R * (2 :: rat) ^ m" using False R0 by simp
    ultimately show ?thesis by (simp add: fsub_same)
  qed
  show "biased b neg Y (FNum neg p) = FNum neg (of_int (rne ((of_nat Y + T) / 2 ^ (113 - b))) * 2 ^ (113 - b))"
    using y1 y2 y3 y4 by (simp add: biased_def Let_def BR m_def [symmetric] f_def [symmetric] R_def [symmetric])
  show "0 \<le> rne ((of_nat Y + T) / 2 ^ (113 - b))" "rne ((of_nat Y + T) / 2 ^ (113 - b)) \<le> 2 ^ b"
    using R0 Rb by (simp_all add: R_def m_def)
qed

definition bits_of :: "int \<Rightarrow> int \<Rightarrow> int \<Rightarrow> nat" where
  "bits_of bits0 emin e2 = nat (if bits0 > 113 + e2 - emin then max 0 (113 + e2 - emin) else bits0)"

text \<open>Scaled in one step or halved first, the result is the same.\<close>

definition scaled :: "bool \<Rightarrow> fp \<Rightarrow> int \<Rightarrow> fp" where
  "scaled c y e2 =
     (if c \<and> fge (fabs y) (FNum False (2 ^ 113)) then fscalb quad (fmul quad y (FNum False (1 / 2))) (e2 + 1)
      else fscalb quad y e2)"

lemma dec_round_eq:
  assumes "0 \<le> bits0" "bits0 \<le> 53" "sign = 1 \<or> sign = -1" "Y < 2 ^ 113" "b = bits_of bits0 emin (re2 r)"
  shows "\<exists>c. fst (dec_round bits0 emin sign r (FNum False (of_nat Y)) en)
    = scaled c (biased b (sign < 0) Y (frac_of r sign (FNum (sign < 0) (of_nat (Y mod 2 ^ (113 - b)))))) (re2 r)"
proof -
  define bits where "bits = (if bits0 > 113 + re2 r - emin then max 0 (113 + re2 r - emin) else bits0)"
  have b: "bits = int b" "b \<le> 53" using assms(1,2,5) by (auto simp: bits_def bits_of_def)
  have y: "fmul quad (FNum False (of_nat Y)) (ldf sign) = FNum (sign < 0) (of_nat Y)"
    using assms(3) fround_quad_int [of Y] fround_quad_int [of 1] assms(4) by (auto simp: fmul_def of_intf_def)
  have s: "fscalb double (FNum False 1) (113 - bits) = FNum False (2 ^ (113 - b))"
    "fscalb double (FNum False 1) (2 * 113 - bits - 1) = FNum False (2 ^ (225 - b))"
    using fscalb_double [of "113 - bits"] fscalb_double [of "225 - bits"] b by (simp_all add: nat_diff_distrib')
  have c: "fcopysign (FNum False x) (FNum s v) = FNum s x" for x s v by (simp add: fcopysign_def)
  have l: "bits < 113" "113 - bits \<ge> 2" using b by simp_all
  show ?thesis
    unfolding dec_round_def Let_def bits_def [symmetric] y s c frem_pow if_P [OF l(1)]
      biased_def frac_of_def frac_adjust_def scaled_def
    using l(2) by (auto simp: Let_def cong: if_cong)
qed

lemma scaled_spec:
  assumes "0 \<le> R" "R \<le> 2 ^ b" "b + m = 113" "-16000 \<le> e2" "e2 \<le> 15000"
  shows "scaled c (FNum neg (of_int R * 2 ^ m)) e2 = FNum neg (of_int R * 2 powi (int m + e2))"
proof -
  have R: "R \<le> 2 ^ 113"
  proof -
    have "(2 :: int) ^ b \<le> 2 ^ 113" by (rule power_increasing) (use assms(3) in simp_all)
    then show ?thesis using assms(2) by linarith
  qed
  have q: "fround quad s (of_int R * 2 powi e) = FNum s (of_int R * 2 powi e)" if "-16494 \<le> e" "e \<le> 16000" for e s
    by (rule quad_pow_exact) (use assms(1) R that in simp_all)
  have mm: "of_int R * 2 ^ m = of_int R * (2 :: rat) powi int m" by (simp add: power_int_of_nat)
  have half: "of_int R * 2 powi int m / 2 = of_int R * (2 :: rat) powi (int m - 1)" by (simp add: powi_minus)
  have "fmul quad (FNum neg (of_int R * 2 powi int m)) (FNum False (1 / 2)) = FNum neg (of_int R * 2 powi (int m - 1))"
  proof -
    have "fmul quad (FNum neg x) (FNum False (1 / 2)) = fround quad neg (x / 2)" for x by (simp add: fmul_def)
    moreover have "fround quad neg (of_int R * 2 powi (int m - 1)) = FNum neg (of_int R * 2 powi (int m - 1))"
      by (rule q) (use assms(3) in simp_all)
    ultimately show ?thesis by (simp only: half)
  qed
  moreover have g: "fscalb quad (FNum neg (of_int R * 2 powi a)) e = FNum neg (of_int R * 2 powi (int m + e2))" if "a + e = int m + e2" for a e
    using q [of "int m + e2" neg] that [symmetric] assms(3-5) by (simp add: fscalb_def powi_plus mult.assoc)
  ultimately show ?thesis
    unfolding scaled_def mm using g [of "int m" e2] g [of "int m - 1" "e2 + 1"] by (simp del: power_int_of_nat)
qed

lemma dec_round_spec:
  assumes "narrow F" "ring_is r L" "4 \<le> length L" "length L < 2047" "length L = 4 \<or> last L \<noteq> 0"
    and "tail_small Y (vl (drop 4 L))" "2 ^ 112 \<le> Y" "Y < 2 ^ 113" "sign = 1 \<or> sign = -1"
    and "sign < 0 \<Longrightarrow> least F + 2 \<le> re2 r + 113" "-15000 \<le> re2 r" "re2 r \<le> 15000"
  shows "fconv F (fst (dec_round (mant F) (least F) sign r (FNum False (of_nat Y)) en))
    = fround F (sign < 0) ((of_nat Y + vl (drop 4 L)) * 2 powi re2 r)"
proof -
  note F = narrow [OF assms(1)]
  define e2 where "e2 = re2 r"
  define b where "b = bits_of (mant F) (least F) e2"
  define m where "m = 113 - b"
  define T where "T = vl (drop 4 L)"
  define V where "V = (of_nat Y + T) * 2 powi e2"
  define R where "R = rne ((of_nat Y + T) / 2 ^ m)"
  have b: "b \<le> 53" using F by (auto simp: b_def bits_of_def)
  have bm: "b + m = 113" using b by (simp add: m_def)
  have nb: "2 \<le> b" if "sign < 0" using assms(10) that F by (auto simp: b_def bits_of_def e2_def)
  obtain p where p: "frac_of r sign (FNum (sign < 0) (of_nat (Y mod 2 ^ (113 - b)))) = FNum (sign < 0) p"
      "same_half (2 ^ (113 - b)) (of_nat (Y mod 2 ^ (113 - b)) + T) p"
    using frac_spec [OF assms(2-8) b nb] unfolding T_def by blast
  have s: "biased b (sign < 0) Y (FNum (sign < 0) p) = FNum (sign < 0) (of_int R * 2 ^ m)" "0 \<le> R" "R \<le> 2 ^ b"
      "of_nat Y + T < 2 ^ 113"
    using biased_spec [OF assms(6) [folded T_def] assms(7,8) b _ p(2), of "sign < 0"] nb
    by (force simp: R_def m_def)+
  have "mant F \<le> 53" "0 \<le> mant F" using F by simp_all
  then obtain c where "fst (dec_round (mant F) (least F) sign r (FNum False (of_nat Y)) en) = scaled c (FNum (sign < 0) (of_int R * 2 ^ m)) e2"
    using dec_round_eq [OF _ _ assms(9,8), of "mant F" b "least F" r en] s(1) p(1) by (auto simp: b_def e2_def)
  also have "\<dots> = FNum (sign < 0) (of_int R * 2 powi (int m + e2))"
    by (rule scaled_spec [OF s(2,3) bm]) (use assms(11,12) in \<open>simp_all add: e2_def\<close>)
  finally have d: "fconv F (fst (dec_round (mant F) (least F) sign r (FNum False (of_nat Y)) en))
      = fround F (sign < 0) (of_int R * 2 powi (int m + e2))"
    by (simp add: fconv_def)
  have "0 \<le> T" using assms(6) by (simp add: T_def tail_small_def)
  moreover have "(2 :: rat) ^ 112 \<le> of_nat Y" using assms(7) by (rule pow_le_rat(1))
  ultimately have Y0: "(2 :: rat) ^ 112 \<le> of_nat Y + T" by linarith
  have Vq: "V / 2 powi (int m + e2) = (of_nat Y + T) / 2 ^ m" by (simp add: V_def powi_plus power_int_of_nat)
  have V0: "0 < V" using Y0 powi_pos [of e2] by (simp add: V_def)
  have Vle: "V < 2 powi (113 + e2)" "2 powi (112 + e2) \<le> V"
    using Y0 s(4) powi_pos [of e2] by (simp_all add: V_def powi_plus)
  have "fround F (sign < 0) (of_int R * 2 powi (int m + e2)) = fround F (sign < 0) V"
  proof (cases "113 + e2 < least F")
    case True
    then have b0: "b = 0" using F by (simp add: b_def bits_of_def)
    have w: "2 powi (113 + e2) \<le> (2 :: rat) powi (least F - 1)" using True by (intro powi_mono) simp
    have "of_int R * (2 :: rat) powi (113 + e2) \<le> 1 * 2 powi (113 + e2)"
      using s(3) b0 powi_pos [of "113 + e2"] by (intro mult_right_mono) simp_all
    also have "\<dots> \<le> 2 powi (least F - 1)" using w by simp
    finally have "of_int R * (2 :: rat) powi (113 + e2) \<le> 2 powi (least F - 1)" .
    moreover have "0 \<le> of_int R * (2 :: rat) powi (113 + e2)" using s(2) powi_pos [of "113 + e2"] by simp
    ultimately have "fround F (sign < 0) (of_int R * 2 powi (113 + e2)) = FNum (sign < 0) 0"
      using F by (intro fround_tiny) simp_all
    moreover have "fround F (sign < 0) V = FNum (sign < 0) 0" using V0 Vle(1) w F by (intro fround_tiny) simp_all
    moreover have "int m = 113" using bm b0 by simp
    ultimately show ?thesis by simp
  next
    case False
    have rx: "rexp V = 112 + e2" by (rule rexp_eqI) (use V0 Vle in simp_all)
    have "max (rexp V - mant F + 1) (least F) = int m + e2"
    proof (cases "mant F > 113 + e2 - least F")
      case True
      then have "int b = 113 + e2 - least F" using False by (simp add: b_def bits_of_def)
      then show ?thesis using bm True unfolding rx by simp
    next
      case False
      then have "int b = mant F" using F by (simp add: b_def bits_of_def)
      then show ?thesis using bm False unfolding rx by simp
    qed
    moreover have "rne (V / 2 powi (int m + e2)) \<le> 2 ^ nat (mant F)"
    proof -
      have "b \<le> nat (mant F)" using F by (auto simp: b_def bits_of_def)
      then have "(2 :: int) ^ b \<le> 2 ^ nat (mant F)" by (intro power_increasing) simp_all
      then show ?thesis using s(3) unfolding Vq R_def by linarith
    qed
    ultimately show ?thesis
      using fround_grid_eq [OF V0, of F "int m + e2" "sign < 0"] F unfolding Vq R_def by simp
  qed
  then show ?thesis unfolding d V_def T_def e2_def .
qed

end
