(* ===== verification/FloatDec.thy ===== *)
theory FloatDec
  imports FloatRound
begin

text \<open>
  The decimal conversion of \<^verbatim>\<open>src/floatscan.c\<close> as a whole: what the digits mean (\<open>digs\<close>), the path through
  the ring of limbs, the short cuts, and the theorem that a decimal numeral is rounded to nearest.
\<close>

subsection \<open>The path through the ring\<close>

text \<open>
  The padding with zero limbs would store before the ring: the four limbs lie across its end, and the number
  has fewer than four.
\<close>

definition wraps :: "rat \<Rightarrow> int \<Rightarrow> bool" where
  "wraps V p \<longleftrightarrow> (\<exists>t m :: nat. (p + 8) div 9 \<in> {0, 1, 2} \<and> V * 2 ^ t = 5 ^ nat (9 * ((p + 8) div 9 + 1)) * of_nat m)"

lemma pads_ok_wraps:
  assumes "rinv ((p + 8) div 9 mod 2048) V r L" "rp r = 36" "-1320 \<le> p" "p \<le> 560" "\<not> wraps V p"
  shows "pads_ok r L"
  unfolding pads_ok_def
proof (intro allI impI notI)
  fix j
  assume j: "length L \<le> j \<and> j < 4" and w: "(ra r + j) mod KMAX = 2047"
  define c where "c = (p + 8) div 9"
  have L: "0 < length L" "vl L * 10 ^ 36 * 2 powi re2 r = V" using assms(1,2) by (auto simp: rinv_def limbs_ok_def)
  have "(int (ra r) + 4) mod 2048 = c mod 2048" using assms(1,2) by (simp add: rinv_def c_def)
  moreover have "(int (ra r) + int j) mod 2048 = 2047 mod 2048"
    using w by (metis mod_mod_trivial of_nat_add of_nat_numeral zmod_int)
  ultimately have "2048 dvd (int (ra r) + 4 - c) - (int (ra r) + int j - 2047)"
    unfolding mod_eq_dvd_iff by (rule dvd_diff)
  then have "2048 dvd 2051 - int j - c" by (simp add: algebra_simps)
  then obtain d where d: "2051 - int j - c = 2048 * d" by (rule dvdE)
  have "-146 \<le> c" "c \<le> 63" using assms(3,4) by (simp_all add: c_def)
  then have "0 < d" "d < 2" using d j by simp_all
  then have c: "c = 3 - int j" using d by simp
  define k where "k = nat (9 * (c + 1))"
  have "int k = 36 - 9 * int j" using c j by (simp add: k_def)
  then have k: "9 * length L + k \<le> 36" using j by linarith
  define q where "q = 36 - 9 * length L"
  have q: "9 * length L + q = 36" "k \<le> q" using k by (simp_all add: q_def)
  have "vl L * 10 ^ 36 = vl L * 10 ^ (9 * length L) * 10 ^ q" by (simp add: q(1) [symmetric] power_add)
  also have "vl L * 10 ^ (9 * length L) = of_nat (lead (length L) L)" using vl_lead [of L "length L"] by simp
  also have "(10 :: rat) ^ q = of_nat (5 ^ q * 2 ^ q)" by (simp add: power_mult_distrib [symmetric])
  also have "(5 :: nat) ^ q = 5 ^ k * 5 ^ (q - k)" using q(2) by (simp add: power_add [symmetric])
  finally have v: "V = 5 ^ k * of_nat (lead (length L) L * 5 ^ (q - k) * 2 ^ q) * 2 powi re2 r"
    using L(2) by (simp add: algebra_simps)
  have "0 < length L" using L(1) by simp
  then have "c = 0 \<or> c = 1 \<or> c = 2" using c j by linarith
  then have W: "wraps V p" if "V * 2 ^ t = 5 ^ k * of_nat m" for t m
    using that unfolding wraps_def c_def [symmetric] k_def by blast
  have "wraps V p"
  proof (cases "0 \<le> re2 r")
    case True
    then have "2 powi re2 r = (of_nat (2 ^ nat (re2 r)) :: rat)" by (simp add: power_int_nonneg_exp)
    then have "V * 2 ^ 0 = 5 ^ k * of_nat (lead (length L) L * 5 ^ (q - k) * 2 ^ q * 2 ^ nat (re2 r))" unfolding v by simp
    then show ?thesis by (rule W)
  next
    case False
    then have "(2 :: rat) powi (re2 r + - re2 r) = 2 powi re2 r * 2 ^ nat (- re2 r)"
      unfolding powi_plus by (simp add: power_int_nonneg_exp)
    then have "V * 2 ^ nat (- re2 r) = 5 ^ k * of_nat (lead (length L) L * 5 ^ (q - k) * 2 ^ q)" unfolding v by simp
    then show ?thesis by (rule W)
  qed
  then show False using assms(5) by simp
qed

lemma pow10_le: "(10 :: rat) ^ n \<le> 2 ^ (4 * n)"
proof -
  have "(10 :: rat) ^ n \<le> 16 ^ n" by (rule power_mono) simp_all
  then show ?thesis by (simp add: power_mult)
qed

lemma powi10_less: "p \<le> int n \<Longrightarrow> (10 :: rat) powi p \<le> 2 powi int (4 * n)"
  using order_trans [OF powi10_mono [of p "int n"]] pow10_le [of n] by (simp only: power_int_of_nat)

lemma powi10_greater: "- int n \<le> p \<Longrightarrow> (2 :: rat) powi - int (4 * n) \<le> 10 powi p"
proof -
  assume "- int n \<le> p"
  then have "10 powi - int n \<le> (10 :: rat) powi p" by (rule powi10_mono)
  moreover have "inverse ((2 :: rat) ^ (4 * n)) \<le> inverse (10 ^ n)" using pow10_le [of n] by (rule le_imp_inverse_le) simp
  ultimately show ?thesis by (simp only: power_int_minus power_int_of_nat)
qed

lemma ring_path:
  assumes "narrow F" "ra r = 0" "re2 r = 0" "rz r = length L" "length L \<le> 1500" "\<forall>i < length L. rx r i = L ! i"
    "limbs_ok L" "\<forall>v \<in> set L. v < B1B" "last L \<noteq> 0" "-1300 \<le> rp r" "rp r \<le> 560"
    and V: "V = vl L * 10 powi rp r" "10 powi (rp r - 1) \<le> V" "V < 10 powi rp r" "\<not> wraps V (rp r)"
    and sign: "sign = 1 \<or> sign = -1" "sign < 0 \<Longrightarrow> 2 powi (least F + 1) \<le> V"
  shows "\<exists>r1 r2 r3 y. upscale (align r) = Some r1 \<and> downscale r1 = Some r2 \<and> assemble [0, 1, 2, 3] r2 (FNum False 0) = Some (r3, y)
    \<and> fconv F (fst (dec_round (mant F) (least F) sign r3 y en)) = fround F (sign < 0) V"
proof -
  have rp: "-1320 \<le> rp r" using assms(10) by simp
  obtain r1 r2 L2 where up: "upscale (align r) = Some r1" and down: "downscale r1 = Some r2"
    and inv: "rinv ((rp r + 8) div 9 mod 2048) V r2 L2" "rp r2 = 36" and top: "2 ^ 112 \<le> vl L2 * 10 ^ 36"
    and len: "lead 4 L2 < 2 ^ 113" "length L2 < 2047"
    using scale_spec [OF assms(2-9) rp assms(11)] unfolding V(1) [symmetric] by blast
  have L2: "ring_is r2 L2" "okl L2" "last L2 \<noteq> 0 \<or> length L2 \<le> 2" "vl L2 * 10 ^ 36 * 2 powi re2 r2 = V"
    using inv by (auto simp: rinv_def limbs_ok_def)
  have pads: "pads_ok r2 L2" by (rule pads_ok_wraps [OF inv rp assms(11) V(4)])
  obtain r3 L3 where as: "assemble [0, 1, 2, 3] r2 (FNum False 0) = Some (r3, FNum False (of_nat (lead 4 L2)))"
    and r3: "ring_is r3 L3" "re2 r3 = re2 r2" "4 \<le> length L3" "drop 4 L3 = drop 4 L2" "length L3 \<noteq> 4 \<longrightarrow> L3 = L2"
    using assemble_spec [OF L2(1) len(2) pads L2(2) len(1)] by blast
  have s: "vl L2 * 10 ^ 36 = of_nat (lead 4 L2) + vl (drop 4 L3)" using vl_lead [of L2 4] r3(4) by simp
  have small: "tail_small (lead 4 L2) (vl (drop 4 L3))"
  proof (cases "length L2 < 4")
    case True
    then show ?thesis using r3(4) by (simp add: tail_small_def)
  next
    case False
    then show ?thesis using tail_small [OF L2(2)] r3(4) by simp
  qed
  have Y: "2 ^ 112 \<le> lead 4 L2"
    by (rule tail_top [OF small]) (use top s in simp)
  have l3: "length L3 < 2047" "length L3 = 4 \<or> last L3 \<noteq> 0" using r3(3,5) len(2) L2(3) by (cases "length L3 = 4"; auto)+
  have V113: "V < 2 powi (113 + re2 r3)" "2 powi (112 + re2 r3) \<le> V"
  proof -
    have "of_nat (lead 4 L2) + vl (drop 4 L3) < 2 ^ 113" by (rule tail_below_113 [OF small len(1)])
    then show "V < 2 powi (113 + re2 r3)" "2 powi (112 + re2 r3) \<le> V"
      using top s L2(4) powi_pos [of "re2 r3"] unfolding r3(2) powi_plus by auto
  qed
  have e2: "-15000 \<le> re2 r3" "re2 r3 \<le> 15000"
  proof -
    have "2 powi (112 + re2 r3) < (2 :: rat) powi 2240" using V113(2) V(3) powi10_less [of "rp r" 560] assms(11) by simp
    then show "re2 r3 \<le> 15000" unfolding powi_less_iff by simp
    have "(2 :: rat) powi (-5280) < 2 powi (113 + re2 r3)" using V113(1) V(2) powi10_greater [of 1320 "rp r - 1"] assms(10) by simp
    then show "-15000 \<le> re2 r3" unfolding powi_less_iff by simp
  qed
  have neg: "least F + 2 \<le> re2 r3 + 113" if "sign < 0"
  proof -
    have "2 powi (least F + 1) < (2 :: rat) powi (113 + re2 r3)" using sign(2) [OF that] V113(1) by linarith
    then show ?thesis unfolding powi_less_iff by simp
  qed
  have "fconv F (fst (dec_round (mant F) (least F) sign r3 (FNum False (of_nat (lead 4 L2))) en)) = fround F (sign < 0) V"
    using dec_round_spec [OF assms(1) r3(1,3) l3 small Y len(1) sign(1) neg e2] s L2(4) r3(2) by simp
  then show ?thesis using up down as by blast
qed

subsection \<open>The digits\<close>

text \<open>\<open>st\<close> holds the number \<open>N\<close> of \<open>n\<close> digits, the first of them not zero.\<close>

definition digs :: "dscan \<Rightarrow> nat \<Rightarrow> nat \<Rightarrow> bool" where
  "digs st N n \<longleftrightarrow> 9 * dk st + dj st = n \<and> dj st < 9 \<and> dc st = int n \<and> (\<forall>i < dk st. dx st i < B1B)
     \<and> (dj st \<noteq> 0 \<longrightarrow> dx st (dk st) < 10 ^ dj st)
     \<and> lead (dk st) (map (dx st) [0..<dk st]) * 10 ^ dj st + (if dj st = 0 then 0 else dx st (dk st)) = N
     \<and> (n = 0 \<longrightarrow> dx st 0 = 0 \<and> lnz st = 0) \<and> (0 < n \<longrightarrow> dx st 0 \<noteq> 0 \<and> 0 < lnz st \<and> 10 ^ (n - 1) \<le> N)
     \<and> lnz st \<le> int n \<and> 10 ^ (n - nat (lnz st)) dvd N"

definition padded :: "dscan \<Rightarrow> nat \<Rightarrow> nat" where
  "padded st = (if dj st \<noteq> 0 then (dx st)(dk st := dx st (dk st) * 10 ^ (9 - dj st)) else dx st)"

definition limb_count :: "dscan \<Rightarrow> nat" where
  "limb_count st = (if dj st \<noteq> 0 then dk st + 1 else dk st)"

definition limbs :: "dscan \<Rightarrow> nat list" where
  "limbs st = map (padded st) [0..<limb_count st]"

lemma lead_append: "n \<le> length xs \<Longrightarrow> lead n (xs @ ys) = lead n xs"
proof (induction n xs rule: lead.induct)
  case (1 L)
  then show ?case by simp
qed simp_all

lemma limbs_value:
  assumes "digs st N n"
  shows "vl (limbs st) * 10 ^ n = of_nat N" "\<forall>v \<in> set (limbs st). v < B1B" "length (limbs st) = limb_count st"
proof -
  have lc: "9 * limb_count st = n + (if dj st = 0 then 0 else 9 - dj st)" using assms by (auto simp: digs_def limb_count_def)
  have m: "map (padded st) [0..<dk st] = map (dx st) [0..<dk st]" by (simp add: padded_def)
  have e: "vl (limbs st) * 10 ^ (9 * limb_count st) = of_nat (lead (limb_count st) (limbs st))"
    using vl_lead [of "limbs st" "limb_count st"] by (simp add: limbs_def)
  show "vl (limbs st) * 10 ^ n = of_nat N"
  proof (cases "dj st = 0")
    case True
    then show ?thesis using e lc assms by (simp add: digs_def limbs_def padded_def limb_count_def)
  next
    case False
    have Ne: "lead (dk st) (map (dx st) [0..<dk st]) * 10 ^ dj st + dx st (dk st) = N" using assms False by (simp add: digs_def)
    have "lead (Suc (dk st)) (limbs st) = lead (dk st) (map (dx st) [0..<dk st]) * B1B + dx st (dk st) * 10 ^ (9 - dj st)"
      unfolding lead_snoc using False
      by (simp add: limbs_def limb_count_def lead_append m nth_append) (simp add: padded_def)
    also have "B1B = 10 ^ dj st * 10 ^ (9 - dj st)" using assms by (simp add: digs_def power_add [symmetric])
    finally have "lead (limb_count st) (limbs st) = N * 10 ^ (9 - dj st)"
      using False by (simp add: limb_count_def Ne [symmetric] algebra_simps)
    then have "vl (limbs st) * 10 ^ n * 10 ^ (9 - dj st) = of_nat N * 10 ^ (9 - dj st)"
      using e False unfolding lc by (simp add: power_add mult.assoc)
    then show ?thesis by simp
  qed
  show "\<forall>v \<in> set (limbs st). v < B1B"
  proof -
    have "dx st (dk st) * 10 ^ (9 - dj st) < B1B" if "dj st \<noteq> 0"
    proof -
      have "dx st (dk st) * 10 ^ (9 - dj st) < 10 ^ dj st * 10 ^ (9 - dj st)" using assms that by (simp add: digs_def)
      also have "\<dots> = B1B" using assms by (simp add: digs_def power_add [symmetric])
      finally show ?thesis .
    qed
    then show ?thesis using assms by (auto simp: limbs_def limb_count_def padded_def digs_def less_Suc_eq)
  qed
  show "length (limbs st) = limb_count st" by (simp add: limbs_def)
qed

lemma drop_zeros_spec:
  "x 0 \<noteq> 0 \<Longrightarrow> 0 < k \<Longrightarrow> \<exists>z. drop_zeros x k = z \<and> 0 < z \<and> z \<le> k \<and> x (z - 1) \<noteq> 0
    \<and> map x [0..<k] = map x [0..<z] @ replicate (k - z) 0"
proof (induction k)
  case (Suc k)
  show ?case
  proof (cases "x k = 0")
    case True
    then have "0 < k" using Suc.prems(1) by (cases k) auto
    then obtain z where z: "drop_zeros x k = z" "0 < z" "z \<le> k" "x (z - 1) \<noteq> 0"
        "map x [0..<k] = map x [0..<z] @ replicate (k - z) 0"
      using Suc.IH Suc.prems(1) by blast
    have "replicate (Suc k - z) (0 :: nat) = replicate (k - z) 0 @ [0]"
      using z(3) by (simp add: Suc_diff_le replicate_append_same)
    then show ?thesis using True z by (auto simp: Suc_diff_le)
  qed auto
qed simp

lemma numeral_bounds:
  assumes "digs st N n" "0 < n"
  shows "N < 10 ^ n" "10 ^ (n - 1) \<le> N" "padded st 0 \<noteq> 0" "0 < limb_count st" "vl (limbs st) < 1" "1 / 10 \<le> vl (limbs st)"
proof -
  note v = limbs_value [OF assms(1)]
  show l: "vl (limbs st) < 1" by (rule vl_less_1 [OF v(2)])
  have "(of_nat N :: rat) < of_nat (10 ^ n)" unfolding v(1) [symmetric] using l by simp
  then show "N < 10 ^ n" by (simp only: of_nat_less_iff)
  show N: "10 ^ (n - 1) \<le> N" using assms by (simp add: digs_def)
  show "padded st 0 \<noteq> 0" "0 < limb_count st" using assms by (auto simp: digs_def padded_def limb_count_def)
  have "(of_nat (10 ^ (n - 1)) :: rat) \<le> of_nat N" using N by (simp only: of_nat_le_iff)
  then have "10 ^ (n - 1) \<le> vl (limbs st) * 10 ^ n" using v(1) by simp
  moreover have "(10 :: rat) ^ n = 10 ^ (n - 1) * 10" using assms(2) by (cases n) simp_all
  ultimately show "1 / 10 \<le> vl (limbs st)" by simp
qed

text \<open>The value of the numeral, with the decimal point at \<open>lrp\<close>.\<close>

definition numeral_value :: "dscan \<Rightarrow> rat" where
  "numeral_value st = vl (limbs st) * 10 powi lrp st"

lemma numeral_value_eq: "digs st N n \<Longrightarrow> numeral_value st = of_nat N * 10 powi (lrp st - int n)"
  using limbs_value(1) [of st N n] powi10_add [of "lrp st - int n" "int n"]
  by (simp add: numeral_value_def power_int_of_nat mult.assoc mult.commute [of "10 ^ n"] flip: mult.assoc)

lemma significant:
  assumes "digs st N n"
  shows "\<exists>w :: nat. of_nat N = (of_nat w * 10 ^ (n - nat (lnz st)) :: rat)"
proof -
  have "10 ^ (n - nat (lnz st)) dvd N" using assms by (simp add: digs_def)
  then obtain w where "N = 10 ^ (n - nat (lnz st)) * w" by (rule dvdE)
  then show ?thesis by (intro exI [of _ w]) simp
qed

lemma small_limb:
  assumes "digs st N n" "0 < n" "lnz st < 9"
  shows "vl (limbs st) * 10 ^ 9 = of_nat (padded st 0)"
proof -
  obtain w :: nat where w: "of_nat N = (of_nat w * 10 ^ (n - nat (lnz st)) :: rat)" using significant [OF assms(1)] by blast
  have ln: "0 \<le> lnz st" "nat (lnz st) \<le> n" using assms by (auto simp: digs_def)
  have "\<exists>q :: nat. vl (limbs st) * 10 ^ 9 = of_nat q"
  proof -
    have "vl (limbs st) * 10 ^ n = of_nat w * 10 ^ (n - nat (lnz st))" using limbs_value(1) [OF assms(1)] w by simp
    moreover have "(10 :: rat) ^ n = 10 ^ (n - nat (lnz st)) * 10 ^ nat (lnz st)" using ln(2) by (simp add: power_add [symmetric])
    ultimately have "vl (limbs st) * 10 ^ nat (lnz st) = of_nat w" by (simp add: field_simps)
    moreover have "(10 :: rat) ^ 9 = 10 ^ nat (lnz st) * 10 ^ (9 - nat (lnz st))"
      using assms(3) ln(1) unfolding power_add [symmetric] by (intro arg_cong [of _ _ "power 10"]) linarith
    ultimately have "vl (limbs st) * 10 ^ 9 = of_nat (w * 10 ^ (9 - nat (lnz st)))" by (simp only: mult.assoc [symmetric]) simp
    then show ?thesis by blast
  qed
  then obtain q :: nat where q: "vl (limbs st) * 10 ^ 9 = of_nat q" by blast
  obtain vs where vs: "limbs st = padded st 0 # vs"
    using numeral_bounds(4) [OF assms(1,2)] by (cases "limb_count st") (simp_all add: limbs_def upt_rec del: upt_Suc)
  have "vl vs < 1" using limbs_value(2) [OF assms(1)] unfolding vs by (intro vl_less_1) simp
  moreover have "0 \<le> vl vs" by simp
  moreover have e: "of_nat (padded st 0) + vl vs = of_nat q" using q unfolding vs by simp
  ultimately have "(of_nat (padded st 0) :: rat) \<le> of_nat q" "(of_nat q :: rat) < of_nat (padded st 0 + 1)"
    by (simp_all flip: e del: of_nat_le_iff)
  then have "padded st 0 \<le> q" "q < padded st 0 + 1" by (simp_all only: of_nat_le_iff of_nat_less_iff)
  then have "q = padded st 0" by simp
  then show ?thesis using q by simp
qed

lemma small_int:
  assumes "digs st N n" "0 < n" "lnz st \<le> lrp st"
  shows "\<exists>w :: nat. numeral_value st = of_nat w"
proof -
  obtain w :: nat where w: "of_nat N = (of_nat w * 10 ^ (n - nat (lnz st)) :: rat)" using significant [OF assms(1)] by blast
  have ln: "0 \<le> lnz st" "lnz st \<le> int n" using assms by (auto simp: digs_def)
  have "numeral_value st = of_nat w * (10 powi int (n - nat (lnz st)) * 10 powi (lrp st - int n))"
    unfolding numeral_value_eq [OF assms(1)] w by simp
  also have "\<dots> = of_nat w * 10 powi (lrp st - lnz st)" using ln unfolding powi10_add [symmetric] by (simp add: of_nat_diff)
  also have "\<dots> = of_nat (w * 10 ^ nat (lrp st - lnz st))" using assms(3) by (simp add: power_int_nonneg_exp)
  finally show ?thesis by blast
qed

lemma fround_big:
  assumes "2 powi maxexp F \<le> V" "0 < mant F" "least F \<le> maxexp F"
  shows "fround F neg V = FInf neg"
proof -
  have V: "0 < V" using assms(1) powi_pos [of "maxexp F"] by linarith
  define l where "l = max (rexp V - mant F + 1) (least F)"
  have "2 powi maxexp F \<le> of_int (rne (V / 2 powi l)) * (2 :: rat) powi l"
  proof (cases "l \<le> maxexp F")
    case True
    have "(2 :: rat) powi maxexp F = 2 powi (int (nat (maxexp F - l)) + l)" using True by simp
    then have e: "2 powi maxexp F = of_int (2 ^ nat (maxexp F - l)) * (2 :: rat) powi l" unfolding powi_plus powi_nat .
    then have "of_int (2 ^ nat (maxexp F - l)) \<le> V / 2 powi l" using assms(1) powi_pos [of l] by (simp add: le_divide_eq)
    then have "2 ^ nat (maxexp F - l) \<le> rne (V / 2 powi l)" by (rule rne_ge)
    then have "(of_int (2 ^ nat (maxexp F - l)) :: rat) \<le> of_int (rne (V / 2 powi l))" by (simp only: of_int_le_iff)
    then show ?thesis unfolding e using powi_pos [of l] by (intro mult_right_mono) simp_all
  next
    case False
    then have "l \<le> rexp V" using assms(2,3) by (simp add: l_def)
    then have "2 powi l \<le> V" using rexp_bounds(1) [OF V] powi_mono [of l "rexp V"] by linarith
    then have "of_int 1 \<le> V / 2 powi l" using powi_pos [of l] by (simp add: le_divide_eq)
    then have "1 \<le> rne (V / 2 powi l)" by (rule rne_ge)
    then have "1 * 2 powi l \<le> of_int (rne (V / 2 powi l)) * (2 :: rat) powi l" using powi_pos [of l] by (intro mult_right_mono) simp_all
    moreover have "2 powi maxexp F \<le> 1 * (2 :: rat) powi l" unfolding mult_1_left using False by (intro powi_mono) simp
    ultimately show ?thesis by (rule order_trans [rotated])
  qed
  then show ?thesis using fround_eq [OF V, of F l neg] by (simp add: l_def)
qed

lemma quad_size: "maxexp quad = 16384" "mant quad = 113" "least quad = -16494"
  by (simp_all add: quad_def)

lemma signed_mul: "sign = 1 \<or> sign = -1 \<Longrightarrow> fmul quad (ldf sign) (FNum False x) = fround quad (sign < 0) x"
  using fround_quad_int [of 1] by (auto simp: fmul_def of_intf_def)

lemma fround_quad_nat: "n \<le> 2 ^ 113 \<Longrightarrow> x = of_nat n \<Longrightarrow> fround quad s x = FNum s (of_nat n)"
  using fround_quad_int by simp

lemma overflow_quad:
  assumes "sign = 1 \<or> sign = -1"
  shows "fmul quad (fmul quad (ldf sign) LDBL_MAX) LDBL_MAX = FInf (sign < 0)"
proof -
  define Q :: rat where "Q = 2 ^ 16271"
  define K :: rat where "K = 2 ^ 113 - 1"
  have Q0: "2 ^ 113 \<le> Q" unfolding Q_def by (rule power_increasing) simp_all
  have n: "(16384 :: nat) = 113 + 16271" by simp
  have QM: "(2 :: rat) ^ 16384 = 2 ^ 113 * Q" unfolding n Q_def by (rule power_add)
  have QI: "2 powi maxexp quad = 2 ^ 113 * Q" unfolding quad_size power_int_numeral QM ..
  have M: "2 ^ 16384 - 2 ^ 16271 = K * Q" unfolding QM Q_def [symmetric] K_def by (simp only: left_diff_distrib mult_1_left)
  have Qi: "Q = 2 powi 16271" unfolding Q_def power_int_numeral ..
  have K: "K = of_int (2 ^ 113 - 1)" "0 < K" "K < 2 ^ 113" "1 \<le> K" by (simp_all add: K_def)
  have lt: "K * Q < 2 powi maxexp quad" unfolding QI using K(3) Q0 by simp
  have KQ: "K * Q = of_int (2 ^ 113 - 1) * 2 powi 16271" unfolding K(1) Qi ..
  have e: "fround quad (sign < 0) (K * Q) = FNum (sign < 0) (K * Q)"
    by (rule fround_exact [OF KQ _ _ _ _ lt]) (simp_all add: quad_size)
  have "2 ^ 113 * Q \<le> (K * Q) * (K * Q)"
  proof -
    have KQ1: "Q \<le> K * Q" using mult_right_mono [OF K(4), of Q] Q0 by simp
    moreover have "2 ^ 113 \<le> K * Q" using Q0 KQ1 by (rule order_trans)
    ultimately have "2 ^ 113 * Q \<le> (K * Q) * (K * Q)" using K(2) Q0 by (intro mult_mono) simp_all
    then show ?thesis .
  qed
  then have "fround quad (sign < 0) (K * Q * (K * Q)) = FInf (sign < 0)"
    unfolding QI [symmetric] by (rule fround_big) (simp_all add: quad_def)
  then show ?thesis unfolding LDBL_MAX_def M signed_mul [OF assms] e by (simp add: fmul_def)
qed

lemma underflow_quad:
  assumes "sign = 1 \<or> sign = -1"
  shows "fmul quad (fmul quad (ldf sign) LDBL_MIN) LDBL_MIN = FNum (sign < 0) 0"
proof -
  define Q :: rat where "Q = 2 powi (-16382)"
  have Q: "1 / 2 ^ 16382 = Q" unfolding Q_def power_int_minus power_int_numeral by (rule inverse_eq_divide [symmetric])
  have Q1: "0 < Q" "Q \<le> 2 powi (-8248)" unfolding Q_def by (rule powi_pos, rule powi_mono) simp
  have lt: "Q < 2 powi maxexp quad" unfolding Q_def quad_size by (rule powi_smono) simp
  have Q2: "Q = of_int 1 * 2 powi (-16382)" by (simp only: Q_def of_int_1 mult_1_left)
  have e: "fround quad (sign < 0) Q = FNum (sign < 0) Q"
    by (rule fround_exact [OF Q2 _ _ _ _ lt]) (simp_all add: quad_size)
  have "Q * Q \<le> 2 powi (-8248) * 2 powi (-8248)" using Q1 by (intro mult_mono) simp_all
  also have "\<dots> = 2 powi (-8248 + -8248)" by (rule powi_plus [symmetric])
  also have "\<dots> \<le> 2 powi (least quad - 1)" by (rule powi_mono) (simp add: quad_size)
  finally have QQ: "Q * Q \<le> 2 powi (least quad - 1)" .
  have "0 \<le> Q * Q" using Q1(1) by simp
  from fround_tiny [OF this QQ] have "fround quad (sign < 0) (Q * Q) = FNum (sign < 0) 0" by (simp only: quad_size)
  then show ?thesis unfolding LDBL_MIN_def Q signed_mul [OF assms] e by (simp add: fmul_def)
qed

subsection \<open>dec\_convert rounds to nearest\<close>

lemma narrow_range: "narrow F \<Longrightarrow> 0 < mant F \<and> least F < 0 \<and> -1300 \<le> least F - 226 \<and> least F \<le> maxexp F \<and> - least F div 2 \<le> 537
    \<and> maxexp F \<le> 3 * (- least F div 2) \<and> 0 \<le> - least F div 2"
  by (auto simp: narrow_def single_def double_def)

lemma quad_nat_conv: "n \<le> 2 ^ 113 \<Longrightarrow> fconv F (fround quad s (of_nat n)) = fround F s (of_nat n)"
  by (simp add: fround_quad_int fconv_def)

text \<open>The short cuts for small numbers: the value is an integer, and the division is exact.\<close>

lemma small_div:
  assumes "x < B1B" "0 < p" "p < 9" "of_nat x * 10 powi (p - 9) = (of_nat w :: rat)" "sign = 1 \<or> sign = -1"
  shows "fdiv quad (fmul quad (ldf sign) (ldf (int x))) (ldf (int (p10s (8 - p)))) = FNum (sign < 0) (of_nat w)"
proof -
  define k where "k = nat (9 - p)"
  have k: "k \<le> 8" "p - 9 = - int k" using assms(2,3) by (simp_all add: k_def)
  have "(10 :: nat) ^ k \<le> 10 ^ 8" using k(1) by (rule power_increasing) simp
  then have k113: "(10 :: nat) ^ k \<le> 2 ^ 113" "x \<le> 2 ^ 113" using assms(1) by simp_all
  have d: "ldf (int (p10s (8 - p))) = FNum False (10 ^ k)"
    using ldf_nat [OF k113(1)] p10s_pow [OF assms(2,3)] by (simp add: k_def)
  have w: "of_nat x / 10 ^ k = (of_nat w :: rat)"
    using assms(4) unfolding k(2) by (simp add: power_int_minus power_int_of_nat field_simps)
  have "of_nat x = (of_nat (w * 10 ^ k) :: rat)" using w by (simp add: field_simps)
  then have "x = w * 10 ^ k" by (simp only: of_nat_eq_iff)
  then have "w \<le> x" by simp
  then have "fround quad (sign < 0) (of_nat w) = FNum (sign < 0) (of_nat w)" using k113(2) by (intro fround_quad_int) simp
  then show ?thesis
    unfolding d ldf_nat [OF k113(2)] signed_mul [OF assms(5)] fround_quad_int [OF k113(2)] by (simp add: fdiv_def w)
qed

lemma small_mul:
  assumes "x < B1B" "9 < p" "p < 18" "of_nat x * 10 powi (p - 9) = V" "sign = 1 \<or> sign = -1"
  shows "fconv F (fmul quad (fmul quad (ldf sign) (ldf (int x))) (ldf (int (p10s (p - 10))))) = fround F (sign < 0) V"
proof -
  define k where "k = nat (p - 9)"
  have k: "k \<le> 8" "p - 9 = int k" using assms(2,3) by (simp_all add: k_def)
  have k8: "(10 :: nat) ^ k \<le> 10 ^ 8" using k(1) by (rule power_increasing) simp
  then have k113: "(10 :: nat) ^ k \<le> 2 ^ 113" "x \<le> 2 ^ 113" using assms(1) by simp_all
  have "x * 10 ^ k \<le> B1B * 10 ^ 8" using assms(1) k8 by (intro mult_mono) simp_all
  then have xk: "x * 10 ^ k \<le> 2 ^ 113" by simp
  have d: "ldf (int (p10s (p - 10))) = FNum False (10 ^ k)"
    using ldf_nat [OF k113(1)] p10s_pow [of "18 - p"] assms(2,3) by (simp add: k_def)
  have V: "V = of_nat (x * 10 ^ k)" using assms(4) unfolding k(2) by simp
  have "fmul quad (FNum s (of_nat x)) (FNum False (10 ^ k)) = fround quad s (of_nat (x * 10 ^ k))" for s
    by (simp add: fmul_def)
  then show ?thesis
    unfolding d ldf_nat [OF k113(2)] signed_mul [OF assms(5)] fround_quad_int [OF k113(2)] V
    using quad_nat_conv [OF xk] by simp
qed

lemma powi10_ge: "0 \<le> p \<Longrightarrow> (2 :: rat) powi (3 * p) \<le> 10 powi p"
proof -
  assume "0 \<le> p"
  then have e: "p = int (nat p)" "3 * p = int (3 * nat p)" by simp_all
  have "(8 :: rat) ^ nat p \<le> 10 ^ nat p" by (rule power_mono) simp_all
  then have "(2 :: rat) ^ (3 * nat p) \<le> 10 ^ nat p" by (simp add: power_mult)
  then show ?thesis using e by (metis power_int_of_nat)
qed

lemma powi10_neg: "p \<le> 0 \<Longrightarrow> (10 :: rat) powi p \<le> 2 powi p"
proof -
  assume "p \<le> 0"
  then have e: "p = - int (nat (- p))" by simp
  have "inverse ((10 :: rat) ^ nat (- p)) \<le> inverse (2 ^ nat (- p))"
    by (intro le_imp_inverse_le power_mono) simp_all
  then show ?thesis using e by (metis power_int_minus power_int_of_nat)
qed

text \<open>The ring at the start of the conversion: the limbs without the trailing zeros.\<close>

lemma start_limbs:
  assumes "digs st N n" "0 < n" "n \<le> 13000"
  shows "\<exists>L. drop_zeros (padded st) (limb_count st) = length L \<and> length L \<le> 1500 \<and> (\<forall>i < length L. padded st i = L ! i)
    \<and> limbs_ok L \<and> (\<forall>v \<in> set L. v < B1B) \<and> last L \<noteq> 0 \<and> vl L = vl (limbs st)"
proof -
  note bd = numeral_bounds [OF assms(1,2)] and lv = limbs_value [OF assms(1)]
  obtain z where z: "drop_zeros (padded st) (limb_count st) = z" "0 < z" "z \<le> limb_count st" "padded st (z - 1) \<noteq> 0"
      "limbs st = map (padded st) [0..<z] @ replicate (limb_count st - z) 0"
    using drop_zeros_spec [of "padded st" "limb_count st"] bd(3,4) unfolding limbs_def by blast
  define L where "L = map (padded st) [0..<z]"
  have vL: "vl L = vl (limbs st)" unfolding z(5) vl_append L_def by simp
  have small: "\<forall>v \<in> set L. v < B1B" using lv(2) unfolding z(5) L_def by simp
  have "limb_count st \<le> 1500" using assms(1,3) by (auto simp: digs_def limb_count_def)
  then have len: "length L \<le> 1500" using z(3) by (simp add: L_def)
  have last: "last L \<noteq> 0" using z(2,4) by (simp add: L_def last_map)
  have "limbs_ok L"
    unfolding limbs_ok_def using last okl_small [OF small] z(2) bd(3) by (simp add: L_def hd_map)
  then show ?thesis using z(1) len small last vL by (intro exI [of _ L]) (simp add: L_def)
qed

theorem dec_convert_spec:
  assumes F: "narrow F" and st: "digs st N n" "n \<le> 13000" and sign: "sign = 1 \<or> sign = -1"
    and neg: "sign < 0 \<Longrightarrow> N = 0 \<or> 2 powi (least F + 1) \<le> numeral_value st"
    and nw: "N = 0 \<or> \<not> wraps (numeral_value st) (lrp st)"
  shows "\<exists>v en'. dec_convert st (mant F) (least F) sign en = Inr (v, en') \<and> fconv F v = fround F (sign < 0) (numeral_value st)"
proof (cases "n = 0")
  case True
  then have "N = 0" "dx st 0 = 0" "numeral_value st = 0" using st numeral_value_eq [OF st(1)] by (auto simp: digs_def)
  then show ?thesis using signed_mul [OF sign, of 0] by (simp add: dec_convert_def fconv_def)
next
  case False
  then have n0: "0 < n" by simp
  note R = narrow_range [OF F] and bd = numeral_bounds [OF st(1) n0] and lv = limbs_value [OF st(1)]
  have x0: "dx st 0 \<noteq> 0" using st(1) n0 by (simp add: digs_def)
  have N0: "N \<noteq> 0" using bd(2) by (intro notI) simp
  define V where "V = numeral_value st"
  define p where "p = lrp st"
  have V: "V = vl (limbs st) * 10 powi p" by (simp add: V_def p_def numeral_value_def)
  have V1: "V < 10 powi p" using bd(5) powi10_pos [of p] unfolding V by simp
  have "10 powi p = 10 powi (p - 1) * (10 :: rat)" using powi10_add [of "p - 1" 1] by simp
  then have V2: "10 powi (p - 1) \<le> V"
    using mult_right_mono [OF bd(6), of "10 powi p"] powi10_pos [of p] unfolding V by simp
  have P0: "padded st 0 < B1B" using lv(2) bd(4) by (force simp: limbs_def)
  let ?A = "p = dc st \<and> dc st < 10 \<and> (mant F > 30 \<or> dx st 0 div 2 ^ nat (mant F) = 0)"
  let ?sm = "lnz st < 9 \<and> lnz st \<le> p \<and> p < 18"
  let ?bl = "mant F - 3 * (p - 9)"
  have pd: "dec_convert st (mant F) (least F) sign en =
     (if ?A then Inr (fmul quad (ldf sign) (ldf (int (dx st 0))), en)
      else if p > - least F div 2 then Inr (fmul quad (fmul quad (ldf sign) LDBL_MAX) LDBL_MAX, 34)
      else if p < least F - 226 then Inr (fmul quad (fmul quad (ldf sign) LDBL_MIN) LDBL_MIN, 34)
      else if ?sm \<and> p = 9 then Inr (fmul quad (ldf sign) (ldf (int (padded st 0))), en)
      else if ?sm \<and> p < 9 then Inr (fdiv quad (fmul quad (ldf sign) (ldf (int (padded st 0)))) (ldf (int (p10s (8 - p)))), en)
      else if ?sm \<and> (?bl > 30 \<or> padded st 0 div 2 ^ nat ?bl = 0)
      then Inr (fmul quad (fmul quad (ldf sign) (ldf (int (padded st 0)))) (ldf (int (p10s (p - 10)))), en)
      else
        (case upscale (align \<lparr> rx = padded st, ra = 0, rz = drop_zeros (padded st) (limb_count st), rp = p, re2 = 0 \<rparr>) of
           None \<Rightarrow> Inl No_return
         | Some r1 \<Rightarrow>
             (case downscale r1 of
                None \<Rightarrow> Inl No_return
              | Some r2 \<Rightarrow>
                  (case assemble [0, 1, 2, 3] r2 (FNum False 0) of
                     None \<Rightarrow> Inl Store_before
                   | Some (r3, y) \<Rightarrow> Inr (dec_round (mant F) (least F) sign r3 y en)))))"
    using x0 by (simp add: dec_convert_def Let_def padded_def limb_count_def p_def del: fun_upd_apply cong: if_cong)
  have sm: "vl (limbs st) * 10 ^ 9 = of_nat (padded st 0)" "\<exists>w :: nat. V = of_nat w" if ?sm
    using small_limb [OF st(1) n0] small_int [OF st(1) n0] that by (auto simp: p_def V_def)
  have smV: "V = of_nat (padded st 0) * 10 powi (p - 9)" if ?sm
  proof -
    have "10 powi p = 10 ^ 9 * (10 :: rat) powi (p - 9)" using powi10_9 [of "p - 9"] by simp
    then have "V = vl (limbs st) * 10 ^ 9 * 10 powi (p - 9)" by (simp add: V)
    then show ?thesis unfolding sm(1) [OF that] .
  qed
  have P113: "padded st 0 \<le> 2 ^ 113" using P0 by simp
  consider (A) ?A | (B) "\<not> ?A" "p > - least F div 2" | (C) "\<not> ?A" "\<not> p > - least F div 2" "p < least F - 226"
    | (D) "\<not> ?A" "\<not> p > - least F div 2" "\<not> p < least F - 226" ?sm "p = 9"
    | (E) "\<not> ?A" "\<not> p > - least F div 2" "\<not> p < least F - 226" ?sm "p < 9"
    | (G) "\<not> ?A" "\<not> p > - least F div 2" "\<not> p < least F - 226" ?sm "9 < p" "?bl > 30 \<or> padded st 0 div 2 ^ nat ?bl = 0"
    | (H) "\<not> ?A" "\<not> p > - least F div 2" "\<not> p < least F - 226" "\<not> (?sm \<and> p = 9)" "\<not> (?sm \<and> p < 9)"
      "\<not> (?sm \<and> (?bl > 30 \<or> padded st 0 div 2 ^ nat ?bl = 0))"
    using linorder_less_linear [of p 9] by argo
  then show ?thesis
  proof cases
    case A
    have n9: "9 * dk st + dj st = n" "dj st < 9" "int n < 10" "p = int n" using A st(1) by (simp_all add: digs_def)
    then have "dk st = 0 \<or> dk st = 1 \<and> dj st = 0" using n0 by linarith
    then have "N = dx st 0" using st(1) n0 by (auto simp: digs_def)
    moreover have "N \<le> 2 ^ 113"
    proof -
      have "(10 :: nat) ^ n \<le> 10 ^ 9" using n9(3) by (intro power_increasing) simp_all
      then show ?thesis using bd(1) by simp
    qed
    moreover have "V = of_nat N" using numeral_value_eq [OF st(1)] n9(4) by (simp add: V_def p_def)
    ultimately show ?thesis unfolding V_def [symmetric] pd if_P [OF A] using signed_mul [OF sign] quad_nat_conv [of N] ldf_nat [of N] by simp
  next
    case B
    define h where "h = - least F div 2"
    have "0 \<le> h" "maxexp F \<le> 3 * h" "h < p" using R B(2) by (simp_all add: h_def)
    then have "maxexp F \<le> 3 * (p - 1)" "0 \<le> p - 1" by simp_all
    then have "2 powi maxexp F \<le> (2 :: rat) powi (3 * (p - 1))" "(2 :: rat) powi (3 * (p - 1)) \<le> 10 powi (p - 1)"
      by (simp_all only: powi_le_iff powi10_ge)
    then have "2 powi maxexp F \<le> V" using V2 by linarith
    then have "fround F (sign < 0) V = FInf (sign < 0)" using R by (intro fround_big) simp_all
    then show ?thesis unfolding V_def [symmetric] pd if_not_P [OF B(1)] if_P [OF B(2)] overflow_quad [OF sign] by (simp add: fconv_def)
  next
    case C
    have "10 powi p \<le> (2 :: rat) powi p" using C(3) R by (intro powi10_neg) simp
    moreover have "(2 :: rat) powi p \<le> 2 powi (least F - 1)" using C(3) by (intro powi_mono) simp
    ultimately have "V \<le> 2 powi (least F - 1)" using V1 by linarith
    moreover have "0 \<le> V" using V2 powi10_pos [of "p - 1"] by linarith
    ultimately have "fround F (sign < 0) V = FNum (sign < 0) 0" using R by (intro fround_tiny) simp_all
    then show ?thesis
      unfolding V_def [symmetric] pd if_not_P [OF C(1)] if_not_P [OF C(2)] if_P [OF C(3)] underflow_quad [OF sign]
      by (simp add: fconv_def)
  next
    case D
    have "V = of_nat (padded st 0)" using smV [OF D(4)] D(5) by simp
    then show ?thesis
      unfolding V_def [symmetric] pd if_not_P [OF D(1)] if_not_P [OF D(2)] if_not_P [OF D(3)] if_P [OF conjI [OF D(4,5)]]
      using signed_mul [OF sign] quad_nat_conv [OF P113] ldf_nat [OF P113] by simp
  next
    case E
    have p0: "0 < p" using E(4) st(1) n0 by (auto simp: digs_def)
    obtain w :: nat where w: "V = of_nat w" using sm(2) [OF E(4)] by blast
    have "of_nat (padded st 0) * 10 powi (p - 9) = (of_nat w :: rat)" using smV [OF E(4)] w by simp
    from small_div [OF P0 p0 E(5) this sign] show ?thesis
      unfolding V_def [symmetric] pd w if_not_P [OF E(1)] if_not_P [OF E(2)] if_not_P [OF E(3)] if_P [OF conjI [OF E(4,5)]]
      using E(5) by (simp add: fconv_def)
  next
    case G
    have n: "\<not> (?sm \<and> p = 9)" "\<not> (?sm \<and> p < 9)" "p < 18" using G(4,5) by simp_all
    show ?thesis
      unfolding V_def [symmetric] pd if_not_P [OF G(1)] if_not_P [OF G(2)] if_not_P [OF G(3)] if_not_P [OF n(1)]
        if_not_P [OF n(2)] if_P [OF conjI [OF G(4,6)]]
      using small_mul [OF P0 G(5) n(3) smV [OF G(4), symmetric] sign, of F] by simp
  next
    case H
    obtain L where L: "drop_zeros (padded st) (limb_count st) = length L" "length L \<le> 1500" "\<forall>i < length L. padded st i = L ! i"
        "limbs_ok L" "\<forall>v \<in> set L. v < B1B" "last L \<noteq> 0" "vl L = vl (limbs st)"
      using start_limbs [OF st(1) n0 st(2)] by blast
    define r where "r = \<lparr> rx = padded st, ra = 0, rz = length L, rp = p, re2 = 0 \<rparr>"
    have q: "-1300 \<le> rp r" "rp r \<le> 560" using H(2,3) R by (simp_all add: r_def)
    have rr: "ra r = 0" "re2 r = 0" "rz r = length L" "\<forall>i < length L. rx r i = L ! i" "rp r = p"
      by (simp_all add: r_def L(3))
    have Vr: "V = vl L * 10 powi rp r" "10 powi (rp r - 1) \<le> V" "V < 10 powi rp r" "\<not> wraps V (rp r)"
      using V V1 V2 nw N0 by (simp_all only: rr(5) L(7) V_def p_def not_False_eq_True simp_thms)
    have ng: "2 powi (least F + 1) \<le> V" if "sign < 0" using neg [OF that] N0 by (simp add: V_def)
    obtain r1 r2 r3 y where *: "upscale (align r) = Some r1" "downscale r1 = Some r2"
        "assemble [0, 1, 2, 3] r2 (FNum False 0) = Some (r3, y)"
        "fconv F (fst (dec_round (mant F) (least F) sign r3 y en)) = fround F (sign < 0) V"
      using ring_path [OF F rr(1-3) L(2) rr(4) L(4-6) q Vr sign ng] by blast
    show ?thesis
      unfolding V_def [symmetric] pd if_not_P [OF H(1)] if_not_P [OF H(2)] if_not_P [OF H(3)] if_not_P [OF H(4)]
        if_not_P [OF H(5)] if_not_P [OF H(6)] L(1) r_def [symmetric] * option.case prod.case
      using *(4) by (cases "dec_round (mant F) (least F) sign r3 y en") simp
  qed
qed

end
