(* ===== verification/FloatText.thy ===== *)
theory FloatText
  imports FloatDec StdlibNum
begin

text \<open>
  Decimal numerals as text: reading the digits, the decimal point and the exponent gives the number that the
  text denotes (\<open>dec_scan\<close>), and with \<open>FloatDec\<close> the conversions of \<^verbatim>\<open>strtod\<close> and \<^verbatim>\<open>strtof\<close> are the nearest
  floating-point numbers.
\<close>

subsection \<open>Reading the string\<close>

text \<open>\<open>c\<close> is the current character, \<open>p\<close> the position behind it, and \<open>t\<close> the text from \<open>c\<close> on.\<close>

definition cur :: "byte list \<Rightarrow> nat \<Rightarrow> int \<Rightarrow> byte list \<Rightarrow> bool" where
  "cur s p c t \<longleftrightarrow> (\<exists>k. p = Suc k \<and> k \<le> length s \<and> drop k s = t \<and> c = (case t of [] \<Rightarrow> 0 | x # _ \<Rightarrow> ord x))"

lemma cur_pos: "cur s p c t \<Longrightarrow> p + length t = length s + 1"
  by (auto simp: cur_def)

lemma shgetc_first: "k \<le> length s \<Longrightarrow> \<exists>c. shgetc s k = Some (c, Suc k) \<and> cur s (Suc k) c (drop k s)"
  by (auto simp: shgetc_def cur_def drop_Cons' Cons_nth_drop_Suc [symmetric] le_less)

lemma cur_next:
  assumes "cur s p c (x # t)"
  shows "c = ord x" "\<exists>c'. shgetc s p = Some (c', Suc p) \<and> cur s (Suc p) c' t"
proof -
  obtain k where k: "p = Suc k" "k \<le> length s" "drop k s = x # t" "c = ord x" using assms by (auto simp: cur_def)
  have "k < length s" using k(2,3) by (cases "k = length s") simp_all
  then have "s ! k # drop (Suc k) s = x # t" using k(3) Cons_nth_drop_Suc by metis
  then have "drop p s = t" "p \<le> length s" using k(1) \<open>k < length s\<close> by simp_all
  then show "c = ord x" "\<exists>c'. shgetc s p = Some (c', Suc p) \<and> cur s (Suc p) c' t" using k(4) shgetc_first [of p s] by auto
qed

lemma cur_unget: "cur s p c t \<Longrightarrow> shunget p = Some (p - 1)"
  by (auto simp: cur_def shunget_def)

text \<open>What ends a numeral.\<close>

definition stops :: "byte list \<Rightarrow> bool" where
  "stops t \<longleftrightarrow> (case t of [] \<Rightarrow> True | x # _ \<Rightarrow> \<not> dig (ord x) \<and> ord x \<noteq> 46 \<and> ord x OR 32 \<noteq> 101 \<and> ord x OR 32 \<noteq> 120)"

lemma cur_head: "cur s p c t \<Longrightarrow> c = (case t of [] \<Rightarrow> 0 | x # _ \<Rightarrow> ord x)"
  by (auto simp: cur_def)

lemma ord_48: "ord x = 48 \<longleftrightarrow> x = CHR ''0''"
proof -
  have "ord (CHR ''0'') = 48" by (simp add: ord_def)
  then show ?thesis by (metis ord_eq_iff)
qed

lemma zeros_text:
  "cur s p c (replicate n (CHR ''0'') @ t) \<Longrightarrow> (t \<noteq> [] \<Longrightarrow> hd t \<noteq> CHR ''0'') \<Longrightarrow>
    \<exists>c'. zeros s c p m = Some (c', p + n, m + n) \<and> cur s (p + n) c' t"
proof (induction n arbitrary: c p m)
  case 0
  have "c \<noteq> 48" using cur_head [OF 0(1)] 0(2) by (cases t) (simp_all add: ord_48)
  then show ?case using 0 by (subst zeros.simps) auto
next
  case (Suc n)
  then have "cur s p c (CHR ''0'' # replicate n (CHR ''0'') @ t)" by simp
  from cur_next [OF this] obtain c' where c': "c = 48" "shgetc s p = Some (c', Suc p)"
      "cur s (Suc p) c' (replicate n (CHR ''0'') @ t)"
    using ord_48 by blast
  show ?case using Suc.IH [OF c'(3) Suc.prems(2), of "m + 1"] c'(1,2) by (subst zeros.simps) auto
qed

subsection \<open>The digits\<close>

abbreviation decv :: "byte list \<Rightarrow> nat" where "decv ds \<equiv> digits_value 10 0 ds"

lemma digit_step_digs:
  assumes st: "digs st N n" "n \<le> 13000" and c: "dig c" "n = 0 \<Longrightarrow> c \<noteq> 48"
  shows "digs (digit_step c st) (N * 10 + nat (c - 48)) (n + 1)
    \<and> lrp (digit_step c st) = lrp st \<and> gotrad (digit_step c st) = gotrad st \<and> gotdig (digit_step c st)"
proof -
  define k where "k = dk st"
  define j where "j = dj st"
  define d where "d = nat (c - 48)"
  define v where "v = (if j \<noteq> 0 then dx st k * 10 + d else d)"
  define x' where "x' = (dx st)(k := v)"
  define l' where "l' = (if c \<noteq> 48 then int n + 1 else lnz st)"
  define A where "A = lead k (map (dx st) [0..<k])"
  have d: "d < 10" "d = 0 \<longleftrightarrow> c = 48" "c \<noteq> 46" using c(1) by (auto simp: dig_def d_def)
  have o: "9 * k + j = n" "j < 9" "dc st = int n" "\<forall>i < k. dx st i < B1B" "j \<noteq> 0 \<Longrightarrow> dx st k < 10 ^ j"
      "A * 10 ^ j + (if j = 0 then 0 else dx st k) = N" "lnz st \<le> int n" "10 ^ (n - nat (lnz st)) dvd N"
    using st(1) unfolding digs_def k_def j_def A_def by blast+
  have kl: "k < 2045" using o(1) st(2) by simp
  have step: "digit_step c st = (if j + 1 = 9
      then st \<lparr> dx := x', dj := 0, dk := k + 1, dc := int n + 1, lnz := l', gotdig := True \<rparr>
      else st \<lparr> dx := x', dj := j + 1, dc := int n + 1, lnz := l', gotdig := True \<rparr>)"
    using d(3) kl o(3) unfolding digit_step_def k_def [symmetric] j_def [symmetric] d_def [symmetric] l'_def x'_def v_def Let_def
    by simp
  have N': "A * 10 ^ (j + 1) + v = N * 10 + d" using o(6) by (auto simp: v_def algebra_simps)
  have v: "v < 10 ^ (j + 1)" using d(1) o(5) by (auto simp: v_def)
  have m: "map x' [0..<k] = map (dx st) [0..<k]" by (simp add: x'_def)
  have l: "lead (Suc k) (map x' [0..<Suc k]) = A * B1B + v"
    unfolding lead_snoc by (simp add: lead_append m A_def [symmetric]) (simp add: x'_def nth_append)
  have x0: "x' 0 \<noteq> 0"
  proof (cases "n = 0")
    case True
    then show ?thesis using o(1) d(2) c(2) by (simp add: x'_def v_def)
  next
    case False
    then have "dx st 0 \<noteq> 0" using st(1) by (simp add: digs_def)
    then show ?thesis using False o(1) by (auto simp: x'_def v_def)
  qed
  have top: "10 ^ n \<le> N * 10 + d"
  proof (cases n)
    case 0
    then show ?thesis using d(2) c(2) by (cases d) auto
  next
    case (Suc i)
    then have "10 ^ i \<le> N" using st(1) by (simp add: digs_def)
    then show ?thesis using Suc by simp
  qed
  have ln: "0 < l'" "l' \<le> int n + 1" "10 ^ (n + 1 - nat l') dvd N * 10 + d"
  proof -
    show "0 < l'" using c(2) st(1) by (cases "n = 0") (auto simp: l'_def digs_def)
    show "l' \<le> int n + 1" using o(7) by (simp add: l'_def)
    show "10 ^ (n + 1 - nat l') dvd N * 10 + d"
    proof (cases "c = 48")
      case True
      have "n + 1 - nat (lnz st) = Suc (n - nat (lnz st))" using o(7) by (simp add: Suc_diff_le nat_le_iff)
      then show ?thesis using True d(2) o(8) by (simp add: l'_def mult.commute)
    qed (simp add: l'_def nat_add_distrib)
  qed
  show ?thesis
  proof (cases "j + 1 = 9")
    case True
    have "\<forall>i < Suc k. x' i < B1B" using o(4) v True by (simp add: x'_def less_Suc_eq)
    moreover have "9 * k + 9 = n + 1" using o(1) True by simp
    ultimately show ?thesis using True N' l x0 top ln unfolding step by (simp add: digs_def d_def)
  next
    case False
    have "\<forall>i < k. x' i < B1B" "x' k < 10 ^ (j + 1)" using o(4) v by (simp_all add: x'_def)
    moreover have "lead k (map x' [0..<k]) * 10 ^ (j + 1) + x' k = N * 10 + d" using N' by (simp add: m A_def x'_def)
    moreover have "9 * k + (j + 1) = n + 1" "j + 1 < 9" using o(1,2) False by simp_all
    ultimately show ?thesis using False x0 top ln unfolding step by (simp add: digs_def k_def [symmetric] d_def)
  qed
qed

definition digit_text :: "byte list \<Rightarrow> bool" where
  "digit_text ds \<longleftrightarrow> (\<forall>x \<in> set ds. dig (ord x))"

lemma digit_text_simps [simp]:
  "digit_text []" "digit_text (x # ds) \<longleftrightarrow> dig (ord x) \<and> digit_text ds"
  "digit_text (ds @ es) \<longleftrightarrow> digit_text ds \<and> digit_text es"
  by (auto simp: digit_text_def)

lemma digit_val_dec: "dig (ord x) \<Longrightarrow> digit_val (ord x) = ord x - 48"
  by (auto simp: digit_val_def dig_def ord_def)

lemma dec_digits_text:
  assumes "cur s p c (ds @ t)" "digit_text ds" "digs st N n" "n + length ds \<le> 13000" "n = 0 \<Longrightarrow> ds \<noteq> [] \<Longrightarrow> hd ds \<noteq> CHR ''0''"
  shows "\<exists>c' st'. dec_digits s c p st = dec_digits s c' (p + length ds) st' \<and> cur s (p + length ds) c' t
    \<and> digs st' (digits_value 10 N ds) (n + length ds) \<and> lrp st' = lrp st \<and> gotrad st' = gotrad st
    \<and> (gotdig st' \<longleftrightarrow> gotdig st \<or> ds \<noteq> [])"
  using assms
proof (induction ds arbitrary: p c st N n)
  case (Cons x ds)
  have c: "cur s p c (x # ds @ t)" using Cons.prems(1) by simp
  from cur_next [OF c] obtain c' where c': "c = ord x" "shgetc s p = Some (c', Suc p)" "cur s (Suc p) c' (ds @ t)" by blast
  have dx: "dig (ord x)" "digit_text ds" using Cons.prems(2) by simp_all
  have "n = 0 \<Longrightarrow> c \<noteq> 48" using Cons.prems(5) c'(1) by (simp add: ord_48)
  then have st1: "digs (digit_step c st) (N * 10 + nat (digit_val (ord x))) (n + 1)" "lrp (digit_step c st) = lrp st"
      "gotrad (digit_step c st) = gotrad st" "gotdig (digit_step c st)"
    using digit_step_digs [OF Cons.prems(3), of c] Cons.prems(4) dx(1) c'(1) digit_val_dec by auto
  have "dec_digits s c p st = dec_digits s c' (Suc p) (digit_step c st)"
    using dx(1) c'(1,2) by (subst dec_digits.simps) (auto simp: dig_def)
  then show ?case using Cons.IH [OF c'(3) dx(2) st1(1)] Cons.prems(4) st1(2-4) by auto
qed auto

lemma dec_digits_stop:
  "cur s p c t \<Longrightarrow> (t \<noteq> [] \<Longrightarrow> \<not> dig (ord (hd t)) \<and> ord (hd t) \<noteq> 46) \<Longrightarrow> dec_digits s c p st = Some (c, p, st)"
  using cur_head [of s p c t] by (subst dec_digits.simps) (auto simp: dig_def split: list.splits)

lemma ord_46: "ord (CHR ''.'') = 46"
  by (simp add: ord_def)

lemma dec_digits_point:
  assumes "cur s p c (CHR ''.'' # t)" "\<not> gotrad st"
  shows "\<exists>c'. dec_digits s c p st = dec_digits s c' (Suc p) (st \<lparr> gotrad := True, lrp := dc st \<rparr>) \<and> cur s (Suc p) c' t"
proof -
  from cur_next [OF assms(1)] obtain c' where c': "c = 46" "shgetc s p = Some (c', Suc p)" "cur s (Suc p) c' t"
    unfolding ord_46 by blast
  have "dec_digits s c p st = dec_digits s c' (Suc p) (st \<lparr> gotrad := True, lrp := dc st \<rparr>)"
    using assms(2) c'(1,2) by (subst dec_digits.simps) (simp add: digit_step_def)
  then show ?thesis using c'(3) by blast
qed

text \<open>The part of \<open>dec_scan\<close> before the exponent.\<close>

definition mantissa :: "(nat \<Rightarrow> nat) \<Rightarrow> byte list \<Rightarrow> nat \<Rightarrow> int \<Rightarrow> (int \<times> nat \<times> dscan) option" where
  "mantissa u s p0 c0 = do {
     (c1, p1, n1) \<leftarrow> zeros s c0 p0 0;
     (c2, p2, n2) \<leftarrow> (if c1 = 46 then do { (c, p) \<leftarrow> shgetc s p1; zeros s c p 0 } else Some (c1, p1, 0));
     (c3, p3, st0) \<leftarrow> dec_digits s c2 p2
        \<lparr> dx = u(0 := 0), dj = 0, dk = 0, lrp = - int n2, dc = 0, lnz = 0,
          gotdig = (n1 > 0 \<or> n2 > 0), gotrad = (c1 = 46) \<rparr>;
     Some (c3, p3, if gotrad st0 then st0 else st0 \<lparr> lrp := dc st0 \<rparr>) }"

lemma dec_scan_mantissa:
  "dec_scan u s p0 c0 pok = do {
     (c3, p3, st) \<leftarrow> mantissa u s p0 c0;
     if gotdig st \<and> c3 OR 32 = 101 then do {
       (e10, p4) \<leftarrow> scanexp s pok p3;
       if e10 = LLONG_MIN then
         (if pok then do { p5 \<leftarrow> shunget p4; Some (p5, Digits st) } else Some (p4, Done (FNum False 0) None))
       else Some (p4, Digits (st \<lparr> lrp := lrp st + e10 \<rparr>)) }
     else do {
       p4 \<leftarrow> shunget p3;
       if \<not> gotdig st then Some (p4, Done (FNum False 0) (Some 22)) else Some (p4, Digits st) } }"
proof (cases "zeros s c0 p0 0")
  case (Some a)
  obtain c1 p1 n1 where a: "a = (c1, p1, n1)" by (cases a)
  show ?thesis
  proof (cases "if c1 = 46 then shgetc s p1 \<bind> (\<lambda>(c, p). zeros s c p 0) else Some (c1, p1, 0)")
    case None
    then show ?thesis using Some by (simp add: dec_scan_def mantissa_def a)
  next
    case s: (Some b)
    obtain c2 p2 n2 where b: "b = (c2, p2, n2)" by (cases b)
    show ?thesis
      unfolding dec_scan_def mantissa_def Some a bind.bind_lunit prod.case s b bind_assoc Let_def
      by (intro arg_cong [where f = "Option.bind _"] ext) (simp split: prod.splits)
  qed
qed (simp add: dec_scan_def mantissa_def)

lemma digs_update [simp]:
  "digs (st \<lparr> lrp := a \<rparr>) N n = digs st N n" "digs (st \<lparr> gotrad := b \<rparr>) N n = digs st N n" "digs (st \<lparr> gotrad := b, lrp := a \<rparr>) N n = digs st N n"
  by (simp_all add: digs_def)

lemma digs_init: "digs \<lparr> dx = u(0 := 0), dj = 0, dk = 0, lrp = l, dc = 0, lnz = 0, gotdig = g, gotrad = b \<rparr> 0 0"
  by (simp add: digs_def)

lemma split_zeros: "\<exists>a ds'. ds = replicate a (CHR ''0'') @ ds' \<and> (ds' \<noteq> [] \<longrightarrow> hd ds' \<noteq> CHR ''0'')"
proof (induction ds)
  case (Cons x ds)
  then obtain a ds' where "ds = replicate a (CHR ''0'') @ ds'" "ds' \<noteq> [] \<longrightarrow> hd ds' \<noteq> CHR ''0''" by blast
  then show ?case by (cases "x = CHR ''0''") (auto intro: exI [of _ "Suc a"] exI [of _ 0])
qed simp

lemma decv_zeros [simp]: "decv (replicate a (CHR ''0'') @ ds) = decv ds"
  by (induction a) (simp_all add: digit_val_def ord_def)

lemma digs_dc: "digs st N n \<Longrightarrow> dc st = int n"
  by (simp add: digs_def)

text \<open>The digits before and behind the point.\<close>

definition mant_text :: "byte list \<Rightarrow> byte list option \<Rightarrow> byte list" where
  "mant_text I Fr = I @ (case Fr of None \<Rightarrow> [] | Some ds \<Rightarrow> CHR ''.'' # ds)"

definition frac_digits :: "byte list option \<Rightarrow> byte list" where
  "frac_digits Fr = (case Fr of None \<Rightarrow> [] | Some ds \<Rightarrow> ds)"

definition mant_ok :: "byte list \<Rightarrow> byte list option \<Rightarrow> bool" where
  "mant_ok I Fr \<longleftrightarrow> digit_text (I @ frac_digits Fr) \<and> I @ frac_digits Fr \<noteq> [] \<and> length (I @ frac_digits Fr) \<le> 13000"

definition not_digit :: "byte list \<Rightarrow> bool" where
  "not_digit t \<longleftrightarrow> (t \<noteq> [] \<longrightarrow> \<not> dig (ord (hd t)) \<and> ord (hd t) \<noteq> 46)"

lemma cur_not_digit: "cur s p c t \<Longrightarrow> not_digit t \<Longrightarrow> \<not> dig c \<and> c \<noteq> 46 \<and> c \<noteq> 48"
  using cur_head [of s p c t] by (cases t) (auto simp: not_digit_def dig_def)

definition scanned_ok :: "dscan \<Rightarrow> nat \<Rightarrow> int \<Rightarrow> bool" where
  "scanned_ok st N e \<longleftrightarrow> (\<exists>n. digs st N n \<and> n \<le> 13000 \<and> (N = 0 \<or> lrp st = e + int n))"

lemma mantissa_int:
  assumes "cur s p c (replicate a (CHR ''0'') @ t)" "a > 0" "not_digit t"
  shows "\<exists>c' st. mantissa u s p c = Some (c', p + a, st) \<and> cur s (p + a) c' t \<and> gotdig st \<and> scanned_ok st 0 e"
proof -
  have "t \<noteq> [] \<Longrightarrow> hd t \<noteq> CHR ''0''" using assms(3) by (auto simp: not_digit_def dig_def ord_def)
  then obtain c1 where z: "zeros s c p 0 = Some (c1, p + a, a)" "cur s (p + a) c1 t"
    using zeros_text [OF assms(1), of 0] by auto
  have "c1 \<noteq> 46" using cur_not_digit [OF z(2) assms(3)] by simp
  moreover have "dec_digits s c1 (p + a) st = Some (c1, p + a, st)" for st
    using dec_digits_stop [OF z(2)] assms(3) by (simp add: not_digit_def)
  ultimately show ?thesis using assms(2) z digs_init [of u]
    by (auto simp: mantissa_def scanned_ok_def intro: exI [of _ 0])
qed

lemma mantissa_frac:
  assumes "cur s p c (replicate a (CHR ''0'') @ CHR ''.'' # ds @ t)" "digit_text ds" "0 < a + length ds" "length ds \<le> 13000"
    "not_digit t"
  shows "\<exists>c' st. mantissa u s p c = Some (c', p + (a + 1 + length ds), st) \<and> cur s (p + (a + 1 + length ds)) c' t
    \<and> gotdig st \<and> scanned_ok st (decv ds) (- int (length ds))"
proof -
  obtain c1 where z: "zeros s c p 0 = Some (c1, p + a, a)" "cur s (p + a) c1 (CHR ''.'' # ds @ t)"
    using zeros_text [OF assms(1), of 0] by auto
  have z46: "c1 = 46" using cur_next(1) [OF z(2)] ord_46 by simp
  obtain c2 where s: "shgetc s (p + a) = Some (c2, Suc (p + a))" "cur s (Suc (p + a)) c2 (ds @ t)"
    using cur_next(2) [OF z(2)] by blast
  obtain b ds' where ds: "ds = replicate b (CHR ''0'') @ ds'" "ds' \<noteq> [] \<longrightarrow> hd ds' \<noteq> CHR ''0''"
    using split_zeros [of ds] by blast
  have h: "hd (ds' @ t) \<noteq> CHR ''0''" if "ds' @ t \<noteq> []"
    using that ds(2) assms(5) by (cases "ds' = []") (auto simp: not_digit_def dig_def ord_def)
  have "cur s (Suc (p + a)) c2 (replicate b (CHR ''0'') @ (ds' @ t))" using s(2) unfolding ds(1) by simp
  from zeros_text [OF this h, of 0] obtain c3 where z3: "zeros s c2 (Suc (p + a)) 0 = Some (c3, Suc (p + a) + b, b)"
      "cur s (Suc (p + a) + b) c3 (ds' @ t)" by auto
  define st0 where "st0 = \<lparr> dx = u(0 := 0), dj = 0, dk = 0, lrp = - int b, dc = 0, lnz = 0, gotdig = (a > 0 \<or> b > 0), gotrad = True \<rparr>"
  have l: "length ds = b + length ds'" "digit_text ds'" using assms(2) ds(1) by simp_all
  obtain c4 st where d: "dec_digits s c3 (Suc (p + a) + b) st0 = dec_digits s c4 (Suc (p + a) + b + length ds') st"
      "cur s (Suc (p + a) + b + length ds') c4 t" "digs st (decv ds') (length ds')" "lrp st = - int b" "gotrad st"
      "gotdig st \<longleftrightarrow> gotdig st0 \<or> ds' \<noteq> []"
    using dec_digits_text [OF z3(2) l(2), of st0 0 0] digs_init assms(4) ds(2) l(1) by (auto simp: st0_def)
  have "dec_digits s c4 (Suc (p + a) + b + length ds') st = Some (c4, Suc (p + a) + b + length ds', st)"
    using dec_digits_stop [OF d(2)] assms(5) by (simp add: not_digit_def)
  moreover have "scanned_ok st (decv ds) (- int (length ds))"
    unfolding scanned_ok_def using d(3,4) l(1) assms(4) ds(1) by (intro exI [of _ "length ds'"]) simp
  moreover have "gotdig st" using d(6) assms(3) l(1) by (auto simp: st0_def)
  ultimately show ?thesis
    using z(1) s(1) z3(1) d(1,2,5) l(1) unfolding z46 by (simp add: mantissa_def st0_def [symmetric] algebra_simps)
qed

lemma mantissa_both:
  assumes "cur s p c (replicate a (CHR ''0'') @ is @ t0)" "digit_text is" "is \<noteq> []" "hd is \<noteq> CHR ''0''"
    and "t0 = (case Fr of None \<Rightarrow> t | Some ds \<Rightarrow> CHR ''.'' # ds @ t)"
    and "digit_text (frac_digits Fr)" "length is + length (frac_digits Fr) \<le> 13000" "not_digit t"
  shows "\<exists>c' st. mantissa u s p c = Some (c', p + a + length (mant_text is Fr), st)
    \<and> cur s (p + a + length (mant_text is Fr)) c' t \<and> gotdig st
    \<and> scanned_ok st (decv (is @ frac_digits Fr)) (- int (length (frac_digits Fr)))"
proof -
  have h: "is @ t0 \<noteq> [] \<Longrightarrow> hd (is @ t0) \<noteq> CHR ''0''" using assms(3,4) by simp
  from zeros_text [OF assms(1) h, of 0] obtain c1 where z: "zeros s c p 0 = Some (c1, p + a, a)" "cur s (p + a) c1 (is @ t0)"
    by auto
  have "c1 = ord (hd is)" using cur_head [OF z(2)] assms(3) by (cases "is") auto
  then have c1: "c1 \<noteq> 46" using assms(2,3) by (cases "is") (auto simp: dig_def)
  define st0 where "st0 = \<lparr> dx = u(0 := 0), dj = 0, dk = 0, lrp = 0, dc = 0, lnz = 0, gotdig = (a > 0), gotrad = False \<rparr>"
  obtain c2 st where d: "dec_digits s c1 (p + a) st0 = dec_digits s c2 (p + a + length is) st"
      "cur s (p + a + length is) c2 t0" "digs st (decv is) (length is)" "\<not> gotrad st" "gotdig st"
    using dec_digits_text [OF z(2) assms(2), of st0 0 0] digs_init assms(3,4,7) by (auto simp: st0_def)
  have m: "mantissa u s p c = do { (c3, p3, st1) \<leftarrow> dec_digits s c2 (p + a + length is) st;
      Some (c3, p3, if gotrad st1 then st1 else st1 \<lparr> lrp := dc st1 \<rparr>) }"
    using z(1) c1 d(1) by (simp add: mantissa_def st0_def [symmetric])
  show ?thesis
  proof (cases Fr)
    case None
    then have t0: "t0 = t" using assms(5) by simp
    have "dec_digits s c2 (p + a + length is) st = Some (c2, p + a + length is, st)"
      using dec_digits_stop [OF d(2)] assms(8) unfolding t0 by (simp add: not_digit_def)
    then show ?thesis
      unfolding m using d(2-5) digs_dc [OF d(3)] None assms(7) t0
      by (auto simp: mant_text_def frac_digits_def scanned_ok_def intro: exI [of _ "length is"])
  next
    case (Some ds)
    then have t0: "t0 = CHR ''.'' # ds @ t" using assms(5) by simp
    have ds: "digit_text ds" "length is + length ds \<le> 13000" using assms(6,7) Some by (simp_all add: frac_digits_def)
    define st1 where "st1 = st \<lparr> gotrad := True, lrp := dc st \<rparr>"
    obtain c3 where e: "dec_digits s c2 (p + a + length is) st = dec_digits s c3 (Suc (p + a + length is)) st1"
        "cur s (Suc (p + a + length is)) c3 (ds @ t)"
      using dec_digits_point [OF d(2) [unfolded t0] d(4)] unfolding st1_def by blast
    have s1: "digs st1 (decv is) (length is)" using d(3) by (simp add: st1_def)
    obtain c4 st2 where f: "dec_digits s c3 (Suc (p + a + length is)) st1 = dec_digits s c4 (Suc (p + a + length is) + length ds) st2"
        "cur s (Suc (p + a + length is) + length ds) c4 t" "digs st2 (digits_value 10 (decv is) ds) (length is + length ds)"
        "lrp st2 = lrp st1" "gotrad st2" "gotdig st2"
      using dec_digits_text [OF e(2) ds(1) s1 ds(2)] assms(3) d(5) by (auto simp: st1_def)
    have "dec_digits s c4 (Suc (p + a + length is) + length ds) st2 = Some (c4, Suc (p + a + length is) + length ds, st2)"
      using dec_digits_stop [OF f(2)] assms(8) by (simp add: not_digit_def)
    moreover have "scanned_ok st2 (decv (is @ ds)) (- int (length ds))"
      unfolding scanned_ok_def digits_value_append
      using f(3,4) digs_dc [OF d(3)] ds(2) by (intro exI [of _ "length is + length ds"]) (simp add: st1_def)
    ultimately show ?thesis
      unfolding m using e(1) f Some by (simp add: mant_text_def frac_digits_def algebra_simps)
  qed
qed

lemma mantissa_text:
  assumes "cur s p c (mant_text I Fr @ t)" "mant_ok I Fr" "not_digit t"
  shows "\<exists>c' st. mantissa u s p c = Some (c', p + length (mant_text I Fr), st)
    \<and> cur s (p + length (mant_text I Fr)) c' t \<and> gotdig st
    \<and> scanned_ok st (decv (I @ frac_digits Fr)) (- int (length (frac_digits Fr)))"
proof -
  obtain a "is" where I: "I = replicate a (CHR ''0'') @ is" "is \<noteq> [] \<longrightarrow> hd is \<noteq> CHR ''0''" using split_zeros [of I] by blast
  show ?thesis
  proof (cases "is = []")
    case True
    show ?thesis
    proof (cases Fr)
      case None
      have "cur s p c (replicate a (CHR ''0'') @ t)" using assms(1) None True I by (simp add: mant_text_def)
      from mantissa_int [OF this _ assms(3), of u "0"] assms(2) I True None show ?thesis
        using decv_zeros [of a "[]"] by (auto simp: mant_ok_def frac_digits_def mant_text_def)
    next
      case (Some ds)
      have "cur s p c (replicate a (CHR ''0'') @ CHR ''.'' # ds @ t)" using assms(1) Some True I by (simp add: mant_text_def)
      from mantissa_frac [OF this _ _ _ assms(3), of u] assms(2) I True Some show ?thesis
        by (simp add: mant_ok_def frac_digits_def mant_text_def)
    qed
  next
    case False
    have "cur s p c (replicate a (CHR ''0'') @ is @ (case Fr of None \<Rightarrow> t | Some ds \<Rightarrow> CHR ''.'' # ds @ t))"
      using assms(1) I by (cases Fr) (simp_all add: mant_text_def)
    from mantissa_both [OF this _ False _ refl _ _ assms(3), of u] assms(2) I False show ?thesis
      by (simp add: mant_ok_def mant_text_def add.assoc)
  qed
qed

subsection \<open>The exponent\<close>

lemma digits_value_le: "n \<le> digits_value 10 n ds"
proof (induction ds arbitrary: n)
  case (Cons x ds)
  show ?case using Cons [of "n * 10 + nat (digit_val (ord x))"] by simp
qed simp

lemma exp_digits_text:
  assumes "cur s p c (ds @ t)" "digit_text ds" "not_digit t" "int (digits_value 10 n ds) < b"
  shows "\<exists>c'. exp_digits b s c p (int n) = Some (c', p + length ds, int (digits_value 10 n ds)) \<and> cur s (p + length ds) c' t"
  using assms
proof (induction ds arbitrary: p c n)
  case Nil
  then show ?case using cur_not_digit [of s p c t] by (subst exp_digits.simps) auto
next
  case (Cons x ds)
  have c: "cur s p c (x # ds @ t)" using Cons.prems(1) by simp
  from cur_next [OF c] obtain c' where c': "c = ord x" "shgetc s p = Some (c', Suc p)" "cur s (Suc p) c' (ds @ t)" by blast
  have dx: "dig (ord x)" "digit_text ds" using Cons.prems(2) by simp_all
  have v: "10 * int n + c - 48 = int (n * 10 + nat (digit_val (ord x)))"
    using dx(1) c'(1) digit_val_dec [OF dx(1)] by (simp add: dig_def)
  have lt: "int (digits_value 10 (n * 10 + nat (digit_val (ord x))) ds) < b" using Cons.prems(4) by simp
  moreover have "n \<le> digits_value 10 (n * 10 + nat (digit_val (ord x))) ds"
    using digits_value_le [of "n * 10 + nat (digit_val (ord x))" ds] by simp
  ultimately have "int n < b" by linarith
  moreover have "\<exists>c''. exp_digits b s c' (Suc p) (10 * int n + c - 48)
      = Some (c'', Suc p + length ds, int (digits_value 10 (n * 10 + nat (digit_val (ord x))) ds)) \<and> cur s (Suc p + length ds) c'' t"
    unfolding v by (rule Cons.IH [OF c'(3) dx(2) Cons.prems(3) lt])
  ultimately show ?case using dx(1) c'(1,2) by (subst exp_digits.simps) auto
qed

definition apply_sign :: "byte list \<Rightarrow> int \<Rightarrow> int" where
  "apply_sign sg v = (if sg = ''-'' then - v else v)"

lemma skip_digits_stop: "cur s p c t \<Longrightarrow> not_digit t \<Longrightarrow> skip_digits s c p = Some (c, p)"
  using cur_not_digit [of s p c t] by (subst skip_digits.simps) auto

lemma exp_digits_stop: "cur s p c t \<Longrightarrow> not_digit t \<Longrightarrow> exp_digits b s c p v = Some (c, p, v)"
  using cur_not_digit [of s p c t] by (subst exp_digits.simps) auto

lemma scanexp_text:
  assumes "cur s p c (x # sg @ D @ t)" "sign_text sg" "digit_text D" "D \<noteq> []" "not_digit t" "decv D < 214748364"
  shows "scanexp s pok p = Some (apply_sign sg (int (decv D)), p + length sg + length D)"
proof -
  obtain c0 where s0: "shgetc s p = Some (c0, Suc p)" "cur s (Suc p) c0 (sg @ D @ t)" using cur_next(2) [OF assms(1)] by blast
  obtain y D' where D: "D = y # D'" "dig (ord y)" using assms(3,4) by (cases D) auto
  define q where "q = Suc p + length sg"
  obtain c1 where s1: "(if c0 = 43 \<or> c0 = 45 then shgetc s (Suc p) else Some (c0, Suc p)) = Some (c1, q)" "cur s q c1 (D @ t)"
    and c0: "c0 = 45 \<longleftrightarrow> sg = ''-''"
  proof (cases "sg = []")
    case True
    have "c0 = ord y" using cur_head [OF s0(2)] True D by simp
    then have "c0 \<noteq> 43" "c0 \<noteq> 45" using D(2) by (auto simp: dig_def)
    then show ?thesis using that [of c0] s0(2) True by (simp add: q_def)
  next
    case False
    then obtain z where z: "sg = [z]" "z = CHR ''+'' \<or> z = CHR ''-''" using assms(2) by (auto simp: sign_text_def)
    have zc: "cur s (Suc p) c0 (z # D @ t)" using s0(2) z(1) by simp
    have "c0 = (if z = CHR ''-'' then 45 else 43)" using cur_next(1) [OF zc] z(2) by (auto simp: ord_def)
    moreover obtain c1 where "shgetc s (Suc p) = Some (c1, q)" "cur s q c1 (D @ t)"
      using cur_next(2) [OF zc] z(1) by (auto simp: q_def)
    ultimately show ?thesis using that [of c1] z by (auto split: if_splits)
  qed
  have "c1 = ord y" using cur_head [OF s1(2)] D(1) by simp
  then have dc1: "dig c1" using D(2) by simp
  obtain c2 where e: "exp_digits 214748364 s c1 q 0 = Some (c2, q + length D, int (decv D))" "cur s (q + length D) c2 t"
    using exp_digits_text [OF s1(2) assms(3,5), of 0 214748364] assms(6) by auto
  show ?thesis
    using s0(1) s1(1) dc1 e(1) c0 exp_digits_stop [OF e(2) assms(5)] skip_digits_stop [OF e(2) assms(5)] cur_unget [OF e(2)]
    by (simp add: scanexp_def Let_def apply_sign_def q_def)
qed

text \<open>The exponent with its letter, if there is one.\<close>

type_synonym exponent = "(byte \<times> byte list \<times> byte list) option"

definition exp_text :: "exponent \<Rightarrow> byte list" where
  "exp_text ex = (case ex of None \<Rightarrow> [] | Some (x, sg, D) \<Rightarrow> x # sg @ D)"

definition exp_ok :: "exponent \<Rightarrow> bool" where
  "exp_ok ex \<longleftrightarrow> (case ex of None \<Rightarrow> True
     | Some (x, sg, D) \<Rightarrow> (x = CHR ''e'' \<or> x = CHR ''E'') \<and> sign_text sg \<and> digit_text D \<and> D \<noteq> [] \<and> decv D < 214748364)"

definition exp_value :: "exponent \<Rightarrow> int" where
  "exp_value ex = (case ex of None \<Rightarrow> 0 | Some (x, sg, D) \<Rightarrow> apply_sign sg (int (decv D)))"

lemma or_32: "dig c \<Longrightarrow> c OR 32 = c" "c = 46 \<Longrightarrow> c OR 32 = c"
proof -
  show "c OR 32 = c" if "dig c"
  proof -
    have "c \<in> {48, 49, 50, 51, 52, 53, 54, 55, 56, 57}" using that unfolding dig_def insert_iff empty_iff by presburger
    then show ?thesis by auto
  qed
qed simp

lemma or_32_e: "ord (CHR ''e'') = 101" "ord (CHR ''E'') = 69" "(69 :: int) OR 32 = 101" "(101 :: int) OR 32 = 101"
  by (simp_all add: ord_def)

lemma stops_not_digit: "stops t \<Longrightarrow> not_digit t"
  by (cases t) (simp_all add: stops_def not_digit_def)

lemma exp_not_digit: "exp_ok ex \<Longrightarrow> stops t \<Longrightarrow> not_digit (exp_text ex @ t)"
  using stops_not_digit [of t]
  by (auto simp: exp_ok_def exp_text_def not_digit_def dig_def or_32_e split: option.splits prod.splits)

lemma dec_scan_text:
  assumes "cur s p c (mant_text I Fr @ exp_text ex @ t)" "mant_ok I Fr" "exp_ok ex" "stops t"
  shows "\<exists>st. dec_scan u s p c pok = Some (p + length (mant_text I Fr) + length (exp_text ex) - 1, Digits st)
    \<and> scanned_ok st (decv (I @ frac_digits Fr)) (exp_value ex - int (length (frac_digits Fr)))"
proof -
  obtain c' st where m: "mantissa u s p c = Some (c', p + length (mant_text I Fr), st)"
      "cur s (p + length (mant_text I Fr)) c' (exp_text ex @ t)" "gotdig st"
      "scanned_ok st (decv (I @ frac_digits Fr)) (- int (length (frac_digits Fr)))"
    using mantissa_text [OF assms(1,2) exp_not_digit [OF assms(3,4)]] by blast
  define q where "q = p + length (mant_text I Fr)"
  show ?thesis
  proof (cases ex)
    case None
    have "c' OR 32 \<noteq> 101" using cur_head [OF m(2)] assms(4) None by (cases t) (auto simp: exp_text_def stops_def)
    then show ?thesis
      using m cur_unget [OF m(2)] None by (simp add: dec_scan_mantissa exp_text_def exp_value_def)
  next
    case (Some e)
    obtain x sg D where e: "e = (x, sg, D)" by (cases e)
    have ex: "x = CHR ''e'' \<or> x = CHR ''E''" "sign_text sg" "digit_text D" "D \<noteq> []" "decv D < 214748364"
      using assms(3) Some e by (simp_all add: exp_ok_def)
    have cx: "cur s q c' (x # sg @ D @ t)" using m(2) Some e by (simp add: exp_text_def q_def)
    have "c' OR 32 = 101" using cur_next(1) [OF cx] ex(1) or_32_e by auto
    moreover have "scanexp s pok q = Some (apply_sign sg (int (decv D)), q + length sg + length D)"
      by (rule scanexp_text [OF cx ex(2-4) stops_not_digit [OF assms(4)] ex(5)])
    moreover have "apply_sign sg (int (decv D)) \<noteq> LLONG_MIN" using ex(5) by (auto simp: apply_sign_def LLONG_MIN_def)
    moreover have "scanned_ok (st \<lparr> lrp := lrp st + apply_sign sg (int (decv D)) \<rparr>) (decv (I @ frac_digits Fr))
        (apply_sign sg (int (decv D)) - int (length (frac_digits Fr)))"
      using m(4) by (auto simp: scanned_ok_def)
    ultimately show ?thesis
      using m(1,3) Some e by (simp add: dec_scan_mantissa exp_text_def exp_value_def q_def)
  qed
qed

subsection \<open>The whole string\<close>

lemma spaces_text:
  "\<forall>x \<in> set ws. isspace (ord x) \<Longrightarrow> k \<le> length s \<Longrightarrow> drop k s = ws @ t \<Longrightarrow> (t \<noteq> [] \<Longrightarrow> \<not> isspace (ord (hd t))) \<Longrightarrow>
    \<exists>c. spaces s k = Some (c, Suc (k + length ws)) \<and> cur s (Suc (k + length ws)) c t"
proof (induction ws arbitrary: k)
  case Nil
  obtain c where c: "shgetc s k = Some (c, Suc k)" "cur s (Suc k) c t" using shgetc_first [OF Nil.prems(2)] Nil.prems(3) by auto
  have "\<not> isspace c" using cur_head [OF c(2)] Nil.prems(4) by (cases t) (auto simp: isspace_def ord_def)
  then show ?case using c by (subst spaces.simps) simp
next
  case (Cons x ws)
  obtain c where c: "shgetc s k = Some (c, Suc k)" "cur s (Suc k) c (x # ws @ t)"
    using shgetc_first [OF Cons.prems(2)] Cons.prems(3) by auto
  have "k < length s" using Cons.prems(2,3) by (cases "k = length s") simp_all
  moreover have "drop (Suc k) s = ws @ t" using Cons.prems(3) by (simp add: drop_Suc drop_tl)
  ultimately obtain c' where "spaces s (Suc k) = Some (c', Suc (Suc k + length ws))" "cur s (Suc (Suc k + length ws)) c' t"
    using Cons.IH [of "Suc k"] Cons.prems(1,4) by auto
  then show ?case using c(1) cur_next(1) [OF c(2)] Cons.prems(1) by (subst spaces.simps) simp
qed

text \<open>The first character of a numeral: a digit or the point.\<close>

lemma mant_first:
  assumes "mant_ok I Fr"
  shows "\<exists>x m. mant_text I Fr = x # m \<and> (dig (ord x) \<or> ord x = 46)"
proof (cases I)
  case Nil
  then show ?thesis using assms by (auto simp: mant_ok_def mant_text_def frac_digits_def ord_46 split: option.splits)
next
  case (Cons x I')
  then show ?thesis using assms by (auto simp: mant_ok_def mant_text_def)
qed

lemma no_word:
  assumes "dig c \<or> c = 46"
  shows "match_word ''infinity'' s c p 0 = Some (c, p, 0)" "match_word ''nan'' s c p 0 = Some (c, p, 0)"
proof -
  have "c OR 32 = c" using assms or_32 by blast
  then have "c OR 32 < 58" using assms by (auto simp: dig_def)
  then have "c OR 32 \<noteq> ord (CHR ''i'')" "c OR 32 \<noteq> ord (CHR ''n'')" by (simp_all add: ord_def)
  then show "match_word ''infinity'' s c p 0 = Some (c, p, 0)" "match_word ''nan'' s c p 0 = Some (c, p, 0)" by simp_all
qed

lemma digit_not_space: "dig c \<or> c = 46 \<Longrightarrow> \<not> isspace c"
  by (auto simp: dig_def isspace_def ord_def)

lemma prefix_text:
  assumes "s = ws @ sg @ x # t" "\<forall>y \<in> set ws. isspace (ord y)" "sign_text sg" "dig (ord x) \<or> ord x = 46"
  shows "prefix_scan s pok en = Some (Number (ord x) (length ws + length sg + 1) (apply_sign sg 1))
    \<and> cur s (length ws + length sg + 1) (ord x) (x # t)"
proof -
  have ns: "\<not> isspace (ord (hd (sg @ x # t)))"
    using assms(3) digit_not_space [OF assms(4)] by (auto simp: sign_text_def isspace_def ord_def)
  obtain c0 where c0: "spaces s 0 = Some (c0, Suc (length ws))" "cur s (Suc (length ws)) c0 (sg @ x # t)"
    using spaces_text [OF assms(2), of 0 s "sg @ x # t"] ns assms(1) by auto
  have c1: "(if c0 = 43 \<or> c0 = 45 then shgetc s (Suc (length ws)) else Some (c0, Suc (length ws))) = Some (ord x, length ws + length sg + 1)
      \<and> cur s (length ws + length sg + 1) (ord x) (x # t) \<and> (c0 = 45 \<longleftrightarrow> sg = ''-'')"
  proof (cases "sg = []")
    case True
    then have "c0 = ord x" using cur_head [OF c0(2)] by simp
    then show ?thesis using True assms(4) c0(2) by (auto simp: dig_def)
  next
    case False
    then obtain z where z: "sg = [z]" "z = CHR ''+'' \<or> z = CHR ''-''" using assms(3) by (auto simp: sign_text_def)
    have zc: "cur s (Suc (length ws)) c0 (z # x # t)" using c0(2) z(1) by simp
    have "c0 = (if z = CHR ''-'' then 45 else 43)" using cur_next(1) [OF zc] z(2) by (auto simp: ord_def)
    moreover obtain c1 where c1: "shgetc s (Suc (length ws)) = Some (c1, length ws + 2)" "cur s (length ws + 2) c1 (x # t)"
      using cur_next(2) [OF zc] by auto
    moreover have "c1 = ord x" using cur_head [OF c1(2)] by simp
    ultimately show ?thesis using z by (auto split: if_splits)
  qed
  note w = no_word [OF assms(4)] and neg = c1 [THEN conjunct2, THEN conjunct2]
  have "prefix_scan s pok en = Some (Number (ord x) (length ws + length sg + 1) (apply_sign sg 1))"
    unfolding prefix_scan_def Let_def c0(1) bind.bind_lunit prod.case c1 [THEN conjunct1] w
    using neg by (simp add: w apply_sign_def del: match_word.simps)
  then show ?thesis using c1 by simp
qed

definition numeral_text :: "byte list \<Rightarrow> byte list \<Rightarrow> byte list option \<Rightarrow> exponent \<Rightarrow> byte list" where
  "numeral_text sg I Fr ex = sg @ mant_text I Fr @ exp_text ex"

definition numeral_ok :: "byte list \<Rightarrow> byte list \<Rightarrow> byte list option \<Rightarrow> exponent \<Rightarrow> bool" where
  "numeral_ok sg I Fr ex \<longleftrightarrow> sign_text sg \<and> mant_ok I Fr \<and> exp_ok ex"

text \<open>The number that the text denotes is \<open>num_int * 10 ^ num_exp\<close>.\<close>

definition num_int :: "byte list \<Rightarrow> byte list option \<Rightarrow> nat" where
  "num_int I Fr = decv (I @ frac_digits Fr)"

definition num_exp :: "byte list option \<Rightarrow> exponent \<Rightarrow> int" where
  "num_exp Fr ex = exp_value ex - int (length (frac_digits Fr))"

lemma not_x_next:
  assumes "mant_text I Fr = x # m" "mant_ok I Fr" "exp_ok ex" "stops t" "cur s p c (m @ exp_text ex @ t)"
  shows "c OR 32 \<noteq> 120"
proof (cases m)
  case Nil
  show ?thesis
  proof (cases ex)
    case None
    then show ?thesis using cur_head [OF assms(5)] Nil assms(4) by (cases t) (auto simp: exp_text_def stops_def)
  next
    case (Some e)
    then show ?thesis using cur_head [OF assms(5)] Nil assms(3)
      by (auto simp: exp_text_def exp_ok_def or_32_e split: prod.splits)
  qed
next
  case (Cons y m')
  have "dig (ord y) \<or> ord y = 46"
    using assms(1,2) Cons
    by (cases I; cases Fr) (auto simp: mant_text_def mant_ok_def frac_digits_def ord_46 Cons_eq_append_conv append_eq_Cons_conv)
  moreover have "c = ord y" using cur_head [OF assms(5)] Cons by simp
  ultimately show ?thesis using or_32 [of c] by (auto simp: dig_def)
qed

lemma number_text:
  assumes "s = ws @ numeral_text sg I Fr ex @ t" "\<forall>y \<in> set ws. isspace (ord y)" "numeral_ok sg I Fr ex" "stops t"
    and F: "prec_fmt prec = Some F"
  shows "\<exists>st. floatscan u s prec True en =
      (case dec_convert st (mant F) (least F) (apply_sign sg 1) en of
         Inl b \<Rightarrow> Inl b | Inr (v, e) \<Rightarrow> Inr (v, length ws + length (numeral_text sg I Fr ex), e))
    \<and> scanned_ok st (num_int I Fr) (num_exp Fr ex)"
proof -
  have ok: "sign_text sg" "mant_ok I Fr" "exp_ok ex" using assms(3) by (simp_all add: numeral_ok_def)
  obtain x m where x: "mant_text I Fr = x # m" "dig (ord x) \<or> ord x = 46" using mant_first [OF ok(2)] by blast
  define p where "p = length ws + length sg + 1"
  have "s = ws @ sg @ x # m @ exp_text ex @ t" using assms(1) x(1) by (simp add: numeral_text_def)
  from prefix_text [OF this assms(2) ok(1) x(2), of True en]
  have pre: "prefix_scan s True en = Some (Number (ord x) p (apply_sign sg 1))" "cur s p (ord x) (x # m @ exp_text ex @ t)"
    by (simp_all add: p_def)
  have cr: "cur s p (ord x) (mant_text I Fr @ exp_text ex @ t)" using pre(2) x(1) by simp
  obtain st where d: "dec_scan u s p (ord x) True = Some (p + length (mant_text I Fr) + length (exp_text ex) - 1, Digits st)"
      "scanned_ok st (num_int I Fr) (num_exp Fr ex)"
    using dec_scan_text [OF cr ok(2,3) assms(4), of u True] by (auto simp: num_int_def num_exp_def)
  obtain c' where c': "shgetc s p = Some (c', Suc p)" "cur s (Suc p) c' (m @ exp_text ex @ t)"
    using cur_next(2) [OF pre(2)] by blast
  have nx: "c' OR 32 \<noteq> 120" by (rule not_x_next [OF x(1) ok(2,3) assms(4) c'(2)])
  have len: "p + length (mant_text I Fr) + length (exp_text ex) - 1 = length ws + length (numeral_text sg I Fr ex)"
    by (simp add: p_def numeral_text_def)
  have "number u s (ord x) p F (apply_sign sg 1) True en =
      (case dec_convert st (mant F) (least F) (apply_sign sg 1) en of
         Inl b \<Rightarrow> Inl b | Inr (v, e) \<Rightarrow> Inr (v, length ws + length (numeral_text sg I Fr ex), e))"
    using d(1) c'(1) nx cur_unget [OF c'(2)] unfolding len by (auto simp: number_def Let_def)
  then show ?thesis using F pre(1) d(2) by (auto simp: floatscan_def)
qed

subsection \<open>Correct rounding\<close>

text \<open>
  The numerals for which \<^verbatim>\<open>decfloat\<close> stores a limb before its array: less than four limbs at the end of the
  ring. They are smaller than \<open>10 ^ 18\<close> and their digits are a multiple of a power of five.
\<close>

definition short_limbs :: "nat \<Rightarrow> int \<Rightarrow> bool" where
  "short_limbs N e \<longleftrightarrow> N \<noteq> 0 \<and>
     (\<exists>c \<in> {0, 1, 2 :: nat}. of_nat N * 10 powi e < (10 :: rat) ^ (9 * c) \<and> 5 ^ nat (9 * (int c + 1) - e) dvd N)"

lemma pow5_dvd_cancel: "(5 :: nat) ^ k dvd N * 2 ^ t \<Longrightarrow> 5 ^ k dvd N"
proof -
  have "coprime ((5 :: nat) ^ k) (2 ^ t)" by (simp add: coprime_iff_gcd_eq_1 flip: coprime_iff_gcd_eq_1)
  then show "(5 :: nat) ^ k dvd N * 2 ^ t \<Longrightarrow> 5 ^ k dvd N" by (simp add: coprime_dvd_mult_left_iff)
qed

lemma wraps_dvd:
  assumes "of_nat N * 10 powi e * 2 ^ t = 5 ^ k * (of_nat m :: rat)"
  shows "5 ^ nat (int k - e) dvd N"
proof (cases "0 \<le> e")
  case True
  define a where "a = nat e"
  have a: "e = int a" using True by (simp add: a_def)
  have "(of_nat (N * 10 ^ a * 2 ^ t) :: rat) = of_nat (5 ^ k * m)" using assms a by simp
  then have "N * 10 ^ a * 2 ^ t = 5 ^ k * m" by (simp only: of_nat_eq_iff)
  moreover have "(10 :: nat) ^ a = 5 ^ a * 2 ^ a" by (simp add: power_mult_distrib [symmetric])
  ultimately have "N * 5 ^ a * 2 ^ (a + t) = 5 ^ k * m" by (simp add: power_add algebra_simps)
  then have "5 ^ k dvd N * 5 ^ a * 2 ^ (a + t)" by simp
  then have d: "5 ^ k dvd N * 5 ^ a" by (rule pow5_dvd_cancel)
  show ?thesis
  proof (cases "k \<le> a")
    case False
    then have "(5 :: nat) ^ k = 5 ^ (k - a) * 5 ^ a" by (simp add: power_add [symmetric])
    then have "5 ^ (k - a) dvd N" using d by simp
    moreover have "nat (int k - e) = k - a" unfolding a by simp
    ultimately show ?thesis by simp
  qed (simp add: a)
next
  case False
  define f where "f = nat (- e)"
  have f: "e = - int f" using False by (simp add: f_def)
  have "of_nat N * 2 ^ t = 5 ^ k * of_nat m * (10 :: rat) ^ f"
    using assms unfolding f by (simp add: power_int_minus power_int_of_nat field_simps)
  then have "(of_nat (N * 2 ^ t) :: rat) = of_nat (5 ^ k * m * 10 ^ f)" by simp
  then have "N * 2 ^ t = 5 ^ k * m * 10 ^ f" by (simp only: of_nat_eq_iff)
  also have "(10 :: nat) ^ f = 5 ^ f * 2 ^ f" by (simp add: power_mult_distrib [symmetric])
  finally have "N * 2 ^ t = 5 ^ (k + f) * (m * 2 ^ f)" by (simp add: power_add algebra_simps)
  then have "5 ^ (k + f) dvd N * 2 ^ t" by simp
  then have "5 ^ (k + f) dvd N" by (rule pow5_dvd_cancel)
  moreover have "nat (int k - e) = k + f" unfolding f by simp
  ultimately show ?thesis by simp
qed

lemma wraps_short:
  assumes "digs st N n" "N \<noteq> 0" "lrp st = e + int n" "wraps (numeral_value st) (lrp st)"
  shows "short_limbs N e"
proof -
  have V: "numeral_value st = of_nat N * 10 powi e" using numeral_value_eq [OF assms(1)] assms(3) by simp
  obtain t m :: nat where w: "(lrp st + 8) div 9 \<in> {0, 1, 2}"
      "numeral_value st * 2 ^ t = 5 ^ nat (9 * ((lrp st + 8) div 9 + 1)) * of_nat m"
    using assms(4) by (auto simp: wraps_def)
  define c where "c = nat ((lrp st + 8) div 9)"
  have c: "c \<in> {0, 1, 2}" "(lrp st + 8) div 9 = int c" using w(1) by (auto simp: c_def)
  have "5 ^ nat (int (nat (9 * (int c + 1))) - e) dvd N" using w(2) unfolding V c(2) by (rule wraps_dvd)
  then have "5 ^ nat (9 * (int c + 1) - e) dvd N" by simp
  moreover have "numeral_value st < 10 ^ (9 * c)"
  proof -
    have n0: "0 < n" using assms(1,2) by (cases n) (auto simp: digs_def)
    have "numeral_value st < 10 powi lrp st"
      using numeral_bounds(5) [OF assms(1) n0] powi10_pos [of "lrp st"] by (simp add: numeral_value_def)
    also have "\<dots> \<le> 10 powi (int (9 * c))" by (rule powi10_mono) (use c(2) in linarith)
    finally show ?thesis by (simp only: power_int_of_nat)
  qed
  ultimately show ?thesis using c(1) assms(2) unfolding short_limbs_def V by blast
qed

lemma apply_sign_1: "sign_text sg \<Longrightarrow> apply_sign sg 1 = 1 \<or> apply_sign sg 1 = -1" "apply_sign sg 1 < 0 \<longleftrightarrow> sg = ''-''"
  by (auto simp: apply_sign_def)

lemma strtox_rounds:
  assumes "s = ws @ numeral_text sg I Fr ex @ t" "\<forall>y \<in> set ws. isspace (ord y)" "numeral_ok sg I Fr ex" "stops t"
    and F: "prec_fmt prec = Some F" "narrow F"
    and nw: "\<not> short_limbs (num_int I Fr) (num_exp Fr ex)"
    and neg: "sg = ''-'' \<Longrightarrow> num_int I Fr = 0 \<or> 2 powi (least F + 1) \<le> (of_nat (num_int I Fr) * 10 powi num_exp Fr ex :: rat)"
  shows "\<exists>en'. conv_result F (strtox u s prec en) =
    Inr (fround F (sg = ''-'') (of_nat (num_int I Fr) * 10 powi num_exp Fr ex), length ws + length (numeral_text sg I Fr ex), en')"
proof -
  obtain st where st: "floatscan u s prec True en =
      (case dec_convert st (mant F) (least F) (apply_sign sg 1) en of
         Inl b \<Rightarrow> Inl b | Inr (v, e) \<Rightarrow> Inr (v, length ws + length (numeral_text sg I Fr ex), e))"
      "scanned_ok st (num_int I Fr) (num_exp Fr ex)"
    using number_text [OF assms(1-4) F(1)] by blast
  obtain n where n: "digs st (num_int I Fr) n" "n \<le> 13000" "num_int I Fr = 0 \<or> lrp st = num_exp Fr ex + int n"
    using st(2) by (auto simp: scanned_ok_def)
  have V: "numeral_value st = of_nat (num_int I Fr) * 10 powi num_exp Fr ex"
    using numeral_value_eq [OF n(1)] n(3) by auto
  have sg: "apply_sign sg 1 = 1 \<or> apply_sign sg 1 = -1" "apply_sign sg 1 < 0 \<longleftrightarrow> sg = ''-''"
    using apply_sign_1 assms(3) by (auto simp: numeral_ok_def)
  have w: "num_int I Fr = 0 \<or> \<not> wraps (numeral_value st) (lrp st)" using wraps_short [OF n(1)] n(3) nw by blast
  obtain v en' where "dec_convert st (mant F) (least F) (apply_sign sg 1) en = Inr (v, en')"
      "fconv F v = fround F (apply_sign sg 1 < 0) (numeral_value st)"
    using dec_convert_spec [OF F(2) n(1,2) sg(1) _ w, of en] neg unfolding sg(2) V by blast
  then show ?thesis using st(1) unfolding sg(2) V by (simp add: conv_result_def strtox_def)
qed

lemma strtod_rounds:
  assumes "\<forall>y \<in> set ws. isspace (ord y)" "numeral_ok sg I Fr ex" "stops t" "\<not> short_limbs (num_int I Fr) (num_exp Fr ex)"
    and "sg = ''-'' \<Longrightarrow> num_int I Fr = 0 \<or> 2 powi (least double + 1) \<le> (of_nat (num_int I Fr) * 10 powi num_exp Fr ex :: rat)"
  shows "\<exists>en'. strtod u (ws @ numeral_text sg I Fr ex @ t) en =
    Inr (fround double (sg = ''-'') (of_nat (num_int I Fr) * 10 powi num_exp Fr ex), length ws + length (numeral_text sg I Fr ex), en')"
  unfolding strtod_def
  by (rule strtox_rounds [OF refl assms(1-3) _ _ assms(4)])
    (simp add: prec_fmt_def, simp add: narrow_def, rule assms(5))

text \<open>C32: \<^verbatim>\<open>strtod\<close> on a decimal numeral of at most 13000 digits (white space, a sign, digits with a decimal point,
  an exponent) returns the double nearest to the number, ties to even, with overflow to infinity and gradual
  underflow, and the end pointer behind the numeral. Excluded are the numerals that run into the store before
  the array (\<open>short_limbs\<close>) and negative numbers of less than two units of the last subnormal place, where the
  code does not round correctly.
\<close>

theorem strtod_nearest:
  assumes "\<forall>y \<in> set ws. isspace (ord y)" "numeral_ok sg I Fr ex" "stops t" "\<not> short_limbs (num_int I Fr) (num_exp Fr ex)"
    and "sg = ''-'' \<Longrightarrow> num_int I Fr = 0 \<or> 2 powi (least double + 1) \<le> (of_nat (num_int I Fr) * 10 powi num_exp Fr ex :: rat)"
  shows "\<exists>en'. strtod u (ws @ numeral_text sg I Fr ex @ t) en =
    Inr (fround double (sg = ''-'') (of_nat (num_int I Fr) * 10 powi num_exp Fr ex), length ws + length (numeral_text sg I Fr ex), en')"
  using assms by (rule strtod_rounds)

theorem strtod_nearest_witness:
  "\<exists>en'. strtod (\<lambda>_. 0) ('' '' @ numeral_text ''-'' ''1'' (Some ''5'') (Some (CHR ''e'', [], ''3'')) @ ''y'') 0
    = Inr (FNum True 1500, length '' '' + length (numeral_text ''-'' ''1'' (Some ''5'') (Some (CHR ''e'', [], ''3''))), en')"
proof -
  have "digits_value 10 0 ''15'' = 15" "digits_value 10 0 ''3'' = 3" by (simp_all add: digit_val_def ord_def)
  then have n: "num_int ''1'' (Some ''5'') = 15" "num_exp (Some ''5'') (Some (CHR ''e'', [], ''3'')) = 2"
    by (simp_all add: num_int_def frac_digits_def num_exp_def exp_value_def apply_sign_def)
  have "\<forall>y \<in> set '' ''. isspace (ord y)" by (simp add: isspace_def ord_def)
  moreover have "numeral_ok ''-'' ''1'' (Some ''5'') (Some (CHR ''e'', [], ''3''))"
    by (simp add: numeral_ok_def sign_text_def mant_ok_def frac_digits_def exp_ok_def dig_def ord_def digit_val_def)
  moreover have "stops ''y''" by (simp add: stops_def dig_def ord_def)
  moreover have "\<not> short_limbs 15 2" by (simp add: short_limbs_def)
  moreover have "2 powi (least double + 1) \<le> (1500 :: rat)"
    using powi_mono [of "least double + 1" 0] by (simp add: double_def [THEN arg_cong [where f = least]])
  moreover have "fround double True 1500 = FNum True 1500"
  proof -
    have "(2 :: rat) powi 11 < 2 powi maxexp double" by (rule powi_smono) (simp add: double_def)
    then show ?thesis by (intro fround_exact [of 1500 1500 0]) (simp_all add: double_def)
  qed
  ultimately show ?thesis
    using strtod_nearest [of "'' ''" "''-''" "''1''" "Some ''5''" "Some (CHR ''e'', [], ''3'')" "''y''" "\<lambda>_. 0" 0] unfolding n
    by simp
qed

text \<open>C36: \<^verbatim>\<open>strtof\<close> on a decimal numeral of at most 13000 digits (white space, a sign, digits with a decimal point,
  an exponent) returns the \<^verbatim>\<open>float\<close> nearest to the number, ties to even, rounded once: the limbs are cut for 24
  bits, so the conversion of the \<^verbatim>\<open>long double\<close> to \<^verbatim>\<open>float\<close> does not round a second time. Overflow gives
  infinity, underflow is gradual, and the end pointer is behind the numeral. Excluded are, as for \<^verbatim>\<open>strtod\<close>, the
  numerals that run into the store before the array (\<open>short_limbs\<close>) and negative numbers of less than two units
  of the last subnormal place.
\<close>

theorem strtof_nearest:
  assumes "\<forall>y \<in> set ws. isspace (ord y)" "numeral_ok sg I Fr ex" "stops t" "\<not> short_limbs (num_int I Fr) (num_exp Fr ex)"
    and "sg = ''-'' \<Longrightarrow> num_int I Fr = 0 \<or> 2 powi (least single + 1) \<le> (of_nat (num_int I Fr) * 10 powi num_exp Fr ex :: rat)"
  shows "\<exists>en'. strtof u (ws @ numeral_text sg I Fr ex @ t) en =
    Inr (fround single (sg = ''-'') (of_nat (num_int I Fr) * 10 powi num_exp Fr ex), length ws + length (numeral_text sg I Fr ex), en')"
  unfolding strtof_def
  by (rule strtox_rounds [OF refl assms(1-3) _ _ assms(4)])
    (simp add: prec_fmt_def, simp add: narrow_def, rule assms(5))

theorem strtof_nearest_witness:
  "\<exists>en'. strtof (\<lambda>_. 0) ('' '' @ numeral_text ''-'' ''16777217'' None (Some (CHR ''e'', [], ''2'')) @ ''y'') 0
    = Inr (fround single True 1677721700, length '' '' + length (numeral_text ''-'' ''16777217'' None (Some (CHR ''e'', [], ''2''))), en')"
proof -
  have "digits_value 10 0 ''16777217'' = 16777217" "digits_value 10 0 ''2'' = 2" by (simp_all add: digit_val_def ord_def)
  then have n: "num_int ''16777217'' None = 16777217" "num_exp None (Some (CHR ''e'', [], ''2'')) = 2"
    by (simp_all add: num_int_def frac_digits_def num_exp_def exp_value_def apply_sign_def)
  have "\<forall>y \<in> set '' ''. isspace (ord y)" by (simp add: isspace_def ord_def)
  moreover have "numeral_ok ''-'' ''16777217'' None (Some (CHR ''e'', [], ''2''))"
    by (simp add: numeral_ok_def sign_text_def mant_ok_def frac_digits_def exp_ok_def dig_def ord_def digit_val_def)
  moreover have "stops ''y''" by (simp add: stops_def dig_def ord_def)
  moreover have "\<not> short_limbs 16777217 2" by (simp add: short_limbs_def)
  moreover have "2 powi (least single + 1) \<le> (1677721700 :: rat)"
    using powi_mono [of "least single + 1" 0] by (simp add: single_def [THEN arg_cong [where f = least]])
  ultimately show ?thesis
    using strtof_nearest [of "'' ''" "''-''" "''16777217''" None "Some (CHR ''e'', [], ''2'')" "''y''" "\<lambda>_. 0" 0] unfolding n
    by simp
qed

lemma int_not_short: "\<not> short_limbs N 0"
proof
  assume "short_limbs N 0"
  then obtain c :: nat where c: "N \<noteq> 0" "c \<in> {0, 1, 2}" "(of_nat N :: rat) < 10 ^ (9 * c)" "5 ^ nat (9 * (int c + 1)) dvd N"
    unfolding short_limbs_def power_int_0_right mult_1_right diff_zero by blast
  have n: "nat (9 * (int c + 1)) = 9 * c + 9" by simp
  have "N < 10 ^ (9 * c)"
  proof (rule ccontr)
    assume "\<not> N < 10 ^ (9 * c)"
    then have "(of_nat (10 ^ (9 * c)) :: rat) \<le> of_nat N" by (simp only: of_nat_le_iff not_less)
    then show False using c(3) by simp
  qed
  moreover have "5 ^ (9 * c + 9) \<le> N" using c(1,4) unfolding n by (simp add: dvd_imp_le)
  moreover have "(10 :: nat) ^ (9 * c) \<le> 5 ^ (9 * c + 9)"
  proof -
    have "(2 :: nat) ^ (9 * c) \<le> 2 ^ 18" by (rule power_increasing) (use c(2) in auto)
    also have "\<dots> \<le> 5 ^ 9" by simp
    finally have "(5 :: nat) ^ (9 * c) * 2 ^ (9 * c) \<le> 5 ^ (9 * c) * 5 ^ 9" by (rule mult_le_mono2)
    then show ?thesis by (simp add: power_add power_mult_distrib [symmetric])
  qed
  ultimately show False by linarith
qed

lemma strtod_integer:
  assumes "\<forall>y \<in> set ws. isspace (ord y)" "sign_text sg" "digit_text I" "I \<noteq> []" "length I \<le> 13000" "stops t"
  shows "\<exists>v en'. strtod u (ws @ sg @ I @ t) en = Inr (v, length ws + length sg + length I, en')
    \<and> v = fround double (sg = ''-'') (of_nat (decv I)) \<and> (decv I \<le> 2 ^ 53 \<longrightarrow> v = FNum (sg = ''-'') (of_nat (decv I)))"
proof -
  have n: "numeral_text sg I None None = sg @ I" "num_int I None = decv I" "num_exp None None = 0" "numeral_ok sg I None None"
    using assms(2-5) by (simp_all add: numeral_text_def mant_text_def exp_text_def num_int_def frac_digits_def num_exp_def
      exp_value_def numeral_ok_def mant_ok_def exp_ok_def)
  have one: "decv I = 0 \<or> 2 powi (least double + 1) \<le> (of_nat (decv I) :: rat)"
  proof (cases "decv I = 0")
    case False
    have "(2 :: rat) powi (least double + 1) \<le> 2 powi 0" by (rule powi_mono) (simp add: double_def)
    moreover have "(1 :: rat) \<le> of_nat (decv I)" using False by simp
    ultimately show ?thesis by simp
  qed simp
  have "fround double (sg = ''-'') (of_nat (decv I)) = FNum (sg = ''-'') (of_nat (decv I))" if "decv I \<le> 2 ^ 53"
  proof -
    have lt: "(of_nat (decv I) :: rat) < 2 powi maxexp double"
    proof -
      have "(of_nat (decv I) :: rat) \<le> 2 ^ 53" using that by (rule pow_le_rat(2))
      moreover have "(2 :: rat) powi 53 < 2 powi maxexp double" by (rule powi_smono) (simp add: double_def)
      ultimately show ?thesis by simp
    qed
    show ?thesis
      by (rule fround_exact [of _ "int (decv I)" 0, OF _ _ _ _ _ lt]) (use that in \<open>simp_all add: double_def nat_le_iff\<close>)
  qed
  then show ?thesis
    using strtod_rounds [OF assms(1) n(4) assms(6), of u en] one int_not_short [of "decv I"] unfolding n
    by (simp add: add.assoc)
qed

text \<open>The two ways to read a number agree: on an integer of at most \<open>2 ^ 53\<close> with white space and a sign,
  \<^verbatim>\<open>strtod\<close> returns the value that \<^verbatim>\<open>strtoll\<close> returns, and both end pointers point behind the last digit.
\<close>

theorem strtod_agrees_strtoll:
  assumes "\<forall>y \<in> set ws. isspace (ord y)" "sign_text sg" "digit_text I" "I \<noteq> []" "length I \<le> 13000" "stops t"
    and "decv I \<le> 2 ^ 53"
  shows "\<exists>n r en'. strtoll (ws @ sg @ I @ t) 10 = Some (n, t)
    \<and> strtod u (ws @ sg @ I @ t) en = Inr (FNum (sg = ''-'') r, length (ws @ sg @ I @ t) - length t, en')
    \<and> sval (sg = ''-'') r = of_int n"
proof -
  have d: "is_digit 10 x" if "dig (ord x)" for x using that digit_val_dec [OF that] by (simp add: is_digit_def dig_def)
  have nd: "\<not> is_digit 10 x" if "\<not> dig (ord x)" for x
    using that by (auto simp: is_digit_def dig_def digit_val_def ord_def split: if_splits)
  have t: "t = [] \<or> \<not> is_digit 10 (hd t)" using assms(6) nd by (cases t) (auto simp: stops_def)
  have I: "\<forall>x \<in> set I. is_digit 10 x" using assms(3) d by (auto simp: digit_text_def)
  define v :: int where "v = (if sg = ''-'' then - int (decv I) else int (decv I))"
  have "strtoull (ws @ sg @ I @ t) 10 = Some (of_int v, t)"
    using strtoull_value [OF assms(1,2,4) I t] by (simp add: v_def)
  moreover have "sint (of_int v :: u64) = v"
  proof -
    have "- (2 ^ 63) \<le> v" "v < 2 ^ 63" using assms(7) by (auto simp: v_def)
    then show ?thesis by (simp add: signed_of_int signed_take_bit_int_eq_self)
  qed
  ultimately have "strtoll (ws @ sg @ I @ t) 10 = Some (v, t)" by (simp add: strtoll_def)
  moreover obtain en' where "strtod u (ws @ sg @ I @ t) en = Inr (FNum (sg = ''-'') (of_nat (decv I)), length ws + length sg + length I, en')"
    using strtod_integer [OF assms(1-6), of u en] assms(7) by auto
  moreover have "sval (sg = ''-'') (of_nat (decv I)) = of_int v" by (simp add: sval_def v_def)
  ultimately show ?thesis by auto
qed

theorem strtod_agrees_strtoll_witness:
  "\<exists>n r en'. strtoll ('' '' @ ''-'' @ ''1234'' @ ''z'') 10 = Some (n, ''z'')
    \<and> strtod (\<lambda>_. 0) ('' '' @ ''-'' @ ''1234'' @ ''z'') 0
        = Inr (FNum (''-'' = ''-'') r, length ('' '' @ ''-'' @ ''1234'' @ ''z'') - length ''z'', en')
    \<and> sval (''-'' = ''-'') r = of_int n"
proof (rule strtod_agrees_strtoll)
  have "digits_value 10 0 ''1234'' = 1234" by (simp add: digit_val_def ord_def)
  then show "digits_value 10 0 ''1234'' \<le> 2 ^ 53" by (simp del: digits_value.simps)
qed (simp_all add: isspace_def ord_def sign_text_def dig_def stops_def)

end
