(* ===== verification/FloatSafe.thy ===== *)
theory FloatSafe
  imports FloatText
begin

text \<open>
  What holds for \<^verbatim>\<open>strtod\<close> on every string: the scanner never reads behind the terminator or moves before the
  first character, the loops end, and the result is a number of the format asked for.
\<close>

subsection \<open>The scanner stays in the string\<close>

text \<open>\<open>p\<close> is the position behind the current character \<open>c\<close>; only behind the terminator is nothing left to read.\<close>

definition okc :: "byte list \<Rightarrow> nat \<Rightarrow> int \<Rightarrow> bool" where
  "okc s p c \<longleftrightarrow> 1 \<le> p \<and> p \<le> length s + 1 \<and> (c \<noteq> 0 \<longrightarrow> p \<le> length s)"

lemma shgetc_ok: "p \<le> length s \<Longrightarrow> \<exists>c. shgetc s p = Some (c, p + 1) \<and> okc s (p + 1) c"
  by (auto simp: shgetc_def okc_def)

lemma okc_next: "okc s p c \<Longrightarrow> c \<noteq> 0 \<Longrightarrow> \<exists>c'. shgetc s p = Some (c', p + 1) \<and> okc s (p + 1) c'"
  by (rule shgetc_ok) (simp add: okc_def)

lemma okc_unget: "okc s p c \<Longrightarrow> shunget p = Some (p - 1) \<and> p - 1 \<le> length s"
  by (auto simp: okc_def shunget_def)

lemma dig_nz: "dig c \<Longrightarrow> c \<noteq> 0"
  by (auto simp: dig_def)

lemma zeros_ok: "okc s p c \<Longrightarrow> \<exists>c' p' n'. zeros s c p n = Some (c', p', n') \<and> okc s p' c' \<and> p \<le> p' \<and> n \<le> n' \<and> c' \<noteq> 48"
proof (induction s c p n rule: zeros.induct)
  case (1 s c p n)
  show ?case
  proof (cases "c = 48")
    case True
    obtain c' where c': "shgetc s p = Some (c', p + 1)" "okc s (p + 1) c'" using okc_next [OF 1(2)] True by auto
    obtain c2 p2 n2 where "zeros s c' (p + 1) (n + 1) = Some (c2, p2, n2)" "okc s p2 c2" "p + 1 \<le> p2" "n + 1 \<le> n2" "c2 \<noteq> 48"
      using 1(1) [OF True c'(1) refl c'(2)] by blast
    then show ?thesis using True c'(1) by (subst zeros.simps) auto
  next
    case False
    then show ?thesis using 1(2) by (subst zeros.simps) simp
  qed
qed

lemma spaces_ok: "p \<le> length s \<Longrightarrow> \<exists>c' p'. spaces s p = Some (c', p') \<and> okc s p' c'"
proof (induction s p rule: spaces.induct)
  case (1 s p)
  obtain c where c: "shgetc s p = Some (c, p + 1)" "okc s (p + 1) c" using shgetc_ok [OF 1(2)] by blast
  show ?case
  proof (cases "isspace c")
    case True
    then have "c \<noteq> 0" by (auto simp: isspace_def ord_def)
    then have "p + 1 \<le> length s" using c(2) by (simp add: okc_def)
    from 1(1) [OF c(1) refl True this] show ?thesis using True c(1) by (subst spaces.simps) simp
  next
    case False
    then show ?thesis using c by (subst spaces.simps) simp
  qed
qed

lemma skip_digits_ok: "okc s p c \<Longrightarrow> \<exists>c' p'. skip_digits s c p = Some (c', p') \<and> okc s p' c' \<and> p \<le> p'"
proof (induction s c p rule: skip_digits.induct)
  case (1 s c p)
  show ?case
  proof (cases "dig c")
    case True
    obtain c' where c': "shgetc s p = Some (c', p + 1)" "okc s (p + 1) c'" using okc_next [OF 1(2) dig_nz [OF True]] by blast
    from 1(1) [OF True c'(1) refl c'(2)] show ?thesis using True c'(1) by (subst skip_digits.simps) auto
  next
    case False
    then show ?thesis using 1(2) by (subst skip_digits.simps) simp
  qed
qed

lemma exp_digits_ok: "okc s p c \<Longrightarrow> 0 \<le> v \<Longrightarrow> \<exists>c' p' v'. exp_digits b s c p v = Some (c', p', v') \<and> okc s p' c' \<and> p \<le> p' \<and> 0 \<le> v'"
proof (induction b s c p v rule: exp_digits.induct)
  case (1 b s c p v)
  show ?case
  proof (cases "dig c \<and> v < b")
    case True
    obtain c' where c': "shgetc s p = Some (c', p + 1)" "okc s (p + 1) c'" using okc_next [OF 1(2) dig_nz] True by blast
    have "0 \<le> 10 * v + c - 48" using True 1(3) by (simp add: dig_def)
    from 1(1) [OF True c'(1) refl c'(2) this] show ?thesis using True c'(1) by (subst exp_digits.simps) auto
  next
    case False
    then show ?thesis using 1(2,3) by (subst exp_digits.simps) auto
  qed
qed

lemma scanexp_ok:
  assumes "1 \<le> p" "p \<le> length s"
  shows "\<exists>e p'. scanexp s pok p = Some (e, p') \<and> 1 \<le> p' \<and> p' \<le> length s"
proof -
  obtain c0 where c0: "shgetc s p = Some (c0, p + 1)" "okc s (p + 1) c0" using shgetc_ok [OF assms(2)] by blast
  obtain c p2 where c: "(if c0 = 43 \<or> c0 = 45 then shgetc s (p + 1) else Some (c0, p + 1)) = Some (c, p2)" "okc s p2 c" "p + 1 \<le> p2"
    and s2: "c0 = 43 \<or> c0 = 45 \<Longrightarrow> p2 = p + 2"
  proof (cases "c0 = 43 \<or> c0 = 45")
    case True
    then obtain c' where "shgetc s (p + 1) = Some (c', p + 1 + 1)" "okc s (p + 1 + 1) c'" using okc_next [OF c0(2)] by auto
    then show ?thesis using that [of c' "p + 2"] True by simp
  next
    case False
    then show ?thesis using that [of c0 "p + 1"] c0(2) by simp
  qed
  show ?thesis
  proof (cases "dig c")
    case True
    obtain c1 p4 x where e1: "exp_digits 214748364 s c p2 0 = Some (c1, p4, x)" "okc s p4 c1" "p2 \<le> p4" "0 \<le> x"
      using exp_digits_ok [OF c(2) order.refl] by blast
    obtain c2 p5 y where e2: "exp_digits 92233720368547758 s c1 p4 x = Some (c2, p5, y)" "okc s p5 c2" "p4 \<le> p5"
      using exp_digits_ok [OF e1(2,4)] by blast
    obtain c3 p6 where e3: "skip_digits s c2 p5 = Some (c3, p6)" "okc s p6 c3" "p5 \<le> p6" using skip_digits_ok [OF e2(2)] by blast
    have "shunget p6 = Some (p6 - 1)" "1 \<le> p6 - 1" "p6 - 1 \<le> length s"
      using okc_unget [OF e3(2)] assms(1) c(3) e1(3) e2(3) e3(3) by simp_all
    then show ?thesis
      unfolding scanexp_def Let_def c0(1) bind.bind_lunit prod.case c(1) using True e1(1) e2(1) e3(1) by simp
  next
    case False
    then show ?thesis
      unfolding scanexp_def Let_def c0(1) bind.bind_lunit prod.case c(1)
      using c(2,3) s2 assms by (auto simp: shunget_def okc_def)
  qed
qed

lemma dec_digits_ok: "okc s p c \<Longrightarrow> \<exists>c' p' st'. dec_digits s c p st = Some (c', p', st') \<and> okc s p' c' \<and> p \<le> p'"
proof (induction s c p st rule: dec_digits.induct)
  case (1 s c p st)
  show ?case
  proof (cases "(dig c \<or> c = 46) \<and> \<not> (c = 46 \<and> gotrad st)")
    case True
    then have "c \<noteq> 0" using dig_nz by auto
    then obtain c' where c': "shgetc s p = Some (c', p + 1)" "okc s (p + 1) c'" using okc_next [OF 1(2)] by blast
    obtain c2 p2 st2 where "dec_digits s c' (p + 1) (digit_step c st) = Some (c2, p2, st2)" "okc s p2 c2" "p + 1 \<le> p2"
      using 1(1) [OF True c'(1) refl c'(2)] by blast
    then show ?thesis using True c'(1) by (subst dec_digits.simps) auto
  next
    case False
    then show ?thesis using 1(2) by (subst dec_digits.simps) auto
  qed
qed

lemma mantissa_safe:
  assumes "okc s p c"
  shows "\<exists>c' p' st. mantissa u s p c = Some (c', p', st) \<and> okc s p' c' \<and> p \<le> p'"
proof -
  obtain c1 p1 n1 where z: "zeros s c p 0 = Some (c1, p1, n1)" "okc s p1 c1" "p \<le> p1" using zeros_ok [OF assms] by blast
  obtain c2 p2 n2 where m: "(if c1 = 46 then shgetc s p1 \<bind> (\<lambda>(c, p). zeros s c p 0) else Some (c1, p1, 0)) = Some (c2, p2, n2)"
      "okc s p2 c2" "p1 \<le> p2"
  proof (cases "c1 = 46")
    case True
    obtain c' where c': "shgetc s p1 = Some (c', p1 + 1)" "okc s (p1 + 1) c'" using okc_next [OF z(2)] True by auto
    obtain c2 p2 n2 where "zeros s c' (p1 + 1) 0 = Some (c2, p2, n2)" "okc s p2 c2" "p1 + 1 \<le> p2" using zeros_ok [OF c'(2)] by blast
    then show ?thesis using that [of c2 p2 n2] True c'(1) by simp
  next
    case False
    then show ?thesis using that [of c1 p1 0] z(2) by simp
  qed
  define st0 where "st0 = \<lparr> dx = u(0 := 0), dj = 0, dk = 0, lrp = - int n2, dc = 0, lnz = 0,
      gotdig = (n1 > 0 \<or> n2 > 0), gotrad = (c1 = 46) \<rparr>"
  obtain c3 p3 st where d: "dec_digits s c2 p2 st0 = Some (c3, p3, st)" "okc s p3 c3" "p2 \<le> p3"
    using dec_digits_ok [OF m(2)] by blast
  then show ?thesis
    using z(3) m(3) unfolding mantissa_def z(1) bind.bind_lunit prod.case m(1) st0_def [symmetric] d(1) by auto
qed

lemma dec_scan_safe:
  assumes "okc s p c"
  shows "\<exists>p' r. dec_scan u s p c pok = Some (p', r) \<and> p' \<le> length s"
proof -
  obtain c' p' st where m: "mantissa u s p c = Some (c', p', st)" "okc s p' c'" "p \<le> p'" using mantissa_safe [OF assms] by blast
  have p1: "1 \<le> p" using assms by (simp add: okc_def)
  show ?thesis
  proof (cases "gotdig st \<and> c' OR 32 = 101")
    case True
    then have "c' \<noteq> 0" by auto
    then have "1 \<le> p'" "p' \<le> length s" using m(2) by (simp_all add: okc_def)
    then obtain e p4 where e: "scanexp s pok p' = Some (e, p4)" "1 \<le> p4" "p4 \<le> length s" using scanexp_ok by blast
    then show ?thesis using True m(1) by (auto simp: dec_scan_mantissa shunget_def)
  next
    case False
    then show ?thesis using m(1) okc_unget [OF m(2)] by (auto simp: dec_scan_mantissa)
  qed
qed

lemma hex_digits_ok: "okc s p c \<Longrightarrow> \<exists>c' p' st'. hex_digits s c p st = Some (c', p', st') \<and> okc s p' c' \<and> p \<le> p'"
proof (induction s c p st rule: hex_digits.induct)
  case (1 s c p st)
  show ?case
  proof (cases "(dig c \<or> hex_letter c \<or> c = 46) \<and> \<not> (c = 46 \<and> hrad st)")
    case True
    then have "c \<noteq> 0" using dig_nz by (auto simp: hex_letter_def)
    then obtain c' where c': "shgetc s p = Some (c', p + 1)" "okc s (p + 1) c'" using okc_next [OF 1(2)] by blast
    obtain c2 p2 st2 where "hex_digits s c' (p + 1) (hex_step c st) = Some (c2, p2, st2)" "okc s p2 c2" "p + 1 \<le> p2"
      using 1(1) [OF True c'(1) refl c'(2)] by blast
    then show ?thesis using True c'(1) by (subst hex_digits.simps) auto
  next
    case False
    then show ?thesis using 1(2) by (subst hex_digits.simps) auto
  qed
qed

lemma hex_digit_nonneg:
  assumes "dig c \<or> hex_letter c" "0 \<le> hx st"
  shows "0 \<le> hx (hex_step c st)"
proof -
  have "0 \<le> c - 48" if "c \<le> 57"
  proof (cases "0 \<le> c")
    case True
    have "c OR 32 < 2 ^ 6" by (rule OR_upper) (use True that in simp_all)
    then have "\<not> hex_letter c" by (simp add: hex_letter_def)
    then show ?thesis using assms(1) by (simp add: dig_def)
  next
    case False
    then have "c OR 32 < 0" using or_nonnegative_int_iff [of c 32] by (simp add: not_le [symmetric])
    then show ?thesis using assms(1) False unfolding hex_letter_def dig_def by linarith
  qed
  moreover have "0 \<le> (c OR 32) - 87" if "57 < c" using assms(1) that by (auto simp: hex_letter_def dig_def)
  ultimately show ?thesis using assms(2) by (auto simp: hex_step_def Let_def)
qed

lemma hex_digits_nonneg: "hex_digits s c p st = Some (c', p', st') \<Longrightarrow> 0 \<le> hx st \<Longrightarrow> 0 \<le> hx st'"
proof (induction s c p st rule: hex_digits.induct)
  case (1 s c p st)
  show ?case
  proof (cases "(dig c \<or> hex_letter c \<or> c = 46) \<and> \<not> (c = 46 \<and> hrad st)")
    case True
    then obtain c1 p1 where c1: "shgetc s p = Some (c1, p1)" "hex_digits s c1 p1 (hex_step c st) = Some (c', p', st')"
      using 1(2) by (subst (asm) hex_digits.simps) (auto split: option.splits)
    have "0 \<le> hx (hex_step c st)"
    proof (cases "c = 46")
      case False
      then show ?thesis using True hex_digit_nonneg [OF _ 1(3), of c] by blast
    qed (simp add: hex_step_def 1(3))
    then show ?thesis using 1(1) [OF True c1(1) refl c1(2)] by blast
  next
    case False
    then show ?thesis using 1(2,3) by (subst (asm) hex_digits.simps) auto
  qed
qed

lemma hex_scan_safe:
  assumes "2 \<le> p" "p \<le> length s"
  shows "\<exists>p' r. hex_scan s p sign pok = Some (p', r) \<and> p' \<le> length s \<and> (\<forall>st e. r = HDigits st e \<longrightarrow> 0 \<le> hx st)"
proof -
  obtain c0 where c0: "shgetc s p = Some (c0, p + 1)" "okc s (p + 1) c0" using shgetc_ok [OF assms(2)] by blast
  obtain c1 p1 n1 where z: "zeros s c0 (p + 1) 0 = Some (c1, p1, n1)" "okc s p1 c1" "p + 1 \<le> p1" using zeros_ok [OF c0(2)] by blast
  obtain c2 p2 n2 where m: "(if c1 = 46 then shgetc s p1 \<bind> (\<lambda>(c, p). zeros s c p 0) else Some (c1, p1, 0)) = Some (c2, p2, n2)"
      "okc s p2 c2" "p1 \<le> p2"
  proof (cases "c1 = 46")
    case True
    obtain c' where c': "shgetc s p1 = Some (c', p1 + 1)" "okc s (p1 + 1) c'" using okc_next [OF z(2)] True by auto
    obtain c2 p2 n2 where "zeros s c' (p1 + 1) 0 = Some (c2, p2, n2)" "okc s p2 c2" "p1 + 1 \<le> p2" using zeros_ok [OF c'(2)] by blast
    then show ?thesis using that [of c2 p2 n2] True c'(1) by simp
  next
    case False
    then show ?thesis using that [of c1 p1 0] z(2) by simp
  qed
  define st0 where "st0 = \<lparr> hx = 0, hy = FNum False 0, hscale = FNum False 1, hrp = - int n2, hdc = 0, htail = False,
      hdig = (n1 > 0 \<or> n2 > 0), hrad = (c1 = 46) \<rparr>"
  obtain c3 p4 st where h: "hex_digits s c2 p2 st0 = Some (c3, p4, st)" "okc s p4 c3" "p2 \<le> p4" using hex_digits_ok [OF m(2)] by blast
  have hx: "0 \<le> hx st" using hex_digits_nonneg [OF h(1)] by (simp add: st0_def)
  have p4: "3 \<le> p4" using assms(1) z(3) m(3) h(3) by linarith
  have u: "shunget p4 = Some (p4 - 1)" "shunget (p4 - 1) = Some (p4 - 2)" "shunget (p4 - 2) = Some (p4 - 3)"
    using p4 by (simp_all add: shunget_def)
  show ?thesis
  proof (cases "hdig st \<and> c3 OR 32 = 112")
    case True
    then have "c3 \<noteq> 0" by auto
    then have "1 \<le> p4" "p4 \<le> length s" using h(2) by (simp_all add: okc_def)
    then obtain e p5 where e: "scanexp s pok p4 = Some (e, p5)" "1 \<le> p5" "p5 \<le> length s" using scanexp_ok by blast
    then show ?thesis
      using True h(1) hx unfolding hex_scan_def c0(1) bind.bind_lunit prod.case z(1) m(1) st0_def [symmetric] h(1)
      by (auto simp: shunget_def Let_def)
  next
    case False
    have "p4 - 1 \<le> length s" using okc_unget [OF h(2)] by simp
    then show ?thesis
      using False h(1) hx unfolding hex_scan_def c0(1) bind.bind_lunit prod.case z(1) m(1) st0_def [symmetric] h(1)
      by (auto simp: u [unfolded One_nat_def] Let_def)
  qed
qed

lemma match_word_ok:
  "okc s p c \<Longrightarrow> \<forall>w \<in> set ws. ord w \<noteq> 32 \<Longrightarrow>
    \<exists>c' p' i'. match_word ws s c p i = Some (c', p', i') \<and> okc s p' c' \<and> p + i' \<le> p' + i + 1 \<and> i \<le> i' \<and> i' \<le> i + length ws
      \<and> (i' < i + length ws \<longrightarrow> p + i' = p' + i) \<and> (i < i' \<and> i' = i + length ws \<longrightarrow> c' \<noteq> 0)"
proof (induction ws arbitrary: c p i)
  case Nil
  then show ?case by simp
next
  case (Cons w ws)
  show ?case
  proof (cases "c OR 32 = ord w")
    case True
    then have nz: "c \<noteq> 0" using Cons.prems(2) by auto
    show ?thesis
    proof (cases "ws = []")
      case True
      then show ?thesis using \<open>c OR 32 = ord w\<close> Cons.prems(1) nz by simp
    next
      case False
      obtain c1 where c1: "shgetc s p = Some (c1, p + 1)" "okc s (p + 1) c1" using okc_next [OF Cons.prems(1) nz] by blast
      obtain c' p' i' where "match_word ws s c1 (p + 1) (i + 1) = Some (c', p', i')" "okc s p' c'"
          "p + 1 + i' \<le> p' + (i + 1) + 1" "i + 1 \<le> i'" "i' \<le> i + 1 + length ws"
          "i' < i + 1 + length ws \<longrightarrow> p + 1 + i' = p' + (i + 1)" "i + 1 < i' \<and> i' = i + 1 + length ws \<longrightarrow> c' \<noteq> 0"
        using Cons.IH [OF c1(2), of "i + 1"] Cons.prems(2) by auto
      then show ?thesis using True False c1(1) by auto
    qed
  next
    case False
    then show ?thesis using Cons.prems(1) by simp
  qed
qed

lemma ungets_ok: "n \<le> p \<Longrightarrow> ungets n p = Some (p - n)"
  by (induction n arbitrary: p) (simp_all add: shunget_def)

lemma nan_chars_ok:
  "p \<le> length s \<Longrightarrow> i \<le> p \<Longrightarrow> \<exists>cl p' i'. nan_chars s p i = Some (cl, p', i') \<and> 1 \<le> p' \<and> i' + 1 \<le> p'
      \<and> p' \<le> length s + 1 \<and> (cl \<longrightarrow> p' \<le> length s)"
proof (induction s p i rule: nan_chars.induct)
  case (1 s p i)
  obtain c where c: "shgetc s p = Some (c, p + 1)" "okc s (p + 1) c" using shgetc_ok [OF 1(2)] by blast
  show ?case
  proof (cases "dig c \<or> upper_c c \<or> lower_c c \<or> c = 95")
    case True
    then have "c \<noteq> 0" by (auto simp: dig_def upper_c_def lower_c_def)
    then have "p + 1 \<le> length s" "i + 1 \<le> p + 1" using c(2) 1(3) by (simp_all add: okc_def)
    from 1(1) [OF c(1) refl True this] show ?thesis using True c(1) by (subst nan_chars.simps) auto
  next
    case False
    then show ?thesis using c 1(2,3) by (subst nan_chars.simps) (auto simp: okc_def)
  qed
qed

lemma nan_scan_safe:
  assumes "okc s p c" "c \<noteq> 0"
  shows "\<exists>v q e. nan_scan s p pok en = Some (v, q, e) \<and> q \<le> length s"
proof -
  obtain c' where c': "shgetc s p = Some (c', p + 1)" "okc s (p + 1) c'" using okc_next [OF assms] by blast
  show ?thesis
  proof (cases "c' = 40")
    case True
    then have p: "p + 1 \<le> length s" "1 \<le> p + 1" using c'(2) by (simp_all add: okc_def)
    obtain cl p' i' where n: "nan_chars s (p + 1) 1 = Some (cl, p', i')" "1 \<le> p'" "i' + 1 \<le> p'"
        "p' \<le> length s + 1" "cl \<longrightarrow> p' \<le> length s" using nan_chars_ok [OF p] by blast
    then have u: "shunget p' = Some (p' - 1)" "i' \<le> p' - 1" by (simp_all add: shunget_def)
    show ?thesis
      unfolding nan_scan_def c'(1) bind.bind_lunit prod.case n(1) using True n(4,5)
      by (auto simp: u [unfolded One_nat_def] ungets_ok [OF u(2) [unfolded One_nat_def]])
  next
    case False
    then show ?thesis using c'(1) okc_unget [OF c'(2)] by (simp add: nan_scan_def)
  qed
qed

lemma word_chars: "\<forall>w \<in> set ''infinity''. ord w \<noteq> 32" "\<forall>w \<in> set ''nan''. ord w \<noteq> 32"
  by (simp_all add: ord_def)

lemma prefix_scan_safe:
  "\<exists>r. prefix_scan s pok en = Some r \<and> (case r of Number c p sign \<Rightarrow> okc s p c \<and> (sign = 1 \<or> sign = -1) | Final v p e \<Rightarrow> p \<le> length s)"
proof -
  obtain c0 p0 where c0: "spaces s 0 = Some (c0, p0)" "okc s p0 c0" using spaces_ok [of 0 s] by auto
  obtain c1 p1 where c1: "(if c0 = 43 \<or> c0 = 45 then shgetc s p0 else Some (c0, p0)) = Some (c1, p1)" "okc s p1 c1"
  proof (cases "c0 = 43 \<or> c0 = 45")
    case True
    then show ?thesis using that okc_next [OF c0(2)] by auto
  next
    case False
    then show ?thesis using that c0(2) by auto
  qed
  obtain c2 p2 i where m0: "match_word ''infinity'' s c1 p1 0 = Some (c2, p2, i)" "okc s p2 c2" "p1 + i \<le> p2 + 0 + 1"
      "i \<le> 0 + length ''infinity''" "i < 0 + length ''infinity'' \<longrightarrow> p1 + i = p2 + 0"
      "0 < i \<and> i = 0 + length ''infinity'' \<longrightarrow> c2 \<noteq> 0"
    using match_word_ok [OF c1(2) word_chars(1), of 0] by blast
  then have m: "match_word ''infinity'' s c1 p1 0 = Some (c2, p2, i)" "okc s p2 c2" "p1 + i \<le> p2 + 1" "i \<le> 8"
      "i < 8 \<longrightarrow> p1 + i = p2" "i = 8 \<longrightarrow> c2 \<noteq> 0"
    by (simp_all del: match_word.simps)
  have p1: "1 \<le> p1" using c1(2) by (simp add: okc_def)
  show ?thesis
  proof (cases "i = 3 \<or> i = 8 \<or> i > 3 \<and> pok")
    case True
    have "\<exists>q. inf_back i pok p2 = Some q \<and> q \<le> length s"
    proof -
      have "i - 3 \<le> p2 - 1" using m(3,4,5) p1 by simp
      moreover have "i = 8 \<longrightarrow> p2 \<le> length s" using m(2,6) by (auto simp: okc_def)
      ultimately show ?thesis using okc_unget [OF m(2)] ungets_ok [of "i - 3" "p2 - 1"] by (auto simp: inf_back_def)
    qed
    then show ?thesis
      using True unfolding prefix_scan_def Let_def c0(1) bind.bind_lunit prod.case c1(1) m(1) by auto
  next
    case False
    show ?thesis
    proof (cases "i = 0")
      case True
      obtain c3 p3 i3 where n: "match_word ''nan'' s c2 p2 0 = Some (c3, p3, i3)" "okc s p3 c3"
          "0 < i3 \<and> i3 = 0 + length ''nan'' \<longrightarrow> c3 \<noteq> 0"
        using match_word_ok [OF m(2) word_chars(2), of 0] by blast
      show ?thesis
      proof (cases "i3 = 3")
        case t: True
        then show ?thesis
          using nan_scan_safe [OF n(2), of pok en] n(3) False True
          unfolding prefix_scan_def Let_def c0(1) bind.bind_lunit prod.case c1(1) m(1) by (auto simp: n(1) simp del: match_word.simps)
      next
        case f: False
        then show ?thesis
          using n(2) okc_unget [OF n(2)] False True
          unfolding prefix_scan_def Let_def c0(1) bind.bind_lunit prod.case c1(1) m(1) by (auto simp: n(1) simp del: match_word.simps)
      qed
    next
      case nz: False
      then show ?thesis
        using False okc_unget [OF m(2)]
        unfolding prefix_scan_def Let_def c0(1) bind.bind_lunit prod.case c1(1) m(1) by auto
    qed
  qed
qed

text \<open>A result of the scanner: no read outside the string, and the end pointer not behind the terminator.\<close>

definition scan_ok :: "byte list \<Rightarrow> ub + (fp \<times> nat \<times> int) \<Rightarrow> bool" where
  "scan_ok s r \<longleftrightarrow> (case r of Inl b \<Rightarrow> b \<noteq> Read_outside | Inr (v, p, e) \<Rightarrow> p \<le> length s)"

lemma not_outside:
  "(c \<Longrightarrow> x \<noteq> z) \<Longrightarrow> (\<not> c \<Longrightarrow> y \<noteq> z) \<Longrightarrow> (if c then x else y) \<noteq> z"
  "(e \<noteq> z) \<Longrightarrow> (\<And>v. f v \<noteq> z) \<Longrightarrow> (case r of None \<Rightarrow> e | Some v \<Rightarrow> f v) \<noteq> z"
  "(\<And>a b. g a b \<noteq> z) \<Longrightarrow> (case q of (a, b) \<Rightarrow> g a b) \<noteq> z"
  "Inr w \<noteq> Inl Read_outside" "Inl No_return \<noteq> Inl Read_outside" "Inl Store_before \<noteq> Inl Read_outside"
  by (auto split: option.splits prod.splits)

lemma number_safe:
  assumes "okc s p c"
  shows "scan_ok s (number u s c p F sign pok en)"
proof -
  have d: "dec_convert st a b sg e \<noteq> Inl Read_outside" for st a b sg e
    unfolding dec_convert_def Let_def by (intro not_outside)
  have h: "hex_convert st e10 a b sg e \<noteq> Inl Read_outside" for st e10 a b sg e
    unfolding hex_convert_def Let_def by (intro not_outside)
  have fin: "scan_ok s (case dec_scan u s q x pok of None \<Rightarrow> Inl Read_outside
      | Some (p', Done v e) \<Rightarrow> Inr (v, p', (case e of None \<Rightarrow> en | Some e' \<Rightarrow> e'))
      | Some (p', Digits st) \<Rightarrow>
          (case dec_convert st (mant F) (least F) sign en of Inl b \<Rightarrow> Inl b | Inr (v, e) \<Rightarrow> Inr (v, p', e)))"
    if "okc s q x" for q x
    using dec_scan_safe [OF that, of u pok] d by (auto simp: scan_ok_def split: prod.splits scanned.splits sum.splits)
  show ?thesis
  proof (cases "c = 48")
    case True
    then obtain c' where c': "shgetc s p = Some (c', p + 1)" "okc s (p + 1) c'" using okc_next [OF assms] by auto
    have p1: "1 \<le> p" using assms by (simp add: okc_def)
    have ok: "okc s p 48" using assms True by simp
    show ?thesis
    proof (cases "c' OR 32 = 120")
      case x: True
      then have "c' \<noteq> 0" by auto
      then have "p + 1 \<le> length s" using c'(2) by (simp add: okc_def)
      then obtain q r where r: "hex_scan s (p + 1) sign pok = Some (q, r)" "q \<le> length s"
        using hex_scan_safe [of "p + 1" s sign pok] p1 by auto
      show ?thesis
        using c'(1) x True r h by (cases r) (auto simp: number_def Let_def scan_ok_def split: sum.splits)
    next
      case False
      then show ?thesis using c'(1) okc_unget [OF c'(2)] fin [OF ok] True by (simp add: number_def Let_def)
    qed
  next
    case False
    then show ?thesis using fin [OF assms] by (simp add: number_def Let_def)
  qed
qed

lemma floatscan_ok: "scan_ok s (floatscan u s prec pok en)"
proof (cases "prec_fmt prec")
  case (Some F)
  obtain r where r: "prefix_scan s pok en = Some r"
      "case r of Number c p sign \<Rightarrow> okc s p c \<and> (sign = 1 \<or> sign = -1) | Final v p e \<Rightarrow> p \<le> length s"
    using prefix_scan_safe by blast
  show ?thesis
  proof (cases r)
    case (Number c p sign)
    then show ?thesis using Some r number_safe [of s p c] by (simp add: floatscan_def)
  next
    case (Final v p e)
    then show ?thesis using Some r by (simp add: floatscan_def scan_ok_def)
  qed
qed (simp add: floatscan_def scan_ok_def)

lemma floatscan_safe: "floatscan u s prec pok en \<noteq> Inl Read_outside"
  using floatscan_ok [of s u prec pok en] by (auto simp: scan_ok_def)

text \<open>C33: The number scanner is memory safe: whatever the string, the format and the flags, the conversion never
  reads behind the terminator and never moves before the first character, for decimal and hexadecimal numbers,
  infinities and NaNs with their rewinding; and the end pointer it reports lies in the string, at the terminator
  at most.
\<close>

theorem floatscan_in_bounds:
  "case floatscan u s prec pok en of
     Inl b \<Rightarrow> b \<noteq> Read_outside
   | Inr (v, p, e) \<Rightarrow> p \<le> length s"
  using floatscan_ok [of s u prec pok en] by (simp add: scan_ok_def)

subsection \<open>The conversion returns\<close>

text \<open>The loops over the limbs end for every exponent that reaches them.\<close>

lemma dec_convert_returns:
  assumes "narrow F" "digs st N n" "n \<le> 13000"
  shows "dec_convert st (mant F) (least F) sign en \<noteq> Inl No_return"
proof (cases "n = 0")
  case True
  then have "dx st 0 = 0" using assms(2) by (simp add: digs_def)
  then show ?thesis by (simp add: dec_convert_def)
next
  case False
  then have n0: "0 < n" by simp
  have x0: "dx st 0 \<noteq> 0" using assms(2) n0 by (simp add: digs_def)
  obtain L where L: "drop_zeros (padded st) (limb_count st) = length L" "length L \<le> 1500" "\<forall>i < length L. padded st i = L ! i"
      "limbs_ok L" "\<forall>v \<in> set L. v < B1B" "last L \<noteq> 0"
    using start_limbs [OF assms(2) n0 assms(3)] by blast
  define r where "r = \<lparr> rx = padded st, ra = 0, rz = length L, rp = lrp st, re2 = 0 \<rparr>"
  have run: "\<exists>r1 r2. upscale (align r) = Some r1 \<and> downscale r1 = Some r2"
    if "\<not> lrp st > - least F div 2" "\<not> lrp st < least F - 226"
  proof -
    have "-1320 \<le> rp r" "rp r \<le> 560" using narrow_range [OF assms(1)] that by (simp_all add: r_def)
    then show ?thesis using scale_spec [of r L] L(2-6) by (simp add: r_def) blast
  qed
  have ring: "(case upscale (align r) of None \<Rightarrow> Inl No_return
      | Some r1 \<Rightarrow> (case downscale r1 of None \<Rightarrow> Inl No_return
          | Some r2 \<Rightarrow> (case assemble [0, 1, 2, 3] r2 (FNum False 0) of None \<Rightarrow> Inl Store_before
              | Some (r3, y) \<Rightarrow> Inr (dec_round (mant F) (least F) sign r3 y en)))) \<noteq> Inl No_return"
    if "\<not> lrp st > - least F div 2" "\<not> lrp st < least F - 2 * 113"
    using run that by (auto split: option.split prod.split)
  show ?thesis
    unfolding dec_convert_def Let_def padded_def [symmetric] limb_count_def [symmetric] L(1) r_def [symmetric] if_not_P [OF x0]
    using ring by (simp only: sum.distinct simp_thms split: if_split) blast
qed

text \<open>The digits of any text are kept as limbs.\<close>

lemma dec_digits_digs:
  "dec_digits s c p st = Some (c', p', st') \<Longrightarrow> okc s p c \<Longrightarrow> digs st N n \<Longrightarrow> n + (length s + 1 - p) \<le> 13000 \<Longrightarrow>
    (n = 0 \<Longrightarrow> c \<noteq> 48 \<and> (c = 46 \<longrightarrow> gotrad st)) \<Longrightarrow> \<exists>N' n'. digs st' N' n' \<and> n' \<le> 13000"
proof (induction s c p st arbitrary: N n rule: dec_digits.induct)
  case (1 s c p st)
  show ?case
  proof (cases "(dig c \<or> c = 46) \<and> \<not> (c = 46 \<and> gotrad st)")
    case True
    then have nz: "c \<noteq> 0" using dig_nz by auto
    obtain c1 where c1: "shgetc s p = Some (c1, p + 1)" "okc s (p + 1) c1" using okc_next [OF 1(3) nz] by blast
    have run: "dec_digits s c1 (p + 1) (digit_step c st) = Some (c', p', st')"
      using 1(2) True c1(1) by (subst (asm) dec_digits.simps) simp
    have p: "p \<le> length s" using 1(3) nz by (simp add: okc_def)
    show ?thesis
    proof (cases "c = 46")
      case pt: True
      have "n \<noteq> 0" using 1(6) True pt by auto
      moreover have "digs (digit_step c st) N n" using 1(4) pt by (simp add: digit_step_def)
      ultimately show ?thesis using 1(1) [OF True c1(1) refl run c1(2), of N n] 1(5) p by simp
    next
      case False
      then have d: "dig c" using True by simp
      have n: "n \<le> 13000" using 1(5) by simp
      have "digs (digit_step c st) (N * 10 + nat (c - 48)) (n + 1)" using digit_step_digs [OF 1(4) n d] 1(6) by blast
      then show ?thesis using 1(1) [OF True c1(1) refl run c1(2)] 1(5) p by fastforce
    qed
  next
    case False
    then have "st' = st" using 1(2) by (subst (asm) dec_digits.simps) auto
    then show ?thesis using 1(4,5) by (intro exI [of _ N] exI [of _ n]) simp
  qed
qed

lemma mantissa_digs:
  assumes "mantissa u s p c = Some (c', p', st)" "okc s p c" "length s \<le> 13000"
  shows "\<exists>N n. digs st N n \<and> n \<le> 13000"
proof -
  have p1: "1 \<le> p" using assms(2) by (simp add: okc_def)
  obtain c1 p1 n1 where z: "zeros s c p 0 = Some (c1, p1, n1)" "okc s p1 c1" "p \<le> p1" "c1 \<noteq> 48" using zeros_ok [OF assms(2)] by blast
  obtain c2 p2 n2 where m: "(if c1 = 46 then shgetc s p1 \<bind> (\<lambda>(c, p). zeros s c p 0) else Some (c1, p1, 0)) = Some (c2, p2, n2)"
      "okc s p2 c2" "p1 \<le> p2" "c2 \<noteq> 48" "c2 = 46 \<longrightarrow> c1 = 46"
  proof (cases "c1 = 46")
    case True
    obtain c' where c': "shgetc s p1 = Some (c', p1 + 1)" "okc s (p1 + 1) c'" using okc_next [OF z(2)] True by auto
    obtain c2 p2 n2 where "zeros s c' (p1 + 1) 0 = Some (c2, p2, n2)" "okc s p2 c2" "p1 + 1 \<le> p2" "c2 \<noteq> 48"
      using zeros_ok [OF c'(2)] by blast
    then show ?thesis using that [of c2 p2 n2] True c'(1) by simp
  next
    case False
    then show ?thesis using that [of c1 p1 0] z(2,4) by simp
  qed
  define st0 where "st0 = \<lparr> dx = u(0 := 0), dj = 0, dk = 0, lrp = - int n2, dc = 0, lnz = 0,
      gotdig = (n1 > 0 \<or> n2 > 0), gotrad = (c1 = 46) \<rparr>"
  obtain c3 p3 st1 where d: "dec_digits s c2 p2 st0 = Some (c3, p3, st1)" using dec_digits_ok [OF m(2)] by blast
  have "\<exists>N n. digs st1 N n \<and> n \<le> 13000"
  proof (rule dec_digits_digs [OF d m(2)])
    show "digs st0 0 0" unfolding st0_def by (rule digs_init)
    show "0 + (length s + 1 - p2) \<le> 13000" using assms(3) p1 z(3) m(3) by simp
    show "c2 \<noteq> 48 \<and> (c2 = 46 \<longrightarrow> gotrad st0)" using m(4,5) by (simp add: st0_def)
  qed
  moreover have "st = (if gotrad st1 then st1 else st1 \<lparr> lrp := dc st1 \<rparr>)"
    using assms(1) unfolding mantissa_def z(1) bind.bind_lunit prod.case m(1) st0_def [symmetric] d by simp
  ultimately show ?thesis by auto
qed

lemma dec_scan_digs:
  assumes "dec_scan u s p c pok = Some (p', Digits st)" "okc s p c" "length s \<le> 13000"
  shows "\<exists>N n. digs st N n \<and> n \<le> 13000"
proof -
  obtain c1 p1 st1 where m: "mantissa u s p c = Some (c1, p1, st1)" using mantissa_safe [OF assms(2)] by blast
  obtain N n where d: "digs st1 N n" "n \<le> 13000" using mantissa_digs [OF m assms(2,3)] by blast
  have "st = st1 \<or> (\<exists>l. st = st1 \<lparr> lrp := l \<rparr>)"
    using assms(1) m by (auto simp: dec_scan_mantissa bind_eq_Some_conv split: if_splits)
  then have "digs st N n" using d(1) by auto
  then show ?thesis using d(2) by blast
qed

lemma hex_norm_returns: "0 < x \<Longrightarrow> hex_norm x y e2 \<noteq> None"
proof (induction "nat (2147483648 - x)" arbitrary: x y e2 rule: less_induct)
  case less
  show ?case
  proof (cases "x < 2147483648")
    case True
    then have "nat (2147483648 - (x + x + 1)) < nat (2147483648 - x)" "nat (2147483648 - (x + x)) < nat (2147483648 - x)"
      using less(2) by simp_all
    then show ?thesis using less(1) [of "x + x + 1"] less(1) [of "x + x"] less(2) True by (subst hex_norm.simps) auto
  next
    case False
    then show ?thesis by (subst hex_norm.simps) simp
  qed
qed

lemma hex_convert_returns:
  assumes "0 \<le> hx st"
  shows "hex_convert st e10 bits emin sign en \<noteq> Inl No_return"
proof (cases "hx st * 16 ^ nat (8 - hdc st) = 0")
  case True
  then show ?thesis by (simp add: hex_convert_def)
next
  case False
  then have "0 < hx st * 16 ^ nat (8 - hdc st)" using assms by (simp add: less_le)
  then have "hex_norm (hx st * 16 ^ nat (8 - hdc st)) (hy st) (e10 + 4 * hrp st - 32) \<noteq> None" by (rule hex_norm_returns)
  then show ?thesis
    unfolding hex_convert_def Let_def if_not_P [OF False]
    by (simp only: sum.distinct simp_thms split: if_split) (auto split: option.split)
qed

lemma dec_number_returns:
  assumes "okc s q x" "length s \<le> 13000" "narrow F"
  shows "(case dec_scan u s q x pok of None \<Rightarrow> Inl Read_outside
      | Some (p', Done v e) \<Rightarrow> Inr (v, p', (case e of None \<Rightarrow> en | Some e' \<Rightarrow> e'))
      | Some (p', Digits st) \<Rightarrow>
          (case dec_convert st (mant F) (least F) sign en of Inl b \<Rightarrow> Inl b | Inr (v, e) \<Rightarrow> Inr (v, p', e))) \<noteq> Inl No_return"
proof -
  obtain p' r where d: "dec_scan u s q x pok = Some (p', r)" using dec_scan_safe [OF assms(1), of u pok] by blast
  show ?thesis
  proof (cases r)
    case (Digits st)
    obtain N n where "digs st N n" "n \<le> 13000" using dec_scan_digs [OF d [unfolded Digits] assms(1,2)] by blast
    then have "dec_convert st (mant F) (least F) sign en \<noteq> Inl No_return" by (rule dec_convert_returns [OF assms(3)])
    then show ?thesis using d Digits by (cases "dec_convert st (mant F) (least F) sign en") (auto split: prod.split)
  qed (simp add: d)
qed

lemma number_returns:
  assumes "okc s p c" "length s \<le> 13000" "narrow F"
  shows "number u s c p F sign pok en \<noteq> Inl No_return"
proof (cases "c = 48")
  case True
  then obtain c' where c': "shgetc s p = Some (c', p + 1)" "okc s (p + 1) c'" using okc_next [OF assms(1)] by auto
  have ok: "okc s p 48" "1 \<le> p" using assms(1) True by (simp_all add: okc_def)
  show ?thesis
  proof (cases "c' OR 32 = 120")
    case x: True
    then have "c' \<noteq> 0" by auto
    then have "p + 1 \<le> length s" using c'(2) by (simp add: okc_def)
    then obtain q r where r: "hex_scan s (p + 1) sign pok = Some (q, r)" "\<forall>st e. r = HDigits st e \<longrightarrow> 0 \<le> hx st"
      using hex_scan_safe [of "p + 1" s sign pok] ok(2) by auto
    show ?thesis
    proof (cases r)
      case (HDigits st e)
      then have "hex_convert st e (mant F) (least F) sign en \<noteq> Inl No_return" using r(2) hex_convert_returns by blast
      then show ?thesis using c'(1) x True r(1) HDigits
        by (cases "hex_convert st e (mant F) (least F) sign en") (auto simp: number_def Let_def split: prod.split)
    qed (use c'(1) x True r(1) in \<open>simp add: number_def Let_def\<close>)
  next
    case False
    then show ?thesis using c'(1) okc_unget [OF c'(2)] dec_number_returns [OF ok(1) assms(2,3)] True by (simp add: number_def Let_def)
  qed
next
  case False
  then show ?thesis using dec_number_returns [OF assms] by (simp add: number_def Let_def)
qed

lemma floatscan_returns:
  assumes "length s \<le> 13000" "prec_fmt prec = Some F" "narrow F"
  shows "floatscan u s prec pok en \<noteq> Inl No_return"
proof -
  obtain r where r: "prefix_scan s pok en = Some r"
      "case r of Number c p sign \<Rightarrow> okc s p c \<and> (sign = 1 \<or> sign = -1) | Final v p e \<Rightarrow> p \<le> length s"
    using prefix_scan_safe by blast
  show ?thesis
  proof (cases r)
    case (Number c p sign)
    then show ?thesis using assms(2) r number_returns [OF _ assms(1,3), of p c] by (simp add: floatscan_def)
  qed (simp add: floatscan_def assms(2) r(1))
qed

text \<open>C34: \<^verbatim>\<open>strtod\<close> returns on every string of at most 13000 characters. The loops of \<^verbatim>\<open>decfloat\<close> that scale the
  ring of limbs and the normalisation of hexadecimal numbers are partial functions whose value is \<open>None\<close> when they
  run forever (\<open>No_return\<close>), and this is excluded: they end for every exponent that reaches them. The one outcome
  other than a value, an end pointer and \<^verbatim>\<open>errno\<close> is \<open>Store_before\<close>, the store outside the array of limbs
  that the code makes for some numerals; longer strings are not covered.
\<close>

theorem strtod_returns:
  assumes "length s \<le> 13000"
  shows "strtod u s en = Inl Store_before \<or> (\<exists>v p en'. strtod u s en = Inr (v, p, en'))"
proof (cases "floatscan u s 1 True en")
  case (Inl b)
  have "b \<noteq> No_return" using floatscan_returns [OF assms, of 1 double u True en] Inl by (auto simp: prec_fmt_def narrow_def)
  moreover have "b \<noteq> Read_outside" using floatscan_safe [of u s 1 True en] Inl by auto
  ultimately have "b = Store_before" by (cases b) simp_all
  then show ?thesis using Inl by (simp add: strtod_def strtox_def conv_result_def)
next
  case (Inr r)
  then show ?thesis by (cases r) (simp add: strtod_def strtox_def conv_result_def)
qed

theorem strtod_returns_witness:
  "strtod (\<lambda>_. 0) ''1e400x'' 0 = Inl Store_before \<or> (\<exists>v p en'. strtod (\<lambda>_. 0) ''1e400x'' 0 = Inr (v, p, en'))"
  by (rule strtod_returns) simp

subsection \<open>The result is a number of the format\<close>

text \<open>Magnitudes are not negative; a number of the format is a multiple of a power of two with few bits.\<close>

definition magnitude :: "fp \<Rightarrow> bool" where
  "magnitude v \<longleftrightarrow> (case v of FNum s x \<Rightarrow> 0 \<le> x | _ \<Rightarrow> True)"

definition representable :: "fmt \<Rightarrow> fp \<Rightarrow> bool" where
  "representable F v \<longleftrightarrow> (case v of FNum s x \<Rightarrow> in_fmt F x \<and> x < 2 powi maxexp F | _ \<Rightarrow> True)"

lemma magnitude_simps [simp]: "magnitude (FNum s x) \<longleftrightarrow> 0 \<le> x" "magnitude (FInf s)" "magnitude FNaN"
  by (simp_all add: magnitude_def)

lemma fround_magnitude: "0 \<le> x \<Longrightarrow> magnitude (fround F s x)"
proof (cases "x = 0")
  case False
  assume "0 \<le> x"
  then have x: "0 < x" using False by simp
  define l where "l = max (rexp x - mant F + 1) (least F)"
  have "0 \<le> rne (x / 2 powi l)" using x powi_pos [of l] by (intro rne_ge) simp
  then show ?thesis using fround_eq [OF x, of F l s] powi_pos [of l] by (simp add: l_def)
qed simp

lemma fp_magnitude:
  "magnitude (fadd F a b)" "magnitude (fsub F a b)"
  "magnitude a \<Longrightarrow> magnitude b \<Longrightarrow> magnitude (fmul F a b)" "magnitude a \<Longrightarrow> magnitude b \<Longrightarrow> magnitude (fdiv F a b)"
  "magnitude a \<Longrightarrow> magnitude (fscalb F a e)" "magnitude (of_intf F n)"
  using powi_pos [of e] fround_magnitude
  by (auto simp: fadd_def fsub_def fmul_def fdiv_def fscalb_def of_intf_def Let_def intro!: fround_magnitude split: fp.splits)

lemma fround_representable:
  assumes "0 \<le> x" "1 \<le> mant F"
  shows "representable F (fround F s x)"
proof (cases "x = 0")
  case True
  have "in_fmt F 0" unfolding in_fmt_def by (intro exI [of _ 0] exI [of _ "least F"]) simp
  then show ?thesis using True powi_pos [of "maxexp F"] by (simp add: representable_def)
next
  case False
  then have x: "0 < x" using assms(1) by simp
  define l where "l = max (rexp x - mant F + 1) (least F)"
  define n where "n = rne (x / 2 powi l)"
  have n0: "0 \<le> n" unfolding n_def using x powi_pos [of l] by (intro rne_ge) simp
  have "x < 2 powi (rexp x + 1)" using rexp_bounds(2) [OF x] .
  also have "\<dots> \<le> 2 powi (int (nat (mant F)) + l)" using assms(2) by (intro powi_mono) (simp add: l_def)
  also have "\<dots> = of_int (2 ^ nat (mant F)) * 2 powi l" unfolding powi_plus powi_nat ..
  finally have "x / 2 powi l \<le> of_int (2 ^ nat (mant F))" using powi_pos [of l] by (simp add: divide_le_eq)
  then have nm: "n \<le> 2 ^ nat (mant F)" unfolding n_def by (rule rne_le)
  have "in_fmt F (of_int n * 2 powi l)"
  proof (cases "n = 2 ^ nat (mant F)")
    case True
    have "of_int n * 2 powi l = of_int (2 ^ nat (mant F - 1)) * (2 :: rat) powi (l + 1)"
    proof -
      have "nat (mant F) = Suc (nat (mant F - 1))" using assms(2) by simp
      then show ?thesis unfolding True powi_plus by simp
    qed
    moreover have "(2 :: int) ^ nat (mant F - 1) < 2 ^ nat (mant F)" by (rule power_strict_increasing) (use assms(2) in simp_all)
    ultimately show ?thesis unfolding in_fmt_def
      by (intro exI [of _ "2 ^ nat (mant F - 1)"] exI [of _ "l + 1"]) (simp add: l_def)
  next
    case False
    then show ?thesis using n0 nm unfolding in_fmt_def by (intro exI [of _ n] exI [of _ l]) (simp add: l_def)
  qed
  then show ?thesis using fround_eq [OF x, of F l s] by (simp add: representable_def l_def n_def not_le)
qed

lemma fconv_representable: "magnitude v \<Longrightarrow> 1 \<le> mant F \<Longrightarrow> representable F (fconv F v)"
  using fround_representable by (cases v) (simp_all add: fconv_def, simp_all add: representable_def)

lemma LDBL_magnitude: "magnitude LDBL_MAX" "magnitude LDBL_MIN"
proof -
  have "(2 :: rat) ^ 16271 \<le> 2 ^ 16384" by (rule power_increasing) simp_all
  then show "magnitude LDBL_MAX" by (simp only: LDBL_MAX_def magnitude_simps diff_ge_0_iff_ge)
  have "(0 :: rat) \<le> 2 ^ 16382" by (rule zero_le_power) simp
  then show "magnitude LDBL_MIN" by (simp only: LDBL_MIN_def magnitude_simps zero_le_divide_1_iff)
qed

lemma dec_round_magnitude: "magnitude (fst (dec_round bits emin sign r y en))"
  unfolding dec_round_def Let_def by (simp add: fp_magnitude)

lemma hex_round_magnitude: "magnitude (fst (hex_round bits emin sign x y e2 en))"
  unfolding hex_round_def Let_def by (simp add: fp_magnitude)

text \<open>The value of a result, if there is one.\<close>

definition value_ok :: "(fp \<Rightarrow> bool) \<Rightarrow> 'e + (fp \<times> 'r) \<Rightarrow> bool" where
  "value_ok P r \<longleftrightarrow> (case r of Inl b \<Rightarrow> True | Inr (v, e) \<Rightarrow> P v)"

lemma value_ok_iff: "value_ok P r \<longleftrightarrow> (\<forall>v e. r = Inr (v, e) \<longrightarrow> P v)"
  by (auto simp: value_ok_def split: sum.split)

lemma value_ok_intros:
  "(c \<Longrightarrow> value_ok P x) \<Longrightarrow> (\<not> c \<Longrightarrow> value_ok P y) \<Longrightarrow> value_ok P (if c then x else y)"
  "value_ok P a \<Longrightarrow> (\<And>v. value_ok P (f v)) \<Longrightarrow> value_ok P (case o1 of None \<Rightarrow> a | Some v \<Rightarrow> f v)"
  "(\<And>a b. value_ok P (g a b)) \<Longrightarrow> value_ok P (case q of (a, b) \<Rightarrow> g a b)"
  "P v \<Longrightarrow> value_ok P (Inr (v, e))" "value_ok P (Inl b)" "P (fst w) \<Longrightarrow> value_ok P (Inr w)"
  by (auto simp: value_ok_def split: option.splits prod.splits)

lemma dec_convert_magnitude: "value_ok magnitude (dec_convert st bits emin sign en)"
  unfolding dec_convert_def Let_def
  by (intro value_ok_intros dec_round_magnitude fp_magnitude LDBL_magnitude) simp_all

lemma hex_convert_magnitude: "value_ok magnitude (hex_convert st e10 bits emin sign en)"
  unfolding hex_convert_def Let_def
  by (intro value_ok_intros hex_round_magnitude fp_magnitude LDBL_magnitude) simp_all

definition opt_ok :: "('a \<Rightarrow> bool) \<Rightarrow> 'a option \<Rightarrow> bool" where
  "opt_ok P r \<longleftrightarrow> (\<forall>x. r = Some x \<longrightarrow> P x)"

lemma opt_ok_intros:
  "(c \<Longrightarrow> opt_ok P x) \<Longrightarrow> (\<not> c \<Longrightarrow> opt_ok P y) \<Longrightarrow> opt_ok P (if c then x else y)"
  "(\<And>v. opt_ok P (f v)) \<Longrightarrow> opt_ok P (o1 \<bind> f)"
  "(\<And>a b. opt_ok P (g a b)) \<Longrightarrow> opt_ok P (case q of (a, b) \<Rightarrow> g a b)"
  "P w \<Longrightarrow> opt_ok P (Some w)"
  by (auto simp: opt_ok_def bind_eq_Some_conv split: option.splits prod.splits)

lemma dec_scan_magnitude: "opt_ok (\<lambda>(p, r). \<forall>v e. r = Done v e \<longrightarrow> magnitude v) (dec_scan u s p c pok)"
  unfolding dec_scan_def Let_def by (intro opt_ok_intros) simp_all

lemma hex_scan_magnitude: "opt_ok (\<lambda>(p, r). \<forall>v. r = HDone v \<longrightarrow> magnitude v) (hex_scan s p sign pok)"
  unfolding hex_scan_def Let_def by (intro opt_ok_intros) (simp_all add: fp_magnitude)

lemma nan_scan_magnitude: "opt_ok (\<lambda>(v, p, e). magnitude v) (nan_scan s p pok en)"
  unfolding nan_scan_def by (intro opt_ok_intros) simp_all

lemma prefix_scan_magnitude: "opt_ok (\<lambda>r. \<forall>v p e. r = Final v p e \<longrightarrow> magnitude v) (prefix_scan s pok en)"
proof -
  have "nan_scan s p pok en = Some (v, q, e) \<Longrightarrow> magnitude v" for p v q e
    using nan_scan_magnitude [of s p pok en] by (simp add: opt_ok_def)
  then have n: "opt_ok (\<lambda>r. \<forall>v p e. r = Final v p e \<longrightarrow> magnitude v) (nan_scan s p pok en \<bind> (\<lambda>(v, p, e). Some (Final v p e)))" for p
    by (auto simp: opt_ok_def split: option.splits prod.splits bind_splits)
  show ?thesis unfolding prefix_scan_def Let_def by (intro n opt_ok_intros) simp_all
qed

lemma number_magnitude: "value_ok magnitude (number u s c p F sign pok en)"
proof -
  have dec: "value_ok magnitude (case dec_scan u s q x pok of None \<Rightarrow> Inl Read_outside
      | Some (p', Done v e) \<Rightarrow> Inr (v, p', (case e of None \<Rightarrow> en | Some e' \<Rightarrow> e'))
      | Some (p', Digits st) \<Rightarrow>
          (case dec_convert st (mant F) (least F) sign en of Inl b \<Rightarrow> Inl b | Inr (v, e) \<Rightarrow> Inr (v, p', e)))" for q x
    using dec_scan_magnitude [of u s q x pok] dec_convert_magnitude [of _ "mant F" "least F" sign en]
    by (auto simp: opt_ok_def value_ok_iff split: option.splits prod.splits scanned.splits sum.splits)
  have hex: "value_ok magnitude (case hex_scan s q sign pok of None \<Rightarrow> Inl Read_outside
      | Some (p', HDone v) \<Rightarrow> Inr (v, p', en)
      | Some (p', HDigits st e) \<Rightarrow>
          (case hex_convert st e (mant F) (least F) sign en of Inl b \<Rightarrow> Inl b | Inr (v, e') \<Rightarrow> Inr (v, p', e')))" for q
    using hex_scan_magnitude [of s q sign pok] hex_convert_magnitude [of _ _ "mant F" "least F" sign en]
    by (auto simp: opt_ok_def value_ok_iff split: option.splits prod.splits hscanned.splits sum.splits)
  show ?thesis unfolding number_def Let_def by (intro value_ok_intros dec hex)
qed

lemma floatscan_magnitude: "value_ok magnitude (floatscan u s prec pok en)"
proof (cases "prec_fmt prec")
  case (Some F)
  show ?thesis
  proof (cases "prefix_scan s pok en")
    case p: (Some r)
    then show ?thesis
      using prefix_scan_magnitude [of s pok en] number_magnitude [of u s _ _ F _ pok en] Some
      by (cases r) (simp_all add: floatscan_def opt_ok_def, simp add: value_ok_iff)
  qed (simp add: floatscan_def Some value_ok_def)
qed (simp add: floatscan_def value_ok_def)

text \<open>The result of \<^verbatim>\<open>strtod\<close> is a \<^verbatim>\<open>double\<close> and that of \<^verbatim>\<open>strtof\<close> a \<^verbatim>\<open>float\<close>, for every string: a finite value
  is a multiple of a power of two, not below the last place of the subnormal numbers, with at most 53 (24)
  significant bits and below the overflow threshold.\<close>

theorem strtod_in_format:
  "value_ok (representable double) (strtod u s en) \<and> value_ok (representable single) (strtof u s en)"
proof -
  have "value_ok (representable F) (conv_result F (strtox u s prec en))" if "1 \<le> mant F" for F prec
    using floatscan_magnitude [of u s prec True en] fconv_representable [OF _ that]
    by (auto simp: value_ok_iff conv_result_def strtox_def split: sum.splits prod.splits)
  then show ?thesis unfolding strtod_def strtof_def by (simp add: double_def single_def)
qed

subsection \<open>The ring never overflows\<close>

text \<open>The states of the two scaling loops from \<open>r0\<close> on; \<open>True\<close> is the second loop.\<close>

inductive scaling :: "ring \<Rightarrow> bool \<Rightarrow> ring \<Rightarrow> bool" for r0 where
  scaling_start: "scaling r0 False r0"
| scaling_up: "scaling r0 False r \<Longrightarrow> up_more r \<Longrightarrow> scaling r0 False (up_step r)"
| scaling_turn: "scaling r0 False r \<Longrightarrow> \<not> up_more r \<Longrightarrow> scaling r0 True r"
| scaling_down: "scaling r0 True r \<Longrightarrow> \<not> down_done r \<Longrightarrow> scaling r0 True (down_step r)"

definition scaling_inv :: "int \<Rightarrow> rat \<Rightarrow> ring \<Rightarrow> nat list \<Rightarrow> bool \<Rightarrow> ring \<Rightarrow> nat list \<Rightarrow> bool" where
  "scaling_inv C V r0 L0 ph r L \<longleftrightarrow> rinv C V r L \<and>
     (if ph then 2 ^ 112 \<le> vl L * 10 powi rp r \<and> length L + rounds (rp r) (hd L) < 2047
      else int (length L) + max 0 (45 - rp r) div 9 < 2047
         \<and> int (length L) \<le> int (length L0) + (rp r - rp r0) div 9 \<and> (rp r \<le> 45 \<or> rp r = rp r0))"

lemma scaling_invariant:
  assumes "scaling r0 ph r" "rinv C V r0 L0" "length L0 \<le> 1501" "-1328 \<le> rp r0" "rp r0 \<le> 568"
  shows "\<exists>L. scaling_inv C V r0 L0 ph r L"
  using assms(1)
proof (induction rule: scaling.induct)
  case scaling_start
  have "max 0 (45 - rp r0) div 9 \<le> 1373 div 9" using assms(4) by (intro zdiv_mono1) simp_all
  then show ?case using assms(2,3) by (intro exI [of _ L0]) (simp add: scaling_inv_def)
next
  case (scaling_up r)
  then obtain L where L: "scaling_inv C V r0 L0 False r L" by blast
  then have i: "rinv C V r L" "int (length L) + max 0 (45 - rp r) div 9 < 2047"
      "int (length L) \<le> int (length L0) + (rp r - rp r0) div 9"
    by (simp_all add: scaling_inv_def)
  note s = up_step_ok [OF i(1) scaling_up(2) i(2)]
  show ?case using s(1,2,5) s(7) [OF i(3)] by (intro exI [of _ "upstep L"]) (simp add: scaling_inv_def)
next
  case (scaling_turn r)
  then obtain L where L: "scaling_inv C V r0 L0 False r L" by blast
  then have "length L + rounds (rp r) (hd L) < 2047" using turn_bound [OF _ _ _ assms(3-5), of C V r L] by (simp add: scaling_inv_def)
  then show ?case using L not_up_more(2) [OF _ scaling_turn(2)] by (intro exI [of _ L]) (auto simp: scaling_inv_def)
next
  case (scaling_down r)
  then obtain L where L: "scaling_inv C V r0 L0 True r L" by blast
  then show ?case
    using down_step_ok [of C V r L] scaling_down(2) by (intro exI [of _ "downstep (sh_of r) L"]) (simp add: scaling_inv_def)
qed

text \<open>C35: The ring of limbs does not overflow in \<^verbatim>\<open>strtod\<close> and \<^verbatim>\<open>strtof\<close>: for a number of at most 13000 digits whose
  point is between the digits -1320 and 560 (\<open>lrp\<close>; \<^verbatim>\<open>decfloat\<close> returns before the loops for every other exponent
  of these two formats), in every state of the two scaling loops fewer than 2047 of the 2048 limbs are in use, so that the
  indices never meet, and every limb is at most \<open>10 ^ 9\<close>, so that it fits a \<^verbatim>\<open>uint32_t\<close> and the product with
  \<open>2 ^ 29\<close> a \<^verbatim>\<open>uint64_t\<close>. Outside these bounds the indices do meet, for some exponents of \<^verbatim>\<open>strtold\<close> and for
  longer texts; \<^verbatim>\<open>decfloat\<close> then drops limbs, and nothing is claimed.\<close>

theorem limbs_bounded:
  assumes "digs st N n" "0 < n" "n \<le> 13000" "-1320 \<le> lrp st" "lrp st \<le> 560"
    and "scaling (align \<lparr> rx = padded st, ra = 0, rz = drop_zeros (padded st) (limb_count st), rp = lrp st, re2 = 0 \<rparr>) ph r"
  shows "(rz r + 2048 - ra r) mod 2048 < 2047
    \<and> (\<forall>i < (rz r + 2048 - ra r) mod 2048. rx r ((ra r + i) mod 2048) \<le> 10 ^ 9)"
proof -
  obtain L where L: "drop_zeros (padded st) (limb_count st) = length L" "length L \<le> 1500" "\<forall>i < length L. padded st i = L ! i"
      "limbs_ok L" "\<forall>v \<in> set L. v < B1B" "last L \<noteq> 0"
    using start_limbs [OF assms(1-3)] by blast
  define r0 where "r0 = \<lparr> rx = padded st, ra = 0, rz = length L, rp = lrp st, re2 = 0 \<rparr>"
  obtain C V L0 where a: "rinv C V (align r0) L0" "length L0 \<le> length L + 1" "rp r0 - 8 \<le> rp (align r0)" "rp (align r0) \<le> rp r0 + 8"
    using align_spec [of r0 L] L by (auto simp: r0_def)
  have "scaling (align r0) ph r" using assms(6) unfolding L(1) r0_def .
  then obtain K where K: "scaling_inv C V (align r0) L0 ph r K"
    using scaling_invariant [OF _ a(1)] a(2-4) L(2) assms(4,5) by (fastforce simp: r0_def)
  then have ri: "ring_is r K" and ok: "okl K" by (auto simp: scaling_inv_def rinv_def limbs_ok_def)
  have len: "length K < 2047" using K by (auto simp: scaling_inv_def split: if_splits)
  have m: "(rz r + 2048 - ra r) mod 2048 = length K"
    using ix_diff [of "ra r" "length K"] ri by (simp add: ring_is_def)
  have "rx r ((ra r + i) mod 2048) \<le> 10 ^ 9" if "i < length K" for i
    using ri that okl_le [OF ok, of "K ! i"] by (simp add: ring_is_def)
  then show ?thesis unfolding m using len by simp
qed

theorem limbs_bounded_witness:
  "let st = \<lparr> dx = (\<lambda>_. 0)(0 := 125), dj = 3, dk = 0, lrp = 3, dc = 3, lnz = 3, gotdig = True, gotrad = False \<rparr>;
     r = align \<lparr> rx = padded st, ra = 0, rz = drop_zeros (padded st) (limb_count st), rp = lrp st, re2 = 0 \<rparr>
   in (rz r + 2048 - ra r) mod 2048 < 2047"
proof -
  define st where "st = \<lparr> dx = (\<lambda>_. 0)(0 := 125 :: nat), dj = 3, dk = 0, lrp = 3, dc = 3, lnz = 3, gotdig = True, gotrad = False \<rparr>"
  have "digs st 125 3" by (simp add: digs_def st_def)
  moreover have "lrp st = 3" by (simp add: st_def)
  ultimately show ?thesis using limbs_bounded [OF _ _ _ _ _ scaling_start, of st 125 3] by (simp add: st_def [symmetric] Let_def)
qed

subsection \<open>The store before the array\<close>

text \<open>
  A numeral with few limbs at the end of the ring, \<open>5 ^ 18 / 2 ^ 15\<close>: after three multiplications and one
  division it fills the limbs 2045 and 2046, and the padding to four limbs moves the end index from 2047 to 0.
\<close>

lemma loops_numeral:
  "up_loop (numeral w) k r carry =
     (let (v, c) = up_limb (rx r k) carry;
          r1 = r \<lparr> rx := (rx r)(k := v) \<rparr>;
          r2 = (if k = prev_ix (rz r) \<and> v = 0 then r1 \<lparr> rz := k \<rparr> else r1)
      in up_loop (pred_numeral w) (prev_ix k) r2 c)"
  "down_loop sh (numeral w) k r carry =
     (let tmp = rx r k mod 2 ^ sh; v = rx r k div 2 ^ sh + carry;
          r1 = r \<lparr> rx := (rx r)(k := v) \<rparr>;
          r2 = (if k = ra r \<and> v = 0 then r1 \<lparr> ra := next_ix (ra r), rp := rp r - 9 \<rparr> else r1)
      in down_loop sh (pred_numeral w) (next_ix k) r2 (B1B div 2 ^ sh * tmp))"
  unfolding numeral_eq_Suc [of w] up_loop.simps down_loop.simps by (rule refl)+

lemmas ring_eval = up_step_def down_step_def prev_ix_def next_ix_def up_limb_def loops_numeral Let_def

lemma wrap_steps:
  "up_step \<lparr> rx = (\<lambda>_. 0)(0 := 116415321, Suc 0 := 826934814, 2 := 453125000), ra = 0, rz = 3, rp = 9, re2 = 0 \<rparr>
    = \<lparr> rx = (\<lambda>_. 0)(2 := 0, Suc 0 := 0, 0 := 0, 2047 := 62500000), ra = 2047, rz = 1, rp = 18, re2 = -29 \<rparr>"
  "up_step \<lparr> rx = (\<lambda>_. 0)(2 := 0, Suc 0 := 0, 0 := 0, 2047 := 62500000), ra = 2047, rz = 1, rp = 18, re2 = -29 \<rparr>
    = \<lparr> rx = (\<lambda>_. 0)(2 := 0, Suc 0 := 0, 0 := 0, 2047 := 0, 2046 := 33554432), ra = 2046, rz = 0, rp = 27, re2 = -58 \<rparr>"
  "up_step \<lparr> rx = (\<lambda>_. 0)(2 := 0, Suc 0 := 0, 0 := 0, 2047 := 0, 2046 := 33554432), ra = 2046, rz = 0, rp = 27, re2 = -58 \<rparr>
    = \<lparr> rx = (\<lambda>_. 0)(2 := 0, Suc 0 := 0, 0 := 0, 2047 := 0, 2046 := 509481984, 2045 := 18014398), ra = 2045, rz = 2047, rp = 36, re2 = -87 \<rparr>"
  "down_step \<lparr> rx = (\<lambda>_. 0)(2 := 0, Suc 0 := 0, 0 := 0, 2047 := 0, 2046 := 509481984, 2045 := 18014398), ra = 2045, rz = 2047, rp = 36, re2 = -87 \<rparr>
    = \<lparr> rx = (\<lambda>_. 0)(2 := 0, Suc 0 := 0, 0 := 0, 2047 := 0, 2045 := 9007199, 2046 := 254740992), ra = 2045, rz = 2047, rp = 36, re2 = -86 \<rparr>"
  by (simp_all add: ring_eval)

definition wrap_ring :: ring where
  "wrap_ring = \<lparr> rx = (\<lambda>_. 0)(2 := 0, Suc 0 := 0, 0 := 0, 2047 := 0, 2045 := 9007199, 2046 := 254740992),
     ra = 2045, rz = 2047, rp = 36, re2 = -86 \<rparr>"

lemma wrap_up:
  "upscale \<lparr> rx = (\<lambda>_. 0)(0 := 116415321, Suc 0 := 826934814, 2 := 453125000), ra = 0, rz = 3, rp = 9, re2 = 0 \<rparr>
    = Some \<lparr> rx = (\<lambda>_. 0)(2 := 0, Suc 0 := 0, 0 := 0, 2047 := 0, 2046 := 509481984, 2045 := 18014398), ra = 2045, rz = 2047, rp = 36, re2 = -87 \<rparr>"
  by (subst upscale.simps, simp only: wrap_steps, subst upscale.simps, simp only: wrap_steps, subst upscale.simps,
      simp only: wrap_steps, subst upscale.simps) (simp add: up_more_def th_def)

lemma wrap_down:
  "downscale \<lparr> rx = (\<lambda>_. 0)(2 := 0, Suc 0 := 0, 0 := 0, 2047 := 0, 2046 := 509481984, 2045 := 18014398), ra = 2045, rz = 2047, rp = 36, re2 = -87 \<rparr>
    = Some wrap_ring"
  unfolding wrap_ring_def
  by (subst downscale.simps, simp only: wrap_steps, subst downscale.simps) (simp add: down_done_def th_def next_ix_def)

lemma wrap_assemble: "assemble [0, 1, 2, 3] wrap_ring y = None"
  by (simp add: wrap_ring_def Let_def next_ix_def)

lemma wrap_prefix: "prefix_scan ''116415321.826934814453125'' True 0 = Some (Number 49 1 1)"
  by (simp add: prefix_scan_def spaces.simps shgetc_def isspace_def ord_def)

lemma wrap_scan:
  "dec_scan (\<lambda>_. 0) ''116415321.826934814453125'' 1 49 True
    = Some (25, Digits \<lparr> dx = (\<lambda>_. 0)(0 := 116415321, Suc 0 := 826934814, Suc (Suc 0) := 453125), dj = 6, dk = 2, lrp = 9,
        dc = 24, lnz = 24, gotdig = True, gotrad = True \<rparr>)"
  by (simp add: dec_scan_def zeros.simps dec_digits.simps shgetc_def dig_def digit_step_def ord_def Let_def shunget_def)

text \<open>C37: \<^verbatim>\<open>decfloat\<close> stores outside its array: on the numeral \<^verbatim>\<open>116415321.826934814453125\<close> the padding of the limbs
  wraps the end index to 0 and writes \<^verbatim>\<open>x[-1]\<close>.\<close>

theorem strtod_stores_before:
  "strtod (\<lambda>_. 0) ''116415321.826934814453125'' 0 = Inl Store_before"
proof -
  define st where "st = \<lparr> dx = (\<lambda>_. 0)(0 := 116415321, Suc 0 := 826934814, Suc (Suc 0) := 453125), dj = 6, dk = 2, lrp = 9,
      dc = 24, lnz = 24, gotdig = True, gotrad = True \<rparr>"
  have p: "(dx st)(2 := 453125000) = (\<lambda>_. 0)(0 := 116415321, Suc 0 := 826934814, 2 := 453125000)"
    by (simp add: st_def numeral_2_eq_2)
  have z: "drop_zeros ((\<lambda>_. 0)(0 := 116415321, Suc 0 := 826934814, 2 := 453125000)) 3 = 3"
    by (simp add: numeral_3_eq_3 numeral_2_eq_2)
  have s: "dx st 0 = 116415321" "dx st 2 = 453125" "dj st = 6" "dk st = 2" "lrp st = 9" "dc st = 24" "lnz st = 24"
    by (simp_all add: st_def numeral_2_eq_2)
  have al: "align r = r" if "rp r = 9" for r using that by (simp add: align_def)
  have "dec_convert st 53 (-1074) 1 0 = Inl Store_before"
    unfolding dec_convert_def Let_def s by (simp add: p z al wrap_up wrap_down wrap_assemble wrap_assemble [unfolded One_nat_def] del: fun_upd_apply assemble.simps)
  then have "number (\<lambda>_. 0) ''116415321.826934814453125'' 49 1 double 1 True 0 = Inl Store_before"
    using wrap_scan by (simp add: number_def st_def double_def)
  then show ?thesis
    using wrap_prefix by (simp add: strtod_def strtox_def floatscan_def prec_fmt_def conv_result_def)
qed

end
