(* ===== verification/FmtHex.thy ===== *)
theory FmtHex
  imports FmtFp FloatSafe
begin

unbundle bit_operations_syntax

text \<open>
  \<^verbatim>\<open>%a\<close> and the parsing of hexadecimal numbers: the digits printed are those of the significand, reading them
  back is exact, so a number printed with \<^verbatim>\<open>%a\<close> and read by \<^verbatim>\<open>strtod\<close> is the same number.
\<close>

subsection \<open>The digits printed\<close>

primrec hexdigs :: "nat \<Rightarrow> nat \<Rightarrow> nat list" where
  "hexdigs 0 N = [N]"
| "hexdigs (Suc k) N =
     N div 16 ^ Suc k # (if N mod 16 ^ Suc k = 0 then [] else hexdigs k (N mod 16 ^ Suc k))"

definition hexc :: "int \<Rightarrow> nat \<Rightarrow> byte" where
  "hexc t d = chr (ord (xdigits ! d) OR (t AND 32))"

lemma hexdigs_nonempty [simp]: "hexdigs k N \<noteq> []"
  by (cases k) auto

lemma quad_hex_exact: "n \<le> 2 ^ 113 \<Longrightarrow> k \<le> 1000 \<Longrightarrow> fround quad s (of_nat n / 16 ^ k) = FNum s (of_nat n / 16 ^ k)"
proof -
  assume n: "n \<le> 2 ^ 113" "k \<le> 1000"
  have "(16 :: rat) ^ k = 2 powi int (4 * k)" by (simp only: power_int_of_nat power_mult) simp
  then have "of_nat n / 16 ^ k = of_int (int n) * (2 :: rat) powi (- int (4 * k))" by (simp only: power_int_minus of_int_of_nat_eq divide_inverse)
  moreover have "int n \<le> 2 ^ 113" using n(1) by (metis of_nat_le_iff of_nat_numeral of_nat_power)
  ultimately show ?thesis using quad_pow_exact [of "int n" "- int (4 * k)" s] n(2) by simp
qed

lemma trunc_hex: "trunc (FNum False (of_nat N / 16 ^ k)) = int (N div 16 ^ k)"
  using floor_divide_of_nat_eq [of N "16 ^ k", where 'a = rat] by (simp add: trunc_def)

lemma hex_frac:
  assumes "N \<le> 2 ^ 113" "k \<le> 28"
  shows "fsub quad (FNum False (of_nat N / 16 ^ k)) (of_intf quad (int (N div 16 ^ k))) = FNum False (of_nat (N mod 16 ^ k) / 16 ^ k)"
proof -
  let ?d = "N div 16 ^ k" and ?m = "N mod 16 ^ k"
  have d: "?d \<le> 2 ^ 113" using assms(1) div_le_dividend [of N "16 ^ k"] by linarith
  have "of_intf quad (int ?d) = FNum False (of_nat ?d)" using fround_quad_int [OF d, of False] by (simp add: of_intf_def)
  moreover have "(of_nat N :: rat) = of_nat (?d * 16 ^ k + ?m)" by (simp only: div_mult_mod_eq)
  then have "(of_nat N :: rat) = of_nat ?d * 16 ^ k + of_nat ?m" by (simp only: of_nat_add of_nat_mult) simp
  then have N: "(of_nat N :: rat) / 16 ^ k = of_nat ?d + of_nat ?m / 16 ^ k" by (simp add: add_divide_distrib)
  have m: "?m \<le> 2 ^ 113" using assms(1) mod_less_eq_dividend [of N "16 ^ k"] by linarith
  ultimately show ?thesis
  proof (cases "?m = 0")
    case True
    then show ?thesis unfolding N \<open>of_intf _ _ = _\<close> using fsub_self by simp
  next
    case False
    then have "(0 :: rat) < of_nat ?m / 16 ^ k" by simp
    then show ?thesis
      unfolding N \<open>of_intf _ _ = _\<close> using fsub_same [of "of_nat ?d" "of_nat ?d + of_nat ?m / 16 ^ k" quad False] quad_hex_exact [OF m, of k False] assms(2)
      by simp
  qed
qed

lemma hex_shift:
  assumes "N \<le> 2 ^ 113" "Suc k \<le> 28"
  shows "fmul quad (FNum False 16) (FNum False (of_nat (N mod 16 ^ Suc k) / 16 ^ Suc k)) = FNum False (of_nat (N mod 16 ^ Suc k) / 16 ^ k)"
proof -
  have "N mod 16 ^ Suc k \<le> 2 ^ 113" using assms(1) mod_less_eq_dividend [of N "16 ^ Suc k"] by linarith
  then show ?thesis using quad_hex_exact [of "N mod 16 ^ Suc k" k False] assms(2) by (simp add: fmul_def)
qed

lemma hex_loop_digits:
  assumes "N \<le> 2 ^ 113" "k \<le> 28" "length buf + k < 37" "buf \<noteq> []"
  shows "hex_loop (FNum False (of_nat N / 16 ^ k)) p fl t buf = Some (buf @ map (hexc t) (hexdigs k N))"
  using assms
proof (induction k arbitrary: N buf)
  case 0
  have "fmul quad (FNum False 16) (fsub quad (FNum False (of_nat N)) (of_intf quad (int N))) = FNum False 0"
    using hex_frac [of N 0] 0(1) by (simp add: fmul_def)
  then show ?case using trunc_hex [of N 0] 0(3,4) by (subst hex_loop.simps) (simp add: hexc_def fzero_def Let_def)
next
  case (Suc k)
  let ?m = "N mod 16 ^ Suc k"
  have m: "?m \<le> 2 ^ 113" using Suc.prems(1) mod_less_eq_dividend [of N "16 ^ Suc k"] by linarith
  have y: "fmul quad (FNum False 16) (fsub quad (FNum False (of_nat N / 16 ^ Suc k)) (of_intf quad (int (N div 16 ^ Suc k))))
      = FNum False (of_nat ?m / 16 ^ k)"
    using hex_frac [OF Suc.prems(1,2)] hex_shift [OF Suc.prems(1,2)] by simp
  have z: "fzero (FNum False (of_nat ?m / 16 ^ k)) \<longleftrightarrow> ?m = 0" by (simp add: fzero_def)
  have tr: "trunc (FNum False (of_nat N / 16 ^ Suc k)) = int (N div 16 ^ Suc k)" by (rule trunc_hex)
  let ?b = "buf @ [hexc t (N div 16 ^ Suc k)]"
  have "length ?b = Suc (length buf)" by simp
  then have nd: "length ?b \<noteq> 1" using Suc.prems(4) by simp
  have "hex_loop (FNum False (of_nat N / 16 ^ Suc k)) p fl t buf
      = (if ?m = 0 then Some ?b else hex_loop (FNum False (of_nat ?m / 16 ^ k)) p fl t ?b)"
    using Suc.prems(3) nd unfolding z [symmetric]
    by (subst hex_loop.simps) (simp add: Let_def y tr hexc_def del: power_Suc)
  then show ?case using Suc.IH [OF m, of ?b] Suc.prems(2,3) by simp
qed

text \<open>The text of the digits: a point behind the first one if another follows, or if it is asked for.\<close>

definition hex_text :: "bool \<Rightarrow> int \<Rightarrow> nat list \<Rightarrow> byte list" where
  "hex_text dot t ds = hexc t (hd ds) # (if tl ds \<noteq> [] \<or> dot then ''.'' else []) @ map (hexc t) (tl ds)"

lemma hex_loop_text:
  assumes "N \<le> 2 ^ 113" "0 < k" "k \<le> 28"
  shows "hex_loop (FNum False (of_nat N / 16 ^ k)) p fl t [] = Some (hex_text (p > 0 \<or> has fl ALT_FORM) t (hexdigs k N))"
proof -
  obtain j where k: "k = Suc j" using assms(2) by (cases k) auto
  let ?m = "N mod 16 ^ Suc j"
  have m: "?m \<le> 2 ^ 113" using assms(1) mod_less_eq_dividend [of N "16 ^ Suc j"] by linarith
  have y: "fmul quad (FNum False 16) (fsub quad (FNum False (of_nat N / 16 ^ Suc j)) (of_intf quad (int (N div 16 ^ Suc j))))
      = FNum False (of_nat ?m / 16 ^ j)"
    using hex_frac [of N "Suc j"] hex_shift [of N j] assms k by simp
  have z: "fzero (FNum False (of_nat ?m / 16 ^ j)) \<longleftrightarrow> ?m = 0" by (simp add: fzero_def)
  have tr: "trunc (FNum False (of_nat N / 16 ^ Suc j)) = int (N div 16 ^ Suc j)" by (rule trunc_hex)
  let ?dot = "?m \<noteq> 0 \<or> p > 0 \<or> has fl ALT_FORM"
  let ?b = "hexc t (N div 16 ^ Suc j) # (if ?dot then ''.'' else [])"
  have "hex_loop (FNum False (of_nat N / 16 ^ Suc j)) p fl t []
      = (if ?m = 0 then Some ?b else hex_loop (FNum False (of_nat ?m / 16 ^ j)) p fl t ?b)"
    unfolding z [symmetric]
    by (subst hex_loop.simps) (auto simp add: Let_def y tr hexc_def z simp del: power_Suc)
  then show ?thesis using hex_loop_digits [OF m, of j ?b p fl t] assms(3) unfolding k
    by (cases "?m = 0") (simp_all add: hex_text_def del: power_Suc)
qed

subsection \<open>What the digits denote\<close>

fun hexn :: "nat \<Rightarrow> nat list \<Rightarrow> nat" where
  "hexn a [] = a"
| "hexn a (d # ds) = hexn (16 * a + d) ds"

lemma hexdigs_value:
  "length (hexdigs k N) \<le> Suc k \<and> hexn a (hexdigs k N) * 16 ^ (Suc k - length (hexdigs k N)) = a * 16 ^ Suc k + N"
proof (induction k arbitrary: N a)
  case (Suc k)
  let ?d = "N div 16 ^ Suc k" and ?m = "N mod 16 ^ Suc k"
  have N: "?d * 16 ^ Suc k + ?m = N" by (rule div_mult_mod_eq)
  show ?case
  proof (cases "?m = 0")
    case True
    have "(16 * a + ?d) * 16 ^ Suc k = a * 16 ^ Suc (Suc k) + N" using N True by (simp add: algebra_simps)
    then show ?thesis using True by simp
  next
    case False
    have "(16 * a + ?d) * 16 ^ Suc k + ?m = a * 16 ^ Suc (Suc k) + N" using N by (simp add: algebra_simps)
    then show ?thesis using Suc.IH [of ?m "16 * a + ?d"] False by simp
  qed
qed simp

lemma hexdigs_less: "N < 16 ^ Suc k \<Longrightarrow> \<forall>d \<in> set (hexdigs k N). d < 16"
proof (induction k arbitrary: N)
  case (Suc k)
  have "N div 16 ^ Suc k < 16" using Suc.prems by (simp add: less_mult_imp_div_less)
  moreover have "N mod 16 ^ Suc k < 16 ^ Suc k" by simp
  ultimately show ?case using Suc.IH [of "N mod 16 ^ Suc k"] by (simp del: power_Suc)
qed simp

definition hexval :: "int \<Rightarrow> int" where
  "hexval c = (if c > 57 then (c OR 32) + 10 - 97 else c - 48)"

lemma upto_16: "(d :: nat) < 16 \<longleftrightarrow> d \<in> {0, 1, 2, 3, 4, 5, 6, 7, 8, 9, 10, 11, 12, 13, 14, 15}"
  unfolding insert_iff empty_iff by presburger

lemma hexc_facts:
  assumes "d < 16" "t = 97 \<or> t = 65"
  shows "hexval (ord (hexc t d)) = int d \<and> (dig (ord (hexc t d)) \<or> hex_letter (ord (hexc t d))) \<and> ord (hexc t d) \<noteq> 46
    \<and> (hexc t d = CHR ''0'' \<longleftrightarrow> d = 0)"
  using assms unfolding upto_16
  by (elim insertE disjE emptyE) (simp_all add: hexc_def xdigits_def hexval_def dig_def hex_letter_def flip: ord_48, simp_all add: ord_def)

subsection \<open>Reading the digits\<close>

definition hexst :: "hscan \<Rightarrow> nat \<Rightarrow> nat \<Rightarrow> bool" where
  "hexst st N n \<longleftrightarrow> hdc st = int n \<and> \<not> htail st \<and> n \<le> 29 \<and> hx st = int (N div 16 ^ (n - 8))
     \<and> hy st = FNum False (of_nat (N mod 16 ^ (n - 8)) / 16 ^ (n - 8)) \<and> hscale st = FNum False (1 / 16 ^ (n - 8))"

lemma hex_step_st:
  assumes "hexst st N n" "n < 29" "hexval c = int d" "d < 16" "c \<noteq> 46"
  shows "hexst (hex_step c st) (16 * N + d) (Suc n) \<and> hrp (hex_step c st) = hrp st \<and> hrad (hex_step c st) = hrad st
    \<and> hdig (hex_step c st)"
proof (cases "n < 8")
  case True
  then show ?thesis using assms by (auto simp: hexst_def hex_step_def hexval_def Let_def)
next
  case False
  define m where "m = n - 8"
  define K where "K = N mod 16 ^ m"
  have n: "n - 8 = m" "n - 7 = Suc m" "m \<le> 20" using False assms(2) by (auto simp: m_def)
  have s: "hdc st = int n" "hx st = int (N div 16 ^ m)" "hy st = FNum False (of_nat K / 16 ^ m)" "hscale st = FNum False (1 / 16 ^ m)" "\<not> htail st"
    using assms(1) by (simp_all add: hexst_def n K_def)
  have "K < 16 ^ m" by (simp add: K_def)
  then have "Suc K * 16 \<le> 16 ^ m * 16" by (intro mult_le_mono1) simp
  then have K: "16 * K + d < 16 ^ Suc m" using assms(4) by simp
  have p: "(16 :: nat) ^ Suc m \<le> 16 ^ 21" by (rule power_increasing) (use n(3) in simp_all)
  then have b: "16 * K + d \<le> 2 ^ 113" using K by simp
  have sc: "fdiv quad (hscale st) (ldf 16) = FNum False (1 / 16 ^ Suc m)"
    using quad_hex_exact [of 1 "Suc m" False] ldf_nat [of 16] n(3) by (simp add: s fdiv_def field_simps)
  have d: "fmul quad (ldf (int d)) (FNum False (1 / 16 ^ Suc m)) = FNum False (of_nat d / 16 ^ Suc m)"
    using quad_hex_exact [of d "Suc m" False] ldf_nat [of d] n(3) assms(4) by (simp add: fmul_def)
  have "(of_nat K / 16 ^ m + of_nat d / 16 ^ Suc m :: rat) = of_nat (16 * K + d) / 16 ^ Suc m" by (simp add: field_simps)
  then have y: "fadd quad (FNum False (of_nat K / 16 ^ m)) (FNum False (of_nat d / 16 ^ Suc m)) = FNum False (of_nat (16 * K + d) / 16 ^ Suc m)"
    using fadd_same [of "of_nat K / 16 ^ m" "of_nat d / 16 ^ Suc m" quad False] quad_hex_exact [OF b, of "Suc m" False] n(3) by simp
  have N: "16 * N + d = (N div 16 ^ m) * 16 ^ Suc m + (16 * K + d)"
  proof -
    have "N = N div 16 ^ m * 16 ^ m + K" unfolding K_def by (rule div_mult_mod_eq [symmetric])
    then have "16 * N = 16 * (N div 16 ^ m * 16 ^ m + K)" by (rule arg_cong)
    then show ?thesis by simp
  qed
  have "(16 * N + d) div 16 ^ Suc m = N div 16 ^ m" "(16 * N + d) mod 16 ^ Suc m = 16 * K + d"
    unfolding N using K by simp_all
  then show ?thesis using False assms(2,3,5) sc d y
    by (simp add: hexst_def hex_step_def hexval_def Let_def s n del: power_Suc)
qed

lemma hex_digits_text:
  assumes "cur s p c (map (hexc t) ds @ tx)" "\<forall>d \<in> set ds. d < 16" "t = 97 \<or> t = 65" "hexst st N n" "n + length ds \<le> 29"
  shows "\<exists>c' st'. hex_digits s c p st = hex_digits s c' (p + length ds) st' \<and> cur s (p + length ds) c' tx
    \<and> hexst st' (hexn N ds) (n + length ds) \<and> hrp st' = hrp st \<and> hrad st' = hrad st \<and> (hdig st' \<longleftrightarrow> hdig st \<or> ds \<noteq> [])"
  using assms
proof (induction ds arbitrary: p c st N n)
  case Nil
  then show ?case by auto
next
  case (Cons d ds)
  have c: "cur s p c (hexc t d # map (hexc t) ds @ tx)" using Cons.prems(1) by simp
  from cur_next [OF c] obtain c' where c': "c = ord (hexc t d)" "shgetc s p = Some (c', Suc p)" "cur s (Suc p) c' (map (hexc t) ds @ tx)"
    by blast
  have d: "d < 16" "\<forall>d \<in> set ds. d < 16" using Cons.prems(2) by simp_all
  note f = hexc_facts [OF d(1) Cons.prems(3)]
  have st: "hexst (hex_step c st) (16 * N + d) (Suc n) \<and> hrp (hex_step c st) = hrp st \<and> hrad (hex_step c st) = hrad st \<and> hdig (hex_step c st)"
    using Cons.prems(5) f d(1) by (intro hex_step_st [OF Cons.prems(4)]) (simp_all add: c'(1))
  have "hex_digits s c p st = hex_digits s c' (Suc p) (hex_step c st)"
    using f c'(1,2) by (subst hex_digits.simps) auto
  then show ?case using Cons.IH [OF c'(3) d(2) Cons.prems(3) st [THEN conjunct1]] Cons.prems(5) st by auto
qed

definition p_letter :: "byte \<Rightarrow> bool" where
  "p_letter x \<longleftrightarrow> x = CHR ''p'' \<or> x = CHR ''P''"

lemma p_letter_ord: "p_letter x \<Longrightarrow> ord x OR 32 = 112 \<and> \<not> dig (ord x) \<and> \<not> hex_letter (ord x) \<and> ord x \<noteq> 46 \<and> x \<noteq> CHR ''0''"
  by (auto simp: p_letter_def ord_def dig_def hex_letter_def)

lemma hex_digits_stop: "cur s p c (x # tx) \<Longrightarrow> p_letter x \<Longrightarrow> hex_digits s c p st = Some (c, p, st)"
  using cur_next(1) [of s p c x tx] p_letter_ord [of x] by (subst hex_digits.simps) simp

lemma hex_digits_point:
  assumes "cur s p c (CHR ''.'' # tx)" "\<not> hrad st"
  shows "\<exists>c'. hex_digits s c p st = hex_digits s c' (Suc p) (st \<lparr> hrp := hdc st, hrad := True \<rparr>) \<and> cur s (Suc p) c' tx"
proof -
  from cur_next [OF assms(1)] obtain c' where "c = 46" "shgetc s p = Some (c', Suc p)" "cur s (Suc p) c' tx" using ord_46 by auto
  then show ?thesis using assms(2) by (subst hex_digits.simps) (auto simp: hex_step_def)
qed

text \<open>The exponent as it is written behind the digits.\<close>

definition exp_tail :: "byte \<Rightarrow> byte list \<Rightarrow> byte list \<Rightarrow> byte list \<Rightarrow> bool" where
  "exp_tail x sg D rest \<longleftrightarrow> p_letter x \<and> sign_text sg \<and> digit_text D \<and> D \<noteq> [] \<and> not_digit rest \<and> decv D < 214748364"

definition hex_init :: "bool \<Rightarrow> bool \<Rightarrow> hscan" where
  "hex_init g r = \<lparr> hx = 0, hy = FNum False 0, hscale = FNum False 1, hrp = 0, hdc = 0, htail = False, hdig = g, hrad = r \<rparr>"

lemma hex_init_simps [simp]: "hexst (hex_init g r) 0 0" "hdig (hex_init g r) = g" "hrad (hex_init g r) = r" "hx (hex_init g r) = 0"
  by (simp_all add: hex_init_def hexst_def)

lemma scanexp_tail:
  assumes "cur s p c (x # sg @ D @ rest)" "exp_tail x sg D rest"
  shows "c OR 32 = 112 \<and> scanexp s pok p = Some (apply_sign sg (int (decv D)), p + length sg + length D)
    \<and> apply_sign sg (int (decv D)) \<noteq> LLONG_MIN"
  using cur_next(1) [OF assms(1)] scanexp_text [OF assms(1)] assms(2) p_letter_ord [of x]
  by (auto simp: exp_tail_def apply_sign_def LLONG_MIN_def)

lemma hex_scan_zero:
  assumes "cur s q c (y # replicate (Suc z) (CHR ''0'') @ (if dot then ''.'' else []) @ x # sg @ D @ rest)" "exp_tail x sg D rest"
  shows "\<exists>st. hex_scan s q sign True
      = Some (q + Suc z + (if dot then 1 else 0) + 1 + length sg + length D, HDigits st (apply_sign sg (int (decv D)))) \<and> hx st = 0"
proof -
  have x: "p_letter x" using assms(2) by (simp add: exp_tail_def)
  note xo = p_letter_ord [OF x]
  obtain c0 where c0: "shgetc s q = Some (c0, Suc q)" "cur s (Suc q) c0 (replicate (Suc z) (CHR ''0'') @ (if dot then ''.'' else []) @ x # sg @ D @ rest)"
    using cur_next(2) [OF assms(1)] by blast
  have "hd ((if dot then ''.'' else []) @ x # sg @ D @ rest) \<noteq> CHR ''0''" using xo by simp
  then obtain c1 where c1: "zeros s c0 (Suc q) 0 = Some (c1, Suc q + Suc z, Suc z)"
      "cur s (Suc q + Suc z) c1 ((if dot then ''.'' else []) @ x # sg @ D @ rest)"
    using zeros_text [OF c0(2), of 0] by auto
  show ?thesis
  proof (cases dot)
    case False
    have cx: "cur s (Suc q + Suc z) c1 (x # sg @ D @ rest)" using c1(2) False by simp
    have "c1 \<noteq> 46" using cur_next(1) [OF cx] xo by simp
    moreover have "hex_digits s c1 (Suc q + Suc z) (hex_init True False) = Some (c1, Suc q + Suc z, hex_init True False)"
      by (rule hex_digits_stop [OF cx x])
    ultimately show ?thesis using c0(1) c1(1) scanexp_tail [OF cx assms(2), of True] False
      by (simp add: hex_scan_def flip: hex_init_def)
  next
    case True
    have cd: "cur s (Suc q + Suc z) c1 (CHR ''.'' # x # sg @ D @ rest)" using c1(2) True by simp
    from cur_next [OF cd] obtain c2 where c2: "c1 = 46" "shgetc s (Suc q + Suc z) = Some (c2, Suc (Suc q + Suc z))"
        "cur s (Suc (Suc q + Suc z)) c2 (x # sg @ D @ rest)" using ord_46 by auto
    have "zeros s c2 (Suc (Suc q + Suc z)) 0 = Some (c2, Suc (Suc q + Suc z), 0)"
      using cur_next(1) [OF c2(3)] xo ord_48 [of x] by (subst zeros.simps) simp
    moreover have "hex_digits s c2 (Suc (Suc q + Suc z)) (hex_init True True) = Some (c2, Suc (Suc q + Suc z), hex_init True True)"
      by (rule hex_digits_stop [OF c2(3) x])
    ultimately show ?thesis using c0(1) c1(1) c2(1,2) scanexp_tail [OF c2(3) assms(2), of True] True
      by (simp add: hex_scan_def flip: hex_init_def)
  qed
qed

lemma hex_scan_digits:
  assumes "cur s q c (y # replicate z (CHR ''0'') @ hex_text dot t (d # ds) @ x # sg @ D @ rest)" "exp_tail x sg D rest"
    and "0 < d" "\<forall>d' \<in> set (d # ds). d' < 16" "t = 97 \<or> t = 65" "length ds < 29"
  shows "\<exists>st. hex_scan s q sign True = Some (q + z + length (hex_text dot t (d # ds)) + 1 + length sg + length D, HDigits st (apply_sign sg (int (decv D))))
    \<and> hexst st (hexn 0 (d # ds)) (length (d # ds)) \<and> hrp st = 1"
proof -
  have x: "p_letter x" using assms(2) by (simp add: exp_tail_def)
  define pt where "pt \<longleftrightarrow> ds \<noteq> [] \<or> dot"
  define pt_text where "pt_text = (if pt then CHR ''.'' # map (hexc t) ds else [])"
  have txt_eq: "hex_text dot t (d # ds) = map (hexc t) [d] @ pt_text" by (auto simp: hex_text_def pt_text_def pt_def)
  note df = hexc_facts [of d t]
  obtain c0 where c0: "shgetc s q = Some (c0, Suc q)" "cur s (Suc q) c0 (replicate z (CHR ''0'') @ map (hexc t) [d] @ pt_text @ x # sg @ D @ rest)"
    using cur_next(2) [OF assms(1)] unfolding txt_eq append_assoc by blast
  obtain c1 where c1: "zeros s c0 (Suc q) 0 = Some (c1, Suc q + z, z)" "cur s (Suc q + z) c1 (map (hexc t) [d] @ pt_text @ x # sg @ D @ rest)"
    using zeros_text [OF c0(2), of 0] df assms(3-5) by auto
  have "c1 = ord (hexc t d)" using cur_head [OF c1(2)] by simp
  then have n46: "c1 \<noteq> 46" using df assms(4,5) by simp
  obtain c2 st1 where h1: "hex_digits s c1 (Suc q + z) (hex_init (z > 0) False) = hex_digits s c2 (Suc q + z + 1) st1"
      "cur s (Suc q + z + 1) c2 (pt_text @ x # sg @ D @ rest)" "hexst st1 (hexn 0 [d]) 1" "\<not> hrad st1" "hdig st1"
    using hex_digits_text [OF c1(2) _ assms(5) hex_init_simps(1), of "z > 0" False] assms(4) by auto
  have h0: "hexst (st1 \<lparr> hrp := a, hrad := b \<rparr>) N n \<longleftrightarrow> hexst st1 N n" for a b N n by (simp add: hexst_def)
  have dc: "hdc st1 = 1" using h1(3) by (simp add: hexst_def)
  show ?thesis
  proof (cases pt)
    case False
    have cx: "cur s (Suc q + z + 1) c2 (x # sg @ D @ rest)" using h1(2) False by (simp add: pt_text_def)
    have "hexst (st1 \<lparr> hrp := 1 \<rparr>) d 1" using h1(3) by (simp add: hexst_def)
    then show ?thesis
      using c0(1) c1(1) n46 h1 hex_digits_stop [OF cx x, of st1] scanexp_tail [OF cx assms(2), of True] dc False
      by (simp add: hex_scan_def hex_text_def pt_def flip: hex_init_def)
  next
    case True
    have cx: "cur s (Suc q + z + 1) c2 (CHR ''.'' # map (hexc t) ds @ x # sg @ D @ rest)" using h1(2) True by (simp add: pt_text_def)
    obtain c3 where h2: "hex_digits s c2 (Suc q + z + 1) st1 = hex_digits s c3 (Suc (Suc q + z + 1)) (st1 \<lparr> hrp := 1, hrad := True \<rparr>)"
        "cur s (Suc (Suc q + z + 1)) c3 (map (hexc t) ds @ x # sg @ D @ rest)"
      using hex_digits_point [OF cx h1(4)] dc by auto
    have "hexst (st1 \<lparr> hrp := 1, hrad := True \<rparr>) (hexn 0 [d]) 1" using h1(3) h0 by simp
    from hex_digits_text [OF h2(2) _ assms(5) this] assms(4,6) obtain c4 st2 where
      h3: "hex_digits s c3 (Suc (Suc q + z + 1)) (st1 \<lparr> hrp := 1, hrad := True \<rparr>) = hex_digits s c4 (Suc (Suc q + z + 1) + length ds) st2"
        "cur s (Suc (Suc q + z + 1) + length ds) c4 (x # sg @ D @ rest)" "hexst st2 (hexn (hexn 0 [d]) ds) (1 + length ds)"
        "hrp st2 = 1" "hrad st2" "hdig st2" using h1(5) by auto
    have "hexn 0 (d # ds) = hexn (hexn 0 [d]) ds" by simp
    then show ?thesis
      using c0(1) c1(1) n46 h1(1) h2(1) h3 hex_digits_stop [OF h3(2) x, of st2] scanexp_tail [OF h3(2) assms(2), of True] True
      by (simp add: hex_scan_def txt_eq pt_text_def pt_def flip: hex_init_def)
  qed
qed

subsection \<open>Normalising\<close>

definition hfrac :: "nat \<Rightarrow> fp" where "hfrac K = FNum False (of_nat K / 2 ^ 84)"

lemma hfrac_exact: "K \<le> 2 ^ 113 \<Longrightarrow> fround quad s (of_nat K / 2 ^ 84) = FNum s (of_nat K / 2 ^ 84)"
proof -
  assume "K \<le> 2 ^ 113"
  moreover have "(2 :: rat) ^ 84 = 16 ^ 21" by simp
  ultimately show ?thesis using quad_hex_exact [of K 21 s] by simp
qed

lemma hfrac_half: "fge (hfrac K) (FNum False (1 / 2)) \<longleftrightarrow> 2 ^ 83 \<le> K"
proof -
  have "(1 / 2 :: rat) \<le> of_nat K / 2 ^ 84 \<longleftrightarrow> of_nat (2 ^ 83) \<le> (of_nat K :: rat)" by (simp add: pos_le_divide_eq)
  then show ?thesis by (simp only: hfrac_def fge_def sval_def prod.case fp.case if_False of_nat_le_iff)
qed

lemma hfrac_double:
  assumes "K < 2 ^ 84"
  shows "fadd quad (hfrac K) (hfrac K) = hfrac (2 * K)"
    and "2 ^ 83 \<le> K \<Longrightarrow> fadd quad (hfrac K) (fsub quad (hfrac K) (ldf 1)) = hfrac (2 * K - 2 ^ 84)"
proof -
  have k: "2 * K \<le> 2 ^ 113" using assms by simp
  have dbl: "of_nat K / 2 ^ 84 + of_nat K / 2 ^ 84 = (of_nat (2 * K) / 2 ^ 84 :: rat)" by (simp add: add_divide_distrib [symmetric])
  show "fadd quad (hfrac K) (hfrac K) = hfrac (2 * K)"
    using fadd_same [of "of_nat K / 2 ^ 84" "of_nat K / 2 ^ 84" quad False] hfrac_exact [OF k, of False] unfolding dbl hfrac_def by simp
  assume h: "2 ^ 83 \<le> K"
  define c where "c = 2 ^ 84 - K"
  have c: "0 < c" "c \<le> 2 ^ 113" "K + c = 2 ^ 84" "c \<le> K" "K - c = 2 * K - 2 ^ 84" using assms h by (auto simp: c_def)
  have "(of_nat K :: rat) + of_nat c = 2 ^ 84" using c(3) by (metis of_nat_add of_nat_numeral of_nat_power)
  then have y: "(of_nat K / 2 ^ 84 :: rat) = 1 - of_nat c / 2 ^ 84" by (simp add: field_simps)
  have pos: "(0 :: rat) < of_nat c / 2 ^ 84" using c(1) by simp
  have "fsub quad (hfrac K) (ldf 1) = fround quad True (of_nat c / 2 ^ 84)"
    unfolding ldf_1 hfrac_def y using pos by (simp add: fsub_def fneg_def fadd_def sval_def Let_def del: divide_less_0_iff zero_less_divide_iff)
  then have s: "fsub quad (hfrac K) (ldf 1) = FNum True (of_nat c / 2 ^ 84)" using hfrac_exact [OF c(2), of True] by simp
  have d: "sval False (of_nat K / 2 ^ 84) + sval True (of_nat c / 2 ^ 84) = (of_nat (K - c) / 2 ^ 84 :: rat)"
    using c(4) by (simp add: sval_def of_nat_diff diff_divide_distrib)
  have "K - c \<le> 2 ^ 113" using assms by simp
  then have f: "fround quad False (of_nat (K - c) / 2 ^ 84) = FNum False (of_nat (K - c) / 2 ^ 84)" by (rule hfrac_exact)
  have nn: "\<not> (of_nat (K - c) / 2 ^ 84 :: rat) < 0" "\<bar>of_nat (K - c) / 2 ^ 84 :: rat\<bar> = of_nat (K - c) / 2 ^ 84" by simp_all
  show "fadd quad (hfrac K) (fsub quad (hfrac K) (ldf 1)) = hfrac (2 * K - 2 ^ 84)"
    unfolding s c(5) [symmetric] unfolding hfrac_def fadd_def prod.case fp.case d Let_def nn
    using nn(1) f by (cases "of_nat (K - c) / 2 ^ 84 = (0 :: rat)") (simp_all only: if_True if_False simp_thms)
qed

lemma hex_norm_spec:
  assumes "0 < x" "x < 2 ^ 32" "K < 2 ^ 84"
  shows "\<exists>x' K' j. hex_norm (int x) (hfrac K) e2 = Some (int x', hfrac K', e2 - int j) \<and> 2 ^ 31 \<le> x' \<and> x' < 2 ^ 32 \<and> K' < 2 ^ 84
    \<and> (of_nat x' + of_nat K' / 2 ^ 84 :: rat) = (of_nat x + of_nat K / 2 ^ 84) * 2 ^ j"
  using assms
proof (induction "2 ^ 32 - x" arbitrary: x K e2 rule: less_induct)
  case less
  show ?case
  proof (cases "x < 2147483648")
    case False
    then show ?thesis using less.prems by (intro exI [of _ x] exI [of _ K] exI [of _ 0]) (subst hex_norm.simps, simp)
  next
    case True
    define b where "b = (if 2 ^ 83 \<le> K then 1 else 0 :: nat)"
    define x1 where "x1 = 2 * x + b"
    define K1 where "K1 = (if 2 ^ 83 \<le> K then 2 * K - 2 ^ 84 else 2 * K)"
    have step: "hex_norm (int x) (hfrac K) e2 = hex_norm (int x1) (hfrac K1) (e2 - 1)"
      using True hfrac_double [OF less.prems(3)]
      by (subst hex_norm.simps) (simp add: hfrac_half b_def x1_def K1_def)
    have x1: "0 < x1" "x1 < 2 ^ 32" "2 ^ 32 - x1 < 2 ^ 32 - x" using less.prems(1) True by (auto simp: x1_def b_def)
    have K1: "K1 < 2 ^ 84" using less.prems(3) by (auto simp: K1_def)
    have "b * 2 ^ 84 + K1 = 2 * K" by (simp add: b_def K1_def)
    then have "(of_nat (b * 2 ^ 84 + K1) :: rat) = of_nat (2 * K)" by (rule arg_cong)
    then have v: "(of_nat x1 + of_nat K1 / 2 ^ 84 :: rat) = (of_nat x + of_nat K / 2 ^ 84) * 2" by (simp add: x1_def field_simps)
    from less.hyps [OF x1(3,1,2) K1, of "e2 - 1"] obtain x' K' j where
      "hex_norm (int x1) (hfrac K1) (e2 - 1) = Some (int x', hfrac K', e2 - 1 - int j)" "2 ^ 31 \<le> x'" "x' < 2 ^ 32" "K' < 2 ^ 84"
      "(of_nat x' + of_nat K' / 2 ^ 84 :: rat) = (of_nat x1 + of_nat K1 / 2 ^ 84) * 2 ^ j" by blast
    then show ?thesis unfolding step v by (intro exI [of _ x'] exI [of _ K'] exI [of _ "Suc j"]) simp
  qed
qed

subsection \<open>Rounding does nothing to a number of the format\<close>

definition wide :: "fmt \<Rightarrow> bool" where
  "wide F \<longleftrightarrow> F = single \<or> F = double \<or> F = quad"

lemma wide: "wide F \<Longrightarrow> 24 \<le> mant F \<and> mant F \<le> 113 \<and> -16494 \<le> least F \<and> maxexp F \<le> 16384 \<and> maxexp F \<le> - least F"
  by (auto simp: wide_def single_def double_def quad_def)

text \<open>The precision left above the least exponent of the format holds every number of the format.\<close>

lemma bits_grid:
  assumes "2 ^ 31 \<le> W" "W < 2 ^ 32" "W * 2 powi e2 = of_int n * (2 :: rat) powi e" "n < 2 ^ nat b0" "emin \<le> e" "24 \<le> b0"
    and "bits = (if b0 > 32 + e2 - emin then max 0 (32 + e2 - emin) else b0)"
  shows "1 \<le> bits \<and> bits \<le> b0 \<and> (\<exists>m. W = of_int m * 2 powi (32 - bits) \<and> 0 \<le> m \<and> m \<le> 2 ^ nat bits)"
proof -
  have W0: "0 < W" using assms(1) by (rule less_le_trans [rotated]) simp
  then have n0: "0 < n" using assms(3) powi_pos [of e2] powi_pos [of e]
    by (metis mult_pos_pos zero_less_mult_pos2 of_int_0_less_iff)
  have "W = of_int n * 2 powi e / 2 powi e2" using assms(3) by (simp add: field_simps)
  then have W: "W = of_int n * 2 powi (e - e2)" by (simp add: powi_minus)
  have nb: "(of_int n :: rat) < 2 powi b0"
  proof -
    have "(of_int n :: rat) < of_int (2 ^ nat b0)" using assms(4) by (simp only: of_int_less_iff)
    also have "\<dots> = 2 powi b0" using assms(6) by (simp add: power_int_def)
    finally show ?thesis .
  qed
  have "(2 :: rat) powi 31 \<le> W" using assms(1) by simp
  also have "W < 2 powi b0 * 2 powi (e - e2)" unfolding W using nb powi_pos [of "e - e2"] by (intro mult_strict_right_mono)
  also have "\<dots> = 2 powi (b0 + (e - e2))" by (rule powi_plus [symmetric])
  finally have lo: "32 - b0 \<le> e - e2" unfolding powi_less_iff by simp
  have hi: "e - e2 < 32"
  proof -
    have "1 * 2 powi (e - e2) \<le> of_int n * (2 :: rat) powi (e - e2)" using n0 powi_pos [of "e - e2"] by (intro mult_right_mono) simp_all
    then have "2 powi (e - e2) \<le> W" unfolding W by simp
    also have "W < 2 powi 32" using assms(2) by simp
    finally show ?thesis unfolding powi_less_iff .
  qed
  have b: "1 \<le> bits" "bits \<le> b0" "32 - bits \<le> e - e2" using lo hi assms(5-7) by (auto split: if_splits)
  define m where "m = n * 2 ^ nat (e - e2 - (32 - bits))"
  have "2 powi (e - e2) = (2 :: rat) powi (int (nat (e - e2 - (32 - bits))) + (32 - bits))" using b(3) by simp
  also have "\<dots> = of_int (2 ^ nat (e - e2 - (32 - bits))) * 2 powi (32 - bits)" unfolding powi_plus powi_nat ..
  finally have m: "W = of_int m * 2 powi (32 - bits)" unfolding W m_def by simp
  have "of_int m * 2 powi (32 - bits) < (2 :: rat) powi (int (nat bits) + (32 - bits))" using m assms(2) b(1) by simp
  then have "of_int m * 2 powi (32 - bits) < of_int (2 ^ nat bits) * (2 :: rat) powi (32 - bits)" unfolding powi_plus powi_nat .
  then have "(of_int m :: rat) < of_int (2 ^ nat bits)" by (rule mult_right_less_imp_less) (simp add: powi_pos less_imp_le)
  then have "m < 2 ^ nat bits" by (simp only: of_int_less_iff)
  then show ?thesis using b m n0 by (intro conjI exI [of _ m]) (simp_all add: m_def)
qed

lemma hfrac_int:
  assumes "of_nat x + of_nat K / 2 ^ 84 = (of_int i :: rat)" "K < 2 ^ 84"
  shows "K = 0"
proof (rule ccontr)
  assume "K \<noteq> 0"
  moreover have "(of_nat K :: rat) < of_nat (2 ^ 84)" using assms(2) by (simp only: of_nat_less_iff)
  then have "(of_nat K / 2 ^ 84 :: rat) < 1" by simp
  ultimately have "0 < (of_int (i - int x) :: rat)" "(of_int (i - int x) :: rat) < 1" using assms(1) by (simp_all add: algebra_simps)
  then have "0 < i - int x" "i - int x < 1" by (simp_all only: of_int_0_less_iff of_int_less_1_iff)
  then show False by linarith
qed

lemma hex_round_exact:
  assumes "wide F" "sign = 1 \<or> sign = -1" "2 ^ 31 \<le> x" "x < 2 ^ 32" "K < 2 ^ 84"
    and W: "W = of_nat x + of_nat K / 2 ^ 84"
    and v: "W * 2 powi e2 = of_int n * 2 powi e" "0 \<le> n" "n < 2 ^ nat (mant F)" "least F \<le> e" "W * 2 powi e2 < 2 powi maxexp F"
  shows "hex_round (mant F) (least F) sign (int x) (hfrac K) e2 en = (FNum (sign < 0) (W * 2 powi e2), en)"
proof -
  define s where "s \<longleftrightarrow> sign < 0"
  define bits where "bits = (if mant F > 32 + e2 - least F then max 0 (32 + e2 - least F) else mant F)"
  define l where "l = 32 - bits"
  note w = wide [OF assms(1)]
  have K1: "(of_nat K / 2 ^ 84 :: rat) < 1" "(0 :: rat) \<le> of_nat K / 2 ^ 84"
  proof -
    have "(of_nat K :: rat) < of_nat (2 ^ 84)" using assms(5) by (simp only: of_nat_less_iff)
    then show "(of_nat K / 2 ^ 84 :: rat) < 1" by simp
  qed simp
  have x: "(of_nat (2 ^ 31) :: rat) \<le> of_nat x" "(of_nat x + 1 :: rat) \<le> of_nat (2 ^ 32)"
  proof -
    show "(of_nat (2 ^ 31) :: rat) \<le> of_nat x" using assms(3) by (simp only: of_nat_le_iff)
    have "(of_nat (x + 1) :: rat) \<le> of_nat (2 ^ 32)" using assms(4) by (simp only: of_nat_le_iff)
    then show "(of_nat x + 1 :: rat) \<le> of_nat (2 ^ 32)" by simp
  qed
  have Wb: "2 ^ 31 \<le> W" "W < 2 ^ 32" "of_nat x \<le> W" using x K1 by (simp_all add: W)
  obtain m where m: "1 \<le> bits" "bits \<le> mant F" "W = of_int m * 2 powi l" "0 \<le> m" "m \<le> 2 ^ nat bits"
    using bits_grid [OF Wb(1,2) v(1,3,4) _ bits_def] w unfolding l_def by auto
  have l: "-81 \<le> l" "l \<le> 31" using m(1,2) w by (simp_all add: l_def)
  have y0: "K = 0" if "bits < 32"
  proof -
    have "(2 :: rat) powi l = of_int (2 ^ nat l)" using that by (simp add: l_def power_int_def)
    then have "W = of_int (m * 2 ^ nat l)" using m(3) by simp
    then show ?thesis using hfrac_int [OF _ assms(5)] W by metis
  qed
  obtain X where X: "of_nat x = of_int X * (2 :: rat) powi l" "0 \<le> X" "X \<le> 2 ^ nat bits"
  proof (cases "bits < 32")
    case True
    then show ?thesis using that [of m] m y0 W by simp
  next
    case False
    have "(2 :: rat) powi l * 2 powi int (nat (- l)) = 1" using powi_plus [of l "- l"] False by (simp add: l_def)
    then have one: "(2 :: rat) powi l * of_int (2 ^ nat (- l)) = 1" unfolding powi_nat .
    have e: "of_nat x = of_int (int x * 2 ^ nat (- l)) * (2 :: rat) powi l" using one by (simp add: mult.commute mult.left_commute)
    have "of_int (int x * 2 ^ nat (- l)) * (2 :: rat) powi l \<le> of_int m * 2 powi l" using Wb(3) unfolding e [symmetric] m(3) .
    then have "(of_int (int x * 2 ^ nat (- l)) :: rat) \<le> of_int m" by (rule mult_right_le_imp_le) (rule powi_pos)
    then have "int x * 2 ^ nat (- l) \<le> m" by (simp only: of_int_le_iff)
    then show ?thesis using that [OF e] m(5) by simp
  qed
  have q: "fround quad s' (of_int k * 2 powi l) = FNum s' (of_int k * 2 powi l)" if "0 \<le> k" "k \<le> 2 ^ 113" for k s'
    using that l by (intro quad_pow_exact) simp_all
  have pb: "(2 :: int) ^ nat bits \<le> 2 ^ 113" "bits < 113 \<Longrightarrow> (2 :: int) ^ nat bits \<le> 2 ^ 112"
  proof -
    have "bits \<le> 113" using m(2) w by linarith
    then show "(2 :: int) ^ nat bits \<le> 2 ^ 113" by (intro power_increasing) simp_all
    show "(2 :: int) ^ nat bits \<le> 2 ^ 112" if "bits < 113" by (rule power_increasing) (use that in simp_all)
  qed
  have sx: "fmul quad (ldf sign) (ldf (int x)) = FNum s (of_nat x)"
    using signed_mul [OF assms(2), of "of_nat x"] ldf_nat [of x] fround_quad_int [of x s] assms(4) by (simp add: s_def)
  have sy: "fmul quad (ldf sign) (hfrac K) = FNum s (of_nat K / 2 ^ 84)"
    using signed_mul [OF assms(2), of "of_nat K / 2 ^ 84"] hfrac_exact [of K s] assms(5) by (simp add: s_def hfrac_def)
  have W0: "0 < W" using Wb(1) by (rule less_le_trans [rotated]) simp
  have sum: "fsub quad (fadd quad (fadd quad bias (FNum s (of_nat x))) (FNum s (of_nat K / 2 ^ 84))) bias = FNum s W"
    if b: "bias = (if bits < 113 then fcopysign (fscalb double (FNum False 1) (32 + 113 - bits - 1)) (ldf sign) else FNum False 0)" for bias
  proof (cases "bits < 113")
    case True
    define B :: rat where "B = of_int (2 ^ 112) * 2 powi l"
    have B0: "0 < B" unfolding B_def by (intro mult_pos_pos powi_pos) simp
    have "B = 2 powi (int 112 + l)" unfolding B_def powi_plus powi_nat ..
    also have "int 112 + l = int (nat (32 + 113 - bits - 1))" using True by (simp add: l_def)
    finally have "B = 2 ^ nat (32 + 113 - bits - 1)" by (simp only: power_int_of_nat)
    moreover have "fscalb double (FNum False 1) (32 + 113 - bits - 1) = FNum False (2 ^ nat (32 + 113 - bits - 1))"
      using True m(1) by (intro fscalb_double) simp_all
    moreover have "fcopysign (FNum False B) (ldf sign) = FNum s B"
      using assms(2) ldf_1 by (auto simp: fcopysign_def s_def of_intf_def fround_quad_int [of 1, simplified])
    ultimately have bias: "bias = FNum s B" using b True by simp
    have BX: "B + of_nat x = of_int (2 ^ 112 + X) * 2 powi l" unfolding X(1) B_def by (simp only: of_int_add distrib_right)
    have BW: "B + of_nat x + of_nat K / 2 ^ 84 = of_int (2 ^ 112 + m) * 2 powi l"
      using W m(3) unfolding B_def by (simp only: of_int_add distrib_right add.assoc)
    have "2 ^ 112 + X \<le> 2 ^ 113" "2 ^ 112 + m \<le> 2 ^ 113" using X(3) m(5) pb(2) [OF True] by simp_all
    then have "fround quad s (B + of_nat x) = FNum s (B + of_nat x)"
        "fround quad s (B + of_nat x + of_nat K / 2 ^ 84) = FNum s (B + of_nat x + of_nat K / 2 ^ 84)"
      using X(2) m(4) unfolding BW by (simp_all only: BX q add_nonneg_nonneg zero_le_power zero_le_numeral)
    moreover have "fround quad s W = FNum s W" unfolding m(3) by (rule q [OF m(4) order_trans [OF m(5) pb(1)]])
    moreover have "B + of_nat x + of_nat K / 2 ^ 84 - B = W" by (simp add: W)
    ultimately show ?thesis unfolding bias using fadd_same [of B "of_nat x" quad s] fadd_same [of "B + of_nat x" "of_nat K / 2 ^ 84" quad s]
        fsub_same [of B "B + of_nat x + of_nat K / 2 ^ 84" quad s] B0 W0 W by simp
  next
    case False
    then have bias: "bias = FNum False 0" using b by simp
    have x0: "(0 :: rat) < of_nat x" using assms(3) by (simp add: Suc_le_eq)
    have zl: "fadd quad (FNum False 0) (FNum s z) = fround quad s z" if "0 < z" for z
      using that by (cases s) (simp_all add: fadd_def sval_def Let_def)
    have zr: "fsub quad (FNum s z) (FNum False 0) = fround quad s z" if "0 < z" for z
      using that by (cases s) (simp_all add: fsub_def fneg_def fadd_def sval_def Let_def)
    have "fround quad s (of_nat x) = FNum s (of_nat x)" using fround_quad_int [of x s] assms(4) by simp
    moreover have "fround quad s W = FNum s W" unfolding m(3) by (rule q [OF m(4) order_trans [OF m(5) pb(1)]])
    ultimately show ?thesis
      unfolding bias using zl [OF x0] zr [OF W0] fadd_same [of "of_nat x" "of_nat K / 2 ^ 84" quad s] W by simp
  qed
  have sc: "fscalb quad (FNum s W) e2 = FNum s (W * 2 powi e2)"
  proof -
    have "mant F \<le> 113" "maxexp F \<le> maxexp quad" using w by (simp_all add: quad_def)
    then have "(2 :: int) ^ nat (mant F) \<le> 2 ^ nat (mant quad)" "(2 :: rat) powi maxexp F \<le> 2 powi maxexp quad"
      by (intro power_increasing powi_mono; simp)+
    then have "fround quad s (W * 2 powi e2) = FNum s (W * 2 powi e2)"
      using w v(2-5) by (intro fround_exact [OF v(1)]) simp_all
    then show ?thesis by (simp add: fscalb_def)
  qed
  have bump: "\<not> (bits < 32 \<and> \<not> fzero (hfrac K) \<and> even (int x))" using y0 by (auto simp: hfrac_def fzero_def)
  have nz: "\<not> fzero (FNum s W)" using W0 by (simp add: fzero_def)
  show ?thesis
    unfolding hex_round_def Let_def bits_def [symmetric] if_not_P [OF bump] sx sy sum [OF refl] sc if_not_P [OF nz]
    unfolding s_def ..
qed

text \<open>The integer part in 32 bits and the fraction, from the digits scanned.\<close>

lemma hexst_parts:
  assumes "hexst st N n" "1 \<le> n" "16 ^ (n - 1) \<le> N" "N < 16 ^ n"
  obtains x K where "hx st * 16 ^ nat (8 - hdc st) = int x" "hy st = hfrac K" "2 ^ 28 \<le> x" "x < 2 ^ 32" "K < 2 ^ 84"
    "of_nat x + of_nat K / 2 ^ 84 = of_nat N * (2 :: rat) powi (32 - 4 * int n)"
proof (cases "n \<le> 8")
  case True
  have e: "16 ^ a * (16 :: nat) ^ b = 2 ^ (4 * (a + b))" for a b
    unfolding power_add [symmetric] power_mult by simp
  have "16 ^ (n - 1) * 16 ^ (8 - n) \<le> N * 16 ^ (8 - n)" "N * 16 ^ (8 - n) < 16 ^ n * 16 ^ (8 - n)"
    using assms(3,4) by simp_all
  then have b: "2 ^ 28 \<le> N * 16 ^ (8 - n)" "N * 16 ^ (8 - n) < 2 ^ 32"
    unfolding e using assms(2) True by (simp_all add: algebra_simps)
  have "(2 :: rat) powi (32 - 4 * int n) = 2 powi int (4 * (8 - n))" using True by (simp add: of_nat_diff)
  also have "\<dots> = 16 ^ (8 - n)" unfolding power_int_of_nat power_mult by simp
  finally have v: "of_nat (N * 16 ^ (8 - n)) = of_nat N * (2 :: rat) powi (32 - 4 * int n)" by simp
  have "nat (8 - hdc st) = 8 - n" using assms(1) by (simp add: hexst_def nat_diff_distrib)
  then show ?thesis
    using that [of "N * 16 ^ (8 - n)" 0] assms(1) True b v by (simp add: hexst_def hfrac_def)
next
  case False
  define m where "m = n - 8"
  have n: "n = m + 8" "m \<le> 21" using False assms(1) by (auto simp: m_def hexst_def)
  define K where "K = N mod 16 ^ m * 16 ^ (21 - m)"
  have p: "(16 :: nat) ^ m * 16 ^ (21 - m) = 2 ^ 84" using n(2) by (simp flip: power_add)
  have "N mod 16 ^ m < 16 ^ m" by simp
  then have "N mod 16 ^ m * 16 ^ (21 - m) < 16 ^ m * 16 ^ (21 - m)" by simp
  then have K: "K < 2 ^ 84" unfolding K_def p .
  have pr: "(16 :: rat) ^ m * 16 ^ (21 - m) = 2 ^ 84" using n(2) by (simp flip: power_add)
  have y: "(of_nat (N mod 16 ^ m) / 16 ^ m :: rat) = of_nat K / 2 ^ 84" unfolding K_def pr [symmetric] by simp
  have "16 ^ (m + 7) div 16 ^ m \<le> N div 16 ^ m" using assms(3) n(1) by (intro div_le_mono) (simp add: add.commute)
  moreover have "(16 :: nat) ^ (m + 7) div 16 ^ m = 2 ^ 28" by (simp add: power_add)
  moreover have "N < 16 ^ m * 2 ^ 32" using assms(4) n(1) by (simp add: power_add)
  then have "N div 16 ^ m < 2 ^ 32" by (simp add: div_less_iff_less_mult mult.commute)
  ultimately have b: "2 ^ 28 \<le> N div 16 ^ m" "N div 16 ^ m < 2 ^ 32" by simp_all
  have "(of_nat N :: rat) = of_nat (N div 16 ^ m * 16 ^ m + N mod 16 ^ m)" by (simp only: div_mult_mod_eq)
  also have "\<dots> = of_nat (N div 16 ^ m) * 16 ^ m + of_nat (N mod 16 ^ m)" by (simp only: of_nat_add of_nat_mult) simp
  finally have "(of_nat N / 16 ^ m :: rat) = of_nat (N div 16 ^ m) + of_nat (N mod 16 ^ m) / 16 ^ m" by (simp add: add_divide_distrib)
  moreover have "(2 :: rat) powi (32 - 4 * int n) = 1 / 16 ^ m"
  proof -
    have "(2 :: rat) powi (32 - 4 * int n) = inverse (2 powi int (4 * m))" unfolding power_int_minus [symmetric] by (simp add: n(1))
    then show ?thesis unfolding power_int_of_nat power_mult by (simp add: divide_inverse)
  qed
  ultimately have v: "of_nat (N div 16 ^ m) + of_nat K / 2 ^ 84 = of_nat N * (2 :: rat) powi (32 - 4 * int n)" unfolding y by simp
  have "nat (8 - hdc st) = 0" using assms(1) False by (simp add: hexst_def)
  then show ?thesis
    using that [of "N div 16 ^ m" K] assms(1) K b v y by (simp add: hexst_def hfrac_def m_def [symmetric])
qed

lemma hex_convert_exact:
  assumes "wide F" "sign = 1 \<or> sign = -1" "hexst st N n" "1 \<le> n" "16 ^ (n - 1) \<le> N" "N < 16 ^ n" "hrp st = 1"
    and V: "V = of_nat N * 2 powi (E - 4 * (int n - 1))"
    and v: "V = of_int k * 2 powi e" "0 \<le> k" "k < 2 ^ nat (mant F)" "least F \<le> e" "V < 2 powi maxexp F"
  shows "hex_convert st E (mant F) (least F) sign en = Inr (FNum (sign < 0) V, en)"
proof -
  note w = wide [OF assms(1)]
  obtain x K where x: "hx st * 16 ^ nat (8 - hdc st) = int x" "hy st = hfrac K" "2 ^ 28 \<le> x" "x < 2 ^ 32" "K < 2 ^ 84"
    "of_nat x + of_nat K / 2 ^ 84 = of_nat N * (2 :: rat) powi (32 - 4 * int n)"
    by (rule hexst_parts [OF assms(3-6)])
  define Z :: rat where "Z = of_nat x + of_nat K / 2 ^ 84"
  define e2 where "e2 = E + 4 * hrp st - 32"
  have VZ: "V = Z * 2 powi e2"
    unfolding Z_def x(6) V e2_def assms(7) mult.assoc powi_plus [symmetric] by (simp add: algebra_simps)
  have xn: "0 < x" using x(3) by (rule less_le_trans [rotated]) simp
  have K1: "(of_nat K / 2 ^ 84 :: rat) < 1"
  proof -
    have "(of_nat K :: rat) < of_nat (2 ^ 84)" using x(5) by (simp only: of_nat_less_iff)
    then show ?thesis by simp
  qed
  have Zb: "2 powi 28 \<le> Z" "Z < 2 powi 32"
  proof -
    have "(of_nat (2 ^ 28) :: rat) \<le> of_nat x" "(of_nat (x + 1) :: rat) \<le> of_nat (2 ^ 32)"
      using x(3,4) by (simp_all only: of_nat_le_iff)
    moreover have "(0 :: rat) \<le> of_nat K / 2 ^ 84" by simp
    ultimately show "2 powi 28 \<le> Z" "Z < 2 powi 32" using K1 by (simp_all add: Z_def del: zero_le_divide_iff divide_le_0_iff)
  qed
  have "2 powi (28 + e2) \<le> V" unfolding VZ powi_plus using Zb(1) powi_pos [of e2] by (intro mult_right_mono) simp_all
  also note v(5)
  finally have e2a: "\<not> e2 > - least F" using w unfolding powi_less_iff by simp
  have V0: "0 < V" unfolding VZ using Zb(1) powi_pos [of 28] powi_pos [of e2] by (intro mult_pos_pos) linarith+
  then have "0 < (of_int k :: rat)" using v(1) powi_pos [of e] by (simp add: zero_less_mult_iff)
  then have "1 * 2 powi e \<le> of_int k * (2 :: rat) powi e" using powi_pos [of e] by (intro mult_right_mono) simp_all
  then have "2 powi e \<le> V" using v(1) by simp
  also have "V < 2 powi (32 + e2)" unfolding VZ powi_plus using Zb(2) powi_pos [of e2] by (intro mult_strict_right_mono)
  finally have e2b: "\<not> e2 < least F - 2 * 113" using v(4) unfolding powi_less_iff by simp
  obtain x' K' j where h: "hex_norm (int x) (hfrac K) e2 = Some (int x', hfrac K', e2 - int j)" "2 ^ 31 \<le> x'" "x' < 2 ^ 32" "K' < 2 ^ 84"
    "(of_nat x' + of_nat K' / 2 ^ 84 :: rat) = Z * 2 ^ j"
    using hex_norm_spec [OF xn x(4,5), of e2] by (auto simp: Z_def)
  have "(2 :: rat) ^ j * 2 powi (e2 - int j) = 2 powi e2" using powi_plus [of "int j" "e2 - int j"] by simp
  then have V': "(Z * 2 ^ j) * 2 powi (e2 - int j) = V" by (simp add: VZ mult.assoc)
  have r: "hex_round (mant F) (least F) sign (int x') (hfrac K') (e2 - int j) en = (FNum (sign < 0) V, en)"
    using hex_round_exact [OF assms(1,2) h(2-4) h(5) [symmetric], of "e2 - int j" k e en] v unfolding V' by simp
  show ?thesis
    unfolding hex_convert_def Let_def x(1) e2_def [symmetric] if_not_P [OF e2a] if_not_P [OF e2b] x(2) h(1) using xn by (simp add: r)
qed

subsection \<open>The numeral is read back\<close>

definition hex_numeral :: "byte list \<Rightarrow> byte \<Rightarrow> nat \<Rightarrow> bool \<Rightarrow> int \<Rightarrow> nat list \<Rightarrow> byte list \<Rightarrow> byte list" where
  "hex_numeral sg X z dot t ds ex = sg @ CHR ''0'' # X # replicate z (CHR ''0'') @ hex_text dot t ds @ ex"

lemma hex_number_scan:
  assumes "s = ws @ hex_numeral sg X z dot t ds (x # esg @ D) @ rest" "\<forall>y \<in> set ws. isspace (ord y)" "sign_text sg"
    and X: "X = CHR ''x'' \<or> X = CHR ''X''" and F: "prec_fmt prec = Some F"
    and sc: "\<And>q c. cur s q c (X # replicate z (CHR ''0'') @ hex_text dot t ds @ x # esg @ D @ rest) \<Longrightarrow>
      \<exists>st. hex_scan s q (apply_sign sg 1) True = Some (q + z + length (hex_text dot t ds) + 1 + length esg + length D, HDigits st E)
        \<and> hex_convert st E (mant F) (least F) (apply_sign sg 1) en = Inr (v, en)"
  shows "floatscan u s prec True en = Inr (v, length s - length rest, en)"
proof -
  define T where "T = replicate z (CHR ''0'') @ hex_text dot t ds @ x # esg @ D @ rest"
  define p where "p = length ws + length sg + 1"
  have "s = ws @ sg @ CHR ''0'' # X # T" using assms(1) by (simp add: hex_numeral_def T_def)
  from prefix_text [OF this assms(2,3)] have pre: "prefix_scan s True en = Some (Number 48 p (apply_sign sg 1))" "cur s p 48 (CHR ''0'' # X # T)"
    using ord_48 by (auto simp: p_def dig_def)
  obtain c where c: "shgetc s p = Some (c, Suc p)" "cur s (Suc p) c (X # T)" using cur_next(2) [OF pre(2)] by blast
  have "c OR 32 = 120" using cur_next(1) [OF c(2)] X by (auto simp: ord_def)
  moreover have "Suc p + z + length (hex_text dot t ds) + 1 + length esg + length D = length s - length rest"
    using assms(1) by (simp add: hex_numeral_def p_def)
  ultimately have "number u s 48 p F (apply_sign sg 1) True en = Inr (v, length s - length rest, en)"
    using c(1) sc [OF c(2) [unfolded T_def]] by (auto simp: number_def Let_def)
  then show ?thesis using pre(1) F by (simp add: floatscan_def)
qed

lemma hex_numeral_value:
  assumes "s = ws @ hex_numeral sg X z dot t (d # ds) (x # esg @ D) @ rest" "\<forall>y \<in> set ws. isspace (ord y)" "sign_text sg"
    "X = CHR ''x'' \<or> X = CHR ''X''" "prec_fmt prec = Some F" "wide F" "exp_tail x esg D rest"
    "0 < d" "\<forall>d' \<in> set (d # ds). d' < 16" "t = 97 \<or> t = 65" "length ds < 29"
    and V: "V = of_nat (hexn 0 (d # ds)) * 2 powi (apply_sign esg (int (decv D)) - 4 * int (length ds))"
      "16 ^ length ds \<le> hexn 0 (d # ds)" "hexn 0 (d # ds) < 16 ^ Suc (length ds)"
    and v: "in_fmt F V" "V < 2 powi maxexp F"
  shows "floatscan u s prec True en = Inr (FNum (sg = ''-'') V, length s - length rest, en)"
proof -
  define N where "N = hexn 0 (d # ds)"
  obtain k e where k: "V = of_int k * 2 powi e" "0 \<le> k" "k < 2 ^ nat (mant F)" "least F \<le> e"
    using v(1) by (auto simp: in_fmt_def)
  have sg: "apply_sign sg 1 = 1 \<or> apply_sign sg 1 = -1" "apply_sign sg 1 < 0 \<longleftrightarrow> sg = ''-''"
    using apply_sign_1(1) [OF assms(3)] apply_sign_1(2) by auto
  have "\<exists>st. hex_scan s q (apply_sign sg 1) True = Some (q + z + length (hex_text dot t (d # ds)) + 1 + length esg + length D, HDigits st (apply_sign esg (int (decv D))))
      \<and> hex_convert st (apply_sign esg (int (decv D))) (mant F) (least F) (apply_sign sg 1) en = Inr (FNum (sg = ''-'') V, en)"
    if c: "cur s q c (X # replicate z (CHR ''0'') @ hex_text dot t (d # ds) @ x # esg @ D @ rest)" for q c
  proof -
    obtain st where st: "hex_scan s q (apply_sign sg 1) True = Some (q + z + length (hex_text dot t (d # ds)) + 1 + length esg + length D, HDigits st (apply_sign esg (int (decv D))))"
        "hexst st N (Suc (length ds))" "hrp st = 1"
      using hex_scan_digits [OF c assms(7-11), of "apply_sign sg 1"] by (auto simp: N_def)
    have "hex_convert st (apply_sign esg (int (decv D))) (mant F) (least F) (apply_sign sg 1) en = Inr (FNum (apply_sign sg 1 < 0) V, en)"
      using V by (intro hex_convert_exact [OF assms(6) sg(1) st(2) _ _ _ st(3) _ k v(2)]) (simp_all add: N_def)
    then show ?thesis using st(1) unfolding sg(2) by blast
  qed
  from hex_number_scan [OF assms(1-5) this] show ?thesis .
qed

lemma hex_numeral_zero:
  assumes "s = ws @ hex_numeral sg X z dot t [0] (x # esg @ D) @ rest" "\<forall>y \<in> set ws. isspace (ord y)" "sign_text sg"
    "X = CHR ''x'' \<or> X = CHR ''X''" "prec_fmt prec = Some F" "exp_tail x esg D rest" "t = 97 \<or> t = 65"
  shows "floatscan u s prec True en = Inr (FNum (sg = ''-'') 0, length s - length rest, en)"
proof -
  have sg: "apply_sign sg 1 = 1 \<or> apply_sign sg 1 = -1" "apply_sign sg 1 < 0 \<longleftrightarrow> sg = ''-''"
    using apply_sign_1(1) [OF assms(3)] apply_sign_1(2) by auto
  have h0: "replicate z (CHR ''0'') @ hex_text dot t [0] @ r = replicate (Suc z) (CHR ''0'') @ (if dot then ''.'' else []) @ r" for r
    using hexc_facts [of 0 t] assms(7) by (auto simp: hex_text_def replicate_app_Cons_same)
  have "\<exists>st. hex_scan s q (apply_sign sg 1) True = Some (q + z + length (hex_text dot t [0]) + 1 + length esg + length D, HDigits st (apply_sign esg (int (decv D))))
      \<and> hex_convert st (apply_sign esg (int (decv D))) (mant F) (least F) (apply_sign sg 1) en = Inr (FNum (sg = ''-'') 0, en)"
    if c: "cur s q c (X # replicate z (CHR ''0'') @ hex_text dot t [0] @ x # esg @ D @ rest)" for q c
  proof -
    have z: "hex_convert st E b m (apply_sign sg 1) en = Inr (FNum (sg = ''-'') 0, en)" if "hx st = 0" for st E b m
      using signed_mul [OF sg(1), of 0] sg(2) that by (simp add: hex_convert_def Let_def)
    have l: "length (hex_text dot t [0]) = Suc (if dot then 1 else 0)" by (simp add: hex_text_def)
    show ?thesis using hex_scan_zero [OF c [unfolded h0] assms(6), of "apply_sign sg 1"] z unfolding l by (auto simp: add_ac)
  qed
  from hex_number_scan [OF assms(1-5) this] show ?thesis .
qed

subsection \<open>The text printed\<close>

lemma put_concat [simp]: "concat (put ps s) = concat ps @ s"
  by (simp add: put_def)

lemma fp_pad_loop_text: "\<exists>k. concat (fp_pad_loop put ps c l) = concat ps @ replicate k c"
proof (induction "nat l" arbitrary: ps l rule: less_induct)
  case less
  show ?case
  proof (cases "l \<ge> 64")
    case True
    have "\<exists>k. concat (fp_pad_loop put (put ps (replicate 64 c)) c (l - 64)) = concat (put ps (replicate 64 c)) @ replicate k c"
      by (rule less) (use True in simp)
    then obtain k where "concat (fp_pad_loop put (put ps (replicate 64 c)) c (l - 64)) = concat ps @ replicate (64 + k) c"
      by (auto simp: replicate_add)
    then show ?thesis using True by (subst fp_pad_loop.simps) auto
  next
    case False
    then show ?thesis by (subst fp_pad_loop.simps) auto
  qed
qed

lemma fp_pad_text: "\<exists>k. concat (fp_pad put ps c w l fl) = concat ps @ replicate k c"
proof (cases "has fl (LEFT_ADJ OR ZERO_PAD) \<or> l \<ge> w")
  case True
  then show ?thesis by (auto simp: fp_pad_def intro: exI [of _ 0])
next
  case False
  then show ?thesis using fp_pad_loop_text by (simp add: fp_pad_def)
qed

lemma dig_chr: "k < 10 \<Longrightarrow> chr (ord CHR ''0'' + int k) = Printf.dig False k"
proof -
  assume "k < 10"
  then have "k \<in> {0, 1, 2, 3, 4, 5, 6, 7, 8, 9}" unfolding insert_iff empty_iff by presburger
  then have "ord (chr (ord CHR ''0'' + int k)) = ord (Printf.dig False k)" by (elim insertE emptyE) (simp_all add: Printf.dig_def, simp_all add: ord_def)
  then show ?thesis by (simp only: ord_eq_iff)
qed

lemma fp_fmt_u_utoa: "fp_fmt_u v s = utoa_loop 10 False v s"
proof (induction v s rule: fp_fmt_u.induct)
  case (1 v s)
  have "chr (ord CHR ''0'' + int (v mod 10)) = Printf.dig False (v mod 10)" by (rule dig_chr) simp
  then show ?case using 1 by (subst fp_fmt_u.simps, subst utoa_loop.simps) simp
qed

lemma fp_fmt_u_digits:
  defines "d v \<equiv> (if fp_fmt_u v [] = [] then ''0'' else fp_fmt_u v [])"
  shows "d v = utoa v 10 False" "digit_text (d v)" "d v \<noteq> []" "decv (d v) = v"
proof -
  show u: "d v = utoa v 10 False"
  proof (cases "v = 0")
    case True
    then show ?thesis by (simp add: d_def fp_fmt_u.simps utoa_def utoa_loop.simps)
  next
    case False
    then have "d v = utoa v 10 False \<or> utoa v 10 False = []" by (simp add: d_def fp_fmt_u_utoa utoa_def)
    then show ?thesis using utoa_facts(1) [of 10 v False] by simp
  qed
  have "dig (ord c)" if "is_digit 10 c" for c
    using that by (auto simp: is_digit_def dig_def digit_val_def ord_def split: if_splits)
  then show "digit_text (d v)" using utoa_facts(2) [of 10 v False] by (simp add: u digit_text_def)
  show "d v \<noteq> []" "decv (d v) = v" using utoa_facts(1,3) [of 10 v False] by (simp_all add: u)
qed

definition exp_sign :: "int \<Rightarrow> byte list" where
  "exp_sign e = (if e < 0 then ''-'' else ''+'')"

lemma hex_exp_text:
  assumes "t = 97 \<or> t = 65" "\<bar>e\<bar> < 100000" "not_digit rest"
  obtains x D where "hex_exp e t = x # exp_sign e @ D" "exp_tail x (exp_sign e) D rest" "apply_sign (exp_sign e) (int (decv D)) = e"
proof -
  define D where "D = (if fp_fmt_u (nat \<bar>e\<bar>) [] = [] then ''0'' else fp_fmt_u (nat \<bar>e\<bar>) [])"
  have d: "digit_text D" "D \<noteq> []" "decv D = nat \<bar>e\<bar>" unfolding D_def by (rule fp_fmt_u_digits)+
  define x where "x = (if t = 97 then CHR ''p'' else CHR ''P'')"
  have cx: "chr (t + (112 - 97)) = x"
  proof -
    have "ord (chr (t + (112 - 97))) = ord x" using assms(1) by (auto simp: x_def) (simp_all add: ord_def)
    then show ?thesis by (simp only: ord_eq_iff)
  qed
  have "(if e < 0 then - e else e) = \<bar>e\<bar>" by simp
  then have "hex_exp e t = x # exp_sign e @ D" unfolding hex_exp_def Let_def cx D_def exp_sign_def by simp
  moreover have "exp_tail x (exp_sign e) D rest"
    using d assms(2,3) by (simp add: exp_tail_def p_letter_def x_def exp_sign_def sign_text_def nat_less_iff)
  moreover have "apply_sign (exp_sign e) (int (decv D)) = e" by (simp add: d(3) apply_sign_def exp_sign_def)
  ultimately show ?thesis by (rule that)
qed

text \<open>The sign and the prefix.\<close>

definition fp_sign :: "bool \<Rightarrow> int \<Rightarrow> byte list" where
  "fp_sign neg fl = (if neg then ''-'' else if has fl MARK_POS then ''+'' else if has fl PAD_POS then '' '' else [])"

lemma hex_prefix:
  assumes "fp_prefix neg fl = (prefix, pl)" "t = 97 \<or> t = 65"
  shows "take (nat (pl + 2)) (drop (if has t 32 then prefix + 9 else prefix) prefix_str) = fp_sign neg fl @ CHR ''0'' # [if t = 97 then CHR ''x'' else CHR ''X'']"
    and "0 \<le> pl" "pl \<le> 1"
proof -
  have "has 97 32" "\<not> has 65 32" by (simp_all add: has_def)
  then show "take (nat (pl + 2)) (drop (if has t 32 then prefix + 9 else prefix) prefix_str) = fp_sign neg fl @ CHR ''0'' # [if t = 97 then CHR ''x'' else CHR ''X'']"
    using assms by (auto simp: fp_prefix_def fp_sign_def prefix_str_def split: if_splits)
  show "0 \<le> pl" "pl \<le> 1" using assms(1) by (auto simp: fp_prefix_def split: if_splits)
qed

lemma hex_exp_length: "\<bar>e\<bar> < 100000 \<Longrightarrow> length (hex_exp e t) \<le> 10"
proof -
  assume "\<bar>e\<bar> < 100000"
  then have "nat \<bar>e\<bar> < 10 ^ 6" by (simp add: nat_less_iff)
  then have "length (utoa (nat \<bar>e\<bar>) 10 False) \<le> 6 + 1" by (rule utoa_length)
  moreover have "(if e < 0 then - e else e) = \<bar>e\<bar>" by simp
  ultimately show ?thesis using fp_fmt_u_digits(1) [of "nat \<bar>e\<bar>"] unfolding hex_exp_def Let_def
    by (cases "fp_fmt_u (nat \<bar>e\<bar>) [] = []") simp_all
qed

lemma fmt_hex_text:
  assumes "N \<le> 2 ^ 113" "\<bar>e2\<bar> < 100000" "p < 0" "t = 97 \<or> t = 65" "fp_prefix neg fl = (prefix, pl)"
  shows "\<exists>n ps k1 k2 k3. fmt_hex (FNum False (of_nat N / 16 ^ 28)) e2 w p fl t prefix pl = Some (n, ps)
    \<and> concat ps = replicate k1 (CHR '' '') @ fp_sign neg fl @ CHR ''0'' # (if t = 97 then CHR ''x'' else CHR ''X'') # replicate k2 (CHR ''0'')
        @ hex_text (has fl ALT_FORM) t (hexdigs 28 N) @ hex_exp e2 t @ replicate k3 (CHR '' '')"
proof -
  have r: "hex_rounded y p b = y" for y b using assms(3) by (simp add: hex_rounded_def hex_re_def)
  have b: "hex_loop (FNum False (of_nat N / 16 ^ 28)) p fl t [] = Some (hex_text (has fl ALT_FORM) t (hexdigs 28 N))"
    using hex_loop_text [OF assms(1), of 28 p fl t] assms(3) by simp
  note px = hex_prefix [OF assms(5,4)]
  have ov: "\<not> p > INT_MAX - 2 - int (length (hex_exp e2 t)) - (pl + 2)" using assms(3) hex_exp_length [OF assms(2), of t] px(3) by simp
  have o2: "concat (out_prefix ps (if has t 32 then prefix + 9 else prefix) (pl + 2))
      = concat ps @ fp_sign neg fl @ CHR ''0'' # [if t = 97 then CHR ''x'' else CHR ''X'']" for ps
    unfolding out_prefix_def put_concat px(1) ..
  have nop: "fp_pad put ps c (sl + el - el - sl) 0 0 = ps" for ps c sl el by (simp add: fp_pad_def has_def)
  define bf where "bf = hex_text (has fl ALT_FORM) t (hexdigs 28 N)"
  have nz: "\<not> (p \<noteq> 0 \<and> int (length bf) - 2 < p)" using assms(3) by (simp add: bf_def hex_text_def)
  define l where "l = pl + 2 + (int (length bf) + int (length (hex_exp e2 t)))"
  define pre where "pre = (if has t 32 then prefix + 9 else prefix)"
  obtain k1 where k1: "concat (fp_pad put [] (CHR '' '') w l fl) = replicate k1 (CHR '' '')" using fp_pad_text [of "[]" "CHR '' ''" w l fl] by auto
  define q2 where "q2 = out_prefix (fp_pad put [] (CHR '' '') w l fl) pre (pl + 2)"
  obtain k2 where k2: "concat (fp_pad put q2 (CHR ''0'') w l (fl XOR ZERO_PAD)) = concat q2 @ replicate k2 (CHR ''0'')" using fp_pad_text by blast
  define q6 where "q6 = put (put (fp_pad put q2 (CHR ''0'') w l (fl XOR ZERO_PAD)) bf) (hex_exp e2 t)"
  obtain k3 where k3: "concat (fp_pad put q6 (CHR '' '') w l (fl XOR LEFT_ADJ)) = concat q6 @ replicate k3 (CHR '' '')" using fp_pad_text by blast
  have "fmt_hex (FNum False (of_nat N / 16 ^ 28)) e2 w p fl t prefix pl = Some (max w l, fp_pad put q6 (CHR '' '') w l (fl XOR LEFT_ADJ))"
    unfolding fmt_hex_def Let_def r b option.case if_not_P [OF ov] bf_def [symmetric] if_not_P [OF nz] nop
    by (simp add: l_def q2_def q6_def pre_def)
  moreover have "concat (fp_pad put q6 (CHR '' '') w l (fl XOR LEFT_ADJ)) = replicate k1 (CHR '' '') @ fp_sign neg fl @ CHR ''0'' # (if t = 97 then CHR ''x'' else CHR ''X'') # replicate k2 (CHR ''0'')
        @ bf @ hex_exp e2 t @ replicate k3 (CHR '' '')"
    unfolding k3 unfolding q6_def put_concat k2 unfolding q2_def pre_def o2 k1 by simp
  ultimately show ?thesis unfolding bf_def by blast
qed

subsection \<open>The round trip\<close>

lemma in_fmt_quad: "wide F \<Longrightarrow> in_fmt F V \<Longrightarrow> in_fmt quad V"
proof -
  assume F: "wide F" "in_fmt F V"
  have "nat (mant F) \<le> 113" using wide [OF F(1)] by (simp add: nat_le_iff)
  then have "(2 :: int) ^ nat (mant F) \<le> 2 ^ nat (mant quad)" by (intro power_increasing) simp_all
  then show ?thesis using F(2) wide [OF F(1)] by (fastforce simp: in_fmt_def)
qed

text \<open>The significand has at most 113 bits, the exponent five digits.\<close>

lemma significand:
  assumes "in_fmt quad V" "0 < V" "V < 2 powi maxexp quad"
  obtains N where "fmul quad (FNum False (V / 2 powi (rexp V + 1))) (FNum False 2) = FNum False (of_nat N / 16 ^ 28)"
    "V = of_nat N / 16 ^ 28 * 2 powi rexp V" "16 ^ 28 \<le> N" "N < 2 * 16 ^ 28" "\<bar>rexp V\<bar> < 100000"
proof -
  define r where "r = rexp V"
  note b = rexp_bounds [OF assms(2), folded r_def]
  obtain n e where n: "V = of_int n * 2 powi e" "0 \<le> n" "n < 2 ^ 113" "-16494 \<le> e" using assms(1) by (auto simp: in_fmt_def)
  have nb: "(of_int n :: rat) < 2 powi 113"
  proof -
    have "(of_int n :: rat) < of_int (2 ^ 113)" using n(3) by (simp only: of_int_less_iff)
    then show ?thesis by simp
  qed
  have "2 powi r < (2 :: rat) powi (113 + e)"
    using b(1) nb powi_pos [of e] unfolding n(1) powi_plus by (meson le_less_trans mult_strict_right_mono)
  then have re: "0 \<le> e + 112 - r" unfolding powi_less_iff by simp
  have "0 < (of_int n :: rat)" using assms(2) n(1) powi_pos [of e] by (simp add: zero_less_mult_iff)
  then have "1 * 2 powi e \<le> of_int n * (2 :: rat) powi e" using powi_pos [of e] by (intro mult_right_mono) simp_all
  then have "2 powi e < (2 :: rat) powi (r + 1)" using b(2) n(1) by linarith
  then have er: "e \<le> r" unfolding powi_less_iff by simp
  have "(2 :: rat) powi r < 2 powi maxexp quad" using b(1) assms(3) by linarith
  then have rq: "r < 16384" unfolding powi_less_iff by (simp add: quad_def)
  define N where "N = nat n * 2 ^ nat (e + 112 - r)"
  have h: "(16 :: rat) ^ 28 = 2 powi 112" by simp
  have "(of_nat N :: rat) = of_int n * 2 powi int (nat (e + 112 - r))" unfolding N_def powi_nat using n(2) by simp
  then have N: "(of_nat N :: rat) = of_int n * 2 powi (e + (112 - r))" using re by (simp add: algebra_simps)
  have VN: "V = of_nat N / 16 ^ 28 * 2 powi r" unfolding N n(1) h powi_plus powi_minus by (simp add: field_simps)
  have "V / 2 powi r = of_nat N / 16 ^ 28" using VN by (simp add: field_simps)
  moreover have "V / 2 powi (r + 1) * 2 = V / 2 powi r" unfolding powi_plus by (simp add: field_simps)
  ultimately have q: "V / 2 powi (r + 1) * 2 = of_nat N / 16 ^ 28" by simp
  have "1 \<le> V / 2 powi r" "V / 2 powi r < 2" using b powi_pos [of r] by (simp_all add: powi_plus field_simps)
  then have "(16 :: rat) ^ 28 \<le> of_nat N" "of_nat N < (2 :: rat) * 16 ^ 28" unfolding \<open>V / 2 powi r = _\<close> by (simp_all add: field_simps)
  then have "(of_nat (16 ^ 28) :: rat) \<le> of_nat N" "of_nat N < (of_nat (2 * 16 ^ 28) :: rat)" by simp_all
  then have Nb: "16 ^ 28 \<le> N" "N < 2 * 16 ^ 28" by (simp_all only: of_nat_le_iff of_nat_less_iff)
  have "fmul quad (FNum False (V / 2 powi (r + 1))) (FNum False 2) = FNum False (of_nat N / 16 ^ 28)"
    using quad_hex_exact [of N 28 False] Nb(2) unfolding fmul_def prod.case fp.case q by simp
  then show ?thesis using that [OF _ VN [unfolded r_def] Nb] er n(4) rq unfolding r_def by simp
qed

lemma hexdigs_significand:
  assumes "16 ^ 28 \<le> N" "N < 2 * 16 ^ 28"
  obtains ds where "hexdigs 28 N = 1 # ds" "length ds < 29" "\<forall>d \<in> set (1 # ds). d < 16"
    "of_nat N / 16 ^ 28 = (of_nat (hexn 0 (1 # ds)) :: rat) / 16 ^ length ds"
    "16 ^ length ds \<le> hexn 0 (1 # ds)" "hexn 0 (1 # ds) < 16 ^ Suc (length ds)"
proof -
  have k: "(28 :: nat) = Suc 27" by simp
  have d1: "N div 16 ^ 28 = 1" using assms by (simp add: div_nat_eqI)
  obtain ds where ds: "hexdigs 28 N = 1 # ds" using d1 unfolding k hexdigs.simps by simp
  have v: "length (1 # ds) \<le> 29" "hexn 0 (1 # ds) * 16 ^ (29 - length (1 # ds)) = N"
    using hexdigs_value [of 28 N 0] unfolding ds by simp_all
  define j where "j = 28 - length ds"
  have j: "(28 :: nat) = length ds + j" "29 - length (1 # ds) = j" using v(1) by (simp_all add: j_def)
  have N: "hexn 0 (1 # ds) * 16 ^ j = N" using v(2) unfolding j(2) .
  have p: "(16 :: nat) ^ 28 = 16 ^ length ds * 16 ^ j" unfolding j(1) power_add ..
  have "16 ^ length ds * 16 ^ j \<le> hexn 0 (1 # ds) * 16 ^ j" using assms(1) unfolding N p [symmetric] .
  then have lo: "16 ^ length ds \<le> hexn 0 (1 # ds)" by simp
  have "hexn 0 (1 # ds) * 16 ^ j < 2 * 16 ^ length ds * 16 ^ j" using assms(2) unfolding N p by simp
  then have "hexn 0 (1 # ds) < 2 * 16 ^ length ds" by simp
  then have hi: "hexn 0 (1 # ds) < 16 ^ Suc (length ds)" by simp
  have pr: "(16 :: rat) ^ 28 = 16 ^ length ds * 16 ^ j" unfolding j(1) power_add ..
  have "of_nat N / 16 ^ 28 = (of_nat (hexn 0 (1 # ds)) :: rat) / 16 ^ length ds" unfolding pr N [symmetric] by simp
  moreover have "\<forall>d \<in> set (1 # ds). d < 16" using hexdigs_less [of N 28] assms(2) unfolding ds by simp
  ultimately show ?thesis using that [OF ds] v(1) lo hi by simp
qed

lemma printed_hex_read:
  assumes "wide F" "prec_fmt prec = Some F" "in_fmt F V" "0 \<le> V" "V < 2 powi maxexp F" "p < 0" "t = 97 \<or> t = 65"
  shows "\<exists>n ps q. fmt_fp u (FNum neg V) w p fl t = Some (n, ps)
    \<and> floatscan u' (concat ps) prec True en = Inr (FNum neg V, q, en) \<and> (\<exists>k. drop q (concat ps) = replicate k (CHR '' ''))"
proof -
  obtain prefix pl where px: "fp_prefix neg fl = (prefix, pl)" by (cases "fp_prefix neg fl")
  define ws' where "ws' = (if fp_sign neg fl = '' '' then '' '' else [])"
  define sg where "sg = (if fp_sign neg fl = '' '' then [] else fp_sign neg fl)"
  have sg: "fp_sign neg fl = ws' @ sg" "sign_text sg" "sg = ''-'' \<longleftrightarrow> neg" "\<forall>y \<in> set (replicate k (CHR '' '') @ ws'). isspace (ord y)" for k
    by (auto simp: ws'_def sg_def fp_sign_def sign_text_def isspace_def ord_def)
  have t32: "t OR 32 = 97" using assms(7) by auto
  have sn: "fsign (FNum neg V) = neg" "(if neg then fneg (FNum neg V) else FNum neg V) = FNum False V" by (auto simp: fsign_def fneg_def)
  define X where "X = (if t = 97 then CHR ''x'' else CHR ''X'')"
  have X: "X = CHR ''x'' \<or> X = CHR ''X''" by (simp add: X_def)
  have nd: "not_digit (replicate k (CHR '' ''))" for k by (cases k) (simp_all add: not_digit_def dig_def ord_def)
  show ?thesis
  proof (cases "V = 0")
    case True
    have f: "fmt_fp u (FNum neg V) w p fl t = fmt_hex (FNum False 0) 0 w p fl t prefix pl"
      unfolding fmt_fp_def sn px Let_def using t32 True by (simp add: frexp_def fmul_def fzero_def)
    have k: "(28 :: nat) = Suc 27" by simp
    have h0: "hexdigs 28 0 = [0]" unfolding k hexdigs.simps by simp
    obtain n ps k1 k2 k3 where pr: "fmt_hex (FNum False 0) 0 w p fl t prefix pl = Some (n, ps)"
      "concat ps = replicate k1 (CHR '' '') @ fp_sign neg fl @ CHR ''0'' # X # replicate k2 (CHR ''0'')
        @ hex_text (has fl ALT_FORM) t [0] @ hex_exp 0 t @ replicate k3 (CHR '' '')"
    proof -
      have "FNum False (of_nat 0 / 16 ^ 28) = FNum False 0" by simp
      then show ?thesis using fmt_hex_text [OF _ _ assms(6,7) px, of 0 0 w] that unfolding h0 X_def by auto
    qed
    obtain x D where ex: "hex_exp 0 t = x # exp_sign 0 @ D" "exp_tail x (exp_sign 0) D (replicate k3 (CHR '' ''))"
      by (rule hex_exp_text [OF assms(7) _ nd, of 0 k3]) simp_all
    have "concat ps = (replicate k1 (CHR '' '') @ ws') @ hex_numeral sg X k2 (has fl ALT_FORM) t [0] (x # exp_sign 0 @ D) @ replicate k3 (CHR '' '')"
      unfolding pr(2) sg(1) ex(1) hex_numeral_def by simp
    from hex_numeral_zero [OF this sg(4,2) X assms(2) ex(2) assms(7), of u' en]
    have "floatscan u' (concat ps) prec True en = Inr (FNum neg V, length (concat ps) - k3, en)" using True by (simp add: sg(3))
    moreover have "drop (length (concat ps) - k3) (concat ps) = replicate k3 (CHR '' '')" unfolding pr(2) by simp
    ultimately show ?thesis unfolding f pr(1) by blast
  next
    case False
    then have V0: "0 < V" using assms(4) by simp
    have "(2 :: rat) powi maxexp F \<le> 2 powi maxexp quad" using wide [OF assms(1)] by (intro powi_mono) (simp add: quad_def)
    then have Vq: "V < 2 powi maxexp quad" using assms(5) by simp
    obtain N where N: "fmul quad (FNum False (V / 2 powi (rexp V + 1))) (FNum False 2) = FNum False (of_nat N / 16 ^ 28)"
      "V = of_nat N / 16 ^ 28 * 2 powi rexp V" "16 ^ 28 \<le> N" "N < 2 * 16 ^ 28" "\<bar>rexp V\<bar> < 100000"
      by (rule significand [OF in_fmt_quad [OF assms(1,3)] V0 Vq])
    obtain ds where ds: "hexdigs 28 N = 1 # ds" "length ds < 29" "\<forall>d \<in> set (1 # ds). d < 16"
      "of_nat N / 16 ^ 28 = (of_nat (hexn 0 (1 # ds)) :: rat) / 16 ^ length ds"
      "16 ^ length ds \<le> hexn 0 (1 # ds)" "hexn 0 (1 # ds) < 16 ^ Suc (length ds)"
      by (rule hexdigs_significand [OF N(3,4)])
    have nz: "\<not> fzero (FNum False (of_nat N / 16 ^ 28))" using N(3) by (simp add: fzero_def)
    have f: "fmt_fp u (FNum neg V) w p fl t = fmt_hex (FNum False (of_nat N / 16 ^ 28)) (rexp V) w p fl t prefix pl"
      unfolding fmt_fp_def sn px Let_def using t32 False N(1) nz by (simp add: frexp_def)
    have "N \<le> 2 ^ 113" using N(4) by simp
    from fmt_hex_text [OF this N(5) assms(6,7) px, of w] obtain n ps k1 k2 k3 where
      pr: "fmt_hex (FNum False (of_nat N / 16 ^ 28)) (rexp V) w p fl t prefix pl = Some (n, ps)"
      "concat ps = replicate k1 (CHR '' '') @ fp_sign neg fl @ CHR ''0'' # X # replicate k2 (CHR ''0'')
        @ hex_text (has fl ALT_FORM) t (1 # ds) @ hex_exp (rexp V) t @ replicate k3 (CHR '' '')"
      unfolding ds(1) X_def by blast
    obtain x D where ex: "hex_exp (rexp V) t = x # exp_sign (rexp V) @ D" "exp_tail x (exp_sign (rexp V)) D (replicate k3 (CHR '' ''))"
        "apply_sign (exp_sign (rexp V)) (int (decv D)) = rexp V"
      by (rule hex_exp_text [OF assms(7) N(5) nd])
    have txt_eq: "concat ps = (replicate k1 (CHR '' '') @ ws') @ hex_numeral sg X k2 (has fl ALT_FORM) t (1 # ds) (x # exp_sign (rexp V) @ D) @ replicate k3 (CHR '' '')"
      unfolding pr(2) sg(1) ex(1) hex_numeral_def by simp
    have "(16 :: rat) ^ length ds = 2 powi (4 * int (length ds))" using power_int_of_nat [of "2 :: rat" "4 * length ds"] by (simp add: power_mult)
    then have "V = of_nat (hexn 0 (1 # ds)) * 2 powi (rexp V - 4 * int (length ds))"
      using N(2) unfolding ds(4) by (simp add: powi_minus)
    then have VN: "V = of_nat (hexn 0 (1 # ds)) * 2 powi (apply_sign (exp_sign (rexp V)) (int (decv D)) - 4 * int (length ds))" unfolding ex(3) .
    have "floatscan u' (concat ps) prec True en = Inr (FNum neg V, length (concat ps) - k3, en)"
      using hex_numeral_value [OF txt_eq sg(4,2) X assms(2,1) ex(2) _ ds(3) assms(7) ds(2) VN ds(5,6) assms(3,5), of u' en] by (simp add: sg(3))
    moreover have "drop (length (concat ps) - k3) (concat ps) = replicate k3 (CHR '' '')" unfolding pr(2) by simp
    ultimately show ?thesis unfolding f pr(1) by blast
  qed
qed

subsection \<open>Properties\<close>

text \<open>\<^verbatim>\<open>%*a\<close> or \<^verbatim>\<open>%*La\<close>: the pieces of \<open>fmt_fp\<close> one behind the other.\<close>

lemma fold_emit_text: "fold (\<lambda>s o'. emit_text o' s) ps t = t @ concat ps"
  by (induction ps arbitrary: t) (simp_all add: emit_text_def)

lemma formatted_star_a:
  assumes "L = [] \<and> x = ADouble v \<or> L = ''L'' \<and> x = ALDouble v"
  shows "\<exists>w' fl. formatted fp (''%*'' @ L @ ''a'') [AInt w, x] = Some (to_int32 (int (length (concat (fp v w' (-1) fl CHR ''a'')))), concat (fp v w' (-1) fl CHR ''a''), [])"
proof -
  obtain w' fl where g: "get_spec (''*'' @ L @ ''a'') [AInt w, x] = Some ((fl, w', -1, 0, L \<noteq> []), ''a'', [x])"
    using assms that [of "if to_int32 w < 0 then 0 OR F_MINUS else 0" "if to_int32 w < 0 then to_int32 (- to_int32 w) else to_int32 w"]
    by (cases "to_int32 w < 0") (auto simp: get_spec_def get_width_def get_prec_def at_def)
  have "va_float (L \<noteq> []) [x] = Some (v, [])" using assms by auto
  then have c: "convert fp emit_text length [] CHR ''a'' (fl, w', -1, 0, L \<noteq> []) [x] = Some (put_float fp emit_text [] v CHR ''a'' fl w' (-1), [], [])"
    by (simp add: convert_def)
  obtain fl' where pf: "put_float fp emit_text [] v CHR ''a'' fl w' (-1) = concat (fp v w' (-1) fl' CHR ''a'')"
    by (auto simp: put_float_def fold_emit_text Let_def)
  have "StdlibNum.at ''a'' 0 = CHR ''a''" by (simp add: at_def)
  then show ?thesis using g c unfolding pf formatted_def vformat_def by (intro exI [of _ w'] exI [of _ fl']) simp
qed

lemma representable_parts: "representable F (FNum s V) \<Longrightarrow> in_fmt F V \<and> 0 \<le> V \<and> V < 2 powi maxexp F"
proof -
  assume a: "representable F (FNum s V)"
  then obtain n e where "V = of_int n * 2 powi e" "0 \<le> n" by (auto simp: representable_def in_fmt_def)
  then have "0 \<le> V" using powi_pos [of e] by simp
  then show ?thesis using a by (simp add: representable_def)
qed

lemma fconv_same: "wide F \<Longrightarrow> representable F (FNum s V) \<Longrightarrow> fconv F (FNum s V) = FNum s V"
proof -
  assume a: "wide F" "representable F (FNum s V)"
  obtain n e where n: "V = of_int n * 2 powi e" "0 \<le> n" "n < 2 ^ nat (mant F)" "least F \<le> e"
    using representable_parts [OF a(2)] by (auto simp: in_fmt_def)
  have "fround F s V = FNum s V"
    using n(2-4) representable_parts [OF a(2)] wide [OF a(1)] by (intro fround_exact [OF n(1)]) simp_all
  then show ?thesis by (simp add: fconv_def)
qed

text \<open>C38: Printing with \<^verbatim>\<open>%a\<close> loses nothing: what \<^verbatim>\<open>printf\<close> writes for a finite \<^verbatim>\<open>double\<close>, in a field of any width,
  \<^verbatim>\<open>strtod\<close> reads back as the same \<^verbatim>\<open>double\<close> with its sign, subnormal numbers and both zeros included, without
  touching \<^verbatim>\<open>errno\<close>, and stops only at the padding; the same holds for \<^verbatim>\<open>%La\<close>, \<^verbatim>\<open>long double\<close> and \<^verbatim>\<open>strtold\<close>.\<close>

theorem printf_strtod_hex:
  assumes "representable double (FNum neg x)" "representable quad (FNum neg' y)"
  shows "(\<exists>r t q k. formatted (fmt_fp_pieces u) ''%*a'' [AInt w, ADouble (FNum neg x)] = Some (r, t, [])
      \<and> strtod u' t en = Inr (FNum neg x, q, en) \<and> drop q t = replicate k (CHR '' ''))
    \<and> (\<exists>r t q k. formatted (fmt_fp_pieces u) ''%*La'' [AInt w, ALDouble (FNum neg' y)] = Some (r, t, [])
      \<and> strtold u' t en = Inr (FNum neg' y, q, en) \<and> drop q t = replicate k (CHR '' ''))"
proof -
  have wd: "wide double" "wide quad" "prec_fmt 1 = Some double" "prec_fmt 2 = Some quad" by (simp_all add: wide_def prec_fmt_def)
  have pieces: "\<exists>r t q k. formatted (fmt_fp_pieces u) (''%*'' @ L @ ''a'') [AInt w, a] = Some (r, t, [])
      \<and> floatscan u' t prec True en = Inr (FNum s V, q, en) \<and> drop q t = replicate k (CHR '' '')"
    if F: "wide F" "prec_fmt prec = Some F" "representable F (FNum s V)" "L = [] \<and> a = ADouble (FNum s V) \<or> L = ''L'' \<and> a = ALDouble (FNum s V)"
    for F prec s V L a
  proof -
    obtain w' fl where f: "formatted (fmt_fp_pieces u) (''%*'' @ L @ ''a'') [AInt w, a]
        = Some (to_int32 (int (length (concat (fmt_fp_pieces u (FNum s V) w' (-1) fl CHR ''a'')))), concat (fmt_fp_pieces u (FNum s V) w' (-1) fl CHR ''a''), [])"
      using formatted_star_a [OF F(4)] by blast
    have a: "ord CHR ''a'' = 97" by (simp add: ord_def)
    obtain n ps q k where "fmt_fp u (FNum s V) w' (-1) fl 97 = Some (n, ps)"
        "floatscan u' (concat ps) prec True en = Inr (FNum s V, q, en)" "drop q (concat ps) = replicate k (CHR '' '')"
      using printed_hex_read [OF F(1,2), of V "-1" 97 u s w' fl u' en] representable_parts [OF F(3)] by auto
    then show ?thesis using f by (auto simp: fmt_fp_pieces_def a)
  qed
  show ?thesis
    using pieces [OF wd(1,3) assms(1), of "[]" "ADouble (FNum neg x)"] pieces [OF wd(2,4) assms(2), of "''L''" "ALDouble (FNum neg' y)"]
      fconv_same [OF wd(1) assms(1)]
    by (fastforce simp: strtod_def strtold_def strtox_def conv_result_def)
qed

theorem printf_strtod_hex_witness:
  "\<exists>r t q k. formatted (fmt_fp_pieces (\<lambda>_. 7)) ''%*a'' [AInt 12, ADouble (FNum True (3 / 2))] = Some (r, t, [])
      \<and> strtod (\<lambda>_. 0) t 0 = Inr (FNum True (3 / 2), q, 0) \<and> drop q t = replicate k (CHR '' '')"
proof -
  have "in_fmt double (3 / 2)" "in_fmt quad (3 / 2)"
    unfolding in_fmt_def by (rule exI [of _ 3], rule exI [of _ "-1"], simp add: double_def quad_def power_int_minus)+
  moreover have "(2 :: rat) powi 1 \<le> 2 powi maxexp double" "(2 :: rat) powi 1 \<le> 2 powi maxexp quad"
    by (rule powi_mono, simp add: double_def quad_def)+
  ultimately have "representable double (FNum True (3 / 2))" "representable quad (FNum True (3 / 2))"
    by (simp_all add: representable_def)
  from printf_strtod_hex [OF this, of "\<lambda>_. 7" 12 "\<lambda>_. 0" 0] show ?thesis by (rule conjunct1)
qed

end
