(* ===== verification/FmtDec.thy ===== *)
theory FmtDec
  imports FmtHex
begin

text \<open>
  The limbs of \<^verbatim>\<open>fmt_fp\<close> for \<^verbatim>\<open>%e\<close> and \<^verbatim>\<open>%f\<close>: \<open>lval r m a z\<close> is the number that the limbs from \<open>a\<close> to \<open>z\<close> stand for,
  the limb \<open>r\<close> being the integer part. Expanding the significand is exact, so is multiplying by a power of
  two; dividing loses only what lies far behind the digits asked for; rounding is to nearest, ties to even.
\<close>

subsection \<open>The value of the limbs\<close>

definition wt :: "nat \<Rightarrow> nat \<Rightarrow> rat" where
  "wt r i = 10 powi (9 * (int r - int i))"

definition lval :: "nat \<Rightarrow> (nat \<Rightarrow> nat) \<Rightarrow> nat \<Rightarrow> nat \<Rightarrow> rat" where
  "lval r m a z = (\<Sum>i = a..<z. of_nat (m i) * wt r i)"

lemma wt_pos [simp]: "0 < wt r i"
  by (simp add: wt_def)

lemma wt_ge0 [simp]: "0 \<le> wt r i"
  using wt_pos [of r i] by (rule less_imp_le)

lemma wt_nz [simp]: "wt r i \<noteq> 0"
  by (metis wt_pos less_irrefl)

lemma wt_self [simp]: "wt r r = 1"
  by (simp add: wt_def)

lemma wt_Suc: "wt r i = 1000000000 * wt r (Suc i)"
proof -
  have "9 * (int r - int i) = 9 * (int r - int (Suc i)) + 9" by simp
  then have "wt r i = wt r (Suc i) * 10 ^ 9" unfolding wt_def by (simp only: powi10_9)
  then show ?thesis by simp
qed

lemma wt_add: "wt r i = 10 ^ (9 * k) * wt r (i + k)"
proof (induction k)
  case (Suc k)
  have "wt r (i + k) = 1000000000 * wt r (i + Suc k)" using wt_Suc [of r "i + k"] by simp
  then show ?case using Suc by (simp add: power_add)
qed simp

lemma wt_antimono: "i \<le> j \<Longrightarrow> wt r j \<le> wt r i"
  by (simp add: wt_def power_int_increasing)

lemma lval_empty [simp]: "z \<le> a \<Longrightarrow> lval r m a z = 0"
  by (simp add: lval_def)

lemma lval_ge0 [simp]: "0 \<le> lval r m a z"
  by (simp add: lval_def sum_nonneg)

lemma lval_split: "a \<le> k \<Longrightarrow> k \<le> z \<Longrightarrow> lval r m a z = lval r m a k + lval r m k z"
  unfolding lval_def by (rule sum.atLeastLessThan_concat [symmetric])

lemma lval_first: "a < z \<Longrightarrow> lval r m a z = of_nat (m a) * wt r a + lval r m (Suc a) z"
  unfolding lval_def by (rule sum.atLeast_Suc_lessThan)

lemma lval_last: "a \<le> z \<Longrightarrow> lval r m a (Suc z) = lval r m a z + of_nat (m z) * wt r z"
  by (simp add: lval_def)

lemma lval_cong: "(\<And>i. a \<le> i \<Longrightarrow> i < z \<Longrightarrow> m i = m' i) \<Longrightarrow> lval r m a z = lval r m' a z"
  by (simp add: lval_def)

lemma lval_zero: "(\<And>i. a \<le> i \<Longrightarrow> i < z \<Longrightarrow> m i = 0) \<Longrightarrow> lval r m a z = 0"
  by (simp add: lval_def)

definition limbs_less :: "(nat \<Rightarrow> nat) \<Rightarrow> nat \<Rightarrow> nat \<Rightarrow> bool" where
  "limbs_less m a z \<longleftrightarrow> (\<forall>i. a \<le> i \<and> i < z \<longrightarrow> m i < 1000000000)"

lemma limbs_lessD: "limbs_less m a z \<Longrightarrow> a \<le> i \<Longrightarrow> i < z \<Longrightarrow> m i < 1000000000"
  by (simp add: limbs_less_def)

lemma limbs_less_sub: "limbs_less m a z \<Longrightarrow> a \<le> a' \<Longrightarrow> z' \<le> z \<Longrightarrow> limbs_less m a' z'"
  by (auto simp: limbs_less_def)

lemma lval_bound:
  assumes "limbs_less m a z" "a \<le> z"
  shows "lval r m a z + 1000000000 * wt r z \<le> 1000000000 * wt r a"
  using assms
proof (induction "z - a" arbitrary: z)
  case (Suc n)
  then obtain y where z: "z = Suc y" "a \<le> y" by (cases z) auto
  have m: "(of_nat (m y) + 1 :: rat) \<le> 1000000000"
  proof -
    have "m y + 1 \<le> 1000000000" using limbs_lessD [OF Suc.prems(1), of y] z by simp
    then have "(of_nat (m y + 1) :: rat) \<le> of_nat 1000000000" by (simp only: of_nat_le_iff)
    then show ?thesis by simp
  qed
  have "lval r m a y + 1000000000 * wt r y \<le> 1000000000 * wt r a"
    using Suc.hyps(1) [of y] Suc.hyps(2) limbs_less_sub [OF Suc.prems(1), of a y] z by simp
  moreover have "(of_nat (m y) + 1) * wt r y \<le> 1000000000 * wt r y" using m by (intro mult_right_mono) simp_all
  moreover have "1000000000 * wt r z = wt r y" unfolding z(1) using wt_Suc [of r y] by simp
  ultimately show ?case unfolding z(1) lval_last [OF z(2)] distrib_right by linarith
qed simp

lemma lval_less: "limbs_less m a z \<Longrightarrow> lval r m a z < 1000000000 * wt r a"
proof (cases "a \<le> z")
  case True
  assume "limbs_less m a z"
  from lval_bound [OF this True, of r] show ?thesis using wt_pos [of r z] by linarith
qed simp

lemma lval_lead: "a < z \<Longrightarrow> m a \<noteq> 0 \<Longrightarrow> wt r a \<le> lval r m a z"
proof -
  assume a: "a < z" "m a \<noteq> 0"
  then have "1 * wt r a \<le> of_nat (m a) * wt r a" by (intro mult_right_mono) simp_all
  then show ?thesis unfolding lval_first [OF a(1)] using lval_ge0 [of r m "Suc a" z] by linarith
qed

subsection \<open>Multiplying and dividing\<close>

lemma mul_limbs_spec:
  assumes "mul_limbs a sh m c n = (m', c')"
  shows "lval r m' a (a + n) + of_nat c' * (1000000000 * wt r a) = 2 ^ sh * lval r m a (a + n) + of_nat c * (1000000000 * wt r (a + n))
    \<and> limbs_less m' a (a + n) \<and> (\<forall>i. i < a \<or> a + n \<le> i \<longrightarrow> m' i = m i)"
  using assms
proof (induction n arbitrary: m c)
  case (Suc n)
  define x where "x = m (a + n) * 2 ^ sh + c"
  define m1 where "m1 = m(a + n := x mod 1000000000)"
  have r: "mul_limbs a sh m1 (x div 1000000000) n = (m', c')" using Suc.prems by (simp add: m1_def x_def Let_def)
  note ih = Suc.IH [OF r]
  have m1: "lval r m1 a (a + n) = lval r m a (a + n)" by (rule lval_cong) (simp add: m1_def)
  have top: "m' (a + n) = x mod 1000000000" using ih by (simp add: m1_def)
  have "(of_nat x :: rat) = of_nat (x div 1000000000 * 1000000000 + x mod 1000000000)" by (simp only: div_mult_mod_eq)
  then have "(of_nat x :: rat) = of_nat (x div 1000000000) * 1000000000 + of_nat (x mod 1000000000)"
    by (simp only: of_nat_add of_nat_mult of_nat_numeral)
  moreover have "(of_nat x :: rat) = of_nat (m (a + n)) * 2 ^ sh + of_nat c" by (simp add: x_def)
  ultimately have "(of_nat (x div 1000000000) * 1000000000 + of_nat (x mod 1000000000)) * wt r (a + n)
      = (of_nat (m (a + n)) * 2 ^ sh + of_nat c) * wt r (a + n)" by simp
  then have x: "of_nat (x div 1000000000) * (1000000000 * wt r (a + n)) + of_nat (x mod 1000000000) * wt r (a + n)
      = of_nat (m (a + n)) * 2 ^ sh * wt r (a + n) + of_nat c * wt r (a + n)"
    unfolding distrib_right by (simp only: mult.assoc)
  have "limbs_less m' a (a + Suc n)" using ih top by (auto simp: limbs_less_def less_Suc_eq)
  moreover have "\<forall>i. i < a \<or> a + Suc n \<le> i \<longrightarrow> m' i = m i" using ih by (simp add: m1_def)
  moreover have "lval r m' a (a + Suc n) + of_nat c' * (1000000000 * wt r a)
      = 2 ^ sh * lval r m a (a + Suc n) + of_nat c * (1000000000 * wt r (a + Suc n))"
  proof -
    have w: "1000000000 * wt r (a + Suc n) = wt r (a + n)" using wt_Suc [of r "a + n"] by simp
    have "lval r m' a (a + Suc n) = lval r m' a (a + n) + of_nat (x mod 1000000000) * wt r (a + n)"
      using lval_last [of a "a + n" r m'] top by simp
    moreover have "lval r m a (a + Suc n) = lval r m a (a + n) + of_nat (m (a + n)) * wt r (a + n)"
      using lval_last [of a "a + n" r m] by simp
    ultimately show ?thesis using ih x unfolding w m1 by (simp add: algebra_simps)
  qed
  ultimately show ?case by blast
qed (simp add: limbs_less_def)

lemma div_limbs_spec:
  assumes "div_limbs z sh m c n = (m', c')" "n \<le> z" "sh \<le> 9" "limbs_less m (z - n) z" "c \<le> (2 ^ sh - 1) * (1000000000 div 2 ^ sh)"
  shows "lval r m' (z - n) z + of_nat c' * wt r z = lval r m (z - n) z / 2 ^ sh + of_nat c * wt r (z - n)
    \<and> limbs_less m' (z - n) z \<and> (\<forall>i. i < z - n \<or> z \<le> i \<longrightarrow> m' i = m i)
    \<and> c' \<le> (2 ^ sh - 1) * (1000000000 div 2 ^ sh)
    \<and> (0 < n \<longrightarrow> m' (z - n) = m (z - n) div 2 ^ sh + c \<and> (c' = 0 \<longleftrightarrow> m (z - 1) mod 2 ^ sh = 0))
    \<and> (1 < n \<longrightarrow> m' (z - n + 1) = m (z - n + 1) div 2 ^ sh + 1000000000 div 2 ^ sh * (m (z - n) mod 2 ^ sh))
    \<and> (0 < n \<and> m (z - 1) \<noteq> 0 \<and> c' = 0 \<longrightarrow> m' (z - 1) \<noteq> 0)"
  using assms
proof (induction n arbitrary: m c)
  case (Suc n)
  define q :: nat where "q = 1000000000 div 2 ^ sh"
  define d where "d = z - Suc n"
  define v where "v = m d"
  define m1 where "m1 = m(d := v div 2 ^ sh + c)"
  define c1 where "c1 = q * (v mod 2 ^ sh)"
  have d: "Suc d = z - n" "d < z" using Suc.prems(2) by (simp_all add: d_def)
  have qd: "q * 2 ^ sh = 1000000000" unfolding q_def using pow2_dvd(2) [OF Suc.prems(3)] by (simp only: dvd_div_mult_self)
  then have q0: "0 < q" by (cases q) simp_all
  have r: "div_limbs z sh m1 c1 n = (m', c')" using Suc.prems(1) by (simp add: m1_def c1_def v_def q_def d_def Let_def)
  have less: "limbs_less m1 (z - n) z" using Suc.prems(4) d by (auto simp: limbs_less_def m1_def)
  have c1: "c1 \<le> (2 ^ sh - 1) * q"
  proof -
    have "v mod 2 ^ sh < 2 ^ sh" by simp
    then have "v mod 2 ^ sh \<le> 2 ^ sh - 1" by linarith
    then show ?thesis unfolding c1_def by (simp add: mult.commute [of q])
  qed
  note ih = Suc.IH [OF r _ Suc.prems(3) less c1 [unfolded q_def]]
  have n: "n \<le> z" using Suc.prems(2) by simp
  note ih = ih [OF n]
  have top: "m' d = v div 2 ^ sh + c" using ih d by (simp add: m1_def)
  have v: "v < q * 2 ^ sh" using limbs_lessD [OF Suc.prems(4), of d] d by (simp add: v_def d_def qd)
  have lt: "v div 2 ^ sh + c < 1000000000"
  proof -
    have "v div 2 ^ sh < q" using v by (simp add: less_mult_imp_div_less)
    then have "v div 2 ^ sh + c < q + (2 ^ sh - 1) * q" using Suc.prems(5) by (simp add: q_def)
    also have "\<dots> = q * 2 ^ sh" by (simp add: algebra_simps)
    finally show ?thesis unfolding qd .
  qed
  have m1: "lval r m1 (Suc d) z = lval r m (Suc d) z" by (rule lval_cong) (simp add: m1_def)
  have s: "lval r m' d z = of_nat (v div 2 ^ sh + c) * wt r d + lval r m' (Suc d) z"
    "lval r m d z = of_nat v * wt r d + lval r m (Suc d) z"
    using lval_first [OF d(2)] by (simp_all add: top v_def)
  have carry: "of_nat c1 * wt r (Suc d) = (of_nat (v mod 2 ^ sh) / 2 ^ sh) * wt r d"
  proof -
    have "(of_nat q * 2 ^ sh :: rat) = 1000000000" using arg_cong [OF qd, of "of_nat :: nat \<Rightarrow> rat"] by simp
    then have "(of_nat q :: rat) = 1000000000 / 2 ^ sh" by (simp add: field_simps)
    then show ?thesis unfolding c1_def wt_Suc [of r d] by simp
  qed
  have "(of_nat v :: rat) = of_nat (v div 2 ^ sh * 2 ^ sh + v mod 2 ^ sh)" by (simp only: div_mult_mod_eq)
  then have "(of_nat v :: rat) = of_nat (v div 2 ^ sh) * 2 ^ sh + of_nat (v mod 2 ^ sh)"
    by (simp only: of_nat_add of_nat_mult of_nat_power of_nat_numeral)
  then have vv: "of_nat (v div 2 ^ sh) + of_nat (v mod 2 ^ sh) / 2 ^ sh = (of_nat v / 2 ^ sh :: rat)" by (simp add: add_divide_distrib)
  have "lval r m' d z + of_nat c' * wt r z = lval r m d z / 2 ^ sh + of_nat c * wt r d"
  proof -
    have "lval r m' (Suc d) z + of_nat c' * wt r z = lval r m (Suc d) z / 2 ^ sh + of_nat c1 * wt r (Suc d)"
      using ih unfolding d(1) [symmetric] m1 by blast
    then have "lval r m' d z + of_nat c' * wt r z = of_nat c * wt r d + (of_nat (v div 2 ^ sh) + of_nat (v mod 2 ^ sh) / 2 ^ sh) * wt r d + lval r m (Suc d) z / 2 ^ sh"
      unfolding s(1) carry by (simp add: algebra_simps)
    then show ?thesis unfolding vv s(2) by (simp add: add_divide_distrib)
  qed
  moreover have "limbs_less m' d z"
  proof -
    have "limbs_less m' (Suc d) z" using ih unfolding d(1) by blast
    moreover have "i = d \<or> Suc d \<le> i" if "d \<le> i" for i using that by linarith
    ultimately show ?thesis using lt top unfolding limbs_less_def by metis
  qed
  moreover have "\<forall>i. i < d \<or> z \<le> i \<longrightarrow> m' i = m i" using ih d by (auto simp: m1_def)
  moreover have "c' = 0 \<longleftrightarrow> m (z - 1) mod 2 ^ sh = 0"
  proof (cases "n = 0")
    case True
    then have "c' = q * (m (z - 1) mod 2 ^ sh)" using r by (simp add: c1_def v_def d_def)
    then show ?thesis using q0 by simp
  next
    case False
    then have "z - 1 \<noteq> d" using Suc.prems(2) by (simp add: d_def)
    then have "m1 (z - 1) = m (z - 1)" by (simp add: m1_def)
    then show ?thesis using ih False by simp
  qed
  moreover have "1 < Suc n \<longrightarrow> m' (d + 1) = m (d + 1) div 2 ^ sh + q * (v mod 2 ^ sh)"
    using ih unfolding d(1) [symmetric] by (auto simp: m1_def c1_def)
  moreover have "m (z - 1) \<noteq> 0 \<and> c' = 0 \<longrightarrow> m' (z - 1) \<noteq> 0"
  proof (cases "n = 0")
    case True
    then have z1: "z - 1 = d" and c: "c' = q * (v mod 2 ^ sh)" using r by (simp_all add: d_def c1_def)
    have "v div 2 ^ sh \<noteq> 0" if "v \<noteq> 0" "v mod 2 ^ sh = 0" using that div_mult_mod_eq [of v "2 ^ sh"] by (metis mult_0 add_0)
    then show ?thesis using q0 unfolding z1 c top by (simp add: v_def)
  next
    case False
    then have "z - 1 \<noteq> d" using Suc.prems(2) by (simp add: d_def)
    then have "m1 (z - 1) = m (z - 1)" by (simp add: m1_def)
    then show ?thesis using ih False by simp
  qed
  ultimately show ?case using ih top unfolding d_def [symmetric] q_def [symmetric] v_def by simp
qed simp

subsection \<open>Expanding the significand\<close>

lemma quad_pow2_exact: "n \<le> 2 ^ 113 \<Longrightarrow> k \<le> 1000 \<Longrightarrow> fround quad s (of_nat n / 2 ^ k) = FNum s (of_nat n / 2 ^ k)"
proof -
  assume n: "n \<le> 2 ^ 113" "k \<le> 1000"
  have "of_nat n / 2 ^ k = of_int (int n) * (2 :: rat) powi (- int k)" by (simp add: power_int_minus divide_inverse)
  moreover have "int n \<le> 2 ^ 113" using n(1) by (metis of_nat_le_iff of_nat_numeral of_nat_power)
  ultimately show ?thesis using quad_pow_exact [of "int n" "- int k" s] n(2) by simp
qed

lemma wt_shift: "wt r i = wt (Suc r) i / 1000000000"
proof -
  have "9 * (int (Suc r) - int i) = 9 * (int r - int i) + 9" by simp
  then have "wt (Suc r) i = wt r i * 10 ^ 9" unfolding wt_def by (simp only: powi10_9)
  then show ?thesis by simp
qed

lemma lval_shift: "lval r m a z = lval (Suc r) m a z / 1000000000"
  by (simp add: lval_def wt_shift [of r] sum_divide_distrib)

lemma bin_frac:
  assumes "N \<le> 2 ^ 113" "k \<le> 84"
  shows "fsub quad (FNum False (of_nat N / 2 ^ k)) (of_intf quad (int (N div 2 ^ k))) = FNum False (of_nat (N mod 2 ^ k) / 2 ^ k)"
proof -
  let ?d = "N div 2 ^ k" and ?m = "N mod 2 ^ k"
  have d: "?d \<le> 2 ^ 113" using assms(1) div_le_dividend [of N "2 ^ k"] by linarith
  have of: "of_intf quad (int ?d) = FNum False (of_nat ?d)" using fround_quad_int [OF d, of False] by (simp add: of_intf_def)
  have "(of_nat N :: rat) = of_nat (?d * 2 ^ k + ?m)" by (simp only: div_mult_mod_eq)
  then have "(of_nat N :: rat) = of_nat ?d * 2 ^ k + of_nat ?m" by (simp only: of_nat_add of_nat_mult of_nat_power of_nat_numeral)
  then have N: "(of_nat N :: rat) / 2 ^ k = of_nat ?d + of_nat ?m / 2 ^ k" by (simp add: add_divide_distrib)
  have m: "?m \<le> 2 ^ 113" using assms(1) mod_less_eq_dividend [of N "2 ^ k"] by linarith
  show ?thesis
  proof (cases "?m = 0")
    case True
    then show ?thesis unfolding N of using fsub_self by simp
  next
    case False
    then have "(0 :: rat) < of_nat ?m / 2 ^ k" by simp
    then show ?thesis
      unfolding N of using fsub_same [of "of_nat ?d" "of_nat ?d + of_nat ?m / 2 ^ k" quad False] quad_pow2_exact [OF m, of k False] assms(2)
      by simp
  qed
qed

text \<open>The next limb: the rest of the fraction, times \<open>10 ^ 9\<close>.\<close>

lemma bin_shift:
  assumes "M < 2 ^ k" "k \<le> 84"
  defines "N' \<equiv> M * 5 ^ 9 * 2 ^ (9 - k)"
  shows "fmul quad (of_intf quad 1000000000) (FNum False (of_nat M / 2 ^ k)) = FNum False (of_nat N' / 2 ^ (k - 9))"
    and "N' \<le> 2 ^ 113" "N' < 1000000000 * 2 ^ (k - 9)" "of_nat N' / 2 ^ (k - 9) = 1000000000 * (of_nat M / 2 ^ k :: rat)"
proof -
  have e: "(9 - k) + k = 9 + (k - 9)" by simp
  have "(2 :: rat) ^ (9 - k) * 2 ^ k = 2 ^ 9 * 2 ^ (k - 9)" by (simp only: power_add [symmetric] e)
  then show v: "of_nat N' / 2 ^ (k - 9) = 1000000000 * (of_nat M / 2 ^ k :: rat)" by (simp add: N'_def field_simps)
  have "N' * 2 ^ k = M * (5 ^ 9 * (2 ^ (9 - k) * 2 ^ k))" by (simp add: N'_def)
  also have "\<dots> = M * (1000000000 * 2 ^ (k - 9))" by (simp only: power_add [symmetric] e) (simp add: power_add)
  also have "\<dots> < 2 ^ k * (1000000000 * 2 ^ (k - 9))" using assms(1) by (intro mult_strict_right_mono) simp_all
  finally have "N' * 2 ^ k < 1000000000 * 2 ^ (k - 9) * 2 ^ k" by (simp add: mult.commute)
  then show less: "N' < 1000000000 * 2 ^ (k - 9)" by simp
  have "(2 :: nat) ^ (k - 9) \<le> 2 ^ 75" by (rule power_increasing) (use assms(2) in simp_all)
  then show le: "N' \<le> 2 ^ 113" using less by simp
  have "of_intf quad 1000000000 = FNum False 1000000000" using fround_quad_int [of 1000000000 False] by (simp add: of_intf_def)
  then show "fmul quad (of_intf quad 1000000000) (FNum False (of_nat M / 2 ^ k)) = FNum False (of_nat N' / 2 ^ (k - 9))"
    using quad_pow2_exact [OF le, of "k - 9" False] assms(2) v by (simp add: fmul_def)
qed

lemma trunc_bin: "trunc (FNum False (of_nat N / 2 ^ k)) = int (N div 2 ^ k)"
  using floor_divide_of_nat_eq [of N "2 ^ k", where 'a = rat] by (simp add: trunc_def)

lemma expand_spec:
  assumes "N \<le> 2 ^ 113" "k \<le> 84" "N < 1000000000 * 2 ^ k" "bz b + (k + 8) div 9 < BIG"
  shows "\<exists>b'. expand (FNum False (of_nat N / 2 ^ k)) b = Some b' \<and> ba b' = ba b \<and> bz b < bz b' \<and> bz b' \<le> bz b + (k + 8) div 9 + 1
    \<and> (\<forall>i < bz b. bm b' i = bm b i) \<and> limbs_less (bm b') (bz b) (bz b') \<and> lval (bz b) (bm b') (bz b) (bz b') = of_nat N / 2 ^ k
    \<and> bm b' (bz b) = N div 2 ^ k \<and> (N \<noteq> 0 \<longrightarrow> bm b' (bz b' - 1) \<noteq> 0)"
  using assms
proof (induction k arbitrary: N b rule: less_induct)
  case (less k)
  define z where "z = bz b"
  define d where "d = N div 2 ^ k"
  define M where "M = N mod 2 ^ k"
  define b1 where "b1 = b \<lparr> bm := (bm b)(z := d), bz := z + 1 \<rparr>"
  have b1: "ba b1 = ba b" "bz b1 = Suc z" "bm b1 = (bm b)(z := d)" by (simp_all add: b1_def)
  have M: "M < 2 ^ k" by (simp add: M_def)
  note sh = bin_shift [OF M less.prems(2)]
  have "(of_nat N :: rat) = of_nat (d * 2 ^ k + M)" unfolding d_def M_def by (simp only: div_mult_mod_eq)
  then have N: "(of_nat N :: rat) / 2 ^ k = of_nat d + of_nat M / 2 ^ k" by (simp add: add_divide_distrib)
  have d: "d < 1000000000" using less.prems(3) by (simp add: d_def less_mult_imp_div_less)
  have dNM: "d \<noteq> 0" if "N \<noteq> 0" "M = 0" using that div_mult_mod_eq [of N "2 ^ k"] unfolding d_def M_def by (metis mult_0 add_0)
  define N' where "N' = M * 5 ^ 9 * 2 ^ (9 - k)"
  have zf: "fzero (FNum False (of_nat N' / 2 ^ (k - 9))) \<longleftrightarrow> M = 0" by (simp add: fzero_def N'_def)
  have step: "expand (FNum False (of_nat N / 2 ^ k)) b = (if M = 0 then Some b1 else expand (FNum False (of_nat N' / 2 ^ (k - 9))) b1)"
  proof -
    have y: "fmul quad (of_intf quad 1000000000) (fsub quad (FNum False (of_nat N / 2 ^ k)) (of_intf quad (int d))) = FNum False (of_nat N' / 2 ^ (k - 9))"
      using sh(1) bin_frac [OF less.prems(1,2)] unfolding N'_def M_def d_def by simp
    have tr: "trunc (FNum False (of_nat N / 2 ^ k)) = int d" unfolding d_def by (rule trunc_bin)
    have "z < BIG" using less.prems(4) by (simp add: z_def)
    then show ?thesis unfolding zf [symmetric] by (subst expand.simps) (simp add: Let_def tr y b1_def flip: z_def)
  qed
  show ?case
  proof (cases "M = 0")
    case True
    have "lval z (bm b1) z (Suc z) = of_nat d" using lval_last [of z z z "bm b1"] by (simp add: b1)
    then show ?thesis
      using step True b1 d N dNM unfolding z_def [symmetric] d_def [symmetric] by (simp add: limbs_less_def less_Suc_eq)
  next
    case False
    then have k0: "0 < k" using M by (cases k) auto
    then have "(k - 9 + 8) div 9 + 1 = (k + 8) div 9 \<or> k - 9 = 0 \<and> (k + 8) div 9 \<ge> 1" by (cases "9 \<le> k") (auto simp: le_div_geq)
    then have cnt: "(k - 9 + 8) div 9 + 1 \<le> (k + 8) div 9" by auto
    have "bz b1 + (k - 9 + 8) div 9 < BIG" using cnt less.prems(4) by (simp add: b1 z_def)
    have k9: "k - 9 < k" "k - 9 \<le> 84" using k0 less.prems(2) by linarith+
    from less.IH [OF k9(1) sh(2) [folded N'_def] k9(2) sh(3) [folded N'_def] \<open>bz b1 + _ < BIG\<close>]
    obtain b' where b': "expand (FNum False (of_nat N' / 2 ^ (k - 9))) b1 = Some b'" "ba b' = ba b" "Suc z < bz b'"
        "bz b' \<le> Suc z + (k - 9 + 8) div 9 + 1" "\<forall>i < Suc z. bm b' i = bm b1 i" "limbs_less (bm b') (Suc z) (bz b')"
        "lval (Suc z) (bm b') (Suc z) (bz b') = of_nat N' / 2 ^ (k - 9)" "N' \<noteq> 0 \<longrightarrow> bm b' (bz b' - 1) \<noteq> 0"
      unfolding b1(1,2) by auto
    have bz: "bm b' z = d" "\<forall>i < z. bm b' i = bm b i" using b'(5) by (simp_all add: b1(3))
    have "lval z (bm b') z (bz b') = of_nat N / 2 ^ k"
      using lval_first [of z "bz b'" z "bm b'"] lval_shift [of z "bm b'" "Suc z" "bz b'"] b'(3,7) sh(4) [folded N'_def] N by (simp add: bz)
    moreover have "limbs_less (bm b') z (bz b')" using b'(6) d bz(1) unfolding limbs_less_def by (metis Suc_leI le_neq_implies_less)
    moreover have "N' \<noteq> 0" using False by (simp add: N'_def)
    ultimately show ?thesis
      using step False b'(1-4,8) bz cnt unfolding z_def [symmetric] d_def [symmetric] by (intro exI [of _ b']) simp
  qed
qed

subsection \<open>Multiplying by a power of two\<close>

lemma trim_spec:
  "trim m a z \<le> z \<and> (\<forall>i. trim m a z \<le> i \<and> i < z \<longrightarrow> m i = 0) \<and> (z \<le> a \<longrightarrow> trim m a z = z)
    \<and> (a \<le> z \<longrightarrow> a \<le> trim m a z \<and> (a < trim m a z \<longrightarrow> m (trim m a z - 1) \<noteq> 0))"
  by (induction z) (auto simp: less_Suc_eq le_Suc_eq)

lemma trim_lead: "a < z \<Longrightarrow> m a \<noteq> 0 \<Longrightarrow> a < trim m a z"
  using trim_spec [of m a z] by (metis le_neq_implies_less less_imp_le order_refl)

lemma lval_trim: "a \<le> z \<Longrightarrow> lval r m a (trim m a z) = lval r m a z"
  using lval_split [of a "trim m a z" z r m] lval_zero [of "trim m a z" z m r] trim_spec [of m a z] by simp

text \<open>The leading limb is not zero, and the value of the limbs is \<open>V\<close>.\<close>

definition lnum :: "nat \<Rightarrow> big \<Rightarrow> rat \<Rightarrow> bool" where
  "lnum r b V \<longleftrightarrow> ba b < bz b \<and> bz b \<le> BIG \<and> limbs_less (bm b) (ba b) (bz b) \<and> bm b (ba b) \<noteq> 0 \<and> lval r (bm b) (ba b) (bz b) = V"

lemma lnum_ge: "lnum r b V \<Longrightarrow> wt r (ba b) \<le> V"
  using lval_lead [of "ba b" "bz b" "bm b" r] by (auto simp: lnum_def)

lemma lnum_less: "lnum r b V \<Longrightarrow> V < 1000000000 * wt r (ba b)"
  using lval_less [of "bm b" "ba b" "bz b" r] by (auto simp: lnum_def)

lemma lead_nonzero:
  assumes "limbs_less m a z" "a < z" "wt r a \<le> lval r m a z"
  shows "m a \<noteq> 0"
proof
  assume "m a = 0"
  then have "lval r m a z = lval r m (Suc a) z" using lval_first [OF assms(2), of r m] by simp
  also have "\<dots> < 1000000000 * wt r (Suc a)" by (rule lval_less) (rule limbs_less_sub [OF assms(1)], simp_all)
  finally show False using assms(3) wt_Suc [of r a] by simp
qed

lemma mul_step_spec:
  assumes "lnum r b V" "2 ^ sh * V < 1000000000 * wt r 0" "sh \<le> 29"
  shows "\<exists>b'. mul_step sh b = Some b' \<and> lnum r b' (2 ^ sh * V) \<and> bz b' \<le> bz b \<and> bm b' (bz b' - 1) \<noteq> 0
    \<and> (\<forall>i. bz b' \<le> i \<and> i < bz b \<longrightarrow> bm b' i = 0) \<and> (\<forall>i \<ge> bz b. bm b' i = bm b i)"
proof -
  define a where "a = ba b"
  define z where "z = bz b"
  have l: "a < z" "z \<le> BIG" "limbs_less (bm b) a z" "bm b a \<noteq> 0" "lval r (bm b) a z = V" using assms(1) by (simp_all add: lnum_def a_def z_def)
  obtain m c where m: "mul_limbs a sh (bm b) 0 (z - a) = (m, c)" by (cases "mul_limbs a sh (bm b) 0 (z - a)")
  have az: "a + (z - a) = z" using l(1) by simp
  have s: "lval r m a z + of_nat c * (1000000000 * wt r a) = 2 ^ sh * V" "limbs_less m a z" "\<forall>i. i < a \<or> z \<le> i \<longrightarrow> m i = bm b i"
    using mul_limbs_spec [OF m, of r] unfolding az l(5) by simp_all
  have Va: "wt r a \<le> V" using lnum_ge [OF assms(1)] by (simp add: a_def)
  then have V0: "0 \<le> V" using wt_pos [of r a] by linarith
  then have "1 * V \<le> 2 ^ sh * V" by (intro mult_right_mono) simp_all
  then have V: "wt r a \<le> 2 ^ sh * V" using Va by linarith
  show ?thesis
  proof (cases "c = 0")
    case True
    have ma: "m a \<noteq> 0" using s V l(1) True by (intro lead_nonzero [of m a z r]) simp_all
    define b' where "b' = b \<lparr> bm := m, bz := trim m a z \<rparr>"
    have b': "mul_step sh b = Some b'" using m True by (simp add: mul_step_def b'_def a_def z_def)
    note t = trim_spec [of m a z] trim_lead [of a z m, OF l(1) ma]
    have "lnum r b' (2 ^ sh * V)"
      using t s(1,2) l(1,2) True ma lval_trim [of a z r m] limbs_less_sub [OF s(2), of a "trim m a z"]
      by (simp add: lnum_def b'_def flip: a_def)
    then show ?thesis using b' t s(3) l(1) by (intro exI [of _ b']) (auto simp: b'_def simp flip: z_def)
  next
    case False
    have "of_nat 1 * (1000000000 * wt r a) \<le> of_nat c * (1000000000 * wt r a)" using False by (intro mult_right_mono of_nat_mono) simp_all
    also have "\<dots> \<le> 2 ^ sh * V" using s(1) lval_ge0 [of r m a z] by linarith
    finally have big: "1000000000 * wt r a \<le> 2 ^ sh * V" by simp
    have a0: "a \<noteq> 0"
    proof
      assume "a = 0"
      then show False using big assms(2) by simp
    qed
    have c: "c < 1000000000"
    proof -
      have "(2 :: rat) ^ sh \<le> 2 ^ 29" by (rule power_increasing) (use assms(3) in simp_all)
      then have sb: "(2 :: rat) ^ sh \<le> 1000000000" by simp
      have "V < 1000000000 * wt r a" using lnum_less [OF assms(1)] by (simp add: a_def)
      moreover have "of_nat c * (1000000000 * wt r a) \<le> 2 ^ sh * V" using s(1) lval_ge0 [of r m a z] by linarith
      moreover have "2 ^ sh * V \<le> 1000000000 * V" using sb V0 by (intro mult_right_mono)
      ultimately have "of_nat c * (1000000000 * wt r a) < 1000000000 * (1000000000 * wt r a)" by linarith
      then have "of_nat c < (1000000000 :: rat)" by (rule mult_right_less_imp_less) simp
      then have "of_nat c < (of_nat 1000000000 :: rat)" by simp
      then show ?thesis by (simp only: of_nat_less_iff)
    qed
    define m1 where "m1 = m(a - 1 := c)"
    define b' where "b' = b \<lparr> bm := m1, ba := a - 1, bz := trim m1 (a - 1) z \<rparr>"
    have bs: "big_set m (int a - 1) c = Some m1"
    proof -
      have i: "int a - 1 = int (a - 1)" using a0 by simp
      show ?thesis unfolding i big_set_def m1_def using l(1,2) by simp
    qed
    have b': "mul_step sh b = Some b'" using m False bs by (simp add: mul_step_def b'_def a_def z_def)
    have ma: "m1 (a - 1) \<noteq> 0" "a - 1 < z" using False l(1) by (simp_all add: m1_def)
    note t = trim_spec [of m1 "a - 1" z] trim_lead [of "a - 1" z m1, OF ma(2,1)]
    have less: "limbs_less m1 (a - 1) z"
      unfolding limbs_less_def
    proof (intro allI impI)
      fix i assume i: "a - 1 \<le> i \<and> i < z"
      show "m1 i < 1000000000"
      proof (cases "i = a - 1")
        case False
        then have "a \<le> i" using i by linarith
        then show ?thesis using limbs_lessD [OF s(2), of i] i False by (simp add: m1_def)
      qed (simp add: m1_def c)
    qed
    have "lval r m1 (a - 1) z = of_nat c * wt r (a - 1) + lval r m1 a z" using lval_first [OF ma(2), of r m1] a0 by (simp add: m1_def)
    also have "lval r m1 a z = lval r m a z" by (rule lval_cong) (use a0 in \<open>auto simp: m1_def\<close>)
    also have "wt r (a - 1) = 1000000000 * wt r a" using wt_Suc [of r "a - 1"] a0 by simp
    finally have "lval r m1 (a - 1) z = 2 ^ sh * V" using s(1) by simp
    then have "lnum r b' (2 ^ sh * V)"
      using t l(2) ma lval_trim [of "a - 1" z r m1] limbs_less_sub [OF less, of "a - 1" "trim m1 (a - 1) z"] by (simp add: lnum_def b'_def)
    moreover have "m1 i = bm b i" if "z \<le> i" for i using s(3) that l(1) by (auto simp: m1_def)
    ultimately show ?thesis using b' t by (intro exI [of _ b']) (auto simp: b'_def simp flip: z_def)
  qed
qed

lemma mul_loop_spec:
  assumes "lnum r b V" "2 ^ nat e2 * V < 1000000000 * wt r 0" "e2 \<le> 0 \<Longrightarrow> bm b (bz b - 1) \<noteq> 0"
  shows "\<exists>b'. mul_loop e2 b = Some b' \<and> lnum r b' (2 ^ nat e2 * V) \<and> bz b' \<le> bz b \<and> bm b' (bz b' - 1) \<noteq> 0
    \<and> (\<forall>i. bz b' \<le> i \<and> i < bz b \<longrightarrow> bm b' i = 0) \<and> (\<forall>i \<ge> bz b. bm b' i = bm b i)"
  using assms
proof (induction e2 b arbitrary: V rule: mul_loop.induct)
  case (1 e2 b)
  show ?case
  proof (cases "e2 > 0")
    case False
    then show ?thesis using "1.prems" by (subst mul_loop.simps) auto
  next
    case True
    define sh where "sh = min 29 e2"
    have sh: "0 < sh" "sh \<le> e2" "nat sh \<le> 29" "nat e2 = nat sh + nat (e2 - sh)" using True by (auto simp: sh_def)
    have V0: "0 \<le> V" using lnum_ge [OF "1.prems"(1)] wt_pos [of r "ba b"] by linarith
    have p: "(2 :: rat) ^ nat e2 * V = 2 ^ nat (e2 - sh) * (2 ^ nat sh * V)" unfolding sh(4) power_add by simp
    have "1 * (2 ^ nat sh * V) \<le> 2 ^ nat (e2 - sh) * (2 ^ nat sh * V)" using V0 by (intro mult_right_mono) simp_all
    then have b1: "2 ^ nat sh * V < 1000000000 * wt r 0" using "1.prems"(2) unfolding p by linarith
    obtain b1 where s: "mul_step (nat sh) b = Some b1" "lnum r b1 (2 ^ nat sh * V)" "bz b1 \<le> bz b" "bm b1 (bz b1 - 1) \<noteq> 0"
        "\<forall>i. bz b1 \<le> i \<and> i < bz b \<longrightarrow> bm b1 i = 0" "\<forall>i \<ge> bz b. bm b1 i = bm b i"
      using mul_step_spec [OF "1.prems"(1) b1 sh(3)] by blast
    obtain b' where b': "mul_loop (e2 - sh) b1 = Some b'" "lnum r b' (2 ^ nat e2 * V)" "bz b' \<le> bz b1" "bm b' (bz b' - 1) \<noteq> 0"
        "\<forall>i. bz b' \<le> i \<and> i < bz b1 \<longrightarrow> bm b' i = 0" "\<forall>i \<ge> bz b1. bm b' i = bm b1 i"
      using "1.IH" [OF True sh_def s(1) s(2)] "1.prems"(2) s(4) unfolding p by blast
    have "mul_loop e2 b = Some b'" using True s(1) b'(1) by (subst mul_loop.simps) (simp add: Let_def sh_def)
    moreover have "bm b' i = 0" if "bz b' \<le> i" "i < bz b" for i using that b'(5,6) s(5) by (cases "i < bz b1") auto
    moreover have "bm b' i = bm b i" if "bz b \<le> i" for i using that b'(6) s(3,6) by simp
    ultimately show ?thesis using b'(2-4) s(3) by (intro exI [of _ b']) auto
  qed
qed

subsection \<open>Dividing by a power of two\<close>

text \<open>
  The state of the second loop: the limbs stand for at most the exact number \<open>X\<close>, and what \<open>n\<close> steps
  have cut off is small, in absolute terms for \<^verbatim>\<open>%f\<close> and relative to \<open>X\<close> otherwise. With \<^verbatim>\<open>%f\<close> all limbs of a
  small number can be cut off; then the end lies before the first limb.
\<close>

definition cut_unit :: "int \<Rightarrow> rat" where
  "cut_unit p = wt 0 (nat (need p) - 1)"

definition dnum :: "bool \<Rightarrow> int \<Rightarrow> big \<Rightarrow> rat \<Rightarrow> nat \<Rightarrow> bool" where
  "dnum fixed p b X n \<longleftrightarrow> bz b \<le> BIG \<and> 0 < bz b \<and> limbs_less (bm b) (ba b) (bz b) \<and> bm b (ba b) \<noteq> 0 \<and> (\<forall>i < ba b. bm b i = 0)
     \<and> (fixed \<or> ba b < bz b) \<and> lval 0 (bm b) (ba b) (bz b) \<le> X
     \<and> X - lval 0 (bm b) (ba b) (bz b) \<le> of_nat n * cut_unit p * (if fixed then 1 else X)
     \<and> (ba b < bz b \<and> bm b (bz b - 1) \<noteq> 0 \<or> lval 0 (bm b) (ba b) (bz b) < X)
     \<and> (bz b \<le> ba b \<longrightarrow> int (bz b) \<le> need p)"

lemma need_ge: "0 \<le> p \<Longrightarrow> 6 \<le> need p"
  by (simp add: need_def)

lemma div_parts:
  assumes "div_limbs z sh m 0 (z - a) = (m', c)" "a < z" "0 < sh" "sh \<le> 9" "limbs_less m a z" "m a \<noteq> 0" "\<forall>i < a. m i = 0"
    and "a1 = (if m' a = 0 then a + 1 else a)" "z1 = (if c \<noteq> 0 then z + 1 else z)" "m1 = (if c \<noteq> 0 then m'(z := c) else m')"
  shows "a1 < z1" "limbs_less m1 a1 z1" "m1 a1 \<noteq> 0" "\<forall>i < a1. m1 i = 0" "lval r m1 a1 z1 = lval r m a z / 2 ^ sh"
    "m (z - 1) \<noteq> 0 \<Longrightarrow> m1 (z1 - 1) \<noteq> 0"
proof -
  have n: "z - (z - a) = a" "z - a \<le> z" "0 < z - a" using assms(2) by simp_all
  note d = div_limbs_spec [OF assms(1) n(2) assms(4) _ zero_le, of r, unfolded n(1), OF assms(5)]
  define q :: nat where "q = 1000000000 div 2 ^ sh"
  have qd: "q * 2 ^ sh = 1000000000" unfolding q_def using pow2_dvd(2) [OF assms(4)] by (simp only: dvd_div_mult_self)
  then have q0: "0 < q" by (cases q) simp_all
  have c: "c < 1000000000"
  proof -
    have "c \<le> (2 ^ sh - 1) * q" using d by (simp add: q_def)
    also have "\<dots> < 2 ^ sh * q" using q0 by (intro mult_strict_right_mono) simp_all
    finally show ?thesis using qd by (simp add: mult.commute)
  qed
  have ma: "m' a = m a div 2 ^ sh" using d n(3) by simp
  have drop: "m a mod 2 ^ sh = m a" if "m' a = 0" using that ma div_mult_mod_eq [of "m a" "2 ^ sh"] by simp
  have nxt: "a + 1 < z \<Longrightarrow> m' (a + 1) \<noteq> 0" "z = a + 1 \<Longrightarrow> c \<noteq> 0" if "m' a = 0"
  proof -
    show "m' (a + 1) \<noteq> 0" if "a + 1 < z" using d that drop [OF \<open>m' a = 0\<close>] assms(6) q0 by (simp add: q_def)
    show "c \<noteq> 0" if "z = a + 1" using d that drop [OF \<open>m' a = 0\<close>] assms(6) by simp
  qed
  show az: "a1 < z1" using assms(2,8,9) nxt by (cases "a + 1 < z") (auto split: if_splits)
  have low: "m' i = m i" if "i < a \<or> z \<le> i" for i using d that by blast
  show "m1 a1 \<noteq> 0"
  proof (cases "m' a = 0")
    case False
    then show ?thesis using assms(2,8,10) by auto
  next
    case True
    then show ?thesis using assms(2,8,10) nxt [OF True] by (cases "a + 1 = z") auto
  qed
  show "\<forall>i < a1. m1 i = 0" using assms(2,7,8,10) low by (auto simp: less_Suc_eq)
  have less': "limbs_less m' a z" using d by blast
  show "limbs_less m1 a1 z1"
    unfolding limbs_less_def
  proof (intro allI impI)
    fix i assume i: "a1 \<le> i \<and> i < z1"
    have "a \<le> i" using i assms(8) by (auto split: if_splits)
    show "m1 i < 1000000000"
    proof (cases "i < z")
      case True
      then show ?thesis using limbs_lessD [OF less' \<open>a \<le> i\<close>] assms(10) by simp
    next
      case False
      then have "i = z" "c \<noteq> 0" using i assms(9) by (auto split: if_splits)
      then show ?thesis using c assms(10) by simp
    qed
  qed
  have "lval r m1 a1 z1 = lval r m' a1 z + of_nat c * wt r z"
  proof (cases "c = 0")
    case False
    have "a1 \<le> z" using assms(2,8) by auto
    then have "lval r m1 a1 z1 = lval r m1 a1 z + of_nat c * wt r z" using False lval_last [of a1 z r m1] assms(9,10) by simp
    moreover have "lval r m1 a1 z = lval r m' a1 z" by (rule lval_cong) (use assms(10) in auto)
    ultimately show ?thesis by simp
  qed (use assms(9,10) in simp)
  moreover have "lval r m' a1 z = lval r m' a z" using lval_first [OF assms(2), of r m'] assms(8) by simp
  ultimately show "lval r m1 a1 z1 = lval r m a z / 2 ^ sh" using d by simp
  show "m1 (z1 - 1) \<noteq> 0" if "m (z - 1) \<noteq> 0"
    using d that n(3) assms(2,9,10) by auto
qed

text \<open>Cutting the limbs from \<open>k\<close> on.\<close>

lemma lval_cut:
  assumes "limbs_less m a z" "k < z" "0 < k"
  shows "lval r m a k \<le> lval r m a z" "lval r m a z - lval r m a k < wt r (k - 1)"
    "a < z \<Longrightarrow> m (z - 1) \<noteq> 0 \<Longrightarrow> lval r m a k < lval r m a z"
proof -
  have w: "1000000000 * wt r k = wt r (k - 1)" using wt_Suc [of r "k - 1"] assms(3) by simp
  have top: "0 < lval r m j z" if "j < z" "m (z - 1) \<noteq> 0" for j
  proof -
    have z: "z = Suc (z - 1)" "j \<le> z - 1" using that by simp_all
    have "lval r m j (Suc (z - 1)) = lval r m j (z - 1) + of_nat (m (z - 1)) * wt r (z - 1)" using z(2) by (rule lval_last)
    then have "lval r m j z = lval r m j (z - 1) + of_nat (m (z - 1)) * wt r (z - 1)" using z(1) by simp
    moreover have "0 < of_nat (m (z - 1)) * wt r (z - 1)" using that by (intro mult_pos_pos) simp_all
    ultimately show ?thesis using lval_ge0 [of r m j "z - 1"] by linarith
  qed
  show "lval r m a k \<le> lval r m a z" "lval r m a z - lval r m a k < wt r (k - 1)"
    "a < z \<Longrightarrow> m (z - 1) \<noteq> 0 \<Longrightarrow> lval r m a k < lval r m a z"
  proof -
    show "lval r m a k \<le> lval r m a z"
      using lval_split [of a k z r m] assms(2) by (cases "a \<le> k") simp_all
    show "lval r m a z - lval r m a k < wt r (k - 1)"
    proof (cases "a \<le> k")
      case True
      then have "lval r m a z - lval r m a k = lval r m k z" using lval_split [of a k z r m] assms(2) by simp
      also have "\<dots> < 1000000000 * wt r k" by (rule lval_less) (rule limbs_less_sub [OF assms(1) True], simp)
      finally show ?thesis unfolding w .
    next
      case False
      have "lval r m a z < 1000000000 * wt r a" by (rule lval_less) (rule assms(1))
      also have "\<dots> \<le> 1000000000 * wt r k" using wt_antimono [of k a r] False by simp
      finally show ?thesis using False unfolding w by simp
    qed
    assume a: "a < z" "m (z - 1) \<noteq> 0"
    show "lval r m a k < lval r m a z"
    proof (cases "a \<le> k")
      case True
      then have "lval r m a z = lval r m a k + lval r m k z" using lval_split [of a k z r m] assms(2) by simp
      then show ?thesis using top [OF assms(2) a(2)] by simp
    next
      case False
      then show ?thesis using top [OF a] by simp
    qed
  qed
qed

lemma cut_unit_pos: "0 < cut_unit p"
  by (simp add: cut_unit_def)

lemma dnum_scale: "0 < X \<Longrightarrow> 0 < (if fixed then 1 else X :: rat)"
  by simp

text \<open>What a step adds to the error.\<close>

lemma error_step:
  assumes "0 < X" "X - W \<le> of_nat n * u * (if fixed then 1 else X)" "0 \<le> u" "W1 = W / 2 ^ sh" "T \<le> u * (if fixed then 1 else X / 2 ^ sh)"
  shows "X / 2 ^ sh - (W1 - T) \<le> of_nat (Suc n) * u * (if fixed then 1 else X / (2 :: rat) ^ sh)"
proof -
  have p: "(1 :: rat) \<le> 2 ^ sh" by (rule one_le_power) simp
  have e: "X / 2 ^ sh - W1 = (X - W) / 2 ^ sh" unfolding assms(4) by (simp add: diff_divide_distrib)
  have "(X - W) / 2 ^ sh \<le> of_nat n * u * (if fixed then 1 else X) / 2 ^ sh" using assms(2) p by (intro divide_right_mono) simp_all
  also have "\<dots> \<le> of_nat n * u * (if fixed then 1 else X / 2 ^ sh)"
  proof (cases fixed)
    case True
    have "of_nat n * u / 2 ^ sh \<le> of_nat n * u / 1" using p assms(3) by (intro divide_left_mono) simp_all
    then show ?thesis using True by simp
  qed simp
  finally have "X / 2 ^ sh - (W1 - T) \<le> of_nat n * u * (if fixed then 1 else X / 2 ^ sh) + u * (if fixed then 1 else X / 2 ^ sh)"
    using assms(5) unfolding e [symmetric] by linarith
  then show ?thesis by (simp add: distrib_right)
qed

lemma div_step_spec:
  assumes D: "dnum fixed p b X n" and "0 \<le> p" "0 < sh" "sh \<le> 9" "bz b < BIG" "0 < X"
  shows "\<exists>b'. div_step 0 fixed p sh b = Some b' \<and> dnum fixed p b' (X / 2 ^ sh) (Suc n) \<and> bz b' \<le> bz b + 1"
proof -
  define a where "a = ba b"
  define z where "z = bz b"
  define m where "m = bm b"
  define S where "S = (if fixed then 1 else X / (2 :: rat) ^ sh)"
  have d: "z \<le> BIG" "0 < z" "limbs_less m a z" "m a \<noteq> 0" "\<forall>i < a. m i = 0" "fixed \<or> a < z" "lval 0 m a z \<le> X"
      "X - lval 0 m a z \<le> of_nat n * cut_unit p * (if fixed then 1 else X)" "a < z \<and> m (z - 1) \<noteq> 0 \<or> lval 0 m a z < X"
      "z \<le> a \<Longrightarrow> int z \<le> need p"
    using D by (simp_all add: dnum_def a_def z_def m_def)
  have u0: "0 \<le> cut_unit p" using cut_unit_pos [of p] by simp
  have X2: "0 < X / 2 ^ sh" using assms(6) by simp
  obtain m' c where r: "div_limbs z sh m 0 (z - a) = (m', c)" by (cases "div_limbs z sh m 0 (z - a)")
  show ?thesis
  proof (cases "a < z")
    case False
    then have f: "fixed" and zn: "int z \<le> need p" and mc: "m' = m" "c = 0" and W: "lval 0 m a z = 0" using d(6,10) r by simp_all
    have "div_step 0 fixed p sh b = Some b"
      using r mc d(4) f zn by (simp add: div_step_def a_def z_def m_def)
    moreover have "dnum fixed p b (X / 2 ^ sh) (Suc n)"
      using d f error_step [OF assms(6) d(8) u0 refl, of 0 sh] u0 X2 unfolding dnum_def a_def [symmetric] z_def [symmetric] m_def [symmetric] W
      by simp
    ultimately show ?thesis by simp
  next
    case True
    define a1 where "a1 = (if m' a = 0 then a + 1 else a)"
    define z1 where "z1 = (if c \<noteq> 0 then z + 1 else z)"
    define m1 where "m1 = (if c \<noteq> 0 then m'(z := c) else m')"
    note P = div_parts [OF r True assms(3,4) d(3,4,5) a1_def z1_def m1_def]
    define W1 where "W1 = lval 0 m a z / 2 ^ sh"
    have W1: "lval 0 m1 a1 z1 = W1" unfolding W1_def by (rule P(5))
    define k where "k = (if fixed then 0 else a1) + nat (need p)"
    have np: "6 \<le> need p" using need_ge [OF assms(2)] .
    define z2 where "z2 = (if k < z1 then k else z1)"
    define b' where "b' = b \<lparr> bm := m1, ba := a1, bz := z2 \<rparr>"
    have z1: "z1 \<le> BIG" "z1 \<le> z + 1" using assms(5) by (simp_all add: z1_def z_def)
    have z2: "(if int z1 - int (if fixed then 0 else a1) > need p then (if fixed then 0 else a1) + nat (need p) else z1) = z2"
      using np by (auto simp: z2_def k_def)
    have bs: "(if c \<noteq> 0 then (case big_set m' (int z) c of None \<Rightarrow> None | Some m'' \<Rightarrow> Some (m'', z + 1)) else Some (m', z)) = Some (m1, z1)"
      using assms(5) by (simp add: big_set_def m1_def z1_def flip: z_def)
    have step: "div_step 0 fixed p sh b = Some b'"
      unfolding div_step_def Let_def a_def [symmetric] z_def [symmetric] m_def [symmetric] r prod.case bs option.case a1_def [symmetric] z2 b'_def ..
    have W1X: "W1 \<le> X / 2 ^ sh" unfolding W1_def using d(7) by (intro divide_right_mono) simp_all
    define T where "T = W1 - lval 0 m1 a1 z2"
    have k0: "0 < k" using np by (simp add: k_def)
    have T: "0 \<le> T" "T \<le> cut_unit p * S" "k < z1 \<Longrightarrow> m1 (z1 - 1) \<noteq> 0 \<Longrightarrow> 0 < T"
    proof -
      show "0 \<le> T" using lval_cut(1) [OF P(2) _ k0, of 0] by (auto simp: T_def z2_def W1)
      show "0 < T" if "k < z1" "m1 (z1 - 1) \<noteq> 0" using lval_cut(3) [OF P(2) that(1) k0 P(1) that(2), of 0] that by (simp add: T_def z2_def W1)
      show "T \<le> cut_unit p * S"
      proof (cases "k < z1")
        case False
        then show ?thesis using u0 X2 by (simp add: T_def z2_def W1 S_def)
      next
        case True
        have t: "T < wt 0 (k - 1)" using lval_cut(2) [OF P(2) True k0, of 0] True by (simp add: T_def z2_def W1)
        show ?thesis
        proof (cases fixed)
          case True
          then show ?thesis using t by (simp add: k_def S_def cut_unit_def)
        next
          case False
          have "wt 0 (k - 1) = wt 0 a1 * cut_unit p"
          proof -
            have e: "9 * (int 0 - int (k - 1)) = 9 * (int 0 - int a1) + 9 * (int 0 - int (nat (need p) - 1))"
              using False np by (simp add: k_def of_nat_diff)
            show ?thesis unfolding wt_def cut_unit_def e powi10_add ..
          qed
          moreover have "wt 0 a1 \<le> X / 2 ^ sh" using lval_lead [of a1 z1 m1, OF P(1,3), of 0] W1 W1X by linarith
          then have "wt 0 a1 * cut_unit p \<le> X / 2 ^ sh * cut_unit p" using u0 by (rule mult_right_mono)
          ultimately show ?thesis using t False by (simp add: S_def mult.commute)
        qed
      qed
    qed
    have W2: "lval 0 m1 a1 z2 = W1 - T" by (simp add: T_def)
    have "dnum fixed p b' (X / 2 ^ sh) (Suc n)"
    proof -
      have "X / 2 ^ sh - lval 0 m1 a1 z2 \<le> of_nat (Suc n) * cut_unit p * (if fixed then 1 else X / 2 ^ sh)"
        unfolding W2 by (rule error_step [OF assms(6) d(8) u0 W1_def]) (use T(2) in \<open>simp only: S_def\<close>)
      moreover have "a1 < z2 \<and> m1 (z2 - 1) \<noteq> 0 \<or> lval 0 m1 a1 z2 < X / 2 ^ sh"
      proof (cases "m (z - 1) \<noteq> 0")
        case True
        show ?thesis
        proof (cases "k < z1")
          case False
          then show ?thesis using P(1,6) True by (simp add: z2_def)
        next
          case True
          then have "0 < T" using T(3) P(6) \<open>m (z - 1) \<noteq> 0\<close> by blast
          then show ?thesis using W2 W1X by linarith
        qed
      next
        case False
        then have "lval 0 m a z < X" using d(9) by blast
        then have "W1 < X / 2 ^ sh" unfolding W1_def by (intro divide_strict_right_mono) simp_all
        then show ?thesis using W2 T(1) by linarith
      qed
      moreover have "lval 0 m1 a1 z2 \<le> X / 2 ^ sh" using W2 T(1) W1X by linarith
      moreover have "limbs_less m1 a1 z2" by (rule limbs_less_sub [OF P(2)]) (simp_all add: z2_def)
      moreover have "fixed \<or> a1 < z2" using np P(1) by (auto simp: z2_def k_def)
      moreover have "z2 \<le> a1 \<longrightarrow> int z2 \<le> need p" using P(1) np by (auto simp: z2_def k_def split: if_splits)
      moreover have "z2 \<le> BIG" "0 < z2" using z1 P(1) k0 by (simp_all add: z2_def)
      ultimately show ?thesis using P(3,4) by (simp add: dnum_def b'_def)
    qed
    moreover have "bz b' \<le> bz b + 1" using z1(2) by (simp add: b'_def z2_def z_def)
    ultimately show ?thesis using step by blast
  qed
qed

lemma div_loop_spec:
  assumes "dnum fixed p b X n" "0 \<le> p" "0 < X" "bz b + nat ((8 - e2) div 9) \<le> BIG"
  shows "\<exists>b'. divide_loop 0 fixed p e2 b = Some b' \<and> dnum fixed p b' (X / 2 ^ nat (- e2)) (n + nat ((8 - e2) div 9))"
  using assms
proof (induction "nat (- e2)" arbitrary: e2 b X n rule: less_induct)
  case less
  show ?case
  proof (cases "e2 < 0")
    case False
    then have "nat ((8 - e2) div 9) = 0" by simp
    then show ?thesis using False less.prems by (subst divide_loop.simps) simp
  next
    case True
    define sh where "sh = min 9 (- e2)"
    have sh: "0 < sh" "sh \<le> 9" "sh \<le> - e2" using True by (auto simp: sh_def)
    have c: "nat ((8 - e2) div 9) = Suc (nat ((8 - (e2 + sh)) div 9))" using True by (auto simp: sh_def min_def)
    obtain b1 where b1: "div_step 0 fixed p (nat sh) b = Some b1" "dnum fixed p b1 (X / 2 ^ nat sh) (Suc n)" "bz b1 \<le> bz b + 1"
    proof -
      have "0 < nat sh" "nat sh \<le> 9" "bz b < BIG" using sh less.prems(4) c by linarith+
      then show ?thesis using that div_step_spec [OF less.prems(1,2) _ _ _ less.prems(3), of "nat sh"] by blast
    qed
    obtain b' where b': "divide_loop 0 fixed p (e2 + sh) b1 = Some b'"
        "dnum fixed p b' (X / 2 ^ nat sh / 2 ^ nat (- (e2 + sh))) (Suc n + nat ((8 - (e2 + sh)) div 9))"
    proof -
      have "nat (- (e2 + sh)) < nat (- e2)" "0 < X / 2 ^ nat sh" "bz b1 + nat ((8 - (e2 + sh)) div 9) \<le> BIG"
        using sh True less.prems(3,4) b1(3) c by simp_all
      then show ?thesis using that less.hyps [of "e2 + sh" b1 "X / 2 ^ nat sh" "Suc n"] b1(2) less.prems(2) by blast
    qed
    have "nat (- e2) = nat sh + nat (- (e2 + sh))" using sh by simp
    then have X: "X / 2 ^ nat sh / 2 ^ nat (- (e2 + sh)) = X / 2 ^ nat (- e2)" by (simp only: power_add divide_divide_eq_left)
    have "divide_loop 0 fixed p e2 b = Some b'" using True b1(1) b'(1) by (subst divide_loop.simps) (simp add: Let_def sh_def)
    then show ?thesis using b'(2) unfolding X c by simp
  qed
qed

subsection \<open>The limbs of a number\<close>

text \<open>What holds of the limbs of \<open>V\<close> before rounding.\<close>

definition limbs_for :: "nat \<Rightarrow> bool \<Rightarrow> int \<Rightarrow> big \<Rightarrow> rat \<Rightarrow> bool" where
  "limbs_for r fixed p b V \<longleftrightarrow> bz b \<le> BIG \<and> 0 < bz b \<and> limbs_less (bm b) (ba b) (bz b) \<and> bm b (ba b) \<noteq> 0 \<and> (fixed \<or> ba b < bz b)
     \<and> lval r (bm b) (ba b) (bz b) \<le> V
     \<and> V - lval r (bm b) (ba b) (bz b) \<le> 1836 * cut_unit p * (if fixed then 1 else V)
     \<and> (ba b < bz b \<and> bm b (bz b - 1) \<noteq> 0 \<or> lval r (bm b) (ba b) (bz b) < V)
     \<and> (bz b \<le> ba b \<longrightarrow> int (bz b) \<le> need p)
     \<and> (\<forall>i. bz b \<le> i \<and> i \<le> r \<longrightarrow> bm b i = 0) \<and> (\<forall>i. r \<le> i \<and> i < ba b \<longrightarrow> bm b i = 0)
     \<and> (r = 0 \<and> V < 2 ^ 28 \<or> 0 < ba b \<and> ba b \<le> r \<and> ba b < bz b)"

text \<open>The significand times \<open>2 ^ 28\<close>, as a fraction with few binary places.\<close>

lemma significand_28:
  assumes "in_fmt quad V" "0 < V" "V < 2 powi maxexp quad"
  defines "e \<equiv> rexp V"
  obtains N k where "fmul quad (fmul quad (FNum False (V / 2 powi (e + 1))) (FNum False 2)) (FNum False (2 ^ 28)) = FNum False (of_nat N / 2 ^ k)"
    "V = of_nat N / 2 ^ k * 2 powi (e - 28)" "N \<le> 2 ^ 113" "k \<le> 84" "N < 1000000000 * 2 ^ k" "N div 2 ^ k \<noteq> 0" "of_nat N / 2 ^ k < (2 ^ 29 :: rat)"
    "k = 0 \<or> int k \<le> e - 28 + 16494" "-16494 \<le> e" "e < 16384"
proof -
  note b = rexp_bounds [OF assms(2), folded e_def]
  obtain n f where n: "V = of_int n * 2 powi f" "0 \<le> n" "n < 2 ^ 113" "-16494 \<le> f" using assms(1) by (auto simp: in_fmt_def)
  obtain M where M: "fmul quad (FNum False (V / 2 powi (e + 1))) (FNum False 2) = FNum False (of_nat M / 16 ^ 28)"
    "V = of_nat M / 16 ^ 28 * 2 powi e" "16 ^ 28 \<le> M" "M < 2 * 16 ^ 28"
    by (rule significand [OF assms(1-3), folded e_def])
  define k where "k = nat (e - 28 - f)"
  define N where "N = nat n * 2 ^ nat (f + 28 - e)"
  have "(2 :: rat) ^ nat (f + 28 - e) * 2 powi (e - 28 - f) = 2 ^ k"
  proof (cases "0 \<le> e - 28 - f")
    case True
    then show ?thesis by (simp add: k_def power_int_def)
  next
    case False
    have "(2 :: rat) ^ nat (f + 28 - e) * 2 powi (e - 28 - f) = 2 powi int (nat (f + 28 - e)) * 2 powi (e - 28 - f)" by (simp only: power_int_of_nat)
    also have "\<dots> = 2 powi (int (nat (f + 28 - e)) + (e - 28 - f))" by (rule powi_plus [symmetric])
    finally show ?thesis using False by (simp add: k_def)
  qed
  moreover have "(of_nat N :: rat) = of_int n * 2 ^ nat (f + 28 - e)" using n(2) by (simp add: N_def)
  ultimately have Nk: "(of_nat N :: rat) * 2 powi (e - 28 - f) = of_int n * 2 ^ k" by (simp add: mult.assoc)
  have f: "(2 :: rat) powi (e - 28) = 2 powi (e - 28 - f) * 2 powi f" by (simp add: powi_plus [symmetric])
  have V: "V = of_nat N / 2 ^ k * 2 powi (e - 28)" unfolding f n(1) using Nk by (simp add: field_simps)
  have y: "of_nat N / 2 ^ k = V / 2 powi e * (2 :: rat) ^ 28" unfolding V by (simp add: powi_minus)
  have lo: "(1 :: rat) \<le> V / 2 powi e" and hi: "V / 2 powi e < (2 :: rat)" using b by (simp_all add: powi_plus field_simps)
  have yb: "(2 :: rat) ^ 28 \<le> of_nat N / 2 ^ k" "of_nat N / 2 ^ k < (2 :: rat) ^ 29"
    unfolding y using mult_right_mono [OF lo, of "2 ^ 28"] mult_strict_right_mono [OF hi, of "2 ^ 28"] by simp_all
  have "(of_nat (2 ^ 28 * 2 ^ k) :: rat) \<le> of_nat N" "(of_nat N :: rat) < of_nat (2 ^ 29 * 2 ^ k)" using yb by (simp_all add: field_simps)
  then have Nb: "2 ^ 28 * 2 ^ k \<le> N" "N < 2 ^ 29 * 2 ^ k" by (simp_all only: of_nat_le_iff of_nat_less_iff)
  have k84: "k \<le> 84"
  proof (cases "k = 0")
    case False
    then have "N = nat n" by (simp add: N_def k_def)
    moreover have "nat n < 2 ^ 113" using n(2,3) by (simp add: nat_less_iff)
    ultimately have "(2 :: nat) ^ (28 + k) < 2 ^ 113" using Nb(1) by (simp add: power_add)
    then have "28 + k < 113" by (rule power_less_imp_less_exp [rotated]) simp
    then show ?thesis by simp
  qed simp
  have pk: "(2 :: nat) ^ k \<le> 2 ^ 84" using k84 by (intro power_increasing) simp_all
  have N113: "N \<le> 2 ^ 113" using Nb(2) pk by simp
  have e: "-16494 \<le> e" "e < 16384"
  proof -
    have "0 < (of_int n :: rat)" using assms(2) n(1) powi_pos [of f] by (simp add: zero_less_mult_iff)
    then have "1 * 2 powi f \<le> of_int n * (2 :: rat) powi f" using powi_pos [of f] by (intro mult_right_mono) simp_all
    then have "2 powi f < (2 :: rat) powi (e + 1)" using b(2) n(1) by linarith
    then show "-16494 \<le> e" using n(4) unfolding powi_less_iff by simp
    have "(2 :: rat) powi e < 2 powi maxexp quad" using b(1) assms(3) by linarith
    then show "e < 16384" unfolding powi_less_iff by (simp add: quad_def)
  qed
  have "of_nat M / 16 ^ 28 = V / 2 powi e" using M(2) by simp
  then have My: "of_nat M / 16 ^ 28 * 2 ^ 28 = (of_nat N / 2 ^ k :: rat)" unfolding y by simp
  have "fmul quad (FNum False (of_nat M / 16 ^ 28)) (FNum False (2 ^ 28)) = FNum False (of_nat N / 2 ^ k)"
    unfolding fmul_def prod.case fp.case My using quad_pow2_exact [OF N113, of k False] k84 by simp
  moreover have "N div 2 ^ k \<noteq> 0" using Nb(1) by (simp add: div_eq_0_iff)
  moreover have "k = 0 \<or> int k \<le> e - 28 + 16494" using n(4) by (auto simp: k_def)
  moreover have "N < 1000000000 * 2 ^ k" using Nb(2) by simp
  ultimately show ?thesis using that [OF _ V N113 k84 _ _ yb(2) _ e] unfolding M(1) by blast
qed

lemma wt_large: "(2 :: rat) powi 16384 \<le> wt 1728 0"
proof -
  have "(2 :: rat) powi 16384 \<le> 2 powi (3 * 15552)" by (rule powi_mono) simp
  also have "\<dots> \<le> 10 powi 15552" by (rule powi10_ge) simp
  also have "\<dots> = wt 1728 0" unfolding wt_def by (rule arg_cong [where f = "power_int 10"]) simp
  finally show ?thesis .
qed

lemma limbs_of_spec:
  assumes V: "V = of_nat N / 2 ^ k * 2 powi e2" "N \<le> 2 ^ 113" "k \<le> 84" "N < 1000000000 * 2 ^ k" "N div 2 ^ k \<noteq> 0"
    "of_nat N / 2 ^ k < (2 ^ 29 :: rat)" "k = 0 \<or> int k \<le> e2 + 16494" "-16522 \<le> e2" "e2 \<le> 16355" "0 \<le> p"
    and r: "r = (if e2 < 0 then 0 else BIG - 113 - 1)"
  shows "\<exists>b. limbs_of u (FNum False (of_nat N / 2 ^ k)) e2 r fixed p = Some b \<and> limbs_for r fixed p b V"
proof -
  have kd: "(k + 8) div 9 \<le> 10" using V(3) by simp
  have "bz \<lparr> bm = u, ba = r, bz = r \<rparr> + (k + 8) div 9 < BIG" using kd r by simp
  from expand_spec [OF V(2-4) this] V(5) obtain b0 where b0: "expand (FNum False (of_nat N / 2 ^ k)) \<lparr> bm = u, ba = r, bz = r \<rparr> = Some b0"
      "ba b0 = r" "r < bz b0" "bz b0 \<le> r + (k + 8) div 9 + 1" "limbs_less (bm b0) r (bz b0)"
      "lval r (bm b0) r (bz b0) = of_nat N / 2 ^ k" "bm b0 r \<noteq> 0" "bm b0 (bz b0 - 1) \<noteq> 0" by auto
  have zB: "bz b0 \<le> BIG" using b0(4) kd r by (simp split: if_splits)
  have l0: "lnum r b0 (of_nat N / 2 ^ k)" using b0 zB by (simp add: lnum_def)
  have y0: "(0 :: rat) < of_nat N / 2 ^ k" using lnum_ge [OF l0] wt_pos [of r "ba b0"] by linarith
  show ?thesis
  proof (cases "e2 < 0")
    case True
    then have r0: "r = 0" using r by simp
    have m: "mul_loop e2 b0 = Some b0" using True by (subst mul_loop.simps) simp
    have d0: "dnum fixed p b0 (of_nat N / 2 ^ k) 0" using b0 zB by (simp add: dnum_def r0)
    have "(int k + 8) div 9 + (8 - e2) div 9 \<le> 1841"
    proof (cases "k = 0")
      case True
      then show ?thesis using V(8) by simp
    next
      case False
      then show ?thesis using V(7) by linarith
    qed
    moreover have "int (bz b0) \<le> (int k + 8) div 9 + 1" using b0(4) r0 zdiv_int [of "k + 8" 9] by simp
    ultimately have "bz b0 + nat ((8 - e2) div 9) \<le> BIG" using True by linarith
    from div_loop_spec [OF d0 V(10) y0 this] obtain b where b: "divide_loop 0 fixed p e2 b0 = Some b"
        "dnum fixed p b (of_nat N / 2 ^ k / 2 ^ nat (- e2)) (nat ((8 - e2) div 9))" by auto
    have VX: "of_nat N / 2 ^ k / 2 ^ nat (- e2) = V"
    proof -
      have "(2 :: rat) powi e2 = 1 / 2 ^ nat (- e2)" using True by (simp add: power_int_def power_one_over)
      then show ?thesis by (simp add: V(1))
    qed
    have V0: "0 < V" unfolding V(1) using y0 powi_pos [of e2] by (rule mult_pos_pos)
    have Vs: "V < 2 ^ 28"
    proof -
      have "(2 :: rat) powi e2 \<le> 2 powi (-1)" using True by (intro powi_mono) simp
      then have "V \<le> of_nat N / 2 ^ k * 2 powi (-1)" unfolding V(1) using y0 by (intro mult_left_mono) simp_all
      also have "\<dots> < 2 ^ 29 * 2 powi (-1)" using V(6) by (intro mult_strict_right_mono powi_pos)
      finally show ?thesis by (simp add: power_int_minus)
    qed
    have n: "nat ((8 - e2) div 9) \<le> 1836" using V(8) by simp
    have "of_nat (nat ((8 - e2) div 9)) * cut_unit p * (if fixed then 1 else V) \<le> 1836 * cut_unit p * (if fixed then 1 else V)"
      using V0 cut_unit_pos [of p] of_nat_mono [OF n, where 'a = rat] by (intro mult_right_mono) simp_all
    then have "limbs_for 0 fixed p b V" using b(2) Vs unfolding VX dnum_def limbs_for_def by auto
    moreover have "limbs_of u (FNum False (of_nat N / 2 ^ k)) e2 0 fixed p = Some b"
      using b0(1) m b(1) True unfolding r0 limbs_of_def by simp
    ultimately show ?thesis unfolding r0 by blast
  next
    case False
    then have r1: "r = 1728" using r by simp
    have p2: "2 ^ nat e2 * (of_nat N / 2 ^ k) = V" using False by (simp add: V(1) power_int_def)
    have Vb: "V < 2 powi 16384"
    proof -
      have "(2 :: rat) powi e2 \<le> 2 powi 16355" using V(9) by (intro powi_mono)
      then have "V \<le> of_nat N / 2 ^ k * 2 powi 16355" unfolding V(1) using y0 by (intro mult_left_mono) simp_all
      also have "\<dots> < 2 ^ 29 * 2 powi 16355" using V(6) by (intro mult_strict_right_mono powi_pos)
      also have "2 ^ 29 * 2 powi 16355 = (2 :: rat) powi (29 + 16355)" unfolding powi_plus power_int_numeral ..
      also have "(29 + 16355 :: int) = 16384" by simp
      finally show ?thesis .
    qed
    have V0: "V < wt 1728 0" using Vb wt_large by (rule order_less_le_trans)
    have "2 ^ k \<le> N" using V(5) by (simp add: div_eq_0_iff)
    from of_nat_mono [OF this, where 'a = rat] have y1: "1 \<le> (of_nat N / 2 ^ k :: rat)" by (simp add: le_divide_eq)
    have V1: "1 \<le> V" unfolding p2 [symmetric] using y1 mult_mono [of 1 "2 ^ nat e2" 1 "of_nat N / 2 ^ k :: rat"] by simp
    have "2 ^ nat e2 * (of_nat N / 2 ^ k) < 1000000000 * wt r 0" unfolding p2 r1 using V0 wt_pos [of 1728 0] by linarith
    from mul_loop_spec [OF l0 this b0(8)] obtain b1 where b1: "mul_loop e2 b0 = Some b1" "lnum r b1 V" "bz b1 \<le> bz b0"
      "bm b1 (bz b1 - 1) \<noteq> 0" "\<forall>i. bz b1 \<le> i \<and> i < bz b0 \<longrightarrow> bm b1 i = 0" unfolding p2 by blast
    have a0: "0 < ba b1" using lnum_ge [OF b1(2)] V0 r1 by (cases "ba b1") auto
    have ar: "ba b1 \<le> r"
    proof (rule ccontr)
      assume "\<not> ba b1 \<le> r"
      then have "wt r (ba b1) \<le> wt r (Suc r)" by (intro wt_antimono) simp
      then show False using lnum_less [OF b1(2)] V1 wt_Suc [of r r] by simp
    qed
    have "0 \<le> 1836 * cut_unit p * (if fixed then 1 else V)" using cut_unit_pos [of p] V1 by simp
    then have "limbs_for r fixed p b1 V" using b1(2-5) b0(3) a0 ar unfolding lnum_def limbs_for_def by auto
    moreover have "divide_loop r fixed p (min e2 0) b1 = Some b1" using False by (subst divide_loop.simps) simp
    ultimately show ?thesis using b0(1) b1(1) unfolding limbs_of_def by simp
  qed
qed

end
