(* ===== verification/FmtRound.thy ===== *)
theory FmtRound
  imports FmtDec
begin

text \<open>
  \<^verbatim>\<open>%e\<close> of \<^verbatim>\<open>fmt_fp\<close>: the decimal exponent and the rounding of the limbs, the text that is put out, and what
  \<^verbatim>\<open>strtod\<close> makes of it.
\<close>

subsection \<open>The decimal exponent\<close>

lemma count_up_spec:
  assumes "0 < i" "i \<le> 10 * v"
  shows "\<exists>n. count_up v i e = e + int n \<and> i * 10 ^ n \<le> 10 * v \<and> v < i * 10 ^ n"
  using assms
proof (induction "v + 1 - i" arbitrary: i e rule: less_induct)
  case less
  show ?case
  proof (cases "i \<le> v")
    case True
    have "\<exists>n. count_up v (i * 10) (e + 1) = e + 1 + int n \<and> i * 10 * 10 ^ n \<le> 10 * v \<and> v < i * 10 * 10 ^ n"
      by (rule less.hyps) (use True less.prems in auto)
    then obtain n where "count_up v (i * 10) (e + 1) = e + 1 + int n" "i * 10 ^ Suc n \<le> 10 * v" "v < i * 10 ^ Suc n"
      by (auto simp: mult.assoc)
    then show ?thesis using True less.prems by (subst count_up.simps) (intro exI [of _ "Suc n"], simp)
  next
    case False
    then show ?thesis using less.prems by (subst count_up.simps) (intro exI [of _ 0], simp)
  qed
qed

lemma powi10_plus: "(10 :: rat) powi (a + b) = 10 powi a * 10 powi b"
  by (rule power_int_add) simp

lemma powi10_less_iff: "(10 :: rat) powi a < 10 powi b \<longleftrightarrow> a < b"
proof
  assume a: "(10 :: rat) powi a < 10 powi b"
  show "a < b"
  proof (rule ccontr)
    assume "\<not> a < b"
    then have "(10 :: rat) powi b \<le> 10 powi a" by (intro power_int_increasing) simp_all
    then show False using a by simp
  qed
qed (rule power_int_strict_increasing, simp_all)

lemma powi10_between:
  assumes "(10 :: rat) powi a \<le> x" "x < 10 powi (a + 1)" "(10 :: rat) powi b \<le> x" "x < 10 powi (b + 1)"
  shows "a = b"
proof -
  have "(10 :: rat) powi a < 10 powi (b + 1)" "(10 :: rat) powi b < 10 powi (a + 1)" using assms by linarith+
  then show ?thesis unfolding powi10_less_iff by simp
qed

text \<open>The exponent of the leading digit of the limbs from \<open>a\<close> to \<open>z\<close>.\<close>

lemma dec_exponent_spec:
  assumes "limbs_less (bm b) (ba b) z" "ba b < z" "bm b (ba b) \<noteq> 0"
  obtains k where "dec_exponent r b = 9 * (int r - int (ba b)) + int k" "k \<le> 8" "10 ^ k \<le> bm b (ba b)" "bm b (ba b) < 10 ^ Suc k"
    "10 powi dec_exponent r b \<le> lval r (bm b) (ba b) z" "lval r (bm b) (ba b) z < 10 powi (dec_exponent r b + 1)"
proof -
  define v where "v = bm b (ba b)"
  have v0: "0 < v" "v < 1000000000" using assms limbs_lessD [OF assms(1), of "ba b"] by (simp_all add: v_def)
  obtain k where k: "count_up v 10 (9 * (int r - int (ba b))) = 9 * (int r - int (ba b)) + int k" "10 * 10 ^ k \<le> 10 * v" "v < 10 * 10 ^ k"
    using count_up_spec [of 10 v] v0 by auto
  have e: "dec_exponent r b = 9 * (int r - int (ba b)) + int k" using k(1) by (simp add: dec_exponent_def v_def)
  have "(10 :: nat) ^ k < 10 ^ 9" using k(2) v0(2) by simp
  then have k8: "k \<le> 8" using power_less_imp_less_exp [of "10 :: nat" k 9] by simp
  have w: "10 powi dec_exponent r b = 10 ^ k * wt r (ba b)" "(10 :: rat) powi (dec_exponent r b + 1) = 10 ^ Suc k * wt r (ba b)"
    unfolding e wt_def by (simp_all add: powi10_plus)
  have f: "lval r (bm b) (ba b) z = of_nat v * wt r (ba b) + lval r (bm b) (Suc (ba b)) z" unfolding v_def by (rule lval_first [OF assms(2)])
  have "lval r (bm b) (Suc (ba b)) z < 1000000000 * wt r (Suc (ba b))"
    by (rule lval_less [OF limbs_less_sub [OF assms(1)]]) simp_all
  then have t: "lval r (bm b) (Suc (ba b)) z < wt r (ba b)" using wt_Suc [of r "ba b"] by simp
  have "(10 :: rat) ^ k = of_nat (10 ^ k)" "(10 :: rat) ^ Suc k = of_nat (10 ^ Suc k)" by simp_all
  moreover have "of_nat (10 ^ k) \<le> (of_nat v :: rat)" "of_nat (v + 1) \<le> (of_nat (10 ^ Suc k) :: rat)"
    using k(2,3) by (simp_all only: of_nat_le_iff) simp_all
  ultimately have "10 ^ k * wt r (ba b) \<le> of_nat v * wt r (ba b)" "of_nat (v + 1) * wt r (ba b) \<le> 10 ^ Suc k * wt r (ba b)"
    using wt_pos [of r "ba b"] by (simp_all only: mult_le_cancel_right_pos)
  then have "10 powi dec_exponent r b \<le> lval r (bm b) (ba b) z" "lval r (bm b) (ba b) z < 10 powi (dec_exponent r b + 1)"
    unfolding w f using t lval_ge0 [of r "bm b" "Suc (ba b)" z] by (linarith, simp add: distrib_right)
  then show ?thesis using that [OF e k8] k(2,3) unfolding v_def by simp
qed

subsection \<open>Which way to round\<close>

lemma quad_113:
  assumes "2 ^ 113 \<le> x" "x < 2 ^ 114"
  shows "fround quad s x = FNum s (of_int (rne (x / 2)) * 2)"
proof -
  have "rexp x = 113" by (rule rexp_eqI) (use assms in simp_all)
  moreover have "0 < x" using assms(1) by (rule less_le_trans [rotated]) simp
  ultimately have f: "fround quad s x = (if (2 :: rat) powi 16384 \<le> of_int (rne (x / 2)) * 2 then FInf s else FNum s (of_int (rne (x / 2)) * 2))"
    using fround_eq [of x quad 1 s] by (simp add: quad_def del: power_int_numeral)
  have "x / 2 \<le> of_int (2 ^ 113)" using assms(2) by simp
  then have "rne (x / 2) \<le> 2 ^ 113" by (rule rne_le)
  then have "(of_int (rne (x / 2)) :: rat) \<le> of_int (2 ^ 113)" unfolding of_int_le_iff .
  then have "of_int (rne (x / 2)) * 2 \<le> (2 :: rat) powi 114" by simp
  also have "(2 :: rat) powi 114 < 2 powi 16384" by (rule powi_smono) simp
  finally have "\<not> (2 :: rat) powi 16384 \<le> of_int (rne (x / 2)) * 2" unfolding not_le .
  then show ?thesis unfolding f by (rule if_not_P)
qed

text \<open>Adding to \<open>2 ^ 113\<close> or \<open>2 ^ 113 + 2\<close>.\<close>

lemma probe_add:
  assumes "n = 2 ^ 112 \<or> n = 2 ^ 112 + 1"
  defines "R \<equiv> of_int n * 2"
  shows "fadd quad (FNum s R) (FNum s (1 / 2)) = FNum s R" "fadd quad (FNum s R) (FNum s (3 / 2)) = FNum s (R + 2)"
    "fmul quad (FNum False R) (FNum True 1) = FNum True R"
proof -
  have "(2 ^ 113 :: rat) = of_int (2 ^ 112) * 2" "(2 ^ 113 + 2 :: rat) = of_int (2 ^ 112 + 1) * 2" by simp_all
  then have R: "0 < R" "2 ^ 113 \<le> R" "R + 2 < 2 ^ 114" using assms(1) by (auto simp: R_def)
  have "(R + 1 / 2) / 2 = of_int n + 1 / 4" "(R + 3 / 2) / 2 = of_int n + 3 / 4" "R / 2 = of_int n" by (simp_all add: R_def)
  moreover have "rne (of_int n + 1 / 4) = n" "rne (of_int n + 3 / 4) = n + 1" by (simp_all add: rne_frac)
  ultimately have r: "rne ((R + 1 / 2) / 2) = n" "rne ((R + 3 / 2) / 2) = n + 1" "rne (R / 2) = n" by (simp_all only: rne_of_int)
  have q: "fround quad s x = FNum s (of_int (rne (x / 2)) * 2)" if "R \<le> x" "x < R + 2" for s x
    by (rule quad_113) (use R that in linarith)+
  show "fadd quad (FNum s R) (FNum s (1 / 2)) = FNum s R" "fadd quad (FNum s R) (FNum s (3 / 2)) = FNum s (R + 2)"
    using R(1) by (simp_all add: fadd_same q r, simp_all add: R_def)
  show "fmul quad (FNum False R) (FNum True 1) = FNum True R" by (simp add: fmul_def q r, simp add: R_def)
qed

lemma probe_small: "fmul quad (FNum False (1 / 2)) (FNum True 1) = FNum True (1 / 2)" "fmul quad (FNum False (3 / 2)) (FNum True 1) = FNum True (3 / 2)"
proof -
  have q: "fround quad True (of_nat n / 2 ^ 1) = FNum True (of_nat n / 2 ^ 1)" if "n \<le> 3" for n
    using that by (intro quad_pow2_exact) simp_all
  show "fmul quad (FNum False (1 / 2)) (FNum True 1) = FNum True (1 / 2)" "fmul quad (FNum False (3 / 2)) (FNum True 1) = FNum True (3 / 2)"
    using q [of 1] q [of 3] by (simp_all add: fmul_def)
qed

lemma rounds_up_spec:
  "x < i div 2 \<Longrightarrow> \<not> rounds_up neg odd_digit x i final"
  "i div 2 < x \<or> x = i div 2 \<and> \<not> final \<Longrightarrow> rounds_up neg odd_digit x i final"
proof -
  have two: "fadd quad (FNum False (2 ^ 113)) (FNum False 2) = FNum False (of_int (2 ^ 112 + 1) * 2)"
  proof -
    have "rne ((2 ^ 113 + 2) / 2) = rne (of_int (2 ^ 112 + 1) + 0)" by (rule arg_cong [where f = rne]) simp
    also have "\<dots> = 2 ^ 112 + 1" by (subst rne_frac) simp_all
    finally have "rne ((2 ^ 113 + 2) / 2) = 2 ^ 112 + 1" .
    then show ?thesis by (simp add: fadd_same quad_113)
  qed
  have one: "FNum False (2 ^ 113) = FNum False (of_int (2 ^ 112) * 2)" by simp
  obtain n where n: "(if odd_digit then fadd quad (FNum False (2 ^ 113)) (FNum False 2) else FNum False (2 ^ 113)) = FNum False (of_int n * 2)"
    "n = 2 ^ 112 \<or> n = 2 ^ 112 + 1" using two one by (cases odd_digit) auto
  note p = probe_add [OF n(2)]
  have up: "rounds_up neg odd_digit x i final \<longleftrightarrow> c = 3 / 2"
    if sm: "(if x < i div 2 then FNum False (1 / 2) else if x = i div 2 \<and> final then FNum False 1 else FNum False (3 / 2)) = FNum False c"
      and c: "c = 1 / 2 \<or> c = 3 / 2" for c
  proof -
    consider "c = 1 / 2" | "c = 3 / 2" using c by blast
    then show ?thesis unfolding rounds_up_def Let_def n(1) sm by cases (cases neg; simp only: p probe_small if_True if_False; simp)+
  qed
  show "x < i div 2 \<Longrightarrow> \<not> rounds_up neg odd_digit x i final" using up [of "1 / 2"] by simp
  show "i div 2 < x \<or> x = i div 2 \<and> \<not> final \<Longrightarrow> rounds_up neg odd_digit x i final" using up [of "3 / 2"] by auto
qed

subsection \<open>Rounding\<close>

lemma carry_loop_spec:
  assumes "ba b \<le> d" "limbs_less (bm b) (ba b) d" "bm b d \<le> 1000000000" "bm b (ba b) \<noteq> 0" "lval r (bm b) (ba b) (Suc d) < 1000000000 * wt r 0"
  shows "\<exists>b' d'. carry_loop b d = Some (b', d') \<and> d' \<le> d \<and> ba b' \<le> d' \<and> bz b' = bz b \<and> limbs_less (bm b') (ba b') (Suc d')
    \<and> bm b' (ba b') \<noteq> 0 \<and> lval r (bm b') (ba b') (Suc d') = lval r (bm b) (ba b) (Suc d)"
  using assms
proof (induction d arbitrary: b)
  case 0
  then have "ba b = 0" "lval r (bm b) 0 (Suc 0) = of_nat (bm b 0) * wt r 0" by (simp_all add: lval_last)
  then have "bm b 0 \<noteq> 1000000000" using "0.prems"(5) by auto
  then have "bm b 0 < 1000000000" using "0.prems"(3) by simp
  then show ?case using "0.prems" \<open>ba b = 0\<close> by (subst carry_loop.simps) (auto simp: limbs_less_def)
next
  case (Suc k)
  show ?case
  proof (cases "bm b (Suc k) > 999999999")
    case False
    then show ?thesis using Suc.prems by (subst carry_loop.simps) (auto simp: limbs_less_def less_Suc_eq)
  next
    case True
    then have m: "bm b (Suc k) = 1000000000" using Suc.prems(3) by simp
    define b1 where "b1 = b \<lparr> bm := (if k < ba b then (bm b)(Suc k := 0, k := 1) else (bm b)(Suc k := 0, k := bm b k + 1)), ba := min k (ba b) \<rparr>"
    have st: "carry_loop b (Suc k) = carry_loop b1 k"
    proof (cases "k < ba b")
      case less: True
      then have "ba b = Suc k" using Suc.prems(1) by simp
      then show ?thesis using True by (subst carry_loop.simps) (simp add: b1_def Let_def)
    next
      case False
      then show ?thesis using True by (subst carry_loop.simps) (simp add: b1_def Let_def)
    qed
    have b1: "ba b1 \<le> k" "bz b1 = bz b" by (simp_all add: b1_def)
    have ll: "limbs_less (bm b1) (ba b1) k" using Suc.prems(2) by (auto simp: b1_def limbs_less_def)
    have mk: "bm b1 k \<le> 1000000000" using Suc.prems(2) by (auto simp: b1_def limbs_less_def Suc_le_eq)
    have ld: "bm b1 (ba b1) \<noteq> 0" using Suc.prems(1,4) by (auto simp: b1_def min_def)
    have v: "lval r (bm b1) (ba b1) (Suc k) = lval r (bm b) (ba b) (Suc (Suc k))"
    proof (cases "k < ba b")
      case True
      then have "ba b = Suc k" using Suc.prems(1) by simp
      then show ?thesis using m by (simp add: b1_def lval_last wt_Suc [of r k])
    next
      case False
      then have "lval r (bm b1) (ba b1) (Suc k) = lval r (bm b) (ba b) k + of_nat (bm b k + 1) * wt r k"
        using lval_cong [of "ba b" k "(bm b)(Suc k := 0, k := Suc (bm b k))" "bm b" r] by (simp add: b1_def min_def lval_last)
      then show ?thesis using False m by (simp add: lval_last wt_Suc [of r k] distrib_right)
    qed
    from Suc.IH [OF b1(1) ll mk ld] Suc.prems(5) obtain b' d' where "carry_loop b1 k = Some (b', d')" "d' \<le> k" "ba b' \<le> d'" "bz b' = bz b"
      "limbs_less (bm b') (ba b') (Suc d')" "bm b' (ba b') \<noteq> 0" "lval r (bm b') (ba b') (Suc d') = lval r (bm b) (ba b) (Suc (Suc k))"
      unfolding v b1(2) by auto
    then show ?thesis unfolding st by auto
  qed
qed

lemma lval_multiple: "\<exists>K. lval r m a d = of_nat K * (1000000000 * wt r d)"
proof (induction d)
  case (Suc d)
  show ?case
  proof (cases "a \<le> d")
    case True
    from Suc obtain K where "lval r m a d = of_nat K * (1000000000 * wt r d)" ..
    then have "lval r m a (Suc d) = of_nat (K * 1000000000 + m d) * (1000000000 * wt r (Suc d))"
      using True by (simp add: lval_last wt_Suc [of r d] distrib_right distrib_left mult.assoc)
    then show ?thesis ..
  qed (simp add: exI [of _ 0])
qed (simp add: exI [of _ 0])

text \<open>The limb \<open>d\<close> in which the last digit kept lies, and the unit of that digit in the limb.\<close>

lemma round_index:
  assumes "e = 9 * (int r - int a) + int k" "k \<le> 8" "0 \<le> p" "e < 100000" "p - e < 9 * (int z - int r - 1)"
  defines "j \<equiv> p - e"
  obtains d s where "int r + 1 + ((j + 9 * 16384) div 9 - 16384) = int d" "(j + 9 * 16384) mod 9 = int s" "s \<le> 8" "a \<le> d" "d < z"
    "(10 :: rat) powi (e - p) = of_nat (10 ^ (9 - s)) * wt r d"
proof -
  have jd: "(j + 9 * 16384) div 9 = j div 9 + 16384" "(j + 9 * 16384) mod 9 = j mod 9"
    using div_mult_self1 [of 9 j 16384] mod_mult_self1 [of j 16384 9] by (simp_all add: mult.commute)
  have jq: "j = 9 * (j div 9) + j mod 9" "0 \<le> j mod 9" "j mod 9 < 9" by simp_all
  define d where "d = nat (int r + 1 + j div 9)"
  have j: "- (9 * (int r - int a)) - 8 \<le> j" "j < 9 * (int z - int r - 1)" using assms(1-3,5) by (simp_all add: j_def)
  then have lo: "int a \<le> int r + 1 + j div 9" and hi: "int r + 1 + j div 9 < int z" using jq by presburger+
  have d: "int d = int r + 1 + j div 9" using lo by (simp add: d_def)
  have ep: "e - p = - j" and n: "int (9 - nat (j mod 9)) = 9 - j mod 9" using jq(3) by (simp_all add: j_def)
  have "e - p = 9 - j mod 9 + 9 * (int r - int d)" unfolding d ep using jq(1) by presburger
  then have "e - p = int (9 - nat (j mod 9)) + 9 * (int r - int d)" unfolding n .
  then have u: "(10 :: rat) powi (e - p) = of_nat (10 ^ (9 - nat (j mod 9))) * wt r d"
    by (simp only: powi10_plus wt_def power_int_of_nat of_nat_power of_nat_numeral)
  have "nat (j mod 9) \<le> 8" using jq(3) by linarith
  then show ?thesis
    by (intro that [of d "nat (j mod 9)"]) (use jd d lo hi jq(3) u in \<open>simp_all\<close>)
qed

lemma limb_parts:
  assumes "i * t = 1000000000" "v < (1000000000 :: nat)"
  shows "v - v mod i + i \<le> 1000000000" "v - v mod i = v div i * i"
proof -
  have i: "0 < i" using assms(1) by (cases i) simp_all
  show "v - v mod i = v div i * i" by (simp add: minus_mod_eq_div_mult)
  moreover have "v < i * t" using assms by simp
  then have "v div i < t" using i by (simp add: div_less_iff_less_mult mult.commute)
  then have "Suc (v div i) * i \<le> t * i" by (intro mult_right_mono) simp_all
  ultimately show "v - v mod i + i \<le> 1000000000" using assms(1) by (simp add: mult.commute)
qed

lemma round_limbs_spec:
  assumes L: "limbs_less (bm b) (ba b) (bz b)" "ba b < bz b" "bz b \<le> BIG" "bm b (ba b) \<noteq> 0"
    and p: "0 \<le> p" and e: "e = dec_exponent r b" "e < 100000" and W: "W = lval r (bm b) (ba b) (bz b)" "2 * W < 1000000000 * wt r 0"
  defines "U \<equiv> (10 :: rat) powi (e - p)"
  shows "\<exists>b' D. round_limbs r neg (p - e) b e = Some (b', dec_exponent r b') \<and> ba b' < bz b' \<and> bz b' \<le> BIG
    \<and> limbs_less (bm b') (ba b') (bz b') \<and> bm b' (ba b') \<noteq> 0 \<and> lval r (bm b') (ba b') (bz b') = of_nat D * U \<and> \<bar>of_nat D * U - W\<bar> \<le> U / 2"
proof (cases "p - e < 9 * (int (bz b) - int r - 1)")
  case False
  have U0: "0 < U" unfolding U_def by (rule powi10_pos)
  obtain K where K: "lval r (bm b) (ba b) (bz b) = of_nat K * (1000000000 * wt r (bz b))" using lval_multiple by blast
  define n where "n = nat (9 * (int r - int (bz b)) + 9 - (e - p))"
  have "9 * (int r - int (bz b)) + 9 = int n + (e - p)" using False by (simp add: n_def)
  then have "(10 :: rat) powi (9 * (int r - int (bz b)) + 9) = 10 ^ n * U" unfolding U_def by (simp only: powi10_plus power_int_of_nat)
  moreover have "(10 :: rat) powi (9 * (int r - int (bz b)) + 9) = 1000000000 * wt r (bz b)" unfolding wt_def powi10_plus by simp
  ultimately have "W = of_nat (K * 10 ^ n) * U" using K W(1) by simp
  then show ?thesis using False L e W(1) U0 by (intro exI [of _ b] exI [of _ "K * 10 ^ n"]) (simp add: round_limbs_def)
next
  case True
  obtain k where k: "dec_exponent r b = 9 * (int r - int (ba b)) + int k" "k \<le> 8"
    "10 powi dec_exponent r b \<le> lval r (bm b) (ba b) (bz b)" "lval r (bm b) (ba b) (bz b) < 10 powi (dec_exponent r b + 1)"
    using dec_exponent_spec [OF L(1,2,4), of r] by metis
  obtain d s where ds: "int r + 1 + ((p - e + 9 * 16384) div 9 - 16384) = int d" "(p - e + 9 * 16384) mod 9 = int s" "s \<le> 8" "ba b \<le> d" "d < bz b"
    "U = of_nat (10 ^ (9 - s)) * wt r d"
    using round_index [OF k(1) [folded e(1)] k(2) p e(2) True] unfolding U_def by metis
  define i where "i = (10 :: nat) ^ (9 - s)"
  define v where "v = bm b d"
  define x where "x = v mod i"
  have i: "0 < i" "i * 10 ^ s = 1000000000" using ds(3) by (simp_all add: i_def flip: power_add)
  have v: "v < 1000000000" using limbs_lessD [OF L(1) ds(4,5)] by (simp add: v_def)
  note lp = limb_parts [OF i(2) v, folded x_def]
  have U: "U = of_nat i * wt r d" "0 < U" using ds(6) i(1) by (simp_all add: i_def)
  define T where "T = lval r (bm b) (Suc d) (bz b)"
  have T: "0 \<le> T" "T < wt r d" "d + 1 = bz b \<Longrightarrow> T = 0"
    using lval_less [OF limbs_less_sub [OF L(1), of "Suc d" "bz b"], of r] ds(4) wt_Suc [of r d] by (simp_all add: T_def)
  obtain K where K: "lval r (bm b) (ba b) d = of_nat K * (1000000000 * wt r d)" using lval_multiple by blast
  define Q where "Q = K * 10 ^ s + v div i"
  have "10 ^ s * of_nat i = (1000000000 :: rat)" using arg_cong [OF i(2), of "of_nat :: nat \<Rightarrow> rat"] by (simp add: mult.commute)
  then have "of_nat K * (1000000000 * wt r d) = of_nat (K * 10 ^ s) * U" unfolding U(1) of_nat_mult by (simp flip: mult.assoc)
  moreover have "of_nat (v - x) * wt r d = of_nat (v div i) * U" unfolding U(1) lp(2) of_nat_mult by simp
  ultimately have QU: "lval r (bm b) (ba b) d + of_nat (v - x) * wt r d = of_nat Q * U" unfolding K Q_def of_nat_add distrib_right by simp
  have xv: "of_nat v = of_nat (v - x) + (of_nat x :: rat)" unfolding of_nat_add [symmetric] by (simp add: x_def)
  have "W = lval r (bm b) (ba b) d + (of_nat v * wt r d + T)"
    using lval_split [of "ba b" d "bz b" r "bm b"] lval_first [OF ds(5), of r "bm b"] ds(4,5) by (simp add: W(1) v_def T_def)
  then have WR: "W = of_nat Q * U + (of_nat x * wt r d + T)" unfolding xv distrib_right QU [symmetric] by simp
  define R where "R = of_nat x * wt r d + T"
  define h where "h = i div 2"
  have i2: "i = 2 * h" using ds(3) by (simp add: h_def i_def Suc_diff_le)
  have xi: "x < i" using i(1) by (simp add: x_def)
  have cmp: "of_nat a * wt r d \<le> of_nat b * wt r d" if "a \<le> b" for a b using of_nat_mono [OF that, where 'a = rat] by (rule mult_right_mono) simp
  have half: "U / 2 = of_nat h * wt r d" by (simp add: U(1) i2)
  have sc: "of_nat (Suc n) * wt r d = of_nat n * wt r d + wt r d" for n by (simp add: distrib_right)
  have x0: "0 \<le> of_nat x * wt r d" by simp
  have U2: "U = 2 * (of_nat h * wt r d)" using half by simp
  have R: "0 \<le> R" "R < U" using T(1,2) x0 cmp [of "Suc x" i] xi unfolding R_def U(1) sc by simp_all
  have Rlo: "R \<le> U / 2" if "x < h \<or> x = h \<and> d + 1 = bz b"
    using that T cmp [of "Suc x" h] unfolding R_def half sc by auto
  have Rhi: "U / 2 \<le> R" if "h \<le> x" using cmp [OF that] T(1) unfolding R_def half by linarith
  have p10: "10 powi e = of_nat (10 ^ nat p) * U" unfolding U_def using p powi10_plus [of "p" "e - p"] by (simp add: power_int_def)
  have Wb: "10 powi e \<le> W" "W < 10 powi (e + 1)" using k(3,4) unfolding e(1) W(1) by simp_all
  have "of_nat (10 ^ nat p) * U < of_nat (Suc Q) * U" using Wb(1) WR R(2) unfolding p10 R_def by (simp add: distrib_right)
  then have "10 ^ nat p \<le> Q" using U(2) unfolding mult_less_cancel_right_pos [OF U(2)] of_nat_less_iff by simp
  from of_nat_mono [OF this, where 'a = rat] have Qe: "10 powi e \<le> of_nat Q * U" unfolding p10 by (rule mult_right_mono) (use U(2) in simp)
  have UW: "U \<le> W" using Wb(1) U(2) one_le_power [of "10 :: rat" "nat p"] unfolding p10 by (simp add: order_trans [of U "10 ^ nat p * U"])
  have we: "wt r (ba b) \<le> 10 powi e" unfolding e(1) k(1) wt_def by (rule power_int_increasing) simp_all
  define odd_digit where "odd_digit = (odd (v div i) \<or> i = 1000000000 \<and> int d > int (ba b) \<and> odd (bm b (nat (int d - 1))))"
  define up where "up = rounds_up neg odd_digit x i (d + 1 = bz b)"
  have dB: "big_get (bm b) (int d) = Some v" using ds(5) L(3) by (simp add: big_get_def v_def)
  define cut where "cut = (\<lambda>(b' :: big) d'. if bz b' > d' + 1 then b' \<lparr> bz := d' + 1 \<rparr> else b')"
  have rl: "round_limbs r neg (p - e) b e =
      (if x \<noteq> 0 \<or> d + 1 \<noteq> bz b then
         (if up then (case carry_loop (b \<lparr> bm := (bm b)(d := v - x + i) \<rparr>) d of None \<Rightarrow> None
                   | Some (b1, d1) \<Rightarrow> Some (cut b1 d1, dec_exponent r b1))
          else Some (cut (b \<lparr> bm := (bm b)(d := v - x) \<rparr>) d, e))
       else Some (cut b d, e))"
  proof -
    have "int d + 1 = int (bz b) \<longleftrightarrow> d + 1 = bz b" by linarith
    moreover have "(10 :: nat) ^ nat (9 - int s) = i" using ds(3) by (simp add: i_def nat_diff_distrib)
    ultimately show ?thesis using True
      unfolding round_limbs_def Let_def ds(1,2) dB option.case nat_int cut_def by (simp add: x_def up_def odd_digit_def)
  qed
  consider "\<not> (x \<noteq> 0 \<or> d + 1 \<noteq> bz b)" | "x \<noteq> 0 \<or> d + 1 \<noteq> bz b" "\<not> up" | "x \<noteq> 0 \<or> d + 1 \<noteq> bz b" "up" by blast
  then show ?thesis
  proof cases
    case 1
    then have "W = of_nat Q * U" using WR T(3) by simp
    moreover have "cut b d = b" using 1 by (simp add: cut_def)
    ultimately show ?thesis using 1 L e(1) W(1) U(2) unfolding rl by (intro exI [of _ b] exI [of _ Q]) simp
  next
    case 2
    define b1 where "b1 = b \<lparr> bm := (bm b)(d := v - x), bz := Suc d \<rparr>"
    have "cut (b \<lparr> bm := (bm b)(d := v - x) \<rparr>) d = b1" using ds(5) by (auto simp: cut_def b1_def)
    then have st: "round_limbs r neg (p - e) b e = Some (b1, e)" using 2 unfolding rl by simp
    have ll: "limbs_less (bm b1) (ba b1) (bz b1)" using L(1) ds(5) v by (auto simp: b1_def limbs_less_def less_Suc_eq)
    have val: "lval r (bm b1) (ba b1) (bz b1) = of_nat Q * U"
      unfolding QU [symmetric] using ds(4) lval_cong [of "ba b" d "(bm b)(d := v - x)" "bm b" r] by (simp add: b1_def lval_last)
    have lt: "ba b1 < bz b1" using ds(4) by (simp add: b1_def)
    have ld: "bm b1 (ba b1) \<noteq> 0"
      by (rule lead_nonzero [OF ll lt, of r]) (use val Qe we in \<open>simp add: b1_def\<close>)
    obtain k' where "10 powi dec_exponent r b1 \<le> of_nat Q * U" "of_nat Q * U < 10 powi (dec_exponent r b1 + 1)"
      using dec_exponent_spec [OF ll lt ld, of r] unfolding val by metis
    moreover have "of_nat Q * U < 10 powi (e + 1)" using WR R(1) Wb(2) by (simp add: R_def)
    ultimately have "dec_exponent r b1 = e" using powi10_between Qe by blast
    moreover have "R \<le> U / 2" using Rlo 2(2) rounds_up_spec(2) [of i x "d + 1 = bz b" neg odd_digit] unfolding up_def h_def by linarith
    ultimately show ?thesis using st ll lt ld val WR R(1) ds(5) L(3)
      by (intro exI [of _ b1] exI [of _ Q]) (simp add: b1_def R_def abs_le_iff)
  next
    case 3
    define b1 where "b1 = b \<lparr> bm := (bm b)(d := v - x + i) \<rparr>"
    have val: "lval r (bm b1) (ba b1) (Suc d) = of_nat (Suc Q) * U"
      using ds(4) lval_cong [of "ba b" d "(bm b)(d := v - x + i)" "bm b" r] QU U(1) by (simp add: b1_def lval_last distrib_right)
    have "of_nat (Suc Q) * U = of_nat Q * U + U" by (simp add: distrib_right)
    then have "of_nat (Suc Q) * U \<le> 2 * W" using WR [folded R_def] R(1) UW by linarith
    then have small: "lval r (bm b1) (ba b1) (Suc d) < 1000000000 * wt r 0" unfolding val using W(2) by simp
    have "ba b1 \<le> d" "limbs_less (bm b1) (ba b1) d" "bm b1 d \<le> 1000000000" "bm b1 (ba b1) \<noteq> 0"
      using ds(4,5) L(1,4) lp(1) i(1) by (auto simp: b1_def limbs_less_def)
    from carry_loop_spec [OF this small] obtain b2 d' where c: "carry_loop b1 d = Some (b2, d')" "d' \<le> d" "ba b2 \<le> d'" "bz b2 = bz b1"
      "limbs_less (bm b2) (ba b2) (Suc d')" "bm b2 (ba b2) \<noteq> 0" "lval r (bm b2) (ba b2) (Suc d') = of_nat (Suc Q) * U" unfolding val by blast
    define b3 where "b3 = b2 \<lparr> bz := Suc d' \<rparr>"
    have "bz b2 \<ge> Suc d'" using c(2,4) ds(5) by (simp add: b1_def)
    then have "cut b2 d' = b3" by (auto simp: cut_def b3_def)
    moreover have "dec_exponent r b2 = dec_exponent r b3" by (simp add: dec_exponent_def b3_def)
    ultimately have st: "round_limbs r neg (p - e) b e = Some (b3, dec_exponent r b3)" using 3 c(1) unfolding rl b1_def by simp
    have "h \<le> x" using rounds_up_spec(1) [of x i neg odd_digit "d + 1 = bz b"] 3(2) unfolding up_def h_def by linarith
    then have "U / 2 \<le> R" by (rule Rhi)
    then have "\<bar>of_nat (Suc Q) * U - W\<bar> \<le> U / 2" using WR R(2) by (simp add: R_def distrib_right abs_le_iff)
    then show ?thesis using st c(2-7) ds(5) L(3)
      by (intro exI [of _ b3] exI [of _ "Suc Q"]) (simp add: b3_def)
  qed
qed

subsection \<open>The digits of the limbs\<close>

lemma fmt_u_app: "fp_fmt_u v s = fp_fmt_u v [] @ s"
proof (induction v arbitrary: s rule: less_induct)
  case (less v)
  show ?case
  proof (cases "v = 0")
    case False
    then have "v div 10 < v" by simp
    note IH = less [OF this]
    have st: "fp_fmt_u v s = fp_fmt_u (v div 10) (chr (ord CHR ''0'' + int (v mod 10)) # s)" for s
      using False by (subst fp_fmt_u.simps) simp
    show ?thesis unfolding st [of s] st [of "[]"] IH [of "_ # s"] IH [of "[_]"] by simp
  qed (simp add: fp_fmt_u.simps)
qed

lemma fmt_u_0 [simp]: "fp_fmt_u 0 [] = []"
  by (simp add: fp_fmt_u.simps)

lemma fmt_u_step: "v \<noteq> 0 \<Longrightarrow> fp_fmt_u v [] = fp_fmt_u (v div 10) [] @ [chr (ord CHR ''0'' + int (v mod 10))]"
  by (subst fp_fmt_u.simps) (simp add: fmt_u_app [of _ "[_]"])

lemma fmt_u_length: "length (fp_fmt_u v []) \<le> n \<longleftrightarrow> v < 10 ^ n"
proof (induction n arbitrary: v)
  case 0
  show ?case by (cases "v = 0") (simp_all add: fmt_u_step)
next
  case (Suc n)
  show ?case
  proof (cases "v = 0")
    case False
    have "v div 10 < 10 ^ n \<longleftrightarrow> v < 10 ^ Suc n" by (simp add: div_less_iff_less_mult mult.commute)
    then show ?thesis using False Suc [of "v div 10"] by (simp add: fmt_u_step)
  qed simp
qed

lemma fmt_u_text: "digit_text (fp_fmt_u v [])" "decv (fp_fmt_u v []) = v"
  using fp_fmt_u_digits(2,4) [of v] by (auto split: if_splits) (cases "v = 0", simp_all add: fmt_u_step)

lemma decv_app: "digits_value 10 n ds = n * 10 ^ length ds + decv ds"
proof (induction ds arbitrary: n)
  case (Cons c ds)
  define k where "k = nat (digit_val (ord c))"
  have "digits_value 10 n (c # ds) = (n * 10 + k) * 10 ^ length ds + decv ds" using Cons [of "n * 10 + k"] by (simp add: k_def)
  moreover have "decv (c # ds) = k * 10 ^ length ds + decv ds" using Cons [of k] by (simp add: k_def)
  ultimately show ?case by (simp add: distrib_right)
qed simp

lemma decv_append: "decv (xs @ ys) = decv xs * 10 ^ length ys + decv ys"
  unfolding digits_value_append by (rule decv_app)

lemma decv_less: "digit_text ds \<Longrightarrow> decv ds < 10 ^ length ds"
proof (induction ds)
  case (Cons c ds)
  have "nat (digit_val (ord c)) \<le> 9" using Cons.prems digit_val_dec [of c] by (auto simp: dig_def)
  then have "nat (digit_val (ord c)) * 10 ^ length ds \<le> 9 * 10 ^ length ds" by (rule mult_right_mono) simp
  moreover have "decv (c # ds) = nat (digit_val (ord c)) * 10 ^ length ds + decv ds" using decv_app [of "nat (digit_val (ord c))" ds] by simp
  moreover have "decv ds < 10 ^ length ds" using Cons by simp
  ultimately show ?case unfolding length_Cons power_Suc by linarith
qed simp

lemma decv_zeros_end [simp]: "decv (replicate n CHR ''0'') = 0"
  using decv_zeros [of n "[]"] by simp

lemma zeros_digits [simp]: "digit_text (replicate n CHR ''0'')"
  by (auto simp: digit_text_def dig_def ord_def)

lemma fill9_text: "length s \<le> 9 \<Longrightarrow> length (fill9 s) = 9" "digit_text s \<Longrightarrow> digit_text (fill9 s)" "decv (fill9 s) = decv s"
  by (simp_all add: fill9_def)

text \<open>The digits of the limbs from \<open>d\<close> to \<open>z\<close>, nine for each.\<close>

definition limb_digits :: "(nat \<Rightarrow> nat) \<Rightarrow> nat \<Rightarrow> nat \<Rightarrow> byte list" where
  "limb_digits m d z = concat (map (\<lambda>i. fill9 (fp_fmt_u (m i) [])) [d..<z])"

lemma limb_digits_less [simp]: "z \<le> d \<Longrightarrow> limb_digits m d z = []"
  by (simp add: limb_digits_def)

lemma limb_digits_first: "d < z \<Longrightarrow> limb_digits m d z = fill9 (fp_fmt_u (m d) []) @ limb_digits m (Suc d) z"
  by (simp add: limb_digits_def upt_rec)

lemma limb_digits_facts:
  "limbs_less m d z \<Longrightarrow> length (limb_digits m d z) = 9 * (z - d) \<and> digit_text (limb_digits m d z)
    \<and> of_nat (decv (limb_digits m d z)) * (1000000000 * wt r z) = lval r m d z"
proof (induction "z - d" arbitrary: d)
  case (Suc n)
  then have dz: "d < z" "n = z - Suc d" by simp_all
  have md: "length (fp_fmt_u (m d) []) \<le> 9" using limbs_lessD [OF Suc.prems, of d] dz(1) by (simp add: fmt_u_length)
  have ll: "limbs_less m (Suc d) z" by (rule limbs_less_sub [OF Suc.prems]) simp_all
  have IH: "length (limb_digits m (Suc d) z) = 9 * (z - Suc d)" "digit_text (limb_digits m (Suc d) z)"
    "of_nat (decv (limb_digits m (Suc d) z)) * (1000000000 * wt r z) = lval r m (Suc d) z" using Suc.hyps(1) [OF dz(2) ll] by blast+
  have "z = Suc d + (z - Suc d)" using dz(1) by simp
  then have "wt r (Suc d) = 10 ^ (9 * (z - Suc d)) * wt r z" using wt_add [of r "Suc d" "z - Suc d"] by simp
  then have w: "wt r d = 10 ^ (9 * (z - Suc d)) * (1000000000 * wt r z)" using wt_Suc [of r d] by simp
  have "decv (limb_digits m d z) = m d * 10 ^ (9 * (z - Suc d)) + decv (limb_digits m (Suc d) z)"
    unfolding limb_digits_first [OF dz(1)] decv_append fill9_text(3) fmt_u_text(2) IH(1) ..
  then have "of_nat (decv (limb_digits m d z)) * (1000000000 * wt r z) = lval r m d z"
    unfolding lval_first [OF dz(1)] w IH(3) [symmetric] by (simp add: distrib_right mult.assoc)
  then show ?case using dz IH(1,2) md by (simp add: limb_digits_first fill9_text fmt_u_text)
qed simp

lemma limb_digits_text:
  assumes "limbs_less m d z"
  shows "length (limb_digits m d z) = 9 * (z - d)" "digit_text (limb_digits m d z)"
    "of_nat (decv (limb_digits m d z)) * (1000000000 * wt r z) = lval r m d z"
  using limb_digits_facts [OF assms, of r] by blast+

subsection \<open>The text\<close>

lemma fp_pad_zeros: "p < 2 ^ 31 \<Longrightarrow> concat (fp_pad put ps c (p + 18) 18 0) = concat ps @ replicate (nat p) c"
proof -
  have loop: "0 \<le> l \<Longrightarrow> concat (fp_pad_loop put ps c l) = concat ps @ replicate (nat l) c" for l ps
  proof (induction "nat l" arbitrary: ps l rule: less_induct)
    case less
    show ?case
    proof (cases "l \<ge> 64")
      case True
      have "concat (fp_pad_loop put (put ps (replicate 64 c)) c (l - 64)) = concat (put ps (replicate 64 c)) @ replicate (nat (l - 64)) c"
        by (rule less) (use True in simp_all)
      moreover have "nat l = 64 + nat (l - 64)" using True by simp
      ultimately show ?thesis using True by (subst fp_pad_loop.simps) (simp add: replicate_add)
    next
      case False
      then show ?thesis by (subst fp_pad_loop.simps) simp
    qed
  qed
  assume "p < 2 ^ 31"
  then show ?thesis
  proof (cases "p \<le> 0")
    case False
    then have "to_int32 (p + 18 - 18) = p" using \<open>p < 2 ^ 31\<close> by (simp add: to_int32_id)
    then show ?thesis using False loop by (simp add: fp_pad_def has_def)
  qed (simp add: fp_pad_def)
qed

lemma e_loop_rest:
  assumes "limbs_less m d z" "a < d"
  shows "\<exists>p' ps'. e_loop m a fl d z p ps = Some (p', ps') \<and> p' \<le> p \<and> concat ps' = concat ps @ take (nat p) (limb_digits m d z)
    \<and> nat p' = nat p - length (limb_digits m d z)"
  using assms
proof (induction "z - d" arbitrary: d p ps)
  case 0
  then show ?case by (subst e_loop.simps) simp
next
  case (Suc n)
  then have dz: "d < z" "n = z - (d + 1)" "a < d + 1" by simp_all
  show ?case
  proof (cases "p \<ge> 0")
    case False
    then show ?thesis by (subst e_loop.simps) simp
  next
    case True
    define s where "s = fill9 (fp_fmt_u (m d) [])"
    have md: "length (fp_fmt_u (m d) []) \<le> 9" using limbs_lessD [OF Suc.prems(1), of d] dz(1) by (simp add: fmt_u_length)
    have sl: "length s = 9" unfolding s_def by (rule fill9_text(1) [OF md])
    have s1: "fill9 (if fp_fmt_u (m d) [] = [] then ''0'' else fp_fmt_u (m d) []) = s"
      by (simp add: s_def fill9_def numeral_eq_Suc replicate_append_same)
    have st: "e_loop m a fl d z p ps = e_loop m a fl (d + 1) z (p - 9) (put ps (take (nat (min 9 p)) s))"
      using True dz(1) Suc.prems(2) md by (subst e_loop.simps) (simp add: limb_text_def Let_def s1 sl)
    from Suc.hyps(1) [OF dz(2) limbs_less_sub [OF Suc.prems(1)] dz(3), of "p - 9" "put ps (take (nat (min 9 p)) s)"]
    obtain p' ps' where r: "e_loop m a fl (d + 1) z (p - 9) (put ps (take (nat (min 9 p)) s)) = Some (p', ps')" "p' \<le> p - 9"
      "concat ps' = concat ps @ take (nat (min 9 p)) s @ take (nat (p - 9)) (limb_digits m (d + 1) z)"
      "nat p' = nat (p - 9) - length (limb_digits m (d + 1) z)" by auto
    have "take (nat (min 9 p)) s = take (nat p) s" using sl True by (simp add: min_def)
    moreover have "nat (p - 9) = nat p - 9" by simp
    ultimately show ?thesis using r sl unfolding st limb_digits_first [OF dz(1)] s_def [symmetric] by simp
  qed
qed

text \<open>All digits of the limbs: those of the first limb without leading zeros.\<close>

definition digits_of :: "big \<Rightarrow> byte list" where
  "digits_of b = fp_fmt_u (bm b (ba b)) [] @ limb_digits (bm b) (Suc (ba b)) (bz b)"

lemma e_loop_text:
  assumes "limbs_less (bm b) (ba b) (bz b)" "ba b < bz b" "bm b (ba b) \<noteq> 0" "0 \<le> p" "\<not> has fl ALT_FORM"
  shows "\<exists>p' ps'. e_loop (bm b) (ba b) fl (ba b) (bz b) p ps = Some (p', ps') \<and> p' \<le> p
    \<and> concat ps' = concat ps @ take 1 (digits_of b) @ (if p > 0 then ''.'' else []) @ take (nat p) (drop 1 (digits_of b))
    \<and> nat p' = nat p - (length (digits_of b) - 1)"
proof -
  define s where "s = fp_fmt_u (bm b (ba b)) []"
  have sl: "length s \<le> 9" using limbs_lessD [OF assms(1), of "ba b"] assms(2) by (simp add: s_def fmt_u_length)
  have s0: "s \<noteq> []" using assms(3) fmt_u_length [of "bm b (ba b)" 0] by (auto simp: s_def)
  define ps1 where "ps1 = (if p > 0 then put (put ps (take 1 s)) ''.'' else put ps (take 1 s))"
  have st: "e_loop (bm b) (ba b) fl (ba b) (bz b) p ps
      = e_loop (bm b) (ba b) fl (ba b + 1) (bz b) (p - int (length (drop 1 s))) (put ps1 (take (nat (min (int (length (drop 1 s))) p)) (drop 1 s)))"
    using assms(2,4,5) sl s0 by (subst e_loop.simps) (simp add: limb_text_def s_def [symmetric] ps1_def Let_def)
  have ll: "limbs_less (bm b) (ba b + 1) (bz b)" by (rule limbs_less_sub [OF assms(1)]) simp_all
  have t: "take (nat (min (int (length u)) p)) u = take (nat p) u" for u :: "byte list" by (simp add: min_def)
  obtain p' ps' where "e_loop (bm b) (ba b) fl (ba b) (bz b) p ps = Some (p', ps')" "p' \<le> p - int (length (drop 1 s))"
    "concat ps' = concat ps1 @ take (nat p) (drop 1 s) @ take (nat (p - int (length (drop 1 s)))) (limb_digits (bm b) (ba b + 1) (bz b))"
    "nat p' = nat (p - int (length (drop 1 s))) - length (limb_digits (bm b) (ba b + 1) (bz b))"
    using e_loop_rest [OF ll, of "ba b" fl "p - int (length (drop 1 s))" "put ps1 (take (nat (min (int (length (drop 1 s))) p)) (drop 1 s))"]
    unfolding st t by auto
  moreover have "concat ps1 = concat ps @ take 1 s @ (if p > 0 then ''.'' else [])" by (simp add: ps1_def)
  moreover have "digits_of b = s @ limb_digits (bm b) (Suc (ba b)) (bz b)" by (simp add: digits_of_def s_def)
  moreover have "nat (p - int (length (drop 1 s))) = nat p - length (drop 1 s)" by simp
  ultimately show ?thesis using s0 by (cases s) auto
qed

lemma digits_of_text:
  assumes "limbs_less (bm b) (ba b) (bz b)" "ba b < bz b" "bm b (ba b) \<noteq> 0"
  shows "digit_text (digits_of b)" "digits_of b \<noteq> []"
    "of_nat (decv (digits_of b)) * 10 powi (dec_exponent r b - int (length (digits_of b) - 1)) = lval r (bm b) (ba b) (bz b)"
proof -
  have ll: "limbs_less (bm b) (Suc (ba b)) (bz b)" by (rule limbs_less_sub [OF assms(1)]) simp_all
  note ld = limb_digits_text [OF ll]
  show "digit_text (digits_of b)" using ld(2) fmt_u_text(1) by (simp add: digits_of_def)
  obtain k where k: "dec_exponent r b = 9 * (int r - int (ba b)) + int k" "10 ^ k \<le> bm b (ba b)" "bm b (ba b) < 10 ^ Suc k"
    using dec_exponent_spec [OF assms, of r] by metis
  have "length (fp_fmt_u (bm b (ba b)) []) \<le> Suc k" "\<not> length (fp_fmt_u (bm b (ba b)) []) \<le> k"
    using k(2,3) unfolding fmt_u_length by simp_all
  then have l: "length (fp_fmt_u (bm b (ba b)) []) = Suc k" by simp
  then show "digits_of b \<noteq> []" by (auto simp: digits_of_def)
  have len: "length (digits_of b) - 1 = k + 9 * (bz b - Suc (ba b))" using l ld(1) by (simp add: digits_of_def)
  have "dec_exponent r b - int (length (digits_of b) - 1) = 9 + 9 * (int r - int (bz b))"
    using assms(2) unfolding k(1) len by (simp add: of_nat_diff)
  then have u: "10 powi (dec_exponent r b - int (length (digits_of b) - 1)) = 1000000000 * wt r (bz b)"
    unfolding wt_def by (simp add: powi10_plus)
  have "bz b = Suc (ba b) + (bz b - Suc (ba b))" using assms(2) by simp
  then have "wt r (Suc (ba b)) = 10 ^ (9 * (bz b - Suc (ba b))) * wt r (bz b)" using wt_add [of r "Suc (ba b)" "bz b - Suc (ba b)"] by simp
  then have w: "wt r (ba b) = 10 ^ (9 * (bz b - Suc (ba b))) * (1000000000 * wt r (bz b))" using wt_Suc [of r "ba b"] by simp
  have "decv (digits_of b) = bm b (ba b) * 10 ^ (9 * (bz b - Suc (ba b))) + decv (limb_digits (bm b) (Suc (ba b)) (bz b))"
    unfolding digits_of_def decv_append fmt_u_text(2) ld(1) ..
  then show "of_nat (decv (digits_of b)) * 10 powi (dec_exponent r b - int (length (digits_of b) - 1)) = lval r (bm b) (ba b) (bz b)"
    unfolding u lval_first [OF assms(2)] w ld(3) [of r, symmetric] by (simp add: distrib_right mult.assoc)
qed

text \<open>The digits that are put out: \<open>p + 1\<close> of them, filled up with zeros.\<close>

lemma decv_take:
  assumes "digit_text S" "n \<le> length S" "decv S = D * 10 ^ (length S - n)"
  shows "decv (take n S) = D"
proof -
  have "decv S = decv (take n S) * 10 ^ (length S - n) + decv (drop n S)" using decv_append [of "take n S" "drop n S"] by simp
  moreover have "decv (drop n S) < 10 ^ (length S - n)"
    using decv_less [of "drop n S"] assms(1) by (auto simp: digit_text_def dest: in_set_dropD)
  ultimately have "decv S div 10 ^ (length S - n) = decv (take n S)" by simp
  moreover have "decv S div 10 ^ (length S - n) = D" unfolding assms(3) by simp
  ultimately show ?thesis by simp
qed

definition e_mantissa :: "int \<Rightarrow> byte list \<Rightarrow> byte list" where
  "e_mantissa p ds = take 1 ds @ (if p > 0 then ''.'' else []) @ drop 1 ds"

lemma e_digits_text:
  assumes "limbs_less (bm b) (ba b) (bz b)" "ba b < bz b" "bm b (ba b) \<noteq> 0" "0 \<le> p" "p < 2 ^ 31" "\<not> has fl ALT_FORM"
    and D: "lval r (bm b) (ba b) (bz b) = of_nat D * 10 powi (dec_exponent r b - p)"
  obtains o1 ds where "e_digits fl p b estr o0 = Some o1" "concat o1 = concat o0 @ e_mantissa p ds @ estr"
    "length ds = Suc (nat p)" "digit_text ds" "decv ds = D"
proof -
  define S where "S = digits_of b"
  note S = digits_of_text [OF assms(1-3), folded S_def]
  define P where "P = nat p"
  have P: "p = int P" using assms(4) by (simp add: P_def)
  define X where "X = S @ replicate P (CHR ''0'')"
  define ds where "ds = take (Suc P) X"
  obtain p' ps' where e: "e_loop (bm b) (ba b) fl (ba b) (bz b) p o0 = Some (p', ps')" "p' \<le> p"
    "concat ps' = concat o0 @ take 1 S @ (if p > 0 then ''.'' else []) @ take P (drop 1 S)" "nat p' = P - (length S - 1)"
    using e_loop_text [OF assms(1-4,6), of o0] unfolding S_def P_def by blast
  define o1 where "o1 = put (fp_pad put ps' (CHR ''0'') (p' + 18) 18 0) estr"
  have "e_digits fl p b estr o0 = Some o1" using assms(2) e(1) by (simp add: e_digits_def o1_def)
  moreover have "concat o1 = concat o0 @ e_mantissa p ds @ estr"
  proof -
    obtain c S' where c: "S = c # S'" using S(2) by (cases S) auto
    have "p' < 2 ^ 31" using e(2) assms(5) by simp
    note fp_pad_zeros [OF this, of ps' "CHR ''0''"]
    moreover have "take P (S' @ replicate P (CHR ''0'')) = take P S' @ replicate (P - length S') (CHR ''0'')" by simp
    ultimately show ?thesis using e(3,4) by (simp add: o1_def e_mantissa_def ds_def X_def c)
  qed
  moreover have "length ds = Suc (nat p)" using S(2) by (cases S) (simp_all add: ds_def X_def P_def)
  moreover have dX: "digit_text X" using S(1) by (simp add: X_def)
  then have "digit_text ds" by (auto simp: ds_def digit_text_def dest: in_set_takeD)
  moreover have "decv ds = D"
    unfolding ds_def
  proof (rule decv_take [OF dX])
    show "Suc P \<le> length X" using S(2) by (cases S) (simp_all add: X_def)
    define E where "E = dec_exponent r b"
    define L where "L = length S - 1"
    have "of_nat (decv S) * 10 powi (E - int L) * 10 powi (int P + int L - E) = of_nat D * 10 powi (E - int P) * (10 :: rat) powi (int P + int L - E)"
      using S(3) [of r] D unfolding P E_def L_def by simp
    then have "of_nat (decv S) * (10 :: rat) powi int P = of_nat D * 10 powi int L" unfolding mult.assoc powi10_plus [symmetric] by simp
    then have "(of_nat (decv S * 10 ^ P) :: rat) = of_nat (D * 10 ^ L)" by simp
    then have "decv S * 10 ^ P = D * 10 ^ L" unfolding of_nat_eq_iff .
    then show "decv X = D * 10 ^ (length X - Suc P)" by (simp add: X_def decv_append L_def)
  qed
  ultimately show ?thesis by (rule that)
qed

text \<open>After rounding the digits fit again: a carry out of the first digit moves the exponent.\<close>

lemma round_limbs_digits:
  assumes L: "limbs_less (bm b) (ba b) (bz b)" "ba b < bz b" "bz b \<le> BIG" "bm b (ba b) \<noteq> 0"
    and p: "0 \<le> p" and e: "e = dec_exponent r b" "e < 100000" and W: "W = lval r (bm b) (ba b) (bz b)" "2 * W < 1000000000 * wt r 0"
  obtains b' D e' where "round_limbs r neg (p - e) b e = Some (b', e')" "e' = dec_exponent r b'" "ba b' < bz b'" "limbs_less (bm b') (ba b') (bz b')"
    "bm b' (ba b') \<noteq> 0" "lval r (bm b') (ba b') (bz b') = of_nat D * 10 powi (e' - p)" "\<bar>of_nat D * 10 powi (e' - p) - W\<bar> \<le> 10 powi (e' - p) / 2"
    "e \<le> e'" "e' \<le> e + 1" "W < 10 powi (e' + 1)"
proof -
  define U where "U = (10 :: rat) powi (e - p)"
  define P where "P = nat p"
  obtain b' D where r: "round_limbs r neg (p - e) b e = Some (b', dec_exponent r b')" "ba b' < bz b'" "limbs_less (bm b') (ba b') (bz b')"
      "bm b' (ba b') \<noteq> 0" "lval r (bm b') (ba b') (bz b') = of_nat D * U" "\<bar>of_nat D * U - W\<bar> \<le> U / 2"
    using round_limbs_spec [OF L p e W, of neg] unfolding U_def by blast
  define e' where "e' = dec_exponent r b'"
  have U0: "0 < U" unfolding U_def by (rule powi10_pos)
  have U1: "10 powi e = of_nat (10 ^ P) * U" "10 powi (e + 1) = of_nat (10 ^ Suc P) * U"
  proof -
    have "(10 :: rat) powi p = of_nat (10 ^ P)" using p by (simp add: P_def power_int_def)
    then show "10 powi e = of_nat (10 ^ P) * U" using powi10_plus [of p "e - p"] by (simp add: U_def)
    then show "10 powi (e + 1) = of_nat (10 ^ Suc P) * U" unfolding powi10_plus [of e 1] by simp
  qed
  have Wb: "10 powi e \<le> W" "W < 10 powi (e + 1)" using dec_exponent_spec [OF L(1,2,4), of r] unfolding e(1) W(1) by metis+
  have De: "10 powi e' \<le> of_nat D * U" "of_nat D * U < 10 powi (e' + 1)"
    using dec_exponent_spec [OF r(3,2,4), of r] unfolding r(5) e'_def by metis+
  have dist: "of_nat (Suc n) * U = of_nat n * U + U" for n by (simp add: distrib_right)
  have mono: "of_nat m * U \<le> of_nat n * U" if "m \<le> n" for m n using of_nat_mono [OF that, where 'a = rat] U0 by (intro mult_right_mono) simp_all
  have lo: "10 ^ P \<le> D"
  proof (rule ccontr)
    assume "\<not> 10 ^ P \<le> D"
    then have "Suc D \<le> 10 ^ P" by simp
    from mono [OF this] show False using r(6) Wb(1) U0 unfolding U1 dist by (simp add: abs_le_iff)
  qed
  have hi: "D \<le> 10 ^ Suc P"
  proof (rule ccontr)
    assume "\<not> D \<le> 10 ^ Suc P"
    then have "Suc (10 ^ Suc P) \<le> D" by simp
    from mono [OF this] show False using r(6) Wb(2) U0 unfolding U1 dist abs_le_iff by linarith
  qed
  have "(10 :: rat) powi e < 10 powi (e' + 1)" using mono [OF lo] De(2) unfolding U1 by linarith
  then have ee: "e \<le> e'" unfolding powi10_less_iff by simp
  have up: "10 powi (e' - p) = 10 powi (e' - e) * U" unfolding U_def powi10_plus [symmetric] by simp
  have "\<exists>D'. of_nat D * U = of_nat D' * 10 powi (e' - p) \<and> e' \<le> e + 1"
  proof (cases "D = 10 ^ Suc P")
    case True
    then have v: "of_nat D * U = 10 powi (e + 1)" by (simp add: U1)
    have "(10 :: rat) powi e' < 10 powi (e + 1 + 1)" using De(1) power_int_strict_increasing [of "e + 1" "e + 1 + 1" "10 :: rat"] unfolding v by simp
    then have "e' < e + 1 + 1" unfolding powi10_less_iff .
    moreover have "e + 1 < e' + 1 \<or> e + 1 < e' + 1" using De(2) unfolding v powi10_less_iff by simp
    ultimately have "e' = e + 1" by simp
    then show ?thesis using True unfolding up by (intro exI [of _ "10 ^ P"]) simp
  next
    case False
    then have "Suc D \<le> 10 ^ Suc P" using hi by simp
    from mono [OF this] have "of_nat D * U < 10 powi (e + 1)" using U0 unfolding U1 dist by linarith
    then have "(10 :: rat) powi e' < 10 powi (e + 1)" using De(1) by linarith
    then have "e' = e" using ee unfolding powi10_less_iff by simp
    then show ?thesis unfolding up by (intro exI [of _ D]) simp
  qed
  then obtain D' where D': "of_nat D * U = of_nat D' * 10 powi (e' - p)" "e' \<le> e + 1" by blast
  have "U \<le> 10 powi (e' - p)" unfolding U_def using ee by (intro power_int_increasing) simp_all
  then have "\<bar>of_nat D' * 10 powi (e' - p) - W\<bar> \<le> 10 powi (e' - p) / 2" using r(6) unfolding D'(1) by simp
  moreover have "(10 :: rat) powi (e + 1) \<le> 10 powi (e' + 1)" using ee by (intro power_int_increasing) simp_all
  then have "W < 10 powi (e' + 1)" using Wb(2) by linarith
  ultimately show ?thesis using that [OF r(1) [folded e'_def] e'_def r(2-4) r(5) [unfolded D'(1)] _ ee D'(2)] by blast
qed

lemma dec_exp_text:
  assumes "\<bar>e\<bar> < 100000"
  obtains E where "dec_exp e 101 = CHR ''e'' # exp_sign e @ E" "digit_text E" "E \<noteq> []" "decv E = nat \<bar>e\<bar>" "length E \<le> 5"
proof -
  define s where "s = fp_fmt_u (nat \<bar>e\<bar>) []"
  define E where "E = replicate (2 - length s) (CHR ''0'') @ s"
  have "nat \<bar>e\<bar> < 10 ^ 5" using assms by (simp add: nat_less_iff)
  then have "length s \<le> 5" unfolding s_def fmt_u_length .
  then have "length E \<le> 5" "2 \<le> length E" by (simp_all add: E_def)
  moreover have "digit_text E" "decv E = nat \<bar>e\<bar>" using fmt_u_text [of "nat \<bar>e\<bar>"] by (simp_all add: E_def s_def)
  moreover have ab: "(if e < 0 then - e else e) = \<bar>e\<bar>" by simp
  have c: "chr 101 = CHR ''e''"
  proof -
    have "ord (chr 101) = ord (CHR ''e'')" by simp (simp add: ord_def)
    then show ?thesis by (simp only: ord_eq_iff)
  qed
  have "dec_exp e 101 = CHR ''e'' # exp_sign e @ E"
    unfolding dec_exp_def Let_def ab c s_def [symmetric] E_def exp_sign_def by simp
  ultimately show ?thesis using that [of E] by fastforce
qed

definition e_sign :: "bool \<Rightarrow> byte list" where
  "e_sign neg = (if neg then ''-'' else [])"

lemma dec_out_e_text:
  assumes L: "limbs_less (bm b) (ba b) (bz b)" "ba b < bz b" "bm b (ba b) \<noteq> 0" and p: "0 \<le> p" "p \<le> 2147483000" and fl: "fl = 0 \<or> fl = LEFT_ADJ"
    and pr: "fp_prefix neg fl = (prefix, pl)" and e: "e = dec_exponent r b" "\<bar>e\<bar> < 100000"
    and D: "lval r (bm b) (ba b) (bz b) = of_nat D * 10 powi (e - p)"
  obtains n ps ds k1 k2 where "dec_out r w p fl 101 prefix pl b e = Some (n, ps)"
    "concat ps = replicate k1 (CHR '' '') @ e_sign neg @ e_mantissa p ds @ dec_exp e 101 @ replicate k2 (CHR '' '')"
    "length ds = Suc (nat p)" "digit_text ds" "decv ds = D"
proof -
  have alt: "\<not> has fl ALT_FORM" using fl by (auto simp: has_def)
  have p31: "p < 2 ^ 31" using p(2) by simp
  obtain E where E: "dec_exp e 101 = CHR ''e'' # exp_sign e @ E" "length E \<le> 5" using dec_exp_text [OF e(2)] by metis
  have el: "length (dec_exp e 101) \<le> 7" using E by (simp add: exp_sign_def)
  define dot where "dot = (if p \<noteq> 0 \<or> has fl ALT_FORM then 1 else 0 :: int)"
  define l where "l = 1 + p + dot + int (length (dec_exp e 101))"
  have pl: "pl = 0 \<or> pl = 1" "out_prefix ps prefix pl = put ps (e_sign neg)" for ps
    using pr fl by (auto simp: fp_prefix_def out_prefix_def prefix_str_def e_sign_def has_def split: if_splits)
  have fixed: "\<not> (101 OR 32 = (102 :: int))" by simp
  have ov: "\<not> (p > INT_MAX - 1 - dot \<or> int (length (dec_exp e 101)) > INT_MAX - (1 + p + dot) \<or> l > INT_MAX - pl)"
    using p(2) el pl(1) by (auto simp: dot_def l_def)
  obtain k1 where k1: "concat (fp_pad put [] (CHR '' '') w (pl + l) fl) = replicate k1 (CHR '' '')"
    using fp_pad_text [of "[]" "CHR '' ''" w "pl + l" fl] by auto
  define o2 where "o2 = put (fp_pad put [] (CHR '' '') w (pl + l) fl) (e_sign neg)"
  have nop: "fp_pad put o2 (CHR ''0'') w (pl + l) (fl XOR ZERO_PAD) = o2" using fl by (auto simp: fp_pad_def has_def)
  obtain o4 ds where o4: "e_digits fl p b (dec_exp e 101) o2 = Some o4" "concat o4 = concat o2 @ e_mantissa p ds @ dec_exp e 101"
      "length ds = Suc (nat p)" "digit_text ds" "decv ds = D"
    using e_digits_text [OF L p(1) p31 alt D [unfolded e(1)], of "dec_exp e 101" o2] unfolding e(1) [symmetric] by blast
  obtain k2 where k2: "concat (fp_pad put o4 (CHR '' '') w (pl + l) (fl XOR LEFT_ADJ)) = concat o4 @ replicate k2 (CHR '' '')"
    using fp_pad_text by blast
  have "dec_out r w p fl 101 prefix pl b e = Some (max w (pl + l), fp_pad put o4 (CHR '' '') w (pl + l) (fl XOR LEFT_ADJ))"
    unfolding dec_out_def Let_def if_not_P [OF fixed] dot_def [symmetric] l_def [symmetric] if_not_P [OF ov] pl(2) o2_def [symmetric] nop o4(1) by simp
  moreover have "concat (fp_pad put o4 (CHR '' '') w (pl + l) (fl XOR LEFT_ADJ))
      = replicate k1 (CHR '' '') @ e_sign neg @ e_mantissa p ds @ dec_exp e 101 @ replicate k2 (CHR '' '')"
    unfolding k2 o4(2) o2_def put_concat k1 by simp
  ultimately show ?thesis using that o4(3-5) by blast
qed

subsection \<open>\<^verbatim>\<open>%e\<close> of a number\<close>

lemma cut_unit_small: "0 \<le> p \<Longrightarrow> cut_unit p \<le> 10 powi (- p - 37)"
proof -
  assume "0 \<le> p"
  then have "9 * (0 - int (nat (need p) - 1)) \<le> - p - 37" unfolding need_def by simp
  then show ?thesis unfolding cut_unit_def wt_def int_nat_eq by (intro power_int_increasing) simp_all
qed

lemma limbs_for_error:
  assumes "limbs_for r False p b V" "0 < V" "0 \<le> p" "lval r (bm b) (ba b) (bz b) < 10 powi (e + 1)"
  shows "V - lval r (bm b) (ba b) (bz b) \<le> 1 / 10 ^ 30 * 10 powi (e - p)"
proof -
  define W where "W = lval r (bm b) (ba b) (bz b)"
  define c where "c = (10 :: rat) powi (- p - 37)"
  have c0: "0 < c" unfolding c_def by (rule powi10_pos)
  have "c \<le> 10 powi (- 37)" unfolding c_def using assms(3) by (intro power_int_increasing) simp_all
  then have c37: "c \<le> 1 / 10 ^ 37" by (simp add: power_int_minus)
  have "V - W \<le> 1836 * cut_unit p * V" using assms(1) by (simp add: limbs_for_def W_def)
  also have "\<dots> \<le> 1836 * c * V" using cut_unit_small [OF assms(3)] assms(2) unfolding c_def by (intro mult_right_mono mult_left_mono) simp_all
  finally have d: "V - W \<le> 1836 * c * V" .
  have "1836 * c * V \<le> 1 / 2 * V" using c37 assms(2) by (intro mult_right_mono) simp_all
  then have "V \<le> 2 * W" using d by simp
  then have "V \<le> 20 * 10 powi e" using assms(4) unfolding W_def [symmetric] powi10_plus by simp
  then have "1836 * c * V \<le> 1836 * c * (20 * 10 powi e)" using c0 by (intro mult_left_mono) simp_all
  also have "\<dots> = 36720 * (c * 10 powi e)" by simp
  also have "c * 10 powi e = 10 powi (- 37) * 10 powi (e - p)" unfolding c_def powi10_plus [symmetric] by (rule arg_cong [where f = "power_int 10"]) simp
  also have "36720 * (10 powi (- 37) * 10 powi (e - p)) \<le> 1 / 10 ^ 30 * (10 :: rat) powi (e - p)"
    using powi10_pos [of "e - p"] unfolding mult.assoc [symmetric] by (intro mult_right_mono) (simp_all add: power_int_minus)
  finally show ?thesis using d unfolding W_def by linarith
qed

lemma limbs_for_size:
  assumes "limbs_for r False p b V" "r = 0 \<or> r = 1728"
  shows "2 * lval r (bm b) (ba b) (bz b) < 1000000000 * wt r 0" "\<bar>dec_exponent r b\<bar> < 17000"
proof -
  have b: "limbs_less (bm b) (ba b) (bz b)" "ba b < bz b" "bm b (ba b) \<noteq> 0" "bz b \<le> BIG" "lval r (bm b) (ba b) (bz b) \<le> V"
    "r = 0 \<and> V < 2 ^ 28 \<or> 0 < ba b" using assms(1) by (auto simp: limbs_for_def)
  show "2 * lval r (bm b) (ba b) (bz b) < 1000000000 * wt r 0"
  proof (cases "0 < ba b")
    case True
    have "lval r (bm b) (ba b) (bz b) < 1000000000 * wt r (ba b)" by (rule lval_less [OF b(1)])
    also have "\<dots> \<le> 1000000000 * wt r (Suc 0)" using wt_antimono [of "Suc 0" "ba b" r] True by simp
    also have "\<dots> = wt r 0" using wt_Suc [of r 0] by simp
    finally show ?thesis using wt_pos [of r 0] by linarith
  next
    case False
    then show ?thesis using b(5,6) by auto
  qed
  obtain k where "dec_exponent r b = 9 * (int r - int (ba b)) + int k" "k \<le> 8" using dec_exponent_spec [OF b(1-3), of r] by metis
  then show "\<bar>dec_exponent r b\<bar> < 17000" using assms(2) b(2,4) by auto
qed

lemma fmt_dec_e:
  assumes lf: "limbs_of u y e2 r False p = Some b" "limbs_for r False p b V" "r = (if e2 < 0 then 0 else BIG - 113 - 1)"
    and "0 < V" and p: "0 \<le> p" "p \<le> 2147483000" and fl: "fl = 0 \<or> fl = LEFT_ADJ" and pr: "fp_prefix neg fl = (prefix, pl)"
    and y: "\<not> fzero y0" "fmul quad y0 (FNum False (2 ^ 28)) = y" "e2 = e20 - 28"
  obtains n ps ds e k1 k2 where "fmt_dec u y0 e20 w p fl 101 prefix pl = Some (n, ps)"
    "concat ps = replicate k1 (CHR '' '') @ e_sign neg @ e_mantissa p ds @ dec_exp e 101 @ replicate k2 (CHR '' '')"
    "length ds = Suc (nat p)" "digit_text ds" "10 ^ nat p \<le> decv ds" "\<bar>e\<bar> < 17001"
    "\<bar>of_nat (decv ds) * 10 powi (e - p) - V\<bar> \<le> (1 / 2 + 1 / 10 ^ 30) * 10 powi (e - p)"
proof -
  have b: "limbs_less (bm b) (ba b) (bz b)" "ba b < bz b" "bz b \<le> BIG" "bm b (ba b) \<noteq> 0" "lval r (bm b) (ba b) (bz b) \<le> V"
    using lf(2) by (auto simp: limbs_for_def)
  have r: "r = 0 \<or> r = 1728" using lf(3) by simp
  define W where "W = lval r (bm b) (ba b) (bz b)"
  define e where "e = dec_exponent r b"
  note sz = limbs_for_size [OF lf(2) r, folded W_def e_def]
  have e: "e < 100000" using sz(2) by simp
  define ng where "ng = (pl \<noteq> 0 \<and> prefix_str ! prefix = CHR ''-'')"
  obtain b1 D e1 where b1: "round_limbs r ng (p - e) b e = Some (b1, e1)" "e1 = dec_exponent r b1" "ba b1 < bz b1" "limbs_less (bm b1) (ba b1) (bz b1)"
      "bm b1 (ba b1) \<noteq> 0" "lval r (bm b1) (ba b1) (bz b1) = of_nat D * 10 powi (e1 - p)" "\<bar>of_nat D * 10 powi (e1 - p) - W\<bar> \<le> 10 powi (e1 - p) / 2"
      "e \<le> e1" "e1 \<le> e + 1" "W < 10 powi (e1 + 1)"
    by (rule round_limbs_digits [OF b(1-4) p(1) e_def e W_def sz(1), of ng])
  define b2 where "b2 = b1 \<lparr> bz := trim (bm b1) (ba b1) (bz b1) \<rparr>"
  have lt: "ba b2 < bz b2" using trim_lead [of "ba b1" "bz b1" "bm b1"] b1(3,5) by (simp add: b2_def)
  have "bz b2 \<le> bz b1" using trim_spec [of "bm b1" "ba b1" "bz b1"] by (simp add: b2_def)
  then have ll: "limbs_less (bm b2) (ba b2) (bz b2)" using limbs_less_sub [OF b1(4), of "ba b1" "bz b2"] by (simp add: b2_def)
  have ld: "bm b2 (ba b2) \<noteq> 0" using b1(5) by (simp add: b2_def)
  have e1: "e1 = dec_exponent r b2" unfolding b1(2) dec_exponent_def b2_def by simp
  have val: "lval r (bm b2) (ba b2) (bz b2) = of_nat D * 10 powi (e1 - p)" using b1(3,6) lval_trim [of "ba b1" "bz b1" r "bm b1"] by (simp add: b2_def)
  have eb: "\<bar>e1\<bar> < 17001" using sz(2) b1(8,9) by linarith
  then have eb': "\<bar>e1\<bar> < 100000" by simp
  obtain n ps ds k1 k2 where out: "dec_out r w p fl 101 prefix pl b2 e1 = Some (n, ps)"
      "concat ps = replicate k1 (CHR '' '') @ e_sign neg @ e_mantissa p ds @ dec_exp e1 101 @ replicate k2 (CHR '' '')"
      "length ds = Suc (nat p)" "digit_text ds" "decv ds = D"
    by (rule dec_out_e_text [OF ll lt ld p fl pr e1 eb' val])
  have f: "fmt_dec u y0 e20 w p fl 101 prefix pl = Some (n, ps)"
  proof -
    have t: "\<not> 101 OR 32 = (102 :: int)" "\<not> 101 OR 32 = (103 :: int)" by simp_all
    have pp: "\<not> p < 0" using p(1) by simp
    have tf: "(101 OR 32 = (102 :: int)) = False" "(101 OR 32 = (103 :: int)) = False" using t by blast+
    show ?thesis
      unfolding fmt_dec_def Let_def if_not_P [OF pp] if_not_P [OF y(1)] prod.case y(2) y(3) [symmetric] lf(3) [symmetric]
      unfolding tf lf(1) option.case if_P [OF b(2)] e_def [symmetric] if_False simp_thms diff_0_right ng_def [symmetric] b1(1) prod.case b2_def [symmetric]
      by (rule out(1))
  qed
  have "10 powi e1 \<le> of_nat D * (10 :: rat) powi (e1 - p)" using dec_exponent_spec [OF ll lt ld, of r] unfolding val e1 [symmetric] by metis
  then have "10 powi p * 10 powi (e1 - p) \<le> of_nat D * (10 :: rat) powi (e1 - p)" unfolding powi10_plus [symmetric] by simp
  then have "(10 :: rat) powi p \<le> of_nat D" using powi10_pos [of "e1 - p"] by simp
  then have "of_nat (10 ^ nat p) \<le> (of_nat D :: rat)" using p(1) by (simp add: power_int_def)
  then have "10 ^ nat p \<le> D" unfolding of_nat_le_iff .
  moreover have "V - W \<le> 1 / 10 ^ 30 * 10 powi (e1 - p)" using limbs_for_error [OF lf(2) assms(4) p(1), folded W_def] b1(10) by blast
  then have "\<bar>of_nat D * 10 powi (e1 - p) - V\<bar> \<le> (1 / 2 + 1 / 10 ^ 30) * 10 powi (e1 - p)"
    using b1(7) b(5) powi10_pos [of "e1 - p"] unfolding W_def [symmetric] distrib_right abs_le_iff by linarith
  ultimately show ?thesis using that [OF f out(2-4) _ eb] unfolding out(5) by blast
qed

lemma fmt_fp_e:
  assumes V: "in_fmt quad V" "0 < V" "V < 2 powi maxexp quad" and p: "0 \<le> p" "p \<le> 2147483000" and fl: "fl = 0 \<or> fl = LEFT_ADJ"
  obtains n ps ds e k1 k2 where "fmt_fp u (FNum neg V) w p fl 101 = Some (n, ps)"
    "concat ps = replicate k1 (CHR '' '') @ e_sign neg @ e_mantissa p ds @ dec_exp e 101 @ replicate k2 (CHR '' '')"
    "length ds = Suc (nat p)" "digit_text ds" "10 ^ nat p \<le> decv ds" "\<bar>e\<bar> < 17001"
    "\<bar>of_nat (decv ds) * 10 powi (e - p) - V\<bar> \<le> (1 / 2 + 1 / 10 ^ 30) * 10 powi (e - p)"
proof -
  obtain prefix pl where px: "fp_prefix neg fl = (prefix, pl)" by (cases "fp_prefix neg fl")
  define e where "e = rexp V"
  define y0 where "y0 = fmul quad (FNum False (V / 2 powi (e + 1))) (FNum False 2)"
  obtain N k where N: "fmul quad y0 (FNum False (2 ^ 28)) = FNum False (of_nat N / 2 ^ k)"
    "V = of_nat N / 2 ^ k * 2 powi (e - 28)" "N \<le> 2 ^ 113" "k \<le> 84" "N < 1000000000 * 2 ^ k" "N div 2 ^ k \<noteq> 0" "of_nat N / 2 ^ k < (2 ^ 29 :: rat)"
    "k = 0 \<or> int k \<le> e - 28 + 16494" "-16494 \<le> e" "e < 16384"
    using significand_28 [OF V] unfolding e_def y0_def by metis
  have nz: "\<not> fzero y0"
  proof
    assume "fzero y0"
    then obtain s where "y0 = FNum s 0" by (auto simp: fzero_def split: fp.splits)
    then have "(of_nat N / 2 ^ k :: rat) = 0" using N(1) by (simp add: fmul_def)
    then show False using N(6) by simp
  qed
  define r :: nat where "r = (if e - 28 < 0 then 0 else BIG - 113 - 1)"
  have "k = 0 \<or> int k \<le> (e - 28) + 16494" "-16522 \<le> e - 28" "e - 28 \<le> 16355" using N(8-10) by simp_all
  from limbs_of_spec [OF N(2-7) this p(1) r_def, of u False] obtain b where
    b: "limbs_of u (FNum False (of_nat N / 2 ^ k)) (e - 28) r False p = Some b" "limbs_for r False p b V" by blast
  obtain n ps ds e' k1 k2 where d: "fmt_dec u y0 e w p fl 101 prefix pl = Some (n, ps)"
    "concat ps = replicate k1 (CHR '' '') @ e_sign neg @ e_mantissa p ds @ dec_exp e' 101 @ replicate k2 (CHR '' '')"
    "length ds = Suc (nat p)" "digit_text ds" "10 ^ nat p \<le> decv ds" "\<bar>e'\<bar> < 17001"
    "\<bar>of_nat (decv ds) * 10 powi (e' - p) - V\<bar> \<le> (1 / 2 + 1 / 10 ^ 30) * 10 powi (e' - p)"
    by (rule fmt_dec_e [OF b r_def V(2) p fl px nz N(1) refl])
  have sn: "fsign (FNum neg V) = neg" "(if neg then fneg (FNum neg V) else FNum neg V) = FNum False V" by (auto simp: fsign_def fneg_def)
  have "frexp (FNum False V) = (FNum False (V / 2 powi (e + 1)), e + 1)" using V(2) by (simp add: frexp_def e_def)
  then have "fmt_fp u (FNum neg V) w p fl 101 = Some (n, ps)"
    unfolding fmt_fp_def sn px Let_def using nz d(1) by (simp add: y0_def)
  then show ?thesis using that d(2-7) by blast
qed

end
