(* ===== verification/FmtExp.thy ===== *)
theory FmtExp
  imports FmtRound
begin

text \<open>
  \<^verbatim>\<open>%e\<close> of \<^verbatim>\<open>printf\<close>: the decimal number printed is as near as its digits allow, and the seventeen digits of
  \<^verbatim>\<open>%.16e\<close> are enough for \<^verbatim>\<open>strtod\<close> to find the same \<^verbatim>\<open>double\<close> again.
\<close>

subsection \<open>A number nearer than half a unit\<close>

lemma rne_close:
  assumes "\<bar>y - of_int n\<bar> < 1 / 2"
  shows "rne y = n"
proof (cases "of_int n \<le> y")
  case True
  then show ?thesis using rne_frac [of "y - of_int n" n] assms by simp
next
  case False
  then show ?thesis using rne_frac [of "y - of_int (n - 1)" "n - 1"] assms by simp
qed

text \<open>The grid on which the numbers of a format with exponent \<open>E\<close> or more lie.\<close>

lemma in_fmt_grid:
  assumes "in_fmt F x" "2 powi E \<le> x" "l \<le> max (E - mant F + 1) (least F)" "0 < mant F"
  obtains X where "x = of_int X * 2 powi l"
proof -
  obtain n f where n: "x = of_int n * 2 powi f" "0 \<le> n" "n < 2 ^ nat (mant F)" "least F \<le> f" using assms(1) by (auto simp: in_fmt_def)
  have "(of_int n :: rat) < of_int (2 ^ nat (mant F))" using n(3) unfolding of_int_less_iff .
  also have "\<dots> = 2 powi mant F" using assms(4) by (simp add: power_int_def)
  finally have "x < 2 powi mant F * 2 powi f" unfolding n(1) using powi_pos [of f] by (intro mult_strict_right_mono)
  then have "(2 :: rat) powi E < 2 powi (mant F + f)" using assms(2) by (simp add: powi_plus)
  then have lf: "l \<le> f" using assms(3) n(4) unfolding powi_less_iff by simp
  have "2 powi f = 2 powi (int (nat (f - l)) + l)" using lf by simp
  also have "\<dots> = of_int (2 ^ nat (f - l)) * (2 :: rat) powi l" unfolding powi_plus powi_nat ..
  finally have "x = of_int (n * 2 ^ nat (f - l)) * 2 powi l" unfolding n(1) by simp
  then show ?thesis by (rule that)
qed

lemma fround_close:
  assumes F: "in_fmt F x" "x < 2 powi maxexp F" "0 < mant F" and x: "0 < x" and d: "\<bar>v - x\<bar> \<le> c * v" "0 < v" and c: "0 \<le> c" "c < 2 powi (- mant F - 1)"
  shows "fround F s v = FNum s x"
proof -
  define E where "E = rexp x"
  define R where "R = rexp v"
  define l where "l = max (R - mant F + 1) (least F)"
  note ex = rexp_bounds [OF x, folded E_def] and rv = rexp_bounds [OF d(2), folded R_def]
  have cv: "c * v < 2 powi (- mant F - 1) * v" using c(2) d(2) by (rule mult_strict_right_mono)
  have "c * v < 2 powi (- mant F - 1) * 2 powi (R + 1)"
    using cv mult_strict_left_mono [OF rv(2) powi_pos [of "- mant F - 1"]] by linarith
  then have dl: "\<bar>v - x\<bar> < 2 powi (R - mant F)" using d(1) unfolding powi_plus [symmetric] by (simp add: add.commute)
  have RE: "R \<le> E"
  proof (rule ccontr)
    assume "\<not> R \<le> E"
    then have "(2 :: rat) powi (E + 1) \<le> 2 powi R" by (intro powi_mono) simp
    then have v: "2 powi (E + 1) \<le> v" using rv(1) by linarith
    define g where "g = max (E - mant F + 1) (least F)"
    obtain X where X: "x = of_int X * 2 powi g" using in_fmt_grid [OF F(1) ex(1), of g] F(3) by (auto simp: g_def)
    have "least F \<le> E"
    proof -
      obtain n f where n: "x = of_int n * 2 powi f" "least F \<le> f" using F(1) by (auto simp: in_fmt_def)
      have "0 < (of_int n :: rat)" using x powi_pos [of f] unfolding n(1) by (simp add: zero_less_mult_iff)
      then have "1 * 2 powi f \<le> of_int n * (2 :: rat) powi f" using powi_pos [of f] by (intro mult_right_mono) simp_all
      then have "(2 :: rat) powi f < 2 powi (E + 1)" using ex(2) unfolding n(1) by linarith
      then show ?thesis using n(2) unfolding powi_less_iff by simp
    qed
    then have gE: "g \<le> E + 1" using F(3) by (simp add: g_def)
    have p: "2 powi (E + 1) = of_int (2 ^ nat (E + 1 - g)) * (2 :: rat) powi g"
      using gE unfolding powi_nat [symmetric] powi_plus [symmetric] by simp
    have "of_int X * 2 powi g < of_int (2 ^ nat (E + 1 - g)) * (2 :: rat) powi g" using ex(2) unfolding X p .
    then have "(of_int X :: rat) < of_int (2 ^ nat (E + 1 - g))" using powi_pos [of g] by (simp only: mult_less_cancel_right_pos)
    then have "X + 1 \<le> 2 ^ nat (E + 1 - g)" unfolding of_int_less_iff by simp
    then have "(of_int (X + 1) :: rat) \<le> of_int (2 ^ nat (E + 1 - g))" unfolding of_int_le_iff .
    then have "of_int (X + 1) * 2 powi g \<le> of_int (2 ^ nat (E + 1 - g)) * (2 :: rat) powi g" using powi_pos [of g] by (intro mult_right_mono) simp_all
    then have gap: "x + 2 powi g \<le> v" using v unfolding p X by (simp add: distrib_right)
    have "(2 :: rat) powi (- mant F - 1) \<le> 2 powi (- 1)" using F(3) by (intro powi_mono) simp
    then have "2 powi (- mant F - 1) * v \<le> 2 powi (- 1) * v" using d(2) by (intro mult_right_mono) simp_all
    then have "v \<le> 2 * x" using d(1) cv by (simp add: power_int_minus abs_le_iff)
    moreover have "(2 :: rat) powi (E + 2) = 2 powi (E + 1) * 2" using powi_plus [of "E + 1" 1] by (simp add: add.commute)
    ultimately have "v < 2 powi (E + 2)" using ex(2) by simp
    then have "2 powi (- mant F - 1) * v < 2 powi (- mant F - 1) * 2 powi (E + 2)" using powi_pos by (intro mult_strict_left_mono)
    also have "\<dots> = (2 :: rat) powi (E - mant F + 1)" unfolding powi_plus [symmetric] by (simp add: algebra_simps)
    also have "\<dots> \<le> 2 powi g" by (rule powi_mono) (simp add: g_def)
    finally show False using gap cv d(1) by (simp add: abs_le_iff)
  qed
  have "l \<le> max (E - mant F + 1) (least F)" using RE unfolding l_def by linarith
  then obtain X where X: "x = of_int X * 2 powi l" by (rule in_fmt_grid [OF F(1) ex(1) _ F(3)])
  have "(2 :: rat) powi (R - mant F) \<le> 2 powi (l - 1)" by (rule powi_mono) (simp add: l_def)
  then have "\<bar>v - x\<bar> < 2 powi (l - 1)" using dl by linarith
  also have "\<dots> = 1 / 2 * (2 :: rat) powi l" by (simp add: powi_minus)
  finally have "\<bar>v - x\<bar> / 2 powi l < 1 / 2" using powi_pos [of l] by (simp add: divide_less_eq)
  moreover have "v / 2 powi l - of_int X = (v - x) / 2 powi l" by (simp add: X diff_divide_distrib)
  ultimately have "\<bar>v / 2 powi l - of_int X\<bar> < 1 / 2" using powi_pos [of l] by (simp add: abs_divide)
  then have "rne (v / 2 powi l) = X" by (rule rne_close)
  then show ?thesis using fround_eq [OF d(2), of F l s] F(2) X by (simp add: l_def R_def)
qed

subsection \<open>What \<^verbatim>\<open>printf\<close> writes\<close>

lemma formatted_star_e:
  assumes "L = [] \<and> x = ADouble v \<or> L = ''L'' \<and> x = ALDouble v" "0 \<le> p" "p < 2 ^ 31"
  obtains w' fl where "fl = 0 \<or> fl = LEFT_ADJ" "formatted fp (''%*.*'' @ L @ ''e'') [AInt w, AInt p, x]
    = Some (to_int32 (int (length (concat (fp v w' p fl CHR ''e'')))), concat (fp v w' p fl CHR ''e''), [])"
proof -
  define w' where "w' = (if to_int32 w < 0 then to_int32 (- to_int32 w) else to_int32 w)"
  define fl where "fl = (if to_int32 w < 0 then F_MINUS else 0)"
  have p: "to_int32 p = p" using assms(2,3) by simp
  have g: "get_spec (''*.*'' @ L @ ''e'') [AInt w, AInt p, x] = Some ((fl, w', p, 0, L \<noteq> []), ''e'', [x])"
    using assms(1,2) by (cases "to_int32 w < 0") (auto simp: get_spec_def get_width_def get_prec_def at_def fl_def w'_def p)
  have "va_float (L \<noteq> []) [x] = Some (v, [])" using assms(1) by auto
  then have c: "convert fp emit_text length [] CHR ''e'' (fl, w', p, 0, L \<noteq> []) [x] = Some (put_float fp emit_text [] v CHR ''e'' fl w' p, [], [])"
    by (simp add: convert_def)
  obtain fl' where pf: "put_float fp emit_text [] v CHR ''e'' fl w' p = concat (fp v w' p fl' CHR ''e'')" and fl: "fl' = 0 \<or> fl' = LEFT_ADJ"
    by (auto simp: put_float_def fold_emit_text Let_def fl_def has_def split: if_splits)
  have "StdlibNum.at ''e'' 0 = CHR ''e''" by (simp add: at_def)
  then show ?thesis using that [OF fl, of w'] g c unfolding pf formatted_def vformat_def by simp
qed

definition e_text :: "bool \<Rightarrow> int \<Rightarrow> byte list \<Rightarrow> int \<Rightarrow> byte list" where
  "e_text neg p ds e = e_sign neg @ e_mantissa p ds @ dec_exp e 101"

lemma formatted_e:
  assumes "L = [] \<and> F = double \<and> a = ADouble (FNum neg x) \<or> L = ''L'' \<and> F = quad \<and> a = ALDouble (FNum neg x)"
    and "representable F (FNum neg x)" "x \<noteq> 0" "0 \<le> p" "p \<le> 2147483000"
  obtains r k1 k2 ds e where "formatted (fmt_fp_pieces u) (''%*.*'' @ L @ ''e'') [AInt w, AInt p, a]
      = Some (r, replicate k1 (CHR '' '') @ e_text neg p ds e @ replicate k2 (CHR '' ''), [])"
    "length ds = Suc (nat p)" "digit_text ds" "10 ^ nat p \<le> decv ds" "\<bar>e\<bar> < 17001"
    "\<bar>of_nat (decv ds) * 10 powi (e - p) - x\<bar> \<le> (1 / 2 + 1 / 10 ^ 30) * 10 powi (e - p)"
proof -
  have F: "wide F" using assms(1) by (auto simp: wide_def)
  note x = representable_parts [OF assms(2)]
  have x0: "0 < x" using x assms(3) by simp
  have "(2 :: rat) powi maxexp F \<le> 2 powi maxexp quad" using wide [OF F] by (intro powi_mono) (simp add: quad_def)
  then have xq: "x < 2 powi maxexp quad" using x by simp
  have p31: "p < 2 ^ 31" using assms(5) by simp
  have La: "L = [] \<and> a = ADouble (FNum neg x) \<or> L = ''L'' \<and> a = ALDouble (FNum neg x)" using assms(1) by blast
  obtain w' fl where f: "fl = 0 \<or> fl = LEFT_ADJ" "formatted (fmt_fp_pieces u) (''%*.*'' @ L @ ''e'') [AInt w, AInt p, a]
      = Some (to_int32 (int (length (concat (fmt_fp_pieces u (FNum neg x) w' p fl CHR ''e'')))), concat (fmt_fp_pieces u (FNum neg x) w' p fl CHR ''e''), [])"
    by (rule formatted_star_e [OF La assms(4) p31, of "fmt_fp_pieces u" w])
  obtain n ps ds e k1 k2 where t: "fmt_fp u (FNum neg x) w' p fl 101 = Some (n, ps)"
    "concat ps = replicate k1 (CHR '' '') @ e_sign neg @ e_mantissa p ds @ dec_exp e 101 @ replicate k2 (CHR '' '')"
    "length ds = Suc (nat p)" "digit_text ds" "10 ^ nat p \<le> decv ds" "\<bar>e\<bar> < 17001"
    "\<bar>of_nat (decv ds) * 10 powi (e - p) - x\<bar> \<le> (1 / 2 + 1 / 10 ^ 30) * 10 powi (e - p)"
    by (rule fmt_fp_e [OF in_fmt_quad [OF F conjunct1 [OF x]] x0 xq assms(4,5) f(1), of u neg w'])
  have "ord CHR ''e'' = 101" by (simp add: ord_def)
  then have "concat (fmt_fp_pieces u (FNum neg x) w' p fl CHR ''e'') = replicate k1 (CHR '' '') @ e_text neg p ds e @ replicate k2 (CHR '' '')"
    by (simp add: fmt_fp_pieces_def t(1,2) e_text_def)
  then show ?thesis using that f(2) t(3-7) by metis
qed

subsection \<open>What \<^verbatim>\<open>strtod\<close> reads\<close>

lemma e_text_numeral:
  assumes "length ds = Suc (nat p)" "digit_text ds" "0 < p" "p \<le> 12000" "\<bar>e\<bar> < 17001"
  obtains I Fr ex where "e_text neg p ds e = numeral_text (e_sign neg) I Fr ex" "numeral_ok (e_sign neg) I Fr ex" "num_int I Fr = decv ds" "num_exp Fr ex = e - p"
proof -
  obtain d rest where ds: "ds = d # rest" "length rest = nat p" using assms(1) by (cases ds) auto
  have "\<bar>e\<bar> < 100000" using assms(5) by simp
  from dec_exp_text [OF this] obtain E where E: "dec_exp e 101 = CHR ''e'' # exp_sign e @ E" "digit_text E" "E \<noteq> []" "decv E = nat \<bar>e\<bar>" by metis
  define ex where "ex = Some (CHR ''e'', exp_sign e, E)"
  have "e_text neg p ds e = numeral_text (e_sign neg) [d] (Some rest) ex"
    using assms(3) E(1) by (simp add: e_text_def e_mantissa_def ds numeral_text_def mant_text_def exp_text_def ex_def)
  moreover have "numeral_ok (e_sign neg) [d] (Some rest) ex"
    using assms E(2-4) ds by (auto simp: numeral_ok_def mant_ok_def frac_digits_def exp_ok_def ex_def e_sign_def exp_sign_def sign_text_def nat_less_iff)
  moreover have "num_int [d] (Some rest) = decv ds" by (simp add: num_int_def frac_digits_def ds)
  moreover have "num_exp (Some rest) ex = e - p"
    using assms(3) E(4) ds(2) by (simp add: num_exp_def frac_digits_def ex_def exp_value_def apply_sign_def exp_sign_def)
  ultimately show ?thesis by (rule that)
qed

text \<open>Seventeen digits are never a numeral for which \<^verbatim>\<open>strtod\<close> goes wrong: five to the power needed does not divide them.\<close>

lemma digits17_not_short:
  assumes "10 ^ 16 \<le> N" "N < 10 ^ 17"
  shows "\<not> short_limbs N e"
proof
  assume "short_limbs N e"
  then obtain c where c: "of_nat N * 10 powi e < (10 :: rat) ^ (9 * c)" "5 ^ nat (9 * (int c + 1) - e) dvd N"
    unfolding short_limbs_def by blast
  have "(10 :: rat) powi 16 \<le> of_nat N" using of_nat_mono [OF assms(1), where 'a = rat] by simp
  then have "10 powi 16 * 10 powi e \<le> of_nat N * (10 :: rat) powi e" using powi10_pos [of e] by (intro mult_right_mono) simp_all
  then have "(10 :: rat) powi (16 + e) < 10 powi int (9 * c)" using c(1) unfolding powi10_plus power_int_of_nat by linarith
  then have "26 \<le> nat (9 * (int c + 1) - e)" unfolding powi10_less_iff by simp
  then have "(5 :: nat) ^ 26 dvd 5 ^ nat (9 * (int c + 1) - e)" by (rule le_imp_power_dvd)
  then have "5 ^ 26 dvd N" using c(2) by (rule dvd_trans)
  then have "5 ^ 26 \<le> N" by (rule dvd_imp_le) (use assms(1) in simp)
  then show False using assms(2) by simp
qed

lemma printed_e_read:
  assumes x: "representable double (FNum neg x)" "x \<noteq> 0" "neg \<Longrightarrow> 2 powi (-1073) < x"
    and ds: "length ds = 17" "digit_text ds" "10 ^ 16 \<le> decv ds" "\<bar>e\<bar> < 17001"
      "\<bar>of_nat (decv ds) * 10 powi (e - 16) - x\<bar> \<le> (1 / 2 + 1 / 10 ^ 30) * 10 powi (e - 16)"
  shows "\<exists>en'. strtod u (replicate k1 (CHR '' '') @ e_text neg 16 ds e @ replicate k2 (CHR '' '')) en
    = Inr (FNum neg x, k1 + length (e_text neg 16 ds e), en')"
proof -
  note xp = representable_parts [OF x(1)]
  have x0: "0 < x" using xp x(2) by simp
  define v where "v = of_nat (decv ds) * (10 :: rat) powi (e - 16)"
  define c :: rat where "c = (1 / 2 + 1 / 10 ^ 30) / 10 ^ 16"
  have "(10 :: rat) ^ 16 \<le> of_nat (decv ds)" using of_nat_mono [OF ds(3), where 'a = rat] by simp
  then have Uv: "10 ^ 16 * 10 powi (e - 16) \<le> v" unfolding v_def using powi10_pos [of "e - 16"] by (intro mult_right_mono) simp_all
  moreover have "0 < 10 ^ 16 * (10 :: rat) powi (e - 16)" using powi10_pos [of "e - 16"] by simp
  ultimately have v0: "0 < v" by (rule less_le_trans [rotated])
  have "(1 / 2 + 1 / 10 ^ 30) * 10 powi (e - 16) = c * (10 ^ 16 * 10 powi (e - 16))" by (simp add: c_def)
  also have "\<dots> \<le> c * v" using Uv by (intro mult_left_mono) (simp_all add: c_def)
  finally have d: "\<bar>v - x\<bar> \<le> c * v" using ds(5) unfolding v_def by linarith
  have cs: "0 \<le> c" "c < 2 powi (- mant double - 1)" by (simp_all add: c_def double_def power_int_minus)
  have "0 < mant double" by (simp add: double_def)
  from fround_close [OF conjunct1 [OF xp] conjunct2 [OF conjunct2 [OF xp]] this x0 d v0 cs, of neg]
  have fr: "fround double neg v = FNum neg x" .
  have p16: "length ds = Suc (nat 16)" "(0 :: int) < 16" "(16 :: int) \<le> 12000" using ds(1) by simp_all
  obtain I Fr ex where nt: "e_text neg 16 ds e = numeral_text (e_sign neg) I Fr ex" "numeral_ok (e_sign neg) I Fr ex" "num_int I Fr = decv ds" "num_exp Fr ex = e - 16"
    by (rule e_text_numeral [OF p16(1) ds(2) p16(2,3) ds(4)])
  have "decv ds < 10 ^ 17" using decv_less [OF ds(2)] ds(1) by simp
  then have ns: "\<not> short_limbs (num_int I Fr) (num_exp Fr ex)" unfolding nt(3) by (rule digits17_not_short [OF ds(3)])
  have big: "2 powi (least double + 1) \<le> v" if neg
  proof -
    obtain X where X: "x = of_int X * 2 powi (-1074)"
      by (rule in_fmt_grid [OF conjunct1 [OF xp] rexp_bounds(1) [OF x0], of "-1074"]) (simp_all add: double_def)
    have "of_int 2 * 2 powi (-1074) < of_int X * (2 :: rat) powi (-1074)" using x(3) [OF that] powi_plus [of "-1074" 1] unfolding X by simp
    then have "(of_int 2 :: rat) < of_int X" using powi_pos [of "-1074"] by (simp only: mult_less_cancel_right_pos)
    then have "3 \<le> X" by simp
    then have "(of_int 3 :: rat) \<le> of_int X" unfolding of_int_le_iff .
    then have "of_int 3 * 2 powi (-1074) \<le> x" unfolding X using powi_pos [of "-1074"] by (intro mult_right_mono) simp_all
    moreover have "c * v \<le> 1 / 2 * v" using v0 by (intro mult_right_mono) (simp_all add: c_def)
    ultimately have "2 * 2 powi (-1074) \<le> v" using d by (simp add: abs_le_iff)
    then show ?thesis using powi_plus [of "-1074" 1] by (simp add: double_def)
  qed
  have ws: "\<forall>y \<in> set (replicate k1 (CHR '' '')). isspace (ord y)" by (simp add: isspace_def ord_def)
  have st: "stops (replicate k2 (CHR '' ''))" by (cases k2) (simp_all add: stops_def dig_def ord_def)
  have fm: "prec_fmt 1 = Some double" "narrow double" by (simp_all add: prec_fmt_def narrow_def)
  have sg: "e_sign neg = ''-'' \<longleftrightarrow> neg" by (simp add: e_sign_def)
  have ng: "num_int I Fr = 0 \<or> 2 powi (least double + 1) \<le> of_nat (num_int I Fr) * (10 :: rat) powi num_exp Fr ex" if "e_sign neg = ''-''"
    using big that unfolding sg nt(3,4) v_def by blast
  obtain en' where "conv_result double (strtox u (replicate k1 (CHR '' '') @ numeral_text (e_sign neg) I Fr ex @ replicate k2 (CHR '' '')) 1 en)
      = Inr (fround double neg v, length (replicate k1 (CHR '' '')) + length (numeral_text (e_sign neg) I Fr ex), en')"
    using strtox_rounds [OF refl ws nt(2) st fm ns ng, of u en] unfolding sg nt(3,4) v_def [symmetric] by blast
  then show ?thesis unfolding strtod_def nt(1) fr by simp
qed

subsection \<open>Properties\<close>

text \<open>C39: \<^verbatim>\<open>%.*e\<close> prints the number as near as its digits allow: for every finite \<^verbatim>\<open>double\<close> but zero (and \<^verbatim>\<open>long double\<close>
  with \<^verbatim>\<open>L\<close>), every precision \<open>p\<close> and every width, the text is padding, the sign, a digit that is not zero, the point with \<open>p\<close>
  digits, and the exponent; the number it stands for differs from the argument by at most half a unit of the last
  digit, up to a fraction of \<open>10 ^ -30\<close> of that unit that the cut behind the digits needed can cost.\<close>

theorem printf_e_nearest:
  assumes "L = [] \<and> F = double \<and> a = ADouble (FNum neg x) \<or> L = ''L'' \<and> F = quad \<and> a = ALDouble (FNum neg x)"
    and "representable F (FNum neg x)" "x \<noteq> 0" "0 \<le> p" "p \<le> 2147483000"
  shows "\<exists>r k1 k2 ds e. formatted (fmt_fp_pieces u) (''%*.*'' @ L @ ''e'') [AInt w, AInt p, a]
      = Some (r, replicate k1 (CHR '' '') @ e_text neg p ds e @ replicate k2 (CHR '' ''), [])
    \<and> length ds = Suc (nat p) \<and> digit_text ds \<and> hd ds \<noteq> CHR ''0''
    \<and> \<bar>of_nat (digits_value 10 0 ds) * 10 powi (e - p) - x\<bar> \<le> (1 / 2 + 1 / 10 ^ 30) * 10 powi (e - p)"
proof -
  obtain r k1 k2 ds e where t: "formatted (fmt_fp_pieces u) (''%*.*'' @ L @ ''e'') [AInt w, AInt p, a]
      = Some (r, replicate k1 (CHR '' '') @ e_text neg p ds e @ replicate k2 (CHR '' ''), [])"
    "length ds = Suc (nat p)" "digit_text ds" "10 ^ nat p \<le> decv ds" "\<bar>e\<bar> < 17001"
    "\<bar>of_nat (decv ds) * 10 powi (e - p) - x\<bar> \<le> (1 / 2 + 1 / 10 ^ 30) * 10 powi (e - p)"
    by (rule formatted_e [OF assms])
  have "hd ds \<noteq> CHR ''0''"
  proof
    assume "hd ds = CHR ''0''"
    then obtain rest where "ds = CHR ''0'' # rest" using t(2) by (cases ds) auto
    then have "decv ds = decv rest" "digit_text rest" "length rest = nat p" using t(2,3) decv_zeros [of 1 rest] by simp_all
    then show False using decv_less [of rest] t(4) by simp
  qed
  then show ?thesis using t by blast
qed

lemma powi_double: "in_fmt double (3 / 2)" "(3 / 2 :: rat) < 2 powi maxexp double"
proof -
  show "in_fmt double (3 / 2)"
    unfolding in_fmt_def by (rule exI [of _ 3], rule exI [of _ "-1"], simp add: double_def power_int_minus)
  have "(2 :: rat) powi 1 \<le> 2 powi maxexp double" by (rule powi_mono) (simp add: double_def)
  then show "(3 / 2 :: rat) < 2 powi maxexp double" by simp
qed

theorem printf_e_nearest_witness:
  "\<exists>r k1 k2 ds e. formatted (fmt_fp_pieces (\<lambda>_. 7)) ''%*.*e'' [AInt 12, AInt 3, ADouble (FNum True (3 / 2))]
      = Some (r, replicate k1 (CHR '' '') @ e_text True 3 ds e @ replicate k2 (CHR '' ''), [])
    \<and> length ds = 4 \<and> \<bar>of_nat (digits_value 10 0 ds) * 10 powi (e - 3) - 3 / 2\<bar> \<le> (1 / 2 + 1 / 10 ^ 30 :: rat) * 10 powi (e - 3)"
proof -
  have "representable double (FNum True (3 / 2))" using powi_double by (simp add: representable_def)
  from printf_e_nearest [OF disjI1 [OF conjI [OF refl conjI [OF refl refl]]] this, of 3 "\<lambda>_. 7" 12] show ?thesis by fastforce
qed

text \<open>C40: Seventeen digits are enough: what \<^verbatim>\<open>printf\<close> writes with \<^verbatim>\<open>%.16e\<close> for a finite \<^verbatim>\<open>double\<close> other than zero, in a field of
  any width, \<^verbatim>\<open>strtod\<close> reads back as the same \<^verbatim>\<open>double\<close>, and it stops only at the padding. Excluded are the two least
  negative subnormal magnitudes, where \<^verbatim>\<open>strtod\<close> does not round negative numbers correctly.\<close>

theorem printf_strtod_exp:
  assumes "representable double (FNum neg x)" "x \<noteq> 0" "neg \<Longrightarrow> 2 powi (-1073) < x"
  shows "\<exists>r t q k en'. formatted (fmt_fp_pieces u) ''%*.*e'' [AInt w, AInt 16, ADouble (FNum neg x)] = Some (r, t, [])
    \<and> strtod u' t en = Inr (FNum neg x, q, en') \<and> drop q t = replicate k (CHR '' '')"
proof -
  obtain r k1 k2 ds e where f: "formatted (fmt_fp_pieces u) (''%*.*'' @ [] @ ''e'') [AInt w, AInt 16, ADouble (FNum neg x)]
      = Some (r, replicate k1 (CHR '' '') @ e_text neg 16 ds e @ replicate k2 (CHR '' ''), [])"
    "length ds = Suc (nat 16)" "digit_text ds" "10 ^ nat 16 \<le> decv ds" "\<bar>e\<bar> < 17001"
    "\<bar>of_nat (decv ds) * 10 powi (e - 16) - x\<bar> \<le> (1 / 2 + 1 / 10 ^ 30) * 10 powi (e - 16)"
    by (rule formatted_e [OF disjI1 [OF conjI [OF refl conjI [OF refl refl]]] assms(1,2), of 16]) simp_all
  define t where "t = replicate k1 (CHR '' '') @ e_text neg 16 ds e @ replicate k2 (CHR '' '')"
  have ds: "length ds = 17" "10 ^ 16 \<le> decv ds" using f(2,4) by simp_all
  obtain en' where s: "strtod u' t en = Inr (FNum neg x, k1 + length (e_text neg 16 ds e), en')"
    using printed_e_read [OF assms ds(1) f(3) ds(2) f(5,6)] unfolding t_def by blast
  have "drop (k1 + length (e_text neg 16 ds e)) t = replicate k2 (CHR '' '')" by (simp add: t_def)
  moreover have "formatted (fmt_fp_pieces u) ''%*.*e'' [AInt w, AInt 16, ADouble (FNum neg x)] = Some (r, t, [])" using f(1) by (simp add: t_def)
  ultimately show ?thesis using s by blast
qed

theorem printf_strtod_exp_witness:
  "\<exists>r t q k en'. formatted (fmt_fp_pieces (\<lambda>_. 7)) ''%*.*e'' [AInt (-30), AInt 16, ADouble (FNum True (3 / 2))] = Some (r, t, [])
    \<and> strtod (\<lambda>_. 0) t 0 = Inr (FNum True (3 / 2), q, en') \<and> drop q t = replicate k (CHR '' '')"
proof -
  have "representable double (FNum True (3 / 2))" using powi_double by (simp add: representable_def)
  moreover have "(2 :: rat) powi (-1073) \<le> 2 powi 0" by (rule powi_mono) simp
  ultimately show ?thesis using printf_strtod_exp [of True "3 / 2" "\<lambda>_. 7" "-30" "\<lambda>_. 0" 0] by simp
qed

end
