(* ===== verification/Spec2Isabelle.thy ===== *)
theory Spec2Isabelle
  imports CString Ctype StdlibNum StdlibSort Stdio Printf RcEnv TimeC RcProc Exit InetAddr RcSocket RcPthread RcSignal Wchar Scanf Runtime FmtExp
begin

text \<open>
  Verification of the C library of racccoon.

  racccoon is a small operating system whose kernel and servers are written in C3. Programs in C are
  linked against the library in \<^verbatim>\<open>src/lib/racccoon-libc\<close>, which is the program verified here: it turns the
  kernel's system calls and the message protocols of its servers into the C and POSIX interfaces.

  \<^bold>\<open>How the library is put together.\<close> The lowest layer is the kernel, reached by \<^verbatim>\<open>ecall\<close>. Files live in
  servers: a path is normalised, translated by the kernel into a server and a name, and one message
  of at most 8192 bytes is exchanged (\<^verbatim>\<open>rc_fs.c\<close>). On top of that \<^verbatim>\<open>rc_posix.c\<close> keeps a table of 64
  descriptors; sockets (\<^verbatim>\<open>rc_socket.c\<close>) are descriptors whose operations are reads and writes of the
  files of a conversation below \<^verbatim>\<open>/net\<close>. Streams (\<^verbatim>\<open>stdio.c\<close>) buffer descriptors, the formatter (\<^verbatim>\<open>printf.c\<close>)
  writes into streams or strings, the scanner (\<^verbatim>\<open>scanf.c\<close>) reads lines of a stream. Processes
  (\<^verbatim>\<open>rc_proc.c\<close>) are started with a blob of arguments and environment that the entry code
  (\<^verbatim>\<open>libc_start.c\<close>) takes apart, and end through \<^verbatim>\<open>exit.c\<close>, which runs the registered handlers and
  flushes the streams. Signals (\<^verbatim>\<open>rc_signal.c\<close>) are notes of the kernel, threads (\<^verbatim>\<open>rc_pthread.c\<close>) run to
  their end when they are created.

  \<^bold>\<open>Theories and sources\<close> (paths below \<^verbatim>\<open>src/lib/racccoon-libc\<close>):

  \<^item> \<^verbatim>\<open>Prelude\<close>: bytes, the conversions of C's integers, little-endian encodings, the collections
    \<^verbatim>\<open>inv_intros\<close>, \<^verbatim>\<open>mem_intros\<close>, \<^verbatim>\<open>abspath_simps\<close>.
  \<^item> \<^verbatim>\<open>CString\<close>: \<^verbatim>\<open>src/string.c\<close> over a byte-addressed memory in which unmapped accesses fail.
  \<^item> \<^verbatim>\<open>Ctype\<close>, \<^verbatim>\<open>StdlibNum\<close>, \<^verbatim>\<open>StdlibSort\<close>: \<^verbatim>\<open>src/ctype.c\<close> and \<^verbatim>\<open>src/stdlib.c\<close> (classes; number parsing and
    arithmetic; \<^verbatim>\<open>qsort\<close> and \<^verbatim>\<open>bsearch\<close>).
  \<^item> \<^verbatim>\<open>Kernel\<close>: the system calls as a record of functions over a world, a parameter of everything above it.
  \<^item> \<^verbatim>\<open>RcPath\<close>, \<^verbatim>\<open>RcFs\<close>: \<^verbatim>\<open>src/rc_fs.c\<close>, paths and the messages to the file server.
  \<^item> \<^verbatim>\<open>RcPosix\<close>, \<^verbatim>\<open>RcPosixMeta\<close>: \<^verbatim>\<open>src/rc_posix.c\<close>, the descriptor table with its operations, then metadata,
    directories, polling.
  \<^item> \<^verbatim>\<open>Stdio\<close>, \<^verbatim>\<open>Printf\<close>, \<^verbatim>\<open>Scanf\<close>: \<^verbatim>\<open>src/stdio.c\<close>, \<^verbatim>\<open>src/printf.c\<close>, \<^verbatim>\<open>src/scanf.c\<close>.
  \<^item> \<^verbatim>\<open>Fp\<close>: binary floating-point formats and their arithmetic, exact operations followed by rounding.
    \<^verbatim>\<open>FloatScan\<close>: \<^verbatim>\<open>src/floatscan.c\<close>; \<^verbatim>\<open>FloatRing\<close>, \<^verbatim>\<open>FloatRound\<close>, \<^verbatim>\<open>FloatDec\<close> follow the ring of limbs, the final
    rounding and the conversion of a decimal number, \<^verbatim>\<open>FloatText\<close> adds the text of a numeral, \<^verbatim>\<open>FloatSafe\<close> the
    bounds. \<^verbatim>\<open>FmtFp\<close>: \<^verbatim>\<open>src/fmt_fp.inc\<close>, the printing of floating-point numbers; \<^verbatim>\<open>FmtHex\<close> is about \<^verbatim>\<open>%a\<close>,
    \<^verbatim>\<open>FmtDec\<close>, \<^verbatim>\<open>FmtRound\<close> and \<^verbatim>\<open>FmtExp\<close> about the decimal limbs, their rounding and \<^verbatim>\<open>%e\<close>.
  \<^item> \<^verbatim>\<open>RcEnv\<close>: \<^verbatim>\<open>src/rc_env.c\<close> with an explicit heap of strings.
  \<^item> \<^verbatim>\<open>TimeC\<close>: \<^verbatim>\<open>src/time.c\<close>. \<^verbatim>\<open>RcProc\<close>: \<^verbatim>\<open>src/rc_proc.c\<close> and \<^verbatim>\<open>src/libc_start.c\<close>. \<^verbatim>\<open>Exit\<close>: \<^verbatim>\<open>src/exit.c\<close> and the
    handler table of \<^verbatim>\<open>src/stdlib.c\<close>.
  \<^item> \<^verbatim>\<open>InetAddr\<close>, \<^verbatim>\<open>RcSocket\<close>: \<^verbatim>\<open>src/rc_socket.c\<close> and the byte-order functions of \<^verbatim>\<open>include/netinet/in.h\<close>: first the
    pure part (addresses, DNS messages), then the calls.
  \<^item> \<^verbatim>\<open>RcPthread\<close>, \<^verbatim>\<open>RcSignal\<close>, \<^verbatim>\<open>Wchar\<close>: \<^verbatim>\<open>src/rc_pthread.c\<close>, \<^verbatim>\<open>src/rc_signal.c\<close>, \<^verbatim>\<open>src/wchar.c\<close>.
  \<^item> \<^verbatim>\<open>Runtime\<close>: \<^verbatim>\<open>src/errno.c\<close>, \<^verbatim>\<open>src/locale.c\<close>, \<^verbatim>\<open>src/fenv.c\<close>, \<^verbatim>\<open>src/dlfcn.c\<close>, \<^verbatim>\<open>src/assert.c\<close>, \<^verbatim>\<open>src/rc_glob_popen.c\<close>,
    \<^verbatim>\<open>__rc_map_pages\<close> of \<^verbatim>\<open>src/syscall.c\<close> and the memory source of the allocator in \<^verbatim>\<open>src/rc_malloc.c\<close>.

  A definition carries the name of the C function, without leading underscores, with a suffix \<^verbatim>\<open>_c\<close> where
  the name is taken; a loop of a function is a definition of its own. State is passed explicitly: the
  descriptor table with \<^verbatim>\<open>errno\<close> and the world in the record \<^verbatim>\<open>px\<close>, a stream in \<^verbatim>\<open>cfile\<close>, the environment
  in \<^verbatim>\<open>env\<close>, the process layer in \<^verbatim>\<open>pr\<close>, signals in \<^verbatim>\<open>sg\<close>, threads in \<^verbatim>\<open>pt\<close>. Error returns are values
  (the C result and the stored \<^verbatim>\<open>errno\<close>), and \<^verbatim>\<open>None\<close> stands for undefined behaviour (an access outside
  the memory, an argument list that does not fit the format) or for not returning, as the theories say.
\<close>

text \<open>
  \<^bold>\<open>Interfaces.\<close> Where one component relies on another the contract is a locale, interpreted on the
  definitions of the model:

  \<^item> \<^verbatim>\<open>file_server\<close> (\<^verbatim>\<open>RcFs\<close>): what the file servers of the system promise, as laws on the bytes of a request and
    of its reply. A write goes at most to the end of the file (there are no holes) and may stop at the
    capacity; a read may be short; a request without bytes may make an empty file or leave it to be
    made by the first byte, as exFAT does. It is interpreted on a reference server that decodes the
    requests, refuses holes, answers short and, by a switch, makes files late.
  \<^item> \<^verbatim>\<open>fs_store\<close> (\<^verbatim>\<open>RcFs\<close>): what the descriptor and stream layers need of the path-based file calls. The
    calls of \<^verbatim>\<open>rc_fs.c\<close> provide it over every \<^verbatim>\<open>file_server\<close> (a \<^verbatim>\<open>sublocale\<close>), so that the theorems above
    them assume the wire contract only.
  \<^item> \<^verbatim>\<open>sink\<close> (\<^verbatim>\<open>Printf\<close>): what the formatter needs of an output; interpreted on the bounded string and on
    the stream.
  \<^item> \<^verbatim>\<open>environment\<close> (\<^verbatim>\<open>RcEnv\<close>): \<^verbatim>\<open>setenv\<close> and \<^verbatim>\<open>unsetenv\<close> as updates of a map; interpreted on the heap of
    strings.
  \<^item> \<^verbatim>\<open>comparator\<close> and \<^verbatim>\<open>byte_comparator\<close> (\<^verbatim>\<open>StdlibSort\<close>): what sorting and searching need of the comparison
    function; interpreted on the comparison of strings.
  \<^item> \<^verbatim>\<open>net_hooks\<close> (\<^verbatim>\<open>RcSocket\<close>): what the descriptor layer needs of the socket layer; interpreted on the
    hooks of \<^verbatim>\<open>rc_socket.c\<close>. A call that would wait for its peer forever is an error of the hook.

  \<^bold>\<open>What is shown.\<close>

  \<^item> Functional correctness: \<^verbatim>\<open>memmove\<close> for every overlap and alignment, the tokenizer, number
    parsing (integers in every base, \<^verbatim>\<open>strtod\<close> and \<^verbatim>\<open>strtof\<close> as the nearest number of their format), sorting (with termination) and searching, path normalisation, \<^verbatim>\<open>open\<close>,
    \<^verbatim>\<open>read\<close> and \<^verbatim>\<open>write\<close> against the contents of a file whatever the chunks (and the failure of a write
    behind the end), \<^verbatim>\<open>ftruncate\<close>, name
    resolution from a DNS reply; as lemmas also the string searches, the clocks, \<^verbatim>\<open>fork\<close> with \<^verbatim>\<open>waitpid\<close>.
  \<^item> Round trips: a chunk through the file server, \<^verbatim>\<open>exec\<close> to the entry code of the new program, dotted
    addresses, the peer of a datagram, multibyte strings through wide characters, printed integers
    through \<^verbatim>\<open>sscanf\<close>, a double printed with \<^verbatim>\<open>%a\<close> or \<^verbatim>\<open>%.16e\<close> through \<^verbatim>\<open>strtod\<close>.
  \<^item> Refinements: buffered streams against the file, the formatter against the text it produces, the
    environment and the thread keys against a map.
  \<^item> Invariants: the descriptor table, the signal table, the mutex count.
  \<^item> Equivalences: \<^verbatim>\<open>strtod\<close> and \<^verbatim>\<open>strtoll\<close> on integers, the wide number parsers and the byte ones.
  \<^item> Termination: \<^verbatim>\<open>strtod\<close> returns on strings of at most 13000 characters.
  \<^item> Safety and bounds: the float scanner and its end pointer stay inside the string, for \<^verbatim>\<open>strtod\<close> and
    \<^verbatim>\<open>strtof\<close> its limbs stay inside the ring and their width, \<^verbatim>\<open>vsnprintf\<close> and \<^verbatim>\<open>__rc_abspath\<close> stay inside their buffers, a DNS reply is never read
    outside the bytes received, exit handlers run in reverse order.
  \<^item> Errors: places where the code loses data or goes wrong (\<^verbatim>\<open>ftruncate\<close> of a long file, a decimal number
    for which \<^verbatim>\<open>strtod\<close> stores before its array); as lemmas what \<^verbatim>\<open>setenv\<close> leaves when memory is short and
    \<^verbatim>\<open>ftell\<close> after a switch of direction.

  \<^bold>\<open>Loops.\<close> Bounded loops are structural or have a measure. A loop that the code does not bound itself
  (a scan of a string, the partition of \<^verbatim>\<open>qsort\<close>, waiting for a peer, handlers that register handlers) is
  a \<^theory_text>\<open>partial_function (option)\<close>; for the scans on terminated strings, for \<^verbatim>\<open>qsort\<close>
  and for plain handlers the theorems state that the function returns. \<^verbatim>\<open>getdelim\<close> takes fuel, the
  number of characters it may read; on a stream of a file one more step than bytes are left is enough, and
  it returns the line. The two scaling loops of \<^verbatim>\<open>decfloat\<close> and the
  normalisation of \<^verbatim>\<open>hexfloat\<close> are partial functions too; that they return is shown for strings of at most
  13000 characters and the formats \<^verbatim>\<open>float\<close> and \<^verbatim>\<open>double\<close>, not for \<^verbatim>\<open>strtold\<close>. The loops of \<^verbatim>\<open>fmt_fp\<close> end at the bounds of its arrays or have a measure.

  \<^bold>\<open>Parameters.\<close> The kernel's calls, the servers behind the paths, the success of \<^verbatim>\<open>malloc\<close>, the comparison
  given to \<^verbatim>\<open>qsort\<close>, thread functions, signal handlers and exit handlers, the initial contents of
  uninitialised arrays. The formatter and the scanner take the floating-point conversions as arguments, for
  which \<^verbatim>\<open>fmt_fp_pieces\<close> (\<^verbatim>\<open>FmtFp\<close>) and \<^verbatim>\<open>strtold\<close> (\<^verbatim>\<open>FloatScan\<close>) can be put.

  \<^bold>\<open>Not modelled.\<close> The allocator \<^verbatim>\<open>dlmalloc.inc\<close> is vendored, \<^verbatim>\<open>math.h\<close> only declares. \<^verbatim>\<open>ecall.c\<close>, \<^verbatim>\<open>start.c\<close>, \<^verbatim>\<open>start_mapped.c\<close> and
  \<^verbatim>\<open>setjmp.S\<close> are assembly. The kernel and the servers are not C.
\<close>

end
